(* ===== verification/Prelude.thy ===== *)
theory Prelude
  imports Main "HOL-Library.Word" "HOL-Library.Monad_Syntax" "HOL-Library.Sublist"
begin

text \<open>
  What every component shares: the machine integers, byte buffers with checked accesses, and bit
  strings.

  A C buffer is the list of its bytes.  Every access goes through \<open>load\<close>, \<open>store\<close>,
  \<open>load_block\<close> or \<open>store_block\<close>, which return \<open>None\<close> for an access outside the buffer (undefined
  behaviour in C), so a theorem that a kernel returns \<open>Some\<close> states its memory safety.  Sequential
  writes through a moving output pointer are one \<open>store_block\<close> of the bytes written
  (\<open>store_block_append\<close>), faults included.
\<close>

unbundle bit_operations_syntax

type_synonym u8 = "8 word"
type_synonym u16 = "16 word"
type_synonym u32 = "32 word"
type_synonym u64 = "64 word"
type_synonym bytes = "u8 list"

named_theorems mem_simps \<open>checked buffer accesses\<close>
named_theorems msbs_simps \<open>bit strings, most significant bit first\<close>

subsection \<open>Checked buffer accesses\<close>

definition load :: "'a list \<Rightarrow> nat \<Rightarrow> 'a option" where
  "load b i = (if i < length b then Some (b ! i) else None)"

definition store :: "'a list \<Rightarrow> nat \<Rightarrow> 'a \<Rightarrow> 'a list option" where
  "store b i x = (if i < length b then Some (b[i := x]) else None)"

definition load_block :: "'a list \<Rightarrow> nat \<Rightarrow> nat \<Rightarrow> 'a list option" where
  "load_block b i n = (if n = 0 \<or> i + n \<le> length b then Some (take n (drop i b)) else None)"

definition store_block :: "'a list \<Rightarrow> nat \<Rightarrow> 'a list \<Rightarrow> 'a list option" where
  "store_block b i xs =
     (if xs = [] then Some b
      else if i + length xs \<le> length b then Some (take i b @ xs @ drop (i + length xs) b)
      else None)"

lemma load_in [mem_simps]: "i < length b \<Longrightarrow> load b i = Some (b ! i)"
  by (simp add: load_def)

lemma load_Some_iff: "load b i = Some x \<longleftrightarrow> i < length b \<and> x = b ! i"
  by (auto simp: load_def)

lemma load_None_iff: "load b i = None \<longleftrightarrow> length b \<le> i"
  by (simp add: load_def)

lemma store_in [mem_simps]: "i < length b \<Longrightarrow> store b i x = Some (b[i := x])"
  by (simp add: store_def)

lemma load_block_in [mem_simps]:
  "i + n \<le> length b \<Longrightarrow> load_block b i n = Some (take n (drop i b))"
  by (simp add: load_block_def)

lemma load_block_length: "load_block b i n = Some v \<Longrightarrow> length v = n"
  by (auto simp: load_block_def split: if_splits)

lemma store_block_Nil [simp]: "store_block b i [] = Some b"
  by (simp add: store_block_def)

lemma store_block_in [mem_simps]:
  "i + length xs \<le> length b \<Longrightarrow> store_block b i xs = Some (take i b @ xs @ drop (i + length xs) b)"
  by (auto simp: store_block_def)

lemma store_block_out:
  "xs \<noteq> [] \<Longrightarrow> length b < i + length xs \<Longrightarrow> store_block b i xs = None"
  by (simp add: store_block_def)

lemma store_as_block: "store b i x = store_block b i [x]"
  by (simp add: store_def store_block_def upd_conv_take_nth_drop)

lemma store_block_length: "store_block b i xs = Some b' \<Longrightarrow> length b' = length b"
  by (auto simp: store_block_def split: if_splits)

lemma store_block_append:
  "store_block b i (xs @ ys) =
     Option.bind (store_block b i xs) (\<lambda>b'. store_block b' (i + length xs) ys)"
proof (cases "xs = [] \<or> ys = []")
  case True
  then show ?thesis
    by (cases "xs = []") (auto simp: store_block_def)
next
  case False
  then show ?thesis
    by (auto simp: store_block_def ac_simps min_def)
qed

lemma store_block_Cons:
  "store_block b i (x # xs) =
     Option.bind (store b i x) (\<lambda>b'. store_block b' (Suc i) xs)"
  using store_block_append [of b i "[x]" xs] by (simp add: store_as_block)

text \<open>What a block write leaves alone.\<close>

lemma store_block_nth_before: "store_block b i xs = Some b' \<Longrightarrow> k < i \<Longrightarrow> b' ! k = b ! k"
  by (auto simp: store_block_def nth_append split: if_splits)

lemma store_block_take: "store_block b i xs = Some b' \<Longrightarrow> n \<le> i \<Longrightarrow> take n b' = take n b"
  by (auto simp: store_block_def min_def split: if_splits)

lemma store_block_drop:
  "store_block b i xs = Some b' \<Longrightarrow> i + length xs \<le> n \<Longrightarrow> drop n b' = drop n b"
  by (auto simp: store_block_def split: if_splits)

lemma store_block_written:
  "store_block b i xs = Some b' \<Longrightarrow> take (length xs) (drop i b') = xs"
  by (auto simp: store_block_def split: if_splits)

lemma store_block_at_0:
  "store_block b 0 xs = Some b' \<longleftrightarrow> length xs \<le> length b \<and> b' = xs @ drop (length xs) b"
  by (auto simp: store_block_def split: if_splits)

text \<open>\<open>memmove\<close> within one memory: the block is read before it is written.\<close>

definition memmove :: "'a list \<Rightarrow> nat \<Rightarrow> nat \<Rightarrow> nat \<Rightarrow> 'a list option" where
  "memmove m dst src n = do { xs \<leftarrow> load_block m src n; store_block m dst xs }"

text \<open>\<open>frame lo hi m m'\<close>: \<open>m'\<close> differs from \<open>m\<close> at most in \<open>[lo, hi)\<close>.\<close>

definition frame :: "nat \<Rightarrow> nat \<Rightarrow> 'a list \<Rightarrow> 'a list \<Rightarrow> bool" where
  "frame lo hi m m' \<longleftrightarrow> length m' = length m \<and> (\<forall>k < length m. k < lo \<or> hi \<le> k \<longrightarrow> m' ! k = m ! k)"

lemma frame_refl [simp]: "frame lo hi m m"
  by (simp add: frame_def)

lemma frame_trans: "frame lo hi m m' \<Longrightarrow> frame lo hi m' m'' \<Longrightarrow> frame lo hi m m''"
  by (simp add: frame_def)

lemma frame_widen: "frame lo hi m m' \<Longrightarrow> lo' \<le> lo \<Longrightarrow> hi \<le> hi' \<Longrightarrow> frame lo' hi' m m'"
  by (auto simp: frame_def)

lemma frame_length: "frame lo hi m m' \<Longrightarrow> length m' = length m"
  by (simp add: frame_def)

lemma store_block_frame: "store_block m i xs = Some m' \<Longrightarrow> frame i (i + length xs) m m'"
  by (auto simp: frame_def store_block_def nth_append split: if_splits)

lemma frame_block:
  assumes "frame lo hi m m'" and "i + n \<le> length m" and "i + n \<le> lo \<or> hi \<le> i"
  shows "take n (drop i m') = take n (drop i m)"
  using assms by (intro nth_equalityI) (auto simp: frame_def)

lemma frame_take: "frame lo hi m m' \<Longrightarrow> n \<le> lo \<Longrightarrow> take n m' = take n m"
  by (intro nth_equalityI) (auto simp: frame_def)

lemma frame_drop: "frame lo hi m m' \<Longrightarrow> hi \<le> n \<Longrightarrow> drop n m' = drop n m"
  by (intro nth_equalityI) (auto simp: frame_def)

subsection \<open>Bit strings\<close>

text \<open>\<open>msbs n a\<close>: the \<open>n\<close> low bits of \<open>a\<close>, most significant first.\<close>

definition msbs :: "nat \<Rightarrow> 'a::semiring_bit_operations \<Rightarrow> bool list" where
  "msbs n a = map (bit a) (rev [0..<n])"

lemma msbs_length [simp]: "length (msbs n a) = n"
  by (simp add: msbs_def)

lemma msbs_0 [simp]: "msbs 0 a = []"
  by (simp add: msbs_def)

lemma msbs_nth [msbs_simps]: "i < n \<Longrightarrow> msbs n a ! i = bit a (n - Suc i)"
  by (simp add: msbs_def rev_nth)

lemma msbs_eqI: "length bs = n \<Longrightarrow> (\<And>i. i < n \<Longrightarrow> bs ! i = bit a (n - Suc i)) \<Longrightarrow> bs = msbs n a"
  by (simp add: list_eq_iff_nth_eq msbs_nth)

lemma msbs_append: "msbs (m + n) a = msbs m (drop_bit n a) @ msbs n a"
proof (rule msbs_eqI [symmetric])
  fix i assume "i < m + n"
  then show "(msbs m (drop_bit n a) @ msbs n a) ! i = bit a (m + n - Suc i)"
    by (cases "i < m") (auto simp: nth_append msbs_nth bit_drop_bit_eq add.commute [of n m])
qed simp

lemma msbs_take_bit: "n \<le> m \<Longrightarrow> msbs n (take_bit m a) = msbs n a"
  by (rule msbs_eqI) (auto simp: msbs_nth bit_take_bit_iff)

lemma msbs_cong: "(\<And>i. i < n \<Longrightarrow> bit a i = bit b i) \<Longrightarrow> msbs n a = msbs n b"
  by (simp add: list_eq_iff_nth_eq msbs_nth)

lemma msbs_eq_iff: "msbs n a = msbs n b \<longleftrightarrow> take_bit n a = take_bit n b"
proof
  assume eq: "msbs n a = msbs n b"
  show "take_bit n a = take_bit n b"
  proof (rule bit_eqI)
    fix i
    show "bit (take_bit n a) i = bit (take_bit n b) i"
      using arg_cong [OF eq, of "\<lambda>xs. xs ! (n - Suc i)"]
      by (auto simp: bit_take_bit_iff msbs_nth)
  qed
next
  assume "take_bit n a = take_bit n b"
  then show "msbs n a = msbs n b"
    by (metis msbs_take_bit order_refl)
qed

lemma msbs_byte_inj: "msbs 8 (a :: u8) = msbs 8 b \<Longrightarrow> a = b"
  by (simp add: msbs_eq_iff take_bit_length_eq [where 'a=8, simplified])

text \<open>The byte string written out as bits, and its inverse on whole bytes.\<close>

definition bits_of_bytes :: "bytes \<Rightarrow> bool list" where
  "bits_of_bytes bs = concat (map (msbs 8) bs)"

lemma bits_of_bytes_simps [simp]:
  "bits_of_bytes [] = []"
  "bits_of_bytes (b # bs) = msbs 8 b @ bits_of_bytes bs"
  "bits_of_bytes (xs @ ys) = bits_of_bytes xs @ bits_of_bytes ys"
  by (simp_all add: bits_of_bytes_def)

lemma bits_of_bytes_length [simp]: "length (bits_of_bytes bs) = 8 * length bs"
  by (induction bs) simp_all

lemma bits_of_bytes_inj: "bits_of_bytes xs = bits_of_bytes ys \<Longrightarrow> xs = ys"
proof (induction xs arbitrary: ys)
  case Nil
  then show ?case by (cases ys) (auto dest: arg_cong [where f = length])
next
  case (Cons x xs)
  then obtain y ys' where "ys = y # ys'"
    by (cases ys) (auto dest: arg_cong [where f = length])
  with Cons show ?case by (auto dest: msbs_byte_inj)
qed

text \<open>Whole bytes of a bit string; an incomplete last byte is dropped.\<close>

definition byte_of_bits :: "bool list \<Rightarrow> u8" where
  "byte_of_bits bs = horner_sum of_bool 2 (rev bs)"

lemma byte_of_bits_msbs: "length bs = 8 \<Longrightarrow> msbs 8 (byte_of_bits bs) = bs"
  by (rule msbs_eqI [symmetric]) (auto simp add: byte_of_bits_def bit_horner_sum_bit_iff rev_nth)

fun pack8 :: "bool list \<Rightarrow> bytes" where
  "pack8 bs = (if length bs < 8 then [] else byte_of_bits (take 8 bs) # pack8 (drop 8 bs))"

declare pack8.simps [simp del]

lemma pack8_short [simp]: "length bs < 8 \<Longrightarrow> pack8 bs = []"
  by (simp add: pack8.simps)

lemma pack8_byte: "length xs = 8 \<Longrightarrow> pack8 (xs @ ys) = byte_of_bits xs # pack8 ys"
  by (simp add: pack8.simps [of "xs @ ys"])

lemma pack8_length [simp]: "length (pack8 bs) = length bs div 8"
proof (induction bs rule: pack8.induct)
  case (1 bs)
  then show ?case
    by (cases "length bs < 8") (simp_all add: pack8.simps [of bs] le_div_geq)
qed

lemma bits_of_pack8: "bits_of_bytes (pack8 bs) = take (8 * (length bs div 8)) bs"
proof (induction bs rule: pack8.induct)
  case (1 bs)
  show ?case
  proof (cases "length bs < 8")
    case False
    then have "length bs div 8 = Suc ((length bs - 8) div 8)" by (simp add: le_div_geq)
    with False 1 show ?thesis
      by (simp add: pack8.simps [of bs] byte_of_bits_msbs take_add [of 8, simplified])
  qed simp
qed

lemma pack8_bits_of_bytes [simp]: "pack8 (bits_of_bytes bs) = bs"
  by (rule bits_of_bytes_inj) (simp add: bits_of_pack8)

lemma pack8_append:
  "pack8 (xs @ ys) = pack8 xs @ pack8 (drop (8 * (length xs div 8)) xs @ ys)"
proof (induction xs rule: pack8.induct)
  case (1 xs)
  show ?case
  proof (cases "length xs < 8")
    case False
    define zs where "zs = drop 8 xs"
    have xs: "xs = take 8 xs @ zs" and len: "length xs = 8 + length zs"
      using False by (simp_all add: zs_def)
    have "pack8 (xs @ ys) = byte_of_bits (take 8 xs) # pack8 (zs @ ys)"
      using False by (subst xs) (simp add: pack8_byte)
    also have "\<dots> = byte_of_bits (take 8 xs) # pack8 zs @ pack8 (drop (8 * (length zs div 8)) zs @ ys)"
      using 1 False by (simp add: zs_def)
    also have "drop (8 * (length zs div 8)) zs = drop (8 * (length xs div 8)) xs"
    proof -
      have "8 * (length xs div 8) = 8 * (length zs div 8) + 8" using len by presburger
      then show ?thesis by (simp only: zs_def drop_drop)
    qed
    finally show ?thesis using False by (simp add: pack8.simps [of xs] zs_def)
  qed simp
qed

subsection \<open>Exhaustive checks over small words\<close>

lemma upto_64: "[0..<64] = 0 # Suc 0 # [2..<64]"
  by (simp add: upt_conv_Cons)

lemmas upto_eval = upto_64 upt_rec_numeral

lemma list_all_upt: "list_all P (map of_nat [a..<b]) \<Longrightarrow> a \<le> i \<Longrightarrow> i < b \<Longrightarrow> P (of_nat i)"
  by (simp add: list_all_iff)

text \<open>The ranges are cut into four, which keeps the simplifier's terms small.\<close>

lemma word_cases_256:
  assumes "list_all P (map of_nat [0..<64])" and "list_all P (map of_nat [64..<128])"
    and "list_all P (map of_nat [128..<192])" and "list_all P (map of_nat [192..<256])"
    and "unat s < 256"
  shows "P (s :: 'a::len word)"
proof -
  have "P (of_nat i)" if "i < 256" for i
    using that list_all_upt [OF assms(1), of i] list_all_upt [OF assms(2), of i]
      list_all_upt [OF assms(3), of i] list_all_upt [OF assms(4), of i]
    by (meson le0 linorder_not_le)
  then have "P (of_nat (unat s))" using assms(5) by blast
  then show ?thesis by simp
qed

lemma unat_u8_less [simp]: "unat (c :: u8) < 256"
  using unsigned_less [of c] by simp

lemma all_bytes:
  assumes "list_all P (map of_nat [0..<64])" and "list_all P (map of_nat [64..<128])"
    and "list_all P (map of_nat [128..<192])" and "list_all P (map of_nat [192..<256])"
  shows "P (c :: u8)"
  by (rule word_cases_256 [OF assms]) simp

lemma unat_exp: "n < 64 \<Longrightarrow> unat (2 ^ n :: u64) = 2 ^ n"
proof -
  assume "n < 64"
  then have "(2 :: nat) ^ n < 2 ^ 64" by (intro power_strict_increasing) simp_all
  moreover have "(2 :: u64) ^ n = of_nat (2 ^ n)" by simp
  ultimately show ?thesis by (simp only: unat_of_nat) (simp add: take_bit_nat_eq_self)
qed

end
