(* ===== verification/Hpack_Table.thy ===== *)
theory Hpack_Table
  imports Prelude
begin

text \<open>
  The two constant tables of \<open>wireform-http2/cbits/hpack_huffman.c\<close>: the HPACK code table
  \<open>huff_encode_table\<close> (RFC 7541, Appendix B; symbol 256 is EOS) and the nibble automaton
  \<open>huff_decode_table\<close> (257 states, 16 transitions each).  The C initialiser of the automaton is
  one array of 257 rows; here it is the concatenation of eleven row groups of 25 states (the last
  one of seven), in the order of the source.
\<close>

subsection \<open>The encode table\<close>

record huff_sym =
  code :: u32
  bits :: u8

definition HS :: "u32 \<Rightarrow> u8 \<Rightarrow> huff_sym" where
  "HS c n = \<lparr>code = c, bits = n\<rparr>"

lemma HS_sel [simp]: "code (HS c n) = c" "bits (HS c n) = n"
  by (simp_all add: HS_def)

definition huff_encode_table :: "huff_sym list" where
  "huff_encode_table = [
    HS 0x1ff8 13, HS 0x7fffd8 23, HS 0xfffffe2 28, HS 0xfffffe3 28,
    HS 0xfffffe4 28, HS 0xfffffe5 28, HS 0xfffffe6 28, HS 0xfffffe7 28,
    HS 0xfffffe8 28, HS 0xffffea 24, HS 0x3ffffffc 30, HS 0xfffffe9 28,
    HS 0xfffffea 28, HS 0x3ffffffd 30, HS 0xfffffeb 28, HS 0xfffffec 28,
    HS 0xfffffed 28, HS 0xfffffee 28, HS 0xfffffef 28, HS 0xffffff0 28,
    HS 0xffffff1 28, HS 0xffffff2 28, HS 0x3ffffffe 30, HS 0xffffff3 28,
    HS 0xffffff4 28, HS 0xffffff5 28, HS 0xffffff6 28, HS 0xffffff7 28,
    HS 0xffffff8 28, HS 0xffffff9 28, HS 0xffffffa 28, HS 0xffffffb 28,
    HS 0x14 6, HS 0x3f8 10, HS 0x3f9 10, HS 0xffa 12,
    HS 0x1ff9 13, HS 0x15 6, HS 0xf8 8, HS 0x7fa 11,
    HS 0x3fa 10, HS 0x3fb 10, HS 0xf9 8, HS 0x7fb 11,
    HS 0xfa 8, HS 0x16 6, HS 0x17 6, HS 0x18 6,
    HS 0x0 5, HS 0x1 5, HS 0x2 5, HS 0x19 6,
    HS 0x1a 6, HS 0x1b 6, HS 0x1c 6, HS 0x1d 6,
    HS 0x1e 6, HS 0x1f 6, HS 0x5c 7, HS 0xfb 8,
    HS 0x7ffc 15, HS 0x20 6, HS 0xffb 12, HS 0x3fc 10,
    HS 0x1ffa 13, HS 0x21 6, HS 0x5d 7, HS 0x5e 7,
    HS 0x5f 7, HS 0x60 7, HS 0x61 7, HS 0x62 7,
    HS 0x63 7, HS 0x64 7, HS 0x65 7, HS 0x66 7,
    HS 0x67 7, HS 0x68 7, HS 0x69 7, HS 0x6a 7,
    HS 0x6b 7, HS 0x6c 7, HS 0x6d 7, HS 0x6e 7,
    HS 0x6f 7, HS 0x70 7, HS 0x71 7, HS 0x72 7,
    HS 0xfc 8, HS 0x73 7, HS 0xfd 8, HS 0x1ffb 13,
    HS 0x7fff0 19, HS 0x1ffc 13, HS 0x3ffc 14, HS 0x22 6,
    HS 0x7ffd 15, HS 0x3 5, HS 0x23 6, HS 0x4 5,
    HS 0x24 6, HS 0x5 5, HS 0x25 6, HS 0x26 6,
    HS 0x27 6, HS 0x6 5, HS 0x74 7, HS 0x75 7,
    HS 0x28 6, HS 0x29 6, HS 0x2a 6, HS 0x7 5,
    HS 0x2b 6, HS 0x76 7, HS 0x2c 6, HS 0x8 5,
    HS 0x9 5, HS 0x2d 6, HS 0x77 7, HS 0x78 7,
    HS 0x79 7, HS 0x7a 7, HS 0x7b 7, HS 0x7ffe 15,
    HS 0x7fc 11, HS 0x3ffd 14, HS 0x1ffd 13, HS 0xffffffc 28,
    HS 0xfffe6 20, HS 0x3fffd2 22, HS 0xfffe7 20, HS 0xfffe8 20,
    HS 0x3fffd3 22, HS 0x3fffd4 22, HS 0x3fffd5 22, HS 0x7fffd9 23,
    HS 0x3fffd6 22, HS 0x7fffda 23, HS 0x7fffdb 23, HS 0x7fffdc 23,
    HS 0x7fffdd 23, HS 0x7fffde 23, HS 0xffffeb 24, HS 0x7fffdf 23,
    HS 0xffffec 24, HS 0xffffed 24, HS 0x3fffd7 22, HS 0x7fffe0 23,
    HS 0xffffee 24, HS 0x7fffe1 23, HS 0x7fffe2 23, HS 0x7fffe3 23,
    HS 0x7fffe4 23, HS 0x1fffdc 21, HS 0x3fffd8 22, HS 0x7fffe5 23,
    HS 0x3fffd9 22, HS 0x7fffe6 23, HS 0x7fffe7 23, HS 0xffffef 24,
    HS 0x3fffda 22, HS 0x1fffdd 21, HS 0xfffe9 20, HS 0x3fffdb 22,
    HS 0x3fffdc 22, HS 0x7fffe8 23, HS 0x7fffe9 23, HS 0x1fffde 21,
    HS 0x7fffea 23, HS 0x3fffdd 22, HS 0x3fffde 22, HS 0xfffff0 24,
    HS 0x1fffdf 21, HS 0x3fffdf 22, HS 0x7fffeb 23, HS 0x7fffec 23,
    HS 0x1fffe0 21, HS 0x1fffe1 21, HS 0x3fffe0 22, HS 0x1fffe2 21,
    HS 0x7fffed 23, HS 0x3fffe1 22, HS 0x7fffee 23, HS 0x7fffef 23,
    HS 0xfffea 20, HS 0x3fffe2 22, HS 0x3fffe3 22, HS 0x3fffe4 22,
    HS 0x7ffff0 23, HS 0x3fffe5 22, HS 0x3fffe6 22, HS 0x7ffff1 23,
    HS 0x3ffffe0 26, HS 0x3ffffe1 26, HS 0xfffeb 20, HS 0x7fff1 19,
    HS 0x3fffe7 22, HS 0x7ffff2 23, HS 0x3fffe8 22, HS 0x1ffffec 25,
    HS 0x3ffffe2 26, HS 0x3ffffe3 26, HS 0x3ffffe4 26, HS 0x7ffffde 27,
    HS 0x7ffffdf 27, HS 0x3ffffe5 26, HS 0xfffff1 24, HS 0x1ffffed 25,
    HS 0x7fff2 19, HS 0x1fffe3 21, HS 0x3ffffe6 26, HS 0x7ffffe0 27,
    HS 0x7ffffe1 27, HS 0x3ffffe7 26, HS 0x7ffffe2 27, HS 0xfffff2 24,
    HS 0x1fffe4 21, HS 0x1fffe5 21, HS 0x3ffffe8 26, HS 0x3ffffe9 26,
    HS 0xffffffd 28, HS 0x7ffffe3 27, HS 0x7ffffe4 27, HS 0x7ffffe5 27,
    HS 0xfffec 20, HS 0xfffff3 24, HS 0xfffed 20, HS 0x1fffe6 21,
    HS 0x3fffe9 22, HS 0x1fffe7 21, HS 0x1fffe8 21, HS 0x7ffff3 23,
    HS 0x3fffea 22, HS 0x3fffeb 22, HS 0x1ffffee 25, HS 0x1ffffef 25,
    HS 0xfffff4 24, HS 0xfffff5 24, HS 0x3ffffea 26, HS 0x7ffff4 23,
    HS 0x3ffffeb 26, HS 0x7ffffe6 27, HS 0x3ffffec 26, HS 0x3ffffed 26,
    HS 0x7ffffe7 27, HS 0x7ffffe8 27, HS 0x7ffffe9 27, HS 0x7ffffea 27,
    HS 0x7ffffeb 27, HS 0xffffffe 28, HS 0x7ffffec 27, HS 0x7ffffed 27,
    HS 0x7ffffee 27, HS 0x7ffffef 27, HS 0x7fffff0 27, HS 0x3ffffee 26,
    HS 0x3fffffff 30
  ]"

subsection \<open>The decode automaton\<close>

definition HUFF_ACCEPTED :: u8 where
  "HUFF_ACCEPTED = 0x01"

definition HUFF_SYM :: u8 where
  "HUFF_SYM = 0x02"

definition HUFF_FAIL_STATE :: u16 where
  "HUFF_FAIL_STATE = 0x100"

record decode_entry =
  fstate :: u16
  flags :: u8
  esym :: u8

definition DE :: "u16 \<Rightarrow> u8 \<Rightarrow> u8 \<Rightarrow> decode_entry" where
  "DE s f c = \<lparr>fstate = s, flags = f, esym = c\<rparr>"

lemma DE_sel [simp]: "fstate (DE s f c) = s" "flags (DE s f c) = f" "esym (DE s f c) = c"
  by (simp_all add: DE_def)

definition huff_decode_rows_0 :: "decode_entry list list" where
  "huff_decode_rows_0 = [
    \<comment> \<open>state 0\<close>
    [DE 0x4 0 0, DE 0x5 0 0, DE 0x7 0 0, DE 0x8 0 0,
     DE 0xb 0 0, DE 0xc 0 0, DE 0x10 0 0, DE 0x13 0 0,
     DE 0x19 0 0, DE 0x1c 0 0, DE 0x20 0 0, DE 0x23 0 0,
     DE 0x2a 0 0, DE 0x31 0 0, DE 0x39 0 0, DE 0x40 1 0],
    \<comment> \<open>state 1\<close>
    [DE 0x0 3 48, DE 0x0 3 49, DE 0x0 3 50, DE 0x0 3 97,
     DE 0x0 3 99, DE 0x0 3 101, DE 0x0 3 105, DE 0x0 3 111,
     DE 0x0 3 115, DE 0x0 3 116, DE 0xd 0 0, DE 0xe 0 0,
     DE 0x11 0 0, DE 0x12 0 0, DE 0x14 0 0, DE 0x15 0 0],
    \<comment> \<open>state 2\<close>
    [DE 0x1 2 48, DE 0x16 3 48, DE 0x1 2 49, DE 0x16 3 49,
     DE 0x1 2 50, DE 0x16 3 50, DE 0x1 2 97, DE 0x16 3 97,
     DE 0x1 2 99, DE 0x16 3 99, DE 0x1 2 101, DE 0x16 3 101,
     DE 0x1 2 105, DE 0x16 3 105, DE 0x1 2 111, DE 0x16 3 111],
    \<comment> \<open>state 3\<close>
    [DE 0x2 2 48, DE 0x9 2 48, DE 0x17 2 48, DE 0x28 3 48,
     DE 0x2 2 49, DE 0x9 2 49, DE 0x17 2 49, DE 0x28 3 49,
     DE 0x2 2 50, DE 0x9 2 50, DE 0x17 2 50, DE 0x28 3 50,
     DE 0x2 2 97, DE 0x9 2 97, DE 0x17 2 97, DE 0x28 3 97],
    \<comment> \<open>state 4\<close>
    [DE 0x3 2 48, DE 0x6 2 48, DE 0xa 2 48, DE 0xf 2 48,
     DE 0x18 2 48, DE 0x1f 2 48, DE 0x29 2 48, DE 0x38 3 48,
     DE 0x3 2 49, DE 0x6 2 49, DE 0xa 2 49, DE 0xf 2 49,
     DE 0x18 2 49, DE 0x1f 2 49, DE 0x29 2 49, DE 0x38 3 49],
    \<comment> \<open>state 5\<close>
    [DE 0x3 2 50, DE 0x6 2 50, DE 0xa 2 50, DE 0xf 2 50,
     DE 0x18 2 50, DE 0x1f 2 50, DE 0x29 2 50, DE 0x38 3 50,
     DE 0x3 2 97, DE 0x6 2 97, DE 0xa 2 97, DE 0xf 2 97,
     DE 0x18 2 97, DE 0x1f 2 97, DE 0x29 2 97, DE 0x38 3 97],
    \<comment> \<open>state 6\<close>
    [DE 0x2 2 99, DE 0x9 2 99, DE 0x17 2 99, DE 0x28 3 99,
     DE 0x2 2 101, DE 0x9 2 101, DE 0x17 2 101, DE 0x28 3 101,
     DE 0x2 2 105, DE 0x9 2 105, DE 0x17 2 105, DE 0x28 3 105,
     DE 0x2 2 111, DE 0x9 2 111, DE 0x17 2 111, DE 0x28 3 111],
    \<comment> \<open>state 7\<close>
    [DE 0x3 2 99, DE 0x6 2 99, DE 0xa 2 99, DE 0xf 2 99,
     DE 0x18 2 99, DE 0x1f 2 99, DE 0x29 2 99, DE 0x38 3 99,
     DE 0x3 2 101, DE 0x6 2 101, DE 0xa 2 101, DE 0xf 2 101,
     DE 0x18 2 101, DE 0x1f 2 101, DE 0x29 2 101, DE 0x38 3 101],
    \<comment> \<open>state 8\<close>
    [DE 0x3 2 105, DE 0x6 2 105, DE 0xa 2 105, DE 0xf 2 105,
     DE 0x18 2 105, DE 0x1f 2 105, DE 0x29 2 105, DE 0x38 3 105,
     DE 0x3 2 111, DE 0x6 2 111, DE 0xa 2 111, DE 0xf 2 111,
     DE 0x18 2 111, DE 0x1f 2 111, DE 0x29 2 111, DE 0x38 3 111],
    \<comment> \<open>state 9\<close>
    [DE 0x1 2 115, DE 0x16 3 115, DE 0x1 2 116, DE 0x16 3 116,
     DE 0x0 3 32, DE 0x0 3 37, DE 0x0 3 45, DE 0x0 3 46,
     DE 0x0 3 47, DE 0x0 3 51, DE 0x0 3 52, DE 0x0 3 53,
     DE 0x0 3 54, DE 0x0 3 55, DE 0x0 3 56, DE 0x0 3 57],
    \<comment> \<open>state 10\<close>
    [DE 0x2 2 115, DE 0x9 2 115, DE 0x17 2 115, DE 0x28 3 115,
     DE 0x2 2 116, DE 0x9 2 116, DE 0x17 2 116, DE 0x28 3 116,
     DE 0x1 2 32, DE 0x16 3 32, DE 0x1 2 37, DE 0x16 3 37,
     DE 0x1 2 45, DE 0x16 3 45, DE 0x1 2 46, DE 0x16 3 46],
    \<comment> \<open>state 11\<close>
    [DE 0x3 2 115, DE 0x6 2 115, DE 0xa 2 115, DE 0xf 2 115,
     DE 0x18 2 115, DE 0x1f 2 115, DE 0x29 2 115, DE 0x38 3 115,
     DE 0x3 2 116, DE 0x6 2 116, DE 0xa 2 116, DE 0xf 2 116,
     DE 0x18 2 116, DE 0x1f 2 116, DE 0x29 2 116, DE 0x38 3 116],
    \<comment> \<open>state 12\<close>
    [DE 0x2 2 32, DE 0x9 2 32, DE 0x17 2 32, DE 0x28 3 32,
     DE 0x2 2 37, DE 0x9 2 37, DE 0x17 2 37, DE 0x28 3 37,
     DE 0x2 2 45, DE 0x9 2 45, DE 0x17 2 45, DE 0x28 3 45,
     DE 0x2 2 46, DE 0x9 2 46, DE 0x17 2 46, DE 0x28 3 46],
    \<comment> \<open>state 13\<close>
    [DE 0x3 2 32, DE 0x6 2 32, DE 0xa 2 32, DE 0xf 2 32,
     DE 0x18 2 32, DE 0x1f 2 32, DE 0x29 2 32, DE 0x38 3 32,
     DE 0x3 2 37, DE 0x6 2 37, DE 0xa 2 37, DE 0xf 2 37,
     DE 0x18 2 37, DE 0x1f 2 37, DE 0x29 2 37, DE 0x38 3 37],
    \<comment> \<open>state 14\<close>
    [DE 0x3 2 45, DE 0x6 2 45, DE 0xa 2 45, DE 0xf 2 45,
     DE 0x18 2 45, DE 0x1f 2 45, DE 0x29 2 45, DE 0x38 3 45,
     DE 0x3 2 46, DE 0x6 2 46, DE 0xa 2 46, DE 0xf 2 46,
     DE 0x18 2 46, DE 0x1f 2 46, DE 0x29 2 46, DE 0x38 3 46],
    \<comment> \<open>state 15\<close>
    [DE 0x1 2 47, DE 0x16 3 47, DE 0x1 2 51, DE 0x16 3 51,
     DE 0x1 2 52, DE 0x16 3 52, DE 0x1 2 53, DE 0x16 3 53,
     DE 0x1 2 54, DE 0x16 3 54, DE 0x1 2 55, DE 0x16 3 55,
     DE 0x1 2 56, DE 0x16 3 56, DE 0x1 2 57, DE 0x16 3 57],
    \<comment> \<open>state 16\<close>
    [DE 0x2 2 47, DE 0x9 2 47, DE 0x17 2 47, DE 0x28 3 47,
     DE 0x2 2 51, DE 0x9 2 51, DE 0x17 2 51, DE 0x28 3 51,
     DE 0x2 2 52, DE 0x9 2 52, DE 0x17 2 52, DE 0x28 3 52,
     DE 0x2 2 53, DE 0x9 2 53, DE 0x17 2 53, DE 0x28 3 53],
    \<comment> \<open>state 17\<close>
    [DE 0x3 2 47, DE 0x6 2 47, DE 0xa 2 47, DE 0xf 2 47,
     DE 0x18 2 47, DE 0x1f 2 47, DE 0x29 2 47, DE 0x38 3 47,
     DE 0x3 2 51, DE 0x6 2 51, DE 0xa 2 51, DE 0xf 2 51,
     DE 0x18 2 51, DE 0x1f 2 51, DE 0x29 2 51, DE 0x38 3 51],
    \<comment> \<open>state 18\<close>
    [DE 0x3 2 52, DE 0x6 2 52, DE 0xa 2 52, DE 0xf 2 52,
     DE 0x18 2 52, DE 0x1f 2 52, DE 0x29 2 52, DE 0x38 3 52,
     DE 0x3 2 53, DE 0x6 2 53, DE 0xa 2 53, DE 0xf 2 53,
     DE 0x18 2 53, DE 0x1f 2 53, DE 0x29 2 53, DE 0x38 3 53],
    \<comment> \<open>state 19\<close>
    [DE 0x2 2 54, DE 0x9 2 54, DE 0x17 2 54, DE 0x28 3 54,
     DE 0x2 2 55, DE 0x9 2 55, DE 0x17 2 55, DE 0x28 3 55,
     DE 0x2 2 56, DE 0x9 2 56, DE 0x17 2 56, DE 0x28 3 56,
     DE 0x2 2 57, DE 0x9 2 57, DE 0x17 2 57, DE 0x28 3 57],
    \<comment> \<open>state 20\<close>
    [DE 0x3 2 54, DE 0x6 2 54, DE 0xa 2 54, DE 0xf 2 54,
     DE 0x18 2 54, DE 0x1f 2 54, DE 0x29 2 54, DE 0x38 3 54,
     DE 0x3 2 55, DE 0x6 2 55, DE 0xa 2 55, DE 0xf 2 55,
     DE 0x18 2 55, DE 0x1f 2 55, DE 0x29 2 55, DE 0x38 3 55],
    \<comment> \<open>state 21\<close>
    [DE 0x3 2 56, DE 0x6 2 56, DE 0xa 2 56, DE 0xf 2 56,
     DE 0x18 2 56, DE 0x1f 2 56, DE 0x29 2 56, DE 0x38 3 56,
     DE 0x3 2 57, DE 0x6 2 57, DE 0xa 2 57, DE 0xf 2 57,
     DE 0x18 2 57, DE 0x1f 2 57, DE 0x29 2 57, DE 0x38 3 57],
    \<comment> \<open>state 22\<close>
    [DE 0x1a 0 0, DE 0x1b 0 0, DE 0x1d 0 0, DE 0x1e 0 0,
     DE 0x21 0 0, DE 0x22 0 0, DE 0x24 0 0, DE 0x25 0 0,
     DE 0x2b 0 0, DE 0x2e 0 0, DE 0x32 0 0, DE 0x35 0 0,
     DE 0x3a 0 0, DE 0x3d 0 0, DE 0x41 0 0, DE 0x44 1 0],
    \<comment> \<open>state 23\<close>
    [DE 0x0 3 61, DE 0x0 3 65, DE 0x0 3 95, DE 0x0 3 98,
     DE 0x0 3 100, DE 0x0 3 102, DE 0x0 3 103, DE 0x0 3 104,
     DE 0x0 3 108, DE 0x0 3 109, DE 0x0 3 110, DE 0x0 3 112,
     DE 0x0 3 114, DE 0x0 3 117, DE 0x26 0 0, DE 0x27 0 0],
    \<comment> \<open>state 24\<close>
    [DE 0x1 2 61, DE 0x16 3 61, DE 0x1 2 65, DE 0x16 3 65,
     DE 0x1 2 95, DE 0x16 3 95, DE 0x1 2 98, DE 0x16 3 98,
     DE 0x1 2 100, DE 0x16 3 100, DE 0x1 2 102, DE 0x16 3 102,
     DE 0x1 2 103, DE 0x16 3 103, DE 0x1 2 104, DE 0x16 3 104]
  ]"

definition huff_decode_rows_1 :: "decode_entry list list" where
  "huff_decode_rows_1 = [
    \<comment> \<open>state 25\<close>
    [DE 0x2 2 61, DE 0x9 2 61, DE 0x17 2 61, DE 0x28 3 61,
     DE 0x2 2 65, DE 0x9 2 65, DE 0x17 2 65, DE 0x28 3 65,
     DE 0x2 2 95, DE 0x9 2 95, DE 0x17 2 95, DE 0x28 3 95,
     DE 0x2 2 98, DE 0x9 2 98, DE 0x17 2 98, DE 0x28 3 98],
    \<comment> \<open>state 26\<close>
    [DE 0x3 2 61, DE 0x6 2 61, DE 0xa 2 61, DE 0xf 2 61,
     DE 0x18 2 61, DE 0x1f 2 61, DE 0x29 2 61, DE 0x38 3 61,
     DE 0x3 2 65, DE 0x6 2 65, DE 0xa 2 65, DE 0xf 2 65,
     DE 0x18 2 65, DE 0x1f 2 65, DE 0x29 2 65, DE 0x38 3 65],
    \<comment> \<open>state 27\<close>
    [DE 0x3 2 95, DE 0x6 2 95, DE 0xa 2 95, DE 0xf 2 95,
     DE 0x18 2 95, DE 0x1f 2 95, DE 0x29 2 95, DE 0x38 3 95,
     DE 0x3 2 98, DE 0x6 2 98, DE 0xa 2 98, DE 0xf 2 98,
     DE 0x18 2 98, DE 0x1f 2 98, DE 0x29 2 98, DE 0x38 3 98],
    \<comment> \<open>state 28\<close>
    [DE 0x2 2 100, DE 0x9 2 100, DE 0x17 2 100, DE 0x28 3 100,
     DE 0x2 2 102, DE 0x9 2 102, DE 0x17 2 102, DE 0x28 3 102,
     DE 0x2 2 103, DE 0x9 2 103, DE 0x17 2 103, DE 0x28 3 103,
     DE 0x2 2 104, DE 0x9 2 104, DE 0x17 2 104, DE 0x28 3 104],
    \<comment> \<open>state 29\<close>
    [DE 0x3 2 100, DE 0x6 2 100, DE 0xa 2 100, DE 0xf 2 100,
     DE 0x18 2 100, DE 0x1f 2 100, DE 0x29 2 100, DE 0x38 3 100,
     DE 0x3 2 102, DE 0x6 2 102, DE 0xa 2 102, DE 0xf 2 102,
     DE 0x18 2 102, DE 0x1f 2 102, DE 0x29 2 102, DE 0x38 3 102],
    \<comment> \<open>state 30\<close>
    [DE 0x3 2 103, DE 0x6 2 103, DE 0xa 2 103, DE 0xf 2 103,
     DE 0x18 2 103, DE 0x1f 2 103, DE 0x29 2 103, DE 0x38 3 103,
     DE 0x3 2 104, DE 0x6 2 104, DE 0xa 2 104, DE 0xf 2 104,
     DE 0x18 2 104, DE 0x1f 2 104, DE 0x29 2 104, DE 0x38 3 104],
    \<comment> \<open>state 31\<close>
    [DE 0x1 2 108, DE 0x16 3 108, DE 0x1 2 109, DE 0x16 3 109,
     DE 0x1 2 110, DE 0x16 3 110, DE 0x1 2 112, DE 0x16 3 112,
     DE 0x1 2 114, DE 0x16 3 114, DE 0x1 2 117, DE 0x16 3 117,
     DE 0x0 3 58, DE 0x0 3 66, DE 0x0 3 67, DE 0x0 3 68],
    \<comment> \<open>state 32\<close>
    [DE 0x2 2 108, DE 0x9 2 108, DE 0x17 2 108, DE 0x28 3 108,
     DE 0x2 2 109, DE 0x9 2 109, DE 0x17 2 109, DE 0x28 3 109,
     DE 0x2 2 110, DE 0x9 2 110, DE 0x17 2 110, DE 0x28 3 110,
     DE 0x2 2 112, DE 0x9 2 112, DE 0x17 2 112, DE 0x28 3 112],
    \<comment> \<open>state 33\<close>
    [DE 0x3 2 108, DE 0x6 2 108, DE 0xa 2 108, DE 0xf 2 108,
     DE 0x18 2 108, DE 0x1f 2 108, DE 0x29 2 108, DE 0x38 3 108,
     DE 0x3 2 109, DE 0x6 2 109, DE 0xa 2 109, DE 0xf 2 109,
     DE 0x18 2 109, DE 0x1f 2 109, DE 0x29 2 109, DE 0x38 3 109],
    \<comment> \<open>state 34\<close>
    [DE 0x3 2 110, DE 0x6 2 110, DE 0xa 2 110, DE 0xf 2 110,
     DE 0x18 2 110, DE 0x1f 2 110, DE 0x29 2 110, DE 0x38 3 110,
     DE 0x3 2 112, DE 0x6 2 112, DE 0xa 2 112, DE 0xf 2 112,
     DE 0x18 2 112, DE 0x1f 2 112, DE 0x29 2 112, DE 0x38 3 112],
    \<comment> \<open>state 35\<close>
    [DE 0x2 2 114, DE 0x9 2 114, DE 0x17 2 114, DE 0x28 3 114,
     DE 0x2 2 117, DE 0x9 2 117, DE 0x17 2 117, DE 0x28 3 117,
     DE 0x1 2 58, DE 0x16 3 58, DE 0x1 2 66, DE 0x16 3 66,
     DE 0x1 2 67, DE 0x16 3 67, DE 0x1 2 68, DE 0x16 3 68],
    \<comment> \<open>state 36\<close>
    [DE 0x3 2 114, DE 0x6 2 114, DE 0xa 2 114, DE 0xf 2 114,
     DE 0x18 2 114, DE 0x1f 2 114, DE 0x29 2 114, DE 0x38 3 114,
     DE 0x3 2 117, DE 0x6 2 117, DE 0xa 2 117, DE 0xf 2 117,
     DE 0x18 2 117, DE 0x1f 2 117, DE 0x29 2 117, DE 0x38 3 117],
    \<comment> \<open>state 37\<close>
    [DE 0x2 2 58, DE 0x9 2 58, DE 0x17 2 58, DE 0x28 3 58,
     DE 0x2 2 66, DE 0x9 2 66, DE 0x17 2 66, DE 0x28 3 66,
     DE 0x2 2 67, DE 0x9 2 67, DE 0x17 2 67, DE 0x28 3 67,
     DE 0x2 2 68, DE 0x9 2 68, DE 0x17 2 68, DE 0x28 3 68],
    \<comment> \<open>state 38\<close>
    [DE 0x3 2 58, DE 0x6 2 58, DE 0xa 2 58, DE 0xf 2 58,
     DE 0x18 2 58, DE 0x1f 2 58, DE 0x29 2 58, DE 0x38 3 58,
     DE 0x3 2 66, DE 0x6 2 66, DE 0xa 2 66, DE 0xf 2 66,
     DE 0x18 2 66, DE 0x1f 2 66, DE 0x29 2 66, DE 0x38 3 66],
    \<comment> \<open>state 39\<close>
    [DE 0x3 2 67, DE 0x6 2 67, DE 0xa 2 67, DE 0xf 2 67,
     DE 0x18 2 67, DE 0x1f 2 67, DE 0x29 2 67, DE 0x38 3 67,
     DE 0x3 2 68, DE 0x6 2 68, DE 0xa 2 68, DE 0xf 2 68,
     DE 0x18 2 68, DE 0x1f 2 68, DE 0x29 2 68, DE 0x38 3 68],
    \<comment> \<open>state 40\<close>
    [DE 0x2c 0 0, DE 0x2d 0 0, DE 0x2f 0 0, DE 0x30 0 0,
     DE 0x33 0 0, DE 0x34 0 0, DE 0x36 0 0, DE 0x37 0 0,
     DE 0x3b 0 0, DE 0x3c 0 0, DE 0x3e 0 0, DE 0x3f 0 0,
     DE 0x42 0 0, DE 0x43 0 0, DE 0x45 0 0, DE 0x48 1 0],
    \<comment> \<open>state 41\<close>
    [DE 0x0 3 69, DE 0x0 3 70, DE 0x0 3 71, DE 0x0 3 72,
     DE 0x0 3 73, DE 0x0 3 74, DE 0x0 3 75, DE 0x0 3 76,
     DE 0x0 3 77, DE 0x0 3 78, DE 0x0 3 79, DE 0x0 3 80,
     DE 0x0 3 81, DE 0x0 3 82, DE 0x0 3 83, DE 0x0 3 84],
    \<comment> \<open>state 42\<close>
    [DE 0x1 2 69, DE 0x16 3 69, DE 0x1 2 70, DE 0x16 3 70,
     DE 0x1 2 71, DE 0x16 3 71, DE 0x1 2 72, DE 0x16 3 72,
     DE 0x1 2 73, DE 0x16 3 73, DE 0x1 2 74, DE 0x16 3 74,
     DE 0x1 2 75, DE 0x16 3 75, DE 0x1 2 76, DE 0x16 3 76],
    \<comment> \<open>state 43\<close>
    [DE 0x2 2 69, DE 0x9 2 69, DE 0x17 2 69, DE 0x28 3 69,
     DE 0x2 2 70, DE 0x9 2 70, DE 0x17 2 70, DE 0x28 3 70,
     DE 0x2 2 71, DE 0x9 2 71, DE 0x17 2 71, DE 0x28 3 71,
     DE 0x2 2 72, DE 0x9 2 72, DE 0x17 2 72, DE 0x28 3 72],
    \<comment> \<open>state 44\<close>
    [DE 0x3 2 69, DE 0x6 2 69, DE 0xa 2 69, DE 0xf 2 69,
     DE 0x18 2 69, DE 0x1f 2 69, DE 0x29 2 69, DE 0x38 3 69,
     DE 0x3 2 70, DE 0x6 2 70, DE 0xa 2 70, DE 0xf 2 70,
     DE 0x18 2 70, DE 0x1f 2 70, DE 0x29 2 70, DE 0x38 3 70],
    \<comment> \<open>state 45\<close>
    [DE 0x3 2 71, DE 0x6 2 71, DE 0xa 2 71, DE 0xf 2 71,
     DE 0x18 2 71, DE 0x1f 2 71, DE 0x29 2 71, DE 0x38 3 71,
     DE 0x3 2 72, DE 0x6 2 72, DE 0xa 2 72, DE 0xf 2 72,
     DE 0x18 2 72, DE 0x1f 2 72, DE 0x29 2 72, DE 0x38 3 72],
    \<comment> \<open>state 46\<close>
    [DE 0x2 2 73, DE 0x9 2 73, DE 0x17 2 73, DE 0x28 3 73,
     DE 0x2 2 74, DE 0x9 2 74, DE 0x17 2 74, DE 0x28 3 74,
     DE 0x2 2 75, DE 0x9 2 75, DE 0x17 2 75, DE 0x28 3 75,
     DE 0x2 2 76, DE 0x9 2 76, DE 0x17 2 76, DE 0x28 3 76],
    \<comment> \<open>state 47\<close>
    [DE 0x3 2 73, DE 0x6 2 73, DE 0xa 2 73, DE 0xf 2 73,
     DE 0x18 2 73, DE 0x1f 2 73, DE 0x29 2 73, DE 0x38 3 73,
     DE 0x3 2 74, DE 0x6 2 74, DE 0xa 2 74, DE 0xf 2 74,
     DE 0x18 2 74, DE 0x1f 2 74, DE 0x29 2 74, DE 0x38 3 74],
    \<comment> \<open>state 48\<close>
    [DE 0x3 2 75, DE 0x6 2 75, DE 0xa 2 75, DE 0xf 2 75,
     DE 0x18 2 75, DE 0x1f 2 75, DE 0x29 2 75, DE 0x38 3 75,
     DE 0x3 2 76, DE 0x6 2 76, DE 0xa 2 76, DE 0xf 2 76,
     DE 0x18 2 76, DE 0x1f 2 76, DE 0x29 2 76, DE 0x38 3 76],
    \<comment> \<open>state 49\<close>
    [DE 0x1 2 77, DE 0x16 3 77, DE 0x1 2 78, DE 0x16 3 78,
     DE 0x1 2 79, DE 0x16 3 79, DE 0x1 2 80, DE 0x16 3 80,
     DE 0x1 2 81, DE 0x16 3 81, DE 0x1 2 82, DE 0x16 3 82,
     DE 0x1 2 83, DE 0x16 3 83, DE 0x1 2 84, DE 0x16 3 84]
  ]"

definition huff_decode_rows_2 :: "decode_entry list list" where
  "huff_decode_rows_2 = [
    \<comment> \<open>state 50\<close>
    [DE 0x2 2 77, DE 0x9 2 77, DE 0x17 2 77, DE 0x28 3 77,
     DE 0x2 2 78, DE 0x9 2 78, DE 0x17 2 78, DE 0x28 3 78,
     DE 0x2 2 79, DE 0x9 2 79, DE 0x17 2 79, DE 0x28 3 79,
     DE 0x2 2 80, DE 0x9 2 80, DE 0x17 2 80, DE 0x28 3 80],
    \<comment> \<open>state 51\<close>
    [DE 0x3 2 77, DE 0x6 2 77, DE 0xa 2 77, DE 0xf 2 77,
     DE 0x18 2 77, DE 0x1f 2 77, DE 0x29 2 77, DE 0x38 3 77,
     DE 0x3 2 78, DE 0x6 2 78, DE 0xa 2 78, DE 0xf 2 78,
     DE 0x18 2 78, DE 0x1f 2 78, DE 0x29 2 78, DE 0x38 3 78],
    \<comment> \<open>state 52\<close>
    [DE 0x3 2 79, DE 0x6 2 79, DE 0xa 2 79, DE 0xf 2 79,
     DE 0x18 2 79, DE 0x1f 2 79, DE 0x29 2 79, DE 0x38 3 79,
     DE 0x3 2 80, DE 0x6 2 80, DE 0xa 2 80, DE 0xf 2 80,
     DE 0x18 2 80, DE 0x1f 2 80, DE 0x29 2 80, DE 0x38 3 80],
    \<comment> \<open>state 53\<close>
    [DE 0x2 2 81, DE 0x9 2 81, DE 0x17 2 81, DE 0x28 3 81,
     DE 0x2 2 82, DE 0x9 2 82, DE 0x17 2 82, DE 0x28 3 82,
     DE 0x2 2 83, DE 0x9 2 83, DE 0x17 2 83, DE 0x28 3 83,
     DE 0x2 2 84, DE 0x9 2 84, DE 0x17 2 84, DE 0x28 3 84],
    \<comment> \<open>state 54\<close>
    [DE 0x3 2 81, DE 0x6 2 81, DE 0xa 2 81, DE 0xf 2 81,
     DE 0x18 2 81, DE 0x1f 2 81, DE 0x29 2 81, DE 0x38 3 81,
     DE 0x3 2 82, DE 0x6 2 82, DE 0xa 2 82, DE 0xf 2 82,
     DE 0x18 2 82, DE 0x1f 2 82, DE 0x29 2 82, DE 0x38 3 82],
    \<comment> \<open>state 55\<close>
    [DE 0x3 2 83, DE 0x6 2 83, DE 0xa 2 83, DE 0xf 2 83,
     DE 0x18 2 83, DE 0x1f 2 83, DE 0x29 2 83, DE 0x38 3 83,
     DE 0x3 2 84, DE 0x6 2 84, DE 0xa 2 84, DE 0xf 2 84,
     DE 0x18 2 84, DE 0x1f 2 84, DE 0x29 2 84, DE 0x38 3 84],
    \<comment> \<open>state 56\<close>
    [DE 0x0 3 85, DE 0x0 3 86, DE 0x0 3 87, DE 0x0 3 89,
     DE 0x0 3 106, DE 0x0 3 107, DE 0x0 3 113, DE 0x0 3 118,
     DE 0x0 3 119, DE 0x0 3 120, DE 0x0 3 121, DE 0x0 3 122,
     DE 0x46 0 0, DE 0x47 0 0, DE 0x49 0 0, DE 0x4a 1 0],
    \<comment> \<open>state 57\<close>
    [DE 0x1 2 85, DE 0x16 3 85, DE 0x1 2 86, DE 0x16 3 86,
     DE 0x1 2 87, DE 0x16 3 87, DE 0x1 2 89, DE 0x16 3 89,
     DE 0x1 2 106, DE 0x16 3 106, DE 0x1 2 107, DE 0x16 3 107,
     DE 0x1 2 113, DE 0x16 3 113, DE 0x1 2 118, DE 0x16 3 118],
    \<comment> \<open>state 58\<close>
    [DE 0x2 2 85, DE 0x9 2 85, DE 0x17 2 85, DE 0x28 3 85,
     DE 0x2 2 86, DE 0x9 2 86, DE 0x17 2 86, DE 0x28 3 86,
     DE 0x2 2 87, DE 0x9 2 87, DE 0x17 2 87, DE 0x28 3 87,
     DE 0x2 2 89, DE 0x9 2 89, DE 0x17 2 89, DE 0x28 3 89],
    \<comment> \<open>state 59\<close>
    [DE 0x3 2 85, DE 0x6 2 85, DE 0xa 2 85, DE 0xf 2 85,
     DE 0x18 2 85, DE 0x1f 2 85, DE 0x29 2 85, DE 0x38 3 85,
     DE 0x3 2 86, DE 0x6 2 86, DE 0xa 2 86, DE 0xf 2 86,
     DE 0x18 2 86, DE 0x1f 2 86, DE 0x29 2 86, DE 0x38 3 86],
    \<comment> \<open>state 60\<close>
    [DE 0x3 2 87, DE 0x6 2 87, DE 0xa 2 87, DE 0xf 2 87,
     DE 0x18 2 87, DE 0x1f 2 87, DE 0x29 2 87, DE 0x38 3 87,
     DE 0x3 2 89, DE 0x6 2 89, DE 0xa 2 89, DE 0xf 2 89,
     DE 0x18 2 89, DE 0x1f 2 89, DE 0x29 2 89, DE 0x38 3 89],
    \<comment> \<open>state 61\<close>
    [DE 0x2 2 106, DE 0x9 2 106, DE 0x17 2 106, DE 0x28 3 106,
     DE 0x2 2 107, DE 0x9 2 107, DE 0x17 2 107, DE 0x28 3 107,
     DE 0x2 2 113, DE 0x9 2 113, DE 0x17 2 113, DE 0x28 3 113,
     DE 0x2 2 118, DE 0x9 2 118, DE 0x17 2 118, DE 0x28 3 118],
    \<comment> \<open>state 62\<close>
    [DE 0x3 2 106, DE 0x6 2 106, DE 0xa 2 106, DE 0xf 2 106,
     DE 0x18 2 106, DE 0x1f 2 106, DE 0x29 2 106, DE 0x38 3 106,
     DE 0x3 2 107, DE 0x6 2 107, DE 0xa 2 107, DE 0xf 2 107,
     DE 0x18 2 107, DE 0x1f 2 107, DE 0x29 2 107, DE 0x38 3 107],
    \<comment> \<open>state 63\<close>
    [DE 0x3 2 113, DE 0x6 2 113, DE 0xa 2 113, DE 0xf 2 113,
     DE 0x18 2 113, DE 0x1f 2 113, DE 0x29 2 113, DE 0x38 3 113,
     DE 0x3 2 118, DE 0x6 2 118, DE 0xa 2 118, DE 0xf 2 118,
     DE 0x18 2 118, DE 0x1f 2 118, DE 0x29 2 118, DE 0x38 3 118],
    \<comment> \<open>state 64\<close>
    [DE 0x1 2 119, DE 0x16 3 119, DE 0x1 2 120, DE 0x16 3 120,
     DE 0x1 2 121, DE 0x16 3 121, DE 0x1 2 122, DE 0x16 3 122,
     DE 0x0 3 38, DE 0x0 3 42, DE 0x0 3 44, DE 0x0 3 59,
     DE 0x0 3 88, DE 0x0 3 90, DE 0x4b 0 0, DE 0x4e 0 0],
    \<comment> \<open>state 65\<close>
    [DE 0x2 2 119, DE 0x9 2 119, DE 0x17 2 119, DE 0x28 3 119,
     DE 0x2 2 120, DE 0x9 2 120, DE 0x17 2 120, DE 0x28 3 120,
     DE 0x2 2 121, DE 0x9 2 121, DE 0x17 2 121, DE 0x28 3 121,
     DE 0x2 2 122, DE 0x9 2 122, DE 0x17 2 122, DE 0x28 3 122],
    \<comment> \<open>state 66\<close>
    [DE 0x3 2 119, DE 0x6 2 119, DE 0xa 2 119, DE 0xf 2 119,
     DE 0x18 2 119, DE 0x1f 2 119, DE 0x29 2 119, DE 0x38 3 119,
     DE 0x3 2 120, DE 0x6 2 120, DE 0xa 2 120, DE 0xf 2 120,
     DE 0x18 2 120, DE 0x1f 2 120, DE 0x29 2 120, DE 0x38 3 120],
    \<comment> \<open>state 67\<close>
    [DE 0x3 2 121, DE 0x6 2 121, DE 0xa 2 121, DE 0xf 2 121,
     DE 0x18 2 121, DE 0x1f 2 121, DE 0x29 2 121, DE 0x38 3 121,
     DE 0x3 2 122, DE 0x6 2 122, DE 0xa 2 122, DE 0xf 2 122,
     DE 0x18 2 122, DE 0x1f 2 122, DE 0x29 2 122, DE 0x38 3 122],
    \<comment> \<open>state 68\<close>
    [DE 0x1 2 38, DE 0x16 3 38, DE 0x1 2 42, DE 0x16 3 42,
     DE 0x1 2 44, DE 0x16 3 44, DE 0x1 2 59, DE 0x16 3 59,
     DE 0x1 2 88, DE 0x16 3 88, DE 0x1 2 90, DE 0x16 3 90,
     DE 0x4c 0 0, DE 0x4d 0 0, DE 0x4f 0 0, DE 0x51 0 0],
    \<comment> \<open>state 69\<close>
    [DE 0x2 2 38, DE 0x9 2 38, DE 0x17 2 38, DE 0x28 3 38,
     DE 0x2 2 42, DE 0x9 2 42, DE 0x17 2 42, DE 0x28 3 42,
     DE 0x2 2 44, DE 0x9 2 44, DE 0x17 2 44, DE 0x28 3 44,
     DE 0x2 2 59, DE 0x9 2 59, DE 0x17 2 59, DE 0x28 3 59],
    \<comment> \<open>state 70\<close>
    [DE 0x3 2 38, DE 0x6 2 38, DE 0xa 2 38, DE 0xf 2 38,
     DE 0x18 2 38, DE 0x1f 2 38, DE 0x29 2 38, DE 0x38 3 38,
     DE 0x3 2 42, DE 0x6 2 42, DE 0xa 2 42, DE 0xf 2 42,
     DE 0x18 2 42, DE 0x1f 2 42, DE 0x29 2 42, DE 0x38 3 42],
    \<comment> \<open>state 71\<close>
    [DE 0x3 2 44, DE 0x6 2 44, DE 0xa 2 44, DE 0xf 2 44,
     DE 0x18 2 44, DE 0x1f 2 44, DE 0x29 2 44, DE 0x38 3 44,
     DE 0x3 2 59, DE 0x6 2 59, DE 0xa 2 59, DE 0xf 2 59,
     DE 0x18 2 59, DE 0x1f 2 59, DE 0x29 2 59, DE 0x38 3 59],
    \<comment> \<open>state 72\<close>
    [DE 0x2 2 88, DE 0x9 2 88, DE 0x17 2 88, DE 0x28 3 88,
     DE 0x2 2 90, DE 0x9 2 90, DE 0x17 2 90, DE 0x28 3 90,
     DE 0x0 3 33, DE 0x0 3 34, DE 0x0 3 40, DE 0x0 3 41,
     DE 0x0 3 63, DE 0x50 0 0, DE 0x52 0 0, DE 0x54 0 0],
    \<comment> \<open>state 73\<close>
    [DE 0x3 2 88, DE 0x6 2 88, DE 0xa 2 88, DE 0xf 2 88,
     DE 0x18 2 88, DE 0x1f 2 88, DE 0x29 2 88, DE 0x38 3 88,
     DE 0x3 2 90, DE 0x6 2 90, DE 0xa 2 90, DE 0xf 2 90,
     DE 0x18 2 90, DE 0x1f 2 90, DE 0x29 2 90, DE 0x38 3 90],
    \<comment> \<open>state 74\<close>
    [DE 0x1 2 33, DE 0x16 3 33, DE 0x1 2 34, DE 0x16 3 34,
     DE 0x1 2 40, DE 0x16 3 40, DE 0x1 2 41, DE 0x16 3 41,
     DE 0x1 2 63, DE 0x16 3 63, DE 0x0 3 39, DE 0x0 3 43,
     DE 0x0 3 124, DE 0x53 0 0, DE 0x55 0 0, DE 0x58 0 0]
  ]"

definition huff_decode_rows_3 :: "decode_entry list list" where
  "huff_decode_rows_3 = [
    \<comment> \<open>state 75\<close>
    [DE 0x2 2 33, DE 0x9 2 33, DE 0x17 2 33, DE 0x28 3 33,
     DE 0x2 2 34, DE 0x9 2 34, DE 0x17 2 34, DE 0x28 3 34,
     DE 0x2 2 40, DE 0x9 2 40, DE 0x17 2 40, DE 0x28 3 40,
     DE 0x2 2 41, DE 0x9 2 41, DE 0x17 2 41, DE 0x28 3 41],
    \<comment> \<open>state 76\<close>
    [DE 0x3 2 33, DE 0x6 2 33, DE 0xa 2 33, DE 0xf 2 33,
     DE 0x18 2 33, DE 0x1f 2 33, DE 0x29 2 33, DE 0x38 3 33,
     DE 0x3 2 34, DE 0x6 2 34, DE 0xa 2 34, DE 0xf 2 34,
     DE 0x18 2 34, DE 0x1f 2 34, DE 0x29 2 34, DE 0x38 3 34],
    \<comment> \<open>state 77\<close>
    [DE 0x3 2 40, DE 0x6 2 40, DE 0xa 2 40, DE 0xf 2 40,
     DE 0x18 2 40, DE 0x1f 2 40, DE 0x29 2 40, DE 0x38 3 40,
     DE 0x3 2 41, DE 0x6 2 41, DE 0xa 2 41, DE 0xf 2 41,
     DE 0x18 2 41, DE 0x1f 2 41, DE 0x29 2 41, DE 0x38 3 41],
    \<comment> \<open>state 78\<close>
    [DE 0x2 2 63, DE 0x9 2 63, DE 0x17 2 63, DE 0x28 3 63,
     DE 0x1 2 39, DE 0x16 3 39, DE 0x1 2 43, DE 0x16 3 43,
     DE 0x1 2 124, DE 0x16 3 124, DE 0x0 3 35, DE 0x0 3 62,
     DE 0x56 0 0, DE 0x57 0 0, DE 0x59 0 0, DE 0x5a 0 0],
    \<comment> \<open>state 79\<close>
    [DE 0x3 2 63, DE 0x6 2 63, DE 0xa 2 63, DE 0xf 2 63,
     DE 0x18 2 63, DE 0x1f 2 63, DE 0x29 2 63, DE 0x38 3 63,
     DE 0x2 2 39, DE 0x9 2 39, DE 0x17 2 39, DE 0x28 3 39,
     DE 0x2 2 43, DE 0x9 2 43, DE 0x17 2 43, DE 0x28 3 43],
    \<comment> \<open>state 80\<close>
    [DE 0x3 2 39, DE 0x6 2 39, DE 0xa 2 39, DE 0xf 2 39,
     DE 0x18 2 39, DE 0x1f 2 39, DE 0x29 2 39, DE 0x38 3 39,
     DE 0x3 2 43, DE 0x6 2 43, DE 0xa 2 43, DE 0xf 2 43,
     DE 0x18 2 43, DE 0x1f 2 43, DE 0x29 2 43, DE 0x38 3 43],
    \<comment> \<open>state 81\<close>
    [DE 0x2 2 124, DE 0x9 2 124, DE 0x17 2 124, DE 0x28 3 124,
     DE 0x1 2 35, DE 0x16 3 35, DE 0x1 2 62, DE 0x16 3 62,
     DE 0x0 3 0, DE 0x0 3 36, DE 0x0 3 64, DE 0x0 3 91,
     DE 0x0 3 93, DE 0x0 3 126, DE 0x5b 0 0, DE 0x5c 0 0],
    \<comment> \<open>state 82\<close>
    [DE 0x3 2 124, DE 0x6 2 124, DE 0xa 2 124, DE 0xf 2 124,
     DE 0x18 2 124, DE 0x1f 2 124, DE 0x29 2 124, DE 0x38 3 124,
     DE 0x2 2 35, DE 0x9 2 35, DE 0x17 2 35, DE 0x28 3 35,
     DE 0x2 2 62, DE 0x9 2 62, DE 0x17 2 62, DE 0x28 3 62],
    \<comment> \<open>state 83\<close>
    [DE 0x3 2 35, DE 0x6 2 35, DE 0xa 2 35, DE 0xf 2 35,
     DE 0x18 2 35, DE 0x1f 2 35, DE 0x29 2 35, DE 0x38 3 35,
     DE 0x3 2 62, DE 0x6 2 62, DE 0xa 2 62, DE 0xf 2 62,
     DE 0x18 2 62, DE 0x1f 2 62, DE 0x29 2 62, DE 0x38 3 62],
    \<comment> \<open>state 84\<close>
    [DE 0x1 2 0, DE 0x16 3 0, DE 0x1 2 36, DE 0x16 3 36,
     DE 0x1 2 64, DE 0x16 3 64, DE 0x1 2 91, DE 0x16 3 91,
     DE 0x1 2 93, DE 0x16 3 93, DE 0x1 2 126, DE 0x16 3 126,
     DE 0x0 3 94, DE 0x0 3 125, DE 0x5d 0 0, DE 0x5e 0 0],
    \<comment> \<open>state 85\<close>
    [DE 0x2 2 0, DE 0x9 2 0, DE 0x17 2 0, DE 0x28 3 0,
     DE 0x2 2 36, DE 0x9 2 36, DE 0x17 2 36, DE 0x28 3 36,
     DE 0x2 2 64, DE 0x9 2 64, DE 0x17 2 64, DE 0x28 3 64,
     DE 0x2 2 91, DE 0x9 2 91, DE 0x17 2 91, DE 0x28 3 91],
    \<comment> \<open>state 86\<close>
    [DE 0x3 2 0, DE 0x6 2 0, DE 0xa 2 0, DE 0xf 2 0,
     DE 0x18 2 0, DE 0x1f 2 0, DE 0x29 2 0, DE 0x38 3 0,
     DE 0x3 2 36, DE 0x6 2 36, DE 0xa 2 36, DE 0xf 2 36,
     DE 0x18 2 36, DE 0x1f 2 36, DE 0x29 2 36, DE 0x38 3 36],
    \<comment> \<open>state 87\<close>
    [DE 0x3 2 64, DE 0x6 2 64, DE 0xa 2 64, DE 0xf 2 64,
     DE 0x18 2 64, DE 0x1f 2 64, DE 0x29 2 64, DE 0x38 3 64,
     DE 0x3 2 91, DE 0x6 2 91, DE 0xa 2 91, DE 0xf 2 91,
     DE 0x18 2 91, DE 0x1f 2 91, DE 0x29 2 91, DE 0x38 3 91],
    \<comment> \<open>state 88\<close>
    [DE 0x2 2 93, DE 0x9 2 93, DE 0x17 2 93, DE 0x28 3 93,
     DE 0x2 2 126, DE 0x9 2 126, DE 0x17 2 126, DE 0x28 3 126,
     DE 0x1 2 94, DE 0x16 3 94, DE 0x1 2 125, DE 0x16 3 125,
     DE 0x0 3 60, DE 0x0 3 96, DE 0x0 3 123, DE 0x5f 0 0],
    \<comment> \<open>state 89\<close>
    [DE 0x3 2 93, DE 0x6 2 93, DE 0xa 2 93, DE 0xf 2 93,
     DE 0x18 2 93, DE 0x1f 2 93, DE 0x29 2 93, DE 0x38 3 93,
     DE 0x3 2 126, DE 0x6 2 126, DE 0xa 2 126, DE 0xf 2 126,
     DE 0x18 2 126, DE 0x1f 2 126, DE 0x29 2 126, DE 0x38 3 126],
    \<comment> \<open>state 90\<close>
    [DE 0x2 2 94, DE 0x9 2 94, DE 0x17 2 94, DE 0x28 3 94,
     DE 0x2 2 125, DE 0x9 2 125, DE 0x17 2 125, DE 0x28 3 125,
     DE 0x1 2 60, DE 0x16 3 60, DE 0x1 2 96, DE 0x16 3 96,
     DE 0x1 2 123, DE 0x16 3 123, DE 0x60 0 0, DE 0x6e 0 0],
    \<comment> \<open>state 91\<close>
    [DE 0x3 2 94, DE 0x6 2 94, DE 0xa 2 94, DE 0xf 2 94,
     DE 0x18 2 94, DE 0x1f 2 94, DE 0x29 2 94, DE 0x38 3 94,
     DE 0x3 2 125, DE 0x6 2 125, DE 0xa 2 125, DE 0xf 2 125,
     DE 0x18 2 125, DE 0x1f 2 125, DE 0x29 2 125, DE 0x38 3 125],
    \<comment> \<open>state 92\<close>
    [DE 0x2 2 60, DE 0x9 2 60, DE 0x17 2 60, DE 0x28 3 60,
     DE 0x2 2 96, DE 0x9 2 96, DE 0x17 2 96, DE 0x28 3 96,
     DE 0x2 2 123, DE 0x9 2 123, DE 0x17 2 123, DE 0x28 3 123,
     DE 0x61 0 0, DE 0x65 0 0, DE 0x6f 0 0, DE 0x85 0 0],
    \<comment> \<open>state 93\<close>
    [DE 0x3 2 60, DE 0x6 2 60, DE 0xa 2 60, DE 0xf 2 60,
     DE 0x18 2 60, DE 0x1f 2 60, DE 0x29 2 60, DE 0x38 3 60,
     DE 0x3 2 96, DE 0x6 2 96, DE 0xa 2 96, DE 0xf 2 96,
     DE 0x18 2 96, DE 0x1f 2 96, DE 0x29 2 96, DE 0x38 3 96],
    \<comment> \<open>state 94\<close>
    [DE 0x3 2 123, DE 0x6 2 123, DE 0xa 2 123, DE 0xf 2 123,
     DE 0x18 2 123, DE 0x1f 2 123, DE 0x29 2 123, DE 0x38 3 123,
     DE 0x62 0 0, DE 0x63 0 0, DE 0x66 0 0, DE 0x69 0 0,
     DE 0x70 0 0, DE 0x77 0 0, DE 0x86 0 0, DE 0x99 0 0],
    \<comment> \<open>state 95\<close>
    [DE 0x0 3 92, DE 0x0 3 195, DE 0x0 3 208, DE 0x64 0 0,
     DE 0x67 0 0, DE 0x68 0 0, DE 0x6a 0 0, DE 0x6b 0 0,
     DE 0x71 0 0, DE 0x74 0 0, DE 0x78 0 0, DE 0x7e 0 0,
     DE 0x87 0 0, DE 0x8e 0 0, DE 0x9a 0 0, DE 0xa9 0 0],
    \<comment> \<open>state 96\<close>
    [DE 0x1 2 92, DE 0x16 3 92, DE 0x1 2 195, DE 0x16 3 195,
     DE 0x1 2 208, DE 0x16 3 208, DE 0x0 3 128, DE 0x0 3 130,
     DE 0x0 3 131, DE 0x0 3 162, DE 0x0 3 184, DE 0x0 3 194,
     DE 0x0 3 224, DE 0x0 3 226, DE 0x6c 0 0, DE 0x6d 0 0],
    \<comment> \<open>state 97\<close>
    [DE 0x2 2 92, DE 0x9 2 92, DE 0x17 2 92, DE 0x28 3 92,
     DE 0x2 2 195, DE 0x9 2 195, DE 0x17 2 195, DE 0x28 3 195,
     DE 0x2 2 208, DE 0x9 2 208, DE 0x17 2 208, DE 0x28 3 208,
     DE 0x1 2 128, DE 0x16 3 128, DE 0x1 2 130, DE 0x16 3 130],
    \<comment> \<open>state 98\<close>
    [DE 0x3 2 92, DE 0x6 2 92, DE 0xa 2 92, DE 0xf 2 92,
     DE 0x18 2 92, DE 0x1f 2 92, DE 0x29 2 92, DE 0x38 3 92,
     DE 0x3 2 195, DE 0x6 2 195, DE 0xa 2 195, DE 0xf 2 195,
     DE 0x18 2 195, DE 0x1f 2 195, DE 0x29 2 195, DE 0x38 3 195],
    \<comment> \<open>state 99\<close>
    [DE 0x3 2 208, DE 0x6 2 208, DE 0xa 2 208, DE 0xf 2 208,
     DE 0x18 2 208, DE 0x1f 2 208, DE 0x29 2 208, DE 0x38 3 208,
     DE 0x2 2 128, DE 0x9 2 128, DE 0x17 2 128, DE 0x28 3 128,
     DE 0x2 2 130, DE 0x9 2 130, DE 0x17 2 130, DE 0x28 3 130]
  ]"

definition huff_decode_rows_4 :: "decode_entry list list" where
  "huff_decode_rows_4 = [
    \<comment> \<open>state 100\<close>
    [DE 0x3 2 128, DE 0x6 2 128, DE 0xa 2 128, DE 0xf 2 128,
     DE 0x18 2 128, DE 0x1f 2 128, DE 0x29 2 128, DE 0x38 3 128,
     DE 0x3 2 130, DE 0x6 2 130, DE 0xa 2 130, DE 0xf 2 130,
     DE 0x18 2 130, DE 0x1f 2 130, DE 0x29 2 130, DE 0x38 3 130],
    \<comment> \<open>state 101\<close>
    [DE 0x1 2 131, DE 0x16 3 131, DE 0x1 2 162, DE 0x16 3 162,
     DE 0x1 2 184, DE 0x16 3 184, DE 0x1 2 194, DE 0x16 3 194,
     DE 0x1 2 224, DE 0x16 3 224, DE 0x1 2 226, DE 0x16 3 226,
     DE 0x0 3 153, DE 0x0 3 161, DE 0x0 3 167, DE 0x0 3 172],
    \<comment> \<open>state 102\<close>
    [DE 0x2 2 131, DE 0x9 2 131, DE 0x17 2 131, DE 0x28 3 131,
     DE 0x2 2 162, DE 0x9 2 162, DE 0x17 2 162, DE 0x28 3 162,
     DE 0x2 2 184, DE 0x9 2 184, DE 0x17 2 184, DE 0x28 3 184,
     DE 0x2 2 194, DE 0x9 2 194, DE 0x17 2 194, DE 0x28 3 194],
    \<comment> \<open>state 103\<close>
    [DE 0x3 2 131, DE 0x6 2 131, DE 0xa 2 131, DE 0xf 2 131,
     DE 0x18 2 131, DE 0x1f 2 131, DE 0x29 2 131, DE 0x38 3 131,
     DE 0x3 2 162, DE 0x6 2 162, DE 0xa 2 162, DE 0xf 2 162,
     DE 0x18 2 162, DE 0x1f 2 162, DE 0x29 2 162, DE 0x38 3 162],
    \<comment> \<open>state 104\<close>
    [DE 0x3 2 184, DE 0x6 2 184, DE 0xa 2 184, DE 0xf 2 184,
     DE 0x18 2 184, DE 0x1f 2 184, DE 0x29 2 184, DE 0x38 3 184,
     DE 0x3 2 194, DE 0x6 2 194, DE 0xa 2 194, DE 0xf 2 194,
     DE 0x18 2 194, DE 0x1f 2 194, DE 0x29 2 194, DE 0x38 3 194],
    \<comment> \<open>state 105\<close>
    [DE 0x2 2 224, DE 0x9 2 224, DE 0x17 2 224, DE 0x28 3 224,
     DE 0x2 2 226, DE 0x9 2 226, DE 0x17 2 226, DE 0x28 3 226,
     DE 0x1 2 153, DE 0x16 3 153, DE 0x1 2 161, DE 0x16 3 161,
     DE 0x1 2 167, DE 0x16 3 167, DE 0x1 2 172, DE 0x16 3 172],
    \<comment> \<open>state 106\<close>
    [DE 0x3 2 224, DE 0x6 2 224, DE 0xa 2 224, DE 0xf 2 224,
     DE 0x18 2 224, DE 0x1f 2 224, DE 0x29 2 224, DE 0x38 3 224,
     DE 0x3 2 226, DE 0x6 2 226, DE 0xa 2 226, DE 0xf 2 226,
     DE 0x18 2 226, DE 0x1f 2 226, DE 0x29 2 226, DE 0x38 3 226],
    \<comment> \<open>state 107\<close>
    [DE 0x2 2 153, DE 0x9 2 153, DE 0x17 2 153, DE 0x28 3 153,
     DE 0x2 2 161, DE 0x9 2 161, DE 0x17 2 161, DE 0x28 3 161,
     DE 0x2 2 167, DE 0x9 2 167, DE 0x17 2 167, DE 0x28 3 167,
     DE 0x2 2 172, DE 0x9 2 172, DE 0x17 2 172, DE 0x28 3 172],
    \<comment> \<open>state 108\<close>
    [DE 0x3 2 153, DE 0x6 2 153, DE 0xa 2 153, DE 0xf 2 153,
     DE 0x18 2 153, DE 0x1f 2 153, DE 0x29 2 153, DE 0x38 3 153,
     DE 0x3 2 161, DE 0x6 2 161, DE 0xa 2 161, DE 0xf 2 161,
     DE 0x18 2 161, DE 0x1f 2 161, DE 0x29 2 161, DE 0x38 3 161],
    \<comment> \<open>state 109\<close>
    [DE 0x3 2 167, DE 0x6 2 167, DE 0xa 2 167, DE 0xf 2 167,
     DE 0x18 2 167, DE 0x1f 2 167, DE 0x29 2 167, DE 0x38 3 167,
     DE 0x3 2 172, DE 0x6 2 172, DE 0xa 2 172, DE 0xf 2 172,
     DE 0x18 2 172, DE 0x1f 2 172, DE 0x29 2 172, DE 0x38 3 172],
    \<comment> \<open>state 110\<close>
    [DE 0x72 0 0, DE 0x73 0 0, DE 0x75 0 0, DE 0x76 0 0,
     DE 0x79 0 0, DE 0x7b 0 0, DE 0x7f 0 0, DE 0x82 0 0,
     DE 0x88 0 0, DE 0x8b 0 0, DE 0x8f 0 0, DE 0x92 0 0,
     DE 0x9b 0 0, DE 0xa2 0 0, DE 0xaa 0 0, DE 0xb4 0 0],
    \<comment> \<open>state 111\<close>
    [DE 0x0 3 176, DE 0x0 3 177, DE 0x0 3 179, DE 0x0 3 209,
     DE 0x0 3 216, DE 0x0 3 217, DE 0x0 3 227, DE 0x0 3 229,
     DE 0x0 3 230, DE 0x7a 0 0, DE 0x7c 0 0, DE 0x7d 0 0,
     DE 0x80 0 0, DE 0x81 0 0, DE 0x83 0 0, DE 0x84 0 0],
    \<comment> \<open>state 112\<close>
    [DE 0x1 2 176, DE 0x16 3 176, DE 0x1 2 177, DE 0x16 3 177,
     DE 0x1 2 179, DE 0x16 3 179, DE 0x1 2 209, DE 0x16 3 209,
     DE 0x1 2 216, DE 0x16 3 216, DE 0x1 2 217, DE 0x16 3 217,
     DE 0x1 2 227, DE 0x16 3 227, DE 0x1 2 229, DE 0x16 3 229],
    \<comment> \<open>state 113\<close>
    [DE 0x2 2 176, DE 0x9 2 176, DE 0x17 2 176, DE 0x28 3 176,
     DE 0x2 2 177, DE 0x9 2 177, DE 0x17 2 177, DE 0x28 3 177,
     DE 0x2 2 179, DE 0x9 2 179, DE 0x17 2 179, DE 0x28 3 179,
     DE 0x2 2 209, DE 0x9 2 209, DE 0x17 2 209, DE 0x28 3 209],
    \<comment> \<open>state 114\<close>
    [DE 0x3 2 176, DE 0x6 2 176, DE 0xa 2 176, DE 0xf 2 176,
     DE 0x18 2 176, DE 0x1f 2 176, DE 0x29 2 176, DE 0x38 3 176,
     DE 0x3 2 177, DE 0x6 2 177, DE 0xa 2 177, DE 0xf 2 177,
     DE 0x18 2 177, DE 0x1f 2 177, DE 0x29 2 177, DE 0x38 3 177],
    \<comment> \<open>state 115\<close>
    [DE 0x3 2 179, DE 0x6 2 179, DE 0xa 2 179, DE 0xf 2 179,
     DE 0x18 2 179, DE 0x1f 2 179, DE 0x29 2 179, DE 0x38 3 179,
     DE 0x3 2 209, DE 0x6 2 209, DE 0xa 2 209, DE 0xf 2 209,
     DE 0x18 2 209, DE 0x1f 2 209, DE 0x29 2 209, DE 0x38 3 209],
    \<comment> \<open>state 116\<close>
    [DE 0x2 2 216, DE 0x9 2 216, DE 0x17 2 216, DE 0x28 3 216,
     DE 0x2 2 217, DE 0x9 2 217, DE 0x17 2 217, DE 0x28 3 217,
     DE 0x2 2 227, DE 0x9 2 227, DE 0x17 2 227, DE 0x28 3 227,
     DE 0x2 2 229, DE 0x9 2 229, DE 0x17 2 229, DE 0x28 3 229],
    \<comment> \<open>state 117\<close>
    [DE 0x3 2 216, DE 0x6 2 216, DE 0xa 2 216, DE 0xf 2 216,
     DE 0x18 2 216, DE 0x1f 2 216, DE 0x29 2 216, DE 0x38 3 216,
     DE 0x3 2 217, DE 0x6 2 217, DE 0xa 2 217, DE 0xf 2 217,
     DE 0x18 2 217, DE 0x1f 2 217, DE 0x29 2 217, DE 0x38 3 217],
    \<comment> \<open>state 118\<close>
    [DE 0x3 2 227, DE 0x6 2 227, DE 0xa 2 227, DE 0xf 2 227,
     DE 0x18 2 227, DE 0x1f 2 227, DE 0x29 2 227, DE 0x38 3 227,
     DE 0x3 2 229, DE 0x6 2 229, DE 0xa 2 229, DE 0xf 2 229,
     DE 0x18 2 229, DE 0x1f 2 229, DE 0x29 2 229, DE 0x38 3 229],
    \<comment> \<open>state 119\<close>
    [DE 0x1 2 230, DE 0x16 3 230, DE 0x0 3 129, DE 0x0 3 132,
     DE 0x0 3 133, DE 0x0 3 134, DE 0x0 3 136, DE 0x0 3 146,
     DE 0x0 3 154, DE 0x0 3 156, DE 0x0 3 160, DE 0x0 3 163,
     DE 0x0 3 164, DE 0x0 3 169, DE 0x0 3 170, DE 0x0 3 173],
    \<comment> \<open>state 120\<close>
    [DE 0x2 2 230, DE 0x9 2 230, DE 0x17 2 230, DE 0x28 3 230,
     DE 0x1 2 129, DE 0x16 3 129, DE 0x1 2 132, DE 0x16 3 132,
     DE 0x1 2 133, DE 0x16 3 133, DE 0x1 2 134, DE 0x16 3 134,
     DE 0x1 2 136, DE 0x16 3 136, DE 0x1 2 146, DE 0x16 3 146],
    \<comment> \<open>state 121\<close>
    [DE 0x3 2 230, DE 0x6 2 230, DE 0xa 2 230, DE 0xf 2 230,
     DE 0x18 2 230, DE 0x1f 2 230, DE 0x29 2 230, DE 0x38 3 230,
     DE 0x2 2 129, DE 0x9 2 129, DE 0x17 2 129, DE 0x28 3 129,
     DE 0x2 2 132, DE 0x9 2 132, DE 0x17 2 132, DE 0x28 3 132],
    \<comment> \<open>state 122\<close>
    [DE 0x3 2 129, DE 0x6 2 129, DE 0xa 2 129, DE 0xf 2 129,
     DE 0x18 2 129, DE 0x1f 2 129, DE 0x29 2 129, DE 0x38 3 129,
     DE 0x3 2 132, DE 0x6 2 132, DE 0xa 2 132, DE 0xf 2 132,
     DE 0x18 2 132, DE 0x1f 2 132, DE 0x29 2 132, DE 0x38 3 132],
    \<comment> \<open>state 123\<close>
    [DE 0x2 2 133, DE 0x9 2 133, DE 0x17 2 133, DE 0x28 3 133,
     DE 0x2 2 134, DE 0x9 2 134, DE 0x17 2 134, DE 0x28 3 134,
     DE 0x2 2 136, DE 0x9 2 136, DE 0x17 2 136, DE 0x28 3 136,
     DE 0x2 2 146, DE 0x9 2 146, DE 0x17 2 146, DE 0x28 3 146],
    \<comment> \<open>state 124\<close>
    [DE 0x3 2 133, DE 0x6 2 133, DE 0xa 2 133, DE 0xf 2 133,
     DE 0x18 2 133, DE 0x1f 2 133, DE 0x29 2 133, DE 0x38 3 133,
     DE 0x3 2 134, DE 0x6 2 134, DE 0xa 2 134, DE 0xf 2 134,
     DE 0x18 2 134, DE 0x1f 2 134, DE 0x29 2 134, DE 0x38 3 134]
  ]"

definition huff_decode_rows_5 :: "decode_entry list list" where
  "huff_decode_rows_5 = [
    \<comment> \<open>state 125\<close>
    [DE 0x3 2 136, DE 0x6 2 136, DE 0xa 2 136, DE 0xf 2 136,
     DE 0x18 2 136, DE 0x1f 2 136, DE 0x29 2 136, DE 0x38 3 136,
     DE 0x3 2 146, DE 0x6 2 146, DE 0xa 2 146, DE 0xf 2 146,
     DE 0x18 2 146, DE 0x1f 2 146, DE 0x29 2 146, DE 0x38 3 146],
    \<comment> \<open>state 126\<close>
    [DE 0x1 2 154, DE 0x16 3 154, DE 0x1 2 156, DE 0x16 3 156,
     DE 0x1 2 160, DE 0x16 3 160, DE 0x1 2 163, DE 0x16 3 163,
     DE 0x1 2 164, DE 0x16 3 164, DE 0x1 2 169, DE 0x16 3 169,
     DE 0x1 2 170, DE 0x16 3 170, DE 0x1 2 173, DE 0x16 3 173],
    \<comment> \<open>state 127\<close>
    [DE 0x2 2 154, DE 0x9 2 154, DE 0x17 2 154, DE 0x28 3 154,
     DE 0x2 2 156, DE 0x9 2 156, DE 0x17 2 156, DE 0x28 3 156,
     DE 0x2 2 160, DE 0x9 2 160, DE 0x17 2 160, DE 0x28 3 160,
     DE 0x2 2 163, DE 0x9 2 163, DE 0x17 2 163, DE 0x28 3 163],
    \<comment> \<open>state 128\<close>
    [DE 0x3 2 154, DE 0x6 2 154, DE 0xa 2 154, DE 0xf 2 154,
     DE 0x18 2 154, DE 0x1f 2 154, DE 0x29 2 154, DE 0x38 3 154,
     DE 0x3 2 156, DE 0x6 2 156, DE 0xa 2 156, DE 0xf 2 156,
     DE 0x18 2 156, DE 0x1f 2 156, DE 0x29 2 156, DE 0x38 3 156],
    \<comment> \<open>state 129\<close>
    [DE 0x3 2 160, DE 0x6 2 160, DE 0xa 2 160, DE 0xf 2 160,
     DE 0x18 2 160, DE 0x1f 2 160, DE 0x29 2 160, DE 0x38 3 160,
     DE 0x3 2 163, DE 0x6 2 163, DE 0xa 2 163, DE 0xf 2 163,
     DE 0x18 2 163, DE 0x1f 2 163, DE 0x29 2 163, DE 0x38 3 163],
    \<comment> \<open>state 130\<close>
    [DE 0x2 2 164, DE 0x9 2 164, DE 0x17 2 164, DE 0x28 3 164,
     DE 0x2 2 169, DE 0x9 2 169, DE 0x17 2 169, DE 0x28 3 169,
     DE 0x2 2 170, DE 0x9 2 170, DE 0x17 2 170, DE 0x28 3 170,
     DE 0x2 2 173, DE 0x9 2 173, DE 0x17 2 173, DE 0x28 3 173],
    \<comment> \<open>state 131\<close>
    [DE 0x3 2 164, DE 0x6 2 164, DE 0xa 2 164, DE 0xf 2 164,
     DE 0x18 2 164, DE 0x1f 2 164, DE 0x29 2 164, DE 0x38 3 164,
     DE 0x3 2 169, DE 0x6 2 169, DE 0xa 2 169, DE 0xf 2 169,
     DE 0x18 2 169, DE 0x1f 2 169, DE 0x29 2 169, DE 0x38 3 169],
    \<comment> \<open>state 132\<close>
    [DE 0x3 2 170, DE 0x6 2 170, DE 0xa 2 170, DE 0xf 2 170,
     DE 0x18 2 170, DE 0x1f 2 170, DE 0x29 2 170, DE 0x38 3 170,
     DE 0x3 2 173, DE 0x6 2 173, DE 0xa 2 173, DE 0xf 2 173,
     DE 0x18 2 173, DE 0x1f 2 173, DE 0x29 2 173, DE 0x38 3 173],
    \<comment> \<open>state 133\<close>
    [DE 0x89 0 0, DE 0x8a 0 0, DE 0x8c 0 0, DE 0x8d 0 0,
     DE 0x90 0 0, DE 0x91 0 0, DE 0x93 0 0, DE 0x96 0 0,
     DE 0x9c 0 0, DE 0x9f 0 0, DE 0xa3 0 0, DE 0xa6 0 0,
     DE 0xab 0 0, DE 0xae 0 0, DE 0xb5 0 0, DE 0xbe 0 0],
    \<comment> \<open>state 134\<close>
    [DE 0x0 3 178, DE 0x0 3 181, DE 0x0 3 185, DE 0x0 3 186,
     DE 0x0 3 187, DE 0x0 3 189, DE 0x0 3 190, DE 0x0 3 196,
     DE 0x0 3 198, DE 0x0 3 228, DE 0x0 3 232, DE 0x0 3 233,
     DE 0x94 0 0, DE 0x95 0 0, DE 0x97 0 0, DE 0x98 0 0],
    \<comment> \<open>state 135\<close>
    [DE 0x1 2 178, DE 0x16 3 178, DE 0x1 2 181, DE 0x16 3 181,
     DE 0x1 2 185, DE 0x16 3 185, DE 0x1 2 186, DE 0x16 3 186,
     DE 0x1 2 187, DE 0x16 3 187, DE 0x1 2 189, DE 0x16 3 189,
     DE 0x1 2 190, DE 0x16 3 190, DE 0x1 2 196, DE 0x16 3 196],
    \<comment> \<open>state 136\<close>
    [DE 0x2 2 178, DE 0x9 2 178, DE 0x17 2 178, DE 0x28 3 178,
     DE 0x2 2 181, DE 0x9 2 181, DE 0x17 2 181, DE 0x28 3 181,
     DE 0x2 2 185, DE 0x9 2 185, DE 0x17 2 185, DE 0x28 3 185,
     DE 0x2 2 186, DE 0x9 2 186, DE 0x17 2 186, DE 0x28 3 186],
    \<comment> \<open>state 137\<close>
    [DE 0x3 2 178, DE 0x6 2 178, DE 0xa 2 178, DE 0xf 2 178,
     DE 0x18 2 178, DE 0x1f 2 178, DE 0x29 2 178, DE 0x38 3 178,
     DE 0x3 2 181, DE 0x6 2 181, DE 0xa 2 181, DE 0xf 2 181,
     DE 0x18 2 181, DE 0x1f 2 181, DE 0x29 2 181, DE 0x38 3 181],
    \<comment> \<open>state 138\<close>
    [DE 0x3 2 185, DE 0x6 2 185, DE 0xa 2 185, DE 0xf 2 185,
     DE 0x18 2 185, DE 0x1f 2 185, DE 0x29 2 185, DE 0x38 3 185,
     DE 0x3 2 186, DE 0x6 2 186, DE 0xa 2 186, DE 0xf 2 186,
     DE 0x18 2 186, DE 0x1f 2 186, DE 0x29 2 186, DE 0x38 3 186],
    \<comment> \<open>state 139\<close>
    [DE 0x2 2 187, DE 0x9 2 187, DE 0x17 2 187, DE 0x28 3 187,
     DE 0x2 2 189, DE 0x9 2 189, DE 0x17 2 189, DE 0x28 3 189,
     DE 0x2 2 190, DE 0x9 2 190, DE 0x17 2 190, DE 0x28 3 190,
     DE 0x2 2 196, DE 0x9 2 196, DE 0x17 2 196, DE 0x28 3 196],
    \<comment> \<open>state 140\<close>
    [DE 0x3 2 187, DE 0x6 2 187, DE 0xa 2 187, DE 0xf 2 187,
     DE 0x18 2 187, DE 0x1f 2 187, DE 0x29 2 187, DE 0x38 3 187,
     DE 0x3 2 189, DE 0x6 2 189, DE 0xa 2 189, DE 0xf 2 189,
     DE 0x18 2 189, DE 0x1f 2 189, DE 0x29 2 189, DE 0x38 3 189],
    \<comment> \<open>state 141\<close>
    [DE 0x3 2 190, DE 0x6 2 190, DE 0xa 2 190, DE 0xf 2 190,
     DE 0x18 2 190, DE 0x1f 2 190, DE 0x29 2 190, DE 0x38 3 190,
     DE 0x3 2 196, DE 0x6 2 196, DE 0xa 2 196, DE 0xf 2 196,
     DE 0x18 2 196, DE 0x1f 2 196, DE 0x29 2 196, DE 0x38 3 196],
    \<comment> \<open>state 142\<close>
    [DE 0x1 2 198, DE 0x16 3 198, DE 0x1 2 228, DE 0x16 3 228,
     DE 0x1 2 232, DE 0x16 3 232, DE 0x1 2 233, DE 0x16 3 233,
     DE 0x0 3 1, DE 0x0 3 135, DE 0x0 3 137, DE 0x0 3 138,
     DE 0x0 3 139, DE 0x0 3 140, DE 0x0 3 141, DE 0x0 3 143],
    \<comment> \<open>state 143\<close>
    [DE 0x2 2 198, DE 0x9 2 198, DE 0x17 2 198, DE 0x28 3 198,
     DE 0x2 2 228, DE 0x9 2 228, DE 0x17 2 228, DE 0x28 3 228,
     DE 0x2 2 232, DE 0x9 2 232, DE 0x17 2 232, DE 0x28 3 232,
     DE 0x2 2 233, DE 0x9 2 233, DE 0x17 2 233, DE 0x28 3 233],
    \<comment> \<open>state 144\<close>
    [DE 0x3 2 198, DE 0x6 2 198, DE 0xa 2 198, DE 0xf 2 198,
     DE 0x18 2 198, DE 0x1f 2 198, DE 0x29 2 198, DE 0x38 3 198,
     DE 0x3 2 228, DE 0x6 2 228, DE 0xa 2 228, DE 0xf 2 228,
     DE 0x18 2 228, DE 0x1f 2 228, DE 0x29 2 228, DE 0x38 3 228],
    \<comment> \<open>state 145\<close>
    [DE 0x3 2 232, DE 0x6 2 232, DE 0xa 2 232, DE 0xf 2 232,
     DE 0x18 2 232, DE 0x1f 2 232, DE 0x29 2 232, DE 0x38 3 232,
     DE 0x3 2 233, DE 0x6 2 233, DE 0xa 2 233, DE 0xf 2 233,
     DE 0x18 2 233, DE 0x1f 2 233, DE 0x29 2 233, DE 0x38 3 233],
    \<comment> \<open>state 146\<close>
    [DE 0x1 2 1, DE 0x16 3 1, DE 0x1 2 135, DE 0x16 3 135,
     DE 0x1 2 137, DE 0x16 3 137, DE 0x1 2 138, DE 0x16 3 138,
     DE 0x1 2 139, DE 0x16 3 139, DE 0x1 2 140, DE 0x16 3 140,
     DE 0x1 2 141, DE 0x16 3 141, DE 0x1 2 143, DE 0x16 3 143],
    \<comment> \<open>state 147\<close>
    [DE 0x2 2 1, DE 0x9 2 1, DE 0x17 2 1, DE 0x28 3 1,
     DE 0x2 2 135, DE 0x9 2 135, DE 0x17 2 135, DE 0x28 3 135,
     DE 0x2 2 137, DE 0x9 2 137, DE 0x17 2 137, DE 0x28 3 137,
     DE 0x2 2 138, DE 0x9 2 138, DE 0x17 2 138, DE 0x28 3 138],
    \<comment> \<open>state 148\<close>
    [DE 0x3 2 1, DE 0x6 2 1, DE 0xa 2 1, DE 0xf 2 1,
     DE 0x18 2 1, DE 0x1f 2 1, DE 0x29 2 1, DE 0x38 3 1,
     DE 0x3 2 135, DE 0x6 2 135, DE 0xa 2 135, DE 0xf 2 135,
     DE 0x18 2 135, DE 0x1f 2 135, DE 0x29 2 135, DE 0x38 3 135],
    \<comment> \<open>state 149\<close>
    [DE 0x3 2 137, DE 0x6 2 137, DE 0xa 2 137, DE 0xf 2 137,
     DE 0x18 2 137, DE 0x1f 2 137, DE 0x29 2 137, DE 0x38 3 137,
     DE 0x3 2 138, DE 0x6 2 138, DE 0xa 2 138, DE 0xf 2 138,
     DE 0x18 2 138, DE 0x1f 2 138, DE 0x29 2 138, DE 0x38 3 138]
  ]"

definition huff_decode_rows_6 :: "decode_entry list list" where
  "huff_decode_rows_6 = [
    \<comment> \<open>state 150\<close>
    [DE 0x2 2 139, DE 0x9 2 139, DE 0x17 2 139, DE 0x28 3 139,
     DE 0x2 2 140, DE 0x9 2 140, DE 0x17 2 140, DE 0x28 3 140,
     DE 0x2 2 141, DE 0x9 2 141, DE 0x17 2 141, DE 0x28 3 141,
     DE 0x2 2 143, DE 0x9 2 143, DE 0x17 2 143, DE 0x28 3 143],
    \<comment> \<open>state 151\<close>
    [DE 0x3 2 139, DE 0x6 2 139, DE 0xa 2 139, DE 0xf 2 139,
     DE 0x18 2 139, DE 0x1f 2 139, DE 0x29 2 139, DE 0x38 3 139,
     DE 0x3 2 140, DE 0x6 2 140, DE 0xa 2 140, DE 0xf 2 140,
     DE 0x18 2 140, DE 0x1f 2 140, DE 0x29 2 140, DE 0x38 3 140],
    \<comment> \<open>state 152\<close>
    [DE 0x3 2 141, DE 0x6 2 141, DE 0xa 2 141, DE 0xf 2 141,
     DE 0x18 2 141, DE 0x1f 2 141, DE 0x29 2 141, DE 0x38 3 141,
     DE 0x3 2 143, DE 0x6 2 143, DE 0xa 2 143, DE 0xf 2 143,
     DE 0x18 2 143, DE 0x1f 2 143, DE 0x29 2 143, DE 0x38 3 143],
    \<comment> \<open>state 153\<close>
    [DE 0x9d 0 0, DE 0x9e 0 0, DE 0xa0 0 0, DE 0xa1 0 0,
     DE 0xa4 0 0, DE 0xa5 0 0, DE 0xa7 0 0, DE 0xa8 0 0,
     DE 0xac 0 0, DE 0xad 0 0, DE 0xaf 0 0, DE 0xb1 0 0,
     DE 0xb6 0 0, DE 0xb9 0 0, DE 0xbf 0 0, DE 0xcf 0 0],
    \<comment> \<open>state 154\<close>
    [DE 0x0 3 147, DE 0x0 3 149, DE 0x0 3 150, DE 0x0 3 151,
     DE 0x0 3 152, DE 0x0 3 155, DE 0x0 3 157, DE 0x0 3 158,
     DE 0x0 3 165, DE 0x0 3 166, DE 0x0 3 168, DE 0x0 3 174,
     DE 0x0 3 175, DE 0x0 3 180, DE 0x0 3 182, DE 0x0 3 183],
    \<comment> \<open>state 155\<close>
    [DE 0x1 2 147, DE 0x16 3 147, DE 0x1 2 149, DE 0x16 3 149,
     DE 0x1 2 150, DE 0x16 3 150, DE 0x1 2 151, DE 0x16 3 151,
     DE 0x1 2 152, DE 0x16 3 152, DE 0x1 2 155, DE 0x16 3 155,
     DE 0x1 2 157, DE 0x16 3 157, DE 0x1 2 158, DE 0x16 3 158],
    \<comment> \<open>state 156\<close>
    [DE 0x2 2 147, DE 0x9 2 147, DE 0x17 2 147, DE 0x28 3 147,
     DE 0x2 2 149, DE 0x9 2 149, DE 0x17 2 149, DE 0x28 3 149,
     DE 0x2 2 150, DE 0x9 2 150, DE 0x17 2 150, DE 0x28 3 150,
     DE 0x2 2 151, DE 0x9 2 151, DE 0x17 2 151, DE 0x28 3 151],
    \<comment> \<open>state 157\<close>
    [DE 0x3 2 147, DE 0x6 2 147, DE 0xa 2 147, DE 0xf 2 147,
     DE 0x18 2 147, DE 0x1f 2 147, DE 0x29 2 147, DE 0x38 3 147,
     DE 0x3 2 149, DE 0x6 2 149, DE 0xa 2 149, DE 0xf 2 149,
     DE 0x18 2 149, DE 0x1f 2 149, DE 0x29 2 149, DE 0x38 3 149],
    \<comment> \<open>state 158\<close>
    [DE 0x3 2 150, DE 0x6 2 150, DE 0xa 2 150, DE 0xf 2 150,
     DE 0x18 2 150, DE 0x1f 2 150, DE 0x29 2 150, DE 0x38 3 150,
     DE 0x3 2 151, DE 0x6 2 151, DE 0xa 2 151, DE 0xf 2 151,
     DE 0x18 2 151, DE 0x1f 2 151, DE 0x29 2 151, DE 0x38 3 151],
    \<comment> \<open>state 159\<close>
    [DE 0x2 2 152, DE 0x9 2 152, DE 0x17 2 152, DE 0x28 3 152,
     DE 0x2 2 155, DE 0x9 2 155, DE 0x17 2 155, DE 0x28 3 155,
     DE 0x2 2 157, DE 0x9 2 157, DE 0x17 2 157, DE 0x28 3 157,
     DE 0x2 2 158, DE 0x9 2 158, DE 0x17 2 158, DE 0x28 3 158],
    \<comment> \<open>state 160\<close>
    [DE 0x3 2 152, DE 0x6 2 152, DE 0xa 2 152, DE 0xf 2 152,
     DE 0x18 2 152, DE 0x1f 2 152, DE 0x29 2 152, DE 0x38 3 152,
     DE 0x3 2 155, DE 0x6 2 155, DE 0xa 2 155, DE 0xf 2 155,
     DE 0x18 2 155, DE 0x1f 2 155, DE 0x29 2 155, DE 0x38 3 155],
    \<comment> \<open>state 161\<close>
    [DE 0x3 2 157, DE 0x6 2 157, DE 0xa 2 157, DE 0xf 2 157,
     DE 0x18 2 157, DE 0x1f 2 157, DE 0x29 2 157, DE 0x38 3 157,
     DE 0x3 2 158, DE 0x6 2 158, DE 0xa 2 158, DE 0xf 2 158,
     DE 0x18 2 158, DE 0x1f 2 158, DE 0x29 2 158, DE 0x38 3 158],
    \<comment> \<open>state 162\<close>
    [DE 0x1 2 165, DE 0x16 3 165, DE 0x1 2 166, DE 0x16 3 166,
     DE 0x1 2 168, DE 0x16 3 168, DE 0x1 2 174, DE 0x16 3 174,
     DE 0x1 2 175, DE 0x16 3 175, DE 0x1 2 180, DE 0x16 3 180,
     DE 0x1 2 182, DE 0x16 3 182, DE 0x1 2 183, DE 0x16 3 183],
    \<comment> \<open>state 163\<close>
    [DE 0x2 2 165, DE 0x9 2 165, DE 0x17 2 165, DE 0x28 3 165,
     DE 0x2 2 166, DE 0x9 2 166, DE 0x17 2 166, DE 0x28 3 166,
     DE 0x2 2 168, DE 0x9 2 168, DE 0x17 2 168, DE 0x28 3 168,
     DE 0x2 2 174, DE 0x9 2 174, DE 0x17 2 174, DE 0x28 3 174],
    \<comment> \<open>state 164\<close>
    [DE 0x3 2 165, DE 0x6 2 165, DE 0xa 2 165, DE 0xf 2 165,
     DE 0x18 2 165, DE 0x1f 2 165, DE 0x29 2 165, DE 0x38 3 165,
     DE 0x3 2 166, DE 0x6 2 166, DE 0xa 2 166, DE 0xf 2 166,
     DE 0x18 2 166, DE 0x1f 2 166, DE 0x29 2 166, DE 0x38 3 166],
    \<comment> \<open>state 165\<close>
    [DE 0x3 2 168, DE 0x6 2 168, DE 0xa 2 168, DE 0xf 2 168,
     DE 0x18 2 168, DE 0x1f 2 168, DE 0x29 2 168, DE 0x38 3 168,
     DE 0x3 2 174, DE 0x6 2 174, DE 0xa 2 174, DE 0xf 2 174,
     DE 0x18 2 174, DE 0x1f 2 174, DE 0x29 2 174, DE 0x38 3 174],
    \<comment> \<open>state 166\<close>
    [DE 0x2 2 175, DE 0x9 2 175, DE 0x17 2 175, DE 0x28 3 175,
     DE 0x2 2 180, DE 0x9 2 180, DE 0x17 2 180, DE 0x28 3 180,
     DE 0x2 2 182, DE 0x9 2 182, DE 0x17 2 182, DE 0x28 3 182,
     DE 0x2 2 183, DE 0x9 2 183, DE 0x17 2 183, DE 0x28 3 183],
    \<comment> \<open>state 167\<close>
    [DE 0x3 2 175, DE 0x6 2 175, DE 0xa 2 175, DE 0xf 2 175,
     DE 0x18 2 175, DE 0x1f 2 175, DE 0x29 2 175, DE 0x38 3 175,
     DE 0x3 2 180, DE 0x6 2 180, DE 0xa 2 180, DE 0xf 2 180,
     DE 0x18 2 180, DE 0x1f 2 180, DE 0x29 2 180, DE 0x38 3 180],
    \<comment> \<open>state 168\<close>
    [DE 0x3 2 182, DE 0x6 2 182, DE 0xa 2 182, DE 0xf 2 182,
     DE 0x18 2 182, DE 0x1f 2 182, DE 0x29 2 182, DE 0x38 3 182,
     DE 0x3 2 183, DE 0x6 2 183, DE 0xa 2 183, DE 0xf 2 183,
     DE 0x18 2 183, DE 0x1f 2 183, DE 0x29 2 183, DE 0x38 3 183],
    \<comment> \<open>state 169\<close>
    [DE 0x0 3 188, DE 0x0 3 191, DE 0x0 3 197, DE 0x0 3 231,
     DE 0x0 3 239, DE 0xb0 0 0, DE 0xb2 0 0, DE 0xb3 0 0,
     DE 0xb7 0 0, DE 0xb8 0 0, DE 0xba 0 0, DE 0xbb 0 0,
     DE 0xc0 0 0, DE 0xc7 0 0, DE 0xd0 0 0, DE 0xdf 0 0],
    \<comment> \<open>state 170\<close>
    [DE 0x1 2 188, DE 0x16 3 188, DE 0x1 2 191, DE 0x16 3 191,
     DE 0x1 2 197, DE 0x16 3 197, DE 0x1 2 231, DE 0x16 3 231,
     DE 0x1 2 239, DE 0x16 3 239, DE 0x0 3 9, DE 0x0 3 142,
     DE 0x0 3 144, DE 0x0 3 145, DE 0x0 3 148, DE 0x0 3 159],
    \<comment> \<open>state 171\<close>
    [DE 0x2 2 188, DE 0x9 2 188, DE 0x17 2 188, DE 0x28 3 188,
     DE 0x2 2 191, DE 0x9 2 191, DE 0x17 2 191, DE 0x28 3 191,
     DE 0x2 2 197, DE 0x9 2 197, DE 0x17 2 197, DE 0x28 3 197,
     DE 0x2 2 231, DE 0x9 2 231, DE 0x17 2 231, DE 0x28 3 231],
    \<comment> \<open>state 172\<close>
    [DE 0x3 2 188, DE 0x6 2 188, DE 0xa 2 188, DE 0xf 2 188,
     DE 0x18 2 188, DE 0x1f 2 188, DE 0x29 2 188, DE 0x38 3 188,
     DE 0x3 2 191, DE 0x6 2 191, DE 0xa 2 191, DE 0xf 2 191,
     DE 0x18 2 191, DE 0x1f 2 191, DE 0x29 2 191, DE 0x38 3 191],
    \<comment> \<open>state 173\<close>
    [DE 0x3 2 197, DE 0x6 2 197, DE 0xa 2 197, DE 0xf 2 197,
     DE 0x18 2 197, DE 0x1f 2 197, DE 0x29 2 197, DE 0x38 3 197,
     DE 0x3 2 231, DE 0x6 2 231, DE 0xa 2 231, DE 0xf 2 231,
     DE 0x18 2 231, DE 0x1f 2 231, DE 0x29 2 231, DE 0x38 3 231],
    \<comment> \<open>state 174\<close>
    [DE 0x2 2 239, DE 0x9 2 239, DE 0x17 2 239, DE 0x28 3 239,
     DE 0x1 2 9, DE 0x16 3 9, DE 0x1 2 142, DE 0x16 3 142,
     DE 0x1 2 144, DE 0x16 3 144, DE 0x1 2 145, DE 0x16 3 145,
     DE 0x1 2 148, DE 0x16 3 148, DE 0x1 2 159, DE 0x16 3 159]
  ]"

definition huff_decode_rows_7 :: "decode_entry list list" where
  "huff_decode_rows_7 = [
    \<comment> \<open>state 175\<close>
    [DE 0x3 2 239, DE 0x6 2 239, DE 0xa 2 239, DE 0xf 2 239,
     DE 0x18 2 239, DE 0x1f 2 239, DE 0x29 2 239, DE 0x38 3 239,
     DE 0x2 2 9, DE 0x9 2 9, DE 0x17 2 9, DE 0x28 3 9,
     DE 0x2 2 142, DE 0x9 2 142, DE 0x17 2 142, DE 0x28 3 142],
    \<comment> \<open>state 176\<close>
    [DE 0x3 2 9, DE 0x6 2 9, DE 0xa 2 9, DE 0xf 2 9,
     DE 0x18 2 9, DE 0x1f 2 9, DE 0x29 2 9, DE 0x38 3 9,
     DE 0x3 2 142, DE 0x6 2 142, DE 0xa 2 142, DE 0xf 2 142,
     DE 0x18 2 142, DE 0x1f 2 142, DE 0x29 2 142, DE 0x38 3 142],
    \<comment> \<open>state 177\<close>
    [DE 0x2 2 144, DE 0x9 2 144, DE 0x17 2 144, DE 0x28 3 144,
     DE 0x2 2 145, DE 0x9 2 145, DE 0x17 2 145, DE 0x28 3 145,
     DE 0x2 2 148, DE 0x9 2 148, DE 0x17 2 148, DE 0x28 3 148,
     DE 0x2 2 159, DE 0x9 2 159, DE 0x17 2 159, DE 0x28 3 159],
    \<comment> \<open>state 178\<close>
    [DE 0x3 2 144, DE 0x6 2 144, DE 0xa 2 144, DE 0xf 2 144,
     DE 0x18 2 144, DE 0x1f 2 144, DE 0x29 2 144, DE 0x38 3 144,
     DE 0x3 2 145, DE 0x6 2 145, DE 0xa 2 145, DE 0xf 2 145,
     DE 0x18 2 145, DE 0x1f 2 145, DE 0x29 2 145, DE 0x38 3 145],
    \<comment> \<open>state 179\<close>
    [DE 0x3 2 148, DE 0x6 2 148, DE 0xa 2 148, DE 0xf 2 148,
     DE 0x18 2 148, DE 0x1f 2 148, DE 0x29 2 148, DE 0x38 3 148,
     DE 0x3 2 159, DE 0x6 2 159, DE 0xa 2 159, DE 0xf 2 159,
     DE 0x18 2 159, DE 0x1f 2 159, DE 0x29 2 159, DE 0x38 3 159],
    \<comment> \<open>state 180\<close>
    [DE 0x0 3 171, DE 0x0 3 206, DE 0x0 3 215, DE 0x0 3 225,
     DE 0x0 3 236, DE 0x0 3 237, DE 0xbc 0 0, DE 0xbd 0 0,
     DE 0xc1 0 0, DE 0xc4 0 0, DE 0xc8 0 0, DE 0xcb 0 0,
     DE 0xd1 0 0, DE 0xd8 0 0, DE 0xe0 0 0, DE 0xee 0 0],
    \<comment> \<open>state 181\<close>
    [DE 0x1 2 171, DE 0x16 3 171, DE 0x1 2 206, DE 0x16 3 206,
     DE 0x1 2 215, DE 0x16 3 215, DE 0x1 2 225, DE 0x16 3 225,
     DE 0x1 2 236, DE 0x16 3 236, DE 0x1 2 237, DE 0x16 3 237,
     DE 0x0 3 199, DE 0x0 3 207, DE 0x0 3 234, DE 0x0 3 235],
    \<comment> \<open>state 182\<close>
    [DE 0x2 2 171, DE 0x9 2 171, DE 0x17 2 171, DE 0x28 3 171,
     DE 0x2 2 206, DE 0x9 2 206, DE 0x17 2 206, DE 0x28 3 206,
     DE 0x2 2 215, DE 0x9 2 215, DE 0x17 2 215, DE 0x28 3 215,
     DE 0x2 2 225, DE 0x9 2 225, DE 0x17 2 225, DE 0x28 3 225],
    \<comment> \<open>state 183\<close>
    [DE 0x3 2 171, DE 0x6 2 171, DE 0xa 2 171, DE 0xf 2 171,
     DE 0x18 2 171, DE 0x1f 2 171, DE 0x29 2 171, DE 0x38 3 171,
     DE 0x3 2 206, DE 0x6 2 206, DE 0xa 2 206, DE 0xf 2 206,
     DE 0x18 2 206, DE 0x1f 2 206, DE 0x29 2 206, DE 0x38 3 206],
    \<comment> \<open>state 184\<close>
    [DE 0x3 2 215, DE 0x6 2 215, DE 0xa 2 215, DE 0xf 2 215,
     DE 0x18 2 215, DE 0x1f 2 215, DE 0x29 2 215, DE 0x38 3 215,
     DE 0x3 2 225, DE 0x6 2 225, DE 0xa 2 225, DE 0xf 2 225,
     DE 0x18 2 225, DE 0x1f 2 225, DE 0x29 2 225, DE 0x38 3 225],
    \<comment> \<open>state 185\<close>
    [DE 0x2 2 236, DE 0x9 2 236, DE 0x17 2 236, DE 0x28 3 236,
     DE 0x2 2 237, DE 0x9 2 237, DE 0x17 2 237, DE 0x28 3 237,
     DE 0x1 2 199, DE 0x16 3 199, DE 0x1 2 207, DE 0x16 3 207,
     DE 0x1 2 234, DE 0x16 3 234, DE 0x1 2 235, DE 0x16 3 235],
    \<comment> \<open>state 186\<close>
    [DE 0x3 2 236, DE 0x6 2 236, DE 0xa 2 236, DE 0xf 2 236,
     DE 0x18 2 236, DE 0x1f 2 236, DE 0x29 2 236, DE 0x38 3 236,
     DE 0x3 2 237, DE 0x6 2 237, DE 0xa 2 237, DE 0xf 2 237,
     DE 0x18 2 237, DE 0x1f 2 237, DE 0x29 2 237, DE 0x38 3 237],
    \<comment> \<open>state 187\<close>
    [DE 0x2 2 199, DE 0x9 2 199, DE 0x17 2 199, DE 0x28 3 199,
     DE 0x2 2 207, DE 0x9 2 207, DE 0x17 2 207, DE 0x28 3 207,
     DE 0x2 2 234, DE 0x9 2 234, DE 0x17 2 234, DE 0x28 3 234,
     DE 0x2 2 235, DE 0x9 2 235, DE 0x17 2 235, DE 0x28 3 235],
    \<comment> \<open>state 188\<close>
    [DE 0x3 2 199, DE 0x6 2 199, DE 0xa 2 199, DE 0xf 2 199,
     DE 0x18 2 199, DE 0x1f 2 199, DE 0x29 2 199, DE 0x38 3 199,
     DE 0x3 2 207, DE 0x6 2 207, DE 0xa 2 207, DE 0xf 2 207,
     DE 0x18 2 207, DE 0x1f 2 207, DE 0x29 2 207, DE 0x38 3 207],
    \<comment> \<open>state 189\<close>
    [DE 0x3 2 234, DE 0x6 2 234, DE 0xa 2 234, DE 0xf 2 234,
     DE 0x18 2 234, DE 0x1f 2 234, DE 0x29 2 234, DE 0x38 3 234,
     DE 0x3 2 235, DE 0x6 2 235, DE 0xa 2 235, DE 0xf 2 235,
     DE 0x18 2 235, DE 0x1f 2 235, DE 0x29 2 235, DE 0x38 3 235],
    \<comment> \<open>state 190\<close>
    [DE 0xc2 0 0, DE 0xc3 0 0, DE 0xc5 0 0, DE 0xc6 0 0,
     DE 0xc9 0 0, DE 0xca 0 0, DE 0xcc 0 0, DE 0xcd 0 0,
     DE 0xd2 0 0, DE 0xd5 0 0, DE 0xd9 0 0, DE 0xdc 0 0,
     DE 0xe1 0 0, DE 0xe7 0 0, DE 0xef 0 0, DE 0xf6 0 0],
    \<comment> \<open>state 191\<close>
    [DE 0x0 3 192, DE 0x0 3 193, DE 0x0 3 200, DE 0x0 3 201,
     DE 0x0 3 202, DE 0x0 3 205, DE 0x0 3 210, DE 0x0 3 213,
     DE 0x0 3 218, DE 0x0 3 219, DE 0x0 3 238, DE 0x0 3 240,
     DE 0x0 3 242, DE 0x0 3 243, DE 0x0 3 255, DE 0xce 0 0],
    \<comment> \<open>state 192\<close>
    [DE 0x1 2 192, DE 0x16 3 192, DE 0x1 2 193, DE 0x16 3 193,
     DE 0x1 2 200, DE 0x16 3 200, DE 0x1 2 201, DE 0x16 3 201,
     DE 0x1 2 202, DE 0x16 3 202, DE 0x1 2 205, DE 0x16 3 205,
     DE 0x1 2 210, DE 0x16 3 210, DE 0x1 2 213, DE 0x16 3 213],
    \<comment> \<open>state 193\<close>
    [DE 0x2 2 192, DE 0x9 2 192, DE 0x17 2 192, DE 0x28 3 192,
     DE 0x2 2 193, DE 0x9 2 193, DE 0x17 2 193, DE 0x28 3 193,
     DE 0x2 2 200, DE 0x9 2 200, DE 0x17 2 200, DE 0x28 3 200,
     DE 0x2 2 201, DE 0x9 2 201, DE 0x17 2 201, DE 0x28 3 201],
    \<comment> \<open>state 194\<close>
    [DE 0x3 2 192, DE 0x6 2 192, DE 0xa 2 192, DE 0xf 2 192,
     DE 0x18 2 192, DE 0x1f 2 192, DE 0x29 2 192, DE 0x38 3 192,
     DE 0x3 2 193, DE 0x6 2 193, DE 0xa 2 193, DE 0xf 2 193,
     DE 0x18 2 193, DE 0x1f 2 193, DE 0x29 2 193, DE 0x38 3 193],
    \<comment> \<open>state 195\<close>
    [DE 0x3 2 200, DE 0x6 2 200, DE 0xa 2 200, DE 0xf 2 200,
     DE 0x18 2 200, DE 0x1f 2 200, DE 0x29 2 200, DE 0x38 3 200,
     DE 0x3 2 201, DE 0x6 2 201, DE 0xa 2 201, DE 0xf 2 201,
     DE 0x18 2 201, DE 0x1f 2 201, DE 0x29 2 201, DE 0x38 3 201],
    \<comment> \<open>state 196\<close>
    [DE 0x2 2 202, DE 0x9 2 202, DE 0x17 2 202, DE 0x28 3 202,
     DE 0x2 2 205, DE 0x9 2 205, DE 0x17 2 205, DE 0x28 3 205,
     DE 0x2 2 210, DE 0x9 2 210, DE 0x17 2 210, DE 0x28 3 210,
     DE 0x2 2 213, DE 0x9 2 213, DE 0x17 2 213, DE 0x28 3 213],
    \<comment> \<open>state 197\<close>
    [DE 0x3 2 202, DE 0x6 2 202, DE 0xa 2 202, DE 0xf 2 202,
     DE 0x18 2 202, DE 0x1f 2 202, DE 0x29 2 202, DE 0x38 3 202,
     DE 0x3 2 205, DE 0x6 2 205, DE 0xa 2 205, DE 0xf 2 205,
     DE 0x18 2 205, DE 0x1f 2 205, DE 0x29 2 205, DE 0x38 3 205],
    \<comment> \<open>state 198\<close>
    [DE 0x3 2 210, DE 0x6 2 210, DE 0xa 2 210, DE 0xf 2 210,
     DE 0x18 2 210, DE 0x1f 2 210, DE 0x29 2 210, DE 0x38 3 210,
     DE 0x3 2 213, DE 0x6 2 213, DE 0xa 2 213, DE 0xf 2 213,
     DE 0x18 2 213, DE 0x1f 2 213, DE 0x29 2 213, DE 0x38 3 213],
    \<comment> \<open>state 199\<close>
    [DE 0x1 2 218, DE 0x16 3 218, DE 0x1 2 219, DE 0x16 3 219,
     DE 0x1 2 238, DE 0x16 3 238, DE 0x1 2 240, DE 0x16 3 240,
     DE 0x1 2 242, DE 0x16 3 242, DE 0x1 2 243, DE 0x16 3 243,
     DE 0x1 2 255, DE 0x16 3 255, DE 0x0 3 203, DE 0x0 3 204]
  ]"

definition huff_decode_rows_8 :: "decode_entry list list" where
  "huff_decode_rows_8 = [
    \<comment> \<open>state 200\<close>
    [DE 0x2 2 218, DE 0x9 2 218, DE 0x17 2 218, DE 0x28 3 218,
     DE 0x2 2 219, DE 0x9 2 219, DE 0x17 2 219, DE 0x28 3 219,
     DE 0x2 2 238, DE 0x9 2 238, DE 0x17 2 238, DE 0x28 3 238,
     DE 0x2 2 240, DE 0x9 2 240, DE 0x17 2 240, DE 0x28 3 240],
    \<comment> \<open>state 201\<close>
    [DE 0x3 2 218, DE 0x6 2 218, DE 0xa 2 218, DE 0xf 2 218,
     DE 0x18 2 218, DE 0x1f 2 218, DE 0x29 2 218, DE 0x38 3 218,
     DE 0x3 2 219, DE 0x6 2 219, DE 0xa 2 219, DE 0xf 2 219,
     DE 0x18 2 219, DE 0x1f 2 219, DE 0x29 2 219, DE 0x38 3 219],
    \<comment> \<open>state 202\<close>
    [DE 0x3 2 238, DE 0x6 2 238, DE 0xa 2 238, DE 0xf 2 238,
     DE 0x18 2 238, DE 0x1f 2 238, DE 0x29 2 238, DE 0x38 3 238,
     DE 0x3 2 240, DE 0x6 2 240, DE 0xa 2 240, DE 0xf 2 240,
     DE 0x18 2 240, DE 0x1f 2 240, DE 0x29 2 240, DE 0x38 3 240],
    \<comment> \<open>state 203\<close>
    [DE 0x2 2 242, DE 0x9 2 242, DE 0x17 2 242, DE 0x28 3 242,
     DE 0x2 2 243, DE 0x9 2 243, DE 0x17 2 243, DE 0x28 3 243,
     DE 0x2 2 255, DE 0x9 2 255, DE 0x17 2 255, DE 0x28 3 255,
     DE 0x1 2 203, DE 0x16 3 203, DE 0x1 2 204, DE 0x16 3 204],
    \<comment> \<open>state 204\<close>
    [DE 0x3 2 242, DE 0x6 2 242, DE 0xa 2 242, DE 0xf 2 242,
     DE 0x18 2 242, DE 0x1f 2 242, DE 0x29 2 242, DE 0x38 3 242,
     DE 0x3 2 243, DE 0x6 2 243, DE 0xa 2 243, DE 0xf 2 243,
     DE 0x18 2 243, DE 0x1f 2 243, DE 0x29 2 243, DE 0x38 3 243],
    \<comment> \<open>state 205\<close>
    [DE 0x3 2 255, DE 0x6 2 255, DE 0xa 2 255, DE 0xf 2 255,
     DE 0x18 2 255, DE 0x1f 2 255, DE 0x29 2 255, DE 0x38 3 255,
     DE 0x2 2 203, DE 0x9 2 203, DE 0x17 2 203, DE 0x28 3 203,
     DE 0x2 2 204, DE 0x9 2 204, DE 0x17 2 204, DE 0x28 3 204],
    \<comment> \<open>state 206\<close>
    [DE 0x3 2 203, DE 0x6 2 203, DE 0xa 2 203, DE 0xf 2 203,
     DE 0x18 2 203, DE 0x1f 2 203, DE 0x29 2 203, DE 0x38 3 203,
     DE 0x3 2 204, DE 0x6 2 204, DE 0xa 2 204, DE 0xf 2 204,
     DE 0x18 2 204, DE 0x1f 2 204, DE 0x29 2 204, DE 0x38 3 204],
    \<comment> \<open>state 207\<close>
    [DE 0xd3 0 0, DE 0xd4 0 0, DE 0xd6 0 0, DE 0xd7 0 0,
     DE 0xda 0 0, DE 0xdb 0 0, DE 0xdd 0 0, DE 0xde 0 0,
     DE 0xe2 0 0, DE 0xe4 0 0, DE 0xe8 0 0, DE 0xeb 0 0,
     DE 0xf0 0 0, DE 0xf3 0 0, DE 0xf7 0 0, DE 0xfa 0 0],
    \<comment> \<open>state 208\<close>
    [DE 0x0 3 211, DE 0x0 3 212, DE 0x0 3 214, DE 0x0 3 221,
     DE 0x0 3 222, DE 0x0 3 223, DE 0x0 3 241, DE 0x0 3 244,
     DE 0x0 3 245, DE 0x0 3 246, DE 0x0 3 247, DE 0x0 3 248,
     DE 0x0 3 250, DE 0x0 3 251, DE 0x0 3 252, DE 0x0 3 253],
    \<comment> \<open>state 209\<close>
    [DE 0x1 2 211, DE 0x16 3 211, DE 0x1 2 212, DE 0x16 3 212,
     DE 0x1 2 214, DE 0x16 3 214, DE 0x1 2 221, DE 0x16 3 221,
     DE 0x1 2 222, DE 0x16 3 222, DE 0x1 2 223, DE 0x16 3 223,
     DE 0x1 2 241, DE 0x16 3 241, DE 0x1 2 244, DE 0x16 3 244],
    \<comment> \<open>state 210\<close>
    [DE 0x2 2 211, DE 0x9 2 211, DE 0x17 2 211, DE 0x28 3 211,
     DE 0x2 2 212, DE 0x9 2 212, DE 0x17 2 212, DE 0x28 3 212,
     DE 0x2 2 214, DE 0x9 2 214, DE 0x17 2 214, DE 0x28 3 214,
     DE 0x2 2 221, DE 0x9 2 221, DE 0x17 2 221, DE 0x28 3 221],
    \<comment> \<open>state 211\<close>
    [DE 0x3 2 211, DE 0x6 2 211, DE 0xa 2 211, DE 0xf 2 211,
     DE 0x18 2 211, DE 0x1f 2 211, DE 0x29 2 211, DE 0x38 3 211,
     DE 0x3 2 212, DE 0x6 2 212, DE 0xa 2 212, DE 0xf 2 212,
     DE 0x18 2 212, DE 0x1f 2 212, DE 0x29 2 212, DE 0x38 3 212],
    \<comment> \<open>state 212\<close>
    [DE 0x3 2 214, DE 0x6 2 214, DE 0xa 2 214, DE 0xf 2 214,
     DE 0x18 2 214, DE 0x1f 2 214, DE 0x29 2 214, DE 0x38 3 214,
     DE 0x3 2 221, DE 0x6 2 221, DE 0xa 2 221, DE 0xf 2 221,
     DE 0x18 2 221, DE 0x1f 2 221, DE 0x29 2 221, DE 0x38 3 221],
    \<comment> \<open>state 213\<close>
    [DE 0x2 2 222, DE 0x9 2 222, DE 0x17 2 222, DE 0x28 3 222,
     DE 0x2 2 223, DE 0x9 2 223, DE 0x17 2 223, DE 0x28 3 223,
     DE 0x2 2 241, DE 0x9 2 241, DE 0x17 2 241, DE 0x28 3 241,
     DE 0x2 2 244, DE 0x9 2 244, DE 0x17 2 244, DE 0x28 3 244],
    \<comment> \<open>state 214\<close>
    [DE 0x3 2 222, DE 0x6 2 222, DE 0xa 2 222, DE 0xf 2 222,
     DE 0x18 2 222, DE 0x1f 2 222, DE 0x29 2 222, DE 0x38 3 222,
     DE 0x3 2 223, DE 0x6 2 223, DE 0xa 2 223, DE 0xf 2 223,
     DE 0x18 2 223, DE 0x1f 2 223, DE 0x29 2 223, DE 0x38 3 223],
    \<comment> \<open>state 215\<close>
    [DE 0x3 2 241, DE 0x6 2 241, DE 0xa 2 241, DE 0xf 2 241,
     DE 0x18 2 241, DE 0x1f 2 241, DE 0x29 2 241, DE 0x38 3 241,
     DE 0x3 2 244, DE 0x6 2 244, DE 0xa 2 244, DE 0xf 2 244,
     DE 0x18 2 244, DE 0x1f 2 244, DE 0x29 2 244, DE 0x38 3 244],
    \<comment> \<open>state 216\<close>
    [DE 0x1 2 245, DE 0x16 3 245, DE 0x1 2 246, DE 0x16 3 246,
     DE 0x1 2 247, DE 0x16 3 247, DE 0x1 2 248, DE 0x16 3 248,
     DE 0x1 2 250, DE 0x16 3 250, DE 0x1 2 251, DE 0x16 3 251,
     DE 0x1 2 252, DE 0x16 3 252, DE 0x1 2 253, DE 0x16 3 253],
    \<comment> \<open>state 217\<close>
    [DE 0x2 2 245, DE 0x9 2 245, DE 0x17 2 245, DE 0x28 3 245,
     DE 0x2 2 246, DE 0x9 2 246, DE 0x17 2 246, DE 0x28 3 246,
     DE 0x2 2 247, DE 0x9 2 247, DE 0x17 2 247, DE 0x28 3 247,
     DE 0x2 2 248, DE 0x9 2 248, DE 0x17 2 248, DE 0x28 3 248],
    \<comment> \<open>state 218\<close>
    [DE 0x3 2 245, DE 0x6 2 245, DE 0xa 2 245, DE 0xf 2 245,
     DE 0x18 2 245, DE 0x1f 2 245, DE 0x29 2 245, DE 0x38 3 245,
     DE 0x3 2 246, DE 0x6 2 246, DE 0xa 2 246, DE 0xf 2 246,
     DE 0x18 2 246, DE 0x1f 2 246, DE 0x29 2 246, DE 0x38 3 246],
    \<comment> \<open>state 219\<close>
    [DE 0x3 2 247, DE 0x6 2 247, DE 0xa 2 247, DE 0xf 2 247,
     DE 0x18 2 247, DE 0x1f 2 247, DE 0x29 2 247, DE 0x38 3 247,
     DE 0x3 2 248, DE 0x6 2 248, DE 0xa 2 248, DE 0xf 2 248,
     DE 0x18 2 248, DE 0x1f 2 248, DE 0x29 2 248, DE 0x38 3 248],
    \<comment> \<open>state 220\<close>
    [DE 0x2 2 250, DE 0x9 2 250, DE 0x17 2 250, DE 0x28 3 250,
     DE 0x2 2 251, DE 0x9 2 251, DE 0x17 2 251, DE 0x28 3 251,
     DE 0x2 2 252, DE 0x9 2 252, DE 0x17 2 252, DE 0x28 3 252,
     DE 0x2 2 253, DE 0x9 2 253, DE 0x17 2 253, DE 0x28 3 253],
    \<comment> \<open>state 221\<close>
    [DE 0x3 2 250, DE 0x6 2 250, DE 0xa 2 250, DE 0xf 2 250,
     DE 0x18 2 250, DE 0x1f 2 250, DE 0x29 2 250, DE 0x38 3 250,
     DE 0x3 2 251, DE 0x6 2 251, DE 0xa 2 251, DE 0xf 2 251,
     DE 0x18 2 251, DE 0x1f 2 251, DE 0x29 2 251, DE 0x38 3 251],
    \<comment> \<open>state 222\<close>
    [DE 0x3 2 252, DE 0x6 2 252, DE 0xa 2 252, DE 0xf 2 252,
     DE 0x18 2 252, DE 0x1f 2 252, DE 0x29 2 252, DE 0x38 3 252,
     DE 0x3 2 253, DE 0x6 2 253, DE 0xa 2 253, DE 0xf 2 253,
     DE 0x18 2 253, DE 0x1f 2 253, DE 0x29 2 253, DE 0x38 3 253],
    \<comment> \<open>state 223\<close>
    [DE 0x0 3 254, DE 0xe3 0 0, DE 0xe5 0 0, DE 0xe6 0 0,
     DE 0xe9 0 0, DE 0xea 0 0, DE 0xec 0 0, DE 0xed 0 0,
     DE 0xf1 0 0, DE 0xf2 0 0, DE 0xf4 0 0, DE 0xf5 0 0,
     DE 0xf8 0 0, DE 0xf9 0 0, DE 0xfb 0 0, DE 0xfc 0 0],
    \<comment> \<open>state 224\<close>
    [DE 0x1 2 254, DE 0x16 3 254, DE 0x0 3 2, DE 0x0 3 3,
     DE 0x0 3 4, DE 0x0 3 5, DE 0x0 3 6, DE 0x0 3 7,
     DE 0x0 3 8, DE 0x0 3 11, DE 0x0 3 12, DE 0x0 3 14,
     DE 0x0 3 15, DE 0x0 3 16, DE 0x0 3 17, DE 0x0 3 18]
  ]"

definition huff_decode_rows_9 :: "decode_entry list list" where
  "huff_decode_rows_9 = [
    \<comment> \<open>state 225\<close>
    [DE 0x2 2 254, DE 0x9 2 254, DE 0x17 2 254, DE 0x28 3 254,
     DE 0x1 2 2, DE 0x16 3 2, DE 0x1 2 3, DE 0x16 3 3,
     DE 0x1 2 4, DE 0x16 3 4, DE 0x1 2 5, DE 0x16 3 5,
     DE 0x1 2 6, DE 0x16 3 6, DE 0x1 2 7, DE 0x16 3 7],
    \<comment> \<open>state 226\<close>
    [DE 0x3 2 254, DE 0x6 2 254, DE 0xa 2 254, DE 0xf 2 254,
     DE 0x18 2 254, DE 0x1f 2 254, DE 0x29 2 254, DE 0x38 3 254,
     DE 0x2 2 2, DE 0x9 2 2, DE 0x17 2 2, DE 0x28 3 2,
     DE 0x2 2 3, DE 0x9 2 3, DE 0x17 2 3, DE 0x28 3 3],
    \<comment> \<open>state 227\<close>
    [DE 0x3 2 2, DE 0x6 2 2, DE 0xa 2 2, DE 0xf 2 2,
     DE 0x18 2 2, DE 0x1f 2 2, DE 0x29 2 2, DE 0x38 3 2,
     DE 0x3 2 3, DE 0x6 2 3, DE 0xa 2 3, DE 0xf 2 3,
     DE 0x18 2 3, DE 0x1f 2 3, DE 0x29 2 3, DE 0x38 3 3],
    \<comment> \<open>state 228\<close>
    [DE 0x2 2 4, DE 0x9 2 4, DE 0x17 2 4, DE 0x28 3 4,
     DE 0x2 2 5, DE 0x9 2 5, DE 0x17 2 5, DE 0x28 3 5,
     DE 0x2 2 6, DE 0x9 2 6, DE 0x17 2 6, DE 0x28 3 6,
     DE 0x2 2 7, DE 0x9 2 7, DE 0x17 2 7, DE 0x28 3 7],
    \<comment> \<open>state 229\<close>
    [DE 0x3 2 4, DE 0x6 2 4, DE 0xa 2 4, DE 0xf 2 4,
     DE 0x18 2 4, DE 0x1f 2 4, DE 0x29 2 4, DE 0x38 3 4,
     DE 0x3 2 5, DE 0x6 2 5, DE 0xa 2 5, DE 0xf 2 5,
     DE 0x18 2 5, DE 0x1f 2 5, DE 0x29 2 5, DE 0x38 3 5],
    \<comment> \<open>state 230\<close>
    [DE 0x3 2 6, DE 0x6 2 6, DE 0xa 2 6, DE 0xf 2 6,
     DE 0x18 2 6, DE 0x1f 2 6, DE 0x29 2 6, DE 0x38 3 6,
     DE 0x3 2 7, DE 0x6 2 7, DE 0xa 2 7, DE 0xf 2 7,
     DE 0x18 2 7, DE 0x1f 2 7, DE 0x29 2 7, DE 0x38 3 7],
    \<comment> \<open>state 231\<close>
    [DE 0x1 2 8, DE 0x16 3 8, DE 0x1 2 11, DE 0x16 3 11,
     DE 0x1 2 12, DE 0x16 3 12, DE 0x1 2 14, DE 0x16 3 14,
     DE 0x1 2 15, DE 0x16 3 15, DE 0x1 2 16, DE 0x16 3 16,
     DE 0x1 2 17, DE 0x16 3 17, DE 0x1 2 18, DE 0x16 3 18],
    \<comment> \<open>state 232\<close>
    [DE 0x2 2 8, DE 0x9 2 8, DE 0x17 2 8, DE 0x28 3 8,
     DE 0x2 2 11, DE 0x9 2 11, DE 0x17 2 11, DE 0x28 3 11,
     DE 0x2 2 12, DE 0x9 2 12, DE 0x17 2 12, DE 0x28 3 12,
     DE 0x2 2 14, DE 0x9 2 14, DE 0x17 2 14, DE 0x28 3 14],
    \<comment> \<open>state 233\<close>
    [DE 0x3 2 8, DE 0x6 2 8, DE 0xa 2 8, DE 0xf 2 8,
     DE 0x18 2 8, DE 0x1f 2 8, DE 0x29 2 8, DE 0x38 3 8,
     DE 0x3 2 11, DE 0x6 2 11, DE 0xa 2 11, DE 0xf 2 11,
     DE 0x18 2 11, DE 0x1f 2 11, DE 0x29 2 11, DE 0x38 3 11],
    \<comment> \<open>state 234\<close>
    [DE 0x3 2 12, DE 0x6 2 12, DE 0xa 2 12, DE 0xf 2 12,
     DE 0x18 2 12, DE 0x1f 2 12, DE 0x29 2 12, DE 0x38 3 12,
     DE 0x3 2 14, DE 0x6 2 14, DE 0xa 2 14, DE 0xf 2 14,
     DE 0x18 2 14, DE 0x1f 2 14, DE 0x29 2 14, DE 0x38 3 14],
    \<comment> \<open>state 235\<close>
    [DE 0x2 2 15, DE 0x9 2 15, DE 0x17 2 15, DE 0x28 3 15,
     DE 0x2 2 16, DE 0x9 2 16, DE 0x17 2 16, DE 0x28 3 16,
     DE 0x2 2 17, DE 0x9 2 17, DE 0x17 2 17, DE 0x28 3 17,
     DE 0x2 2 18, DE 0x9 2 18, DE 0x17 2 18, DE 0x28 3 18],
    \<comment> \<open>state 236\<close>
    [DE 0x3 2 15, DE 0x6 2 15, DE 0xa 2 15, DE 0xf 2 15,
     DE 0x18 2 15, DE 0x1f 2 15, DE 0x29 2 15, DE 0x38 3 15,
     DE 0x3 2 16, DE 0x6 2 16, DE 0xa 2 16, DE 0xf 2 16,
     DE 0x18 2 16, DE 0x1f 2 16, DE 0x29 2 16, DE 0x38 3 16],
    \<comment> \<open>state 237\<close>
    [DE 0x3 2 17, DE 0x6 2 17, DE 0xa 2 17, DE 0xf 2 17,
     DE 0x18 2 17, DE 0x1f 2 17, DE 0x29 2 17, DE 0x38 3 17,
     DE 0x3 2 18, DE 0x6 2 18, DE 0xa 2 18, DE 0xf 2 18,
     DE 0x18 2 18, DE 0x1f 2 18, DE 0x29 2 18, DE 0x38 3 18],
    \<comment> \<open>state 238\<close>
    [DE 0x0 3 19, DE 0x0 3 20, DE 0x0 3 21, DE 0x0 3 23,
     DE 0x0 3 24, DE 0x0 3 25, DE 0x0 3 26, DE 0x0 3 27,
     DE 0x0 3 28, DE 0x0 3 29, DE 0x0 3 30, DE 0x0 3 31,
     DE 0x0 3 127, DE 0x0 3 220, DE 0x0 3 249, DE 0xfd 0 0],
    \<comment> \<open>state 239\<close>
    [DE 0x1 2 19, DE 0x16 3 19, DE 0x1 2 20, DE 0x16 3 20,
     DE 0x1 2 21, DE 0x16 3 21, DE 0x1 2 23, DE 0x16 3 23,
     DE 0x1 2 24, DE 0x16 3 24, DE 0x1 2 25, DE 0x16 3 25,
     DE 0x1 2 26, DE 0x16 3 26, DE 0x1 2 27, DE 0x16 3 27],
    \<comment> \<open>state 240\<close>
    [DE 0x2 2 19, DE 0x9 2 19, DE 0x17 2 19, DE 0x28 3 19,
     DE 0x2 2 20, DE 0x9 2 20, DE 0x17 2 20, DE 0x28 3 20,
     DE 0x2 2 21, DE 0x9 2 21, DE 0x17 2 21, DE 0x28 3 21,
     DE 0x2 2 23, DE 0x9 2 23, DE 0x17 2 23, DE 0x28 3 23],
    \<comment> \<open>state 241\<close>
    [DE 0x3 2 19, DE 0x6 2 19, DE 0xa 2 19, DE 0xf 2 19,
     DE 0x18 2 19, DE 0x1f 2 19, DE 0x29 2 19, DE 0x38 3 19,
     DE 0x3 2 20, DE 0x6 2 20, DE 0xa 2 20, DE 0xf 2 20,
     DE 0x18 2 20, DE 0x1f 2 20, DE 0x29 2 20, DE 0x38 3 20],
    \<comment> \<open>state 242\<close>
    [DE 0x3 2 21, DE 0x6 2 21, DE 0xa 2 21, DE 0xf 2 21,
     DE 0x18 2 21, DE 0x1f 2 21, DE 0x29 2 21, DE 0x38 3 21,
     DE 0x3 2 23, DE 0x6 2 23, DE 0xa 2 23, DE 0xf 2 23,
     DE 0x18 2 23, DE 0x1f 2 23, DE 0x29 2 23, DE 0x38 3 23],
    \<comment> \<open>state 243\<close>
    [DE 0x2 2 24, DE 0x9 2 24, DE 0x17 2 24, DE 0x28 3 24,
     DE 0x2 2 25, DE 0x9 2 25, DE 0x17 2 25, DE 0x28 3 25,
     DE 0x2 2 26, DE 0x9 2 26, DE 0x17 2 26, DE 0x28 3 26,
     DE 0x2 2 27, DE 0x9 2 27, DE 0x17 2 27, DE 0x28 3 27],
    \<comment> \<open>state 244\<close>
    [DE 0x3 2 24, DE 0x6 2 24, DE 0xa 2 24, DE 0xf 2 24,
     DE 0x18 2 24, DE 0x1f 2 24, DE 0x29 2 24, DE 0x38 3 24,
     DE 0x3 2 25, DE 0x6 2 25, DE 0xa 2 25, DE 0xf 2 25,
     DE 0x18 2 25, DE 0x1f 2 25, DE 0x29 2 25, DE 0x38 3 25],
    \<comment> \<open>state 245\<close>
    [DE 0x3 2 26, DE 0x6 2 26, DE 0xa 2 26, DE 0xf 2 26,
     DE 0x18 2 26, DE 0x1f 2 26, DE 0x29 2 26, DE 0x38 3 26,
     DE 0x3 2 27, DE 0x6 2 27, DE 0xa 2 27, DE 0xf 2 27,
     DE 0x18 2 27, DE 0x1f 2 27, DE 0x29 2 27, DE 0x38 3 27],
    \<comment> \<open>state 246\<close>
    [DE 0x1 2 28, DE 0x16 3 28, DE 0x1 2 29, DE 0x16 3 29,
     DE 0x1 2 30, DE 0x16 3 30, DE 0x1 2 31, DE 0x16 3 31,
     DE 0x1 2 127, DE 0x16 3 127, DE 0x1 2 220, DE 0x16 3 220,
     DE 0x1 2 249, DE 0x16 3 249, DE 0xfe 0 0, DE 0xff 0 0],
    \<comment> \<open>state 247\<close>
    [DE 0x2 2 28, DE 0x9 2 28, DE 0x17 2 28, DE 0x28 3 28,
     DE 0x2 2 29, DE 0x9 2 29, DE 0x17 2 29, DE 0x28 3 29,
     DE 0x2 2 30, DE 0x9 2 30, DE 0x17 2 30, DE 0x28 3 30,
     DE 0x2 2 31, DE 0x9 2 31, DE 0x17 2 31, DE 0x28 3 31],
    \<comment> \<open>state 248\<close>
    [DE 0x3 2 28, DE 0x6 2 28, DE 0xa 2 28, DE 0xf 2 28,
     DE 0x18 2 28, DE 0x1f 2 28, DE 0x29 2 28, DE 0x38 3 28,
     DE 0x3 2 29, DE 0x6 2 29, DE 0xa 2 29, DE 0xf 2 29,
     DE 0x18 2 29, DE 0x1f 2 29, DE 0x29 2 29, DE 0x38 3 29],
    \<comment> \<open>state 249\<close>
    [DE 0x3 2 30, DE 0x6 2 30, DE 0xa 2 30, DE 0xf 2 30,
     DE 0x18 2 30, DE 0x1f 2 30, DE 0x29 2 30, DE 0x38 3 30,
     DE 0x3 2 31, DE 0x6 2 31, DE 0xa 2 31, DE 0xf 2 31,
     DE 0x18 2 31, DE 0x1f 2 31, DE 0x29 2 31, DE 0x38 3 31]
  ]"

definition huff_decode_rows_10 :: "decode_entry list list" where
  "huff_decode_rows_10 = [
    \<comment> \<open>state 250\<close>
    [DE 0x2 2 127, DE 0x9 2 127, DE 0x17 2 127, DE 0x28 3 127,
     DE 0x2 2 220, DE 0x9 2 220, DE 0x17 2 220, DE 0x28 3 220,
     DE 0x2 2 249, DE 0x9 2 249, DE 0x17 2 249, DE 0x28 3 249,
     DE 0x0 3 10, DE 0x0 3 13, DE 0x0 3 22, DE 0x100 0 0],
    \<comment> \<open>state 251\<close>
    [DE 0x3 2 127, DE 0x6 2 127, DE 0xa 2 127, DE 0xf 2 127,
     DE 0x18 2 127, DE 0x1f 2 127, DE 0x29 2 127, DE 0x38 3 127,
     DE 0x3 2 220, DE 0x6 2 220, DE 0xa 2 220, DE 0xf 2 220,
     DE 0x18 2 220, DE 0x1f 2 220, DE 0x29 2 220, DE 0x38 3 220],
    \<comment> \<open>state 252\<close>
    [DE 0x3 2 249, DE 0x6 2 249, DE 0xa 2 249, DE 0xf 2 249,
     DE 0x18 2 249, DE 0x1f 2 249, DE 0x29 2 249, DE 0x38 3 249,
     DE 0x1 2 10, DE 0x16 3 10, DE 0x1 2 13, DE 0x16 3 13,
     DE 0x1 2 22, DE 0x16 3 22, DE 0x100 0 0, DE 0x100 0 0],
    \<comment> \<open>state 253\<close>
    [DE 0x2 2 10, DE 0x9 2 10, DE 0x17 2 10, DE 0x28 3 10,
     DE 0x2 2 13, DE 0x9 2 13, DE 0x17 2 13, DE 0x28 3 13,
     DE 0x2 2 22, DE 0x9 2 22, DE 0x17 2 22, DE 0x28 3 22,
     DE 0x100 0 0, DE 0x100 0 0, DE 0x100 0 0, DE 0x100 0 0],
    \<comment> \<open>state 254\<close>
    [DE 0x3 2 10, DE 0x6 2 10, DE 0xa 2 10, DE 0xf 2 10,
     DE 0x18 2 10, DE 0x1f 2 10, DE 0x29 2 10, DE 0x38 3 10,
     DE 0x3 2 13, DE 0x6 2 13, DE 0xa 2 13, DE 0xf 2 13,
     DE 0x18 2 13, DE 0x1f 2 13, DE 0x29 2 13, DE 0x38 3 13],
    \<comment> \<open>state 255\<close>
    [DE 0x3 2 22, DE 0x6 2 22, DE 0xa 2 22, DE 0xf 2 22,
     DE 0x18 2 22, DE 0x1f 2 22, DE 0x29 2 22, DE 0x38 3 22,
     DE 0x100 0 0, DE 0x100 0 0, DE 0x100 0 0, DE 0x100 0 0,
     DE 0x100 0 0, DE 0x100 0 0, DE 0x100 0 0, DE 0x100 0 0],
    \<comment> \<open>state 256\<close>
    [DE 0x100 0 0, DE 0x100 0 0, DE 0x100 0 0, DE 0x100 0 0,
     DE 0x100 0 0, DE 0x100 0 0, DE 0x100 0 0, DE 0x100 0 0,
     DE 0x100 0 0, DE 0x100 0 0, DE 0x100 0 0, DE 0x100 0 0,
     DE 0x100 0 0, DE 0x100 0 0, DE 0x100 0 0, DE 0x100 0 0]
  ]"

definition huff_decode_table :: "decode_entry list list" where
  "huff_decode_table =
     huff_decode_rows_0 @
     huff_decode_rows_1 @
     huff_decode_rows_2 @
     huff_decode_rows_3 @
     huff_decode_rows_4 @
     huff_decode_rows_5 @
     huff_decode_rows_6 @
     huff_decode_rows_7 @
     huff_decode_rows_8 @
     huff_decode_rows_9 @
     huff_decode_rows_10"

end
