(* ===== verification/Hpack_Automaton.thy ===== *)
theory Hpack_Automaton
  imports Hpack_Table
begin

text \<open>
  The nibble automaton of \<open>huff_decode_table\<close> read as a matcher of code words.  Its 256 live states
  are the inner nodes of the Huffman tree of \<open>huff_encode_table\<close>: state \<open>s\<close> means "the bits
  \<open>huff_pfx s\<close> have been read since the last complete code word".  \<open>huff_prefix_num\<close> gives that
  bit string as a number and a length, and \<open>huff_code_num\<close> does the same for the code words.
  The lemmas check every one of the 257 code words and 4112 transitions of the two C tables
  against that reading: a transition either extends the pending bits, or completes exactly one
  code word and leaves the rest pending, or enters the failure state because the pending bits
  now start with EOS; the flag \<open>HUFF_ACCEPTED\<close> holds exactly for a valid padding.
\<close>

subsection \<open>Code words and pending bits as numbers\<close>

definition huff_prefix_num :: "u16 \<Rightarrow> int \<times> nat" where
  "huff_prefix_num s =
    (if s < 0x80 then if s < 0x40 then if s < 0x20 then if s < 0x10 then if s < 0x8 then if s < 0x4 then if s < 0x2 then if s < 0x1 then (0, 0) else (0, 1)
        else if s < 0x3 then (0, 2) else (0, 3)
       else if s < 0x6 then if s < 0x5 then (0, 4) else (1, 4)
        else if s < 0x7 then (1, 3) else (2, 4)
      else if s < 0xc then if s < 0xa then if s < 0x9 then (3, 4) else (1, 2)
        else if s < 0xb then (2, 3) else (4, 4)
       else if s < 0xe then if s < 0xd then (5, 4) else (10, 5)
        else if s < 0xf then (11, 5) else (3, 3)
     else if s < 0x18 then if s < 0x14 then if s < 0x12 then if s < 0x11 then (6, 4) else (12, 5)
        else if s < 0x13 then (13, 5) else (7, 4)
       else if s < 0x16 then if s < 0x15 then (14, 5) else (15, 5)
        else if s < 0x17 then (1, 1) else (2, 2)
      else if s < 0x1c then if s < 0x1a then if s < 0x19 then (4, 3) else (8, 4)
        else if s < 0x1b then (16, 5) else (17, 5)
       else if s < 0x1e then if s < 0x1d then (9, 4) else (18, 5)
        else if s < 0x1f then (19, 5) else (5, 3)
    else if s < 0x30 then if s < 0x28 then if s < 0x24 then if s < 0x22 then if s < 0x21 then (10, 4) else (20, 5)
        else if s < 0x23 then (21, 5) else (11, 4)
       else if s < 0x26 then if s < 0x25 then (22, 5) else (23, 5)
        else if s < 0x27 then (46, 6) else (47, 6)
      else if s < 0x2c then if s < 0x2a then if s < 0x29 then (3, 2) else (6, 3)
        else if s < 0x2b then (12, 4) else (24, 5)
       else if s < 0x2e then if s < 0x2d then (48, 6) else (49, 6)
        else if s < 0x2f then (25, 5) else (50, 6)
     else if s < 0x38 then if s < 0x34 then if s < 0x32 then if s < 0x31 then (51, 6) else (13, 4)
        else if s < 0x33 then (26, 5) else (52, 6)
       else if s < 0x36 then if s < 0x35 then (53, 6) else (27, 5)
        else if s < 0x37 then (54, 6) else (55, 6)
      else if s < 0x3c then if s < 0x3a then if s < 0x39 then (7, 3) else (14, 4)
        else if s < 0x3b then (28, 5) else (56, 6)
       else if s < 0x3e then if s < 0x3d then (57, 6) else (29, 5)
        else if s < 0x3f then (58, 6) else (59, 6)
   else if s < 0x60 then if s < 0x50 then if s < 0x48 then if s < 0x44 then if s < 0x42 then if s < 0x41 then (15, 4) else (30, 5)
        else if s < 0x43 then (60, 6) else (61, 6)
       else if s < 0x46 then if s < 0x45 then (31, 5) else (62, 6)
        else if s < 0x47 then (124, 7) else (125, 7)
      else if s < 0x4c then if s < 0x4a then if s < 0x49 then (63, 6) else (126, 7)
        else if s < 0x4b then (127, 7) else (254, 8)
       else if s < 0x4e then if s < 0x4d then (508, 9) else (509, 9)
        else if s < 0x4f then (255, 8) else (510, 9)
     else if s < 0x58 then if s < 0x54 then if s < 0x52 then if s < 0x51 then (1021, 10) else (511, 9)
        else if s < 0x53 then (1022, 10) else (2045, 11)
       else if s < 0x56 then if s < 0x55 then (1023, 10) else (2046, 11)
        else if s < 0x57 then (4092, 12) else (4093, 12)
      else if s < 0x5c then if s < 0x5a then if s < 0x59 then (2047, 11) else (4094, 12)
        else if s < 0x5b then (4095, 12) else (8190, 13)
       else if s < 0x5e then if s < 0x5d then (8191, 13) else (16382, 14)
        else if s < 0x5f then (16383, 14) else (32767, 15)
    else if s < 0x70 then if s < 0x68 then if s < 0x64 then if s < 0x62 then if s < 0x61 then (65534, 16) else (131068, 17)
        else if s < 0x63 then (262136, 18) else (262137, 18)
       else if s < 0x66 then if s < 0x65 then (524275, 19) else (131069, 17)
        else if s < 0x67 then (262138, 18) else (524276, 19)
      else if s < 0x6c then if s < 0x6a then if s < 0x69 then (524277, 19) else (262139, 18)
        else if s < 0x6b then (524278, 19) else (524279, 19)
       else if s < 0x6e then if s < 0x6d then (1048558, 20) else (1048559, 20)
        else if s < 0x6f then (65535, 16) else (131070, 17)
     else if s < 0x78 then if s < 0x74 then if s < 0x72 then if s < 0x71 then (262140, 18) else (524280, 19)
        else if s < 0x73 then (1048560, 20) else (1048561, 20)
       else if s < 0x76 then if s < 0x75 then (524281, 19) else (1048562, 20)
        else if s < 0x77 then (1048563, 20) else (262141, 18)
      else if s < 0x7c then if s < 0x7a then if s < 0x79 then (524282, 19) else (1048564, 20)
        else if s < 0x7b then (2097129, 21) else (1048565, 20)
       else if s < 0x7e then if s < 0x7d then (2097130, 21) else (2097131, 21)
        else if s < 0x7f then (524283, 19) else (1048566, 20)
  else if s < 0xc0 then if s < 0xa0 then if s < 0x90 then if s < 0x88 then if s < 0x84 then if s < 0x82 then if s < 0x81 then (2097132, 21) else (2097133, 21)
        else if s < 0x83 then (1048567, 20) else (2097134, 21)
       else if s < 0x86 then if s < 0x85 then (2097135, 21) else (131071, 17)
        else if s < 0x87 then (262142, 18) else (524284, 19)
      else if s < 0x8c then if s < 0x8a then if s < 0x89 then (1048568, 20) else (2097136, 21)
        else if s < 0x8b then (2097137, 21) else (1048569, 20)
       else if s < 0x8e then if s < 0x8d then (2097138, 21) else (2097139, 21)
        else if s < 0x8f then (524285, 19) else (1048570, 20)
     else if s < 0x98 then if s < 0x94 then if s < 0x92 then if s < 0x91 then (2097140, 21) else (2097141, 21)
        else if s < 0x93 then (1048571, 20) else (2097142, 21)
       else if s < 0x96 then if s < 0x95 then (4194284, 22) else (4194285, 22)
        else if s < 0x97 then (2097143, 21) else (4194286, 22)
      else if s < 0x9c then if s < 0x9a then if s < 0x99 then (4194287, 22) else (262143, 18)
        else if s < 0x9b then (524286, 19) else (1048572, 20)
       else if s < 0x9e then if s < 0x9d then (2097144, 21) else (4194288, 22)
        else if s < 0x9f then (4194289, 22) else (2097145, 21)
    else if s < 0xb0 then if s < 0xa8 then if s < 0xa4 then if s < 0xa2 then if s < 0xa1 then (4194290, 22) else (4194291, 22)
        else if s < 0xa3 then (1048573, 20) else (2097146, 21)
       else if s < 0xa6 then if s < 0xa5 then (4194292, 22) else (4194293, 22)
        else if s < 0xa7 then (2097147, 21) else (4194294, 22)
      else if s < 0xac then if s < 0xaa then if s < 0xa9 then (4194295, 22) else (524287, 19)
        else if s < 0xab then (1048574, 20) else (2097148, 21)
       else if s < 0xae then if s < 0xad then (4194296, 22) else (4194297, 22)
        else if s < 0xaf then (2097149, 21) else (4194298, 22)
     else if s < 0xb8 then if s < 0xb4 then if s < 0xb2 then if s < 0xb1 then (8388597, 23) else (4194299, 22)
        else if s < 0xb3 then (8388598, 23) else (8388599, 23)
       else if s < 0xb6 then if s < 0xb5 then (1048575, 20) else (2097150, 21)
        else if s < 0xb7 then (4194300, 22) else (8388600, 23)
      else if s < 0xbc then if s < 0xba then if s < 0xb9 then (8388601, 23) else (4194301, 22)
        else if s < 0xbb then (8388602, 23) else (8388603, 23)
       else if s < 0xbe then if s < 0xbd then (16777206, 24) else (16777207, 24)
        else if s < 0xbf then (2097151, 21) else (4194302, 22)
   else if s < 0xe0 then if s < 0xd0 then if s < 0xc8 then if s < 0xc4 then if s < 0xc2 then if s < 0xc1 then (8388604, 23) else (16777208, 24)
        else if s < 0xc3 then (33554416, 25) else (33554417, 25)
       else if s < 0xc6 then if s < 0xc5 then (16777209, 24) else (33554418, 25)
        else if s < 0xc7 then (33554419, 25) else (8388605, 23)
      else if s < 0xcc then if s < 0xca then if s < 0xc9 then (16777210, 24) else (33554420, 25)
        else if s < 0xcb then (33554421, 25) else (16777211, 24)
       else if s < 0xce then if s < 0xcd then (33554422, 25) else (33554423, 25)
        else if s < 0xcf then (67108847, 26) else (4194303, 22)
     else if s < 0xd8 then if s < 0xd4 then if s < 0xd2 then if s < 0xd1 then (8388606, 23) else (16777212, 24)
        else if s < 0xd3 then (33554424, 25) else (67108848, 26)
       else if s < 0xd6 then if s < 0xd5 then (67108849, 26) else (33554425, 25)
        else if s < 0xd7 then (67108850, 26) else (67108851, 26)
      else if s < 0xdc then if s < 0xda then if s < 0xd9 then (16777213, 24) else (33554426, 25)
        else if s < 0xdb then (67108852, 26) else (67108853, 26)
       else if s < 0xde then if s < 0xdd then (33554427, 25) else (67108854, 26)
        else if s < 0xdf then (67108855, 26) else (8388607, 23)
    else if s < 0xf0 then if s < 0xe8 then if s < 0xe4 then if s < 0xe2 then if s < 0xe1 then (16777214, 24) else (33554428, 25)
        else if s < 0xe3 then (67108856, 26) else (134217713, 27)
       else if s < 0xe6 then if s < 0xe5 then (67108857, 26) else (134217714, 27)
        else if s < 0xe7 then (134217715, 27) else (33554429, 25)
      else if s < 0xec then if s < 0xea then if s < 0xe9 then (67108858, 26) else (134217716, 27)
        else if s < 0xeb then (134217717, 27) else (67108859, 26)
       else if s < 0xee then if s < 0xed then (134217718, 27) else (134217719, 27)
        else if s < 0xef then (16777215, 24) else (33554430, 25)
     else if s < 0xf8 then if s < 0xf4 then if s < 0xf2 then if s < 0xf1 then (67108860, 26) else (134217720, 27)
        else if s < 0xf3 then (134217721, 27) else (67108861, 26)
       else if s < 0xf6 then if s < 0xf5 then (134217722, 27) else (134217723, 27)
        else if s < 0xf7 then (33554431, 25) else (67108862, 26)
      else if s < 0xfc then if s < 0xfa then if s < 0xf9 then (134217724, 27) else (134217725, 27)
        else if s < 0xfb then (67108863, 26) else (134217726, 27)
       else if s < 0xfe then if s < 0xfd then (134217727, 27) else (268435455, 28)
        else if s < 0xff then (536870910, 29) else (536870911, 29))"

definition huff_code_num :: "u8 \<Rightarrow> int \<times> nat" where
  "huff_code_num c =
    (if c < 0x80 then if c < 0x40 then if c < 0x20 then if c < 0x10 then if c < 0x8 then if c < 0x4 then if c < 0x2 then if c < 0x1 then (8184, 13) else (8388568, 23)
        else if c < 0x3 then (268435426, 28) else (268435427, 28)
       else if c < 0x6 then if c < 0x5 then (268435428, 28) else (268435429, 28)
        else if c < 0x7 then (268435430, 28) else (268435431, 28)
      else if c < 0xc then if c < 0xa then if c < 0x9 then (268435432, 28) else (16777194, 24)
        else if c < 0xb then (1073741820, 30) else (268435433, 28)
       else if c < 0xe then if c < 0xd then (268435434, 28) else (1073741821, 30)
        else if c < 0xf then (268435435, 28) else (268435436, 28)
     else if c < 0x18 then if c < 0x14 then if c < 0x12 then if c < 0x11 then (268435437, 28) else (268435438, 28)
        else if c < 0x13 then (268435439, 28) else (268435440, 28)
       else if c < 0x16 then if c < 0x15 then (268435441, 28) else (268435442, 28)
        else if c < 0x17 then (1073741822, 30) else (268435443, 28)
      else if c < 0x1c then if c < 0x1a then if c < 0x19 then (268435444, 28) else (268435445, 28)
        else if c < 0x1b then (268435446, 28) else (268435447, 28)
       else if c < 0x1e then if c < 0x1d then (268435448, 28) else (268435449, 28)
        else if c < 0x1f then (268435450, 28) else (268435451, 28)
    else if c < 0x30 then if c < 0x28 then if c < 0x24 then if c < 0x22 then if c < 0x21 then (20, 6) else (1016, 10)
        else if c < 0x23 then (1017, 10) else (4090, 12)
       else if c < 0x26 then if c < 0x25 then (8185, 13) else (21, 6)
        else if c < 0x27 then (248, 8) else (2042, 11)
      else if c < 0x2c then if c < 0x2a then if c < 0x29 then (1018, 10) else (1019, 10)
        else if c < 0x2b then (249, 8) else (2043, 11)
       else if c < 0x2e then if c < 0x2d then (250, 8) else (22, 6)
        else if c < 0x2f then (23, 6) else (24, 6)
     else if c < 0x38 then if c < 0x34 then if c < 0x32 then if c < 0x31 then (0, 5) else (1, 5)
        else if c < 0x33 then (2, 5) else (25, 6)
       else if c < 0x36 then if c < 0x35 then (26, 6) else (27, 6)
        else if c < 0x37 then (28, 6) else (29, 6)
      else if c < 0x3c then if c < 0x3a then if c < 0x39 then (30, 6) else (31, 6)
        else if c < 0x3b then (92, 7) else (251, 8)
       else if c < 0x3e then if c < 0x3d then (32764, 15) else (32, 6)
        else if c < 0x3f then (4091, 12) else (1020, 10)
   else if c < 0x60 then if c < 0x50 then if c < 0x48 then if c < 0x44 then if c < 0x42 then if c < 0x41 then (8186, 13) else (33, 6)
        else if c < 0x43 then (93, 7) else (94, 7)
       else if c < 0x46 then if c < 0x45 then (95, 7) else (96, 7)
        else if c < 0x47 then (97, 7) else (98, 7)
      else if c < 0x4c then if c < 0x4a then if c < 0x49 then (99, 7) else (100, 7)
        else if c < 0x4b then (101, 7) else (102, 7)
       else if c < 0x4e then if c < 0x4d then (103, 7) else (104, 7)
        else if c < 0x4f then (105, 7) else (106, 7)
     else if c < 0x58 then if c < 0x54 then if c < 0x52 then if c < 0x51 then (107, 7) else (108, 7)
        else if c < 0x53 then (109, 7) else (110, 7)
       else if c < 0x56 then if c < 0x55 then (111, 7) else (112, 7)
        else if c < 0x57 then (113, 7) else (114, 7)
      else if c < 0x5c then if c < 0x5a then if c < 0x59 then (252, 8) else (115, 7)
        else if c < 0x5b then (253, 8) else (8187, 13)
       else if c < 0x5e then if c < 0x5d then (524272, 19) else (8188, 13)
        else if c < 0x5f then (16380, 14) else (34, 6)
    else if c < 0x70 then if c < 0x68 then if c < 0x64 then if c < 0x62 then if c < 0x61 then (32765, 15) else (3, 5)
        else if c < 0x63 then (35, 6) else (4, 5)
       else if c < 0x66 then if c < 0x65 then (36, 6) else (5, 5)
        else if c < 0x67 then (37, 6) else (38, 6)
      else if c < 0x6c then if c < 0x6a then if c < 0x69 then (39, 6) else (6, 5)
        else if c < 0x6b then (116, 7) else (117, 7)
       else if c < 0x6e then if c < 0x6d then (40, 6) else (41, 6)
        else if c < 0x6f then (42, 6) else (7, 5)
     else if c < 0x78 then if c < 0x74 then if c < 0x72 then if c < 0x71 then (43, 6) else (118, 7)
        else if c < 0x73 then (44, 6) else (8, 5)
       else if c < 0x76 then if c < 0x75 then (9, 5) else (45, 6)
        else if c < 0x77 then (119, 7) else (120, 7)
      else if c < 0x7c then if c < 0x7a then if c < 0x79 then (121, 7) else (122, 7)
        else if c < 0x7b then (123, 7) else (32766, 15)
       else if c < 0x7e then if c < 0x7d then (2044, 11) else (16381, 14)
        else if c < 0x7f then (8189, 13) else (268435452, 28)
  else if c < 0xc0 then if c < 0xa0 then if c < 0x90 then if c < 0x88 then if c < 0x84 then if c < 0x82 then if c < 0x81 then (1048550, 20) else (4194258, 22)
        else if c < 0x83 then (1048551, 20) else (1048552, 20)
       else if c < 0x86 then if c < 0x85 then (4194259, 22) else (4194260, 22)
        else if c < 0x87 then (4194261, 22) else (8388569, 23)
      else if c < 0x8c then if c < 0x8a then if c < 0x89 then (4194262, 22) else (8388570, 23)
        else if c < 0x8b then (8388571, 23) else (8388572, 23)
       else if c < 0x8e then if c < 0x8d then (8388573, 23) else (8388574, 23)
        else if c < 0x8f then (16777195, 24) else (8388575, 23)
     else if c < 0x98 then if c < 0x94 then if c < 0x92 then if c < 0x91 then (16777196, 24) else (16777197, 24)
        else if c < 0x93 then (4194263, 22) else (8388576, 23)
       else if c < 0x96 then if c < 0x95 then (16777198, 24) else (8388577, 23)
        else if c < 0x97 then (8388578, 23) else (8388579, 23)
      else if c < 0x9c then if c < 0x9a then if c < 0x99 then (8388580, 23) else (2097116, 21)
        else if c < 0x9b then (4194264, 22) else (8388581, 23)
       else if c < 0x9e then if c < 0x9d then (4194265, 22) else (8388582, 23)
        else if c < 0x9f then (8388583, 23) else (16777199, 24)
    else if c < 0xb0 then if c < 0xa8 then if c < 0xa4 then if c < 0xa2 then if c < 0xa1 then (4194266, 22) else (2097117, 21)
        else if c < 0xa3 then (1048553, 20) else (4194267, 22)
       else if c < 0xa6 then if c < 0xa5 then (4194268, 22) else (8388584, 23)
        else if c < 0xa7 then (8388585, 23) else (2097118, 21)
      else if c < 0xac then if c < 0xaa then if c < 0xa9 then (8388586, 23) else (4194269, 22)
        else if c < 0xab then (4194270, 22) else (16777200, 24)
       else if c < 0xae then if c < 0xad then (2097119, 21) else (4194271, 22)
        else if c < 0xaf then (8388587, 23) else (8388588, 23)
     else if c < 0xb8 then if c < 0xb4 then if c < 0xb2 then if c < 0xb1 then (2097120, 21) else (2097121, 21)
        else if c < 0xb3 then (4194272, 22) else (2097122, 21)
       else if c < 0xb6 then if c < 0xb5 then (8388589, 23) else (4194273, 22)
        else if c < 0xb7 then (8388590, 23) else (8388591, 23)
      else if c < 0xbc then if c < 0xba then if c < 0xb9 then (1048554, 20) else (4194274, 22)
        else if c < 0xbb then (4194275, 22) else (4194276, 22)
       else if c < 0xbe then if c < 0xbd then (8388592, 23) else (4194277, 22)
        else if c < 0xbf then (4194278, 22) else (8388593, 23)
   else if c < 0xe0 then if c < 0xd0 then if c < 0xc8 then if c < 0xc4 then if c < 0xc2 then if c < 0xc1 then (67108832, 26) else (67108833, 26)
        else if c < 0xc3 then (1048555, 20) else (524273, 19)
       else if c < 0xc6 then if c < 0xc5 then (4194279, 22) else (8388594, 23)
        else if c < 0xc7 then (4194280, 22) else (33554412, 25)
      else if c < 0xcc then if c < 0xca then if c < 0xc9 then (67108834, 26) else (67108835, 26)
        else if c < 0xcb then (67108836, 26) else (134217694, 27)
       else if c < 0xce then if c < 0xcd then (134217695, 27) else (67108837, 26)
        else if c < 0xcf then (16777201, 24) else (33554413, 25)
     else if c < 0xd8 then if c < 0xd4 then if c < 0xd2 then if c < 0xd1 then (524274, 19) else (2097123, 21)
        else if c < 0xd3 then (67108838, 26) else (134217696, 27)
       else if c < 0xd6 then if c < 0xd5 then (134217697, 27) else (67108839, 26)
        else if c < 0xd7 then (134217698, 27) else (16777202, 24)
      else if c < 0xdc then if c < 0xda then if c < 0xd9 then (2097124, 21) else (2097125, 21)
        else if c < 0xdb then (67108840, 26) else (67108841, 26)
       else if c < 0xde then if c < 0xdd then (268435453, 28) else (134217699, 27)
        else if c < 0xdf then (134217700, 27) else (134217701, 27)
    else if c < 0xf0 then if c < 0xe8 then if c < 0xe4 then if c < 0xe2 then if c < 0xe1 then (1048556, 20) else (16777203, 24)
        else if c < 0xe3 then (1048557, 20) else (2097126, 21)
       else if c < 0xe6 then if c < 0xe5 then (4194281, 22) else (2097127, 21)
        else if c < 0xe7 then (2097128, 21) else (8388595, 23)
      else if c < 0xec then if c < 0xea then if c < 0xe9 then (4194282, 22) else (4194283, 22)
        else if c < 0xeb then (33554414, 25) else (33554415, 25)
       else if c < 0xee then if c < 0xed then (16777204, 24) else (16777205, 24)
        else if c < 0xef then (67108842, 26) else (8388596, 23)
     else if c < 0xf8 then if c < 0xf4 then if c < 0xf2 then if c < 0xf1 then (67108843, 26) else (134217702, 27)
        else if c < 0xf3 then (67108844, 26) else (67108845, 26)
       else if c < 0xf6 then if c < 0xf5 then (134217703, 27) else (134217704, 27)
        else if c < 0xf7 then (134217705, 27) else (134217706, 27)
      else if c < 0xfc then if c < 0xfa then if c < 0xf9 then (134217707, 27) else (268435454, 28)
        else if c < 0xfb then (134217708, 27) else (134217709, 27)
       else if c < 0xfe then if c < 0xfd then (134217710, 27) else (134217711, 27)
        else if c < 0xff then (134217712, 27) else (67108846, 26))"

text \<open>A code word that continues the pending bits of a state.\<close>

definition huff_below :: "u16 \<Rightarrow> u8" where
  "huff_below s =
    (if s < 0x80 then if s < 0x40 then if s < 0x20 then if s < 0x10 then if s < 0x8 then if s < 0x4 then if s < 0x2 then if s < 0x1 then 48 else 48
        else if s < 0x3 then 48 else 48
       else if s < 0x6 then if s < 0x5 then 48 else 50
        else if s < 0x7 then 99 else 99
      else if s < 0xc then if s < 0xa then if s < 0x9 then 105 else 115
        else if s < 0xb then 115 else 115
       else if s < 0xe then if s < 0xd then 32 else 32
        else if s < 0xf then 45 else 47
     else if s < 0x18 then if s < 0x14 then if s < 0x12 then if s < 0x11 then 47 else 47
        else if s < 0x13 then 52 else 54
       else if s < 0x16 then if s < 0x15 then 54 else 56
        else if s < 0x17 then 61 else 61
      else if s < 0x1c then if s < 0x1a then if s < 0x19 then 61 else 61
        else if s < 0x1b then 61 else 95
       else if s < 0x1e then if s < 0x1d then 100 else 100
        else if s < 0x1f then 103 else 108
    else if s < 0x30 then if s < 0x28 then if s < 0x24 then if s < 0x22 then if s < 0x21 then 108 else 108
        else if s < 0x23 then 110 else 114
       else if s < 0x26 then if s < 0x25 then 114 else 58
        else if s < 0x27 then 58 else 67
      else if s < 0x2c then if s < 0x2a then if s < 0x29 then 69 else 69
        else if s < 0x2b then 69 else 69
       else if s < 0x2e then if s < 0x2d then 69 else 71
        else if s < 0x2f then 73 else 73
     else if s < 0x38 then if s < 0x34 then if s < 0x32 then if s < 0x31 then 75 else 77
        else if s < 0x33 then 77 else 77
       else if s < 0x36 then if s < 0x35 then 79 else 81
        else if s < 0x37 then 81 else 83
      else if s < 0x3c then if s < 0x3a then if s < 0x39 then 85 else 85
        else if s < 0x3b then 85 else 85
       else if s < 0x3e then if s < 0x3d then 87 else 106
        else if s < 0x3f then 106 else 113
   else if s < 0x60 then if s < 0x50 then if s < 0x48 then if s < 0x44 then if s < 0x42 then if s < 0x41 then 119 else 119
        else if s < 0x43 then 119 else 121
       else if s < 0x46 then if s < 0x45 then 38 else 38
        else if s < 0x47 then 38 else 44
      else if s < 0x4c then if s < 0x4a then if s < 0x49 then 88 else 88
        else if s < 0x4b then 33 else 33
       else if s < 0x4e then if s < 0x4d then 33 else 40
        else if s < 0x4f then 63 else 63
     else if s < 0x58 then if s < 0x54 then if s < 0x52 then if s < 0x51 then 39 else 124
        else if s < 0x53 then 124 else 35
       else if s < 0x56 then if s < 0x55 then 0 else 0
        else if s < 0x57 then 0 else 64
      else if s < 0x5c then if s < 0x5a then if s < 0x59 then 93 else 93
        else if s < 0x5b then 94 else 94
       else if s < 0x5e then if s < 0x5d then 60 else 60
        else if s < 0x5f then 123 else 92
    else if s < 0x70 then if s < 0x68 then if s < 0x64 then if s < 0x62 then if s < 0x61 then 92 else 92
        else if s < 0x63 then 92 else 208
       else if s < 0x66 then if s < 0x65 then 128 else 131
        else if s < 0x67 then 131 else 131
      else if s < 0x6c then if s < 0x6a then if s < 0x69 then 184 else 224
        else if s < 0x6b then 224 else 153
       else if s < 0x6e then if s < 0x6d then 153 else 167
        else if s < 0x6f then 176 else 176
     else if s < 0x78 then if s < 0x74 then if s < 0x72 then if s < 0x71 then 176 else 176
        else if s < 0x73 then 176 else 179
       else if s < 0x76 then if s < 0x75 then 216 else 216
        else if s < 0x77 then 227 else 230
      else if s < 0x7c then if s < 0x7a then if s < 0x79 then 230 else 230
        else if s < 0x7b then 129 else 133
       else if s < 0x7e then if s < 0x7d then 133 else 136
        else if s < 0x7f then 154 else 154
  else if s < 0xc0 then if s < 0xa0 then if s < 0x90 then if s < 0x88 then if s < 0x84 then if s < 0x82 then if s < 0x81 then 154 else 160
        else if s < 0x83 then 164 else 164
       else if s < 0x86 then if s < 0x85 then 170 else 178
        else if s < 0x87 then 178 else 178
      else if s < 0x8c then if s < 0x8a then if s < 0x89 then 178 else 178
        else if s < 0x8b then 185 else 187
       else if s < 0x8e then if s < 0x8d then 187 else 190
        else if s < 0x8f then 198 else 198
     else if s < 0x98 then if s < 0x94 then if s < 0x92 then if s < 0x91 then 198 else 232
        else if s < 0x93 then 1 else 1
       else if s < 0x96 then if s < 0x95 then 1 else 137
        else if s < 0x97 then 139 else 139
      else if s < 0x9c then if s < 0x9a then if s < 0x99 then 141 else 147
        else if s < 0x9b then 147 else 147
       else if s < 0x9e then if s < 0x9d then 147 else 147
        else if s < 0x9f then 150 else 152
    else if s < 0xb0 then if s < 0xa8 then if s < 0xa4 then if s < 0xa2 then if s < 0xa1 then 152 else 157
        else if s < 0xa3 then 165 else 165
       else if s < 0xa6 then if s < 0xa5 then 165 else 168
        else if s < 0xa7 then 175 else 175
      else if s < 0xac then if s < 0xaa then if s < 0xa9 then 182 else 188
        else if s < 0xab then 188 else 188
       else if s < 0xae then if s < 0xad then 188 else 197
        else if s < 0xaf then 239 else 239
     else if s < 0xb8 then if s < 0xb4 then if s < 0xb2 then if s < 0xb1 then 9 else 144
        else if s < 0xb3 then 144 else 148
       else if s < 0xb6 then if s < 0xb5 then 171 else 171
        else if s < 0xb7 then 171 else 171
      else if s < 0xbc then if s < 0xba then if s < 0xb9 then 215 else 236
        else if s < 0xbb then 236 else 199
       else if s < 0xbe then if s < 0xbd then 199 else 234
        else if s < 0xbf then 192 else 192
   else if s < 0xe0 then if s < 0xd0 then if s < 0xc8 then if s < 0xc4 then if s < 0xc2 then if s < 0xc1 then 192 else 192
        else if s < 0xc3 then 192 else 200
       else if s < 0xc6 then if s < 0xc5 then 202 else 202
        else if s < 0xc7 then 210 else 218
      else if s < 0xcc then if s < 0xca then if s < 0xc9 then 218 else 218
        else if s < 0xcb then 238 else 242
       else if s < 0xce then if s < 0xcd then 242 else 255
        else if s < 0xcf then 203 else 211
     else if s < 0xd8 then if s < 0xd4 then if s < 0xd2 then if s < 0xd1 then 211 else 211
        else if s < 0xd3 then 211 else 211
       else if s < 0xd6 then if s < 0xd5 then 214 else 222
        else if s < 0xd7 then 222 else 241
      else if s < 0xdc then if s < 0xda then if s < 0xd9 then 245 else 245
        else if s < 0xdb then 245 else 247
       else if s < 0xde then if s < 0xdd then 250 else 250
        else if s < 0xdf then 252 else 254
    else if s < 0xf0 then if s < 0xe8 then if s < 0xe4 then if s < 0xe2 then if s < 0xe1 then 254 else 254
        else if s < 0xe3 then 254 else 2
       else if s < 0xe6 then if s < 0xe5 then 4 else 4
        else if s < 0xe7 then 6 else 8
      else if s < 0xec then if s < 0xea then if s < 0xe9 then 8 else 8
        else if s < 0xeb then 12 else 15
       else if s < 0xee then if s < 0xed then 15 else 17
        else if s < 0xef then 19 else 19
     else if s < 0xf8 then if s < 0xf4 then if s < 0xf2 then if s < 0xf1 then 19 else 19
        else if s < 0xf3 then 21 else 24
       else if s < 0xf6 then if s < 0xf5 then 24 else 26
        else if s < 0xf7 then 28 else 28
      else if s < 0xfc then if s < 0xfa then if s < 0xf9 then 28 else 30
        else if s < 0xfb then 127 else 127
       else if s < 0xfe then if s < 0xfd then 249 else 10
        else if s < 0xff then 10 else 22)"

text \<open>The symbols in the order of their code words, EOS excepted (it is the last one).\<close>

definition huff_order :: "u8 list" where
  "huff_order = [
    48, 49, 50, 97, 99, 101, 105, 111, 115, 116, 32, 37, 45, 46,
    47, 51, 52, 53, 54, 55, 56, 57, 61, 65, 95, 98, 100, 102,
    103, 104, 108, 109, 110, 112, 114, 117, 58, 66, 67, 68, 69, 70,
    71, 72, 73, 74, 75, 76, 77, 78, 79, 80, 81, 82, 83, 84,
    85, 86, 87, 89, 106, 107, 113, 118, 119, 120, 121, 122, 38, 42,
    44, 59, 88, 90, 33, 34, 40, 41, 63, 39, 43, 124, 35, 62,
    0, 36, 64, 91, 93, 126, 94, 125, 60, 96, 123, 92, 195, 208,
    128, 130, 131, 162, 184, 194, 224, 226, 153, 161, 167, 172, 176, 177,
    179, 209, 216, 217, 227, 229, 230, 129, 132, 133, 134, 136, 146, 154,
    156, 160, 163, 164, 169, 170, 173, 178, 181, 185, 186, 187, 189, 190,
    196, 198, 228, 232, 233, 1, 135, 137, 138, 139, 140, 141, 143, 147,
    149, 150, 151, 152, 155, 157, 158, 165, 166, 168, 174, 175, 180, 182,
    183, 188, 191, 197, 231, 239, 9, 142, 144, 145, 148, 159, 171, 206,
    215, 225, 236, 237, 199, 207, 234, 235, 192, 193, 200, 201, 202, 205,
    210, 213, 218, 219, 238, 240, 242, 243, 255, 203, 204, 211, 212, 214,
    221, 222, 223, 241, 244, 245, 246, 247, 248, 250, 251, 252, 253, 254,
    2, 3, 4, 5, 6, 7, 8, 11, 12, 14, 15, 16, 17, 18,
    19, 20, 21, 23, 24, 25, 26, 27, 28, 29, 30, 31, 127, 220,
    249, 10, 13, 22]"

lemma huff_prefix_num_simps:
  "huff_prefix_num 0 = (0, 0)"
  "huff_prefix_num 1 = (0, 1)"
  "huff_prefix_num 2 = (0, 2)"
  "huff_prefix_num 3 = (0, 3)"
  "huff_prefix_num 4 = (0, 4)"
  "huff_prefix_num 5 = (1, 4)"
  "huff_prefix_num 6 = (1, 3)"
  "huff_prefix_num 7 = (2, 4)"
  "huff_prefix_num 8 = (3, 4)"
  "huff_prefix_num 9 = (1, 2)"
  "huff_prefix_num 10 = (2, 3)"
  "huff_prefix_num 11 = (4, 4)"
  "huff_prefix_num 12 = (5, 4)"
  "huff_prefix_num 13 = (10, 5)"
  "huff_prefix_num 14 = (11, 5)"
  "huff_prefix_num 15 = (3, 3)"
  "huff_prefix_num 16 = (6, 4)"
  "huff_prefix_num 17 = (12, 5)"
  "huff_prefix_num 18 = (13, 5)"
  "huff_prefix_num 19 = (7, 4)"
  "huff_prefix_num 20 = (14, 5)"
  "huff_prefix_num 21 = (15, 5)"
  "huff_prefix_num 22 = (1, 1)"
  "huff_prefix_num 23 = (2, 2)"
  "huff_prefix_num 24 = (4, 3)"
  "huff_prefix_num 25 = (8, 4)"
  "huff_prefix_num 26 = (16, 5)"
  "huff_prefix_num 27 = (17, 5)"
  "huff_prefix_num 28 = (9, 4)"
  "huff_prefix_num 29 = (18, 5)"
  "huff_prefix_num 30 = (19, 5)"
  "huff_prefix_num 31 = (5, 3)"
  "huff_prefix_num 32 = (10, 4)"
  "huff_prefix_num 33 = (20, 5)"
  "huff_prefix_num 34 = (21, 5)"
  "huff_prefix_num 35 = (11, 4)"
  "huff_prefix_num 36 = (22, 5)"
  "huff_prefix_num 37 = (23, 5)"
  "huff_prefix_num 38 = (46, 6)"
  "huff_prefix_num 39 = (47, 6)"
  "huff_prefix_num 40 = (3, 2)"
  "huff_prefix_num 41 = (6, 3)"
  "huff_prefix_num 42 = (12, 4)"
  "huff_prefix_num 43 = (24, 5)"
  "huff_prefix_num 44 = (48, 6)"
  "huff_prefix_num 45 = (49, 6)"
  "huff_prefix_num 46 = (25, 5)"
  "huff_prefix_num 47 = (50, 6)"
  "huff_prefix_num 48 = (51, 6)"
  "huff_prefix_num 49 = (13, 4)"
  "huff_prefix_num 50 = (26, 5)"
  "huff_prefix_num 51 = (52, 6)"
  "huff_prefix_num 52 = (53, 6)"
  "huff_prefix_num 53 = (27, 5)"
  "huff_prefix_num 54 = (54, 6)"
  "huff_prefix_num 55 = (55, 6)"
  "huff_prefix_num 56 = (7, 3)"
  "huff_prefix_num 57 = (14, 4)"
  "huff_prefix_num 58 = (28, 5)"
  "huff_prefix_num 59 = (56, 6)"
  "huff_prefix_num 60 = (57, 6)"
  "huff_prefix_num 61 = (29, 5)"
  "huff_prefix_num 62 = (58, 6)"
  "huff_prefix_num 63 = (59, 6)"
  "huff_prefix_num 64 = (15, 4)"
  "huff_prefix_num 65 = (30, 5)"
  "huff_prefix_num 66 = (60, 6)"
  "huff_prefix_num 67 = (61, 6)"
  "huff_prefix_num 68 = (31, 5)"
  "huff_prefix_num 69 = (62, 6)"
  "huff_prefix_num 70 = (124, 7)"
  "huff_prefix_num 71 = (125, 7)"
  "huff_prefix_num 72 = (63, 6)"
  "huff_prefix_num 73 = (126, 7)"
  "huff_prefix_num 74 = (127, 7)"
  "huff_prefix_num 75 = (254, 8)"
  "huff_prefix_num 76 = (508, 9)"
  "huff_prefix_num 77 = (509, 9)"
  "huff_prefix_num 78 = (255, 8)"
  "huff_prefix_num 79 = (510, 9)"
  "huff_prefix_num 80 = (1021, 10)"
  "huff_prefix_num 81 = (511, 9)"
  "huff_prefix_num 82 = (1022, 10)"
  "huff_prefix_num 83 = (2045, 11)"
  "huff_prefix_num 84 = (1023, 10)"
  "huff_prefix_num 85 = (2046, 11)"
  "huff_prefix_num 86 = (4092, 12)"
  "huff_prefix_num 87 = (4093, 12)"
  "huff_prefix_num 88 = (2047, 11)"
  "huff_prefix_num 89 = (4094, 12)"
  "huff_prefix_num 90 = (4095, 12)"
  "huff_prefix_num 91 = (8190, 13)"
  "huff_prefix_num 92 = (8191, 13)"
  "huff_prefix_num 93 = (16382, 14)"
  "huff_prefix_num 94 = (16383, 14)"
  "huff_prefix_num 95 = (32767, 15)"
  "huff_prefix_num 96 = (65534, 16)"
  "huff_prefix_num 97 = (131068, 17)"
  "huff_prefix_num 98 = (262136, 18)"
  "huff_prefix_num 99 = (262137, 18)"
  "huff_prefix_num 100 = (524275, 19)"
  "huff_prefix_num 101 = (131069, 17)"
  "huff_prefix_num 102 = (262138, 18)"
  "huff_prefix_num 103 = (524276, 19)"
  "huff_prefix_num 104 = (524277, 19)"
  "huff_prefix_num 105 = (262139, 18)"
  "huff_prefix_num 106 = (524278, 19)"
  "huff_prefix_num 107 = (524279, 19)"
  "huff_prefix_num 108 = (1048558, 20)"
  "huff_prefix_num 109 = (1048559, 20)"
  "huff_prefix_num 110 = (65535, 16)"
  "huff_prefix_num 111 = (131070, 17)"
  "huff_prefix_num 112 = (262140, 18)"
  "huff_prefix_num 113 = (524280, 19)"
  "huff_prefix_num 114 = (1048560, 20)"
  "huff_prefix_num 115 = (1048561, 20)"
  "huff_prefix_num 116 = (524281, 19)"
  "huff_prefix_num 117 = (1048562, 20)"
  "huff_prefix_num 118 = (1048563, 20)"
  "huff_prefix_num 119 = (262141, 18)"
  "huff_prefix_num 120 = (524282, 19)"
  "huff_prefix_num 121 = (1048564, 20)"
  "huff_prefix_num 122 = (2097129, 21)"
  "huff_prefix_num 123 = (1048565, 20)"
  "huff_prefix_num 124 = (2097130, 21)"
  "huff_prefix_num 125 = (2097131, 21)"
  "huff_prefix_num 126 = (524283, 19)"
  "huff_prefix_num 127 = (1048566, 20)"
  "huff_prefix_num 128 = (2097132, 21)"
  "huff_prefix_num 129 = (2097133, 21)"
  "huff_prefix_num 130 = (1048567, 20)"
  "huff_prefix_num 131 = (2097134, 21)"
  "huff_prefix_num 132 = (2097135, 21)"
  "huff_prefix_num 133 = (131071, 17)"
  "huff_prefix_num 134 = (262142, 18)"
  "huff_prefix_num 135 = (524284, 19)"
  "huff_prefix_num 136 = (1048568, 20)"
  "huff_prefix_num 137 = (2097136, 21)"
  "huff_prefix_num 138 = (2097137, 21)"
  "huff_prefix_num 139 = (1048569, 20)"
  "huff_prefix_num 140 = (2097138, 21)"
  "huff_prefix_num 141 = (2097139, 21)"
  "huff_prefix_num 142 = (524285, 19)"
  "huff_prefix_num 143 = (1048570, 20)"
  "huff_prefix_num 144 = (2097140, 21)"
  "huff_prefix_num 145 = (2097141, 21)"
  "huff_prefix_num 146 = (1048571, 20)"
  "huff_prefix_num 147 = (2097142, 21)"
  "huff_prefix_num 148 = (4194284, 22)"
  "huff_prefix_num 149 = (4194285, 22)"
  "huff_prefix_num 150 = (2097143, 21)"
  "huff_prefix_num 151 = (4194286, 22)"
  "huff_prefix_num 152 = (4194287, 22)"
  "huff_prefix_num 153 = (262143, 18)"
  "huff_prefix_num 154 = (524286, 19)"
  "huff_prefix_num 155 = (1048572, 20)"
  "huff_prefix_num 156 = (2097144, 21)"
  "huff_prefix_num 157 = (4194288, 22)"
  "huff_prefix_num 158 = (4194289, 22)"
  "huff_prefix_num 159 = (2097145, 21)"
  "huff_prefix_num 160 = (4194290, 22)"
  "huff_prefix_num 161 = (4194291, 22)"
  "huff_prefix_num 162 = (1048573, 20)"
  "huff_prefix_num 163 = (2097146, 21)"
  "huff_prefix_num 164 = (4194292, 22)"
  "huff_prefix_num 165 = (4194293, 22)"
  "huff_prefix_num 166 = (2097147, 21)"
  "huff_prefix_num 167 = (4194294, 22)"
  "huff_prefix_num 168 = (4194295, 22)"
  "huff_prefix_num 169 = (524287, 19)"
  "huff_prefix_num 170 = (1048574, 20)"
  "huff_prefix_num 171 = (2097148, 21)"
  "huff_prefix_num 172 = (4194296, 22)"
  "huff_prefix_num 173 = (4194297, 22)"
  "huff_prefix_num 174 = (2097149, 21)"
  "huff_prefix_num 175 = (4194298, 22)"
  "huff_prefix_num 176 = (8388597, 23)"
  "huff_prefix_num 177 = (4194299, 22)"
  "huff_prefix_num 178 = (8388598, 23)"
  "huff_prefix_num 179 = (8388599, 23)"
  "huff_prefix_num 180 = (1048575, 20)"
  "huff_prefix_num 181 = (2097150, 21)"
  "huff_prefix_num 182 = (4194300, 22)"
  "huff_prefix_num 183 = (8388600, 23)"
  "huff_prefix_num 184 = (8388601, 23)"
  "huff_prefix_num 185 = (4194301, 22)"
  "huff_prefix_num 186 = (8388602, 23)"
  "huff_prefix_num 187 = (8388603, 23)"
  "huff_prefix_num 188 = (16777206, 24)"
  "huff_prefix_num 189 = (16777207, 24)"
  "huff_prefix_num 190 = (2097151, 21)"
  "huff_prefix_num 191 = (4194302, 22)"
  "huff_prefix_num 192 = (8388604, 23)"
  "huff_prefix_num 193 = (16777208, 24)"
  "huff_prefix_num 194 = (33554416, 25)"
  "huff_prefix_num 195 = (33554417, 25)"
  "huff_prefix_num 196 = (16777209, 24)"
  "huff_prefix_num 197 = (33554418, 25)"
  "huff_prefix_num 198 = (33554419, 25)"
  "huff_prefix_num 199 = (8388605, 23)"
  "huff_prefix_num 200 = (16777210, 24)"
  "huff_prefix_num 201 = (33554420, 25)"
  "huff_prefix_num 202 = (33554421, 25)"
  "huff_prefix_num 203 = (16777211, 24)"
  "huff_prefix_num 204 = (33554422, 25)"
  "huff_prefix_num 205 = (33554423, 25)"
  "huff_prefix_num 206 = (67108847, 26)"
  "huff_prefix_num 207 = (4194303, 22)"
  "huff_prefix_num 208 = (8388606, 23)"
  "huff_prefix_num 209 = (16777212, 24)"
  "huff_prefix_num 210 = (33554424, 25)"
  "huff_prefix_num 211 = (67108848, 26)"
  "huff_prefix_num 212 = (67108849, 26)"
  "huff_prefix_num 213 = (33554425, 25)"
  "huff_prefix_num 214 = (67108850, 26)"
  "huff_prefix_num 215 = (67108851, 26)"
  "huff_prefix_num 216 = (16777213, 24)"
  "huff_prefix_num 217 = (33554426, 25)"
  "huff_prefix_num 218 = (67108852, 26)"
  "huff_prefix_num 219 = (67108853, 26)"
  "huff_prefix_num 220 = (33554427, 25)"
  "huff_prefix_num 221 = (67108854, 26)"
  "huff_prefix_num 222 = (67108855, 26)"
  "huff_prefix_num 223 = (8388607, 23)"
  "huff_prefix_num 224 = (16777214, 24)"
  "huff_prefix_num 225 = (33554428, 25)"
  "huff_prefix_num 226 = (67108856, 26)"
  "huff_prefix_num 227 = (134217713, 27)"
  "huff_prefix_num 228 = (67108857, 26)"
  "huff_prefix_num 229 = (134217714, 27)"
  "huff_prefix_num 230 = (134217715, 27)"
  "huff_prefix_num 231 = (33554429, 25)"
  "huff_prefix_num 232 = (67108858, 26)"
  "huff_prefix_num 233 = (134217716, 27)"
  "huff_prefix_num 234 = (134217717, 27)"
  "huff_prefix_num 235 = (67108859, 26)"
  "huff_prefix_num 236 = (134217718, 27)"
  "huff_prefix_num 237 = (134217719, 27)"
  "huff_prefix_num 238 = (16777215, 24)"
  "huff_prefix_num 239 = (33554430, 25)"
  "huff_prefix_num 240 = (67108860, 26)"
  "huff_prefix_num 241 = (134217720, 27)"
  "huff_prefix_num 242 = (134217721, 27)"
  "huff_prefix_num 243 = (67108861, 26)"
  "huff_prefix_num 244 = (134217722, 27)"
  "huff_prefix_num 245 = (134217723, 27)"
  "huff_prefix_num 246 = (33554431, 25)"
  "huff_prefix_num 247 = (67108862, 26)"
  "huff_prefix_num 248 = (134217724, 27)"
  "huff_prefix_num 249 = (134217725, 27)"
  "huff_prefix_num 250 = (67108863, 26)"
  "huff_prefix_num 251 = (134217726, 27)"
  "huff_prefix_num 252 = (134217727, 27)"
  "huff_prefix_num 253 = (268435455, 28)"
  "huff_prefix_num 254 = (536870910, 29)"
  "huff_prefix_num 255 = (536870911, 29)"
  by (simp_all add: huff_prefix_num_def)

lemma huff_code_num_simps:
  "huff_code_num 0 = (8184, 13)"
  "huff_code_num 1 = (8388568, 23)"
  "huff_code_num 2 = (268435426, 28)"
  "huff_code_num 3 = (268435427, 28)"
  "huff_code_num 4 = (268435428, 28)"
  "huff_code_num 5 = (268435429, 28)"
  "huff_code_num 6 = (268435430, 28)"
  "huff_code_num 7 = (268435431, 28)"
  "huff_code_num 8 = (268435432, 28)"
  "huff_code_num 9 = (16777194, 24)"
  "huff_code_num 10 = (1073741820, 30)"
  "huff_code_num 11 = (268435433, 28)"
  "huff_code_num 12 = (268435434, 28)"
  "huff_code_num 13 = (1073741821, 30)"
  "huff_code_num 14 = (268435435, 28)"
  "huff_code_num 15 = (268435436, 28)"
  "huff_code_num 16 = (268435437, 28)"
  "huff_code_num 17 = (268435438, 28)"
  "huff_code_num 18 = (268435439, 28)"
  "huff_code_num 19 = (268435440, 28)"
  "huff_code_num 20 = (268435441, 28)"
  "huff_code_num 21 = (268435442, 28)"
  "huff_code_num 22 = (1073741822, 30)"
  "huff_code_num 23 = (268435443, 28)"
  "huff_code_num 24 = (268435444, 28)"
  "huff_code_num 25 = (268435445, 28)"
  "huff_code_num 26 = (268435446, 28)"
  "huff_code_num 27 = (268435447, 28)"
  "huff_code_num 28 = (268435448, 28)"
  "huff_code_num 29 = (268435449, 28)"
  "huff_code_num 30 = (268435450, 28)"
  "huff_code_num 31 = (268435451, 28)"
  "huff_code_num 32 = (20, 6)"
  "huff_code_num 33 = (1016, 10)"
  "huff_code_num 34 = (1017, 10)"
  "huff_code_num 35 = (4090, 12)"
  "huff_code_num 36 = (8185, 13)"
  "huff_code_num 37 = (21, 6)"
  "huff_code_num 38 = (248, 8)"
  "huff_code_num 39 = (2042, 11)"
  "huff_code_num 40 = (1018, 10)"
  "huff_code_num 41 = (1019, 10)"
  "huff_code_num 42 = (249, 8)"
  "huff_code_num 43 = (2043, 11)"
  "huff_code_num 44 = (250, 8)"
  "huff_code_num 45 = (22, 6)"
  "huff_code_num 46 = (23, 6)"
  "huff_code_num 47 = (24, 6)"
  "huff_code_num 48 = (0, 5)"
  "huff_code_num 49 = (1, 5)"
  "huff_code_num 50 = (2, 5)"
  "huff_code_num 51 = (25, 6)"
  "huff_code_num 52 = (26, 6)"
  "huff_code_num 53 = (27, 6)"
  "huff_code_num 54 = (28, 6)"
  "huff_code_num 55 = (29, 6)"
  "huff_code_num 56 = (30, 6)"
  "huff_code_num 57 = (31, 6)"
  "huff_code_num 58 = (92, 7)"
  "huff_code_num 59 = (251, 8)"
  "huff_code_num 60 = (32764, 15)"
  "huff_code_num 61 = (32, 6)"
  "huff_code_num 62 = (4091, 12)"
  "huff_code_num 63 = (1020, 10)"
  "huff_code_num 64 = (8186, 13)"
  "huff_code_num 65 = (33, 6)"
  "huff_code_num 66 = (93, 7)"
  "huff_code_num 67 = (94, 7)"
  "huff_code_num 68 = (95, 7)"
  "huff_code_num 69 = (96, 7)"
  "huff_code_num 70 = (97, 7)"
  "huff_code_num 71 = (98, 7)"
  "huff_code_num 72 = (99, 7)"
  "huff_code_num 73 = (100, 7)"
  "huff_code_num 74 = (101, 7)"
  "huff_code_num 75 = (102, 7)"
  "huff_code_num 76 = (103, 7)"
  "huff_code_num 77 = (104, 7)"
  "huff_code_num 78 = (105, 7)"
  "huff_code_num 79 = (106, 7)"
  "huff_code_num 80 = (107, 7)"
  "huff_code_num 81 = (108, 7)"
  "huff_code_num 82 = (109, 7)"
  "huff_code_num 83 = (110, 7)"
  "huff_code_num 84 = (111, 7)"
  "huff_code_num 85 = (112, 7)"
  "huff_code_num 86 = (113, 7)"
  "huff_code_num 87 = (114, 7)"
  "huff_code_num 88 = (252, 8)"
  "huff_code_num 89 = (115, 7)"
  "huff_code_num 90 = (253, 8)"
  "huff_code_num 91 = (8187, 13)"
  "huff_code_num 92 = (524272, 19)"
  "huff_code_num 93 = (8188, 13)"
  "huff_code_num 94 = (16380, 14)"
  "huff_code_num 95 = (34, 6)"
  "huff_code_num 96 = (32765, 15)"
  "huff_code_num 97 = (3, 5)"
  "huff_code_num 98 = (35, 6)"
  "huff_code_num 99 = (4, 5)"
  "huff_code_num 100 = (36, 6)"
  "huff_code_num 101 = (5, 5)"
  "huff_code_num 102 = (37, 6)"
  "huff_code_num 103 = (38, 6)"
  "huff_code_num 104 = (39, 6)"
  "huff_code_num 105 = (6, 5)"
  "huff_code_num 106 = (116, 7)"
  "huff_code_num 107 = (117, 7)"
  "huff_code_num 108 = (40, 6)"
  "huff_code_num 109 = (41, 6)"
  "huff_code_num 110 = (42, 6)"
  "huff_code_num 111 = (7, 5)"
  "huff_code_num 112 = (43, 6)"
  "huff_code_num 113 = (118, 7)"
  "huff_code_num 114 = (44, 6)"
  "huff_code_num 115 = (8, 5)"
  "huff_code_num 116 = (9, 5)"
  "huff_code_num 117 = (45, 6)"
  "huff_code_num 118 = (119, 7)"
  "huff_code_num 119 = (120, 7)"
  "huff_code_num 120 = (121, 7)"
  "huff_code_num 121 = (122, 7)"
  "huff_code_num 122 = (123, 7)"
  "huff_code_num 123 = (32766, 15)"
  "huff_code_num 124 = (2044, 11)"
  "huff_code_num 125 = (16381, 14)"
  "huff_code_num 126 = (8189, 13)"
  "huff_code_num 127 = (268435452, 28)"
  "huff_code_num 128 = (1048550, 20)"
  "huff_code_num 129 = (4194258, 22)"
  "huff_code_num 130 = (1048551, 20)"
  "huff_code_num 131 = (1048552, 20)"
  "huff_code_num 132 = (4194259, 22)"
  "huff_code_num 133 = (4194260, 22)"
  "huff_code_num 134 = (4194261, 22)"
  "huff_code_num 135 = (8388569, 23)"
  "huff_code_num 136 = (4194262, 22)"
  "huff_code_num 137 = (8388570, 23)"
  "huff_code_num 138 = (8388571, 23)"
  "huff_code_num 139 = (8388572, 23)"
  "huff_code_num 140 = (8388573, 23)"
  "huff_code_num 141 = (8388574, 23)"
  "huff_code_num 142 = (16777195, 24)"
  "huff_code_num 143 = (8388575, 23)"
  "huff_code_num 144 = (16777196, 24)"
  "huff_code_num 145 = (16777197, 24)"
  "huff_code_num 146 = (4194263, 22)"
  "huff_code_num 147 = (8388576, 23)"
  "huff_code_num 148 = (16777198, 24)"
  "huff_code_num 149 = (8388577, 23)"
  "huff_code_num 150 = (8388578, 23)"
  "huff_code_num 151 = (8388579, 23)"
  "huff_code_num 152 = (8388580, 23)"
  "huff_code_num 153 = (2097116, 21)"
  "huff_code_num 154 = (4194264, 22)"
  "huff_code_num 155 = (8388581, 23)"
  "huff_code_num 156 = (4194265, 22)"
  "huff_code_num 157 = (8388582, 23)"
  "huff_code_num 158 = (8388583, 23)"
  "huff_code_num 159 = (16777199, 24)"
  "huff_code_num 160 = (4194266, 22)"
  "huff_code_num 161 = (2097117, 21)"
  "huff_code_num 162 = (1048553, 20)"
  "huff_code_num 163 = (4194267, 22)"
  "huff_code_num 164 = (4194268, 22)"
  "huff_code_num 165 = (8388584, 23)"
  "huff_code_num 166 = (8388585, 23)"
  "huff_code_num 167 = (2097118, 21)"
  "huff_code_num 168 = (8388586, 23)"
  "huff_code_num 169 = (4194269, 22)"
  "huff_code_num 170 = (4194270, 22)"
  "huff_code_num 171 = (16777200, 24)"
  "huff_code_num 172 = (2097119, 21)"
  "huff_code_num 173 = (4194271, 22)"
  "huff_code_num 174 = (8388587, 23)"
  "huff_code_num 175 = (8388588, 23)"
  "huff_code_num 176 = (2097120, 21)"
  "huff_code_num 177 = (2097121, 21)"
  "huff_code_num 178 = (4194272, 22)"
  "huff_code_num 179 = (2097122, 21)"
  "huff_code_num 180 = (8388589, 23)"
  "huff_code_num 181 = (4194273, 22)"
  "huff_code_num 182 = (8388590, 23)"
  "huff_code_num 183 = (8388591, 23)"
  "huff_code_num 184 = (1048554, 20)"
  "huff_code_num 185 = (4194274, 22)"
  "huff_code_num 186 = (4194275, 22)"
  "huff_code_num 187 = (4194276, 22)"
  "huff_code_num 188 = (8388592, 23)"
  "huff_code_num 189 = (4194277, 22)"
  "huff_code_num 190 = (4194278, 22)"
  "huff_code_num 191 = (8388593, 23)"
  "huff_code_num 192 = (67108832, 26)"
  "huff_code_num 193 = (67108833, 26)"
  "huff_code_num 194 = (1048555, 20)"
  "huff_code_num 195 = (524273, 19)"
  "huff_code_num 196 = (4194279, 22)"
  "huff_code_num 197 = (8388594, 23)"
  "huff_code_num 198 = (4194280, 22)"
  "huff_code_num 199 = (33554412, 25)"
  "huff_code_num 200 = (67108834, 26)"
  "huff_code_num 201 = (67108835, 26)"
  "huff_code_num 202 = (67108836, 26)"
  "huff_code_num 203 = (134217694, 27)"
  "huff_code_num 204 = (134217695, 27)"
  "huff_code_num 205 = (67108837, 26)"
  "huff_code_num 206 = (16777201, 24)"
  "huff_code_num 207 = (33554413, 25)"
  "huff_code_num 208 = (524274, 19)"
  "huff_code_num 209 = (2097123, 21)"
  "huff_code_num 210 = (67108838, 26)"
  "huff_code_num 211 = (134217696, 27)"
  "huff_code_num 212 = (134217697, 27)"
  "huff_code_num 213 = (67108839, 26)"
  "huff_code_num 214 = (134217698, 27)"
  "huff_code_num 215 = (16777202, 24)"
  "huff_code_num 216 = (2097124, 21)"
  "huff_code_num 217 = (2097125, 21)"
  "huff_code_num 218 = (67108840, 26)"
  "huff_code_num 219 = (67108841, 26)"
  "huff_code_num 220 = (268435453, 28)"
  "huff_code_num 221 = (134217699, 27)"
  "huff_code_num 222 = (134217700, 27)"
  "huff_code_num 223 = (134217701, 27)"
  "huff_code_num 224 = (1048556, 20)"
  "huff_code_num 225 = (16777203, 24)"
  "huff_code_num 226 = (1048557, 20)"
  "huff_code_num 227 = (2097126, 21)"
  "huff_code_num 228 = (4194281, 22)"
  "huff_code_num 229 = (2097127, 21)"
  "huff_code_num 230 = (2097128, 21)"
  "huff_code_num 231 = (8388595, 23)"
  "huff_code_num 232 = (4194282, 22)"
  "huff_code_num 233 = (4194283, 22)"
  "huff_code_num 234 = (33554414, 25)"
  "huff_code_num 235 = (33554415, 25)"
  "huff_code_num 236 = (16777204, 24)"
  "huff_code_num 237 = (16777205, 24)"
  "huff_code_num 238 = (67108842, 26)"
  "huff_code_num 239 = (8388596, 23)"
  "huff_code_num 240 = (67108843, 26)"
  "huff_code_num 241 = (134217702, 27)"
  "huff_code_num 242 = (67108844, 26)"
  "huff_code_num 243 = (67108845, 26)"
  "huff_code_num 244 = (134217703, 27)"
  "huff_code_num 245 = (134217704, 27)"
  "huff_code_num 246 = (134217705, 27)"
  "huff_code_num 247 = (134217706, 27)"
  "huff_code_num 248 = (134217707, 27)"
  "huff_code_num 249 = (268435454, 28)"
  "huff_code_num 250 = (134217708, 27)"
  "huff_code_num 251 = (134217709, 27)"
  "huff_code_num 252 = (134217710, 27)"
  "huff_code_num 253 = (134217711, 27)"
  "huff_code_num 254 = (134217712, 27)"
  "huff_code_num 255 = (67108846, 26)"
  by (simp_all add: huff_code_num_def)

lemma huff_below_simps:
  "huff_below 0 = 48"
  "huff_below 1 = 48"
  "huff_below 2 = 48"
  "huff_below 3 = 48"
  "huff_below 4 = 48"
  "huff_below 5 = 50"
  "huff_below 6 = 99"
  "huff_below 7 = 99"
  "huff_below 8 = 105"
  "huff_below 9 = 115"
  "huff_below 10 = 115"
  "huff_below 11 = 115"
  "huff_below 12 = 32"
  "huff_below 13 = 32"
  "huff_below 14 = 45"
  "huff_below 15 = 47"
  "huff_below 16 = 47"
  "huff_below 17 = 47"
  "huff_below 18 = 52"
  "huff_below 19 = 54"
  "huff_below 20 = 54"
  "huff_below 21 = 56"
  "huff_below 22 = 61"
  "huff_below 23 = 61"
  "huff_below 24 = 61"
  "huff_below 25 = 61"
  "huff_below 26 = 61"
  "huff_below 27 = 95"
  "huff_below 28 = 100"
  "huff_below 29 = 100"
  "huff_below 30 = 103"
  "huff_below 31 = 108"
  "huff_below 32 = 108"
  "huff_below 33 = 108"
  "huff_below 34 = 110"
  "huff_below 35 = 114"
  "huff_below 36 = 114"
  "huff_below 37 = 58"
  "huff_below 38 = 58"
  "huff_below 39 = 67"
  "huff_below 40 = 69"
  "huff_below 41 = 69"
  "huff_below 42 = 69"
  "huff_below 43 = 69"
  "huff_below 44 = 69"
  "huff_below 45 = 71"
  "huff_below 46 = 73"
  "huff_below 47 = 73"
  "huff_below 48 = 75"
  "huff_below 49 = 77"
  "huff_below 50 = 77"
  "huff_below 51 = 77"
  "huff_below 52 = 79"
  "huff_below 53 = 81"
  "huff_below 54 = 81"
  "huff_below 55 = 83"
  "huff_below 56 = 85"
  "huff_below 57 = 85"
  "huff_below 58 = 85"
  "huff_below 59 = 85"
  "huff_below 60 = 87"
  "huff_below 61 = 106"
  "huff_below 62 = 106"
  "huff_below 63 = 113"
  "huff_below 64 = 119"
  "huff_below 65 = 119"
  "huff_below 66 = 119"
  "huff_below 67 = 121"
  "huff_below 68 = 38"
  "huff_below 69 = 38"
  "huff_below 70 = 38"
  "huff_below 71 = 44"
  "huff_below 72 = 88"
  "huff_below 73 = 88"
  "huff_below 74 = 33"
  "huff_below 75 = 33"
  "huff_below 76 = 33"
  "huff_below 77 = 40"
  "huff_below 78 = 63"
  "huff_below 79 = 63"
  "huff_below 80 = 39"
  "huff_below 81 = 124"
  "huff_below 82 = 124"
  "huff_below 83 = 35"
  "huff_below 84 = 0"
  "huff_below 85 = 0"
  "huff_below 86 = 0"
  "huff_below 87 = 64"
  "huff_below 88 = 93"
  "huff_below 89 = 93"
  "huff_below 90 = 94"
  "huff_below 91 = 94"
  "huff_below 92 = 60"
  "huff_below 93 = 60"
  "huff_below 94 = 123"
  "huff_below 95 = 92"
  "huff_below 96 = 92"
  "huff_below 97 = 92"
  "huff_below 98 = 92"
  "huff_below 99 = 208"
  "huff_below 100 = 128"
  "huff_below 101 = 131"
  "huff_below 102 = 131"
  "huff_below 103 = 131"
  "huff_below 104 = 184"
  "huff_below 105 = 224"
  "huff_below 106 = 224"
  "huff_below 107 = 153"
  "huff_below 108 = 153"
  "huff_below 109 = 167"
  "huff_below 110 = 176"
  "huff_below 111 = 176"
  "huff_below 112 = 176"
  "huff_below 113 = 176"
  "huff_below 114 = 176"
  "huff_below 115 = 179"
  "huff_below 116 = 216"
  "huff_below 117 = 216"
  "huff_below 118 = 227"
  "huff_below 119 = 230"
  "huff_below 120 = 230"
  "huff_below 121 = 230"
  "huff_below 122 = 129"
  "huff_below 123 = 133"
  "huff_below 124 = 133"
  "huff_below 125 = 136"
  "huff_below 126 = 154"
  "huff_below 127 = 154"
  "huff_below 128 = 154"
  "huff_below 129 = 160"
  "huff_below 130 = 164"
  "huff_below 131 = 164"
  "huff_below 132 = 170"
  "huff_below 133 = 178"
  "huff_below 134 = 178"
  "huff_below 135 = 178"
  "huff_below 136 = 178"
  "huff_below 137 = 178"
  "huff_below 138 = 185"
  "huff_below 139 = 187"
  "huff_below 140 = 187"
  "huff_below 141 = 190"
  "huff_below 142 = 198"
  "huff_below 143 = 198"
  "huff_below 144 = 198"
  "huff_below 145 = 232"
  "huff_below 146 = 1"
  "huff_below 147 = 1"
  "huff_below 148 = 1"
  "huff_below 149 = 137"
  "huff_below 150 = 139"
  "huff_below 151 = 139"
  "huff_below 152 = 141"
  "huff_below 153 = 147"
  "huff_below 154 = 147"
  "huff_below 155 = 147"
  "huff_below 156 = 147"
  "huff_below 157 = 147"
  "huff_below 158 = 150"
  "huff_below 159 = 152"
  "huff_below 160 = 152"
  "huff_below 161 = 157"
  "huff_below 162 = 165"
  "huff_below 163 = 165"
  "huff_below 164 = 165"
  "huff_below 165 = 168"
  "huff_below 166 = 175"
  "huff_below 167 = 175"
  "huff_below 168 = 182"
  "huff_below 169 = 188"
  "huff_below 170 = 188"
  "huff_below 171 = 188"
  "huff_below 172 = 188"
  "huff_below 173 = 197"
  "huff_below 174 = 239"
  "huff_below 175 = 239"
  "huff_below 176 = 9"
  "huff_below 177 = 144"
  "huff_below 178 = 144"
  "huff_below 179 = 148"
  "huff_below 180 = 171"
  "huff_below 181 = 171"
  "huff_below 182 = 171"
  "huff_below 183 = 171"
  "huff_below 184 = 215"
  "huff_below 185 = 236"
  "huff_below 186 = 236"
  "huff_below 187 = 199"
  "huff_below 188 = 199"
  "huff_below 189 = 234"
  "huff_below 190 = 192"
  "huff_below 191 = 192"
  "huff_below 192 = 192"
  "huff_below 193 = 192"
  "huff_below 194 = 192"
  "huff_below 195 = 200"
  "huff_below 196 = 202"
  "huff_below 197 = 202"
  "huff_below 198 = 210"
  "huff_below 199 = 218"
  "huff_below 200 = 218"
  "huff_below 201 = 218"
  "huff_below 202 = 238"
  "huff_below 203 = 242"
  "huff_below 204 = 242"
  "huff_below 205 = 255"
  "huff_below 206 = 203"
  "huff_below 207 = 211"
  "huff_below 208 = 211"
  "huff_below 209 = 211"
  "huff_below 210 = 211"
  "huff_below 211 = 211"
  "huff_below 212 = 214"
  "huff_below 213 = 222"
  "huff_below 214 = 222"
  "huff_below 215 = 241"
  "huff_below 216 = 245"
  "huff_below 217 = 245"
  "huff_below 218 = 245"
  "huff_below 219 = 247"
  "huff_below 220 = 250"
  "huff_below 221 = 250"
  "huff_below 222 = 252"
  "huff_below 223 = 254"
  "huff_below 224 = 254"
  "huff_below 225 = 254"
  "huff_below 226 = 254"
  "huff_below 227 = 2"
  "huff_below 228 = 4"
  "huff_below 229 = 4"
  "huff_below 230 = 6"
  "huff_below 231 = 8"
  "huff_below 232 = 8"
  "huff_below 233 = 8"
  "huff_below 234 = 12"
  "huff_below 235 = 15"
  "huff_below 236 = 15"
  "huff_below 237 = 17"
  "huff_below 238 = 19"
  "huff_below 239 = 19"
  "huff_below 240 = 19"
  "huff_below 241 = 19"
  "huff_below 242 = 21"
  "huff_below 243 = 24"
  "huff_below 244 = 24"
  "huff_below 245 = 26"
  "huff_below 246 = 28"
  "huff_below 247 = 28"
  "huff_below 248 = 28"
  "huff_below 249 = 30"
  "huff_below 250 = 127"
  "huff_below 251 = 127"
  "huff_below 252 = 249"
  "huff_below 253 = 10"
  "huff_below 254 = 10"
  "huff_below 255 = 22"
  by (simp_all add: huff_below_def)

subsection \<open>The encode table holds these code words\<close>

fun codes_match :: "u8 \<Rightarrow> huff_sym list \<Rightarrow> bool" where
  "codes_match c [] = True"
| "codes_match c [e] = ((uint (code e), unat (bits e)) = (0x3fffffff, 30))"
| "codes_match c (e # es) = ((uint (code e), unat (bits e)) = huff_code_num c \<and> codes_match (c + 1) es)"

lemma huff_encode_table_codes: "codes_match 0 huff_encode_table"
  by (simp add: huff_encode_table_def huff_code_num_simps)

lemma huff_encode_table_length: "length huff_encode_table = 257"
  by (simp add: huff_encode_table_def)

subsection \<open>The transitions\<close>

text \<open>
  \<open>entry_ok s v e\<close>: transition \<open>e\<close> of state \<open>s\<close> on nibble \<open>v\<close> does what the code words say.
\<close>

definition entry_ok :: "u16 \<Rightarrow> int \<Rightarrow> decode_entry \<Rightarrow> bool" where
  "entry_ok s v e =
     (case huff_prefix_num s of (p, n) \<Rightarrow>
        if fstate e = HUFF_FAIL_STATE
        then flags e = 0 \<and> 30 \<le> n + 4 \<and> (p * 16 + v) div 2 ^ (n + 4 - 30) = 0x3fffffff
        else fstate e < 256 \<and>
          (case huff_prefix_num (fstate e) of (p', n') \<Rightarrow>
             (flags e AND HUFF_ACCEPTED \<noteq> 0) = (p' + 1 = 2 ^ n' \<and> n' < 8) \<and>
             (if flags e AND HUFF_SYM = 0 then p * 16 + v = p' \<and> n + 4 = n'
              else case huff_code_num (esym e) of (c, k) \<Rightarrow>
                p * 16 + v = c * 2 ^ n' + p' \<and> n + 4 = k + n')))"

primrec row_ok :: "u16 \<Rightarrow> int \<Rightarrow> decode_entry list \<Rightarrow> bool" where
  "row_ok s v [] = (v = 16)"
| "row_ok s v (e # es) = (entry_ok s v e \<and> row_ok s (v + 1) es)"

primrec rows_ok :: "u16 \<Rightarrow> decode_entry list list \<Rightarrow> bool" where
  "rows_ok s [] = True"
| "rows_ok s (r # rs) = (row_ok s 0 r \<and> rows_ok (s + 1) rs)"

lemmas entry_ok_eval =
  entry_ok_def huff_prefix_num_simps huff_code_num_simps
  HUFF_FAIL_STATE_def HUFF_ACCEPTED_def HUFF_SYM_def

lemma rows_ok_0: "rows_ok 0 huff_decode_rows_0"
  by (simp add: huff_decode_rows_0_def entry_ok_eval)

lemma rows_ok_1: "rows_ok 25 huff_decode_rows_1"
  by (simp add: huff_decode_rows_1_def entry_ok_eval)

lemma rows_ok_2: "rows_ok 50 huff_decode_rows_2"
  by (simp add: huff_decode_rows_2_def entry_ok_eval)

lemma rows_ok_3: "rows_ok 75 huff_decode_rows_3"
  by (simp add: huff_decode_rows_3_def entry_ok_eval)

lemma rows_ok_4: "rows_ok 100 huff_decode_rows_4"
  by (simp add: huff_decode_rows_4_def entry_ok_eval)

lemma rows_ok_5: "rows_ok 125 huff_decode_rows_5"
  by (simp add: huff_decode_rows_5_def entry_ok_eval)

lemma rows_ok_6: "rows_ok 150 huff_decode_rows_6"
  by (simp add: huff_decode_rows_6_def entry_ok_eval)

lemma rows_ok_7: "rows_ok 175 huff_decode_rows_7"
  by (simp add: huff_decode_rows_7_def entry_ok_eval)

lemma rows_ok_8: "rows_ok 200 huff_decode_rows_8"
  by (simp add: huff_decode_rows_8_def entry_ok_eval)

lemma rows_ok_9: "rows_ok 225 huff_decode_rows_9"
  by (simp add: huff_decode_rows_9_def entry_ok_eval)

lemma rows_ok_10: "rows_ok 250 (butlast huff_decode_rows_10)"
  by (simp add: huff_decode_rows_10_def entry_ok_eval)

subsection \<open>Pending bits and code words fit together\<close>

text \<open>
  \<open>pfx_ok s\<close>: the pending bits of state \<open>s\<close> are a proper prefix of a code word, as numbers.
\<close>

definition pfx_ok :: "u16 \<Rightarrow> bool" where
  "pfx_ok s =
     (case huff_prefix_num s of (p, n) \<Rightarrow>
        case huff_code_num (huff_below s) of (c, k) \<Rightarrow>
          0 \<le> p \<and> p < 2 ^ n \<and> n < k \<and> p = c div 2 ^ (k - n))"

definition code_ok :: "u8 \<Rightarrow> bool" where
  "code_ok c = (case huff_code_num c of (v, k) \<Rightarrow> 0 \<le> v \<and> v < 2 ^ k \<and> 5 \<le> k \<and> k \<le> 30)"

text \<open>
  The code words left-aligned to 30 bits are disjoint intervals, in the order of \<open>huff_order\<close>,
  with EOS last.
\<close>

definition code_lo :: "u8 \<Rightarrow> int" where
  "code_lo c = (case huff_code_num c of (v, k) \<Rightarrow> v * 2 ^ (30 - k))"

definition code_hi :: "u8 \<Rightarrow> int" where
  "code_hi c = (case huff_code_num c of (v, k) \<Rightarrow> (v + 1) * 2 ^ (30 - k))"

fun chain_ok :: "u8 list \<Rightarrow> bool" where
  "chain_ok [] = True"
| "chain_ok [c] = (code_hi c \<le> 0x3fffffff)"
| "chain_ok (c # d # cs) = (code_hi c \<le> code_lo d \<and> chain_ok (d # cs))"

lemma pfx_ok_chunks:
  "list_all pfx_ok (map of_nat [0..<64])"
  "list_all pfx_ok (map of_nat [64..<128])"
  "list_all pfx_ok (map of_nat [128..<192])"
  "list_all pfx_ok (map of_nat [192..<256])"
  by (simp_all add: upto_eval pfx_ok_def huff_prefix_num_simps huff_code_num_simps
      huff_below_simps)

lemma pfx_ok_all: "unat s < 256 \<Longrightarrow> pfx_ok s"
  by (rule word_cases_256 [OF pfx_ok_chunks])

lemma code_ok_all: "code_ok c"
  by (rule all_bytes) (simp_all add: upto_eval code_ok_def huff_code_num_simps)

lemma huff_order_chain: "chain_ok huff_order"
  by (simp add: huff_order_def code_lo_def code_hi_def huff_code_num_simps)

end
