(* ===== verification/Prefix_Code.thy ===== *)
theory Prefix_Code
  imports Prelude
begin

text \<open>
  The interface a Huffman coder relies on: a prefix-free code.  The lemmas of the locale are the
  unique-decoding facts the decoder's correctness needs; \<open>Hpack_Huffman\<close> interprets it on the code
  words of \<open>huff_encode_table\<close>.
\<close>

locale prefix_code =
  fixes cw :: "'a \<Rightarrow> bool list"
  assumes cw_prefix_free: "prefix (cw a) (cw b) \<Longrightarrow> a = b"
begin

lemma cw_same: "cw a @ x = cw b @ y \<Longrightarrow> a = b"
  by (metis cw_prefix_free prefix_same_cases prefixI)

text \<open>No code word starts inside the bits \<open>q\<close>.\<close>

definition no_code :: "bool list \<Rightarrow> bool" where
  "no_code q \<longleftrightarrow> (\<forall>a. \<not> prefix (cw a) q)"

lemma no_code_append: "no_code q \<Longrightarrow> q \<noteq> cw a @ x"
  unfolding no_code_def by (metis prefixI)

text \<open>A decoded beginning is a beginning of the message.\<close>

lemma decoded_prefix:
  assumes "concat (map cw xs) @ r = concat (map cw ys) @ q" and "no_code q"
  shows "prefix xs ys"
  using assms(1)
proof (induction xs arbitrary: ys)
  case Nil
  then show ?case by simp
next
  case (Cons x xs)
  show ?case
  proof (cases ys)
    case Nil
    with Cons.prems have "q = cw x @ (concat (map cw xs) @ r)" by simp
    with no_code_append [OF assms(2)] show ?thesis by blast
  next
    case (Cons y ys')
    with Cons.prems have eq: "cw x @ concat (map cw xs) @ r = cw y @ concat (map cw ys') @ q"
      by simp
    then have "x = y" by (rule cw_same)
    with eq have "prefix xs ys'" using Cons.IH by simp
    with \<open>x = y\<close> Cons show ?thesis by simp
  qed
qed

lemma unique_decoding:
  assumes "concat (map cw xs) @ p = concat (map cw ys) @ q" and "no_code p" and "no_code q"
  shows "xs = ys" and "p = q"
proof -
  from decoded_prefix [OF assms(1,3)] decoded_prefix [OF assms(1) [symmetric] assms(2)]
  show "xs = ys" by (rule prefix_order.antisym)
  with assms(1) show "p = q" by simp
qed

lemma cw_concat_inj:
  assumes "concat (map cw xs) = concat (map cw ys)" and "\<And>a. cw a \<noteq> []"
  shows "xs = ys"
  using unique_decoding(1) [of xs "[]" ys "[]"] assms by (auto simp: no_code_def)

end

end
