(* ===== verification/Hpack_Code.thy ===== *)
theory Hpack_Code
  imports Hpack_Automaton Prefix_Code
begin

text \<open>
  The code words of \<open>huff_encode_table\<close> as bit strings (\<open>huff_cw\<close>), the proof that no one of them
  is a prefix of another, and the interpretation of the locale \<open>prefix_code\<close> on them.
\<close>

subsection \<open>The code words as bit strings\<close>

definition sym_bits :: "huff_sym \<Rightarrow> bool list" where
  "sym_bits e = msbs (unat (bits e)) (code e)"

text \<open>The code word of a byte, or of EOS (\<open>None\<close>).\<close>

definition huff_cw :: "u8 option \<Rightarrow> bool list" where
  "huff_cw c = sym_bits (huff_encode_table ! (case c of Some b \<Rightarrow> unat b | None \<Rightarrow> 256))"

lemma codes_match_nth:
  "codes_match c es \<Longrightarrow> Suc i < length es \<Longrightarrow>
     (uint (code (es ! i)), unat (bits (es ! i))) = huff_code_num (c + of_nat i)"
proof (induction c es arbitrary: i rule: codes_match.induct)
  case (3 c e e' es)
  then show ?case by (cases i) (simp_all add: ac_simps)
qed simp_all

lemma codes_match_last:
  "codes_match c es \<Longrightarrow> es \<noteq> [] \<Longrightarrow>
     (uint (code (last es)), unat (bits (last es))) = (0x3fffffff, 30)"
  by (induction c es rule: codes_match.induct) simp_all

lemma code_num_byte:
  "(uint (code (huff_encode_table ! unat c)), unat (bits (huff_encode_table ! unat c))) =
     huff_code_num c"
  using codes_match_nth [OF huff_encode_table_codes, of "unat c"]
  by (simp add: huff_encode_table_length)

lemma code_num_eos:
  "uint (code (huff_encode_table ! 256)) = 0x3fffffff"
  "unat (bits (huff_encode_table ! 256)) = 30"
proof -
  have "huff_encode_table ! 256 = last huff_encode_table"
    using huff_encode_table_length by (simp add: last_conv_nth flip: length_greater_0_conv)
  then show "uint (code (huff_encode_table ! 256)) = 0x3fffffff"
    "unat (bits (huff_encode_table ! 256)) = 30"
    using codes_match_last [OF huff_encode_table_codes] huff_encode_table_length
    by (auto simp flip: length_greater_0_conv)
qed

lemma msbs_uint: "n \<le> LENGTH('a) \<Longrightarrow> msbs n (uint (w :: 'a::len word)) = msbs n w"
  by (rule msbs_cong) (simp add: bit_uint_iff)


lemma msbs_mult_add:
  assumes "0 \<le> b" and "b < 2 ^ n"
  shows "msbs (m + n) (a * 2 ^ n + b :: int) = msbs m a @ msbs n b"
proof -
  have "drop_bit n (a * 2 ^ n + b) = a" and "take_bit n (a * 2 ^ n + b) = b"
    using assms by (simp_all add: drop_bit_eq_div take_bit_eq_mod)
  then show ?thesis
    by (simp add: msbs_append) (metis msbs_take_bit order_refl)
qed

lemma msbs_int_inj:
  "msbs n a = msbs n b \<Longrightarrow> 0 \<le> a \<Longrightarrow> a < 2 ^ n \<Longrightarrow> 0 \<le> b \<Longrightarrow> b < 2 ^ n \<Longrightarrow> a = (b :: int)"
  by (simp add: msbs_eq_iff take_bit_int_eq_self)

lemma int_div_less:
  assumes "0 < (q :: int)"
  shows "m div q < n \<longleftrightarrow> m < n * q"
proof
  assume "m div q < n"
  then have "(m div q + 1) * q \<le> n * q" using assms by (intro mult_right_mono) simp_all
  moreover have "m < (m div q + 1) * q"
  proof -
    have "m = m div q * q + m mod q" by simp
    also have "\<dots> < m div q * q + q"
      using pos_mod_bound [OF assms, of m] by (rule add_strict_left_mono)
    finally show ?thesis by (simp add: algebra_simps)
  qed
  ultimately show "m < n * q" by simp
next
  assume "m < n * q"
  have "n * q \<le> m" if "n \<le> m div q"
  proof -
    have "n * q \<le> m div q * q" using that assms by (intro mult_right_mono) simp_all
    also have "\<dots> \<le> m" using pos_mod_sign [OF assms, of m] by (simp flip: minus_mod_eq_div_mult)
    finally show ?thesis .
  qed
  with \<open>m < n * q\<close> show "m div q < n" by linarith
qed

text \<open>A prefix of a bit string is the number without its low bits.\<close>

lemma msbs_prefix:
  assumes "prefix (msbs k v) (msbs k' v')" and "0 \<le> v" "v < 2 ^ k" and "0 \<le> v'" "v' < 2 ^ k'"
  shows "k \<le> k'" and "v = (v' :: int) div 2 ^ (k' - k)"
proof -
  show le: "k \<le> k'" using prefix_length_le [OF assms(1)] by simp
  have "msbs k' v' = msbs k (drop_bit (k' - k) v') @ msbs (k' - k) v'"
    using msbs_append [of k "k' - k" v'] le by simp
  with assms(1) have "msbs k v = msbs k (drop_bit (k' - k) v')"
    by (metis append_eq_append_conv msbs_length prefixE)
  moreover have "0 \<le> drop_bit (k' - k) v'" "drop_bit (k' - k) v' < 2 ^ k"
  proof -
    have "(2 :: int) ^ k' = 2 ^ k * 2 ^ (k' - k)" using le by (simp flip: power_add)
    with assms(4,5) show "0 \<le> drop_bit (k' - k) v'" "drop_bit (k' - k) v' < 2 ^ k"
      by (simp_all add: drop_bit_eq_div int_div_less pos_imp_zdiv_nonneg_iff)
  qed
  ultimately show "v = v' div 2 ^ (k' - k)"
    using msbs_int_inj assms(2,3) by (simp add: drop_bit_eq_div)
qed

definition huff_num :: "u8 option \<Rightarrow> int \<times> nat" where
  "huff_num c = (case c of Some b \<Rightarrow> huff_code_num b | None \<Rightarrow> (0x3fffffff, 30))"

lemma huff_num_range:
  assumes "huff_num c = (v, k)"
  shows "0 \<le> v" "v < 2 ^ k" "5 \<le> k" "k \<le> 30"
  using assms code_ok_all [of "the c"]
  by (auto simp: huff_num_def code_ok_def split: option.splits)

lemma huff_cw_msbs: "huff_num c = (v, k) \<Longrightarrow> huff_cw c = msbs k v"
proof (cases c)
  case None
  then show "huff_num c = (v, k) \<Longrightarrow> ?thesis"
    using code_num_eos
    by (auto simp: huff_cw_def sym_bits_def huff_num_def simp flip: msbs_uint)
next
  case (Some b)
  assume "huff_num c = (v, k)"
  with Some code_num_byte [of b]
  have *: "uint (code (huff_encode_table ! unat b)) = v"
    "unat (bits (huff_encode_table ! unat b)) = k"
    by (simp_all add: huff_num_def)
  moreover from huff_num_range(4) [OF \<open>huff_num c = (v, k)\<close>] have "k \<le> LENGTH(32)" by simp
  ultimately show ?thesis
    using Some by (auto simp: huff_cw_def sym_bits_def simp flip: msbs_uint)
qed

lemma huff_cw_length: "5 \<le> length (huff_cw c)" "length (huff_cw c) \<le> 30"
  using huff_num_range(3,4) huff_cw_msbs by (cases "huff_num c"; simp)+


subsection \<open>The code is prefix-free\<close>

definition cw_lo :: "u8 option \<Rightarrow> int" where
  "cw_lo c = (case huff_num c of (v, k) \<Rightarrow> v * 2 ^ (30 - k))"

definition cw_hi :: "u8 option \<Rightarrow> int" where
  "cw_hi c = (case huff_num c of (v, k) \<Rightarrow> (v + 1) * 2 ^ (30 - k))"

lemma cw_lo_less_hi: "cw_lo c < cw_hi c"
  by (simp add: cw_lo_def cw_hi_def algebra_simps split: prod.splits)

lemma cw_Some [simp]: "cw_lo (Some c) = code_lo c" "cw_hi (Some c) = code_hi c"
  by (simp_all add: cw_lo_def cw_hi_def code_lo_def code_hi_def huff_num_def)

lemma chain_sorted:
  "chain_ok cs \<Longrightarrow> sorted_wrt (\<lambda>c d. code_hi c \<le> code_lo d) cs \<and> (\<forall>c \<in> set cs. code_hi c \<le> 0x3fffffff)"
proof (induction cs rule: chain_ok.induct)
  case (3 c d cs)
  then have IH: "sorted_wrt (\<lambda>c d. code_hi c \<le> code_lo d) (d # cs)"
    "\<forall>c \<in> set (d # cs). code_hi c \<le> 0x3fffffff" and cd: "code_hi c \<le> code_lo d"
    by simp_all
  have d: "code_lo d < code_hi d" using cw_lo_less_hi [of "Some d"] by simp
  have "code_hi c \<le> code_lo e" if "e \<in> set cs" for e
    using IH(1) that cd d by (auto intro: order_trans less_imp_le)
  moreover have "code_hi c \<le> 0x3fffffff" using cd d IH(2) by auto
  ultimately show ?case using IH cd by simp
qed simp_all

lemma huff_order_length: "length huff_order = 256"
  by (simp add: huff_order_def)

lemma huff_order_set: "set huff_order = UNIV"
proof -
  have "sorted_wrt (\<lambda>c d. code_lo c < code_lo d) huff_order"
    using chain_sorted [OF huff_order_chain] cw_lo_less_hi [of "Some _"]
    by (auto elim!: sorted_wrt_mono_rel [rotated] intro: less_le_trans)
  then have "sorted_wrt (<) (map code_lo huff_order)" by (simp add: sorted_wrt_map)
  then have "distinct huff_order" by (simp add: strict_sorted_iff distinct_map)
  then have "card (set huff_order) = 256"
    using distinct_card [of huff_order] huff_order_length by simp
  moreover have "card (UNIV :: u8 set) = 256"
    by (simp add: card_word)
  ultimately show ?thesis
    by (metis card_subset_eq finite subset_UNIV)
qed

lemma cw_disjoint_Some: "a \<noteq> b \<Longrightarrow> code_hi a \<le> code_lo b \<or> code_hi b \<le> code_lo a"
proof -
  assume "a \<noteq> b"
  obtain i j where i: "i < length huff_order" "a = huff_order ! i"
    and j: "j < length huff_order" "b = huff_order ! j"
    using huff_order_set by (metis UNIV_I in_set_conv_nth)
  with \<open>a \<noteq> b\<close> have "i < j \<or> j < i" by (metis linorder_neqE_nat)
  then show ?thesis
    using chain_sorted [OF huff_order_chain] i j by (auto simp: sorted_wrt_iff_nth_less)
qed

lemma cw_lo_None: "cw_lo None = 0x3fffffff"
  by (simp add: cw_lo_def huff_num_def)

lemma cw_disjoint: "a \<noteq> b \<Longrightarrow> cw_hi a \<le> cw_lo b \<or> cw_hi b \<le> cw_lo a"
proof (cases a; cases b)
  fix x y assume "a = Some x" "b = Some y" "a \<noteq> b"
  then show ?thesis using cw_disjoint_Some [of x y] by simp
qed (use chain_sorted [OF huff_order_chain] huff_order_set in \<open>auto simp: cw_lo_None\<close>)

lemma cw_interval:
  assumes "prefix (huff_cw a) (huff_cw b)"
  shows "cw_lo a \<le> cw_lo b" and "cw_lo b < cw_hi a"
proof -
  obtain v k v' k' where a: "huff_num a = (v, k)" and b: "huff_num b = (v', k')"
    by (cases "huff_num a"; cases "huff_num b") blast
  note ra = huff_num_range [OF a] and rb = huff_num_range [OF b]
  from assms have pre: "prefix (msbs k v) (msbs k' v')"
    by (simp add: huff_cw_msbs [OF a] huff_cw_msbs [OF b])
  note kv = msbs_prefix [OF pre ra(1,2) rb(1,2)]
  have split: "(2 :: int) ^ (30 - k) = 2 ^ (k' - k) * 2 ^ (30 - k')"
    using kv(1) rb(4) by (simp flip: power_add)
  have "v * 2 ^ (k' - k) \<le> v'" "v' < (v + 1) * 2 ^ (k' - k)"
    using kv(2) int_div_less [of "2 ^ (k' - k)" v' "v + 1"] int_div_less [of "2 ^ (k' - k)" v' v]
    by auto
  then have "v * 2 ^ (k' - k) * 2 ^ (30 - k') \<le> v' * 2 ^ (30 - k')"
    and "v' * 2 ^ (30 - k') < (v + 1) * 2 ^ (k' - k) * 2 ^ (30 - k')"
    by simp_all
  then show "cw_lo a \<le> cw_lo b" and "cw_lo b < cw_hi a"
    by (simp_all add: cw_lo_def cw_hi_def a b split ac_simps)
qed

lemma huff_cw_prefix_free: "prefix (huff_cw a) (huff_cw b) \<Longrightarrow> a = b"
  using cw_disjoint [of a b] cw_interval [of a b] cw_lo_less_hi [of b] by force

interpretation hpack: prefix_code huff_cw
  by unfold_locales (rule huff_cw_prefix_free)


subsection \<open>The automaton's transitions on bit strings\<close>

definition huff_pfx :: "u16 \<Rightarrow> bool list" where
  "huff_pfx s = (case huff_prefix_num s of (p, n) \<Rightarrow> msbs n p)"

lemma rows_ok_append:
  "rows_ok s (xs @ ys) \<longleftrightarrow> rows_ok s xs \<and> rows_ok (s + of_nat (length xs)) ys"
  by (induction xs arbitrary: s) (auto simp: ac_simps)

lemma rows_ok_nth: "rows_ok s rs \<Longrightarrow> i < length rs \<Longrightarrow> row_ok (s + of_nat i) 0 (rs ! i)"
proof (induction rs arbitrary: s i)
  case (Cons r rs)
  then show ?case by (cases i) (auto simp: ac_simps dest!: Cons.IH)
qed simp

lemma row_ok_length: "row_ok s v es \<Longrightarrow> v + int (length es) = 16"
  by (induction es arbitrary: v) fastforce+

lemma row_ok_nth: "row_ok s v es \<Longrightarrow> j < length es \<Longrightarrow> entry_ok s (v + int j) (es ! j)"
proof (induction es arbitrary: v j)
  case (Cons e es)
  then show ?case by (cases j) (auto simp: ac_simps dest!: Cons.IH)
qed simp

lemma huff_rows_length:
  "length huff_decode_rows_0 = 25" "length huff_decode_rows_1 = 25"
  "length huff_decode_rows_2 = 25" "length huff_decode_rows_3 = 25"
  "length huff_decode_rows_4 = 25" "length huff_decode_rows_5 = 25"
  "length huff_decode_rows_6 = 25" "length huff_decode_rows_7 = 25"
  "length huff_decode_rows_8 = 25" "length huff_decode_rows_9 = 25"
  "length huff_decode_rows_10 = 7"
  by (simp_all add: huff_decode_rows_0_def huff_decode_rows_1_def huff_decode_rows_2_def
      huff_decode_rows_3_def huff_decode_rows_4_def huff_decode_rows_5_def huff_decode_rows_6_def
      huff_decode_rows_7_def huff_decode_rows_8_def huff_decode_rows_9_def huff_decode_rows_10_def)

lemma huff_decode_table_length: "length huff_decode_table = 257"
  by (simp add: huff_decode_table_def huff_rows_length)

lemma huff_decode_table_rows: "rows_ok 0 (butlast huff_decode_table)"
proof -
  have "huff_decode_rows_10 \<noteq> []" using huff_rows_length(11) by auto
  then show ?thesis
    using rows_ok_0 rows_ok_1 rows_ok_2 rows_ok_3 rows_ok_4 rows_ok_5 rows_ok_6 rows_ok_7
      rows_ok_8 rows_ok_9 rows_ok_10
    by (simp add: huff_decode_table_def butlast_append rows_ok_append huff_rows_length)
qed

lemma huff_decode_table_row:
  assumes "unat s < 256"
  shows "row_ok s 0 (huff_decode_table ! unat s)"
  using rows_ok_nth [OF huff_decode_table_rows, of "unat s"] assms
  by (simp add: huff_decode_table_length nth_butlast)

lemma huff_decode_table_row_length: "unat (s :: u16) < 256 \<Longrightarrow> length (huff_decode_table ! unat s) = 16"
  using row_ok_length [OF huff_decode_table_row, of s] by simp

lemma huff_decode_table_entry:
  "unat s < 256 \<Longrightarrow> j < 16 \<Longrightarrow> entry_ok s (int j) (huff_decode_table ! unat s ! j)"
  using row_ok_nth [OF huff_decode_table_row, of s j] by (simp add: huff_decode_table_row_length)

lemma msbs_ones: "0 \<le> p \<Longrightarrow> p < 2 ^ n \<Longrightarrow> msbs n p = replicate n True \<longleftrightarrow> (p :: int) + 1 = 2 ^ n"
proof -
  assume p: "0 \<le> p" "p < 2 ^ n"
  have "msbs n (2 ^ n - 1 :: int) = replicate n True"
    by (rule msbs_eqI [symmetric]) (simp_all add: bit_mask_iff flip: mask_eq_exp_minus_1)
  moreover have "msbs n p = msbs n (2 ^ n - 1 :: int) \<Longrightarrow> p = 2 ^ n - 1"
    using p by (intro msbs_int_inj) (simp | linarith)+
  moreover have "p = 2 ^ n - 1 \<longleftrightarrow> p + 1 = 2 ^ n" by auto
  ultimately show ?thesis by metis
qed

lemma huff_pfx_range:
  assumes "unat s < 256" and "huff_prefix_num s = (p, n)"
  shows "0 \<le> p" "p < 2 ^ n"
  using pfx_ok_all [OF assms(1)] assms(2) by (simp_all add: pfx_ok_def split: prod.splits)

lemma huff_pfx_below:
  assumes "unat s < 256"
  shows "strict_prefix (huff_pfx s) (huff_cw (Some (huff_below s)))"
proof -
  obtain p n c k where pn: "huff_prefix_num s = (p, n)" and ck: "huff_code_num (huff_below s) = (c, k)"
    by (metis surj_pair)
  with pfx_ok_all [OF assms] have nk: "n < k" "p = c div 2 ^ (k - n)"
    by (simp_all add: pfx_ok_def)
  have "huff_cw (Some (huff_below s)) = msbs k c"
    by (rule huff_cw_msbs) (simp add: huff_num_def ck)
  also have "\<dots> = huff_pfx s @ msbs (k - n) c"
    using msbs_append [of n "k - n" c] nk by (simp add: huff_pfx_def pn drop_bit_eq_div)
  finally show ?thesis
    using nk by (simp add: strict_prefix_def flip: length_0_conv)
qed

lemma huff_pfx_no_code: "unat s < 256 \<Longrightarrow> hpack.no_code (huff_pfx s)"
proof -
  assume s: "unat s < 256"
  have False if "prefix (huff_cw a) (huff_pfx s)" for a
  proof -
    from that huff_pfx_below [OF s] have "strict_prefix (huff_cw a) (huff_cw (Some (huff_below s)))"
      by (rule prefix_order.le_less_trans)
    moreover from this have "a = Some (huff_below s)"
      by (intro huff_cw_prefix_free prefix_order.less_imp_le)
    ultimately show False by simp
  qed
  then show ?thesis by (auto simp: hpack.no_code_def)
qed

lemma huff_cw_None: "huff_cw None = replicate 30 True"
  using huff_cw_msbs [of None "0x3fffffff" 30] by (simp add: huff_num_def msbs_ones)

lemma ones_no_code: "k < 8 \<Longrightarrow> hpack.no_code (replicate k True)"
proof -
  assume "k < 8"
  have "prefix (replicate k True) (huff_cw None)"
    using \<open>k < 8\<close> replicate_add [of k "30 - k" True] by (simp add: huff_cw_None)
  have False if "prefix (huff_cw a) (replicate k True)" for a
  proof -
    from that \<open>prefix _ (huff_cw None)\<close> have "prefix (huff_cw a) (huff_cw None)"
      by (rule prefix_order.trans)
    then have "a = None" by (rule huff_cw_prefix_free)
    with prefix_length_le [OF that] \<open>k < 8\<close> show False by (simp add: huff_cw_None)
  qed
  then show ?thesis by (auto simp: hpack.no_code_def)
qed

text \<open>What one table entry does, over bit strings.\<close>

lemma huff_entry:
  fixes s :: u16 and v :: nat
  defines "e \<equiv> huff_decode_table ! unat s ! v"
  assumes s: "unat s < 256" and v: "v < 16"
  shows "fstate e = HUFF_FAIL_STATE \<Longrightarrow>
      flags e = 0 \<and> prefix (huff_cw None) (huff_pfx s @ msbs 4 (int v))"
    and "fstate e \<noteq> HUFF_FAIL_STATE \<Longrightarrow> unat (fstate e) < 256"
    and "fstate e \<noteq> HUFF_FAIL_STATE \<Longrightarrow>
      flags e AND HUFF_ACCEPTED \<noteq> 0 \<longleftrightarrow> (\<exists>k<8. huff_pfx (fstate e) = replicate k True)"
    and "fstate e \<noteq> HUFF_FAIL_STATE \<Longrightarrow>
      huff_pfx s @ msbs 4 (int v) =
        (if flags e AND HUFF_SYM = 0 then [] else huff_cw (Some (esym e))) @ huff_pfx (fstate e)"
proof -
  obtain p n where pn: "huff_prefix_num s = (p, n)" by (metis surj_pair)
  note ok = huff_decode_table_entry [OF s v, folded e_def, unfolded entry_ok_def pn prod.case]
  have bits4: "huff_pfx s @ msbs 4 (int v) = msbs (n + 4) (p * 16 + int v)"
    using msbs_mult_add [of "int v" 4 n p] v by (simp add: huff_pfx_def pn)
  show "flags e = 0 \<and> prefix (huff_cw None) (huff_pfx s @ msbs 4 (int v))"
    if "fstate e = HUFF_FAIL_STATE"
  proof -
    from that ok have f: "flags e = 0" "30 \<le> n + 4"
      and d: "(p * 16 + int v) div 2 ^ (n + 4 - 30) = 0x3fffffff" by simp_all
    have "30 + (n + 4 - 30) = n + 4" using f by simp
    then have "msbs (n + 4) (p * 16 + int v) =
        msbs 30 (0x3fffffff :: int) @ msbs (n + 4 - 30) (p * 16 + int v)"
      using msbs_append [of 30 "n + 4 - 30" "p * 16 + int v"] d by (simp only: drop_bit_eq_div)
    moreover have "huff_cw None = msbs 30 (0x3fffffff :: int)"
      by (rule huff_cw_msbs) (simp add: huff_num_def)
    ultimately show ?thesis using f by (simp add: bits4)
  qed
  assume live: "fstate e \<noteq> HUFF_FAIL_STATE"
  obtain p' n' where pn': "huff_prefix_num (fstate e) = (p', n')" by (metis surj_pair)
  from live ok show s': "unat (fstate e) < 256"
    by (simp add: word_less_nat_alt)
  note r' = huff_pfx_range [OF s' pn']
  from live ok have ok': "(flags e AND HUFF_ACCEPTED \<noteq> 0) = (p' + 1 = 2 ^ n' \<and> n' < 8)"
    "if flags e AND HUFF_SYM = 0 then p * 16 + int v = p' \<and> n + 4 = n'
      else case huff_code_num (esym e) of (c, k) \<Rightarrow> p * 16 + int v = c * 2 ^ n' + p' \<and> n + 4 = k + n'"
    by (simp_all add: pn')
  have "(\<exists>k<8. huff_pfx (fstate e) = replicate k True) \<longleftrightarrow> n' < 8 \<and> msbs n' p' = replicate n' True"
    unfolding huff_pfx_def pn' prod.case by (metis length_replicate msbs_length)
  then show "flags e AND HUFF_ACCEPTED \<noteq> 0 \<longleftrightarrow> (\<exists>k<8. huff_pfx (fstate e) = replicate k True)"
    using ok'(1) msbs_ones [OF r'] by auto
  show "huff_pfx s @ msbs 4 (int v) =
      (if flags e AND HUFF_SYM = 0 then [] else huff_cw (Some (esym e))) @ huff_pfx (fstate e)"
  proof (cases "flags e AND HUFF_SYM = 0")
    case True
    with ok'(2) show ?thesis by (simp add: bits4) (simp add: huff_pfx_def pn')
  next
    case False
    obtain c k where ck: "huff_code_num (esym e) = (c, k)" by (metis surj_pair)
    with False ok'(2) have num: "p * 16 + int v = c * 2 ^ n' + p'" "n + 4 = k + n'" by simp_all
    have "huff_cw (Some (esym e)) = msbs k c"
      by (rule huff_cw_msbs) (simp add: huff_num_def ck)
    then show ?thesis
      using False msbs_mult_add [OF r', of k c]
      by (simp add: bits4 num) (simp add: huff_pfx_def pn')
  qed
qed

lemma huff_pfx_0: "huff_pfx 0 = []"
  by (simp add: huff_pfx_def huff_prefix_num_simps)

end
