(* ===== verification/Hpack_Huffman.thy ===== *)
theory Hpack_Huffman
  imports Hpack_Code
begin

text \<open>
  The functions of \<open>wireform-http2/cbits/hpack_huffman.c\<close>: the bit-packing encoder, the encoded
  length and the nibble-automaton decoder, with the theorems that relate them to the code of
  RFC 7541 (\<open>huff_pack\<close>: the code words in sequence, padded with one bits to whole bytes).
  The C accumulator \<open>uint64_t bits\<close> is a 64-bit word; the source pointer with its length is the list
  of source bytes, the output pointer an index into the destination buffer.
\<close>

subsection \<open>The encoder\<close>

text \<open>The inner loop \<open>while (nbits >= 8)\<close>: whole bytes leave the accumulator.\<close>

fun huff_flush :: "u64 \<Rightarrow> nat \<Rightarrow> bytes \<Rightarrow> nat \<Rightarrow> (nat \<times> bytes \<times> nat) option" where
  "huff_flush acc nbits dst out =
     (if 8 \<le> nbits
      then do {
        dst' \<leftarrow> store dst out (ucast (drop_bit (nbits - 8) acc));
        huff_flush acc (nbits - 8) dst' (Suc out)
      }
      else Some (nbits, dst, out))"

declare huff_flush.simps [simp del]

text \<open>The loop over the source bytes.\<close>

fun huff_encode_loop ::
  "bytes \<Rightarrow> u64 \<Rightarrow> nat \<Rightarrow> bytes \<Rightarrow> nat \<Rightarrow> (u64 \<times> nat \<times> bytes \<times> nat) option" where
  "huff_encode_loop [] acc nbits dst out = Some (acc, nbits, dst, out)"
| "huff_encode_loop (c # src) acc nbits dst out = do {
     e \<leftarrow> load huff_encode_table (unat c);
     let acc1 = push_bit (unat (bits e)) acc OR ucast (code e);
     (nbits', dst', out') \<leftarrow> huff_flush acc1 (nbits + unat (bits e)) dst out;
     huff_encode_loop src (acc1 AND (push_bit nbits' 1 - 1)) nbits' dst' out'
   }"

definition wireform_hpack_huffman_encode :: "bytes \<Rightarrow> bytes \<Rightarrow> (nat \<times> bytes) option" where
  "wireform_hpack_huffman_encode src dst = do {
     (acc, nbits, dst1, out) \<leftarrow> huff_encode_loop src 0 0 dst 0;
     if 0 < nbits
     then do {
       let acc1 = push_bit (8 - nbits) acc OR ucast (push_bit (8 - nbits) 1 - 1 :: u32);
       dst2 \<leftarrow> store dst1 out (ucast (acc1 AND 0xFF));
       Some (Suc out, dst2)
     }
     else Some (out, dst1)
   }"

definition wireform_hpack_huffman_encode_len :: "bytes \<Rightarrow> nat" where
  "wireform_hpack_huffman_encode_len src =
     (foldl (\<lambda>total c. total + unat (bits (huff_encode_table ! unat c))) 0 src + 7) div 8"

subsection \<open>The decoder\<close>

text \<open>The locals of the decoder and its output buffer.\<close>

record huff_dec =
  dstate :: u16
  dflags :: u8
  dbuf :: bytes
  dwritten :: nat

text \<open>
  One nibble: \<open>Inl\<close> is the early \<open>return -1\<close> (output full, or the failure state), \<open>Inr\<close> goes on.
\<close>

definition huff_check_fail :: "huff_dec \<Rightarrow> huff_dec + huff_dec" where
  "huff_check_fail d = (if dstate d = HUFF_FAIL_STATE then Inl d else Inr d)"

definition huff_nibble :: "nat \<Rightarrow> u8 \<Rightarrow> huff_dec \<Rightarrow> (huff_dec + huff_dec) option" where
  "huff_nibble cap nib d = do {
     row \<leftarrow> load huff_decode_table (unat (dstate d));
     e \<leftarrow> load row (unat nib);
     let d1 = d\<lparr>dstate := fstate e, dflags := flags e\<rparr>;
     if flags e AND HUFF_SYM \<noteq> 0
     then (if cap \<le> dwritten d then Some (Inl d1)
           else do {
             buf \<leftarrow> store (dbuf d) (dwritten d) (esym e);
             Some (huff_check_fail (d1\<lparr>dbuf := buf, dwritten := Suc (dwritten d)\<rparr>))
           })
     else Some (huff_check_fail d1)
   }"

fun huff_decode_loop :: "nat \<Rightarrow> bytes \<Rightarrow> huff_dec \<Rightarrow> (huff_dec + huff_dec) option" where
  "huff_decode_loop cap [] d = Some (Inr d)"
| "huff_decode_loop cap (b # src) d = do {
     r1 \<leftarrow> huff_nibble cap (drop_bit 4 b) d;
     (case r1 of
        Inl d' \<Rightarrow> Some (Inl d')
      | Inr d' \<Rightarrow> do {
          r2 \<leftarrow> huff_nibble cap (b AND 0x0F) d';
          (case r2 of Inl d'' \<Rightarrow> Some (Inl d'') | Inr d'' \<Rightarrow> huff_decode_loop cap src d'')
        })
   }"

text \<open>The result: the return code, the destination buffer and \<open>*out_len\<close>.\<close>

definition wireform_hpack_huffman_decode ::
  "bytes \<Rightarrow> bytes \<Rightarrow> nat \<Rightarrow> (int \<times> bytes \<times> nat) option" where
  "wireform_hpack_huffman_decode src dst dst_cap = do {
     r \<leftarrow> huff_decode_loop dst_cap src
            \<lparr>dstate = 0, dflags = HUFF_ACCEPTED, dbuf = dst, dwritten = 0\<rparr>;
     (case r of
        Inl d \<Rightarrow> Some (-1, dbuf d, dwritten d)
      | Inr d \<Rightarrow>
          if dflags d AND HUFF_ACCEPTED = 0 then Some (-1, dbuf d, dwritten d)
          else Some (0, dbuf d, dwritten d))
   }"

subsection \<open>The reference encoding\<close>

definition huff_bits :: "bytes \<Rightarrow> bool list" where
  "huff_bits src = concat (map (\<lambda>c. huff_cw (Some c)) src)"

text \<open>
  The message's code words, then one bits up to the next byte boundary: seven one bits are enough,
  and \<open>pack8\<close> keeps whole bytes only.
\<close>

definition huff_pack :: "bytes \<Rightarrow> bytes" where
  "huff_pack src = pack8 (huff_bits src @ replicate 7 True)"

lemma huff_bits_simps [simp]:
  "huff_bits [] = []"
  "huff_bits (c # cs) = huff_cw (Some c) @ huff_bits cs"
  by (simp_all add: huff_bits_def)

subsection \<open>The encoder writes the reference encoding\<close>

lemma huff_flush_spec:
  "nbits \<le> 64 \<Longrightarrow> huff_flush acc nbits dst out =
     map_option (\<lambda>dst'. (nbits mod 8, dst', out + nbits div 8))
       (store_block dst out (pack8 (msbs nbits acc)))"
proof (induction acc nbits dst out rule: huff_flush.induct)
  case (1 acc nbits dst out)
  show ?case
  proof (cases "8 \<le> nbits")
    case False
    then show ?thesis by (simp add: huff_flush.simps [of acc nbits] pack8.simps [of "msbs nbits acc"])
  next
    case True
    define n where "n = nbits - 8"
    have n: "nbits = 8 + n" using True by (simp add: n_def)
    have split: "msbs nbits acc = msbs 8 (drop_bit n acc) @ msbs n acc"
      unfolding n by (rule msbs_append)
    have byte: "byte_of_bits (msbs 8 (drop_bit n acc)) = (ucast (drop_bit n acc) :: u8)"
      by (rule msbs_byte_inj) (auto intro!: msbs_cong simp: byte_of_bits_msbs bit_ucast_iff)
    have "pack8 (msbs nbits acc) = ucast (drop_bit n acc) # pack8 (msbs n acc)"
      by (simp add: split pack8.simps [of "msbs 8 _ @ _"] byte)
    moreover have "nbits mod 8 = n mod 8" "nbits div 8 = Suc (n div 8)" using n by simp_all
    ultimately show ?thesis
      using "1.IH" [OF True] "1.prems" True
      by (simp add: huff_flush.simps [of acc nbits] store_block_Cons n_def [symmetric]
          map_option_bind comp_def split: Option.bind_splits)
  qed
qed

lemma code_entry:
  "unat (bits (huff_encode_table ! unat c)) \<le> 30"
  "length (huff_cw (Some c)) = unat (bits (huff_encode_table ! unat c))"
  "take_bit (unat (bits (huff_encode_table ! unat c))) (code (huff_encode_table ! unat c)) =
     code (huff_encode_table ! unat c)"
proof -
  obtain v k where vk: "huff_num (Some c) = (v, k)" by (metis surj_pair)
  then have e: "uint (code (huff_encode_table ! unat c)) = v"
    "unat (bits (huff_encode_table ! unat c)) = k"
    using code_num_byte [of c] by (simp_all add: huff_num_def)
  note r = huff_num_range [OF vk]
  show "unat (bits (huff_encode_table ! unat c)) \<le> 30"
    "length (huff_cw (Some c)) = unat (bits (huff_encode_table ! unat c))"
    using r huff_cw_msbs [OF vk] by (simp_all add: e)
  have "uint (take_bit k (code (huff_encode_table ! unat c))) = uint (code (huff_encode_table ! unat c))"
    using r by (simp add: unsigned_take_bit_eq e take_bit_int_eq_self)
  then show "take_bit (unat (bits (huff_encode_table ! unat c))) (code (huff_encode_table ! unat c)) =
     code (huff_encode_table ! unat c)"
    by (simp add: e word_uint_eq_iff)
qed

text \<open>Shifting a code word in appends it to the pending bits.\<close>

lemma msbs_push_or:
  fixes acc :: u64 and cd :: u32
  assumes "n + k \<le> 64" and "take_bit k cd = cd"
  shows "msbs (n + k) (push_bit k acc OR ucast cd) = msbs n acc @ msbs k cd"
proof (rule msbs_eqI [symmetric])
  fix i assume i: "i < n + k"
  have high: "\<not> bit cd j" if "k \<le> j" for j
    using assms(2) that by (metis bit_take_bit_iff linorder_not_less)
  show "(msbs n acc @ msbs k cd) ! i = bit (push_bit k acc OR ucast cd) (n + k - Suc i)"
  proof (cases "i < n")
    case True
    then obtain d where d: "n = Suc i + d" using less_natE by auto
    have "d + k < 64" using assms(1) d by simp
    then show ?thesis
      by (simp add: d nth_append msbs_nth bit_or_iff bit_push_bit_iff bit_ucast_iff high)
  next
    case False
    with i have "n + k - Suc i < k" "k - Suc (i - n) = n + k - Suc i" by simp_all
    with False i assms(1) show ?thesis
      by (simp add: nth_append msbs_nth bit_or_iff bit_push_bit_iff bit_ucast_iff)
  qed
qed simp

lemma huff_load_code: "load huff_encode_table (unat c) = Some (huff_encode_table ! unat (c :: u8))"
  by (rule load_in, unfold huff_encode_table_length) (rule less_trans [OF unat_u8_less], simp)

lemma huff_encode_loop_spec:
  assumes "nbits < 8"
  shows "\<exists>acc'. (\<forall>dst out. huff_encode_loop src acc nbits dst out =
      map_option (\<lambda>dst'. (acc', (nbits + length (huff_bits src)) mod 8, dst',
                          out + (nbits + length (huff_bits src)) div 8))
        (store_block dst out (pack8 (msbs nbits acc @ huff_bits src)))) \<and>
    msbs ((nbits + length (huff_bits src)) mod 8) acc' =
      drop (8 * ((nbits + length (huff_bits src)) div 8)) (msbs nbits acc @ huff_bits src)"
  using assms
proof (induction src arbitrary: acc nbits)
  case Nil
  then show ?case by (intro exI [of _ acc]) simp
next
  case (Cons c src)
  define e where "e = huff_encode_table ! unat c"
  define k where "k = unat (bits e)"
  define acc1 where "acc1 = push_bit k acc OR (ucast (code e) :: u64)"
  define q m where "q = (nbits + k) div 8" and "m = (nbits + k) mod 8"
  define acc2 where "acc2 = acc1 AND (push_bit m 1 - 1)"
  have k: "k \<le> 30" "length (huff_cw (Some c)) = k" "take_bit k (code e) = code e"
    using code_entry [of c] by (simp_all add: k_def e_def)
  have cw: "huff_cw (Some c) = msbs k (code e)"
    by (simp add: huff_cw_def sym_bits_def k_def e_def)
  have acc1: "msbs (nbits + k) acc1 = msbs nbits acc @ huff_cw (Some c)"
    unfolding acc1_def cw by (rule msbs_push_or) (use Cons.prems k in simp_all)
  have m: "m < 8" and qm: "nbits + k = 8 * q + m" by (simp_all add: q_def m_def)
  have acc2: "msbs m acc2 = drop (8 * q) (msbs nbits acc @ huff_cw (Some c))"
  proof -
    have "msbs m acc2 = msbs m acc1"
      using m by (intro msbs_cong)
        (simp add: acc2_def bit_and_iff bit_mask_iff push_bit_of_1 flip: mask_eq_exp_minus_1)
    also have "\<dots> = drop (8 * q) (msbs (8 * q + m) acc1)"
      by (simp add: msbs_append)
    finally show ?thesis by (simp add: acc1 flip: qm)
  qed
  define rest where "rest = huff_bits src"
  have sums: "(m + length rest) mod 8 = (nbits + k + length rest) mod 8"
    "q + (m + length rest) div 8 = (nbits + k + length rest) div 8"
    using mod_mult_self4 [of 8 q "m + length rest"] by (simp_all add: qm add.assoc)
  have split: "pack8 (msbs nbits acc @ huff_cw (Some c) @ rest) =
      pack8 (msbs nbits acc @ huff_cw (Some c)) @ pack8 (msbs m acc2 @ rest)"
    using pack8_append [of "msbs nbits acc @ huff_cw (Some c)" rest] k(2)
    by (simp add: acc2 q_def)
  obtain acc' where run: "\<And>dst out. huff_encode_loop src acc2 m dst out =
       map_option (\<lambda>dst'. (acc', (m + length rest) mod 8, dst', out + (m + length rest) div 8))
         (store_block dst out (pack8 (msbs m acc2 @ rest)))"
    and pend: "msbs ((m + length rest) mod 8) acc' =
       drop (8 * ((m + length rest) div 8)) (msbs m acc2 @ rest)"
    using Cons.IH [OF m, of acc2] unfolding rest_def by blast
  have "huff_encode_loop (c # src) acc nbits dst out =
      map_option (\<lambda>dst'. (acc', (nbits + k + length rest) mod 8, dst',
                          out + (nbits + k + length rest) div 8))
        (store_block dst out (pack8 (msbs nbits acc @ huff_cw (Some c) @ rest)))" for dst out
  proof -
    have "huff_encode_loop (c # src) acc nbits dst out =
        Option.bind (huff_flush acc1 (nbits + k) dst out)
          (\<lambda>(nb, dst', out'). huff_encode_loop src (acc1 AND (push_bit nb 1 - 1)) nb dst' out')"
      by (simp add: huff_load_code Let_def flip: e_def k_def acc1_def)
    also have "\<dots> = Option.bind (store_block dst out (pack8 (msbs nbits acc @ huff_cw (Some c))))
          (\<lambda>dst'. huff_encode_loop src acc2 m dst' (out + q))"
      using Cons.prems k(1)
      by (simp add: huff_flush_spec acc1 map_option_bind comp_def acc2_def flip: m_def q_def)
        (simp add: map_conv_bind_option)
    finally have "huff_encode_loop (c # src) acc nbits dst out =
        Option.bind (store_block dst out (pack8 (msbs nbits acc @ huff_cw (Some c))))
          (\<lambda>dst'. huff_encode_loop src acc2 m dst' (out + q))" .
    moreover have "length (pack8 (msbs nbits acc @ huff_cw (Some c))) = q"
      by (simp add: k(2) q_def)
    moreover have "out + q + (m + length rest) div 8 = out + (nbits + k + length rest) div 8"
      by (simp flip: sums)
    ultimately show ?thesis
      unfolding split store_block_append by (simp add: run sums(1) map_conv_bind_option)
  qed
  moreover have "msbs ((nbits + k + length rest) mod 8) acc' =
      drop (8 * ((nbits + k + length rest) div 8)) (msbs nbits acc @ huff_cw (Some c) @ rest)"
  proof -
    define X where "X = msbs nbits acc @ huff_cw (Some c)"
    have "drop (8 * q) X @ rest = drop (8 * q) (X @ rest)"
      using k(2) qm by (simp add: X_def)
    moreover have "8 * ((nbits + k + length rest) div 8) = 8 * ((m + length rest) div 8) + 8 * q"
      by (simp add: distrib_left flip: sums)
    ultimately show ?thesis
      using pend by (simp only: sums(1) acc2 drop_drop append_assoc X_def [symmetric])
        (simp add: X_def)
  qed
  ultimately show ?case
    using k(2) by (intro exI [of _ acc']) (simp add: rest_def add.assoc)
qed

lemma huff_pad_byte:
  assumes "0 < r" "r < 8"
  shows "msbs 8 (ucast ((push_bit (8 - r) acc OR ucast (2 ^ (8 - r) - 1 :: u32)) AND 0xFF :: u64) :: u8) =
    msbs r acc @ replicate (8 - r) True"
proof -
  define m :: u32 where "m = 2 ^ (8 - r) - 1"
  have m: "m = mask (8 - r)" by (simp add: m_def mask_eq_exp_minus_1)
  have "msbs 8 (ucast ((push_bit (8 - r) acc OR ucast m) AND 0xFF :: u64) :: u8) =
      msbs (r + (8 - r)) (push_bit (8 - r) acc OR ucast m)"
  proof -
    have FF: "(0xFF :: u64) = mask 8" by (simp add: mask_numeral)
    have "msbs 8 (ucast ((push_bit (8 - r) acc OR ucast m) AND 0xFF :: u64) :: u8) =
        msbs 8 (push_bit (8 - r) acc OR ucast m)"
      unfolding FF by (rule msbs_cong) (simp add: bit_ucast_iff bit_and_iff bit_mask_iff)
    then show ?thesis using assms by simp
  qed
  also have "\<dots> = msbs r acc @ msbs (8 - r) m"
    by (rule msbs_push_or) (use assms in \<open>auto simp: m bit_take_bit_iff bit_mask_iff intro: bit_eqI\<close>)
  also have "msbs (8 - r) m = replicate (8 - r) True"
    by (rule msbs_eqI [symmetric]) (use assms in \<open>auto simp: m bit_mask_iff\<close>)
  finally show ?thesis by (simp only: m_def)
qed

lemma huff_pack_split:
  fixes src :: bytes
  defines "B \<equiv> huff_bits src"
  shows "huff_pack src = pack8 B @
    (if length B mod 8 = 0 then []
     else [byte_of_bits (drop (8 * (length B div 8)) B @ replicate (8 - length B mod 8) True)])"
proof -
  define r where "r = length B mod 8"
  define P where "P = drop (8 * (length B div 8)) B"
  have P: "length P = r" "r < 8" by (simp_all add: P_def r_def minus_mult_div_eq_mod)
  have "pack8 (P @ replicate 7 True) =
      (if r = 0 then [] else [byte_of_bits (P @ replicate (8 - r) True)])"
  proof (cases "r = 0")
    case False
    then have "replicate 7 True = replicate (8 - r) True @ replicate (r - 1) True"
      using P by (simp flip: replicate_add)
    then show ?thesis
      using False P pack8_byte [of "P @ replicate (8 - r) True" "replicate (r - 1) True"] by simp
  qed (use P in simp)
  then show ?thesis
    using pack8_append [of B "replicate 7 True"]
    by (simp add: huff_pack_def r_def P_def flip: B_def)
qed

lemma huff_encode_spec:
  "wireform_hpack_huffman_encode src dst =
     map_option (\<lambda>dst'. (length (huff_pack src), dst')) (store_block dst 0 (huff_pack src))"
proof -
  define B where "B = huff_bits src"
  define r where "r = length B mod 8"
  obtain acc where run: "huff_encode_loop src 0 0 dst 0 =
      map_option (\<lambda>dst'. (acc, r, dst', length B div 8)) (store_block dst 0 (pack8 B))"
    and pend: "msbs r acc = drop (8 * (length B div 8)) B"
    using huff_encode_loop_spec [of 0 src 0] by (auto simp: B_def r_def)
  show ?thesis
  proof (cases "r = 0")
    case True
    then show ?thesis
      using huff_pack_split [of src]
      by (simp add: wireform_hpack_huffman_encode_def run map_conv_bind_option comp_def
          flip: B_def r_def)
  next
    case False
    define z :: u8 where "z = ucast ((push_bit (8 - r) acc OR ucast (2 ^ (8 - r) - 1 :: u32)) AND 0xFF :: u64)"
    have "msbs 8 z = msbs r acc @ replicate (8 - r) True"
      using huff_pad_byte [of r acc] False by (simp add: z_def r_def)
    then have z: "byte_of_bits (drop (8 * (length B div 8)) B @ replicate (8 - r) True) = z"
      unfolding pend [symmetric] by (intro msbs_byte_inj) (simp add: byte_of_bits_msbs r_def)
    have pack: "huff_pack src = pack8 B @ [z]"
      using huff_pack_split [of src] False z by (simp flip: B_def r_def)
    then show ?thesis
      using False
      by (simp add: wireform_hpack_huffman_encode_def run map_conv_bind_option store_as_block
          store_block_append Let_def comp_def flip: z_def)
  qed
qed

lemma huff_pack_length: "length (huff_pack src) = (length (huff_bits src) + 7) div 8"
  by (simp add: huff_pack_def)

lemma huff_bits_length:
  "length (huff_bits src) = (\<Sum>c\<leftarrow>src. unat (bits (huff_encode_table ! unat c)))"
  by (induction src) (simp_all add: code_entry(2))

lemma foldl_sum: "foldl (\<lambda>t c. t + f c) (a :: nat) xs = a + (\<Sum>c\<leftarrow>xs. f c)"
  by (induction xs arbitrary: a) simp_all

lemma huff_encode_len_spec: "wireform_hpack_huffman_encode_len src = length (huff_pack src)"
  by (simp add: wireform_hpack_huffman_encode_len_def huff_pack_length huff_bits_length foldl_sum)

lemma huff_bits_length_bounds:
  "5 * length src \<le> length (huff_bits src)" "length (huff_bits src) \<le> 30 * length src"
  using huff_cw_length by (induction src) (simp_all add: add_mono)

subsection \<open>The decoder recognises exactly the reference encodings\<close>

lemma huff_bits_cw: "huff_bits src = concat (map huff_cw (map Some src))"
  by (simp add: huff_bits_def comp_def)

lemma huff_bits_snoc: "huff_bits (out @ [c]) = huff_bits out @ huff_cw (Some c)"
  by (simp add: huff_bits_def)

text \<open>
  \<open>huff_live\<close>: after the bits \<open>B\<close> the decoder has written the bytes \<open>out\<close> and the rest of \<open>B\<close> is
  pending.  \<open>huff_stopped\<close>: it has given up on \<open>B\<close>, because EOS follows \<open>out\<close>, or because a
  further byte follows and \<open>out\<close> fills the capacity.
\<close>

definition huff_written :: "nat \<Rightarrow> bytes \<Rightarrow> huff_dec \<Rightarrow> bytes \<Rightarrow> bool" where
  "huff_written cap dst d out \<longleftrightarrow>
     dbuf d = out @ drop (length out) dst \<and> dwritten d = length out \<and> length out \<le> cap"

definition huff_live :: "nat \<Rightarrow> bytes \<Rightarrow> bool list \<Rightarrow> huff_dec \<Rightarrow> bool" where
  "huff_live cap dst B d \<longleftrightarrow>
     (\<exists>out. huff_written cap dst d out \<and> unat (dstate d) < 256 \<and>
        B = huff_bits out @ huff_pfx (dstate d) \<and>
        (dflags d AND HUFF_ACCEPTED \<noteq> 0 \<longleftrightarrow> (\<exists>k<8. huff_pfx (dstate d) = replicate k True)))"

definition huff_stopped :: "nat \<Rightarrow> bytes \<Rightarrow> bool list \<Rightarrow> huff_dec \<Rightarrow> bool" where
  "huff_stopped cap dst B d \<longleftrightarrow>
     (\<exists>out. huff_written cap dst d out \<and>
        ((\<exists>rest. B = huff_bits out @ huff_cw None @ rest) \<or>
         (\<exists>c rest. B = huff_bits (out @ [c]) @ rest \<and> length out = cap)))"

lemma huff_stopped_append: "huff_stopped cap dst B d \<Longrightarrow> huff_stopped cap dst (B @ x) d"
  unfolding huff_stopped_def by (metis append.assoc)

definition huff_outcome :: "nat \<Rightarrow> bytes \<Rightarrow> bool list \<Rightarrow> (huff_dec + huff_dec) option \<Rightarrow> bool" where
  "huff_outcome cap dst B r \<longleftrightarrow>
     (case r of None \<Rightarrow> False | Some (Inl d) \<Rightarrow> huff_stopped cap dst B d
      | Some (Inr d) \<Rightarrow> huff_live cap dst B d)"

lemma store_next:
  "length out < length dst \<Longrightarrow>
     store (out @ drop (length out) dst) (length out) x = Some ((out @ [x]) @ drop (Suc (length out)) dst)"
  by (simp add: store_def list_update_append Cons_nth_drop_Suc [symmetric])

lemma huff_nibble_outcome:
  assumes live: "huff_live cap dst B d" and v: "unat nib < 16" and cap: "cap \<le> length dst"
  shows "huff_outcome cap dst (B @ msbs 4 nib) (huff_nibble cap nib d)"
proof -
  obtain out where out: "huff_written cap dst d out" and s: "unat (dstate d) < 256"
    and B: "B = huff_bits out @ huff_pfx (dstate d)"
    using live by (auto simp: huff_live_def)
  define e where "e = huff_decode_table ! unat (dstate d) ! unat nib"
  have nib: "msbs 4 (int (unat nib)) = msbs 4 nib"
    by (simp flip: msbs_uint [of 4 nib])
  note E = huff_entry [OF s v, folded e_def, unfolded nib]
  have step: "huff_nibble cap nib d =
      (let d1 = d\<lparr>dstate := fstate e, dflags := flags e\<rparr> in
       if flags e AND HUFF_SYM \<noteq> 0
       then (if cap \<le> dwritten d then Some (Inl d1)
             else Option.bind (store (dbuf d) (dwritten d) (esym e)) (\<lambda>buf.
               Some (huff_check_fail (d1\<lparr>dbuf := buf, dwritten := Suc (dwritten d)\<rparr>))))
       else Some (huff_check_fail d1))"
    using s v by (simp add: huff_nibble_def load_in huff_decode_table_length
        huff_decode_table_row_length e_def Let_def)
  show ?thesis
  proof (cases "fstate e = HUFF_FAIL_STATE")
    case True
    with E(1) obtain rest where "flags e = 0" "huff_pfx (dstate d) @ msbs 4 nib = huff_cw None @ rest"
      by (auto simp: prefix_def)
    then show ?thesis
      using out True B by (force simp: step huff_outcome_def huff_check_fail_def huff_stopped_def
          huff_written_def Let_def)
  next
    case False
    note E' = E(2-4) [OF False]
    show ?thesis
    proof (cases "flags e AND HUFF_SYM = 0")
      case True
      with out False E' B show ?thesis
        by (auto simp: step huff_outcome_def huff_check_fail_def huff_live_def
            huff_written_def Let_def)
    next
      case sym: False
      then have bits: "B @ msbs 4 nib = huff_bits (out @ [esym e]) @ huff_pfx (fstate e)"
        using E'(3) B by (simp add: huff_bits_snoc)
      show ?thesis
      proof (cases "cap \<le> dwritten d")
        case True
        with out sym bits show ?thesis
          by (force simp: step huff_outcome_def huff_stopped_def huff_written_def Let_def)
      next
        case room: False
        then have "store (dbuf d) (dwritten d) (esym e) =
            Some ((out @ [esym e]) @ drop (Suc (length out)) dst)"
          using out cap by (simp add: huff_written_def store_next)
        then show ?thesis
          using sym room out False E'(1,2) bits
          by (auto simp: step huff_outcome_def huff_check_fail_def huff_live_def
              huff_written_def Let_def intro!: exI [of _ "out @ [esym e]"])
      qed
    qed
  qed
qed

lemma huff_decode_loop_outcome:
  "huff_live cap dst B d \<Longrightarrow> cap \<le> length dst \<Longrightarrow>
     huff_outcome cap dst (B @ bits_of_bytes src) (huff_decode_loop cap src d)"
proof (induction src arbitrary: B d)
  case Nil
  then show ?case by (simp add: huff_outcome_def)
next
  case (Cons b src)
  have lo_eq: "b AND 0x0F = take_bit 4 b"
    by (simp add: take_bit_eq_mask mask_numeral)
  have hi: "unat (drop_bit 4 b) < 16"
    using div_le_mono [of "unat b" 255 16] unat_u8_less [of b]
    by (simp add: drop_bit_eq_div unat_div less_Suc_eq_le [symmetric])
  have lo: "unat (b AND 0x0F) < 16"
    by (simp add: lo_eq take_bit_eq_mod unat_mod)
  have "msbs 8 b = msbs 4 (drop_bit 4 b) @ msbs 4 (b AND 0x0F)"
    using msbs_append [of 4 4 b] by (simp add: lo_eq msbs_take_bit)
  then have bits: "B @ bits_of_bytes (b # src) =
      ((B @ msbs 4 (drop_bit 4 b)) @ msbs 4 (b AND 0x0F)) @ bits_of_bytes src" by simp
  let ?n1 = "huff_nibble cap (drop_bit 4 b) d"
  from huff_nibble_outcome [OF Cons.prems(1) hi Cons.prems(2)] consider
      (stop) d1 where "?n1 = Some (Inl d1)" "huff_stopped cap dst (B @ msbs 4 (drop_bit 4 b)) d1"
    | (live) d1 where "?n1 = Some (Inr d1)" "huff_live cap dst (B @ msbs 4 (drop_bit 4 b)) d1"
    by (auto simp: huff_outcome_def split: option.splits sum.splits)
  then show ?case
  proof cases
    case stop
    with huff_stopped_append [OF stop(2), of "msbs 4 (b AND 0x0F) @ bits_of_bytes src"]
    show ?thesis unfolding bits by (simp add: huff_outcome_def)
  next
    case live
    let ?n2 = "huff_nibble cap (b AND 0x0F) d1"
    from huff_nibble_outcome [OF live(2) lo Cons.prems(2)] consider
        (stop2) d2 where "?n2 = Some (Inl d2)"
          "huff_stopped cap dst ((B @ msbs 4 (drop_bit 4 b)) @ msbs 4 (b AND 0x0F)) d2"
      | (live2) d2 where "?n2 = Some (Inr d2)"
          "huff_live cap dst ((B @ msbs 4 (drop_bit 4 b)) @ msbs 4 (b AND 0x0F)) d2"
      by (auto simp: huff_outcome_def split: option.splits sum.splits)
    then show ?thesis
    proof cases
      case stop2
      from huff_stopped_append [OF stop2(2), of "bits_of_bytes src"] stop2(1) live(1)
      show ?thesis unfolding bits by (simp add: huff_outcome_def)
    next
      case live2
      from Cons.IH [OF live2(2) Cons.prems(2)] live2(1) live(1)
      show ?thesis unfolding bits by simp
    qed
  qed
qed

text \<open>A reference encoding is the code words and a padding shorter than a byte.\<close>

lemma bits_of_huff_pack:
  obtains k where "k < 8" "bits_of_bytes (huff_pack src) = huff_bits src @ replicate k True"
proof -
  define L where "L = length (huff_bits src)"
  define k where "k = 8 * ((L + 7) div 8) - L"
  have k: "k < 8" "8 * ((L + 7) div 8) = L + k" unfolding k_def by presburger+
  have "bits_of_bytes (huff_pack src) = take (L + k) (huff_bits src @ replicate 7 True)"
    using k by (simp add: huff_pack_def bits_of_pack8 L_def)
  also have "\<dots> = huff_bits src @ replicate k True"
    using k(1) by (simp add: L_def min_def)
  finally show ?thesis using k(1) that by blast
qed

lemma huff_pack_unique:
  assumes "bits_of_bytes bs = huff_bits src @ replicate k True" and "k < 8"
  shows "huff_pack src = bs"
proof -
  have "huff_bits src @ replicate 7 True = bits_of_bytes bs @ replicate (7 - k) True"
    using assms by (simp flip: replicate_add)
  then show ?thesis
    using pack8_append [of "bits_of_bytes bs" "replicate (7 - k) True"] by (simp add: huff_pack_def)
qed

lemma huff_pack_inj: "huff_pack xs = huff_pack ys \<Longrightarrow> xs = ys"
proof -
  assume eq: "huff_pack xs = huff_pack ys"
  obtain j where j: "j < 8" "bits_of_bytes (huff_pack xs) = huff_bits xs @ replicate j True"
    using bits_of_huff_pack .
  obtain k where k: "k < 8" "bits_of_bytes (huff_pack ys) = huff_bits ys @ replicate k True"
    using bits_of_huff_pack .
  from j k eq have "map Some xs = map Some ys"
    using hpack.unique_decoding(1) [of "map Some xs" _ "map Some ys",
        OF _ ones_no_code [OF j(1)] ones_no_code [OF k(1)]] by (simp add: huff_bits_cw)
  then show "xs = ys" by (simp add: map_injective inj_def)
qed

lemma huff_stopped_no_pack:
  assumes "huff_stopped cap dst (bits_of_bytes src) d"
  shows "\<not> (\<exists>msg. length msg \<le> cap \<and> huff_pack msg = src)"
proof
  assume "\<exists>msg. length msg \<le> cap \<and> huff_pack msg = src"
  then obtain msg where msg: "length msg \<le> cap" "huff_pack msg = src" by blast
  obtain k where k: "k < 8" "bits_of_bytes src = huff_bits msg @ replicate k True"
    using bits_of_huff_pack [of msg] msg(2) by blast
  have pre: "prefix xs (map Some msg)" if "bits_of_bytes src = concat (map huff_cw xs) @ r" for xs r
    using hpack.decoded_prefix [OF _ ones_no_code [OF k(1)]] that k(2) by (simp add: huff_bits_cw)
  from assms obtain out where "(\<exists>r. bits_of_bytes src = huff_bits out @ huff_cw None @ r) \<or>
      (\<exists>c r. bits_of_bytes src = huff_bits (out @ [c]) @ r \<and> length out = cap)"
    by (auto simp: huff_stopped_def)
  then show False
  proof
    assume "\<exists>r. bits_of_bytes src = huff_bits out @ huff_cw None @ r"
    then obtain r where "bits_of_bytes src = concat (map huff_cw (map Some out @ [None])) @ r"
      by (auto simp: huff_bits_cw)
    from set_mono_prefix [OF pre [OF this]] have "None \<in> set (map Some msg)" by simp
    then show False by auto
  next
    assume "\<exists>c r. bits_of_bytes src = huff_bits (out @ [c]) @ r \<and> length out = cap"
    then obtain c r where r: "bits_of_bytes src = concat (map huff_cw (map Some (out @ [c]))) @ r"
      and "length out = cap" by (auto simp: huff_bits_cw)
    with prefix_length_le [OF pre [OF r]] msg(1) show False by simp
  qed
qed

lemma huff_live_start:
  "huff_live cap dst [] \<lparr>dstate = 0, dflags = HUFF_ACCEPTED, dbuf = dst, dwritten = 0\<rparr>"
  by (auto simp: huff_live_def huff_written_def huff_pfx_0 HUFF_ACCEPTED_def intro!: exI [of _ "[]"])

text \<open>The decoder's result in full.\<close>

lemma huff_decode_spec:
  assumes "dst_cap \<le> length dst"
  obtains rc out where
    "wireform_hpack_huffman_decode src dst dst_cap = Some (rc, out @ drop (length out) dst, length out)"
    "length out \<le> dst_cap"
    "rc = 0 \<and> huff_pack out = src \<or>
     rc = -1 \<and> \<not> (\<exists>msg. length msg \<le> dst_cap \<and> huff_pack msg = src)"
proof -
  define r where "r = huff_decode_loop dst_cap src
      \<lparr>dstate = 0, dflags = HUFF_ACCEPTED, dbuf = dst, dwritten = 0\<rparr>"
  have "huff_outcome dst_cap dst (bits_of_bytes src) r"
    using huff_decode_loop_outcome [OF huff_live_start assms] by (simp add: r_def)
  then consider
      (stop) d where "r = Some (Inl d)" "huff_stopped dst_cap dst (bits_of_bytes src) d"
    | (live) d where "r = Some (Inr d)" "huff_live dst_cap dst (bits_of_bytes src) d"
    by (auto simp: huff_outcome_def split: option.splits sum.splits)
  then show ?thesis
  proof cases
    case stop
    from stop(2) obtain out where "huff_written dst_cap dst d out" by (auto simp: huff_stopped_def)
    with stop(1) huff_stopped_no_pack [OF stop(2)] show ?thesis
      by (intro that [of "-1" out])
        (simp_all add: wireform_hpack_huffman_decode_def huff_written_def flip: r_def)
  next
    case live
    from live(2) obtain out where out: "huff_written dst_cap dst d out" "unat (dstate d) < 256"
      and B: "bits_of_bytes src = huff_bits out @ huff_pfx (dstate d)"
      and acc: "dflags d AND HUFF_ACCEPTED \<noteq> 0 \<longleftrightarrow> (\<exists>k<8. huff_pfx (dstate d) = replicate k True)"
      by (auto simp: huff_live_def)
    show ?thesis
    proof (cases "dflags d AND HUFF_ACCEPTED = 0")
      case False
      with acc B have "huff_pack out = src" by (auto intro: huff_pack_unique)
      with False out live(1) show ?thesis
        by (intro that [of 0 out])
          (simp_all add: wireform_hpack_huffman_decode_def huff_written_def flip: r_def)
    next
      case True
      have "huff_pack msg \<noteq> src" for msg
      proof
        assume "huff_pack msg = src"
        then obtain k where k: "k < 8" "bits_of_bytes src = huff_bits msg @ replicate k True"
          using bits_of_huff_pack [of msg] by blast
        with B have "huff_pfx (dstate d) = replicate k True"
          using hpack.unique_decoding(2) [of "map Some out" _ "map Some msg",
              OF _ huff_pfx_no_code [OF out(2)] ones_no_code [OF k(1)]]
          by (simp add: huff_bits_cw)
        with acc True k(1) show False by blast
      qed
      with True out live(1) show ?thesis
        by (intro that [of "-1" out])
          (simp_all add: wireform_hpack_huffman_decode_def huff_written_def flip: r_def)
    qed
  qed
qed

subsection \<open>Properties\<close>

text \<open>
  C3: the encoder writes exactly the RFC 7541 encoding of its input (the code words in sequence,
  padded with one bits) at the start of the destination, returns its length, and accesses memory
  out of bounds exactly when the destination cannot hold it.
\<close>

theorem hpack_encode_exact:
  "wireform_hpack_huffman_encode src dst =
     (if length (huff_pack src) \<le> length dst
      then Some (length (huff_pack src), huff_pack src @ drop (length (huff_pack src)) dst)
      else None)"
  by (auto simp: huff_encode_spec store_block_def)

text \<open>
  \<open>wireform_hpack_huffman_encode_len\<close> is the exact size: a destination of that size is
  enough for the encoder, which then returns that size, and \<open>4 * len + 1\<close> bytes always suffice.
\<close>

theorem hpack_encode_len_exact:
  assumes "wireform_hpack_huffman_encode_len src \<le> length dst"
  shows "(\<exists>dst'. wireform_hpack_huffman_encode src dst =
            Some (wireform_hpack_huffman_encode_len src, dst') \<and> length dst' = length dst) \<and>
    wireform_hpack_huffman_encode_len src \<le> 4 * length src + 1"
  using assms huff_bits_length_bounds(2) [of src]
  by (simp add: huff_encode_spec huff_encode_len_spec store_block_at_0 store_block_in)
    (simp add: huff_pack_length)

theorem hpack_encode_len_exact_witness:
  "(\<exists>dst'. wireform_hpack_huffman_encode [48, 61] [0, 0] =
       Some (wireform_hpack_huffman_encode_len [48, 61], dst') \<and> length dst' = length [0 :: u8, 0]) \<and>
     wireform_hpack_huffman_encode_len [48, 61] \<le> 4 * length [48 :: u8, 61] + 1"
proof (rule hpack_encode_len_exact)
  show "wireform_hpack_huffman_encode_len [48, 61] \<le> length [0 :: u8, 0]"
    using code_num_byte [of 48] code_num_byte [of 61]
    by (simp add: wireform_hpack_huffman_encode_len_def huff_code_num_simps)
qed

text \<open>
  C1: decoding what the encoder wrote gives the message back: return code 0, the message at the
  start of the output buffer, the rest of the buffer untouched, and its length in \<open>*out_len\<close>, for
  every capacity from the message's length up to the size of the buffer.
\<close>

theorem hpack_roundtrip:
  assumes "wireform_hpack_huffman_encode msg dst = Some (n, dst')"
    and "length msg \<le> dst_cap" and "dst_cap \<le> length out"
  shows "wireform_hpack_huffman_decode (take n dst') out dst_cap =
     Some (0, msg @ drop (length msg) out, length msg)"
proof -
  have src: "take n dst' = huff_pack msg"
    using assms(1) by (auto simp: huff_encode_spec store_block_at_0)
  obtain rc m where r: "wireform_hpack_huffman_decode (huff_pack msg) out dst_cap =
      Some (rc, m @ drop (length m) out, length m)"
    and m: "rc = 0 \<and> huff_pack m = huff_pack msg \<or>
      rc = -1 \<and> \<not> (\<exists>m. length m \<le> dst_cap \<and> huff_pack m = huff_pack msg)"
    using huff_decode_spec [OF assms(3)] by metis
  with assms(2) have "rc = 0" "m = msg" by (auto dest: huff_pack_inj)
  with r src show ?thesis by simp
qed

lemma huff_entry_48: "huff_encode_table ! 48 = HS 0x0 5"
  by (simp add: huff_encode_table_def)

lemma huff_encode_48: "wireform_hpack_huffman_encode [48] [0] = Some (1, [7])"
  by (simp add: wireform_hpack_huffman_encode_def load_in huff_encode_table_length huff_entry_48
      huff_flush.simps store_def)

theorem hpack_roundtrip_witness:
  "wireform_hpack_huffman_decode (take 1 [7]) [0, 0] 1 = Some (0, [48, 0], 1)"
  using hpack_roundtrip [OF huff_encode_48, of 1 "[0, 0]"] by simp

text \<open>
  C2: the decoder accepts exactly the encodings of messages that fit: it returns 0 if and only if
  the input is the reference encoding of some message of at most \<open>dst_cap\<close> bytes; then the message
  is what it wrote.  In particular an EOS in the string, a padding of more than seven bits or not
  all ones, and an output that would exceed the capacity all give -1.
\<close>

theorem hpack_decode_exact:
  assumes "dst_cap \<le> length dst"
  shows "wireform_hpack_huffman_decode src dst dst_cap = Some (0, dst', n) \<longleftrightarrow>
    n \<le> dst_cap \<and> dst' = take n dst' @ drop n dst \<and> length dst' = length dst \<and>
    huff_pack (take n dst') = src"
proof -
  obtain rc m where r: "wireform_hpack_huffman_decode src dst dst_cap =
      Some (rc, m @ drop (length m) dst, length m)" "length m \<le> dst_cap"
    and m: "rc = 0 \<and> huff_pack m = src \<or>
      rc = -1 \<and> \<not> (\<exists>m. length m \<le> dst_cap \<and> huff_pack m = src)"
    using huff_decode_spec [OF assms] by metis
  show ?thesis
  proof
    assume "wireform_hpack_huffman_decode src dst dst_cap = Some (0, dst', n)"
    with r m assms show "n \<le> dst_cap \<and> dst' = take n dst' @ drop n dst \<and>
        length dst' = length dst \<and> huff_pack (take n dst') = src" by auto
  next
    assume a: "n \<le> dst_cap \<and> dst' = take n dst' @ drop n dst \<and> length dst' = length dst \<and>
      huff_pack (take n dst') = src"
    then have n: "length (take n dst') = n" using assms by simp
    with a have "\<exists>m. length m \<le> dst_cap \<and> huff_pack m = src"
      by (intro exI [of _ "take n dst'"]) simp
    with m a have "rc = 0" "huff_pack m = huff_pack (take n dst')" by auto
    then have "m = take n dst'" by (simp add: huff_pack_inj)
    with r a n \<open>rc = 0\<close> show "wireform_hpack_huffman_decode src dst dst_cap = Some (0, dst', n)"
      by metis
  qed
qed

theorem hpack_decode_exact_witness:
  "(1 :: nat) \<le> length [0 :: u8, 0] \<and> wireform_hpack_huffman_decode [7] [0, 0] 1 = Some (0, [48, 0], 1)"
proof -
  have "huff_pack [48] = [7]"
    using huff_encode_48 by (auto simp: huff_encode_spec store_block_at_0)
  then show ?thesis using hpack_decode_exact [of 1 "[0, 0]" "[7]" "[48, 0]" 1] by simp
qed

text \<open>
  C4: memory safety of the decoder: for any input, with \<open>dst_cap\<close> bytes of output, it never
  accesses memory out of bounds (neither the tables nor the buffers), returns 0 or -1, never writes
  at or past \<open>dst_cap\<close>, and reports at most \<open>dst_cap\<close> written bytes; the output never exceeds
  \<open>floor(8 * src_len / 5)\<close> bytes when it succeeds.
\<close>

theorem hpack_decode_safe:
  assumes "dst_cap \<le> length dst"
  shows "\<exists>rc dst' n. wireform_hpack_huffman_decode src dst dst_cap = Some (rc, dst', n) \<and>
    (rc = 0 \<or> rc = -1) \<and> n \<le> dst_cap \<and> length dst' = length dst \<and>
    drop dst_cap dst' = drop dst_cap dst \<and> (rc = 0 \<longrightarrow> n \<le> 8 * length src div 5)"
proof -
  obtain rc m where r: "wireform_hpack_huffman_decode src dst dst_cap =
      Some (rc, m @ drop (length m) dst, length m)" "length m \<le> dst_cap"
    and m: "rc = 0 \<and> huff_pack m = src \<or>
      rc = -1 \<and> \<not> (\<exists>m. length m \<le> dst_cap \<and> huff_pack m = src)"
    using huff_decode_spec [OF assms] by metis
  have "length m \<le> 8 * length src div 5" if "rc = 0"
  proof -
    from m that have "8 * length src = 8 * ((length (huff_bits m) + 7) div 8)"
      using huff_pack_length [of m] by auto
    then have "length (huff_bits m) \<le> 8 * length src" by linarith
    with huff_bits_length_bounds(1) [of m] show ?thesis by linarith
  qed
  with r m assms show ?thesis by (intro exI [of _ rc] exI [of _ "m @ drop (length m) dst"]) auto
qed

theorem hpack_decode_safe_witness:
  "\<exists>rc dst' n. wireform_hpack_huffman_decode [255, 255] [0] 1 = Some (rc, dst', n) \<and>
    (rc = 0 \<or> rc = -1) \<and> n \<le> 1 \<and> length dst' = length [0 :: u8] \<and>
    drop 1 dst' = drop 1 [0] \<and> (rc = 0 \<longrightarrow> n \<le> 8 * length [255 :: u8, 255] div 5)"
  by (rule hpack_decode_safe) simp

end
