(* ===== verification/Simd.thy ===== *)
theory Simd
  imports Prelude
begin

text \<open>
  The 128-bit vector operations the kernels call, from simde's portable branches
  (\<open>wireform-core/include/simde/simde/x86/sse2.h\<close>), the compiler's bit-scan builtins, and the scan
  loop the byte scanners share.  A vector is the list of its 16 byte lanes, lane 0 at the lowest
  address.
\<close>

type_synonym m128i = "u8 list"

named_theorems simd_simps \<open>lanes of vector operations\<close>

subsection \<open>Vector operations\<close>

definition simde_mm_set1_epi8 :: "u8 \<Rightarrow> m128i" where
  "simde_mm_set1_epi8 a = replicate 16 a"

definition simde_mm_setzero_si128 :: m128i where
  "simde_mm_setzero_si128 = replicate 16 0"

definition simde_mm_loadu_si128 :: "bytes \<Rightarrow> nat \<Rightarrow> m128i option" where
  "simde_mm_loadu_si128 buf i = load_block buf i 16"

text \<open>The aligned load faults at an address that is not a multiple of 16.\<close>

definition simde_mm_load_si128 :: "nat \<Rightarrow> bytes \<Rightarrow> nat \<Rightarrow> m128i option" where
  "simde_mm_load_si128 base buf i = (if (base + i) mod 16 = 0 then load_block buf i 16 else None)"

definition simde_mm_storeu_si128 :: "bytes \<Rightarrow> nat \<Rightarrow> m128i \<Rightarrow> bytes option" where
  "simde_mm_storeu_si128 buf i v = store_block buf i v"

definition simde_mm_store_si128 :: "nat \<Rightarrow> bytes \<Rightarrow> nat \<Rightarrow> m128i \<Rightarrow> bytes option" where
  "simde_mm_store_si128 base buf i v = (if (base + i) mod 16 = 0 then store_block buf i v else None)"

definition simde_mm_and_si128 :: "m128i \<Rightarrow> m128i \<Rightarrow> m128i" where
  "simde_mm_and_si128 = map2 (AND)"

definition simde_mm_or_si128 :: "m128i \<Rightarrow> m128i \<Rightarrow> m128i" where
  "simde_mm_or_si128 = map2 (OR)"

definition simde_mm_xor_si128 :: "m128i \<Rightarrow> m128i \<Rightarrow> m128i" where
  "simde_mm_xor_si128 = map2 (XOR)"

definition simde_mm_cmpeq_epi8 :: "m128i \<Rightarrow> m128i \<Rightarrow> m128i" where
  "simde_mm_cmpeq_epi8 = map2 (\<lambda>a b. if a = b then 0xFF else 0)"

text \<open>The ordered comparisons read the lanes as signed bytes.\<close>

definition simde_mm_cmplt_epi8 :: "m128i \<Rightarrow> m128i \<Rightarrow> m128i" where
  "simde_mm_cmplt_epi8 = map2 (\<lambda>a b. if sint a < sint b then 0xFF else 0)"

definition simde_mm_cmpgt_epi8 :: "m128i \<Rightarrow> m128i \<Rightarrow> m128i" where
  "simde_mm_cmpgt_epi8 = map2 (\<lambda>a b. if sint b < sint a then 0xFF else 0)"

definition simde_mm_movemask_epi8 :: "m128i \<Rightarrow> u32" where
  "simde_mm_movemask_epi8 v = horner_sum of_bool 2 (map (\<lambda>b. bit b 7) v)"

definition builtin_ctz :: "'a::len word \<Rightarrow> nat" where
  "builtin_ctz w = length (takeWhile (\<lambda>i. \<not> bit w i) [0..<LENGTH('a)])"

definition builtin_popcount :: "'a::len word \<Rightarrow> nat" where
  "builtin_popcount w = length (filter (bit w) [0..<LENGTH('a)])"

lemma simd_length [simd_simps]:
  "length (simde_mm_set1_epi8 a) = 16"
  "length simde_mm_setzero_si128 = 16"
  "length u = 16 \<Longrightarrow> length v = 16 \<Longrightarrow> length (simde_mm_and_si128 u v) = 16"
  "length u = 16 \<Longrightarrow> length v = 16 \<Longrightarrow> length (simde_mm_or_si128 u v) = 16"
  "length u = 16 \<Longrightarrow> length v = 16 \<Longrightarrow> length (simde_mm_xor_si128 u v) = 16"
  "length u = 16 \<Longrightarrow> length v = 16 \<Longrightarrow> length (simde_mm_cmpeq_epi8 u v) = 16"
  "length u = 16 \<Longrightarrow> length v = 16 \<Longrightarrow> length (simde_mm_cmplt_epi8 u v) = 16"
  "length u = 16 \<Longrightarrow> length v = 16 \<Longrightarrow> length (simde_mm_cmpgt_epi8 u v) = 16"
  by (simp_all add: simde_mm_set1_epi8_def simde_mm_setzero_si128_def simde_mm_and_si128_def
      simde_mm_or_si128_def simde_mm_xor_si128_def simde_mm_cmpeq_epi8_def
      simde_mm_cmplt_epi8_def simde_mm_cmpgt_epi8_def)

lemma simd_nth [simd_simps]:
  "i < 16 \<Longrightarrow> simde_mm_set1_epi8 a ! i = a"
  "i < 16 \<Longrightarrow> simde_mm_setzero_si128 ! i = 0"
  "i < 16 \<Longrightarrow> length u = 16 \<Longrightarrow> length v = 16 \<Longrightarrow> simde_mm_and_si128 u v ! i = u ! i AND v ! i"
  "i < 16 \<Longrightarrow> length u = 16 \<Longrightarrow> length v = 16 \<Longrightarrow> simde_mm_or_si128 u v ! i = u ! i OR v ! i"
  "i < 16 \<Longrightarrow> length u = 16 \<Longrightarrow> length v = 16 \<Longrightarrow> simde_mm_xor_si128 u v ! i = u ! i XOR v ! i"
  "i < 16 \<Longrightarrow> length u = 16 \<Longrightarrow> length v = 16 \<Longrightarrow>
     simde_mm_cmpeq_epi8 u v ! i = (if u ! i = v ! i then 0xFF else 0)"
  "i < 16 \<Longrightarrow> length u = 16 \<Longrightarrow> length v = 16 \<Longrightarrow>
     simde_mm_cmplt_epi8 u v ! i = (if sint (u ! i) < sint (v ! i) then 0xFF else 0)"
  "i < 16 \<Longrightarrow> length u = 16 \<Longrightarrow> length v = 16 \<Longrightarrow>
     simde_mm_cmpgt_epi8 u v ! i = (if sint (v ! i) < sint (u ! i) then 0xFF else 0)"
  by (simp_all add: simde_mm_set1_epi8_def simde_mm_setzero_si128_def simde_mm_and_si128_def
      simde_mm_or_si128_def simde_mm_xor_si128_def simde_mm_cmpeq_epi8_def
      simde_mm_cmplt_epi8_def simde_mm_cmpgt_epi8_def)

lemma movemask_bit [simd_simps]:
  "length v = 16 \<Longrightarrow> bit (simde_mm_movemask_epi8 v) i \<longleftrightarrow> i < 16 \<and> bit (v ! i) 7"
  by (auto simp: simde_mm_movemask_epi8_def bit_horner_sum_bit_iff)

lemma builtin_ctz_le: "builtin_ctz (w :: 'a::len word) \<le> LENGTH('a)"
  unfolding builtin_ctz_def by (metis length_takeWhile_le length_upt minus_nat.diff_0)

lemma builtin_ctz_first:
  assumes "bit w k" and "\<And>i. i < k \<Longrightarrow> \<not> bit w i"
  shows "builtin_ctz (w :: 'a::len word) = k"
proof -
  have "k < LENGTH('a)" using assms(1) by (simp add: bit_imp_le_length)
  then obtain d where d: "LENGTH('a) = k + Suc d" by (auto dest: less_imp_Suc_add)
  have "[0..<LENGTH('a)] = [0..<k] @ k # [Suc k..<LENGTH('a)]"
    unfolding d upt_add_eq_append [OF le0] by (simp add: upt_conv_Cons)
  moreover have "takeWhile (\<lambda>i. \<not> bit w i) ([0..<k] @ k # [Suc k..<LENGTH('a)]) =
      [0..<k] @ takeWhile (\<lambda>i. \<not> bit w i) (k # [Suc k..<LENGTH('a)])"
    by (rule takeWhile_append2) (use assms in simp)
  ultimately show ?thesis
    using assms(1) by (simp add: builtin_ctz_def del: upt_conv_Nil upt_Suc)
qed

lemma builtin_ctz_bit:
  assumes "w \<noteq> 0"
  shows "bit w (builtin_ctz (w :: 'a::len word))"
    and "i < builtin_ctz w \<Longrightarrow> \<not> bit w i"
proof -
  obtain j where j: "bit w j" using assms by (auto simp: bit_eq_iff)
  define k where "k = (LEAST j. bit w j)"
  have "bit w k" unfolding k_def using j by (rule LeastI)
  moreover have "\<not> bit w i" if "i < k" for i
    using that unfolding k_def by (rule not_less_Least)
  ultimately have k: "bit w k" "\<And>i. i < k \<Longrightarrow> \<not> bit w i" .
  then have "builtin_ctz w = k" by (rule builtin_ctz_first)
  then show "bit w (builtin_ctz w)" and "i < builtin_ctz w \<Longrightarrow> \<not> bit w i"
    using k by blast+
qed

lemma builtin_popcount_card: "builtin_popcount (w :: 'a::len word) = card {i. bit w i}"
proof -
  have "{i. bit w i} = set (filter (bit w) [0..<LENGTH('a)])"
    by (auto dest: bit_imp_le_length)
  then show ?thesis by (simp add: builtin_popcount_def distinct_card del: set_filter)
qed

subsection \<open>The scan loops\<close>

text \<open>
  \<open>for (; len - i >= 16; i += 16) { mask = f(load(buf + i)); if (mask != 0) return i + ctz(mask); }\<close>
  with the vector load as a parameter.  \<open>Inl\<close> is the position returned, \<open>Inr\<close> the index at which
  the loop ends.
\<close>

function scan_blocks ::
  "(nat \<Rightarrow> m128i option) \<Rightarrow> (m128i \<Rightarrow> u32) \<Rightarrow> nat \<Rightarrow> nat \<Rightarrow> (nat + nat) option" where
  "scan_blocks ld f i len =
     (if 16 \<le> len - i
      then do {
        chunk \<leftarrow> ld i;
        if f chunk \<noteq> 0 then Some (Inl (i + builtin_ctz (f chunk)))
        else scan_blocks ld f (i + 16) len
      }
      else Some (Inr i))"
  by pat_completeness auto
termination
  by (relation "measure (\<lambda>(ld, f, i, len). len - i)") auto

text \<open>\<open>for (; i < len; i++) if (p(buf[i])) return i;\<close>\<close>

function scan_bytes :: "(u8 \<Rightarrow> bool) \<Rightarrow> bytes \<Rightarrow> nat \<Rightarrow> nat \<Rightarrow> nat option option" where
  "scan_bytes p buf i len =
     (if i < len
      then do {
        b \<leftarrow> load buf i;
        if p b then Some (Some i) else scan_bytes p buf (Suc i) len
      }
      else Some None)"
  by pat_completeness auto
termination
  by (relation "measure (\<lambda>(p, buf, i, len). len - i)") auto

declare scan_blocks.simps [simp del] scan_bytes.simps [simp del]

text \<open>Both loops one after the other, as the scanners have them.\<close>

definition scan16 ::
  "(nat \<Rightarrow> m128i option) \<Rightarrow> (m128i \<Rightarrow> u32) \<Rightarrow> (u8 \<Rightarrow> bool) \<Rightarrow> bytes \<Rightarrow> nat \<Rightarrow> nat \<Rightarrow> nat option option" where
  "scan16 ld f p buf i len = do {
     r \<leftarrow> scan_blocks ld f i len;
     (case r of Inl k \<Rightarrow> Some (Some k) | Inr i' \<Rightarrow> scan_bytes p buf i' len)
   }"

text \<open>The specification: the first position in \<open>[i, len)\<close> whose byte satisfies \<open>p\<close>.\<close>

definition first_pos :: "(u8 \<Rightarrow> bool) \<Rightarrow> bytes \<Rightarrow> nat \<Rightarrow> nat \<Rightarrow> nat option" where
  "first_pos p buf i len = find (\<lambda>k. p (buf ! k)) [i..<len]"

lemma first_pos_done [simp]: "len \<le> i \<Longrightarrow> first_pos p buf i len = None"
  by (simp add: first_pos_def)

lemma first_pos_step:
  "i < len \<Longrightarrow> first_pos p buf i len = (if p (buf ! i) then Some i else first_pos p buf (Suc i) len)"
  by (simp add: first_pos_def upt_conv_Cons)

lemma first_pos_skip:
  "(\<And>k. i \<le> k \<Longrightarrow> k < j \<Longrightarrow> \<not> p (buf ! k)) \<Longrightarrow> i \<le> j \<Longrightarrow> j \<le> len \<Longrightarrow>
     first_pos p buf i len = first_pos p buf j len"
proof (induction "j - i" arbitrary: i)
  case (Suc d)
  then have "i < len" "\<not> p (buf ! i)" by simp_all
  with Suc show ?case by (simp add: first_pos_step [of i])
qed simp

lemma first_pos_hit:
  "(\<And>k. i \<le> k \<Longrightarrow> k < j \<Longrightarrow> \<not> p (buf ! k)) \<Longrightarrow> i \<le> j \<Longrightarrow> j < len \<Longrightarrow> p (buf ! j) \<Longrightarrow>
     first_pos p buf i len = Some j"
  using first_pos_skip [of i j p buf len] by (simp add: first_pos_step)

lemma first_pos_Some_iff:
  "first_pos p buf i len = Some j \<longleftrightarrow>
     i \<le> j \<and> j < len \<and> p (buf ! j) \<and> (\<forall>k. i \<le> k \<and> k < j \<longrightarrow> \<not> p (buf ! k))"
proof
  assume "first_pos p buf i len = Some j"
  then obtain n where "n < len - i" "p (buf ! (i + n))" "j = i + n"
    "\<forall>m<n. \<not> p (buf ! (i + m))"
    by (auto simp: first_pos_def find_Some_iff)
  then show "i \<le> j \<and> j < len \<and> p (buf ! j) \<and> (\<forall>k. i \<le> k \<and> k < j \<longrightarrow> \<not> p (buf ! k))"
    by (auto dest: le_Suc_ex)
qed (auto intro: first_pos_hit)

lemma first_pos_None_iff:
  "first_pos p buf i len = None \<longleftrightarrow> (\<forall>k. i \<le> k \<and> k < len \<longrightarrow> \<not> p (buf ! k))"
  by (auto simp: first_pos_def find_None_iff)

text \<open>The position as the length of a prefix, for scanners that return the length on a miss.\<close>

lemma first_pos_takeWhile:
  assumes "len \<le> length buf"
  shows "(case first_pos p buf 0 len of Some k \<Rightarrow> k | None \<Rightarrow> len) =
    length (takeWhile (\<lambda>b. \<not> p b) (take len buf))"
proof (cases "first_pos p buf 0 len")
  case None
  then have "\<forall>b \<in> set (take len buf). \<not> p b"
    using assms by (auto simp: first_pos_None_iff in_set_conv_nth)
  then have all: "takeWhile (\<lambda>b. \<not> p b) (take len buf) = take len buf" by simp
  have "length (takeWhile (\<lambda>b. \<not> p b) (take len buf)) = len"
    unfolding all using assms by simp
  with None show ?thesis by simp
next
  case (Some k)
  then have k: "k < len" "p (buf ! k)" "\<forall>j<k. \<not> p (buf ! j)" by (auto simp: first_pos_Some_iff)
  have "takeWhile (\<lambda>b. \<not> p b) (take len buf) = take k (take len buf)"
    using k assms by (intro takeWhile_eq_take_P_nth) auto
  then show ?thesis using Some k assms by simp
qed

lemma scan_bytes_spec:
  "len \<le> length buf \<Longrightarrow> scan_bytes p buf i len = Some (first_pos p buf i len)"
proof (induction p buf i len rule: scan_bytes.induct)
  case (1 p buf i len)
  then show ?case
    by (cases "i < len") (simp_all add: scan_bytes.simps [of p buf i len] load_in first_pos_step)
qed

text \<open>
  The interface of a vector scan: a mask function that marks exactly the lanes whose byte the
  scalar test accepts.
\<close>

locale lane_test =
  fixes f :: "m128i \<Rightarrow> u32" and p :: "u8 \<Rightarrow> bool"
  assumes lane: "length v = 16 \<Longrightarrow> bit (f v) i \<longleftrightarrow> i < 16 \<and> p (v ! i)"
begin

lemma mask_zero: "length v = 16 \<Longrightarrow> f v = 0 \<longleftrightarrow> (\<forall>i<16. \<not> p (v ! i))"
  by (auto simp: bit_eq_iff lane)

lemma mask_first:
  assumes "length v = 16" and "f v \<noteq> 0"
  shows "builtin_ctz (f v) < 16" and "p (v ! builtin_ctz (f v))"
    and "i < builtin_ctz (f v) \<Longrightarrow> \<not> p (v ! i)"
  using builtin_ctz_bit [OF assms(2)] assms(1) by (simp_all add: lane)

lemma scan_blocks_spec:
  assumes ld: "\<And>k. i \<le> k \<Longrightarrow> k + 16 \<le> len \<Longrightarrow> k mod 16 = i mod 16 \<Longrightarrow> ld k = Some (take 16 (drop k buf))"
    and "len \<le> length buf"
  shows "(case scan_blocks ld f i len of
      None \<Rightarrow> False
    | Some (Inl k) \<Rightarrow> first_pos p buf i len = Some k
    | Some (Inr j) \<Rightarrow> i \<le> j \<and> (i \<le> len \<longrightarrow> j \<le> len) \<and> first_pos p buf i len = first_pos p buf j len)"
  using ld
proof (induction "len - i" arbitrary: i rule: less_induct)
  case less
  show ?case
  proof (cases "16 \<le> len - i")
    case True
    define v where "v = take 16 (drop i buf)"
    have v: "length v = 16" and at: "\<And>k. k < 16 \<Longrightarrow> v ! k = buf ! (i + k)"
      using True assms by (simp_all add: v_def)
    have load: "ld i = Some v" using True less.prems by (simp add: v_def)
    show ?thesis
    proof (cases "f v = 0")
      case True
      then have "\<not> p (buf ! k)" if "i \<le> k" "k < i + 16" for k
        using that at [of "k - i"] mask_zero [OF v] by (auto dest: spec [of _ "k - i"])
      then have skip: "first_pos p buf i len = first_pos p buf (i + 16) len"
        using \<open>16 \<le> len - i\<close> by (intro first_pos_skip) simp_all
      have "len - (i + 16) < len - i" using \<open>16 \<le> len - i\<close> by arith
      then show ?thesis
        using less.hyps [of "i + 16"] less.prems \<open>16 \<le> len - i\<close> True load skip
        by (subst scan_blocks.simps) (auto split: option.splits sum.splits)
    next
      case False
      let ?k = "builtin_ctz (f v)"
      have "first_pos p buf i len = Some (i + ?k)"
      proof (rule first_pos_hit)
        fix k assume "i \<le> k" "k < i + ?k"
        then show "\<not> p (buf ! k)"
          using mask_first(3) [OF v False, of "k - i"] mask_first(1) [OF v False] at [of "k - i"]
          by simp
      qed (use mask_first(1,2) [OF v False] at \<open>16 \<le> len - i\<close> in simp_all)
      with \<open>16 \<le> len - i\<close> False load show ?thesis
        by (subst scan_blocks.simps) simp
    qed
  qed (simp add: scan_blocks.simps)
qed

lemma scan16_spec:
  assumes ld: "\<And>k. i \<le> k \<Longrightarrow> k + 16 \<le> len \<Longrightarrow> k mod 16 = i mod 16 \<Longrightarrow> ld k = Some (take 16 (drop k buf))"
    and "len \<le> length buf"
  shows "scan16 ld f p buf i len = Some (first_pos p buf i len)"
proof -
  have "(case scan_blocks ld f i len of
      None \<Rightarrow> False
    | Some (Inl k) \<Rightarrow> first_pos p buf i len = Some k
    | Some (Inr j) \<Rightarrow> i \<le> j \<and> (i \<le> len \<longrightarrow> j \<le> len) \<and> first_pos p buf i len = first_pos p buf j len)"
    using assms by (rule scan_blocks_spec)
  then show ?thesis
    by (auto simp: scan16_def scan_bytes_spec [OF assms(2)] split: option.splits sum.splits)
qed

lemma scan16_loadu:
  "len \<le> length buf \<Longrightarrow>
     scan16 (simde_mm_loadu_si128 buf) f p buf i len = Some (first_pos p buf i len)"
  by (rule scan16_spec) (simp_all add: simde_mm_loadu_si128_def load_block_in)

end

end
