(* ===== verification/Fast_Scan.thy ===== *)
theory Fast_Scan
  imports Simd
begin

text \<open>
  \<open>wireform-core/cbits/fast_scan.c\<close>: the byte search behind the CSV, NDJSON and XML scanners
  (\<open>hs_find_byte\<close>) and the in-place WebSocket masking of RFC 6455 (\<open>hs_ws_mask\<close>).  Both work on
  16-byte aligned blocks, so their models take the buffer's base address; the results do not depend
  on it.
\<close>

subsection \<open>hs_find_byte\<close>

function find_byte_prologue :: "nat \<Rightarrow> bytes \<Rightarrow> nat \<Rightarrow> nat \<Rightarrow> u8 \<Rightarrow> (nat + nat) option" where
  "find_byte_prologue base buf i len target_byte =
     (if i < len \<and> (base + i) mod 16 \<noteq> 0
      then do {
        b \<leftarrow> load buf i;
        if b = target_byte then Some (Inl i)
        else find_byte_prologue base buf (Suc i) len target_byte
      }
      else Some (Inr i))"
  by pat_completeness auto
termination
  by (relation "measure (\<lambda>(base, buf, i, len, t). len - i)") auto

declare find_byte_prologue.simps [simp del]

definition find_byte_mask :: "u8 \<Rightarrow> m128i \<Rightarrow> u32" where
  "find_byte_mask target_byte chunk =
     simde_mm_movemask_epi8 (simde_mm_cmpeq_epi8 chunk (simde_mm_set1_epi8 target_byte))"

definition hs_find_byte :: "nat \<Rightarrow> bytes \<Rightarrow> nat \<Rightarrow> nat \<Rightarrow> u8 \<Rightarrow> nat option" where
  "hs_find_byte base buf offset len target_byte = do {
     r \<leftarrow> find_byte_prologue base buf offset len target_byte;
     (case r of
        Inl k \<Rightarrow> Some k
      | Inr i \<Rightarrow> do {
          s \<leftarrow> scan16 (simde_mm_load_si128 base buf) (find_byte_mask target_byte)
                 (\<lambda>b. b = target_byte) buf i len;
          Some (case s of Some k \<Rightarrow> k | None \<Rightarrow> len)
        })
   }"

interpretation find_byte: lane_test "find_byte_mask t" "\<lambda>b. b = t" for t
  by unfold_locales (auto simp: find_byte_mask_def simd_simps split: if_splits)

text \<open>The prologue stops at an aligned index or at the end.\<close>

lemma find_byte_prologue_spec:
  "len \<le> length buf \<Longrightarrow>
     (case find_byte_prologue base buf i len t of
        None \<Rightarrow> False
      | Some (Inl k) \<Rightarrow> first_pos (\<lambda>b. b = t) buf i len = Some k
      | Some (Inr j) \<Rightarrow> (len \<le> j \<or> (base + j) mod 16 = 0) \<and>
          first_pos (\<lambda>b. b = t) buf i len = first_pos (\<lambda>b. b = t) buf j len)"
proof (induction base buf i len t rule: find_byte_prologue.induct)
  case (1 base buf i len t)
  show ?case
  proof (cases "i < len \<and> (base + i) mod 16 \<noteq> 0")
    case True
    then show ?thesis
      using 1
      by (cases "buf ! i = t"; subst find_byte_prologue.simps)
        (auto simp: load_in first_pos_step [of i] split: option.split_asm sum.split_asm)
  next
    case False
    then show ?thesis by (auto simp: find_byte_prologue.simps)
  qed
qed

lemma aligned_load:
  assumes "(base + i) mod 16 = 0" and "len \<le> length buf" and "k + 16 \<le> len" and "k mod 16 = i mod 16"
  shows "simde_mm_load_si128 base buf k = Some (take 16 (drop k buf))"
proof -
  have "(base + k) mod 16 = (base + i) mod 16"
    using assms(4) by (metis mod_add_right_eq)
  then show ?thesis
    using assms by (simp add: simde_mm_load_si128_def load_block_in)
qed

lemma hs_find_byte_eq:
  assumes "len \<le> length buf"
  shows "hs_find_byte base buf offset len t =
    Some (case first_pos (\<lambda>b. b = t) buf offset len of Some k \<Rightarrow> k | None \<Rightarrow> len)"
proof -
  note P = find_byte_prologue_spec [OF assms, where base = base and i = offset and t = t]
  show ?thesis
  proof (cases "\<exists>j. find_byte_prologue base buf offset len t = Some (Inr j)")
    case True
    then obtain j where j: "find_byte_prologue base buf offset len t = Some (Inr j)" by auto
    have "scan16 (simde_mm_load_si128 base buf) (find_byte_mask t) (\<lambda>b. b = t) buf j len =
        Some (first_pos (\<lambda>b. b = t) buf j len)"
    proof (rule find_byte.scan16_spec [OF _ assms])
      fix k assume "j \<le> k" "k + 16 \<le> len" "k mod 16 = j mod 16"
      then show "simde_mm_load_si128 base buf k = Some (take 16 (drop k buf))"
        using P j aligned_load [of base j len buf k] assms by simp
    qed
    then show ?thesis using P j by (simp add: hs_find_byte_def)
  next
    case False
    then show ?thesis
      using P by (auto simp: hs_find_byte_def split: option.splits sum.splits)
  qed
qed


subsection \<open>hs_ws_mask\<close>

text \<open>The four mask bytes in network order.\<close>

definition ws_mask_bytes :: "u32 \<Rightarrow> bytes" where
  "ws_mask_bytes msk =
     [ucast (drop_bit 24 msk), ucast (drop_bit 16 msk), ucast (drop_bit 8 msk), ucast msk]"

text \<open>\<open>buf[i] ^= mb[i & 3]\<close>\<close>

definition ws_xor_byte :: "bytes \<Rightarrow> bytes \<Rightarrow> nat \<Rightarrow> bytes option" where
  "ws_xor_byte mb buf i = do { b \<leftarrow> load buf i; x \<leftarrow> load mb (i mod 4); store buf i (b XOR x) }"

function ws_prologue :: "nat \<Rightarrow> bytes \<Rightarrow> bytes \<Rightarrow> nat \<Rightarrow> nat \<Rightarrow> (bytes \<times> nat) option" where
  "ws_prologue base mb buf i len =
     (if i < len \<and> (base + i) mod 16 \<noteq> 0
      then do { buf' \<leftarrow> ws_xor_byte mb buf i; ws_prologue base mb buf' (Suc i) len }
      else Some (buf, i))"
  by pat_completeness auto
termination
  by (relation "measure (\<lambda>(base, mb, buf, i, len). len - i)") auto

definition ws_tile :: "bytes \<Rightarrow> nat \<Rightarrow> bytes" where
  "ws_tile mb i = map (\<lambda>k. mb ! ((i mod 4 + k) mod 4)) [0..<16]"

function ws_blocks :: "nat \<Rightarrow> m128i \<Rightarrow> bytes \<Rightarrow> nat \<Rightarrow> nat \<Rightarrow> (bytes \<times> nat) option" where
  "ws_blocks base v buf i len =
     (if 16 \<le> len - i
      then do {
        chunk \<leftarrow> simde_mm_load_si128 base buf i;
        buf' \<leftarrow> simde_mm_store_si128 base buf i (simde_mm_xor_si128 chunk v);
        ws_blocks base v buf' (i + 16) len
      }
      else Some (buf, i))"
  by pat_completeness auto
termination
  by (relation "measure (\<lambda>(base, v, buf, i, len). len - i)") auto

function ws_epilogue :: "bytes \<Rightarrow> bytes \<Rightarrow> nat \<Rightarrow> nat \<Rightarrow> bytes option" where
  "ws_epilogue mb buf i len =
     (if i < len then do { buf' \<leftarrow> ws_xor_byte mb buf i; ws_epilogue mb buf' (Suc i) len }
      else Some buf)"
  by pat_completeness auto
termination
  by (relation "measure (\<lambda>(mb, buf, i, len). len - i)") auto

declare ws_prologue.simps [simp del] ws_blocks.simps [simp del] ws_epilogue.simps [simp del]

definition hs_ws_mask :: "nat \<Rightarrow> bytes \<Rightarrow> nat \<Rightarrow> u32 \<Rightarrow> bytes option" where
  "hs_ws_mask base buf len msk = do {
     let mb = ws_mask_bytes msk;
     (buf, i) \<leftarrow> ws_prologue base mb buf 0 len;
     (buf, i) \<leftarrow>
       (if 16 \<le> len - i
        then do {
          v \<leftarrow> simde_mm_loadu_si128 (ws_tile mb i) 0;
          ws_blocks base v buf i len
        }
        else Some (buf, i));
     ws_epilogue mb buf i len
   }"

text \<open>The specification: the bytes of \<open>[i, j)\<close> are XORed with the mask, repeated from index 0.\<close>

definition ws_masked :: "bytes \<Rightarrow> nat \<Rightarrow> nat \<Rightarrow> bytes \<Rightarrow> bytes" where
  "ws_masked mb i j buf =
     map (\<lambda>k. if i \<le> k \<and> k < j then buf ! k XOR mb ! (k mod 4) else buf ! k) [0..<length buf]"

lemma ws_masked_length [simp]: "length (ws_masked mb i j buf) = length buf"
  by (simp add: ws_masked_def)

lemma ws_masked_nth [simp]:
  "k < length buf \<Longrightarrow> ws_masked mb i j buf ! k =
     (if i \<le> k \<and> k < j then buf ! k XOR mb ! (k mod 4) else buf ! k)"
  by (simp add: ws_masked_def)

lemma ws_masked_empty [simp]: "j \<le> i \<Longrightarrow> ws_masked mb i j buf = buf"
  by (rule nth_equalityI) auto

lemma ws_masked_join: "i \<le> j \<Longrightarrow> j \<le> l \<Longrightarrow>
    ws_masked mb j l (ws_masked mb i j buf) = ws_masked mb i l buf"
  by (rule nth_equalityI) auto

lemma ws_xor_byte_eq:
  "length mb = 4 \<Longrightarrow> i < length buf \<Longrightarrow> ws_xor_byte mb buf i = Some (ws_masked mb i (Suc i) buf)"
  by (auto simp: ws_xor_byte_def load_in store_in nth_list_update intro!: nth_equalityI)

lemma ws_epilogue_eq:
  "length mb = 4 \<Longrightarrow> len \<le> length buf \<Longrightarrow> ws_epilogue mb buf i len = Some (ws_masked mb i len buf)"
proof (induction mb buf i len rule: ws_epilogue.induct)
  case (1 mb buf i len)
  then show ?case
    by (cases "i < len"; subst ws_epilogue.simps) (simp_all add: ws_xor_byte_eq ws_masked_join)
qed

lemma ws_prologue_eq:
  "length mb = 4 \<Longrightarrow> len \<le> length buf \<Longrightarrow>
     \<exists>j. ws_prologue base mb buf i len = Some (ws_masked mb i j buf, j) \<and> i \<le> j \<and> (i \<le> len \<longrightarrow> j \<le> len)
       \<and> (len \<le> j \<or> (base + j) mod 16 = 0)"
proof (induction base mb buf i len rule: ws_prologue.induct)
  case (1 base mb buf i len)
  show ?case
  proof (cases "i < len \<and> (base + i) mod 16 \<noteq> 0")
    case True
    then have x: "ws_xor_byte mb buf i = Some (ws_masked mb i (Suc i) buf)"
      using 1 by (simp add: ws_xor_byte_eq)
    from 1(1) [OF True x] 1(2,3) obtain j where
      "ws_prologue base mb (ws_masked mb i (Suc i) buf) (Suc i) len =
         Some (ws_masked mb (Suc i) j (ws_masked mb i (Suc i) buf), j)" "Suc i \<le> j"
      "Suc i \<le> len \<longrightarrow> j \<le> len" "len \<le> j \<or> (base + j) mod 16 = 0" by auto
    with True x show ?thesis
      by (intro exI [of _ j], subst ws_prologue.simps) (auto simp: ws_masked_join)
  qed (auto simp: ws_prologue.simps)
qed

lemma ws_blocks_eq:
  assumes "length mb = 4" and "v = ws_tile mb i" and "len \<le> length buf"
    and "(base + i) mod 16 = 0"
  shows "\<exists>j. ws_blocks base v buf i len = Some (ws_masked mb i j buf, j) \<and> i \<le> j \<and> (i \<le> len \<longrightarrow> j \<le> len)"
  using assms
proof (induction base v buf i len rule: ws_blocks.induct)
  case (1 base v buf i len)
  show ?case
  proof (cases "16 \<le> len - i")
    case True
    define chunk where "chunk = take 16 (drop i buf)"
    define buf' where "buf' = take i buf @ simde_mm_xor_si128 chunk v @ drop (i + 16) buf"
    have len: "length chunk = 16" "length v = 16"
      using True 1 by (simp_all add: chunk_def ws_tile_def)
    have ld: "simde_mm_load_si128 base buf i = Some chunk"
      using True 1 by (simp add: simde_mm_load_si128_def load_block_in chunk_def)
    have st: "simde_mm_store_si128 base buf i (simde_mm_xor_si128 chunk v) = Some buf'"
      using True 1 len by (simp add: simde_mm_store_si128_def store_block_in buf'_def simd_simps)
    have buf': "buf' = ws_masked mb i (i + 16) buf"
    proof (rule nth_equalityI)
      show "length buf' = length (ws_masked mb i (i + 16) buf)"
        using True 1 len by (simp add: buf'_def simd_simps)
    next
      fix k assume "k < length buf'"
      then have k: "k < length buf" using True 1 len by (simp add: buf'_def simd_simps)
      show "buf' ! k = ws_masked mb i (i + 16) buf ! k"
      proof (cases "i \<le> k \<and> k < i + 16")
        case True
        then obtain d where d: "k = i + d" "d < 16" by (metis le_Suc_ex nat_add_left_cancel_less)
        have "(i mod 4 + d) mod 4 = (i + d) mod 4" by (simp add: mod_add_left_eq)
        with d k len show ?thesis
          using 1(3) by (simp add: buf'_def nth_append simd_simps chunk_def ws_tile_def)
      next
        case False
        with k len show ?thesis
          by (auto simp: buf'_def nth_append simd_simps min_def)
      qed
    qed
    have "(base + (i + 16)) mod 16 = 0" using 1(5) by presburger
    moreover have "v = ws_tile mb (i + 16)"
    proof -
      have "(i + 16) mod 4 = i mod 4" by presburger
      with 1(3) show ?thesis by (simp add: ws_tile_def)
    qed
    ultimately obtain j where "ws_blocks base v buf' (i + 16) len = Some (ws_masked mb (i + 16) j buf', j)"
      "i + 16 \<le> j" "i + 16 \<le> len \<longrightarrow> j \<le> len"
      using 1(1) [OF True ld st 1(2)] 1(4) buf' by auto
    with True ld st buf' show ?thesis
      by (intro exI [of _ j], subst ws_blocks.simps) (auto simp: ws_masked_join)
  qed (auto simp: ws_blocks.simps)
qed

lemma hs_ws_mask_eq:
  assumes "len \<le> length buf"
  shows "hs_ws_mask base buf len msk = Some (ws_masked (ws_mask_bytes msk) 0 len buf)"
proof -
  define mb where "mb = ws_mask_bytes msk"
  have mb: "length mb = 4" by (simp add: mb_def ws_mask_bytes_def)
  obtain j where j: "ws_prologue base mb buf 0 len = Some (ws_masked mb 0 j buf, j)" "j \<le> len"
    "len \<le> j \<or> (base + j) mod 16 = 0"
    using ws_prologue_eq [OF mb assms, of base 0] by auto
  show ?thesis
  proof (cases "16 \<le> len - j")
    case True
    then have "(base + j) mod 16 = 0" using j(3) by linarith
    then obtain l where "ws_blocks base (ws_tile mb j) (ws_masked mb 0 j buf) j len =
        Some (ws_masked mb j l (ws_masked mb 0 j buf), l)" "j \<le> l" "l \<le> len"
      using ws_blocks_eq [OF mb refl, of len "ws_masked mb 0 j buf" base j] assms j by auto
    moreover have "simde_mm_loadu_si128 (ws_tile mb j) 0 = Some (ws_tile mb j)"
      by (simp add: simde_mm_loadu_si128_def load_block_def ws_tile_def)
    ultimately show ?thesis
      using True j assms mb
      by (simp add: hs_ws_mask_def mb_def [symmetric] ws_masked_join ws_epilogue_eq)
  next
    case False
    then show ?thesis
      using j assms mb by (simp add: hs_ws_mask_def mb_def [symmetric] ws_masked_join ws_epilogue_eq)
  qed
qed

text \<open>\<open>hs_find_byte\<close> returns the position of the first matching byte, and the buffer's length when
  there is none, whatever the alignment of the buffer.\<close>

theorem find_byte_correct:
  assumes "len \<le> length buf"
  shows "\<exists>r. hs_find_byte base buf offset len t = Some r \<and>
    (if r < len \<and> offset \<le> r then buf ! r = t \<and> (\<forall>k. offset \<le> k \<and> k < r \<longrightarrow> buf ! k \<noteq> t)
     else r = len \<and> (\<forall>k. offset \<le> k \<and> k < len \<longrightarrow> buf ! k \<noteq> t))"
proof (cases "first_pos (\<lambda>b. b = t) buf offset len")
  case None
  then show ?thesis by (simp add: hs_find_byte_eq [OF assms]) (simp add: first_pos_None_iff)
next
  case (Some r)
  then show ?thesis by (simp add: hs_find_byte_eq [OF assms]) (simp add: first_pos_Some_iff)
qed

theorem find_byte_correct_witness:
  "\<exists>r. hs_find_byte 5 [10, 20, 30] 1 3 30 = Some r \<and>
    (if r < 3 \<and> 1 \<le> r then [10, 20, 30 :: u8] ! r = 30 \<and> (\<forall>k. 1 \<le> k \<and> k < r \<longrightarrow> [10, 20, 30 :: u8] ! k \<noteq> 30)
     else r = 3 \<and> (\<forall>k. 1 \<le> k \<and> k < 3 \<longrightarrow> [10, 20, 30 :: u8] ! k \<noteq> 30))"
  by (rule find_byte_correct) simp

lemma ws_masked_invol: "ws_masked mb 0 n (ws_masked mb 0 n buf) = buf"
  by (rule nth_equalityI) (auto simp: bit.xor_self xor.assoc)

text \<open>C5: WebSocket masking XORs each of the \<open>len\<close> bytes with the mask byte of its index modulo 4 and
  leaves the rest of the buffer alone, for every alignment of the buffer: the scalar prologue, the
  rotated 16-byte tile and the epilogue agree on the phase.\<close>

theorem ws_mask_correct:
  assumes "len \<le> length buf"
  shows "\<exists>out. hs_ws_mask base buf len msk = Some out \<and> length out = length buf \<and>
    drop len out = drop len buf \<and>
    (\<forall>k. k < len \<longrightarrow> out ! k = buf ! k XOR ucast (drop_bit (24 - 8 * (k mod 4)) msk))"
proof -
  have "drop len (ws_masked mb 0 len buf) = drop len buf" for mb
    by (rule nth_equalityI) auto
  moreover have "ws_mask_bytes msk ! (k mod 4) = ucast (drop_bit (24 - 8 * (k mod 4)) msk)" for k
  proof -
    have "k mod 4 = 0 \<or> k mod 4 = 1 \<or> k mod 4 = 2 \<or> k mod 4 = 3" by presburger
    then show ?thesis by (auto simp: ws_mask_bytes_def)
  qed
  ultimately show ?thesis
    using assms by (auto simp: hs_ws_mask_eq)
qed

theorem ws_mask_correct_witness:
  "\<exists>out. hs_ws_mask 7 [1, 2, 3] 2 0x01020304 = Some out \<and> length out = length [1, 2, 3 :: u8] \<and>
    drop 2 out = drop 2 [1, 2, 3 :: u8] \<and>
    (\<forall>k. k < 2 \<longrightarrow> out ! k = [1, 2, 3 :: u8] ! k XOR ucast (drop_bit (24 - 8 * (k mod 4)) (0x01020304 :: u32)))"
  by (rule ws_mask_correct) simp

text \<open>Masking twice with the same mask restores the payload, even when the two buffers are aligned
  differently (the sender masks, the receiver un-masks its own copy).\<close>

theorem ws_mask_involution:
  assumes "len \<le> length buf"
  shows "Option.bind (hs_ws_mask base buf len msk) (\<lambda>b. hs_ws_mask base' b len msk) = Some buf"
  using assms by (simp add: hs_ws_mask_eq ws_masked_invol)

theorem ws_mask_involution_witness:
  "Option.bind (hs_ws_mask 3 [1, 2, 3] 2 77) (\<lambda>b. hs_ws_mask 8 b 2 77) = Some [1, 2, 3]"
  by (rule ws_mask_involution) simp

end
