(* ===== verification/Url_Decode.thy ===== *)
theory Url_Decode
  imports Simd
begin

text \<open>
  \<open>hermes/cbits/url_decode.c\<close>: percent-decoding.  Source and destination are two pointers into one
  memory, since the code allows \<open>dst == src\<close>; the theorems say which overlaps are sound.  The scan
  is the SSE2 variant (\<open>HERMES_HAVE_SSE2\<close>).  A pointer \<open>src + in\<close> handed to the scan is the memory
  from that address on.
\<close>

definition hex_value :: "u8 \<Rightarrow> int" where
  "hex_value c =
     (if 0x30 \<le> c \<and> c \<le> 0x39 then uint c - 0x30
      else if 0x61 \<le> c \<and> c \<le> 0x66 then 10 + (uint c - 0x61)
      else if 0x41 \<le> c \<and> c \<le> 0x46 then 10 + (uint c - 0x41)
      else -1)"

definition url_special :: "bool \<Rightarrow> u8 \<Rightarrow> bool" where
  "url_special plus_is_space c \<longleftrightarrow> (if plus_is_space then c = 0x25 \<or> c = 0x2B else c = 0x25)"

definition scan_special_scalar :: "bytes \<Rightarrow> nat \<Rightarrow> bool \<Rightarrow> nat option" where
  "scan_special_scalar src len plus_is_space = do {
     r \<leftarrow> scan_bytes (url_special plus_is_space) src 0 len;
     Some (case r of Some i \<Rightarrow> i | None \<Rightarrow> len)
   }"

definition url_hit_mask :: "bool \<Rightarrow> m128i \<Rightarrow> u32" where
  "url_hit_mask plus_is_space v =
     (let hit = simde_mm_cmpeq_epi8 v (simde_mm_set1_epi8 0x25);
          hit = (if plus_is_space
                 then simde_mm_or_si128 hit (simde_mm_cmpeq_epi8 v (simde_mm_set1_epi8 0x2B))
                 else hit)
      in simde_mm_movemask_epi8 hit)"

definition hermes_url_scan_special :: "bytes \<Rightarrow> nat \<Rightarrow> bool \<Rightarrow> nat option" where
  "hermes_url_scan_special src len plus_is_space = do {
     r \<leftarrow> scan_blocks (simde_mm_loadu_si128 src) (url_hit_mask plus_is_space) 0 len;
     (case r of
        Inl k \<Rightarrow> Some k
      | Inr i \<Rightarrow> do {
          n \<leftarrow> scan_special_scalar (drop i src) (len - i) plus_is_space;
          Some (i + n)
        })
   }"

function url_decode_loop ::
  "bytes \<Rightarrow> nat \<Rightarrow> nat \<Rightarrow> nat \<Rightarrow> bool \<Rightarrow> nat \<Rightarrow> nat \<Rightarrow> (bytes \<times> int) option" where
  "url_decode_loop mem src srclen dst pis i out =
     (if i < srclen then do {
        n \<leftarrow> hermes_url_scan_special (drop (src + i) mem) (srclen - i) pis;
        let hit = i + n;
        let prefix_len = hit - i;
        mem \<leftarrow> (if prefix_len \<noteq> 0 then memmove mem (dst + out) (src + i) prefix_len else Some mem);
        let out = out + prefix_len;
        if hit = srclen then Some (mem, int out)
        else do {
          c \<leftarrow> load mem (src + hit);
          if c = 0x2B then do {
            mem \<leftarrow> store mem (dst + out) 0x20;
            url_decode_loop mem src srclen dst pis (hit + 1) (out + 1)
          }
          else if srclen - hit < 3 then
            (if srclen - hit = 2
             then do {
               c1 \<leftarrow> load mem (src + hit + 1);
               Some (mem, if hex_value c1 < 0 then -2 else -1)
             }
             else Some (mem, -1))
          else do {
            c1 \<leftarrow> load mem (src + hit + 1);
            c2 \<leftarrow> load mem (src + hit + 2);
            let hi = hex_value c1;
            let lo = hex_value c2;
            if hi < 0 \<or> lo < 0 then Some (mem, -2)
            else do {
              mem \<leftarrow> store mem (dst + out) (word_of_int (push_bit 4 hi OR lo));
              url_decode_loop mem src srclen dst pis (hit + 3) (out + 1)
            }
          }
        }
      }
      else Some (mem, int out))"
  by pat_completeness auto
termination
  by (relation "measure (\<lambda>(mem, src, srclen, dst, pis, i, out). srclen - i)") auto

declare url_decode_loop.simps [simp del]

definition hermes_url_decode :: "bytes \<Rightarrow> nat \<Rightarrow> nat \<Rightarrow> nat \<Rightarrow> bool \<Rightarrow> (bytes \<times> int) option" where
  "hermes_url_decode mem src srclen dst plus_is_space =
     url_decode_loop mem src srclen dst plus_is_space 0 0"

subsection \<open>The scan\<close>

interpretation url_scan: lane_test "url_hit_mask pis" "url_special pis" for pis
  by unfold_locales (auto simp: url_hit_mask_def url_special_def simd_simps split: if_splits)

lemma scan_special_scalar_eq:
  "len \<le> length src \<Longrightarrow> scan_special_scalar src len pis =
     Some (length (takeWhile (\<lambda>b. \<not> url_special pis b) (take len src)))"
  by (simp add: scan_special_scalar_def scan_bytes_spec first_pos_takeWhile)

lemma hermes_url_scan_special_eq:
  assumes "len \<le> length src"
  shows "hermes_url_scan_special src len pis =
     Some (length (takeWhile (\<lambda>b. \<not> url_special pis b) (take len src)))"
proof -
  let ?p = "\<lambda>b. \<not> url_special pis b"
  have ld: "simde_mm_loadu_si128 src k = Some (take 16 (drop k src))" if "k + 16 \<le> len" for k
    using that assms by (simp add: simde_mm_loadu_si128_def load_block_in)
  have S: "(case scan_blocks (simde_mm_loadu_si128 src) (url_hit_mask pis) 0 len of
      None \<Rightarrow> False
    | Some (Inl k) \<Rightarrow> first_pos (url_special pis) src 0 len = Some k
    | Some (Inr j) \<Rightarrow> 0 \<le> j \<and> (0 \<le> len \<longrightarrow> j \<le> len) \<and>
        first_pos (url_special pis) src 0 len = first_pos (url_special pis) src j len)"
    by (rule url_scan.scan_blocks_spec [OF _ assms]) (rule ld)
  have T: "length (takeWhile ?p (take len src)) =
      j + length (takeWhile ?p (take (len - j) (drop j src)))"
    if "j \<le> len" "first_pos (url_special pis) src 0 len = first_pos (url_special pis) src j len" for j
  proof -
    have "\<forall>b \<in> set (take j src). ?p b"
    proof
      fix b assume "b \<in> set (take j src)"
      then obtain k where k: "k < j" "b = src ! k" using assms that(1)
        by (auto simp: in_set_conv_nth)
      show "?p b"
      proof
        assume "url_special pis b"
        then have "first_pos (url_special pis) src 0 len \<noteq> None"
          using k that(1) \<open>url_special pis b\<close> by (auto simp: first_pos_None_iff intro!: exI [of _ k])
        then obtain m where m: "first_pos (url_special pis) src 0 len = Some m" by auto
        then have "m \<le> k" using k \<open>url_special pis b\<close> by (auto simp: first_pos_Some_iff not_less [symmetric])
        moreover have "j \<le> m" using m that(2) by (auto simp: first_pos_Some_iff)
        ultimately show False using k by simp
      qed
    qed
    moreover have "take len src = take j src @ take (len - j) (drop j src)"
      using that(1) by (metis le_add_diff_inverse take_add)
    ultimately show ?thesis using that(1) assms by simp
  qed
  show ?thesis
    using S T assms first_pos_takeWhile [OF assms, of "url_special pis"]
    by (auto simp: hermes_url_scan_special_def scan_special_scalar_eq
        split: option.splits sum.splits)
qed

subsection \<open>The specification\<close>

text \<open>Percent-decoding of a byte string, or the error code of the first error in input order.\<close>

fun url_spec :: "bool \<Rightarrow> bytes \<Rightarrow> int + bytes" where
  "url_spec pis [] = Inr []"
| "url_spec pis (c # cs) =
     (if c = 0x25 then
        (case cs of
           [] \<Rightarrow> Inl (-1)
         | [h] \<Rightarrow> Inl (if hex_value h < 0 then -2 else -1)
         | h # l # rest \<Rightarrow>
             if hex_value h < 0 \<or> hex_value l < 0 then Inl (-2)
             else map_sum id ((#) (word_of_int (16 * hex_value h + hex_value l))) (url_spec pis rest))
      else map_sum id ((#) (if pis \<and> c = 0x2B then 0x20 else c)) (url_spec pis cs))"

lemma url_spec_prefix:
  "\<forall>b \<in> set xs. \<not> url_special pis b \<Longrightarrow> url_spec pis (xs @ ys) = map_sum id ((@) xs) (url_spec pis ys)"
proof (induction xs)
  case Nil
  then show ?case by (cases "url_spec pis ys") simp_all
next
  case (Cons x xs)
  then show ?case by (cases "url_spec pis ys") (auto simp: url_special_def split: if_splits)
qed

lemma map_sum_eq_Inr: "map_sum f g x = Inr y \<longleftrightarrow> (\<exists>z. x = Inr z \<and> y = g z)"
  by (cases x) auto

lemma url_spec_length: "url_spec pis cs = Inr ys \<Longrightarrow> length ys \<le> length cs"
proof (induction pis cs arbitrary: ys rule: url_spec.induct)
  case (2 pis c cs)
  then show ?case
    by (auto simp: map_sum_eq_Inr split: if_splits list.splits) fastforce+
qed simp

text \<open>\<open>hi << 4 | lo\<close> is \<open>16 * hi + lo\<close> for hex digits.\<close>

lemma hex_value_less: "hex_value c < 16"
proof -
  have "uint c - 0x61 < 6" if "c \<le> 0x66" using that by (simp add: word_le_def)
  moreover have "uint c - 0x41 < 6" if "c \<le> 0x46" using that by (simp add: word_le_def)
  moreover have "uint c - 0x30 < 10" if "c \<le> 0x39" using that by (simp add: word_le_def)
  ultimately show ?thesis by (auto simp: hex_value_def)
qed

lemma hex_join: "0 \<le> hex_value h \<Longrightarrow> 0 \<le> hex_value l \<Longrightarrow>
    push_bit 4 (hex_value h) OR hex_value l = 16 * hex_value h + hex_value l"
proof -
  assume l: "0 \<le> hex_value l"
  have "take_bit 4 (hex_value l) = hex_value l"
    using l hex_value_less [of l] by (simp add: take_bit_int_eq_self_iff)
  then have "\<not> bit (hex_value l) n" if "4 \<le> n" for n
    using that by (metis bit_take_bit_iff not_le)
  then have "push_bit 4 (hex_value h) OR hex_value l = push_bit 4 (hex_value h) + hex_value l"
    by (intro disjunctive_add_eq_or [symmetric] bit_eqI) (auto simp: bit_simps)
  then show ?thesis by (simp add: push_bit_eq_mult)
qed

subsection \<open>The decoder meets the specification\<close>

text \<open>
  What a run from output position \<open>p\<close> returns: the specified result, written at \<open>p\<close>, with no other
  byte changed than the \<open>n\<close> from \<open>p\<close> on.
\<close>

definition url_post ::
  "nat \<Rightarrow> nat \<Rightarrow> bytes \<Rightarrow> int + bytes \<Rightarrow> nat \<Rightarrow> (bytes \<times> int) option \<Rightarrow> bool" where
  "url_post p n mem spec out res \<longleftrightarrow>
     (\<exists>mem' r. res = Some (mem', r) \<and> frame p (p + n) mem mem' \<and>
       (case spec of
          Inl e \<Rightarrow> r = e
        | Inr ys \<Rightarrow> r = int (out + length ys) \<and> take (length ys) (drop p mem') = ys))"

lemma url_post_error: "url_post p n mem (Inl e) out (Some (mem, e))"
  by (simp add: url_post_def)

lemma url_post_done: "url_post p n mem (Inr []) out (Some (mem, int out))"
  by (simp add: url_post_def)

lemma url_post_step:
  assumes "store_block mem p ws = Some mem2" and "m + length ws \<le> n" and "p + n \<le> length mem"
    and "url_post (p + length ws) m mem2 spec (out + length ws) res"
  shows "url_post p n mem (map_sum id ((@) ws) spec) out res"
proof -
  from assms(4) obtain mem' r where res: "res = Some (mem', r)"
    and fr: "frame (p + length ws) (p + length ws + m) mem2 mem'"
    and post: "case spec of Inl e \<Rightarrow> r = e
        | Inr ys \<Rightarrow> r = int (out + length ws + length ys) \<and>
            take (length ys) (drop (p + length ws) mem') = ys"
    by (auto simp: url_post_def)
  have "frame p (p + length ws) mem mem2" by (rule store_block_frame [OF assms(1)])
  then have "frame p (p + n) mem mem2" using assms(2) by (rule_tac frame_widen) auto
  moreover have "frame p (p + n) mem2 mem'" using fr assms(2) by (rule_tac frame_widen) auto
  moreover have "take (length ws) (drop p mem') = ws"
    using frame_block [OF fr, of p "length ws"] store_block_written [OF assms(1)]
      store_block_length [OF assms(1)] assms(2,3) by simp
  ultimately show ?thesis
    using res post frame_trans [of p "p + n" mem mem2 mem']
    by (cases spec) (auto simp: url_post_def take_add add.commute [of p])
qed

lemma url_post_byte:
  assumes "store mem p x = Some mem2" and "m + 1 \<le> n" and "p + n \<le> length mem"
    and "url_post (p + 1) m mem2 spec (out + 1) res"
  shows "url_post p n mem (map_sum id ((#) x) spec) out res"
proof -
  have "(#) x = (@) [x]" by auto
  then show ?thesis
    using url_post_step [of mem p "[x]" mem2 m n spec out res] assms by (simp add: store_as_block)
qed

lemma url_source_kept:
  assumes "store_block mem (dst + out) ws = Some mem2" and "out + length ws \<le> j" and "j \<le> srclen"
    and "src + srclen \<le> length mem" and "dst \<le> src \<or> src + srclen \<le> dst"
  shows "take (srclen - j) (drop (src + j) mem2) = take (srclen - j) (drop (src + j) mem)"
  by (rule frame_block [OF store_block_frame [OF assms(1)]]) (use assms in auto)

lemma url_decode_loop_spec:
  assumes "src + srclen \<le> length mem" and "dst + srclen \<le> length mem" and "out \<le> i"
    and "i \<le> srclen" and "dst \<le> src \<or> src + srclen \<le> dst"
  shows "url_post (dst + out) (srclen - i) mem
     (url_spec pis (take (srclen - i) (drop (src + i) mem))) out
     (url_decode_loop mem src srclen dst pis i out)"
  using assms
proof (induction "srclen - i" arbitrary: mem i out rule: less_induct)
  case less
  define rest where "rest = take (srclen - i) (drop (src + i) mem)"
  define pre where "pre = takeWhile (\<lambda>b. \<not> url_special pis b) rest"
  define tl where "tl = dropWhile (\<lambda>b. \<not> url_special pis b) rest"
  define hit where "hit = i + length pre"
  have rest: "rest = pre @ tl" and len: "length rest = srclen - i"
    using less.prems by (simp_all add: pre_def tl_def rest_def)
  then have hit: "hit \<le> srclen" "length tl = srclen - hit"
    using less.prems arg_cong [OF rest, of length] by (simp_all add: hit_def)
  have scan: "hermes_url_scan_special (drop (src + i) mem) (srclen - i) pis = Some (length pre)"
    using less.prems by (simp add: hermes_url_scan_special_eq rest_def [symmetric] pre_def)
  have "take (length pre) (drop (src + i) mem) = take (length pre) rest"
    using hit by (simp add: rest_def hit_def min_def)
  then have blk: "load_block mem (src + i) (length pre) = Some pre"
    using less.prems hit by (simp add: load_block_in hit_def rest)
  obtain mem1 where st: "store_block mem (dst + out) pre = Some mem1"
    using less.prems hit by (simp add: store_block_in hit_def)
  have mv: "(if length pre \<noteq> 0 then memmove mem (dst + out) (src + i) (length pre) else Some mem) = Some mem1"
    using st blk by (auto simp: memmove_def)
  have mem1: "length mem1 = length mem" by (rule store_block_length [OF st])
  have tl: "take (srclen - hit) (drop (src + hit) mem1) = tl"
  proof -
    have "take (srclen - hit) (drop (src + hit) mem1) = take (srclen - hit) (drop (src + hit) mem)"
      using url_source_kept [OF st, of hit srclen src] less.prems hit by (simp add: hit_def)
    also have "\<dots> = drop (length pre) rest"
      by (simp add: rest_def hit_def drop_take ac_simps)
    finally show ?thesis by (simp add: rest)
  qed
  show ?case
  proof (cases "i < srclen")
    case False
    then have "rest = []" using len by simp
    with False show ?thesis
      by (simp add: rest_def [symmetric] url_decode_loop.simps url_post_done)
  next
    case True
    note unf = url_decode_loop.simps [of mem src srclen dst pis i out]
    have spec: "url_spec pis rest = map_sum id ((@) pre) (url_spec pis tl)"
      unfolding rest by (rule url_spec_prefix) (auto simp: pre_def dest: set_takeWhileD)
    let ?res = "url_decode_loop mem src srclen dst pis i out"
    have "url_post (dst + out + length pre) (srclen - hit) mem1 (url_spec pis tl)
        (out + length pre) ?res"
    proof (cases "hit = srclen")
      case True
      then show ?thesis
        using \<open>i < srclen\<close> hit scan mv unf
        by (simp add: hit_def url_post_def)
    next
      case False
      then have "tl \<noteq> []" using hit by auto
      then obtain c cs where c: "tl = c # cs" by (cases tl) auto
      define o' where "o' = out + length pre"
      have o': "o' \<le> hit" "hit < srclen" using less.prems hit False by (simp_all add: o'_def hit_def)
      have at: "load mem1 (src + hit + k) = Some (tl ! k)" if "hit + k < srclen" for k
      proof -
        have "tl ! k = mem1 ! (src + hit + k)"
          unfolding tl [symmetric] using that less.prems mem1 by (simp add: ac_simps)
        with that less.prems mem1 show ?thesis by (simp add: load_in)
      qed
      have step: "\<exists>mem2. store mem1 (dst + o') x = Some mem2 \<and>
          url_post (dst + o') (srclen - hit) mem1
            (map_sum id ((#) x) (url_spec pis (drop k tl))) o'
            (url_decode_loop mem2 src srclen dst pis (hit + k) (o' + 1))"
        if k: "0 < k" "hit + k \<le> srclen" for x k
      proof -
        obtain mem2 where st2: "store_block mem1 (dst + o') [x] = Some mem2"
          using less.prems o' mem1 by (simp add: store_block_in)
        have "take (srclen - (hit + k)) (drop (src + (hit + k)) mem2) =
            take (srclen - (hit + k)) (drop (src + (hit + k)) mem1)"
          using url_source_kept [OF st2, of "hit + k" srclen src] less.prems o' k mem1 by simp
        also have "\<dots> = drop k tl"
          unfolding tl [symmetric] by (simp add: drop_take ac_simps)
        finally have src2: "take (srclen - (hit + k)) (drop (src + (hit + k)) mem2) = drop k tl" .
        have "url_post (dst + (o' + 1)) (srclen - (hit + k)) mem2
            (url_spec pis (take (srclen - (hit + k)) (drop (src + (hit + k)) mem2))) (o' + 1)
            (url_decode_loop mem2 src srclen dst pis (hit + k) (o' + 1))"
          by (rule less.hyps)
            (use less.prems o' k hit store_block_length [OF st2] mem1 in \<open>auto simp: hit_def\<close>)
        then have "url_post (dst + o') (srclen - hit) mem1
            (map_sum id ((#) x) (url_spec pis (drop k tl))) o'
            (url_decode_loop mem2 src srclen dst pis (hit + k) (o' + 1))"
          using url_post_byte [of mem1 "dst + o'" x mem2 "srclen - (hit + k)" "srclen - hit"]
            less.prems o' k mem1 st2 src2
          by (auto simp: store_as_block)
        then show ?thesis using st2 by (auto simp: store_as_block)
      qed
      have "url_post (dst + o') (srclen - hit) mem1 (url_spec pis tl) o' ?res"
      proof (cases "c = 0x2B")
        case True
        have "url_special pis c" using c by (metis tl_def dropWhile_eq_Cons_conv)
        with True have "pis" by (auto simp: url_special_def split: if_splits)
        with True step [of 1 "0x20"] at [of 0] c o' scan mv unf \<open>i < srclen\<close> False show ?thesis
          by (auto simp: hit_def [symmetric] o'_def [symmetric])
      next
        case False
        have "url_special pis c" using c by (metis tl_def dropWhile_eq_Cons_conv)
        with False have pct: "c = 0x25" by (auto simp: url_special_def split: if_splits)
        show ?thesis
        proof (cases "srclen - hit < 3")
          case True
          then consider "srclen - hit = 1" | "srclen - hit = 2" using o' by linarith
          then show ?thesis
          proof cases
            case 1
            then have "tl = [c]" using c hit by (simp add: length_Suc_conv)
            with 1 pct at [of 0] scan mv unf \<open>i < srclen\<close> o' show ?thesis
              by (simp add: hit_def [symmetric] o'_def [symmetric] url_post_error)
          next
            case 2
            then obtain h where "tl = [c, h]" using c hit by (auto simp: length_Suc_conv numeral_2_eq_2)
            with 2 pct at [of 0] at [of 1] scan mv unf \<open>i < srclen\<close> o' show ?thesis
              by (simp add: hit_def [symmetric] o'_def [symmetric] url_post_error)
          qed
        next
          case False
          then obtain h l ds where t: "tl = c # h # l # ds"
            using c hit by (metis Suc_le_length_iff numeral_3_eq_3 not_less list.inject)
          show ?thesis
          proof (cases "hex_value h < 0 \<or> hex_value l < 0")
            case True
            with False t pct at [of 0] at [of 1] at [of 2] scan mv unf \<open>i < srclen\<close> o' show ?thesis
              by (simp add: hit_def [symmetric] o'_def [symmetric] url_post_error)
          next
            case no_err: False
            define x :: u8 where "x = word_of_int (16 * hex_value h + hex_value l)"
            obtain mem2 where "store mem1 (dst + o') x = Some mem2"
              "url_post (dst + o') (srclen - hit) mem1
                (map_sum id ((#) x) (url_spec pis (drop 3 tl))) o'
                (url_decode_loop mem2 src srclen dst pis (hit + 3) (o' + 1))"
              using step [of 3 x] False o' less_diff_conv2 [of hit srclen 3] by (auto simp: not_less)
            with no_err False t pct at [of 0] at [of 1] at [of 2] scan mv unf \<open>i < srclen\<close> o'
            show ?thesis
              by (simp add: hit_def [symmetric] o'_def [symmetric] x_def hex_join)
          qed
        qed
      qed
      then show ?thesis by (simp add: o'_def add.assoc)
    qed
    then show ?thesis
      using url_post_step [OF st, of "srclen - hit" "srclen - i"] spec hit less.prems
      by (simp add: rest_def [symmetric] hit_def)
  qed
qed

text \<open>C6: \<open>hermes_url_decode\<close> decodes as specified, or returns the error code of the first error in
  input order, without touching memory outside the \<open>srclen\<close> bytes at \<open>dst\<close>.  It may run in place
  (\<open>dst = src\<close>), into a lower address (\<open>dst < src\<close>, overlapping or not), or into a region behind the
  source; the source is never overwritten before it has been read.\<close>

theorem url_decode_correct:
  assumes "src + srclen \<le> length mem" and "dst + srclen \<le> length mem"
    and "dst \<le> src \<or> src + srclen \<le> dst"
  shows "\<exists>mem' r. hermes_url_decode mem src srclen dst pis = Some (mem', r) \<and>
    frame dst (dst + srclen) mem mem' \<and>
    (case url_spec pis (take srclen (drop src mem)) of
       Inl e \<Rightarrow> r = e
     | Inr ys \<Rightarrow> r = int (length ys) \<and> take (length ys) (drop dst mem') = ys)"
  using url_decode_loop_spec [of src srclen mem dst 0 0 pis] assms
  by (simp add: hermes_url_decode_def url_post_def cong: sum.case_cong)

theorem url_decode_correct_witness:
  "\<exists>mem' r. hermes_url_decode [0x61, 0x25, 0x32, 0x66, 0x2B] 0 5 0 True = Some (mem', r) \<and>
    frame 0 (0 + 5) [0x61, 0x25, 0x32, 0x66, 0x2B] mem' \<and>
    (case url_spec True (take 5 (drop 0 [0x61, 0x25, 0x32, 0x66, 0x2B])) of
       Inl e \<Rightarrow> r = e
     | Inr ys \<Rightarrow> r = int (length ys) \<and> take (length ys) (drop 0 mem') = ys)"
  by (rule url_decode_correct) simp_all

text \<open>The scan returns the length of the longest prefix without a special byte, all of \<open>len\<close> when
  there is none: a caller that sees \<open>len\<close> may reuse the input, which decoding would not change.\<close>

theorem url_scan_correct:
  assumes "len \<le> length src"
  shows "hermes_url_scan_special src len pis =
      Some (length (takeWhile (\<lambda>b. \<not> url_special pis b) (take len src))) \<and>
    (hermes_url_scan_special src len pis = Some len \<longrightarrow> url_spec pis (take len src) = Inr (take len src))"
proof -
  have "url_spec pis (take len src) = Inr (take len src)"
    if "length (takeWhile (\<lambda>b. \<not> url_special pis b) (take len src)) = len"
  proof -
    have "takeWhile (\<lambda>b. \<not> url_special pis b) (take len src) = take len src"
      using that assms by (metis length_take min_absorb2 takeWhile_eq_take take_all_iff order_refl)
    then show ?thesis
      using url_spec_prefix [of "take len src" pis "[]"] by (simp add: takeWhile_eq_all_conv)
  qed
  then show ?thesis by (simp add: hermes_url_scan_special_eq [OF assms])
qed

theorem url_scan_correct_witness:
  "hermes_url_scan_special [0x61, 0x62] 2 True = Some 2 \<and>
    url_spec True [0x61, 0x62] = Inr [0x61, 0x62]"
  using url_scan_correct [of 2 "[0x61, 0x62]" True] by (simp add: url_special_def)

end
