(* ===== verification/Endian.thy ===== *)
theory Endian
  imports Simd
begin

text \<open>
  Words in memory.  \<open>memcpy(&w, p, n)\<close> on the little-endian platforms the kernels run on reads
  \<open>le_word\<close> of the \<open>n\<close> bytes and writes \<open>le_bytes n w\<close>; \<open>__builtin_bswap\<close> reverses the bytes.
  The second half holds the SWAR masks (one flag bit per byte of a 64-bit word) that the protobuf
  kernels use.
\<close>

fun le_word :: "bytes \<Rightarrow> 'a::len word" where
  "le_word [] = 0"
| "le_word (b # bs) = ucast b OR push_bit 8 (le_word bs)"

definition le_bytes :: "nat \<Rightarrow> 'a::len word \<Rightarrow> bytes" where
  "le_bytes n w = map (\<lambda>i. ucast (drop_bit (8 * i) w)) [0..<n]"

definition bswap16 :: "u16 \<Rightarrow> u16" where "bswap16 w = le_word (rev (le_bytes 2 w))"
definition bswap32 :: "u32 \<Rightarrow> u32" where "bswap32 w = le_word (rev (le_bytes 4 w))"
definition bswap64 :: "u64 \<Rightarrow> u64" where "bswap64 w = le_word (rev (le_bytes 8 w))"

definition load_le :: "nat \<Rightarrow> bytes \<Rightarrow> nat \<Rightarrow> 'a::len word option" where
  "load_le n buf i = map_option le_word (load_block buf i n)"

definition store_le :: "nat \<Rightarrow> bytes \<Rightarrow> nat \<Rightarrow> 'a::len word \<Rightarrow> bytes option" where
  "store_le n buf i w = store_block buf i (le_bytes n w)"

lemma le_bytes_length [simp]: "length (le_bytes n w) = n"
  by (simp add: le_bytes_def)

lemma le_bytes_nth: "i < n \<Longrightarrow> le_bytes n w ! i = ucast (drop_bit (8 * i) w)"
  by (simp add: le_bytes_def)

lemma bit_le_word:
  "bit (le_word bs :: 'a::len word) j \<longleftrightarrow>
     j < LENGTH('a) \<and> j div 8 < length bs \<and> bit (bs ! (j div 8)) (j mod 8)"
proof (induction bs arbitrary: j)
  case (Cons b bs)
  show ?case
  proof (cases "j < 8")
    case True
    then show ?thesis by (auto simp: bit_simps)
  next
    case False
    then obtain k where "j = k + 8" by (metis add.commute le_Suc_ex not_less)
    moreover have "(k + 8) div 8 = Suc (k div 8)" by simp
    ultimately show ?thesis
      using Cons [of k] bit_imp_le_length [of b "k + 8"] by (auto simp: bit_simps)
  qed
qed simp

lemma le_bytes_le_word:
  assumes "length bs = n" and "8 * n \<le> LENGTH('a)"
  shows "le_bytes n (le_word bs :: 'a::len word) = bs"
proof (rule nth_equalityI)
  fix i assume "i < length (le_bytes n (le_word bs :: 'a word))"
  then have i: "i < n" by simp
  show "le_bytes n (le_word bs :: 'a word) ! i = bs ! i"
  proof (rule bit_word_eqI)
    fix j assume "j < LENGTH(8)"
    then have "8 * i + j < 8 * n" "(8 * i + j) div 8 = i" "(8 * i + j) mod 8 = j" using i by auto
    then show "bit (le_bytes n (le_word bs :: 'a word) ! i) j = bit (bs ! i) j"
      using i assms \<open>j < LENGTH(8)\<close>
      by (auto simp: le_bytes_nth bit_ucast_iff bit_drop_bit_eq bit_le_word)
  qed
qed (use assms in simp)

lemma le_word_le_bytes:
  assumes "LENGTH('a) = 8 * n"
  shows "le_word (le_bytes n w) = (w :: 'a::len word)"
proof (rule bit_word_eqI)
  fix j assume "j < LENGTH('a)"
  then have "j div 8 < n" using assms by auto
  then show "bit (le_word (le_bytes n w) :: 'a word) j = bit w j"
    using \<open>j < LENGTH('a)\<close> by (simp add: bit_le_word le_bytes_nth bit_ucast_iff bit_drop_bit_eq)
qed

lemma le_bytes_bswap:
  "le_bytes 2 (bswap16 a) = rev (le_bytes 2 a)"
  "le_bytes 4 (bswap32 b) = rev (le_bytes 4 b)"
  "le_bytes 8 (bswap64 c) = rev (le_bytes 8 c)"
  by (simp_all add: bswap16_def bswap32_def bswap64_def le_bytes_le_word)

lemma load_le_in: "i + n \<le> length buf \<Longrightarrow> load_le n buf i = Some (le_word (take n (drop i buf)))"
  by (simp add: load_le_def load_block_in)

text \<open>The four lanes of \<open>_mm_set1_epi32\<close>, as bytes.\<close>

definition simde_mm_set1_epi32_bytes :: "u32 \<Rightarrow> m128i" where
  "simde_mm_set1_epi32_bytes a = concat (replicate 4 (le_bytes 4 a))"

text \<open>The numeric value, least significant byte first.\<close>

fun le_nat :: "bytes \<Rightarrow> nat" where
  "le_nat [] = 0"
| "le_nat (b # bs) = unat b + 256 * le_nat bs"

lemma or_disjoint_add:
  assumes "a < 2 ^ n" and "n \<le> LENGTH('a)"
  shows "(of_nat a :: 'a::len word) OR push_bit n w = of_nat a + push_bit n w"
proof (rule disjunctive_add_eq_or [symmetric], rule bit_word_eqI)
  fix j assume j: "j < LENGTH('a)"
  have "\<not> bit a j" if "n \<le> j"
    using that assms(1) by (metis bit_take_bit_iff not_le take_bit_nat_eq_self_iff)
  then show "bit (of_nat a AND push_bit n w) j = bit (0 :: 'a word) j"
    by (auto simp: bit_simps not_less)
qed

lemma le_word_nat: "(le_word bs :: 'a::len word) = of_nat (le_nat bs)" if "8 \<le> LENGTH('a)"
proof (induction bs)
  case (Cons b bs)
  have "(ucast b :: 'a word) = of_nat (unat b)" by simp
  then have "(le_word (b # bs) :: 'a word) = of_nat (unat b) OR push_bit 8 (of_nat (le_nat bs))"
    using Cons by simp
  also have "\<dots> = of_nat (unat b) + push_bit 8 (of_nat (le_nat bs))"
    by (rule or_disjoint_add) (use that in simp_all)
  finally show ?case by (simp add: push_bit_eq_mult)
qed simp

subsection \<open>One flag per byte\<close>

definition swar_high :: u64 where
  "swar_high = 0x8080808080808080"

lemma bit_swar_high: "bit swar_high i \<longleftrightarrow> i < 64 \<and> i mod 8 = 7"
proof (cases "i < 64")
  case True
  have "list_all (\<lambda>i. bit swar_high i \<longleftrightarrow> i mod 8 = 7) [0..<64]"
    unfolding swar_high_def by code_simp
  with True show ?thesis by (auto simp: list_all_iff)
next
  case False
  then show ?thesis by (auto dest: bit_imp_le_length)
qed

lemma byte_high_bit: "bit (b :: u8) 7 \<longleftrightarrow> 0x80 \<le> b"
proof -
  have "bit b 7 \<longleftrightarrow> bit (unat b) 7" by (simp add: bit_unsigned_iff)
  also have "\<dots> \<longleftrightarrow> odd (unat b div 2 ^ 7)" by (simp only: bit_iff_odd)
  also have "unat b div 2 ^ 7 = (if 128 \<le> unat b then 1 else 0)"
    using unat_u8_less [of b] by (auto intro!: div_nat_eqI simp: not_le)
  finally have "bit b 7 \<longleftrightarrow> 128 \<le> unat b" by simp
  then show ?thesis by (simp add: word_le_nat_alt)
qed

lemma swar_high_zero:
  assumes "length bs = 8"
  shows "le_word bs AND swar_high = 0 \<longleftrightarrow> (\<forall>b \<in> set bs. b < 0x80)"
proof -
  have "le_word bs AND swar_high = 0 \<longleftrightarrow> (\<forall>j<64. j mod 8 = 7 \<longrightarrow> \<not> bit (bs ! (j div 8)) 7)"
    unfolding bit_eq_iff [where 'a = u64]
    using assms by (auto simp only: bit_and_iff bit_le_word bit_swar_high bit_0_eq) auto
  also have "\<dots> \<longleftrightarrow> (\<forall>i<8. \<not> bit (bs ! i) 7)"
  proof
    assume a: "\<forall>j<64. j mod 8 = 7 \<longrightarrow> \<not> bit (bs ! (j div 8)) 7"
    show "\<forall>i<8. \<not> bit (bs ! i) 7"
    proof (intro allI impI)
      fix i :: nat assume "i < 8"
      then show "\<not> bit (bs ! i) 7" using spec [OF a, of "8 * i + 7"] by simp
    qed
  qed auto
  finally show ?thesis
    using assms by (simp add: byte_high_bit not_le all_set_conv_all_nth)
qed

end
