(* ===== verification/Varint.thy ===== *)
theory Varint
  imports Endian
begin

text \<open>
  The base-128 varints of \<open>wireform-core/cbits/fast_decode.c\<close>: the byte-by-byte decoder with its
  unrolled prefix, the SWAR decoder, skipping, packed arrays, and the encoders.  The reference is
  \<open>leb_dec\<close>: a varint ends at its first byte below \<open>0x80\<close>, has at most ten bytes, and denotes the
  sum of its 7-bit groups, little end first, reduced to 64 bits.  A decoder returns the bytes
  consumed (0 for an error) and the value stored through its \<open>out\<close> pointer, if any.
\<close>

subsection \<open>The model\<close>

function varint_slow_loop ::
  "bytes \<Rightarrow> nat \<Rightarrow> nat \<Rightarrow> nat \<Rightarrow> nat \<Rightarrow> u64 \<Rightarrow> (nat \<times> u64 option) option" where
  "varint_slow_loop buf len offset pos shift result =
     (if pos < len \<and> shift < 64 then do {
        b \<leftarrow> load buf pos;
        let result = result OR push_bit shift (ucast (b AND 0x7F));
        if b < 0x80 then Some (pos + 1 - offset, Some result)
        else varint_slow_loop buf len offset (pos + 1) (shift + 7) result
      }
      else Some (0, None))"
  by pat_completeness auto
termination
  by (relation "measure (\<lambda>(buf, len, offset, pos, shift, result). len - pos)") auto

declare varint_slow_loop.simps [simp del]

definition hs_proto_decode_varint_fast :: "bytes \<Rightarrow> nat \<Rightarrow> nat \<Rightarrow> (nat \<times> u64 option) option" where
  "hs_proto_decode_varint_fast buf len offset =
     (if len \<le> offset then Some (0, None)
      else do {
        b0 \<leftarrow> load buf offset;
        if b0 < 0x80 then Some (1, Some (ucast b0))
        else if len - offset \<le> 1 then Some (0, None)
        else do {
          b1 \<leftarrow> load buf (offset + 1);
          if b1 < 0x80 then Some (2, Some (ucast (b0 AND 0x7F) OR push_bit 7 (ucast b1)))
          else if len - offset \<le> 2 then Some (0, None)
          else do {
            b2 \<leftarrow> load buf (offset + 2);
            if b2 < 0x80 then
              Some (3, Some (ucast (b0 AND 0x7F) OR push_bit 7 (ucast (b1 AND 0x7F))
                             OR push_bit 14 (ucast b2)))
            else if len - offset \<le> 3 then Some (0, None)
            else do {
              b3 \<leftarrow> load buf (offset + 3);
              if b3 < 0x80 then
                Some (4, Some (ucast (b0 AND 0x7F) OR push_bit 7 (ucast (b1 AND 0x7F))
                               OR push_bit 14 (ucast (b2 AND 0x7F)) OR push_bit 21 (ucast b3)))
              else if len - offset \<le> 4 then Some (0, None)
              else do {
                b4 \<leftarrow> load buf (offset + 4);
                if b4 < 0x80 then
                  Some (5, Some (ucast (b0 AND 0x7F) OR push_bit 7 (ucast (b1 AND 0x7F))
                                 OR push_bit 14 (ucast (b2 AND 0x7F))
                                 OR push_bit 21 (ucast (b3 AND 0x7F)) OR push_bit 28 (ucast b4)))
                else do {
                  let result = ucast (b0 AND 0x7F) OR push_bit 7 (ucast (b1 AND 0x7F))
                               OR push_bit 14 (ucast (b2 AND 0x7F))
                               OR push_bit 21 (ucast (b3 AND 0x7F))
                               OR push_bit 28 (ucast (b4 AND 0x7F));
                  varint_slow_loop buf len offset (offset + 5) 35 result
                }
              }
            }
          }
        }
      })"

text \<open>The field number is \<open>(int)(tag >> 3)\<close>: the low 32 bits, read as signed.\<close>

definition hs_proto_decode_tag_fast :: "bytes \<Rightarrow> nat \<Rightarrow> nat \<Rightarrow> (nat \<times> (int \<times> int) option) option" where
  "hs_proto_decode_tag_fast buf len offset = do {
     (consumed, out) \<leftarrow> hs_proto_decode_varint_fast buf len offset;
     (case out of
        None \<Rightarrow> Some (0, None)
      | Some tag \<Rightarrow>
          Some (consumed, Some (sint (ucast (drop_bit 3 tag) :: u32), sint (ucast (tag AND 7) :: u32))))
   }"

text \<open>Compacting the 7-bit groups: bit \<open>j\<close> of the result is bit \<open>j + j div 7\<close> of the bytes.\<close>

definition swar_compact :: "u64 \<Rightarrow> u64" where
  "swar_compact stripped = (stripped AND 0x7F)
     OR (drop_bit 1 stripped AND push_bit 7 0x7F)
     OR (drop_bit 2 stripped AND push_bit 14 0x7F)
     OR (drop_bit 3 stripped AND push_bit 21 0x7F)
     OR (drop_bit 4 stripped AND push_bit 28 0x7F)
     OR (drop_bit 5 stripped AND push_bit 35 0x7F)
     OR (drop_bit 6 stripped AND push_bit 42 0x7F)
     OR (drop_bit 7 stripped AND push_bit 49 0x7F)"

definition hs_proto_decode_varint_swar :: "bytes \<Rightarrow> nat \<Rightarrow> (nat \<times> u64 option) option" where
  "hs_proto_decode_varint_swar buf offset = do {
     w \<leftarrow> load_le 8 buf offset;
     if w AND 0x80 = 0 then Some (1, Some (w AND 0x7F))
     else do {
       let flipped = w XOR swar_high;
       let term_mask = flipped AND swar_high;
       if term_mask = 0 then Some (0, None)
       else do {
         let tag_bits = builtin_ctz term_mask;
         let msk = (if tag_bits < 63 then push_bit (tag_bits + 1) 1 - 1 else NOT 0);
         let masked = w AND msk;
         let stripped = masked AND NOT swar_high;
         let result = swar_compact stripped;
         Some (tag_bits div 8 + 1, Some result)
       }
     }
   }"

function skip_varint_loop :: "bytes \<Rightarrow> nat \<Rightarrow> nat \<Rightarrow> nat \<Rightarrow> nat option" where
  "skip_varint_loop buf offset avail k =
     (if k < avail then do {
        b \<leftarrow> load buf (offset + k);
        if b < 0x80 then Some (k + 1) else skip_varint_loop buf offset avail (k + 1)
      }
      else Some 0)"
  by pat_completeness auto
termination
  by (relation "measure (\<lambda>(buf, offset, avail, k). avail - k)") auto

declare skip_varint_loop.simps [simp del]

definition hs_proto_skip_varint :: "bytes \<Rightarrow> nat \<Rightarrow> nat \<Rightarrow> nat option" where
  "hs_proto_skip_varint buf len offset =
     (let avail = (if offset < len then len - offset else 0);
          avail = (if 10 < avail then 10 else avail)
      in skip_varint_loop buf offset avail 0)"

function encode_varint_loop :: "bytes \<Rightarrow> nat \<Rightarrow> nat \<Rightarrow> u64 \<Rightarrow> (bytes \<times> nat) option" where
  "encode_varint_loop buf p n val =
     (if 0x80 \<le> val then do {
        buf \<leftarrow> store buf (p + n) (ucast ((val AND 0x7F) OR 0x80));
        encode_varint_loop buf p (n + 1) (drop_bit 7 val)
      }
      else do {
        buf \<leftarrow> store buf (p + n) (ucast val);
        Some (buf, n + 1)
      })"
  by pat_completeness auto
termination
proof (relation "measure (\<lambda>(buf, p, n, val). unat val)")
  fix val :: u64
  assume "0x80 \<le> val"
  then have "unat (drop_bit 7 val) < unat val"
    by (simp add: word_le_nat_alt unat_div drop_bit_eq_div)
  then show "((buf, p, n + 1, drop_bit 7 val), buf', p, n, val)
      \<in> measure (\<lambda>(buf, p, n, val). unat val)" for buf buf' p n by simp
qed simp

declare encode_varint_loop.simps [simp del]

definition hs_proto_encode_varint :: "bytes \<Rightarrow> nat \<Rightarrow> u64 \<Rightarrow> (bytes \<times> nat) option" where
  "hs_proto_encode_varint buf p val =
     (if val < 0x80 then do {
        buf \<leftarrow> store buf p (ucast val);
        Some (buf, 1)
      }
      else if val < 0x4000 then do {
        buf \<leftarrow> store buf p (ucast ((val AND 0x7F) OR 0x80));
        buf \<leftarrow> store buf (p + 1) (ucast (drop_bit 7 val));
        Some (buf, 2)
      }
      else if val < 0x200000 then do {
        buf \<leftarrow> store buf p (ucast ((val AND 0x7F) OR 0x80));
        buf \<leftarrow> store buf (p + 1) (ucast ((drop_bit 7 val AND 0x7F) OR 0x80));
        buf \<leftarrow> store buf (p + 2) (ucast (drop_bit 14 val));
        Some (buf, 3)
      }
      else if val < 0x10000000 then do {
        buf \<leftarrow> store buf p (ucast ((val AND 0x7F) OR 0x80));
        buf \<leftarrow> store buf (p + 1) (ucast ((drop_bit 7 val AND 0x7F) OR 0x80));
        buf \<leftarrow> store buf (p + 2) (ucast ((drop_bit 14 val AND 0x7F) OR 0x80));
        buf \<leftarrow> store buf (p + 3) (ucast (drop_bit 21 val));
        Some (buf, 4)
      }
      else if val < 0x800000000 then do {
        buf \<leftarrow> store buf p (ucast ((val AND 0x7F) OR 0x80));
        buf \<leftarrow> store buf (p + 1) (ucast ((drop_bit 7 val AND 0x7F) OR 0x80));
        buf \<leftarrow> store buf (p + 2) (ucast ((drop_bit 14 val AND 0x7F) OR 0x80));
        buf \<leftarrow> store buf (p + 3) (ucast ((drop_bit 21 val AND 0x7F) OR 0x80));
        buf \<leftarrow> store buf (p + 4) (ucast (drop_bit 28 val));
        Some (buf, 5)
      }
      else encode_varint_loop buf p 0 val)"

text \<open>The one-call field encoders; \<open>memcpy\<close> of the payload is a block write.\<close>

definition hs_proto_encode_length_delimited ::
  "bytes \<Rightarrow> nat \<Rightarrow> u8 \<Rightarrow> bytes \<Rightarrow> nat \<Rightarrow> (bytes \<times> nat) option" where
  "hs_proto_encode_length_delimited buf offset tag data len = do {
     buf \<leftarrow> store buf offset tag;
     (buf, m) \<leftarrow> hs_proto_encode_varint buf (offset + 1) (of_nat len);
     let n = 1 + m;
     buf \<leftarrow> (if 0 < len
            then do { xs \<leftarrow> load_block data 0 len; store_block buf (offset + n) xs }
            else Some buf);
     Some (buf, n + len)
   }"

definition hs_proto_encode_varint_field ::
  "bytes \<Rightarrow> nat \<Rightarrow> u8 \<Rightarrow> u64 \<Rightarrow> (bytes \<times> nat) option" where
  "hs_proto_encode_varint_field buf offset tag val = do {
     buf \<leftarrow> store buf offset tag;
     (buf, m) \<leftarrow> hs_proto_encode_varint buf (offset + 1) val;
     Some (buf, 1 + m)
   }"

definition hs_proto_encode_bool_field :: "bytes \<Rightarrow> nat \<Rightarrow> u8 \<Rightarrow> int \<Rightarrow> (bytes \<times> nat) option" where
  "hs_proto_encode_bool_field buf offset tag val = do {
     buf \<leftarrow> store buf offset tag;
     buf \<leftarrow> store buf (offset + 1) (if val \<noteq> 0 then 1 else 0);
     Some (buf, 2)
   }"

subsection \<open>The reference\<close>

fun leb_value :: "bytes \<Rightarrow> nat" where
  "leb_value [] = 0"
| "leb_value (b # bs) = unat (b AND 0x7F) + 128 * leb_value bs"

definition leb_len :: "bytes \<Rightarrow> nat" where
  "leb_len bs = Suc (length (takeWhile (\<lambda>b. 0x80 \<le> b) bs))"

definition leb_dec :: "bytes \<Rightarrow> (nat \<times> u64) option" where
  "leb_dec bs =
     (if leb_len bs \<le> length bs \<and> leb_len bs \<le> 10
      then Some (leb_len bs, of_nat (leb_value (take (leb_len bs) bs)))
      else None)"

function leb_enc :: "u64 \<Rightarrow> bytes" where
  "leb_enc v = (if v < 0x80 then [ucast v] else ucast ((v AND 0x7F) OR 0x80) # leb_enc (drop_bit 7 v))"
  by pat_completeness auto
termination
proof (relation "measure unat")
  fix v :: u64
  assume "\<not> v < 0x80"
  then have "unat (drop_bit 7 v) < unat v"
    by (simp add: word_less_nat_alt unat_div drop_bit_eq_div)
  then show "(drop_bit 7 v, v) \<in> measure unat" by simp
qed simp

declare leb_enc.simps [simp del]

subsection \<open>The byte-by-byte decoder\<close>

lemma low7: "b < 0x80 \<Longrightarrow> b AND 0x7F = (b :: u8)"
  using less_mask_eq [of b 7] by (simp add: mask_eq_exp_minus_1)

lemma low7_less: "unat ((b :: u8) AND 0x7F) < 128"
proof -
  have "b AND 0x7F \<le> 0x7F" by (rule word_and_le1)
  then have "unat (b AND 0x7F) \<le> 127" by (simp add: word_le_nat_alt)
  then show ?thesis by simp
qed

text \<open>The decoder as one recursion over the remaining bytes.\<close>

fun varint_ref :: "nat \<Rightarrow> u64 \<Rightarrow> bytes \<Rightarrow> (nat \<times> u64) option" where
  "varint_ref shift acc [] = None"
| "varint_ref shift acc (b # bs) =
     (if shift < 64 then
        let acc' = acc OR push_bit shift (ucast (b AND 0x7F))
        in if b < 0x80 then Some (1, acc')
           else map_option (map_prod Suc id) (varint_ref (shift + 7) acc' bs)
      else None)"

lemma varint_acc:
  assumes "a < 2 ^ (7 * k)" and "k < 10"
  shows "(of_nat a :: u64) OR push_bit (7 * k) (ucast (b AND 0x7F)) =
      of_nat (a + 2 ^ (7 * k) * unat ((b :: u8) AND 0x7F))"
    and "a + 2 ^ (7 * k) * unat (b AND 0x7F) < 2 ^ (7 * Suc k)"
proof -
  have "(ucast (b AND 0x7F) :: u64) = of_nat (unat (b AND 0x7F))" by simp
  then show "(of_nat a :: u64) OR push_bit (7 * k) (ucast (b AND 0x7F)) =
      of_nat (a + 2 ^ (7 * k) * unat (b AND 0x7F))"
    using or_disjoint_add [of a "7 * k" "ucast (b AND 0x7F) :: u64"] assms
    by (simp add: push_bit_eq_mult)
  have "a + 2 ^ (7 * k) * unat (b AND 0x7F) < 2 ^ (7 * k) * Suc (unat (b AND 0x7F))"
    using assms by simp
  also have "\<dots> \<le> 2 ^ (7 * k) * 128" using low7_less [of b] by (intro mult_left_mono) auto
  finally show "a + 2 ^ (7 * k) * unat (b AND 0x7F) < 2 ^ (7 * Suc k)"
    by (simp add: power_add)
qed

lemma varint_ref_spec:
  "a < 2 ^ (7 * k) \<Longrightarrow> k \<le> 10 \<Longrightarrow>
     varint_ref (7 * k) (of_nat a) bs =
       (if leb_len bs \<le> length bs \<and> k + leb_len bs \<le> 10
        then Some (leb_len bs, of_nat (a + 2 ^ (7 * k) * leb_value (take (leb_len bs) bs)))
        else None)"
proof (induction bs arbitrary: k a)
  case Nil
  then show ?case by (simp add: leb_len_def)
next
  case (Cons b bs)
  show ?case
  proof (cases "k < 10")
    case False
    with Cons.prems show ?thesis by (simp add: leb_len_def)
  next
    case True
    then have s: "7 * k < 64" by simp
    note acc = varint_acc [OF Cons.prems(1) True, of b]
    show ?thesis
    proof (cases "b < 0x80")
      case True
      then have "leb_len (b # bs) = 1" by (simp add: leb_len_def not_le)
      with s acc(1) \<open>k < 10\<close> True show ?thesis by simp
    next
      case False
      then have len: "leb_len (b # bs) = Suc (leb_len bs)" by (simp add: leb_len_def)
      have "varint_ref (7 * Suc k) (of_nat (a + 2 ^ (7 * k) * unat (b AND 0x7F))) bs =
         (if leb_len bs \<le> length bs \<and> Suc k + leb_len bs \<le> 10
          then Some (leb_len bs, of_nat (a + 2 ^ (7 * k) * unat (b AND 0x7F) +
            2 ^ (7 * Suc k) * leb_value (take (leb_len bs) bs)))
          else None)"
        by (rule Cons.IH [OF acc(2)]) (use True in simp)
      moreover have "7 * k + 7 = 7 * Suc k" by simp
      ultimately show ?thesis
        using s acc(1) False len
        by (simp only: varint_ref.simps Let_def if_True if_False)
          (simp add: power_add algebra_simps)
    qed
  qed
qed

lemma leb_dec_ref: "varint_ref 0 0 bs = leb_dec bs"
  using varint_ref_spec [of 0 0 bs] by (simp add: leb_dec_def)

text \<open>What a decoder returns for a reference result.\<close>

definition varint_out :: "(nat \<times> u64) option \<Rightarrow> nat \<times> u64 option" where
  "varint_out r = (case r of None \<Rightarrow> (0, None) | Some (n, v) \<Rightarrow> (n, Some v))"

lemma varint_slow_loop_ref:
  assumes "len \<le> length buf" and "offset \<le> pos"
  shows "varint_slow_loop buf len offset pos shift result =
     Some (varint_out (map_option (map_prod ((+) (pos - offset)) id)
       (varint_ref shift result (take (len - pos) (drop pos buf)))))"
  using assms
proof (induction buf len offset pos shift result rule: varint_slow_loop.induct)
  case (1 buf len offset pos shift result)
  show ?case
  proof (cases "pos < len")
    case False
    then show ?thesis by (simp add: varint_slow_loop.simps varint_out_def)
  next
    case True
    have xs: "take (len - pos) (drop pos buf) =
        buf ! pos # take (len - Suc pos) (drop (Suc pos) buf)"
      using True 1(2) by (simp add: take_Suc_conv_app_nth Cons_nth_drop_Suc [symmetric] take_Cons' Suc_diff_Suc)
    show ?thesis
    proof (cases "shift < 64 \<and> \<not> buf ! pos < 0x80")
      case True
      let ?r = "varint_ref (shift + 7) (result OR push_bit shift (ucast (buf ! pos AND 0x7F)))
          (take (len - Suc pos) (drop (Suc pos) buf))"
      from True 1 \<open>pos < len\<close> xs show ?thesis
        by (subst varint_slow_loop.simps; cases ?r) (auto simp: load_in Let_def Suc_diff_le varint_out_def)
    next
      case False
      with 1 \<open>pos < len\<close> xs show ?thesis
        by (subst varint_slow_loop.simps) (auto simp: load_in varint_out_def Let_def Suc_diff_le)
    qed
  qed
qed

lemma decode_varint_fast_ref:
  assumes "len \<le> length buf"
  shows "hs_proto_decode_varint_fast buf len offset =
     Some (varint_out (varint_ref 0 0 (take (len - offset) (drop offset buf))))"
proof -
  define xs where "xs = take (len - offset) (drop offset buf)"
  have at: "load buf (offset + k) = Some (xs ! k)" if "k < length xs" for k
    using that assms by (simp add: xs_def load_in)
  have lx: "len - offset = length xs" "len \<le> offset \<longleftrightarrow> xs = []"
    using assms by (auto simp: xs_def)
  consider "xs = []" | b0 where "xs = [b0]" | b0 b1 where "xs = [b0, b1]"
    | b0 b1 b2 where "xs = [b0, b1, b2]" | b0 b1 b2 b3 where "xs = [b0, b1, b2, b3]"
    | b0 b1 b2 b3 b4 rs where "xs = b0 # b1 # b2 # b3 # b4 # rs"
    by (metis list.exhaust)
  then have "hs_proto_decode_varint_fast buf len offset = Some (varint_out (varint_ref 0 0 xs))"
  proof cases
    case 1
    then show ?thesis using lx by (simp add: hs_proto_decode_varint_fast_def varint_out_def)
  next
    case 2
    then show ?thesis using lx at [of 0]
      by (simp add: hs_proto_decode_varint_fast_def varint_out_def low7)
  next
    case 3
    then show ?thesis using lx at [of 0] at [of 1]
      by (simp add: hs_proto_decode_varint_fast_def varint_out_def low7 Let_def or.assoc)
  next
    case 4
    then show ?thesis using lx at [of 0] at [of 1] at [of 2]
      by (simp add: hs_proto_decode_varint_fast_def varint_out_def low7 Let_def or.assoc)
  next
    case 5
    then show ?thesis using lx at [of 0] at [of 1] at [of 2] at [of 3]
      by (simp add: hs_proto_decode_varint_fast_def varint_out_def low7 Let_def or.assoc)
  next
    case 6
    have "drop 5 xs = take (len - (offset + 5)) (drop (offset + 5) buf)"
      by (simp add: xs_def drop_take ac_simps)
    then have rs: "take (len - (offset + 5)) (drop (offset + 5) buf) = rs" using 6 by simp
    show ?thesis using 6 lx at [of 0] at [of 1] at [of 2] at [of 3] at [of 4]
      by (simp add: hs_proto_decode_varint_fast_def low7 Let_def or.assoc rs
          varint_slow_loop_ref [OF assms, of offset "offset + 5", simplified])
        (simp add: varint_out_def option.map_comp comp_def split: option.splits)
  qed
  then show ?thesis by (simp add: xs_def)
qed

lemma decode_varint_fast_eq:
  "len \<le> length buf \<Longrightarrow> hs_proto_decode_varint_fast buf len offset =
     Some (varint_out (leb_dec (take (len - offset) (drop offset buf))))"
  by (simp add: decode_varint_fast_ref leb_dec_ref)

subsection \<open>The encoders\<close>

lemma drop_bit_below:
  "unat (drop_bit k (v :: u64)) < 128 \<longleftrightarrow> unat v < 128 * 2 ^ k"
  by (simp only: unat_drop_bit_eq drop_bit_eq_div [where 'a = nat]) (simp add: div_less_iff_less_mult)

lemma encode_varint_loop_eq:
  "encode_varint_loop buf p n v =
     map_option (\<lambda>b. (b, n + length (leb_enc v))) (store_block buf (p + n) (leb_enc v))"
proof (induction buf p n v rule: encode_varint_loop.induct)
  case (1 buf p n v)
  show ?case
  proof (cases "0x80 \<le> v")
    case True
    then have "leb_enc v = ucast ((v AND 0x7F) OR 0x80) # leb_enc (drop_bit 7 v)"
      by (subst leb_enc.simps) (simp add: not_le [symmetric])
    with True 1 show ?thesis
      by (cases "store buf (p + n) (ucast ((v AND 0x7F) OR 0x80))"; subst encode_varint_loop.simps)
        (simp_all add: store_block_Cons)
  next
    case False
    then have "leb_enc v = [ucast v]" by (subst leb_enc.simps) (simp add: not_le)
    with False show ?thesis
      by (subst encode_varint_loop.simps)
        (simp add: store_as_block [symmetric] map_conv_bind_option comp_def)
  qed
qed

lemma leb_enc_long: "0x80 \<le> v \<Longrightarrow> leb_enc v = ucast ((v AND 0x7F) OR 0x80) # leb_enc (drop_bit 7 v)"
  by (subst leb_enc.simps) (simp add: not_le [symmetric])

lemma leb_enc_short: "v < 0x80 \<Longrightarrow> leb_enc v = [ucast v]"
  by (subst leb_enc.simps) simp

lemma hs_proto_encode_varint_eq:
  "hs_proto_encode_varint buf p v =
     map_option (\<lambda>b. (b, length (leb_enc v))) (store_block buf p (leb_enc v))"
proof -
  have d: "drop_bit k v < 0x80 \<longleftrightarrow> unat v < 128 * 2 ^ k" for k
    using drop_bit_below [of k v] by (simp add: word_less_nat_alt)
  have e: "0x80 \<le> drop_bit k v \<longleftrightarrow> 128 * 2 ^ k \<le> unat v" for k
    using d [of k] by (meson not_le)
  note S = hs_proto_encode_varint_def store_block_Cons map_option_bind map_conv_bind_option comp_def
    word_less_nat_alt
  consider "unat v < 0x80" | "0x80 \<le> unat v" "unat v < 0x4000" | "0x4000 \<le> unat v" "unat v < 0x200000"
    | "0x200000 \<le> unat v" "unat v < 0x10000000" | "0x10000000 \<le> unat v" "unat v < 0x800000000"
    | "0x800000000 \<le> unat v" by linarith
  then show ?thesis
  proof cases
    case 1
    then have "leb_enc v = [ucast v]" by (intro leb_enc_short) (simp add: word_less_nat_alt)
    with 1 show ?thesis by (simp add: S, (simp (no_asm) add: numeral_eq_Suc)?)
  next
    case 2
    have "leb_enc v = [ucast ((v AND 0x7F) OR 0x80), ucast (drop_bit 7 v)]"
      using 2 by (subst leb_enc_long) (simp_all add: leb_enc_short d word_le_nat_alt)
    with 2 show ?thesis by (simp add: S, (simp (no_asm) add: numeral_eq_Suc)?)
  next
    case 3
    have "leb_enc v = [ucast ((v AND 0x7F) OR 0x80), ucast ((drop_bit 7 v AND 0x7F) OR 0x80),
        ucast (drop_bit 14 v)]"
      using 3 e [of 7] d [of 14]
      by (subst leb_enc_long, simp add: word_le_nat_alt, subst leb_enc_long) (simp_all add: leb_enc_short)
    with 3 show ?thesis by (simp add: S, (simp (no_asm) add: numeral_eq_Suc)?)
  next
    case 4
    have "leb_enc v = [ucast ((v AND 0x7F) OR 0x80), ucast ((drop_bit 7 v AND 0x7F) OR 0x80),
        ucast ((drop_bit 14 v AND 0x7F) OR 0x80), ucast (drop_bit 21 v)]"
      using 4 e [of 7] e [of 14] d [of 21]
      by (subst leb_enc_long, simp add: word_le_nat_alt, subst leb_enc_long, simp, subst leb_enc_long)
        (simp_all add: leb_enc_short)
    with 4 show ?thesis by (simp add: S, (simp (no_asm) add: numeral_eq_Suc)?)
  next
    case 5
    have "leb_enc v = [ucast ((v AND 0x7F) OR 0x80), ucast ((drop_bit 7 v AND 0x7F) OR 0x80),
        ucast ((drop_bit 14 v AND 0x7F) OR 0x80), ucast ((drop_bit 21 v AND 0x7F) OR 0x80),
        ucast (drop_bit 28 v)]"
      using 5 e [of 7] e [of 14] e [of 21] d [of 28]
      by (subst leb_enc_long, simp add: word_le_nat_alt, subst leb_enc_long, simp,
          subst leb_enc_long, simp, subst leb_enc_long) (simp_all add: leb_enc_short)
    with 5 show ?thesis by (simp add: S, (simp (no_asm) add: numeral_eq_Suc)?)
  next
    case 6
    then show ?thesis
      by (simp add: hs_proto_encode_varint_def encode_varint_loop_eq word_less_nat_alt)
  qed
qed

lemma leb_enc_byte_high: "0x80 \<le> (ucast ((v AND 0x7F) OR 0x80 :: u64) :: u8)"
proof -
  have "bit (0x80 :: u64) 7" by simp
  then show ?thesis by (simp add: byte_high_bit [symmetric] bit_simps)
qed

lemma bit_7F: "bit (0x7F :: 'a::len word) i \<longleftrightarrow> i < 7 \<and> i < LENGTH('a)"
proof -
  have "(0x7F :: 'a word) = mask 7" by (simp add: mask_eq_exp_minus_1)
  then show ?thesis by (auto simp only: bit_mask_iff possible_bit_word)
qed

lemma bit_80: "bit (0x80 :: u64) i \<longleftrightarrow> i = 7"
proof -
  have "(0x80 :: u64) = 2 ^ 7" by simp
  then show ?thesis by (simp only: bit_exp_iff) auto
qed

lemma leb_enc_byte_low: "unat ((ucast ((v AND 0x7F) OR 0x80 :: u64) :: u8) AND 0x7F) = unat v mod 128"
proof -
  have "(ucast ((v AND 0x7F) OR 0x80 :: u64) :: u8) AND 0x7F = ucast (v AND 0x7F)"
  proof (rule bit_word_eqI)
    fix j assume "j < LENGTH(8)"
    then show "bit ((ucast ((v AND 0x7F) OR 0x80 :: u64) :: u8) AND 0x7F) j =
        bit (ucast (v AND 0x7F :: u64) :: u8) j"
      by (simp only: bit_and_iff bit_or_iff bit_ucast_iff bit_7F bit_80) auto
  qed
  moreover have "v AND 0x7F = take_bit 7 v"
    by (simp add: take_bit_eq_mask mask_eq_exp_minus_1)
  ultimately have "unat ((ucast ((v AND 0x7F) OR 0x80 :: u64) :: u8) AND 0x7F) =
      unat (ucast (take_bit 7 v) :: u8)" by simp
  also have "\<dots> = take_bit 8 (take_bit 7 (unat v))"
    by (simp add: unsigned_ucast_eq unsigned_take_bit_eq)
  also have "\<dots> = unat v mod 128" by (simp add: take_bit_eq_mod mod_mod_cancel)
  finally show ?thesis .
qed

lemma ucast_small: "v < 0x80 \<Longrightarrow> unat (ucast (v :: u64) :: u8) = unat v"
  by (simp add: unsigned_ucast_eq take_bit_eq_mod word_less_nat_alt)

lemma leb_len_enc: "leb_len (leb_enc v @ rest) = length (leb_enc v)"
proof (induction v rule: leb_enc.induct)
  case (1 v)
  show ?case
  proof (cases "v < 0x80")
    case True
    then have "\<not> 0x80 \<le> (ucast v :: u8)"
      by (simp add: not_le word_less_nat_alt ucast_small)
    with True show ?thesis by (simp add: leb_enc_short leb_len_def)
  next
    case False
    then have "leb_enc v = ucast ((v AND 0x7F) OR 0x80) # leb_enc (drop_bit 7 v)"
      by (intro leb_enc_long) simp
    with 1 [OF False] show ?thesis
      by (simp add: leb_len_def leb_enc_byte_high)
  qed
qed

lemma leb_value_enc: "leb_value (leb_enc v) = unat v"
proof (induction v rule: leb_enc.induct)
  case (1 v)
  show ?case
  proof (cases "v < 0x80")
    case True
    then have u: "unat (ucast v :: u8) = unat v" by (rule ucast_small)
    with True have "(ucast v :: u8) < 0x80" by (simp add: word_less_nat_alt)
    with True u show ?thesis by (simp add: leb_enc_short low7)
  next
    case False
    then have "leb_enc v = ucast ((v AND 0x7F) OR 0x80) # leb_enc (drop_bit 7 v)"
      by (intro leb_enc_long) simp
    moreover have "unat (drop_bit 7 v) = unat v div 128"
      by (simp only: unat_drop_bit_eq drop_bit_eq_div [where 'a = nat]) simp
    ultimately show ?thesis using 1 [OF False] leb_enc_byte_low [of v] by simp
  qed
qed

lemma leb_enc_length: "unat v < 128 ^ Suc k \<Longrightarrow> length (leb_enc v) \<le> Suc k"
proof (induction k arbitrary: v)
  case 0
  then show ?case by (simp add: leb_enc_short word_less_nat_alt)
next
  case (Suc k)
  show ?case
  proof (cases "v < 0x80")
    case False
    have "unat (drop_bit 7 v) = unat v div 128"
      by (simp only: unat_drop_bit_eq drop_bit_eq_div [where 'a = nat]) simp
    also have "\<dots> < 128 ^ Suc k" using Suc.prems by (simp add: div_less_iff_less_mult ac_simps)
    finally show ?thesis using Suc.IH [of "drop_bit 7 v"] False by (simp add: leb_enc_long)
  qed (simp add: leb_enc_short)
qed

lemma leb_enc_max: "length (leb_enc v) \<le> 10"
  using leb_enc_length [of v 9] unsigned_less [of v] by (simp add: less_trans [OF unsigned_less])

lemma leb_enc_nonempty [simp]: "leb_enc v \<noteq> []"
  by (subst leb_enc.simps) simp

lemma leb_dec_enc: "leb_dec (leb_enc v @ rest) = Some (length (leb_enc v), v)"
  using leb_enc_max [of v] by (simp add: leb_dec_def leb_len_enc leb_value_enc)

subsection \<open>Skipping\<close>

lemma skip_varint_loop_eq:
  "offset + avail \<le> length buf \<Longrightarrow> skip_varint_loop buf offset avail k =
     Some (case first_pos (\<lambda>b. b < 0x80) (drop offset buf) k avail of None \<Rightarrow> 0 | Some j \<Rightarrow> j + 1)"
proof (induction buf offset avail k rule: skip_varint_loop.induct)
  case (1 buf offset avail k)
  then show ?case
    by (cases "k < avail"; subst skip_varint_loop.simps) (simp_all add: load_in first_pos_step)
qed

lemma leb_len_pos:
  assumes "leb_len bs \<le> length bs"
  shows "first_pos (\<lambda>b. b < 0x80) bs 0 (length bs) = Some (leb_len bs - 1)"
proof -
  let ?n = "length (takeWhile (\<lambda>b. 0x80 \<le> b) bs)"
  have "?n < length bs" using assms by (simp add: leb_len_def)
  moreover from nth_length_takeWhile [OF this] have "bs ! ?n < 0x80" by (simp add: not_le)
  moreover have "\<not> bs ! k < 0x80" if "k < ?n" for k
    using that set_takeWhileD [of "bs ! k" "\<lambda>b. 0x80 \<le> b" bs] takeWhile_nth [OF that]
    by (metis nth_mem not_le)
  ultimately show ?thesis by (simp add: first_pos_Some_iff leb_len_def)
qed

lemma leb_len_none:
  assumes "\<not> leb_len bs \<le> length bs" and "b \<in> set bs"
  shows "0x80 \<le> b"
proof -
  have "length (takeWhile (\<lambda>b. 0x80 \<le> b) bs) = length bs"
    using assms(1) length_takeWhile_le [of "\<lambda>b. 0x80 \<le> b" bs] by (simp add: leb_len_def)
  then have "takeWhile (\<lambda>b. 0x80 \<le> b) bs = bs"
    by (metis takeWhile_eq_take take_all order_refl)
  with assms(2) show ?thesis by (metis set_takeWhileD)
qed

lemma hs_proto_skip_varint_eq:
  assumes "len \<le> length buf"
  shows "hs_proto_skip_varint buf len offset =
     Some (fst (varint_out (leb_dec (take (len - offset) (drop offset buf)))))"
proof -
  define xs where "xs = take (len - offset) (drop offset buf)"
  define avail where "avail = min 10 (length xs)"
  have lx: "length xs = len - offset" using assms by (simp add: xs_def)
  have "hs_proto_skip_varint buf len offset = skip_varint_loop buf offset avail 0"
    using lx by (simp add: hs_proto_skip_varint_def avail_def min_def Let_def)
  also have "\<dots> = Some (case first_pos (\<lambda>b. b < 0x80) (drop offset buf) 0 avail of
      None \<Rightarrow> 0 | Some j \<Rightarrow> j + 1)"
  proof (cases "offset < len")
    case True
    then show ?thesis using assms lx by (intro skip_varint_loop_eq) (simp add: avail_def)
  next
    case False
    then have "avail = 0" using lx by (simp add: avail_def)
    then show ?thesis by (simp add: skip_varint_loop.simps)
  qed
  also have "first_pos (\<lambda>b. b < 0x80) (drop offset buf) 0 avail = first_pos (\<lambda>b. b < 0x80) xs 0 avail"
    unfolding first_pos_def by (rule find_cong) (use lx in \<open>auto simp: avail_def xs_def\<close>)
  also have "(case first_pos (\<lambda>b. b < 0x80) xs 0 avail of None \<Rightarrow> 0 | Some j \<Rightarrow> j + 1) =
      fst (varint_out (leb_dec xs))"
  proof (cases "leb_len xs \<le> length xs")
    case True
    then have p: "first_pos (\<lambda>b. b < 0x80) xs 0 (length xs) = Some (leb_len xs - 1)"
      by (rule leb_len_pos)
    have pos: "0 < leb_len xs" by (simp add: leb_len_def)
    show ?thesis
    proof (cases "leb_len xs \<le> 10")
      case True
      then have "first_pos (\<lambda>b. b < 0x80) xs 0 avail = Some (leb_len xs - 1)"
        using p pos \<open>leb_len xs \<le> length xs\<close> by (auto simp: first_pos_Some_iff avail_def)
      with True pos \<open>leb_len xs \<le> length xs\<close> show ?thesis by (simp add: leb_dec_def varint_out_def)
    next
      case False
      then have "first_pos (\<lambda>b. b < 0x80) xs 0 avail = None"
        using p by (auto simp: first_pos_None_iff first_pos_Some_iff avail_def)
      with False show ?thesis by (simp add: leb_dec_def varint_out_def)
    qed
  next
    case False
    then have "first_pos (\<lambda>b. b < 0x80) xs 0 avail = None"
      using leb_len_none [OF False] by (auto simp: first_pos_None_iff avail_def not_less)
    with False show ?thesis by (simp add: leb_dec_def varint_out_def)
  qed
  finally show ?thesis by (simp add: xs_def)
qed

subsection \<open>The SWAR decoder\<close>

lemma bit_leb_value:
  "bit (of_nat (leb_value bs) :: u64) j \<longleftrightarrow> j < 64 \<and> j div 7 < length bs \<and> bit (bs ! (j div 7)) (j mod 7)"
proof (induction bs arbitrary: j)
  case (Cons b bs)
  have "(of_nat (unat (b AND 0x7F)) :: u64) = ucast (b AND 0x7F)" by simp
  moreover have "(of_nat (unat (b AND 0x7F)) :: u64) OR push_bit 7 (of_nat (leb_value bs)) =
      of_nat (unat (b AND 0x7F)) + push_bit 7 (of_nat (leb_value bs))"
    by (rule or_disjoint_add) (use low7_less [of b] in simp_all)
  ultimately have eq: "(of_nat (leb_value (b # bs)) :: u64) =
      ucast (b AND 0x7F) OR push_bit 7 (of_nat (leb_value bs))"
    by (simp add: push_bit_eq_mult)
  show ?case
  proof (cases "j < 7")
    case True
    then show ?thesis
      unfolding eq
      by (simp only: bit_or_iff bit_and_iff bit_ucast_iff bit_push_bit_iff bit_7F) auto
  next
    case False
    then obtain k where k: "j = k + 7" by (metis add.commute le_Suc_ex not_less)
    moreover have "(k + 7) div 7 = Suc (k div 7)" by simp
    ultimately show ?thesis
      unfolding eq using Cons [of k]
      by (simp only: bit_or_iff bit_and_iff bit_ucast_iff bit_push_bit_iff bit_7F) auto
  qed
qed simp

lemma bit_swar_group:
  "bit (drop_bit g s AND push_bit (7 * g) 0x7F :: u64) j \<longleftrightarrow> j < 64 \<and> j div 7 = g \<and> bit s (g + j)"
proof -
  have "7 * g \<le> j \<and> j - 7 * g < 7 \<longleftrightarrow> j div 7 = g" by auto
  then show ?thesis
    by (auto simp only: bit_and_iff bit_drop_bit_eq comp_def bit_push_bit_iff bit_7F
        possible_bit_word dest: bit_imp_le_length) auto
qed

lemma bit_swar_compact:
  "bit (swar_compact s) j \<longleftrightarrow> j < 56 \<and> bit s (j div 7 + j)"
proof -
  have "bit (swar_compact s) j \<longleftrightarrow> (\<exists>g<8. bit (drop_bit g s AND push_bit (7 * g) 0x7F) j)"
    by (simp add: swar_compact_def bit_or_iff numeral_eq_Suc Ex_less_Suc disj_ac)
  also have "\<dots> \<longleftrightarrow> j < 64 \<and> j div 7 < 8 \<and> bit s (j div 7 + j)"
    by (auto simp only: bit_swar_group)
  also have "\<dots> \<longleftrightarrow> j < 56 \<and> bit s (j div 7 + j)" by auto
  finally show ?thesis .
qed

lemma swar_term_mask:
  assumes "length bs = 8"
  shows "bit ((le_word bs XOR swar_high) AND swar_high) i \<longleftrightarrow>
     i < 64 \<and> i mod 8 = 7 \<and> bs ! (i div 8) < 0x80"
proof -
  have "bit (bs ! (i div 8)) (i mod 8) \<longleftrightarrow> \<not> bs ! (i div 8) < 0x80" if "i mod 8 = 7"
    using that by (simp add: byte_high_bit not_less)
  then show ?thesis
    using assms by (auto simp: bit_and_iff bit_xor_iff bit_swar_high bit_le_word)
qed

text \<open>The first 8-byte word of a varint whose terminator is byte \<open>k\<close>.\<close>

lemma swar_value:
  assumes "length bs = 8" and "k < 8"
  shows "swar_compact ((le_word bs AND (if 8 * k + 7 < 63 then push_bit (8 * k + 7 + 1) 1 - 1 else NOT 0))
      AND NOT swar_high) = of_nat (leb_value (take (Suc k) bs))"
    (is "swar_compact ((_ AND ?m) AND _) = _")
proof (rule bit_word_eqI)
  fix j assume "j < LENGTH(64)"
  have m: "bit ?m i \<longleftrightarrow> i < 64 \<and> i \<le> 8 * k + 7" for i
  proof (cases "8 * k + 7 < 63")
    case True
    have "(push_bit (8 * k + 7 + 1) 1 - 1 :: u64) = mask (8 * k + 8)"
      by (simp add: mask_eq_exp_minus_1 add.commute [of 8])
    with True show ?thesis by (auto simp: bit_mask_iff)
  next
    case False
    with assms(2) have "8 * k + 7 = 63" by simp
    with False show ?thesis by (auto simp: bit_not_iff dest: bit_imp_le_length)
  qed
  define q r where "q = j div 7" and "r = j mod 7"
  have j: "j div 7 + j = 8 * q + r" and r: "r < 7" by (simp_all add: q_def r_def)
  have "(8 * q + r) div 8 = q" "(8 * q + r) mod 8 = r" using r by simp_all
  then have idx: "(j div 7 + j) div 8 = j div 7" "(j div 7 + j) mod 8 = j mod 7"
    by (simp_all only: j) (simp_all add: q_def r_def)
  have lt: "j div 7 + j < 64" if "j < 56" using that by auto
  have "j div 7 + j \<le> 8 * k + 7 \<longleftrightarrow> j div 7 < Suc k" 
    unfolding j using r by (auto simp: q_def [symmetric])
  moreover have "j mod 7 \<noteq> 7" using r by (simp add: r_def)
  ultimately show "bit (swar_compact ((le_word bs AND ?m) AND NOT swar_high)) j =
      bit (of_nat (leb_value (take (Suc k) bs)) :: u64) j"
    using assms idx lt
    by (cases "j < 56")
      (auto simp only: bit_swar_compact bit_leb_value bit_and_iff bit_not_iff m bit_swar_high bit_le_word
        possible_bit_word length_take nth_take min_less_iff_conj, auto)
qed

lemma decode_varint_swar_eq:
  assumes "offset + 8 \<le> length buf"
  shows "hs_proto_decode_varint_swar buf offset =
     Some (varint_out (leb_dec (take 8 (drop offset buf))))"
proof -
  define bs where "bs = take 8 (drop offset buf)"
  define w :: u64 where "w = le_word bs"
  define t where "t = (w XOR swar_high) AND swar_high"
  have bs: "length bs = 8" using assms by (simp add: bs_def)
  have ld: "load_le 8 buf offset = Some w" using assms by (simp add: load_le_in w_def bs_def)
  have tb: "bit t i \<longleftrightarrow> i < 64 \<and> i mod 8 = 7 \<and> bs ! (i div 8) < 0x80" for i
    unfolding t_def w_def by (rule swar_term_mask [OF bs])
  show ?thesis
  proof (cases "leb_len bs \<le> 8")
    case False
    then have "0x80 \<le> b" if "b \<in> set bs" for b using that bs leb_len_none [of bs b] by simp
    then have high: "\<not> bs ! i < 0x80" if "i < 8" for i using that bs by (simp add: not_less)
    then have "t = 0" by (intro bit_word_eqI) (simp add: tb)
    moreover have "w AND 0x80 \<noteq> 0"
    proof -
      have "bit (w AND 0x80) 7"
        using high [of 0] bs by (simp only: bit_and_iff bit_80 w_def bit_le_word) (simp add: byte_high_bit)
      then show ?thesis by (metis bit_0_eq bot_apply bot_bool_def)
    qed
    ultimately show ?thesis
      using False bs ld
      by (simp add: hs_proto_decode_varint_swar_def leb_dec_def varint_out_def bs_def [symmetric]
          t_def [symmetric] Let_def)
  next
    case True
    define k where "k = leb_len bs - 1"
    have k: "k < 8" "leb_len bs = Suc k" using True by (simp_all add: k_def leb_len_def)
    have pos: "first_pos (\<lambda>b. b < 0x80) bs 0 8 = Some k"
      using leb_len_pos [of bs] True bs by (simp add: k_def)
    have tm: "bs ! k < 0x80" and cont: "\<And>i. i < k \<Longrightarrow> \<not> bs ! i < 0x80"
      using pos by (auto simp: first_pos_Some_iff)
    have out: "varint_out (leb_dec bs) = (Suc k, Some (of_nat (leb_value (take (Suc k) bs))))"
      using k bs by (simp add: leb_dec_def varint_out_def)
    have ctz: "builtin_ctz t = 8 * k + 7"
    proof (rule builtin_ctz_first)
      show "bit t (8 * k + 7)" using tm k tb by simp
      fix i assume "i < 8 * k + 7"
      then have "i mod 8 = 7 \<Longrightarrow> i div 8 < k" by presburger
      then show "\<not> bit t i" using cont tb by auto
    qed
    have "bit t (8 * k + 7)" using tm k tb by simp
    then have t: "t \<noteq> 0" by auto
    show ?thesis
    proof (cases "w AND 0x80 = 0")
      case False
      then show ?thesis
        using ld t ctz out swar_value [OF bs k(1)]
        by (simp add: hs_proto_decode_varint_swar_def bs_def [symmetric] t_def [symmetric]
            w_def [symmetric] Let_def)
    next
      case one: True
      have "k = 0"
      proof (rule ccontr)
        assume "k \<noteq> 0"
        then have "bit (w AND 0x80) 7"
          using cont [of 0] bs
          by (simp only: bit_and_iff bit_80 w_def bit_le_word) (simp add: byte_high_bit)
        with one show False by simp
      qed
      have "w AND 0x7F = of_nat (leb_value (take 1 bs))"
      proof (rule bit_word_eqI)
        fix j assume "j < LENGTH(64)"
        show "bit (w AND 0x7F) j = bit (of_nat (leb_value (take 1 bs)) :: u64) j"
          using bs by (cases "j < 7") (simp_all only: bit_and_iff bit_7F w_def bit_le_word bit_leb_value, auto)
      qed
      with one ld out \<open>k = 0\<close> show ?thesis
        by (simp add: hs_proto_decode_varint_swar_def bs_def [symmetric])
    qed
  qed
qed

subsection \<open>Properties\<close>

text \<open>C7: the fast decoder decodes exactly the base-128 varints of at most ten bytes that end within
  the buffer, with the value reduced to 64 bits, and reports an error for everything else; it never
  reads outside the buffer.  The skipper consumes the same bytes.\<close>

theorem varint_decode_exact:
  assumes "len \<le> length buf"
  shows "hs_proto_decode_varint_fast buf len offset =
      Some (varint_out (leb_dec (take (len - offset) (drop offset buf)))) \<and>
    hs_proto_skip_varint buf len offset =
      Some (fst (varint_out (leb_dec (take (len - offset) (drop offset buf)))))"
  using assms by (simp add: decode_varint_fast_eq hs_proto_skip_varint_eq)

theorem varint_decode_exact_witness:
  "hs_proto_decode_varint_fast [8, 0x96, 1] 3 1 =
      Some (varint_out (leb_dec (take (3 - 1) (drop 1 [8, 0x96, 1])))) \<and>
    hs_proto_skip_varint [8, 0x96, 1] 3 1 =
      Some (fst (varint_out (leb_dec (take (3 - 1) (drop 1 [8, 0x96, 1])))))"
  by (rule varint_decode_exact) simp

text \<open>The SWAR decoder agrees with the byte-by-byte decoder whenever it answers, and it declines
  (returns 0) only for a varint that does not end within its 8-byte window, so a caller that falls
  back to the byte-by-byte decoder on 0 computes the same result for every input.\<close>

theorem varint_swar_agrees:
  assumes "offset + 8 \<le> len" and "len \<le> length buf"
  shows "\<exists>n v. hs_proto_decode_varint_swar buf offset = Some (n, v) \<and>
    (if n = 0 then \<forall>i<8. 0x80 \<le> buf ! (offset + i)
     else hs_proto_decode_varint_fast buf len offset = Some (n, v))"
proof -
  define bs where "bs = take 8 (drop offset buf)"
  define ws where "ws = take (len - offset) (drop offset buf)"
  have bs: "length bs = 8" and ws: "bs = take 8 ws" "8 \<le> length ws"
    using assms by (auto simp: bs_def ws_def)
  have swar: "hs_proto_decode_varint_swar buf offset = Some (varint_out (leb_dec bs))"
    using decode_varint_swar_eq [of offset buf] assms by (simp add: bs_def)
  have fast: "hs_proto_decode_varint_fast buf len offset = Some (varint_out (leb_dec ws))"
    using decode_varint_fast_eq [OF assms(2)] by (simp add: ws_def)
  show ?thesis
  proof (cases "leb_len bs \<le> 8")
    case True
    have "takeWhile (\<lambda>b. 0x80 \<le> b) ws = takeWhile (\<lambda>b. 0x80 \<le> b) bs"
    proof -
      have "length (takeWhile (\<lambda>b. 0x80 \<le> b) bs) < length bs" using True bs by (simp add: leb_len_def)
      then have "\<exists>b \<in> set bs. \<not> 0x80 \<le> b" by (metis takeWhile_eq_all_conv less_irrefl)
      moreover have "ws = bs @ drop 8 ws" using ws by simp
      ultimately show ?thesis by (metis takeWhile_append1)
    qed
    then have "leb_len ws = leb_len bs" by (simp add: leb_len_def)
    moreover have "take (leb_len bs) ws = take (leb_len bs) bs" using True ws by (simp add: min_def)
    ultimately have "leb_dec ws = leb_dec bs"
      using True bs ws(2) by (simp add: leb_dec_def)
    then show ?thesis using swar fast True bs
      by (simp add: leb_dec_def varint_out_def) (simp add: leb_len_def)
  next
    case False
    then have "\<forall>i<8. 0x80 \<le> buf ! (offset + i)"
      using leb_len_none [of bs] bs assms nth_mem [of _ bs] by (auto simp: bs_def)
    then show ?thesis using swar False bs by (simp add: leb_dec_def varint_out_def)
  qed
qed

theorem varint_swar_agrees_witness:
  "\<exists>n v. hs_proto_decode_varint_swar [0x96, 1, 0, 0, 0, 0, 0, 0] 0 = Some (n, v) \<and>
    (if n = 0 then \<forall>i<8. 0x80 \<le> [0x96, 1, 0, 0, 0, 0, 0, 0 :: u8] ! (0 + i)
     else hs_proto_decode_varint_fast [0x96, 1, 0, 0, 0, 0, 0, 0] 8 0 = Some (n, v))"
  by (rule varint_swar_agrees) simp_all

text \<open>C8: encoding then decoding any 64-bit value gives the value back and consumes exactly the bytes
  written, between one and ten, with whatever follows in the buffer; the encoder faults exactly when
  they do not fit and changes nothing else.\<close>

theorem varint_roundtrip:
  assumes "hs_proto_encode_varint buf offset v = Some (buf', n)"
    and "offset + n \<le> len" and "len \<le> length buf"
  shows "hs_proto_decode_varint_fast buf' len offset = Some (n, Some v) \<and>
    hs_proto_skip_varint buf' len offset = Some n \<and> 1 \<le> n \<and> n \<le> 10 \<and>
    frame offset (offset + n) buf buf'"
proof -
  from assms(1) have st: "store_block buf offset (leb_enc v) = Some buf'" and n: "n = length (leb_enc v)"
    by (auto simp: hs_proto_encode_varint_eq)
  have len: "length buf' = length buf" by (rule store_block_length [OF st])
  have "take n (drop offset buf') = leb_enc v" using store_block_written [OF st] n by simp
  then have "take (len - offset) (drop offset buf') = leb_enc v @ drop n (take (len - offset) (drop offset buf'))"
    using assms(2) append_take_drop_id [of n "take (len - offset) (drop offset buf')"]
    by (simp add: min_def split: if_splits)
  then have "leb_dec (take (len - offset) (drop offset buf')) = Some (n, v)"
    using leb_dec_enc [of v] n by metis
  moreover have "1 \<le> n" using n by (simp add: Suc_le_eq)
  ultimately show ?thesis
    using assms(3) len n leb_enc_max [of v] store_block_frame [OF st]
    by (simp add: decode_varint_fast_eq hs_proto_skip_varint_eq varint_out_def)
qed

theorem varint_roundtrip_witness:
  "hs_proto_decode_varint_fast [0x96, 1, 7] 3 0 = Some (2, Some 150) \<and>
    hs_proto_skip_varint [0x96, 1, 7] 3 0 = Some 2 \<and> (1 :: nat) \<le> 2 \<and> (2 :: nat) \<le> 10 \<and>
    frame 0 (0 + 2) [5, 6, 7 :: u8] [0x96, 1, 7]"
  by (rule varint_roundtrip) (simp_all add: hs_proto_encode_varint_def store_def Let_def)

end
