(* ===== verification/Ascii_Scan.thy ===== *)
theory Ascii_Scan
  imports Endian
begin

text \<open>
  The three nested widths (16-byte vectors, 8-byte words, bytes) with which
  \<open>wireform-core/cbits/fast_decode.c\<close> looks for a byte with the high bit set:
  \<open>hs_proto_packed_all_single_byte\<close>, \<open>hs_proto_is_ascii\<close> and the ASCII prefix of
  \<open>hs_proto_validate_utf8_fast\<close> are instances.  \<open>Inl i\<close> means that a high byte was seen in the
  block at \<open>i\<close>, and that every byte before \<open>i\<close> is below \<open>0x80\<close>.
\<close>

function high_blocks16 :: "bytes \<Rightarrow> nat \<Rightarrow> nat \<Rightarrow> (nat + nat) option" where
  "high_blocks16 buf i len =
     (if 16 \<le> len - i then do {
        chunk \<leftarrow> simde_mm_loadu_si128 buf i;
        let has_high = simde_mm_and_si128 chunk (simde_mm_set1_epi8 0x80);
        if simde_mm_movemask_epi8 has_high \<noteq> 0 then Some (Inl i)
        else high_blocks16 buf (i + 16) len
      }
      else Some (Inr i))"
  by pat_completeness auto
termination
  by (relation "measure (\<lambda>(buf, i, len). len - i)") auto

function high_words8 :: "bytes \<Rightarrow> nat \<Rightarrow> nat \<Rightarrow> (nat + nat) option" where
  "high_words8 buf i len =
     (if 8 \<le> len - i then do {
        w \<leftarrow> load_le 8 buf i;
        if (w :: u64) AND swar_high \<noteq> 0 then Some (Inl i)
        else high_words8 buf (i + 8) len
      }
      else Some (Inr i))"
  by pat_completeness auto
termination
  by (relation "measure (\<lambda>(buf, i, len). len - i)") auto

function high_bytes :: "bytes \<Rightarrow> nat \<Rightarrow> nat \<Rightarrow> (nat + nat) option" where
  "high_bytes buf i len =
     (if i < len then do {
        b \<leftarrow> load buf i;
        if 0x80 \<le> b then Some (Inl i) else high_bytes buf (i + 1) len
      }
      else Some (Inr i))"
  by pat_completeness auto
termination
  by (relation "measure (\<lambda>(buf, i, len). len - i)") auto

declare high_blocks16.simps [simp del] high_words8.simps [simp del] high_bytes.simps [simp del]

text \<open>One width after the other, while nothing was found.\<close>

definition then_scan ::
  "(nat + nat) option \<Rightarrow> (nat \<Rightarrow> (nat + nat) option) \<Rightarrow> (nat + nat) option" where
  "then_scan r f = Option.bind r (\<lambda>s. case s of Inl i \<Rightarrow> Some (Inl i) | Inr i \<Rightarrow> f i)"

definition high_scan :: "bytes \<Rightarrow> nat \<Rightarrow> (nat + nat) option" where
  "high_scan buf len =
     then_scan (then_scan (high_blocks16 buf 0 len) (\<lambda>i. high_words8 buf i len))
       (\<lambda>i. high_bytes buf i len)"

definition hs_proto_packed_all_single_byte :: "bytes \<Rightarrow> nat \<Rightarrow> int option" where
  "hs_proto_packed_all_single_byte buf len =
     map_option (\<lambda>r. case r of Inl i \<Rightarrow> 0 | Inr i \<Rightarrow> 1) (high_scan buf len)"

definition hs_proto_is_ascii :: "bytes \<Rightarrow> nat \<Rightarrow> int \<Rightarrow> int option" where
  "hs_proto_is_ascii buf offset len =
     (if len \<le> 0 then Some 1
      else do {
        let p = drop offset buf;
        r \<leftarrow> then_scan (high_blocks16 p 0 (nat len)) (\<lambda>i. high_bytes p i (nat len));
        Some (case r of Inl i \<Rightarrow> 0 | Inr i \<Rightarrow> 1)
      })"

text \<open>What each loop establishes from position \<open>i\<close>.\<close>

definition ascii_to :: "bytes \<Rightarrow> nat \<Rightarrow> nat \<Rightarrow> bool" where
  "ascii_to buf i j \<longleftrightarrow> (\<forall>k. i \<le> k \<and> k < j \<longrightarrow> buf ! k < 0x80)"

definition scan_post :: "bytes \<Rightarrow> nat \<Rightarrow> nat \<Rightarrow> nat \<Rightarrow> (nat + nat) option \<Rightarrow> bool" where
  "scan_post buf i len w r \<longleftrightarrow>
     (case r of
        None \<Rightarrow> False
      | Some (Inl j) \<Rightarrow> i \<le> j \<and> j < len \<and> ascii_to buf i j \<and> \<not> ascii_to buf j len
      | Some (Inr j) \<Rightarrow> i \<le> j \<and> (i \<le> len \<longrightarrow> j \<le> len) \<and> len - j < w \<and> ascii_to buf i j)"

lemma ascii_to_join: "ascii_to buf i j \<Longrightarrow> ascii_to buf j k \<Longrightarrow> ascii_to buf i k"
  by (auto simp: ascii_to_def) (metis not_le)

lemma ascii_to_chunk:
  "i + n \<le> length buf \<Longrightarrow> (\<forall>b \<in> set (take n (drop i buf)). b < 0x80) \<longleftrightarrow> ascii_to buf i (i + n)"
  by (auto simp: ascii_to_def all_set_conv_all_nth)
    (metis add_diff_inverse_nat less_diff_conv2 nat_add_left_cancel_less not_le)

lemma ascii_to_mono: "ascii_to buf i len \<Longrightarrow> j \<le> len \<Longrightarrow> ascii_to buf i j"
  by (auto simp: ascii_to_def)

text \<open>One step of any of the loops.\<close>

lemma scan_post_step:
  assumes "ascii_to buf i (i + n)" and "scan_post buf (i + n) len w r" and "i + n \<le> len"
  shows "scan_post buf i len w r"
  using assms
  by (auto simp: scan_post_def intro: ascii_to_join split: option.splits sum.splits)

lemma scan_post_hit:
  "\<not> ascii_to buf i (i + n) \<Longrightarrow> i + n \<le> len \<Longrightarrow> i < len \<Longrightarrow> scan_post buf i len w (Some (Inl i))"
  by (auto simp: scan_post_def dest: ascii_to_mono) (auto simp: ascii_to_def)

lemma scan_post_end: "len - i < w \<Longrightarrow> scan_post buf i len w (Some (Inr i))"
  by (auto simp: scan_post_def ascii_to_def)

lemma high_block_test:
  assumes "length v = 16"
  shows "simde_mm_movemask_epi8 (simde_mm_and_si128 v (simde_mm_set1_epi8 0x80)) = 0 \<longleftrightarrow>
    (\<forall>b \<in> set v. b < 0x80)"
proof -
  have high: "bit (b AND 0x80) 7 \<longleftrightarrow> 0x80 \<le> b" for b :: u8
    by (simp only: bit_and_iff byte_high_bit [of b]) simp
  have lane: "bit (simde_mm_movemask_epi8 (simde_mm_and_si128 v (simde_mm_set1_epi8 0x80))) i \<longleftrightarrow>
      i < 16 \<and> 0x80 \<le> v ! i" for i
    using assms by (cases "i < 16") (simp_all add: simd_simps high)
  have zero: "w = 0 \<longleftrightarrow> (\<forall>i. \<not> bit w i)" for w :: u32
    by (auto intro!: bit_word_eqI)
  show ?thesis
    unfolding zero lane using assms by (auto simp: all_set_conv_all_nth simp flip: not_le)
qed

lemma high_blocks16_post:
  "len \<le> length buf \<Longrightarrow> scan_post buf i len 16 (high_blocks16 buf i len)"
proof (induction buf i len rule: high_blocks16.induct)
  case (1 buf i len)
  show ?case
  proof (cases "16 \<le> len - i")
    case True
    then have v: "simde_mm_loadu_si128 buf i = Some (take 16 (drop i buf))"
      and "length (take 16 (drop i buf)) = 16"
      using 1(2) by (simp_all add: simde_mm_loadu_si128_def load_block_in)
    then have "simde_mm_movemask_epi8 (simde_mm_and_si128 (take 16 (drop i buf))
        (simde_mm_set1_epi8 0x80)) = 0 \<longleftrightarrow> ascii_to buf i (i + 16)"
      using True 1(2) by (simp add: high_block_test ascii_to_chunk)
    with True v 1 show ?thesis
      by (subst high_blocks16.simps) (auto simp: Let_def intro: scan_post_step scan_post_hit)
  qed (simp add: high_blocks16.simps scan_post_end)
qed

lemma high_words8_post:
  "len \<le> length buf \<Longrightarrow> scan_post buf i len 8 (high_words8 buf i len)"
proof (induction buf i len rule: high_words8.induct)
  case (1 buf i len)
  show ?case
  proof (cases "8 \<le> len - i")
    case True
    then have "(le_word (take 8 (drop i buf)) :: u64) AND swar_high = 0 \<longleftrightarrow> ascii_to buf i (i + 8)"
      using 1(2) by (simp add: swar_high_zero ascii_to_chunk)
    with True 1 show ?thesis
      by (subst high_words8.simps) (auto simp: load_le_in intro: scan_post_step scan_post_hit)
  qed (simp add: high_words8.simps scan_post_end)
qed

lemma high_bytes_post:
  "len \<le> length buf \<Longrightarrow> scan_post buf i len 1 (high_bytes buf i len)"
proof (induction buf i len rule: high_bytes.induct)
  case (1 buf i len)
  show ?case
  proof (cases "i < len")
    case True
    have "ascii_to buf i (i + 1) \<longleftrightarrow> \<not> 0x80 \<le> buf ! i"
      by (auto simp: ascii_to_def not_le less_Suc_eq_le dest: le_antisym)
    with True 1 show ?thesis
      by (subst high_bytes.simps)
        (auto simp: load_in intro: scan_post_step [where n = 1] scan_post_hit [where n = 1])
  qed (simp add: high_bytes.simps scan_post_end)
qed

lemma then_scan_post:
  assumes "scan_post buf i len w r"
    and "\<And>j. i \<le> j \<Longrightarrow> scan_post buf j len w' (f j)"
  shows "scan_post buf i len w' (then_scan r f)"
proof -
  consider (hit) j where "r = Some (Inl j)" | (go) j where "r = Some (Inr j)"
    using assms(1) by (cases r; cases "the r") (auto simp: scan_post_def)
  then show ?thesis
  proof cases
    case hit
    with assms(1) show ?thesis by (simp add: then_scan_def scan_post_def)
  next
    case go
    with assms(1) have "i \<le> j" "ascii_to buf i j" "i \<le> len \<longrightarrow> j \<le> len" by (simp_all add: scan_post_def)
    with assms(2) [of j] go show ?thesis
      by (auto simp: then_scan_def scan_post_def intro: ascii_to_join split: option.splits sum.splits)
  qed
qed

lemma high_scan_post: "len \<le> length buf \<Longrightarrow> scan_post buf 0 len 1 (high_scan buf len)"
  unfolding high_scan_def
  by (intro then_scan_post [where w = 8] then_scan_post [where w = 16] high_blocks16_post
      high_words8_post high_bytes_post)

lemma scan_post_result:
  assumes "scan_post buf 0 len 1 r" and "len \<le> length buf"
  shows "map_option (\<lambda>r. case r of Inl i \<Rightarrow> 0 | Inr i \<Rightarrow> (1 :: int)) r =
     Some (if \<forall>b \<in> set (take len buf). b < 0x80 then 1 else 0)"
proof -
  have "(\<forall>b \<in> set (take len buf). b < 0x80) \<longleftrightarrow> ascii_to buf 0 len"
    using ascii_to_chunk [of 0 len buf] assms(2) by simp
  then show ?thesis
    using assms(1)
    by (auto simp: scan_post_def split: option.splits sum.splits) (auto simp: ascii_to_def)
qed

lemma all_single_byte_eq:
  "len \<le> length buf \<Longrightarrow> hs_proto_packed_all_single_byte buf len =
     Some (if \<forall>b \<in> set (take len buf). b < 0x80 then 1 else 0)"
  unfolding hs_proto_packed_all_single_byte_def
  by (rule scan_post_result [OF high_scan_post])

text \<open>\<open>hs_proto_is_ascii\<close> answers whether every byte of the window is below \<open>0x80\<close>, with all reads
  inside the buffer.\<close>

theorem is_ascii_correct:
  assumes "offset + nat len \<le> length buf"
  shows "hs_proto_is_ascii buf offset len =
    Some (if \<forall>b \<in> set (take (nat len) (drop offset buf)). b < 0x80 then 1 else 0)"
proof (cases "len \<le> 0")
  case False
  define p where "p = drop offset buf"
  have len: "nat len \<le> length p" using assms by (simp add: p_def)
  have "scan_post p 0 (nat len) 1
      (then_scan (high_blocks16 p 0 (nat len)) (\<lambda>i. high_bytes p i (nat len)))"
    using len by (intro then_scan_post [where w = 16] high_blocks16_post high_bytes_post)
  from scan_post_result [OF this len] False show ?thesis
    by (simp add: hs_proto_is_ascii_def p_def [symmetric] map_conv_bind_option comp_def)
qed (simp add: hs_proto_is_ascii_def)

theorem is_ascii_correct_witness:
  "hs_proto_is_ascii [0xFF, 0x41, 0x42] 1 2 =
    Some (if \<forall>b \<in> set (take (nat 2) (drop 1 [0xFF, 0x41, 0x42 :: u8])). b < 0x80 then 1 else 0)"
  by (rule is_ascii_correct) simp

end
