(* ===== verification/Stream_Codec.thy ===== *)
theory Stream_Codec
  imports Prelude
begin

text \<open>
  The interface between a self-delimiting element format and the code that reads a run of such
  elements: decoding the encoding of an element followed by anything gives the element and the
  number of bytes it took.  A strict format moreover accepts nothing but encodings.
\<close>

text \<open>A whole byte string as a run of elements.\<close>

function dec_list :: "(bytes \<Rightarrow> (nat \<times> 'a) option) \<Rightarrow> bytes \<Rightarrow> 'a list option" where
  "dec_list dec bs =
     (if bs = [] then Some []
      else case dec bs of
        None \<Rightarrow> None
      | Some (n, x) \<Rightarrow>
          if n = 0 then None else map_option ((#) x) (dec_list dec (drop n bs)))"
  by pat_completeness auto
termination
  by (relation "measure (\<lambda>(dec, bs). length bs)") auto

declare dec_list.simps [simp del]

lemma dec_list_Nil [simp]: "dec_list dec [] = Some []"
  by (simp add: dec_list.simps)

lemma dec_list_step:
  "dec bs = Some (n, x) \<Longrightarrow> 0 < n \<Longrightarrow> bs \<noteq> [] \<Longrightarrow>
     dec_list dec bs = map_option ((#) x) (dec_list dec (drop n bs))"
  by (subst dec_list.simps) simp

lemma dec_list_stuck: "dec bs = None \<Longrightarrow> bs \<noteq> [] \<Longrightarrow> dec_list dec bs = None"
  by (subst dec_list.simps) simp

locale stream_codec =
  fixes ok :: "'a \<Rightarrow> bool" and enc :: "'a \<Rightarrow> bytes" and dec :: "bytes \<Rightarrow> (nat \<times> 'a) option"
  assumes dec_enc: "ok x \<Longrightarrow> dec (enc x @ rest) = Some (length (enc x), x)"
    and enc_nonempty: "ok x \<Longrightarrow> enc x \<noteq> []"
begin

lemma dec_list_enc: "list_all ok xs \<Longrightarrow> dec_list dec (concat (map enc xs)) = Some xs"
proof (induction xs)
  case (Cons x xs)
  then show ?case
    using dec_enc [of x "concat (map enc xs)"] enc_nonempty [of x]
    by (simp add: dec_list_step)
qed simp

lemma enc_inj:
  assumes "enc x @ r = enc y @ s" and "ok x" and "ok y"
  shows "x = y" and "r = s"
proof -
  show "x = y" using dec_enc [of x r] dec_enc [of y s] assms(2,3) unfolding assms(1) by simp
  with assms(1) show "r = s" by simp
qed

lemma enc_list_inj:
  "concat (map enc xs) = concat (map enc ys) \<Longrightarrow> list_all ok xs \<Longrightarrow> list_all ok ys \<Longrightarrow> xs = ys"
  by (metis dec_list_enc option.inject)

end

locale strict_codec = stream_codec +
  assumes dec_strict: "dec bs = Some (n, x) \<Longrightarrow> ok x \<and> n = length (enc x) \<and> take n bs = enc x"
begin

lemma dec_list_strict:
  "dec_list dec bs = Some xs \<longleftrightarrow> list_all ok xs \<and> bs = concat (map enc xs)"
proof
  assume "dec_list dec bs = Some xs"
  then show "list_all ok xs \<and> bs = concat (map enc xs)"
  proof (induction xs arbitrary: bs)
    case Nil
    then show ?case by (subst (asm) dec_list.simps) (auto split: if_splits option.splits)
  next
    case (Cons x xs)
    from Cons.prems obtain n where n: "dec bs = Some (n, x)" "dec_list dec (drop n bs) = Some xs"
      by (subst (asm) dec_list.simps) (auto split: if_splits option.splits)
    have "take n bs = enc x" "drop n bs = concat (map enc xs)" "ok x" "list_all ok xs"
      using dec_strict [OF n(1)] Cons.IH [OF n(2)] by blast+
    then show ?case by (metis append_take_drop_id concat.simps(2) list.map(2) list.pred_inject(2))
  qed
qed (auto simp: dec_list_enc)

end

end
