(* ===== verification/Proto_Packed.thy ===== *)
theory Proto_Packed
  imports Varint Ascii_Scan Stream_Codec
begin

text \<open>
  Packed repeated fields in \<open>wireform-core/cbits/fast_decode.c\<close>: decoding a run of varints into an
  array, counting the varints of a run with vector and word population counts, and the shortcut for
  runs whose varints all have one byte.
\<close>

interpretation leb: stream_codec "\<lambda>_. True" leb_enc leb_dec
  by unfold_locales (simp_all add: leb_dec_enc)

subsection \<open>The model\<close>

function packed_varints_loop ::
  "bytes \<Rightarrow> nat \<Rightarrow> u64 list \<Rightarrow> nat \<Rightarrow> nat \<Rightarrow> nat \<Rightarrow> (u64 list \<times> int) option" where
  "packed_varints_loop buf len out max_out pos count =
     (if pos < len \<and> count < max_out then do {
        (consumed, v) \<leftarrow> hs_proto_decode_varint_fast buf len pos;
        out \<leftarrow> (case v of Some x \<Rightarrow> store out count x | None \<Rightarrow> Some out);
        if consumed = 0 then Some (out, -1)
        else packed_varints_loop buf len out max_out (pos + consumed) (count + 1)
      }
      else Some (out, if pos \<noteq> len then -1 else int count))"
  by pat_completeness auto
termination
  by (relation "measure (\<lambda>(buf, len, out, max_out, pos, count). len - pos)") auto

declare packed_varints_loop.simps [simp del]

definition hs_proto_decode_packed_varints ::
  "bytes \<Rightarrow> nat \<Rightarrow> u64 list \<Rightarrow> nat \<Rightarrow> (u64 list \<times> int) option" where
  "hs_proto_decode_packed_varints buf len out max_out = packed_varints_loop buf len out max_out 0 0"

function count_blocks16 :: "bytes \<Rightarrow> nat \<Rightarrow> nat \<Rightarrow> nat \<Rightarrow> (nat \<times> nat) option" where
  "count_blocks16 buf i len count =
     (if 16 \<le> len - i then do {
        chunk \<leftarrow> simde_mm_loadu_si128 buf i;
        let has_high = simde_mm_and_si128 chunk (simde_mm_set1_epi8 0x80);
        let is_term = simde_mm_cmpeq_epi8 has_high simde_mm_setzero_si128;
        count_blocks16 buf (i + 16) len (count + builtin_popcount (simde_mm_movemask_epi8 is_term))
      }
      else Some (count, i))"
  by pat_completeness auto
termination
  by (relation "measure (\<lambda>(buf, i, len, count). len - i)") auto

function count_words8 :: "bytes \<Rightarrow> nat \<Rightarrow> nat \<Rightarrow> nat \<Rightarrow> (nat \<times> nat) option" where
  "count_words8 buf i len count =
     (if 8 \<le> len - i then do {
        w \<leftarrow> load_le 8 buf i;
        let term_mask = NOT w AND swar_high;
        count_words8 buf (i + 8) len (count + builtin_popcount (drop_bit 7 term_mask))
      }
      else Some (count, i))"
  by pat_completeness auto
termination
  by (relation "measure (\<lambda>(buf, i, len, count). len - i)") auto

function count_bytes :: "bytes \<Rightarrow> nat \<Rightarrow> nat \<Rightarrow> nat \<Rightarrow> nat option" where
  "count_bytes buf i len count =
     (if i < len then do {
        b \<leftarrow> load buf i;
        count_bytes buf (i + 1) len (if b < 0x80 then count + 1 else count)
      }
      else Some count)"
  by pat_completeness auto
termination
  by (relation "measure (\<lambda>(buf, i, len, count). len - i)") auto

declare count_blocks16.simps [simp del] count_words8.simps [simp del] count_bytes.simps [simp del]

definition hs_proto_count_packed_varints :: "bytes \<Rightarrow> nat \<Rightarrow> nat option" where
  "hs_proto_count_packed_varints buf len = do {
     (count, i) \<leftarrow> count_blocks16 buf 0 len 0;
     (count, i) \<leftarrow> count_words8 buf i len count;
     count_bytes buf i len count
   }"

text \<open>\<open>out[i] .. out[i + 7]\<close> from one word, then one byte at a time.\<close>

function single_words8 :: "bytes \<Rightarrow> nat \<Rightarrow> nat \<Rightarrow> u64 list \<Rightarrow> (u64 list \<times> nat) option" where
  "single_words8 buf i len out =
     (if 8 \<le> len - i then do {
        w \<leftarrow> load_le 8 buf i;
        out \<leftarrow> store out i (w AND 0xFF);
        out \<leftarrow> store out (i + 1) (drop_bit 8 w AND 0xFF);
        out \<leftarrow> store out (i + 2) (drop_bit 16 w AND 0xFF);
        out \<leftarrow> store out (i + 3) (drop_bit 24 w AND 0xFF);
        out \<leftarrow> store out (i + 4) (drop_bit 32 w AND 0xFF);
        out \<leftarrow> store out (i + 5) (drop_bit 40 w AND 0xFF);
        out \<leftarrow> store out (i + 6) (drop_bit 48 w AND 0xFF);
        out \<leftarrow> store out (i + 7) (drop_bit 56 w AND 0xFF);
        single_words8 buf (i + 8) len out
      }
      else Some (out, i))"
  by pat_completeness auto
termination
  by (relation "measure (\<lambda>(buf, i, len, out). len - i)") auto

function single_bytes :: "bytes \<Rightarrow> nat \<Rightarrow> nat \<Rightarrow> u64 list \<Rightarrow> u64 list option" where
  "single_bytes buf i len out =
     (if i < len then do {
        b \<leftarrow> load buf i;
        out \<leftarrow> store out i (ucast b);
        single_bytes buf (i + 1) len out
      }
      else Some out)"
  by pat_completeness auto
termination
  by (relation "measure (\<lambda>(buf, i, len, out). len - i)") auto

declare single_words8.simps [simp del] single_bytes.simps [simp del]

definition hs_proto_decode_packed_single_byte_varints ::
  "bytes \<Rightarrow> nat \<Rightarrow> u64 list \<Rightarrow> (u64 list \<times> int) option" where
  "hs_proto_decode_packed_single_byte_varints buf len out = do {
     (out, i) \<leftarrow> single_words8 buf 0 len out;
     out \<leftarrow> single_bytes buf i len out;
     Some (out, int len)
   }"

subsection \<open>Decoding a run\<close>

lemma leb_dec_bounds: "leb_dec bs = Some (n, v) \<Longrightarrow> 0 < n \<and> n \<le> length bs"
  by (auto simp: leb_dec_def leb_len_def split: if_splits)

lemma packed_varints_loop_spec:
  assumes "len \<le> length buf" and "pos \<le> len" and "max_out \<le> length out" and "count \<le> max_out"
  shows "\<exists>out' r. packed_varints_loop buf len out max_out pos count = Some (out', r) \<and>
    frame count max_out out out' \<and>
    (case dec_list leb_dec (take (len - pos) (drop pos buf)) of
       Some vs \<Rightarrow>
         if count + length vs \<le> max_out
         then r = int (count + length vs) \<and> take (length vs) (drop count out') = vs
         else r = -1
     | None \<Rightarrow> r = -1)"
  using assms
proof (induction "len - pos" arbitrary: pos out count rule: less_induct)
  case less
  define xs where "xs = take (len - pos) (drop pos buf)"
  have xs: "xs = [] \<longleftrightarrow> pos = len" using less.prems by (auto simp: xs_def)
  show ?case
  proof (cases "pos < len \<and> count < max_out")
    case False
    show ?thesis
    proof (cases "pos = len")
      case True
      with xs less.prems show ?thesis
        by (subst packed_varints_loop.simps) (simp add: xs_def [symmetric])
    next
      case neq: False
      with False less.prems have c: "count = max_out" "pos < len" by auto
      have "dec_list leb_dec xs \<noteq> Some []"
        using neq xs by (subst dec_list.simps) (auto split: option.splits)
      moreover have "packed_varints_loop buf len out max_out pos count = Some (out, -1)"
        using c neq by (subst packed_varints_loop.simps) simp
      ultimately show ?thesis
        using c by (auto simp: xs_def [symmetric] split: option.splits)
    qed
  next
    case True
    have dec: "hs_proto_decode_varint_fast buf len pos = Some (varint_out (leb_dec xs))"
      using decode_varint_fast_eq [OF less.prems(1)] by (simp add: xs_def)
    show ?thesis
    proof (cases "leb_dec xs")
      case None
      then have "dec_list leb_dec xs = None" using True xs by (subst dec_list.simps) simp
      with None True dec show ?thesis
        by (subst packed_varints_loop.simps) (simp add: varint_out_def xs_def [symmetric])
    next
      case (Some nv)
      then obtain n v where nv: "leb_dec xs = Some (n, v)" by (cases nv) auto
      then have n: "0 < n" "n \<le> len - pos" using leb_dec_bounds [of xs n v] less.prems by (auto simp: xs_def)
      have pn: "pos + n \<le> len" "len - (pos + n) < len - pos" using n True by simp_all
      define out1 where "out1 = out[count := v]"
      have st: "store out count v = Some out1" using True less.prems by (simp add: store_in out1_def)
      have drp: "take (len - (pos + n)) (drop (pos + n) buf) = drop n xs"
        by (simp add: xs_def drop_take ac_simps)
      have dl: "dec_list leb_dec xs = map_option ((#) v) (dec_list leb_dec (drop n xs))"
        using True xs nv n by (subst dec_list.simps) simp
      obtain out' r where R: "packed_varints_loop buf len out1 max_out (pos + n) (count + 1) = Some (out', r)"
        "frame (count + 1) max_out out1 out'"
        "case dec_list leb_dec (drop n xs) of
           Some vs \<Rightarrow>
             if count + 1 + length vs \<le> max_out
             then r = int (count + 1 + length vs) \<and> take (length vs) (drop (count + 1) out') = vs
             else r = -1
         | None \<Rightarrow> r = -1"
        using less.hyps [of "pos + n" out1 "count + 1"] less.prems True n pn
        by (auto simp: out1_def drp)
      have fr: "frame count max_out out out'"
        using R(2) True by (auto simp: frame_def out1_def)
      have "drop count out' = v # drop (count + 1) out'"
      proof -
        have "count < length out'" "out' ! count = v"
          using R(2) True less.prems by (auto simp: frame_def out1_def)
        then show ?thesis by (metis Cons_nth_drop_Suc Suc_eq_plus1)
      qed
      moreover have "packed_varints_loop buf len out max_out pos count = Some (out', r)"
        using R(1) st n True dec nv by (subst packed_varints_loop.simps) (simp add: varint_out_def)
      ultimately show ?thesis
        using R(3) fr dl by (cases "dec_list leb_dec (drop n xs)") (auto simp: xs_def [symmetric])
    qed
  qed
qed

text \<open>C9: decoding a packed run returns the values of the run when it consists of whole varints that fit
  the output array, and -1 otherwise (a truncated or overlong varint, or more than \<open>max_out\<close> values);
  nothing outside the first \<open>max_out\<close> elements is written and no read leaves the input.\<close>

theorem packed_decode_correct:
  assumes "len \<le> length buf" and "max_out \<le> length out"
  shows "\<exists>out' r. hs_proto_decode_packed_varints buf len out max_out = Some (out', r) \<and>
    frame 0 max_out out out' \<and>
    (case dec_list leb_dec (take len buf) of
       Some vs \<Rightarrow>
         if length vs \<le> max_out then r = int (length vs) \<and> take (length vs) out' = vs else r = -1
     | None \<Rightarrow> r = -1)"
  using packed_varints_loop_spec [of len buf 0 max_out out 0] assms
  by (simp add: hs_proto_decode_packed_varints_def cong: option.case_cong if_cong)

theorem packed_decode_correct_witness:
  "\<exists>out' r. hs_proto_decode_packed_varints [0x96, 1, 3] 3 [7, 8] 2 = Some (out', r) \<and>
    frame 0 2 [7, 8 :: u64] out' \<and>
    (case dec_list leb_dec (take 3 [0x96, 1, 3]) of
       Some vs \<Rightarrow>
         if length vs \<le> 2 then r = int (length vs) \<and> take (length vs) out' = vs else r = -1
     | None \<Rightarrow> r = -1)"
  by (rule packed_decode_correct) simp_all

subsection \<open>Counting\<close>

lemma popcount_lanes:
  "length v = 16 \<Longrightarrow> (\<And>i. bit (w :: u32) i \<longleftrightarrow> i < 16 \<and> p (v ! i)) \<Longrightarrow>
     builtin_popcount w = length (filter p v)"
  by (simp add: builtin_popcount_card length_filter_conv_card)

lemma count_term_mask:
  assumes "length v = 16"
  shows "builtin_popcount (simde_mm_movemask_epi8 (simde_mm_cmpeq_epi8
      (simde_mm_and_si128 v (simde_mm_set1_epi8 0x80)) simde_mm_setzero_si128)) =
    length (filter (\<lambda>b. b < 0x80) v)"
proof (rule popcount_lanes [OF assms])
  fix i
  have high: "b AND 0x80 = 0 \<longleftrightarrow> b < 0x80" for b :: u8
  proof -
    have "bit (b AND 0x80) j \<longleftrightarrow> j = 7 \<and> 0x80 \<le> b" for j
    proof -
      have "bit (0x80 :: u8) j \<longleftrightarrow> j = 7"
      proof -
        have "(0x80 :: u8) = 2 ^ 7" by simp
        then show ?thesis by (simp only: bit_exp_iff) auto
      qed
      then show ?thesis using byte_high_bit [of b] by (auto simp only: bit_and_iff)
    qed
    then show ?thesis by (metis bit_0_eq bit_word_eqI bot_apply bot_bool_def not_le)
  qed
  show "bit (simde_mm_movemask_epi8 (simde_mm_cmpeq_epi8
      (simde_mm_and_si128 v (simde_mm_set1_epi8 0x80)) simde_mm_setzero_si128)) i \<longleftrightarrow>
    i < 16 \<and> v ! i < 0x80"
    using assms by (cases "i < 16") (simp_all add: simd_simps high)
qed

lemma count_term_word:
  assumes "length bs = 8"
  shows "builtin_popcount (drop_bit 7 (NOT (le_word bs) AND swar_high)) =
    length (filter (\<lambda>b. b < 0x80) bs)"
proof -
  let ?w = "drop_bit 7 (NOT (le_word bs) AND swar_high)"
  have at: "bit ?w (8 * k) \<longleftrightarrow> k < length bs \<and> bs ! k < 0x80" for k
  proof -
    have "7 + 8 * k < 64 \<longleftrightarrow> k < 8" "(7 + 8 * k) div 8 = k" "(7 + 8 * k) mod 8 = 7"
      by linarith simp_all
    then show ?thesis
      using assms byte_high_bit [of "bs ! k"]
      by (simp only: bit_drop_bit_eq bit_and_iff bit_not_iff bit_swar_high bit_le_word comp_def
          possible_bit_word) (auto simp: not_le)
  qed
  have off: "i mod 8 = 0" if "bit ?w i" for i
  proof -
    have "(7 + i) mod 8 = 7"
      using that by (simp only: bit_drop_bit_eq bit_and_iff bit_swar_high comp_def)
    then show ?thesis by presburger
  qed
  have "{i. bit ?w i} = (\<lambda>k. 8 * k) ` {k. k < length bs \<and> bs ! k < 0x80}"
  proof (intro equalityI subsetI)
    fix i assume "i \<in> {i. bit ?w i}"
    then have "bit ?w i" by simp
    with off [of i] have "i = 8 * (i div 8)" by auto
    with \<open>bit ?w i\<close> at [of "i div 8"] show "i \<in> (\<lambda>k. 8 * k) ` {k. k < length bs \<and> bs ! k < 0x80}"
      by (metis (no_types, lifting) image_eqI mem_Collect_eq)
  qed (use at in blast)
  then have "card {i. bit (drop_bit 7 (NOT (le_word bs) AND swar_high)) i} =
      card {k. k < length bs \<and> bs ! k < 0x80}"
    by (simp add: card_image inj_on_def)
  then show ?thesis by (simp add: builtin_popcount_card length_filter_conv_card)
qed

text \<open>Each loop adds the terminators of the bytes it passes.\<close>

definition terms_in :: "bytes \<Rightarrow> nat \<Rightarrow> nat \<Rightarrow> nat" where
  "terms_in buf i j = length (filter (\<lambda>b. b < 0x80) (take (j - i) (drop i buf)))"

lemma terms_in_split: "i \<le> j \<Longrightarrow> j \<le> k \<Longrightarrow> terms_in buf i k = terms_in buf i j + terms_in buf j k"
proof -
  assume "i \<le> j" "j \<le> k"
  then have "k - i = (j - i) + (k - j)" and "drop (j - i) (drop i buf) = drop j buf" by simp_all
  then show ?thesis by (simp only: terms_in_def take_add filter_append length_append)
qed

lemma count_blocks16_eq:
  "len \<le> length buf \<Longrightarrow> i \<le> len \<Longrightarrow>
     \<exists>j. count_blocks16 buf i len count = Some (count + terms_in buf i j, j) \<and> i \<le> j \<and> j \<le> len"
proof (induction buf i len count rule: count_blocks16.induct)
  case (1 buf i len count)
  show ?case
  proof (cases "16 \<le> len - i")
    case True
    define v where "v = take 16 (drop i buf)"
    have v: "simde_mm_loadu_si128 buf i = Some v" "length v = 16"
      using True 1(2) by (simp_all add: simde_mm_loadu_si128_def load_block_in v_def)
    have le: "i + 16 \<le> len" using True 1(3) by simp
    have t: "terms_in buf i (i + 16) = length (filter (\<lambda>b. b < 0x80) v)"
      by (simp add: terms_in_def v_def)
    obtain j where "count_blocks16 buf (i + 16) len (count + terms_in buf i (i + 16)) =
        Some (count + terms_in buf i (i + 16) + terms_in buf (i + 16) j, j)" "i + 16 \<le> j" "j \<le> len"
      using 1(1) [OF True v(1) refl refl] 1(2,3) True v(2) le
      by (auto simp: count_term_mask t)
    then show ?thesis
      using True v terms_in_split [of i "i + 16" j buf]
      by (intro exI [of _ j], subst count_blocks16.simps) (simp add: count_term_mask t Let_def)
  next
    case False
    then show ?thesis
      using 1(3) by (intro exI [of _ i], subst count_blocks16.simps) (simp add: terms_in_def)
  qed
qed

lemma count_words8_eq:
  "len \<le> length buf \<Longrightarrow> i \<le> len \<Longrightarrow>
     \<exists>j. count_words8 buf i len count = Some (count + terms_in buf i j, j) \<and> i \<le> j \<and> j \<le> len"
proof (induction buf i len count rule: count_words8.induct)
  case (1 buf i len count)
  show ?case
  proof (cases "8 \<le> len - i")
    case True
    define v where "v = take 8 (drop i buf)"
    have v: "load_le 8 buf i = Some (le_word v :: u64)" "length v = 8"
      using True 1(2) by (simp_all add: load_le_in v_def)
    have le: "i + 8 \<le> len" using True 1(3) by simp
    have t: "terms_in buf i (i + 8) = length (filter (\<lambda>b. b < 0x80) v)"
      by (simp add: terms_in_def v_def)
    obtain j where "count_words8 buf (i + 8) len (count + terms_in buf i (i + 8)) =
        Some (count + terms_in buf i (i + 8) + terms_in buf (i + 8) j, j)" "i + 8 \<le> j" "j \<le> len"
      using 1(1) [OF True v(1) refl] 1(2,3) True v(2) le
      by (auto simp: count_term_word t simp del: drop_bit_and)
    then show ?thesis
      using True v terms_in_split [of i "i + 8" j buf]
      by (intro exI [of _ j], subst count_words8.simps) (simp add: count_term_word t Let_def del: drop_bit_and)
  next
    case False
    then show ?thesis
      using 1(3) by (intro exI [of _ i], subst count_words8.simps) (simp add: terms_in_def)
  qed
qed

lemma count_bytes_eq:
  "len \<le> length buf \<Longrightarrow> i \<le> len \<Longrightarrow> count_bytes buf i len count = Some (count + terms_in buf i len)"
proof (induction buf i len count rule: count_bytes.induct)
  case (1 buf i len count)
  show ?case
  proof (cases "i < len")
    case True
    then have "terms_in buf i (i + 1) = (if buf ! i < 0x80 then 1 else 0)"
      using 1(2) by (simp add: terms_in_def take_Suc_conv_app_nth)
    with True 1 terms_in_split [of i "i + 1" len buf] show ?thesis
      by (subst count_bytes.simps) (simp add: load_in)
  next
    case False
    then show ?thesis
      using 1(3) by (subst count_bytes.simps) (simp add: terms_in_def)
  qed
qed

lemma hs_proto_count_packed_varints_eq:
  assumes "len \<le> length buf"
  shows "hs_proto_count_packed_varints buf len = Some (length (filter (\<lambda>b. b < 0x80) (take len buf)))"
proof -
  obtain i where i: "count_blocks16 buf 0 len 0 = Some (terms_in buf 0 i, i)" "i \<le> len"
    using count_blocks16_eq [OF assms, of 0 0] by auto
  obtain j where j: "count_words8 buf i len (terms_in buf 0 i) = Some (terms_in buf 0 i + terms_in buf i j, j)"
    "i \<le> j" "j \<le> len"
    using count_words8_eq [OF assms i(2), of "terms_in buf 0 i"] by auto
  have "terms_in buf 0 i + terms_in buf i j + terms_in buf j len = terms_in buf 0 len"
    using terms_in_split [of 0 i j buf] terms_in_split [of 0 j len buf] i j by simp
  with i j count_bytes_eq [OF assms j(3)] show ?thesis
    by (simp add: hs_proto_count_packed_varints_def terms_in_def)
qed

lemma leb_dec_terms:
  assumes "leb_dec bs = Some (n, v)"
  shows "length (filter (\<lambda>b. b < 0x80) (take n bs)) = 1"
proof -
  let ?t = "takeWhile (\<lambda>b. 0x80 \<le> b) bs"
  from assms have n: "n = Suc (length ?t)" "length ?t < length bs"
    by (auto simp: leb_dec_def leb_len_def split: if_splits)
  have "take n bs = ?t @ [bs ! length ?t]"
    using n by (simp add: take_Suc_conv_app_nth takeWhile_eq_take [symmetric])
  moreover have "bs ! length ?t < 0x80"
    using nth_length_takeWhile [OF n(2)] by (simp add: not_le)
  moreover have "filter (\<lambda>b. b < 0x80) ?t = []"
    by (auto simp: filter_empty_conv dest!: set_takeWhileD)
  ultimately show ?thesis by simp
qed

lemma dec_list_terms:
  "dec_list leb_dec bs = Some vs \<Longrightarrow> length (filter (\<lambda>b. b < 0x80) bs) = length vs"
proof (induction vs arbitrary: bs)
  case Nil
  then have "bs = []" by (subst (asm) dec_list.simps) (auto split: if_splits option.splits)
  then show ?case by simp
next
  case (Cons v vs)
  from Cons.prems obtain n where n: "leb_dec bs = Some (n, v)" "dec_list leb_dec (drop n bs) = Some vs"
    by (subst (asm) dec_list.simps) (auto split: if_splits option.splits)
  have "filter (\<lambda>b. b < 0x80) bs =
      filter (\<lambda>b. b < 0x80) (take n bs) @ filter (\<lambda>b. b < 0x80) (drop n bs)"
    by (metis append_take_drop_id filter_append)
  then show ?case
    using leb_dec_terms [OF n(1)] Cons.IH [OF n(2)] by simp
qed

text \<open>The count of a packed run is the number of bytes below \<open>0x80\<close>, which is the number of
  values a run of whole varints decodes to: a caller that allocates that many elements never sees
  the decoder fail for lack of space.\<close>

theorem packed_count_correct:
  assumes "len \<le> length buf"
  shows "hs_proto_count_packed_varints buf len =
      Some (length (filter (\<lambda>b. b < 0x80) (take len buf))) \<and>
    (\<forall>vs. dec_list leb_dec (take len buf) = Some vs \<longrightarrow>
       hs_proto_count_packed_varints buf len = Some (length vs))"
  using assms by (auto simp: hs_proto_count_packed_varints_eq dest: dec_list_terms)

theorem packed_count_correct_witness:
  "hs_proto_count_packed_varints [0x96, 1, 3] 3 = Some 2"
  using packed_count_correct [of 3 "[0x96, 1, 3]"] by simp

subsection \<open>The single-byte shortcut\<close>

lemma single_byte_group:
  assumes "length bs = 8" and "k < 8"
  shows "(drop_bit (8 * k) (le_word bs) AND 0xFF :: u64) = ucast (bs ! k)"
proof (rule bit_word_eqI)
  fix j assume "j < LENGTH(64)"
  have m: "bit (0xFF :: u64) j \<longleftrightarrow> j < 8"
  proof -
    have "(0xFF :: u64) = mask 8" by (simp add: mask_eq_exp_minus_1)
    then show ?thesis using \<open>j < LENGTH(64)\<close> by (simp only: bit_mask_iff possible_bit_word) auto
  qed
  have "(8 * k + j) div 8 = k" "(8 * k + j) mod 8 = j" "8 * k + j < 64" if "j < 8"
    using that assms(2) by simp_all
  then show "bit (drop_bit (8 * k) (le_word bs) AND 0xFF :: u64) j = bit (ucast (bs ! k) :: u64) j"
    using assms m \<open>j < LENGTH(64)\<close> bit_imp_le_length [of "bs ! k" j]
    by (cases "j < 8")
      (simp_all only: bit_and_iff bit_drop_bit_eq comp_def bit_le_word bit_ucast_iff, auto)
qed

lemma single_words8_step:
  assumes "length bs = 8" and "load_le 8 buf i = Some (le_word bs :: u64)" and "8 \<le> len - i"
  shows "single_words8 buf i len out =
    Option.bind (store_block out i (map ucast bs)) (\<lambda>out. single_words8 buf (i + 8) len out)"
proof -
  obtain b0 b1 b2 b3 b4 b5 b6 b7 where bs: "bs = [b0, b1, b2, b3, b4, b5, b6, b7]"
    using assms(1) by (auto simp: length_Suc_conv numeral_eq_Suc)
  note g = single_byte_group [OF assms(1)]
  show ?thesis
    using assms(2,3) g [of 0] g [of 1] g [of 2] g [of 3] g [of 4] g [of 5] g [of 6] g [of 7]
    by (subst single_words8.simps) (simp add: bs store_block_Cons del: le_word.simps,
        simp (no_asm) add: numeral_eq_Suc)
qed

lemma single_bytes_eq:
  "len \<le> length buf \<Longrightarrow> i \<le> len \<Longrightarrow>
     single_bytes buf i len out = store_block out i (map ucast (take (len - i) (drop i buf)))"
proof (induction buf i len out rule: single_bytes.induct)
  case (1 buf i len out)
  show ?case
  proof (cases "i < len")
    case True
    then have "take (len - i) (drop i buf) = buf ! i # take (len - (i + 1)) (drop (i + 1) buf)"
      using 1(2) by (simp add: take_Suc_conv_app_nth Cons_nth_drop_Suc [symmetric] take_Cons' Suc_diff_Suc)
    with True 1 show ?thesis
      by (subst single_bytes.simps)
        (cases "store out i (ucast (buf ! i))"; simp add: load_in store_block_Cons)
  next
    case False
    with 1 show ?thesis by (subst single_bytes.simps) simp
  qed
qed

lemma single_words8_eq:
  "len \<le> length buf \<Longrightarrow> i \<le> len \<Longrightarrow>
     Option.bind (single_words8 buf i len out) (\<lambda>(out, j). single_bytes buf j len out) =
       store_block out i (map ucast (take (len - i) (drop i buf)))"
proof (induction "len - i" arbitrary: i out rule: less_induct)
  case less
  show ?case
  proof (cases "8 \<le> len - i")
    case False
    then show ?thesis using less.prems by (subst single_words8.simps) (simp add: single_bytes_eq)
  next
    case True
    define bs where "bs = take 8 (drop i buf)"
    have bs: "length bs = 8" "load_le 8 buf i = Some (le_word bs :: u64)"
      using True less.prems by (simp_all add: bs_def load_le_in)
    have le: "i + 8 \<le> len" "len - (i + 8) < len - i" using True by simp_all
    have split: "take (len - i) (drop i buf) = bs @ take (len - (i + 8)) (drop (i + 8) buf)"
      using take_add [of 8 "len - (i + 8)" "drop i buf"] le by (simp add: bs_def add.commute)
    have IH: "Option.bind (single_words8 buf (i + 8) len out') (\<lambda>(out, j). single_bytes buf j len out) =
        store_block out' (i + 8) (map ucast (take (len - (i + 8)) (drop (i + 8) buf)))" for out'
      by (rule less.hyps [OF le(2) less.prems(1) le(1)])
    show ?thesis
      unfolding single_words8_step [OF bs True] split map_append store_block_append
      by (cases "store_block out i (map ucast bs)") (simp_all add: IH bs(1) del: map_append)
  qed
qed

lemma dec_list_single:
  "\<forall>b \<in> set bs. b < 0x80 \<Longrightarrow> dec_list leb_dec bs = Some (map ucast bs)"
proof (induction bs)
  case (Cons b bs)
  then have b: "b < 0x80" by simp
  then have "leb_len (b # bs) = 1" by (simp add: leb_len_def not_le)
  with b have "leb_dec (b # bs) = Some (1, ucast b)"
    by (simp add: leb_dec_def low7)
  with Cons show ?case by (subst dec_list.simps) simp
qed simp

text \<open>When \<open>hs_proto_packed_all_single_byte\<close> answers 1, copying bytes to words gives the same
  result as decoding the run varint by varint; the check and the copy stay inside the buffers.\<close>

theorem packed_single_byte_shortcut:
  assumes "hs_proto_packed_all_single_byte buf len = Some 1"
    and "len \<le> length buf" and "len \<le> length out"
  shows "\<exists>out'. hs_proto_decode_packed_single_byte_varints buf len out = Some (out', int len) \<and>
    dec_list leb_dec (take len buf) = Some (take len out') \<and> drop len out' = drop len out"
proof -
  have all: "\<forall>b \<in> set (take len buf). b < 0x80"
    using assms(1) by (simp add: all_single_byte_eq [OF assms(2)] split: if_splits)
  have "Option.bind (single_words8 buf 0 len out) (\<lambda>(out, j). single_bytes buf j len out) =
      Some (map ucast (take len buf) @ drop len out)"
    using single_words8_eq [OF assms(2), of 0 out] assms(2,3) by (simp add: store_block_in)
  then have "hs_proto_decode_packed_single_byte_varints buf len out =
      Some (map ucast (take len buf) @ drop len out, int len)"
    by (auto simp: hs_proto_decode_packed_single_byte_varints_def bind_eq_Some_conv)
  then show ?thesis using dec_list_single [OF all] assms(2) by simp
qed

theorem packed_single_byte_shortcut_witness:
  "\<exists>out'. hs_proto_decode_packed_single_byte_varints [1, 2] 2 [0, 0, 9] = Some (out', int 2) \<and>
    dec_list leb_dec (take 2 [1, 2]) = Some (take 2 out') \<and> drop 2 out' = drop 2 [0, 0, 9]"
  by (rule packed_single_byte_shortcut) (simp_all add: all_single_byte_eq)

end
