(* ===== verification/Proto_Text.thy ===== *)
theory Proto_Text
  imports Ascii_Scan Stream_Codec
begin

text \<open>
  The text scanners of \<open>wireform-core/cbits/fast_decode.c\<close>: UTF-8 validation behind an ASCII fast
  path, the NUL and JSON-escape searches, and skipping EDN whitespace and comments.
\<close>

subsection \<open>UTF-8 validation: the model\<close>

text \<open>The length and the payload bits of a lead byte.\<close>

definition utf8_lead :: "u8 \<Rightarrow> (nat \<times> u32) option" where
  "utf8_lead b =
     (if b AND 0xE0 = 0xC0 then Some (2, ucast (b AND 0x1F))
      else if b AND 0xF0 = 0xE0 then Some (3, ucast (b AND 0x0F))
      else if b AND 0xF8 = 0xF0 then Some (4, ucast (b AND 0x07))
      else None)"

text \<open>The continuation bytes; \<open>Some None\<close> is the early \<open>return 0\<close>.\<close>

function utf8_conts :: "bytes \<Rightarrow> nat \<Rightarrow> nat \<Rightarrow> nat \<Rightarrow> u32 \<Rightarrow> u32 option option" where
  "utf8_conts buf i j count codepoint =
     (if j < count then do {
        cb \<leftarrow> load buf (i + j);
        if cb AND 0xC0 \<noteq> 0x80 then Some None
        else utf8_conts buf i (j + 1) count (push_bit 6 codepoint OR ucast (cb AND 0x3F))
      }
      else Some (Some codepoint))"
  by pat_completeness auto
termination
  by (relation "measure (\<lambda>(buf, i, j, count, codepoint). count - j)") auto

declare utf8_conts.simps [simp del]

text \<open>Overlong forms, surrogates and values past U+10FFFF are rejected.\<close>

definition utf8_accept :: "nat \<Rightarrow> u32 \<Rightarrow> bool" where
  "utf8_accept count codepoint \<longleftrightarrow>
     \<not> (count = 2 \<and> codepoint < 0x80) \<and> \<not> (count = 3 \<and> codepoint < 0x800) \<and>
     \<not> (count = 4 \<and> codepoint < 0x10000) \<and>
     \<not> (0xD800 \<le> codepoint \<and> codepoint \<le> 0xDFFF) \<and> \<not> 0x10FFFF < codepoint"

lemma utf8_lead_pos: "utf8_lead b = Some (count, cp) \<Longrightarrow> 0 < count"
  by (auto simp: utf8_lead_def split: if_splits)

function utf8_slow :: "bytes \<Rightarrow> nat \<Rightarrow> nat \<Rightarrow> int option" where
  "utf8_slow buf i len =
     (if i < len then do {
        b \<leftarrow> load buf i;
        if b < 0x80 then utf8_slow buf (i + 1) len
        else (case utf8_lead b of
            None \<Rightarrow> Some 0
          | Some (count, cp) \<Rightarrow>
              if len - i < count then Some 0
              else do {
                r \<leftarrow> utf8_conts buf i 1 count cp;
                (case r of
                   None \<Rightarrow> Some 0
                 | Some cp' \<Rightarrow>
                     if utf8_accept count cp' then utf8_slow buf (i + count) len else Some 0)
              })
      }
      else Some 1)"
  by pat_completeness auto
termination
  by (relation "measure (\<lambda>(buf, i, len). len - i)") (auto dest: utf8_lead_pos)

declare utf8_slow.simps [simp del]

definition hs_proto_validate_utf8_fast :: "bytes \<Rightarrow> nat \<Rightarrow> int option" where
  "hs_proto_validate_utf8_fast buf len = do {
     r \<leftarrow> high_scan buf len;
     (case r of Inr i \<Rightarrow> Some 1 | Inl i \<Rightarrow> utf8_slow buf i len)
   }"

subsection \<open>UTF-8 validation: the standard\<close>

definition unicode_scalar :: "nat \<Rightarrow> bool" where
  "unicode_scalar cp \<longleftrightarrow> cp < 0x110000 \<and> \<not> (0xD800 \<le> cp \<and> cp \<le> 0xDFFF)"

definition utf8_code :: "nat \<Rightarrow> nat list" where
  "utf8_code cp =
     (if cp < 0x80 then [cp]
      else if cp < 0x800 then [0xC0 + cp div 64, 0x80 + cp mod 64]
      else if cp < 0x10000 then [0xE0 + cp div 4096, 0x80 + cp div 64 mod 64, 0x80 + cp mod 64]
      else [0xF0 + cp div 262144, 0x80 + cp div 4096 mod 64, 0x80 + cp div 64 mod 64, 0x80 + cp mod 64])"

definition utf8_enc :: "nat \<Rightarrow> bytes" where
  "utf8_enc cp = map of_nat (utf8_code cp)"

text \<open>A one-element decoder over numbers, between the standard and the C code.\<close>

fun utf8_tail :: "nat \<Rightarrow> nat \<Rightarrow> nat list \<Rightarrow> nat option" where
  "utf8_tail 0 v cs = Some v"
| "utf8_tail (Suc k) v [] = None"
| "utf8_tail (Suc k) v (c # cs) = (if 128 \<le> c \<and> c < 192 then utf8_tail k (64 * v + (c - 128)) cs else None)"

definition utf8_multi :: "nat \<Rightarrow> nat \<Rightarrow> nat \<Rightarrow> nat list \<Rightarrow> (nat \<times> nat) option" where
  "utf8_multi k low v cs =
     (case utf8_tail k v cs of
        None \<Rightarrow> None
      | Some cp \<Rightarrow> if low \<le> cp \<and> unicode_scalar cp then Some (Suc k, cp) else None)"

fun utf8_dec_nat :: "nat list \<Rightarrow> (nat \<times> nat) option" where
  "utf8_dec_nat [] = None"
| "utf8_dec_nat (b # cs) =
     (if b < 0x80 then Some (1, b)
      else if 0xC0 \<le> b \<and> b < 0xE0 then utf8_multi 1 0x80 (b - 0xC0) cs
      else if 0xE0 \<le> b \<and> b < 0xF0 then utf8_multi 2 0x800 (b - 0xE0) cs
      else if 0xF0 \<le> b \<and> b < 0xF8 then utf8_multi 3 0x10000 (b - 0xF0) cs
      else None)"

definition utf8_dec :: "bytes \<Rightarrow> (nat \<times> nat) option" where
  "utf8_dec bs = utf8_dec_nat (map unat bs)"

lemma utf8_dec_code:
  assumes "unicode_scalar cp"
  shows "utf8_dec_nat (utf8_code cp @ rest) = Some (length (utf8_code cp), cp)"
proof -
  have d: "64 * (cp div 64) + cp mod 64 = cp" "64 * (cp div 4096) + cp div 64 mod 64 = cp div 64"
    "64 * (cp div 262144) + cp div 4096 mod 64 = cp div 4096"
    using div_mult_mod_eq [of cp 64] div_mult_mod_eq [of "cp div 64" 64]
      div_mult_mod_eq [of "cp div 4096" 64]
    by (simp_all add: div_mult2_eq [symmetric])
  consider "cp < 0x80" | "0x80 \<le> cp" "cp < 0x800" | "0x800 \<le> cp" "cp < 0x10000"
    | "0x10000 \<le> cp" "cp < 0x110000"
    using assms by (force simp: unicode_scalar_def)
  then show ?thesis
  proof cases
    case 1
    then show ?thesis by (simp add: utf8_code_def)
  next
    case 2
    then have "cp div 64 < 32" by (simp add: div_less_iff_less_mult)
    with 2 assms d show ?thesis by (simp add: utf8_code_def utf8_multi_def)
  next
    case 3
    then have "cp div 4096 < 16" by (simp add: div_less_iff_less_mult)
    with 3 assms d show ?thesis by (simp add: utf8_code_def utf8_multi_def numeral_2_eq_2)
  next
    case 4
    then have "cp div 262144 < 8" by (simp add: div_less_iff_less_mult)
    with 4 assms d show ?thesis by (simp add: utf8_code_def utf8_multi_def numeral_3_eq_3)
  qed
qed

text \<open>Conversely, what is accepted is the code of the value returned.\<close>

lemma utf8_tail_Suc:
  assumes "utf8_tail (Suc k) v cs = Some cp"
  obtains x r where "cs = (128 + x) # r" and "x < 64" and "utf8_tail k (64 * v + x) r = Some cp"
proof -
  obtain c r where c: "cs = c # r" "128 \<le> c" "c < 192" "utf8_tail k (64 * v + (c - 128)) r = Some cp"
    using assms by (cases cs) (auto split: if_splits)
  from c(2) obtain x where "c = 128 + x" by (auto dest: le_Suc_ex)
  with c that [of x r] show ?thesis by simp
qed

lemma utf8_multi_Some:
  "utf8_multi k low v cs = Some (n, cp) \<longleftrightarrow>
     utf8_tail k v cs = Some cp \<and> low \<le> cp \<and> unicode_scalar cp \<and> n = Suc k"
  by (auto simp: utf8_multi_def split: option.splits if_splits)

lemma divmod64:
  assumes "cp = 64 * z + x" and "x < 64"
  shows "cp div 64 = z" and "cp mod 64 = (x :: nat)"
  using assms by simp_all

lemma utf8_dec_strict:
  assumes "utf8_dec_nat bs = Some (n, cp)"
  shows "unicode_scalar cp \<and> n = length (utf8_code cp) \<and> take n bs = utf8_code cp"
proof -
  obtain b cs where bs: "bs = b # cs" using assms by (cases bs) auto
  consider "b < 0x80" | "0xC0 \<le> b" "b < 0xE0" | "0xE0 \<le> b" "b < 0xF0" | "0xF0 \<le> b" "b < 0xF8"
    using assms bs by (force split: if_splits)
  then show ?thesis
  proof cases
    case 1
    with assms bs show ?thesis by (auto simp: utf8_code_def unicode_scalar_def)
  next
    case 2
    then obtain y where y: "b = 0xC0 + y" by (auto dest: le_Suc_ex)
    with 2 assms bs have t: "utf8_tail (Suc 0) y cs = Some cp"
      and k: "0x80 \<le> cp" "unicode_scalar cp" "n = 2"
      by (auto simp: utf8_multi_Some)
    from t obtain x r where c: "cs = (128 + x) # r" "x < 64" "cp = 64 * y + x"
      by (elim utf8_tail_Suc) simp
    with 2 y have "cp div 64 = y" "cp mod 64 = x" "cp < 0x800" by simp_all
    with c y k bs show ?thesis by (simp add: utf8_code_def)
  next
    case 3
    then obtain y where y: "b = 0xE0 + y" by (auto dest: le_Suc_ex)
    with 3 assms bs have t: "utf8_tail (Suc (Suc 0)) y cs = Some cp"
      and k: "0x800 \<le> cp" "unicode_scalar cp" "n = 3"
      by (auto simp: utf8_multi_Some numeral_2_eq_2)
    from t obtain x r where c1: "cs = (128 + x) # r" "x < 64"
      and t1: "utf8_tail (Suc 0) (64 * y + x) r = Some cp" by (rule utf8_tail_Suc)
    from t1 obtain x' r' where "r = (128 + x') # r'" "x' < 64"
      and t2: "utf8_tail 0 (64 * (64 * y + x) + x') r' = Some cp" by (rule utf8_tail_Suc)
    with c1 have c: "cs = (128 + x) # r" "x < 64" "r = (128 + x') # r'" "x' < 64"
      "cp = 64 * (64 * y + x) + x'" by simp_all
    note d = divmod64 [OF c(5,4)]
    have "cp div 4096 = y" "cp div 64 mod 64 = x"
      using divmod64 [OF d(1) c(2)] div_mult2_eq [of cp 64 64] by simp_all
    with 3 c d y k bs show ?thesis by (simp add: utf8_code_def)
  next
    case 4
    then obtain y where y: "b = 0xF0 + y" by (auto dest: le_Suc_ex)
    with 4 assms bs have t: "utf8_tail (Suc (Suc (Suc 0))) y cs = Some cp"
      and k: "0x10000 \<le> cp" "unicode_scalar cp" "n = 4"
      by (auto simp: utf8_multi_Some numeral_3_eq_3)
    from t obtain x r where c1: "cs = (128 + x) # r" "x < 64"
      and t1: "utf8_tail (Suc (Suc 0)) (64 * y + x) r = Some cp" by (rule utf8_tail_Suc)
    from t1 obtain x' r' where c2: "r = (128 + x') # r'" "x' < 64"
      and t2: "utf8_tail (Suc 0) (64 * (64 * y + x) + x') r' = Some cp" by (rule utf8_tail_Suc)
    from t2 obtain x'' r'' where "r' = (128 + x'') # r''" "x'' < 64"
      and "utf8_tail 0 (64 * (64 * (64 * y + x) + x') + x'') r'' = Some cp" by (rule utf8_tail_Suc)
    with c1 c2 have c: "cs = (128 + x) # r" "x < 64" "r = (128 + x') # r'" "x' < 64"
      "r' = (128 + x'') # r''" "x'' < 64" "cp = 64 * (64 * (64 * y + x) + x') + x''"
      by simp_all
    note d = divmod64 [OF c(7,6)]
    have e: "cp div 4096 = 64 * y + x" "cp div 64 mod 64 = x'"
      using divmod64 [OF d(1) c(4)] div_mult2_eq [of cp 64 64] by simp_all
    have "cp div 262144 = y" "cp div 4096 mod 64 = x"
      using divmod64 [OF e(1) c(2)] div_mult2_eq [of cp 4096 64] by simp_all
    with 4 c d e y k bs show ?thesis by (simp add: utf8_code_def)
  qed
qed

lemma utf8_code_bytes: "unicode_scalar cp \<Longrightarrow> list_all (\<lambda>c. c < 256) (utf8_code cp)"
  by (auto simp: utf8_code_def unicode_scalar_def div_less_iff_less_mult)

lemma utf8_enc_code: "unicode_scalar cp \<Longrightarrow> map unat (utf8_enc cp) = utf8_code cp"
  using utf8_code_bytes [of cp]
  by (auto simp: utf8_enc_def list_all_iff unat_of_nat intro!: map_idI)

interpretation utf8: strict_codec unicode_scalar utf8_enc utf8_dec
proof
  fix cp and rest :: bytes
  assume ok: "unicode_scalar cp"
  show "utf8_dec (utf8_enc cp @ rest) = Some (length (utf8_enc cp), cp)"
    using utf8_dec_code [OF ok] by (simp add: utf8_dec_def utf8_enc_code [OF ok]) (simp add: utf8_enc_def)
  show "utf8_enc cp \<noteq> []" by (simp add: utf8_enc_def utf8_code_def)
next
  fix bs n cp
  assume "utf8_dec bs = Some (n, cp)"
  then have d: "unicode_scalar cp \<and> n = length (utf8_code cp) \<and> take n (map unat bs) = utf8_code cp"
    unfolding utf8_dec_def by (rule utf8_dec_strict)
  then have "map unat (take n bs) = map unat (utf8_enc cp)"
    using utf8_enc_code [of cp] by (metis take_map)
  then have "take n bs = utf8_enc cp" by (rule map_injective) (simp add: inj_on_def word_unat_eq_iff)
  with d show "unicode_scalar cp \<and> n = length (utf8_enc cp) \<and> take n bs = utf8_enc cp"
    by (simp add: utf8_enc_def)
qed

subsection \<open>The validator accepts exactly UTF-8\<close>

lemma utf8_lead_nat:
  "utf8_lead b =
     (if 0xC0 \<le> unat b \<and> unat b < 0xE0 then Some (2, of_nat (unat b - 0xC0))
      else if 0xE0 \<le> unat b \<and> unat b < 0xF0 then Some (3, of_nat (unat b - 0xE0))
      else if 0xF0 \<le> unat b \<and> unat b < 0xF8 then Some (4, of_nat (unat b - 0xF0))
      else None)"
  by (rule all_bytes [of _ b]; unfold utf8_lead_def; code_simp)

lemma utf8_cont_nat:
  "(cb :: u8) AND 0xC0 = 0x80 \<longleftrightarrow> 128 \<le> unat cb \<and> unat cb < 192"
  "(cb :: u8) AND 0xC0 = 0x80 \<Longrightarrow> unat (cb AND 0x3F) = unat cb - 128"
proof -
  have "cb AND 0xC0 = 0x80 \<longleftrightarrow> 128 \<le> unat cb \<and> unat cb < 192"
    by (rule all_bytes [of _ cb]; code_simp)
  then show "cb AND 0xC0 = 0x80 \<longleftrightarrow> 128 \<le> unat cb \<and> unat cb < 192" .
  have "cb AND 0xC0 = 0x80 \<longrightarrow> unat (cb AND 0x3F) = unat cb - 128"
    by (rule all_bytes [of _ cb]; code_simp)
  then show "cb AND 0xC0 = 0x80 \<Longrightarrow> unat (cb AND 0x3F) = unat cb - 128" by simp
qed

definition utf8_low :: "nat \<Rightarrow> nat" where
  "utf8_low count = (if count = 2 then 0x80 else if count = 3 then 0x800 else 0x10000)"

lemma utf8_lead_cases:
  assumes "utf8_lead b = Some (count, cp)"
  obtains "count = 2 \<or> count = 3 \<or> count = 4" and "unat cp < 32"
    and "\<And>cs. utf8_dec (b # cs) = utf8_multi (count - 1) (utf8_low count) (unat cp) (map unat cs)"
proof -
  have u: "unat (of_nat n :: u32) = n" if "n < 256" for n using that by (simp add: unat_of_nat)
  show thesis
    by (rule that)
      (use assms in \<open>auto simp: utf8_lead_nat utf8_dec_def utf8_low_def u split: if_splits simp del: of_nat_diff\<close>)
qed

lemma utf8_lead_none: "utf8_lead b = None \<Longrightarrow> \<not> b < 0x80 \<Longrightarrow> utf8_dec (b # cs) = None"
  by (auto simp: utf8_lead_nat utf8_dec_def word_less_nat_alt split: if_splits)

lemma utf8_tail_take: "k \<le> m \<Longrightarrow> utf8_tail k v (take m cs) = utf8_tail k v cs"
proof (induction k v cs arbitrary: m rule: utf8_tail.induct)
  case (3 k v c cs)
  then show ?case by (cases m) auto
qed simp_all

lemma utf8_tail_short: "length cs < k \<Longrightarrow> utf8_tail k v cs = None"
  by (induction k v cs rule: utf8_tail.induct) auto

lemma utf8_tail_bound: "utf8_tail k v cs = Some cp \<Longrightarrow> cp < 64 ^ k * (v + 1)"
proof (induction k v cs rule: utf8_tail.induct)
  case (3 k v c cs)
  then have "cp < 64 ^ k * (64 * v + (c - 128) + 1)" "c - 128 < 64" by (auto split: if_splits)
  then have "cp < 64 ^ k * (64 * v + (c - 128) + 1)" "64 * v + (c - 128) + 1 \<le> 64 * (v + 1)" by simp_all
  then have "cp < 64 ^ k * (64 * (v + 1))" by (meson less_le_trans mult_le_mono2)
  then show ?case by (simp add: algebra_simps)
qed auto

lemma utf8_conts_eq:
  "j \<le> count \<Longrightarrow> i + count \<le> length buf \<Longrightarrow>
     utf8_conts buf i j count (of_nat v) =
       Some (map_option of_nat (utf8_tail (count - j) v (map unat (drop (i + j) buf))))"
proof (induction "count - j" arbitrary: j v)
  case 0
  then show ?case by (subst utf8_conts.simps) simp
next
  case (Suc d)
  then have j: "j < count" and at: "load buf (i + j) = Some (buf ! (i + j))" by (simp_all add: load_in)
  have drp: "drop (i + j) buf = buf ! (i + j) # drop (i + (j + 1)) buf"
    using j Suc.prems by (simp add: Cons_nth_drop_Suc)
  have k: "count - j = Suc (count - (j + 1))" using j by simp
  let ?cb = "buf ! (i + j)"
  show ?case
  proof (cases "?cb AND 0xC0 = 0x80")
    case False
    with j at k show ?thesis
      by (subst utf8_conts.simps) (auto simp: drp utf8_cont_nat(1))
  next
    case True
    have "(ucast (?cb AND 0x3F) :: u32) = of_nat (unat ?cb - 128)"
      using utf8_cont_nat(2) [OF True] by (metis of_nat_unat)
    moreover have "unat ?cb - 128 < 2 ^ 6" using utf8_cont_nat(1) [of ?cb] True by auto
    ultimately have "push_bit 6 (of_nat v) OR ucast (?cb AND 0x3F) = (of_nat (64 * v + (unat ?cb - 128)) :: u32)"
      using or_disjoint_add [of "unat ?cb - 128" 6 "of_nat v :: u32"]
      by (simp add: or.commute push_bit_eq_mult)
    moreover have "utf8_conts buf i (j + 1) count (of_nat (64 * v + (unat ?cb - 128))) =
       Some (map_option of_nat (utf8_tail (count - (j + 1)) (64 * v + (unat ?cb - 128))
         (map unat (drop (i + (j + 1)) buf))))"
      using Suc j by (intro Suc.hyps(1)) simp_all
    ultimately show ?thesis
      using True j at k utf8_cont_nat(1) [of ?cb]
      by (subst utf8_conts.simps) (simp add: drp del: of_nat_add of_nat_mult)
  qed
qed

lemma utf8_accept_eq:
  assumes "cp < 2 ^ 32" and "count = 2 \<or> count = 3 \<or> count = 4"
  shows "utf8_accept count (of_nat cp) \<longleftrightarrow> utf8_low count \<le> cp \<and> unicode_scalar cp"
proof -
  have u: "unat (of_nat cp :: u32) = cp" using assms(1) by (simp add: unat_of_nat)
  then show ?thesis
    using assms(2)
    by (auto simp: utf8_accept_def utf8_low_def unicode_scalar_def word_less_nat_alt word_le_nat_alt)
qed

lemma utf8_slow_eq:
  "len \<le> length buf \<Longrightarrow>
     utf8_slow buf i len = Some (if dec_list utf8_dec (take (len - i) (drop i buf)) = None then 0 else 1)"
proof (induction "len - i" arbitrary: i rule: less_induct)
  case less
  show ?case
  proof (cases "i < len")
    case False
    then show ?thesis by (subst utf8_slow.simps) simp
  next
    case True
    define b where "b = buf ! i"
    define cs where "cs = take (len - (i + 1)) (drop (i + 1) buf)"
    have bs: "take (len - i) (drop i buf) = b # cs"
      using True less.prems
      by (simp add: b_def cs_def take_Suc_conv_app_nth Cons_nth_drop_Suc [symmetric] take_Cons' Suc_diff_Suc)
    have at: "load buf i = Some b" using True less.prems by (simp add: load_in b_def)
    have drp: "take (len - (i + n)) (drop (i + n) buf) = drop n (b # cs)" for n
      unfolding bs [symmetric] by (simp add: drop_take ac_simps)
    have IH: "utf8_slow buf (i + n) len = Some (if dec_list utf8_dec (drop n (b # cs)) = None then 0 else 1)"
      if "0 < n" for n
      unfolding drp [symmetric] using True that less.prems by (intro less.hyps) simp_all
    show ?thesis
    proof (cases "b < 0x80")
      case ascii: True
      then have "utf8_dec (b # cs) = Some (1, unat b)" by (simp add: utf8_dec_def word_less_nat_alt)
      with IH [of 1] ascii True at show ?thesis
        unfolding bs by (subst utf8_slow.simps) (simp add: dec_list_step)
    next
      case multi: False
      show ?thesis
      proof (cases "utf8_lead b")
        case None
        with utf8_lead_none [OF None multi] True at multi show ?thesis
          unfolding bs by (subst utf8_slow.simps) (simp add: dec_list_stuck)
      next
        case (Some lead)
        then obtain count cp where lead: "utf8_lead b = Some (count, cp)" by (cases lead) auto
        then obtain cnt: "count = 2 \<or> count = 3 \<or> count = 4" and cp: "unat cp < 32"
          and dec: "\<And>cs. utf8_dec (b # cs) = utf8_multi (count - 1) (utf8_low count) (unat cp) (map unat cs)"
          by (rule utf8_lead_cases) (rule that)
        have lcs: "length cs = len - (i + 1)" using less.prems by (simp add: cs_def)
        show ?thesis
        proof (cases "len - i < count")
          case True
          then have "utf8_dec (b # cs) = None"
            using lcs \<open>i < len\<close> by (simp add: dec utf8_multi_def utf8_tail_short)
          with True \<open>i < len\<close> at multi lead show ?thesis
            unfolding bs by (subst utf8_slow.simps) (simp add: dec_list_stuck)
        next
          case False
          have "utf8_tail (count - 1) (unat cp) (map unat cs) =
              utf8_tail (count - 1) (unat cp) (map unat (drop (i + 1) buf))"
            using False \<open>i < len\<close> by (simp add: cs_def take_map [symmetric] utf8_tail_take)
          then have conts: "utf8_conts buf i 1 count cp =
              Some (map_option of_nat (utf8_tail (count - 1) (unat cp) (map unat cs)))"
            using utf8_conts_eq [of 1 count i buf "unat cp"] cnt False \<open>i < len\<close> less.prems by auto
          show ?thesis
          proof (cases "utf8_tail (count - 1) (unat cp) (map unat cs)")
            case None
            with False \<open>i < len\<close> at multi lead conts show ?thesis
              unfolding bs by (subst utf8_slow.simps) (simp add: dec_list_stuck dec utf8_multi_def)
          next
            case (Some v)
            have "(64 :: nat) ^ (count - 1) \<le> 64 ^ 3" using cnt by (intro power_increasing) auto
            then have "64 ^ (count - 1) * (unat cp + 1) \<le> 64 ^ 3 * 32"
              using cp by (intro mult_le_mono) simp_all
            with utf8_tail_bound [OF Some] have "v < 64 ^ 3 * 32" by (rule less_le_trans)
            then have acc: "utf8_accept count (of_nat v) \<longleftrightarrow> utf8_low count \<le> v \<and> unicode_scalar v"
              using cnt by (intro utf8_accept_eq) simp_all
            have pos: "0 < count" "Suc (count - 1) = count" using cnt by auto
            have d: "utf8_dec (b # cs) =
                (if utf8_low count \<le> v \<and> unicode_scalar v then Some (count, v) else None)"
              using Some pos by (simp add: dec utf8_multi_def)
            show ?thesis
            proof (cases "utf8_low count \<le> v \<and> unicode_scalar v")
              case True
              with d have "utf8_dec (b # cs) = Some (count, v)" by simp
              then have "dec_list utf8_dec (b # cs) = map_option ((#) v) (dec_list utf8_dec (drop count (b # cs)))"
                using pos by (intro dec_list_step) simp_all
              with True False \<open>i < len\<close> at multi lead conts Some acc IH [OF pos(1)] show ?thesis
                unfolding bs by (subst utf8_slow.simps) simp
            next
              case bad: False
              with d have "dec_list utf8_dec (b # cs) = None" by (intro dec_list_stuck) simp_all
              with bad False \<open>i < len\<close> at multi lead conts Some acc show ?thesis
                unfolding bs by (subst utf8_slow.simps) auto
            qed
          qed
        qed
      qed
    qed
  qed
qed

lemma dec_list_ascii:
  "\<forall>b \<in> set xs. b < 0x80 \<Longrightarrow> dec_list utf8_dec (xs @ ys) = None \<longleftrightarrow> dec_list utf8_dec ys = None"
proof (induction xs)
  case (Cons x xs)
  then have "utf8_dec (x # xs @ ys) = Some (1, unat x)" by (simp add: utf8_dec_def word_less_nat_alt)
  then have "dec_list utf8_dec (x # xs @ ys) = map_option ((#) (unat x)) (dec_list utf8_dec (xs @ ys))"
    using dec_list_step [of utf8_dec "x # xs @ ys" 1 "unat x"] by simp
  with Cons show ?case by simp
qed simp

lemma hs_proto_validate_utf8_fast_eq:
  assumes "len \<le> length buf"
  shows "hs_proto_validate_utf8_fast buf len =
     Some (if dec_list utf8_dec (take len buf) = None then 0 else 1)"
proof -
  have prefix: "dec_list utf8_dec (take len buf) = None \<longleftrightarrow>
      dec_list utf8_dec (take (len - j) (drop j buf)) = None"
    if "ascii_to buf 0 j" "j \<le> len" for j
  proof -
    have "\<forall>b \<in> set (take j buf). b < 0x80"
      using that assms ascii_to_chunk [of 0 j buf] by simp
    moreover have "take len buf = take j buf @ take (len - j) (drop j buf)"
      using that by (metis le_add_diff_inverse take_add)
    ultimately show ?thesis by (simp add: dec_list_ascii)
  qed
  from high_scan_post [OF assms] consider
      (hit) j where "high_scan buf len = Some (Inl j)" "j < len" "ascii_to buf 0 j"
    | (all) j where "high_scan buf len = Some (Inr j)" "j = len" "ascii_to buf 0 j"
    by (auto simp: scan_post_def split: option.splits sum.splits)
  then show ?thesis
  proof cases
    case hit
    with prefix [of j] assms show ?thesis
      by (simp add: hs_proto_validate_utf8_fast_def utf8_slow_eq)
  next
    case all
    with prefix [of j] show ?thesis by (simp add: hs_proto_validate_utf8_fast_def)
  qed
qed

text \<open>C10: the validator answers 1 exactly for the concatenations of UTF-8 encodings of Unicode scalar
  values (no overlong forms, no surrogates, nothing past U+10FFFF) and 0 for every other byte
  string; the vector, word and byte fast paths do not change the answer.\<close>

theorem utf8_valid_exact:
  assumes "len \<le> length buf"
  shows "\<exists>r. hs_proto_validate_utf8_fast buf len = Some r \<and> (r = 0 \<or> r = 1) \<and>
    (r = 1 \<longleftrightarrow> (\<exists>cps. list_all unicode_scalar cps \<and> take len buf = concat (map utf8_enc cps)))"
proof -
  have "dec_list utf8_dec (take len buf) \<noteq> None \<longleftrightarrow>
      (\<exists>cps. list_all unicode_scalar cps \<and> take len buf = concat (map utf8_enc cps))"
    by (simp only: not_None_eq utf8.dec_list_strict)
  then show ?thesis
    by (cases "dec_list utf8_dec (take len buf) = None")
      (simp_all add: hs_proto_validate_utf8_fast_eq [OF assms])
qed

theorem utf8_valid_exact_witness:
  "\<exists>r. hs_proto_validate_utf8_fast [0x41, 0xC3, 0xA9] 3 = Some r \<and> (r = 0 \<or> r = 1) \<and>
    (r = 1 \<longleftrightarrow> (\<exists>cps. list_all unicode_scalar cps \<and>
       take 3 [0x41, 0xC3, 0xA9] = concat (map utf8_enc cps)))"
  by (rule utf8_valid_exact) simp

subsection \<open>Searches\<close>

definition nul_mask :: "m128i \<Rightarrow> u32" where
  "nul_mask chunk = simde_mm_movemask_epi8 (simde_mm_cmpeq_epi8 chunk simde_mm_setzero_si128)"

definition hs_proto_find_nul :: "bytes \<Rightarrow> nat \<Rightarrow> nat \<Rightarrow> int option" where
  "hs_proto_find_nul buf offset len = do {
     r \<leftarrow> scan16 (simde_mm_loadu_si128 buf) nul_mask (\<lambda>b. b = 0) buf offset len;
     Some (case r of Some i \<Rightarrow> int i | None \<Rightarrow> -1)
   }"

definition json_special :: "u8 \<Rightarrow> bool" where
  "json_special b \<longleftrightarrow> b = 0x22 \<or> b = 0x5C \<or> b < 0x20"

definition json_escape_mask :: "m128i \<Rightarrow> u32" where
  "json_escape_mask chunk =
     (let m1 = simde_mm_movemask_epi8 (simde_mm_cmpeq_epi8 chunk (simde_mm_set1_epi8 0x22));
          m2 = simde_mm_movemask_epi8 (simde_mm_cmpeq_epi8 chunk (simde_mm_set1_epi8 0x5C));
          biased = simde_mm_xor_si128 chunk (simde_mm_set1_epi8 0x80);
          limit = simde_mm_set1_epi8 (0x20 XOR 0x80);
          m3 = simde_mm_movemask_epi8 (simde_mm_cmplt_epi8 biased limit)
      in m1 OR m2 OR m3)"

definition hs_proto_find_json_escape :: "bytes \<Rightarrow> nat \<Rightarrow> int \<Rightarrow> int option" where
  "hs_proto_find_json_escape buf offset len =
     (if len \<le> 0 then Some (int offset + len)
      else do {
        let p = drop offset buf;
        r \<leftarrow> scan16 (simde_mm_loadu_si128 p) json_escape_mask json_special p 0 (nat len);
        Some (case r of Some i \<Rightarrow> int (offset + i) | None \<Rightarrow> int offset + len)
      })"

interpretation find_nul: lane_test nul_mask "\<lambda>b. b = 0"
  by unfold_locales (auto simp: nul_mask_def simd_simps split: if_splits)

text \<open>The bias trick: flipping the sign bit turns the signed comparison into an unsigned one.\<close>

lemma biased_less: "sint ((b :: u8) XOR 0x80) < sint (0x20 XOR 0x80 :: u8) \<longleftrightarrow> b < 0x20"
  by (rule all_bytes [of _ b]; code_simp)

interpretation json_escape: lane_test json_escape_mask json_special
proof
  fix v :: m128i and i
  assume v: "length v = 16"
  show "bit (json_escape_mask v) i \<longleftrightarrow> i < 16 \<and> json_special (v ! i)"
    using v by (cases "i < 16")
      (auto simp: json_escape_mask_def json_special_def Let_def bit_or_iff simd_simps biased_less [simplified])
qed

text \<open>The NUL search returns the position of the first NUL at or after \<open>offset\<close>, or -1.\<close>

theorem find_nul_correct:
  assumes "len \<le> length buf"
  shows "\<exists>r. hs_proto_find_nul buf offset len = Some r \<and>
    (r = -1 \<and> (\<forall>k. offset \<le> k \<and> k < len \<longrightarrow> buf ! k \<noteq> 0) \<or>
     (\<exists>j. r = int j \<and> offset \<le> j \<and> j < len \<and> buf ! j = 0 \<and>
        (\<forall>k. offset \<le> k \<and> k < j \<longrightarrow> buf ! k \<noteq> 0)))"
proof (cases "first_pos (\<lambda>b. b = 0) buf offset len")
  case None
  then show ?thesis
    using assms by (simp add: hs_proto_find_nul_def find_nul.scan16_loadu) (simp add: first_pos_None_iff)
next
  case (Some j)
  then show ?thesis
    using assms by (simp add: hs_proto_find_nul_def find_nul.scan16_loadu) (simp add: first_pos_Some_iff)
qed

theorem find_nul_correct_witness:
  "\<exists>r. hs_proto_find_nul [0, 1, 0] 1 3 = Some r \<and>
    (r = -1 \<and> (\<forall>k. 1 \<le> k \<and> k < 3 \<longrightarrow> [0, 1, 0 :: u8] ! k \<noteq> 0) \<or>
     (\<exists>j. r = int j \<and> 1 \<le> j \<and> j < 3 \<and> [0, 1, 0 :: u8] ! j = 0 \<and>
        (\<forall>k. 1 \<le> k \<and> k < j \<longrightarrow> [0, 1, 0 :: u8] ! k \<noteq> 0)))"
  by (rule find_nul_correct) simp

text \<open>The JSON-escape search returns the position of the first byte of the window that JSON
  requires to be escaped (a control character, a quote or a backslash), and the window's end when
  there is none; the signed vector comparison with flipped sign bits decides \<open>b < 0x20\<close>.\<close>

theorem find_json_escape_correct:
  assumes "offset + nat len \<le> length buf"
  shows "hs_proto_find_json_escape buf offset len =
    Some (if len < 0 then int offset + len
      else int offset +
        int (length (takeWhile (\<lambda>b. \<not> json_special b) (take (nat len) (drop offset buf)))))"
proof (cases "len \<le> 0")
  case False
  then have len: "nat len \<le> length (drop offset buf)" using assms by simp
  have "(case first_pos json_special (drop offset buf) 0 (nat len) of
      Some i \<Rightarrow> int (offset + i) | None \<Rightarrow> int offset + len) =
    int offset + int (case first_pos json_special (drop offset buf) 0 (nat len) of
      Some i \<Rightarrow> i | None \<Rightarrow> nat len)"
    using False by (simp split: option.split)
  with False show ?thesis
    by (simp add: hs_proto_find_json_escape_def json_escape.scan16_loadu [OF len]
        first_pos_takeWhile [OF len])
qed (auto simp: hs_proto_find_json_escape_def)

theorem find_json_escape_correct_witness:
  "hs_proto_find_json_escape [0x61, 0x62, 0x22] 1 2 =
    Some (if (2 :: int) < 0 then int 1 + 2
      else int 1 + int (length (takeWhile (\<lambda>b. \<not> json_special b) (take (nat 2) (drop 1 [0x61, 0x62, 0x22])))))"
  by (rule find_json_escape_correct) simp

subsection \<open>EDN whitespace\<close>

definition edn_ws :: "u8 \<Rightarrow> bool" where
  "edn_ws b \<longleftrightarrow> b = 0x20 \<or> b = 0x09 \<or> b = 0x0A \<or> b = 0x0D \<or> b = 0x2C"

definition edn_ws_mask :: "m128i \<Rightarrow> u32" where
  "edn_ws_mask chunk =
     (let eq_space = simde_mm_cmpeq_epi8 chunk (simde_mm_set1_epi8 0x20);
          eq_tab = simde_mm_cmpeq_epi8 chunk (simde_mm_set1_epi8 0x09);
          eq_nl = simde_mm_cmpeq_epi8 chunk (simde_mm_set1_epi8 0x0A);
          eq_cr = simde_mm_cmpeq_epi8 chunk (simde_mm_set1_epi8 0x0D);
          eq_comma = simde_mm_cmpeq_epi8 chunk (simde_mm_set1_epi8 0x2C);
          ws = simde_mm_or_si128 (simde_mm_or_si128 eq_space eq_tab)
                 (simde_mm_or_si128 (simde_mm_or_si128 eq_nl eq_cr) eq_comma)
      in simde_mm_movemask_epi8 ws)"

function skip_ws_blocks :: "bytes \<Rightarrow> nat \<Rightarrow> nat \<Rightarrow> nat option" where
  "skip_ws_blocks buf i len =
     (if 16 \<le> len - i then do {
        chunk \<leftarrow> simde_mm_loadu_si128 buf i;
        if edn_ws_mask chunk = 0xFFFF then skip_ws_blocks buf (i + 16) len
        else Some (i + builtin_ctz (NOT (edn_ws_mask chunk)))
      }
      else Some i)"
  by pat_completeness auto
termination
  by (relation "measure (\<lambda>(buf, i, len). len - i)") auto

function skip_comment :: "bytes \<Rightarrow> nat \<Rightarrow> nat \<Rightarrow> nat option" where
  "skip_comment buf i len =
     (if i < len then do {
        b \<leftarrow> load buf i;
        if b \<noteq> 0x0A then skip_comment buf (i + 1) len else Some i
      }
      else Some i)"
  by pat_completeness auto
termination
  by (relation "measure (\<lambda>(buf, i, len). len - i)") auto

declare skip_ws_blocks.simps [simp del] skip_comment.simps [simp del]

lemma skip_comment_mono: "skip_comment buf i len = Some j \<Longrightarrow> i \<le> j"
proof (induction buf i len rule: skip_comment.induct)
  case (1 buf i len)
  then show ?case
    by (subst (asm) (2) skip_comment.simps)
      (fastforce simp: bind_eq_Some_conv split: if_splits)
qed

lemma skip_ws_blocks_mono: "skip_ws_blocks buf i len = Some j \<Longrightarrow> i \<le> j"
proof (induction buf i len rule: skip_ws_blocks.induct)
  case (1 buf i len)
  then show ?case
    by (subst (asm) (2) skip_ws_blocks.simps)
      (fastforce simp: bind_eq_Some_conv split: if_splits)
qed

function skip_ws_loop :: "bytes \<Rightarrow> nat \<Rightarrow> nat \<Rightarrow> nat option" where
  "skip_ws_loop buf i len =
     (if i < len then
        (case skip_ws_blocks buf i len of
           None \<Rightarrow> None
         | Some i' \<Rightarrow>
             if len \<le> i' then Some i'
             else (case load buf i' of
                 None \<Rightarrow> None
               | Some b \<Rightarrow>
                   if edn_ws b then skip_ws_loop buf (i' + 1) len
                   else if b = 0x3B then
                     (case skip_comment buf (i' + 1) len of
                        None \<Rightarrow> None
                      | Some k \<Rightarrow> skip_ws_loop buf k len)
                   else Some i'))
      else Some i)"
  by pat_completeness auto
termination
  by (relation "measure (\<lambda>(buf, i, len). len - i)")
    (auto dest!: skip_ws_blocks_mono skip_comment_mono)

declare skip_ws_loop.simps [simp del]

definition hs_proto_skip_ws :: "bytes \<Rightarrow> nat \<Rightarrow> nat \<Rightarrow> nat option" where
  "hs_proto_skip_ws buf offset len = skip_ws_loop buf offset len"

text \<open>What is left after whitespace and comments; the flag says whether the position is inside a comment.\<close>

fun edn_rest :: "bool \<Rightarrow> bytes \<Rightarrow> bytes" where
  "edn_rest c [] = []"
| "edn_rest True (b # bs) = edn_rest (b \<noteq> 0x0A) bs"
| "edn_rest False (b # bs) =
     (if edn_ws b then edn_rest False bs else if b = 0x3B then edn_rest True bs else b # bs)"

definition window :: "bytes \<Rightarrow> nat \<Rightarrow> nat \<Rightarrow> bytes" where
  "window buf len i = take (len - i) (drop i buf)"

lemma window_Cons: "i < len \<Longrightarrow> len \<le> length buf \<Longrightarrow> window buf len i = buf ! i # window buf len (i + 1)"
  by (simp add: window_def take_Suc_conv_app_nth Cons_nth_drop_Suc [symmetric] take_Cons' Suc_diff_Suc)

lemma window_end: "len \<le> i \<Longrightarrow> window buf len i = []"
  by (simp add: window_def)

lemma window_length: "len \<le> length buf \<Longrightarrow> length (window buf len i) = len - i"
  by (simp add: window_def)

interpretation edn: lane_test edn_ws_mask edn_ws
  by unfold_locales (auto simp: edn_ws_mask_def edn_ws_def simd_simps bit_or_iff split: if_splits)

lemma edn_rest_ws:
  "len \<le> length buf \<Longrightarrow> i \<le> j \<Longrightarrow> j \<le> len \<Longrightarrow> (\<And>k. i \<le> k \<Longrightarrow> k < j \<Longrightarrow> edn_ws (buf ! k)) \<Longrightarrow>
     edn_rest False (window buf len i) = edn_rest False (window buf len j)"
proof (induction "j - i" arbitrary: i)
  case (Suc d)
  then have "edn_ws (buf ! i)" "window buf len i = buf ! i # window buf len (i + 1)"
    by (simp_all add: window_Cons)
  moreover have "edn_rest False (window buf len (i + 1)) = edn_rest False (window buf len j)"
    using Suc by (intro Suc.hyps(1)) simp_all
  ultimately show ?case by simp
qed simp

lemma skip_ws_blocks_eq:
  "len \<le> length buf \<Longrightarrow> i \<le> len \<Longrightarrow>
     \<exists>j. skip_ws_blocks buf i len = Some j \<and> i \<le> j \<and> j \<le> len \<and>
       edn_rest False (window buf len i) = edn_rest False (window buf len j)"
proof (induction buf i len rule: skip_ws_blocks.induct)
  case (1 buf i len)
  show ?case
  proof (cases "16 \<le> len - i")
    case False
    with 1(3) show ?thesis by (intro exI [of _ i], subst skip_ws_blocks.simps) simp
  next
    case True
    define v where "v = take 16 (drop i buf)"
    have v: "simde_mm_loadu_si128 buf i = Some v" "length v = 16"
      and at: "\<And>k. k < 16 \<Longrightarrow> v ! k = buf ! (i + k)" and le: "i + 16 \<le> len"
      using True 1(2,3) by (simp_all add: simde_mm_loadu_si128_def load_block_in v_def)
    define n where "n = builtin_ctz (NOT (edn_ws_mask v))"
    have m: "bit (edn_ws_mask v) k \<longleftrightarrow> k < 16 \<and> edn_ws (buf ! (i + k))" for k
      using edn.lane [OF v(2), of k] at [of k] by auto
    show ?thesis
    proof (cases "edn_ws_mask v = 0xFFFF")
      case full: True
      have "edn_ws (buf ! (i + k))" if "k < 16" for k
      proof -
        have "(0xFFFF :: u32) = mask 16" by (simp add: mask_eq_exp_minus_1)
        then have "bit (edn_ws_mask v) k" using full that by (simp only: bit_mask_iff possible_bit_word) simp
        with m show ?thesis by blast
      qed
      then have all: "edn_ws (buf ! k)" if "i \<le> k" "k < i + 16" for k
        using that by (metis add_diff_inverse_nat nat_add_left_cancel_less not_less)
      have "edn_rest False (window buf len i) = edn_rest False (window buf len (i + 16))"
        using 1(2) le all by (intro edn_rest_ws) simp_all
      then show ?thesis
        using 1(1) [OF True v(1) full] 1(2) le True v full
        by (subst skip_ws_blocks.simps) auto
    next
      case False
      have "NOT (edn_ws_mask v) \<noteq> 0"
      proof
        assume "NOT (edn_ws_mask v) = 0"
        then have "\<not> bit (NOT (edn_ws_mask v)) 16" by simp
        with m [of 16] show False by (simp add: bit_not_iff)
      qed
      note ctz = builtin_ctz_bit(2) [OF this, folded n_def]
      have before: "k < 16 \<and> edn_ws (buf ! (i + k))" if "k < n" for k
        using ctz [OF that] m [of k] that builtin_ctz_le [of "NOT (edn_ws_mask v)"]
        by (simp add: bit_not_iff n_def)
      have "n \<le> 16" using before [of 16] by (meson less_irrefl not_le)
      moreover have "edn_ws (buf ! k)" if "i \<le> k" "k < i + n" for k
        using that before [of "k - i"] by simp
      ultimately have "edn_rest False (window buf len i) = edn_rest False (window buf len (i + n))"
        using 1(2) le by (intro edn_rest_ws) simp_all
      then show ?thesis
        using True v False le \<open>n \<le> 16\<close>
        by (intro exI [of _ "i + n"], subst skip_ws_blocks.simps) (simp add: n_def [symmetric])
    qed
  qed
qed

lemma skip_comment_eq:
  "len \<le> length buf \<Longrightarrow> i \<le> len \<Longrightarrow>
     \<exists>j. skip_comment buf i len = Some j \<and> i \<le> j \<and> j \<le> len \<and>
       edn_rest True (window buf len i) = edn_rest False (window buf len j)"
proof (induction buf i len rule: skip_comment.induct)
  case (1 buf i len)
  show ?case
  proof (cases "i < len")
    case False
    with 1(3) show ?thesis
      by (intro exI [of _ i], subst skip_comment.simps) (simp add: window_end)
  next
    case True
    then have w: "window buf len i = buf ! i # window buf len (i + 1)" using 1(2) by (rule window_Cons)
    have at: "load buf i = Some (buf ! i)" using True 1(2) by (simp add: load_in)
    show ?thesis
    proof (cases "buf ! i = 0x0A")
      case nl: True
      then show ?thesis
        using True at w by (intro exI [of _ i], subst skip_comment.simps) (simp add: edn_ws_def)
    next
      case False
      then show ?thesis
        using 1(1) [OF True at False] 1(2) True at w by (subst skip_comment.simps) auto
    qed
  qed
qed

lemma hs_proto_skip_ws_eq:
  "len \<le> length buf \<Longrightarrow> i \<le> len \<Longrightarrow>
     skip_ws_loop buf i len = Some (len - length (edn_rest False (window buf len i)))"
proof (induction "len - i" arbitrary: i rule: less_induct)
  case less
  show ?case
  proof (cases "i < len")
    case False
    with less.prems show ?thesis by (subst skip_ws_loop.simps) (simp add: window_end)
  next
    case True
    obtain j where j: "skip_ws_blocks buf i len = Some j" "i \<le> j" "j \<le> len"
      "edn_rest False (window buf len i) = edn_rest False (window buf len j)"
      using skip_ws_blocks_eq less.prems by blast
    show ?thesis
    proof (cases "j < len")
      case False
      with True j show ?thesis by (subst skip_ws_loop.simps) (simp add: window_end)
    next
      case jl: True
      have w: "window buf len j = buf ! j # window buf len (j + 1)" using jl less.prems(1) by (rule window_Cons)
      have at: "load buf j = Some (buf ! j)" using jl less.prems by (simp add: load_in)
      obtain k where k: "skip_comment buf (j + 1) len = Some k" "j + 1 \<le> k" "k \<le> len"
        "edn_rest True (window buf len (j + 1)) = edn_rest False (window buf len k)"
        using skip_comment_eq [of len buf "j + 1"] less.prems jl by auto
      have IH: "skip_ws_loop buf m len = Some (len - length (edn_rest False (window buf len m)))"
        if "j < m" "m \<le> len" for m
        using that j True less.prems by (intro less.hyps) simp_all
      consider "edn_ws (buf ! j)" | "\<not> edn_ws (buf ! j)" "buf ! j = 0x3B"
        | "\<not> edn_ws (buf ! j)" "buf ! j \<noteq> 0x3B" by blast
      then show ?thesis
      proof cases
        case 1
        with True j jl w at IH [of "j + 1"] show ?thesis by (subst skip_ws_loop.simps) simp
      next
        case 2
        with True j jl w at k IH [of k] show ?thesis by (subst skip_ws_loop.simps) simp
      next
        case 3
        with True j jl w at window_length [OF less.prems(1), of j] show ?thesis
          by (subst skip_ws_loop.simps) simp
      qed
    qed
  qed
qed

text \<open>Skipping EDN whitespace stops exactly where a byte-by-byte reading of whitespace, commas and
  \<open>;\<close> comments stops, however the 16-byte blocks fall; an offset at or past the end is returned
  unchanged.\<close>

theorem skip_ws_correct:
  assumes "len \<le> length buf"
  shows "hs_proto_skip_ws buf offset len =
    Some (if offset \<le> len then len - length (edn_rest False (take (len - offset) (drop offset buf))) else offset)"
proof (cases "offset \<le> len")
  case True
  then show ?thesis
    using hs_proto_skip_ws_eq [OF assms True] by (simp add: hs_proto_skip_ws_def window_def)
next
  case False
  then show ?thesis by (simp add: hs_proto_skip_ws_def skip_ws_loop.simps)
qed

theorem skip_ws_correct_witness:
  "hs_proto_skip_ws [0x20, 0x3B, 0x61, 0x0A, 0x62] 0 5 =
    Some (if (0 :: nat) \<le> 5 then 5 - length (edn_rest False (take (5 - 0) (drop 0 [0x20, 0x3B, 0x61, 0x0A, 0x62])))
      else 0)"
  by (rule skip_ws_correct) simp

end
