(* ===== verification/Proto_Words.thy ===== *)
theory Proto_Words
  imports Varint
begin

text \<open>
  The fixed-width parts of \<open>wireform-core/cbits/fast_decode.c\<close>: little- and big-endian reads and
  writes, and skipping a field by its wire type.
\<close>

subsection \<open>Reads and writes\<close>

definition hs_proto_decode_fixed32 :: "bytes \<Rightarrow> nat \<Rightarrow> u32 option" where
  "hs_proto_decode_fixed32 buf offset = load_le 4 buf offset"

definition hs_proto_decode_fixed64 :: "bytes \<Rightarrow> nat \<Rightarrow> u64 option" where
  "hs_proto_decode_fixed64 buf offset = load_le 8 buf offset"

definition hs_proto_read_be16 :: "bytes \<Rightarrow> nat \<Rightarrow> u16 option" where
  "hs_proto_read_be16 buf offset = map_option bswap16 (load_le 2 buf offset)"

definition hs_proto_read_be32 :: "bytes \<Rightarrow> nat \<Rightarrow> u32 option" where
  "hs_proto_read_be32 buf offset = map_option bswap32 (load_le 4 buf offset)"

definition hs_proto_read_be64 :: "bytes \<Rightarrow> nat \<Rightarrow> u64 option" where
  "hs_proto_read_be64 buf offset = map_option bswap64 (load_le 8 buf offset)"

definition hs_proto_write_be16 :: "bytes \<Rightarrow> nat \<Rightarrow> u16 \<Rightarrow> bytes option" where
  "hs_proto_write_be16 buf offset val = store_le 2 buf offset (bswap16 val)"

definition hs_proto_write_be32 :: "bytes \<Rightarrow> nat \<Rightarrow> u32 \<Rightarrow> bytes option" where
  "hs_proto_write_be32 buf offset val = store_le 4 buf offset (bswap32 val)"

definition hs_proto_write_be64 :: "bytes \<Rightarrow> nat \<Rightarrow> u64 \<Rightarrow> bytes option" where
  "hs_proto_write_be64 buf offset val = store_le 8 buf offset (bswap64 val)"

definition hs_proto_read_le16 :: "bytes \<Rightarrow> nat \<Rightarrow> u16 option" where
  "hs_proto_read_le16 buf offset = load_le 2 buf offset"

definition hs_proto_read_le32 :: "bytes \<Rightarrow> nat \<Rightarrow> u32 option" where
  "hs_proto_read_le32 buf offset = load_le 4 buf offset"

definition hs_proto_read_le64 :: "bytes \<Rightarrow> nat \<Rightarrow> u64 option" where
  "hs_proto_read_le64 buf offset = load_le 8 buf offset"

definition hs_proto_write_le16 :: "bytes \<Rightarrow> nat \<Rightarrow> u16 \<Rightarrow> bytes option" where
  "hs_proto_write_le16 buf offset val = store_le 2 buf offset val"

definition hs_proto_write_le32 :: "bytes \<Rightarrow> nat \<Rightarrow> u32 \<Rightarrow> bytes option" where
  "hs_proto_write_le32 buf offset val = store_le 4 buf offset val"

definition hs_proto_write_le64 :: "bytes \<Rightarrow> nat \<Rightarrow> u64 \<Rightarrow> bytes option" where
  "hs_proto_write_le64 buf offset val = store_le 8 buf offset val"

lemmas word_io_defs =
  hs_proto_write_be16_def hs_proto_read_be16_def hs_proto_write_be32_def hs_proto_read_be32_def
  hs_proto_write_be64_def hs_proto_read_be64_def hs_proto_write_le16_def hs_proto_read_le16_def
  hs_proto_write_le32_def hs_proto_read_le32_def hs_proto_write_le64_def hs_proto_read_le64_def
  hs_proto_decode_fixed32_def hs_proto_decode_fixed64_def

lemma load_after_store:
  "store_le n buf i w = Some buf' \<Longrightarrow> load_le n buf' i = Some (le_word (le_bytes n w))"
  by (cases "n = 0")
    (auto simp: store_le_def load_le_def load_block_def store_block_def le_bytes_def split: if_splits)

lemma store_load_le:
  "0 < n \<Longrightarrow> Option.bind (store_le n buf i w) (\<lambda>b. load_le n b i) =
     (if i + n \<le> length buf then Some (le_word (le_bytes n w)) else None)"
proof (cases "store_le n buf i w")
  case None
  then show "0 < n \<Longrightarrow> ?thesis" by (auto simp: store_le_def store_block_def split: if_splits)
next
  case (Some b)
  then have "i + n \<le> length buf" if "0 < n"
    using that by (auto simp: store_le_def store_block_def le_bytes_def split: if_splits)
  with Some show "0 < n \<Longrightarrow> ?thesis" by (simp add: load_after_store)
qed

lemma map_option_bind_le:
  "0 < n \<Longrightarrow> Option.bind (store_le n buf i w) (\<lambda>b. map_option f (load_le n b i)) =
     (if i + n \<le> length buf then Some (f (le_word (le_bytes n w))) else None)"
  using store_load_le [of n buf i w] by (cases "store_le n buf i w") auto

lemma bswap_bswap: "bswap16 (bswap16 a) = a" "bswap32 (bswap32 b) = b" "bswap64 (bswap64 c) = c"
  by (simp_all add: bswap16_def [of "bswap16 a"] bswap32_def [of "bswap32 b"]
      bswap64_def [of "bswap64 c"] le_bytes_bswap le_word_le_bytes)

text \<open>What any of the six write helpers stores, the matching read helper returns; a write that
  does not fit faults.\<close>

theorem word_io_roundtrip:
  "Option.bind (hs_proto_write_be16 b i x) (\<lambda>b'. hs_proto_read_be16 b' i) =
      (if i + 2 \<le> length b then Some x else None) \<and>
   Option.bind (hs_proto_write_be32 b i y) (\<lambda>b'. hs_proto_read_be32 b' i) =
      (if i + 4 \<le> length b then Some y else None) \<and>
   Option.bind (hs_proto_write_be64 b i z) (\<lambda>b'. hs_proto_read_be64 b' i) =
      (if i + 8 \<le> length b then Some z else None) \<and>
   Option.bind (hs_proto_write_le16 b i x) (\<lambda>b'. hs_proto_read_le16 b' i) =
      (if i + 2 \<le> length b then Some x else None) \<and>
   Option.bind (hs_proto_write_le32 b i y) (\<lambda>b'. hs_proto_read_le32 b' i) =
      (if i + 4 \<le> length b then Some y else None) \<and>
   Option.bind (hs_proto_write_le32 b i y) (\<lambda>b'. hs_proto_decode_fixed32 b' i) =
      (if i + 4 \<le> length b then Some y else None) \<and>
   Option.bind (hs_proto_write_le64 b i z) (\<lambda>b'. hs_proto_read_le64 b' i) =
      (if i + 8 \<le> length b then Some z else None) \<and>
   Option.bind (hs_proto_write_le64 b i z) (\<lambda>b'. hs_proto_decode_fixed64 b' i) =
      (if i + 8 \<le> length b then Some z else None)"
  by (simp add: word_io_defs store_load_le bind_map_option comp_def le_word_le_bytes bswap_bswap
      map_option_bind_le)

subsection \<open>Skipping a field\<close>

text \<open>The declared length is compared in 64 bits; \<open>(int)field_len\<close> is the low half, read as signed.\<close>

definition hs_proto_skip_field :: "bytes \<Rightarrow> nat \<Rightarrow> nat \<Rightarrow> int \<Rightarrow> int option" where
  "hs_proto_skip_field buf len offset wire_type =
     (if wire_type = 0 then do {
        consumed \<leftarrow> hs_proto_skip_varint buf len offset;
        Some (if consumed = 0 then -1 else int offset + int consumed)
      }
      else if wire_type = 1 then Some (if len - offset < 8 then -1 else int offset + 8)
      else if wire_type = 2 then do {
        (consumed, out) \<leftarrow> hs_proto_decode_varint_fast buf len offset;
        (case out of
           None \<Rightarrow> Some (-1)
         | Some field_len \<Rightarrow>
             if consumed = 0 then Some (-1)
             else if of_nat (len - offset - consumed) < field_len then Some (-1)
             else Some (int offset + int consumed + sint (ucast field_len :: u32)))
      }
      else if wire_type = 5 then Some (if len - offset < 4 then -1 else int offset + 4)
      else Some (-1))"

text \<open>The reference: the number of bytes a field value of a wire type occupies.\<close>

definition field_extent :: "int \<Rightarrow> bytes \<Rightarrow> nat option" where
  "field_extent wire_type xs =
     (if wire_type = 0 then map_option fst (leb_dec xs)
      else if wire_type = 1 then (if 8 \<le> length xs then Some 8 else None)
      else if wire_type = 2 then
        (case leb_dec xs of
           None \<Rightarrow> None
         | Some (n, v) \<Rightarrow> if n + unat v \<le> length xs then Some (n + unat v) else None)
      else if wire_type = 5 then (if 4 \<le> length xs then Some 4 else None)
      else None)"

lemma leb_dec_len: "leb_dec xs = Some (n, v) \<Longrightarrow> 0 < n \<and> n \<le> length xs"
  by (auto simp: leb_dec_def leb_len_def split: if_splits)

lemma hs_proto_skip_field_eq:
  assumes "offset \<le> len" and "len \<le> length buf" and "len < 2 ^ 31"
  shows "hs_proto_skip_field buf len offset wire_type =
    Some (case field_extent wire_type (take (len - offset) (drop offset buf)) of
        None \<Rightarrow> -1 | Some n \<Rightarrow> int offset + int n)"
proof -
  define xs where "xs = take (len - offset) (drop offset buf)"
  have lx: "length xs = len - offset" using assms by (simp add: xs_def)
  have fast: "hs_proto_decode_varint_fast buf len offset = Some (varint_out (leb_dec xs))"
    and skip: "hs_proto_skip_varint buf len offset = Some (fst (varint_out (leb_dec xs)))"
    using assms(2) by (simp_all add: decode_varint_fast_eq hs_proto_skip_varint_eq xs_def)
  show ?thesis
  proof (cases "wire_type = 2 \<or> wire_type = 0")
    case False
    then show ?thesis by (auto simp: hs_proto_skip_field_def field_extent_def lx xs_def [symmetric])
  next
    case True
    show ?thesis
    proof (cases "leb_dec xs")
      case None
      with True show ?thesis
        by (auto simp: hs_proto_skip_field_def field_extent_def fast skip varint_out_def xs_def [symmetric])
    next
      case (Some nv)
      then obtain n v where nv: "leb_dec xs = Some (n, v)" by (cases nv) auto
      note n = leb_dec_len [OF nv]
      have u: "unat (of_nat (len - offset - n) :: u64) = len - offset - n"
        using assms(3) by (simp add: unat_of_nat)
      have cmp: "of_nat (len - offset - n) < v \<longleftrightarrow> \<not> n + unat v \<le> length xs"
        unfolding word_less_nat_alt u using n lx by linarith
      have "sint (ucast v :: u32) = int (unat v)" if "n + unat v \<le> length xs"
      proof -
        have v: "unat v < 2 ^ 31" using that lx assms(3) by linarith
        then have c: "unat (ucast v :: u32) = unat v"
          by (simp add: unsigned_ucast_eq take_bit_nat_eq_self_iff)
        have "sint (ucast v :: u32) = signed_take_bit 31 (int (unat (ucast v :: u32)))"
          by (simp add: sint_uint)
        also have "\<dots> = int (unat v)"
          unfolding c using v by (intro signed_take_bit_int_eq_self) (simp_all del: of_nat_unat)
        finally show ?thesis .
      qed
      with True nv n cmp show ?thesis
        by (auto simp: hs_proto_skip_field_def field_extent_def fast skip varint_out_def xs_def [symmetric])
    qed
  qed
qed

text \<open>C11: skipping a field never reads outside the buffer and either reports an error or moves forward
  to a position inside the buffer, the end of the field its wire type describes; an untrusted
  64-bit length is rejected before it could be narrowed.\<close>

theorem skip_field_correct:
  assumes "offset \<le> len" and "len \<le> length buf" and "len < 2 ^ 31"
  shows "\<exists>r. hs_proto_skip_field buf len offset wire_type = Some r \<and>
    (case field_extent wire_type (take (len - offset) (drop offset buf)) of
       None \<Rightarrow> r = -1
     | Some n \<Rightarrow> r = int (offset + n) \<and> 0 < n \<and> offset + n \<le> len)"
proof -
  have "0 < n \<and> offset + n \<le> len"
    if "field_extent wire_type (take (len - offset) (drop offset buf)) = Some n" for n
    using that assms leb_dec_len
    by (fastforce simp: field_extent_def split: if_splits option.splits)
  then show ?thesis
    by (simp add: hs_proto_skip_field_eq [OF assms] split: option.split)
qed

theorem skip_field_correct_witness:
  "\<exists>r. hs_proto_skip_field [8, 2, 65, 66] 4 1 2 = Some r \<and>
    (case field_extent 2 (take (4 - 1) (drop 1 [8, 2, 65, 66])) of
       None \<Rightarrow> r = -1
     | Some n \<Rightarrow> r = int (1 + n) \<and> 0 < n \<and> 1 + n \<le> 4)"
  by (rule skip_field_correct) simp_all

lemma length_delimited_layout:
  "hs_proto_encode_length_delimited buf offset tag data n =
     (if n \<le> length data
      then map_option (\<lambda>b. (b, 1 + length (leb_enc (of_nat n)) + n))
             (store_block buf offset (tag # leb_enc (of_nat n) @ take n data))
      else Option.bind (store_block buf offset (tag # leb_enc (of_nat n))) (\<lambda>_. None))"
proof (cases "n = 0")
  case True
  then show ?thesis
    by (simp add: hs_proto_encode_length_delimited_def hs_proto_encode_varint_eq store_block_Cons
        map_option_bind comp_def) (simp add: map_conv_bind_option comp_def)
next
  case False
  then show ?thesis
    by (auto simp: hs_proto_encode_length_delimited_def hs_proto_encode_varint_eq store_block_Cons
        store_block_append load_block_def map_option_bind comp_def map_conv_bind_option ac_simps)
qed

text \<open>A length-delimited field written by the one-call encoder occupies exactly the returned number
  of bytes, and skipping it by wire type 2 from behind its tag lands on its end: writer and skipper
  agree for every payload.\<close>

theorem length_delimited_skipped:
  assumes "hs_proto_encode_length_delimited buf offset tag data n = Some (buf', tot)"
    and "offset + tot \<le> len" and "len \<le> length buf" and "len < 2 ^ 31"
  shows "hs_proto_skip_field buf' len (offset + 1) 2 = Some (int (offset + tot)) \<and>
    take n (drop (offset + tot - n) buf') = take n data \<and> frame offset (offset + tot) buf buf'"
proof -
  let ?e = "leb_enc (of_nat n)"
  have n: "n \<le> length data"
  proof (rule ccontr)
    assume "\<not> n \<le> length data"
    with assms(1) show False by (simp add: length_delimited_layout bind_eq_Some_conv)
  qed
  with assms(1) have st: "store_block buf offset (tag # ?e @ take n data) = Some buf'"
    and tot: "tot = 1 + length ?e + n"
    by (auto simp: length_delimited_layout)
  have lb: "length buf' = length buf" by (rule store_block_length [OF st])
  have un: "unat (of_nat n :: u64) = n" using assms(2,4) tot by (simp add: unat_of_nat)
  have whole: "take tot (drop offset buf') = tag # ?e @ take n data"
    using store_block_written [OF st] tot n by simp
  have "take (tot - 1) (drop (offset + 1) buf') = drop 1 (take tot (drop offset buf'))"
    by (simp add: drop_take)
  then have "take (tot - 1) (drop (offset + 1) buf') = ?e @ take n data"
    by (simp add: whole)
  then have win: "take (tot - 1) (take (len - (offset + 1)) (drop (offset + 1) buf')) = ?e @ take n data"
    using assms(2) tot by (simp add: min_def)
  define xs where "xs = take (len - (offset + 1)) (drop (offset + 1) buf')"
  have xs: "xs = ?e @ take n data @ drop (tot - 1) xs"
    using append_take_drop_id [of "tot - 1" xs] win by (simp add: xs_def)
  have "leb_dec xs = Some (length ?e, of_nat n)" by (subst xs) (rule leb_dec_enc)
  moreover have "length ?e + n \<le> length xs"
    using assms(2,3) lb tot by (simp add: xs_def)
  ultimately have ext: "field_extent 2 xs = Some (length ?e + n)" by (simp add: field_extent_def un)
  have "hs_proto_skip_field buf' len (offset + 1) 2 = Some (int (offset + 1) + int (length ?e + n))"
    using hs_proto_skip_field_eq [of "offset + 1" len buf' 2] assms lb tot ext
    by (simp add: xs_def)
  moreover have "take n (drop (offset + tot - n) buf') = take n data"
  proof -
    have "take n (drop (offset + tot - n) buf') = drop (tot - n) (take tot (drop offset buf'))"
      using tot by (simp add: drop_take ac_simps)
    also have "\<dots> = take n data"
      unfolding whole using tot by simp
    finally show ?thesis .
  qed
  moreover have "frame offset (offset + tot) buf buf'"
    using store_block_frame [OF st] tot n by simp
  ultimately show ?thesis using tot by simp
qed

theorem length_delimited_skipped_witness:
  "hs_proto_skip_field [10, 2, 65, 66, 9] 5 (0 + 1) 2 = Some (int (0 + 4)) \<and>
    take 2 (drop (0 + 4 - 2) [10, 2, 65, 66, 9]) = take 2 [65, 66 :: u8] \<and>
    frame 0 (0 + 4) [0, 0, 0, 0, 9] [10, 2, 65, 66, 9 :: u8]"
  by (rule length_delimited_skipped)
    (simp_all add: length_delimited_layout leb_enc_short store_block_def)

end
