(* ===== verification/Proto_Tables.thy ===== *)
theory Proto_Tables
  imports Endian
begin

text \<open>
  Three table-driven parts of \<open>wireform-core/cbits/fast_decode.c\<close>: the page-boundary copy that makes
  8-byte loads safe, the comparison of a search value against serialized bounds (Parquet
  statistics), and the validation of Arrow IPC buffer tables.
\<close>

subsection \<open>Page boundaries\<close>

definition hs_proto_relocate_page_boundary ::
  "u64 \<Rightarrow> bytes \<Rightarrow> nat \<Rightarrow> bytes \<Rightarrow> nat \<Rightarrow> (bytes \<times> int) option" where
  "hs_proto_relocate_page_boundary addr buf len out_buf out_len =
     (if len = 0 then Some (out_buf, 0)
      else
        let end_addr = addr + of_nat len;
            page_end = (end_addr + 4095) AND NOT 4095
        in if page_end - end_addr < 8 then
             (if out_len < 7 \<or> out_len - 7 < len then Some (out_buf, -1)
              else do {
                xs \<leftarrow> load_block buf 0 len;
                out_buf \<leftarrow> store_block out_buf 0 xs;
                out_buf \<leftarrow> store_block out_buf len (replicate 7 0);
                Some (out_buf, 1)
              })
           else Some (out_buf, 0))"

lemma page_round:
  assumes "unat (a :: u64) + 4095 < 2 ^ 64"
  shows "unat ((a + 4095) AND NOT 4095) = (unat a + 4095) div 4096 * 4096"
proof -
  have m: "(4095 :: u64) = mask 12" by (simp add: mask_eq_exp_minus_1)
  have "w AND NOT (mask 12) = push_bit 12 (drop_bit 12 w)" for w :: u64
    by (rule bit_word_eqI) (auto simp: bit_simps)
  then have "(a + 4095) AND NOT 4095 = push_bit 12 (drop_bit 12 (a + 4095))"
    by (simp only: m)
  moreover have "unat (a + 4095) = unat a + 4095" using assms by (simp add: unat_word_ariths)
  moreover have "unat (push_bit 12 (drop_bit 12 w)) = unat w div 4096 * 4096" for w :: u64
  proof -
    have "push_bit 12 (drop_bit 12 w) = w - take_bit 12 w"
      by (metis add_diff_cancel_right' bits_ident)
    moreover have "take_bit 12 w \<le> w"
      by (simp add: word_le_nat_alt unsigned_take_bit_eq)
    ultimately have "unat (push_bit 12 (drop_bit 12 w)) = unat w - unat w mod 4096"
      by (simp add: unat_sub unsigned_take_bit_eq take_bit_eq_mod unat_mod)
    then show ?thesis by (simp add: minus_mod_eq_div_mult)
  qed
  ultimately show ?thesis by simp
qed

lemma same_page:
  assumes "\<not> (e + 4095) div 4096 * 4096 - e < (8 :: nat)" and "0 < e"
  shows "(e + 6) div 4096 = (e - 1) div 4096"
proof -
  define q where "q = (e + 4095) div 4096"
  have q: "q * 4096 \<le> e + 4095" "e + 4095 < Suc q * 4096" unfolding q_def by simp_all
  have e: "e + 8 \<le> q * 4096" using assms(1) by (simp add: q_def)
  then obtain k where k: "q = Suc k" by (cases q) auto
  have "(e + 6) div 4096 = k" using q e k by (intro div_nat_eqI) simp_all
  moreover have "(e - 1) div 4096 = k" using q e k assms(2) by (intro div_nat_eqI) simp_all
  ultimately show ?thesis by simp
qed

text \<open>After the check, 8-byte loads at every position of the message are safe: either the message
  was copied in front of seven zero bytes, or every load ends on the page the message's last byte is
  on; the copy is refused exactly when the destination cannot hold it.\<close>

theorem relocate_page_safe:
  assumes "0 < len" and "len \<le> length buf" and "out_len \<le> length out"
    and "unat addr + len + 4095 < 2 ^ 64"
  shows "\<exists>out' r. hs_proto_relocate_page_boundary addr buf len out out_len = Some (out', r) \<and>
    (r = 1 \<and> out' = take len buf @ replicate 7 0 @ drop (len + 7) out \<and> len + 7 \<le> out_len \<or>
     r = 0 \<and> out' = out \<and>
       (\<forall>p < len. (unat addr + p + 7) div 4096 \<le> (unat addr + len - 1) div 4096) \<or>
     r = -1 \<and> out' = out \<and> out_len < len + 7)"
proof -
  define e where "e = unat addr + len"
  have ue: "unat (addr + of_nat len) = e"
    using assms(4) by (simp add: unat_word_ariths unat_of_nat e_def)
  define pe where "pe = ((addr + of_nat len) + 4095) AND NOT 4095"
  have pe: "unat pe = (e + 4095) div 4096 * 4096"
    using page_round [of "addr + of_nat len"] assms(4) by (simp add: pe_def ue) (simp add: e_def)
  have "e + 4095 < Suc ((e + 4095) div 4096) * 4096" by simp
  then have "e \<le> (e + 4095) div 4096 * 4096" by simp
  then have "unat (pe - (addr + of_nat len)) = (e + 4095) div 4096 * 4096 - e"
    using pe ue by (simp add: unat_sub word_le_nat_alt)
  then have near: "pe - (addr + of_nat len) < 8 \<longleftrightarrow> (e + 4095) div 4096 * 4096 - e < 8"
    by (simp add: word_less_nat_alt)
  show ?thesis
  proof (cases "pe - (addr + of_nat len) < 8")
    case True
    show ?thesis
    proof (cases "len + 7 \<le> out_len")
      case fits: True
      then have "\<not> (out_len < 7 \<or> out_len - 7 < len)" by simp
      moreover have "load_block buf 0 len = Some (take len buf)" using assms by (simp add: load_block_in)
      moreover have "store_block out 0 (take len buf) = Some (take len buf @ drop len out)"
        using assms fits by (simp add: store_block_in)
      moreover have "store_block (take len buf @ drop len out) len (replicate 7 0) =
          Some (take len buf @ replicate 7 0 @ drop (len + 7) out)"
        using assms fits by (simp add: store_block_in add.commute)
      ultimately show ?thesis
        using True assms(1) fits
        unfolding hs_proto_relocate_page_boundary_def Let_def pe_def [symmetric] by simp
    next
      case False
      then have "out_len < 7 \<or> out_len - 7 < len" by auto
      then show ?thesis
        using True assms(1) False
        unfolding hs_proto_relocate_page_boundary_def Let_def pe_def [symmetric] by simp
    qed
  next
    case False
    have "(unat addr + p + 7) div 4096 \<le> (e - 1) div 4096" if "p < len" for p
    proof -
      have "unat addr + p + 7 \<le> e + 6" using that by (simp add: e_def)
      moreover have "(e + 6) div 4096 = (e - 1) div 4096"
        using False near assms(1) by (intro same_page) (simp_all add: e_def)
      ultimately show ?thesis by (metis div_le_mono)
    qed
    then show ?thesis
      using False assms(1)
      unfolding hs_proto_relocate_page_boundary_def Let_def pe_def [symmetric] by (simp add: e_def)
  qed
qed

theorem relocate_page_safe_witness:
  "\<exists>out' r. hs_proto_relocate_page_boundary 4093 [1, 2, 3] 3 (replicate 10 9) 10 = Some (out', r) \<and>
    (r = 1 \<and> out' = take 3 [1, 2, 3] @ replicate 7 0 @ drop (3 + 7) (replicate 10 9) \<and> (3 :: nat) + 7 \<le> 10 \<or>
     r = 0 \<and> out' = replicate 10 9 \<and>
       (\<forall>p < 3. (unat (4093 :: u64) + p + 7) div 4096 \<le> (unat (4093 :: u64) + 3 - 1) div 4096) \<or>
     r = -1 \<and> out' = replicate 10 9 \<and> (10 :: nat) < 3 + 7)"
  by (rule relocate_page_safe) simp_all

subsection \<open>Bounds\<close>

text \<open>\<open>memcmp\<close>: the sign of the first difference, as unsigned bytes.\<close>

fun memcmp :: "bytes \<Rightarrow> bytes \<Rightarrow> int" where
  "memcmp (x # xs) (y # ys) = (if x < y then -1 else if y < x then 1 else memcmp xs ys)"
| "memcmp _ _ = 0"

function compare_scalar :: "bytes \<Rightarrow> nat \<Rightarrow> bytes \<Rightarrow> nat \<Rightarrow> nat \<Rightarrow> u32 \<Rightarrow> u32 option" where
  "compare_scalar bounds width search n i result =
     (if i < n then do {
        cmp \<leftarrow> (if width \<noteq> 0 then do {
                  x \<leftarrow> load_block bounds (i * width) width;
                  y \<leftarrow> load_block search 0 width;
                  Some (memcmp x y)
                }
                else Some 0);
        compare_scalar bounds width search n (i + 1)
          (if cmp \<le> 0 then result OR push_bit i 1 else result)
      }
      else Some result)"
  by pat_completeness auto
termination
  by (relation "measure (\<lambda>(bounds, width, search, n, i, result). n - i)") auto

text \<open>The 32-bit lanes of a vector, their signed comparison, and the sign mask of four lanes.\<close>

definition lanes32 :: "m128i \<Rightarrow> u32 list" where
  "lanes32 v = map (\<lambda>k. le_word (take 4 (drop (4 * k) v))) [0..<4]"

definition simde_mm_set1_epi32 :: "u32 \<Rightarrow> u32 list" where
  "simde_mm_set1_epi32 a = replicate 4 a"

definition simde_mm_cmplt_epi32 :: "u32 list \<Rightarrow> u32 list \<Rightarrow> u32 list" where
  "simde_mm_cmplt_epi32 = map2 (\<lambda>a b. if sint a < sint b then 0xFFFFFFFF else 0)"

definition simde_mm_movemask_ps :: "u32 list \<Rightarrow> u32" where
  "simde_mm_movemask_ps v = horner_sum of_bool 2 (map (\<lambda>a. bit a 31) v)"

function compare_lanes :: "bytes \<Rightarrow> u32 \<Rightarrow> nat \<Rightarrow> nat \<Rightarrow> u32 \<Rightarrow> (nat \<times> u32) option" where
  "compare_lanes bounds search_val n i result =
     (if 4 \<le> n - i then do {
        v \<leftarrow> simde_mm_loadu_si128 bounds (i * 4);
        let lt = simde_mm_cmplt_epi32 (simde_mm_set1_epi32 search_val) (lanes32 v);
        let msk = simde_mm_movemask_ps lt;
        compare_lanes bounds search_val n (i + 4) (result OR push_bit i (NOT msk AND 0xF))
      }
      else Some (i, result))"
  by pat_completeness auto
termination
  by (relation "measure (\<lambda>(bounds, search_val, n, i, result). n - i)") auto

function compare_tail :: "bytes \<Rightarrow> u32 \<Rightarrow> nat \<Rightarrow> nat \<Rightarrow> u32 \<Rightarrow> u32 option" where
  "compare_tail bounds search_val n i result =
     (if i < n then do {
        bval \<leftarrow> load_le 4 bounds (i * 4);
        compare_tail bounds search_val n (i + 1)
          (if sint (bval :: u32) \<le> sint search_val then result OR push_bit i 1 else result)
      }
      else Some result)"
  by pat_completeness auto
termination
  by (relation "measure (\<lambda>(bounds, search_val, n, i, result). n - i)") auto

declare compare_scalar.simps [simp del] compare_lanes.simps [simp del] compare_tail.simps [simp del]

definition hs_proto_compare_bounds :: "bytes \<Rightarrow> nat \<Rightarrow> nat \<Rightarrow> bytes \<Rightarrow> u32 option" where
  "hs_proto_compare_bounds bounds count width search =
     (let n = (if count < 32 then count else 32)
      in if width \<noteq> 4 then compare_scalar bounds width search n 0 0
         else do {
           search_val \<leftarrow> load_le 4 search 0;
           (i, result) \<leftarrow> compare_lanes bounds search_val n 0 0;
           compare_tail bounds search_val n i result
         })"

text \<open>The result as a set of positions: bit \<open>i\<close> is set when the \<open>i\<close>-th bound is at most the value.\<close>

definition bounds_upto :: "(nat \<Rightarrow> bool) \<Rightarrow> nat \<Rightarrow> u32 \<Rightarrow> bool" where
  "bounds_upto p i result \<longleftrightarrow> (\<forall>k. bit result k \<longleftrightarrow> k < i \<and> p k)"

lemma bounds_upto_0: "bounds_upto p 0 0"
  by (simp add: bounds_upto_def)

lemma bounds_upto_step:
  assumes "bounds_upto p i result" and "i < 32"
  shows "bounds_upto p (i + 1) (if p i then result OR push_bit i 1 else result)"
proof -
  have R: "bit result k \<longleftrightarrow> k < i \<and> p k" for k using assms(1) by (simp only: bounds_upto_def)
  have b: "bit (push_bit i 1 :: u32) k \<longleftrightarrow> k = i" for k
  proof -
    have "(push_bit i 1 :: u32) = 2 ^ i" by simp
    then show ?thesis using assms(2) by (simp only: bit_exp_iff possible_bit_word) auto
  qed
  show ?thesis
    unfolding bounds_upto_def
  proof
    fix k
    show "bit (if p i then result OR push_bit i 1 else result) k \<longleftrightarrow> k < i + 1 \<and> p k"
    proof (cases "p i")
      case True
      then show ?thesis by (simp only: if_True bit_or_iff b R) (auto simp: less_Suc_eq)
    next
      case False
      then show ?thesis by (simp only: if_False R) (auto simp: less_Suc_eq)
    qed
  qed
qed

lemma compare_tail_eq:
  assumes "bounds_upto (\<lambda>k. sint (le_word (take 4 (drop (k * 4) bounds)) :: u32) \<le> sint sv) i result"
    and "n \<le> 32" and "n * 4 \<le> length bounds" and "i \<le> n"
  shows "\<exists>r. compare_tail bounds sv n i result = Some r \<and>
    bounds_upto (\<lambda>k. sint (le_word (take 4 (drop (k * 4) bounds)) :: u32) \<le> sint sv) n r"
  using assms
proof (induction "n - i" arbitrary: i result)
  case 0
  then show ?case by (subst compare_tail.simps) simp
next
  case (Suc d)
  then have i: "i < n" "i * 4 + 4 \<le> length bounds" by simp_all
  let ?p = "\<lambda>k. sint (le_word (take 4 (drop (k * 4) bounds)) :: u32) \<le> sint sv"
  have "bounds_upto ?p (i + 1) (if ?p i then result OR push_bit i 1 else result)"
    using Suc.prems i by (intro bounds_upto_step) simp_all
  then have "\<exists>r. compare_tail bounds sv n (i + 1) (if ?p i then result OR push_bit i 1 else result) = Some r \<and>
      bounds_upto ?p n r"
    using Suc i by (intro Suc.hyps(1)) simp_all
  with i show ?case by (subst compare_tail.simps) (simp add: load_le_in)
qed

lemma compare_scalar_eq:
  assumes "bounds_upto (\<lambda>k. memcmp (take width (drop (k * width) bounds)) (take width search) \<le> 0) i result"
    and "n \<le> 32" and "n * width \<le> length bounds" and "width \<le> length search" and "i \<le> n"
  shows "\<exists>r. compare_scalar bounds width search n i result = Some r \<and>
    bounds_upto (\<lambda>k. memcmp (take width (drop (k * width) bounds)) (take width search) \<le> 0) n r"
  using assms
proof (induction "n - i" arbitrary: i result)
  case 0
  then show ?case by (subst compare_scalar.simps) simp
next
  case (Suc d)
  then have i: "i < n" by simp
  have "Suc i * width \<le> n * width" using i by (intro mult_le_mono) simp_all
  then have le: "i * width + width \<le> length bounds" using Suc.prems by simp
  let ?p = "\<lambda>k. memcmp (take width (drop (k * width) bounds)) (take width search) \<le> 0"
  have "bounds_upto ?p (i + 1) (if ?p i then result OR push_bit i 1 else result)"
    using Suc.prems i by (intro bounds_upto_step) simp_all
  then have "\<exists>r. compare_scalar bounds width search n (i + 1) (if ?p i then result OR push_bit i 1 else result) = Some r \<and>
      bounds_upto ?p n r"
    using Suc i by (intro Suc.hyps(1)) simp_all
  with i le Suc.prems(4) show ?case
    by (subst compare_scalar.simps) (cases "width = 0"; simp add: load_block_in)
qed

lemma movemask_ps_bit:
  "length a = 4 \<Longrightarrow> length b = 4 \<Longrightarrow>
     bit (simde_mm_movemask_ps (simde_mm_cmplt_epi32 a b)) k \<longleftrightarrow> k < 4 \<and> sint (a ! k) < sint (b ! k)"
  by (auto simp: simde_mm_movemask_ps_def simde_mm_cmplt_epi32_def bit_horner_sum_bit_iff split: if_splits)

lemma lanes32_at:
  assumes "j < 4"
  shows "lanes32 (take 16 (drop (i * 4) bounds)) ! j = le_word (take 4 (drop ((i + j) * 4) bounds))"
proof -
  have "take 4 (drop (4 * j) (take 16 (drop (i * 4) bounds))) = take 4 (drop ((i + j) * 4) bounds)"
    using assms by (simp add: drop_take min_def algebra_simps)
  with assms show ?thesis by (simp add: lanes32_def)
qed

lemma bit_push_add: "bit (push_bit i (w :: u32)) (i + j) \<longleftrightarrow> i + j < 32 \<and> bit w j"
  by (simp add: bit_push_bit_iff)

lemma bounds_upto_lanes:
  assumes "bounds_upto p i result" and "i + 4 \<le> 32"
    and "\<And>j. bit msk j \<longleftrightarrow> j < 4 \<and> \<not> p (i + j)"
  shows "bounds_upto p (i + 4) (result OR push_bit i (NOT msk AND 0xF))"
  unfolding bounds_upto_def
proof
  fix k
  have R: "bit result k \<longleftrightarrow> k < i \<and> p k" using assms(1) by (simp only: bounds_upto_def)
  have f: "bit (0xF :: u32) j \<longleftrightarrow> j < 4" for j
  proof -
    have "(0xF :: u32) = mask 4" by (simp add: mask_eq_exp_minus_1)
    then show ?thesis by (simp only: bit_mask_iff possible_bit_word) auto
  qed
  have w: "bit (NOT msk AND 0xF) j \<longleftrightarrow> j < 4 \<and> p (i + j)" for j
    by (simp only: bit_and_iff bit_not_iff possible_bit_word f assms(3)) auto
  have m: "bit (push_bit i (NOT msk AND 0xF)) k \<longleftrightarrow> i \<le> k \<and> k < i + 4 \<and> p k"
  proof (cases "i \<le> k")
    case True
    then obtain j where k: "k = i + j" by (auto dest: le_Suc_ex)
    have "j < 4 \<Longrightarrow> i + j < 32" using assms(2) by simp
    then show ?thesis unfolding k bit_push_add w by auto
  next
    case False
    then show ?thesis by (simp only: bit_push_bit_iff) simp
  qed
  show "bit (result OR push_bit i (NOT msk AND 0xF)) k \<longleftrightarrow> k < i + 4 \<and> p k"
    by (simp only: bit_or_iff R m) auto
qed

lemma compare_lanes_eq:
  assumes "bounds_upto (\<lambda>k. sint (le_word (take 4 (drop (k * 4) bounds)) :: u32) \<le> sint sv) i result"
    and "n \<le> 32" and "n * 4 \<le> length bounds" and "i \<le> n"
  shows "\<exists>j r. compare_lanes bounds sv n i result = Some (j, r) \<and> j \<le> n \<and>
    bounds_upto (\<lambda>k. sint (le_word (take 4 (drop (k * 4) bounds)) :: u32) \<le> sint sv) j r"
  using assms
proof (induction "n - i" arbitrary: i result rule: less_induct)
  case less
  show ?case
  proof (cases "4 \<le> n - i")
    case False
    with less.prems show ?thesis by (subst compare_lanes.simps) simp
  next
    case True
    let ?p = "\<lambda>k. sint (le_word (take 4 (drop (k * 4) bounds)) :: u32) \<le> sint sv"
    let ?v = "take 16 (drop (i * 4) bounds)"
    let ?m = "simde_mm_movemask_ps (simde_mm_cmplt_epi32 (simde_mm_set1_epi32 sv) (lanes32 ?v))"
    have v: "simde_mm_loadu_si128 bounds (i * 4) = Some ?v"
      using True less.prems(3) by (simp add: simde_mm_loadu_si128_def load_block_in)
    have "bit ?m j \<longleftrightarrow> j < 4 \<and> \<not> ?p (i + j)" for j
    proof (cases "j < 4")
      case True
      have "bit ?m j \<longleftrightarrow> j < 4 \<and> sint (simde_mm_set1_epi32 sv ! j) < sint (lanes32 ?v ! j)"
        by (rule movemask_ps_bit) (simp_all add: simde_mm_set1_epi32_def lanes32_def)
      with True show ?thesis
        by (simp only: lanes32_at) (simp add: simde_mm_set1_epi32_def not_le)
    next
      case False
      then show ?thesis by (simp add: movemask_ps_bit simde_mm_set1_epi32_def lanes32_def)
    qed
    then have "bounds_upto ?p (i + 4) (result OR push_bit i (NOT ?m AND 0xF))"
      using less.prems True by (intro bounds_upto_lanes) simp_all
    then have "\<exists>j r. compare_lanes bounds sv n (i + 4) (result OR push_bit i (NOT ?m AND 0xF)) = Some (j, r) \<and>
        j \<le> n \<and> bounds_upto ?p j r"
      using less.prems True by (intro less.hyps) simp_all
    with True v show ?thesis by (subst compare_lanes.simps) (simp add: Let_def)
  qed
qed

text \<open>Bit \<open>i\<close> of the comparison result is set exactly when there is an \<open>i\<close>-th bound (of the first
  32) and it is at most the search value: as a signed little-endian 32-bit number for width 4, in
  byte order for other widths; the four-lane path agrees with the scalar one.\<close>

theorem compare_bounds_correct:
  assumes "count * width \<le> length bounds" and "width \<le> length search"
  shows "\<exists>r. hs_proto_compare_bounds bounds count width search = Some r \<and>
    (\<forall>k. bit r k \<longleftrightarrow> k < count \<and> k < 32 \<and>
      (if width = 4
       then sint (le_word (take 4 (drop (k * 4) bounds)) :: u32) \<le> sint (le_word (take 4 search) :: u32)
       else memcmp (take width (drop (k * width) bounds)) (take width search) \<le> 0))"
proof -
  define n where "n = (if count < 32 then count else 32)"
  have n: "n \<le> 32" "n \<le> count" "k < n \<longleftrightarrow> k < count \<and> k < 32" for k by (auto simp: n_def)
  have le: "n * width \<le> length bounds" using n(2) assms(1) by (meson le_trans mult_le_mono1)
  show ?thesis
  proof (cases "width = 4")
    case False
    obtain r where "compare_scalar bounds width search n 0 0 = Some r"
      "bounds_upto (\<lambda>k. memcmp (take width (drop (k * width) bounds)) (take width search) \<le> 0) n r"
      using compare_scalar_eq [OF bounds_upto_0 n(1) le assms(2)] by auto
    with False show ?thesis
      by (simp add: hs_proto_compare_bounds_def n_def [symmetric] bounds_upto_def n(3) Let_def conj_assoc)
  next
    case True
    let ?sv = "le_word (take 4 search) :: u32"
    have s: "load_le 4 search 0 = Some ?sv" using True assms(2) by (simp add: load_le_in)
    have le4: "n * 4 \<le> length bounds" using le True by simp
    obtain j r where jr: "compare_lanes bounds ?sv n 0 0 = Some (j, r)" "j \<le> n"
      "bounds_upto (\<lambda>k. sint (le_word (take 4 (drop (k * 4) bounds)) :: u32) \<le> sint ?sv) j r"
      using compare_lanes_eq [OF bounds_upto_0 n(1) le4, of ?sv] by auto
    obtain r' where "compare_tail bounds ?sv n j r = Some r'"
      "bounds_upto (\<lambda>k. sint (le_word (take 4 (drop (k * 4) bounds)) :: u32) \<le> sint ?sv) n r'"
      using compare_tail_eq [OF jr(3) n(1) le4 jr(2)] by auto
    with True s jr show ?thesis
      by (simp add: hs_proto_compare_bounds_def n_def [symmetric] bounds_upto_def n(3) Let_def conj_assoc)
  qed
qed

theorem compare_bounds_correct_witness:
  "\<exists>r. hs_proto_compare_bounds [1, 0, 0, 0, 0xFF, 0xFF, 0xFF, 0xFF] 2 4 [0, 0, 0, 0] = Some r \<and>
    (\<forall>k. bit r k \<longleftrightarrow> k < 2 \<and> k < 32 \<and>
      (if (4 :: nat) = 4
       then sint (le_word (take 4 (drop (k * 4) [1, 0, 0, 0, 0xFF, 0xFF, 0xFF, 0xFF])) :: u32)
         \<le> sint (le_word (take 4 [0, 0, 0, 0]) :: u32)
       else memcmp (take 4 (drop (k * 4) [1, 0, 0, 0, 0xFF, 0xFF, 0xFF, 0xFF])) (take 4 [0, 0, 0, 0]) \<le> 0))"
  by (rule compare_bounds_correct) simp_all

subsection \<open>Arrow buffer tables\<close>

text \<open>The bounds and overlap checks of one pair; \<open>None\<close> is \<open>return 0\<close>, otherwise the new \<open>prev_end\<close>.
  The values are read as signed 64-bit numbers; the sum is only formed once it is known to be at most
  \<open>body_length\<close>.\<close>

definition arrow_check :: "int \<Rightarrow> int \<Rightarrow> int \<Rightarrow> int \<Rightarrow> int option" where
  "arrow_check body_length prev_end off len =
     (if len > body_length \<or> off > body_length - len then None
      else if off < prev_end \<and> len > 0 then None
      else let end_pos = off + len in Some (if end_pos > prev_end then end_pos else prev_end))"

text \<open>A 16-byte load from the \<open>int64_t\<close> table is two values side by side.\<close>

definition load_pair :: "u64 list \<Rightarrow> nat \<Rightarrow> m128i option" where
  "load_pair table i = do {
     a \<leftarrow> load table i;
     b \<leftarrow> load table (i + 1);
     Some (le_bytes 8 a @ le_bytes 8 b)
   }"

function arrow_two :: "u64 list \<Rightarrow> nat \<Rightarrow> int \<Rightarrow> int \<Rightarrow> nat \<Rightarrow> (nat \<times> int) option option" where
  "arrow_two pairs count body_length prev_end i =
     (if 2 \<le> count - i then do {
        pair0 \<leftarrow> load_pair pairs (i * 2);
        pair1 \<leftarrow> load_pair pairs (i * 2 + 2);
        let combined = simde_mm_or_si128 pair0 pair1;
        if simde_mm_movemask_epi8 combined AND 0x8080 \<noteq> 0 then Some None
        else do {
          off0 \<leftarrow> load pairs (i * 2);
          len0 \<leftarrow> load pairs (i * 2 + 1);
          (case arrow_check body_length prev_end (sint off0) (sint len0) of
             None \<Rightarrow> Some None
           | Some prev_end \<Rightarrow> do {
               off1 \<leftarrow> load pairs (i * 2 + 2);
               len1 \<leftarrow> load pairs (i * 2 + 3);
               (case arrow_check body_length prev_end (sint off1) (sint len1) of
                  None \<Rightarrow> Some None
                | Some prev_end \<Rightarrow> arrow_two pairs count body_length prev_end (i + 2))
             })
        }
      }
      else Some (Some (i, prev_end)))"
  by pat_completeness auto
termination
  by (relation "measure (\<lambda>(pairs, count, body_length, prev_end, i). count - i)") auto

function arrow_tail :: "u64 list \<Rightarrow> nat \<Rightarrow> int \<Rightarrow> int \<Rightarrow> nat \<Rightarrow> int option" where
  "arrow_tail pairs count body_length prev_end i =
     (if i < count then do {
        off \<leftarrow> load pairs (i * 2);
        len \<leftarrow> load pairs (i * 2 + 1);
        if sint off < 0 \<or> sint len < 0 then Some 0
        else (case arrow_check body_length prev_end (sint off) (sint len) of
            None \<Rightarrow> Some 0
          | Some prev_end \<Rightarrow> arrow_tail pairs count body_length prev_end (i + 1))
      }
      else Some 1)"
  by pat_completeness auto
termination
  by (relation "measure (\<lambda>(pairs, count, body_length, prev_end, i). count - i)") auto

declare arrow_two.simps [simp del] arrow_tail.simps [simp del]

definition hs_proto_validate_arrow_buffers :: "u64 list \<Rightarrow> nat \<Rightarrow> int \<Rightarrow> int option" where
  "hs_proto_validate_arrow_buffers buf_pairs count body_length =
     (if body_length < 0 then Some 0
      else if count = 0 then Some 1
      else do {
        r \<leftarrow> arrow_two buf_pairs count body_length 0 0;
        (case r of
           None \<Rightarrow> Some 0
         | Some (i, prev_end) \<Rightarrow> arrow_tail buf_pairs count body_length prev_end i)
      })"

text \<open>The specification, over the list of pairs.\<close>

fun arrow_ok :: "int \<Rightarrow> int \<Rightarrow> (int \<times> int) list \<Rightarrow> bool" where
  "arrow_ok body prev [] = True"
| "arrow_ok body prev ((off, len) # ps) \<longleftrightarrow>
     0 \<le> off \<and> 0 \<le> len \<and> off + len \<le> body \<and> (prev \<le> off \<or> len = 0) \<and>
     arrow_ok body (max prev (off + len)) ps"

definition arrow_pairs :: "u64 list \<Rightarrow> nat \<Rightarrow> nat \<Rightarrow> (int \<times> int) list" where
  "arrow_pairs table i count = map (\<lambda>k. (sint (table ! (2 * k)), sint (table ! (2 * k + 1)))) [i..<count]"

lemma arrow_pairs_step:
  "i < count \<Longrightarrow> arrow_pairs table i count =
     (sint (table ! (2 * i)), sint (table ! (2 * i + 1))) # arrow_pairs table (i + 1) count"
  by (simp add: arrow_pairs_def upt_conv_Cons)

lemma arrow_check_Some:
  "0 \<le> off \<Longrightarrow> 0 \<le> len \<Longrightarrow> arrow_check body prev off len =
     (if off + len \<le> body \<and> (prev \<le> off \<or> len = 0) then Some (max prev (off + len)) else None)"
  by (auto simp: arrow_check_def Let_def)

lemma sint_sign: "sint (w :: u64) < 0 \<longleftrightarrow> bit w 63"
  using bit_last_iff [of w] by simp

lemma pair_signs:
  "simde_mm_movemask_epi8 (simde_mm_or_si128 (le_bytes 8 (a :: u64) @ le_bytes 8 (b :: u64))
      (le_bytes 8 (c :: u64) @ le_bytes 8 (d :: u64))) AND 0x8080 = 0 \<longleftrightarrow>
    0 \<le> sint a \<and> 0 \<le> sint b \<and> 0 \<le> sint c \<and> 0 \<le> sint d"
proof -
  let ?u = "le_bytes 8 a @ le_bytes 8 b" and ?v = "le_bytes 8 c @ le_bytes 8 d"
  have mask: "bit (0x8080 :: u32) k \<longleftrightarrow> k = 7 \<or> k = 15" for k
  proof (cases "k < 32")
    case True
    have "list_all (\<lambda>k. bit (0x8080 :: u32) k \<longleftrightarrow> k = 7 \<or> k = 15) [0..<32]" by code_simp
    with True show ?thesis by (auto simp: list_all_iff)
  next
    case False
    then show ?thesis by (auto dest: bit_imp_le_length)
  qed
  have top: "bit (le_bytes 8 (w :: u64) ! 7) 7 \<longleftrightarrow> sint w < 0" for w
    by (simp add: le_bytes_nth bit_ucast_iff bit_drop_bit_eq sint_sign)
  have lane: "bit (simde_mm_movemask_epi8 (simde_mm_or_si128 ?u ?v)) k \<longleftrightarrow>
      k < 16 \<and> (bit (?u ! k) 7 \<or> bit (?v ! k) 7)" for k
    by (cases "k < 16") (simp_all add: simd_simps bit_or_iff)
  have "simde_mm_movemask_epi8 (simde_mm_or_si128 ?u ?v) AND 0x8080 = 0 \<longleftrightarrow>
      \<not> bit (simde_mm_movemask_epi8 (simde_mm_or_si128 ?u ?v)) 7 \<and>
      \<not> bit (simde_mm_movemask_epi8 (simde_mm_or_si128 ?u ?v)) 15"
    (is "?l = 0 \<longleftrightarrow> ?r")
  proof
    assume "?l = 0"
    then have "\<not> bit ?l 7" "\<not> bit ?l 15" by simp_all
    then show ?r by (simp_all only: bit_and_iff mask) simp_all
  next
    assume ?r
    then show "?l = 0" by (intro bit_word_eqI) (auto simp only: bit_and_iff mask bit_0_eq bot_apply bot_bool_def)
  qed
  also have "\<dots> \<longleftrightarrow> 0 \<le> sint a \<and> 0 \<le> sint b \<and> 0 \<le> sint c \<and> 0 \<le> sint d"
    unfolding lane using top [of a] top [of b] top [of c] top [of d]
    by (simp add: nth_append) linarith
  finally show ?thesis .
qed

lemma arrow_tail_eq:
  "2 * count \<le> length pairs \<Longrightarrow>
     arrow_tail pairs count body prev i = Some (if arrow_ok body prev (arrow_pairs pairs i count) then 1 else 0)"
proof (induction "count - i" arbitrary: i prev)
  case 0
  then show ?case by (subst arrow_tail.simps) (simp add: arrow_pairs_def)
next
  case (Suc d)
  then have i: "i < count" "2 * i + 1 < length pairs" by simp_all
  have IH: "arrow_tail pairs count body p (i + 1) =
      Some (if arrow_ok body p (arrow_pairs pairs (i + 1) count) then 1 else 0)" for p
    using Suc by (intro Suc.hyps(1)) simp_all
  show ?case
    using i by (subst arrow_tail.simps)
      (auto simp: load_in arrow_pairs_step IH [simplified] arrow_check_Some mult.commute [of _ 2] not_less)
qed

lemma arrow_two_eq:
  assumes "2 * count \<le> length pairs"
  shows "\<exists>r. arrow_two pairs count body prev i = Some r \<and>
    (case r of
       None \<Rightarrow> \<not> arrow_ok body prev (arrow_pairs pairs i count)
     | Some (j, prev') \<Rightarrow>
         arrow_ok body prev (arrow_pairs pairs i count) = arrow_ok body prev' (arrow_pairs pairs j count))"
proof (induction "count - i" arbitrary: i prev rule: less_induct)
  case less
  show ?case
  proof (cases "2 \<le> count - i")
    case False
    then show ?thesis by (subst arrow_two.simps) simp
  next
    case True
    define a b c d where "a = pairs ! (2 * i)" and "b = pairs ! (2 * i + 1)"
      and "c = pairs ! (2 * i + 2)" and "d = pairs ! (2 * i + 3)"
    have ld: "load pairs (i * 2) = Some a" "load pairs (i * 2 + 1) = Some b"
      "load pairs (i * 2 + 2) = Some c" "load pairs (i * 2 + 3) = Some d"
      using True assms by (simp_all add: load_in a_def b_def c_def d_def mult.commute [of _ 2])
    have lp: "load_pair pairs (i * 2) = Some (le_bytes 8 a @ le_bytes 8 b)"
      "load_pair pairs (i * 2 + 2) = Some (le_bytes 8 c @ le_bytes 8 d)"
      using ld by (simp_all add: load_pair_def numeral_3_eq_3)
    have ps: "arrow_pairs pairs i count =
        (sint a, sint b) # (sint c, sint d) # arrow_pairs pairs (i + 2) count"
      using True by (simp add: arrow_pairs_step a_def b_def c_def d_def numeral_3_eq_3)
    let ?m = "simde_mm_movemask_epi8 (simde_mm_or_si128 (le_bytes 8 a @ le_bytes 8 b)
        (le_bytes 8 c @ le_bytes 8 d)) AND 0x8080"
    show ?thesis
    proof (cases "?m = 0")
      case False
      then have "\<not> (0 \<le> sint a \<and> 0 \<le> sint b \<and> 0 \<le> sint c \<and> 0 \<le> sint d)"
        by (simp only: pair_signs simp_thms)
      then have "\<not> arrow_ok body prev (arrow_pairs pairs i count)" by (auto simp: ps)
      with False True lp show ?thesis by (subst arrow_two.simps) simp
    next
      case zero: True
      then have nn: "0 \<le> sint a" "0 \<le> sint b" "0 \<le> sint c" "0 \<le> sint d"
        by (simp_all only: pair_signs)
      let ?p0 = "max prev (sint a + sint b)" and ?p1 = "max (max prev (sint a + sint b)) (sint c + sint d)"
      let ?ok0 = "sint a + sint b \<le> body \<and> (prev \<le> sint a \<or> sint b = 0)"
      let ?ok1 = "sint c + sint d \<le> body \<and> (?p0 \<le> sint c \<or> sint d = 0)"
      have ok: "arrow_ok body prev (arrow_pairs pairs i count) \<longleftrightarrow>
          ?ok0 \<and> ?ok1 \<and> arrow_ok body ?p1 (arrow_pairs pairs (i + 2) count)"
        using nn by (simp add: ps)
      have step: "arrow_two pairs count body prev i =
          (if ?ok0 then if ?ok1 then arrow_two pairs count body ?p1 (i + 2) else Some None else Some None)"
      proof -
        have k: "arrow_check body prev (sint a) (sint b) = (if ?ok0 then Some ?p0 else None)"
          "arrow_check body ?p0 (sint c) (sint d) = (if ?ok1 then Some ?p1 else None)"
          using nn by (intro arrow_check_Some; simp)+
        obtain q0 q1 where q: "q0 \<longleftrightarrow> ?ok0" "q1 \<longleftrightarrow> ?ok1" by blast
        show ?thesis
          using True zero lp ld k unfolding q [symmetric]
          by (subst arrow_two.simps) (cases q0; cases q1; simp)
      qed
      have "count - (i + 2) < count - i" using True by simp
      note IH = less.hyps [OF this, of ?p1]
      show ?thesis
      proof (cases "?ok0 \<and> ?ok1")
        case True
        then have "arrow_two pairs count body prev i = arrow_two pairs count body ?p1 (i + 2)"
          and "arrow_ok body prev (arrow_pairs pairs i count) =
            arrow_ok body ?p1 (arrow_pairs pairs (i + 2) count)"
          using step ok by simp_all
        with IH show ?thesis by (simp only:)
      next
        case False
        then have "arrow_two pairs count body prev i = Some None" using step by auto
        with False ok show ?thesis by auto
      qed
    qed
  qed
qed

lemma hs_proto_validate_arrow_buffers_eq:
  assumes "2 * count \<le> length pairs"
  shows "hs_proto_validate_arrow_buffers pairs count body =
    Some (if 0 \<le> body \<and> arrow_ok body 0 (arrow_pairs pairs 0 count) then 1 else 0)"
proof (cases "body < 0 \<or> count = 0")
  case True
  then show ?thesis by (auto simp: hs_proto_validate_arrow_buffers_def arrow_pairs_def)
next
  case False
  from arrow_two_eq [OF assms, of body 0 0] obtain r where "arrow_two pairs count body 0 0 = Some r"
    "case r of
       None \<Rightarrow> \<not> arrow_ok body 0 (arrow_pairs pairs 0 count)
     | Some (j, prev') \<Rightarrow>
         arrow_ok body 0 (arrow_pairs pairs 0 count) = arrow_ok body prev' (arrow_pairs pairs j count)"
    by blast
  with False show ?thesis
    by (auto simp: hs_proto_validate_arrow_buffers_def arrow_tail_eq [OF assms] split: option.splits)
qed

text \<open>What acceptance means: every buffer lies in the body, and non-empty buffers do not overlap.\<close>

lemma arrow_ok_after:
  assumes "arrow_ok body prev ps" and "(off, len) \<in> set ps" and "0 < len"
  shows "prev \<le> off"
  using assms
proof (induction body prev ps rule: arrow_ok.induct)
  case (2 body prev off' len' ps)
  then show ?case by (cases "(off, len) = (off', len')") auto
qed simp

lemma arrow_ok_inside:
  "arrow_ok body prev ps \<Longrightarrow> (off, len) \<in> set ps \<Longrightarrow> 0 \<le> off \<and> 0 \<le> len \<and> off + len \<le> body"
  by (induction body prev ps rule: arrow_ok.induct) auto

lemma arrow_ok_disjoint:
  assumes "arrow_ok body prev ps" and "i < j" and "j < length ps" and "ps ! i = (o1, l1)"
    and "ps ! j = (o2, l2)" and "0 < l2"
  shows "o1 + l1 \<le> o2"
  using assms
proof (induction body prev ps arbitrary: i j rule: arrow_ok.induct)
  case (2 body prev off len ps)
  show ?case
  proof (cases i)
    case 0
    then have "(o2, l2) \<in> set ps" using 2(3,4,6) by (auto simp: nth_Cons' in_set_conv_nth intro!: exI [of _ "j - 1"])
    moreover have "arrow_ok body (max prev (off + len)) ps" using 2(2) by simp
    ultimately have "max prev (off + len) \<le> o2" using 2(7) by (intro arrow_ok_after)
    then show ?thesis using 0 2(5) by simp
  next
    case (Suc i')
    then obtain j' where "j = Suc j'" using 2(3) by (cases j) auto
    with Suc 2 show ?thesis by simp
  qed
qed simp

text \<open>C12: the Arrow table check answers 1 or 0 without reading past the table; when it answers 1, every
  buffer lies inside the body and any two non-empty buffers are disjoint; its sums stay below
  \<open>body_length\<close>, so the 64-bit additions never overflow.\<close>

theorem arrow_buffers_sound:
  assumes "2 * count \<le> length pairs"
  shows "\<exists>r. hs_proto_validate_arrow_buffers pairs count body = Some r \<and> (r = 0 \<or> r = 1) \<and>
    (r = 1 \<longrightarrow>
      (\<forall>i < count. 0 \<le> sint (pairs ! (2 * i)) \<and> 0 \<le> sint (pairs ! (2 * i + 1)) \<and>
         sint (pairs ! (2 * i)) + sint (pairs ! (2 * i + 1)) \<le> body) \<and>
      (\<forall>i j. i < j \<and> j < count \<and> 0 < sint (pairs ! (2 * j + 1)) \<longrightarrow>
         sint (pairs ! (2 * i)) + sint (pairs ! (2 * i + 1)) \<le> sint (pairs ! (2 * j))))"
proof (cases "0 \<le> body \<and> arrow_ok body 0 (arrow_pairs pairs 0 count)")
  case True
  let ?ps = "arrow_pairs pairs 0 count"
  have ps: "length ?ps = count"
    "\<And>k. k < count \<Longrightarrow> ?ps ! k = (sint (pairs ! (2 * k)), sint (pairs ! (2 * k + 1)))"
    by (simp_all add: arrow_pairs_def)
  have "0 \<le> sint (pairs ! (2 * i)) \<and> 0 \<le> sint (pairs ! (2 * i + 1)) \<and>
      sint (pairs ! (2 * i)) + sint (pairs ! (2 * i + 1)) \<le> body" if "i < count" for i
    using arrow_ok_inside [of body 0 ?ps] True ps nth_mem [of i ?ps] that by simp
  moreover have "sint (pairs ! (2 * i)) + sint (pairs ! (2 * i + 1)) \<le> sint (pairs ! (2 * j))"
    if "i < j" "j < count" "0 < sint (pairs ! (2 * j + 1))" for i j
    using arrow_ok_disjoint [of body 0 ?ps i j] True ps that by simp
  ultimately show ?thesis using True by (simp add: hs_proto_validate_arrow_buffers_eq [OF assms])
next
  case False
  then show ?thesis by (auto simp: hs_proto_validate_arrow_buffers_eq [OF assms])
qed

theorem arrow_buffers_sound_witness:
  "\<exists>r. hs_proto_validate_arrow_buffers [0, 4, 8, 4] 2 12 = Some r \<and> (r = 0 \<or> r = 1) \<and>
    (r = 1 \<longrightarrow>
      (\<forall>i < 2. 0 \<le> sint ([0, 4, 8, 4 :: u64] ! (2 * i)) \<and> 0 \<le> sint ([0, 4, 8, 4 :: u64] ! (2 * i + 1)) \<and>
         sint ([0, 4, 8, 4 :: u64] ! (2 * i)) + sint ([0, 4, 8, 4 :: u64] ! (2 * i + 1)) \<le> 12) \<and>
      (\<forall>i j. i < j \<and> j < 2 \<and> 0 < sint ([0, 4, 8, 4 :: u64] ! (2 * j + 1)) \<longrightarrow>
         sint ([0, 4, 8, 4 :: u64] ! (2 * i)) + sint ([0, 4, 8, 4 :: u64] ! (2 * i + 1))
           \<le> sint ([0, 4, 8, 4 :: u64] ! (2 * j))))"
  by (rule arrow_buffers_sound) simp

text \<open>The check assumes the usual order: two disjoint buffers listed the other way round are refused.\<close>

lemma arrow_out_of_order_refused:
  "hs_proto_validate_arrow_buffers [10, 5, 0, 5] 2 20 = Some 0"
  by (simp add: hs_proto_validate_arrow_buffers_eq arrow_pairs_def upt_rec)

end
