(* ===== verification/Base64.thy ===== *)
theory Base64
  imports Endian
begin

text \<open>
  \<open>wireform-core/cbits/base64.c\<close>: the RFC 4648 codec.  The encoder's SSSE3 loop spreads twelve
  bytes over sixteen 6-bit values with a shuffle and two multiplications and maps them to characters
  with a shuffle lookup; the decoder rejects windows with a high bit before it decodes quartets
  through a table.  \<open>in_len\<close> and the results are C \<open>int\<close>s.
\<close>

subsection \<open>The tables and length helpers\<close>

definition b64_alphabet :: bytes where
  "b64_alphabet = [
     65, 66, 67, 68, 69, 70, 71, 72, 73, 74, 75, 76, 77, 78, 79, 80,
     81, 82, 83, 84, 85, 86, 87, 88, 89, 90, 97, 98, 99, 100, 101, 102,
     103, 104, 105, 106, 107, 108, 109, 110, 111, 112, 113, 114, 115, 116, 117, 118,
     119, 120, 121, 122, 48, 49, 50, 51, 52, 53, 54, 55, 56, 57, 43, 47,
     0]"

definition b64_dec_table :: bytes where
  "b64_dec_table = [
     255, 255, 255, 255, 255, 255, 255, 255, 255, 255, 255, 255, 255, 255, 255, 255,
     255, 255, 255, 255, 255, 255, 255, 255, 255, 255, 255, 255, 255, 255, 255, 255,
     255, 255, 255, 255, 255, 255, 255, 255, 255, 255, 255, 62, 255, 255, 255, 63,
     52, 53, 54, 55, 56, 57, 58, 59, 60, 61, 255, 255, 255, 255, 255, 255,
     255, 0, 1, 2, 3, 4, 5, 6, 7, 8, 9, 10, 11, 12, 13, 14,
     15, 16, 17, 18, 19, 20, 21, 22, 23, 24, 25, 255, 255, 255, 255, 255,
     255, 26, 27, 28, 29, 30, 31, 32, 33, 34, 35, 36, 37, 38, 39, 40,
     41, 42, 43, 44, 45, 46, 47, 48, 49, 50, 51, 255, 255, 255, 255, 255,
     255, 255, 255, 255, 255, 255, 255, 255, 255, 255, 255, 255, 255, 255, 255, 255,
     255, 255, 255, 255, 255, 255, 255, 255, 255, 255, 255, 255, 255, 255, 255, 255,
     255, 255, 255, 255, 255, 255, 255, 255, 255, 255, 255, 255, 255, 255, 255, 255,
     255, 255, 255, 255, 255, 255, 255, 255, 255, 255, 255, 255, 255, 255, 255, 255,
     255, 255, 255, 255, 255, 255, 255, 255, 255, 255, 255, 255, 255, 255, 255, 255,
     255, 255, 255, 255, 255, 255, 255, 255, 255, 255, 255, 255, 255, 255, 255, 255,
     255, 255, 255, 255, 255, 255, 255, 255, 255, 255, 255, 255, 255, 255, 255, 255,
     255, 255, 255, 255, 255, 255, 255, 255, 255, 255, 255, 255, 255, 255, 255, 255]"

definition INT_MAX :: int where
  "INT_MAX = 2147483647"

definition B64_MAX_ENCODE_INPUT :: int where
  "B64_MAX_ENCODE_INPUT = 3 * (INT_MAX div 4)"

definition hs_base64_encoded_length :: "int \<Rightarrow> int" where
  "hs_base64_encoded_length in_len =
     (if in_len < 0 then 0
      else if in_len > B64_MAX_ENCODE_INPUT then -1
      else ((in_len + 2) div 3) * 4)"

definition hs_base64_decoded_max_length :: "int \<Rightarrow> int" where
  "hs_base64_decoded_max_length in_len = (if in_len < 0 then 0 else (in_len div 4) * 3)"

subsection \<open>The vector encoder\<close>

text \<open>Vector operations of the encoder.  The 16-bit ones act on the little-endian pairs of lanes.\<close>

definition simde_mm_setr_epi8 :: "int list \<Rightarrow> m128i" where
  "simde_mm_setr_epi8 xs = map word_of_int xs"

definition simde_mm_shuffle_epi8 :: "m128i \<Rightarrow> m128i \<Rightarrow> m128i" where
  "simde_mm_shuffle_epi8 a b = map (\<lambda>x. if bit x 7 then 0 else a ! unat (x AND 15)) b"

definition epi16 :: "m128i \<Rightarrow> u16 list" where
  "epi16 v = map (\<lambda>k. le_word [v ! (2 * k), v ! (2 * k + 1)]) [0..<8]"

definition of_epi16 :: "u16 list \<Rightarrow> m128i" where
  "of_epi16 ws = concat (map (le_bytes 2) ws)"

definition simde_mm_mulhi_epu16 :: "m128i \<Rightarrow> m128i \<Rightarrow> m128i" where
  "simde_mm_mulhi_epu16 a b =
     of_epi16 (map2 (\<lambda>x y. ucast (drop_bit 16 ((ucast x :: u32) * ucast y))) (epi16 a) (epi16 b))"

definition simde_mm_mullo_epi16 :: "m128i \<Rightarrow> m128i \<Rightarrow> m128i" where
  "simde_mm_mullo_epi16 a b = of_epi16 (map2 (*) (epi16 a) (epi16 b))"

definition simde_mm_subs_epu8 :: "m128i \<Rightarrow> m128i \<Rightarrow> m128i" where
  "simde_mm_subs_epu8 = map2 (\<lambda>a b. if b < a then a - b else 0)"

definition simde_mm_sub_epi8 :: "m128i \<Rightarrow> m128i \<Rightarrow> m128i" where
  "simde_mm_sub_epi8 = map2 (-)"

definition simde_mm_add_epi8 :: "m128i \<Rightarrow> m128i \<Rightarrow> m128i" where
  "simde_mm_add_epi8 = map2 (+)"

definition enc_reshuffle :: "m128i \<Rightarrow> m128i" where
  "enc_reshuffle v =
     (let v = simde_mm_shuffle_epi8 v (simde_mm_setr_epi8
            [1, 0, 2, 1, 4, 3, 5, 4, 7, 6, 8, 7, 10, 9, 11, 10]);
          t0 = simde_mm_and_si128 v (simde_mm_set1_epi32_bytes 0x0fc0fc00);
          t1 = simde_mm_mulhi_epu16 t0 (simde_mm_set1_epi32_bytes 0x04000040);
          t2 = simde_mm_and_si128 v (simde_mm_set1_epi32_bytes 0x003f03f0);
          t3 = simde_mm_mullo_epi16 t2 (simde_mm_set1_epi32_bytes 0x01000010)
      in simde_mm_or_si128 t1 t3)"

definition enc_translate :: "m128i \<Rightarrow> m128i" where
  "enc_translate v =
     (let lut = simde_mm_setr_epi8 [65, 71, -4, -4, -4, -4, -4, -4, -4, -4, -4, -4, -19, -16, 0, 0];
          indices = simde_mm_subs_epu8 v (simde_mm_set1_epi8 51);
          msk = simde_mm_cmpgt_epi8 v (simde_mm_set1_epi8 25);
          indices = simde_mm_sub_epi8 indices msk;
          offsets = simde_mm_shuffle_epi8 lut indices
      in simde_mm_add_epi8 v offsets)"

function encode_vectors :: "bytes \<Rightarrow> nat \<Rightarrow> bytes \<Rightarrow> nat \<Rightarrow> nat \<Rightarrow> (bytes \<times> nat \<times> nat) option" where
  "encode_vectors inp in_len out i j =
     (if 16 \<le> in_len - i then do {
        chunk \<leftarrow> simde_mm_loadu_si128 inp i;
        let v = enc_reshuffle chunk;
        let c = enc_translate v;
        out \<leftarrow> simde_mm_storeu_si128 out j c;
        encode_vectors inp in_len out (i + 12) (j + 16)
      }
      else Some (out, i, j))"
  by pat_completeness auto
termination
  by (relation "measure (\<lambda>(inp, in_len, out, i, j). in_len - i)") auto

subsection \<open>The scalar encoder\<close>

definition b64_char :: "u32 \<Rightarrow> nat \<Rightarrow> u8" where
  "b64_char v s = b64_alphabet ! unat (drop_bit s v AND 0x3F)"

function encode_triples :: "bytes \<Rightarrow> nat \<Rightarrow> bytes \<Rightarrow> nat \<Rightarrow> nat \<Rightarrow> (bytes \<times> nat \<times> nat) option" where
  "encode_triples inp in_len out i j =
     (if 3 \<le> in_len - i then do {
        x \<leftarrow> load inp i;
        y \<leftarrow> load inp (i + 1);
        z \<leftarrow> load inp (i + 2);
        let v = push_bit 16 (ucast x) OR push_bit 8 (ucast y) OR ucast z;
        out \<leftarrow> store out j (b64_char v 18);
        out \<leftarrow> store out (j + 1) (b64_char v 12);
        out \<leftarrow> store out (j + 2) (b64_char v 6);
        out \<leftarrow> store out (j + 3) (b64_char v 0);
        encode_triples inp in_len out (i + 3) (j + 4)
      }
      else Some (out, i, j))"
  by pat_completeness auto
termination
  by (relation "measure (\<lambda>(inp, in_len, out, i, j). in_len - i)") auto

declare encode_vectors.simps [simp del] encode_triples.simps [simp del]

definition encode_rest :: "bytes \<Rightarrow> nat \<Rightarrow> bytes \<Rightarrow> nat \<Rightarrow> nat \<Rightarrow> (bytes \<times> nat) option" where
  "encode_rest inp in_len out i j =
     (let rem = in_len - i
      in if rem = 1 then do {
           x \<leftarrow> load inp i;
           let v = push_bit 16 (ucast x);
           out \<leftarrow> store out j (b64_char v 18);
           out \<leftarrow> store out (j + 1) (b64_char v 12);
           out \<leftarrow> store out (j + 2) 0x3D;
           out \<leftarrow> store out (j + 3) 0x3D;
           Some (out, j + 4)
         }
         else if rem = 2 then do {
           x \<leftarrow> load inp i;
           y \<leftarrow> load inp (i + 1);
           let v = push_bit 16 (ucast x) OR push_bit 8 (ucast y);
           out \<leftarrow> store out j (b64_char v 18);
           out \<leftarrow> store out (j + 1) (b64_char v 12);
           out \<leftarrow> store out (j + 2) (b64_char v 6);
           out \<leftarrow> store out (j + 3) 0x3D;
           Some (out, j + 4)
         }
         else Some (out, j))"

definition hs_base64_encode :: "bytes \<Rightarrow> int \<Rightarrow> bytes \<Rightarrow> (bytes \<times> int) option" where
  "hs_base64_encode inp in_len out =
     (if in_len > B64_MAX_ENCODE_INPUT then Some (out, -1)
      else do {
        (out, i, j) \<leftarrow> encode_vectors inp (nat in_len) out 0 0;
        (out, i, j) \<leftarrow> encode_triples inp (nat in_len) out i j;
        (out, j) \<leftarrow> encode_rest inp (nat in_len) out i j;
        Some (out, int j)
      })"

subsection \<open>The decoder\<close>

text \<open>
  \<open>return -1\<close> inside a loop is the value \<open>None\<close> beside the buffer, which keeps what was written
  before.
\<close>

definition dec_window_high_bits :: "bytes \<Rightarrow> nat \<Rightarrow> u32 option" where
  "dec_window_high_bits inp i = do {
     chunk \<leftarrow> simde_mm_loadu_si128 inp i;
     Some (simde_mm_movemask_epi8 chunk)
   }"

definition dec_char :: "bytes \<Rightarrow> nat \<Rightarrow> u8 option" where
  "dec_char inp i = do { c \<leftarrow> load inp i; load b64_dec_table (unat c) }"

definition b64_join :: "u8 \<Rightarrow> u8 \<Rightarrow> u8 \<Rightarrow> u8 \<Rightarrow> u32" where
  "b64_join a b c d = push_bit 18 (ucast a) OR push_bit 12 (ucast b) OR push_bit 6 (ucast c) OR ucast d"

definition dec_quartet :: "bytes \<Rightarrow> nat \<Rightarrow> bytes \<Rightarrow> nat \<Rightarrow> (bytes \<times> nat option) option" where
  "dec_quartet inp i out j = do {
     a \<leftarrow> dec_char inp i;
     b \<leftarrow> dec_char inp (i + 1);
     c \<leftarrow> dec_char inp (i + 2);
     d \<leftarrow> dec_char inp (i + 3);
     if 64 \<le> (a OR b OR c OR d) then Some (out, None)
     else do {
       let v = b64_join a b c d;
       out \<leftarrow> store out j (ucast (drop_bit 16 v));
       out \<leftarrow> store out (j + 1) (ucast (drop_bit 8 v));
       out \<leftarrow> store out (j + 2) (ucast v);
       Some (out, Some (j + 3))
     }
   }"

function dec_window :: "bytes \<Rightarrow> nat \<Rightarrow> nat \<Rightarrow> bytes \<Rightarrow> nat \<Rightarrow> (bytes \<times> nat option) option" where
  "dec_window inp i k out j =
     (if k < 16 then do {
        (out, r) \<leftarrow> dec_quartet inp (i + k) out j;
        (case r of None \<Rightarrow> Some (out, None) | Some j \<Rightarrow> dec_window inp i (k + 4) out j)
      }
      else Some (out, Some j))"
  by pat_completeness auto
termination
  by (relation "measure (\<lambda>(inp, i, k, out, j). 16 - k)") auto

function dec_windows :: "bytes \<Rightarrow> nat \<Rightarrow> nat \<Rightarrow> bytes \<Rightarrow> nat \<Rightarrow> (bytes \<times> (nat \<times> nat) option) option" where
  "dec_windows inp main_len i out j =
     (if 16 \<le> main_len - i then do {
        m \<leftarrow> dec_window_high_bits inp i;
        if m \<noteq> 0 then Some (out, None)
        else do {
          (out, r) \<leftarrow> dec_window inp i 0 out j;
          (case r of None \<Rightarrow> Some (out, None) | Some j \<Rightarrow> dec_windows inp main_len (i + 16) out j)
        }
      }
      else Some (out, Some (i, j)))"
  by pat_completeness auto
termination
  by (relation "measure (\<lambda>(inp, main_len, i, out, j). main_len - i)") auto

function dec_middle :: "bytes \<Rightarrow> nat \<Rightarrow> nat \<Rightarrow> bytes \<Rightarrow> nat \<Rightarrow> (bytes \<times> (nat \<times> nat) option) option" where
  "dec_middle inp main_len i out j =
     (if i < main_len then do {
        (out, r) \<leftarrow> dec_quartet inp i out j;
        (case r of None \<Rightarrow> Some (out, None) | Some j \<Rightarrow> dec_middle inp main_len (i + 4) out j)
      }
      else Some (out, Some (i, j)))"
  by pat_completeness auto
termination
  by (relation "measure (\<lambda>(inp, main_len, i, out, j). main_len - i)") auto

declare dec_window.simps [simp del] dec_windows.simps [simp del] dec_middle.simps [simp del]

definition dec_tail :: "bytes \<Rightarrow> nat \<Rightarrow> bytes \<Rightarrow> nat \<Rightarrow> (bytes \<times> int) option" where
  "dec_tail inp i out j = do {
     a \<leftarrow> dec_char inp i;
     b \<leftarrow> dec_char inp (i + 1);
     if 64 \<le> a \<or> 64 \<le> b then Some (out, -1)
     else do {
       p2 \<leftarrow> load inp (i + 2);
       p3 \<leftarrow> load inp (i + 3);
       if p2 = 0x3D then
         if p3 \<noteq> 0x3D then Some (out, -1)
         else do {
           let v = b64_join a b 0 0;
           out \<leftarrow> store out j (ucast (drop_bit 16 v));
           Some (out, int (j + 1))
         }
       else if p3 = 0x3D then do {
         c \<leftarrow> dec_char inp (i + 2);
         if 64 \<le> c then Some (out, -1)
         else do {
           let v = b64_join a b c 0;
           out \<leftarrow> store out j (ucast (drop_bit 16 v));
           out \<leftarrow> store out (j + 1) (ucast (drop_bit 8 v));
           Some (out, int (j + 2))
         }
       }
       else do {
         c \<leftarrow> dec_char inp (i + 2);
         d \<leftarrow> dec_char inp (i + 3);
         if 64 \<le> c \<or> 64 \<le> d then Some (out, -1)
         else do {
           let v = b64_join a b c d;
           out \<leftarrow> store out j (ucast (drop_bit 16 v));
           out \<leftarrow> store out (j + 1) (ucast (drop_bit 8 v));
           out \<leftarrow> store out (j + 2) (ucast v);
           Some (out, int (j + 3))
         }
       }
     }
   }"

definition hs_base64_decode :: "bytes \<Rightarrow> int \<Rightarrow> bytes \<Rightarrow> (bytes \<times> int) option" where
  "hs_base64_decode inp in_len out =
     (if in_len < 0 \<or> in_len mod 4 \<noteq> 0 then Some (out, -1)
      else if in_len = 0 then Some (out, 0)
      else do {
        let main_len = nat in_len - 4;
        (out, r) \<leftarrow> dec_windows inp main_len 0 out 0;
        (case r of None \<Rightarrow> Some (out, -1)
         | Some (i, j) \<Rightarrow> do {
             (out, r) \<leftarrow> dec_middle inp main_len i out j;
             (case r of None \<Rightarrow> Some (out, -1) | Some (i, j) \<Rightarrow> dec_tail inp i out j)
           })
      })"

subsection \<open>The encoder computes RFC 4648\<close>

text \<open>The specification: 6-bit groups of the 24-bit value of each triple, with padding.\<close>

definition b64_value :: "u8 \<Rightarrow> u8 \<Rightarrow> u8 \<Rightarrow> u32" where
  "b64_value x y z = push_bit 16 (ucast x) OR push_bit 8 (ucast y) OR ucast z"

definition b64_quartet :: "u8 \<Rightarrow> u8 \<Rightarrow> u8 \<Rightarrow> bytes" where
  "b64_quartet x y z = map (b64_char (b64_value x y z)) [18, 12, 6, 0]"

fun b64_enc :: "bytes \<Rightarrow> bytes" where
  "b64_enc [] = []"
| "b64_enc [x] = take 2 (b64_quartet x 0 0) @ [0x3D, 0x3D]"
| "b64_enc [x, y] = take 3 (b64_quartet x y 0) @ [0x3D]"
| "b64_enc (x # y # z # xs) = b64_quartet x y z @ b64_enc xs"

text \<open>The four 6-bit groups of a triple, byte by byte.\<close>

definition b64_groups :: "u8 \<Rightarrow> u8 \<Rightarrow> u8 \<Rightarrow> bytes" where
  "b64_groups x y z =
     [drop_bit 2 x, push_bit 4 (x AND 3) OR drop_bit 4 y, push_bit 2 (y AND 15) OR drop_bit 6 z, z AND 63]"

lemma byte_eqI:
  assumes "\<And>n. n \<in> set [0, 1, 2, 3, 4, 5, 6, 7] \<Longrightarrow> bit a n = bit b n"
  shows "a = (b :: u8)"
proof (rule bit_word_eqI)
  fix n assume "n < LENGTH(8)"
  then have "n \<in> set [0..<8]" by simp
  moreover have "[0..<8] = [0, 1, 2, 3, 4, 5, 6, 7 :: nat]" by (simp add: upt_rec)
  ultimately show "bit a n = bit b n" using assms by simp
qed

lemma byte_eq8:
  assumes "bit a 0 = bit b 0" "bit a 1 = bit b 1" "bit a 2 = bit b 2" "bit a 3 = bit b 3"
    "bit a 4 = bit b 4" "bit a 5 = bit b 5" "bit a 6 = bit b 6" "bit a 7 = bit b 7"
  shows "a = (b :: u8)"
  by (rule byte_eqI) (use assms in auto)

lemmas bits_only = bit_or_iff bit_and_iff bit_ucast_iff bit_drop_bit_eq bit_push_bit_iff comp_def

lemma u8_bit_high: "8 \<le> n \<Longrightarrow> \<not> bit (b :: u8) n"
  by (auto dest: bit_imp_le_length)

lemma b64_groups_bits:
  "ucast (drop_bit 18 (b64_value x y z) AND 0x3F) = drop_bit 2 x"
  "ucast (drop_bit 12 (b64_value x y z) AND 0x3F) = push_bit 4 (x AND 3) OR drop_bit 4 y"
  "ucast (drop_bit 6 (b64_value x y z) AND 0x3F) = push_bit 2 (y AND 15) OR drop_bit 6 z"
  "ucast (b64_value x y z AND 0x3F) = z AND 63"
  by (rule byte_eqI; auto simp: b64_value_def bit_simps u8_bit_high)+

text \<open>The 16-bit multiplications by powers of two are shifts.\<close>

lemma mulhi_shift:
  "ucast (drop_bit 16 ((ucast (w :: u16) :: u32) * 0x40)) = drop_bit 10 w"
  "ucast (drop_bit 16 ((ucast (w :: u16) :: u32) * 0x400)) = drop_bit 6 w"
proof -
  have m: "v * 0x40 = push_bit 6 v" "v * 0x400 = push_bit 10 v" for v :: u32
    by (simp_all add: push_bit_eq_mult)
  show "ucast (drop_bit 16 ((ucast (w :: u16) :: u32) * 0x40)) = drop_bit 10 w"
    unfolding m by (rule bit_word_eqI) (auto simp: bit_simps dest: bit_imp_le_length)
  show "ucast (drop_bit 16 ((ucast (w :: u16) :: u32) * 0x400)) = drop_bit 6 w"
    unfolding m by (rule bit_word_eqI) (auto simp: bit_simps dest: bit_imp_le_length)
qed

lemma mullo_shift: "(w :: u16) * 0x10 = push_bit 4 w" "(w :: u16) * 0x100 = push_bit 8 w"
  by (simp_all add: push_bit_eq_mult)

lemma le_bytes_2: "le_bytes 2 (w :: u16) = [ucast w, ucast (drop_bit 8 w)]"
  by (simp add: le_bytes_def numeral_2_eq_2)

lemma reshuffle_bytes:
  "(ucast (drop_bit 10 (le_word [0, x AND 0xfc] :: u16)) :: u8)
     OR ucast (push_bit 4 (le_word [y AND 0xf0, x AND 3] :: u16)) = drop_bit 2 x"
  "(ucast (drop_bit 8 (drop_bit 10 (le_word [0, x AND 0xfc] :: u16))) :: u8)
     OR ucast (drop_bit 8 (push_bit 4 (le_word [y AND 0xf0, x AND 3] :: u16))) =
   push_bit 4 (x AND 3) OR drop_bit 4 y"
  "(ucast (drop_bit 6 (le_word [z AND 0xc0, y AND 0x0f] :: u16)) :: u8)
     OR ucast (push_bit 8 (le_word [z AND 0x3f, 0] :: u16)) =
   push_bit 2 (y AND 15) OR drop_bit 6 z"
  "(ucast (drop_bit 8 (drop_bit 6 (le_word [z AND 0xc0, y AND 0x0f] :: u16))) :: u8)
     OR ucast (drop_bit 8 (push_bit 8 (le_word [z AND 0x3f, 0] :: u16))) = z AND 63"
  unfolding le_word.simps
  by (rule byte_eq8; simp only: bits_only; simp add: u8_bit_high)+

lemma reshuffle_shuffle:
  "simde_mm_shuffle_epi8 [a, b, c, d, e, f, g, h, i, j, k, l, m, n, p, q]
     (simde_mm_setr_epi8 [1, 0, 2, 1, 4, 3, 5, 4, 7, 6, 8, 7, 10, 9, 11, 10]) =
   [b, a, c, b, e, d, f, e, h, g, i, h, k, j, l, k]"
  by (simp add: simde_mm_shuffle_epi8_def simde_mm_setr_epi8_def)

lemma reshuffle_consts:
  "simde_mm_set1_epi32_bytes 0x0fc0fc00 =
     [0, 0xfc, 0xc0, 0x0f, 0, 0xfc, 0xc0, 0x0f, 0, 0xfc, 0xc0, 0x0f, 0, 0xfc, 0xc0, 0x0f]"
  "simde_mm_set1_epi32_bytes 0x003f03f0 =
     [0xf0, 3, 0x3f, 0, 0xf0, 3, 0x3f, 0, 0xf0, 3, 0x3f, 0, 0xf0, 3, 0x3f, 0]"
  "epi16 (simde_mm_set1_epi32_bytes 0x04000040) = [0x40, 0x400, 0x40, 0x400, 0x40, 0x400, 0x40, 0x400]"
  "epi16 (simde_mm_set1_epi32_bytes 0x01000010) = [0x10, 0x100, 0x10, 0x100, 0x10, 0x100, 0x10, 0x100]"
  by code_simp+

lemma epi16_list:
  "epi16 [a, b, c, d, e, f, g, h, i, j, k, l, m, n, p, q] =
     [le_word [a, b], le_word [c, d], le_word [e, f], le_word [g, h],
      le_word [i, j], le_word [k, l], le_word [m, n], le_word [p, q]]"
  by (simp add: epi16_def upt_rec del: le_word.simps)

lemma lanes16:
  assumes "length v = (16 :: nat)"
  obtains a b c d e f g h i j k l m n p q where "v = [a, b, c, d, e, f, g, h, i, j, k, l, m, n, p, q]"
  using assms by (auto simp: eval_nat_numeral length_Suc_conv)

lemma ucast_factors: "ucast (0x40 :: u16) = (0x40 :: u32)" "ucast (0x400 :: u16) = (0x400 :: u32)"
  by simp_all

lemmas map2_simps = list.map zip_Cons_Cons zip_Nil case_prod_conv

lemma enc_reshuffle_eq:
  "enc_reshuffle [a, b, c, d, e, f, g, h, i, j, k, l, m, n, p, q] =
     b64_groups a b c @ b64_groups d e f @ b64_groups g h i @ b64_groups j k l"
  by (simp only: enc_reshuffle_def reshuffle_shuffle reshuffle_consts simde_mm_mulhi_epu16_def
      simde_mm_mullo_epi16_def simde_mm_and_si128_def simde_mm_or_si128_def Let_def map2_simps
      epi16_list of_epi16_def ucast_factors mulhi_shift mullo_shift le_bytes_2 concat.simps append.simps and_zero_eq
      reshuffle_bytes b64_groups_def)

text \<open>The lookup of \<open>enc_translate\<close> in one lane.\<close>

definition translate_lane :: "u8 \<Rightarrow> u8" where
  "translate_lane x =
     (let ix = (if 51 < x then x - 51 else 0) - (if sint (25 :: u8) < sint x then 0xFF else 0)
      in x + (if bit ix 7 then 0
              else simde_mm_setr_epi8 [65, 71, -4, -4, -4, -4, -4, -4, -4, -4, -4, -4, -19, -16, 0, 0]
                     ! unat (ix AND 15)))"

lemma translate_lane_alphabet: "unat x < 64 \<Longrightarrow> translate_lane x = b64_alphabet ! unat x"
proof -
  have "unat x < 64 \<longrightarrow> translate_lane x = b64_alphabet ! unat x"
    by (rule all_bytes [of _ x]; code_simp)
  then show "unat x < 64 \<Longrightarrow> translate_lane x = b64_alphabet ! unat x" by simp
qed

lemma enc_translate_map: "length v = 16 \<Longrightarrow> enc_translate v = map translate_lane v"
  by (erule lanes16)
    (simp add: enc_translate_def simde_mm_set1_epi8_def simde_mm_subs_epu8_def simde_mm_cmpgt_epi8_def
      simde_mm_sub_epi8_def simde_mm_add_epi8_def simde_mm_shuffle_epi8_def translate_lane_def Let_def
      eval_nat_numeral)

lemma unat_6_bits: "unat (v AND 0x3F :: 'a::len word) < 64"
proof -
  have "v AND 0x3F = take_bit 6 v" by (simp add: take_bit_eq_mask mask_eq_exp_minus_1)
  then show ?thesis using take_bit_nat_less_exp [of 6 "unat v"] by (simp add: unsigned_take_bit_eq)
qed

lemma b64_char_byte: "b64_char v s = b64_alphabet ! unat (ucast (drop_bit s v AND 0x3F) :: u8)"
  using unat_6_bits [of "drop_bit s v"] by (simp add: b64_char_def unsigned_ucast_eq take_bit_nat_eq_self)

lemma b64_quartet_groups: "b64_quartet x y z = map (\<lambda>g. b64_alphabet ! unat g) (b64_groups x y z)"
  by (simp add: b64_quartet_def b64_char_byte b64_groups_bits b64_groups_def)

lemma b64_groups_small: "g \<in> set (b64_groups x y z) \<Longrightarrow> unat g < 64"
proof -
  assume "g \<in> set (b64_groups x y z)"
  then obtain v :: u32 where "g = ucast (v AND 0x3F)"
    by (simp only: b64_groups_def b64_groups_bits [of x y z, symmetric] set_simps insert_iff empty_iff)
      blast
  then show ?thesis using unat_6_bits [of v] by (simp add: unsigned_ucast_eq take_bit_nat_eq_self)
qed

lemma translate_groups: "map translate_lane (b64_groups x y z) = b64_quartet x y z"
  by (simp add: b64_quartet_groups b64_groups_small translate_lane_alphabet)

end
