(* ===== verification/Base64_Digits.thy ===== *)
theory Base64_Digits
  imports Base64
begin

text \<open>
  The specification of base64 decoding, character by character, and the facts that tie the code's
  table and its quartet step to it.
\<close>

text \<open>The bytes at \<open>[i, i + n)\<close>.\<close>

definition span_at :: "nat \<Rightarrow> nat \<Rightarrow> 'a list \<Rightarrow> 'a list" where
  "span_at i n xs = take n (drop i xs)"

lemma span_at_length: "i + n \<le> length xs \<Longrightarrow> length (span_at i n xs) = n"
  by (simp add: span_at_def)

lemma span_at_add: "span_at i (m + n) xs = span_at i m xs @ span_at (i + m) n xs"
  by (simp add: span_at_def take_add ac_simps)

lemma span_at_3: "i + 3 \<le> length xs \<Longrightarrow> span_at i 3 xs = [xs ! i, xs ! (i + 1), xs ! (i + 2)]"
  by (simp add: span_at_def eval_nat_numeral take_Suc_conv_app_nth Cons_nth_drop_Suc [symmetric])

lemma span_at_4: "i + 4 \<le> length xs \<Longrightarrow> span_at i 4 xs = [xs ! i, xs ! (i + 1), xs ! (i + 2), xs ! (i + 3)]"
  by (simp add: span_at_def eval_nat_numeral take_Suc_conv_app_nth Cons_nth_drop_Suc [symmetric])

subsection \<open>The decoder's specification\<close>

definition b64_digit :: "u8 \<Rightarrow> u8 option" where
  "b64_digit c =
     (if 65 \<le> c \<and> c \<le> 90 then Some (c - 65)
      else if 97 \<le> c \<and> c \<le> 122 then Some (c - 71)
      else if 48 \<le> c \<and> c \<le> 57 then Some (c + 4)
      else if c = 43 then Some 62
      else if c = 47 then Some 63
      else None)"

definition b64_bytes :: "u8 \<Rightarrow> u8 \<Rightarrow> u8 \<Rightarrow> u8 \<Rightarrow> bytes" where
  "b64_bytes a b c d =
     [push_bit 2 a OR drop_bit 4 b, push_bit 4 b OR drop_bit 2 c, push_bit 6 c OR d]"

text \<open>A body of whole quartets, and a last quartet with up to two padding characters.\<close>

fun b64_body :: "bytes \<Rightarrow> bytes option" where
  "b64_body [] = Some []"
| "b64_body (p # q # r # s # cs) = do {
     a \<leftarrow> b64_digit p;
     b \<leftarrow> b64_digit q;
     c \<leftarrow> b64_digit r;
     d \<leftarrow> b64_digit s;
     ys \<leftarrow> b64_body cs;
     Some (b64_bytes a b c d @ ys)
   }"
| "b64_body _ = None"

fun b64_last :: "bytes \<Rightarrow> bytes option" where
  "b64_last [p, q, r, s] = do {
     a \<leftarrow> b64_digit p;
     b \<leftarrow> b64_digit q;
     if r = 0x3D \<and> s = 0x3D then Some (take 1 (b64_bytes a b 0 0))
     else do {
       c \<leftarrow> b64_digit r;
       if s = 0x3D then Some (take 2 (b64_bytes a b c 0))
       else do { d \<leftarrow> b64_digit s; Some (b64_bytes a b c d) }
     }
   }"
| "b64_last _ = None"

definition b64_dec :: "bytes \<Rightarrow> bytes option" where
  "b64_dec cs =
     (if cs = [] then Some []
      else do {
        xs \<leftarrow> b64_body (take (length cs - 4) cs);
        ys \<leftarrow> b64_last (drop (length cs - 4) cs);
        Some (xs @ ys)
      })"

lemma b64_dec_table_list:
  "b64_dec_table = map (\<lambda>n. case b64_digit (of_nat n) of None \<Rightarrow> 255 | Some k \<Rightarrow> k) [0..<256]"
  by code_simp

lemma b64_dec_table_digit: "b64_dec_table ! unat c = (case b64_digit c of None \<Rightarrow> 255 | Some k \<Rightarrow> k)"
  by (simp add: b64_dec_table_list)

lemma b64_digit_bound: "(case b64_digit c of None \<Rightarrow> True | Some k \<Rightarrow> k < 64)"
  by (rule all_bytes [of _ c]; code_simp)

lemma b64_dec_table_len: "length b64_dec_table = 256"
  by (simp add: b64_dec_table_def)

lemma b64_digit_less: "b64_digit c = Some k \<Longrightarrow> k < 64"
  using b64_digit_bound [of c] by simp

lemma b64_digit_high: "bit c 7 \<Longrightarrow> b64_digit c = None"
proof -
  have "bit c 7 \<longrightarrow> b64_digit c = None" by (rule all_bytes [of _ c]; code_simp)
  then show "bit c 7 \<Longrightarrow> b64_digit c = None" by simp
qed

lemma b64_digit_pad [simp]: "b64_digit 0x3D = None"
  by code_simp

lemma dec_char_eq:
  "i < length inp \<Longrightarrow>
     dec_char inp i = Some (case b64_digit (inp ! i) of None \<Rightarrow> 255 | Some k \<Rightarrow> k)"
  by (simp add: dec_char_def load_in b64_dec_table_len b64_dec_table_digit)

lemma ge_64_iff: "64 \<le> (x :: u8) \<longleftrightarrow> drop_bit 6 x \<noteq> 0"
  by (rule all_bytes [of _ x]; code_simp)

lemma or4_ge_64: "64 \<le> (a OR b OR c OR d :: u8) \<longleftrightarrow> 64 \<le> a \<or> 64 \<le> b \<or> 64 \<le> c \<or> 64 \<le> d"
  by (simp only: ge_64_iff drop_bit_or or_eq_0_iff) blast

lemma b64_join_bytes:
  "ucast (drop_bit 16 (b64_join a b c d)) = push_bit 2 a OR drop_bit 4 b"
  "ucast (drop_bit 8 (b64_join a b c d)) = push_bit 4 b OR drop_bit 2 c"
  "ucast (b64_join a b c d) = push_bit 6 c OR d"
  unfolding b64_join_def
  by (rule byte_eq8; simp only: bits_only; simp add: u8_bit_high)+

lemma stores_3:
  "do { out \<leftarrow> store out j a; out \<leftarrow> store out (j + 1) b; out \<leftarrow> store out (j + 2) c; f out }
   = Option.bind (store_block out j [a, b, c]) f"
  by (simp add: store_block_Cons eval_nat_numeral)

lemma digit_ge_64: "64 \<le> (case b64_digit c of None \<Rightarrow> 255 | Some k \<Rightarrow> k) \<longleftrightarrow> b64_digit c = None"
  using b64_digit_less [of c] by (cases "b64_digit c") (auto simp: not_le)

lemma dec_quartet_eq:
  assumes "i + 4 \<le> length inp"
  shows "dec_quartet inp i out j =
    (case b64_body (span_at i 4 inp) of None \<Rightarrow> Some (out, None)
     | Some ys \<Rightarrow> map_option (\<lambda>o'. (o', Some (j + 3))) (store_block out j ys))"
  using assms b64_digit_less [of "inp ! i"] b64_digit_less [of "inp ! (i + 1)"]
    b64_digit_less [of "inp ! (i + 2)"] b64_digit_less [of "inp ! (i + 3)"]
  by (cases "b64_digit (inp ! i)"; cases "b64_digit (inp ! (i + 1))"; cases "b64_digit (inp ! (i + 2))";
      cases "b64_digit (inp ! (i + 3))")
    (simp_all add: dec_quartet_def dec_char_eq or4_ge_64 span_at_4 b64_join_bytes Let_def
      stores_3 [simplified] b64_bytes_def map_conv_bind_option comp_def not_le [symmetric])

end
