(* ===== verification/Base64_Codec.thy ===== *)
theory Base64_Codec
  imports Base64_Digits
begin

text \<open>
  The encoder writes RFC 4648's encoding, the decoder decodes exactly the well-formed inputs, and
  the two are inverse.
\<close>

subsection \<open>The encoder's loops write blocks of the specification\<close>

lemma b64_enc_append: "length xs mod 3 = 0 \<Longrightarrow> b64_enc (xs @ ys) = b64_enc xs @ b64_enc ys"
proof (induction xs rule: b64_enc.induct)
  case (4 x y z xs)
  then show ?case by (simp add: mod_Suc split: if_splits)
qed simp_all

lemma b64_quartet_length [simp]: "length (b64_quartet x y z) = 4"
  by (simp add: b64_quartet_def)

lemma b64_enc_length: "length (b64_enc xs) = 4 * ((length xs + 2) div 3)"
proof (induction xs rule: b64_enc.induct)
  case (4 x y z xs)
  have "(length xs + 5) div 3 = Suc ((length xs + 2) div 3)" by simp
  with 4 show ?case by (simp add: add.commute)
qed simp_all

lemma enc_chunk:
  assumes "length v = 16"
  shows "enc_translate (enc_reshuffle v) = b64_enc (take 12 v)"
proof -
  have len: "length (b64_groups x y z) = 4" for x y z by (simp add: b64_groups_def)
  show ?thesis
    using assms by (elim lanes16) (simp add: enc_reshuffle_eq enc_translate_map translate_groups len)
qed

text \<open>One iteration's four stores are one block.\<close>

lemma stores_4:
  "do { out \<leftarrow> store out j a; out \<leftarrow> store out (j + 1) b; out \<leftarrow> store out (j + 2) c; out \<leftarrow> store out (j + 3) d; f out }
   = Option.bind (store_block out j [a, b, c, d]) f"
  by (simp add: store_block_Cons eval_nat_numeral)

lemma encode_vectors_spec:
  assumes "n \<le> length inp" and "i \<le> n"
  shows "\<exists>k. i + 12 * k \<le> n \<and> encode_vectors inp n out i j =
    map_option (\<lambda>o'. (o', i + 12 * k, j + 16 * k)) (store_block out j (b64_enc (span_at i (12 * k) inp)))"
  using assms
proof (induction inp n out i j rule: encode_vectors.induct)
  case (1 inp n out i j)
  show ?case
  proof (cases "16 \<le> n - i")
    case False
    then show ?thesis using 1 by (intro exI [of _ 0]) (subst encode_vectors.simps, simp add: span_at_def)
  next
    case True
    define v where "v = take 16 (drop i inp)"
    have v: "simde_mm_loadu_si128 inp i = Some v" "length v = 16" "take 12 v = span_at i 12 inp"
      using True 1(2,3) by (auto simp: v_def simde_mm_loadu_si128_def load_block_in span_at_def)
    have sl: "length (span_at i 12 inp) = 12" using True 1 by (simp add: span_at_length)
    then have out16: "length (b64_enc (span_at i 12 inp)) = 16" by (simp add: b64_enc_length)
    show ?thesis
    proof (cases "store_block out j (b64_enc (span_at i 12 inp))")
      case None
      then show ?thesis
        using True v 1 by (intro exI [of _ 1])
          (subst encode_vectors.simps, simp add: enc_chunk simde_mm_storeu_si128_def)
    next
      case (Some out')
      obtain k where k: "i + 12 + 12 * k \<le> n" "encode_vectors inp n out' (i + 12) (j + 16) =
        map_option (\<lambda>o'. (o', i + 12 + 12 * k, j + 16 + 16 * k))
          (store_block out' (j + 16) (b64_enc (span_at (i + 12) (12 * k) inp)))"
        using 1(1) [OF True v(1) refl refl _ 1(2), of out'] 1(3) True v Some
        by (fastforce simp: enc_chunk simde_mm_storeu_si128_def)
      have "b64_enc (span_at i (12 * Suc k) inp) =
          b64_enc (span_at i 12 inp) @ b64_enc (span_at (i + 12) (12 * k) inp)"
        using sl by (simp add: span_at_add b64_enc_append)
      then show ?thesis
        using True v k Some out16
        by (intro exI [of _ "Suc k"]) (subst encode_vectors.simps,
            simp add: enc_chunk simde_mm_storeu_si128_def store_block_append ac_simps)
    qed
  qed
qed

lemma encode_triples_spec:
  assumes "n \<le> length inp" and "i \<le> n"
  shows "\<exists>k. i + 3 * k \<le> n \<and> n < i + 3 * k + 3 \<and> encode_triples inp n out i j =
    map_option (\<lambda>o'. (o', i + 3 * k, j + 4 * k)) (store_block out j (b64_enc (span_at i (3 * k) inp)))"
  using assms
proof (induction "n - i" arbitrary: i j out rule: less_induct)
  case less
  show ?case
  proof (cases "3 \<le> n - i")
    case False
    then show ?thesis
      using less by (intro exI [of _ 0]) (subst encode_triples.simps, simp add: span_at_def)
  next
    case True
    have ld: "load inp i = Some (inp ! i)" "load inp (i + 1) = Some (inp ! (i + 1))"
      "load inp (i + 2) = Some (inp ! (i + 2))"
      using True less.prems by (simp_all add: load_in)
    let ?q = "b64_quartet (inp ! i) (inp ! (i + 1)) (inp ! (i + 2))"
    have q: "b64_enc (span_at i 3 inp) = ?q" "length (span_at i 3 inp) = 3"
      using True less.prems by (simp_all add: span_at_3)
    have step: "encode_triples inp n out i j =
        Option.bind (store_block out j ?q) (\<lambda>o'. encode_triples inp n o' (i + 3) (j + 4))"
      using True by (subst encode_triples.simps)
        (simp add: ld Let_def stores_4 b64_quartet_def b64_value_def del: One_nat_def add_2_eq_Suc')
    show ?thesis
    proof (cases "store_block out j ?q")
      case None
      have *: "encode_triples inp n out i j = None" using step None by simp
      have "b64_enc (span_at i (3 * Suc k) inp) = ?q @ b64_enc (span_at (i + 3) (3 * k) inp)" for k
        using q by (simp add: span_at_add b64_enc_append)
      then have "store_block out j (b64_enc (span_at i (3 * Suc k) inp)) = None" for k
        using None by (simp only: store_block_append) simp
      moreover have "i + 3 * Suc ((n - i) div 3 - 1) \<le> n" "n < i + 3 * Suc ((n - i) div 3 - 1) + 3"
        using True less.prems by arith+
      ultimately show ?thesis
        unfolding * option.map by (intro exI [of _ "Suc ((n - i) div 3 - 1)"]) (simp only: option.map)
    next
      case (Some out')
      have lt: "n - (i + 3) < n - i" and le: "i + 3 \<le> n" using True less.prems by arith+
      obtain k where k: "i + 3 + 3 * k \<le> n" "n < i + 3 + 3 * k + 3"
        "encode_triples inp n out' (i + 3) (j + 4) =
          map_option (\<lambda>o'. (o', i + 3 + 3 * k, j + 4 + 4 * k))
            (store_block out' (j + 4) (b64_enc (span_at (i + 3) (3 * k) inp)))"
        using less.hyps [OF lt less.prems(1) le, of out' "j + 4"] by blast
      have "b64_enc (span_at i (3 * Suc k) inp) = ?q @ b64_enc (span_at (i + 3) (3 * k) inp)"
        using q by (simp add: span_at_add b64_enc_append)
      then show ?thesis
        using step k Some by (intro exI [of _ "Suc k"]) (simp add: store_block_append ac_simps)
    qed
  qed
qed

lemma encode_rest_spec:
  assumes "n \<le> length inp" and "i \<le> n" and "n < i + 3"
  shows "encode_rest inp n out i j =
    map_option (\<lambda>o'. (o', j + 4 * ((n - i + 2) div 3))) (store_block out j (b64_enc (span_at i (n - i) inp)))"
proof -
  consider "n = i" | "n = i + 1" | "n = i + 2" using assms by linarith
  then show ?thesis
  proof cases
    case 1
    then show ?thesis by (simp add: encode_rest_def span_at_def)
  next
    case 2
    then have "span_at i (n - i) inp = [inp ! i]" "load inp i = Some (inp ! i)"
      using assms by (simp_all add: span_at_def take_Suc_conv_app_nth load_in)
    then show ?thesis
      using 2 by (simp add: encode_rest_def stores_4 [simplified] b64_value_def b64_quartet_def map_conv_bind_option
          Let_def comp_def)
  next
    case 3
    then have "span_at i (n - i) inp = [inp ! i, inp ! (i + 1)]" "load inp i = Some (inp ! i)"
      "load inp (i + 1) = Some (inp ! (i + 1))"
      using assms by (simp_all add: span_at_def take_Suc_conv_app_nth load_in eval_nat_numeral)
    then show ?thesis
      using 3 by (simp add: encode_rest_def stores_4 [simplified] b64_value_def b64_quartet_def map_conv_bind_option
          Let_def comp_def)
  qed
qed

lemma span_at_all: "span_at 0 n xs = take n xs"
  by (simp add: span_at_def)

theorem base64_encode_exact:
  assumes "n \<le> length inp" and "int n \<le> B64_MAX_ENCODE_INPUT"
  shows "hs_base64_encode inp (int n) out =
    map_option (\<lambda>o'. (o', hs_base64_encoded_length (int n))) (store_block out 0 (b64_enc (take n inp)))"
proof -
  obtain k where k: "12 * k \<le> n" "encode_vectors inp n out 0 0 =
      map_option (\<lambda>o'. (o', 12 * k, 16 * k)) (store_block out 0 (b64_enc (span_at 0 (12 * k) inp)))"
    using encode_vectors_spec [OF assms(1), of 0 out 0] by auto
  have "\<exists>l. 12 * k + 3 * l \<le> n \<and> n < 12 * k + 3 * l + 3 \<and> (\<forall>o'. encode_triples inp n o' (12 * k) (16 * k) =
      map_option (\<lambda>o'. (o', 12 * k + 3 * l, 16 * k + 4 * l))
        (store_block o' (16 * k) (b64_enc (span_at (12 * k) (3 * l) inp))))"
  proof (intro exI [of _ "(n - 12 * k) div 3"] conjI allI)
    fix o'
    obtain l where "12 * k + 3 * l \<le> n" "n < 12 * k + 3 * l + 3"
      "encode_triples inp n o' (12 * k) (16 * k) = map_option (\<lambda>o'. (o', 12 * k + 3 * l, 16 * k + 4 * l))
        (store_block o' (16 * k) (b64_enc (span_at (12 * k) (3 * l) inp)))"
      using encode_triples_spec [OF assms(1) k(1)] by blast
    moreover have "l = (n - 12 * k) div 3" using calculation by linarith
    ultimately show "encode_triples inp n o' (12 * k) (16 * k) =
      map_option (\<lambda>o'. (o', 12 * k + 3 * ((n - 12 * k) div 3), 16 * k + 4 * ((n - 12 * k) div 3)))
        (store_block o' (16 * k) (b64_enc (span_at (12 * k) (3 * ((n - 12 * k) div 3)) inp)))"
      by simp
  qed (use k(1) in arith)+
  then obtain l where l: "12 * k + 3 * l \<le> n" "n < 12 * k + 3 * l + 3"
    "\<And>o'. encode_triples inp n o' (12 * k) (16 * k) = map_option (\<lambda>o'. (o', 12 * k + 3 * l, 16 * k + 4 * l))
        (store_block o' (16 * k) (b64_enc (span_at (12 * k) (3 * l) inp)))"
    by blast
  define i where "i = 12 * k + 3 * l"
  let ?r = "n - i"
  have n: "n = 12 * k + (3 * l + ?r)" using l by (simp add: i_def)
  have "take n inp = span_at 0 (12 * k) inp @ span_at (12 * k) (3 * l) inp @ span_at i ?r inp"
    by (subst n) (simp only: span_at_all [symmetric] span_at_add i_def add_0 append_assoc)
  moreover have "length (span_at 0 (12 * k) inp) = 12 * k" "length (span_at (12 * k) (3 * l) inp) = 3 * l"
    using k l assms by (simp_all add: span_at_length)
  ultimately have enc: "b64_enc (take n inp) = b64_enc (span_at 0 (12 * k) inp) @
      b64_enc (span_at (12 * k) (3 * l) inp) @ b64_enc (span_at i ?r inp)"
    and len: "length (b64_enc (span_at 0 (12 * k) inp)) = 16 * k"
      "length (b64_enc (span_at (12 * k) (3 * l) inp)) = 4 * l"
    by (simp_all add: b64_enc_append b64_enc_length)
  have "n + 2 = (?r + 2) + 3 * (4 * k + l)" by (subst n) simp
  then have "(n + 2) div 3 = ((?r + 2) + 3 * (4 * k + l)) div 3" by (rule arg_cong)
  then have "(n + 2) div 3 = 4 * k + l + (?r + 2) div 3" by (simp only: div_mult_self2)
  then have "16 * k + 4 * l + 4 * ((?r + 2) div 3) = 4 * ((n + 2) div 3)" by simp
  then have res: "int (16 * k + 4 * l + 4 * ((?r + 2) div 3)) = hs_base64_encoded_length (int n)"
    using assms(2) by (simp add: hs_base64_encoded_length_def zdiv_int)
  have rest: "encode_rest inp n o' (12 * k + 3 * l) j =
      map_option (\<lambda>o'. (o', j + 4 * ((?r + 2) div 3))) (store_block o' j (b64_enc (span_at i ?r inp)))" for o' j
    using encode_rest_spec [OF assms(1), of i o' j] l by (simp add: i_def)
  have "hs_base64_encode inp (int n) out = do {
      o1 \<leftarrow> store_block out 0 (b64_enc (span_at 0 (12 * k) inp));
      o2 \<leftarrow> store_block o1 (16 * k) (b64_enc (span_at (12 * k) (3 * l) inp));
      o3 \<leftarrow> store_block o2 (16 * k + 4 * l) (b64_enc (span_at i ?r inp));
      Some (o3, hs_base64_encoded_length (int n)) }"
    using assms(2) by (simp only: hs_base64_encode_def nat_int k(2) l(3) rest res not_less [symmetric]
        bind_map_option comp_def prod.case if_False option.case_eq_if)
  then show ?thesis
    by (simp add: enc store_block_append len map_conv_bind_option comp_def)
qed

end
