(* ===== verification/Base64_Decode.thy ===== *)
theory Base64_Decode
  imports Base64_Codec
begin

text \<open>
  The decoder returns exactly what the specification says, and decoding inverts encoding.
\<close>

subsection \<open>The body loops\<close>

lemma b64_body_append:
  "length xs mod 4 = 0 \<Longrightarrow>
     b64_body (xs @ ys) = do { a \<leftarrow> b64_body xs; b \<leftarrow> b64_body ys; Some (a @ b) }"
proof (induction xs rule: b64_body.induct)
  case (2 p q r s cs)
  then have "length cs mod 4 = 0" by (simp add: mod_Suc split: if_splits)
  with 2 show ?case by (auto simp: Option.bind_eq_Some_conv split: option.splits bind_splits)
qed (simp_all add: mod_Suc bind_rzero split: bind_splits)

lemma b64_body_length: "b64_body xs = Some ys \<Longrightarrow> 4 * length ys = 3 * length xs"
  by (induction xs arbitrary: ys rule: b64_body.induct)
    (auto simp: b64_bytes_def split: bind_splits)

text \<open>
  What decoding the input characters \<open>[i, m)\<close> to position \<open>j\<close> must come to: the specified bytes
  stored, or \<open>None\<close> with at most that part of the output touched.
\<close>

definition body_ok ::
  "bytes \<Rightarrow> nat \<Rightarrow> nat \<Rightarrow> bytes \<Rightarrow> nat \<Rightarrow> (bytes \<times> 'a option) option \<Rightarrow> (nat \<Rightarrow> 'a) \<Rightarrow> bool" where
  "body_ok inp i m out j r f \<longleftrightarrow>
     (case b64_body (span_at i (m - i) inp) of
        Some ys \<Rightarrow> (\<exists>o'. store_block out j ys = Some o' \<and> r = Some (o', Some (f (j + length ys))))
      | None \<Rightarrow> (\<exists>o'. r = Some (o', None) \<and> frame j (j + 3 * ((m - i) div 4)) out o'))"

lemma dec_quartet_ok:
  assumes "i + 4 \<le> length inp" and "j + 3 \<le> length out"
  shows "body_ok inp i (i + 4) out j (dec_quartet inp i out j) id"
proof (cases "b64_body (span_at i 4 inp)")
  case (Some ys)
  then have "length ys = 3" using b64_body_length [OF Some] assms by (simp add: span_at_length)
  then show ?thesis
    using Some assms by (simp add: body_ok_def dec_quartet_eq store_block_in)
qed (use assms in \<open>simp add: body_ok_def dec_quartet_eq\<close>)

text \<open>Consecutive pieces.\<close>

lemma body_ok_seq:
  assumes first: "body_ok inp i m out j r id"
    and i: "i \<le> m" "m \<le> n" "n \<le> length inp" "(m - i) mod 4 = 0"
    and out: "j + 3 * ((n - i) div 4) \<le> length out"
    and rest: "\<And>o'. length o' = length out \<Longrightarrow> body_ok inp m n o' (j + 3 * ((m - i) div 4)) (g o' (j + 3 * ((m - i) div 4))) f"
  shows "body_ok inp i n out j
    (do { (out, r) \<leftarrow> r; (case r of None \<Rightarrow> Some (out, None) | Some j \<Rightarrow> g out j) }) f"
proof -
  let ?d = "(m - i) div 4" and ?e = "(n - m) div 4"
  have d: "m - i = 4 * ?d" using i(4) by presburger
  have e: "(n - i) div 4 = ?d + ?e"
  proof -
    have "n - i = (n - m) + 4 * ?d" using d i by linarith
    then show ?thesis by simp
  qed
  have span: "span_at i (n - i) inp = span_at i (m - i) inp @ span_at m (n - m) inp"
    using span_at_add [of i "m - i" "n - m" inp] i by simp
  have len: "length (span_at i (m - i) inp) = m - i" using i by (simp add: span_at_length)
  show ?thesis
  proof (cases "b64_body (span_at i (m - i) inp)")
    case None
    then obtain o' where "r = Some (o', None)" "frame j (j + 3 * ?d) out o'"
      using first by (auto simp: body_ok_def)
    moreover from this have "frame j (j + 3 * (?d + ?e)) out o'" by (auto elim: frame_widen)
    ultimately show ?thesis
      using None i(4) by (simp add: body_ok_def span b64_body_append len e)
  next
    case (Some ys)
    then have "4 * length ys = 3 * (m - i)" using b64_body_length [OF Some] len by simp
    then have ys: "length ys = 3 * ?d" using d by linarith
    obtain o' where o': "store_block out j ys = Some o'" "r = Some (o', Some (j + length ys))"
      using first Some by (auto simp: body_ok_def)
    have fr: "frame j (j + 3 * ?d) out o'" using store_block_frame [OF o'(1)] ys by simp
    have ok: "body_ok inp m n o' (j + 3 * ?d) (g o' (j + 3 * ?d)) f"
      using rest store_block_length [OF o'(1)] by simp
    show ?thesis
    proof (cases "b64_body (span_at m (n - m) inp)")
      case None
      then obtain o'' where g: "g o' (j + 3 * ?d) = Some (o'', None)"
        and fr': "frame (j + 3 * ?d) (j + 3 * ?d + 3 * ?e) o' o''"
        using ok by (auto simp: body_ok_def)
      have "frame j (j + 3 * (?d + ?e)) out o''"
        by (rule frame_trans [OF frame_widen [OF fr] frame_widen [OF fr']]) simp_all
      then show ?thesis
        using Some None i(4) o' ys g by (simp add: body_ok_def span b64_body_append len e)
    next
      case (Some zs)
      with ok show ?thesis
        using \<open>b64_body (span_at i (m - i) inp) = Some ys\<close> i(4) o' ys
        by (auto simp: body_ok_def span b64_body_append len store_block_append ac_simps)
    qed
  qed
qed

lemma body_ok_done: "body_ok inp i i out j (Some (out, Some (f j))) f"
  by (simp add: body_ok_def span_at_def)

lemma dec_window_ok:
  assumes "i + 16 \<le> length inp" and "j + 3 * ((16 - k) div 4) \<le> length out" and "k mod 4 = 0" and "k \<le> 16"
  shows "body_ok inp (i + k) (i + 16) out j (dec_window inp i k out j) id"
  using assms
proof (induction "16 - k" arbitrary: k j out rule: less_induct)
  case less
  show ?case
  proof (cases "k < 16")
    case False
    with less.prems have "k = 16" by simp
    then show ?thesis using body_ok_done [of inp "i + 16" out j id] by (simp add: dec_window.simps)
  next
    case True
    then have k: "k + 4 \<le> 16" using less.prems(3) by presburger
    then have d: "(16 - k) div 4 = Suc ((16 - (k + 4)) div 4)" by arith
    have "body_ok inp (i + k) (i + 16) out j
        (do { (out, r) \<leftarrow> dec_quartet inp (i + k) out j;
              (case r of None \<Rightarrow> Some (out, None) | Some j \<Rightarrow> dec_window inp i (k + 4) out j) }) id"
    proof (rule body_ok_seq [where m = "i + k + 4"])
      show "body_ok inp (i + k) (i + k + 4) out j (dec_quartet inp (i + k) out j) id"
        using less.prems k d by (intro dec_quartet_ok) simp_all
      fix o' :: bytes assume "length o' = length out"
      then have "body_ok inp (i + (k + 4)) (i + 16) o' (j + 3) (dec_window inp i (k + 4) o' (j + 3)) id"
        using less.prems k d by (intro less.hyps) simp_all
      then show "body_ok inp (i + k + 4) (i + 16) o' (j + 3 * ((i + k + 4 - (i + k)) div 4))
          (dec_window inp i (k + 4) o' (j + 3 * ((i + k + 4 - (i + k)) div 4))) id"
        by (simp add: ac_simps)
    qed (use less.prems k d in simp_all)
    then show ?thesis using True by (simp add: dec_window.simps [of inp i k])
  qed
qed

lemma b64_body_high:
  "c \<in> set xs \<Longrightarrow> bit c 7 \<Longrightarrow> b64_body xs = None"
proof (induction xs rule: b64_body.induct)
  case (2 p q r s cs)
  then show ?case
    by (cases "b64_digit p"; cases "b64_digit q"; cases "b64_digit r"; cases "b64_digit s")
      (auto simp: b64_digit_high)
qed auto

lemma quartet_step:
  assumes "i < m" and "(m - i) mod 4 = 0"
  shows "i + 4 \<le> m" and "(m - i) div 4 = Suc ((m - (i + 4)) div 4)" and "(m - (i + 4)) mod 4 = (0 :: nat)"
proof -
  show le: "i + 4 \<le> m"
  proof (rule ccontr)
    assume "\<not> ?thesis"
    then have "m - i < 4" by arith
    then show False using assms by simp
  qed
  then have "m - i = (m - (i + 4)) + 4" by simp
  then show "(m - i) div 4 = Suc ((m - (i + 4)) div 4)" "(m - (i + 4)) mod 4 = 0"
    using assms(2) by (metis div_add_self2 plus_1_eq_Suc add.commute zero_neq_numeral, metis mod_add_self2)
qed

lemma dec_middle_ok:
  assumes "m \<le> length inp" and "i \<le> m" and "(m - i) mod 4 = 0" and "j + 3 * ((m - i) div 4) \<le> length out"
  shows "body_ok inp i m out j (dec_middle inp m i out j) (Pair m)"
  using assms
proof (induction "m - i" arbitrary: i j out rule: less_induct)
  case less
  show ?case
  proof (cases "i < m")
    case False
    with less.prems have "m = i" by simp
    then show ?thesis using body_ok_done [of inp i out j "Pair i"] by (simp add: dec_middle.simps)
  next
    case True
    note k = quartet_step(1) [OF True less.prems(3)] and d = quartet_step(2,3) [OF True less.prems(3)]
    have "body_ok inp i m out j
        (do { (out, r) \<leftarrow> dec_quartet inp i out j;
              (case r of None \<Rightarrow> Some (out, None) | Some j \<Rightarrow> dec_middle inp m (i + 4) out j) }) (Pair m)"
    proof (rule body_ok_seq [where m = "i + 4"])
      show "body_ok inp i (i + 4) out j (dec_quartet inp i out j) id"
        using less.prems k d by (intro dec_quartet_ok) simp_all
      fix o' :: bytes assume "length o' = length out"
      then have "body_ok inp (i + 4) m o' (j + 3) (dec_middle inp m (i + 4) o' (j + 3)) (Pair m)"
        using less.prems k d by (intro less.hyps) (simp | linarith)+
      then show "body_ok inp (i + 4) m o' (j + 3 * ((i + 4 - i) div 4))
          (dec_middle inp m (i + 4) o' (j + 3 * ((i + 4 - i) div 4))) (Pair m)"
        by simp
    qed (use less.prems k d in simp_all)
    then show ?thesis using True by (simp add: dec_middle.simps [of inp m i])
  qed
qed

text \<open>The window loop followed by the scalar loop: the probe rejects only what the table rejects.\<close>

definition dec_body :: "bytes \<Rightarrow> nat \<Rightarrow> nat \<Rightarrow> bytes \<Rightarrow> nat \<Rightarrow> (bytes \<times> (nat \<times> nat) option) option" where
  "dec_body inp m i out j = do {
     (out, r) \<leftarrow> dec_windows inp m i out j;
     (case r of None \<Rightarrow> Some (out, None) | Some (i, j) \<Rightarrow> dec_middle inp m i out j)
   }"

lemma dec_body_step:
  assumes "16 \<le> m - i" and "dec_window_high_bits inp i = Some 0"
  shows "dec_body inp m i out j = do {
    (out, r) \<leftarrow> dec_window inp i 0 out j;
    (case r of None \<Rightarrow> Some (out, None) | Some j \<Rightarrow> dec_body inp m (i + 16) out j) }"
  using assms
  by (cases "dec_window inp i 0 out j")
    (auto simp: dec_body_def dec_windows.simps [of inp m i] split: option.splits)

lemma dec_body_ok:
  assumes "m \<le> length inp" and "i \<le> m" and "(m - i) mod 4 = 0" and "j + 3 * ((m - i) div 4) \<le> length out"
  shows "body_ok inp i m out j (dec_body inp m i out j) (Pair m)"
  using assms
proof (induction "m - i" arbitrary: i j out rule: less_induct)
  case less
  show ?case
  proof (cases "16 \<le> m - i")
    case False
    then show ?thesis using dec_middle_ok [OF less.prems] by (simp add: dec_body_def dec_windows.simps)
  next
    case True
    let ?v = "take 16 (drop i inp)"
    have i: "i + 16 \<le> m" using True by arith
    obtain e where e: "m = i + 16 + e" using i le_Suc_ex by blast
    have v: "dec_window_high_bits inp i = Some (simde_mm_movemask_epi8 ?v)" "length ?v = 16"
      using i less.prems by (auto simp: dec_window_high_bits_def simde_mm_loadu_si128_def load_block_in)
    show ?thesis
    proof (cases "simde_mm_movemask_epi8 ?v = 0")
      case False
      then obtain n where "bit (simde_mm_movemask_epi8 ?v) n" by (auto simp: bit_eq_iff)
      then have n: "n < 16" "bit (?v ! n) 7" unfolding movemask_bit [OF v(2)] by blast+
      have "?v ! n \<in> set ?v" using n v(2) by (metis nth_mem)
      then have "b64_body (span_at i 16 inp) = None"
        using n b64_body_high unfolding span_at_def by blast
      then have "b64_body (span_at i (m - i) inp) = None"
        using span_at_add [of i 16 e inp] less.prems by (simp add: e b64_body_append span_at_length)
      moreover have "dec_body inp m i out j = Some (out, None)"
        using False True v by (simp add: dec_body_def dec_windows.simps [of inp m i])
      ultimately show ?thesis by (simp add: body_ok_def)
    next
      case True
      have e4: "(16 + e) div 4 = 4 + e div 4" "(16 + e) mod 4 = e mod 4" by presburger+
      have "body_ok inp i m out j
        (do { (out, r) \<leftarrow> dec_window inp i 0 out j;
              (case r of None \<Rightarrow> Some (out, None) | Some j \<Rightarrow> dec_body inp m (i + 16) out j) }) (Pair m)"
      proof (rule body_ok_seq [where m = "i + 16"])
        have "body_ok inp (i + 0) (i + 16) out j (dec_window inp i 0 out j) id"
          using less.prems e e4 by (intro dec_window_ok) simp_all
        then show "body_ok inp i (i + 16) out j (dec_window inp i 0 out j) id" by simp
        fix o' :: bytes assume "length o' = length out"
        then show "body_ok inp (i + 16) m o' (j + 3 * ((i + 16 - i) div 4))
            (dec_body inp m (i + 16) o' (j + 3 * ((i + 16 - i) div 4))) (Pair m)"
          using less.prems e e4 by (intro less.hyps) simp_all
      qed (use less.prems e e4 in simp_all)
      then show ?thesis using True v \<open>16 \<le> m - i\<close> by (simp add: dec_body_step)
    qed
  qed
qed

subsection \<open>The whole decoder\<close>

lemma dec_tail_ok:
  assumes "i + 4 \<le> length inp" and "j + 3 \<le> length out"
  shows "dec_tail inp i out j =
    (case b64_last (span_at i 4 inp) of
      Some ys \<Rightarrow> map_option (\<lambda>o'. (o', int (j + length ys))) (store_block out j ys)
    | None \<Rightarrow> Some (out, -1))"
proof -
  define p q r s where "p = inp ! i" "q = inp ! (i + 1)" "r = inp ! (i + 2)" "s = inp ! (i + 3)"
  note defs = this
  have ld: "load inp (i + 2) = Some r" "load inp (i + 3) = Some s"
    using assms by (simp_all add: load_in defs)
  define dig where "dig c = (case b64_digit c of None \<Rightarrow> 255 | Some k \<Rightarrow> k)" for c
  have dc: "dec_char inp i = Some (dig p)" "dec_char inp (i + 1) = Some (dig q)"
    "dec_char inp (i + 2) = Some (dig r)" "dec_char inp (i + 3) = Some (dig s)"
    using assms by (simp_all add: dec_char_eq defs dig_def)
  have ge: "64 \<le> dig c \<longleftrightarrow> b64_digit c = None" for c
    unfolding dig_def by (rule digit_ge_64)
  have dig: "dig c = k" if "b64_digit c = Some k" for c k
    using that by (simp add: dig_def)
  have sp: "span_at i 4 inp = [p, q, r, s]" using assms by (simp add: span_at_4 defs)
  note eqs = dec_tail_def dc dc [simplified] ld ld [simplified] ge sp Option.bind.bind_lunit b64_last.simps Let_def
  show ?thesis
  proof (cases "b64_digit p = None \<or> b64_digit q = None")
    case True
    then show ?thesis by (cases "b64_digit p") (simp_all add: eqs)
  next
    case False
    then obtain a b where "b64_digit p = Some a" "b64_digit q = Some b" by auto
    then have ab: "b64_digit p = Some a" "b64_digit q = Some b" "\<not> 64 \<le> a" "\<not> 64 \<le> b"
      using b64_digit_less by (auto simp: not_le)
    show ?thesis
    proof (cases "r = 0x3D")
      case True
      then show ?thesis
        by (cases "s = 0x3D") (simp_all add: eqs ab dig b64_join_bytes b64_bytes_def store_as_block
            map_conv_bind_option comp_def)
    next
      case r: False
      show ?thesis
      proof (cases "b64_digit r")
        case None
        with r show ?thesis by (cases "s = 0x3D") (simp_all add: eqs ab)
      next
        case (Some c)
        then have c: "\<not> 64 \<le> c" using b64_digit_less by (simp add: not_le)
        note eqs = eqs ab dig c Some b64_join_bytes b64_bytes_def map_conv_bind_option comp_def
        show ?thesis
        proof (cases "s = 0x3D")
          case True
          with r show ?thesis by (simp add: eqs store_block_Cons)
        next
          case s: False
          show ?thesis
          proof (cases "b64_digit s")
            case None
            with r s show ?thesis by (simp add: eqs)
          next
            case (Some d)
            then have "\<not> 64 \<le> d" using b64_digit_less by (simp add: not_le)
            with r s Some show ?thesis by (simp add: eqs stores_3 [simplified] add.commute)
          qed
        qed
      qed
    qed
  qed
qed

lemma hs_base64_decode_unfold:
  assumes "0 < n" and "n mod 4 = 0"
  shows "hs_base64_decode inp (int n) out = do {
    (out, r) \<leftarrow> dec_body inp (n - 4) 0 out 0;
    (case r of None \<Rightarrow> Some (out, -1) | Some (i, j) \<Rightarrow> dec_tail inp i out j) }"
proof -
  have "int n mod 4 = 0" using assms by presburger
  then show ?thesis
    using assms
    by (cases "dec_windows inp (n - 4) 0 out 0")
      (auto simp: hs_base64_decode_def dec_body_def Let_def split: option.splits)
qed

text \<open>
  C13: The decoder, for any bytes.  On an input of \<open>n\<close> readable characters whose decoded size fits
  the output buffer (\<open>hs_base64_decoded_max_length\<close>) it never faults.  A length that is not a
  multiple of four is rejected untouched; otherwise it returns the specified length after storing
  exactly the specified bytes, and \<open>-1\<close> exactly when the specification rejects the input, with
  everything past the maximal decoded size left alone.
\<close>

theorem base64_decode_exact:
  assumes "n \<le> length inp" and "hs_base64_decoded_max_length (int n) \<le> int (length out)"
  shows "case if n mod 4 = 0 then b64_dec (take n inp) else None of
      Some ys \<Rightarrow> hs_base64_decode inp (int n) out = Some (ys @ drop (length ys) out, int (length ys))
    | None \<Rightarrow> \<exists>o'. hs_base64_decode inp (int n) out = Some (o', -1) \<and> frame 0 (3 * (n div 4)) out o'"
proof (cases "n mod 4 = 0 \<and> 0 < n")
  case False
  then consider "n = 0" | "n mod 4 \<noteq> 0" by auto
  then show ?thesis
  proof cases
    case 2
    then have "int n mod 4 \<noteq> 0" by presburger
    with 2 show ?thesis by (simp add: hs_base64_decode_def)
  qed (simp add: hs_base64_decode_def b64_dec_def)
next
  case True
  then obtain m where n: "n = m + 4" "m mod 4 = 0"
    by (metis quartet_step(1,3) add.commute diff_zero le_add_diff_inverse plus_nat.add_0)
  have out: "3 * (m div 4) + 3 \<le> length out"
  proof -
    have "(int m + 4) div 4 = int (m div 4) + 1" by (simp add: zdiv_int)
    then show ?thesis using assms(2) n by (simp add: hs_base64_decoded_max_length_def)
  qed
  have spec: "b64_dec (take n inp) = do {
      xs \<leftarrow> b64_body (span_at 0 m inp); ys \<leftarrow> b64_last (span_at m 4 inp); Some (xs @ ys) }"
    using assms(1) n by (auto simp: b64_dec_def span_at_def drop_take)
  have n4: "n div 4 = m div 4 + 1" "n mod 4 = 0" unfolding n(1) using n(2) by simp_all
  have body: "body_ok inp 0 m out 0 (dec_body inp m 0 out 0) (Pair m)"
    using assms(1) n out by (intro dec_body_ok) simp_all
  have dec: "hs_base64_decode inp (int n) out = do {
      (out, r) \<leftarrow> dec_body inp m 0 out 0;
      (case r of None \<Rightarrow> Some (out, -1) | Some (i, j) \<Rightarrow> dec_tail inp i out j) }"
    using hs_base64_decode_unfold [of n inp out] True n by simp
  show ?thesis
  proof (cases "b64_body (span_at 0 m inp)")
    case None
    then obtain o' where "dec_body inp m 0 out 0 = Some (o', None)" "frame 0 (3 * (m div 4)) out o'"
      using body by (auto simp: body_ok_def)
    with None show ?thesis
      by (simp add: dec spec n4 frame_widen)
  next
    case (Some xs)
    then obtain o1 where o1: "store_block out 0 xs = Some o1" "dec_body inp m 0 out 0 = Some (o1, Some (m, length xs))"
      using body by (auto simp: body_ok_def)
    have "4 * length xs = 3 * m"
      using b64_body_length [OF Some] assms(1) n by (simp add: span_at_length)
    then have xs: "length xs = 3 * (m div 4)" using n(2) by presburger
    have len: "length xs + 3 \<le> length o1" using store_block_length [OF o1(1)] out xs by simp
    have tail: "dec_tail inp m o1 (length xs) = (case b64_last (span_at m 4 inp) of
      Some ys \<Rightarrow> map_option (\<lambda>o'. (o', int (length xs + length ys))) (store_block o1 (length xs) ys)
    | None \<Rightarrow> Some (o1, -1))"
      using assms(1) n len by (intro dec_tail_ok) simp_all
    show ?thesis
    proof (cases "b64_last (span_at m 4 inp)")
      case None
      then show ?thesis
        using Some o1 tail store_block_frame [OF o1(1)] xs
        by (simp add: dec spec n4 frame_widen)
    next
      case last: (Some ys)
      then have ys: "length ys \<le> 3"
        using assms(1) n by (auto simp: span_at_4 b64_bytes_def split: if_splits bind_splits)
      then have "store_block out 0 (xs @ ys) = Some ((xs @ ys) @ drop (length (xs @ ys)) out)"
        using out xs by (subst store_block_at_0) simp
      then have "store_block o1 (length xs) ys = Some ((xs @ ys) @ drop (length (xs @ ys)) out)"
        by (simp add: store_block_append o1)
      then show ?thesis
        using Some o1 tail last by (simp add: dec spec n4)
    qed
  qed
qed

subsection \<open>Decoding inverts encoding\<close>

lemma b64_digit_alphabet: "unat g < 64 \<Longrightarrow> b64_digit (b64_alphabet ! unat g) = Some g" for g :: u8
proof -
  have "unat g < 64 \<longrightarrow> b64_digit (b64_alphabet ! unat g) = Some g"
    by (rule all_bytes [of _ g]; code_simp)
  then show "unat g < 64 \<Longrightarrow> b64_digit (b64_alphabet ! unat g) = Some g" by simp
qed

lemma b64_digits_of_groups:
  "b64_groups x y z = [a, b, c, d] \<Longrightarrow>
     b64_digit (b64_alphabet ! unat a) = Some a \<and> b64_digit (b64_alphabet ! unat b) = Some b \<and>
     b64_digit (b64_alphabet ! unat c) = Some c \<and> b64_digit (b64_alphabet ! unat d) = Some d"
  using b64_groups_small [of _ x y z] b64_digit_alphabet by simp

lemma b64_bytes_groups:
  "b64_bytes (drop_bit 2 x) (push_bit 4 (x AND 3) OR drop_bit 4 y) (push_bit 2 (y AND 15) OR drop_bit 6 z) (z AND 63) = [x, y, z]"
proof -
  have "push_bit 2 (drop_bit 2 x) OR drop_bit 4 (push_bit 4 (x AND 3) OR drop_bit 4 y) = x"
    "push_bit 4 (push_bit 4 (x AND 3) OR drop_bit 4 y) OR drop_bit 2 (push_bit 2 (y AND 15) OR drop_bit 6 z) = y"
    "push_bit 6 (push_bit 2 (y AND 15) OR drop_bit 6 z) OR (z AND 63) = z"
    by (rule byte_eq8; simp only: bits_only; simp add: u8_bit_high)+
  then show ?thesis unfolding b64_bytes_def by simp
qed

lemma b64_groups_bytes:
  assumes "b64_groups x y z = [a, b, c, d]"
  shows "b64_bytes a b c d = [x, y, z]"
  using assms b64_bytes_groups [of x y z] unfolding b64_groups_def by blast

lemma b64_groups_obtain:
  obtains a b c d where "b64_groups x y z = [a, b, c, d]"
  by (simp add: b64_groups_def)

lemma b64_body_enc: "length xs mod 3 = 0 \<Longrightarrow> b64_body (b64_enc xs) = Some xs"
proof (induction xs rule: b64_enc.induct)
  case (4 x y z xs)
  then have ih: "b64_body (b64_enc xs) = Some xs" by (simp add: mod_Suc split: if_splits)
  obtain a b c d where g: "b64_groups x y z = [a, b, c, d]" by (rule b64_groups_obtain)
  show ?case
    using ih b64_digits_of_groups [OF g] b64_groups_bytes [OF g] by (simp add: b64_quartet_groups g)
qed simp_all

lemma b64_char_not_pad: "unat (g :: u8) < 64 \<Longrightarrow> b64_alphabet ! unat g \<noteq> 0x3D"
  using b64_digit_alphabet [of g] by force

lemma b64_last_enc:
  assumes "xs \<noteq> []" and "length xs \<le> 3"
  shows "b64_last (b64_enc xs) = Some xs"
proof -
  have zero: "push_bit 6 (0 :: u8) = 0" by simp
  consider x where "xs = [x]" | x y where "xs = [x, y]" | x y z where "xs = [x, y, z]"
    using assms by (cases xs rule: b64_enc.cases) auto
  then show ?thesis
  proof cases
    case 1
    obtain a b c d where g: "b64_groups x 0 0 = [a, b, c, d]" by (rule b64_groups_obtain)
    have "c = 0" "d = 0" using g by (simp_all add: b64_groups_def)
    then show ?thesis
      using 1 b64_digits_of_groups [OF g] b64_groups_bytes [OF g] by (simp add: b64_quartet_groups g)
  next
    case 2
    obtain a b c d where g: "b64_groups x y 0 = [a, b, c, d]" by (rule b64_groups_obtain)
    have "d = 0" using g by (simp add: b64_groups_def)
    moreover have "b64_alphabet ! unat c \<noteq> 0x3D" using b64_digits_of_groups [OF g] by force
    ultimately show ?thesis
      using 2 b64_digits_of_groups [OF g] b64_groups_bytes [OF g]
      by (simp add: b64_quartet_groups g eval_nat_numeral)
  next
    case 3
    obtain a b c d where g: "b64_groups x y z = [a, b, c, d]" by (rule b64_groups_obtain)
    moreover have "b64_alphabet ! unat c \<noteq> 0x3D" "b64_alphabet ! unat d \<noteq> 0x3D"
      using b64_digits_of_groups [OF g] by force+
    ultimately show ?thesis
      using 3 b64_digits_of_groups [OF g] b64_groups_bytes [OF g] by (simp add: b64_quartet_groups g)
  qed
qed

lemma b64_dec_enc: "b64_dec (b64_enc xs) = Some xs"
proof (cases "xs = []")
  case False
  define k where "k = 3 * ((length xs - 1) div 3)"
  have k: "k < length xs" "length xs \<le> k + 3" "k mod 3 = 0"
  proof -
    obtain m where m: "length xs = Suc m" using False by (cases xs) auto
    have "3 * (m div 3) < Suc m" "Suc m \<le> 3 * (m div 3) + 3" by presburger+
    then show "k < length xs" "length xs \<le> k + 3" "k mod 3 = 0" by (simp_all add: k_def m)
  qed
  let ?b = "take k xs" and ?l = "drop k xs"
  have b: "length ?b mod 3 = 0" and l: "?l \<noteq> []" "length ?l \<le> 3" using k by simp_all
  have enc: "b64_enc xs = b64_enc ?b @ b64_enc ?l"
    using b64_enc_append [OF b, of ?l] by simp
  have len: "length (b64_enc ?l) = 4"
    using l by (cases ?l rule: b64_enc.cases) auto
  have join: "b64_dec (body @ last) = Some (xs1 @ xs2)"
    if "b64_body body = Some xs1" "b64_last last = Some xs2" "length last = 4" for body last xs1 xs2
    using that by (cases last) (simp_all add: b64_dec_def)
  have "b64_dec (b64_enc ?b @ b64_enc ?l) = Some (?b @ ?l)"
    by (rule join [OF b64_body_enc [OF b] b64_last_enc [OF l] len])
  then show ?thesis unfolding enc append_take_drop_id .
qed (simp add: b64_dec_def)

text \<open>
  C14: Round trip.  Encoding \<open>n\<close> bytes into a buffer of the advertised encoded length succeeds and
  returns that length; decoding what was written gives back the \<open>n\<close> bytes and their number, and
  leaves the rest of the destination alone.
\<close>

theorem base64_roundtrip:
  assumes "n \<le> length inp" and "int n \<le> B64_MAX_ENCODE_INPUT"
    and "hs_base64_encoded_length (int n) \<le> int (length mid)"
    and "hs_base64_decoded_max_length (hs_base64_encoded_length (int n)) \<le> int (length out)"
  shows "\<exists>mid'. hs_base64_encode inp (int n) mid = Some (mid', hs_base64_encoded_length (int n)) \<and>
    hs_base64_decode mid' (hs_base64_encoded_length (int n)) out =
      Some (take n inp @ drop n out, int n)"
proof -
  define e where "e = b64_enc (take n inp)"
  have l: "hs_base64_encoded_length (int n) = int (length e)"
    using assms(1,2) by (simp add: hs_base64_encoded_length_def e_def b64_enc_length min_def zdiv_int)
  let ?mid = "e @ drop (length e) mid"
  have enc: "hs_base64_encode inp (int n) mid = Some (?mid, int (length e))"
    using base64_encode_exact [OF assms(1,2), of mid] assms(3)
    by (simp add: l e_def [symmetric] store_block_in)
  have "length e mod 4 = 0" "b64_dec (take (length e) ?mid) = Some (take n inp)"
    by (simp_all add: e_def b64_enc_length b64_dec_enc)
  then have "hs_base64_decode ?mid (int (length e)) out = Some (take n inp @ drop n out, int n)"
    using base64_decode_exact [of "length e" ?mid out] assms(1,4) by (simp add: l min_def)
  with enc show ?thesis by (simp add: l)
qed

text \<open>The encoder writes exactly the RFC 4648 encoding at the start of the output, returns the
  advertised length, and leaves the rest of the output alone; it reads nothing past its input, and
  faults exactly when the output is shorter than the encoding.
\<close>

theorem base64_encode_correct:
  assumes "n \<le> length inp" and "int n \<le> B64_MAX_ENCODE_INPUT"
  shows "hs_base64_encode inp (int n) out =
    (if 4 * ((n + 2) div 3) \<le> length out
     then Some (b64_enc (take n inp) @ drop (4 * ((n + 2) div 3)) out, int (4 * ((n + 2) div 3)))
     else None)"
proof -
  have l: "hs_base64_encoded_length (int n) = int (4 * ((n + 2) div 3))"
    using assms by (simp add: hs_base64_encoded_length_def zdiv_int)
  have e: "length (b64_enc (take n inp)) = 4 * ((n + 2) div 3)"
    using assms(1) by (simp add: b64_enc_length min_def)
  then show ?thesis
    unfolding base64_encode_exact [OF assms] l by (auto simp: store_block_def)
qed

text \<open>Witnesses.\<close>

lemma base64_encode_correct_witness:
  "hs_base64_encode [77, 97, 110, 33] 4 [0, 0, 0, 0, 0, 0, 0, 0, 9] =
     Some ([84, 87, 70, 117, 73, 81, 61, 61, 9], 8)"
proof -
  have "b64_enc [77, 97, 110, 33] = [84, 87, 70, 117, 73, 81, 61, 61]"
    by (simp add: b64_quartet_groups b64_groups_def b64_alphabet_def)
  then show ?thesis
    using base64_encode_correct [of 4 "[77, 97, 110, 33]" "[0, 0, 0, 0, 0, 0, 0, 0, 9]"]
    by (simp add: B64_MAX_ENCODE_INPUT_def INT_MAX_def)
qed

lemma base64_decode_exact_witness:
  "hs_base64_decode [84, 87, 70, 117, 73, 81, 61, 61] 8 [0, 0, 0, 0, 0, 0, 9] =
     Some ([77, 97, 110, 33, 0, 0, 9], 4)"
proof -
  have "b64_dec [84, 87, 70, 117, 73, 81, 61, 61] = Some [77, 97, 110, 33]" by code_simp
  then show ?thesis
    using base64_decode_exact [of 8 "[84, 87, 70, 117, 73, 81, 61, 61]" "[0, 0, 0, 0, 0, 0, 9]"]
    by (simp add: hs_base64_decoded_max_length_def)
qed

lemma base64_roundtrip_witness:
  "\<exists>mid'. hs_base64_encode [1, 2, 3, 4] 4 [0, 0, 0, 0, 0, 0, 0, 0] = Some (mid', 8) \<and>
     hs_base64_decode mid' 8 [9, 9, 9, 9, 9, 9] = Some ([1, 2, 3, 4, 9, 9], 4)"
  using base64_roundtrip [of 4 "[1, 2, 3, 4]" "[0, 0, 0, 0, 0, 0, 0, 0]" "[9, 9, 9, 9, 9, 9]"]
  by (simp add: B64_MAX_ENCODE_INPUT_def INT_MAX_def hs_base64_encoded_length_def
      hs_base64_decoded_max_length_def)

end
