(* ===== verification/Lzo.thy ===== *)
theory Lzo
  imports Endian
begin

text \<open>
  \<open>wireform-columnar-core/cbits/lzo.c\<close>: the raw LZO1X codec of the Parquet pages.

  Offsets and lengths are \<open>size_t\<close> values that the code keeps within the extents of the buffers, so
  they are natural numbers here; the one sum that could wrap (\<open>length_extension\<close>) is checked against
  \<open>SIZE_MAX\<close> as in the code.  \<open>dst = None\<close> is the \<open>NULL\<close> destination of the measuring pass, and
  \<open>written = None\<close> a \<open>NULL\<close> result pointer.
\<close>

datatype lzo_rc = LZO_OK | LZO_INPUT | LZO_OUTPUT | LZO_HISTORY | LZO_END | LZO_OVERFLOW

definition SIZE_MAX :: nat where "SIZE_MAX = 2 ^ 64 - 1"
definition UINT32_MAX :: nat where "UINT32_MAX = 2 ^ 32 - 1"

subsection \<open>Copies\<close>

text \<open>A source pointer is an offset into the input or into the output written so far.\<close>

datatype region = SRC | DST

definition read_region :: "bytes \<Rightarrow> bytes \<Rightarrow> region \<Rightarrow> nat \<Rightarrow> nat \<Rightarrow> bytes option" where
  "read_region src dst r from n = load_block (case r of SRC \<Rightarrow> src | DST \<Rightarrow> dst) from n"

text \<open>\<open>memcpy\<close> is undefined on overlapping ranges.\<close>

definition lzo_memcpy :: "bytes \<Rightarrow> bytes \<Rightarrow> nat \<Rightarrow> region \<Rightarrow> nat \<Rightarrow> nat \<Rightarrow> bytes option" where
  "lzo_memcpy src dst to r from len =
     (if r = DST \<and> from < to + len \<and> to < from + len then None
      else do { bs \<leftarrow> read_region src dst r from len; store_block dst to bs })"

definition copy_disjoint :: "bytes \<Rightarrow> bytes \<Rightarrow> nat \<Rightarrow> region \<Rightarrow> nat \<Rightarrow> nat \<Rightarrow> bytes option" where
  "copy_disjoint src dst to r from len =
     (if 16 < len then lzo_memcpy src dst to r from len
      else if 8 \<le> len then do {
        head \<leftarrow> read_region src dst r from 8;
        tail \<leftarrow> read_region src dst r (from + len - 8) 8;
        dst \<leftarrow> store_block dst to head;
        store_block dst (to + len - 8) tail
      }
      else if 4 \<le> len then do {
        head \<leftarrow> read_region src dst r from 4;
        tail \<leftarrow> read_region src dst r (from + len - 4) 4;
        dst \<leftarrow> store_block dst to head;
        store_block dst (to + len - 4) tail
      }
      else if 2 \<le> len then do {
        head \<leftarrow> read_region src dst r from 2;
        dst \<leftarrow> store_block dst to head;
        last \<leftarrow> read_region src dst r (from + len - 1) 1;
        store_block dst (to + len - 1) last
      }
      else if len \<noteq> 0 then do {
        b \<leftarrow> read_region src dst r from 1;
        store_block dst to b
      }
      else Some dst)"

text \<open>The three ways to repeat history: one byte, doubling a period, byte by byte.\<close>

partial_function (option) double_period :: "bytes \<Rightarrow> bytes \<Rightarrow> nat \<Rightarrow> nat \<Rightarrow> nat \<Rightarrow> bytes option" where
  "double_period src dst to len copied =
     (if copied < len then do {
        let chunk = len - copied;
        let chunk = (if copied < chunk then copied else chunk);
        dst \<leftarrow> copy_disjoint src dst (to + copied) DST to chunk;
        double_period src dst to len (copied + chunk)
      }
      else Some dst)"

function byte_copy :: "bytes \<Rightarrow> nat \<Rightarrow> nat \<Rightarrow> nat \<Rightarrow> nat \<Rightarrow> bytes option" where
  "byte_copy dst to from j len =
     (if j < len then do {
        b \<leftarrow> load dst (from + j);
        dst \<leftarrow> store dst (to + j) b;
        byte_copy dst to from (j + 1) len
      }
      else Some dst)"
  by pat_completeness auto
termination
  by (relation "measure (\<lambda>(dst, to, from, j, len). len - j)") auto

declare byte_copy.simps [simp del]

definition copy_match :: "bytes \<Rightarrow> bytes \<Rightarrow> nat \<Rightarrow> nat \<Rightarrow> nat \<Rightarrow> bytes option" where
  "copy_match src dst op dist len =
     (let from = op - dist
      in if len \<le> dist then copy_disjoint src dst op DST from len
         else if dist = 1 then do {
           b \<leftarrow> load dst from;
           store_block dst op (replicate len b)
         }
         else if 16 \<le> len then do {
           dst \<leftarrow> copy_disjoint src dst op DST from dist;
           double_period src dst op len dist
         }
         else byte_copy dst op from 0 len)"

definition copy_match_out :: "bytes \<Rightarrow> bytes option \<Rightarrow> nat \<Rightarrow> nat \<Rightarrow> nat \<Rightarrow> bytes option option" where
  "copy_match_out src dst op dist len =
     (case dst of None \<Rightarrow> Some None | Some d \<Rightarrow> map_option Some (copy_match src d op dist len))"

subsection \<open>The decoder\<close>

text \<open>\<open>Inl rc\<close> is the \<open>rc\<close> returned, \<open>Inr\<close> carries the updated counters.\<close>

function length_extension :: "bytes \<Rightarrow> nat \<Rightarrow> nat \<Rightarrow> nat \<Rightarrow> (lzo_rc + nat \<times> nat) option" where
  "length_extension src n ip val =
     (if ip = n then Some (Inl LZO_INPUT)
      else do {
        b \<leftarrow> load src ip;
        let add = (if b \<noteq> 0 then unat b else 255);
        if val > SIZE_MAX - add then Some (Inl LZO_OVERFLOW)
        else if b \<noteq> 0 then Some (Inr (ip + 1, val + add))
        else length_extension src n (ip + 1) (val + add)
      })"
  by pat_completeness auto
termination
  by (relation "measure (\<lambda>(src, n, ip, val). length src - ip)") (auto simp: load_Some_iff)

declare length_extension.simps [simp del]

definition literals ::
  "bytes \<Rightarrow> nat \<Rightarrow> nat \<Rightarrow> bytes option \<Rightarrow> nat \<Rightarrow> nat \<Rightarrow> nat \<Rightarrow> (lzo_rc + nat \<times> nat \<times> bytes option) option" where
  "literals src n ip dst cap op len =
     (if len > n - ip then Some (Inl LZO_INPUT)
      else if len > cap - op then Some (Inl LZO_OUTPUT)
      else case dst of
        None \<Rightarrow> Some (Inr (ip + len, op + len, None))
      | Some d \<Rightarrow>
          if len \<noteq> 0 then do {
            d \<leftarrow> copy_disjoint src d op SRC ip len;
            Some (Inr (ip + len, op + len, Some d))
          }
          else Some (Inr (ip + len, op + len, Some d)))"

definition le16 :: "bytes \<Rightarrow> nat \<Rightarrow> nat option" where
  "le16 src p = do {
     a \<leftarrow> load src p;
     b \<leftarrow> load src (p + 1);
     Some (unat ((ucast a :: u32) OR push_bit 8 (ucast b)))
   }"

text \<open>What one instruction asks for, with the input position behind it.\<close>

datatype lzo_inst =
    Match (m_dist: nat) (m_len: nat) (m_next: nat) (m_ip: nat)
  | Literals (l_len: nat) (l_ip: nat)
  | End_Mark (e_len: nat) (e_ip: nat)

definition lzo_inst :: "bytes \<Rightarrow> nat \<Rightarrow> nat \<Rightarrow> nat \<Rightarrow> (lzo_rc + lzo_inst) option" where
  "lzo_inst src n ip state =
     (if ip = n then Some (Inl LZO_INPUT)
      else do {
        inst \<leftarrow> load src ip;
        let inst = unat inst;
        let ip = ip + 1;
        if 64 \<le> inst then
          if ip = n then Some (Inl LZO_INPUT)
          else do {
            b \<leftarrow> load src ip;
            let dist = unat b * 8 + (inst div 4) mod 8 + 1;
            Some (Inr (Match dist (inst div 32 + 1) (inst mod 4) (ip + 1)))
          }
        else if 32 \<le> inst then do {
          let len = inst mod 32 + 2;
          r \<leftarrow> (if len = 2 then length_extension src n ip 33 else Some (Inr (ip, len)));
          (case r of Inl rc \<Rightarrow> Some (Inl rc)
           | Inr (ip, len) \<Rightarrow>
               if n - ip < 2 then Some (Inl LZO_INPUT)
               else do {
                 word \<leftarrow> le16 src ip;
                 Some (Inr (Match (word div 4 + 1) len (word mod 4) (ip + 2)))
               })
        }
        else if 16 \<le> inst then do {
          let len = inst mod 8 + 2;
          r \<leftarrow> (if len = 2 then length_extension src n ip 9 else Some (Inr (ip, len)));
          (case r of Inl rc \<Rightarrow> Some (Inl rc)
           | Inr (ip, len) \<Rightarrow>
               if n - ip < 2 then Some (Inl LZO_INPUT)
               else do {
                 word \<leftarrow> le16 src ip;
                 let dist = (inst div 8) mod 2 * 16384 + word div 4;
                 if dist = 0 then Some (Inr (End_Mark len (ip + 2)))
                 else Some (Inr (Match (dist + 16384) len (word mod 4) (ip + 2)))
               })
        }
        else if state = 0 then do {
          r \<leftarrow> (if inst = 0 then length_extension src n ip 18 else Some (Inr (ip, inst + 3)));
          (case r of Inl rc \<Rightarrow> Some (Inl rc) | Inr (ip, len) \<Rightarrow> Some (Inr (Literals len ip)))
        }
        else if ip = n then Some (Inl LZO_INPUT)
        else do {
          b \<leftarrow> load src ip;
          let dist = inst div 4 + unat b * 4 + (if state = 4 then 2049 else 1);
          Some (Inr (Match dist (if state = 4 then 3 else 2) (inst mod 4) (ip + 1)))
        }
      })"

text \<open>The decoder's variables, and one turn of its loop: \<open>Inl (rc, op, dst)\<close> leaves the function.\<close>

record lzo_dec =
  d_ip :: nat
  d_op :: nat
  d_state :: nat
  d_dst :: "bytes option"

definition lzo_step ::
  "bytes \<Rightarrow> nat \<Rightarrow> nat \<Rightarrow> lzo_dec \<Rightarrow> (lzo_rc \<times> nat \<times> bytes option + lzo_dec) option" where
  "lzo_step src n cap s = do {
     let fail = (\<lambda>rc. Some (Inl (rc, d_op s, d_dst s)));
     i \<leftarrow> lzo_inst src n (d_ip s) (d_state s);
     (case i of
        Inl rc \<Rightarrow> fail rc
      | Inr (End_Mark len ip) \<Rightarrow> fail (if len = 3 \<and> ip = n then LZO_OK else LZO_END)
      | Inr (Literals len ip) \<Rightarrow> do {
          r \<leftarrow> literals src n ip (d_dst s) cap (d_op s) len;
          (case r of
             Inl rc \<Rightarrow> fail rc
           | Inr (ip, op, dst) \<Rightarrow> Some (Inr \<lparr>d_ip = ip, d_op = op, d_state = 4, d_dst = dst\<rparr>))
        }
      | Inr (Match dist len nxt ip) \<Rightarrow>
          if dist > d_op s then fail LZO_HISTORY
          else if len > cap - d_op s then fail LZO_OUTPUT
          else do {
            dst \<leftarrow> copy_match_out src (d_dst s) (d_op s) dist len;
            let op = d_op s + len;
            if nxt \<noteq> 0 then do {
              r \<leftarrow> literals src n ip dst cap op nxt;
              (case r of
                 Inl rc \<Rightarrow> Some (Inl (rc, op, dst))
               | Inr (ip, op, dst) \<Rightarrow> Some (Inr \<lparr>d_ip = ip, d_op = op, d_state = nxt, d_dst = dst\<rparr>))
            }
            else Some (Inr \<lparr>d_ip = ip, d_op = op, d_state = nxt, d_dst = dst\<rparr>)
          })
   }"

text \<open>Every instruction consumes input.\<close>

lemma length_extension_ip: "length_extension src n ip v = Some (Inr (ip', len)) \<Longrightarrow> ip < ip' \<and> ip < length src"
proof (induction src n ip v rule: length_extension.induct)
  case (1 src n ip v)
  show ?case
  proof (cases "load src ip")
    case (Some b)
    then have "ip < length src" by (simp add: load_Some_iff)
    then show ?thesis
      using 1 Some by (auto simp: length_extension.simps [of src n ip] Let_def split: if_splits)
  qed (use 1 in \<open>auto simp: length_extension.simps [of src n ip] split: if_splits\<close>)
qed

fun inst_ip :: "lzo_inst \<Rightarrow> nat" where
  "inst_ip (Match dist len nxt ip) = ip"
| "inst_ip (Literals len ip) = ip"
| "inst_ip (End_Mark len ip) = ip"

lemma lzo_inst_ip:
  assumes "lzo_inst src n ip state = Some (Inr i)"
  shows "ip < inst_ip i \<and> ip < length src"
  using assms
  by (auto simp: lzo_inst_def Let_def load_Some_iff le16_def
      split: if_splits bind_splits sum.splits dest!: length_extension_ip)

lemma literals_ip: "literals src n ip dst cap op len = Some (Inr (ip', op', dst')) \<Longrightarrow> ip' = ip + len \<and> op' = op + len"
  by (auto simp: literals_def split: if_splits option.splits bind_splits)

lemma lzo_step_ip:
  assumes "lzo_step src n cap s = Some (Inr s')"
  shows "d_ip s < d_ip s' \<and> d_ip s < length src"
proof -
  obtain i where i: "lzo_inst src n (d_ip s) (d_state s) = Some (Inr i)"
    using assms by (auto simp: lzo_step_def Let_def split: bind_splits sum.splits)
  note ip = lzo_inst_ip [OF i]
  show ?thesis
  proof (cases i)
    case (Match dist len nxt ip')
    then show ?thesis
      using assms ip i by (auto simp: lzo_step_def Let_def split: bind_splits sum.splits if_splits dest!: literals_ip)
  next
    case (Literals len ip')
    then show ?thesis
      using assms ip i by (auto simp: lzo_step_def Let_def split: bind_splits sum.splits dest!: literals_ip)
  next
    case (End_Mark len ip')
    then show ?thesis using assms i by (simp add: lzo_step_def Let_def)
  qed
qed

function lzo_loop :: "bytes \<Rightarrow> nat \<Rightarrow> nat \<Rightarrow> lzo_dec \<Rightarrow> (lzo_rc \<times> nat \<times> bytes option) option" where
  "lzo_loop src n cap s = do {
     r \<leftarrow> lzo_step src n cap s;
     (case r of Inl res \<Rightarrow> Some res | Inr s' \<Rightarrow> lzo_loop src n cap s')
   }"
  by pat_completeness auto
termination
  by (relation "measure (\<lambda>(src, n, cap, s). length src - d_ip s)") (auto dest!: lzo_step_ip)

declare lzo_loop.simps [simp del]

definition decode_lzo1x ::
  "bytes \<Rightarrow> nat \<Rightarrow> bytes option \<Rightarrow> nat \<Rightarrow> nat option \<Rightarrow> (lzo_rc \<times> nat option \<times> bytes option) option" where
  "decode_lzo1x src n dst cap written =
     (if written = None then Some (LZO_OUTPUT, None, dst)
      else if n < 3 then Some (LZO_INPUT, Some 0, dst)
      else do {
        b \<leftarrow> load src 0;
        r \<leftarrow> (if 17 < unat b then do {
               let len = unat b - 17;
               r \<leftarrow> literals src n 1 dst cap 0 len;
               (case r of
                  Inl rc \<Rightarrow> Some (Inl (rc, 0, dst))
                | Inr (ip, op, dst) \<Rightarrow>
                    Some (Inr \<lparr>d_ip = ip, d_op = op, d_state = (if len < 4 then len else 4), d_dst = dst\<rparr>))
             }
             else Some (Inr \<lparr>d_ip = 0, d_op = 0, d_state = 0, d_dst = dst\<rparr>));
        (rc, op, dst) \<leftarrow> (case r of Inl res \<Rightarrow> Some res | Inr s \<Rightarrow> lzo_loop src n cap s);
        Some (rc, Some op, dst)
      })"

definition hs_columnar_lzo1x_measure ::
  "bytes \<Rightarrow> nat \<Rightarrow> nat \<Rightarrow> nat option \<Rightarrow> (lzo_rc \<times> nat option) option" where
  "hs_columnar_lzo1x_measure src n limit written = do {
     (rc, w, dst) \<leftarrow> decode_lzo1x src n None limit written;
     Some (rc, w)
   }"

definition hs_columnar_lzo1x_decompress ::
  "bytes \<Rightarrow> nat \<Rightarrow> bytes option \<Rightarrow> nat \<Rightarrow> nat option \<Rightarrow> (lzo_rc \<times> nat option \<times> bytes option) option" where
  "hs_columnar_lzo1x_decompress src n dst cap written =
     (if dst = None \<and> cap \<noteq> 0 then Some (LZO_OUTPUT, map_option (\<lambda>_. 0) written, None)
      else decode_lzo1x src n dst cap written)"

subsection \<open>The compressor\<close>

definition literal_hash :: "bytes \<Rightarrow> nat \<Rightarrow> u32 option" where
  "literal_hash src p = do {
     key \<leftarrow> load_le 4 src p;
     high \<leftarrow> load_le 4 src (p + 4);
     let key = (key XOR high * 0x9e3779b1 :: u32);
     Some (drop_bit 18 (key * 0x1e35a7bd))
   }"

function put_extension :: "bytes \<Rightarrow> nat \<Rightarrow> nat \<Rightarrow> (bytes \<times> nat) option" where
  "put_extension dst op val =
     (if 255 < val then do {
        dst \<leftarrow> store dst op 0;
        put_extension dst (op + 1) (val - 255)
      }
      else do {
        dst \<leftarrow> store dst op (of_nat val);
        Some (dst, op + 1)
      })"
  by pat_completeness auto
termination
  by (relation "measure (\<lambda>(dst, op, val). val)") auto

declare put_extension.simps [simp del]

text \<open>\<open>last_word = None\<close> is the code's \<open>SIZE_MAX\<close>.\<close>

definition put_literals ::
  "bytes \<Rightarrow> nat \<Rightarrow> nat \<Rightarrow> bytes \<Rightarrow> nat \<Rightarrow> nat option \<Rightarrow> (bytes \<times> nat) option" where
  "put_literals src start len dst op last_word =
     (if len = 0 then Some (dst, op)
      else do {
        (dst, op) \<leftarrow>
          (if last_word \<noteq> None \<and> len \<le> 3 then do {
             b \<leftarrow> load dst (the last_word);
             dst \<leftarrow> store dst (the last_word) (b OR of_nat len);
             Some (dst, op)
           }
           else if op = 0 \<and> len \<le> 238 then do {
             dst \<leftarrow> store dst op (of_nat (17 + len));
             Some (dst, op + 1)
           }
           else if len \<le> 18 then do {
             dst \<leftarrow> store dst op (of_nat (len - 3));
             Some (dst, op + 1)
           }
           else do {
             dst \<leftarrow> store dst op 0;
             put_extension dst (op + 1) (len - 18)
           });
        dst \<leftarrow> copy_disjoint src dst op SRC start len;
        Some (dst, op + len)
      })"

function match_words16 :: "bytes \<Rightarrow> nat \<Rightarrow> nat \<Rightarrow> nat \<Rightarrow> nat \<Rightarrow> (nat + nat) option" where
  "match_words16 src a b limit len =
     (if 16 \<le> limit - len then do {
        a0 \<leftarrow> load_le 8 src (a + len);
        a1 \<leftarrow> load_le 8 src (a + len + 8);
        b0 \<leftarrow> load_le 8 src (b + len);
        b1 \<leftarrow> load_le 8 src (b + len + 8);
        let first = (a0 XOR b0 :: u64);
        let second = (a1 XOR b1 :: u64);
        if (first OR second) \<noteq> 0 then
          Some (Inl (len + (if first \<noteq> 0 then builtin_ctz first div 8 else 8 + builtin_ctz second div 8)))
        else match_words16 src a b limit (len + 16)
      }
      else Some (Inr len))"
  by pat_completeness auto
termination
  by (relation "measure (\<lambda>(src, a, b, limit, len). limit - len)") auto

function match_words8 :: "bytes \<Rightarrow> nat \<Rightarrow> nat \<Rightarrow> nat \<Rightarrow> nat \<Rightarrow> (nat + nat) option" where
  "match_words8 src a b limit len =
     (if 8 \<le> limit - len then do {
        x \<leftarrow> load_le 8 src (a + len);
        y \<leftarrow> load_le 8 src (b + len);
        let different = (x XOR y :: u64);
        if different \<noteq> 0 then Some (Inl (len + builtin_ctz different div 8))
        else match_words8 src a b limit (len + 8)
      }
      else Some (Inr len))"
  by pat_completeness auto
termination
  by (relation "measure (\<lambda>(src, a, b, limit, len). limit - len)") auto

function match_bytes :: "bytes \<Rightarrow> nat \<Rightarrow> nat \<Rightarrow> nat \<Rightarrow> nat \<Rightarrow> nat option" where
  "match_bytes src a b limit len =
     (if len < limit then do {
        x \<leftarrow> load src (a + len);
        y \<leftarrow> load src (b + len);
        if x = y then match_bytes src a b limit (len + 1) else Some len
      }
      else Some len)"
  by pat_completeness auto
termination
  by (relation "measure (\<lambda>(src, a, b, limit, len). limit - len)") auto

declare match_words16.simps [simp del] match_words8.simps [simp del] match_bytes.simps [simp del]

definition matching_bytes :: "bytes \<Rightarrow> nat \<Rightarrow> nat \<Rightarrow> nat \<Rightarrow> nat option" where
  "matching_bytes src a b limit = do {
     r \<leftarrow> match_words16 src a b limit 0;
     r \<leftarrow> (case r of Inl k \<Rightarrow> Some (Inl k) | Inr len \<Rightarrow> match_words8 src a b limit len);
     (case r of Inl k \<Rightarrow> Some k | Inr len \<Rightarrow> match_bytes src a b limit len)
   }"

definition hs_columnar_lzo1x_compress_bound :: "nat \<Rightarrow> nat" where
  "hs_columnar_lzo1x_compress_bound n =
     (if UINT32_MAX < n \<or> SIZE_MAX - 67 < n \<or> SIZE_MAX - 67 - n < n div 16 then 0 else n + n div 16 + 67)"

text \<open>The compressor's variables; the dictionary maps a hash to a position plus one.\<close>

record lzo_enc =
  e_dict :: "u32 list"
  e_pos :: nat
  e_start :: nat
  e_attempts :: nat
  e_op :: nat
  e_last :: "nat option"
  e_dst :: bytes

definition dict_put :: "bytes \<Rightarrow> u32 \<Rightarrow> u32 list \<Rightarrow> nat \<Rightarrow> u32 \<Rightarrow> u32 list option" where
  "dict_put src msk dict p val = do {
     h \<leftarrow> literal_hash src p;
     store dict (unat (h AND msk)) val
   }"

text \<open>The match branch: literals, instruction, extension, distance word, dictionary updates.\<close>

definition lzo_emit_match :: "bytes \<Rightarrow> nat \<Rightarrow> u32 \<Rightarrow> nat \<Rightarrow> lzo_enc \<Rightarrow> lzo_enc option" where
  "lzo_emit_match src n msk from s = do {
     let pos = e_pos s;
     let distance = pos - from;
     more \<leftarrow> matching_bytes src (from + 4) (pos + 4) (n - pos - 4);
     let len = 4 + more;
     (dst, op) \<leftarrow> put_literals src (e_start s) (pos - e_start s) (e_dst s) (e_op s) (e_last s);
     (dst, op) \<leftarrow> (if len \<le> 33 then do {
         dst \<leftarrow> store dst op (of_nat (32 + len - 2));
         Some (dst, op + 1)
       }
       else do {
         dst \<leftarrow> store dst op 32;
         put_extension dst (op + 1) (len - 33)
       });
     let word = (push_bit 2 (of_nat (distance - 1)) :: u32);
     let last_word = op;
     dst \<leftarrow> store dst op (ucast word);
     dst \<leftarrow> store dst (op + 1) (ucast (drop_bit 8 word));
     let pos = pos + len;
     dict \<leftarrow> (if 2 \<le> pos \<and> pos - 2 \<le> n - 8 then dict_put src msk (e_dict s) (pos - 2) (of_nat (pos - 1))
              else Some (e_dict s));
     dict \<leftarrow> (if 1 \<le> pos \<and> pos - 1 \<le> n - 8 then dict_put src msk dict (pos - 1) (of_nat pos)
              else Some dict);
     Some \<lparr>e_dict = dict, e_pos = pos, e_start = pos, e_attempts = 32, e_op = op + 2,
       e_last = Some last_word, e_dst = dst\<rparr>
   }"

text \<open>One probe at \<open>pos\<close>; the \<open>size_t\<close> subtraction in the distance test wraps.\<close>

definition lzo_probe :: "bytes \<Rightarrow> nat \<Rightarrow> u32 \<Rightarrow> lzo_enc \<Rightarrow> lzo_enc option" where
  "lzo_probe src n msk s = do {
     let pos = e_pos s;
     hash \<leftarrow> literal_hash src pos;
     let hash = unat (hash AND msk);
     previous \<leftarrow> load (e_dict s) hash;
     dict \<leftarrow> store (e_dict s) hash (of_nat (pos + 1));
     let s = s \<lparr>e_dict := dict\<rparr>;
     let near = previous \<noteq> 0 \<and> (of_nat pos :: u64) - (ucast previous - 1) \<le> 16384;
     same \<leftarrow> (if near then do {
         x \<leftarrow> load_block src (unat previous - 1) 4;
         y \<leftarrow> load_block src pos 4;
         Some (x = y)
       }
       else Some False);
     if same then lzo_emit_match src n msk (unat previous - 1) s
     else Some (s \<lparr>e_pos := pos + e_attempts s div 32, e_attempts := e_attempts s + 1\<rparr>)
   }"

partial_function (option) lzo_compress_loop :: "bytes \<Rightarrow> nat \<Rightarrow> u32 \<Rightarrow> lzo_enc \<Rightarrow> lzo_enc option" where
  "lzo_compress_loop src n msk s =
     (if e_pos s \<le> n - 8 then do {
        s \<leftarrow> lzo_probe src n msk s;
        lzo_compress_loop src n msk s
      }
      else Some s)"

definition hs_columnar_lzo1x_compress ::
  "bytes \<Rightarrow> nat \<Rightarrow> bytes \<Rightarrow> nat \<Rightarrow> nat option \<Rightarrow> (lzo_rc \<times> nat option \<times> bytes) option" where
  "hs_columnar_lzo1x_compress src n dst cap written =
     (let bound = hs_columnar_lzo1x_compress_bound n
      in if written = None then Some (LZO_OUTPUT, None, dst)
         else if bound = 0 then Some (LZO_OVERFLOW, Some 0, dst)
         else if cap < bound then Some (LZO_OUTPUT, Some 0, dst)
         else do {
           s \<leftarrow> (if 32 < n then do {
               let entries = (if n \<le> 4096 then 1024 else 8192 :: nat);
               let msk = (of_nat (entries - 1) :: u32);
               dict \<leftarrow> dict_put src msk (replicate entries 0) 0 1;
               lzo_compress_loop src n msk
                 \<lparr>e_dict = dict, e_pos = 1, e_start = 0, e_attempts = 32, e_op = 0, e_last = None, e_dst = dst\<rparr>
             }
             else Some \<lparr>e_dict = [], e_pos = 0, e_start = 0, e_attempts = 32, e_op = 0, e_last = None, e_dst = dst\<rparr>);
           (dst, op) \<leftarrow> put_literals src (e_start s) (n - e_start s) (e_dst s) (e_op s) (e_last s);
           dst \<leftarrow> store dst op 17;
           dst \<leftarrow> store dst (op + 1) 0;
           dst \<leftarrow> store dst (op + 2) 0;
           Some (LZO_OK, Some (op + 3), dst)
         })"

end
