(* ===== verification/Lzo_Copy.thy ===== *)
theory Lzo_Copy
  imports Lzo
begin

text \<open>
  The copy routines of the LZO decoder: \<open>copy_disjoint\<close> with its overlapping head and tail is one
  block copy, and the three ways to repeat history all extend the output by the same bytes as a
  byte-by-byte copy.
\<close>

subsection \<open>Disjoint copies\<close>

lemma overlapping_stores:
  assumes "k \<le> length bs" and "length bs \<le> 2 * k" and "to + length bs \<le> length dst"
  shows "do { d \<leftarrow> store_block dst to (take k bs); store_block d (to + length bs - k) (drop (length bs - k) bs) }
    = store_block dst to bs"
proof -
  let ?m = "length bs - k"
  define d where "d = take to dst @ take k bs @ drop (to + k) dst"
  have d: "store_block dst to (take k bs) = Some d" "length d = length dst"
    using assms by (simp_all add: store_block_in d_def)
  have "store_block d (to + length bs - k) (drop ?m bs) =
      Some (take (to + ?m) d @ drop ?m bs @ drop (to + ?m + k) d)"
    using assms d(2) by (subst store_block_in) auto
  also have "take (to + ?m) d @ drop ?m bs @ drop (to + ?m + k) d = take to dst @ bs @ drop (to + length bs) dst"
  proof -
    have "take (to + ?m) d = take to dst @ take ?m bs" using assms by (simp add: d_def)
    moreover have "drop (to + ?m + k) d = drop (to + length bs) dst" using assms by (simp add: d_def add.commute)
    ultimately show ?thesis by (metis append.assoc append_take_drop_id)
  qed
  also have "Some \<dots> = store_block dst to bs" using assms by (simp add: store_block_in)
  finally show ?thesis using d by simp
qed

definition region_bytes :: "bytes \<Rightarrow> bytes \<Rightarrow> region \<Rightarrow> bytes" where
  "region_bytes src dst r = (case r of SRC \<Rightarrow> src | DST \<Rightarrow> dst)"

lemma read_region_in:
  "i + n \<le> length (region_bytes src dst r) \<Longrightarrow>
     read_region src dst r i n = Some (take n (drop i (region_bytes src dst r)))"
  by (cases r) (simp_all add: read_region_def region_bytes_def load_block_in)

lemma copy_disjoint_eq:
  assumes rd: "from + len \<le> length (region_bytes src dst r)" and wr: "to + len \<le> length dst"
    and disj: "r = DST \<Longrightarrow> from + len \<le> to \<or> to + len \<le> from"
  shows "copy_disjoint src dst to r from len =
    store_block dst to (take len (drop from (region_bytes src dst r)))"
proof -
  define bs where "bs = take len (drop from (region_bytes src dst r))"
  have bs: "length bs = len" using rd by (simp add: bs_def)
  have parts: "read_region src dst r (from + i) k = Some (take k (drop i bs))" if "i + k \<le> len" for i k
    using that rd by (auto simp: read_region_in bs_def drop_take add.commute min_def)
  have head: "read_region src dst r from k = Some (take k bs)" if "k \<le> len" for k
    using parts [of 0 k] that by simp
  have two: "do { h \<leftarrow> read_region src dst r from k; t \<leftarrow> read_region src dst r (from + len - k) k;
      d \<leftarrow> store_block dst to h; store_block d (to + len - k) t } = store_block dst to bs"
    if k: "k \<le> len" "len \<le> 2 * k" for k
  proof -
    have "from + len - k = from + (len - k)" "take k (drop (len - k) bs) = drop (len - k) bs"
      using k bs by simp_all
    then have "read_region src dst r (from + len - k) k = Some (drop (len - k) bs)"
      using parts [of "len - k" k] k by simp
    then show ?thesis using head [OF k(1)] overlapping_stores [of k bs "to" dst] k wr bs by simp
  qed
  show ?thesis
    unfolding bs_def [symmetric]
  proof -
    consider "16 < len" | "8 \<le> len" "len \<le> 16" | "4 \<le> len" "len < 8" | "2 \<le> len" "len < 4" | "len = 1" | "len = 0"
      by linarith
    then show "copy_disjoint src dst to r from len = store_block dst to bs"
    proof cases
      case 1
      then show ?thesis using disj head [of len] bs by (auto simp: copy_disjoint_def lzo_memcpy_def)
    next
      case 2
      then show ?thesis using two [of 8] by (simp add: copy_disjoint_def)
    next
      case 3
      then show ?thesis using two [of 4] by (simp add: copy_disjoint_def)
    next
      case 4
      define d where "d = take to dst @ take 2 bs @ drop (to + 2) dst"
      have d: "store_block dst to (take 2 bs) = Some d" "length d = length dst"
        using 4 wr bs by (simp_all add: store_block_in d_def)
      have last: "read_region src d r (from + len - 1) 1 = Some (drop (len - 1) bs)"
      proof -
        have "read_region src d r (from + len - 1) 1 = read_region src dst r (from + len - 1) 1"
        proof (cases r)
          case DST
          then have out: "from + len - 1 < to \<or> to + 2 \<le> from + len - 1" using disj 4 by auto
          have "from + len \<le> length dst" using rd DST by (simp add: region_bytes_def)
          then have "d ! (from + len - 1) = dst ! (from + len - 1)"
            using out store_block_frame [OF d(1)] 4 bs by (auto simp: frame_def)
          moreover have "take 1 (drop i xs) = [xs ! i]" if "i < length xs" for i and xs :: bytes
            using that by (simp add: Cons_nth_drop_Suc [symmetric])
          ultimately show ?thesis
            using DST 4 d(2) \<open>from + len \<le> length dst\<close> by (simp add: read_region_def load_block_in)
        qed (simp add: read_region_def)
        then show ?thesis using parts [of "len - 1" 1] 4 bs by simp
      qed
      have "store_block d (to + len - 1) (drop (len - 1) bs) = store_block dst to bs"
      proof (cases "len = 2")
        case True
        then have "bs = [bs ! 0, bs ! 1]" using bs by (auto simp: length_Suc_conv numeral_2_eq_2)
        show ?thesis
          using True bs wr unfolding d_def
          by (cases bs; cases "tl bs") (auto simp: store_block_in)
      next
        case False
        then have "len = 3" using 4 by simp
        then show ?thesis
          using bs wr unfolding d_def
          by (cases bs; cases "tl bs"; cases "tl (tl bs)") (auto simp: store_block_in eval_nat_numeral)
      qed
      then show ?thesis using 4 head [of 2] d(1) last by (simp add: copy_disjoint_def)
    next
      case 5
      then show ?thesis using head [of 1] bs by (simp add: copy_disjoint_def)
    next
      case 6
      then show ?thesis using bs by (simp add: copy_disjoint_def)
    qed
  qed
qed

subsection \<open>Copies from history\<close>

text \<open>The reference: one byte at a time from \<open>dist\<close> back, so a short distance repeats.\<close>

fun lz_copy :: "bytes \<Rightarrow> nat \<Rightarrow> nat \<Rightarrow> bytes" where
  "lz_copy hist dist 0 = hist"
| "lz_copy hist dist (Suc k) = lz_copy (hist @ [hist ! (length hist - dist)]) dist k"

lemma lz_copy_closed:
  assumes "0 < dist" and "dist \<le> length hist"
  shows "lz_copy hist dist len =
    hist @ map (\<lambda>k. hist ! (length hist - dist + k mod dist)) [0..<len]"
proof -
  have last: "lz_copy hist dist (Suc k) = lz_copy hist dist k @ [lz_copy hist dist k ! (length hist + k - dist)]"
    for hist dist k
  proof (induction k arbitrary: hist)
    case (Suc k)
    show ?case
      using Suc [of "hist @ [hist ! (length hist - dist)]"] by simp
  qed simp
  show ?thesis
  proof (induction len)
    case (Suc len)
    let ?new = "map (\<lambda>k. hist ! (length hist - dist + k mod dist)) [0..<len]"
    have "(hist @ ?new) ! (length hist + len - dist) = hist ! (length hist - dist + len mod dist)"
    proof (cases "len < dist")
      case True
      then have "length hist + len - dist = length hist - dist + len" "length hist - dist + len < length hist"
        using assms by arith+
      then show ?thesis using True by (simp add: nth_append)
    next
      case False
      then obtain i where i: "len = dist + i" by (metis le_Suc_ex not_less)
      then have "length hist + len - dist = length hist + i" by simp
      then have "(hist @ ?new) ! (length hist + len - dist) = ?new ! i" by (simp only: nth_append_length_plus)
      then show ?thesis using i assms by simp
    qed
    then show ?case using Suc by (simp add: last del: lz_copy.simps(2))
  qed simp
qed

lemma lz_copy_length: "length (lz_copy hist dist len) = length hist + len"
  by (induction len arbitrary: hist) simp_all

text \<open>What a match appends.\<close>

definition lz_match :: "bytes \<Rightarrow> nat \<Rightarrow> nat \<Rightarrow> bytes" where
  "lz_match hist dist len = map (\<lambda>k. hist ! (length hist - dist + k mod dist)) [0..<len]"

lemma lz_match_length [simp]: "length (lz_match hist dist len) = len"
  by (simp add: lz_match_def)

lemma lz_copy_match:
  "0 < dist \<Longrightarrow> dist \<le> length hist \<Longrightarrow> lz_copy hist dist len = hist @ lz_match hist dist len"
  by (simp add: lz_copy_closed lz_match_def)

lemma lz_match_short:
  "c \<le> dist \<Longrightarrow> dist \<le> length hist \<Longrightarrow>
     lz_match hist dist c = take c (drop (length hist - dist) hist)"
  unfolding lz_match_def by (rule nth_equalityI) auto

lemma lz_match_1: "lz_match hist 1 c = replicate c (hist ! (length hist - 1))"
  by (simp add: lz_match_def map_replicate_const)

lemma lz_match_Suc:
  "lz_match hist dist (Suc c) = lz_match hist dist c @ [hist ! (length hist - dist + c mod dist)]"
  by (simp add: lz_match_def)

lemma lz_match_double:
  assumes "dist dvd c" and "m \<le> c"
  shows "lz_match hist dist (c + m) = lz_match hist dist c @ take m (lz_match hist dist c)"
proof -
  have "(c + k) mod dist = k mod dist" for k
    using assms(1) by (auto elim!: dvdE)
  then show ?thesis
    using assms(2) unfolding lz_match_def
    by (intro nth_equalityI) (auto simp: nth_append not_less dest!: le_Suc_ex)
qed

text \<open>Behind the history the output holds the first \<open>c\<close> bytes of the match.\<close>

definition matched :: "bytes \<Rightarrow> nat \<Rightarrow> nat \<Rightarrow> nat \<Rightarrow> bytes" where
  "matched dst op dist c = take op dst @ lz_match (take op dst) dist c @ drop (op + c) dst"

lemma matched_store:
  "op + c \<le> length dst \<Longrightarrow> store_block dst op (lz_match (take op dst) dist c) = Some (matched dst op dist c)"
  by (simp add: matched_def store_block_in)

lemma matched_length: "op + c \<le> length dst \<Longrightarrow> length (matched dst op dist c) = length dst"
  by (simp add: matched_def)

lemma matched_0 [simp]: "matched dst op dist 0 = dst"
  by (simp add: matched_def lz_match_def)

lemma matched_more:
  assumes "op + c + m \<le> length dst"
    and "lz_match (take op dst) dist (c + m) = lz_match (take op dst) dist c @ xs" and "length xs = m"
  shows "store_block (matched dst op dist c) (op + c) xs = Some (matched dst op dist (c + m))"
proof -
  have "Some (matched dst op dist (c + m)) =
      store_block dst op (lz_match (take op dst) dist c @ xs)"
    using assms by (simp add: matched_store [symmetric])
  also have "\<dots> = store_block (matched dst op dist c) (op + c) xs"
    using assms by (simp only: store_block_append) (simp add: matched_store)
  finally show ?thesis by simp
qed

lemma double_period_eq:
  assumes "dist dvd c \<or> c = len" and "0 < c" and "c \<le> len" and "op + len \<le> length dst"
  shows "double_period src (matched dst op dist c) op len c = Some (matched dst op dist len)"
  using assms
proof (induction "len - c" arbitrary: c rule: less_induct)
  case less
  show ?case
  proof (cases "c < len")
    case False
    then show ?thesis using less.prems by (simp add: double_period.simps)
  next
    case True
    define m where "m = (if c < len - c then c else len - c)"
    have m: "0 < m" "m \<le> c" "c + m \<le> len" and dvd: "dist dvd c"
      using True less.prems by (auto simp: m_def)
    let ?d = "matched dst op dist c"
    have "take m (drop op ?d) = take m (lz_match (take op dst) dist c)"
      using m less.prems by (simp add: matched_def)
    then have "copy_disjoint src ?d (op + c) DST op m = Some (matched dst op dist (c + m))"
      using m less.prems lz_match_double [OF dvd m(2)]
      by (subst copy_disjoint_eq) (auto simp: region_bytes_def matched_length intro!: matched_more)
    moreover have "double_period src (matched dst op dist (c + m)) op len (c + m) = Some (matched dst op dist len)"
    proof (rule less.hyps)
      show "dist dvd c + m \<or> c + m = len" using dvd by (auto simp: m_def)
    qed (use m less.prems True in auto)
    ultimately show ?thesis
      using True by (subst double_period.simps) (simp add: m_def Let_def)
  qed
qed

lemma byte_copy_eq:
  assumes "0 < dist" and "dist \<le> op" and "j \<le> len" and "op + len \<le> length dst"
  shows "byte_copy (matched dst op dist j) op (op - dist) j len = Some (matched dst op dist len)"
  using assms
proof (induction "len - j" arbitrary: j)
  case 0
  then show ?case by (simp add: byte_copy.simps)
next
  case (Suc k)
  then have j: "j < len" by simp
  let ?h = "take op dst" and ?d = "matched dst op dist j"
  have "?d ! (op - dist + j) = ?h ! (length ?h - dist + j mod dist)"
  proof (cases "j < dist")
    case True
    then have "op - dist + j < op" using Suc.prems by arith
    moreover have "length ?h = op" using Suc.prems by simp
    ultimately show ?thesis using True Suc.prems by (simp add: matched_def nth_append)
  next
    case False
    then obtain i where i: "j = dist + i" by (metis le_Suc_ex not_less)
    then have "op - dist + j = op + i" using Suc.prems by simp
    then show ?thesis
      using i Suc.prems by (simp add: matched_def nth_append lz_match_def min_def)
  qed
  then have "store ?d (op + j) (?d ! (op - dist + j)) = Some (matched dst op dist (j + 1))"
    using j Suc.prems unfolding store_as_block
    by (intro matched_more) (simp_all add: lz_match_Suc)
  moreover have "load ?d (op - dist + j) = Some (?d ! (op - dist + j))"
    using j Suc.prems by (simp add: load_in matched_length)
  ultimately show ?case
    using j Suc by (subst byte_copy.simps) simp
qed

lemma copy_match_eq:
  assumes "0 < dist" and "dist \<le> op" and "op + len \<le> length dst"
  shows "copy_match src dst op dist len = Some (matched dst op dist len)"
proof -
  have hist: "length (take op dst) = op" using assms by simp
  have direct: "copy_disjoint src dst op DST (op - dist) c = Some (matched dst op dist c)" if "c \<le> dist" "c \<le> len" for c
  proof -
    have "take c (drop (op - dist) dst) = lz_match (take op dst) dist c"
      using that assms by (simp add: lz_match_short drop_take min_absorb1)
    then show ?thesis
      using that assms by (subst copy_disjoint_eq) (auto simp: region_bytes_def matched_store)
  qed
  consider "len \<le> dist" | "dist < len" "dist = 1" | "dist < len" "dist \<noteq> 1" "16 \<le> len" | "dist < len" "dist \<noteq> 1" "len < 16"
    by linarith
  then show ?thesis
  proof cases
    case 1
    then show ?thesis using direct [of len] by (simp add: copy_match_def)
  next
    case 2
    have "dst ! (op - 1) = take op dst ! (op - 1)" using assms by simp
    then show ?thesis
      using 2 assms lz_match_1 [of "take op dst" len] matched_store [of op len dst 1]
      by (simp add: copy_match_def load_in min_def)
  next
    case 3
    then show ?thesis
      using direct [of dist] double_period_eq [of dist dist len op dst src] assms by (simp add: copy_match_def)
  next
    case 4
    then show ?thesis using byte_copy_eq [of dist op 0 len dst] assms by (simp add: copy_match_def)
  qed
qed

end
