(* ===== verification/Lzo_Decode.thy ===== *)
theory Lzo_Decode
  imports Lzo_Copy
begin

text \<open>
  The LZO1X format as a function on byte lists, and the proof that the decoder of \<open>lzo.c\<close> computes
  it, for every input and with and without a destination.
\<close>

subsection \<open>The format\<close>

fun lz_ext :: "nat \<Rightarrow> bytes \<Rightarrow> lzo_rc + nat \<times> bytes" where
  "lz_ext v [] = Inl LZO_INPUT"
| "lz_ext v (b # bs) =
     (if v > SIZE_MAX - (if b \<noteq> 0 then unat b else 255) then Inl LZO_OVERFLOW
      else if b \<noteq> 0 then Inr (v + unat b, bs)
      else lz_ext (v + 255) bs)"

datatype lz_token = Copy nat nat nat | Run nat | Stop nat

text \<open>The length field: in the instruction, or extended when the field is zero.\<close>

definition lz_length :: "nat \<Rightarrow> nat \<Rightarrow> nat \<Rightarrow> bytes \<Rightarrow> lzo_rc + nat \<times> bytes" where
  "lz_length field bias base bs = (if field = 0 then lz_ext base bs else Inr (field + bias, bs))"

fun lz_word :: "bytes \<Rightarrow> (nat \<times> bytes) option" where
  "lz_word (a # b # bs) = Some (unat a + 256 * unat b, bs)"
| "lz_word _ = None"

fun lz_inst :: "nat \<Rightarrow> bytes \<Rightarrow> lzo_rc + lz_token \<times> bytes" where
  "lz_inst st [] = Inl LZO_INPUT"
| "lz_inst st (x # bs) =
     (let i = unat x
      in if 64 \<le> i then
           (case bs of
              [] \<Rightarrow> Inl LZO_INPUT
            | b # bs \<Rightarrow> Inr (Copy (8 * unat b + (i div 4) mod 8 + 1) (i div 32 + 1) (i mod 4), bs))
         else if 32 \<le> i then
           (case lz_length (i mod 32) 2 33 bs of
              Inl rc \<Rightarrow> Inl rc
            | Inr (len, bs) \<Rightarrow>
                (case lz_word bs of
                   None \<Rightarrow> Inl LZO_INPUT
                 | Some (w, bs) \<Rightarrow> Inr (Copy (w div 4 + 1) len (w mod 4), bs)))
         else if 16 \<le> i then
           (case lz_length (i mod 8) 2 9 bs of
              Inl rc \<Rightarrow> Inl rc
            | Inr (len, bs) \<Rightarrow>
                (case lz_word bs of
                   None \<Rightarrow> Inl LZO_INPUT
                 | Some (w, bs) \<Rightarrow>
                     if (i div 8) mod 2 = 0 \<and> w div 4 = 0 then Inr (Stop len, bs)
                     else Inr (Copy ((i div 8) mod 2 * 16384 + w div 4 + 16384) len (w mod 4), bs)))
         else if st = 0 then
           (case lz_length i 3 18 bs of
              Inl rc \<Rightarrow> Inl rc
            | Inr (len, bs) \<Rightarrow> Inr (Run len, bs))
         else
           (case bs of
              [] \<Rightarrow> Inl LZO_INPUT
            | b # bs \<Rightarrow>
                Inr (Copy (i div 4 + 4 * unat b + (if st = 4 then 2049 else 1))
                  (if st = 4 then 3 else 2) (i mod 4), bs)))"

lemma lz_ext_suffix: "lz_ext v bs = Inr (len, r) \<Longrightarrow> suffix r bs \<and> length r < length bs"
  by (induction v bs rule: lz_ext.induct) (auto split: if_splits intro: suffix_ConsI)

lemma lz_length_suffix: "lz_length f b v bs = Inr (len, r) \<Longrightarrow> suffix r bs"
  by (auto simp: lz_length_def split: if_splits dest: lz_ext_suffix)

lemma lz_word_suffix: "lz_word bs = Some (w, r) \<Longrightarrow> suffix r bs"
  by (cases bs rule: lz_word.cases) (auto intro!: suffix_ConsI)

lemma lz_inst_suffix:
  assumes "lz_inst st bs = Inr (t, r)"
  shows "suffix r bs \<and> length r < length bs"
proof (cases bs)
  case (Cons x xs)
  have "suffix r xs"
    using assms unfolding Cons lz_inst.simps Let_def
    by (auto split: if_splits list.splits sum.splits option.splits prod.splits intro: suffix_ConsI
        dest!: lz_length_suffix lz_word_suffix dest: suffix_order.trans)
  then show ?thesis by (auto simp: Cons intro: suffix_ConsI dest: suffix_length_le)
qed (use assms in simp)

function lz_run :: "nat \<Rightarrow> nat \<Rightarrow> bytes \<Rightarrow> bytes \<Rightarrow> lzo_rc \<times> bytes" where
  "lz_run cap st bs out =
     (case lz_inst st bs of
        Inl rc \<Rightarrow> (rc, out)
      | Inr (Stop len, r) \<Rightarrow> (if len = 3 \<and> r = [] then LZO_OK else LZO_END, out)
      | Inr (Run len, r) \<Rightarrow>
          if len > length r then (LZO_INPUT, out)
          else if len > cap - length out then (LZO_OUTPUT, out)
          else lz_run cap 4 (drop len r) (out @ take len r)
      | Inr (Copy dist len nxt, r) \<Rightarrow>
          if dist > length out then (LZO_HISTORY, out)
          else if len > cap - length out then (LZO_OUTPUT, out)
          else if nxt > length r then (LZO_INPUT, lz_copy out dist len)
          else if nxt > cap - length (lz_copy out dist len) then (LZO_OUTPUT, lz_copy out dist len)
          else lz_run cap nxt (drop nxt r) (lz_copy out dist len @ take nxt r))"
  by pat_completeness auto
termination
  by (relation "measure (\<lambda>(cap, st, bs, out). length bs)") (auto dest!: lz_inst_suffix)

declare lz_run.simps [simp del]

definition lz_decode :: "nat \<Rightarrow> bytes \<Rightarrow> lzo_rc \<times> bytes" where
  "lz_decode cap bs =
     (if length bs < 3 then (LZO_INPUT, [])
      else if 17 < unat (hd bs) then
        (let len = unat (hd bs) - 17; r = tl bs
         in if len > length r then (LZO_INPUT, [])
            else if len > cap then (LZO_OUTPUT, [])
            else lz_run cap (min len 4) (drop len r) (take len r))
      else lz_run cap 0 bs [])"

subsection \<open>The decoder of the code follows the format\<close>

text \<open>The input from position \<open>i\<close> on, and the position of a suffix of it.\<close>

definition rest_at :: "bytes \<Rightarrow> nat \<Rightarrow> nat \<Rightarrow> bytes" where
  "rest_at src n i = drop i (take n src)"

lemma rest_at_length: "n \<le> length src \<Longrightarrow> length (rest_at src n i) = n - i"
  by (simp add: rest_at_def)

lemma rest_at_Cons:
  assumes "n \<le> length src" and "i < n"
  shows "rest_at src n i = src ! i # rest_at src n (i + 1)"
proof -
  have "rest_at src n i = take n src ! i # drop (Suc i) (take n src)"
    unfolding rest_at_def using assms by (intro Cons_nth_drop_Suc [symmetric]) simp
  then show ?thesis using assms by (simp add: rest_at_def)
qed

lemma rest_at_Nil: "n \<le> length src \<Longrightarrow> rest_at src n n = []"
  by (simp add: rest_at_def)

lemma drop_rest_at: "drop k (rest_at src n i) = rest_at src n (i + k)"
  by (simp add: rest_at_def add.commute)

lemma take_rest_at: "i + k \<le> n \<Longrightarrow> take k (rest_at src n i) = take k (drop i src)"
  by (simp add: rest_at_def drop_take min_def)

lemma rest_at_suffix:
  assumes "n \<le> length src" and "suffix r (rest_at src n i)" and "i \<le> n"
  shows "r = rest_at src n (n - length r)" and "i \<le> n - length r" and "length r \<le> n"
proof -
  obtain xs where xs: "rest_at src n i = xs @ r" using assms(2) by (auto simp: suffix_def)
  then have l: "length xs + length r = n - i" using rest_at_length [OF assms(1), of i] by simp
  then have "r = rest_at src n (i + length xs)"
    using arg_cong [OF xs, of "drop (length xs)"] by (simp add: drop_rest_at)
  moreover have "i + length xs = n - length r" using l assms(3) by arith
  ultimately show "r = rest_at src n (n - length r)" by simp
  show "i \<le> n - length r" "length r \<le> n" using l assms(3) by arith+
qed

text \<open>Results of the list functions read as results of the code's: positions instead of suffixes.\<close>

fun at_pos :: "nat \<Rightarrow> lzo_rc + nat \<times> bytes \<Rightarrow> lzo_rc + nat \<times> nat" where
  "at_pos n (Inl rc) = Inl rc"
| "at_pos n (Inr (len, r)) = Inr (n - length r, len)"

lemma length_extension_eq:
  assumes "n \<le> length src" and "ip \<le> n"
  shows "length_extension src n ip v = Some (at_pos n (lz_ext v (rest_at src n ip)))"
  using assms
proof (induction "n - ip" arbitrary: ip v)
  case 0
  then have "ip = n" by simp
  then show ?case using 0 by (simp add: length_extension.simps rest_at_Nil)
next
  case (Suc k)
  then have ip: "ip < n" by simp
  then have "load src ip = Some (src ! ip)" using Suc.prems by (simp add: load_in)
  moreover have "rest_at src n ip = src ! ip # rest_at src n (ip + 1)"
    using ip Suc.prems by (intro rest_at_Cons) simp_all
  ultimately show ?case
    using ip Suc.prems Suc.hyps(1) [of "ip + 1" "v + 255"] Suc.hyps(2) rest_at_length [OF Suc.prems(1), of "ip + 1"]
    by (subst length_extension.simps) (simp add: Let_def)
qed

lemma lz_length_eq:
  assumes "n \<le> length src" and "ip \<le> n"
  shows "(if f + b = b then length_extension src n ip v else Some (Inr (ip, f + b))) =
    Some (at_pos n (lz_length f b v (rest_at src n ip)))"
  using assms by (simp add: lz_length_def length_extension_eq rest_at_length)

lemma le16_eq:
  assumes "n \<le> length src" and "ip \<le> n"
  shows "(if n - ip < 2 then lz_word (rest_at src n ip) = None
    else \<exists>w. le16 src ip = Some w \<and> lz_word (rest_at src n ip) = Some (w, rest_at src n (ip + 2)))"
proof (cases "n - ip < 2")
  case True
  then have "length (rest_at src n ip) < 2" using assms by (simp add: rest_at_length)
  then show ?thesis using True by (cases "rest_at src n ip" rule: lz_word.cases) simp_all
next
  case False
  then have ip: "ip < n" "ip + 1 < n" by simp_all
  let ?a = "src ! ip" and ?b = "src ! (ip + 1)"
  have "unat ((ucast ?a :: u32) OR push_bit 8 (ucast ?b)) = unat ?a + 256 * unat ?b"
  proof -
    have "(ucast ?a :: u32) OR push_bit 8 (ucast ?b) = le_word [?a, ?b]" by simp
    also have "\<dots> = of_nat (unat ?a + 256 * unat ?b)" by (subst le_word_nat) simp_all
    finally have "(ucast ?a :: u32) OR push_bit 8 (ucast ?b) = of_nat (unat ?a + 256 * unat ?b)" .
    moreover have "unat ?a + 256 * unat ?b < 65536"
      using unat_u8_less [of ?a] unat_u8_less [of ?b] by linarith
    then have "unat ?a + 256 * unat ?b < 2 ^ LENGTH(32)" by simp
    ultimately show ?thesis by (simp only: unat_of_nat mod_less)
  qed
  then have "le16 src ip = Some (unat ?a + 256 * unat ?b)"
    using assms ip by (simp add: le16_def load_in)
  moreover have "rest_at src n ip = ?a # ?b # rest_at src n (ip + 2)"
    using rest_at_Cons [OF assms(1) ip(1)] rest_at_Cons [OF assms(1) ip(2)] by (simp add: numeral_2_eq_2)
  ultimately show ?thesis using False by simp
qed

fun inst_at :: "nat \<Rightarrow> lzo_rc + lz_token \<times> bytes \<Rightarrow> lzo_rc + lzo_inst" where
  "inst_at n (Inl rc) = Inl rc"
| "inst_at n (Inr (Copy dist len nxt, r)) = Inr (Match dist len nxt (n - length r))"
| "inst_at n (Inr (Run len, r)) = Inr (Literals len (n - length r))"
| "inst_at n (Inr (Stop len, r)) = Inr (End_Mark len (n - length r))"

lemma lz_word_at:
  assumes "n \<le> length src" and "suffix r (rest_at src n ip)" and "ip \<le> n"
  shows "(if n - (n - length r) < 2 then lz_word r = None
    else \<exists>w r'. le16 src (n - length r) = Some w \<and> lz_word r = Some (w, r') \<and> n - length r' = n - length r + 2)"
proof -
  let ?i = "n - length r"
  have r: "r = rest_at src n ?i" using rest_at_suffix [OF assms] by blast
  have "n - length (rest_at src n (?i + 2)) = ?i + 2" if "\<not> n - ?i < 2"
    using that rest_at_length [OF assms(1), of "?i + 2"] by arith
  with le16_eq [OF assms(1), of ?i] show ?thesis
    by (auto simp flip: r)
qed

lemma lzo_inst_eq:
  assumes "n \<le> length src" and "ip \<le> n"
  shows "lzo_inst src n ip st = Some (inst_at n (lz_inst st (rest_at src n ip)))"
proof (cases "ip = n")
  case True
  then show ?thesis using assms by (simp add: lzo_inst_def rest_at_Nil)
next
  case False
  then have ip: "ip < n" using assms by simp
  let ?x = "unat (src ! ip)" and ?bs = "rest_at src n (ip + 1)"
  have cons: "rest_at src n ip = src ! ip # ?bs" and ld: "load src ip = Some (src ! ip)"
    using assms ip by (simp_all add: rest_at_Cons load_in)
  have byte: "(if ip + 1 = n then ?bs = [] else \<exists>b r. load src (ip + 1) = Some b \<and> ?bs = b # r \<and> n - length r = ip + 2)"
    using rest_at_Cons [OF assms(1), of "ip + 1"] rest_at_length [OF assms(1), of "ip + 2"] assms ip
    by (auto simp: load_in rest_at_Nil)
  have len: "(if f + b = b then length_extension src n (ip + 1) v else Some (Inr (ip + 1, f + b))) =
      Some (at_pos n (lz_length f b v ?bs))" for f b v
    using assms ip by (intro lz_length_eq) simp_all
  have word: "(if n - (n - length r) < 2 then lz_word r = None
      else \<exists>w r'. le16 src (n - length r) = Some w \<and> lz_word r = Some (w, r') \<and> n - length r' = n - length r + 2)"
    if "suffix r ?bs" for r
    using lz_word_at [OF assms(1) that] ip by simp
  have ip': "n - length ?bs = ip + 1" using rest_at_length [OF assms(1), of "ip + 1"] ip by simp
  note simps = lzo_inst_def ld cons Let_def ip lz_inst.simps
  consider "64 \<le> ?x" | "32 \<le> ?x" "?x < 64" | "16 \<le> ?x" "?x < 32" | "?x < 16" "st = 0" | "?x < 16" "st \<noteq> 0"
    by linarith
  then show ?thesis
  proof cases
    case 1
    then show ?thesis
      using False byte by (auto simp: simps split: if_splits)
  next
    case 2
    let ?l = "lz_length (?x mod 32) 2 33 ?bs"
    have "lzo_inst src n ip st = do {
        r \<leftarrow> (if ?x mod 32 + 2 = 2 then length_extension src n (ip + 1) 33 else Some (Inr (ip + 1, ?x mod 32 + 2)));
        (case r of Inl rc \<Rightarrow> Some (Inl rc)
         | Inr (ip, len) \<Rightarrow>
             if n - ip < 2 then Some (Inl LZO_INPUT)
             else do { word \<leftarrow> le16 src ip; Some (Inr (Match (word div 4 + 1) len (word mod 4) (ip + 2))) }) }"
      using 2 False by (simp add: simps)
    also have "\<dots> = Some (inst_at n (lz_inst st (rest_at src n ip)))"
    proof (cases ?l)
      case (Inr q)
      then obtain k r where q: "?l = Inr (k, r)" by (cases q) auto
      then show ?thesis
        unfolding len using 2 word [OF lz_length_suffix [OF q]] by (auto simp: cons Let_def split: if_splits)
    next
      case (Inl rc)
      then show ?thesis unfolding len using 2 by (simp add: cons Let_def)
    qed
    finally show ?thesis .
  next
    case 3
    let ?l = "lz_length (?x mod 8) 2 9 ?bs"
    have "lzo_inst src n ip st = do {
        r \<leftarrow> (if ?x mod 8 + 2 = 2 then length_extension src n (ip + 1) 9 else Some (Inr (ip + 1, ?x mod 8 + 2)));
        (case r of Inl rc \<Rightarrow> Some (Inl rc)
         | Inr (ip, len) \<Rightarrow>
             if n - ip < 2 then Some (Inl LZO_INPUT)
             else do { word \<leftarrow> le16 src ip; (let dist = (?x div 8) mod 2 * 16384 + word div 4
                in if dist = 0 then Some (Inr (End_Mark len (ip + 2)))
                   else Some (Inr (Match (dist + 16384) len (word mod 4) (ip + 2)))) }) }"
      using 3 False by (simp add: simps)
    also have "\<dots> = Some (inst_at n (lz_inst st (rest_at src n ip)))"
    proof (cases ?l)
      case (Inr q)
      then obtain k r where q: "?l = Inr (k, r)" by (cases q) auto
      then show ?thesis
        unfolding len using 3 word [OF lz_length_suffix [OF q]] by (auto simp: cons Let_def split: if_splits)
    next
      case (Inl rc)
      then show ?thesis unfolding len using 3 by (simp add: cons Let_def)
    qed
    finally show ?thesis .
  next
    case 4
    let ?l = "lz_length ?x 3 18 ?bs"
    have "lzo_inst src n ip st = do {
        r \<leftarrow> (if ?x + 3 = 3 then length_extension src n (ip + 1) 18 else Some (Inr (ip + 1, ?x + 3)));
        (case r of Inl rc \<Rightarrow> Some (Inl rc) | Inr (ip, len) \<Rightarrow> Some (Inr (Literals len ip))) }"
      using 4 False by (simp add: simps unat_eq_0)
    also have "\<dots> = Some (inst_at n (lz_inst st (rest_at src n ip)))"
      unfolding len using 4 by (cases ?l) (auto simp: cons Let_def)
    finally show ?thesis .
  next
    case 5
    then show ?thesis
      using False byte by (auto simp: simps split: if_splits)
  qed
qed

lemma lz_inst_dist: "lz_inst st bs = Inr (Copy dist len nxt, r) \<Longrightarrow> 0 < dist"
  by (cases bs) (auto simp: Let_def split: if_splits list.splits sum.splits option.splits)

text \<open>The destination after \<open>out\<close> has been produced, if there is one.\<close>

definition out_dst :: "bytes option \<Rightarrow> bytes \<Rightarrow> bytes option" where
  "out_dst dst out = map_option (\<lambda>d. out @ drop (length out) d) dst"

lemma literals_eq:
  assumes "n \<le> length src" and "ip \<le> n" and "length out \<le> cap" and "\<And>d. dst = Some d \<Longrightarrow> cap \<le> length d"
  shows "literals src n ip (out_dst dst out) cap (length out) len = Some
    (if len > n - ip then Inl LZO_INPUT
     else if len > cap - length out then Inl LZO_OUTPUT
     else Inr (ip + len, length out + len, out_dst dst (out @ take len (rest_at src n ip))))"
proof (cases "n - ip < len \<or> cap - length out < len \<or> dst = None")
  case True
  then show ?thesis by (auto simp: literals_def out_dst_def)
next
  case False
  then obtain d where d: "dst = Some d" "cap \<le> length d" using assms(4) by auto
  have l: "length (take len (drop ip src)) = len" using False assms by auto
  have "copy_disjoint src (out @ drop (length out) d) (length out) SRC ip len =
      store_block (out @ drop (length out) d) (length out) (take len (drop ip src))"
    using False assms d by (subst copy_disjoint_eq) (auto simp: region_bytes_def)
  also have "\<dots> = Some (out @ take len (drop ip src) @ drop (length out + len) d)"
    using False assms d l by (subst store_block_in) (auto simp del: length_take simp: add.commute)
  finally show ?thesis
    using False assms d l take_rest_at [of ip len n src]
    by (auto simp: literals_def out_dst_def simp del: length_take)
qed

lemma copy_match_eq_out:
  assumes "0 < dist" and "dist \<le> length out" and "len \<le> cap - length out" and "length out \<le> cap"
    and "\<And>d. dst = Some d \<Longrightarrow> cap \<le> length d"
  shows "copy_match_out src (out_dst dst out) (length out) dist len = Some (out_dst dst (lz_copy out dist len))"
proof (cases dst)
  case (Some d)
  have "matched (out @ drop (length out) d) (length out) dist len = lz_copy out dist len @ drop (length out + len) d"
    using assms(1,2) by (simp add: matched_def lz_copy_match add.commute)
  moreover have "length out + len \<le> length d" using assms(3,4) assms(5) [OF Some] by arith
  ultimately show ?thesis
    using assms(1,2) Some by (simp add: copy_match_out_def out_dst_def copy_match_eq lz_copy_length)
qed (simp add: copy_match_out_def out_dst_def)

lemma lzo_loop_eq:
  assumes "n \<le> length src" and "ip \<le> n" and "length out \<le> cap" and "\<And>d. dst = Some d \<Longrightarrow> cap \<le> length d"
  shows "lzo_loop src n cap \<lparr>d_ip = ip, d_op = length out, d_state = st, d_dst = out_dst dst out\<rparr> =
    (case lz_run cap st (rest_at src n ip) out of (rc, out') \<Rightarrow> Some (rc, length out', out_dst dst out'))"
  using assms(2,3)
proof (induction "n - ip" arbitrary: ip st out rule: less_induct)
  case less
  let ?bs = "rest_at src n ip"
  have inst: "lzo_inst src n ip st = Some (inst_at n (lz_inst st ?bs))"
    using assms(1) less.prems by (intro lzo_inst_eq) simp_all
  show ?case
  proof (cases "lz_inst st ?bs")
    case (Inl rc)
    then show ?thesis
      by (subst lzo_loop.simps, subst lz_run.simps) (simp add: lzo_step_def inst Let_def)
  next
    case (Inr q)
    then obtain t r where q: "lz_inst st ?bs = Inr (t, r)" by (cases q) auto
    note suf = lz_inst_suffix [OF q]
    define i where "i = n - length r"
    have r: "r = rest_at src n i" and i: "ip \<le> i" "i \<le> n"
      using rest_at_suffix [OF assms(1), of r ip] suf less.prems by (simp_all add: i_def)
    have dr: "drop k r = rest_at src n (i + k)" for k
      by (subst r) (rule drop_rest_at)
    have lr: "length r = n - i" using rest_at_length [OF assms(1), of i] r by simp
    have "length r < n - ip" using suf rest_at_length [OF assms(1), of ip] by simp
    then have smaller: "n - (i + k) < n - ip" for k using i less.prems lr by linarith
    show ?thesis
    proof (cases t)
      case (Stop len)
      have inst': "lzo_inst src n ip st = Some (Inr (End_Mark len i))" using inst q Stop by (simp add: i_def)
      have "i = n \<longleftrightarrow> r = []" using lr i by auto
      then show ?thesis
        using q Stop by (subst lzo_loop.simps, subst lz_run.simps)
          (simp add: lzo_step_def inst' Let_def)
    next
      case (Run len)
      have inst': "lzo_inst src n ip st = Some (Inr (Literals len i))" using inst q Run by (simp add: i_def)
      have "literals src n i (out_dst dst out) cap (length out) len = Some
          (if len > n - i then Inl LZO_INPUT
           else if len > cap - length out then Inl LZO_OUTPUT
           else Inr (i + len, length out + len, out_dst dst (out @ take len r)))"
        unfolding r using assms less.prems i by (intro literals_eq) simp_all
      moreover have "lzo_loop src n cap \<lparr>d_ip = i + len, d_op = length (out @ take len r), d_state = 4, d_dst = out_dst dst (out @ take len r)\<rparr> =
          (case lz_run cap 4 (rest_at src n (i + len)) (out @ take len r) of (rc, out') \<Rightarrow> Some (rc, length out', out_dst dst out'))"
        if "len \<le> n - i" "len \<le> cap - length out"
        using that less.prems i smaller lr by (intro less.hyps) auto
      moreover have "length (out @ take len r) = length out + len" if "len \<le> n - i"
        using that lr by simp
      ultimately show ?thesis
        using q Run lr by (subst lzo_loop.simps, subst lz_run.simps)
          (simp add: lzo_step_def inst' Let_def dr)
    next
      case (Copy dist len nxt)
      have inst': "lzo_inst src n ip st = Some (Inr (Match dist len nxt i))" using inst q Copy by (simp add: i_def)
      let ?out = "lz_copy out dist len"
      have dist: "0 < dist" using lz_inst_dist q Copy by simp
      have copy: "copy_match_out src (out_dst dst out) (length out) dist len = Some (out_dst dst ?out)"
        if "dist \<le> length out" "len \<le> cap - length out"
        using copy_match_eq_out [OF dist that less.prems(2) assms(4)] .
      have lits: "literals src n i (out_dst dst ?out) cap (length ?out) nxt = Some
          (if nxt > n - i then Inl LZO_INPUT
           else if nxt > cap - length ?out then Inl LZO_OUTPUT
           else Inr (i + nxt, length ?out + nxt, out_dst dst (?out @ take nxt r)))"
        if "len \<le> cap - length out"
        unfolding r using assms less.prems i that by (intro literals_eq) (simp_all add: lz_copy_length)
      have rec: "lzo_loop src n cap \<lparr>d_ip = i + nxt, d_op = length (?out @ take nxt r), d_state = nxt, d_dst = out_dst dst (?out @ take nxt r)\<rparr> =
          (case lz_run cap nxt (rest_at src n (i + nxt)) (?out @ take nxt r) of (rc, out') \<Rightarrow> Some (rc, length out', out_dst dst out'))"
        if "len \<le> cap - length out" "nxt \<le> n - i" "nxt \<le> cap - length ?out"
        using that less.prems i smaller lr by (intro less.hyps) (auto simp: lz_copy_length)
      show ?thesis
      proof (cases "dist \<le> length out \<and> len \<le> cap - length out")
        case False
        then show ?thesis
          using q Copy by (subst lzo_loop.simps, subst lz_run.simps) (auto simp: lzo_step_def inst' Let_def)
      next
        case True
        have "length (?out @ take nxt r) = length out + len + nxt" if "nxt \<le> n - i"
          using that lr by (simp add: lz_copy_length)
        then show ?thesis
          using q Copy lr True copy lits rec by (subst lzo_loop.simps, subst lz_run.simps)
            (cases "nxt = 0"; auto simp: lzo_step_def inst' Let_def dr r [symmetric] lz_copy_length)
      qed
    qed
  qed
qed

lemma lz_run_bounded: "length out \<le> cap \<Longrightarrow> length (snd (lz_run cap st bs out)) \<le> cap"
proof (induction cap st bs out rule: lz_run.induct)
  case (1 cap st bs out)
  show ?case
  proof (cases "lz_inst st bs")
    case (Inr q)
    then show ?thesis
      using 1 by (cases q; cases "fst q") (auto simp: lz_run.simps [of cap st bs] lz_copy_length)
  qed (use 1 in \<open>simp add: lz_run.simps\<close>)
qed

lemma lz_decode_bounded: "length (snd (lz_decode cap bs)) \<le> cap"
  by (auto simp: lz_decode_def Let_def intro!: lz_run_bounded)

lemma decode_lzo1x_eq:
  assumes "n \<le> length src" and "\<And>d. dst = Some d \<Longrightarrow> cap \<le> length d"
  shows "decode_lzo1x src n dst cap (Some w) =
    (case lz_decode cap (take n src) of (rc, out) \<Rightarrow> Some (rc, Some (length out), out_dst dst out))"
proof (cases "n < 3")
  case True
  then show ?thesis using assms by (cases dst) (simp_all add: decode_lzo1x_def lz_decode_def out_dst_def)
next
  case False
  have none: "out_dst dst [] = dst" by (cases dst) (simp_all add: out_dst_def)
  have ne: "0 < length src" using False assms(1) by linarith
  then have ld: "load src 0 = Some (src ! 0)" by (rule load_in)
  have hd: "hd (take n src) = src ! 0" "tl (take n src) = rest_at src n 1" "take n src = rest_at src n 0"
    using False ne by (auto simp: rest_at_def drop_Suc hd_conv_nth)
  have len: "length (rest_at src n 1) = n - 1" "length (take n src) = n"
    using rest_at_length [OF assms(1), of 1] assms(1) by simp_all
  show ?thesis
  proof (cases "17 < unat (src ! 0)")
    case False
    then show ?thesis
      using \<open>\<not> n < 3\<close> lzo_loop_eq [of n src 0 "[]" cap dst 0] assms
      by (auto simp: decode_lzo1x_def lz_decode_def ld hd(1) len none rest_at_def split: prod.splits)
  next
    case True
    define l where "l = unat (src ! 0) - 17"
    have lits: "literals src n 1 dst cap 0 l = Some
      (if l > n - 1 then Inl LZO_INPUT else if l > cap then Inl LZO_OUTPUT
       else Inr (1 + l, l, out_dst dst (take l (rest_at src n 1))))"
      using literals_eq [of n src 1 "[]" cap dst l] \<open>\<not> n < 3\<close> assms none by simp
    let ?out = "take l (rest_at src n 1)"
    have dec: "decode_lzo1x src n dst cap (Some w) = do {
        (rc, op, dst) \<leftarrow> (if l > n - 1 then Some (LZO_INPUT, 0, dst)
          else if l > cap then Some (LZO_OUTPUT, 0, dst)
          else lzo_loop src n cap \<lparr>d_ip = 1 + l, d_op = l, d_state = min l 4, d_dst = out_dst dst ?out\<rparr>);
        Some (rc, Some op, dst) }"
    proof -
      have "(if l < 4 then l else 4) = min l 4" by simp
      then show ?thesis
        using True \<open>\<not> n < 3\<close> by (simp add: decode_lzo1x_def ld Let_def l_def [symmetric] lits del: One_nat_def)
    qed
    have spec: "lz_decode cap (take n src) = (if l > n - 1 then (LZO_INPUT, []) else if l > cap then (LZO_OUTPUT, [])
        else lz_run cap (min l 4) (rest_at src n (1 + l)) ?out)"
      using True \<open>\<not> n < 3\<close> unfolding lz_decode_def hd(1,2) len Let_def l_def [symmetric] drop_rest_at by simp
    show ?thesis
    proof (cases "l \<le> n - 1 \<and> l \<le> cap")
      case False
      then show ?thesis using none by (auto simp: dec spec)
    next
      case ok: True
      then have tl: "length ?out = l" unfolding length_take len by simp
      have "lzo_loop src n cap \<lparr>d_ip = 1 + l, d_op = length ?out, d_state = min l 4, d_dst = out_dst dst ?out\<rparr> =
        (case lz_run cap (min l 4) (rest_at src n (1 + l)) ?out of
          (rc, out') \<Rightarrow> Some (rc, length out', out_dst dst out'))"
      proof (rule lzo_loop_eq)
        show "length ?out \<le> cap" unfolding tl using ok by simp
      qed (use ok \<open>\<not> n < 3\<close> assms in auto)
      then show ?thesis
        unfolding dec spec tl using ok by (simp split: prod.splits)
    qed
  qed
qed

text \<open>
  C16: The decompressor refines the LZO1X format.  For every input of \<open>n\<close> readable bytes and every
  destination of at least \<open>cap\<close> bytes it never faults; its return code and the bytes it produces are
  those of \<open>lz_decode\<close> (history copied byte by byte, whatever copy routine the code picks), at most
  \<open>cap\<close> of them, and the destination behind them is untouched, on errors too.
\<close>

theorem lzo_decompress_refines:
  assumes "n \<le> length src" and "cap \<le> length dst"
  shows "\<exists>rc out. lz_decode cap (take n src) = (rc, out) \<and> length out \<le> cap \<and>
    hs_columnar_lzo1x_decompress src n (Some dst) cap (Some w) =
      Some (rc, Some (length out), Some (out @ drop (length out) dst))"
  using decode_lzo1x_eq [of n src "Some dst" cap w] lz_decode_bounded [of cap "take n src"] assms
  by (cases "lz_decode cap (take n src)") (simp add: hs_columnar_lzo1x_decompress_def out_dst_def)

text \<open>The measuring pass, which has no destination, returns the code and the size that
  decompression with the same budget returns, for every input.
\<close>

theorem lzo_measure_agrees:
  assumes "n \<le> length src" and "cap \<le> length dst"
  shows "hs_columnar_lzo1x_measure src n cap (Some w) =
    map_option (\<lambda>(rc, written, _). (rc, written)) (hs_columnar_lzo1x_decompress src n (Some dst) cap (Some w'))"
  using decode_lzo1x_eq [of n src "Some dst" cap w'] decode_lzo1x_eq [of n src None cap w] assms
  by (cases "lz_decode cap (take n src)")
    (simp add: hs_columnar_lzo1x_measure_def hs_columnar_lzo1x_decompress_def)

text \<open>Witnesses: one literal, a match that repeats it five times, the end mark; and a match that reaches before the output.\<close>

lemma lzo_decompress_refines_witness:
  "hs_columnar_lzo1x_decompress [18, 97, 35, 0, 0, 17, 0, 0] 8 (Some [1, 2, 3, 4, 5, 6, 7]) 7 (Some 0) =
     Some (LZO_OK, Some 6, Some [97, 97, 97, 97, 97, 97, 7])"
proof -
  have "lz_decode 7 [18, 97, 35, 0, 0, 17, 0, 0] = (LZO_OK, [97, 97, 97, 97, 97, 97])" by code_simp
  then show ?thesis
    using lzo_decompress_refines [of 8 "[18, 97, 35, 0, 0, 17, 0, 0]" 7 "[1, 2, 3, 4, 5, 6, 7]" 0] by simp
qed

lemma lzo_measure_agrees_witness:
  "hs_columnar_lzo1x_measure [18, 97, 35, 4, 0, 17, 0, 0] 8 4 (Some 0) = Some (LZO_HISTORY, Some 1)"
proof -
  have "hs_columnar_lzo1x_decompress [18, 97, 35, 4, 0, 17, 0, 0] 8 (Some [1, 2, 3, 4]) 4 (Some 9) =
      Some (LZO_HISTORY, Some 1, Some [97, 2, 3, 4])"
    by code_simp
  then show ?thesis
    using lzo_measure_agrees [of 8 "[18, 97, 35, 4, 0, 17, 0, 0]" 4 "[1, 2, 3, 4]" 0 9] by simp
qed

end
