(* ===== verification/Lzo_Match.thy ===== *)
theory Lzo_Match
  imports Lzo_Decode
begin

text \<open>
  The pieces of the LZO compressor: what each one writes, and how the format reads it back.
\<close>

subsection \<open>Length extensions\<close>

fun enc_ext :: "nat \<Rightarrow> bytes" where
  "enc_ext v = (if 255 < v then 0 # enc_ext (v - 255) else [of_nat v])"

declare enc_ext.simps [simp del]

lemma enc_ext_length: "0 < v \<Longrightarrow> length (enc_ext v) = (v - 1) div 255 + 1"
proof (induction v rule: enc_ext.induct)
  case (1 v)
  show ?case
  proof (cases "255 < v")
    case True
    then have "(v - 1) div 255 = (v - 255 - 1) div 255 + 1" by (subst div_add_self2 [symmetric]) auto
    then show ?thesis using 1 True by (simp add: enc_ext.simps [of v])
  qed (use 1 in \<open>simp add: enc_ext.simps\<close>)
qed

lemma put_extension_eq:
  "put_extension dst op v = map_option (\<lambda>d. (d, op + length (enc_ext v))) (store_block dst op (enc_ext v))"
proof (induction dst op v rule: put_extension.induct)
  case (1 dst op v)
  show ?case
  proof (cases "255 < v")
    case True
    then show ?thesis
      using 1 by (cases "store dst op 0")
        (simp_all add: put_extension.simps [of dst op v] enc_ext.simps [of v] store_block_Cons add.assoc)
  next
    case False
    then show ?thesis
      by (simp add: put_extension.simps enc_ext.simps [of v] store_as_block map_conv_bind_option comp_def)
  qed
qed

lemma unat_of_nat_u8: "v < 256 \<Longrightarrow> unat (of_nat v :: u8) = v"
  by (simp add: unat_of_nat)

lemma lz_ext_enc:
  assumes "0 < v" and "base + v \<le> SIZE_MAX"
  shows "lz_ext base (enc_ext v @ bs) = Inr (base + v, bs)"
  using assms
proof (induction v arbitrary: base rule: enc_ext.induct)
  case (1 v)
  show ?case
  proof (cases "255 < v")
    case True
    then show ?thesis
      using 1(1) [OF True, of "base + 255"] 1(2,3) by (simp add: enc_ext.simps [of v])
  next
    case False
    then have v: "unat (of_nat v :: u8) = v" by (simp add: unat_of_nat_u8)
    then have "(of_nat v :: u8) \<noteq> 0" using 1(2) by (metis unat_0 less_irrefl)
    then show ?thesis using False v 1(3) by (simp add: enc_ext.simps [of v])
  qed
qed

subsection \<open>Matches\<close>

text \<open>The instruction, its length extension, and the distance word with the trailing literal count.\<close>

definition enc_word :: "nat \<Rightarrow> nat \<Rightarrow> bytes" where
  "enc_word dist nxt =
     (let word = (push_bit 2 (of_nat (dist - 1)) :: u32) in [ucast word OR of_nat nxt, ucast (drop_bit 8 word)])"

definition enc_inst :: "nat \<Rightarrow> bytes" where
  "enc_inst len = (if len \<le> 33 then [of_nat (30 + len)] else 32 # enc_ext (len - 33))"

definition enc_match :: "nat \<Rightarrow> nat \<Rightarrow> nat \<Rightarrow> bytes" where
  "enc_match dist len nxt = enc_inst len @ enc_word dist nxt"

lemma enc_word_length [simp]: "length (enc_word dist nxt) = 2"
  by (simp add: enc_word_def Let_def)

lemma enc_match_length:
  assumes "4 \<le> len"
  shows "length (enc_match dist len nxt) \<le> len - 1" and "3 \<le> length (enc_match dist len nxt)"
proof -
  show "length (enc_match dist len nxt) \<le> len - 1"
  proof (cases "len \<le> 33")
    case False
    have "(len - 33 - 1) div 255 \<le> len - 33 - 1" by (rule div_le_dividend)
    then show ?thesis using False by (simp add: enc_match_def enc_inst_def enc_ext_length)
  qed (use assms in \<open>simp add: enc_match_def enc_inst_def\<close>)
  show "3 \<le> length (enc_match dist len nxt)"
    by (auto simp: enc_match_def enc_inst_def)
qed

lemma lz_word_enc:
  assumes "0 < dist" and "dist \<le> 16384" and "nxt \<le> 3"
  shows "lz_word (enc_word dist nxt @ bs) = Some (4 * (dist - 1) + nxt, bs)"
proof -
  define w where "w = (push_bit 2 (of_nat (dist - 1)) :: u32)"
  have w: "unat w = 4 * (dist - 1)"
  proof -
    have "w = of_nat (4 * (dist - 1))" by (simp add: w_def push_bit_eq_mult)
    then show ?thesis using assms by (simp add: unat_of_nat del: of_nat_mult of_nat_diff)
  qed
  have "(ucast w :: u8) = push_bit 2 (of_nat (dist - 1))"
    unfolding w_def by (rule bit_word_eqI) (auto simp: bit_simps)
  then have "(ucast w :: u8) OR of_nat nxt = ucast w + of_nat nxt"
    using or_disjoint_add [of nxt 2 "of_nat (dist - 1) :: u8"] assms(3) by (simp add: or.commute add.commute)
  moreover have lo: "unat (ucast w :: u8) = 4 * (dist - 1) mod 256"
    by (simp add: unsigned_ucast_eq take_bit_eq_mod w)
  moreover have "4 * (dist - 1) mod 256 + nxt < 256"
  proof -
    have "4 * (dist - 1) mod 256 = 4 * ((dist - 1) mod 64)" using mult_mod_right [of 4 "dist - 1" 64] by simp
    moreover have "(dist - 1) mod 64 < 64" by simp
    ultimately show ?thesis using assms(3) by linarith
  qed
  ultimately have "unat ((ucast w :: u8) OR of_nat nxt) = 4 * (dist - 1) mod 256 + nxt"
    using assms(3) by (simp add: unat_word_ariths unat_of_nat)
  moreover have "unat (ucast (drop_bit 8 w) :: u8) = 4 * (dist - 1) div 256"
  proof -
    have "4 * (dist - 1) div 256 < 256" using assms(2) by (simp add: div_less_iff_less_mult)
    moreover have "unat (drop_bit 8 w) = drop_bit 8 (unat w)" by (rule unat_drop_bit_eq)
    then have "unat (drop_bit 8 w) = 4 * (dist - 1) div 256" by (simp only: drop_bit_eq_div w) simp
    ultimately show ?thesis by (simp only: unsigned_ucast_eq take_bit_eq_mod) simp
  qed
  ultimately show ?thesis
    unfolding enc_word_def Let_def w_def [symmetric] using mod_mult_div_eq [of "4 * (dist - 1)" 256] by simp
qed

text \<open>The format reads a match back, with up to three literals behind it.\<close>

lemma lz_inst_match:
  assumes "4 \<le> len" and "len \<le> SIZE_MAX" and "0 < dist" and "dist \<le> 16384" and "nxt \<le> 3"
  shows "lz_inst st (enc_match dist len nxt @ bs) = Inr (Copy dist len nxt, bs)"
proof -
  have w: "(4 * (dist - 1) + nxt) div 4 + 1 = dist" "(4 * (dist - 1) + nxt) mod 4 = nxt"
    using assms(3,5) by simp_all
  show ?thesis
  proof (cases "len \<le> 33")
    case True
    then have i: "unat (of_nat (30 + len) :: u8) = 30 + len" by (intro unat_of_nat_u8) simp
    have "(30 + len) mod 32 = len - 2"
    proof -
      obtain k where "len = k + 2" using assms(1) by (metis add.commute le_Suc_ex numeral_Bit0 add.assoc)
      moreover have "(32 + k) mod 32 = k mod 32" by (rule mod_add_self1)
      ultimately show ?thesis using True by simp
    qed
    then show ?thesis
      using True i assms w lz_word_enc [OF assms(3-5), of bs]
      by (simp add: enc_match_def enc_inst_def lz_length_def Let_def del: of_nat_add)
  next
    case False
    then have "lz_ext 33 (enc_ext (len - 33) @ enc_word dist nxt @ bs) = Inr (len, enc_word dist nxt @ bs)"
      using assms(2) by (subst lz_ext_enc) simp_all
    then show ?thesis
      using False w lz_word_enc [OF assms(3-5), of bs]
      by (simp add: enc_match_def enc_inst_def lz_length_def Let_def)
  qed
qed

lemma lz_run_match:
  assumes "4 \<le> len" and "length xs = nxt" and "nxt \<le> 3"
    and "0 < dist" and "dist \<le> 16384" and "dist \<le> length out"
    and "length out + len + nxt \<le> cap" and "len \<le> SIZE_MAX"
  shows "lz_run cap st (enc_match dist len nxt @ xs @ bs) out = lz_run cap nxt bs (lz_copy out dist len @ xs)"
  using assms lz_inst_match [of len dist nxt st "xs @ bs"]
  by (subst lz_run.simps) (auto simp: lz_copy_length)

subsection \<open>Literal runs\<close>

definition enc_run :: "bytes \<Rightarrow> bytes" where
  "enc_run xs = (if length xs \<le> 18 then [of_nat (length xs - 3)] else 0 # enc_ext (length xs - 18)) @ xs"

definition enc_first :: "bytes \<Rightarrow> bytes" where
  "enc_first xs = (if length xs \<le> 238 then [of_nat (17 + length xs)] else 0 # enc_ext (length xs - 18)) @ xs"

lemma lz_run_literals:
  assumes "4 \<le> length xs" and "length out + length xs \<le> cap" and "length xs \<le> SIZE_MAX"
  shows "lz_run cap 0 (enc_run xs @ bs) out = lz_run cap 4 bs (out @ xs)"
proof -
  have "lz_inst 0 (enc_run xs @ bs) = Inr (Run (length xs), xs @ bs)"
  proof (cases "length xs \<le> 18")
    case True
    then have "unat (of_nat (length xs - 3) :: u8) = length xs - 3" by (intro unat_of_nat_u8) simp
    moreover have "length xs - 3 < 16" using True by simp
    ultimately show ?thesis using True assms(1) by (simp add: enc_run_def lz_length_def Let_def del: of_nat_diff)
  next
    case False
    then have "lz_ext 18 (enc_ext (length xs - 18) @ xs @ bs) = Inr (length xs, xs @ bs)"
      using assms(3) by (subst lz_ext_enc) simp_all
    then show ?thesis using False by (simp add: enc_run_def lz_length_def Let_def)
  qed
  then show ?thesis using assms by (subst lz_run.simps) auto
qed

lemma lz_decode_first:
  assumes "0 < length xs" and "length xs \<le> cap" and "3 \<le> length bs" and "length xs \<le> SIZE_MAX"
  shows "lz_decode cap (enc_first xs @ bs) = lz_run cap (min (length xs) 4) bs xs"
proof (cases "length xs \<le> 238")
  case True
  then have "unat (of_nat (17 + length xs) :: u8) = 17 + length xs" by (intro unat_of_nat_u8) simp
  then show ?thesis using True assms by (simp add: lz_decode_def enc_first_def Let_def del: of_nat_add)
next
  case False
  have "lz_decode cap (enc_first xs @ bs) = lz_run cap 0 (enc_run xs @ bs) []"
    using False assms by (simp add: lz_decode_def enc_first_def enc_run_def)
  also have "\<dots> = lz_run cap 4 bs xs" using False assms by (subst lz_run_literals) simp_all
  finally show ?thesis using False by simp
qed

lemma lz_run_end: "lz_run cap st [17, 0, 0] out = (LZO_OK, out)"
  by (subst lz_run.simps) (simp add: Let_def lz_length_def)

text \<open>Sizes: a run of \<open>L\<close> literals costs at most \<open>1 + L div 16\<close> more than the literals.\<close>

lemma ext_size: "19 \<le> k \<Longrightarrow> 2 + (k - 19) div 255 \<le> 1 + k div 16" for k :: nat
proof -
  assume "19 \<le> k"
  then obtain d where k: "k = 19 + d" by (metis le_Suc_ex)
  have "d div 255 \<le> d div 16" by (rule div_le_mono2) simp_all
  moreover have "1 + d div 16 \<le> (19 + d) div 16"
  proof -
    have "(16 + d) div 16 \<le> (19 + d) div 16" by (rule div_le_mono) simp
    then show ?thesis by simp
  qed
  ultimately show ?thesis using k by simp
qed

lemma enc_run_length: "4 \<le> length xs \<Longrightarrow> length (enc_run xs) \<le> length xs + 1 + length xs div 16"
  using ext_size [of "length xs"] by (auto simp: enc_run_def enc_ext_length)

lemma enc_first_length: "0 < length xs \<Longrightarrow> length (enc_first xs) \<le> length xs + 1 + length xs div 16"
  using ext_size [of "length xs"] by (auto simp: enc_first_def enc_ext_length)

subsection \<open>The length of a match\<close>

lemma xor_words_first:
  assumes "length xs = 8" and "length ys = 8"
  defines "w \<equiv> le_word xs XOR le_word ys :: u64"
  shows "w = 0 \<longleftrightarrow> xs = ys"
    and "w \<noteq> 0 \<Longrightarrow> builtin_ctz w div 8 < 8 \<and> xs ! (builtin_ctz w div 8) \<noteq> ys ! (builtin_ctz w div 8) \<and>
      (\<forall>i < builtin_ctz w div 8. xs ! i = ys ! i)"
proof -
  have bit: "bit w (8 * i + j) \<longleftrightarrow> bit (xs ! i) j \<noteq> bit (ys ! i) j" if "i < 8" "j < 8" for i j
  proof -
    have "(8 * i + j) div 8 = i" "(8 * i + j) mod 8 = j" "8 * i + j < 64" using that by auto
    then show ?thesis using assms(1,2) that by (simp add: w_def bit_xor_iff bit_le_word)
  qed
  have byte: "xs ! i = ys ! i" if "i < 8" "\<And>j. j < 8 \<Longrightarrow> \<not> bit w (8 * i + j)" for i
    using that bit by (intro bit_word_eqI) auto
  show "w = 0 \<longleftrightarrow> xs = ys"
  proof
    assume "w = 0"
    then have "\<And>i. i < 8 \<Longrightarrow> xs ! i = ys ! i" using byte by simp
    then show "xs = ys" using assms(1,2) by (intro nth_equalityI) simp_all
  qed (simp add: w_def)
  assume w: "w \<noteq> 0"
  let ?c = "builtin_ctz w" and ?k = "builtin_ctz w div 8"
  have c: "bit w ?c" "\<And>i. i < ?c \<Longrightarrow> \<not> bit w i" using builtin_ctz_bit [OF w] by blast+
  have "?c < 64" using c(1) bit_imp_le_length [of w ?c] by simp
  then have k: "?k < 8" by (simp add: div_less_iff_less_mult)
  have split: "?c = 8 * ?k + ?c mod 8" by simp
  have "bit w (8 * ?k + ?c mod 8)" using c(1) by (simp only: split [symmetric])
  then have "xs ! ?k \<noteq> ys ! ?k" using bit [OF k, of "?c mod 8"] by auto
  moreover have "xs ! i = ys ! i" if i: "i < ?k" for i
  proof (rule byte)
    fix j :: nat assume "j < 8"
    then have "8 * i + j < ?c" using i by linarith
    then show "\<not> bit w (8 * i + j)" by (rule c(2))
  qed (use i k in simp)
  ultimately show "?k < 8 \<and> xs ! ?k \<noteq> ys ! ?k \<and> (\<forall>i < ?k. xs ! i = ys ! i)" using k by blast
qed

text \<open>\<open>agree_upto src a b limit m\<close>: \<open>m\<close> is the length of the longest match below the limit.\<close>

definition agree_upto :: "bytes \<Rightarrow> nat \<Rightarrow> nat \<Rightarrow> nat \<Rightarrow> nat \<Rightarrow> bool" where
  "agree_upto src a b limit m \<longleftrightarrow> m \<le> limit \<and> (\<forall>k<m. src ! (a + k) = src ! (b + k)) \<and>
     (m < limit \<longrightarrow> src ! (a + m) \<noteq> src ! (b + m))"

lemma load_le_8:
  "i + 8 \<le> length src \<Longrightarrow> load_le 8 src i = Some (le_word (take 8 (drop i src)) :: u64)"
  by (simp add: load_le_def load_block_in)

lemma word_step:
  assumes "a + c + 8 \<le> length src" and "b + c + 8 \<le> length src" and "c + 8 \<le> limit"
    and "\<And>k. k < c \<Longrightarrow> src ! (a + k) = src ! (b + k)"
  defines "w \<equiv> le_word (take 8 (drop (a + c) src)) XOR le_word (take 8 (drop (b + c) src)) :: u64"
  shows "if w = 0 then \<forall>k < c + 8. src ! (a + k) = src ! (b + k)
    else agree_upto src a b limit (c + builtin_ctz w div 8)"
proof -
  let ?xs = "take 8 (drop (a + c) src)" and ?ys = "take 8 (drop (b + c) src)"
  have len: "length ?xs = 8" "length ?ys = 8" using assms(1,2) by simp_all
  have at: "?xs ! i = src ! (a + (c + i))" "?ys ! i = src ! (b + (c + i))" if "i < 8" for i
    using that assms(1,2) by (simp_all add: add.assoc)
  have below: "src ! (a + k) = src ! (b + k)" if "k < c + m" "\<forall>i<m. ?xs ! i = ?ys ! i" "m \<le> 8" for k m
  proof (cases "k < c")
    case False
    then obtain i where "k = c + i" by (metis le_Suc_ex not_less)
    then show ?thesis using that at [of i] by simp
  qed (use assms(4) in simp)
  show ?thesis
  proof (cases "w = 0")
    case True
    then have "?xs = ?ys" using xor_words_first(1) [OF len] by (simp add: w_def)
    then show ?thesis using True below [of _ 8] by simp
  next
    case False
    then have "w \<noteq> 0" by simp
    then have k: "builtin_ctz w div 8 < 8" "?xs ! (builtin_ctz w div 8) \<noteq> ?ys ! (builtin_ctz w div 8)"
      "\<forall>i < builtin_ctz w div 8. ?xs ! i = ?ys ! i"
      using xor_words_first(2) [OF len] unfolding w_def by blast+
    then show ?thesis
      using False below [of _ "builtin_ctz w div 8"] at [OF k(1)] assms(3) by (auto simp: agree_upto_def)
  qed
qed

lemma match_bytes_eq:
  assumes "a + limit \<le> length src" and "b + limit \<le> length src" and "c \<le> limit"
    and "\<And>k. k < c \<Longrightarrow> src ! (a + k) = src ! (b + k)"
  shows "\<exists>m. match_bytes src a b limit c = Some m \<and> agree_upto src a b limit m"
  using assms(3,4)
proof (induction "limit - c" arbitrary: c)
  case 0
  then show ?case by (subst match_bytes.simps) (auto simp: agree_upto_def)
next
  case (Suc d)
  then have lt: "c < limit" by linarith
  then have ld: "load src (a + c) = Some (src ! (a + c))" "load src (b + c) = Some (src ! (b + c))"
    using assms(1,2) by (simp_all add: load_in)
  show ?case
  proof (cases "src ! (a + c) = src ! (b + c)")
    case True
    then have "\<exists>m. match_bytes src a b limit (c + 1) = Some m \<and> agree_upto src a b limit m"
      using Suc by (intro Suc.hyps(1)) (auto simp: less_Suc_eq)
    then show ?thesis using True lt ld by (subst match_bytes.simps) simp
  next
    case False
    then show ?thesis
      using lt Suc.prems ld by (subst match_bytes.simps) (auto simp: agree_upto_def)
  qed
qed

definition match_progress :: "bytes \<Rightarrow> nat \<Rightarrow> nat \<Rightarrow> nat \<Rightarrow> (nat + nat) option \<Rightarrow> bool" where
  "match_progress src a b limit r \<longleftrightarrow>
     (case r of None \<Rightarrow> False
      | Some (Inl m) \<Rightarrow> agree_upto src a b limit m
      | Some (Inr c) \<Rightarrow> c \<le> limit \<and> (\<forall>k<c. src ! (a + k) = src ! (b + k)))"

lemma match_words8_eq:
  assumes "a + limit \<le> length src" and "b + limit \<le> length src" and "c \<le> limit"
    and "\<forall>k<c. src ! (a + k) = src ! (b + k)"
  shows "match_progress src a b limit (match_words8 src a b limit c)"
  using assms(3,4)
proof (induction "limit - c" arbitrary: c rule: less_induct)
  case less
  show ?case
  proof (cases "8 \<le> limit - c")
    case False
    then show ?thesis using less.prems by (subst match_words8.simps) (simp add: match_progress_def)
  next
    case True
    let ?w = "le_word (take 8 (drop (a + c) src)) XOR le_word (take 8 (drop (b + c) src)) :: u64"
    have in8: "a + c + 8 \<le> length src" "b + c + 8 \<le> length src" "c + 8 \<le> limit"
      using True less.prems assms(1,2) by linarith+
    have step: "if ?w = 0 then \<forall>k < c + 8. src ! (a + k) = src ! (b + k)
        else agree_upto src a b limit (c + builtin_ctz ?w div 8)"
      using in8 less.prems(2) by (intro word_step) simp_all
    have unfold: "match_words8 src a b limit c =
        (if ?w \<noteq> 0 then Some (Inl (c + builtin_ctz ?w div 8)) else match_words8 src a b limit (c + 8))"
      using True in8 by (subst match_words8.simps) (simp add: load_le_8 Let_def)
    show ?thesis
    proof (cases "?w = 0")
      case True
      then have "match_progress src a b limit (match_words8 src a b limit (c + 8))"
        using step in8 by (intro less.hyps) simp_all
      then show ?thesis unfolding unfold using True by simp
    next
      case False
      then show ?thesis unfolding unfold using step by (simp add: match_progress_def)
    qed
  qed
qed

lemma match_words16_eq:
  assumes "a + limit \<le> length src" and "b + limit \<le> length src" and "c \<le> limit"
    and "\<forall>k<c. src ! (a + k) = src ! (b + k)"
  shows "match_progress src a b limit (match_words16 src a b limit c)"
  using assms(3,4)
proof (induction "limit - c" arbitrary: c rule: less_induct)
  case less
  show ?case
  proof (cases "16 \<le> limit - c")
    case False
    then show ?thesis using less.prems by (subst match_words16.simps) (simp add: match_progress_def)
  next
    case True
    let ?w = "\<lambda>c. le_word (take 8 (drop (a + c) src)) XOR le_word (take 8 (drop (b + c) src)) :: u64"
    have in8: "a + c + 8 \<le> length src" "b + c + 8 \<le> length src" "c + 8 \<le> limit"
      and in16: "a + (c + 8) + 8 \<le> length src" "b + (c + 8) + 8 \<le> length src" "c + 8 + 8 \<le> limit"
      using True less.prems assms(1,2) by linarith+
    have first: "if ?w c = 0 then \<forall>k < c + 8. src ! (a + k) = src ! (b + k)
        else agree_upto src a b limit (c + builtin_ctz (?w c) div 8)"
      using in8 less.prems(2) by (intro word_step) simp_all
    have second: "if ?w (c + 8) = 0 then \<forall>k < c + 8 + 8. src ! (a + k) = src ! (b + k)
        else agree_upto src a b limit (c + 8 + builtin_ctz (?w (c + 8)) div 8)"
      if "?w c = 0"
      using in16 first that by (intro word_step) simp_all
    have unfold: "match_words16 src a b limit c =
        (if ?w c OR ?w (c + 8) \<noteq> 0
         then Some (Inl (c + (if ?w c \<noteq> 0 then builtin_ctz (?w c) div 8 else 8 + builtin_ctz (?w (c + 8)) div 8)))
         else match_words16 src a b limit (c + 16))"
      using True in8 in16 load_le_8 [of "a + c" src] load_le_8 [of "b + c" src]
        load_le_8 [of "a + c + 8" src] load_le_8 [of "b + c + 8" src]
      by (subst match_words16.simps) (simp add: Let_def add.assoc)
    show ?thesis
    proof (cases "?w c = 0")
      case False
      then show ?thesis unfolding unfold using first by (simp add: match_progress_def or_eq_0_iff)
    next
      case w: True
      show ?thesis
      proof (cases "?w (c + 8) = 0")
        case False
        then show ?thesis unfolding unfold using w second by (simp add: match_progress_def add.assoc)
      next
        case True
        then have "match_progress src a b limit (match_words16 src a b limit (c + 16))"
          using second [OF w] in16 by (intro less.hyps) (simp_all add: add.assoc)
        then show ?thesis unfolding unfold using True w by simp
      qed
    qed
  qed
qed

lemma matching_bytes_eq:
  assumes "a + limit \<le> length src" and "b + limit \<le> length src"
  shows "\<exists>m. matching_bytes src a b limit = Some m \<and> agree_upto src a b limit m"
proof -
  have p16: "match_progress src a b limit (match_words16 src a b limit 0)"
    using assms by (intro match_words16_eq) simp_all
  have p8: "match_progress src a b limit (match_words8 src a b limit c)"
    if "c \<le> limit" "\<forall>k<c. src ! (a + k) = src ! (b + k)" for c
    using assms that by (intro match_words8_eq) simp_all
  have p1: "\<exists>m. match_bytes src a b limit c = Some m \<and> agree_upto src a b limit m"
    if "c \<le> limit" "\<forall>k<c. src ! (a + k) = src ! (b + k)" for c
    using assms that by (intro match_bytes_eq) simp_all
  obtain r where r: "match_words16 src a b limit 0 = Some r"
    using p16 by (auto simp: match_progress_def split: option.splits)
  show ?thesis
  proof (cases r)
    case (Inl m)
    then show ?thesis using p16 r by (simp add: matching_bytes_def match_progress_def)
  next
    case (Inr c)
    then have c: "c \<le> limit" "\<forall>k<c. src ! (a + k) = src ! (b + k)"
      using p16 r by (simp_all add: match_progress_def)
    obtain r8 where r8: "match_words8 src a b limit c = Some r8"
      using p8 [OF c] by (auto simp: match_progress_def split: option.splits)
    show ?thesis
    proof (cases r8)
      case (Inl m)
      then show ?thesis using p8 [OF c] r Inr r8 by (simp add: matching_bytes_def match_progress_def)
    next
      case c8: (Inr c')
      then have c': "c' \<le> limit" "\<forall>k<c'. src ! (a + k) = src ! (b + k)"
        using p8 [OF c] r8 by (simp_all add: match_progress_def)
      show ?thesis using p1 [OF c'] r Inr r8 c8 by (simp add: matching_bytes_def)
    qed
  qed
qed

end
