(* ===== verification/Lzo_Compress.thy ===== *)
theory Lzo_Compress
  imports Lzo_Match
begin

text \<open>
  The LZO compressor terminates, stays inside the advertised bound, and writes a stream that
  decompresses to its input.
\<close>

lemma lz_copy_take:
  assumes "p + len \<le> length src" and "0 < d" and "d \<le> p"
    and "\<And>k. k < len \<Longrightarrow> src ! (p - d + k) = src ! (p + k)"
  shows "lz_copy (take p src) d len = take (p + len) src"
  using assms
proof (induction len arbitrary: p)
  case (Suc len)
  have "src ! (p - d) = src ! p" using Suc.prems(4) [of 0] by simp
  moreover have "take p src ! (p - d) = src ! (p - d)" using Suc.prems(1-3) by simp
  moreover have "take p src @ [src ! p] = take (p + 1) src"
    using Suc.prems(1) by (simp add: take_Suc_conv_app_nth)
  moreover have "lz_copy (take (p + 1) src) d len = take (p + 1 + len) src"
  proof (rule Suc.IH)
    fix k assume "k < len"
    then have "src ! (p - d + Suc k) = src ! (p + Suc k)" by (intro Suc.prems(4)) simp
    then show "src ! (p + 1 - d + k) = src ! (p + 1 + k)" using Suc.prems(3) by (simp add: Suc_diff_le)
  qed (use Suc.prems in simp_all)
  ultimately show ?case using Suc.prems(1) by (simp add: min_absorb1)
qed simp

subsection \<open>Streams under construction\<close>

text \<open>
  \<open>reads lim st bs out\<close>: having read \<open>bs\<close>, with more input to come, the format has produced \<open>out\<close>
  and is in state \<open>st\<close>.
\<close>

definition reads :: "nat \<Rightarrow> nat \<Rightarrow> bytes \<Rightarrow> bytes \<Rightarrow> bool" where
  "reads lim st bs out \<longleftrightarrow> (\<forall>r. 3 \<le> length r \<longrightarrow> lz_decode lim (bs @ r) = lz_run lim st r out)"

lemma reads_first:
  "xs \<noteq> [] \<Longrightarrow> length xs \<le> lim \<Longrightarrow> lim \<le> SIZE_MAX \<Longrightarrow> reads lim (min (length xs) 4) (enc_first xs) xs"
  by (simp add: reads_def lz_decode_first)

lemma reads_match:
  assumes "reads lim st bs out" and "4 \<le> len" and "length xs \<le> 3" and "0 < dist" and "dist \<le> 16384"
    and "dist \<le> length out" and "length out + len + length xs \<le> lim" and "lim \<le> SIZE_MAX"
  shows "reads lim (length xs) (bs @ enc_match dist len (length xs) @ xs) (lz_copy out dist len @ xs)"
  unfolding reads_def
proof (intro allI impI)
  fix r :: bytes assume "3 \<le> length r"
  then have "lz_decode lim (bs @ (enc_match dist len (length xs) @ xs @ r)) =
      lz_run lim st (enc_match dist len (length xs) @ xs @ r) out"
    using assms(1) by (intro assms(1) [unfolded reads_def, rule_format]) simp
  also have "\<dots> = lz_run lim (length xs) r (lz_copy out dist len @ xs)"
    using assms by (intro lz_run_match) simp_all
  finally show "lz_decode lim ((bs @ enc_match dist len (length xs) @ xs) @ r) = \<dots>" by simp
qed

lemma reads_run:
  assumes "reads lim 0 bs out" and "4 \<le> length xs" and "length out + length xs \<le> lim" and "lim \<le> SIZE_MAX"
  shows "reads lim 4 (bs @ enc_run xs) (out @ xs)"
  unfolding reads_def
proof (intro allI impI)
  fix r :: bytes assume "3 \<le> length r"
  then have "lz_decode lim (bs @ (enc_run xs @ r)) = lz_run lim 0 (enc_run xs @ r) out"
    using assms(1) by (intro assms(1) [unfolded reads_def, rule_format]) simp
  also have "\<dots> = lz_run lim 4 r (out @ xs)" using assms by (intro lz_run_literals) simp_all
  finally show "lz_decode lim ((bs @ enc_run xs) @ r) = \<dots>" by simp
qed

text \<open>
  The output while the compressor works: nothing yet, or a stream whose last match has no trailing
  literals so far, its distance word at \<open>op - 2\<close>.
\<close>

definition pending :: "nat \<Rightarrow> bytes \<Rightarrow> bytes \<Rightarrow> nat \<Rightarrow> nat option \<Rightarrow> bool" where
  "pending lim src bs start lw \<longleftrightarrow>
     (case lw of
        None \<Rightarrow> bs = [] \<and> start = 0
      | Some l \<Rightarrow> (\<exists>pre st dist len.
          bs = pre @ enc_match dist len 0 \<and> l + 2 = length bs \<and> reads lim st pre (take (start - len) src) \<and>
          4 \<le> len \<and> len \<le> start \<and> 0 < dist \<and> dist \<le> 16384 \<and> dist \<le> start - len \<and>
          lz_copy (take (start - len) src) dist len = take start src \<and>
          length bs \<le> start + start div 16))"

lemma pendingI:
  assumes "bs = pre @ enc_match dist len 0" and "l + 2 = length bs" and "reads lim st pre (take (start - len) src)"
    and "4 \<le> len" and "len \<le> start" and "0 < dist" and "dist \<le> 16384" and "dist \<le> start - len"
    and "lz_copy (take (start - len) src) dist len = take start src" and "length bs \<le> start + start div 16"
  shows "pending lim src bs start (Some l)"
  using assms unfolding pending_def by auto

lemma div16_add: "a div 16 + b div 16 \<le> (a + b) div (16 :: nat)"
proof -
  have "16 * (a div 16 + b div 16) \<le> a + b" by (simp add: add_mono distrib_left)
  then have "(a div 16 + b div 16) * 16 div 16 \<le> (a + b) div 16" by (intro div_le_mono) simp
  then show ?thesis by simp
qed

lemma store_block_done:
  assumes "op + length ys \<le> length dst"
  obtains dst' where "store_block dst op ys = Some dst'" "take (op + length ys) dst' = take op dst @ ys"
    "frame 0 (op + length ys) dst dst'" "length dst' = length dst"
proof -
  have "store_block dst op ys = Some (take op dst @ ys @ drop (op + length ys) dst)" (is "_ = Some ?d")
    using assms by (rule store_block_in)
  moreover have "take (op + length ys) ?d = take op dst @ ys"
  proof -
    have "op \<le> length dst" using assms by simp
    then show ?thesis by (simp add: min_absorb2)
  qed
  moreover have "frame 0 (op + length ys) dst ?d"
    using store_block_frame [OF \<open>store_block dst op ys = Some ?d\<close>] by (rule frame_widen) simp_all
  ultimately show ?thesis using that assms by simp
qed

lemma header_then_literals:
  assumes "op + length h + len \<le> length dst" and "start + len \<le> length src"
  shows "do { (dst, op) \<leftarrow> map_option (\<lambda>d. (d, op + length h)) (store_block dst op h);
      dst \<leftarrow> copy_disjoint src dst op SRC start len;
      Some (dst, op + len) } =
    map_option (\<lambda>d. (d, op + length h + len)) (store_block dst op (h @ take len (drop start src)))"
proof -
  obtain d where d: "store_block dst op h = Some d" "length d = length dst"
    by (rule store_block_done [of op h dst]) (use assms(1) in auto)
  have "copy_disjoint src d (op + length h) SRC start len = store_block d (op + length h) (take len (drop start src))"
    using assms d by (subst copy_disjoint_eq) (simp_all add: region_bytes_def)
  then show ?thesis using d by (simp add: store_block_append map_conv_bind_option comp_def)
qed

lemma put_run_eq:
  assumes "4 \<le> len" and "lw \<noteq> None" and "0 < op" and "start + len \<le> length src"
    and "op + length (enc_run (take len (drop start src))) \<le> length dst"
  shows "put_literals src start len dst op lw =
    map_option (\<lambda>d. (d, op + length (enc_run (take len (drop start src)))))
      (store_block dst op (enc_run (take len (drop start src))))"
proof -
  let ?xs = "take len (drop start src)"
  let ?h = "if length ?xs \<le> 18 then [of_nat (length ?xs - 3)] else 0 # enc_ext (length ?xs - 18)"
  have xs: "length ?xs = len" using assms(4) by simp
  have "put_literals src start len dst op lw =
      do { (dst, op) \<leftarrow> map_option (\<lambda>d. (d, op + length ?h)) (store_block dst op ?h);
        dst \<leftarrow> copy_disjoint src dst op SRC start len;
        Some (dst, op + len) }"
    unfolding xs
  proof (cases "len \<le> 18")
    case True
    then show "put_literals src start len dst op lw =
      do { (dst, op) \<leftarrow> map_option (\<lambda>d. (d, op + length (if len \<le> 18 then [of_nat (len - 3)] else 0 # enc_ext (len - 18))))
          (store_block dst op (if len \<le> 18 then [of_nat (len - 3)] else 0 # enc_ext (len - 18)));
        dst \<leftarrow> copy_disjoint src dst op SRC start len;
        Some (dst, op + len) }"
      using assms(1-3) by (simp add: put_literals_def store_as_block map_conv_bind_option comp_def)
  next
    case False
    then show "put_literals src start len dst op lw =
      do { (dst, op) \<leftarrow> map_option (\<lambda>d. (d, op + length (if len \<le> 18 then [of_nat (len - 3)] else 0 # enc_ext (len - 18))))
          (store_block dst op (if len \<le> 18 then [of_nat (len - 3)] else 0 # enc_ext (len - 18)));
        dst \<leftarrow> copy_disjoint src dst op SRC start len;
        Some (dst, op + len) }"
      using assms(1-3)
      by (simp add: put_literals_def put_extension_eq store_block_Cons map_conv_bind_option comp_def)
  qed
  also have "\<dots> = map_option (\<lambda>d. (d, op + length ?h + len)) (store_block dst op (?h @ ?xs))"
    using assms(4,5) by (intro header_then_literals) (simp_all add: enc_run_def)
  finally show ?thesis unfolding enc_run_def using xs by (simp add: add.assoc)
qed

lemma put_first_eq:
  assumes "0 < len" and "start + len \<le> length src"
    and "length (enc_first (take len (drop start src))) \<le> length dst"
  shows "put_literals src start len dst 0 None =
    map_option (\<lambda>d. (d, length (enc_first (take len (drop start src)))))
      (store_block dst 0 (enc_first (take len (drop start src))))"
proof -
  let ?xs = "take len (drop start src)"
  let ?h = "if length ?xs \<le> 238 then [of_nat (17 + length ?xs)] else 0 # enc_ext (length ?xs - 18)"
  have xs: "length ?xs = len" using assms(2) by simp
  have "put_literals src start len dst 0 None =
      do { (dst, op) \<leftarrow> map_option (\<lambda>d. (d, 0 + length ?h)) (store_block dst 0 ?h);
        dst \<leftarrow> copy_disjoint src dst op SRC start len;
        Some (dst, op + len) }"
    unfolding xs
  proof (cases "len \<le> 238")
    case True
    then show "put_literals src start len dst 0 None =
      do { (dst, op) \<leftarrow> map_option (\<lambda>d. (d, 0 + length (if len \<le> 238 then [of_nat (17 + len)] else 0 # enc_ext (len - 18))))
          (store_block dst 0 (if len \<le> 238 then [of_nat (17 + len)] else 0 # enc_ext (len - 18)));
        dst \<leftarrow> copy_disjoint src dst op SRC start len;
        Some (dst, op + len) }"
      using assms(1) by (simp add: put_literals_def store_as_block map_conv_bind_option comp_def)
  next
    case False
    then show "put_literals src start len dst 0 None =
      do { (dst, op) \<leftarrow> map_option (\<lambda>d. (d, 0 + length (if len \<le> 238 then [of_nat (17 + len)] else 0 # enc_ext (len - 18))))
          (store_block dst 0 (if len \<le> 238 then [of_nat (17 + len)] else 0 # enc_ext (len - 18)));
        dst \<leftarrow> copy_disjoint src dst op SRC start len;
        Some (dst, op + len) }"
      using assms(1)
      by (simp add: put_literals_def put_extension_eq store_block_Cons map_conv_bind_option comp_def)
  qed
  also have "\<dots> = map_option (\<lambda>d. (d, 0 + length ?h + len)) (store_block dst 0 (?h @ ?xs))"
    using assms(2,3) by (intro header_then_literals) (simp_all add: enc_first_def)
  finally show ?thesis unfolding enc_first_def using xs by simp
qed

text \<open>What \<open>put_literals\<close> leaves: a stream that has produced everything before \<open>pos\<close>.\<close>

definition flushed :: "nat \<Rightarrow> bytes \<Rightarrow> bytes \<Rightarrow> nat \<Rightarrow> nat \<Rightarrow> (bytes \<times> nat) option \<Rightarrow> bool" where
  "flushed lim src dst op0 pos r \<longleftrightarrow>
     (\<exists>dst' op st. r = Some (dst', op) \<and> length dst' = length dst \<and> op0 \<le> op \<and> op \<le> pos + pos div 16 + 1 \<and>
        op \<le> length dst \<and> frame 0 op dst dst' \<and> reads lim st (take op dst') (take pos src))"

lemma flushed_block:
  assumes "op + length ys \<le> length dst" and "reads lim st (take op dst @ ys) (take pos src)"
    and "op + length ys \<le> pos + pos div 16 + 1"
  shows "flushed lim src dst op pos (map_option (\<lambda>d. (d, op + length ys)) (store_block dst op ys))"
proof -
  obtain dst' where "store_block dst op ys = Some dst'" "take (op + length ys) dst' = take op dst @ ys"
    "frame 0 (op + length ys) dst dst'" "length dst' = length dst"
    using assms(1) by (rule store_block_done)
  then show ?thesis using assms by (auto simp: flushed_def)
qed

lemma patch_byte:
  assumes "d = A @ x # B" and "l = length A"
  shows "load d l = Some x" and "store d l y = Some (A @ y # B)"
  using assms by (simp_all add: load_def store_def list_update_append)

lemma put_literals_ok:
  assumes src: "pos \<le> length src" and le: "start \<le> pos" "pos \<le> lim" and lim: "lim \<le> SIZE_MAX"
    and pend: "pending lim src (take op dst) start lw" and op: "op \<le> length dst"
    and some: "start < pos \<or> lw \<noteq> None" and room: "pos + pos div 16 + 1 \<le> length dst"
  shows "flushed lim src dst op pos (put_literals src start (pos - start) dst op lw)"
proof -
  let ?len = "pos - start" and ?xs = "take (pos - start) (drop start src)"
  have xs: "length ?xs = ?len" using src le by simp
  have join: "take start src @ ?xs = take pos src"
    using le(1) by (metis add_diff_inverse_nat not_less take_add)
  have op_len: "length (take op dst) = op" using op by simp
  show ?thesis
  proof (cases lw)
    case None
    then have 0: "op = 0" "start = 0" using pend op_len by (auto simp: pending_def)
    then have pos: "0 < pos" using some None by simp
    have size: "length (enc_first ?xs) \<le> pos + 1 + pos div 16"
    proof -
      have "0 < length ?xs" unfolding xs using pos 0 by simp
      from enc_first_length [OF this] show ?thesis unfolding xs using 0 by simp
    qed
    have "reads lim (min (length ?xs) 4) (enc_first ?xs) ?xs"
      by (rule reads_first) (use xs pos 0 le lim in auto)
    then have "flushed lim src dst 0 pos (map_option (\<lambda>d. (d, 0 + length (enc_first ?xs))) (store_block dst 0 (enc_first ?xs)))"
      using size room 0 by (intro flushed_block) auto
    moreover have "put_literals src start ?len dst 0 None =
        map_option (\<lambda>d. (d, length (enc_first ?xs))) (store_block dst 0 (enc_first ?xs))"
      by (rule put_first_eq) (use 0 pos src size room in auto)
    ultimately show ?thesis using None 0 by simp
  next
    case (Some l)
    then obtain pre st dist mlen where bs: "take op dst = pre @ enc_match dist mlen 0" "l + 2 = op"
      and rd: "reads lim st pre (take (start - mlen) src)"
      and m: "4 \<le> mlen" "mlen \<le> start" "0 < dist" "dist \<le> 16384" "dist \<le> start - mlen"
      and copy: "lz_copy (take (start - mlen) src) dist mlen = take start src"
      and small: "op \<le> start + start div 16"
      using pend op_len by (auto simp: pending_def)
    have out: "length (take (start - mlen) src) = start - mlen" using src le by simp
    have tail: "reads lim (length ys) (pre @ enc_match dist mlen (length ys) @ ys) (take start src @ ys)"
      if "length ys \<le> 3" "start + length ys \<le> lim" for ys
      using reads_match [OF rd m(1) that(1) m(3,4), unfolded out copy] m that lim by simp
    have op2: "op = length (pre @ enc_inst mlen) + 2"
      using arg_cong [OF bs(1), of length] op_len by (simp add: enc_match_def)
    show ?thesis
    proof (cases "?len \<le> 3")
      case True
      show ?thesis
      proof (cases "?len = 0")
        case True
        then have "start = pos" using le by simp
        moreover have "reads lim 0 (take op dst) (take start src)"
          using tail [of "[]"] le bs by simp
        ultimately show ?thesis
          using small op by (auto simp: flushed_def put_literals_def)
      next
        case False
        define w where "w = (push_bit 2 (of_nat (dist - 1)) :: u32)"
        let ?A = "pre @ enc_inst mlen"
        have l: "l = length ?A" using op2 bs(2) by simp
        have dst: "dst = ?A @ [ucast w, ucast (drop_bit 8 w)] @ drop op dst"
          using append_take_drop_id [of op dst] bs(1)
          by (simp add: enc_match_def enc_word_def w_def Let_def)
        define dst' where "dst' = ?A @ [ucast w OR of_nat ?len, ucast (drop_bit 8 w)] @ drop op dst"
        have ld: "load dst l = Some (ucast w)" and st: "store dst l (ucast w OR of_nat ?len) = Some dst'"
          using patch_byte [of dst ?A "ucast w" "ucast (drop_bit 8 w) # drop op dst" l] dst l
          unfolding dst'_def append.simps by blast+
        have len': "length dst' = length dst" using st by (auto simp: store_def split: if_splits)
        have take': "take op dst' = pre @ enc_match dist mlen ?len"
          using op2 by (simp add: dst'_def enc_match_def enc_word_def w_def Let_def)
        have small': "op + ?len \<le> pos + pos div 16"
        proof -
          have "start div 16 \<le> pos div 16" using le(1) by (rule div_le_mono)
          then show ?thesis using small le(1) by linarith
        qed
        have "copy_disjoint src dst' op SRC start ?len = store_block dst' op ?xs"
          using src le room small' len' by (subst copy_disjoint_eq) (auto simp: region_bytes_def)
        then have eq: "put_literals src start ?len dst op lw =
            map_option (\<lambda>d. (d, op + length ?xs)) (store_block dst' op ?xs)"
          using False True Some ld st xs \<open>?len \<le> 3\<close> by (simp add: put_literals_def map_conv_bind_option comp_def)
        have "reads lim ?len (take op dst' @ ?xs) (take pos src)"
          using tail [of ?xs] xs \<open>?len \<le> 3\<close> le join take' by simp
        then have "flushed lim src dst' op pos (map_option (\<lambda>d. (d, op + length ?xs)) (store_block dst' op ?xs))"
          using small' xs room len' by (intro flushed_block) simp_all
        then have "flushed lim src dst' op pos (put_literals src start ?len dst op lw)" using eq by simp
        moreover have "frame 0 op dst dst'"
          using st bs(2) by (auto simp: store_def frame_def split: if_splits)
        ultimately show ?thesis
          unfolding flushed_def len' using frame_trans [OF frame_widen [OF _ le0]] by blast
      qed
    next
      case False
      have "op + length (enc_run ?xs) \<le> pos + pos div 16 + 1"
      proof -
        have "length (enc_run ?xs) \<le> ?len + 1 + ?len div 16"
          using enc_run_length [of ?xs] False unfolding xs by simp
        moreover have "start div 16 + ?len div 16 \<le> pos div 16" using div16_add [of start ?len] le(1) by simp
        ultimately show ?thesis using small le(1) by linarith
      qed
      moreover have "reads lim 4 (take op dst @ enc_run ?xs) (take pos src)"
      proof -
        have "reads lim 0 (take op dst) (take start src)" using tail [of "[]"] le bs by simp
        from reads_run [OF this, of ?xs] show ?thesis
          using False xs src le lim join by simp
      qed
      ultimately have "flushed lim src dst op pos (map_option (\<lambda>d. (d, op + length (enc_run ?xs))) (store_block dst op (enc_run ?xs)))"
        using room by (intro flushed_block) simp_all
      moreover have "put_literals src start ?len dst op lw =
          map_option (\<lambda>d. (d, op + length (enc_run ?xs))) (store_block dst op (enc_run ?xs))"
        using False Some op2 src le room \<open>op + length (enc_run ?xs) \<le> pos + pos div 16 + 1\<close>
        by (intro put_run_eq) auto
      ultimately show ?thesis by simp
    qed
  qed
qed

subsection \<open>The matching loop\<close>

lemma put_match_eq:
  "do { (dst, op) \<leftarrow> (if len \<le> 33 then do {
          dst \<leftarrow> store dst op (of_nat (32 + len - 2));
          Some (dst, op + 1)
        }
        else do {
          dst \<leftarrow> store dst op 32;
          put_extension dst (op + 1) (len - 33)
        });
      dst \<leftarrow> store dst op (ucast (push_bit 2 (of_nat (dist - 1)) :: u32));
      dst \<leftarrow> store dst (op + 1) (ucast (drop_bit 8 (push_bit 2 (of_nat (dist - 1)) :: u32)));
      f dst op } =
   Option.bind (store_block dst op (enc_match dist len 0)) (\<lambda>d. f d (op + length (enc_inst len)))"
proof -
  have word: "do { dst \<leftarrow> store dst op (ucast (push_bit 2 (of_nat (dist - 1)) :: u32));
      dst \<leftarrow> store dst (op + 1) (ucast (drop_bit 8 (push_bit 2 (of_nat (dist - 1)) :: u32)));
      f dst op' } = Option.bind (store_block dst op (enc_word dist 0)) (\<lambda>d. f d op')" for dst op op'
    by (simp add: enc_word_def Let_def store_block_Cons)
  have inst: "(if len \<le> 33 then do {
          dst \<leftarrow> store dst op (of_nat (32 + len - 2));
          Some (dst, op + 1)
        }
        else do {
          dst \<leftarrow> store dst op 32;
          put_extension dst (op + 1) (len - 33)
        }) = map_option (\<lambda>d. (d, op + length (enc_inst len))) (store_block dst op (enc_inst len))"
    by (cases "len \<le> 33")
      (simp_all add: enc_inst_def store_block_Cons put_extension_eq map_conv_bind_option comp_def)
  show ?thesis
    unfolding inst by (simp add: bind_map_option comp_def word [simplified] enc_match_def store_block_append)
qed

lemma literal_hash_in: "p + 8 \<le> length src \<Longrightarrow> \<exists>h. literal_hash src p = Some h"
  by (simp add: literal_hash_def load_le_def load_block_in)

lemma dict_put_ok:
  assumes "p + 8 \<le> length src" and "unat msk < length dict"
  shows "\<exists>d. dict_put src msk dict p v = Some d \<and> length d = length dict \<and> set d \<subseteq> insert v (set dict)"
proof -
  obtain h where h: "literal_hash src p = Some h" using literal_hash_in [OF assms(1)] by blast
  have "unat (h AND msk) \<le> unat msk" by (metis and.commute word_and_le1 word_le_nat_alt)
  then show ?thesis
    using h assms(2) set_update_subset_insert [of dict] by (auto simp: dict_put_def store_in)
qed

lemma dict_upd_ok:
  assumes "c \<Longrightarrow> p + 8 \<le> length src" and "unat msk < length dict" and "unat v \<le> m"
    and "\<forall>x \<in> set dict. unat x \<le> m"
  shows "\<exists>d. (if c then dict_put src msk dict p v else Some dict) = Some d \<and> length d = length dict \<and>
    (\<forall>x \<in> set d. unat x \<le> m)"
proof (cases c)
  case True
  with assms dict_put_ok [of p src msk dict v] show ?thesis by auto
qed (use assms in simp)

text \<open>The loop invariant; dictionary entries (positions plus one) are at most \<open>b\<close>.\<close>

definition enc_inv :: "nat \<Rightarrow> bytes \<Rightarrow> nat \<Rightarrow> nat \<Rightarrow> bytes \<Rightarrow> nat \<Rightarrow> lzo_enc \<Rightarrow> bool" where
  "enc_inv lim src n entries dst b s \<longleftrightarrow>
     length (e_dst s) = length dst \<and> e_op s \<le> length dst \<and> frame 0 (e_op s) dst (e_dst s) \<and>
     pending lim src (take (e_op s) (e_dst s)) (e_start s) (e_last s) \<and>
     e_start s \<le> n \<and> e_start s \<le> e_pos s \<and> 0 < e_pos s \<and> 32 \<le> e_attempts s \<and>
     length (e_dict s) = entries \<and> (\<forall>x \<in> set (e_dict s). unat x \<le> b)"

lemma lzo_emit_match_ok:
  assumes inv: "enc_inv lim src n entries dst (e_pos s + 1) s"
    and n: "n \<le> length src" "n \<le> UINT32_MAX" "n \<le> lim" "lim \<le> SIZE_MAX" "n + n div 16 + 67 \<le> length dst"
    and pos: "e_pos s + 8 \<le> n" and src_pos: "src_pos < e_pos s" "e_pos s - src_pos \<le> 16384"
    and four: "\<And>k. k < 4 \<Longrightarrow> src ! (src_pos + k) = src ! (e_pos s + k)"
    and msk: "unat msk < entries"
  shows "\<exists>s'. lzo_emit_match src n msk src_pos s = Some s' \<and> enc_inv lim src n entries dst (e_pos s') s' \<and> e_pos s < e_pos s'"
proof -
  let ?pos = "e_pos s" and ?dist = "e_pos s - src_pos"
  obtain more where more: "matching_bytes src (src_pos + 4) (?pos + 4) (n - ?pos - 4) = Some more"
    "agree_upto src (src_pos + 4) (?pos + 4) (n - ?pos - 4) more"
    using matching_bytes_eq [of "src_pos + 4" "n - ?pos - 4" src "?pos + 4"] n(1) pos src_pos(1) by fastforce
  define len where "len = 4 + more"
  have len: "4 \<le> len" "?pos + len \<le> n" using more(2) pos by (auto simp: len_def agree_upto_def)
  have same: "src ! (src_pos + k) = src ! (?pos + k)" if "k < len" for k
  proof (cases "k < 4")
    case False
    then obtain i where i: "k = 4 + i" by (metis le_Suc_ex not_less)
    then have "i < more" using that by (simp add: len_def)
    then have "src ! (src_pos + 4 + i) = src ! (?pos + 4 + i)" using more(2) by (simp add: agree_upto_def)
    then show ?thesis using i by (simp add: add.assoc)
  qed (use four in simp)
  have "flushed lim src (e_dst s) (e_op s) ?pos (put_literals src (e_start s) (?pos - e_start s) (e_dst s) (e_op s) (e_last s))"
  proof (rule put_literals_ok)
    have "?pos div 16 \<le> n div 16" by (rule div_le_mono) (use pos in simp)
    then show "?pos + ?pos div 16 + 1 \<le> length (e_dst s)" using inv n(5) pos by (simp add: enc_inv_def)
    show "e_start s < ?pos \<or> e_last s \<noteq> None"
      using inv by (cases "e_last s") (auto simp: enc_inv_def pending_def)
  qed (use inv n pos in \<open>auto simp: enc_inv_def\<close>)
  then obtain d1 op1 st where lits: "put_literals src (e_start s) (?pos - e_start s) (e_dst s) (e_op s) (e_last s) = Some (d1, op1)"
    and d1: "e_op s \<le> op1" "length d1 = length (e_dst s)" "op1 \<le> ?pos + ?pos div 16 + 1" "frame 0 op1 (e_dst s) d1"
      "reads lim st (take op1 d1) (take ?pos src)" "op1 \<le> length (e_dst s)"
    by (auto simp: flushed_def)
  let ?m = "enc_match ?dist len 0"
  have m: "length ?m \<le> len - 1" "3 \<le> length ?m" using enc_match_length [OF len(1)] by blast+
  have size: "op1 + length ?m \<le> ?pos + len + (?pos + len) div 16"
  proof -
    have "?pos div 16 \<le> (?pos + len) div 16" by (rule div_le_mono) simp
    then show ?thesis using d1(3) m(1) len(1) by linarith
  qed
  have room: "op1 + length ?m \<le> length d1"
  proof -
    have "(?pos + len) div 16 \<le> n div 16" using len(2) by (rule div_le_mono)
    then show ?thesis using size len(2) n(5) d1(2) inv by (simp add: enc_inv_def)
  qed
  obtain d2 where d2: "store_block d1 op1 ?m = Some d2" "take (op1 + length ?m) d2 = take op1 d1 @ ?m"
    "frame 0 (op1 + length ?m) d1 d2" "length d2 = length d1"
    using room by (rule store_block_done)
  define pos' where "pos' = ?pos + len"
  define op' where "op' = op1 + length ?m"
  have op': "op1 + length (enc_inst len) + 2 = op'" by (simp add: op'_def enc_match_def)
  let ?upd1 = "if 2 \<le> pos' \<and> pos' - 2 \<le> n - 8 then dict_put src msk (e_dict s) (pos' - 2) (of_nat (pos' - 1)) else Some (e_dict s)"
  let ?upd2 = "\<lambda>dict. if 1 \<le> pos' \<and> pos' - 1 \<le> n - 8 then dict_put src msk dict (pos' - 1) (of_nat pos') else Some dict"
  have eq: "lzo_emit_match src n msk src_pos s = do { dict \<leftarrow> ?upd1; dict \<leftarrow> ?upd2 dict;
      Some \<lparr>e_dict = dict, e_pos = pos', e_start = pos', e_attempts = 32, e_op = op',
        e_last = Some (op1 + length (enc_inst len)), e_dst = d2\<rparr> }"
    unfolding op' [symmetric] pos'_def
    by (simp only: lzo_emit_match_def Let_def more(1) Option.bind.bind_lunit len_def [symmetric] lits
        prod.case put_match_eq d2(1))
  have "unat (of_nat k :: u32) \<le> k" for k by (simp add: unat_of_nat)
  then have v: "unat (of_nat (pos' - 1) :: u32) \<le> pos'" "unat (of_nat pos' :: u32) \<le> pos'"
    by (meson diff_le_self le_trans)+
  have dict0: "length (e_dict s) = entries" "\<forall>x \<in> set (e_dict s). unat x \<le> pos'"
    using inv len(1) by (auto simp: enc_inv_def pos'_def intro: le_trans)
  have near: "i + 8 \<le> length src" if "i \<le> n - 8" for i using that n(1) pos by linarith
  obtain dict1 where dict1: "?upd1 = Some dict1" "length dict1 = length (e_dict s)" "\<forall>x \<in> set dict1. unat x \<le> pos'"
    using dict_upd_ok [of "2 \<le> pos' \<and> pos' - 2 \<le> n - 8" "pos' - 2" src msk "e_dict s" "of_nat (pos' - 1)" pos']
      near dict0 v msk by blast
  have msk1: "unat msk < length dict1" using dict0(1) dict1(2) msk by simp
  obtain dict2 where dict2: "?upd2 dict1 = Some dict2" "length dict2 = length dict1" "\<forall>x \<in> set dict2. unat x \<le> pos'"
    using dict_upd_ok [of "1 \<le> pos' \<and> pos' - 1 \<le> n - 8" "pos' - 1" src msk dict1 "of_nat pos'" pos']
      near dict1(3) v msk1 by blast
  have fr: "frame 0 op' dst d2"
  proof -
    have "frame 0 (e_op s) dst (e_dst s)" using inv by (simp add: enc_inv_def)
    then have "frame 0 op' dst (e_dst s)" by (rule frame_widen) (use d1(1) in \<open>simp_all add: op'_def\<close>)
    moreover have "frame 0 op' (e_dst s) d1" using d1(4) by (rule frame_widen) (simp_all add: op'_def)
    moreover have "frame 0 op' d1 d2" using d2(3) by (simp add: op'_def)
    ultimately show ?thesis by (blast intro: frame_trans)
  qed
  have before: "take (pos' - len) src = take ?pos src" by (simp add: pos'_def)
  have copied: "lz_copy (take ?pos src) ?dist len = take pos' src"
    unfolding pos'_def using len n same src_pos by (intro lz_copy_take) simp_all
  have written: "take op' d2 = take op1 d1 @ ?m" "length (take op' d2) = op'"
    using d2(2,4) room by (simp_all add: op'_def)
  have pend: "pending lim src (take op' d2) pos' (Some (op1 + length (enc_inst len)))"
  proof (rule pendingI)
    show "op1 + length (enc_inst len) + 2 = length (take op' d2)" using written(2) op' by simp
    show "reads lim st (take op1 d1) (take (pos' - len) src)" using d1(5) before by simp
    show "lz_copy (take (pos' - len) src) ?dist len = take pos' src" using copied before by simp
    show "length (take op' d2) \<le> pos' + pos' div 16" using size written(2) by (simp add: op'_def pos'_def)
  qed (use written len src_pos in \<open>simp_all add: pos'_def\<close>)
  have "enc_inv lim src n entries dst pos' \<lparr>e_dict = dict2, e_pos = pos', e_start = pos', e_attempts = 32, e_op = op',
      e_last = Some (op1 + length (enc_inst len)), e_dst = d2\<rparr>"
    using inv fr pend dict0(1) dict1(2) dict2 d1 d2 room len by (simp add: enc_inv_def op'_def pos'_def)
  then show ?thesis
    using eq dict1(1) dict2(1) len by (simp add: pos'_def)
qed

lemma near_distance:
  assumes "previous \<noteq> 0" and "unat (previous :: u32) \<le> pos" and "pos \<le> UINT32_MAX"
    and "(of_nat pos :: u64) - (ucast previous - 1) \<le> 16384"
  shows "unat previous - 1 < pos" and "pos - (unat previous - 1) \<le> 16384"
proof -
  have p: "0 < unat previous" using assms(1) by (simp add: unat_gt_0)
  then show "unat previous - 1 < pos" using assms(2) by linarith
  have "(ucast previous :: u64) - 1 = of_nat (unat previous - 1)"
    using p by (simp add: of_nat_diff)
  then have "(of_nat pos :: u64) - (ucast previous - 1) = of_nat (pos - (unat previous - 1))"
    using assms(2) by (simp add: of_nat_diff)
  moreover have "unat (of_nat (pos - (unat previous - 1)) :: u64) = pos - (unat previous - 1)"
    using assms(3) unfolding unat_of_nat UINT32_MAX_def by (intro mod_less) simp
  ultimately have "unat ((of_nat pos :: u64) - (ucast previous - 1)) = pos - (unat previous - 1)" by simp
  then show "pos - (unat previous - 1) \<le> 16384"
    using assms(4) unfolding word_le_nat_alt by simp
qed

lemma lzo_probe_ok:
  assumes inv: "enc_inv lim src n entries dst (e_pos s) s"
    and n: "n \<le> length src" "n \<le> UINT32_MAX" "n \<le> lim" "lim \<le> SIZE_MAX" "n + n div 16 + 67 \<le> length dst"
    and pos: "e_pos s + 8 \<le> n" and msk: "unat msk < entries"
  shows "\<exists>s'. lzo_probe src n msk s = Some s' \<and> enc_inv lim src n entries dst (e_pos s') s' \<and> e_pos s < e_pos s'"
proof -
  let ?pos = "e_pos s"
  obtain h where h: "literal_hash src ?pos = Some h" using literal_hash_in [of ?pos src] n pos by auto
  have "unat (h AND msk) \<le> unat msk" by (metis and.commute word_and_le1 word_le_nat_alt)
  then have ix: "unat (h AND msk) < length (e_dict s)" using msk inv by (simp add: enc_inv_def)
  define previous where "previous = e_dict s ! unat (h AND msk)"
  define dict where "dict = (e_dict s)[unat (h AND msk) := of_nat (?pos + 1)]"
  define s1 where "s1 = s \<lparr>e_dict := dict\<rparr>"
  have old: "unat x \<le> ?pos" if "x \<in> set (e_dict s)" for x using that inv by (simp add: enc_inv_def)
  have prev: "unat previous \<le> ?pos" using ix by (intro old) (simp add: previous_def)
  have dict: "unat x \<le> ?pos + 1" if "x \<in> set dict" for x
  proof -
    have "x = of_nat (?pos + 1) \<or> x \<in> set (e_dict s)"
      using that set_update_subset_insert [of "e_dict s"] by (auto simp: dict_def)
    moreover have "unat (of_nat (?pos + 1) :: u32) \<le> ?pos + 1" by (simp only: unat_of_nat mod_less_eq_dividend)
    ultimately show ?thesis using old [of x] by auto
  qed
  let ?near = "previous \<noteq> 0 \<and> (of_nat ?pos :: u64) - (ucast previous - 1) \<le> 16384"
  let ?at = "unat previous - 1"
  have near: "?at < ?pos" "?pos - ?at \<le> 16384" if ?near
    using near_distance [of previous ?pos] that prev n(2) pos by auto
  define same where "same \<longleftrightarrow> ?near \<and> take 4 (drop ?at src) = take 4 (drop ?pos src)"
  have eq: "lzo_probe src n msk s =
      (if same then lzo_emit_match src n msk ?at s1
       else Some (s1 \<lparr>e_pos := ?pos + e_attempts s div 32, e_attempts := e_attempts s + 1\<rparr>))"
  proof -
    have "load_block src ?pos 4 = Some (take 4 (drop ?pos src))" using n(1) pos by (simp add: load_block_in)
    moreover have "load_block src ?at 4 = Some (take 4 (drop ?at src))" if ?near
      using near(1) [OF that] n(1) pos by (simp add: load_block_in)
    moreover have "load (e_dict s) (unat (h AND msk)) = Some previous"
      "store (e_dict s) (unat (h AND msk)) (of_nat (?pos + 1)) = Some dict"
      using ix by (simp_all add: load_in store_in previous_def dict_def)
    ultimately show ?thesis
      by (simp only: lzo_probe_def Let_def h Option.bind.bind_lunit same_def s1_def [symmetric])
        (auto simp: s1_def)
  qed
  show ?thesis
  proof (cases same)
    case True
    then have four: "src ! (?at + k) = src ! (?pos + k)" if "k < 4" for k
    proof -
      have "take 4 (drop ?at src) ! k = take 4 (drop ?pos src) ! k" using True by (simp add: same_def)
      moreover have "?at < ?pos" using near(1) True by (simp add: same_def)
      ultimately show ?thesis using that n(1) pos by simp
    qed
    have s1: "e_pos s1 = ?pos" by (simp add: s1_def)
    have inv1: "enc_inv lim src n entries dst (e_pos s1 + 1) s1"
      using inv dict by (simp add: enc_inv_def s1_def) (simp add: dict_def)
    have "\<exists>s'. lzo_emit_match src n msk ?at s1 = Some s' \<and> enc_inv lim src n entries dst (e_pos s') s' \<and> e_pos s1 < e_pos s'"
      by (rule lzo_emit_match_ok [OF inv1 n]) (use pos near True msk four in \<open>simp_all add: s1 same_def\<close>)
    then show ?thesis using True eq s1 by simp
  next
    case False
    have skip: "1 \<le> e_attempts s div 32"
    proof -
      have "32 div 32 \<le> e_attempts s div 32" using inv by (intro div_le_mono) (simp add: enc_inv_def)
      then show ?thesis by simp
    qed
    then have "unat x \<le> ?pos + e_attempts s div 32" if "x \<in> set dict" for x
      using dict [OF that] by linarith
    then have "enc_inv lim src n entries dst (?pos + e_attempts s div 32)
        (s1 \<lparr>e_pos := ?pos + e_attempts s div 32, e_attempts := e_attempts s + 1\<rparr>)"
      using inv skip by (simp add: enc_inv_def s1_def) (simp add: dict_def)
    then show ?thesis using False eq skip by simp
  qed
qed

lemma lzo_compress_loop_ok:
  assumes inv: "enc_inv lim src n entries dst (e_pos s) s"
    and n: "n \<le> length src" "n \<le> UINT32_MAX" "n \<le> lim" "lim \<le> SIZE_MAX" "n + n div 16 + 67 \<le> length dst"
    and big: "32 < n" and msk: "unat msk < entries"
  shows "\<exists>s'. lzo_compress_loop src n msk s = Some s' \<and> enc_inv lim src n entries dst (e_pos s') s'"
  using inv
proof (induction "n - e_pos s" arbitrary: s rule: less_induct)
  case less
  show ?case
  proof (cases "e_pos s \<le> n - 8")
    case False
    then show ?thesis using less.prems by (subst lzo_compress_loop.simps) simp
  next
    case True
    then have pos: "e_pos s + 8 \<le> n" using big by linarith
    obtain s' where s': "lzo_probe src n msk s = Some s'" "enc_inv lim src n entries dst (e_pos s') s'" "e_pos s < e_pos s'"
      using lzo_probe_ok [OF less.prems n pos msk] by blast
    have "n - e_pos s' < n - e_pos s" using s'(3) pos by linarith
    then obtain s'' where "lzo_compress_loop src n msk s' = Some s''" "enc_inv lim src n entries dst (e_pos s'') s''"
      using less.hyps [OF _ s'(2)] by blast
    then show ?thesis using True s'(1) by (subst lzo_compress_loop.simps) simp
  qed
qed

subsection \<open>The whole compressor\<close>

lemma compress_bound_eq:
  "hs_columnar_lzo1x_compress_bound n = (if n \<le> UINT32_MAX then n + n div 16 + 67 else 0)"
proof (cases "n \<le> UINT32_MAX")
  case True
  then have "n \<le> SIZE_MAX - 67" by (simp add: UINT32_MAX_def SIZE_MAX_def)
  moreover have "n div 16 \<le> SIZE_MAX - 67 - n"
    using True div_le_dividend [of n 16] by (simp add: UINT32_MAX_def SIZE_MAX_def)
  ultimately show ?thesis using True by (simp add: hs_columnar_lzo1x_compress_bound_def)
qed (simp add: hs_columnar_lzo1x_compress_bound_def)

lemma store_end:
  "do { dst \<leftarrow> store dst op a; dst \<leftarrow> store dst (op + 1) b; dst \<leftarrow> store dst (op + 2) c; f dst } =
   Option.bind (store_block dst op [a, b, c]) f"
  by (simp add: store_block_Cons eval_nat_numeral)

lemma lzo_finish:
  assumes "length d = length dst" and "op \<le> n + n div 16 + 1" and "frame 0 op dst d"
    and "lz_decode lim (take op d @ [17, 0, 0]) = (LZO_OK, take n src)" and "n + n div 16 + 67 \<le> length dst"
  shows "\<exists>dst' k. do { dst \<leftarrow> store d op 17; dst \<leftarrow> store dst (op + 1) 0;
      dst \<leftarrow> store dst (op + 2) 0; Some (LZO_OK, Some (op + 3), dst) } = Some (LZO_OK, Some k, dst') \<and>
    k \<le> n + n div 16 + 4 \<and> frame 0 k dst dst' \<and> lz_decode lim (take k dst') = (LZO_OK, take n src)"
proof -
  have "op + length [17, 0, 0 :: u8] \<le> length d" using assms(1,2,5) by simp
  then obtain d' where "store_block d op [17, 0, 0] = Some d'"
    "take (op + length [17, 0, 0 :: u8]) d' = take op d @ [17, 0, 0]" "frame 0 (op + length [17, 0, 0 :: u8]) d d'"
    by (rule store_block_done)
  moreover have "op + length [17, 0, 0 :: u8] = op + 3" by simp
  ultimately have d': "store_block d op [17, 0, 0] = Some d'" "take (op + 3) d' = take op d @ [17, 0, 0]"
    "frame 0 (op + 3) d d'" by metis+
  have "frame 0 (op + 3) dst d'"
    using frame_trans [OF frame_widen [OF assms(3)] d'(3)] by simp
  moreover have "do { dst \<leftarrow> store d op 17; dst \<leftarrow> store dst (op + 1) 0;
      dst \<leftarrow> store dst (op + 2) 0; Some (LZO_OK, Some (op + 3), dst) } = Some (LZO_OK, Some (op + 3), d')"
    unfolding store_end d'(1) by simp
  moreover have "op + 3 \<le> n + n div 16 + 4" using assms(2) by simp
  ultimately show ?thesis using assms(4) d'(2) by metis
qed

lemma lzo_compress_done:
  assumes "n \<le> length src" and "n \<le> UINT32_MAX" and "n \<le> lim" and "lim \<le> SIZE_MAX"
    and "n + n div 16 + 67 \<le> cap" and "cap \<le> length dst"
  shows "\<exists>dst' k. hs_columnar_lzo1x_compress src n dst cap (Some w) = Some (LZO_OK, Some k, dst') \<and>
    k \<le> n + n div 16 + 4 \<and> frame 0 k dst dst' \<and> lz_decode lim (take k dst') = (LZO_OK, take n src)"
proof -
  let ?entries = "if n \<le> 4096 then 1024 else 8192 :: nat"
  let ?msk = "of_nat (?entries - 1) :: u32"
  let ?s0 = "\<lambda>dict p. \<lparr>e_dict = dict, e_pos = p, e_start = 0, e_attempts = 32, e_op = 0, e_last = None, e_dst = dst\<rparr>"
  have room: "n + n div 16 + 67 \<le> length dst" using assms(5,6) by linarith
  let ?init = "if 32 < n then do {
      dict \<leftarrow> dict_put src ?msk (replicate ?entries 0) 0 1;
      lzo_compress_loop src n ?msk (?s0 dict 1) }
    else Some (?s0 [] 0)"
  have "\<exists>s. ?init = Some s \<and> length (e_dst s) = length dst \<and> frame 0 (e_op s) dst (e_dst s) \<and> e_op s \<le> length dst \<and>
      pending lim src (take (e_op s) (e_dst s)) (e_start s) (e_last s) \<and> e_start s \<le> n"
  proof (cases "32 < n")
    case True
    have msk: "unat ?msk < ?entries" by simp
    obtain dict where dict: "dict_put src ?msk (replicate ?entries 0) 0 1 = Some dict" "length dict = ?entries"
      "set dict \<subseteq> insert 1 (set (replicate ?entries (0 :: u32)))"
      using dict_put_ok [of 0 src ?msk "replicate ?entries 0" 1] True assms(1) msk by auto
    have small: "\<forall>x \<in> set dict. unat x \<le> 1"
      using dict(3) by (auto dest: subsetD)
    have "enc_inv lim src n ?entries dst 1 (?s0 dict 1)"
      using dict(2) small by (simp add: enc_inv_def pending_def)
    then have "\<exists>s. lzo_compress_loop src n ?msk (?s0 dict 1) = Some s \<and> enc_inv lim src n ?entries dst (e_pos s) s"
      using lzo_compress_loop_ok [of lim src n ?entries dst "?s0 dict 1" ?msk] assms(1-4) room True msk by simp
    then obtain s where "lzo_compress_loop src n ?msk (?s0 dict 1) = Some s" "enc_inv lim src n ?entries dst (e_pos s) s"
      by blast
    then show ?thesis using True dict(1) by (auto simp: enc_inv_def)
  qed (simp add: pending_def)
  then obtain s where s: "?init = Some s" "length (e_dst s) = length dst" "frame 0 (e_op s) dst (e_dst s)"
    "e_op s \<le> length dst" "pending lim src (take (e_op s) (e_dst s)) (e_start s) (e_last s)" "e_start s \<le> n"
    by blast
  let ?put = "put_literals src (e_start s) (n - e_start s) (e_dst s) (e_op s) (e_last s)"
  have eq: "hs_columnar_lzo1x_compress src n dst cap (Some w) = do {
      (dst, op) \<leftarrow> ?put;
      dst \<leftarrow> store dst op 17; dst \<leftarrow> store dst (op + 1) 0; dst \<leftarrow> store dst (op + 2) 0;
      Some (LZO_OK, Some (op + 3), dst) }"
    using assms(2,5) s(1)
    by (simp only: hs_columnar_lzo1x_compress_def compress_bound_eq Let_def s(1) Option.bind.bind_lunit) simp
  have "\<exists>d op. ?put = Some (d, op) \<and> length d = length dst \<and> op \<le> n + n div 16 + 1 \<and> frame 0 op dst d \<and>
      lz_decode lim (take op d @ [17, 0, 0]) = (LZO_OK, take n src)"
  proof (cases "n = 0")
    case True
    then have "s = ?s0 [] 0" using s(1) by simp
    moreover have "lz_decode lim [17, 0, 0] = (LZO_OK, [])"
      by (simp add: lz_decode_def lz_run_end)
    ultimately show ?thesis using True by (simp add: put_literals_def)
  next
    case False
    have "flushed lim src (e_dst s) (e_op s) n ?put"
    proof (rule put_literals_ok)
      show "e_start s < n \<or> e_last s \<noteq> None"
        using s(5) False by (cases "e_last s") (auto simp: pending_def)
    qed (use assms s room in simp_all)
    then obtain d op st where r: "?put = Some (d, op)" "length d = length dst" "e_op s \<le> op"
      "op \<le> n + n div 16 + 1" "frame 0 op (e_dst s) d" "reads lim st (take op d) (take n src)"
      using s(2) by (auto simp: flushed_def)
    have "frame 0 op dst d"
      by (rule frame_trans [OF frame_widen [OF s(3)] r(5)]) (use r(3) in simp_all)
    moreover have "lz_decode lim (take op d @ [17, 0, 0]) = (LZO_OK, take n src)"
      using r(6) lz_run_end by (simp add: reads_def)
    ultimately show ?thesis using r by blast
  qed
  then obtain d op where d: "?put = Some (d, op)" "length d = length dst" "op \<le> n + n div 16 + 1" "frame 0 op dst d"
      "lz_decode lim (take op d @ [17, 0, 0]) = (LZO_OK, take n src)" by blast
  show ?thesis
    unfolding eq d(1) Option.bind.bind_lunit prod.case by (rule lzo_finish [OF d(2-5) room])
qed

text \<open>
  C17: The compressor, for every input a Parquet page can hold (up to \<open>UINT32_MAX\<close> bytes) and every
  output of at least the advertised bound: it terminates without a fault, returns \<open>LZO_OK\<close>, needs at
  most \<open>n + n div 16 + 4\<close> bytes (less than the bound), and leaves the output behind them alone.
\<close>

theorem lzo_compress_bounded:
  assumes "n \<le> length src" and "n \<le> UINT32_MAX"
    and "hs_columnar_lzo1x_compress_bound n \<le> cap" and "cap \<le> length dst"
  shows "\<exists>dst' k. hs_columnar_lzo1x_compress src n dst cap (Some w) = Some (LZO_OK, Some k, dst') \<and>
    k \<le> n + n div 16 + 4 \<and> k \<le> hs_columnar_lzo1x_compress_bound n \<and> frame 0 k dst dst'"
proof -
  have "n \<le> SIZE_MAX" using assms(2) by (simp add: UINT32_MAX_def SIZE_MAX_def)
  then show ?thesis
    using lzo_compress_done [of n src n cap dst w] assms by (auto simp: compress_bound_eq)
qed

text \<open>
  C18: Refusals.  Inputs above \<open>UINT32_MAX\<close> are refused with \<open>LZO_OVERFLOW\<close>, an output below the bound
  with \<open>LZO_OUTPUT\<close>, and then nothing is read or written and the reported size is zero.
\<close>

theorem lzo_compress_refuses:
  assumes "UINT32_MAX < n \<or> cap < hs_columnar_lzo1x_compress_bound n"
  shows "hs_columnar_lzo1x_compress src n dst cap (Some w) =
    Some (if UINT32_MAX < n then LZO_OVERFLOW else LZO_OUTPUT, Some 0, dst)"
  using assms by (auto simp: hs_columnar_lzo1x_compress_def compress_bound_eq Let_def)

text \<open>
  C15: Round trip.  Decompressing what the compressor wrote, into any buffer that holds the original,
  returns \<open>LZO_OK\<close>, the original length and the original bytes, and leaves the rest alone.
\<close>

theorem lzo_roundtrip:
  assumes "n \<le> length src" and "n \<le> UINT32_MAX"
    and "hs_columnar_lzo1x_compress_bound n \<le> cap" and "cap \<le> length mid"
    and "n \<le> cap'" and "cap' \<le> length out" and "cap' \<le> SIZE_MAX"
  shows "\<exists>mid' k. hs_columnar_lzo1x_compress src n mid cap (Some w) = Some (LZO_OK, Some k, mid') \<and>
    hs_columnar_lzo1x_decompress mid' k (Some out) cap' (Some w') =
      Some (LZO_OK, Some n, Some (take n src @ drop n out))"
proof -
  obtain mid' k where c: "hs_columnar_lzo1x_compress src n mid cap (Some w) = Some (LZO_OK, Some k, mid')"
    "k \<le> n + n div 16 + 4" "frame 0 k mid mid'" "lz_decode cap' (take k mid') = (LZO_OK, take n src)"
    using lzo_compress_done [of n src cap' cap mid w] assms by (auto simp: compress_bound_eq)
  have "k \<le> length mid'" using c(2,3) assms(2-4) by (simp add: compress_bound_eq frame_length)
  then have "hs_columnar_lzo1x_decompress mid' k (Some out) cap' (Some w') =
      Some (LZO_OK, Some n, Some (take n src @ drop n out))"
    using decode_lzo1x_eq [of k mid' "Some out" cap' w'] assms(1,6) c(4)
    by (simp add: hs_columnar_lzo1x_decompress_def out_dst_def min_absorb2)
  with c(1) show ?thesis by blast
qed

text \<open>Witnesses.\<close>

lemma lzo_compress_bounded_witness:
  "\<exists>dst' k. hs_columnar_lzo1x_compress [7, 8] 2 (replicate 70 0) 69 (Some 0) = Some (LZO_OK, Some k, dst') \<and> k \<le> 6 \<and>
     drop 6 dst' = drop 6 (replicate 70 (0 :: u8))"
proof -
  obtain dst' k where "hs_columnar_lzo1x_compress [7, 8] 2 (replicate 70 0) 69 (Some 0) = Some (LZO_OK, Some k, dst')"
    "k \<le> 6" "frame 0 k (replicate 70 0) dst'"
    using lzo_compress_bounded [of 2 "[7, 8]" 69 "replicate 70 0" 0]
    by (auto simp: compress_bound_eq UINT32_MAX_def)
  then show ?thesis using frame_drop [of 0 k "replicate 70 0" dst' 6] by blast
qed

lemma lzo_compress_refuses_witness:
  "hs_columnar_lzo1x_compress [7, 8] 2 [5, 5, 5] 3 (Some 9) = Some (LZO_OUTPUT, Some 0, [5, 5, 5])"
  using lzo_compress_refuses [of 2 3 "[7, 8]" "[5, 5, 5]" 9] by (simp add: compress_bound_eq UINT32_MAX_def)

lemma lzo_roundtrip_witness:
  "\<exists>mid' k. hs_columnar_lzo1x_compress [7, 8, 9] 3 (replicate 70 0) 70 (Some 0) = Some (LZO_OK, Some k, mid') \<and>
     hs_columnar_lzo1x_decompress mid' k (Some [1, 1, 1, 1]) 4 (Some 0) = Some (LZO_OK, Some 3, Some [7, 8, 9, 1])"
  using lzo_roundtrip [of 3 "[7, 8, 9]" 70 "replicate 70 0" 4 "[1, 1, 1, 1]" 0 0]
  by (simp add: compress_bound_eq UINT32_MAX_def SIZE_MAX_def)

end
