(* ===== verification/Http1_Scan.thy ===== *)
theory Http1_Scan
  imports Simd
begin

text \<open>
  \<open>wireform-http1/cbits/http1_scan.c\<close> in its SSE2 variant: the delimiter scans of the HTTP/1.x
  parser, ASCII case folding, and the chunk-size parser.  Offsets are \<open>ptrdiff_t\<close> positions that the
  callers keep non-negative; a position past \<open>len\<close> is a miss.
\<close>

subsection \<open>Byte classes\<close>

definition is_tchar :: bytes where
  "is_tchar = [
     0, 0, 0, 0, 0, 0, 0, 0, 0, 0, 0, 0, 0, 0, 0, 0,
     0, 0, 0, 0, 0, 0, 0, 0, 0, 0, 0, 0, 0, 0, 0, 0,
     0, 1, 0, 1, 1, 1, 1, 1, 0, 0, 1, 1, 0, 1, 1, 0,
     1, 1, 1, 1, 1, 1, 1, 1, 1, 1, 0, 0, 0, 0, 0, 0,
     0, 1, 1, 1, 1, 1, 1, 1, 1, 1, 1, 1, 1, 1, 1, 1,
     1, 1, 1, 1, 1, 1, 1, 1, 1, 1, 1, 0, 0, 0, 1, 1,
     1, 1, 1, 1, 1, 1, 1, 1, 1, 1, 1, 1, 1, 1, 1, 1,
     1, 1, 1, 1, 1, 1, 1, 1, 1, 1, 1, 0, 1, 0, 1, 0,
     0, 0, 0, 0, 0, 0, 0, 0, 0, 0, 0, 0, 0, 0, 0, 0,
     0, 0, 0, 0, 0, 0, 0, 0, 0, 0, 0, 0, 0, 0, 0, 0,
     0, 0, 0, 0, 0, 0, 0, 0, 0, 0, 0, 0, 0, 0, 0, 0,
     0, 0, 0, 0, 0, 0, 0, 0, 0, 0, 0, 0, 0, 0, 0, 0,
     0, 0, 0, 0, 0, 0, 0, 0, 0, 0, 0, 0, 0, 0, 0, 0,
     0, 0, 0, 0, 0, 0, 0, 0, 0, 0, 0, 0, 0, 0, 0, 0,
     0, 0, 0, 0, 0, 0, 0, 0, 0, 0, 0, 0, 0, 0, 0, 0,
     0, 0, 0, 0, 0, 0, 0, 0, 0, 0, 0, 0, 0, 0, 0, 0]"

definition is_fv_ok :: bytes where
  "is_fv_ok = [
     0, 0, 0, 0, 0, 0, 0, 0, 0, 1, 0, 0, 0, 0, 0, 0,
     0, 0, 0, 0, 0, 0, 0, 0, 0, 0, 0, 0, 0, 0, 0, 0,
     1, 1, 1, 1, 1, 1, 1, 1, 1, 1, 1, 1, 1, 1, 1, 1,
     1, 1, 1, 1, 1, 1, 1, 1, 1, 1, 1, 1, 1, 1, 1, 1,
     1, 1, 1, 1, 1, 1, 1, 1, 1, 1, 1, 1, 1, 1, 1, 1,
     1, 1, 1, 1, 1, 1, 1, 1, 1, 1, 1, 1, 1, 1, 1, 1,
     1, 1, 1, 1, 1, 1, 1, 1, 1, 1, 1, 1, 1, 1, 1, 1,
     1, 1, 1, 1, 1, 1, 1, 1, 1, 1, 1, 1, 1, 1, 1, 0,
     1, 1, 1, 1, 1, 1, 1, 1, 1, 1, 1, 1, 1, 1, 1, 1,
     1, 1, 1, 1, 1, 1, 1, 1, 1, 1, 1, 1, 1, 1, 1, 1,
     1, 1, 1, 1, 1, 1, 1, 1, 1, 1, 1, 1, 1, 1, 1, 1,
     1, 1, 1, 1, 1, 1, 1, 1, 1, 1, 1, 1, 1, 1, 1, 1,
     1, 1, 1, 1, 1, 1, 1, 1, 1, 1, 1, 1, 1, 1, 1, 1,
     1, 1, 1, 1, 1, 1, 1, 1, 1, 1, 1, 1, 1, 1, 1, 1,
     1, 1, 1, 1, 1, 1, 1, 1, 1, 1, 1, 1, 1, 1, 1, 1,
     1, 1, 1, 1, 1, 1, 1, 1, 1, 1, 1, 1, 1, 1, 1, 1]"

text \<open>RFC 9110: \<open>tchar\<close> (section 5.6.2), and the bytes of a field value (section 5.5).\<close>

definition tchar :: "u8 \<Rightarrow> bool" where
  "tchar b \<longleftrightarrow> 0x30 \<le> b \<and> b \<le> 0x39 \<or> 0x41 \<le> b \<and> b \<le> 0x5A \<or> 0x61 \<le> b \<and> b \<le> 0x7A \<or>
     b \<in> set [0x21, 0x23, 0x24, 0x25, 0x26, 0x27, 0x2A, 0x2B, 0x2D, 0x2E, 0x5E, 0x5F, 0x60, 0x7C, 0x7E]"

definition field_value_byte :: "u8 \<Rightarrow> bool" where
  "field_value_byte b \<longleftrightarrow> b = 0x20 \<or> b = 0x09 \<or> 0x21 \<le> b \<and> b \<le> 0x7E \<or> 0x80 \<le> b"

lemma is_tchar_list: "is_tchar = map (\<lambda>n. of_bool (tchar (of_nat n))) [0..<256]"
  by code_simp

lemma is_fv_ok_list: "is_fv_ok = map (\<lambda>n. of_bool (field_value_byte (of_nat n))) [0..<256]"
  by code_simp

lemma is_tchar_nth: "is_tchar ! unat b = of_bool (tchar b)"
  by (simp add: is_tchar_list)

lemma is_fv_ok_nth: "is_fv_ok ! unat b = of_bool (field_value_byte b)"
  by (simp add: is_fv_ok_list)

subsection \<open>Delimiter scans\<close>

text \<open>A miss is reported as \<open>len\<close>.\<close>

definition or_len :: "nat \<Rightarrow> nat option \<Rightarrow> nat" where
  "or_len len r = (case r of Some k \<Rightarrow> k | None \<Rightarrow> len)"

definition find_single_byte_scalar :: "bytes \<Rightarrow> nat \<Rightarrow> nat \<Rightarrow> u8 \<Rightarrow> nat option" where
  "find_single_byte_scalar p off len needle = map_option (or_len len) (scan_bytes (\<lambda>b. b = needle) p off len)"

definition single_byte_mask :: "u8 \<Rightarrow> m128i \<Rightarrow> u32" where
  "single_byte_mask needle v =
     (let n = simde_mm_set1_epi8 needle;
          eq = simde_mm_cmpeq_epi8 v n
      in simde_mm_movemask_epi8 eq)"

definition find_single_byte :: "bytes \<Rightarrow> nat \<Rightarrow> nat \<Rightarrow> u8 \<Rightarrow> nat option" where
  "find_single_byte p off len needle = do {
     r \<leftarrow> scan_blocks (simde_mm_loadu_si128 p) (single_byte_mask needle) off len;
     (case r of Inl k \<Rightarrow> Some k | Inr i \<Rightarrow> find_single_byte_scalar p i len needle)
   }"

definition hs_http1_find_cr :: "bytes \<Rightarrow> nat \<Rightarrow> nat \<Rightarrow> nat option" where
  "hs_http1_find_cr buf off len = find_single_byte buf off len 0x0D"

definition hs_http1_find_lf :: "bytes \<Rightarrow> nat \<Rightarrow> nat \<Rightarrow> nat option" where
  "hs_http1_find_lf buf off len = find_single_byte buf off len 0x0A"

definition find_non_token_scalar :: "bytes \<Rightarrow> nat \<Rightarrow> nat \<Rightarrow> nat option" where
  "find_non_token_scalar p off len =
     map_option (or_len len) (scan_bytes (\<lambda>b. is_tchar ! unat b = 0) p off len)"

text \<open>The unrolled table test of a block, and the rescan that takes the least failing index.\<close>

definition token_acc :: "bytes \<Rightarrow> u8" where
  "token_acc chunk = fold (\<lambda>b acc. acc AND is_tchar ! unat b) chunk 1"

definition token_hit :: "bytes \<Rightarrow> nat" where
  "token_hit chunk =
     fold (\<lambda>j hit. if is_tchar ! unat (chunk ! j) = 0 then (if j < hit then j else hit) else hit) [0..<16] 16"

function token_blocks :: "bytes \<Rightarrow> nat \<Rightarrow> nat \<Rightarrow> (nat + nat) option" where
  "token_blocks p i len =
     (if 16 \<le> len - i then do {
        chunk \<leftarrow> load_block p i 16;
        if token_acc chunk = 0 then Some (Inl (i + token_hit chunk))
        else token_blocks p (i + 16) len
      }
      else Some (Inr i))"
  by pat_completeness auto
termination
  by (relation "measure (\<lambda>(p, i, len). len - i)") auto

declare token_blocks.simps [simp del]

definition hs_http1_find_non_token :: "bytes \<Rightarrow> nat \<Rightarrow> nat \<Rightarrow> nat option" where
  "hs_http1_find_non_token p off len = do {
     r \<leftarrow> token_blocks p off len;
     (case r of Inl k \<Rightarrow> Some k | Inr i \<Rightarrow> find_non_token_scalar p i len)
   }"

definition find_non_fv_scalar :: "bytes \<Rightarrow> nat \<Rightarrow> nat \<Rightarrow> nat option" where
  "find_non_fv_scalar p off len =
     map_option (or_len len) (scan_bytes (\<lambda>b. is_fv_ok ! unat b = 0) p off len)"

definition non_fv_mask :: "m128i \<Rightarrow> u32" where
  "non_fv_mask v =
     (let v_2080 = simde_mm_set1_epi8 0xA0;
          v_tab = simde_mm_set1_epi8 0x09;
          v_del = simde_mm_set1_epi8 0x7F;
          v_sign = simde_mm_set1_epi8 0x80;
          v_signed = simde_mm_xor_si128 v v_sign;
          lt_20 = simde_mm_cmplt_epi8 v_signed v_2080;
          not_tab = simde_mm_xor_si128 (simde_mm_cmpeq_epi8 v v_tab) (simde_mm_set1_epi8 0xFF);
          forbid_low = simde_mm_and_si128 lt_20 not_tab;
          forbid_del = simde_mm_cmpeq_epi8 v v_del;
          forbid = simde_mm_or_si128 forbid_low forbid_del
      in simde_mm_movemask_epi8 forbid)"

definition hs_http1_find_non_fieldvalue :: "bytes \<Rightarrow> nat \<Rightarrow> nat \<Rightarrow> nat option" where
  "hs_http1_find_non_fieldvalue p off len = do {
     r \<leftarrow> scan_blocks (simde_mm_loadu_si128 p) non_fv_mask off len;
     (case r of Inl k \<Rightarrow> Some k | Inr i \<Rightarrow> find_non_fv_scalar p i len)
   }"

interpretation single_byte: lane_test "single_byte_mask needle" "\<lambda>b. b = needle" for needle
  by unfold_locales (auto simp: single_byte_mask_def Let_def simd_simps split: if_splits)

lemma below_space_biased: "sint ((b :: u8) XOR 0x80) < sint (0xA0 :: u8) \<longleftrightarrow> b < 0x20"
  by (rule all_bytes [of _ b]; code_simp)

lemma field_value_byte_alt: "field_value_byte b \<longleftrightarrow> (0x20 \<le> b \<or> b = 0x09) \<and> b \<noteq> 0x7F"
  by (rule all_bytes [of _ b]; code_simp)

interpretation non_fv: lane_test non_fv_mask "\<lambda>b. \<not> field_value_byte b"
proof
  fix v :: m128i and i
  assume "length v = 16"
  then show "bit (non_fv_mask v) i \<longleftrightarrow> i < 16 \<and> \<not> field_value_byte (v ! i)"
    by (cases "i < 16")
      (auto simp: non_fv_mask_def Let_def simd_simps bit_or_iff bit_and_iff bit_xor_iff
        below_space_biased [simplified] field_value_byte_alt not_le)
qed

text \<open>The first position in \<open>[off, len)\<close> whose byte satisfies \<open>p\<close>, or \<open>len\<close>.\<close>

definition first_or_len :: "(u8 \<Rightarrow> bool) \<Rightarrow> bytes \<Rightarrow> nat \<Rightarrow> nat \<Rightarrow> nat" where
  "first_or_len p buf off len = or_len len (first_pos p buf off len)"

lemma token_acc_0: "token_acc chunk = 0 \<longleftrightarrow> (\<exists>b \<in> set chunk. \<not> tchar b)"
proof -
  have "fold (\<lambda>b acc. acc AND is_tchar ! unat b) chunk a = (if \<forall>b \<in> set chunk. tchar b then a else 0)"
    if "a = 0 \<or> a = 1" for a :: u8
    using that by (induction chunk arbitrary: a) (auto simp: is_tchar_nth)
  from this [of 1] show ?thesis by (auto simp: token_acc_def)
qed

lemma token_hit_eq:
  assumes "length chunk = 16" and "j < 16" and "\<not> tchar (chunk ! j)" and "\<And>i. i < j \<Longrightarrow> tchar (chunk ! i)"
  shows "token_hit chunk = j"
proof -
  have "fold (\<lambda>j hit. if is_tchar ! unat (chunk ! j) = 0 then (if j < hit then j else hit) else hit) [0..<n] 16 =
      (if j < n then j else 16)" if "n \<le> 16" for n
    using that assms(2-4) by (induction n) (auto simp: is_tchar_nth less_Suc_eq)
  from this [of 16] show ?thesis using assms(2) by (simp add: token_hit_def)
qed

lemma token_blocks_spec:
  assumes "len \<le> length p"
  shows "case token_blocks p i len of
      None \<Rightarrow> False
    | Some (Inl k) \<Rightarrow> first_pos (\<lambda>b. \<not> tchar b) p i len = Some k
    | Some (Inr j) \<Rightarrow> first_pos (\<lambda>b. \<not> tchar b) p i len = first_pos (\<lambda>b. \<not> tchar b) p j len"
  using assms
proof (induction p i len rule: token_blocks.induct)
  case (1 p i len)
  show ?case
  proof (cases "16 \<le> len - i")
    case True
    define chunk where "chunk = take 16 (drop i p)"
    have c: "length chunk = 16" "load_block p i 16 = Some chunk" "\<And>k. k < 16 \<Longrightarrow> chunk ! k = p ! (i + k)"
      using True 1(2) by (auto simp: chunk_def load_block_in)
    show ?thesis
    proof (cases "token_acc chunk = 0")
      case False
      then have "\<forall>b \<in> set chunk. tchar b" by (simp add: token_acc_0)
      then have ok: "tchar (p ! k)" if "i \<le> k" "k < i + 16" for k
        using that c(1) c(3) [of "k - i"] nth_mem [of "k - i" chunk] by auto
      then have "first_pos (\<lambda>b. \<not> tchar b) p i len = first_pos (\<lambda>b. \<not> tchar b) p (i + 16) len"
        using True by (intro first_pos_skip) auto
      then show ?thesis
        using 1 True c(2) False by (subst token_blocks.simps) (auto split: option.splits sum.splits)
    next
      case bad: True
      then obtain k where "k < 16" "\<not> tchar (chunk ! k)"
        using c(1) by (auto simp: token_acc_0 in_set_conv_nth)
      then have "\<exists>k. k < 16 \<and> \<not> tchar (chunk ! k)" by blast
      then obtain j where "j < 16" "\<not> tchar (chunk ! j)" "\<forall>i<j. \<not> (i < 16 \<and> \<not> tchar (chunk ! i))"
        unfolding exists_least_iff [of "\<lambda>k. k < 16 \<and> \<not> tchar (chunk ! k)"] by blast
      then have j: "j < 16" "\<not> tchar (chunk ! j)" "\<And>i. i < j \<Longrightarrow> tchar (chunk ! i)" by auto
      have "first_pos (\<lambda>b. \<not> tchar b) p i len = Some (i + j)"
      proof (rule first_pos_hit)
        fix k assume "i \<le> k" "k < i + j"
        then show "\<not> \<not> tchar (p ! k)" using j(1) j(3) [of "k - i"] c(3) [of "k - i"] by auto
      qed (use j c True in auto)
      then show ?thesis
        using True c(2) bad token_hit_eq [OF c(1) j] by (subst token_blocks.simps) simp
    qed
  qed (simp add: token_blocks.simps)
qed

text \<open>
  C19: The four delimiter scans return the first position in \<open>[off, len)\<close> at which the parser must
  stop (a carriage return, a line feed, a byte that is no RFC 9110 token character, a byte that may
  not occur in a field value), or \<open>len\<close>; they read nothing outside the buffer, and an \<open>off\<close> beyond
  \<open>len\<close> is a miss.
\<close>

theorem http1_scans_correct:
  assumes "len \<le> length buf"
  shows "hs_http1_find_cr buf off len = Some (first_or_len (\<lambda>b. b = 0x0D) buf off len) \<and>
    hs_http1_find_lf buf off len = Some (first_or_len (\<lambda>b. b = 0x0A) buf off len) \<and>
    hs_http1_find_non_token buf off len = Some (first_or_len (\<lambda>b. \<not> tchar b) buf off len) \<and>
    hs_http1_find_non_fieldvalue buf off len = Some (first_or_len (\<lambda>b. \<not> field_value_byte b) buf off len)"
proof -
  have single: "find_single_byte buf off len c = Some (first_or_len (\<lambda>b. b = c) buf off len)" for c
    using single_byte.scan16_loadu [OF assms, of c off]
    by (auto simp: find_single_byte_def find_single_byte_scalar_def first_or_len_def scan16_def or_len_def
        split: bind_splits sum.splits option.splits)
  have tok: "(\<lambda>b. is_tchar ! unat b = 0) = (\<lambda>b. \<not> tchar b)" by (simp add: is_tchar_nth fun_eq_iff)
  have fv: "(\<lambda>b. is_fv_ok ! unat b = 0) = (\<lambda>b. \<not> field_value_byte b)" by (simp add: is_fv_ok_nth fun_eq_iff)
  have "hs_http1_find_non_token buf off len = Some (first_or_len (\<lambda>b. \<not> tchar b) buf off len)"
    using token_blocks_spec [OF assms, of off]
    by (auto simp: hs_http1_find_non_token_def find_non_token_scalar_def tok scan_bytes_spec [OF assms]
        first_or_len_def or_len_def split: option.splits sum.splits)
  moreover have "hs_http1_find_non_fieldvalue buf off len = Some (first_or_len (\<lambda>b. \<not> field_value_byte b) buf off len)"
    using non_fv.scan16_loadu [OF assms, of off]
    by (auto simp: hs_http1_find_non_fieldvalue_def find_non_fv_scalar_def fv first_or_len_def scan16_def or_len_def
        split: bind_splits sum.splits option.splits)
  ultimately show ?thesis by (simp add: hs_http1_find_cr_def hs_http1_find_lf_def single)
qed

end
