(* ===== verification/Http1_Text.thy ===== *)
theory Http1_Text
  imports Http1_Scan Endian
begin

text \<open>
  The text helpers of \<open>http1_scan.c\<close>: lower-casing header names (in place or between disjoint
  regions of one memory), case-insensitive comparison, and chunk sizes in hexadecimal.
\<close>

subsection \<open>Case folding\<close>

definition lower_byte :: "u8 \<Rightarrow> u8" where
  "lower_byte b = (if 0x41 \<le> b \<and> b \<le> 0x5A then b OR 0x20 else b)"

definition lower16 :: "m128i \<Rightarrow> m128i" where
  "lower16 v =
     (let v_A = simde_mm_set1_epi8 0xC0;
          v_Z = simde_mm_set1_epi8 0xDB;
          v_sign = simde_mm_set1_epi8 0x80;
          v_diff = simde_mm_set1_epi8 0x20;
          vs = simde_mm_xor_si128 v v_sign;
          ge_A = simde_mm_cmpgt_epi8 vs v_A;
          le_Z = simde_mm_cmpgt_epi8 v_Z vs;
          is_upper = simde_mm_and_si128 ge_A le_Z;
          add = simde_mm_and_si128 is_upper v_diff
      in simde_mm_or_si128 v add)"

function lower_blocks :: "bytes \<Rightarrow> nat \<Rightarrow> nat \<Rightarrow> nat \<Rightarrow> nat \<Rightarrow> (bytes \<times> nat) option" where
  "lower_blocks mem src dst i len =
     (if 16 \<le> len - i then do {
        v \<leftarrow> simde_mm_loadu_si128 mem (src + i);
        mem \<leftarrow> simde_mm_storeu_si128 mem (dst + i) (lower16 v);
        lower_blocks mem src dst (i + 16) len
      }
      else Some (mem, i))"
  by pat_completeness auto
termination
  by (relation "measure (\<lambda>(mem, src, dst, i, len). len - i)") auto

function lower_bytes :: "bytes \<Rightarrow> nat \<Rightarrow> nat \<Rightarrow> nat \<Rightarrow> nat \<Rightarrow> bytes option" where
  "lower_bytes mem src dst i len =
     (if i < len then do {
        b \<leftarrow> load mem (src + i);
        mem \<leftarrow> store mem (dst + i) (lower_byte b);
        lower_bytes mem src dst (i + 1) len
      }
      else Some mem)"
  by pat_completeness auto
termination
  by (relation "measure (\<lambda>(mem, src, dst, i, len). len - i)") auto

definition hs_http1_to_lower_ascii :: "bytes \<Rightarrow> nat \<Rightarrow> nat \<Rightarrow> nat \<Rightarrow> bytes option" where
  "hs_http1_to_lower_ascii mem src dst len = do {
     (mem, i) \<leftarrow> lower_blocks mem src dst 0 len;
     lower_bytes mem src dst i len
   }"

function ieq_blocks :: "bytes \<Rightarrow> bytes \<Rightarrow> nat \<Rightarrow> nat \<Rightarrow> (bool + nat) option" where
  "ieq_blocks a b i len =
     (if 16 \<le> len - i then do {
        va \<leftarrow> simde_mm_loadu_si128 a i;
        vb \<leftarrow> simde_mm_loadu_si128 b i;
        let eq = simde_mm_cmpeq_epi8 (lower16 va) (lower16 vb);
        if simde_mm_movemask_epi8 eq \<noteq> 0xFFFF then Some (Inl False)
        else ieq_blocks a b (i + 16) len
      }
      else Some (Inr i))"
  by pat_completeness auto
termination
  by (relation "measure (\<lambda>(a, b, i, len). len - i)") auto

function ieq_bytes :: "bytes \<Rightarrow> bytes \<Rightarrow> nat \<Rightarrow> nat \<Rightarrow> bool option" where
  "ieq_bytes a b i len =
     (if i < len then do {
        aa \<leftarrow> load a i;
        bb \<leftarrow> load b i;
        if lower_byte aa \<noteq> lower_byte bb then Some False else ieq_bytes a b (i + 1) len
      }
      else Some True)"
  by pat_completeness auto
termination
  by (relation "measure (\<lambda>(a, b, i, len). len - i)") auto

declare lower_blocks.simps [simp del] lower_bytes.simps [simp del]
  ieq_blocks.simps [simp del] ieq_bytes.simps [simp del]

definition hs_http1_ascii_ieq :: "bytes \<Rightarrow> bytes \<Rightarrow> nat \<Rightarrow> bool option" where
  "hs_http1_ascii_ieq a b len = do {
     r \<leftarrow> ieq_blocks a b 0 len;
     (case r of Inl res \<Rightarrow> Some res | Inr i \<Rightarrow> ieq_bytes a b i len)
   }"

text \<open>The vector code lower-cases every lane.\<close>

lemma lower_lane:
  "b OR (((if sint (0xC0 :: u8) < sint (b XOR 0x80) then 0xFF else 0) AND
      (if sint (b XOR 0x80) < sint (0xDB :: u8) then 0xFF else 0)) AND 0x20) = lower_byte b"
  by (rule all_bytes [of _ b]; code_simp)

lemma lower16_map:
  assumes "length v = 16"
  shows "lower16 v = map lower_byte v"
proof (rule nth_equalityI)
  show "length (lower16 v) = length (map lower_byte v)"
    using assms by (simp add: lower16_def Let_def simd_length)
  fix i assume "i < length (lower16 v)"
  then have i: "i < 16" using assms by (simp add: lower16_def Let_def simd_length)
  have "lower16 v ! i = v ! i OR (((if sint (0xC0 :: u8) < sint (v ! i XOR 0x80) then 0xFF else 0) AND
      (if sint (v ! i XOR 0x80) < sint (0xDB :: u8) then 0xFF else 0)) AND 0x20)"
    unfolding lower16_def Let_def using assms i by (simp only: simd_nth simd_length)
  then show "lower16 v ! i = map lower_byte v ! i"
    using assms i by (simp only: lower_lane nth_map)
qed

text \<open>Memory after the first \<open>i\<close> bytes have been lower-cased.\<close>

definition lowered :: "bytes \<Rightarrow> nat \<Rightarrow> nat \<Rightarrow> nat \<Rightarrow> bytes" where
  "lowered mem src dst i = take dst mem @ map lower_byte (take i (drop src mem)) @ drop (dst + i) mem"

lemma lowered_0 [simp]: "lowered mem src dst 0 = mem"
  by (simp add: lowered_def)

lemma lowered_store:
  assumes "src + i \<le> length mem" and "dst + i \<le> length mem"
  shows "store_block mem dst (map lower_byte (take i (drop src mem))) = Some (lowered mem src dst i)"
proof -
  have "length (map lower_byte (take i (drop src mem))) = i" using assms(1) by simp
  then show ?thesis using assms(2) by (simp add: store_block_in lowered_def del: length_take length_map)
qed

lemma lowered_step:
  assumes "src + (i + k) \<le> length mem" and "dst + (i + k) \<le> length mem"
    and "src = dst \<or> src + (i + k) \<le> dst \<or> dst + (i + k) \<le> src"
  shows "take k (drop (src + i) (lowered mem src dst i)) = take k (drop (src + i) mem)"
    and "store_block (lowered mem src dst i) (dst + i) (map lower_byte (take k (drop (src + i) mem))) =
      Some (lowered mem src dst (i + k))"
    and "length (lowered mem src dst i) = length mem"
proof -
  have st: "store_block mem dst (map lower_byte (take i (drop src mem))) = Some (lowered mem src dst i)"
    using assms by (intro lowered_store) simp_all
  have "length (map lower_byte (take i (drop src mem))) = i" using assms(1) by simp
  then have fr: "frame dst (dst + i) mem (lowered mem src dst i)" using store_block_frame [OF st] by simp
  then show "take k (drop (src + i) (lowered mem src dst i)) = take k (drop (src + i) mem)"
    using assms by (intro frame_block [OF fr]) auto
  show "length (lowered mem src dst i) = length mem" using frame_length [OF fr] .
  have "Some (lowered mem src dst (i + k)) = store_block mem dst (map lower_byte (take (i + k) (drop src mem)))"
    using assms by (intro lowered_store [symmetric]) simp_all
  also have "map lower_byte (take (i + k) (drop src mem)) =
      map lower_byte (take i (drop src mem)) @ map lower_byte (take k (drop (src + i) mem))"
    by (simp add: take_add add.commute)
  also have "store_block mem dst \<dots> =
      store_block (lowered mem src dst i) (dst + i) (map lower_byte (take k (drop (src + i) mem)))"
    unfolding store_block_append st using assms(1) by simp
  finally show "store_block (lowered mem src dst i) (dst + i) (map lower_byte (take k (drop (src + i) mem))) =
      Some (lowered mem src dst (i + k))" by simp
qed

lemma lower_blocks_spec:
  assumes "src + len \<le> length mem" and "dst + len \<le> length mem"
    and "src = dst \<or> src + len \<le> dst \<or> dst + len \<le> src" and "i \<le> len"
  shows "\<exists>j. j \<le> len \<and> lower_blocks (lowered mem src dst i) src dst i len = Some (lowered mem src dst j, j)"
  using assms(4)
proof (induction "len - i" arbitrary: i rule: less_induct)
  case less
  show ?case
  proof (cases "16 \<le> len - i")
    case False
    then show ?thesis using less.prems by (subst lower_blocks.simps) auto
  next
    case True
    then have i: "i + 16 \<le> len" by simp
    note step = lowered_step [of src i 16 mem dst]
    have pre: "src + (i + 16) \<le> length mem" "dst + (i + 16) \<le> length mem"
      "src = dst \<or> src + (i + 16) \<le> dst \<or> dst + (i + 16) \<le> src"
      using i assms by auto
    have v: "length (take 16 (drop (src + i) mem)) = 16" using pre(1) by simp
    have "\<exists>j. j \<le> len \<and> lower_blocks (lowered mem src dst (i + 16)) src dst (i + 16) len = Some (lowered mem src dst j, j)"
      using i by (intro less.hyps) simp_all
    then show ?thesis
      using True step [OF pre] pre v
      by (subst lower_blocks.simps)
        (simp add: simde_mm_loadu_si128_def simde_mm_storeu_si128_def load_block_def lower16_map)
  qed
qed

lemma lower_bytes_spec:
  assumes "src + len \<le> length mem" and "dst + len \<le> length mem"
    and "src = dst \<or> src + len \<le> dst \<or> dst + len \<le> src" and "i \<le> len"
  shows "lower_bytes (lowered mem src dst i) src dst i len = Some (lowered mem src dst len)"
  using assms(4)
proof (induction "len - i" arbitrary: i)
  case 0
  then show ?case by (subst lower_bytes.simps) simp
next
  case (Suc d)
  then have i: "i + 1 \<le> len" by simp
  note step = lowered_step [of src i 1 mem dst]
  have pre: "src + (i + 1) \<le> length mem" "dst + (i + 1) \<le> length mem"
    "src = dst \<or> src + (i + 1) \<le> dst \<or> dst + (i + 1) \<le> src"
    using i assms by auto
  have one: "take 1 (drop (src + i) xs) = [xs ! (src + i)]" if "length xs = length mem" for xs
    using pre(1) that by (simp add: Cons_nth_drop_Suc [symmetric])
  have ld: "load (lowered mem src dst i) (src + i) = Some (mem ! (src + i))"
    using step(1,3) [OF pre] one [of mem] one [of "lowered mem src dst i"] pre(1) by (simp add: load_def)
  have st: "store (lowered mem src dst i) (dst + i) (lower_byte (mem ! (src + i))) = Some (lowered mem src dst (i + 1))"
    using step(2) [OF pre] one [of mem] by (simp add: store_as_block)
  have "lower_bytes (lowered mem src dst (i + 1)) src dst (i + 1) len = Some (lowered mem src dst len)"
    using Suc by (intro Suc.hyps) simp_all
  then show ?case using i ld st by (subst lower_bytes.simps) simp
qed

text \<open>
  Lower-casing header names, in place or between disjoint buffers: exactly the \<open>len\<close> bytes at
  \<open>dst\<close> become the lower-case form of the bytes that were at \<open>src\<close> before the call.
\<close>

theorem http1_to_lower_correct:
  assumes "src + len \<le> length mem" and "dst + len \<le> length mem"
    and "src = dst \<or> src + len \<le> dst \<or> dst + len \<le> src"
  shows "hs_http1_to_lower_ascii mem src dst len =
    Some (take dst mem @ map lower_byte (take len (drop src mem)) @ drop (dst + len) mem)"
proof -
  obtain j where "j \<le> len" "lower_blocks mem src dst 0 len = Some (lowered mem src dst j, j)"
    using lower_blocks_spec [OF assms, of 0] by auto
  then show ?thesis
    using lower_bytes_spec [OF assms, of j] by (simp add: hs_http1_to_lower_ascii_def lowered_def)
qed

lemma movemask_all: "length v = 16 \<Longrightarrow> simde_mm_movemask_epi8 v = 0xFFFF \<longleftrightarrow> (\<forall>i<16. bit (v ! i) 7)"
proof -
  assume v: "length v = 16"
  have m: "(0xFFFF :: u32) = mask 16" by (simp add: mask_eq_exp_minus_1)
  show ?thesis
  proof
    assume eq: "simde_mm_movemask_epi8 v = 0xFFFF"
    show "\<forall>i<16. bit (v ! i) 7"
    proof (intro allI impI)
      fix i :: nat assume "i < 16"
      then have "bit (mask 16 :: u32) i" by (simp add: bit_mask_iff)
      then have "bit (simde_mm_movemask_epi8 v) i" unfolding eq m .
      then show "bit (v ! i) 7" unfolding movemask_bit [OF v] by blast
    qed
  next
    assume all: "\<forall>i<16. bit (v ! i) 7"
    show "simde_mm_movemask_epi8 v = 0xFFFF"
    proof (rule bit_word_eqI)
      fix i show "bit (simde_mm_movemask_epi8 v) i = bit (0xFFFF :: u32) i"
        unfolding m movemask_bit [OF v] bit_mask_iff possible_bit_word using all by auto
    qed
  qed
qed

lemma ieq_block:
  assumes "length va = 16" and "length vb = 16"
  shows "simde_mm_movemask_epi8 (simde_mm_cmpeq_epi8 (lower16 va) (lower16 vb)) = 0xFFFF \<longleftrightarrow>
    map lower_byte va = map lower_byte vb"
proof -
  have "length (simde_mm_cmpeq_epi8 (lower16 va) (lower16 vb)) = 16"
    using assms by (simp add: lower16_map simd_length)
  then have "simde_mm_movemask_epi8 (simde_mm_cmpeq_epi8 (lower16 va) (lower16 vb)) = 0xFFFF \<longleftrightarrow>
      (\<forall>i<16. lower_byte (va ! i) = lower_byte (vb ! i))"
    using assms by (auto simp: movemask_all lower16_map simd_nth split: if_splits)
  then show ?thesis using assms by (simp add: list_eq_iff_nth_eq)
qed

lemma ieq_bytes_spec:
  assumes "len \<le> length a" and "len \<le> length b"
  shows "ieq_bytes a b i len = Some (\<forall>k. i \<le> k \<and> k < len \<longrightarrow> lower_byte (a ! k) = lower_byte (b ! k))"
  using assms
proof (induction a b i len rule: ieq_bytes.induct)
  case (1 a b i len)
  show ?case
  proof (cases "i < len")
    case True
    then have "(\<forall>k. i \<le> k \<and> k < len \<longrightarrow> lower_byte (a ! k) = lower_byte (b ! k)) \<longleftrightarrow>
        lower_byte (a ! i) = lower_byte (b ! i) \<and> (\<forall>k. i + 1 \<le> k \<and> k < len \<longrightarrow> lower_byte (a ! k) = lower_byte (b ! k))"
      by (auto simp: Suc_le_eq) (metis le_neq_implies_less)
    then show ?thesis using 1 True by (subst ieq_bytes.simps) (simp add: load_in)
  qed (subst ieq_bytes.simps, auto)
qed

lemma ieq_blocks_spec:
  assumes "len \<le> length a" and "len \<le> length b" and "i \<le> len"
  shows "case ieq_blocks a b i len of
      None \<Rightarrow> False
    | Some (Inl r) \<Rightarrow> \<not> r \<and> (\<exists>k. i \<le> k \<and> k < len \<and> lower_byte (a ! k) \<noteq> lower_byte (b ! k))
    | Some (Inr j) \<Rightarrow> i \<le> j \<and> j \<le> len \<and> (\<forall>k. i \<le> k \<and> k < j \<longrightarrow> lower_byte (a ! k) = lower_byte (b ! k))"
  using assms(3)
proof (induction "len - i" arbitrary: i rule: less_induct)
  case less
  show ?case
  proof (cases "16 \<le> len - i")
    case False
    then show ?thesis using less.prems by (subst ieq_blocks.simps) auto
  next
    case True
    let ?va = "take 16 (drop i a)" and ?vb = "take 16 (drop i b)"
    have v: "length ?va = 16" "length ?vb = 16" "simde_mm_loadu_si128 a i = Some ?va" "simde_mm_loadu_si128 b i = Some ?vb"
      using True assms by (auto simp: simde_mm_loadu_si128_def load_block_in)
    have at: "map lower_byte ?va = map lower_byte ?vb \<longleftrightarrow> (\<forall>k<16. lower_byte (a ! (i + k)) = lower_byte (b ! (i + k)))"
      using v(1,2) True assms by (simp add: list_eq_iff_nth_eq)
    have "simde_mm_movemask_epi8 (simde_mm_cmpeq_epi8 (lower16 ?va) (lower16 ?vb)) = 0xFFFF \<longleftrightarrow>
        (\<forall>k<16. lower_byte (a ! (i + k)) = lower_byte (b ! (i + k)))"
      unfolding ieq_block [OF v(1,2)] at ..
    then have unfold: "ieq_blocks a b i len =
        (if \<forall>k<16. lower_byte (a ! (i + k)) = lower_byte (b ! (i + k)) then ieq_blocks a b (i + 16) len else Some (Inl False))"
      using True v(3,4) by (subst ieq_blocks.simps) (auto simp: Let_def)
    show ?thesis
    proof (cases "\<forall>k<16. lower_byte (a ! (i + k)) = lower_byte (b ! (i + k))")
      case False
      then obtain k where "k < 16" "lower_byte (a ! (i + k)) \<noteq> lower_byte (b ! (i + k))" by blast
      then have "\<exists>k. i \<le> k \<and> k < len \<and> lower_byte (a ! k) \<noteq> lower_byte (b ! k)"
        using True by (intro exI [of _ "i + k"]) auto
      then show ?thesis unfolding unfold using False by auto
    next
      case eq: True
      have low: "lower_byte (a ! k) = lower_byte (b ! k)" if "i \<le> k" "k < i + 16" for k
        using eq [rule_format, of "k - i"] that by simp
      have ih: "case ieq_blocks a b (i + 16) len of
          None \<Rightarrow> False
        | Some (Inl r) \<Rightarrow> \<not> r \<and> (\<exists>k. i + 16 \<le> k \<and> k < len \<and> lower_byte (a ! k) \<noteq> lower_byte (b ! k))
        | Some (Inr j) \<Rightarrow> i + 16 \<le> j \<and> j \<le> len \<and> (\<forall>k. i + 16 \<le> k \<and> k < j \<longrightarrow> lower_byte (a ! k) = lower_byte (b ! k))"
        using True by (intro less.hyps) simp_all
      show ?thesis
        unfolding unfold if_P [OF eq] using ih low
        by (auto split: option.splits sum.splits) (meson le_trans add_leD1 not_le)+
    qed
  qed
qed

text \<open>
  The case-insensitive comparison of two \<open>len\<close>-byte buffers answers whether their lower-case
  forms are equal, the vector blocks and the scalar tail together; the empty comparison holds.
\<close>

theorem http1_ascii_ieq_correct:
  assumes "len \<le> length a" and "len \<le> length b"
  shows "hs_http1_ascii_ieq a b len = Some (map lower_byte (take len a) = map lower_byte (take len b))"
proof -
  have eq: "map lower_byte (take len a) = map lower_byte (take len b) \<longleftrightarrow>
      (\<forall>k. k < len \<longrightarrow> lower_byte (a ! k) = lower_byte (b ! k))"
    using assms by (simp add: list_eq_iff_nth_eq)
  have tail: "ieq_bytes a b j len = Some (\<forall>k. k < len \<longrightarrow> lower_byte (a ! k) = lower_byte (b ! k))"
    if "\<forall>k. k < j \<longrightarrow> lower_byte (a ! k) = lower_byte (b ! k)" for j
    using that by (auto simp: ieq_bytes_spec [OF assms]) (meson not_le)
  show ?thesis
    unfolding eq using ieq_blocks_spec [OF assms, of 0] tail
    by (auto simp: hs_http1_ascii_ieq_def split: option.splits sum.splits)
qed

subsection \<open>Chunk sizes\<close>

definition hex_digit :: "u8 \<Rightarrow> u8 option" where
  "hex_digit b =
     (if 0x30 \<le> b \<and> b \<le> 0x39 then Some (b - 0x30)
      else if 0x61 \<le> b \<and> b \<le> 0x66 then Some (b - 0x61 + 10)
      else if 0x41 \<le> b \<and> b \<le> 0x46 then Some (b - 0x41 + 10)
      else None)"

text \<open>The result code, the digits consumed, and the value written to \<open>*out\<close>, if any.\<close>

function parse_hex_loop :: "bytes \<Rightarrow> nat \<Rightarrow> nat \<Rightarrow> nat \<Rightarrow> u64 \<Rightarrow> (int \<times> nat \<times> u64 option) option" where
  "parse_hex_loop buf i len n val =
     (if i < len then do {
        b \<leftarrow> load buf i;
        (case hex_digit b of
           None \<Rightarrow> Some (if 0 < n then 1 else 0, n, Some val)
         | Some d \<Rightarrow>
             if 16 \<le> n then Some (-1, n, None)
             else parse_hex_loop buf (i + 1) len (n + 1) (push_bit 4 val OR ucast d))
      }
      else Some (if 0 < n then 1 else 0, n, Some val))"
  by pat_completeness auto
termination
  by (relation "measure (\<lambda>(buf, i, len, n, val). len - i)") auto

declare parse_hex_loop.simps [simp del]

definition hs_http1_parse_hex :: "bytes \<Rightarrow> nat \<Rightarrow> nat \<Rightarrow> (int \<times> nat \<times> u64 option) option" where
  "hs_http1_parse_hex buf off len = parse_hex_loop buf off len 0 0"

text \<open>The digits at the front, and their value.\<close>

definition hex_prefix :: "bytes \<Rightarrow> bytes" where
  "hex_prefix bs = takeWhile (\<lambda>b. hex_digit b \<noteq> None) bs"

definition hex_value_of :: "nat \<Rightarrow> bytes \<Rightarrow> nat" where
  "hex_value_of v ds = fold (\<lambda>b v. 16 * v + unat (the (hex_digit b))) ds v"

lemma hex_digit_less: "hex_digit b = Some d \<Longrightarrow> unat d < 16"
proof -
  have "case hex_digit b of None \<Rightarrow> True | Some d \<Rightarrow> unat d < 16" by (rule all_bytes [of _ b]; code_simp)
  then show "hex_digit b = Some d \<Longrightarrow> unat d < 16" by simp
qed

lemma hex_step:
  assumes "v < 16 ^ n" and "n < 16" and "unat d < 16"
  shows "push_bit 4 (of_nat v :: u64) OR ucast (d :: u8) = of_nat (16 * v + unat d)" and "16 * v + unat d < 16 ^ Suc n"
proof -
  have "(ucast d :: u64) = of_nat (unat d)" by simp
  then have "push_bit 4 (of_nat v :: u64) OR ucast d = of_nat (unat d) + push_bit 4 (of_nat v)"
    using or_disjoint_add [of "unat d" 4 "of_nat v :: u64"] assms(3) by (simp add: or.commute)
  then show "push_bit 4 (of_nat v :: u64) OR ucast d = of_nat (16 * v + unat d)"
    by (simp add: push_bit_eq_mult mult.commute add.commute)
  show "16 * v + unat d < 16 ^ Suc n" using assms(1,3) by simp
qed

lemma parse_hex_loop_spec:
  assumes "len \<le> length buf" and "n \<le> 16" and "v < 16 ^ n"
  shows "parse_hex_loop buf i len n (of_nat v) =
    (let ds = hex_prefix (drop i (take len buf))
     in if 16 < n + length ds then Some (-1, 16, None)
        else Some (if 0 < n + length ds then 1 else 0, n + length ds, Some (of_nat (hex_value_of v ds))))"
  using assms(2,3)
proof (induction "len - i" arbitrary: i n v)
  case 0
  then have "drop i (take len buf) = []" by simp
  then show ?case using 0 by (subst parse_hex_loop.simps) (simp add: hex_prefix_def hex_value_of_def)
next
  case (Suc k)
  then have i: "i < len" by simp
  have ld: "load buf i = Some (buf ! i)" using i assms(1) by (simp add: load_in)
  have "drop i (take len buf) = take len buf ! i # drop (Suc i) (take len buf)"
    using i assms(1) by (intro Cons_nth_drop_Suc [symmetric]) simp
  then have cons: "drop i (take len buf) = buf ! i # drop (i + 1) (take len buf)" using i by simp
  show ?case
  proof (cases "hex_digit (buf ! i)")
    case None
    then show ?thesis
      using i ld Suc.prems by (subst parse_hex_loop.simps) (simp add: cons hex_prefix_def hex_value_of_def)
  next
    case (Some d)
    let ?r = "hex_prefix (drop (i + 1) (take len buf))"
    have ds: "hex_prefix (drop i (take len buf)) = buf ! i # ?r"
      unfolding cons using Some by (simp add: hex_prefix_def)
    show ?thesis
    proof (cases "n = 16")
      case True
      then show ?thesis using i ld Some by (subst parse_hex_loop.simps) (simp add: ds)
    next
      case False
      then have n: "n < 16" using Suc.prems by simp
      note step = hex_step [OF Suc.prems(2) n hex_digit_less [OF Some]]
      have "parse_hex_loop buf (i + 1) len (n + 1) (of_nat (16 * v + unat d)) =
        (if 16 < n + 1 + length ?r then Some (-1, 16, None)
         else Some (if 0 < n + 1 + length ?r then 1 else 0, n + 1 + length ?r, Some (of_nat (hex_value_of (16 * v + unat d) ?r))))"
        by (rule trans [OF Suc.hyps(1)]) (use Suc.hyps(2) n step(2) in \<open>simp_all add: Let_def\<close>)
      moreover have "hex_value_of v (buf ! i # ?r) = hex_value_of (16 * v + unat d) ?r"
        using Some by (simp add: hex_value_of_def)
      moreover have "\<not> 16 \<le> n" using n by simp
      then have "parse_hex_loop buf i len n (of_nat v) = parse_hex_loop buf (i + 1) len (n + 1) (of_nat (16 * v + unat d))"
        using i ld Some by (subst parse_hex_loop.simps) (simp only: step(1) if_True if_False option.case Option.bind.bind_lunit simp_thms)
      ultimately show ?thesis by (simp add: ds)
    qed
  qed
qed

lemma hex_run_less: "v < 16 ^ n \<Longrightarrow> \<forall>b \<in> set ds. hex_digit b \<noteq> None \<Longrightarrow> hex_value_of v ds < 16 ^ (n + length ds)"
proof (induction ds arbitrary: v n)
  case (Cons b ds)
  then obtain d where d: "hex_digit b = Some d" by auto
  have "16 * v + unat d < 16 ^ Suc n" using Cons.prems(1) hex_digit_less [OF d] by simp
  from Cons.IH [OF this] Cons.prems(2) show ?case using d by (simp add: hex_value_of_def)
qed (simp add: hex_value_of_def)

text \<open>The chunk-size parser.  With \<open>ds\<close> the hexadecimal digits at \<open>off\<close>: more than sixteen are an
  overflow that leaves the result alone, none is a miss, and otherwise the value is the exact number
  they denote (it never wraps) with the digits counted.
\<close>

theorem http1_parse_hex_exact:
  assumes "len \<le> length buf"
  shows "\<exists>val. hs_http1_parse_hex buf off len =
      (let ds = hex_prefix (drop off (take len buf))
       in if 16 < length ds then Some (-1, 16, None)
          else Some (if ds \<noteq> [] then 1 else 0, length ds, Some val)) \<and>
    (length (hex_prefix (drop off (take len buf))) \<le> 16 \<longrightarrow>
       unat val = hex_value_of 0 (hex_prefix (drop off (take len buf))))"
proof -
  let ?ds = "hex_prefix (drop off (take len buf))"
  have "unat (of_nat (hex_value_of 0 ?ds) :: u64) = hex_value_of 0 ?ds" if "length ?ds \<le> 16"
  proof -
    have "\<forall>b \<in> set ?ds. hex_digit b \<noteq> None"
      unfolding hex_prefix_def by (blast dest: set_takeWhileD)
    then have "hex_value_of 0 ?ds < 16 ^ (0 + length ?ds)" by (intro hex_run_less) simp_all
    also have "(16 :: nat) ^ (0 + length ?ds) \<le> 16 ^ 16" using that by (intro power_increasing) simp_all
    finally show ?thesis unfolding unat_of_nat by (intro mod_less) simp
  qed
  then show ?thesis
    using parse_hex_loop_spec [OF assms, of 0 0 off]
    by (intro exI [of _ "of_nat (hex_value_of 0 ?ds)"]) (auto simp: hs_http1_parse_hex_def Let_def)
qed

text \<open>Witnesses.\<close>

lemma http1_scans_correct_witness:
  "hs_http1_find_non_token [71, 69, 84, 32, 47] 0 5 = Some 3"
proof -
  have "first_or_len (\<lambda>b. \<not> tchar b) [71, 69, 84, 32, 47] 0 5 = 3" by code_simp
  then show ?thesis using http1_scans_correct [of 5 "[71, 69, 84, 32, 47]" 0] by simp
qed

lemma http1_to_lower_correct_witness:
  "hs_http1_to_lower_ascii [72, 79, 33, 0, 0, 0, 9] 0 3 3 = Some [72, 79, 33, 104, 111, 33, 9]"
  using http1_to_lower_correct [of 0 3 "[72, 79, 33, 0, 0, 0, 9]" 3] by (simp add: lower_byte_def)

lemma http1_ascii_ieq_correct_witness:
  "hs_http1_ascii_ieq [72, 111, 83, 116] [104, 79, 115, 84] 4 = Some True"
  using http1_ascii_ieq_correct [of 4 "[72, 111, 83, 116]" "[104, 79, 115, 84]"] by (simp add: lower_byte_def)

lemma http1_parse_hex_exact_witness:
  "hs_http1_parse_hex [49, 97, 70, 13, 10] 0 5 = Some (1, 3, Some 0x1AF)"
proof -
  have ds: "hex_prefix (drop 0 (take 5 [49, 97, 70, 13, 10])) = [49, 97, 70]" "hex_value_of 0 [49, 97, 70] = 0x1AF"
    by code_simp+
  then obtain val where "hs_http1_parse_hex [49, 97, 70, 13, 10] 0 5 = Some (1, 3, Some val)" "unat val = 0x1AF"
    using http1_parse_hex_exact [of 5 "[49, 97, 70, 13, 10]" 0] by auto
  moreover have "val = of_nat (unat val)" by simp
  ultimately show ?thesis by (simp only: of_nat_numeral)
qed

end
