(* ===== verification/Pmd.thy ===== *)
theory Pmd
  imports Prelude
begin

text \<open>
  The permessage-deflate shim (\<open>wireform-websocket/cbits/wf_pmd.c\<close>): the stream record, and the
  calls of the C interface.

  zlib itself is not in the repository.  Its functions are the fields of a record \<open>'z zlib\<close> that
  every operation takes, over an opaque state \<open>'z\<close>; what a \<open>z_stream\<close> shows the caller
  (\<open>next_in\<close>, \<open>avail_in\<close>, \<open>next_out\<close>, \<open>avail_out\<close>, \<open>data_type\<close>) is in the stream record.
  \<open>next_in\<close> is the caller's buffer from the pointer on, \<open>next_out\<close> the offset in the caller's
  output buffer.  Further parameters: \<open>chunk\<close>, the compile-time constant \<open>WF_PMD_CHUNK\<close>, and
  \<open>mem\<close>, whether the call's \<open>malloc\<close> succeeds (each call allocates at most once).  A \<open>NULL\<close> pointer
  is \<open>None\<close>.  An operation that does not return, or accesses memory out of bounds, is \<open>None\<close>.
\<close>

subsection \<open>zlib\<close>

datatype z_rc = Z_OK | Z_STREAM_END | Z_NEED_DICT | Z_ERRNO | Z_STREAM_ERROR | Z_DATA_ERROR
  | Z_MEM_ERROR | Z_BUF_ERROR | Z_VERSION_ERROR

datatype z_flush = Z_NO_FLUSH | Z_SYNC_FLUSH

text \<open>What one \<open>inflate\<close> or \<open>deflate\<close> call did: the code it returned, how many input bytes it
  took, the bytes it wrote, \<open>data_type\<close> and the internal state afterwards.\<close>

record 'z z_done =
  z_code :: z_rc
  z_used :: nat
  z_out :: bytes
  z_type :: nat
  z_next :: 'z

text \<open>A call gets the internal state, the \<open>avail_in\<close> bytes at \<open>next_in\<close> and \<open>avail_out\<close>.\<close>

record 'z zlib =
  z_inflateInit2 :: "int \<Rightarrow> z_rc \<times> 'z"
  z_deflateInit2 :: "int \<Rightarrow> int \<Rightarrow> int \<Rightarrow> z_rc \<times> 'z"
  z_inflate :: "z_flush \<Rightarrow> 'z \<Rightarrow> bytes \<Rightarrow> nat \<Rightarrow> 'z z_done"
  z_deflate :: "z_flush \<Rightarrow> 'z \<Rightarrow> bytes \<Rightarrow> nat \<Rightarrow> 'z z_done"
  z_inflateGetDictionary :: "'z \<Rightarrow> z_rc \<times> bytes"
  z_inflateSetDictionary :: "'z \<Rightarrow> bytes \<Rightarrow> z_rc \<times> 'z"
  z_inflateReset :: "'z \<Rightarrow> z_rc \<times> 'z"
  z_deflateReset :: "'z \<Rightarrow> z_rc \<times> 'z"
  z_inflateEnd :: "'z \<Rightarrow> 'z"
  z_deflateEnd :: "'z \<Rightarrow> 'z"

subsection \<open>The stream\<close>

datatype pmd_rc = WF_PMD_OK | WF_PMD_NEEDS_MORE_OUT | WF_PMD_BAD_INPUT | WF_PMD_OOM | WF_PMD_INIT_FAIL

record 'z pmd_stream =
  zs :: 'z
  next_in :: bytes
  avail_in :: nat
  next_out :: nat
  avail_out :: nat
  data_type :: nat
  kind :: int
  restarted :: bool
  in_left :: nat

definition uInt :: "nat \<Rightarrow> nat" where
  "uInt n = n mod 2 ^ 32"

definition PMD_MIN_OUT :: nat where
  "PMD_MIN_OUT = 7"

definition pmd_tail :: bytes where
  "pmd_tail = [0x00, 0x00, 0xFF, 0xFF]"

definition pmd_set_input :: "nat \<Rightarrow> 'z pmd_stream \<Rightarrow> bytes option \<Rightarrow> 'z pmd_stream" where
  "pmd_set_input chunk s src =
     (case src of
        None \<Rightarrow> s
      | Some b \<Rightarrow>
          (let n = (if length b < chunk then length b else chunk) in
           s\<lparr>next_in := b, avail_in := uInt n, in_left := length b - n, restarted := False\<rparr>))"

definition refill_in :: "nat \<Rightarrow> 'z pmd_stream \<Rightarrow> 'z pmd_stream" where
  "refill_in chunk s =
     (if avail_in s = 0 \<and> in_left s \<noteq> 0 then
        (let n = (if in_left s < chunk then in_left s else chunk) in
         s\<lparr>avail_in := uInt n, in_left := in_left s - n\<rparr>)
      else s)"

definition refill_piece :: "nat \<Rightarrow> nat \<Rightarrow> nat" where
  "refill_piece chunk out_left =
     (if out_left > chunk then
        (if out_left - chunk < PMD_MIN_OUT then chunk - PMD_MIN_OUT else chunk)
      else out_left)"

definition pmd_refill :: "nat \<Rightarrow> 'z pmd_stream \<Rightarrow> nat \<Rightarrow> 'z pmd_stream \<times> nat" where
  "pmd_refill chunk s out_left =
     (let s = refill_in chunk s in
      if avail_out s = 0 \<and> out_left \<noteq> 0 then
        (let n = refill_piece chunk out_left in (s\<lparr>avail_out := uInt n\<rparr>, out_left - n))
      else (s, out_left))"

definition pmd_more :: "'z pmd_stream \<Rightarrow> nat \<Rightarrow> bool" where
  "pmd_more s out_left \<longleftrightarrow>
     avail_in s = 0 \<and> in_left s \<noteq> 0 \<or> avail_out s = 0 \<and> out_left \<noteq> 0"

text \<open>One call into zlib: it reads the input window, writes at \<open>next_out\<close> and updates the
  stream's counters.\<close>

definition z_call ::
    "('z \<Rightarrow> bytes \<Rightarrow> nat \<Rightarrow> 'z z_done) \<Rightarrow> 'z pmd_stream \<Rightarrow> bytes \<Rightarrow> (z_rc \<times> 'z pmd_stream \<times> bytes) option" where
  "z_call f s dst = do {
     inp \<leftarrow> load_block (next_in s) 0 (avail_in s);
     let r = f (zs s) inp (avail_out s);
     dst \<leftarrow> store_block dst (next_out s) (z_out r);
     Some (z_code r,
       s\<lparr>zs := z_next r, next_in := drop (z_used r) (next_in s), avail_in := avail_in s - z_used r,
         next_out := next_out s + length (z_out r), avail_out := avail_out s - length (z_out r),
         data_type := z_type r\<rparr>, dst)
   }"

subsection \<open>Inflating\<close>

definition pmd_inflate_restart :: "'z zlib \<Rightarrow> bool \<Rightarrow> 'z pmd_stream \<Rightarrow> z_rc \<times> 'z pmd_stream" where
  "pmd_inflate_restart Z mem s =
     (if \<not> mem then (Z_MEM_ERROR, s)
      else
        (case z_inflateGetDictionary Z (zs s) of (rc, win) \<Rightarrow>
          if rc \<noteq> Z_OK then (rc, s)
          else
            (case z_inflateReset Z (zs s) of (rc, z) \<Rightarrow>
              if rc \<noteq> Z_OK then (rc, s\<lparr>zs := z\<rparr>)
              else
                (case z_inflateSetDictionary Z z win of (rc, z) \<Rightarrow> (rc, s\<lparr>zs := z\<rparr>)))))"

text \<open>Only the appended tail is left after a final block: skip it.\<close>

definition pmd_skip_tail :: "'z pmd_stream \<Rightarrow> 'z pmd_stream option" where
  "pmd_skip_tail s =
     (if avail_in s + in_left s = length pmd_tail then do {
        b \<leftarrow> load_block (next_in s) 0 (length pmd_tail);
        Some (if b = pmd_tail
              then s\<lparr>next_in := drop (length pmd_tail) (next_in s), avail_in := 0, in_left := 0\<rparr>
              else s)
      }
      else Some s)"

definition pmd_at_end :: "'z pmd_stream \<Rightarrow> bool" where
  "pmd_at_end s \<longleftrightarrow> avail_in s = 0 \<and> in_left s = 0 \<and> bit (data_type s) 7"

partial_function (option) pmd_inflate_loop ::
    "'z zlib \<Rightarrow> nat \<Rightarrow> bool \<Rightarrow> 'z pmd_stream \<Rightarrow> nat \<Rightarrow> bytes \<Rightarrow> (z_rc \<times> 'z pmd_stream \<times> nat \<times> bytes) option" where
  "pmd_inflate_loop Z chunk mem s0 left0 dst0 =
     (case pmd_refill chunk s0 left0 of (s1, out_left) \<Rightarrow>
      Option.bind (z_call (z_inflate Z Z_SYNC_FLUSH) s1 dst0) (\<lambda>(rc, s, dst).
        if rc = Z_STREAM_END then
          if restarted s then Some (Z_DATA_ERROR, s, out_left, dst)
          else Option.bind (pmd_skip_tail (s\<lparr>restarted := True\<rparr>)) (\<lambda>s2.
            case pmd_inflate_restart Z mem s2 of (rc, s) \<Rightarrow>
              if rc \<noteq> Z_OK then Some (rc, s, out_left, dst)
              else if avail_in s = 0 \<and> in_left s = 0 then Some (Z_STREAM_END, s, out_left, dst)
              else pmd_inflate_loop Z chunk mem s out_left dst)
        else if (rc \<noteq> Z_OK \<and> rc \<noteq> Z_BUF_ERROR) \<or> \<not> pmd_more s out_left then Some (rc, s, out_left, dst)
        else if pmd_at_end s then Some (rc, s, out_left, dst)
        else pmd_inflate_loop Z chunk mem s out_left dst))"

definition pmd_inflate_code :: "z_rc \<Rightarrow> 'z pmd_stream \<Rightarrow> pmd_rc" where
  "pmd_inflate_code rc s =
     (if rc = Z_STREAM_END then WF_PMD_OK
      else if rc = Z_OK \<or> rc = Z_BUF_ERROR then
        (if pmd_at_end s then WF_PMD_OK
         else if avail_out s = 0 then WF_PMD_NEEDS_MORE_OUT
         else WF_PMD_BAD_INPUT)
      else if rc = Z_MEM_ERROR then WF_PMD_OOM
      else WF_PMD_BAD_INPUT)"

text \<open>The calls return the code, \<open>*out_produced\<close>, the stream and the output buffer.\<close>

definition wf_pmd_inflate ::
    "'z zlib \<Rightarrow> nat \<Rightarrow> bool \<Rightarrow> 'z pmd_stream option \<Rightarrow> bytes option \<Rightarrow> bytes \<Rightarrow>
     (pmd_rc \<times> nat \<times> 'z pmd_stream option \<times> bytes) option" where
  "wf_pmd_inflate Z chunk mem h src dst =
     (case h of
        None \<Rightarrow> Some (WF_PMD_BAD_INPUT, 0, h, dst)
      | Some s \<Rightarrow>
          if kind s \<noteq> 0 then Some (WF_PMD_BAD_INPUT, 0, h, dst)
          else do {
            (rc, s, out_left, dst') \<leftarrow>
              pmd_inflate_loop Z chunk mem
                ((pmd_set_input chunk s src)\<lparr>next_out := 0, avail_out := 0\<rparr>) (length dst) dst;
            Some (pmd_inflate_code rc s, length dst - out_left - avail_out s, Some s, dst')
          })"

subsection \<open>Deflating\<close>

definition pmd_flush :: "'z pmd_stream \<Rightarrow> z_flush" where
  "pmd_flush s = (if in_left s \<noteq> 0 then Z_NO_FLUSH else Z_SYNC_FLUSH)"

partial_function (option) pmd_deflate_loop ::
    "'z zlib \<Rightarrow> nat \<Rightarrow> 'z pmd_stream \<Rightarrow> nat \<Rightarrow> bytes \<Rightarrow> (z_rc \<times> 'z pmd_stream \<times> nat \<times> bytes) option" where
  "pmd_deflate_loop Z chunk s0 left0 dst0 =
     (case pmd_refill chunk s0 left0 of (s1, out_left) \<Rightarrow>
      Option.bind (z_call (z_deflate Z (pmd_flush s1)) s1 dst0) (\<lambda>(rc, s, dst).
        if rc \<noteq> Z_OK \<or> \<not> pmd_more s out_left then Some (rc, s, out_left, dst)
        else pmd_deflate_loop Z chunk s out_left dst))"

definition pmd_empty_block :: bytes where
  "pmd_empty_block = [0x00, 0x00, 0x00, 0xFF, 0xFF]"

definition wf_pmd_deflate ::
    "'z zlib \<Rightarrow> nat \<Rightarrow> 'z pmd_stream option \<Rightarrow> bytes option \<Rightarrow> bytes \<Rightarrow>
     (pmd_rc \<times> nat \<times> 'z pmd_stream option \<times> bytes) option" where
  "wf_pmd_deflate Z chunk h src dst =
     (case h of
        None \<Rightarrow> Some (WF_PMD_BAD_INPUT, 0, h, dst)
      | Some s \<Rightarrow>
          if kind s \<noteq> 1 then Some (WF_PMD_BAD_INPUT, 0, h, dst)
          else do {
            (rc, s, out_left, dst') \<leftarrow>
              pmd_deflate_loop Z chunk
                ((pmd_set_input chunk s src)\<lparr>next_out := 0, avail_out := 0\<rparr>) (length dst) dst;
            let produced = length dst - out_left - avail_out s;
            (if rc = Z_OK then
               Some (if avail_out s = 0 then WF_PMD_NEEDS_MORE_OUT else WF_PMD_OK, produced, Some s, dst')
             else if rc = Z_BUF_ERROR then
               if avail_out s = 0 then Some (WF_PMD_NEEDS_MORE_OUT, produced, Some s, dst')
               else if length dst - produced < length pmd_empty_block
               then Some (WF_PMD_NEEDS_MORE_OUT, produced, Some s, dst')
               else do {
                 dst'' \<leftarrow> store_block dst' produced pmd_empty_block;
                 Some (WF_PMD_OK, produced + length pmd_empty_block, Some s, dst'')
               }
             else Some (if rc = Z_MEM_ERROR then WF_PMD_OOM else WF_PMD_BAD_INPUT, produced, Some s, dst'))
          })"

subsection \<open>Allocation, reset and release\<close>

definition pmd_calloc :: "int \<Rightarrow> 'z \<Rightarrow> 'z pmd_stream" where
  "pmd_calloc k z =
     \<lparr>zs = z, next_in = [], avail_in = 0, next_out = 0, avail_out = 0, data_type = 0,
      kind = k, restarted = False, in_left = 0\<rparr>"

definition wf_pmd_inflate_new :: "'z zlib \<Rightarrow> bool \<Rightarrow> int \<Rightarrow> 'z pmd_stream option" where
  "wf_pmd_inflate_new Z mem window_bits =
     (if window_bits < 8 \<or> window_bits > 15 then None
      else if \<not> mem then None
      else
        (case z_inflateInit2 Z (- (if window_bits = 8 then 9 else window_bits)) of (rc, z) \<Rightarrow>
          if rc \<noteq> Z_OK then None else Some (pmd_calloc 0 z)))"

definition Z_DEFAULT_COMPRESSION :: int where
  "Z_DEFAULT_COMPRESSION = -1"

definition wf_pmd_deflate_new :: "'z zlib \<Rightarrow> bool \<Rightarrow> int \<Rightarrow> int \<Rightarrow> int \<Rightarrow> 'z pmd_stream option" where
  "wf_pmd_deflate_new Z mem window_bits level mem_level =
     (if window_bits < 8 \<or> window_bits > 15 then None
      else if \<not> mem then None
      else
        (case z_deflateInit2 Z
                (if level < -1 \<or> level > 9 then Z_DEFAULT_COMPRESSION else level)
                (- (if window_bits = 8 then 9 else window_bits))
                (if mem_level < 1 \<or> mem_level > 9 then 8 else mem_level) of (rc, z) \<Rightarrow>
          if rc \<noteq> Z_OK then None else Some (pmd_calloc 1 z)))"

definition wf_pmd_reset_inflate :: "'z zlib \<Rightarrow> 'z pmd_stream option \<Rightarrow> pmd_rc \<times> 'z pmd_stream option" where
  "wf_pmd_reset_inflate Z h =
     (case h of
        None \<Rightarrow> (WF_PMD_BAD_INPUT, h)
      | Some s \<Rightarrow>
          if kind s \<noteq> 0 then (WF_PMD_BAD_INPUT, h)
          else
            (case z_inflateReset Z (zs s) of (rc, z) \<Rightarrow>
              (if rc = Z_OK then WF_PMD_OK else WF_PMD_INIT_FAIL,
               Some (s\<lparr>in_left := 0, restarted := False, zs := z\<rparr>))))"

definition wf_pmd_reset_deflate :: "'z zlib \<Rightarrow> 'z pmd_stream option \<Rightarrow> pmd_rc \<times> 'z pmd_stream option" where
  "wf_pmd_reset_deflate Z h =
     (case h of
        None \<Rightarrow> (WF_PMD_BAD_INPUT, h)
      | Some s \<Rightarrow>
          if kind s \<noteq> 1 then (WF_PMD_BAD_INPUT, h)
          else
            (case z_deflateReset Z (zs s) of (rc, z) \<Rightarrow>
              (if rc = Z_OK then WF_PMD_OK else WF_PMD_INIT_FAIL, Some (s\<lparr>in_left := 0, zs := z\<rparr>))))"

text \<open>The zlib state that \<open>wf_pmd_free\<close> ends; the handle is gone afterwards.\<close>

definition wf_pmd_free :: "'z zlib \<Rightarrow> 'z pmd_stream option \<Rightarrow> 'z option" where
  "wf_pmd_free Z h =
     map_option (\<lambda>s. if kind s = 0 then z_inflateEnd Z (zs s) else z_deflateEnd Z (zs s)) h"

end
