(* ===== verification/Pmd_Stream.thy ===== *)
theory Pmd_Stream
  imports Pmd
begin

text \<open>
  The permessage-deflate shim keeps its books: every call returns whatever zlib answers, hands
  zlib each input byte once and in order, fills the output buffer from the front and nothing else,
  and restarts the decompressor at most once per message.

  zlib's documented behaviour is a hypothesis.  Its bytes are observed by \<open>obs\<close>, the log of a
  zlib state: all input taken, all output produced, how often it was reset (zlib's \<open>total_in\<close> and
  \<open>total_out\<close>, with the bytes themselves).
\<close>

record z_log =
  log_in :: bytes
  log_out :: bytes
  log_resets :: nat

definition z_logged :: "('z \<Rightarrow> z_log) \<Rightarrow> ('z \<Rightarrow> bytes \<Rightarrow> nat \<Rightarrow> 'z z_done) \<Rightarrow> bool" where
  "z_logged obs f \<longleftrightarrow>
     (\<forall>z inp room. z_used (f z inp room) \<le> length inp \<and> length (z_out (f z inp room)) \<le> room \<and>
        obs (z_next (f z inp room)) =
          (obs z)\<lparr>log_in := log_in (obs z) @ take (z_used (f z inp room)) inp,
            log_out := log_out (obs z) @ z_out (f z inp room)\<rparr>)"

definition inflate_documented :: "'z zlib \<Rightarrow> ('z \<Rightarrow> z_log) \<Rightarrow> bool" where
  "inflate_documented Z obs \<longleftrightarrow>
     z_logged obs (z_inflate Z Z_SYNC_FLUSH) \<and>
     (\<forall>z. obs (snd (z_inflateReset Z z)) = (obs z)\<lparr>log_resets := Suc (log_resets (obs z))\<rparr>) \<and>
     (\<forall>z w. obs (snd (z_inflateSetDictionary Z z w)) = obs z) \<and>
     (\<forall>z. fst (z_inflateGetDictionary Z z) \<in> {Z_OK, Z_STREAM_ERROR}) \<and>
     (\<forall>z. fst (z_inflateReset Z z) \<in> {Z_OK, Z_STREAM_ERROR}) \<and>
     (\<forall>z w. fst (z_inflateSetDictionary Z z w) \<in> {Z_OK, Z_STREAM_ERROR, Z_DATA_ERROR})"

text \<open>A sync flush with room left is complete: the input is taken and the output ends with the
  flush marker.  \<open>Z_BUF_ERROR\<close> is returned only when nothing could be done.\<close>

definition deflate_documented :: "'z zlib \<Rightarrow> ('z \<Rightarrow> z_log) \<Rightarrow> bool" where
  "deflate_documented Z obs \<longleftrightarrow>
     (\<forall>fl. z_logged obs (z_deflate Z fl)) \<and>
     (\<forall>fl z inp room. let r = z_deflate Z fl z inp room in
        (z_code r = Z_OK \<and> length (z_out r) < room \<longrightarrow>
           z_used r = length inp \<and> (fl = Z_SYNC_FLUSH \<longrightarrow> suffix pmd_tail (log_out (obs (z_next r))))) \<and>
        (z_code r = Z_BUF_ERROR \<longrightarrow> z_used r = 0 \<and> z_out r = [] \<and> (room = 0 \<or> inp = [])))"

text \<open>The bound of the source's static assertion, and of zlib's 32-bit counters.\<close>

definition pmd_chunk_ok :: "nat \<Rightarrow> bool" where
  "pmd_chunk_ok chunk \<longleftrightarrow> 2 * PMD_MIN_OUT \<le> chunk \<and> chunk < 2 ^ 32"

definition pmd_ok :: "'z pmd_stream \<Rightarrow> bool" where
  "pmd_ok s \<longleftrightarrow> avail_in s + in_left s \<le> length (next_in s)"

definition pmd_pending :: "'z pmd_stream \<Rightarrow> bytes" where
  "pmd_pending s = take (avail_in s + in_left s) (next_in s)"

subsection \<open>The pieces handed to zlib\<close>

lemma uInt_small: "pmd_chunk_ok chunk \<Longrightarrow> n \<le> chunk \<Longrightarrow> uInt n = n"
  by (simp add: uInt_def pmd_chunk_ok_def)

lemma refill_piece_bounds:
  assumes "pmd_chunk_ok chunk" and "out_left \<noteq> 0"
  shows "0 < refill_piece chunk out_left" "refill_piece chunk out_left \<le> chunk"
    "refill_piece chunk out_left \<le> out_left"
  using assms by (auto simp: refill_piece_def pmd_chunk_ok_def PMD_MIN_OUT_def)

lemma refill_in_sel [simp]:
  "zs (refill_in chunk s) = zs s" "next_in (refill_in chunk s) = next_in s"
  "next_out (refill_in chunk s) = next_out s" "avail_out (refill_in chunk s) = avail_out s"
  "restarted (refill_in chunk s) = restarted s" "kind (refill_in chunk s) = kind s"
  by (simp_all add: refill_in_def Let_def)

lemma refill_in_total:
  "pmd_chunk_ok chunk \<Longrightarrow> avail_in (refill_in chunk s) + in_left (refill_in chunk s) = avail_in s + in_left s"
  by (auto simp: refill_in_def Let_def uInt_small)

lemma refill_in_done:
  "pmd_chunk_ok chunk \<Longrightarrow> avail_in (refill_in chunk s) = 0 \<Longrightarrow> in_left (refill_in chunk s) = 0"
  by (auto simp: refill_in_def Let_def uInt_small pmd_chunk_ok_def PMD_MIN_OUT_def split: if_splits)

lemma refill_in_less:
  "pmd_chunk_ok chunk \<Longrightarrow> avail_in s = 0 \<Longrightarrow> in_left s \<noteq> 0 \<Longrightarrow> in_left (refill_in chunk s) < in_left s"
  "in_left (refill_in chunk s) \<le> in_left s"
  by (auto simp: refill_in_def Let_def pmd_chunk_ok_def PMD_MIN_OUT_def)

text \<open>What the loops keep: the output written so far is what zlib produced, at the front of the
  buffer; the rest of the buffer is untouched; the input zlib took, followed by what is pending, is
  the message \<open>m\<close>, up to a skipped tail (when \<open>sk\<close>).\<close>

definition pmd_out :: "bytes \<Rightarrow> bytes \<Rightarrow> bytes \<Rightarrow> 'z pmd_stream \<Rightarrow> nat \<Rightarrow> bytes \<Rightarrow> bool" where
  "pmd_out lg0 lg dst0 s out_left dst \<longleftrightarrow>
     length dst = length dst0 \<and> next_out s + avail_out s + out_left = length dst0 \<and>
     lg = lg0 @ take (next_out s) dst \<and> drop (next_out s) dst = drop (next_out s) dst0"

definition pmd_in :: "bool \<Rightarrow> bytes \<Rightarrow> bytes \<Rightarrow> bytes \<Rightarrow> 'z pmd_stream \<Rightarrow> bool" where
  "pmd_in sk lg0 lg m s \<longleftrightarrow>
     pmd_ok s \<and> prefix lg0 lg \<and> (lg @ pmd_pending s = lg0 @ m \<or> sk \<and> pmd_pending s = [] \<and> lg @ pmd_tail = lg0 @ m)"

lemma pmd_refill_step:
  assumes "pmd_chunk_ok chunk" and "pmd_refill chunk s out_left = (s', out_left')"
  shows "zs s' = zs s" "restarted s' = restarted s" "kind s' = kind s"
    "in_left s' + out_left' \<le> in_left s + out_left"
    "pmd_more s out_left \<Longrightarrow> in_left s' + out_left' < in_left s + out_left"
    "avail_in s' = 0 \<Longrightarrow> in_left s' = 0" "avail_out s' = 0 \<Longrightarrow> out_left' = 0"
    "pmd_out lg0 lg dst0 s out_left dst \<Longrightarrow> pmd_out lg0 lg dst0 s' out_left' dst"
    "pmd_in sk li0 li m s \<Longrightarrow> pmd_in sk li0 li m s'"
proof -
  note refill_piece_bounds [OF assms(1), of out_left]
  moreover have "uInt (refill_piece chunk out_left) = refill_piece chunk out_left" if "out_left \<noteq> 0"
    using refill_piece_bounds [OF assms(1) that] assms(1) by (simp add: uInt_small)
  moreover note total = refill_in_total [OF assms(1), of s] and refill_in_less [of chunk s]
    and refill_in_done [OF assms(1), of s]
  ultimately show "zs s' = zs s" "restarted s' = restarted s" "kind s' = kind s"
    "in_left s' + out_left' \<le> in_left s + out_left"
    "pmd_more s out_left \<Longrightarrow> in_left s' + out_left' < in_left s + out_left"
    "avail_in s' = 0 \<Longrightarrow> in_left s' = 0" "avail_out s' = 0 \<Longrightarrow> out_left' = 0"
    "pmd_out lg0 lg dst0 s out_left dst \<Longrightarrow> pmd_out lg0 lg dst0 s' out_left' dst"
    "pmd_in sk li0 li m s \<Longrightarrow> pmd_in sk li0 li m s'"
    using assms(2) assms(1)
    by (auto simp: pmd_refill_def Let_def pmd_more_def pmd_out_def pmd_in_def pmd_ok_def pmd_pending_def
        split: if_splits)
qed

subsection \<open>One call into zlib\<close>

lemma z_call_step:
  assumes "z_logged obs f" and "pmd_in sk li0 (log_in (obs (zs s))) m s"
    and "pmd_out lo0 (log_out (obs (zs s))) dst0 s out_left dst"
  obtains r s' dst' where "z_call f s dst = Some (z_code r, s', dst')"
    and "r = f (zs s) (take (avail_in s) (next_in s)) (avail_out s)" and "zs s' = z_next r"
    and "restarted s' = restarted s" and "in_left s' = in_left s" and "kind s' = kind s"
    and "avail_in s' = avail_in s - z_used r" and "avail_out s' = avail_out s - length (z_out r)"
    and "next_out s' = next_out s + length (z_out r)"
    and "pmd_in sk li0 (log_in (obs (zs s'))) m s'" and "log_resets (obs (zs s')) = log_resets (obs (zs s))"
    and "pmd_out lo0 (log_out (obs (zs s'))) dst0 s' out_left dst'"
proof -
  let ?inp = "take (avail_in s) (next_in s)"
  define r where "r = f (zs s) ?inp (avail_out s)"
  define s' where "s' = s\<lparr>zs := z_next r, next_in := drop (z_used r) (next_in s),
         avail_in := avail_in s - z_used r, next_out := next_out s + length (z_out r),
         avail_out := avail_out s - length (z_out r), data_type := z_type r\<rparr>"
  define dst' where "dst' = take (next_out s) dst @ z_out r @ drop (next_out s + length (z_out r)) dst"
  have ok: "avail_in s + in_left s \<le> length (next_in s)"
    using assms(2) by (simp add: pmd_in_def pmd_ok_def)
  have r: "z_used r \<le> length ?inp" "length (z_out r) \<le> avail_out s"
    "log_in (obs (z_next r)) = log_in (obs (zs s)) @ take (z_used r) ?inp"
    "log_out (obs (z_next r)) = log_out (obs (zs s)) @ z_out r"
    "log_resets (obs (z_next r)) = log_resets (obs (zs s))"
    using assms(1) [unfolded z_logged_def, rule_format, of "zs s" ?inp "avail_out s"]
    by (simp_all add: r_def [symmetric])
  have used: "z_used r \<le> avail_in s" using r(1) by simp
  have fits: "next_out s + length (z_out r) \<le> length dst"
    using assms(3) r(2) by (simp add: pmd_out_def)
  have call: "z_call f s dst = Some (z_code r, s', dst')"
    using ok fits
    by (simp add: z_call_def load_block_in store_block_in Let_def r_def [symmetric] s'_def dst'_def)
  have pend: "pmd_pending s = take (z_used r) ?inp @ pmd_pending s'"
  proof -
    have "pmd_pending s = take (z_used r) (pmd_pending s) @ drop (z_used r) (pmd_pending s)" by simp
    moreover have "take (z_used r) (pmd_pending s) = take (z_used r) ?inp"
      using used by (simp add: pmd_pending_def min_def)
    moreover have "drop (z_used r) (pmd_pending s) = pmd_pending s'"
      using used by (simp add: pmd_pending_def s'_def drop_take)
    ultimately show ?thesis by simp
  qed
  have "pmd_in sk li0 (log_in (obs (zs s'))) m s'"
    using assms(2) ok used pend r(3) by (auto simp: pmd_in_def pmd_ok_def s'_def)
  moreover have "pmd_out lo0 (log_out (obs (zs s'))) dst0 s' out_left dst'"
  proof -
    have len: "length dst = length dst0" and "lg = lg" and d: "drop (next_out s) dst = drop (next_out s) dst0"
      using assms(3) by (simp_all add: pmd_out_def)
    have "drop (length (z_out r)) (drop (next_out s) dst) = drop (length (z_out r)) (drop (next_out s) dst0)"
      by (simp only: d)
    then have "drop (next_out s + length (z_out r)) dst = drop (next_out s + length (z_out r)) dst0"
      by (simp add: add.commute)
    then show ?thesis
      using assms(3) fits r(2,4) by (simp add: pmd_out_def s'_def dst'_def)
  qed
  ultimately show thesis
    using call r(5) by (intro that [OF call r_def]) (simp_all add: s'_def)
qed

subsection \<open>The inflate loop\<close>

lemma pmd_skip_tail_step:
  assumes "pmd_in True li0 li m s"
  obtains s' where "pmd_skip_tail s = Some s'" and "zs s' = zs s" and "in_left s' \<le> in_left s"
    and "next_out s' = next_out s" and "avail_out s' = avail_out s" and "restarted s' = restarted s"
    and "kind s' = kind s" and "pmd_in True li0 li m s'"
proof -
  have ok: "avail_in s + in_left s \<le> length (next_in s)" using assms by (simp add: pmd_in_def pmd_ok_def)
  show thesis
  proof (cases "avail_in s + in_left s = length pmd_tail \<and> take (length pmd_tail) (next_in s) = pmd_tail")
    case True
    then have pend: "pmd_pending s = pmd_tail" by (simp add: pmd_pending_def)
    have nonempty: "pmd_tail \<noteq> []" by (simp add: pmd_tail_def)
    let ?s = "s\<lparr>next_in := drop (length pmd_tail) (next_in s), avail_in := 0, in_left := 0\<rparr>"
    have "pmd_in True li0 li m ?s"
      using assms pend nonempty by (auto simp: pmd_in_def pmd_ok_def pmd_pending_def)
    moreover have "pmd_skip_tail s = Some ?s"
      using True ok by (simp add: pmd_skip_tail_def load_block_in)
    ultimately show thesis by (intro that) simp_all
  next
    case False
    then have "pmd_skip_tail s = Some s"
      using ok by (auto simp: pmd_skip_tail_def load_block_in)
    then show thesis using assms by (intro that) simp_all
  qed
qed

lemma pmd_inflate_restart_step:
  assumes "inflate_documented Z obs" and "pmd_inflate_restart Z mem s = (rc, s')"
  shows "log_in (obs (zs s')) = log_in (obs (zs s))" "log_out (obs (zs s')) = log_out (obs (zs s))"
    "log_resets (obs (zs s')) \<le> Suc (log_resets (obs (zs s)))"
    "\<exists>z. s' = s\<lparr>zs := z\<rparr>" "rc \<in> {Z_OK, Z_STREAM_ERROR, Z_DATA_ERROR, Z_MEM_ERROR}"
proof -
  obtain r1 w r2 z2 r3 z3 where eqs: "z_inflateGetDictionary Z (zs s) = (r1, w)"
    "z_inflateReset Z (zs s) = (r2, z2)" "z_inflateSetDictionary Z z2 w = (r3, z3)"
    by (metis surj_pair)
  have "obs z2 = (obs (zs s))\<lparr>log_resets := Suc (log_resets (obs (zs s)))\<rparr>" "obs z3 = obs z2"
    "r1 \<in> {Z_OK, Z_STREAM_ERROR}" "r2 \<in> {Z_OK, Z_STREAM_ERROR}"
    "r3 \<in> {Z_OK, Z_STREAM_ERROR, Z_DATA_ERROR}"
    using assms(1) [unfolded inflate_documented_def] eqs by (metis fst_conv snd_conv)+
  then show "log_in (obs (zs s')) = log_in (obs (zs s))" "log_out (obs (zs s')) = log_out (obs (zs s))"
    "log_resets (obs (zs s')) \<le> Suc (log_resets (obs (zs s)))" "\<exists>z. s' = s\<lparr>zs := z\<rparr>"
    "rc \<in> {Z_OK, Z_STREAM_ERROR, Z_DATA_ERROR, Z_MEM_ERROR}"
    using assms(2) eqs by (auto simp: pmd_inflate_restart_def split: if_splits intro: exI [of _ "zs s"])
qed

lemma pmd_in_frame:
  "pmd_in sk li0 li m s \<Longrightarrow> next_in s' = next_in s \<Longrightarrow> avail_in s' = avail_in s \<Longrightarrow> in_left s' = in_left s
    \<Longrightarrow> pmd_in sk li0 li m s'"
  by (simp add: pmd_in_def pmd_ok_def pmd_pending_def)

lemma pmd_out_frame:
  "pmd_out lo0 lo dst0 s out_left dst \<Longrightarrow> next_out s' = next_out s \<Longrightarrow> avail_out s' = avail_out s
    \<Longrightarrow> pmd_out lo0 lo dst0 s' out_left dst"
  by (simp add: pmd_out_def)

text \<open>The loop ends, whatever the codes zlib returns: a turn that continues either moves input or
  output of the caller to zlib on the next turn, or has used up the one restart.\<close>

definition pmd_rank :: "'z pmd_stream \<Rightarrow> nat \<Rightarrow> nat" where
  "pmd_rank s out_left =
     2 * (in_left s + out_left + of_bool (\<not> restarted s)) + of_bool (\<not> pmd_more s out_left)"

definition pmd_exit :: "z_rc \<Rightarrow> 'z pmd_stream \<Rightarrow> nat \<Rightarrow> bool" where
  "pmd_exit rc s out_left \<longleftrightarrow>
     (rc = Z_STREAM_END \<longrightarrow> avail_in s = 0 \<and> in_left s = 0) \<and>
     (rc = Z_OK \<or> rc = Z_BUF_ERROR \<longrightarrow> pmd_at_end s \<or> \<not> pmd_more s out_left)"

lemma pmd_rank_more:
  "in_left s' + out_left' < in_left s + out_left \<or> \<not> pmd_more s out_left
   \<Longrightarrow> in_left s' + out_left' \<le> in_left s + out_left \<Longrightarrow> restarted s' = restarted s
   \<Longrightarrow> pmd_more s' out_left' \<Longrightarrow> pmd_rank s' out_left' < pmd_rank s out_left"
  by (auto simp: pmd_rank_def)

lemma pmd_rank_restart:
  "in_left s' + out_left' \<le> in_left s + out_left \<Longrightarrow> \<not> restarted s \<Longrightarrow> restarted s'
   \<Longrightarrow> pmd_rank s' out_left' < pmd_rank s out_left"
  by (auto simp: pmd_rank_def)

lemma pmd_inflate_loop_ok:
  fixes s :: "'z pmd_stream"
  assumes Z: "inflate_documented Z obs" and chunk: "pmd_chunk_ok chunk"
    and io: "pmd_in True li0 (log_in (obs (zs s))) m s"
      "pmd_out lo0 (log_out (obs (zs s))) dst0 s out_left dst"
  shows "\<exists>rc s' left' dst'. pmd_inflate_loop Z chunk mem s out_left dst = Some (rc, s', left', dst') \<and>
    pmd_in True li0 (log_in (obs (zs s'))) m s' \<and>
    pmd_out lo0 (log_out (obs (zs s'))) dst0 s' left' dst' \<and> pmd_exit rc s' left' \<and> kind s' = kind s \<and>
    log_resets (obs (zs s')) + of_bool (restarted s) \<le> log_resets (obs (zs s)) + of_bool (restarted s')"
  using io
proof (induction "pmd_rank s out_left" arbitrary: s out_left dst rule: less_induct)
  case less
  obtain s1 left1 where re: "pmd_refill chunk s out_left = (s1, left1)" by fastforce
  note step = pmd_refill_step [OF chunk re]
  have in1: "pmd_in True li0 (log_in (obs (zs s1))) m s1"
    using step(9) [OF less.prems(1)] step(1) by simp
  have out1: "pmd_out lo0 (log_out (obs (zs s1))) dst0 s1 left1 dst"
    using step(8) [OF less.prems(2)] step(1) by simp
  have logged: "z_logged obs (z_inflate Z Z_SYNC_FLUSH)" using Z by (simp add: inflate_documented_def)
  obtain r :: "'z z_done" and s2 dst2 where call: "z_call (z_inflate Z Z_SYNC_FLUSH) s1 dst = Some (z_code r, s2, dst2)"
    and s2: "restarted s2 = restarted s1" "in_left s2 = in_left s1" "kind s2 = kind s1"
      "log_resets (obs (zs s2)) = log_resets (obs (zs s1))"
    and in2: "pmd_in True li0 (log_in (obs (zs s2))) m s2"
    and out2: "pmd_out lo0 (log_out (obs (zs s2))) dst0 s2 left1 dst2"
    by (rule z_call_step [OF logged in1 out1]) (blast intro: that)
  note unfold = pmd_inflate_loop.simps [of Z chunk mem s out_left dst] re call
  note keep = s2 step(1-3)
  show ?case
  proof (cases "z_code r = Z_STREAM_END")
    case True
    show ?thesis
    proof (cases "restarted s2")
      case True
      then show ?thesis using \<open>z_code r = Z_STREAM_END\<close> in2 out2 keep
        by (simp add: unfold pmd_exit_def)
    next
      case False
      let ?s = "s2\<lparr>restarted := True\<rparr>"
      have "pmd_in True li0 (log_in (obs (zs s2))) m ?s" by (rule pmd_in_frame [OF in2]) simp_all
      then obtain s3 where skip: "pmd_skip_tail ?s = Some s3" and s3: "zs s3 = zs s2"
          "in_left s3 \<le> in_left s2" "next_out s3 = next_out s2" "avail_out s3 = avail_out s2"
          "restarted s3" "kind s3 = kind s2" and in3: "pmd_in True li0 (log_in (obs (zs s2))) m s3"
        by (rule pmd_skip_tail_step) (rule that; simp)
      obtain rc s4 where restart: "pmd_inflate_restart Z mem s3 = (rc, s4)" by fastforce
      note again = pmd_inflate_restart_step [OF Z restart]
      obtain z where s4: "s4 = s3\<lparr>zs := z\<rparr>" using again(4) by blast
      have in4: "pmd_in True li0 (log_in (obs (zs s4))) m s4"
        using pmd_in_frame [OF in3, of s4] again(1) s4 s3(1) by simp
      have out4: "pmd_out lo0 (log_out (obs (zs s4))) dst0 s4 left1 dst2"
        using pmd_out_frame [OF out2, of s4] again(2) s4 s3 by simp
      show ?thesis
      proof (cases "rc \<noteq> Z_OK \<or> avail_in s4 = 0 \<and> in_left s4 = 0")
        case True
        with again(3,5) in4 out4 skip restart False \<open>z_code r = Z_STREAM_END\<close> show ?thesis
          using s3 s4 keep by (auto simp: unfold pmd_exit_def)
      next
        case F: False
        have "pmd_rank s4 left1 < pmd_rank s out_left"
          using step(4) s3(2,5) s4 False keep by (intro pmd_rank_restart) auto
        from less.hyps [OF this in4 out4] F skip restart True False
        show ?thesis using again(3) s3 s4 keep by (fastforce simp: unfold)
      qed
    qed
  next
    case False
    show ?thesis
    proof (cases "(z_code r \<noteq> Z_OK \<and> z_code r \<noteq> Z_BUF_ERROR) \<or> \<not> pmd_more s2 left1 \<or> pmd_at_end s2")
      case True
      with False in2 out2 keep show ?thesis by (auto simp: unfold pmd_exit_def)
    next
      case F: False
      have "pmd_rank s2 left1 < pmd_rank s out_left"
        using step(4,5) keep F by (intro pmd_rank_more) auto
      from less.hyps [OF this in2 out2] F False show ?thesis using keep by (auto simp: unfold)
    qed
  qed
qed

subsection \<open>Inflating a message\<close>

text \<open>The input a call works on: a new message, or what the last call left.\<close>

definition pmd_message :: "'z pmd_stream \<Rightarrow> bytes option \<Rightarrow> bytes" where
  "pmd_message s src = (case src of None \<Rightarrow> pmd_pending s | Some b \<Rightarrow> b)"

lemma pmd_set_input_sel [simp]:
  "zs (pmd_set_input chunk s src) = zs s" "kind (pmd_set_input chunk s src) = kind s"
  "restarted (pmd_set_input chunk s src) \<longleftrightarrow> src = None \<and> restarted s"
  by (auto simp: pmd_set_input_def Let_def split: option.splits)

lemma pmd_start:
  assumes "pmd_chunk_ok chunk" and "pmd_ok s"
  shows "pmd_in sk li li (pmd_message s src) ((pmd_set_input chunk s src)\<lparr>next_out := 0, avail_out := 0\<rparr>)"
    and "pmd_out lo lo dst ((pmd_set_input chunk s src)\<lparr>next_out := 0, avail_out := 0\<rparr>) (length dst) dst"
  using assms
  by (auto simp: pmd_in_def pmd_out_def pmd_ok_def pmd_pending_def pmd_message_def pmd_set_input_def
      Let_def uInt_small split: option.splits)

lemma pmd_out_produced:
  "pmd_out lo0 lo dst s out_left dst' \<Longrightarrow> length dst - out_left - avail_out s = next_out s"
  by (auto simp: pmd_out_def)

lemma wf_pmd_inflate_ok:
  assumes "inflate_documented Z obs" and "pmd_chunk_ok chunk" and "pmd_ok s" and "kind s = 0"
  shows "\<exists>rc n s' dst'. wf_pmd_inflate Z chunk mem (Some s) src dst = Some (rc, n, Some s', dst') \<and>
    length dst' = length dst \<and> n \<le> length dst \<and> drop n dst' = drop n dst \<and>
    log_out (obs (zs s')) = log_out (obs (zs s)) @ take n dst' \<and>
    pmd_in True (log_in (obs (zs s))) (log_in (obs (zs s'))) (pmd_message s src) s' \<and>
    (rc = WF_PMD_OK \<longrightarrow> pmd_pending s' = []) \<and> (rc = WF_PMD_NEEDS_MORE_OUT \<longrightarrow> n = length dst) \<and>
    log_resets (obs (zs s')) + of_bool (src = None \<and> restarted s)
      \<le> log_resets (obs (zs s)) + of_bool (restarted s') \<and> kind s' = 0"
proof -
  define t where "t = (pmd_set_input chunk s src)\<lparr>next_out := 0, avail_out := 0\<rparr>"
  have t: "zs t = zs s" "kind t = kind s" "restarted t \<longleftrightarrow> src = None \<and> restarted s"
    by (simp_all add: t_def)
  have "pmd_in True (log_in (obs (zs s))) (log_in (obs (zs t))) (pmd_message s src) t"
    and "pmd_out (log_out (obs (zs s))) (log_out (obs (zs t))) dst t (length dst) dst"
    by (simp_all add: t_def pmd_start [OF assms(2,3)])
  from pmd_inflate_loop_ok [OF assms(1,2) this, of mem, unfolded t]
  obtain rc s' left' dst' where
    run: "pmd_inflate_loop Z chunk mem t (length dst) dst = Some (rc, s', left', dst')"
    and i: "pmd_in True (log_in (obs (zs s))) (log_in (obs (zs s'))) (pmd_message s src) s'"
    and o: "pmd_out (log_out (obs (zs s))) (log_out (obs (zs s'))) dst s' left' dst'"
    and e: "pmd_exit rc s' left'" and k: "kind s' = kind s"
    and r: "log_resets (obs (zs s')) + of_bool (src = None \<and> restarted s)
      \<le> log_resets (obs (zs s)) + of_bool (restarted s')"
    by blast
  have "wf_pmd_inflate Z chunk mem (Some s) src dst =
      Some (pmd_inflate_code rc s', next_out s', Some s', dst')"
    using run assms(4) pmd_out_produced [OF o] by (simp add: wf_pmd_inflate_def t_def)
  moreover have "pmd_pending s' = []" if "pmd_inflate_code rc s' = WF_PMD_OK"
    using that e by (auto simp: pmd_inflate_code_def pmd_exit_def pmd_at_end_def pmd_pending_def split: if_splits)
  moreover have "next_out s' = length dst" if "pmd_inflate_code rc s' = WF_PMD_NEEDS_MORE_OUT"
    using that e o
    by (auto simp: pmd_inflate_code_def pmd_exit_def pmd_more_def pmd_out_def split: if_splits)
  ultimately show ?thesis
    using i o r k assms(4) by (auto simp: pmd_out_def)
qed

subsection \<open>The deflate loop\<close>

definition deflate_exit :: "('z \<Rightarrow> z_log) \<Rightarrow> z_rc \<Rightarrow> 'z pmd_stream \<Rightarrow> nat \<Rightarrow> bool" where
  "deflate_exit obs rc s out_left \<longleftrightarrow>
     (rc = Z_OK \<longrightarrow> \<not> pmd_more s out_left \<and>
        (avail_out s \<noteq> 0 \<longrightarrow> avail_in s = 0 \<and> suffix pmd_tail (log_out (obs (zs s))))) \<and>
     (rc = Z_BUF_ERROR \<longrightarrow> (avail_out s = 0 \<longrightarrow> out_left = 0) \<and>
        (avail_out s \<noteq> 0 \<longrightarrow> avail_in s = 0 \<and> in_left s = 0))"

lemma pmd_deflate_loop_ok:
  fixes s :: "'z pmd_stream"
  assumes Z: "deflate_documented Z obs" and chunk: "pmd_chunk_ok chunk"
    and io: "pmd_in False li0 (log_in (obs (zs s))) m s"
      "pmd_out lo0 (log_out (obs (zs s))) dst0 s out_left dst"
  shows "\<exists>rc s' left' dst'. pmd_deflate_loop Z chunk s out_left dst = Some (rc, s', left', dst') \<and>
    pmd_in False li0 (log_in (obs (zs s'))) m s' \<and> kind s' = kind s \<and>
    pmd_out lo0 (log_out (obs (zs s'))) dst0 s' left' dst' \<and> deflate_exit obs rc s' left'"
  using io
proof (induction "pmd_rank s out_left" arbitrary: s out_left dst rule: less_induct)
  case less
  obtain s1 left1 where re: "pmd_refill chunk s out_left = (s1, left1)" by fastforce
  note step = pmd_refill_step [OF chunk re]
  have in1: "pmd_in False li0 (log_in (obs (zs s1))) m s1"
    using step(9) [OF less.prems(1)] step(1) by simp
  have out1: "pmd_out lo0 (log_out (obs (zs s1))) dst0 s1 left1 dst"
    using step(8) [OF less.prems(2)] step(1) by simp
  have logged: "z_logged obs (z_deflate Z (pmd_flush s1))" using Z by (simp add: deflate_documented_def)
  obtain r :: "'z z_done" and s2 dst2
    where call: "z_call (z_deflate Z (pmd_flush s1)) s1 dst = Some (z_code r, s2, dst2)"
    and r: "r = z_deflate Z (pmd_flush s1) (zs s1) (take (avail_in s1) (next_in s1)) (avail_out s1)"
    and s2: "restarted s2 = restarted s1" "in_left s2 = in_left s1" "kind s2 = kind s1"
      "zs s2 = z_next r" "avail_in s2 = avail_in s1 - z_used r"
      "avail_out s2 = avail_out s1 - length (z_out r)"
    and in2: "pmd_in False li0 (log_in (obs (zs s2))) m s2"
    and out2: "pmd_out lo0 (log_out (obs (zs s2))) dst0 s2 left1 dst2"
    by (rule z_call_step [OF logged in1 out1]) (blast intro: that)
  note keep = s2(1-3) step(2,3)
  show ?case
  proof (cases "z_code r \<noteq> Z_OK \<or> \<not> pmd_more s2 left1")
    case True
    have room: "avail_in s1 \<le> length (next_in s1)"
      using in1 by (simp add: pmd_in_def pmd_ok_def)
    have fin: "(z_code r = Z_OK \<and> length (z_out r) < avail_out s1 \<longrightarrow> z_used r = avail_in s1 \<and>
          (pmd_flush s1 = Z_SYNC_FLUSH \<longrightarrow> suffix pmd_tail (log_out (obs (z_next r))))) \<and>
        (z_code r = Z_BUF_ERROR \<longrightarrow> z_used r = 0 \<and> z_out r = [] \<and> (avail_out s1 = 0 \<or> avail_in s1 = 0))"
      using Z [unfolded deflate_documented_def Let_def, THEN conjunct2, rule_format,
          of "pmd_flush s1" "zs s1" "take (avail_in s1) (next_in s1)" "avail_out s1"] room
      unfolding r by (auto simp: min_def)
    have left: "avail_out s1 = 0 \<longrightarrow> left1 = 0"
      using step(7) by simp
    have "deflate_exit obs (z_code r) s2 left1"
      using True fin left step(6) s2 by (auto simp: deflate_exit_def pmd_more_def pmd_flush_def)
    with True in2 out2 keep show ?thesis
      by (auto simp: pmd_deflate_loop.simps [of Z chunk s out_left dst] re call)
  next
    case False
    have "pmd_rank s2 left1 < pmd_rank s out_left"
      using step(4,5) keep False by (intro pmd_rank_more) auto
    from less.hyps [OF this in2 out2] False show ?thesis
      using keep by (auto simp: pmd_deflate_loop.simps [of Z chunk s out_left dst] re call)
  qed
qed

lemma wf_pmd_deflate_ok:
  assumes "deflate_documented Z obs" and "pmd_chunk_ok chunk" and "pmd_ok s" and "kind s = 1"
  shows "\<exists>rc n k s' dst'. wf_pmd_deflate Z chunk (Some s) src dst = Some (rc, n, Some s', dst') \<and>
    length dst' = length dst \<and> n \<le> length dst \<and> drop n dst' = drop n dst \<and>
    take n dst' = take k dst' @ (if rc = WF_PMD_OK \<and> k \<noteq> n then pmd_empty_block else []) \<and> k \<le> n \<and>
    log_out (obs (zs s')) = log_out (obs (zs s)) @ take k dst' \<and>
    pmd_in False (log_in (obs (zs s))) (log_in (obs (zs s'))) (pmd_message s src) s' \<and>
    (rc = WF_PMD_OK \<longrightarrow> pmd_pending s' = [] \<and> suffix pmd_tail (log_out (obs (zs s)) @ take n dst')) \<and>
    (rc = WF_PMD_NEEDS_MORE_OUT \<longrightarrow> length dst < n + length pmd_empty_block) \<and> kind s' = 1"
proof -
  define t where "t = (pmd_set_input chunk s src)\<lparr>next_out := 0, avail_out := 0\<rparr>"
  have t: "zs t = zs s" "kind t = kind s"
    by (simp_all add: t_def)
  have "pmd_in False (log_in (obs (zs s))) (log_in (obs (zs t))) (pmd_message s src) t"
    and "pmd_out (log_out (obs (zs s))) (log_out (obs (zs t))) dst t (length dst) dst"
    by (simp_all add: t_def pmd_start [OF assms(2,3)])
  from pmd_deflate_loop_ok [OF assms(1,2) this, unfolded t]
  obtain rc s' left' dst' where
    run: "pmd_deflate_loop Z chunk t (length dst) dst = Some (rc, s', left', dst')"
    and i: "pmd_in False (log_in (obs (zs s))) (log_in (obs (zs s'))) (pmd_message s src) s'"
    and o: "pmd_out (log_out (obs (zs s))) (log_out (obs (zs s'))) dst s' left' dst'"
    and e: "deflate_exit obs rc s' left'" and k: "kind s' = kind s"
    by blast
  let ?n = "next_out s'"
  note full = pmd_out_produced [OF o]
  have empty: "suffix pmd_tail pmd_empty_block" "pmd_empty_block \<noteq> []" "length pmd_empty_block = 5"
    by (simp_all add: pmd_tail_def pmd_empty_block_def suffix_def)
  have o': "length dst' = length dst" "?n + avail_out s' + left' = length dst"
    "log_out (obs (zs s')) = log_out (obs (zs s)) @ take ?n dst'" "drop ?n dst' = drop ?n dst"
    using o by (simp_all add: pmd_out_def)
  show ?thesis
  proof (cases "rc = Z_BUF_ERROR \<and> avail_out s' \<noteq> 0 \<and> length pmd_empty_block \<le> length dst - ?n")
    case True
    let ?dst = "take ?n dst' @ pmd_empty_block @ drop (?n + length pmd_empty_block) dst'"
    have "?n + length pmd_empty_block \<le> length dst'" using True o'(1,2) by linarith
    then have run': "wf_pmd_deflate Z chunk (Some s) src dst =
        Some (WF_PMD_OK, ?n + length pmd_empty_block, Some s', ?dst)"
      using True run assms(4) full o' by (simp add: wf_pmd_deflate_def t_def store_block_in Let_def)
    have d: "drop (?n + length pmd_empty_block) dst' = drop (?n + length pmd_empty_block) dst"
      using arg_cong [OF o'(4), of "drop (length pmd_empty_block)"] by (simp add: add.commute)
    show ?thesis
      by (rule exI [of _ WF_PMD_OK], rule exI [of _ "?n + length pmd_empty_block"], rule exI [of _ ?n],
          rule exI [of _ s'], rule exI [of _ ?dst])
        (use True run' o' e i k d empty assms(4) in
          \<open>auto simp: deflate_exit_def pmd_pending_def intro: suffix_appendI\<close>)
  next
    case False
    define rc' where "rc' =
      (if rc = Z_OK then if avail_out s' = 0 then WF_PMD_NEEDS_MORE_OUT else WF_PMD_OK
       else if rc = Z_BUF_ERROR then WF_PMD_NEEDS_MORE_OUT
       else if rc = Z_MEM_ERROR then WF_PMD_OOM else WF_PMD_BAD_INPUT)"
    have run': "wf_pmd_deflate Z chunk (Some s) src dst = Some (rc', ?n, Some s', dst')"
      using False run assms(4) full by (auto simp: wf_pmd_deflate_def t_def Let_def rc'_def)
    have rc': "rc' = WF_PMD_OK \<Longrightarrow> rc = Z_OK \<and> avail_out s' \<noteq> 0"
      "rc' = WF_PMD_NEEDS_MORE_OUT \<Longrightarrow> (rc = Z_OK \<or> rc = Z_BUF_ERROR) \<and>
         (avail_out s' = 0 \<or> length dst < ?n + length pmd_empty_block)"
      using False by (auto simp: rc'_def split: if_splits)
    show ?thesis
      by (rule exI [of _ rc'], rule exI [of _ ?n], rule exI [of _ ?n], rule exI [of _ s'], rule exI [of _ dst'])
        (use run' rc' o' e i k empty assms(4) in
          \<open>auto simp: deflate_exit_def pmd_pending_def pmd_more_def pmd_in_def\<close>)
  qed
qed

subsection \<open>A message over several calls\<close>

text \<open>The caller's protocol: a call with the message, then calls with \<open>NULL\<close> and further buffers.
  The result is everything produced, in order.\<close>

fun pmd_inflate_calls ::
    "'z zlib \<Rightarrow> nat \<Rightarrow> 'z pmd_stream \<Rightarrow> bytes option \<Rightarrow> (bool \<times> bytes) list \<Rightarrow> (bytes \<times> 'z pmd_stream) option" where
  "pmd_inflate_calls Z chunk s src [] = Some ([], s)"
| "pmd_inflate_calls Z chunk s src ((mem, dst) # calls) = do {
     (rc, n, h, dst') \<leftarrow> wf_pmd_inflate Z chunk mem (Some s) src dst;
     s' \<leftarrow> h;
     (out, s'') \<leftarrow> pmd_inflate_calls Z chunk s' None calls;
     Some (take n dst' @ out, s'')
   }"

lemma pmd_in_trans:
  assumes "pmd_in True a b m s" and "pmd_in True b c (pmd_pending s) s'"
  shows "pmd_in True a c m s'"
proof (cases "b @ pmd_pending s = a @ m")
  case True
  with assms show ?thesis by (auto simp: pmd_in_def)
next
  case False
  then have s: "pmd_pending s = []" "b @ pmd_tail = a @ m" using assms(1) by (auto simp: pmd_in_def)
  obtain d where c: "c = b @ d" using assms(2) by (auto simp: pmd_in_def prefix_def)
  have "pmd_tail \<noteq> []" by (simp add: pmd_tail_def)
  with assms s c have "pmd_pending s' = []" "d = []" by (auto simp: pmd_in_def)
  with assms s c show ?thesis by (auto simp: pmd_in_def)
qed

lemma pmd_inflate_calls_ok:
  assumes "inflate_documented Z obs" and "pmd_chunk_ok chunk" and "pmd_ok s" and "kind s = 0"
  shows "\<exists>out s'. pmd_inflate_calls Z chunk s src (call # calls) = Some (out, s') \<and>
    log_out (obs (zs s')) = log_out (obs (zs s)) @ out \<and>
    pmd_in True (log_in (obs (zs s))) (log_in (obs (zs s'))) (pmd_message s src) s' \<and>
    log_resets (obs (zs s')) + of_bool (src = None \<and> restarted s)
      \<le> log_resets (obs (zs s)) + of_bool (restarted s')"
  using assms(3,4)
proof (induction calls arbitrary: s src call)
  case Nil
  obtain mem dst where "call = (mem, dst)" by fastforce
  with wf_pmd_inflate_ok [OF assms(1,2) Nil, of mem src dst] show ?case by fastforce
next
  case (Cons call2 calls)
  obtain mem dst where call: "call = (mem, dst)" by fastforce
  obtain rc n s1 dst' where first: "wf_pmd_inflate Z chunk mem (Some s) src dst = Some (rc, n, Some s1, dst')"
    "log_out (obs (zs s1)) = log_out (obs (zs s)) @ take n dst'"
    "pmd_in True (log_in (obs (zs s))) (log_in (obs (zs s1))) (pmd_message s src) s1"
    "log_resets (obs (zs s1)) + of_bool (src = None \<and> restarted s)
      \<le> log_resets (obs (zs s)) + of_bool (restarted s1)" "kind s1 = 0"
    using wf_pmd_inflate_ok [OF assms(1,2) Cons.prems, of mem src dst] by blast
  have "pmd_ok s1" using first(3) by (simp add: pmd_in_def)
  from Cons.IH [OF this first(5), of None call2] obtain out s2
    where rest: "pmd_inflate_calls Z chunk s1 None (call2 # calls) = Some (out, s2)"
      "log_out (obs (zs s2)) = log_out (obs (zs s1)) @ out"
      "pmd_in True (log_in (obs (zs s1))) (log_in (obs (zs s2))) (pmd_pending s1) s2"
      "log_resets (obs (zs s2)) + of_bool (restarted s1) \<le> log_resets (obs (zs s1)) + of_bool (restarted s2)"
    by (auto simp: pmd_message_def)
  show ?case
    using first rest pmd_in_trans [OF first(3) rest(3)] by (simp add: call)
qed

subsection \<open>Reachable streams\<close>

inductive pmd_reach :: "'z zlib \<Rightarrow> nat \<Rightarrow> 'z pmd_stream \<Rightarrow> bool" for Z chunk where
  inflate_new: "wf_pmd_inflate_new Z mem window_bits = Some s \<Longrightarrow> pmd_reach Z chunk s"
| deflate_new: "wf_pmd_deflate_new Z mem window_bits level mem_level = Some s \<Longrightarrow> pmd_reach Z chunk s"
| inflate: "pmd_reach Z chunk s \<Longrightarrow>
    wf_pmd_inflate Z chunk mem (Some s) src dst = Some (rc, n, Some s', dst') \<Longrightarrow> pmd_reach Z chunk s'"
| deflate: "pmd_reach Z chunk s \<Longrightarrow>
    wf_pmd_deflate Z chunk (Some s) src dst = Some (rc, n, Some s', dst') \<Longrightarrow> pmd_reach Z chunk s'"
| reset_inflate: "pmd_reach Z chunk s \<Longrightarrow>
    wf_pmd_reset_inflate Z (Some s) = (rc, Some s') \<Longrightarrow> pmd_reach Z chunk s'"
| reset_deflate: "pmd_reach Z chunk s \<Longrightarrow>
    wf_pmd_reset_deflate Z (Some s) = (rc, Some s') \<Longrightarrow> pmd_reach Z chunk s'"

lemma pmd_new_ok:
  "wf_pmd_inflate_new Z mem window_bits = Some s \<Longrightarrow> pmd_ok s \<and> kind s = 0"
  "wf_pmd_deflate_new Z mem window_bits level mem_level = Some s \<Longrightarrow> pmd_ok s \<and> kind s = 1"
  by (auto simp: wf_pmd_inflate_new_def wf_pmd_deflate_new_def pmd_calloc_def pmd_ok_def
      split: if_splits prod.splits)

lemma wrong_kind:
  "kind s \<noteq> 0 \<Longrightarrow> wf_pmd_inflate Z chunk mem (Some s) src dst = Some (WF_PMD_BAD_INPUT, 0, Some s, dst)"
  "kind s \<noteq> 1 \<Longrightarrow> wf_pmd_deflate Z chunk (Some s) src dst = Some (WF_PMD_BAD_INPUT, 0, Some s, dst)"
  by (simp_all add: wf_pmd_inflate_def wf_pmd_deflate_def)

lemma pmd_inflate_keeps:
  assumes "inflate_documented Z obs" and "pmd_chunk_ok chunk" and "pmd_ok s"
    and "wf_pmd_inflate Z chunk mem (Some s) src dst = Some (rc, n, Some s', dst')"
  shows "pmd_ok s'" "kind s' = kind s"
  using wf_pmd_inflate_ok [OF assms(1-3), of mem src dst] assms(3,4) wrong_kind(1) [of s Z chunk mem src dst]
  by (cases "kind s = 0"; auto simp: pmd_in_def)+

lemma pmd_deflate_keeps:
  assumes "deflate_documented Z obs" and "pmd_chunk_ok chunk" and "pmd_ok s"
    and "wf_pmd_deflate Z chunk (Some s) src dst = Some (rc, n, Some s', dst')"
  shows "pmd_ok s'" "kind s' = kind s"
  using wf_pmd_deflate_ok [OF assms(1-3), of src dst] assms(3,4) wrong_kind(2) [of s Z chunk src dst]
  by (cases "kind s = 1"; auto simp: pmd_in_def)+

lemma pmd_resets_keep:
  "wf_pmd_reset_inflate Z (Some s) = (rc, Some s') \<Longrightarrow> pmd_ok s \<Longrightarrow> pmd_ok s' \<and> kind s' = kind s"
  "wf_pmd_reset_deflate Z (Some s) = (rc, Some s') \<Longrightarrow> pmd_ok s \<Longrightarrow> pmd_ok s' \<and> kind s' = kind s"
  by (auto simp: wf_pmd_reset_inflate_def wf_pmd_reset_deflate_def pmd_ok_def split: if_splits prod.splits)

lemma pmd_reach_ok:
  assumes "inflate_documented Z obs" and "deflate_documented Z obs" and "pmd_chunk_ok chunk"
    and "pmd_reach Z chunk s"
  shows "pmd_ok s \<and> (kind s = 0 \<or> kind s = 1)"
  using assms(4)
proof (induction rule: pmd_reach.induct)
  case (inflate s mem src dst rc n s' dst')
  then show ?case using pmd_inflate_keeps [OF assms(1,3)] by metis
next
  case (deflate s src dst rc n s' dst')
  then show ?case using pmd_deflate_keeps [OF assms(2,3)] by metis
qed (use pmd_new_ok pmd_resets_keep in metis)+

subsection \<open>A coder that copies, for the examples\<close>

definition copy_inflate :: "z_log \<Rightarrow> bytes \<Rightarrow> nat \<Rightarrow> z_log z_done" where
  "copy_inflate z inp room =
     (let n = min (length inp) room in
      \<lparr>z_code = (if n = 0 then Z_BUF_ERROR else Z_OK), z_used = n, z_out = take n inp,
       z_type = (if n = length inp then 128 else 0),
       z_next = z\<lparr>log_in := log_in z @ take n inp, log_out := log_out z @ take n inp\<rparr>\<rparr>)"

definition copy_deflate :: "z_flush \<Rightarrow> z_log \<Rightarrow> bytes \<Rightarrow> nat \<Rightarrow> z_log z_done" where
  "copy_deflate fl z inp room =
     (let out = inp @ (if fl = Z_SYNC_FLUSH then pmd_tail else []) in
      if inp = [] then \<lparr>z_code = Z_BUF_ERROR, z_used = 0, z_out = [], z_type = 0, z_next = z\<rparr>
      else if room < length out
      then \<lparr>z_code = Z_STREAM_ERROR, z_used = 0, z_out = [], z_type = 0, z_next = z\<rparr>
      else \<lparr>z_code = Z_OK, z_used = length inp, z_out = out, z_type = 0,
        z_next = z\<lparr>log_in := log_in z @ inp, log_out := log_out z @ out\<rparr>\<rparr>)"

definition copy_zlib :: "z_log zlib" where
  "copy_zlib = \<lparr>
     z_inflateInit2 = (\<lambda>_. (Z_OK, \<lparr>log_in = [], log_out = [], log_resets = 0\<rparr>)),
     z_deflateInit2 = (\<lambda>_ _ _. (Z_OK, \<lparr>log_in = [], log_out = [], log_resets = 0\<rparr>)),
     z_inflate = (\<lambda>_. copy_inflate), z_deflate = copy_deflate,
     z_inflateGetDictionary = (\<lambda>z. (Z_OK, [])),
     z_inflateSetDictionary = (\<lambda>z _. (Z_OK, z)),
     z_inflateReset = (\<lambda>z. (Z_OK, z\<lparr>log_resets := Suc (log_resets z)\<rparr>)),
     z_deflateReset = (\<lambda>z. (Z_OK, z)),
     z_inflateEnd = (\<lambda>z. z), z_deflateEnd = (\<lambda>z. z)\<rparr>"

definition empty_log :: z_log where
  "empty_log = \<lparr>log_in = [], log_out = [], log_resets = 0\<rparr>"

lemma copy_inflate_documented: "inflate_documented copy_zlib (\<lambda>z. z)"
  by (auto simp: inflate_documented_def z_logged_def copy_zlib_def copy_inflate_def Let_def)

lemma copy_deflate_documented: "deflate_documented copy_zlib (\<lambda>z. z)"
  by (auto simp: deflate_documented_def z_logged_def copy_zlib_def copy_deflate_def Let_def
      intro: suffix_appendI)

lemma copy_stream_ok: "pmd_ok (pmd_calloc k z)" "kind (pmd_calloc k z) = k"
  by (simp_all add: pmd_ok_def pmd_calloc_def)

lemma copy_chunk_ok: "pmd_chunk_ok 14"
  by (simp add: pmd_chunk_ok_def PMD_MIN_OUT_def)

subsection \<open>Properties\<close>

text \<open>An inflate call returns for every input and buffer.  It writes only the first
  \<open>*out_produced\<close> bytes of the buffer, which are what zlib produced; the input handed to zlib,
  followed by what the stream still holds, is the message (a tail left after a final block is
  skipped).  \<open>WF_PMD_OK\<close> means the whole message was taken, \<open>WF_PMD_NEEDS_MORE_OUT\<close> that the buffer
  is full.\<close>

theorem pmd_inflate_accounts:
  assumes "inflate_documented Z obs" and "pmd_chunk_ok chunk" and "pmd_ok s" and "kind s = 0"
  shows "\<exists>rc n s' dst'. wf_pmd_inflate Z chunk mem (Some s) src dst = Some (rc, n, Some s', dst') \<and>
    length dst' = length dst \<and> n \<le> length dst \<and> drop n dst' = drop n dst \<and>
    log_out (obs (zs s')) = log_out (obs (zs s)) @ take n dst' \<and>
    (log_in (obs (zs s')) @ pmd_pending s' = log_in (obs (zs s)) @ pmd_message s src \<or>
      pmd_pending s' = [] \<and> log_in (obs (zs s')) @ pmd_tail = log_in (obs (zs s)) @ pmd_message s src) \<and>
    (rc = WF_PMD_OK \<longrightarrow> pmd_pending s' = []) \<and>
    (rc = WF_PMD_NEEDS_MORE_OUT \<longrightarrow> n = length dst) \<and> pmd_ok s' \<and> kind s' = 0"
  using wf_pmd_inflate_ok [OF assms, of mem src dst] unfolding pmd_in_def by blast

lemma pmd_inflate_accounts_witness:
  "\<exists>rc n s' dst'. wf_pmd_inflate copy_zlib 14 True (Some (pmd_calloc 0 empty_log))
      (Some [1, 2, 3, 4]) [0, 0, 0] = Some (rc, n, Some s', dst') \<and>
    length dst' = 3 \<and> n \<le> 3 \<and> log_out (zs s') = take n dst' \<and> pmd_ok s'"
  using pmd_inflate_accounts [OF copy_inflate_documented copy_chunk_ok copy_stream_ok(1)
      copy_stream_ok(2), of True empty_log "Some [1, 2, 3, 4]" "[0, 0, 0]"]
  by (fastforce simp: pmd_calloc_def empty_log_def)

text \<open>C21: over all the calls of one message (the first with the message, the others with \<open>NULL\<close> and
  further buffers) the outputs concatenate to what zlib produced, no input byte is lost or repeated,
  and the decompressor is restarted at most once.\<close>

theorem pmd_one_restart:
  assumes "inflate_documented Z obs" and "pmd_chunk_ok chunk" and "pmd_ok s" and "kind s = 0"
  shows "\<exists>out s'. pmd_inflate_calls Z chunk s (Some b) (call # calls) = Some (out, s') \<and>
    log_out (obs (zs s')) = log_out (obs (zs s)) @ out \<and>
    (log_in (obs (zs s')) @ pmd_pending s' = log_in (obs (zs s)) @ b \<or>
      pmd_pending s' = [] \<and> log_in (obs (zs s')) @ pmd_tail = log_in (obs (zs s)) @ b) \<and>
    log_resets (obs (zs s')) \<le> Suc (log_resets (obs (zs s)))"
  using pmd_inflate_calls_ok [OF assms, of "Some b" call calls]
  by (fastforce simp: pmd_in_def pmd_message_def of_bool_def split: if_splits)

lemma pmd_one_restart_witness:
  "\<exists>out s'. pmd_inflate_calls copy_zlib 14 (pmd_calloc 0 empty_log) (Some [1, 2, 3, 4])
      [(True, [0, 0, 0]), (True, [0, 0, 0])] = Some (out, s') \<and>
    log_out (zs s') = out \<and> log_resets (zs s') \<le> 1"
  using pmd_one_restart [OF copy_inflate_documented copy_chunk_ok copy_stream_ok(1)
      copy_stream_ok(2), of empty_log "[1, 2, 3, 4]" "(True, [0, 0, 0])" "[(True, [0, 0, 0])]"]
  by (fastforce simp: pmd_calloc_def empty_log_def)

text \<open>A deflate call returns for every input and buffer, and keeps the same accounts.
  \<open>WF_PMD_OK\<close> means the whole message was taken and the output ends with the flush marker
  \<open>00 00 FF FF\<close>; for an empty message with nothing to flush the shim writes the empty stored block
  itself.  \<open>WF_PMD_NEEDS_MORE_OUT\<close> leaves less room than that block.\<close>

theorem pmd_deflate_accounts:
  assumes "deflate_documented Z obs" and "pmd_chunk_ok chunk" and "pmd_ok s" and "kind s = 1"
  shows "\<exists>rc n k s' dst'. wf_pmd_deflate Z chunk (Some s) src dst = Some (rc, n, Some s', dst') \<and>
    length dst' = length dst \<and> k \<le> n \<and> n \<le> length dst \<and> drop n dst' = drop n dst \<and>
    take n dst' = take k dst' @ (if rc = WF_PMD_OK \<and> k \<noteq> n then pmd_empty_block else []) \<and>
    log_out (obs (zs s')) = log_out (obs (zs s)) @ take k dst' \<and>
    log_in (obs (zs s')) @ pmd_pending s' = log_in (obs (zs s)) @ pmd_message s src \<and>
    (rc = WF_PMD_OK \<longrightarrow> pmd_pending s' = [] \<and> suffix pmd_tail (log_out (obs (zs s)) @ take n dst')) \<and>
    (rc = WF_PMD_NEEDS_MORE_OUT \<longrightarrow> length dst < n + length pmd_empty_block) \<and> pmd_ok s' \<and> kind s' = 1"
  using wf_pmd_deflate_ok [OF assms, of src dst] unfolding pmd_in_def by blast

lemma pmd_deflate_accounts_witness:
  "\<exists>rc n s' dst'. wf_pmd_deflate copy_zlib 14 (Some (pmd_calloc 1 empty_log))
      (Some [1, 2, 3]) [0, 0, 0, 0, 0, 0, 0, 0] = Some (rc, n, Some s', dst') \<and>
    length dst' = 8 \<and> n \<le> 8 \<and> log_in (zs s') @ pmd_pending s' = [1, 2, 3]"
  using pmd_deflate_accounts [OF copy_deflate_documented copy_chunk_ok copy_stream_ok(1)
      copy_stream_ok(2), of empty_log "Some [1, 2, 3]" "[0, 0, 0, 0, 0, 0, 0, 0]"]
  by (fastforce simp: pmd_calloc_def empty_log_def pmd_message_def)

text \<open>C20: in every stream reachable by the interface's calls, in any order, the stream's counters
  stay within the caller's buffer and every further call returns, within the output buffer.\<close>

theorem pmd_calls_return:
  assumes "inflate_documented Z obs" and "deflate_documented Z obs" and "pmd_chunk_ok chunk"
    and "pmd_reach Z chunk s"
  shows "avail_in s + in_left s \<le> length (next_in s) \<and>
    (\<exists>rc n s' dst'. wf_pmd_inflate Z chunk mem (Some s) src dst = Some (rc, n, Some s', dst') \<and>
      n \<le> length dst \<and> length dst' = length dst) \<and>
    (\<exists>rc n s' dst'. wf_pmd_deflate Z chunk (Some s) src dst = Some (rc, n, Some s', dst') \<and>
      n \<le> length dst \<and> length dst' = length dst)"
proof (intro conjI)
  have s: "pmd_ok s" using pmd_reach_ok [OF assms] by simp
  then show "avail_in s + in_left s \<le> length (next_in s)" by (simp add: pmd_ok_def)
  show "\<exists>rc n s' dst'. wf_pmd_inflate Z chunk mem (Some s) src dst = Some (rc, n, Some s', dst') \<and>
      n \<le> length dst \<and> length dst' = length dst"
    using wf_pmd_inflate_ok [OF assms(1,3) s, of mem src dst] wrong_kind(1) [of s Z chunk mem src dst]
    by (cases "kind s = 0") auto
  show "\<exists>rc n s' dst'. wf_pmd_deflate Z chunk (Some s) src dst = Some (rc, n, Some s', dst') \<and>
      n \<le> length dst \<and> length dst' = length dst"
    using wf_pmd_deflate_ok [OF assms(2,3) s, of src dst] wrong_kind(2) [of s Z chunk src dst]
    by (cases "kind s = 1") auto
qed

lemma pmd_calls_return_witness:
  "\<exists>rc n s' dst'. wf_pmd_inflate copy_zlib 14 True (Some (pmd_calloc 0 empty_log)) (Some [7, 8, 9]) [0, 0] =
      Some (rc, n, Some s', dst') \<and> n \<le> 2 \<and> length dst' = 2"
proof -
  have "wf_pmd_inflate_new copy_zlib True 15 = Some (pmd_calloc 0 empty_log)"
    by (simp add: wf_pmd_inflate_new_def copy_zlib_def empty_log_def)
  from pmd_calls_return [OF copy_inflate_documented copy_deflate_documented copy_chunk_ok
      pmd_reach.inflate_new [OF this], of True "Some [7, 8, 9]" "[0, 0]"]
  show ?thesis by (simp add: numeral_2_eq_2)
qed

text \<open>The header says that \<open>WF_PMD_NEEDS_MORE_OUT\<close> means a full buffer.  A deflate call also returns
  it when the empty stored block does not fit, with the buffer untouched.\<close>

lemma pmd_deflate_needs_more_empty:
  "\<exists>s'. wf_pmd_deflate copy_zlib 14 (Some (pmd_calloc 1 empty_log)) (Some []) [9, 9, 9] =
     Some (WF_PMD_NEEDS_MORE_OUT, 0, Some s', [9, 9, 9])"
  by (simp add: wf_pmd_deflate_def pmd_calloc_def pmd_set_input_def Let_def uInt_def
      pmd_deflate_loop.simps pmd_refill_def refill_in_def refill_piece_def z_call_def load_block_def
      copy_zlib_def copy_deflate_def pmd_empty_block_def)

lemma refill_piece_min_out:
  assumes "pmd_chunk_ok chunk" and "PMD_MIN_OUT \<le> out_left"
  shows "PMD_MIN_OUT \<le> refill_piece chunk out_left"
    and "refill_piece chunk out_left = out_left \<or> PMD_MIN_OUT \<le> out_left - refill_piece chunk out_left"
  using assms by (auto simp: refill_piece_def pmd_chunk_ok_def PMD_MIN_OUT_def)

end
