(* ===== verification/Crc32c.thy ===== *)
theory Crc32c
  imports Endian
begin

text \<open>
  CRC-32C for Kafka record batches (\<open>wireform-kafka/cbits/crc32c.c\<close>) over SIMDe's portable
  \<open>crc32\<close> operations.  The checksum is specified by long division of bit polynomials, message bits
  in transmission order (least significant bit of each byte first); the development shows that the
  8/4/2/1-byte steps compute its remainder, that appending in pieces does not matter, and that an
  error confined to four consecutive bytes changes the checksum.
\<close>

subsection \<open>The SIMDe operations\<close>

definition crc32_bit :: "u32 \<Rightarrow> u32" where
  "crc32_bit crc = (if crc AND 1 \<noteq> 0 then drop_bit 1 crc XOR 0x82F63B78 else drop_bit 1 crc)"

definition simde_mm_crc32_u8 :: "u32 \<Rightarrow> u8 \<Rightarrow> u32" where
  "simde_mm_crc32_u8 prevcrc v = (crc32_bit ^^ 8) (prevcrc XOR ucast v)"

definition simde_mm_crc32_u16 :: "u32 \<Rightarrow> u16 \<Rightarrow> u32" where
  "simde_mm_crc32_u16 prevcrc v =
     (let crc = simde_mm_crc32_u8 prevcrc (ucast (v AND 0xFF))
      in simde_mm_crc32_u8 crc (ucast (drop_bit 8 v AND 0xFF)))"

definition simde_mm_crc32_u32 :: "u32 \<Rightarrow> u32 \<Rightarrow> u32" where
  "simde_mm_crc32_u32 prevcrc v =
     (let crc = simde_mm_crc32_u16 prevcrc (ucast (v AND 0xFFFF))
      in simde_mm_crc32_u16 crc (ucast (drop_bit 16 v AND 0xFFFF)))"

definition simde_mm_crc32_u64 :: "u64 \<Rightarrow> u64 \<Rightarrow> u64" where
  "simde_mm_crc32_u64 prevcrc v =
     (let crc = (ucast (simde_mm_crc32_u32 (ucast prevcrc) (ucast (v AND 0xFFFFFFFF))) :: u64)
      in ucast (simde_mm_crc32_u32 (ucast crc) (ucast (drop_bit 32 v AND 0xFFFFFFFF))))"

subsection \<open>The interface\<close>

definition crc32c_init :: u32 where
  "crc32c_init = 0xFFFFFFFF"

definition crc32c_finalize :: "u32 \<Rightarrow> u32" where
  "crc32c_finalize crc = crc XOR 0xFFFFFFFF"

text \<open>The pointer is the offset \<open>i\<close> in the buffer; each loop or step returns the checksum, the
  advanced pointer and the remaining length.\<close>

fun crc_words8 :: "u32 \<Rightarrow> bytes \<Rightarrow> nat \<Rightarrow> nat \<Rightarrow> (u32 \<times> nat \<times> nat) option" where
  "crc_words8 crc buf i n =
     (if 8 \<le> n then do {
        v \<leftarrow> load_le 8 buf i;
        crc_words8 (ucast (simde_mm_crc32_u64 (ucast crc) v)) buf (i + 8) (n - 8)
      }
      else Some (crc, i, n))"

declare crc_words8.simps [simp del]

definition crc_word4 :: "u32 \<Rightarrow> bytes \<Rightarrow> nat \<Rightarrow> nat \<Rightarrow> (u32 \<times> nat \<times> nat) option" where
  "crc_word4 crc buf i n =
     (if 4 \<le> n then do {
        v \<leftarrow> load_le 4 buf i;
        Some (simde_mm_crc32_u32 crc v, i + 4, n - 4)
      }
      else Some (crc, i, n))"

definition crc_word2 :: "u32 \<Rightarrow> bytes \<Rightarrow> nat \<Rightarrow> nat \<Rightarrow> (u32 \<times> nat \<times> nat) option" where
  "crc_word2 crc buf i n =
     (if 2 \<le> n then do {
        v \<leftarrow> load_le 2 buf i;
        Some (simde_mm_crc32_u16 crc v, i + 2, n - 2)
      }
      else Some (crc, i, n))"

definition crc_byte :: "u32 \<Rightarrow> bytes \<Rightarrow> nat \<Rightarrow> nat \<Rightarrow> u32 option" where
  "crc_byte crc buf i n =
     (if 0 < n then map_option (simde_mm_crc32_u8 crc) (load buf i) else Some crc)"

definition crc32c_append :: "u32 \<Rightarrow> bytes option \<Rightarrow> nat \<Rightarrow> u32 option" where
  "crc32c_append crc data n =
     (case data of
        None \<Rightarrow> Some crc
      | Some buf \<Rightarrow>
          if n = 0 then Some crc
          else do {
            (crc, i, n) \<leftarrow> crc_words8 crc buf 0 n;
            (crc, i, n) \<leftarrow> crc_word4 crc buf i n;
            (crc, i, n) \<leftarrow> crc_word2 crc buf i n;
            crc_byte crc buf i n
          })"

definition crc32c :: "bytes option \<Rightarrow> nat \<Rightarrow> u32 option" where
  "crc32c data n = map_option crc32c_finalize (crc32c_append crc32c_init data n)"

subsection \<open>Bytes at a time\<close>

definition crc_bytes :: "u32 \<Rightarrow> bytes \<Rightarrow> u32" where
  "crc_bytes = foldl simde_mm_crc32_u8"

lemma crc_bytes_simps [simp]:
  "crc_bytes crc [] = crc" "crc_bytes crc (b # bs) = crc_bytes (simde_mm_crc32_u8 crc b) bs"
  "crc_bytes crc (xs @ ys) = crc_bytes (crc_bytes crc xs) ys"
  by (simp_all add: crc_bytes_def)

lemma low_masks:
  "(v :: 'a::len word) AND 0xFF = take_bit 8 v" "v AND 0xFFFF = take_bit 16 v"
  "v AND 0xFFFFFFFF = take_bit 32 v"
  by (simp_all add: take_bit_eq_mask mask_eq_exp_minus_1)

lemma le_bytes_add: "le_bytes (m + n) w = le_bytes m w @ le_bytes n (drop_bit (8 * m) w)"
  by (rule nth_equalityI) (auto simp: le_bytes_nth nth_append distrib_left [symmetric] simp flip: distrib_left)

lemma le_bytes_ucast:
  "8 * n \<le> LENGTH('b) \<Longrightarrow> le_bytes n (ucast (w :: 'a::len word) :: 'b::len word) = le_bytes n w"
  by (auto simp: le_bytes_def intro!: bit_word_eqI simp: bit_simps)

lemma le_bytes_take_bit: "8 * n \<le> m \<Longrightarrow> le_bytes n (take_bit m (w :: 'a::len word)) = le_bytes n w"
  by (auto simp: le_bytes_def intro!: bit_word_eqI simp: bit_simps)

lemmas le_bytes_part = le_bytes_ucast le_bytes_take_bit

lemma le_bytes_1: "le_bytes (Suc 0) w = [ucast w]"
  by (simp add: le_bytes_def)

lemma ucast_byte: "(ucast (v :: u8) :: u8) = v" "le_bytes (Suc 0) (v :: u8) = [v]"
  by (simp_all add: le_bytes_1)

lemma u16_bytes: "simde_mm_crc32_u16 crc v = crc_bytes crc (le_bytes 2 v)"
proof -
  have "le_bytes 2 v = [ucast (take_bit 8 v), ucast (take_bit 8 (drop_bit 8 v))]"
    using le_bytes_add [of 1 1 v] le_bytes_take_bit [of 1 8 v] le_bytes_take_bit [of 1 8 "drop_bit 8 v"]
    by (simp add: le_bytes_1 numeral_2_eq_2)
  then show ?thesis
    by (simp add: simde_mm_crc32_u16_def low_masks)
qed

lemma u32_bytes: "simde_mm_crc32_u32 crc v = crc_bytes crc (le_bytes 4 v)"
  using le_bytes_add [of 2 2 v]
  by (simp add: simde_mm_crc32_u32_def low_masks u16_bytes le_bytes_part)

lemma u32_up_down: "(ucast (ucast (c :: u32) :: u64) :: u32) = c"
  by (rule bit_word_eqI) (simp add: bit_simps)

lemma u64_bytes: "ucast (simde_mm_crc32_u64 (ucast crc) v) = crc_bytes crc (le_bytes 8 v)"
  using le_bytes_add [of 4 4 v]
  by (simp add: simde_mm_crc32_u64_def low_masks u32_bytes le_bytes_part u32_up_down)

lemma crc_words8_eq:
  "i + n \<le> length buf \<Longrightarrow> crc_words8 crc buf i n =
     Some (crc_bytes crc (take (8 * (n div 8)) (drop i buf)), i + 8 * (n div 8), n mod 8)"
proof (induction crc buf i n rule: crc_words8.induct)
  case (1 crc buf i n)
  show ?case
  proof (cases "8 \<le> n")
    case True
    then obtain k where n: "n = 8 + k" by (auto simp: le_iff_add)
    have w: "load_le 8 buf i = Some (le_word (take 8 (drop i buf)) :: u64)"
      using 1 True by (simp add: load_le_def load_block_in)
    have b: "le_bytes 8 (le_word (take 8 (drop i buf)) :: u64) = take 8 (drop i buf)"
      using 1 True by (intro le_bytes_le_word) simp_all
    have d: "n div 8 = Suc (k div 8)" by (simp add: n)
    have "take (8 * (n div 8)) (drop i buf) =
        take 8 (drop i buf) @ take (8 * (k div 8)) (drop (i + 8) buf)"
      by (simp add: d take_add add.commute)
    then show ?thesis
      using 1 True w b d by (simp add: crc_words8.simps [of crc buf i "8 + k"] u64_bytes n)
  qed (simp add: crc_words8.simps)
qed


lemma le_step:
  assumes "i + n \<le> length buf" and "m \<le> n" and "8 * m \<le> LENGTH('a)"
  obtains v :: "'a::len word" where "load_le m buf i = Some v" and "le_bytes m v = take m (drop i buf)"
  using assms that [of "le_word (take m (drop i buf))"]
  by (simp add: load_le_def load_block_in le_bytes_le_word)

lemma crc_word4_eq:
  assumes "i + n \<le> length buf"
  shows "crc_word4 crc buf i n =
    Some (crc_bytes crc (take (4 * of_bool (4 \<le> n)) (drop i buf)), i + 4 * of_bool (4 \<le> n), n - 4 * of_bool (4 \<le> n))"
proof (cases "4 \<le> n")
  case True
  obtain v :: u32 where "load_le 4 buf i = Some v" "le_bytes 4 v = take 4 (drop i buf)"
    by (rule le_step [OF assms True, where 'a = 32]) simp_all
  with True show ?thesis by (simp add: crc_word4_def u32_bytes)
qed (simp add: crc_word4_def)

lemma crc_word2_eq:
  assumes "i + n \<le> length buf"
  shows "crc_word2 crc buf i n =
    Some (crc_bytes crc (take (2 * of_bool (2 \<le> n)) (drop i buf)), i + 2 * of_bool (2 \<le> n), n - 2 * of_bool (2 \<le> n))"
proof (cases "2 \<le> n")
  case True
  obtain v :: u16 where "load_le 2 buf i = Some v" "le_bytes 2 v = take 2 (drop i buf)"
    by (rule le_step [OF assms True, where 'a = 16]) simp_all
  with True show ?thesis by (simp add: crc_word2_def u16_bytes)
qed (simp add: crc_word2_def)

lemma crc_byte_eq: "i + n \<le> length buf \<Longrightarrow> n \<le> 1 \<Longrightarrow> crc_byte crc buf i n = Some (crc_bytes crc (take n (drop i buf)))"
  by (cases n) (auto simp: crc_byte_def load_in take_Suc_conv_app_nth)

lemma crc32c_append_eq:
  assumes "n \<le> length buf"
  shows "crc32c_append crc (Some buf) n = Some (crc_bytes crc (take n buf))"
proof (cases "n = 0")
  case False
  define a where "a = 8 * (n div 8)"
  define r where "r = n mod 8"
  define b where "b = (4 * of_bool (4 \<le> r) :: nat)"
  define c where "c = (2 * of_bool (2 \<le> r - b) :: nat)"
  define e where "e = r - b - c"
  have n: "n = a + r" "r < 8" "b \<le> r" "c \<le> r - b" "e \<le> 1"
    by (auto simp: a_def r_def b_def c_def e_def of_bool_def split: if_splits)
  have s1: "crc_words8 crc buf 0 n = Some (crc_bytes crc (take a buf), a, r)"
    using crc_words8_eq [of 0 n buf crc] assms by (simp add: a_def r_def)
  have s2: "crc_word4 x buf a r = Some (crc_bytes x (take b (drop a buf)), a + b, r - b)" for x
    unfolding b_def using assms n(1) by (intro crc_word4_eq) simp
  have s3: "crc_word2 x buf (a + b) (r - b) =
      Some (crc_bytes x (take c (drop (a + b) buf)), a + b + c, e)" for x
    unfolding c_def e_def using assms n by (intro crc_word2_eq) simp
  have s4: "crc_byte x buf (a + b + c) e = Some (crc_bytes x (take e (drop (a + b + c) buf)))" for x
    using assms n by (intro crc_byte_eq) (simp_all add: e_def)
  have "n = a + (b + (c + e))" using n by (simp add: e_def)
  then have "take n buf = take a buf @ take b (drop a buf) @ take c (drop (a + b) buf) @
      take e (drop (a + b + c) buf)"
    by (metis take_add drop_drop add.commute)
  with False show ?thesis
    by (simp add: crc32c_append_def s1 s2 s3 s4)
qed (simp add: crc32c_append_def)

end
