(* ===== verification/Crc_Division.thy ===== *)
theory Crc_Division
  imports Crc32c
begin

text \<open>
  The checksum of \<open>crc32c.c\<close> against its specification, the remainder of a division of bit
  polynomials by the Castagnoli polynomial, and what it detects.
\<close>

subsection \<open>Division of bit polynomials\<close>

text \<open>Coefficients from the highest power down.  \<open>crc_poly\<close> is the polynomial without \<open>x^32\<close>.\<close>

definition crc_poly :: "bool list" where
  "crc_poly = msbs 32 (0x1EDC6F41 :: u32)"

fun xor_front :: "bool list \<Rightarrow> bool list \<Rightarrow> bool list" where
  "xor_front (x # xs) (y # ys) = (x \<noteq> y) # xor_front xs ys"
| "xor_front _ ys = ys"

lemma xor_front_length [simp]: "length (xor_front xs ys) = length ys"
  by (induction xs ys rule: xor_front.induct) simp_all

lemma xor_front_nth:
  "i < length ys \<Longrightarrow> xor_front xs ys ! i = (if i < length xs then xs ! i \<noteq> ys ! i else ys ! i)"
  by (induction xs ys arbitrary: i rule: xor_front.induct) (auto simp: nth_Cons split: nat.splits)

function poly_rem :: "bool list \<Rightarrow> bool list" where
  "poly_rem bs =
     (if length bs \<le> 32 then bs
      else poly_rem (if hd bs then xor_front crc_poly (tl bs) else tl bs))"
  by auto
termination by (relation "measure length") auto

declare poly_rem.simps [simp del]

text \<open>A message, least significant bit of each byte first.\<close>

definition lsbs :: "nat \<Rightarrow> 'a::len word \<Rightarrow> bool list" where
  "lsbs n a = map (bit a) [0..<n]"

definition msg_bits :: "bytes \<Rightarrow> bool list" where
  "msg_bits bs = concat (map (lsbs 8) bs)"

text \<open>The checksum of a message: complement the first 32 bits, divide, complement the remainder.\<close>

definition crc_spec :: "bytes \<Rightarrow> bool list" where
  "crc_spec bs = map Not (poly_rem (xor_front (replicate 32 True) (msg_bits bs @ replicate 32 False)))"

lemma lsbs_length [simp]: "length (lsbs n a) = n"
  by (simp add: lsbs_def)

lemma lsbs_nth: "i < n \<Longrightarrow> lsbs n a ! i = bit a i"
  by (simp add: lsbs_def)

lemma lsbs_Suc: "lsbs (Suc n) a = bit a 0 # lsbs n (drop_bit 1 a)"
  by (rule nth_equalityI) (auto simp: lsbs_nth nth_Cons bit_drop_bit_eq split: nat.splits)

subsection \<open>One bit\<close>

lemma crc_poly_length [simp]: "length crc_poly = 32"
  by (simp add: crc_poly_def)

lemma crc_poly_lsbs: "crc_poly = lsbs 32 (0x82F63B78 :: u32)"
  by code_simp

lemma crc_poly_reflected: "i < 32 \<Longrightarrow> crc_poly ! i = bit (0x82F63B78 :: u32) i"
  unfolding crc_poly_lsbs by (rule lsbs_nth)

lemma bit_crc32_bit:
  "i < 32 \<Longrightarrow> bit (crc32_bit c) i \<longleftrightarrow> (bit c (Suc i) \<noteq> (bit c 0 \<and> bit (0x82F63B78 :: u32) i))"
proof -
  have "c AND 1 \<noteq> 0 \<longleftrightarrow> bit c 0" by (simp add: and_one_eq even_iff_mod_2_eq_zero bit_0 odd_iff_mod_2_eq_one)
  then show "i < 32 \<Longrightarrow> ?thesis" by (auto simp: crc32_bit_def bit_simps)
qed

definition crc_feed :: "u32 \<Rightarrow> bool \<Rightarrow> u32" where
  "crc_feed c m = crc32_bit (c XOR of_bool m)"

lemma crc32_bit_xor: "crc32_bit (c XOR v) = crc_feed c (bit v 0) XOR drop_bit 1 v"
  by (rule bit_word_eqI) (auto simp: crc_feed_def bit_crc32_bit bit_simps)

lemma crc32_bits_feed:
  "n \<le> 32 \<Longrightarrow> take_bit n v = v \<Longrightarrow> (crc32_bit ^^ n) (c XOR v) = foldl crc_feed c (lsbs n v)"
proof (induction n arbitrary: c v)
  case 0
  then show ?case by (simp add: lsbs_def)
next
  case (Suc n)
  have "take_bit n (drop_bit 1 v) = drop_bit 1 (take_bit (Suc n) v)"
    by (rule bit_word_eqI) (auto simp: bit_simps)
  with Suc show ?case
    by (simp add: lsbs_Suc funpow_Suc_right crc32_bit_xor del: funpow.simps)
qed

lemma crc32_bit_inj: "crc32_bit c = crc32_bit d \<Longrightarrow> c = d"
proof (rule bit_word_eqI)
  fix i assume eq: "crc32_bit c = crc32_bit d" and "i < LENGTH(32)"
  have b: "(bit c (Suc j) \<noteq> (bit c 0 \<and> bit (0x82F63B78 :: u32) j)) =
      (bit d (Suc j) \<noteq> (bit d 0 \<and> bit (0x82F63B78 :: u32) j))" if "j < 32" for j
    using eq bit_crc32_bit [OF that] by metis
  have out: "\<not> bit c 32" "\<not> bit d 32" by (auto dest: bit_imp_le_length)
  have "bit c 0 = bit d 0" using b [of 31] out by simp
  with b [of "i - 1"] \<open>i < LENGTH(32)\<close> show "bit c i = bit d i" by (cases i) auto
qed

lemma crc32_bits_inj: "(crc32_bit ^^ n) c = (crc32_bit ^^ n) d \<Longrightarrow> c = d"
  by (induction n) (auto dest: crc32_bit_inj)

subsection \<open>Messages\<close>

lemma crc_u8_feed: "simde_mm_crc32_u8 c b = foldl crc_feed c (lsbs 8 b)"
proof -
  have "lsbs 8 (ucast b :: u32) = lsbs 8 b" by (auto simp: lsbs_def bit_simps dest: bit_imp_le_length)
  moreover have "take_bit 8 (ucast b :: u32) = ucast b"
    by (rule bit_word_eqI) (auto simp: bit_simps dest: bit_imp_le_length)
  ultimately show ?thesis by (simp add: simde_mm_crc32_u8_def crc32_bits_feed)
qed

lemma crc_bytes_feed: "crc_bytes c bs = foldl crc_feed c (msg_bits bs)"
  by (induction bs arbitrary: c) (simp_all add: msg_bits_def crc_u8_feed)

lemma poly_rem_step:
  assumes "32 \<le> length zs"
  shows "poly_rem (xor_front (lsbs 32 c) (m # zs)) = poly_rem (xor_front (lsbs 32 (crc_feed c m)) zs)"
proof -
  let ?r = "xor_front (tl (lsbs 32 c)) zs"
  have head: "xor_front (lsbs 32 c) (m # zs) = (bit c 0 \<noteq> m) # ?r"
    using lsbs_Suc [of 31 c] by simp
  have tl: "tl (lsbs 32 c) ! i = bit c (Suc i)" if "i < 31" for i
    using that by (simp add: nth_tl lsbs_nth)
  have "(if bit c 0 \<noteq> m then xor_front crc_poly ?r else ?r) = xor_front (lsbs 32 (crc_feed c m)) zs"
  proof (rule nth_equalityI)
    fix i assume "i < length (if bit c 0 \<noteq> m then xor_front crc_poly ?r else ?r)"
    then have i: "i < length zs" by (simp split: if_splits)
    have 31: "\<not> bit c 32" by (auto dest: bit_imp_le_length)
    show "(if bit c 0 \<noteq> m then xor_front crc_poly ?r else ?r) ! i = xor_front (lsbs 32 (crc_feed c m)) zs ! i"
    proof (cases "i < 32")
      case True
      then have "i < 31 \<or> i = 31" by auto
      with True i 31 show ?thesis
        by (auto simp: xor_front_nth lsbs_nth tl crc_feed_def bit_crc32_bit crc_poly_reflected bit_simps)
    qed (use i in \<open>auto simp: xor_front_nth\<close>)
  qed simp
  with assms show ?thesis unfolding head by (subst poly_rem.simps) (auto split: if_splits)
qed

lemma poly_rem_feed:
  "poly_rem (xor_front (lsbs 32 c) (ms @ replicate 32 False)) = lsbs 32 (foldl crc_feed c ms)"
proof (induction ms arbitrary: c)
  case Nil
  have "xor_front (lsbs 32 c) (replicate 32 False) = lsbs 32 c"
    by (rule nth_equalityI) (auto simp: xor_front_nth)
  then show ?case by (simp add: poly_rem.simps)
next
  case (Cons m ms)
  then show ?case by (simp add: poly_rem_step)
qed

subsection \<open>Properties\<close>

text \<open>C22: the checksum of every buffer is the complemented remainder of the division of its
  bits by the Castagnoli polynomial, whatever mix of 8-, 4-, 2- and 1-byte steps computes it, and no
  load leaves the buffer.\<close>

theorem crc32c_is_remainder:
  assumes "n \<le> length buf"
  shows "\<exists>r. crc32c (Some buf) n = Some r \<and> lsbs 32 r = crc_spec (take n buf)"
proof -
  have ones: "lsbs 32 (0xFFFFFFFF :: u32) = replicate 32 True" by code_simp
  let ?c = "crc_bytes 0xFFFFFFFF (take n buf)"
  have "lsbs 32 ?c = poly_rem (xor_front (replicate 32 True) (msg_bits (take n buf) @ replicate 32 False))"
    using poly_rem_feed [of "0xFFFFFFFF" "msg_bits (take n buf)"] by (simp only: crc_bytes_feed ones)
  moreover have "lsbs 32 (c XOR 0xFFFFFFFF) = map Not (lsbs 32 c)" for c :: u32
  proof (rule nth_equalityI)
    fix i assume "i < length (lsbs 32 (c XOR 0xFFFFFFFF))"
    then have i: "i < 32" by simp
    then have "bit (0xFFFFFFFF :: u32) i" using ones by (metis lsbs_nth nth_replicate)
    with i show "lsbs 32 (c XOR 0xFFFFFFFF) ! i = map Not (lsbs 32 c) ! i"
      by (simp add: lsbs_nth bit_xor_iff)
  qed simp
  ultimately show ?thesis
    using assms by (simp add: crc32c_def crc32c_append_eq crc32c_init_def crc32c_finalize_def crc_spec_def)
qed

lemma crc32c_is_remainder_witness:
  "crc_spec [0x31, 0x32, 0x33] = lsbs 32 (0x107b2fb2 :: u32) \<and>
   crc32c (Some [0x31, 0x32, 0x33, 0]) 3 = Some 0x107b2fb2"
proof -
  obtain r where r: "crc32c (Some [0x31, 0x32, 0x33, 0]) 3 = Some r" "lsbs 32 r = crc_spec [0x31, 0x32, 0x33]"
    using crc32c_is_remainder [of 3 "[0x31, 0x32, 0x33, 0]"] by auto
  moreover have spec: "crc_spec [0x31, 0x32, 0x33] = lsbs 32 (0x107b2fb2 :: u32)" by code_simp
  ultimately have "lsbs 32 r = lsbs 32 (0x107b2fb2 :: u32)" by simp
  then have "r = 0x107b2fb2"
    unfolding lsbs_def by (intro bit_word_eqI) simp
  with r spec show ?thesis by simp
qed

text \<open>Appending a buffer in pieces gives the checksum of the whole.\<close>

lemma crc32c_append_pieces:
  "crc32c_append c (Some (xs @ ys)) (length xs + length ys) =
     Option.bind (crc32c_append c (Some xs) (length xs)) (\<lambda>c'. crc32c_append c' (Some ys) (length ys))"
  by (simp add: crc32c_append_eq)

lemma xor_same_iff: "c XOR v = d XOR v \<longleftrightarrow> c = (d :: 'a::len word)"
proof
  assume "c XOR v = d XOR v"
  then have "(c XOR v) XOR v = (d XOR v) XOR v" by (rule arg_cong)
  then show "c = d" by (simp add: xor.assoc)
qed simp

lemma crc_u8_inj: "simde_mm_crc32_u8 c b = simde_mm_crc32_u8 d b \<Longrightarrow> c = d"
  by (auto simp: simde_mm_crc32_u8_def xor_same_iff dest: crc32_bits_inj)

lemma crc_bytes_inj: "crc_bytes c bs = crc_bytes d bs \<Longrightarrow> c = d"
  by (induction bs arbitrary: c d) (auto dest: crc_u8_inj)

lemma msg_bits_le_word:
  assumes "length bs \<le> 4"
  shows "lsbs (8 * length bs) (le_word bs :: u32) = msg_bits bs"
proof (rule nth_equalityI)
  have len: "length (msg_bits bs) = 8 * length bs" for bs :: bytes
    by (induction bs) (simp_all add: msg_bits_def)
  then show "length (lsbs (8 * length bs) (le_word bs :: u32)) = length (msg_bits bs)" by simp
  have nth: "i < 8 * length bs \<Longrightarrow> msg_bits bs ! i = bit (bs ! (i div 8)) (i mod 8)" for i and bs :: bytes
  proof (induction bs arbitrary: i)
    case (Cons b bs)
    show ?case
    proof (cases "i < 8")
      case True
      then show ?thesis by (simp add: msg_bits_def nth_append lsbs_nth)
    next
      case False
      then obtain k where "i = 8 + k" by (auto simp: not_less le_iff_add)
      moreover have "(8 + k) div 8 = Suc (k div 8)" by simp
      ultimately show ?thesis using Cons by (simp add: msg_bits_def nth_append)
    qed
  qed simp
  fix i assume "i < length (lsbs (8 * length bs) (le_word bs :: u32))"
  with assms show "lsbs (8 * length bs) (le_word bs :: u32) ! i = msg_bits bs ! i"
    by (simp add: lsbs_nth nth bit_le_word less_mult_imp_div_less mult.commute)
qed

lemma crc_window_inj:
  assumes "length e = length f" and "length e \<le> 4" and "crc_bytes c e = crc_bytes c f"
  shows "e = f"
proof -
  have bytes: "crc_bytes c bs = (crc32_bit ^^ (8 * length bs)) (c XOR le_word bs)" if "length bs \<le> 4" for bs
  proof -
    have "take_bit (8 * length bs) (le_word bs :: u32) = le_word bs"
      by (rule bit_word_eqI) (auto simp: bit_take_bit_iff bit_le_word)
    with that show ?thesis by (simp add: crc_bytes_feed crc32_bits_feed msg_bits_le_word)
  qed
  have "c XOR le_word e = c XOR (le_word f :: u32)"
    using assms bytes [of e] bytes [of f] by (auto intro: crc32_bits_inj)
  then have "le_word e = (le_word f :: u32)" by (metis bit.xor_left_self)
  then have "le_bytes (length e) (le_word e :: u32) = le_bytes (length e) (le_word f :: u32)" by simp
  with assms show ?thesis by (simp add: le_bytes_le_word)
qed

text \<open>C23: two buffers of the same length that differ only inside four consecutive bytes
  have different checksums.\<close>

theorem crc32c_detects_bursts:
  assumes "length e = length f" and "length e \<le> 4" and "e \<noteq> f"
  shows "crc32c (Some (xs @ e @ ys)) (length xs + length e + length ys) \<noteq>
    crc32c (Some (xs @ f @ ys)) (length xs + length e + length ys)"
proof
  assume eq: "crc32c (Some (xs @ e @ ys)) (length xs + length e + length ys) =
    crc32c (Some (xs @ f @ ys)) (length xs + length e + length ys)"
  let ?c = "crc_bytes 0xFFFFFFFF xs"
  have "crc_bytes (crc_bytes ?c e) ys = crc_bytes (crc_bytes ?c f) ys"
    using eq assms(1)
    by (simp add: crc32c_def crc32c_append_eq crc32c_init_def crc32c_finalize_def add.assoc xor_same_iff)
  then show False
    using crc_bytes_inj crc_window_inj [OF assms(1,2)] assms(3) by blast
qed

lemma crc32c_detects_bursts_witness:
  "crc32c (Some [1, 2, 3, 4, 5]) 5 \<noteq> crc32c (Some [1, 2, 3, 0xFF, 5]) 5"
proof -
  have "(4 :: u8) \<noteq> 0xFF" by code_simp
  then show ?thesis
    using crc32c_detects_bursts [of "[4]" "[0xFF]" "[1, 2, 3]" "[5]"]
    by (simp add: numeral_eq_Suc del: word_eq_numeral_iff_iszero)
qed

end
