(* ===== verification/Bitmap.thy ===== *)
theory Bitmap
  imports Endian
begin

text \<open>
  Bit loads of the columnar kernels (\<open>wireform-columnar-core/cbits/columnar_simd.c\<close>): a bitmap is a
  byte buffer whose bit \<open>k\<close> is bit \<open>k mod 8\<close> of byte \<open>k div 8\<close>, read up to 64 bits at a time at any
  bit offset without touching bytes outside the range.  The second half holds the two loop shapes the
  validators share: collect one flag per row into a 64-bit mask, and scan 64 rows at a time for the
  first flagged row.
\<close>

subsection \<open>Loads and stores\<close>

definition ld_le64 :: "bytes \<Rightarrow> nat \<Rightarrow> u64 option" where
  "ld_le64 buf p = load_le 8 buf p"

definition st_le64 :: "bytes \<Rightarrow> nat \<Rightarrow> u64 \<Rightarrow> bytes option" where
  "st_le64 buf p v = store_le 8 buf p v"

function st_bytes_loop :: "bytes \<Rightarrow> nat \<Rightarrow> u64 \<Rightarrow> nat \<Rightarrow> nat \<Rightarrow> bytes option" where
  "st_bytes_loop buf p v j nbytes =
     (if j < nbytes then do {
        buf \<leftarrow> store buf (p + j) (ucast (drop_bit (8 * j) v));
        st_bytes_loop buf p v (j + 1) nbytes
      }
      else Some buf)"
  by pat_completeness auto
termination
  by (relation "measure (\<lambda>(buf, p, v, j, n). n - j)") auto

definition st_le_bytes :: "bytes \<Rightarrow> nat \<Rightarrow> u64 \<Rightarrow> nat \<Rightarrow> bytes option" where
  "st_le_bytes buf p v nbytes =
     (if nbytes = 8 then st_le64 buf p v else st_bytes_loop buf p v 0 nbytes)"

definition low_mask :: "nat \<Rightarrow> u64" where
  "low_mask nbits = (if 64 \<le> nbits then NOT 0 else push_bit nbits 1 - 1)"

definition get_bit :: "bytes \<Rightarrow> nat \<Rightarrow> u32 option" where
  "get_bit buf k = do {
     b \<leftarrow> load buf (k div 8);
     Some (drop_bit (k mod 8) (ucast b) AND 1)
   }"

definition load_bits64 :: "bytes \<Rightarrow> nat \<Rightarrow> u64 option" where
  "load_bits64 buf bitoff = do {
     let p = bitoff div 8;
     let s = bitoff mod 8;
     w \<leftarrow> ld_le64 buf p;
     let v = drop_bit s w;
     (if s \<noteq> 0 then do {
        b \<leftarrow> load buf (p + 8);
        Some (v OR push_bit (64 - s) (ucast b))
      }
      else Some v)
   }"

function ld_bytes_loop :: "bytes \<Rightarrow> nat \<Rightarrow> nat \<Rightarrow> nat \<Rightarrow> u64 \<Rightarrow> u64 option" where
  "ld_bytes_loop buf p j nbytes v =
     (if j < nbytes then do {
        b \<leftarrow> load buf (p + j);
        ld_bytes_loop buf p (j + 1) nbytes (v OR push_bit (8 * j) (ucast b))
      }
      else Some v)"
  by pat_completeness auto
termination
  by (relation "measure (\<lambda>(buf, p, j, n, v). n - j)") auto

declare st_bytes_loop.simps [simp del] ld_bytes_loop.simps [simp del]

definition load_bits_word :: "bytes \<Rightarrow> nat \<Rightarrow> nat \<Rightarrow> nat \<Rightarrow> u64 option" where
  "load_bits_word buf p s nbytes =
     (if 8 \<le> nbytes then do {
        w \<leftarrow> ld_le64 buf p;
        let v = drop_bit s w;
        (if nbytes = 9 then do {
           b \<leftarrow> load buf (p + 8);
           Some (v OR push_bit (64 - s) (ucast b))
         }
         else Some v)
      }
      else map_option (drop_bit s) (ld_bytes_loop buf p 0 nbytes 0))"

definition load_bits :: "bytes \<Rightarrow> nat \<Rightarrow> nat \<Rightarrow> u64 option" where
  "load_bits buf bitoff nbits =
     (if nbits = 0 then Some 0
      else if nbits = 64 then load_bits64 buf bitoff
      else do {
        let s = bitoff mod 8;
        v \<leftarrow> load_bits_word buf (bitoff div 8) s ((s + nbits + 7) div 8);
        Some (v AND low_mask nbits)
      })"

text \<open>\<open>valid = None\<close> is the NULL bitmap: every row is valid.\<close>

definition valid_mask :: "bytes option \<Rightarrow> nat \<Rightarrow> nat \<Rightarrow> nat \<Rightarrow> u64 option" where
  "valid_mask valid validoff i m =
     (case valid of Some v \<Rightarrow> load_bits v (validoff + i) m | None \<Rightarrow> Some (low_mask m))"

subsection \<open>Loop shapes\<close>

text \<open>\<open>for (j = 0; j < m; j++) acc |= (uint64_t)t(j) << j;\<close>\<close>

function mask_loop :: "(nat \<Rightarrow> bool option) \<Rightarrow> nat \<Rightarrow> nat \<Rightarrow> u64 \<Rightarrow> u64 option" where
  "mask_loop t j m acc =
     (if j < m then do {
        b \<leftarrow> t j;
        mask_loop t (j + 1) m (acc OR push_bit j (of_bool b))
      }
      else Some acc)"
  by pat_completeness auto
termination
  by (relation "measure (\<lambda>(t, j, m, acc). m - j)") auto

text \<open>\<open>for (i = 0; i < n; i += 64) { m = min_sz(64, n - i); w = mk(i, m); if (w) return i + ctz(w); }\<close>\<close>

function mask_scan :: "(nat \<Rightarrow> nat \<Rightarrow> u64 option) \<Rightarrow> nat \<Rightarrow> nat \<Rightarrow> nat option option" where
  "mask_scan mk i n =
     (if i < n then do {
        w \<leftarrow> mk i (min 64 (n - i));
        if w \<noteq> 0 then Some (Some (i + builtin_ctz w)) else mask_scan mk (i + 64) n
      }
      else Some None)"
  by pat_completeness auto
termination
  by (relation "measure (\<lambda>(mk, i, n). n - i)") auto

declare mask_loop.simps [simp del] mask_scan.simps [simp del]

text \<open>The validators return -1, or the index of the first failing row.\<close>

definition report :: "nat option \<Rightarrow> int" where
  "report r = (case r of None \<Rightarrow> -1 | Some k \<Rightarrow> int k)"

definition first_valid :: "nat \<Rightarrow> bytes option \<Rightarrow> nat \<Rightarrow> int option" where
  "first_valid n valid validoff = map_option report (mask_scan (valid_mask valid validoff) 0 n)"

subsection \<open>Bits of a buffer\<close>

named_theorems bitmap_simps \<open>bit loads and masks as sets of bits\<close>

definition bit_at :: "bytes \<Rightarrow> nat \<Rightarrow> bool" where
  "bit_at buf k \<longleftrightarrow> bit (buf ! (k div 8)) (k mod 8)"

definition bits_word :: "nat \<Rightarrow> (nat \<Rightarrow> bool) \<Rightarrow> u64" where
  "bits_word n f = horner_sum of_bool 2 (map f [0..<n])"

lemma bit_bits_word [bitmap_simps]: "n \<le> 64 \<Longrightarrow> bit (bits_word n f) j \<longleftrightarrow> j < n \<and> f j"
  by (auto simp: bits_word_def bit_horner_sum_bit_iff)

lemma bits_word_eqI:
  assumes "n \<le> 64" and "\<And>j. j < 64 \<Longrightarrow> bit w j \<longleftrightarrow> j < n \<and> f j"
  shows "w = bits_word n f"
  by (rule bit_word_eqI) (simp add: bit_bits_word assms)

lemma bit_low_mask [bitmap_simps]: "bit (low_mask n) j \<longleftrightarrow> j < 64 \<and> j < n"
proof (cases "64 \<le> n")
  case False
  then have "low_mask n = mask n" by (simp add: low_mask_def mask_eq_exp_minus_1 push_bit_eq_mult)
  then show ?thesis by (auto simp: bit_mask_iff)
qed (auto simp: low_mask_def bit_simps)

lemma low_mask_word: "n \<le> 64 \<Longrightarrow> low_mask n = bits_word n (\<lambda>_. True)"
  by (rule bits_word_eqI) (auto simp: bitmap_simps)

lemma bit_byte_high: "8 \<le> j \<Longrightarrow> \<not> bit (b :: u8) j"
  by (auto dest: bit_imp_le_length)

lemma bit_le_word_at:
  "p + n \<le> length buf \<Longrightarrow> bit (le_word (take n (drop p buf)) :: u64) j \<longleftrightarrow> j < 64 \<and> j < 8 * n \<and> bit_at buf (8 * p + j)"
  by (auto simp: bit_le_word bit_at_def min_def)

lemma ld_bytes_loop_eq:
  assumes "p + n \<le> length buf" and "n \<le> 8" and "j \<le> n"
    and "\<And>i. i < 64 \<Longrightarrow> bit v i \<longleftrightarrow> i < 8 * j \<and> bit_at buf (8 * p + i)"
  shows "ld_bytes_loop buf p j n v = Some (bits_word (8 * n) (\<lambda>i. bit_at buf (8 * p + i)))"
  using assms(3,4)
proof (induction "n - j" arbitrary: j v)
  case 0
  then show ?case
    using assms(2) by (simp add: ld_bytes_loop.simps) (rule bits_word_eqI, auto)
next
  case (Suc d)
  have b: "bit (push_bit (8 * j) (ucast (buf ! (p + j)) :: u64)) i \<longleftrightarrow>
      8 * j \<le> i \<and> i < 8 * (j + 1) \<and> bit_at buf (8 * p + i)" if "i < 64" for i
  proof (cases "8 * j \<le> i \<and> i < 8 * (j + 1)")
    case True
    then have "i div 8 = j" "i mod 8 = i - 8 * j" by (auto simp: div_nat_eqI modulo_nat_def)
    with that True show ?thesis by (auto simp: bit_simps bit_at_def)
  qed (use bit_byte_high in \<open>auto simp: bit_simps\<close>)
  have "ld_bytes_loop buf p (j + 1) n (v OR push_bit (8 * j) (ucast (buf ! (p + j)))) =
      Some (bits_word (8 * n) (\<lambda>i. bit_at buf (8 * p + i)))"
    using Suc(2-) by (intro Suc.hyps(1)) (auto simp: bit_or_iff b)
  moreover have "j < n" using Suc(2) by simp
  ultimately show ?case using assms(1)
    by (subst ld_bytes_loop.simps) (simp add: load_in)
qed

lemma bit_at_byte: "i < 8 \<Longrightarrow> bit_at buf (8 * q + i) \<longleftrightarrow> bit (buf ! q) i"
  by (simp add: bit_at_def)

text \<open>A 64-bit window at a bit offset: eight bytes shifted down, the last bits from the ninth.\<close>

lemma bit_at_window:
  assumes "8 * p + 64 \<le> 8 * length buf" and "s < 8"
  shows "bit (drop_bit s (le_word (take 8 (drop p buf)) :: u64)) j \<longleftrightarrow>
      j < 64 - s \<and> bit_at buf (8 * p + s + j)"
    and "p + 8 < length buf \<Longrightarrow> j < 64 \<Longrightarrow>
      bit (push_bit (64 - s) (ucast (buf ! (p + 8))) :: u64) j \<longleftrightarrow>
      64 - s \<le> j \<and> bit_at buf (8 * p + s + j)"
proof -
  show "bit (drop_bit s (le_word (take 8 (drop p buf)) :: u64)) j \<longleftrightarrow>
      j < 64 - s \<and> bit_at buf (8 * p + s + j)"
    using assms bit_le_word_at [of p 8 buf "s + j"] by (auto simp: bit_drop_bit_eq ac_simps)
  assume "p + 8 < length buf" "j < 64"
  show "bit (push_bit (64 - s) (ucast (buf ! (p + 8))) :: u64) j \<longleftrightarrow>
      64 - s \<le> j \<and> bit_at buf (8 * p + s + j)"
  proof (cases "64 - s \<le> j")
    case True
    then obtain i where i: "j = 64 - s + i" by (auto simp: le_iff_add)
    with \<open>j < 64\<close> assms(2) have "i < 8" "8 * p + s + j = 8 * (p + 8) + i" by simp_all
    then have "bit_at buf (8 * p + s + j) \<longleftrightarrow> bit (buf ! (p + 8)) i"
      by (simp only: bit_at_byte)
    with True i \<open>j < 64\<close> show ?thesis by (simp add: bit_simps)
  qed (simp add: bit_simps)
qed

lemma get_bit_eq: "k < 8 * length buf \<Longrightarrow> get_bit buf k = Some (of_bool (bit_at buf k))"
proof -
  assume "k < 8 * length buf"
  moreover have "drop_bit i (ucast b :: u32) AND 1 = of_bool (bit b i)" for i and b :: u8
  proof -
    have "drop_bit i w AND 1 = of_bool (bit w i)" for w :: u32
      by (simp add: and_one_eq mod_2_eq_odd bit_iff_odd_drop_bit)
    moreover have "bit (ucast b :: u32) i \<longleftrightarrow> bit b i" by (auto simp: bit_ucast_iff dest: bit_imp_le_length)
    ultimately show ?thesis by (simp only:)
  qed
  ultimately show ?thesis
    by (simp add: get_bit_def load_in bit_at_def less_mult_imp_div_less mult.commute)
qed

lemma bitoff_split: "bitoff = 8 * (bitoff div 8) + bitoff mod (8::nat)" "bitoff mod 8 < (8::nat)"
  by simp_all

lemma load_bits64_eq:
  assumes "bitoff + 64 \<le> 8 * length buf"
  shows "load_bits64 buf bitoff = Some (bits_word 64 (\<lambda>j. bit_at buf (bitoff + j)))"
proof -
  define p where "p = bitoff div 8"
  define s where "s = bitoff mod 8"
  have off: "bitoff = 8 * p + s" and s: "s < 8" by (simp_all add: p_def s_def)
  have p: "8 * p + 64 \<le> 8 * length buf" using assms off by simp
  have nine: "p + 8 < length buf" if "s \<noteq> 0" using assms off that by simp
  note win = bit_at_window [OF p s]
  have w: "ld_le64 buf p = Some (le_word (take 8 (drop p buf)))"
    using p by (simp add: ld_le64_def load_le_in)
  have le: "bit (le_word (take 8 (drop p buf)) :: u64) j \<longleftrightarrow> j < 64 \<and> bit_at buf (8 * p + j)" for j
    using bit_le_word_at [of p 8 buf j] p by auto
  have "load_bits64 buf bitoff = Some (if s \<noteq> 0
      then drop_bit s (le_word (take 8 (drop p buf))) OR push_bit (64 - s) (ucast (buf ! (p + 8)))
      else drop_bit s (le_word (take 8 (drop p buf))))"
    using w nine by (simp add: load_bits64_def Let_def p_def [symmetric] s_def [symmetric] load_in)
  also have "\<dots> = Some (bits_word 64 (\<lambda>j. bit_at buf (bitoff + j)))"
    using nine s by (auto intro!: bits_word_eqI simp: bit_or_iff win off le)
  finally show ?thesis .
qed

lemma load_bits_eq:
  assumes "bitoff + n \<le> 8 * length buf" and "n \<le> 64"
  shows "load_bits buf bitoff n = Some (bits_word n (\<lambda>j. bit_at buf (bitoff + j)))"
proof -
  consider (none) "n = 0" | (all) "n = 64" | (some) "0 < n" "n < 64" using assms(2) by linarith
  then show ?thesis
  proof cases
    case none
    then show ?thesis by (simp add: load_bits_def bits_word_def)
  next
    case all
    with assms show ?thesis by (simp add: load_bits_def load_bits64_eq)
  next
    case some
    define p where "p = bitoff div 8"
    define s where "s = bitoff mod 8"
    define nb where "nb = (s + n + 7) div 8"
    have off: "bitoff = 8 * p + s" and s: "s < 8" by (simp_all add: p_def s_def)
    have nb: "s + n \<le> 8 * nb" "8 * nb < s + n + 8" by (simp_all add: nb_def)
    have fits: "p + nb \<le> length buf" using assms(1) off nb by linarith
    obtain v where v: "load_bits_word buf p s nb = Some v"
      and bits: "\<And>j. j < n \<Longrightarrow> bit v j \<longleftrightarrow> bit_at buf (bitoff + j)"
    proof (cases "8 \<le> nb")
      case True
      then have p: "8 * p + 64 \<le> 8 * length buf" using fits by simp
      have w: "ld_le64 buf p = Some (le_word (take 8 (drop p buf)))"
        using p by (simp add: ld_le64_def load_le_in)
      have nine: "p + 8 < length buf" if "nb = 9" using fits that by simp
      have nb9: "nb \<noteq> 9 \<Longrightarrow> n \<le> 64 - s" using nb True s some by linarith
      note win = bit_at_window [OF p s]
      show thesis
        by (rule that [of "if nb = 9
            then drop_bit s (le_word (take 8 (drop p buf))) OR push_bit (64 - s) (ucast (buf ! (p + 8)))
            else drop_bit s (le_word (take 8 (drop p buf)))"])
          (use True w nine nb9 some(2) in \<open>auto simp: load_in bit_or_iff win(1) win(2) [OF nine] off load_bits_word_def Let_def\<close>)
    next
      case False
      then have "ld_bytes_loop buf p 0 nb 0 = Some (bits_word (8 * nb) (\<lambda>i. bit_at buf (8 * p + i)))"
        using fits by (intro ld_bytes_loop_eq) simp_all
      with False nb show thesis
        by (intro that [of "drop_bit s (bits_word (8 * nb) (\<lambda>i. bit_at buf (8 * p + i)))"])
          (auto simp: bit_drop_bit_eq bit_bits_word off ac_simps load_bits_word_def)
    qed
    have "load_bits buf bitoff n = Some (v AND low_mask n)"
      using some v by (simp add: load_bits_def Let_def p_def [symmetric] s_def [symmetric] nb_def [symmetric])
    also have "v AND low_mask n = bits_word n (\<lambda>j. bit_at buf (bitoff + j))"
      using assms(2) bits by (intro bits_word_eqI) (auto simp: bit_and_iff bit_low_mask)
    finally show ?thesis .
  qed
qed

subsection \<open>The loops\<close>

lemma mask_loop_from:
  assumes "\<And>k. k < m \<Longrightarrow> t k = Some (f k)" and "m \<le> 64" and "j \<le> m"
    and "\<And>i. bit acc i \<longleftrightarrow> i < j \<and> f i"
  shows "mask_loop t j m acc = Some (bits_word m f)"
  using assms(3,4)
proof (induction "m - j" arbitrary: j acc)
  case 0
  then show ?case
    using assms(2) by (simp add: mask_loop.simps) (rule bits_word_eqI, auto)
next
  case (Suc d)
  have b: "bit (push_bit j (of_bool (f j)) :: u64) i \<longleftrightarrow> i = j \<and> f j" for i
    using Suc(2) assms(2) by (auto simp: bit_simps)
  have "mask_loop t (j + 1) m (acc OR push_bit j (of_bool (f j))) = Some (bits_word m f)"
    using Suc(2-) by (intro Suc.hyps(1)) (auto simp: bit_or_iff b less_Suc_eq)
  moreover have "j < m" using Suc(2) by simp
  ultimately show ?case by (subst mask_loop.simps) (simp add: assms(1))
qed

lemma mask_loop_eq:
  assumes "\<And>k. k < m \<Longrightarrow> t k = Some (f k)" and "m \<le> 64"
  shows "mask_loop t 0 m 0 = Some (bits_word m f)"
  by (rule mask_loop_from) (use assms in simp_all)

text \<open>The first index in \<open>[i, n)\<close> that satisfies \<open>P\<close>.\<close>

definition first_idx :: "(nat \<Rightarrow> bool) \<Rightarrow> nat \<Rightarrow> nat \<Rightarrow> nat option" where
  "first_idx P i n = find P [i..<n]"

lemma first_idx_done [simp]: "n \<le> i \<Longrightarrow> first_idx P i n = None"
  by (simp add: first_idx_def)

lemma first_idx_step: "i < n \<Longrightarrow> first_idx P i n = (if P i then Some i else first_idx P (Suc i) n)"
  by (simp add: first_idx_def upt_conv_Cons)

lemma first_idx_skip:
  "(\<And>k. i \<le> k \<Longrightarrow> k < j \<Longrightarrow> \<not> P k) \<Longrightarrow> i \<le> j \<Longrightarrow> j \<le> n \<Longrightarrow> first_idx P i n = first_idx P j n"
proof (induction "j - i" arbitrary: i)
  case (Suc d)
  then have "i < n" "\<not> P i" by simp_all
  with Suc show ?case by (simp add: first_idx_step [of i])
qed simp

lemma first_idx_hit:
  "(\<And>k. i \<le> k \<Longrightarrow> k < j \<Longrightarrow> \<not> P k) \<Longrightarrow> i \<le> j \<Longrightarrow> j < n \<Longrightarrow> P j \<Longrightarrow> first_idx P i n = Some j"
  using first_idx_skip [of i j P n] by (simp add: first_idx_step)

lemma first_idx_Some_iff:
  "first_idx P i n = Some j \<longleftrightarrow> i \<le> j \<and> j < n \<and> P j \<and> (\<forall>k. i \<le> k \<and> k < j \<longrightarrow> \<not> P k)"
proof
  assume "first_idx P i n = Some j"
  then obtain d where "d < n - i" "P (i + d)" "j = i + d" "\<forall>e<d. \<not> P (i + e)"
    by (auto simp: first_idx_def find_Some_iff)
  then show "i \<le> j \<and> j < n \<and> P j \<and> (\<forall>k. i \<le> k \<and> k < j \<longrightarrow> \<not> P k)"
    by (auto dest: le_Suc_ex)
qed (auto intro: first_idx_hit)

lemma first_idx_None_iff: "first_idx P i n = None \<longleftrightarrow> (\<forall>k. i \<le> k \<and> k < n \<longrightarrow> \<not> P k)"
  by (auto simp: first_idx_def find_None_iff)

lemma report_iff:
  "report (first_idx P 0 n) = -1 \<longleftrightarrow> (\<forall>k<n. \<not> P k)"
  "report (first_idx P 0 n) = int k \<longleftrightarrow> k < n \<and> P k \<and> (\<forall>j<k. \<not> P j)"
proof -
  show "report (first_idx P 0 n) = -1 \<longleftrightarrow> (\<forall>k<n. \<not> P k)"
    using first_idx_None_iff [of P 0 n] by (auto simp: report_def split: option.splits)
  show "report (first_idx P 0 n) = int k \<longleftrightarrow> k < n \<and> P k \<and> (\<forall>j<k. \<not> P j)"
    using first_idx_Some_iff [of P 0 n k] by (auto simp: report_def split: option.splits)
qed

lemma bits_word_zero: "n \<le> 64 \<Longrightarrow> bits_word n f = 0 \<longleftrightarrow> (\<forall>j<n. \<not> f j)"
  by (auto simp: bit_eq_iff bit_bits_word)

lemma mask_scan_eq:
  assumes "\<And>i. i < n \<Longrightarrow> mk i (min 64 (n - i)) = Some (bits_word (min 64 (n - i)) (\<lambda>j. P (i + j)))"
  shows "mask_scan mk i n = Some (first_idx P i n)"
proof (induction "n - i" arbitrary: i rule: less_induct)
  case less
  show ?case
  proof (cases "i < n")
    case True
    define m where "m = min 64 (n - i)"
    define w where "w = bits_word m (\<lambda>j. P (i + j))"
    have m: "m \<le> 64" "i + m \<le> n" "m = 64 \<or> i + m = n" using True by (auto simp: m_def)
    have mk: "mk i m = Some w" using assms [OF True] by (simp add: m_def w_def)
    note unfold = mask_scan.simps [of mk i n] m_def [symmetric] mk
    show ?thesis
    proof (cases "w = 0")
      case zero: True
      then have "\<not> P k" if "i \<le> k" "k < i + m" for k
        using that m(1) by (auto simp: w_def bits_word_zero dest!: spec [of _ "k - i"])
      then have "first_idx P i n = first_idx P (i + m) n"
        using m by (intro first_idx_skip) simp_all
      also have "first_idx P (i + m) n = first_idx P (i + 64) n"
        using m by auto
      finally show ?thesis using less [of "i + 64"] True zero by (simp add: unfold)
    next
      case False
      have bit: "bit w j \<longleftrightarrow> j < m \<and> P (i + j)" for j
        using m(1) by (simp add: w_def bit_bits_word)
      have "first_idx P i n = Some (i + builtin_ctz w)"
      proof (rule first_idx_hit)
        fix k assume k: "i \<le> k" "k < i + builtin_ctz w"
        then have "\<not> bit w (k - i)" by (intro builtin_ctz_bit(2) [OF False]) simp
        moreover have "builtin_ctz w < m" using builtin_ctz_bit(1) [OF False] by (simp add: bit)
        ultimately show "\<not> P k" using k by (simp add: bit)
      qed (use builtin_ctz_bit(1) [OF False] m in \<open>auto simp: bit\<close>)
      with True False show ?thesis by (simp add: unfold)
    qed
  qed (simp add: mask_scan.simps)
qed

text \<open>Rows and their validity.\<close>

definition row_valid :: "bytes option \<Rightarrow> nat \<Rightarrow> nat \<Rightarrow> bool" where
  "row_valid valid off i = (case valid of None \<Rightarrow> True | Some v \<Rightarrow> bit_at v (off + i))"

definition valid_fits :: "bytes option \<Rightarrow> nat \<Rightarrow> nat \<Rightarrow> bool" where
  "valid_fits valid off n = (case valid of None \<Rightarrow> True | Some v \<Rightarrow> off + n \<le> 8 * length v)"

lemma valid_mask_eq:
  assumes "valid_fits valid off n" and "i + m \<le> n" and "m \<le> 64"
  shows "valid_mask valid off i m = Some (bits_word m (\<lambda>j. row_valid valid off (i + j)))"
  using assms
  by (auto simp: valid_mask_def row_valid_def valid_fits_def load_bits_eq low_mask_word ac_simps
      split: option.splits)

lemma first_valid_eq:
  assumes "valid_fits valid off n"
  shows "first_valid n valid off = Some (report (first_idx (row_valid valid off) 0 n))"
proof -
  have "mask_scan (valid_mask valid off) 0 n = Some (first_idx (row_valid valid off) 0 n)"
    by (rule mask_scan_eq) (use assms in \<open>auto intro!: valid_mask_eq\<close>)
  then show ?thesis by (simp add: first_valid_def)
qed

text \<open>Numbers of set bits.\<close>

definition count_bits :: "(nat \<Rightarrow> bool) \<Rightarrow> nat \<Rightarrow> nat \<Rightarrow> nat" where
  "count_bits f a b = length (filter f [a..<b])"

lemma count_bits_split: "a \<le> b \<Longrightarrow> b \<le> c \<Longrightarrow> count_bits f a c = count_bits f a b + count_bits f b c"
proof -
  assume "a \<le> b" "b \<le> c"
  then obtain d where "c = b + d" by (auto simp: le_iff_add)
  with upt_add_eq_append [OF \<open>a \<le> b\<close>, of d] show ?thesis by (simp add: count_bits_def)
qed

lemma count_bits_same [simp]: "count_bits f a a = 0"
  by (simp add: count_bits_def)

lemma count_bits_card: "count_bits f a b = card {k. a \<le> k \<and> k < b \<and> f k}"
proof -
  have "set (filter f [a..<b]) = {k. a \<le> k \<and> k < b \<and> f k}" by auto
  then show ?thesis by (metis count_bits_def distinct_card distinct_filter distinct_upt)
qed

lemma popcount_bits:
  assumes "\<And>j. bit (w :: 'a::len word) j \<longleftrightarrow> j < n \<and> f (a + j)" and "n \<le> LENGTH('a)"
  shows "builtin_popcount w = count_bits f a (a + n)"
proof -
  have "{k. a \<le> k \<and> k < a + n \<and> f k} = (+) a ` {j. bit w j}"
    by (auto simp: assms image_iff le_iff_add)
  then show ?thesis
    by (simp add: builtin_popcount_card count_bits_card card_image)
qed

lemma popcount_bits_word: "n \<le> 64 \<Longrightarrow> builtin_popcount (bits_word n (\<lambda>j. f (a + j))) = count_bits f a (a + n)"
  by (rule popcount_bits) (simp_all add: bit_bits_word)

text \<open>A store of the low bytes of a word.\<close>

lemma st_bytes_loop_eq:
  assumes "j \<le> n" and "n \<le> 8"
  shows "st_bytes_loop buf p v j n = store_block buf (p + j) (drop j (le_bytes n v))"
  using assms(1)
proof (induction "n - j" arbitrary: j buf)
  case 0
  then show ?case by (simp add: st_bytes_loop.simps)
next
  case (Suc d)
  have "drop j (le_bytes n v) = ucast (drop_bit (8 * j) v) # drop (Suc j) (le_bytes n v)"
    using Suc(2) by (simp add: Cons_nth_drop_Suc [symmetric] le_bytes_nth)
  moreover have "j < n" using Suc(2) by simp
  ultimately show ?case using Suc(1) [of "Suc j"] Suc(2,3)
    by (subst st_bytes_loop.simps) (simp add: store_block_Cons)
qed

lemma st_le_bytes_eq: "n \<le> 8 \<Longrightarrow> st_le_bytes buf p v n = store_block buf p (le_bytes n v)"
  by (simp add: st_le_bytes_def st_le64_def store_le_def st_bytes_loop_eq)

end
