(* ===== verification/Bitmap_Count.thy ===== *)
theory Bitmap_Count
  imports Bitmap
begin

text \<open>
  Counting and expanding the bits of a bitmap: \<open>hs_columnar_bitmap_popcount\<close>,
  \<open>hs_columnar_popcount_bits\<close> and \<open>hs_columnar_unpack_bits_lsb\<close> of \<open>columnar_simd.c\<close>.  The totals
  are 64-bit words, returned as signed.
\<close>

subsection \<open>The kernels\<close>

text \<open>The loops over 8-byte words, 4-byte words and bytes at \<open>p + i\<close>; the result is the index where
  the loop stops and the acc.\<close>

function pop_words8 :: "bytes \<Rightarrow> nat \<Rightarrow> nat \<Rightarrow> nat \<Rightarrow> u64 \<Rightarrow> (nat \<times> u64) option" where
  "pop_words8 buf p i len acc =
     (if 8 \<le> len - i then do {
        w \<leftarrow> load_le 8 buf (p + i);
        pop_words8 buf p (i + 8) len (acc + of_nat (builtin_popcount (w :: u64)))
      }
      else Some (i, acc))"
  by pat_completeness auto
termination
  by (relation "measure (\<lambda>(buf, p, i, len, acc). len - i)") auto

function pop_words4 :: "bytes \<Rightarrow> nat \<Rightarrow> nat \<Rightarrow> nat \<Rightarrow> u64 \<Rightarrow> (nat \<times> u64) option" where
  "pop_words4 buf p i len acc =
     (if 4 \<le> len - i then do {
        w \<leftarrow> load_le 4 buf (p + i);
        pop_words4 buf p (i + 4) len (acc + of_nat (builtin_popcount (w :: u32)))
      }
      else Some (i, acc))"
  by pat_completeness auto
termination
  by (relation "measure (\<lambda>(buf, p, i, len, acc). len - i)") auto

function pop_bytes :: "bytes \<Rightarrow> nat \<Rightarrow> nat \<Rightarrow> nat \<Rightarrow> u64 \<Rightarrow> u64 option" where
  "pop_bytes buf p i len acc =
     (if i < len then do {
        b \<leftarrow> load buf (p + i);
        pop_bytes buf p (i + 1) len (acc + of_nat (builtin_popcount (ucast b :: u32)))
      }
      else Some acc)"
  by pat_completeness auto
termination
  by (relation "measure (\<lambda>(buf, p, i, len, acc). len - i)") auto

definition hs_columnar_bitmap_popcount :: "bytes \<Rightarrow> nat \<Rightarrow> int option" where
  "hs_columnar_bitmap_popcount buf len = do {
     (i, acc) \<leftarrow> pop_words8 buf 0 0 len 0;
     (i, acc) \<leftarrow> pop_words4 buf 0 i len acc;
     map_option sint (pop_bytes buf 0 i len acc)
   }"

text \<open>Four words a turn, in four accumulators.\<close>

function pop_quads :: "bytes \<Rightarrow> nat \<Rightarrow> nat \<Rightarrow> nat \<Rightarrow> u64 \<Rightarrow> u64 \<Rightarrow> u64 \<Rightarrow> u64 \<Rightarrow> (nat \<times> u64) option" where
  "pop_quads buf p i len t0 t1 t2 t3 =
     (if 32 \<le> len - i then do {
        w0 \<leftarrow> load_le 8 buf (p + i);
        w1 \<leftarrow> load_le 8 buf (p + i + 8);
        w2 \<leftarrow> load_le 8 buf (p + i + 16);
        w3 \<leftarrow> load_le 8 buf (p + i + 24);
        pop_quads buf p (i + 32) len
          (t0 + of_nat (builtin_popcount (w0 :: u64))) (t1 + of_nat (builtin_popcount (w1 :: u64)))
          (t2 + of_nat (builtin_popcount (w2 :: u64))) (t3 + of_nat (builtin_popcount (w3 :: u64)))
      }
      else Some (i, t0 + t1 + t2 + t3))"
  by pat_completeness auto
termination
  by (relation "measure (\<lambda>(buf, p, i, len, t0, t1, t2, t3). len - i)") auto

declare pop_words8.simps [simp del] pop_words4.simps [simp del] pop_bytes.simps [simp del]
  pop_quads.simps [simp del]

text \<open>The bits of the first byte: acc, remaining bits, pointer.\<close>

definition pop_head :: "bytes \<Rightarrow> nat \<Rightarrow> nat \<Rightarrow> nat \<Rightarrow> (u64 \<times> nat \<times> nat) option" where
  "pop_head buf p s nbits =
     (if s \<noteq> 0 then do {
        let n = min (8 - s) nbits;
        c \<leftarrow> load buf p;
        let b = drop_bit s (ucast c :: u32) AND (push_bit n 1 - 1);
        Some (of_nat (builtin_popcount b), nbits - n, p + 1)
      }
      else Some (0, nbits, p))"

definition pop_rest :: "bytes \<Rightarrow> nat \<Rightarrow> nat \<Rightarrow> u64 \<Rightarrow> u64 option" where
  "pop_rest buf p n acc =
     (if n \<noteq> 0 then do {
        c \<leftarrow> load buf p;
        Some (acc + of_nat (builtin_popcount ((ucast c :: u32) AND (push_bit n 1 - 1))))
      }
      else Some acc)"

definition hs_columnar_popcount_bits :: "bytes \<Rightarrow> nat \<Rightarrow> nat \<Rightarrow> int option" where
  "hs_columnar_popcount_bits buf bitoff nbits =
     (if nbits = 0 then Some 0
      else do {
        (acc, nbits, p) \<leftarrow> pop_head buf (bitoff div 8) (bitoff mod 8) nbits;
        let nbytes = nbits div 8;
        (i, t) \<leftarrow> pop_quads buf p 0 nbytes 0 0 0 0;
        (i, acc) \<leftarrow> pop_words8 buf p i nbytes (acc + t);
        acc \<leftarrow> pop_bytes buf p i nbytes acc;
        map_option sint (pop_rest buf (p + nbytes) (nbits mod 8) acc)
      })"

text \<open>Expansion: the eight stores of a turn, then single bits.\<close>

definition unpack8 :: "u8 \<Rightarrow> bytes" where
  "unpack8 b = [b AND 1, drop_bit 1 b AND 1, drop_bit 2 b AND 1, drop_bit 3 b AND 1,
     drop_bit 4 b AND 1, drop_bit 5 b AND 1, drop_bit 6 b AND 1, drop_bit 7 b AND 1]"

function unpack_blocks :: "bytes \<Rightarrow> nat \<Rightarrow> nat \<Rightarrow> bytes \<Rightarrow> (nat \<times> bytes) option" where
  "unpack_blocks src pos n dst =
     (if 8 \<le> n - pos then do {
        b \<leftarrow> load src (pos div 8);
        dst \<leftarrow> store_block dst pos (unpack8 b);
        unpack_blocks src (pos + 8) n dst
      }
      else Some (pos, dst))"
  by pat_completeness auto
termination
  by (relation "measure (\<lambda>(src, pos, n, dst). n - pos)") auto

function unpack_bits :: "bytes \<Rightarrow> nat \<Rightarrow> nat \<Rightarrow> bytes \<Rightarrow> bytes option" where
  "unpack_bits src pos n dst =
     (if pos < n then do {
        b \<leftarrow> load src (pos div 8);
        dst \<leftarrow> store dst pos (drop_bit (pos mod 8) b AND 1);
        unpack_bits src (pos + 1) n dst
      }
      else Some dst)"
  by pat_completeness auto
termination
  by (relation "measure (\<lambda>(src, pos, n, dst). n - pos)") auto

declare unpack_blocks.simps [simp del] unpack_bits.simps [simp del]

definition hs_columnar_unpack_bits_lsb :: "bytes \<Rightarrow> nat \<Rightarrow> bytes \<Rightarrow> bytes option" where
  "hs_columnar_unpack_bits_lsb src n dst = do {
     (pos, dst) \<leftarrow> unpack_blocks src 0 n dst;
     unpack_bits src pos n dst
   }"

subsection \<open>Counting\<close>

lemma popcount_load:
  assumes "p + n \<le> length buf" and "8 * n \<le> LENGTH('a)"
  shows "builtin_popcount (le_word (take n (drop p buf)) :: 'a::len word) =
    count_bits (bit_at buf) (8 * p) (8 * (p + n))"
proof -
  have "bit (le_word (take n (drop p buf)) :: 'a word) j \<longleftrightarrow> j < 8 * n \<and> bit_at buf (8 * p + j)" for j
  proof (cases "j < 8 * n")
    case True
    then have "j div 8 < n" by (simp add: less_mult_imp_div_less mult.commute)
    with True assms show ?thesis by (auto simp: bit_le_word bit_at_def min_def)
  qed (use assms in \<open>auto simp: bit_le_word min_def\<close>)
  then show ?thesis using assms(2) by (simp add: popcount_bits [where n = "8 * n"] distrib_left)
qed

definition ones_in :: "bytes \<Rightarrow> nat \<Rightarrow> nat \<Rightarrow> u64" where
  "ones_in buf p q = of_nat (count_bits (bit_at buf) (8 * p) (8 * q))"

lemma ones_in_add: "p \<le> q \<Longrightarrow> q \<le> r \<Longrightarrow> ones_in buf p q + ones_in buf q r = ones_in buf p r"
  by (simp add: ones_in_def count_bits_split [of "8 * p" "8 * q" "8 * r"])

lemma ones_in_same [simp]: "ones_in buf p p = 0"
  by (simp add: ones_in_def)

lemma ones_in_load:
  "p + n \<le> length buf \<Longrightarrow> 8 * n \<le> LENGTH('a) \<Longrightarrow>
     of_nat (builtin_popcount (le_word (take n (drop p buf)) :: 'a::len word)) = ones_in buf p (p + n)"
  by (simp only: ones_in_def popcount_load)

text \<open>What each loop keeps: the bits up to the index are in the accumulator.\<close>

definition pop_post :: "bytes \<Rightarrow> nat \<Rightarrow> nat \<Rightarrow> nat \<Rightarrow> u64 \<Rightarrow> (nat \<times> u64) option \<Rightarrow> bool" where
  "pop_post buf p i len t r \<longleftrightarrow>
     (\<exists>j. r = Some (j, t + ones_in buf (p + i) (p + j)) \<and> i \<le> j \<and> j \<le> len)"

lemma pop_post_here: "i \<le> len \<Longrightarrow> pop_post buf p i len t (Some (i, t))"
  by (auto simp: pop_post_def)

lemma pop_post_step:
  assumes "pop_post buf p (i + d) len (t + ones_in buf (p + i) (p + i + d)) r"
  shows "pop_post buf p i len t r"
proof -
  obtain j where j: "r = Some (j, t + ones_in buf (p + i) (p + i + d) +
      ones_in buf (p + (i + d)) (p + j))" "i + d \<le> j" "j \<le> len"
    using assms by (auto simp: pop_post_def)
  moreover have "ones_in buf (p + i) (p + i + d) + ones_in buf (p + (i + d)) (p + j) =
      ones_in buf (p + i) (p + j)"
    using j(2) ones_in_add [of "(p + i)" "(p + i + d)" "(p + j)" buf] by (simp add: add.assoc)
  ultimately show ?thesis by (auto simp: pop_post_def add.assoc)
qed

lemma pop_words8_post:
  "p + len \<le> length buf \<Longrightarrow> i \<le> len \<Longrightarrow> pop_post buf p i len t (pop_words8 buf p i len t)"
proof (induction buf p i len t rule: pop_words8.induct)
  case (1 buf p i len t)
  show ?case
  proof (cases "8 \<le> len - i")
    case True
    then have ld: "load_le 8 buf (p + i) = Some (le_word (take 8 (drop (p + i) buf)) :: u64)"
      using 1(2) by (simp add: load_le_in)
    have "pop_post buf p (i + 8) len (t + ones_in buf (p + i) (p + i + 8)) (pop_words8 buf p i len t)"
      using 1 True ld by (subst pop_words8.simps) (simp add: ones_in_load)
    then show ?thesis by (rule pop_post_step)
  qed (use 1 in \<open>simp add: pop_words8.simps pop_post_here\<close>)
qed

lemma pop_words4_post:
  "p + len \<le> length buf \<Longrightarrow> i \<le> len \<Longrightarrow> pop_post buf p i len t (pop_words4 buf p i len t)"
proof (induction buf p i len t rule: pop_words4.induct)
  case (1 buf p i len t)
  show ?case
  proof (cases "4 \<le> len - i")
    case True
    then have ld: "load_le 4 buf (p + i) = Some (le_word (take 4 (drop (p + i) buf)) :: u32)"
      using 1(2) by (simp add: load_le_in)
    have "pop_post buf p (i + 4) len (t + ones_in buf (p + i) (p + i + 4)) (pop_words4 buf p i len t)"
      using 1 True ld by (subst pop_words4.simps) (simp add: ones_in_load)
    then show ?thesis by (rule pop_post_step)
  qed (use 1 in \<open>simp add: pop_words4.simps pop_post_here\<close>)
qed

lemma popcount_byte:
  assumes "s + n \<le> 8" and "\<And>j. bit (w :: u32) j \<longleftrightarrow> j < n \<and> bit (buf ! q) (s + j)"
  shows "builtin_popcount w = count_bits (bit_at buf) (8 * q + s) (8 * q + s + n)"
proof (rule popcount_bits)
  fix j
  show "bit w j \<longleftrightarrow> j < n \<and> bit_at buf (8 * q + s + j)"
    using assms(1) bit_at_byte [of "s + j" buf q]
    by (cases "j < n") (simp_all add: assms(2) add.assoc)
qed (use assms(1) in simp)

lemma ones_in_byte: "of_nat (builtin_popcount (ucast (buf ! q) :: u32)) = ones_in buf q (q + 1)"
proof -
  have "bit (ucast (buf ! q) :: u32) j \<longleftrightarrow> j < 8 \<and> bit (buf ! q) (0 + j)" for j
    by (auto simp: bit_simps dest: bit_imp_le_length)
  from popcount_byte [OF _ this] show ?thesis by (simp add: ones_in_def distrib_left add.commute)
qed

lemma pop_bytes_eq:
  "p + len \<le> length buf \<Longrightarrow> i \<le> len \<Longrightarrow>
     pop_bytes buf p i len t = Some (t + ones_in buf (p + i) (p + len))"
proof (induction buf p i len t rule: pop_bytes.induct)
  case (1 buf p i len t)
  show ?case
  proof (cases "i < len")
    case True
    then show ?thesis
      using 1 ones_in_add [of "(p + i)" "(p + i + 1)" "(p + len)" buf]
      by (subst pop_bytes.simps) (simp add: load_in ones_in_byte add.assoc)
  qed (use 1 in \<open>simp add: pop_bytes.simps\<close>)
qed

lemma pop_quads_post:
  "p + len \<le> length buf \<Longrightarrow> i \<le> len \<Longrightarrow>
     pop_post buf p i len (t0 + t1 + t2 + t3) (pop_quads buf p i len t0 t1 t2 t3)"
proof (induction buf p i len t0 t1 t2 t3 rule: pop_quads.induct)
  case (1 buf p i len t0 t1 t2 t3)
  show ?case
  proof (cases "32 \<le> len - i")
    case True
    have ld: "load_le 8 buf (p + i + d) = Some (le_word (take 8 (drop (p + i + d) buf)) :: u64)"
      "of_nat (builtin_popcount (le_word (take 8 (drop (p + i + d) buf)) :: u64)) =
        ones_in buf (p + i + d) (p + i + d + 8)" if "d \<le> 24" for d
      using 1(2) True that by (simp_all add: load_le_in ones_in_load)
    note lds = ld [of 0, simplified] ld [of 8, simplified] ld [of 16, simplified] ld [of 24, simplified]
    let ?b = "\<lambda>d. ones_in buf (p + i + d) (p + i + d + 8)"
    have "pop_post buf p (i + 32) len (t0 + ?b 0 + (t1 + ?b 8) + (t2 + ?b 16) + (t3 + ?b 24))
        (pop_quads buf p i len t0 t1 t2 t3)"
      using 1(1) [OF True lds(1) lds(3) lds(5) lds(7)] 1(2,3) True lds
      by (subst pop_quads.simps) simp
    moreover have "t0 + ?b 0 + (t1 + ?b 8) + (t2 + ?b 16) + (t3 + ?b 24) =
        t0 + t1 + t2 + t3 + ones_in buf (p + i) (p + i + 32)"
    proof -
      have sum: "?b 0 + ?b 8 + ?b 16 + ?b 24 = ones_in buf (p + i) (p + i + 32)"
        using ones_in_add [of "(p + i)" "(p + i + 8)" "(p + i + 16)" buf]
          ones_in_add [of "(p + i)" "(p + i + 16)" "(p + i + 24)" buf]
          ones_in_add [of "(p + i)" "(p + i + 24)" "(p + i + 32)" buf]
        by (simp add: add.assoc)
      have ring: "t0 + a + (t1 + b) + (t2 + c) + (t3 + d) = t0 + t1 + t2 + t3 + (a + b + c + d)"
        for a b c d :: u64
        by (simp only: ac_simps)
      show ?thesis by (simp only: ring [of "?b 0" "?b 8" "?b 16" "?b 24"] sum)
    qed
    ultimately have "pop_post buf p (i + 32) len (t0 + t1 + t2 + t3 + ones_in buf (p + i) (p + i + 32))
        (pop_quads buf p i len t0 t1 t2 t3)"
      by (simp only:)
    then show ?thesis by (rule pop_post_step)
  qed (use 1 in \<open>simp add: pop_quads.simps pop_post_here\<close>)
qed

lemma count_bits_le: "count_bits f a b \<le> b - a"
  by (metis count_bits_def diff_zero length_filter_le length_upt)

lemma sint_count: "c < 2 ^ 63 \<Longrightarrow> sint (of_nat c :: u64) = int c"
  by (simp add: signed_of_nat signed_take_bit_int_eq_self)

theorem bitmap_popcount_eq:
  assumes "len \<le> length buf" and "8 * len < 2 ^ 63"
  shows "hs_columnar_bitmap_popcount buf len = Some (int (count_bits (bit_at buf) 0 (8 * len)))"
proof -
  obtain i where i: "pop_words8 buf 0 0 len 0 = Some (i, ones_in buf 0 i)" "i \<le> len"
    using pop_words8_post [of 0 len buf 0 0] assms(1) by (auto simp: pop_post_def)
  obtain j where j: "pop_words4 buf 0 i len (ones_in buf 0 i) = Some (j, ones_in buf 0 i + ones_in buf i j)"
    "i \<le> j" "j \<le> len"
    using pop_words4_post [of 0 len buf i] assms(1) i(2) by (auto simp: pop_post_def)
  have "hs_columnar_bitmap_popcount buf len = Some (sint (ones_in buf 0 i + ones_in buf i j + ones_in buf j len))"
    using i j assms(1) by (simp add: hs_columnar_bitmap_popcount_def pop_bytes_eq)
  also have "ones_in buf 0 i + ones_in buf i j + ones_in buf j len = ones_in buf 0 len"
    using i j by (simp add: ones_in_add)
  also have "sint (ones_in buf 0 len) = int (count_bits (bit_at buf) 0 (8 * len))"
    using assms(2) count_bits_le [of "bit_at buf" 0 "8 * len"] by (simp add: ones_in_def sint_count)
  finally show ?thesis .
qed

lemma bit_low_ones:
  "n < 32 \<Longrightarrow> bit (push_bit n 1 - 1 :: u32) j \<longleftrightarrow> j < n" "n < 32 \<Longrightarrow> bit (2 ^ n - 1 :: u32) j \<longleftrightarrow> j < n"
proof -
  have "2 ^ n - 1 = (mask n :: u32)" by (simp add: mask_eq_exp_minus_1)
  then show "n < 32 \<Longrightarrow> bit (2 ^ n - 1 :: u32) j \<longleftrightarrow> j < n" by (auto simp: bit_mask_iff)
  then show "n < 32 \<Longrightarrow> bit (push_bit n 1 - 1 :: u32) j \<longleftrightarrow> j < n" by (simp add: push_bit_eq_mult)
qed

lemma pop_head_eq:
  assumes "8 * p + s + n \<le> 8 * length buf" and "s < 8" and "0 < n"
  shows "\<exists>k q. pop_head buf p s n = Some (of_nat (count_bits (bit_at buf) (8 * p + s) (8 * p + s + k)), n - k, q) \<and>
    k \<le> n \<and> 8 * p + s + k \<le> 8 * q \<and> (n = k \<or> 8 * q = 8 * p + s + k) \<and> q \<le> length buf"
proof (cases "s = 0")
  case True
  with assms show ?thesis
    by (auto simp: pop_head_def intro!: exI [of _ 0] exI [of _ p])
next
  case False
  define k where "k = min (8 - s) n"
  have k: "s + k \<le> 8" "k \<le> n" "k < 32" using assms(2) by (auto simp: k_def)
  have p: "p < length buf" using assms by simp
  have "bit (drop_bit s (ucast (buf ! p) :: u32) AND (push_bit k 1 - 1)) j \<longleftrightarrow> j < k \<and> bit (buf ! p) (s + j)" for j
    using k by (auto simp: bit_and_iff bit_low_ones bit_drop_bit_eq bit_simps ac_simps dest: bit_imp_le_length)
  from popcount_byte [OF k(1) this] False p have
    "pop_head buf p s n = Some (of_nat (count_bits (bit_at buf) (8 * p + s) (8 * p + s + k)), n - k, p + 1)"
    by (simp add: pop_head_def Let_def k_def [symmetric] load_in)
  moreover have "n = k \<or> 8 * (p + 1) = 8 * p + s + k" using assms(2) by (auto simp: k_def)
  ultimately show ?thesis using k p by (intro exI [of _ k] exI [of _ "p + 1"]) auto
qed

lemma pop_rest_eq:
  assumes "8 * q + n \<le> 8 * length buf" and "n < 8"
  shows "pop_rest buf q n t = Some (t + of_nat (count_bits (bit_at buf) (8 * q) (8 * q + n)))"
proof (cases "n = 0")
  case False
  have "bit ((ucast (buf ! q) :: u32) AND (push_bit n 1 - 1)) j \<longleftrightarrow> j < n \<and> bit (buf ! q) (0 + j)" for j
    using assms(2) by (auto simp: bit_and_iff bit_low_ones bit_simps dest: bit_imp_le_length)
  from popcount_byte [OF _ this] assms False show ?thesis by (simp add: pop_rest_def load_in)
qed (simp add: pop_rest_def)

theorem popcount_bits_eq:
  assumes "bitoff + nbits \<le> 8 * length buf" and "nbits < 2 ^ 63"
  shows "hs_columnar_popcount_bits buf bitoff nbits =
    Some (int (count_bits (bit_at buf) bitoff (bitoff + nbits)))"
proof (cases "nbits = 0")
  case False
  define s where "s = bitoff mod 8"
  define p where "p = bitoff div 8"
  have off: "bitoff = 8 * p + s" and s: "s < 8" by (simp_all add: s_def p_def)
  obtain k q where head: "pop_head buf p s nbits =
      Some (of_nat (count_bits (bit_at buf) bitoff (bitoff + k)), nbits - k, q)"
    and k: "k \<le> nbits" "nbits = k \<or> 8 * q = bitoff + k" "q \<le> length buf"
    using pop_head_eq [of p s nbits buf] assms(1) False s unfolding off by auto
  define m where "m = (nbits - k) div 8"
  define r where "r = (nbits - k) mod 8"
  have n: "nbits - k = 8 * m + r" "r < 8" by (simp_all add: m_def r_def)
  have m: "q + m \<le> length buf" and r: "8 * (q + m) + r \<le> 8 * length buf"
    using n k assms(1) by auto
  obtain i where i: "pop_quads buf q 0 m 0 0 0 0 = Some (i, ones_in buf q (q + i))" "i \<le> m"
    using pop_quads_post [of q m buf 0 0 0 0 0] m by (auto simp: pop_post_def)
  define t where "t = of_nat (count_bits (bit_at buf) bitoff (bitoff + k)) + ones_in buf q (q + i)"
  obtain j where j: "pop_words8 buf q i m t = Some (j, t + ones_in buf (q + i) (q + j))" "i \<le> j" "j \<le> m"
    using pop_words8_post [of q m buf i t] m i(2) by (auto simp: pop_post_def)
  define u where "u = t + ones_in buf (q + i) (q + j) + ones_in buf (q + j) (q + m) +
    of_nat (count_bits (bit_at buf) (8 * (q + m)) (8 * (q + m) + r))"
  have "hs_columnar_popcount_bits buf bitoff nbits = Some (sint u)"
    using False head i j m r n(2)
    by (simp add: hs_columnar_popcount_bits_def p_def [symmetric] s_def [symmetric] m_def [symmetric]
        r_def [symmetric] Let_def t_def [symmetric] pop_bytes_eq pop_rest_eq u_def)
  also have "u = of_nat (count_bits (bit_at buf) bitoff (bitoff + nbits))"
  proof -
    have "u = of_nat (count_bits (bit_at buf) bitoff (bitoff + k)) + ones_in buf q (q + m) +
        of_nat (count_bits (bit_at buf) (8 * (q + m)) (8 * (q + m) + r))"
      using i j by (simp add: u_def t_def ones_in_add add.assoc)
    also have "\<dots> = of_nat (count_bits (bit_at buf) bitoff (bitoff + k) +
        count_bits (bit_at buf) (8 * q) (8 * q + (nbits - k)))"
      using count_bits_split [of "8 * q" "8 * (q + m)" "8 * (q + m) + r" "bit_at buf"] n
      by (simp add: ones_in_def distrib_left add.assoc)
    also have "count_bits (bit_at buf) bitoff (bitoff + k) + count_bits (bit_at buf) (8 * q) (8 * q + (nbits - k)) =
        count_bits (bit_at buf) bitoff (bitoff + nbits)"
      using k count_bits_split [of bitoff "bitoff + k" "bitoff + nbits" "bit_at buf"] by auto
    finally show ?thesis .
  qed
  also have "sint (of_nat (count_bits (bit_at buf) bitoff (bitoff + nbits)) :: u64) =
      int (count_bits (bit_at buf) bitoff (bitoff + nbits))"
    using assms(2) count_bits_le [of "bit_at buf" bitoff "bitoff + nbits"] by (intro sint_count) simp
  finally show ?thesis .
qed (simp add: hs_columnar_popcount_bits_def)

subsection \<open>Expanding\<close>

definition bit_byte :: "bytes \<Rightarrow> nat \<Rightarrow> u8" where
  "bit_byte src k = of_bool (bit_at src k)"

lemma drop_bit_and_1: "drop_bit k b AND 1 = (of_bool (bit b k) :: u8)"
  by (simp add: and_one_eq mod_2_eq_odd bit_iff_odd_drop_bit)

lemma unpack8_eq: "unpack8 (src ! q) = map (bit_byte src) [8 * q..<8 * q + 8]"
proof -
  have "[8 * q..<8 * q + 8] = map ((+) (8 * q)) [0, 1, 2, 3, 4, 5, 6, 7]"
    by (simp add: upt_conv_Cons)
  moreover have "src ! q AND 1 = of_bool (bit (src ! q) 0)" using drop_bit_and_1 [of 0 "src ! q"] by simp
  ultimately show ?thesis
    by (simp add: unpack8_def drop_bit_and_1 bit_byte_def bit_at_byte bit_at_byte [of 0 src q, simplified]
        bit_at_byte [of 1 src q, simplified] bit_at_byte [of 2 src q, simplified])
qed

definition expanded :: "bytes \<Rightarrow> bytes \<Rightarrow> nat \<Rightarrow> nat \<Rightarrow> bytes" where
  "expanded src dst i j = take i dst @ map (bit_byte src) [i..<j] @ drop j dst"

lemma expanded_store:
  assumes "i \<le> j" and "j \<le> k" and "k \<le> length dst"
  shows "store_block (expanded src dst i j) j (map (bit_byte src) [j..<k]) = Some (expanded src dst i k)"
proof -
  have "[i..<k] = [i..<j] @ [j..<k]" using assms by (metis le_iff_add upt_add_eq_append)
  with assms show ?thesis
    by (auto simp: store_block_def expanded_def)
qed

lemma unpack_blocks_eq:
  assumes "n \<le> length dst" and "n \<le> 8 * length src" and "i \<le> pos" and "pos \<le> n" and "pos mod 8 = 0"
  shows "\<exists>j. unpack_blocks src pos n (expanded src dst i pos) = Some (j, expanded src dst i j) \<and> pos \<le> j \<and> j \<le> n"
  using assms(3-)
proof (induction "n - pos" arbitrary: pos rule: less_induct)
  case less
  show ?case
  proof (cases "8 \<le> n - pos")
    case True
    define q where "q = pos div 8"
    have pos: "pos = 8 * q" using less.prems by (simp add: q_def mod_eq_0_iff_dvd)
    have q: "q < length src" using True assms(2) pos by simp
    have st: "store_block (expanded src dst i pos) pos (unpack8 (src ! q)) = Some (expanded src dst i (pos + 8))"
      using expanded_store [of i pos "pos + 8" dst src] less.prems True assms(1) by (simp add: unpack8_eq pos)
    obtain j where "unpack_blocks src (pos + 8) n (expanded src dst i (pos + 8)) = Some (j, expanded src dst i j)"
      "pos + 8 \<le> j" "j \<le> n"
    proof -
      have "n - (pos + 8) < n - pos" "pos + 8 \<le> n" using True by simp_all
      with less.hyps [of "pos + 8"] less.prems that show thesis by auto
    qed
    with True q st show ?thesis
      by (subst unpack_blocks.simps) (simp add: q_def [symmetric] load_in)
  qed (use less.prems in \<open>auto simp: unpack_blocks.simps\<close>)
qed

lemma unpack_bits_eq:
  assumes "n \<le> length dst" and "n \<le> 8 * length src" and "i \<le> pos" and "pos \<le> n"
  shows "unpack_bits src pos n (expanded src dst i pos) = Some (expanded src dst i n)"
  using assms(3-)
proof (induction "n - pos" arbitrary: pos)
  case 0
  then show ?case by (simp add: unpack_bits.simps)
next
  case (Suc d)
  then have "pos < n" by simp
  moreover have "pos div 8 < length src" using \<open>pos < n\<close> assms(2) by (simp add: less_mult_imp_div_less mult.commute)
  moreover have "store (expanded src dst i pos) pos (bit_byte src pos) = Some (expanded src dst i (Suc pos))"
    using expanded_store [of i pos "Suc pos" dst src] Suc.prems \<open>pos < n\<close> assms(1) by (simp add: store_as_block)
  moreover have "drop_bit (pos mod 8) (src ! (pos div 8)) AND 1 = bit_byte src pos"
    by (simp add: drop_bit_and_1 bit_byte_def bit_at_def)
  ultimately show ?case
    using Suc by (subst unpack_bits.simps) (simp add: load_in)
qed

theorem unpack_bits_lsb_eq:
  assumes "n \<le> length dst" and "n \<le> 8 * length src"
  shows "hs_columnar_unpack_bits_lsb src n dst = Some (map (bit_byte src) [0..<n] @ drop n dst)"
proof -
  have start: "expanded src dst 0 0 = dst" by (simp add: expanded_def)
  obtain j where j: "unpack_blocks src 0 n dst = Some (j, expanded src dst 0 j)" "j \<le> n"
    using unpack_blocks_eq [OF assms, of 0 0] start by auto
  then show ?thesis
    using unpack_bits_eq [OF assms, of 0 j] by (simp add: hs_columnar_unpack_bits_lsb_def) (simp add: expanded_def)
qed

end
