(* ===== verification/Bitmap_Copy.thy ===== *)
theory Bitmap_Copy
  imports Bitmap_Count
begin

text \<open>
  Bit-level copies of \<open>columnar_simd.c\<close>: \<open>hs_columnar_copy_bits\<close> with its two strategies,
  \<open>hs_columnar_and_bits\<close> and \<open>hs_columnar_gather_bits\<close>.  Source and destination are different
  buffers, as the kernels require.
\<close>

subsection \<open>Copying a bit range\<close>

definition patch_byte :: "bytes \<Rightarrow> nat \<Rightarrow> u32 \<Rightarrow> u32 \<Rightarrow> bytes option" where
  "patch_byte d q msk v = do {
     c \<leftarrow> load d q;
     store d q (ucast ((ucast c AND NOT msk) OR v))
   }"

definition low_ones :: "nat \<Rightarrow> u32" where
  "low_ones n = push_bit n 1 - 1"

text \<open>Same phase: patch the head byte, copy the middle, patch the tail.\<close>

definition copy_same_head :: "bytes \<Rightarrow> nat \<Rightarrow> nat \<Rightarrow> bytes \<Rightarrow> nat \<Rightarrow> nat \<Rightarrow> (bytes \<times> nat \<times> nat \<times> nat) option" where
  "copy_same_head dst d ds src s nbits =
     (if ds \<noteq> 0 then do {
        let n = min (8 - ds) nbits;
        let msk = push_bit ds (low_ones n);
        c \<leftarrow> load src s;
        dst \<leftarrow> patch_byte dst d msk (ucast c AND msk);
        Some (dst, d + 1, s + 1, nbits - n)
      }
      else Some (dst, d, s, nbits))"

definition copy_same :: "bytes \<Rightarrow> nat \<Rightarrow> nat \<Rightarrow> bytes \<Rightarrow> nat \<Rightarrow> nat \<Rightarrow> bytes option" where
  "copy_same dst d ds src s nbits = do {
     (dst, d, s, nbits) \<leftarrow> copy_same_head dst d ds src s nbits;
     let nb = nbits div 8;
     xs \<leftarrow> load_block src s nb;
     dst \<leftarrow> store_block dst d xs;
     let rem = nbits mod 8;
     (if rem \<noteq> 0 then do {
        let msk = low_ones rem;
        c \<leftarrow> load src (s + nb);
        patch_byte dst (d + nb) msk (ucast c AND msk)
      }
      else Some dst)
   }"

text \<open>Different phases: bring the destination to a byte boundary, then shift words.  A shift by 64
  is undefined in C.\<close>

definition shl64 :: "u64 \<Rightarrow> nat \<Rightarrow> u64 option" where
  "shl64 v n = (if n < 64 then Some (push_bit n v) else None)"

definition copy_shift_head :: "bytes \<Rightarrow> nat \<Rightarrow> nat \<Rightarrow> bytes \<Rightarrow> nat \<Rightarrow> nat \<Rightarrow> (bytes \<times> nat \<times> nat \<times> nat) option" where
  "copy_shift_head dst d ds src sbit nbits =
     (if ds \<noteq> 0 then do {
        let n = min (8 - ds) nbits;
        w \<leftarrow> load_bits src sbit n;
        let v = (ucast w :: u32);
        let msk = push_bit ds (low_ones n);
        dst \<leftarrow> patch_byte dst d msk (push_bit ds v AND msk);
        Some (dst, d + 1, sbit + n, nbits - n)
      }
      else Some (dst, d, sbit, nbits))"

function copy_words :: "bytes \<Rightarrow> nat \<Rightarrow> bytes \<Rightarrow> nat \<Rightarrow> nat \<Rightarrow> nat \<Rightarrow> (bytes \<times> nat \<times> nat \<times> nat) option" where
  "copy_words dst d src s k nbits =
     (if 64 \<le> nbits then do {
        w \<leftarrow> ld_le64 src s;
        c \<leftarrow> load src (s + 8);
        hi \<leftarrow> shl64 (ucast c) (64 - k);
        dst \<leftarrow> st_le64 dst d (drop_bit k w OR hi);
        copy_words dst (d + 8) src (s + 8) k (nbits - 64)
      }
      else Some (dst, d, s, nbits))"
  by pat_completeness auto
termination
  by (relation "measure (\<lambda>(dst, d, src, s, k, nbits). nbits)") auto

declare copy_words.simps [simp del]

definition copy_shift_tail :: "bytes \<Rightarrow> nat \<Rightarrow> bytes \<Rightarrow> nat \<Rightarrow> nat \<Rightarrow> nat \<Rightarrow> bytes option" where
  "copy_shift_tail dst d src s k nbits =
     (if nbits \<noteq> 0 then do {
        v \<leftarrow> load_bits (drop s src) k nbits;
        let full = nbits div 8;
        dst \<leftarrow> st_le_bytes dst d v full;
        let rem = nbits mod 8;
        (if rem \<noteq> 0 then
           (let msk = low_ones rem
            in patch_byte dst (d + full) msk (ucast (drop_bit (8 * full) v) AND msk))
         else Some dst)
      }
      else Some dst)"

definition hs_columnar_copy_bits :: "bytes \<Rightarrow> nat \<Rightarrow> bytes \<Rightarrow> nat \<Rightarrow> nat \<Rightarrow> bytes option" where
  "hs_columnar_copy_bits dst dstoff src srcoff nbits =
     (if nbits = 0 then Some dst
      else
        (let d = dstoff div 8; ds = dstoff mod 8; ss = srcoff mod 8 in
         if ds = ss then copy_same dst d ds src (srcoff div 8) nbits
         else do {
           (dst, d, sbit, nbits) \<leftarrow> copy_shift_head dst d ds src srcoff nbits;
           (dst, d, s, nbits) \<leftarrow> copy_words dst d src (sbit div 8) (sbit mod 8) nbits;
           copy_shift_tail dst d src s (sbit mod 8) nbits
         }))"

subsection \<open>Intersection and gather\<close>

function and_words :: "bytes \<Rightarrow> bytes \<Rightarrow> nat \<Rightarrow> bytes \<Rightarrow> nat \<Rightarrow> nat \<Rightarrow> nat \<Rightarrow> u64 \<Rightarrow> (bytes \<times> nat \<times> u64) option" where
  "and_words dst a aoff b boff i nbits tot =
     (if 64 \<le> nbits - i then do {
        x \<leftarrow> load_bits64 a (aoff + i);
        y \<leftarrow> load_bits64 b (boff + i);
        let r = x AND y;
        dst \<leftarrow> st_le64 dst (i div 8) r;
        and_words dst a aoff b boff (i + 64) nbits (tot + of_nat (builtin_popcount r))
      }
      else Some (dst, i, tot))"
  by pat_completeness auto
termination
  by (relation "measure (\<lambda>(dst, a, aoff, b, boff, i, nbits, tot). nbits - i)") auto

definition hs_columnar_and_bits :: "bytes \<Rightarrow> bytes \<Rightarrow> nat \<Rightarrow> bytes \<Rightarrow> nat \<Rightarrow> nat \<Rightarrow> (bytes \<times> int) option" where
  "hs_columnar_and_bits dst a aoff b boff nbits = do {
     (dst, i, tot) \<leftarrow> and_words dst a aoff b boff 0 nbits 0;
     (if i < nbits then do {
        let m = nbits - i;
        x \<leftarrow> load_bits a (aoff + i) m;
        y \<leftarrow> load_bits b (boff + i) m;
        let r = x AND y;
        dst \<leftarrow> st_le_bytes dst (i div 8) r ((m + 7) div 8);
        Some (dst, sint (tot + of_nat (builtin_popcount r)))
      }
      else Some (dst, sint tot))
   }"

text \<open>Indices are read as 64-bit values and used as \<open>size_t\<close>.\<close>

definition ld_idx :: "bytes \<Rightarrow> nat \<Rightarrow> nat option" where
  "ld_idx idx k = map_option unat (load_le 8 idx (8 * k) :: u64 option)"

definition gather_bit :: "bytes \<Rightarrow> nat \<Rightarrow> bytes \<Rightarrow> nat \<Rightarrow> bool option" where
  "gather_bit src srcoff idx k = do {
     j \<leftarrow> ld_idx idx k;
     b \<leftarrow> get_bit src (srcoff + j);
     Some (b \<noteq> 0)
   }"

function gather_words :: "bytes \<Rightarrow> bytes \<Rightarrow> nat \<Rightarrow> bytes \<Rightarrow> nat \<Rightarrow> nat \<Rightarrow> u64 \<Rightarrow> (bytes \<times> u64) option" where
  "gather_words dst src srcoff idx k n tot =
     (if k < n then do {
        let m = min 64 (n - k);
        w \<leftarrow> mask_loop (\<lambda>j. gather_bit src srcoff idx (k + j)) 0 m 0;
        dst \<leftarrow> st_le_bytes dst (k div 8) w ((m + 7) div 8);
        gather_words dst src srcoff idx (k + 64) n (tot + of_nat (builtin_popcount w))
      }
      else Some (dst, tot))"
  by pat_completeness auto
termination
  by (relation "measure (\<lambda>(dst, src, srcoff, idx, k, n, tot). n - k)") auto

declare and_words.simps [simp del] gather_words.simps [simp del]

definition hs_columnar_gather_bits :: "bytes \<Rightarrow> bytes \<Rightarrow> nat \<Rightarrow> bytes \<Rightarrow> nat \<Rightarrow> (bytes \<times> int) option" where
  "hs_columnar_gather_bits dst src srcoff idx n =
     map_option (\<lambda>(dst, tot). (dst, sint tot)) (gather_words dst src srcoff idx 0 n 0)"

subsection \<open>What a copy does\<close>

text \<open>\<open>copied dst dst' off src so n\<close>: bits \<open>[off, off + n)\<close> of \<open>dst'\<close> are bits \<open>[so, so + n)\<close> of \<open>src\<close>,
  all the others are those of \<open>dst\<close>.\<close>

definition copied :: "bytes \<Rightarrow> bytes \<Rightarrow> nat \<Rightarrow> (nat \<Rightarrow> bool) \<Rightarrow> nat \<Rightarrow> bool" where
  "copied dst dst' off f n \<longleftrightarrow> length dst' = length dst \<and>
     (\<forall>k < 8 * length dst. bit_at dst' k = (if off \<le> k \<and> k < off + n then f (k - off) else bit_at dst k))"

lemma copied_0: "copied dst dst off f 0"
  by (auto simp: copied_def)

lemma copied_trans:
  assumes "copied a b off f m" and "copied b c (off + m) g n" and "\<And>j. j < n \<Longrightarrow> g j = f (m + j)"
  shows "copied a c off f (m + n)"
  unfolding copied_def
proof (intro conjI allI impI)
  show "length c = length a" using assms by (simp add: copied_def)
  fix k assume k: "k < 8 * length a"
  have b: "bit_at b k = (if off \<le> k \<and> k < off + m then f (k - off) else bit_at a k)"
    and c: "bit_at c k = (if off + m \<le> k \<and> k < off + m + n then g (k - (off + m)) else bit_at b k)"
    using assms(1,2) k by (auto simp: copied_def)
  have "g (k - (off + m)) = f (k - off)" if "off + m \<le> k" "k < off + m + n"
    using that assms(3) [of "k - (off + m)"] by simp
  with b c show "bit_at c k = (if off \<le> k \<and> k < off + (m + n) then f (k - off) else bit_at a k)"
    by auto
qed

lemma copied_length: "copied dst dst' off f n \<Longrightarrow> length dst' = length dst"
  by (simp add: copied_def)

lemma bit_at_store_block:
  assumes "store_block dst q xs = Some dst'" and "k < 8 * length dst"
  shows "bit_at dst' k = (if 8 * q \<le> k \<and> k < 8 * (q + length xs) then bit_at xs (k - 8 * q) else bit_at dst k)"
proof -
  define p where "p = k div 8"
  define i where "i = k mod 8"
  have k: "k = 8 * p + i" and i: "i < 8" by (simp_all add: p_def i_def)
  have p: "p < length dst" using assms(2) k by simp
  have range: "8 * q \<le> k \<and> k < 8 * (q + length xs) \<longleftrightarrow> q \<le> p \<and> p < q + length xs"
    using k i by auto
  have shift: "k - 8 * q = 8 * (p - q) + i" if "q \<le> p" using that k by simp
  have nth: "dst' ! p = (if q \<le> p \<and> p < q + length xs then xs ! (p - q) else dst ! p)"
    using assms(1) p by (auto simp: store_block_def nth_append split: if_splits)
  show ?thesis
    unfolding range using i nth shift by (auto simp: k bit_at_byte)
qed

lemma copied_block:
  assumes "q + length xs \<le> length dst" and "n = 8 * length xs" and "\<And>j. j < n \<Longrightarrow> bit_at xs j = f j"
  obtains dst' where "store_block dst q xs = Some dst'" and "copied dst dst' (8 * q) f n"
proof -
  obtain dst' where st: "store_block dst q xs = Some dst'"
    using store_block_in [OF assms(1)] by blast
  moreover have "copied dst dst' (8 * q) f n"
    using store_block_length [OF st] bit_at_store_block [OF st] assms(2,3)
    by (auto simp: copied_def distrib_left)
  ultimately show thesis by (rule that)
qed

lemma patch_copied:
  assumes "q < length dst" and "a + n \<le> 8" and "\<And>i. i < 8 \<Longrightarrow> bit msk i \<longleftrightarrow> a \<le> i \<and> i < a + n"
    and "\<And>i. i < 8 \<Longrightarrow> bit v i \<longleftrightarrow> a \<le> i \<and> i < a + n \<and> f (i - a)"
  obtains dst' where "patch_byte dst q msk v = Some dst'" and "copied dst dst' (8 * q + a) f n"
proof -
  define b where "b = (ucast ((ucast (dst ! q) AND NOT msk) OR v) :: u8)"
  have bit: "bit b i \<longleftrightarrow> (if a \<le> i \<and> i < a + n then f (i - a) else bit (dst ! q) i)" if "i < 8" for i
    using that assms(3,4) [OF that] by (auto simp: b_def bit_simps)
  have patch: "patch_byte dst q msk v = Some (dst[q := b])"
    using assms(1) by (simp add: patch_byte_def load_in store_in b_def)
  moreover have "copied dst (dst[q := b]) (8 * q + a) f n"
    unfolding copied_def
  proof (intro conjI allI impI)
    fix k assume "k < 8 * length dst"
    show "bit_at (dst[q := b]) k =
        (if 8 * q + a \<le> k \<and> k < 8 * q + a + n then f (k - (8 * q + a)) else bit_at dst k)"
    proof (cases "k div 8 = q")
      case True
      define i where "i = k mod 8"
      have k: "k = 8 * q + i" "i < 8" using True by (auto simp: i_def)
      then show ?thesis using assms(1) by (simp add: bit_at_byte bit)
    next
      case False
      then have "k < 8 * q \<or> 8 * q + 8 \<le> k" by auto
      with False assms(2) show ?thesis by (auto simp: bit_at_def)
    qed
  qed simp
  ultimately show thesis by (rule that)
qed

lemma bit_low_ones8: "n \<le> 8 \<Longrightarrow> bit (low_ones n) i \<longleftrightarrow> i < n"
  by (simp add: low_ones_def bit_low_ones)

lemma bit_shifted_ones:
  "a + n \<le> 8 \<Longrightarrow> i < 8 \<Longrightarrow> bit (push_bit a (low_ones n)) i \<longleftrightarrow> a \<le> i \<and> i < a + n"
  by (auto simp: bit_push_bit_iff bit_low_ones8)

subsection \<open>Same phase\<close>

lemma copy_same_head_ok:
  assumes "8 * d + ds + n \<le> 8 * length dst" and "8 * s + ds + n \<le> 8 * length src" and "ds < 8" and "0 < n"
  obtains dst' d' s' k where "copy_same_head dst d ds src s n = Some (dst', d', s', n - k)"
    and "copied dst dst' (8 * d + ds) (\<lambda>j. bit_at src (8 * s + ds + j)) k" and "k \<le> n"
    and "n = k \<and> d' \<le> length dst \<and> s' \<le> length src \<or> 8 * d' = 8 * d + ds + k \<and> 8 * s' = 8 * s + ds + k"
proof (cases "ds = 0")
  case True
  then show thesis by (intro that [of dst d s 0]) (simp_all add: copy_same_head_def copied_0)
next
  case False
  define k where "k = min (8 - ds) n"
  have k: "ds + k \<le> 8" "k \<le> n" "n = k \<or> ds + k = 8" using assms(3) by (auto simp: k_def)
  have ds: "d < length dst" "s < length src" using assms by simp_all
  define msk where "msk = push_bit ds (low_ones k)"
  have m: "bit msk i \<longleftrightarrow> ds \<le> i \<and> i < ds + k" if "i < 8" for i
    using that k(1) by (simp add: msk_def bit_shifted_ones)
  have v: "bit (ucast (src ! s) AND msk) i \<longleftrightarrow> ds \<le> i \<and> i < ds + k \<and> bit_at src (8 * s + ds + (i - ds))" if "i < 8" for i
    using that m [OF that] bit_at_byte [of i src s] by (auto simp: bit_simps)
  obtain dst' where "patch_byte dst d msk (ucast (src ! s) AND msk) = Some dst'"
    and "copied dst dst' (8 * d + ds) (\<lambda>j. bit_at src (8 * s + ds + j)) k"
    using ds(1) k(1) m v by (rule patch_copied [where f = "\<lambda>j. bit_at src (8 * s + ds + j)"])
  with False ds k show thesis
    by (intro that [of dst' "d + 1" "s + 1" k])
      (auto simp: copy_same_head_def Let_def k_def [symmetric] msk_def [symmetric] load_in)
qed

lemma bit_at_block: "8 * s + j < 8 * (s + m) \<Longrightarrow> bit_at (take m (drop s src)) j \<longleftrightarrow> bit_at src (8 * s + j)" if "s + m \<le> length src"
proof -
  assume "8 * s + j < 8 * (s + m)"
  then have "j div 8 < m" by (simp add: less_mult_imp_div_less mult.commute)
  with that show ?thesis by (simp add: bit_at_def)
qed

lemma copy_same_ok:
  assumes "8 * d + ds + n \<le> 8 * length dst" and "8 * s + ds + n \<le> 8 * length src" and "ds < 8" and "0 < n"
  shows "\<exists>dst'. copy_same dst d ds src s n = Some dst' \<and>
    copied dst dst' (8 * d + ds) (\<lambda>j. bit_at src (8 * s + ds + j)) n"
proof -
  let ?f = "\<lambda>j. bit_at src (8 * s + ds + j)"
  obtain dst1 d1 s1 k where head: "copy_same_head dst d ds src s n = Some (dst1, d1, s1, n - k)"
    and c1: "copied dst dst1 (8 * d + ds) ?f k" and k: "k \<le> n"
    and at: "n = k \<and> d1 \<le> length dst \<and> s1 \<le> length src \<or> 8 * d1 = 8 * d + ds + k \<and> 8 * s1 = 8 * s + ds + k"
    using copy_same_head_ok [OF assms] by blast
  define nb where "nb = (n - k) div 8"
  define r where "r = (n - k) mod 8"
  have nb: "n - k = 8 * nb + r" "r < 8" by (simp_all add: nb_def r_def)
  have n: "n = k + 8 * nb + r" using nb k by simp
  have fits: "d1 + nb \<le> length dst" "s1 + nb \<le> length src" and at1: "n = k \<or> 8 * d1 = 8 * d + ds + k \<and> 8 * s1 = 8 * s + ds + k"
    using at nb assms(1,2) k by auto
  have xs: "load_block src s1 nb = Some (take nb (drop s1 src))" using fits by (simp add: load_block_in)
  have len: "length (take nb (drop s1 src)) = nb" using fits by simp
  have bits: "bit_at (take nb (drop s1 src)) j = ?f (k + j)" if "j < 8 * nb" for j
    using bit_at_block [OF fits(2), of j] that at1 nb k by (auto simp: ac_simps)
  have "d1 + length (take nb (drop s1 src)) \<le> length dst1"
    using fits(1) copied_length [OF c1] len by simp
  then obtain dst2 where st: "store_block dst1 d1 (take nb (drop s1 src)) = Some dst2"
    and c2: "copied dst1 dst2 (8 * d1) (\<lambda>j. ?f (k + j)) (8 * nb)"
    by (rule copied_block [where f = "\<lambda>j. ?f (k + j)"]) (use len bits in simp_all)
  have c2': "copied dst dst2 (8 * d + ds) ?f (k + 8 * nb)"
  proof (cases "n = k")
    case True
    then have "nb = 0" by (simp add: nb_def)
    with st c1 show ?thesis by simp
  next
    case False
    with at1 have "8 * d1 = 8 * d + ds + k" by simp
    with c2 show ?thesis by (intro copied_trans [OF c1]) simp_all
  qed
  show ?thesis
  proof (cases "r = 0")
    case True
    then show ?thesis
      using head xs st c2' nb n by (auto simp: copy_same_def Let_def nb_def [symmetric] r_def [symmetric])
  next
    case False
    with nb k have "n \<noteq> k" by auto
    with at1 have at2: "8 * d1 = 8 * d + ds + k" "8 * s1 = 8 * s + ds + k" by auto
    have in2: "d1 + nb < length dst2" "s1 + nb < length src"
      using at2 nb assms(1,2) k False copied_length [OF c2'] by linarith+
    have v: "bit (ucast (src ! (s1 + nb)) AND low_ones r) i \<longleftrightarrow> 0 \<le> i \<and> i < 0 + r \<and> ?f (k + 8 * nb + (i - 0))" if "i < 8" for i
      using that nb(2) bit_at_byte [OF that, of src "s1 + nb"] at2
      by (auto simp: bit_simps bit_low_ones8 ac_simps distrib_left)
    have m: "bit (low_ones r) i \<longleftrightarrow> 0 \<le> i \<and> i < 0 + r" if "i < 8" for i
      using nb(2) by (simp add: bit_low_ones8)
    obtain dst3 where "patch_byte dst2 (d1 + nb) (low_ones r) (ucast (src ! (s1 + nb)) AND low_ones r) = Some dst3"
      and c3: "copied dst2 dst3 (8 * (d1 + nb) + 0) (\<lambda>j. ?f (k + 8 * nb + j)) r"
      using in2(1) _ m v by (rule patch_copied [where f = "\<lambda>j. ?f (k + 8 * nb + j)"]) (use nb(2) in simp)
    moreover have "copied dst dst3 (8 * d + ds) ?f (k + 8 * nb + r)"
      using c3 at2 by (intro copied_trans [OF c2']) (simp_all add: distrib_left ac_simps)
    ultimately show ?thesis
      using head xs st nb n in2 False
      by (auto simp: copy_same_def Let_def nb_def [symmetric] r_def [symmetric] load_in)
  qed
qed

subsection \<open>Different phases\<close>

lemma copy_shift_head_ok:
  assumes "8 * d + ds + n \<le> 8 * length dst" and "sbit + n \<le> 8 * length src" and "ds < 8" and "0 < n"
  obtains dst' d' k where "copy_shift_head dst d ds src sbit n = Some (dst', d', sbit + k, n - k)"
    and "copied dst dst' (8 * d + ds) (\<lambda>j. bit_at src (sbit + j)) k" and "k \<le> n"
    and "n = k \<and> d' \<le> length dst \<or> 8 * d' = 8 * d + ds + k"
proof (cases "ds = 0")
  case True
  then show thesis by (intro that [of dst d 0]) (simp_all add: copy_shift_head_def copied_0)
next
  case False
  define k where "k = min (8 - ds) n"
  have k: "ds + k \<le> 8" "k \<le> n" "n = k \<or> ds + k = 8" "k \<le> 64" using assms(3) by (auto simp: k_def)
  have d: "d < length dst" using assms by simp
  define msk where "msk = push_bit ds (low_ones k)"
  define w where "w = bits_word k (\<lambda>j. bit_at src (sbit + j))"
  have w: "load_bits src sbit k = Some w" using assms(2) k by (simp add: w_def load_bits_eq)
  have m: "bit msk i \<longleftrightarrow> ds \<le> i \<and> i < ds + k" if "i < 8" for i
    using that k(1) by (simp add: msk_def bit_shifted_ones)
  have v: "bit (push_bit ds (ucast w) AND msk) i \<longleftrightarrow> ds \<le> i \<and> i < ds + k \<and> bit_at src (sbit + (i - ds))" if "i < 8" for i
    using that m [OF that] k by (auto simp: bit_simps w_def bit_bits_word)
  obtain dst' where "patch_byte dst d msk (push_bit ds (ucast w) AND msk) = Some dst'"
    and "copied dst dst' (8 * d + ds) (\<lambda>j. bit_at src (sbit + j)) k"
    using d k(1) m v by (rule patch_copied [where f = "\<lambda>j. bit_at src (sbit + j)"])
  with False d k w show thesis
    by (intro that [of dst' "d + 1" k])
      (auto simp: copy_shift_head_def Let_def k_def [symmetric] msk_def [symmetric])
qed

lemma bit_at_le_bytes: "j < 8 * n \<Longrightarrow> n \<le> 8 \<Longrightarrow> bit_at (le_bytes n (v :: u64)) j \<longleftrightarrow> bit v j"
proof -
  assume "j < 8 * n" "n \<le> 8"
  then have "j div 8 < n" by (simp add: less_mult_imp_div_less mult.commute)
  then show ?thesis by (simp add: bit_at_def le_bytes_nth bit_ucast_iff bit_drop_bit_eq)
qed

lemma copy_words_ok:
  assumes "8 * d + n \<le> 8 * length dst" and "8 * s + k + n \<le> 8 * length src" and "k < 8"
    and "64 \<le> n \<Longrightarrow> k \<noteq> 0"
  shows "\<exists>dst' d' s' m. copy_words dst d src s k n = Some (dst', d', s', n - m) \<and> m \<le> n \<and> n - m < 64 \<and>
    8 * d' = 8 * d + m \<and> 8 * s' = 8 * s + m \<and> copied dst dst' (8 * d) (\<lambda>j. bit_at src (8 * s + k + j)) m"
  using assms
proof (induction n arbitrary: dst d s rule: less_induct)
  case (less n)
  show ?case
  proof (cases "64 \<le> n")
    case True
    then have k: "k \<noteq> 0" using less.prems(4) by simp
    let ?f = "\<lambda>j. bit_at src (8 * s + k + j)"
    have p: "8 * s + 64 \<le> 8 * length src" and nine: "s + 8 < length src"
      using less.prems(2) True k by auto
    note win = bit_at_window [OF p less.prems(3)]
    define v where "v = drop_bit k (le_word (take 8 (drop s src)) :: u64) OR push_bit (64 - k) (ucast (src ! (s + 8)))"
    have v: "bit v j \<longleftrightarrow> ?f j" if "j < 64" for j
      using that nine by (auto simp: v_def bit_or_iff win)
    have "d + length (le_bytes 8 v) \<le> length dst" using less.prems(1) True by simp
    then obtain dst1 where st: "store_block dst d (le_bytes 8 v) = Some dst1"
      and c1: "copied dst dst1 (8 * d) ?f 64"
      by (rule copied_block [where f = ?f and n = 64]) (use v in \<open>simp_all add: bit_at_le_bytes\<close>)
    have step: "copy_words dst d src s k n = copy_words dst1 (d + 8) src (s + 8) k (n - 64)"
      using True p nine k st
      by (subst copy_words.simps) (simp add: ld_le64_def load_le_in load_in shl64_def st_le64_def store_le_def v_def)
    have "n - 64 < n" "8 * (d + 8) + (n - 64) \<le> 8 * length dst1" "8 * (s + 8) + k + (n - 64) \<le> 8 * length src"
      using True less.prems(1,2) copied_length [OF c1] by simp_all
    from less.IH [OF this less.prems(3)] k obtain dst2 d' s' m
      where rest: "copy_words dst1 (d + 8) src (s + 8) k (n - 64) = Some (dst2, d', s', n - 64 - m)"
        "m \<le> n - 64" "n - 64 - m < 64" "8 * d' = 8 * (d + 8) + m" "8 * s' = 8 * (s + 8) + m"
      and c2: "copied dst1 dst2 (8 * (d + 8)) (\<lambda>j. bit_at src (8 * (s + 8) + k + j)) m"
      by blast
    have "copied dst dst2 (8 * d) ?f (64 + m)"
      using c2 by (intro copied_trans [OF c1]) (simp_all add: ac_simps)
    with rest True step show ?thesis
      by (intro exI [of _ dst2] exI [of _ d'] exI [of _ s'] exI [of _ "64 + m"]) auto
  next
    case False
    then show ?thesis
      by (intro exI [of _ dst] exI [of _ d] exI [of _ s] exI [of _ 0]) (simp add: copy_words.simps copied_0)
  qed
qed

lemma bit_at_drop: "8 * s + j < 8 * length src \<Longrightarrow> bit_at (drop s src) j \<longleftrightarrow> bit_at src (8 * s + j)"
  by (simp add: bit_at_def less_mult_imp_div_less)

lemma copy_shift_tail_ok:
  assumes "8 * d + n \<le> 8 * length dst" and "8 * s + k + n \<le> 8 * length src" and "k < 8" and "n < 64"
  shows "\<exists>dst'. copy_shift_tail dst d src s k n = Some dst' \<and>
    copied dst dst' (8 * d) (\<lambda>j. bit_at src (8 * s + k + j)) n"
proof (cases "n = 0")
  case True
  then show ?thesis by (simp add: copy_shift_tail_def copied_0)
next
  case False
  let ?f = "\<lambda>j. bit_at src (8 * s + k + j)"
  define v where "v = bits_word n (\<lambda>j. bit_at (drop s src) (k + j))"
  have ld: "load_bits (drop s src) k n = Some v"
    using assms False by (simp add: v_def load_bits_eq)
  have v: "bit v j \<longleftrightarrow> j < n \<and> ?f j" for j
    using assms(2,4) bit_at_drop [of s "k + j" src] by (auto simp: v_def bit_bits_word ac_simps)
  define m where "m = n div 8"
  define r where "r = n mod 8"
  have n: "n = 8 * m + r" "r < 8" "m \<le> 8" using assms(4) by (simp_all add: m_def r_def)
  have "d + length (le_bytes m v) \<le> length dst" using assms(1) n by simp
  then obtain dst1 where st: "store_block dst d (le_bytes m v) = Some dst1"
    and c1: "copied dst dst1 (8 * d) ?f (8 * m)"
    by (rule copied_block [where f = ?f and n = "8 * m"]) (use n v in \<open>simp_all add: bit_at_le_bytes\<close>)
  show ?thesis
  proof (cases "r = 0")
    case True
    with False ld st c1 n show ?thesis
      by (auto simp: copy_shift_tail_def Let_def m_def [symmetric] r_def [symmetric] st_le_bytes_eq)
  next
    case r: False
    have d: "d + m < length dst1" using assms(1) n r copied_length [OF c1] by linarith
    have mk: "bit (low_ones r) i \<longleftrightarrow> 0 \<le> i \<and> i < 0 + r" if "i < 8" for i
      using n(2) by (simp add: bit_low_ones8)
    have b: "bit (ucast (drop_bit (8 * m) v) AND low_ones r) i \<longleftrightarrow> 0 \<le> i \<and> i < 0 + r \<and> ?f (8 * m + (i - 0))" if "i < 8" for i
      using that n by (auto simp: bit_simps bit_low_ones8 v)
    obtain dst2 where p: "patch_byte dst1 (d + m) (low_ones r) (ucast (drop_bit (8 * m) v) AND low_ones r) = Some dst2"
      and c2: "copied dst1 dst2 (8 * (d + m) + 0) (\<lambda>j. ?f (8 * m + j)) r"
      using d _ mk b by (rule patch_copied [where f = "\<lambda>j. ?f (8 * m + j)"]) (use n(2) in simp)
    have "copied dst dst2 (8 * d) ?f (8 * m + r)"
      using c2 by (intro copied_trans [OF c1]) (simp_all add: distrib_left)
    with False r ld st p n show ?thesis
      by (auto simp: copy_shift_tail_def Let_def m_def [symmetric] r_def [symmetric] st_le_bytes_eq)
  qed
qed

text \<open>C24: copying a bit range between arbitrary bit offsets, of equal or different phase, moves
  exactly those bits and leaves every other bit of the destination as it was; no access is out of
  bounds.\<close>

theorem copy_bits_correct:
  assumes "dstoff + n \<le> 8 * length dst" and "srcoff + n \<le> 8 * length src"
  shows "\<exists>dst'. hs_columnar_copy_bits dst dstoff src srcoff n = Some dst' \<and>
    copied dst dst' dstoff (\<lambda>j. bit_at src (srcoff + j)) n"
proof (cases "n = 0")
  case True
  then show ?thesis by (simp add: hs_columnar_copy_bits_def copied_0)
next
  case False
  define d where "d = dstoff div 8"
  define ds where "ds = dstoff mod 8"
  have off: "dstoff = 8 * d + ds" "ds < 8" by (simp_all add: d_def ds_def)
  show ?thesis
  proof (cases "ds = srcoff mod 8")
    case True
    then have "srcoff = 8 * (srcoff div 8) + ds" by simp
    then show ?thesis
      using copy_same_ok [of d ds n dst "srcoff div 8" src] assms off False True
      by (simp add: hs_columnar_copy_bits_def Let_def d_def [symmetric] ds_def [symmetric])
  next
    case shift: False
    let ?f = "\<lambda>j. bit_at src (srcoff + j)"
    obtain dst1 d1 m where head: "copy_shift_head dst d ds src srcoff n = Some (dst1, d1, srcoff + m, n - m)"
      and c1: "copied dst dst1 dstoff ?f m" and m: "m \<le> n"
      and at: "n = m \<and> d1 \<le> length dst \<or> 8 * d1 = 8 * d + ds + m"
    proof (rule copy_shift_head_ok [of d ds n dst srcoff src])
      show "8 * d + ds + n \<le> 8 * length dst" "ds < 8" "0 < n" using assms off False by simp_all
    qed (use assms(2) off that in simp_all)
    define r where "r = n - m"
    have r: "n - m = r" "n = m + r" using m by (simp_all add: r_def)
    have fit1: "8 * d1 + r \<le> 8 * length dst1"
      using at r assms(1) off copied_length [OF c1] by auto
    define s where "s = (srcoff + m) div 8"
    define k where "k = (srcoff + m) mod 8"
    have sk: "srcoff + m = 8 * s + k" "k < 8" by (simp_all add: s_def k_def)
    have fit2: "8 * s + k + r \<le> 8 * length src" using sk r assms(2) by simp
    have "k \<noteq> 0" if "64 \<le> r"
    proof
      assume "k = 0"
      with at that r have "8 * d1 = 8 * d + ds + m" "srcoff + m = 8 * s" using sk by auto
      then have "srcoff + 8 * d1 = ds + 8 * (s + d)" by simp
      then have "(srcoff + 8 * d1) mod 8 = (ds + 8 * (s + d)) mod 8" by (rule arg_cong)
      then have "srcoff mod 8 = ds" using off(2) by (simp only: mod_mult_self2 mod_less)
      with shift show False by simp
    qed
    from copy_words_ok [OF fit1 fit2 sk(2) this]
    obtain dst2 d2 s2 p where words: "copy_words dst1 d1 src s k r = Some (dst2, d2, s2, r - p)"
      and p: "p \<le> r" "r - p < 64" "8 * d2 = 8 * d1 + p" "8 * s2 = 8 * s + p"
      and c2: "copied dst1 dst2 (8 * d1) (\<lambda>j. bit_at src (8 * s + k + j)) p"
      by blast
    have "8 * d2 + (r - p) \<le> 8 * length dst2" "8 * s2 + k + (r - p) \<le> 8 * length src"
      using fit1 fit2 p copied_length [OF c2] by simp_all
    from copy_shift_tail_ok [OF this sk(2) p(2)]
    obtain dst3 where tail: "copy_shift_tail dst2 d2 src s2 k (r - p) = Some dst3"
      and c3: "copied dst2 dst3 (8 * d2) (\<lambda>j. bit_at src (8 * s2 + k + j)) (r - p)"
      by blast
    have "copied dst dst3 dstoff ?f n"
    proof (cases "n = m")
      case True
      with p c1 c2 c3 r show ?thesis by (auto simp: copied_def)
    next
      case False
      with at off r have d1: "8 * d1 = dstoff + m" by simp
      have "copied dst dst2 dstoff ?f (m + p)"
        using c2 d1 sk by (intro copied_trans [OF c1]) (auto simp: ac_simps)
      moreover have "copied dst2 dst3 (dstoff + (m + p)) (\<lambda>j. bit_at src (8 * s2 + k + j)) (r - p)"
        using c3 p d1 by (simp add: ac_simps)
      ultimately have "copied dst dst3 dstoff ?f (m + p + (r - p))"
      proof (rule copied_trans)
        fix j
        have "8 * s2 + k + j = srcoff + (m + p + j)" using p sk by simp
        then show "bit_at src (8 * s2 + k + j) \<longleftrightarrow> ?f (m + p + j)" by (simp only:)
      qed
      with p r show ?thesis by simp
    qed
    with head words tail r(1) False shift show ?thesis
      by (simp add: hs_columnar_copy_bits_def Let_def d_def [symmetric] ds_def [symmetric]
          s_def [symmetric] k_def [symmetric])
  qed
qed

theorem copy_bits_correct_witness:
  "\<exists>dst'. hs_columnar_copy_bits [0xFF, 0xFF] 3 [0x0F, 0x01] 1 9 = Some dst' \<and>
    copied [0xFF, 0xFF] dst' 3 (\<lambda>j. bit_at [0x0F, 0x01] (1 + j)) 9"
  by (rule copy_bits_correct) simp_all

subsection \<open>Intersection and gather\<close>

text \<open>The bits in whole bytes; those past \<open>n\<close> are written as zero.\<close>

definition whole :: "nat \<Rightarrow> nat" where
  "whole n = 8 * ((n + 7) div 8)"

lemma whole_bounds: "n \<le> whole n" "whole n < n + 8"
  by (simp_all add: whole_def)

lemma whole_64: "n \<le> 64 \<Longrightarrow> whole n \<le> 64"
  by (simp add: whole_def)

lemma whole_add: "whole (8 * q + n) = 8 * q + whole n"
proof -
  have "(8 * q + n + 7) div 8 = q + (n + 7) div 8" by (simp add: add.assoc)
  then show ?thesis by (simp add: whole_def)
qed

lemma store_mask:
  assumes "8 * q + whole m \<le> 8 * length dst" and "m \<le> 64"
  obtains dst' where "st_le_bytes dst q (bits_word m f) ((m + 7) div 8) = Some dst'"
    and "copied dst dst' (8 * q) (\<lambda>j. j < m \<and> f j) (whole m)"
proof -
  let ?n = "(m + 7) div 8"
  have n: "?n \<le> 8" "whole m = 8 * ?n" using assms(2) by (simp_all add: whole_def)
  have "q + length (le_bytes ?n (bits_word m f)) \<le> length dst" using assms(1) n by simp
  then obtain dst' where "store_block dst q (le_bytes ?n (bits_word m f)) = Some dst'"
    and "copied dst dst' (8 * q) (\<lambda>j. j < m \<and> f j) (whole m)"
    by (rule copied_block [where f = "\<lambda>j. j < m \<and> f j" and n = "whole m"])
      (use n assms(2) in \<open>simp_all add: bit_at_le_bytes bit_bits_word\<close>)
  then show thesis using n(1) by (intro that) (simp_all add: st_le_bytes_eq)
qed

lemma bits_word_and: "n \<le> 64 \<Longrightarrow> bits_word n f AND bits_word n g = bits_word n (\<lambda>j. f j \<and> g j)"
  by (rule bits_word_eqI) (auto simp: bit_and_iff bit_bits_word)

lemma and_words_ok:
  assumes "aoff + n \<le> 8 * length a" and "boff + n \<le> 8 * length b" and "whole n \<le> 8 * length dst"
    and "i \<le> n" and "i mod 8 = 0"
  defines "f \<equiv> \<lambda>k. bit_at a (aoff + k) \<and> bit_at b (boff + k)"
  shows "\<exists>dst' j. and_words dst a aoff b boff i n t = Some (dst', j, t + of_nat (count_bits f i j)) \<and>
    i \<le> j \<and> j \<le> n \<and> n - j < 64 \<and> j mod 8 = 0 \<and> copied dst dst' i (\<lambda>k. f (i + k)) (j - i)"
  using assms(3-5)
proof (induction "n - i" arbitrary: dst i t rule: less_induct)
  case less
  show ?case
  proof (cases "64 \<le> n - i")
    case True
    define q where "q = i div 8"
    have i: "i = 8 * q" using less.prems(3) by (simp add: q_def mod_eq_0_iff_dvd)
    define r where "r = bits_word 64 (\<lambda>j. f (i + j))"
    have loads: "load_bits64 a (aoff + i) = Some (bits_word 64 (\<lambda>j. bit_at a (aoff + i + j)))"
      "load_bits64 b (boff + i) = Some (bits_word 64 (\<lambda>j. bit_at b (boff + i + j)))"
      using assms(1,2) True by (simp_all add: load_bits64_eq)
    have r: "bits_word 64 (\<lambda>j. bit_at a (aoff + i + j)) AND bits_word 64 (\<lambda>j. bit_at b (boff + i + j)) = r"
      by (simp add: r_def bits_word_and f_def add.assoc)
    have "whole 64 = 64" by (simp add: whole_def)
    have "8 * q + whole 64 \<le> 8 * length dst"
      using True less.prems(1) whole_bounds [of n] i \<open>whole 64 = 64\<close> by simp
    then obtain dst1 where st: "st_le_bytes dst q r 8 = Some dst1"
      and c1: "copied dst dst1 (8 * q) (\<lambda>j. j < 64 \<and> f (i + j)) (whole 64)"
      by (rule store_mask [of q 64 dst "\<lambda>j. f (i + j)"]) (simp_all add: r_def)
    have c1': "copied dst dst1 i (\<lambda>j. f (i + j)) 64"
      using c1 \<open>whole 64 = 64\<close> by (auto simp: copied_def i)
    have pop: "of_nat (builtin_popcount r) = (of_nat (count_bits f i (i + 64)) :: u64)"
      by (simp add: r_def popcount_bits_word)
    have step: "and_words dst a aoff b boff i n t =
        and_words dst1 a aoff b boff (i + 64) n (t + of_nat (count_bits f i (i + 64)))"
      using True loads r st pop by (subst and_words.simps) (simp add: q_def [symmetric] st_le_bytes_def Let_def)
    have "n - (i + 64) < n - i" "whole n \<le> 8 * length dst1" "i + 64 \<le> n" "(i + 64) mod 8 = 0"
      using True less.prems copied_length [OF c1'] by (simp_all add: i)
    from less.hyps [OF this, of "t + of_nat (count_bits f i (i + 64))"] obtain dst2 j where
      rest: "and_words dst1 a aoff b boff (i + 64) n (t + of_nat (count_bits f i (i + 64))) =
        Some (dst2, j, t + of_nat (count_bits f i (i + 64)) + of_nat (count_bits f (i + 64) j))"
        "i + 64 \<le> j" "j \<le> n" "n - j < 64" "j mod 8 = 0"
      and c2: "copied dst1 dst2 (i + 64) (\<lambda>k. f (i + 64 + k)) (j - (i + 64))"
      by (elim exE conjE) (rule that; assumption)
    have "copied dst dst2 i (\<lambda>j. f (i + j)) (64 + (j - (i + 64)))"
      by (rule copied_trans [OF c1' c2]) (simp add: add.assoc)
    with rest step count_bits_split [of i "i + 64" j f] show ?thesis by (simp add: add.assoc)
  next
    case False
    with less.prems show ?thesis by (subst and_words.simps) (auto simp: copied_0)
  qed
qed

theorem and_bits_eq:
  assumes "aoff + n \<le> 8 * length a" and "boff + n \<le> 8 * length b" and "whole n \<le> 8 * length dst"
    and "n < 2 ^ 63"
  defines "f \<equiv> \<lambda>k. bit_at a (aoff + k) \<and> bit_at b (boff + k)"
  shows "\<exists>dst'. hs_columnar_and_bits dst a aoff b boff n = Some (dst', int (count_bits f 0 n)) \<and>
    copied dst dst' 0 (\<lambda>k. k < n \<and> f k) (whole n)"
proof -
  obtain dst1 j where words: "and_words dst a aoff b boff 0 n 0 = Some (dst1, j, of_nat (count_bits f 0 j))"
    and j: "j \<le> n" "n - j < 64" "j mod 8 = 0" and c1: "copied dst dst1 0 f j"
    using and_words_ok [OF assms(1-3), of 0 0] by (auto simp: f_def)
  have sint: "sint (of_nat (count_bits f 0 n) :: u64) = int (count_bits f 0 n)"
    using count_bits_le [of f 0 n] assms(4) by (intro sint_count) simp
  define q where "q = j div 8"
  have q: "j = 8 * q" using j(3) by (simp add: q_def mod_eq_0_iff_dvd)
  show ?thesis
  proof (cases "j = n")
    case True
    then have "whole n = n" using whole_add [of q 0] by (simp add: q whole_def)
    with True words c1 sint show ?thesis
      by (auto simp: hs_columnar_and_bits_def copied_def)
  next
    case False
    define m where "m = n - j"
    have m: "n = j + m" "0 < m" "m < 64" using j False by (simp_all add: m_def)
    have loads: "load_bits a (aoff + j) m = Some (bits_word m (\<lambda>k. bit_at a (aoff + j + k)))"
      "load_bits b (boff + j) m = Some (bits_word m (\<lambda>k. bit_at b (boff + j + k)))"
      using assms(1,2) m by (simp_all add: load_bits_eq)
    have r: "bits_word m (\<lambda>k. bit_at a (aoff + j + k)) AND bits_word m (\<lambda>k. bit_at b (boff + j + k)) =
        bits_word m (\<lambda>k. f (j + k))"
      using m by (simp add: bits_word_and f_def add.assoc)
    have w: "whole n = j + whole m" using whole_add [of q m] by (simp add: m(1) q)
    then have "8 * q + whole m \<le> 8 * length dst1" using assms(3) copied_length [OF c1] q by simp
    then obtain dst2 where st: "st_le_bytes dst1 q (bits_word m (\<lambda>k. f (j + k))) ((m + 7) div 8) = Some dst2"
      and c2: "copied dst1 dst2 (8 * q) (\<lambda>k. k < m \<and> f (j + k)) (whole m)"
      by (rule store_mask [of q m dst1 "\<lambda>k. f (j + k)"]) (use m in simp_all)
    have c1': "copied dst dst1 0 (\<lambda>k. k < n \<and> f k) j" using c1 j(1) by (auto simp: copied_def)
    have "copied dst1 dst2 (0 + j) (\<lambda>k. k < m \<and> f (j + k)) (whole m)" using c2 by (simp add: q)
    then have "copied dst dst2 0 (\<lambda>k. k < n \<and> f k) (j + whole m)"
      by (rule copied_trans [OF c1']) (simp add: m(1))
    moreover have "hs_columnar_and_bits dst a aoff b boff n = Some (dst2, int (count_bits f 0 n))"
      using words m loads r st sint count_bits_split [of 0 j n f]
      by (simp add: hs_columnar_and_bits_def Let_def m_def [symmetric] q_def [symmetric] popcount_bits_word)
    ultimately show ?thesis by (simp add: w)
  qed
qed

definition idx_at :: "bytes \<Rightarrow> nat \<Rightarrow> nat" where
  "idx_at idx k = unat (le_word (take 8 (drop (8 * k) idx)) :: u64)"

lemma ld_idx_eq: "8 * k + 8 \<le> length idx \<Longrightarrow> ld_idx idx k = Some (idx_at idx k)"
  by (simp add: ld_idx_def idx_at_def load_le_in)

lemma gather_words_ok:
  assumes "8 * n \<le> length idx" and "\<And>k. k < n \<Longrightarrow> srcoff + idx_at idx k < 8 * length src"
    and "whole n \<le> 8 * length dst" and "k mod 8 = 0"
  defines "f \<equiv> \<lambda>k. bit_at src (srcoff + idx_at idx k)"
  shows "\<exists>dst'. gather_words dst src srcoff idx k n t = Some (dst', t + of_nat (count_bits f k n)) \<and>
    copied dst dst' k (\<lambda>j. k + j < n \<and> f (k + j)) (whole n - k)"
  using assms(3,4)
proof (induction "n - k" arbitrary: dst k t rule: less_induct)
  case less
  show ?case
  proof (cases "k < n")
    case True
    define q where "q = k div 8"
    have q: "k = 8 * q" using less.prems(2) by (simp add: q_def mod_eq_0_iff_dvd)
    define m where "m = min 64 (n - k)"
    have m: "0 < m" "m \<le> 64" "k + m \<le> n" "m = 64 \<or> n = k + m" using True by (auto simp: m_def)
    have "gather_bit src srcoff idx (k + j) = Some (f (k + j))" if "j < m" for j
      using that assms(1) assms(2) [of "k + j"] m(3)
      by (simp add: gather_bit_def ld_idx_eq get_bit_eq f_def)
    then have w: "mask_loop (\<lambda>j. gather_bit src srcoff idx (k + j)) 0 m 0 = Some (bits_word m (\<lambda>j. f (k + j)))"
      by (rule mask_loop_eq) (use m in simp_all)
    have fits: "8 * q + whole m \<le> 8 * length dst"
    proof -
      have "whole (8 * q + m) \<le> whole n" unfolding whole_def using m(3) q by (simp add: div_le_mono)
      then show ?thesis using less.prems(1) by (simp add: whole_add)
    qed
    obtain dst1 where st: "st_le_bytes dst q (bits_word m (\<lambda>j. f (k + j))) ((m + 7) div 8) = Some dst1"
      and c1: "copied dst dst1 (8 * q) (\<lambda>j. j < m \<and> f (k + j)) (whole m)"
      by (rule store_mask [OF fits m(2)])
    have step: "gather_words dst src srcoff idx k n t =
        gather_words dst1 src srcoff idx (k + 64) n (t + of_nat (count_bits f k (k + m)))"
      using True w st m by (subst gather_words.simps)
        (simp add: m_def [symmetric] q_def [symmetric] Let_def popcount_bits_word)
    have "n - (k + 64) < n - k" "whole n \<le> 8 * length dst1" "(k + 64) mod 8 = 0"
      using True less.prems copied_length [OF c1] by (simp_all add: q)
    from less.hyps [OF this, of "t + of_nat (count_bits f k (k + m))"] obtain dst2 where
      rest: "gather_words dst1 src srcoff idx (k + 64) n (t + of_nat (count_bits f k (k + m))) =
        Some (dst2, t + of_nat (count_bits f k (k + m)) + of_nat (count_bits f (k + 64) n))"
      and c2: "copied dst1 dst2 (k + 64) (\<lambda>j. k + 64 + j < n \<and> f (k + 64 + j)) (whole n - (k + 64))"
      by (elim exE conjE) (rule that; assumption)
    show ?thesis
    proof (cases "m = 64")
      case True
      then have c1': "copied dst dst1 k (\<lambda>j. k + j < n \<and> f (k + j)) 64"
        using c1 m by (auto simp: q copied_def whole_def)
      have "64 + (whole n - (k + 64)) = whole n - k" using True m whole_bounds [of n] by simp
      moreover have "copied dst dst2 k (\<lambda>j. k + j < n \<and> f (k + j)) (64 + (whole n - (k + 64)))"
        by (rule copied_trans [OF c1' c2]) (simp add: add.assoc)
      ultimately show ?thesis
        using step rest True m count_bits_split [of k "k + 64" n f] by (simp add: add.assoc)
    next
      case False
      then have n: "n = k + m" using m by simp
      have "whole n = k + whole m" using whole_add [of q m] by (simp add: n q)
      moreover from this have "whole n - (k + 64) = 0" using whole_64 [of m] m by simp
      ultimately show ?thesis
        using step rest c1 c2 n m False
        by (auto simp: copied_def q count_bits_def)
    qed
  next
    case False
    then have "whole n \<le> k" using less.prems(2) by (auto simp: whole_def)
    with False show ?thesis by (subst gather_words.simps) (simp add: copied_0 count_bits_def)
  qed
qed

text \<open>Gathering bits writes bit \<open>srcoff + idx[k]\<close> at position \<open>k\<close>, clears the rest of the last
  byte and returns the number of ones written.\<close>

theorem gather_bits_correct:
  assumes "8 * n \<le> length idx" and "\<And>k. k < n \<Longrightarrow> srcoff + idx_at idx k < 8 * length src"
    and "whole n \<le> 8 * length dst" and "n < 2 ^ 63"
  defines "f \<equiv> \<lambda>k. bit_at src (srcoff + idx_at idx k)"
  shows "\<exists>dst'. hs_columnar_gather_bits dst src srcoff idx n = Some (dst', int (count_bits f 0 n)) \<and>
    copied dst dst' 0 (\<lambda>k. k < n \<and> f k) (whole n)"
proof -
  have sint: "sint (of_nat (count_bits f 0 n) :: u64) = int (count_bits f 0 n)"
    using count_bits_le [of f 0 n] assms(4) by (intro sint_count) simp
  then show ?thesis
    using gather_words_ok [OF assms(1-3), of 0 0] by (auto simp: hs_columnar_gather_bits_def f_def)
qed

theorem gather_bits_correct_witness:
  "\<exists>dst'. hs_columnar_gather_bits [0xFF] [0x02] 0 [1, 0, 0, 0, 0, 0, 0, 0] 1 =
      Some (dst', int (count_bits (\<lambda>k. bit_at [0x02] (0 + idx_at [1, 0, 0, 0, 0, 0, 0, 0] k)) 0 1)) \<and>
    copied [0xFF] dst' 0 (\<lambda>k. k < 1 \<and> bit_at [0x02] (0 + idx_at [1, 0, 0, 0, 0, 0, 0, 0] k)) (whole 1)"
  by (rule gather_bits_correct) (simp_all add: idx_at_def whole_def)

end
