(* ===== verification/Columnar_Check.thy ===== *)
theory Columnar_Check
  imports Bitmap
begin

text \<open>
  The validators of \<open>columnar_simd.c\<close> for offsets, run ends, character boundaries, dictionary keys,
  list views and dense unions.  The C file writes each once as a macro over the element type; here
  the macro is a definition over the load function (or, for keys, over the word type) and each
  exported function is its instance.
\<close>

subsection \<open>Typed loads\<close>

definition ld_i8 :: "bytes \<Rightarrow> nat \<Rightarrow> u8 option" where
  "ld_i8 base i = load_le 1 base i"

definition ld_i16 :: "bytes \<Rightarrow> nat \<Rightarrow> u16 option" where
  "ld_i16 base i = load_le 2 base (i * 2)"

definition ld_i32 :: "bytes \<Rightarrow> nat \<Rightarrow> u32 option" where
  "ld_i32 base i = load_le 4 base (i * 4)"

definition ld_i64 :: "bytes \<Rightarrow> nat \<Rightarrow> u64 option" where
  "ld_i64 base i = load_le 8 base (i * 8)"

definition st_i32 :: "bytes \<Rightarrow> nat \<Rightarrow> u32 \<Rightarrow> bytes option" where
  "st_i32 base i v = store_le 4 base (i * 4) v"

definition st_i64 :: "bytes \<Rightarrow> nat \<Rightarrow> u64 \<Rightarrow> bytes option" where
  "st_i64 base i v = store_le 8 base (i * 8) v"

subsection \<open>Blocks of 256 rows\<close>

text \<open>The inner loops: is any row of the block bad, and which is the first.\<close>

function any_bad :: "(nat \<Rightarrow> bool option) \<Rightarrow> nat \<Rightarrow> nat \<Rightarrow> bool \<Rightarrow> bool option" where
  "any_bad t j m bad =
     (if j < m then do { b \<leftarrow> t j; any_bad t (j + 1) m (bad \<or> b) } else Some bad)"
  by pat_completeness auto
termination
  by (relation "measure (\<lambda>(t, j, m, bad). m - j)") auto

function min_hit :: "(nat \<Rightarrow> bool option) \<Rightarrow> nat \<Rightarrow> nat \<Rightarrow> nat \<Rightarrow> nat option" where
  "min_hit t j m hit =
     (if j < m then do { b \<leftarrow> t j; min_hit t (j + 1) m (if b then min hit j else hit) } else Some hit)"
  by pat_completeness auto
termination
  by (relation "measure (\<lambda>(t, j, m, hit). m - j)") auto

definition VALIDATOR_BLOCK :: nat where
  "VALIDATOR_BLOCK = 256"

text \<open>The outer loop; the two passes may write the test differently.\<close>

function block_scan ::
    "(nat \<Rightarrow> bool option) \<Rightarrow> (nat \<Rightarrow> bool option) \<Rightarrow> nat \<Rightarrow> nat \<Rightarrow> nat option option" where
  "block_scan t1 t2 i n =
     (if i < n then do {
        let m = min VALIDATOR_BLOCK (n - i);
        bad \<leftarrow> any_bad (\<lambda>j. t1 (i + j)) 0 m False;
        (if bad then do {
           hit \<leftarrow> min_hit (\<lambda>j. t2 (i + j)) 0 m m;
           Some (Some (i + hit))
         }
         else block_scan t1 t2 (i + VALIDATOR_BLOCK) n)
      }
      else Some None)"
  by pat_completeness auto
termination
  by (relation "measure (\<lambda>(t1, t2, i, n). n - i)") (auto simp: VALIDATOR_BLOCK_def)

declare any_bad.simps [simp del] min_hit.simps [simp del] block_scan.simps [simp del]

subsection \<open>Offsets and run ends\<close>

definition DEF_OFFSETS :: "(bytes \<Rightarrow> nat \<Rightarrow> 'a::len word option) \<Rightarrow> bytes \<Rightarrow> nat \<Rightarrow> u64 \<Rightarrow> int option" where
  "DEF_OFFSETS LD offs n limit =
     (if n = 0 then Some (-1)
      else do {
        v0 \<leftarrow> LD offs 0;
        (if sint v0 < 0 then Some 0
         else do {
           let t = (\<lambda>k. do { a \<leftarrow> LD offs k; b \<leftarrow> LD offs (k - 1); Some (sint a < sint b) });
           r \<leftarrow> block_scan t t 1 n;
           (case r of
              Some k \<Rightarrow> Some (int k)
            | None \<Rightarrow> do {
                v \<leftarrow> LD offs (n - 1);
                Some (if sint limit < sint v then int (n - 1) else -1)
              })
         })
      })"

definition hs_columnar_offsets_i32 :: "bytes \<Rightarrow> nat \<Rightarrow> u64 \<Rightarrow> int option" where
  "hs_columnar_offsets_i32 = DEF_OFFSETS ld_i32"

definition hs_columnar_offsets_i64 :: "bytes \<Rightarrow> nat \<Rightarrow> u64 \<Rightarrow> int option" where
  "hs_columnar_offsets_i64 = DEF_OFFSETS ld_i64"

definition DEF_RUN_ENDS :: "(bytes \<Rightarrow> nat \<Rightarrow> 'a::len word option) \<Rightarrow> bytes \<Rightarrow> nat \<Rightarrow> u64 \<Rightarrow> int option" where
  "DEF_RUN_ENDS LD ends n minEnd =
     (if n = 0 then Some (if sint minEnd \<le> 0 then -1 else 0)
      else do {
        v0 \<leftarrow> LD ends 0;
        (if sint v0 \<le> 0 then Some 0
         else do {
           let t = (\<lambda>k. do { a \<leftarrow> LD ends k; b \<leftarrow> LD ends (k - 1); Some (sint a \<le> sint b) });
           r \<leftarrow> block_scan t t 1 n;
           (case r of
              Some k \<Rightarrow> Some (int k)
            | None \<Rightarrow> do {
                v \<leftarrow> LD ends (n - 1);
                Some (if sint v < sint minEnd then int (n - 1) else -1)
              })
         })
      })"

definition hs_columnar_run_ends_i16 :: "bytes \<Rightarrow> nat \<Rightarrow> u64 \<Rightarrow> int option" where
  "hs_columnar_run_ends_i16 = DEF_RUN_ENDS ld_i16"

definition hs_columnar_run_ends_i32 :: "bytes \<Rightarrow> nat \<Rightarrow> u64 \<Rightarrow> int option" where
  "hs_columnar_run_ends_i32 = DEF_RUN_ENDS ld_i32"

definition hs_columnar_run_ends_i64 :: "bytes \<Rightarrow> nat \<Rightarrow> u64 \<Rightarrow> int option" where
  "hs_columnar_run_ends_i64 = DEF_RUN_ENDS ld_i64"

subsection \<open>Character boundaries\<close>

text \<open>\<open>data[o]\<close> with a 64-bit signed index: a negative index is outside the buffer.\<close>

definition data_at :: "bytes \<Rightarrow> int \<Rightarrow> u8 option" where
  "data_at data k = (if k < 0 then None else load data (nat k))"

definition DEF_UTF8_BOUNDARIES ::
    "(bytes \<Rightarrow> nat \<Rightarrow> 'a::len word option) \<Rightarrow> bytes \<Rightarrow> nat \<Rightarrow> bytes \<Rightarrow> u64 \<Rightarrow> int option" where
  "DEF_UTF8_BOUNDARIES LD offs n data len =
     (if sint len \<le> 0 then Some (-1)
      else
        map_option report
          (block_scan
            (\<lambda>k. do {
               v \<leftarrow> LD offs k;
               let inside = sint v < sint len;
               c \<leftarrow> data_at data (if inside then sint v else 0);
               Some (inside \<and> c AND 0xC0 = 0x80)
             })
            (\<lambda>k. do {
               v \<leftarrow> LD offs k;
               (if sint v < sint len then do {
                  c \<leftarrow> data_at data (sint v);
                  Some (c AND 0xC0 = 0x80)
                }
                else Some False)
             })
            0 n))"

definition hs_columnar_utf8_boundaries_i32 :: "bytes \<Rightarrow> nat \<Rightarrow> bytes \<Rightarrow> u64 \<Rightarrow> int option" where
  "hs_columnar_utf8_boundaries_i32 = DEF_UTF8_BOUNDARIES ld_i32"

definition hs_columnar_utf8_boundaries_i64 :: "bytes \<Rightarrow> nat \<Rightarrow> bytes \<Rightarrow> u64 \<Rightarrow> int option" where
  "hs_columnar_utf8_boundaries_i64 = DEF_UTF8_BOUNDARIES ld_i64"

subsection \<open>Rebasing\<close>

text \<open>
  \<open>dst\<close> and \<open>src\<close> are positions in the same memory, so they may overlap.  The two functions
  have the same loop, at element size \<open>w\<close>.
\<close>

function rebase_loop :: "nat \<Rightarrow> bytes \<Rightarrow> nat \<Rightarrow> nat \<Rightarrow> nat \<Rightarrow> nat \<Rightarrow> 'a::len word \<Rightarrow> bytes option" where
  "rebase_loop w mem dst src i n d =
     (if i < n then do {
        v \<leftarrow> load_le w mem (src + i * w);
        mem \<leftarrow> store_le w mem (dst + i * w) (v + d);
        rebase_loop w mem dst src (i + 1) n d
      }
      else Some mem)"
  by pat_completeness auto
termination
  by (relation "measure (\<lambda>(w, mem, dst, src, i, n, d). n - i)") auto

declare rebase_loop.simps [simp del]

definition hs_columnar_rebase_offsets_i32 :: "bytes \<Rightarrow> nat \<Rightarrow> nat \<Rightarrow> nat \<Rightarrow> u64 \<Rightarrow> bytes option" where
  "hs_columnar_rebase_offsets_i32 mem dst src n delta =
     (let d = ucast delta :: u32 in rebase_loop 4 mem dst src 0 n d)"

definition hs_columnar_rebase_offsets_i64 :: "bytes \<Rightarrow> nat \<Rightarrow> nat \<Rightarrow> nat \<Rightarrow> u64 \<Rightarrow> bytes option" where
  "hs_columnar_rebase_offsets_i64 mem dst src n delta = rebase_loop 8 mem dst src 0 n delta"

subsection \<open>Dictionary keys\<close>

text \<open>The limit at the key's width; \<open>None\<close> is the early return of -1.  \<open>bits\<close> is \<open>sizeof(T) * 8\<close>.\<close>

definition KEYS_LIMIT_CLAMP :: "nat \<Rightarrow> u64 \<Rightarrow> u64 option" where
  "KEYS_LIMIT_CLAMP bits limv =
     (let top = push_bit (bits - 1) 1 in Some (if top < limv then top else limv))"

definition KEYS_LIMIT_UNSIGNED :: "nat \<Rightarrow> u64 \<Rightarrow> u64 option" where
  "KEYS_LIMIT_UNSIGNED bits limv = (if take_bit bits (NOT 0) < limv then None else Some limv)"

definition KEYS_LIMIT_NONE :: "nat \<Rightarrow> u64 \<Rightarrow> u64 option" where
  "KEYS_LIMIT_NONE bits limv = Some limv"

definition key_test :: "(bytes \<Rightarrow> nat \<Rightarrow> 'a::len word option) \<Rightarrow> bytes \<Rightarrow> 'a word \<Rightarrow> nat \<Rightarrow> bool option" where
  "key_test LD keys lim k = map_option (\<lambda>v. lim \<le> v) (LD keys k)"

definition keys_mask ::
    "(bytes \<Rightarrow> nat \<Rightarrow> 'a::len word option) \<Rightarrow> bytes \<Rightarrow> 'a word \<Rightarrow> bytes option \<Rightarrow> nat \<Rightarrow> nat \<Rightarrow> nat \<Rightarrow> u64 option" where
  "keys_mask LD keys lim valid validoff i m = do {
     hit \<leftarrow> any_bad (\<lambda>j. key_test LD keys lim (i + j)) 0 m False;
     (if \<not> hit then Some 0
      else do {
        vm \<leftarrow> valid_mask valid validoff i m;
        bad \<leftarrow> mask_loop (\<lambda>j. key_test LD keys lim (i + j)) 0 m 0;
        Some (bad AND vm)
      })
   }"

definition DEF_KEYS ::
    "(bytes \<Rightarrow> nat \<Rightarrow> 'a::len word option) \<Rightarrow> (nat \<Rightarrow> u64 \<Rightarrow> u64 option) \<Rightarrow>
     bytes \<Rightarrow> nat \<Rightarrow> bytes option \<Rightarrow> nat \<Rightarrow> u64 \<Rightarrow> int option" where
  "DEF_KEYS LD LIMIT_SETUP keys n valid validoff maxv =
     (if sint maxv \<le> 0 then first_valid n valid validoff
      else
        (case LIMIT_SETUP LENGTH('a) maxv of
           None \<Rightarrow> Some (-1)
         | Some limv \<Rightarrow>
             map_option report (mask_scan (keys_mask LD keys (ucast limv) valid validoff) 0 n)))"

definition hs_columnar_keys_in_range_i8 :: "bytes \<Rightarrow> nat \<Rightarrow> bytes option \<Rightarrow> nat \<Rightarrow> u64 \<Rightarrow> int option" where
  "hs_columnar_keys_in_range_i8 = DEF_KEYS ld_i8 KEYS_LIMIT_CLAMP"

definition hs_columnar_keys_in_range_i16 :: "bytes \<Rightarrow> nat \<Rightarrow> bytes option \<Rightarrow> nat \<Rightarrow> u64 \<Rightarrow> int option" where
  "hs_columnar_keys_in_range_i16 = DEF_KEYS ld_i16 KEYS_LIMIT_CLAMP"

definition hs_columnar_keys_in_range_i32 :: "bytes \<Rightarrow> nat \<Rightarrow> bytes option \<Rightarrow> nat \<Rightarrow> u64 \<Rightarrow> int option" where
  "hs_columnar_keys_in_range_i32 = DEF_KEYS ld_i32 KEYS_LIMIT_CLAMP"

definition hs_columnar_keys_in_range_i64 :: "bytes \<Rightarrow> nat \<Rightarrow> bytes option \<Rightarrow> nat \<Rightarrow> u64 \<Rightarrow> int option" where
  "hs_columnar_keys_in_range_i64 = DEF_KEYS ld_i64 KEYS_LIMIT_NONE"

definition hs_columnar_keys_in_range_u8 :: "bytes \<Rightarrow> nat \<Rightarrow> bytes option \<Rightarrow> nat \<Rightarrow> u64 \<Rightarrow> int option" where
  "hs_columnar_keys_in_range_u8 = DEF_KEYS ld_i8 KEYS_LIMIT_UNSIGNED"

definition hs_columnar_keys_in_range_u16 :: "bytes \<Rightarrow> nat \<Rightarrow> bytes option \<Rightarrow> nat \<Rightarrow> u64 \<Rightarrow> int option" where
  "hs_columnar_keys_in_range_u16 = DEF_KEYS ld_i16 KEYS_LIMIT_UNSIGNED"

definition hs_columnar_keys_in_range_u32 :: "bytes \<Rightarrow> nat \<Rightarrow> bytes option \<Rightarrow> nat \<Rightarrow> u64 \<Rightarrow> int option" where
  "hs_columnar_keys_in_range_u32 = DEF_KEYS ld_i32 KEYS_LIMIT_UNSIGNED"

definition hs_columnar_keys_in_range_u64 :: "bytes \<Rightarrow> nat \<Rightarrow> bytes option \<Rightarrow> nat \<Rightarrow> u64 \<Rightarrow> int option" where
  "hs_columnar_keys_in_range_u64 = DEF_KEYS ld_i64 KEYS_LIMIT_NONE"

subsection \<open>List views and dense unions\<close>

text \<open>A signed 64-bit subtraction; overflow is undefined in C.\<close>

definition sub64 :: "int \<Rightarrow> int \<Rightarrow> int option" where
  "sub64 a b = (if - (2 ^ 63) \<le> a - b \<and> a - b < 2 ^ 63 then Some (a - b) else None)"

definition view_test :: "(bytes \<Rightarrow> nat \<Rightarrow> 'a::len word option) \<Rightarrow> bytes \<Rightarrow> bytes \<Rightarrow> u64 \<Rightarrow> nat \<Rightarrow> bool option" where
  "view_test LD offs sizes childLen k = do {
     vo \<leftarrow> LD offs k;
     vs \<leftarrow> LD sizes k;
     let ofs = sint vo;
     let sz = sint vs;
     let b = (ofs < 0 \<or> sz < 0 \<or> sint childLen < ofs);
     (if b then Some True
      else do {
        room \<leftarrow> sub64 (sint childLen) ofs;
        Some (room < sz)
      })
   }"

definition view_mask ::
    "(bytes \<Rightarrow> nat \<Rightarrow> 'a::len word option) \<Rightarrow> bytes \<Rightarrow> bytes \<Rightarrow> bytes option \<Rightarrow> nat \<Rightarrow> u64 \<Rightarrow> nat \<Rightarrow> nat \<Rightarrow> u64 option" where
  "view_mask LD offs sizes valid validoff childLen i m = do {
     vm \<leftarrow> valid_mask valid validoff i m;
     (if vm = 0 then Some 0
      else do {
        bad \<leftarrow> mask_loop (\<lambda>j. view_test LD offs sizes childLen (i + j)) 0 m 0;
        Some (bad AND vm)
      })
   }"

definition DEF_LIST_VIEW ::
    "(bytes \<Rightarrow> nat \<Rightarrow> 'a::len word option) \<Rightarrow>
     bytes \<Rightarrow> bytes \<Rightarrow> nat \<Rightarrow> bytes option \<Rightarrow> nat \<Rightarrow> u64 \<Rightarrow> int option" where
  "DEF_LIST_VIEW LD offs sizes n valid validoff childLen =
     map_option report (mask_scan (view_mask LD offs sizes valid validoff childLen) 0 n)"

definition hs_columnar_list_view_i32 ::
    "bytes \<Rightarrow> bytes \<Rightarrow> nat \<Rightarrow> bytes option \<Rightarrow> nat \<Rightarrow> u64 \<Rightarrow> int option" where
  "hs_columnar_list_view_i32 = DEF_LIST_VIEW ld_i32"

definition hs_columnar_list_view_i64 ::
    "bytes \<Rightarrow> bytes \<Rightarrow> nat \<Rightarrow> bytes option \<Rightarrow> nat \<Rightarrow> u64 \<Rightarrow> int option" where
  "hs_columnar_list_view_i64 = DEF_LIST_VIEW ld_i64"

text \<open>One row of a dense union: is it bad?\<close>

definition union_test :: "bytes \<Rightarrow> bytes \<Rightarrow> bytes \<Rightarrow> nat \<Rightarrow> nat \<Rightarrow> bool option" where
  "union_test types offs childLens nchildren i = do {
     vt \<leftarrow> ld_i8 types i;
     let t = sint vt;
     (if t < 0 \<or> int nchildren \<le> t then Some True
      else do {
        vo \<leftarrow> ld_i32 offs i;
        len \<leftarrow> ld_i64 childLens (nat t);
        Some (sint vo < 0 \<or> sint len \<le> sint vo)
      })
   }"

function union_loop :: "bytes \<Rightarrow> bytes \<Rightarrow> bytes \<Rightarrow> nat \<Rightarrow> nat \<Rightarrow> nat \<Rightarrow> int option" where
  "union_loop types offs childLens nchildren i n =
     (if i < n then do {
        b \<leftarrow> union_test types offs childLens nchildren i;
        if b then Some (int i) else union_loop types offs childLens nchildren (i + 1) n
      }
      else Some (-1))"
  by pat_completeness auto
termination
  by (relation "measure (\<lambda>(types, offs, childLens, nchildren, i, n). n - i)") auto

declare union_loop.simps [simp del]

definition hs_columnar_dense_union :: "bytes \<Rightarrow> bytes \<Rightarrow> nat \<Rightarrow> bytes \<Rightarrow> nat \<Rightarrow> int option" where
  "hs_columnar_dense_union types offs n childLens nchildren =
     union_loop types offs childLens nchildren 0 n"

end
