(* ===== verification/Columnar_Valid.thy ===== *)
theory Columnar_Valid
  imports Columnar_Check
begin

text \<open>
  Each validator returns -1 exactly when every row satisfies its rule, and otherwise the first row
  that breaks it, without reading outside its buffers.
\<close>

subsection \<open>The block loops\<close>

lemma any_bad_eq:
  assumes "\<And>k. j \<le> k \<Longrightarrow> k < m \<Longrightarrow> t k = Some (P k)"
  shows "any_bad t j m bad = Some (bad \<or> (\<exists>k. j \<le> k \<and> k < m \<and> P k))"
  using assms
proof (induction t j m bad rule: any_bad.induct)
  case (1 t j m bad)
  show ?case
  proof (cases "j < m")
    case True
    then have t: "t j = Some (P j)" using 1(2) by simp
    have "any_bad t (j + 1) m (bad \<or> P j) = Some ((bad \<or> P j) \<or> (\<exists>k. j + 1 \<le> k \<and> k < m \<and> P k))"
      using True t 1(2) by (intro 1(1)) simp_all
    moreover have "(\<exists>k. j \<le> k \<and> k < m \<and> P k) \<longleftrightarrow> P j \<or> (\<exists>k. j + 1 \<le> k \<and> k < m \<and> P k)"
      using True by (metis Suc_eq_plus1 Suc_le_eq le_eq_less_or_eq)
    ultimately show ?thesis using True t by (subst any_bad.simps) simp
  qed (auto simp: any_bad.simps)
qed

lemma min_hit_eq:
  assumes "\<And>k. j \<le> k \<Longrightarrow> k < m \<Longrightarrow> t k = Some (P k)"
  shows "min_hit t j m hit = Some (case first_idx P j m of None \<Rightarrow> hit | Some k \<Rightarrow> min hit k)"
  using assms
proof (induction t j m hit rule: min_hit.induct)
  case (1 t j m hit)
  show ?case
  proof (cases "j < m")
    case True
    then have t: "t j = Some (P j)" using 1(2) by simp
    have "min_hit t (j + 1) m (if P j then min hit j else hit) =
        Some (case first_idx P (j + 1) m of None \<Rightarrow> if P j then min hit j else hit
              | Some k \<Rightarrow> min (if P j then min hit j else hit) k)"
      using True t 1(2) by (intro 1(1)) simp_all
    then show ?thesis
      using True t by (subst min_hit.simps)
        (auto simp: first_idx_step [of j] first_idx_Some_iff min_def split: option.splits)
  qed (simp add: min_hit.simps)
qed

lemma block_scan_eq:
  assumes "\<And>k. i \<le> k \<Longrightarrow> k < n \<Longrightarrow> t1 k = Some (P k) \<and> t2 k = Some (P k)"
  shows "block_scan t1 t2 i n = Some (first_idx P i n)"
  using assms
proof (induction t1 t2 i n rule: block_scan.induct)
  case (1 t1 t2 i n)
  show ?case
  proof (cases "i < n")
    case True
    define m where "m = min VALIDATOR_BLOCK (n - i)"
    have m: "i + m \<le> n" "m = VALIDATOR_BLOCK \<or> n = i + m" "m \<le> VALIDATOR_BLOCK" using True by (auto simp: m_def)
    have bad: "any_bad (\<lambda>j. t1 (i + j)) 0 m False = Some (\<exists>k<m. P (i + k))"
      using any_bad_eq [of 0 m "\<lambda>j. t1 (i + j)" "\<lambda>j. P (i + j)" False] 1(2) m(1) by simp
    have hit: "min_hit (\<lambda>j. t2 (i + j)) 0 m m =
        Some (case first_idx (\<lambda>j. P (i + j)) 0 m of None \<Rightarrow> m | Some k \<Rightarrow> min m k)"
      using 1(2) m(1) by (intro min_hit_eq) simp
    note unfold = block_scan.simps [of t1 t2 i n] Let_def m_def [symmetric] bad
    show ?thesis
    proof (cases "\<exists>k<m. P (i + k)")
      case found: True
      then obtain k where k: "first_idx (\<lambda>j. P (i + j)) 0 m = Some k"
        using first_idx_None_iff [of "\<lambda>j. P (i + j)" 0 m] by (cases "first_idx (\<lambda>j. P (i + j)) 0 m") auto
      then have "k < m" "P (i + k)" "\<forall>j<k. \<not> P (i + j)" by (auto simp: first_idx_Some_iff)
      then have "first_idx P i n = Some (i + k)"
        using m(1) by (intro first_idx_hit) (auto dest: le_Suc_ex)
      with found hit k \<open>k < m\<close> True show ?thesis by (simp add: unfold)
    next
      case none: False
      have "first_idx P i n = first_idx P (i + m) n"
        using none m(1) by (intro first_idx_skip) (auto dest: le_Suc_ex)
      also have "\<dots> = first_idx P (i + VALIDATOR_BLOCK) n" using m(2,3) by auto
      finally show ?thesis
        using 1(1) [OF True m_def, of False] bad none 1(2) True by (auto simp: unfold)
    qed
  qed (simp add: block_scan.simps)
qed

subsection \<open>Values of an array\<close>

definition val8 :: "bytes \<Rightarrow> nat \<Rightarrow> u8" where "val8 base k = le_word (take 1 (drop k base))"
definition val16 :: "bytes \<Rightarrow> nat \<Rightarrow> u16" where "val16 base k = le_word (take 2 (drop (k * 2) base))"
definition val32 :: "bytes \<Rightarrow> nat \<Rightarrow> u32" where "val32 base k = le_word (take 4 (drop (k * 4) base))"
definition val64 :: "bytes \<Rightarrow> nat \<Rightarrow> u64" where "val64 base k = le_word (take 8 (drop (k * 8) base))"

lemma ld_eq:
  "k < length base \<Longrightarrow> ld_i8 base k = Some (val8 base k)"
  "k * 2 + 2 \<le> length base \<Longrightarrow> ld_i16 base k = Some (val16 base k)"
  "k * 4 + 4 \<le> length base \<Longrightarrow> ld_i32 base k = Some (val32 base k)"
  "k * 8 + 8 \<le> length base \<Longrightarrow> ld_i64 base k = Some (val64 base k)"
  by (simp_all add: ld_i8_def ld_i16_def ld_i32_def ld_i64_def val8_def val16_def val32_def val64_def load_le_in)

text \<open>\<open>reads LD base v n\<close>: the first \<open>n\<close> loads are in the buffer and give the values \<open>v\<close>.\<close>

definition reads :: "(bytes \<Rightarrow> nat \<Rightarrow> 'a::len word option) \<Rightarrow> bytes \<Rightarrow> (nat \<Rightarrow> 'a word) \<Rightarrow> nat \<Rightarrow> bool" where
  "reads LD base v n \<longleftrightarrow> (\<forall>k<n. LD base k = Some (v k))"

lemma readsD: "reads LD base v n \<Longrightarrow> k < n \<Longrightarrow> LD base k = Some (v k)"
  by (simp add: reads_def)

lemma reads_array:
  "n \<le> length base \<Longrightarrow> reads ld_i8 base (val8 base) n"
  "n * 2 \<le> length base \<Longrightarrow> reads ld_i16 base (val16 base) n"
  "n * 4 \<le> length base \<Longrightarrow> reads ld_i32 base (val32 base) n"
  "n * 8 \<le> length base \<Longrightarrow> reads ld_i64 base (val64 base) n"
  by (simp_all add: reads_def ld_eq)

subsection \<open>What the validators report\<close>

text \<open>\<open>reports_first r n bad\<close>: the result is -1 when no row is bad, else the first bad row.\<close>

definition reports_first :: "int option \<Rightarrow> nat \<Rightarrow> (nat \<Rightarrow> bool) \<Rightarrow> bool" where
  "reports_first r n bad \<longleftrightarrow>
     (\<exists>v. r = Some v \<and> (v = -1 \<longleftrightarrow> (\<forall>k<n. \<not> bad k)) \<and>
          (\<forall>k. v = int k \<longleftrightarrow> k < n \<and> bad k \<and> (\<forall>j<k. \<not> bad j)))"

lemma reports_first_idx: "reports_first (Some (report (first_idx bad 0 n))) n bad"
  unfolding reports_first_def by (intro exI conjI allI) (rule refl report_iff)+

lemma reports_accepts: "reports_first r n bad \<Longrightarrow> r = Some (-1) \<longleftrightarrow> (\<forall>k<n. \<not> bad k)"
  by (auto simp: reports_first_def)

subsection \<open>Offsets\<close>

definition offset_bad :: "(nat \<Rightarrow> int) \<Rightarrow> nat \<Rightarrow> int \<Rightarrow> nat \<Rightarrow> bool" where
  "offset_bad x n limit k \<longleftrightarrow> k = 0 \<and> x 0 < 0 \<or> 0 < k \<and> x k < x (k - 1) \<or> k = n - 1 \<and> limit < x k"

definition run_bad :: "(nat \<Rightarrow> int) \<Rightarrow> nat \<Rightarrow> int \<Rightarrow> nat \<Rightarrow> bool" where
  "run_bad x n minEnd k \<longleftrightarrow> k = 0 \<and> x 0 \<le> 0 \<or> 0 < k \<and> x k \<le> x (k - 1) \<or> k = n - 1 \<and> x k < minEnd"

lemma first_idx_tail:
  assumes "1 \<le> n" and "\<not> Q 0" and "\<And>k. 0 < k \<Longrightarrow> k < n \<Longrightarrow> P k \<Longrightarrow> Q k"
    and "\<And>k. 0 < k \<Longrightarrow> k < n - 1 \<Longrightarrow> Q k \<Longrightarrow> P k"
  shows "first_idx Q 0 n = (case first_idx P 1 n of Some k \<Rightarrow> Some k
    | None \<Rightarrow> if Q (n - 1) then Some (n - 1) else None)"
proof (cases "first_idx P 1 n")
  case None
  then have none: "\<not> P k" if "0 < k" "k < n" for k using that by (auto simp: first_idx_None_iff)
  then have "first_idx Q 0 n = first_idx Q (n - 1) n"
  proof (intro first_idx_skip)
    fix k assume "k < n - 1"
    then show "\<not> Q k" using assms(2) assms(4) [of k] none [of k] by (cases "k = 0") auto
  qed simp_all
  then show ?thesis using None assms(1) by (simp add: first_idx_step)
next
  case (Some k)
  then have k: "1 \<le> k" "k < n" "P k" "\<And>j. 1 \<le> j \<Longrightarrow> j < k \<Longrightarrow> \<not> P j" by (auto simp: first_idx_Some_iff)
  have "first_idx Q 0 n = Some k"
  proof (rule first_idx_hit)
    fix j assume "j < k"
    then have "j < n - 1" using k(2) by linarith
    then show "\<not> Q j" using \<open>j < k\<close> k(4) [of j] assms(2) assms(4) [of j] by (cases "j = 0") auto
  qed (use k assms(3) in auto)
  with Some show ?thesis by simp
qed

lemma DEF_OFFSETS_eq:
  assumes "reads LD offs v n"
  shows "DEF_OFFSETS LD offs n limit =
    Some (report (first_idx (offset_bad (\<lambda>k. sint (v k)) n (sint limit)) 0 n))"
proof (cases "n = 0")
  case False
  let ?x = "\<lambda>k. sint (v k)"
  let ?Q = "offset_bad ?x n (sint limit)"
  let ?t = "\<lambda>k. do { a \<leftarrow> LD offs k; b \<leftarrow> LD offs (k - 1); Some (sint a < sint b) }"
  note ld = readsD [OF assms]
  show ?thesis
  proof (cases "?x 0 < 0")
    case True
    then have "first_idx ?Q 0 n = Some 0" using False by (simp add: first_idx_step offset_bad_def)
    with True False show ?thesis by (simp add: DEF_OFFSETS_def ld report_def)
  next
    case pos: False
    have scan: "block_scan ?t ?t 1 n = Some (first_idx (\<lambda>k. ?x k < ?x (k - 1)) 1 n)"
      by (rule block_scan_eq) (simp add: ld)
    show ?thesis
    proof (cases "n = 1")
      case True
      then show ?thesis using pos scan
        by (simp add: DEF_OFFSETS_def ld report_def first_idx_step offset_bad_def)
    next
      case n: False
      have "first_idx ?Q 0 n = (case first_idx (\<lambda>k. ?x k < ?x (k - 1)) 1 n of Some k \<Rightarrow> Some k
          | None \<Rightarrow> if ?Q (n - 1) then Some (n - 1) else None)"
        by (rule first_idx_tail) (use False pos n in \<open>auto simp: offset_bad_def\<close>)
      moreover have "?Q (n - 1) \<longleftrightarrow> sint limit < ?x (n - 1)" if none: "first_idx (\<lambda>k. ?x k < ?x (k - 1)) 1 n = None"
      proof -
        have "\<not> ?x (n - 1) < ?x (n - 1 - 1)"
          using none [unfolded first_idx_None_iff, THEN spec, of "n - 1"] n False by auto
        then show ?thesis using n False by (auto simp: offset_bad_def)
      qed
      ultimately show ?thesis
        using False pos scan by (auto simp: DEF_OFFSETS_def ld report_def split: option.splits)
    qed
  qed
qed (simp add: DEF_OFFSETS_def report_def)

lemma DEF_RUN_ENDS_eq:
  assumes "reads LD ends v n" and "0 < n"
  shows "DEF_RUN_ENDS LD ends n minEnd =
    Some (report (first_idx (run_bad (\<lambda>k. sint (v k)) n (sint minEnd)) 0 n))"
proof -
  let ?x = "\<lambda>k. sint (v k)"
  let ?Q = "run_bad ?x n (sint minEnd)"
  let ?t = "\<lambda>k. do { a \<leftarrow> LD ends k; b \<leftarrow> LD ends (k - 1); Some (sint a \<le> sint b) }"
  note ld = readsD [OF assms(1)]
  show ?thesis
  proof (cases "?x 0 \<le> 0")
    case True
    then have "first_idx ?Q 0 n = Some 0" using assms(2) by (simp add: first_idx_step run_bad_def)
    with True assms(2) show ?thesis by (simp add: DEF_RUN_ENDS_def ld report_def)
  next
    case pos: False
    have scan: "block_scan ?t ?t 1 n = Some (first_idx (\<lambda>k. ?x k \<le> ?x (k - 1)) 1 n)"
      by (rule block_scan_eq) (simp add: ld)
    show ?thesis
    proof (cases "n = 1")
      case True
      then show ?thesis using pos scan
        by (simp add: DEF_RUN_ENDS_def ld report_def first_idx_step run_bad_def)
    next
      case n: False
      have "first_idx ?Q 0 n = (case first_idx (\<lambda>k. ?x k \<le> ?x (k - 1)) 1 n of Some k \<Rightarrow> Some k
          | None \<Rightarrow> if ?Q (n - 1) then Some (n - 1) else None)"
        by (rule first_idx_tail) (use assms(2) pos n in \<open>auto simp: run_bad_def\<close>)
      moreover have "?Q (n - 1) \<longleftrightarrow> ?x (n - 1) < sint minEnd" if none: "first_idx (\<lambda>k. ?x k \<le> ?x (k - 1)) 1 n = None"
      proof -
        have "\<not> ?x (n - 1) \<le> ?x (n - 1 - 1)" 
          using none [unfolded first_idx_None_iff, THEN spec, of "n - 1"] n assms(2) by auto
        then show ?thesis using n assms(2) by (auto simp: run_bad_def)
      qed
      ultimately show ?thesis
        using assms(2) pos scan by (auto simp: DEF_RUN_ENDS_def ld report_def split: option.splits)
    qed
  qed
qed

text \<open>No bad row means the array as a whole is right.\<close>

lemma steps_mono:
  fixes x :: "nat \<Rightarrow> int"
  assumes "\<And>k. 0 < k \<Longrightarrow> k < n \<Longrightarrow> r (x (k - 1)) (x k)" and "transp r"
  shows "i < j \<Longrightarrow> j < n \<Longrightarrow> r (x i) (x j)"
proof (induction j)
  case (Suc j)
  have step: "r (x j) (x (Suc j))" using assms(1) [of "Suc j"] Suc.prems by simp
  show ?case
  proof (cases "i = j")
    case False
    then have "r (x i) (x j)" using Suc by simp
    then show ?thesis using step by (rule transpD [OF assms(2)])
  qed (use step in simp)
qed simp

lemma offsets_good_iff:
  "(\<forall>k<n. \<not> offset_bad x n limit k) \<longleftrightarrow>
     (\<forall>i j. i \<le> j \<and> j < n \<longrightarrow> 0 \<le> x i \<and> x i \<le> x j \<and> x j \<le> limit)"
  (is "?good \<longleftrightarrow> ?all")
proof
  assume good: ?good
  have mono: "x i \<le> x j" if "i \<le> j" "j < n" for i j
  proof (cases "i = j")
    case False
    have step: "x (k - 1) \<le> x k" if "0 < k" "k < n" for k
      using good [rule_format, OF that(2)] that(1) by (simp add: offset_bad_def)
    have "i < j" using that False by simp
    then show ?thesis using that(2) step
      by (rule_tac steps_mono [where r = "(\<le>)" and n = n and x = x]) simp_all
  qed simp
  show ?all
  proof (intro allI impI)
    fix i j assume ij: "i \<le> j \<and> j < n"
    then have "0 \<le> x 0" "x (n - 1) \<le> limit"
      using good [rule_format, of 0] good [rule_format, of "n - 1"] by (auto simp: offset_bad_def not_less)
    moreover have "x 0 \<le> x i" using mono [of 0 i] ij by simp
    moreover have "x i \<le> x j" using mono [of i j] ij by simp
    moreover have "x j \<le> x (n - 1)" by (rule mono) (use ij in linarith)+
    ultimately show "0 \<le> x i \<and> x i \<le> x j \<and> x j \<le> limit" by linarith
  qed
next
  assume all: ?all
  have at: "0 \<le> x i \<and> x i \<le> x j \<and> x j \<le> limit" if "i \<le> j" "j < n" for i j
    by (rule all [rule_format, OF conjI [OF that]])
  show ?good
  proof (intro allI impI)
    fix k assume "k < n"
    then have "0 \<le> x k \<and> x k \<le> limit" "x (k - 1) \<le> x k"
      using at [of k k] at [of "k - 1" k] by simp_all
    then show "\<not> offset_bad x n limit k" by (auto simp: offset_bad_def)
  qed
qed

lemma runs_good_iff:
  assumes "0 < n"
  shows "(\<forall>k<n. \<not> run_bad x n minEnd k) \<longleftrightarrow>
     (\<forall>k<n. 0 < x k) \<and> (\<forall>i j. i < j \<and> j < n \<longrightarrow> x i < x j) \<and> minEnd \<le> x (n - 1)"
  (is "?good \<longleftrightarrow> ?all")
proof
  assume good: ?good
  have step: "x (k - 1) < x k" if "0 < k" "k < n" for k
    using good [rule_format, OF that(2)] that(1) by (simp add: run_bad_def)
  have mono: "x i < x j" if "i < j" "j < n" for i j
    using that step by (rule_tac steps_mono [where r = "(<)" and n = n and x = x]) simp_all
  have "0 < x 0" "minEnd \<le> x (n - 1)"
    using good [rule_format, of 0] good [rule_format, of "n - 1"] assms by (auto simp: run_bad_def not_less)
  moreover have "0 < x k" if "k < n" for k
    using mono [of 0 k] that \<open>0 < x 0\<close> by (cases "k = 0") auto
  ultimately show ?all using mono by blast
next
  assume all: ?all
  show ?good
  proof (intro allI impI)
    fix k assume "k < n"
    then have "0 < x k" "k = 0 \<or> x (k - 1) < x k" "k = n - 1 \<longrightarrow> minEnd \<le> x k"
      using all [THEN conjunct1] all [THEN conjunct2, THEN conjunct1, rule_format, of "k - 1" k]
        all [THEN conjunct2, THEN conjunct2] by (cases k; auto)+
    then show "\<not> run_bad x n minEnd k" by (auto simp: run_bad_def)
  qed
qed

subsection \<open>Character boundaries\<close>

definition is_cont :: "u8 \<Rightarrow> bool" where
  "is_cont c \<longleftrightarrow> 0x80 \<le> c \<and> c < 0xC0"

lemma cont_mask: "c AND 0xC0 = 0x80 \<longleftrightarrow> is_cont c"
  unfolding is_cont_def by (rule all_bytes [of _ c]; code_simp)

definition boundary_bad :: "(nat \<Rightarrow> int) \<Rightarrow> bytes \<Rightarrow> int \<Rightarrow> nat \<Rightarrow> bool" where
  "boundary_bad x data len k \<longleftrightarrow> x k < len \<and> is_cont (data ! nat (x k))"

lemma DEF_UTF8_BOUNDARIES_eq:
  assumes "reads LD offs v n" and "0 < sint len" and "sint len \<le> int (length data)"
    and "\<And>k. k < n \<Longrightarrow> 0 \<le> sint (v k)"
  shows "DEF_UTF8_BOUNDARIES LD offs n data len =
    Some (report (first_idx (boundary_bad (\<lambda>k. sint (v k)) data (sint len)) 0 n))"
proof -
  let ?bad = "boundary_bad (\<lambda>k. sint (v k)) data (sint len)"
  have at: "data_at data (sint (v k)) = Some (data ! nat (sint (v k)))" if "k < n" "sint (v k) < sint len" for k
    using that assms(3) assms(4) [of k] by (simp add: data_at_def load_in nat_less_iff)
  have "0 < length data" using assms(2,3) by linarith
  then have zero: "data_at data 0 = Some (data ! 0)"
    by (simp add: data_at_def load_in)
  show ?thesis
    unfolding DEF_UTF8_BOUNDARIES_def
    using assms(2) at zero
    by (subst block_scan_eq [where P = ?bad])
      (auto simp: readsD [OF assms(1)] boundary_bad_def cont_mask Let_def)
qed

subsection \<open>Dictionary keys\<close>

lemma sint_uint_cases:
  "sint (w :: 'a::len word) = (if uint w < 2 ^ (LENGTH('a) - 1) then uint w else uint w - 2 ^ LENGTH('a))"
proof -
  obtain n where n: "LENGTH('a) = Suc n" by (cases "LENGTH('a)") auto
  have u: "0 \<le> uint w" "uint w < 2 ^ Suc n" using uint_lt2p [of w] by (simp_all only: n uint_ge_0)
  have "sint w = take_bit (Suc n) (uint w + 2 ^ n) - 2 ^ n"
    by (simp only: sint_uint signed_take_bit_eq_take_bit_shift n diff_Suc_Suc One_nat_def minus_nat.diff_0)
  also have "take_bit (Suc n) (uint w + 2 ^ n) =
      (if uint w < 2 ^ n then uint w + 2 ^ n else uint w + 2 ^ n - 2 ^ Suc n)"
  proof (cases "uint w < 2 ^ n")
    case True
    then show ?thesis using u by (simp add: take_bit_int_eq_self)
  next
    case False
    then have "take_bit (Suc n) (uint w + 2 ^ n - 2 ^ Suc n) = uint w + 2 ^ n - 2 ^ Suc n"
      using u by (intro take_bit_int_eq_self) (simp_all add: power_Suc)
    moreover have "take_bit (Suc n) (uint w + 2 ^ n - 2 ^ Suc n) = take_bit (Suc n) (uint w + 2 ^ n)"
      by (simp add: take_bit_eq_mod mod_diff_right_eq [symmetric, of _ "2 ^ Suc n"] del: power_Suc)
    ultimately show ?thesis using False by simp
  qed
  finally show ?thesis unfolding n by simp
qed

text \<open>
  The limit interface: what a LIMIT_SETUP promises of the comparison \<open>lim \<le> v\<close> that the scan uses.
\<close>

locale key_limit =
  fixes limit :: "nat \<Rightarrow> u64 \<Rightarrow> u64 option"
    and ok :: "'a::len word \<Rightarrow> int \<Rightarrow> bool"
  assumes unlimited: "0 < sint maxv \<Longrightarrow> limit LENGTH('a) maxv = None \<Longrightarrow> ok v (sint maxv)"
    and limited: "0 < sint maxv \<Longrightarrow> limit LENGTH('a) maxv = Some limv \<Longrightarrow> ucast limv \<le> v \<longleftrightarrow> \<not> ok v (sint maxv)"
    and none_ok: "m \<le> 0 \<Longrightarrow> \<not> ok v m"
begin

lemma keys_mask_eq:
  assumes "reads LD keys v n" and "valid_fits valid off n" and "i + m \<le> n" and "m \<le> 64"
    and "0 < sint maxv" and "limit LENGTH('a) maxv = Some limv"
  shows "keys_mask LD keys (ucast limv) valid off i m =
    Some (bits_word m (\<lambda>j. row_valid valid off (i + j) \<and> \<not> ok (v (i + j)) (sint maxv)))"
proof -
  define P where "P j \<longleftrightarrow> \<not> ok (v (i + j)) (sint maxv)" for j
  have t: "key_test LD keys (ucast limv) (i + j) = Some (P j)" if "j < m" for j
    using that assms(3) limited [OF assms(5,6)]
    by (simp add: key_test_def readsD [OF assms(1)] P_def)
  have hit: "any_bad (\<lambda>j. key_test LD keys (ucast limv) (i + j)) 0 m False = Some (\<exists>j<m. P j)"
    by (subst any_bad_eq [where P = P]) (simp_all add: t)
  have bad: "mask_loop (\<lambda>j. key_test LD keys (ucast limv) (i + j)) 0 m 0 = Some (bits_word m P)"
    by (rule mask_loop_eq) (use t assms(4) in simp_all)
  have "bits_word m P AND bits_word m (\<lambda>j. row_valid valid off (i + j)) =
      bits_word m (\<lambda>j. row_valid valid off (i + j) \<and> P j)"
    using assms(4) by (intro bits_word_eqI) (auto simp: bit_and_iff bit_bits_word)
  moreover have "bits_word m (\<lambda>j. row_valid valid off (i + j) \<and> P j) = 0" if "\<not> (\<exists>j<m. P j)"
    using that assms(4) by (auto simp: bits_word_zero)
  ultimately show ?thesis
    using bad hit by (simp add: keys_mask_def valid_mask_eq [OF assms(2-4)] P_def [symmetric])
qed

lemma keys_eq:
  assumes "reads LD keys v n" and "valid_fits valid off n"
  shows "DEF_KEYS LD limit keys n valid off maxv =
    Some (report (first_idx (\<lambda>k. row_valid valid off k \<and> \<not> ok (v k) (sint maxv)) 0 n))"
proof (cases "sint maxv \<le> 0")
  case True
  then show ?thesis by (simp add: DEF_KEYS_def first_valid_eq [OF assms(2)] none_ok)
next
  case False
  then have pos: "0 < sint maxv" by simp
  show ?thesis
  proof (cases "limit LENGTH('a) maxv")
    case None
    then have "first_idx (\<lambda>k. row_valid valid off k \<and> \<not> ok (v k) (sint maxv)) 0 n = None"
      by (simp add: unlimited [OF pos] first_idx_None_iff)
    then show ?thesis using False None by (simp add: DEF_KEYS_def report_def)
  next
    case (Some limv)
    have "mask_scan (keys_mask LD keys (ucast limv) valid off) 0 n =
        Some (first_idx (\<lambda>k. row_valid valid off k \<and> \<not> ok (v k) (sint maxv)) 0 n)"
      by (rule mask_scan_eq) (intro keys_mask_eq [OF assms _ _ pos Some], simp_all)
    then show ?thesis using False Some by (simp add: DEF_KEYS_def)
  qed
qed

lemma keys_reports:
  assumes "valid_fits valid off n" and "reads LD keys v n"
  shows "reports_first (DEF_KEYS LD limit keys n valid off maxv) n
    (\<lambda>k. row_valid valid off k \<and> \<not> ok (v k) (sint maxv))"
  by (simp add: keys_eq [OF assms(2,1)] reports_first_idx)

end

text \<open>A signed key must be in \<open>[0, maxv)\<close>; an unsigned one below \<open>maxv\<close>.\<close>

definition signed_ok :: "'a::len word \<Rightarrow> int \<Rightarrow> bool" where
  "signed_ok v m \<longleftrightarrow> 0 \<le> sint v \<and> sint v < m"

definition unsigned_ok :: "'a::len word \<Rightarrow> int \<Rightarrow> bool" where
  "unsigned_ok v m \<longleftrightarrow> uint v < m"

lemma sint_pos: "0 < sint (w :: 'a::len word) \<Longrightarrow> uint w = sint w"
proof -
  assume "0 < sint w"
  moreover have "uint w < 2 ^ LENGTH('a)" by simp
  ultimately show ?thesis unfolding sint_uint_cases [of w] by (simp split: if_splits) (metis less_asym uint_lt2p)
qed

lemma sint_lt: "sint (w :: 'a::len word) < 2 ^ (LENGTH('a) - 1)"
  using sint_uint_cases [of w] uint_lt2p [of w] zero_less_power [of "2 :: int"]
  by (smt (verit) One_nat_def Suc_pred len_gt_0 power_Suc)

lemma uint_ucast_le: "uint limv \<le> 2 ^ (LENGTH('a) - 1) \<Longrightarrow> uint (ucast (limv :: u64) :: 'a::len word) = uint limv"
proof -
  assume "uint limv \<le> 2 ^ (LENGTH('a) - 1)"
  moreover have "(2 :: int) ^ (LENGTH('a) - 1) < 2 ^ LENGTH('a)" by (rule power_strict_increasing) simp_all
  ultimately have "uint limv < 2 ^ LENGTH('a)" by linarith
  then show ?thesis by (simp add: unsigned_ucast_eq take_bit_int_eq_self)
qed

lemma limit_signed:
  assumes "0 < sint maxv" and "uint (limv :: u64) = min (2 ^ (LENGTH('a) - 1)) (sint maxv)"
  shows "ucast limv \<le> v \<longleftrightarrow> \<not> signed_ok (v :: 'a::len word) (sint maxv)"
proof -
  have "uint limv \<le> 2 ^ (LENGTH('a) - 1)" using assms(2) by simp
  then have u: "uint (ucast limv :: 'a word) = min (2 ^ (LENGTH('a) - 1)) (sint maxv)"
    using assms(2) uint_ucast_le [where 'a = 'a] by simp
  have v: "uint v < 2 ^ LENGTH('a)" "0 \<le> uint v" by simp_all
  have p: "(0 :: int) < 2 ^ (LENGTH('a) - 1)" by simp
  show ?thesis unfolding signed_ok_def word_le_def u sint_uint_cases [of v]
    using assms(1) v p by (smt (verit) min_def)
qed

lemma limit_unsigned:
  assumes "0 < sint maxv" and "uint maxv < 2 ^ LENGTH('a)"
  shows "ucast (maxv :: u64) \<le> v \<longleftrightarrow> \<not> unsigned_ok (v :: 'a::len word) (sint maxv)"
  using assms by (simp add: unsigned_ok_def word_le_def unsigned_ucast_eq take_bit_int_eq_self sint_pos not_less)

lemma width_limits:
  "sint (w :: u64) < 2 ^ 63" "LENGTH(8) = 8" "LENGTH(16) = 16" "LENGTH(32) = 32" "LENGTH(64) = 64"
  using sint_lt [of w] by simp_all

lemma clamp_limit:
  assumes "KEYS_LIMIT_CLAMP b maxv = Some limv" and "0 < sint maxv" and "0 < b" and "b \<le> 64"
  shows "uint limv = min (2 ^ (b - 1)) (sint maxv)"
proof -
  have "uint (push_bit (b - 1) 1 :: u64) = 2 ^ (b - 1)"
    using assms(3,4) by (simp add: push_bit_eq_mult uint_2p word_gt_0 exp_eq_zero_iff)
  then show ?thesis
    using assms(1) sint_pos [OF assms(2)] by (auto simp: KEYS_LIMIT_CLAMP_def Let_def word_less_def split: if_splits)
qed

text \<open>The instances of the interface, one for each key type.\<close>

lemma signed_none_ok: "m \<le> 0 \<Longrightarrow> \<not> signed_ok v m" and unsigned_none_ok: "m \<le> 0 \<Longrightarrow> \<not> unsigned_ok w m"
  unfolding signed_ok_def unsigned_ok_def using uint_ge_0 [of w] by linarith+

lemma key_limit_clamp:
  assumes "LENGTH('a::len) \<le> 64"
  shows "key_limit KEYS_LIMIT_CLAMP (signed_ok :: 'a word \<Rightarrow> int \<Rightarrow> bool)"
proof
  fix maxv limv and v :: "'a word"
  assume "0 < sint maxv" and "KEYS_LIMIT_CLAMP LENGTH('a) maxv = Some limv"
  then have "uint limv = min (2 ^ (LENGTH('a) - 1)) (sint maxv)"
    by (intro clamp_limit) (simp_all add: assms)
  with \<open>0 < sint maxv\<close> show "(ucast limv \<le> v) = (\<not> signed_ok v (sint maxv))" by (rule limit_signed)
qed (simp_all add: KEYS_LIMIT_CLAMP_def Let_def signed_none_ok)

lemma key_limit_unsigned:
  assumes "LENGTH('a::len) \<le> 64"
  shows "key_limit KEYS_LIMIT_UNSIGNED (unsigned_ok :: 'a word \<Rightarrow> int \<Rightarrow> bool)"
proof
  have top: "uint (mask LENGTH('a) :: u64) = 2 ^ LENGTH('a) - 1"
    using assms by (simp add: uint_mask_eq min_def mask_eq_exp_minus_1 [where 'a = int])
  fix maxv limv :: u64 and v :: "'a word"
  assume pos: "0 < sint maxv"
  { assume "KEYS_LIMIT_UNSIGNED LENGTH('a) maxv = None"
    then have "2 ^ LENGTH('a) - 1 < sint maxv"
      by (simp add: KEYS_LIMIT_UNSIGNED_def word_less_def top sint_pos [OF pos] split: if_splits)
    moreover have "uint v < 2 ^ LENGTH('a)" by simp
    ultimately show "unsigned_ok v (sint maxv)" unfolding unsigned_ok_def by linarith }
  assume "KEYS_LIMIT_UNSIGNED LENGTH('a) maxv = Some limv"
  then have "limv = maxv" "uint maxv \<le> 2 ^ LENGTH('a) - 1"
    by (simp_all add: KEYS_LIMIT_UNSIGNED_def word_less_def top not_less split: if_splits)
  then show "(ucast limv \<le> v) = (\<not> unsigned_ok v (sint maxv))"
    using limit_unsigned [OF pos, where 'a = 'a, of v] by simp
qed (simp add: unsigned_none_ok)

interpretation keys_i8: key_limit KEYS_LIMIT_CLAMP "signed_ok :: u8 \<Rightarrow> int \<Rightarrow> bool"
  by (rule key_limit_clamp) simp

interpretation keys_i16: key_limit KEYS_LIMIT_CLAMP "signed_ok :: u16 \<Rightarrow> int \<Rightarrow> bool"
  by (rule key_limit_clamp) simp

interpretation keys_i32: key_limit KEYS_LIMIT_CLAMP "signed_ok :: u32 \<Rightarrow> int \<Rightarrow> bool"
  by (rule key_limit_clamp) simp

interpretation keys_i64: key_limit KEYS_LIMIT_NONE "signed_ok :: u64 \<Rightarrow> int \<Rightarrow> bool"
proof
  fix maxv limv :: u64 and v :: u64
  assume pos: "0 < sint maxv" and "KEYS_LIMIT_NONE LENGTH(64) maxv = Some limv"
  then have "uint limv = min (2 ^ (LENGTH(64) - 1)) (sint maxv)"
    using width_limits(1) [of maxv] by (simp add: KEYS_LIMIT_NONE_def sint_pos)
  from limit_signed [OF pos this] show "(ucast limv \<le> v) = (\<not> signed_ok v (sint maxv))" .
qed (simp_all add: KEYS_LIMIT_NONE_def signed_none_ok)

interpretation keys_u8: key_limit KEYS_LIMIT_UNSIGNED "unsigned_ok :: u8 \<Rightarrow> int \<Rightarrow> bool"
  by (rule key_limit_unsigned) simp

interpretation keys_u16: key_limit KEYS_LIMIT_UNSIGNED "unsigned_ok :: u16 \<Rightarrow> int \<Rightarrow> bool"
  by (rule key_limit_unsigned) simp

interpretation keys_u32: key_limit KEYS_LIMIT_UNSIGNED "unsigned_ok :: u32 \<Rightarrow> int \<Rightarrow> bool"
  by (rule key_limit_unsigned) simp

interpretation keys_u64: key_limit KEYS_LIMIT_NONE "unsigned_ok :: u64 \<Rightarrow> int \<Rightarrow> bool"
proof
  fix maxv limv :: u64 and v :: u64
  assume pos: "0 < sint maxv" and "KEYS_LIMIT_NONE LENGTH(64) maxv = Some limv"
  then show "(ucast limv \<le> v) = (\<not> unsigned_ok v (sint maxv))"
    using limit_unsigned [OF pos uint_lt2p, of v] by (simp add: KEYS_LIMIT_NONE_def)
qed (simp_all add: KEYS_LIMIT_NONE_def unsigned_none_ok)

subsection \<open>List views and unions\<close>

definition view_bad :: "int \<Rightarrow> int \<Rightarrow> int \<Rightarrow> bool" where
  "view_bad ofs sz childLen \<longleftrightarrow> \<not> (0 \<le> ofs \<and> 0 \<le> sz \<and> ofs + sz \<le> childLen)"

lemma view_test_eq:
  assumes "LD offs k = Some vo" and "LD sizes k = Some vs"
  shows "view_test LD offs sizes childLen k = Some (view_bad (sint vo) (sint vs) (sint childLen))"
proof -
  have "sub64 (sint childLen) (sint vo) = Some (sint childLen - sint vo)" if "0 \<le> sint vo" "sint vo \<le> sint childLen"
    using that width_limits(1) [of childLen] by (simp add: sub64_def)
  then show ?thesis
    by (auto simp: view_test_def assms view_bad_def Let_def)
qed

lemma DEF_LIST_VIEW_eq:
  assumes "reads LD offs v n" and "reads LD sizes u n" and "valid_fits valid off n"
  shows "DEF_LIST_VIEW LD offs sizes n valid off childLen = Some (report
    (first_idx (\<lambda>k. row_valid valid off k \<and> view_bad (sint (v k)) (sint (u k)) (sint childLen)) 0 n))"
proof -
  let ?bad = "\<lambda>k. view_bad (sint (v k)) (sint (u k)) (sint childLen)"
  have "view_mask LD offs sizes valid off childLen i m =
      Some (bits_word m (\<lambda>j. row_valid valid off (i + j) \<and> ?bad (i + j)))"
    if "i + m \<le> n" "m \<le> 64" for i m
  proof -
    have "mask_loop (\<lambda>j. view_test LD offs sizes childLen (i + j)) 0 m 0 = Some (bits_word m (\<lambda>j. ?bad (i + j)))"
      using that by (intro mask_loop_eq view_test_eq readsD [OF assms(1)] readsD [OF assms(2)]) simp_all
    moreover have "bits_word m (\<lambda>j. ?bad (i + j)) AND bits_word m (\<lambda>j. row_valid valid off (i + j)) =
        bits_word m (\<lambda>j. row_valid valid off (i + j) \<and> ?bad (i + j))"
      using that by (intro bits_word_eqI) (auto simp: bit_and_iff bit_bits_word)
    ultimately show ?thesis
      using that by (auto simp: view_mask_def valid_mask_eq [OF assms(3)] bits_word_zero)
  qed
  then have "mask_scan (view_mask LD offs sizes valid off childLen) 0 n =
      Some (first_idx (\<lambda>k. row_valid valid off k \<and> ?bad k) 0 n)"
    by (intro mask_scan_eq) simp
  then show ?thesis by (simp add: DEF_LIST_VIEW_def)
qed

definition union_bad :: "bytes \<Rightarrow> bytes \<Rightarrow> bytes \<Rightarrow> nat \<Rightarrow> nat \<Rightarrow> bool" where
  "union_bad types offs childLens nchildren k =
     (let t = sint (val8 types k); x = sint (val32 offs k) in
      \<not> (0 \<le> t \<and> t < int nchildren \<and> 0 \<le> x \<and> x < sint (val64 childLens (nat t))))"

lemma union_test_eq:
  assumes "k < length types" and "k * 4 + 4 \<le> length offs" and "nchildren * 8 \<le> length childLens"
  shows "union_test types offs childLens nchildren k = Some (union_bad types offs childLens nchildren k)"
proof (cases "sint (val8 types k) < 0 \<or> int nchildren \<le> sint (val8 types k)")
  case False
  then have "nat (sint (val8 types k)) < nchildren" by linarith
  then have "nat (sint (val8 types k)) * 8 + 8 \<le> length childLens" using assms(3) by linarith
  with False show ?thesis
    using assms(1,2) by (auto simp: union_test_def union_bad_def ld_eq Let_def)
qed (auto simp: union_test_def union_bad_def ld_eq Let_def assms)

lemma union_loop_eq:
  assumes "n \<le> length types" and "n * 4 \<le> length offs" and "nchildren * 8 \<le> length childLens"
  shows "union_loop types offs childLens nchildren i n =
    Some (report (first_idx (union_bad types offs childLens nchildren) i n))"
proof (induction "n - i" arbitrary: i)
  case (Suc d)
  then have "i < n" "i < length types" "i * 4 + 4 \<le> length offs" using assms by auto
  then show ?case
    using Suc.hyps(1) [of "i + 1"] Suc(2) assms(3)
    by (subst union_loop.simps) (simp add: union_test_eq first_idx_step report_def)
qed (simp add: union_loop.simps report_def)

subsection \<open>Rebasing\<close>

lemma rebase_loop_eq:
  fixes d :: "'a::len word"
  assumes "dst \<le> src \<or> src + n * w \<le> dst" and "i \<le> n"
    and "src + n * w \<le> length mem" and "dst + n * w \<le> length mem"
  obtains mem' where "rebase_loop w mem dst src i n d = Some mem'"
    and "frame (dst + i * w) (dst + n * w) mem mem'"
    and "\<forall>k. i \<le> k \<and> k < n \<longrightarrow> take w (drop (dst + k * w) mem') =
      le_bytes w (le_word (take w (drop (src + k * w) mem)) + d)"
proof -
  have "\<exists>mem'. rebase_loop w mem dst src i n d = Some mem' \<and> frame (dst + i * w) (dst + n * w) mem mem' \<and>
    (\<forall>k. i \<le> k \<and> k < n \<longrightarrow> take w (drop (dst + k * w) mem') =
      le_bytes w (le_word (take w (drop (src + k * w) mem)) + d))"
    using assms(2-4)
  proof (induction "n - i" arbitrary: i mem)
    case 0
    then show ?case by (auto simp: rebase_loop.simps)
  next
    case (Suc r)
    define x where "x = le_word (take w (drop (src + i * w) mem)) + d"
    have "i < n" using Suc(2) by simp
    moreover from this have "Suc i * w \<le> n * w" by (intro mult_le_mono1) simp
    ultimately have i: "i < n" "i * w + w \<le> n * w" by simp_all
    obtain mem1 where st: "store_le w mem (dst + i * w) x = Some mem1"
      using i Suc.prems store_block_in [of "dst + i * w" "le_bytes w x" mem] by (simp add: store_le_def)
    note st' = st [unfolded store_le_def]
    have f1: "frame (dst + i * w) (dst + Suc i * w) mem mem1" using store_block_frame [OF st'] by (simp add: ac_simps)
    have w1: "take w (drop (dst + i * w) mem1) = le_bytes w x" using store_block_written [OF st'] by simp
    have same: "take w (drop (src + k * w) mem1) = take w (drop (src + k * w) mem)" if "Suc i \<le> k" "k < n" for k
    proof (rule frame_block [OF f1])
      have k: "Suc i * w \<le> k * w" "Suc k * w \<le> n * w" using that by (simp_all only: mult_le_mono1 Suc_le_eq)
      then show "src + k * w + w \<le> length mem" using Suc.prems by simp
      show "src + k * w + w \<le> dst + i * w \<or> dst + Suc i * w \<le> src + k * w" using assms(1) k by auto
    qed
    obtain mem2 where r: "rebase_loop w mem1 dst src (Suc i) n d = Some mem2"
        "frame (dst + Suc i * w) (dst + n * w) mem1 mem2"
        "\<forall>k. Suc i \<le> k \<and> k < n \<longrightarrow> take w (drop (dst + k * w) mem2) =
          le_bytes w (le_word (take w (drop (src + k * w) mem1)) + d)"
    proof -
      have r: "r = n - Suc i" using Suc(2) by simp
      show thesis
        using Suc.hyps(1) [OF r, of mem1] Suc.prems i(1) frame_length [OF f1] that by auto
    qed
    have "load_le w mem (src + i * w) = Some (le_word (take w (drop (src + i * w) mem)) :: 'a word)"
      using i Suc.prems by (intro load_le_in) simp
    then have "rebase_loop w mem dst src i n d = Some mem2"
      using i(1) r(1) st by (subst rebase_loop.simps) (simp add: x_def)
    moreover have "frame (dst + i * w) (dst + n * w) mem mem2"
      by (rule frame_trans [of _ _ _ mem1]; rule frame_widen [OF f1] frame_widen [OF r(2)]) (use i in simp_all)
    moreover have "take w (drop (dst + k * w) mem2) = le_bytes w (le_word (take w (drop (src + k * w) mem)) + d)"
      if "i \<le> k" "k < n" for k
    proof (cases "k = i")
      case True
      have "take w (drop (dst + i * w) mem2) = take w (drop (dst + i * w) mem1)"
        by (rule frame_block [OF r(2)]) (use i Suc.prems frame_length [OF f1] in simp_all)
      with True w1 show ?thesis by (simp add: x_def)
    next
      case False
      with that r(3) same show ?thesis by (simp add: Suc_le_eq)
    qed
    ultimately show ?case by blast
  qed
  then show thesis using that by blast
qed

subsection \<open>The validators\<close>

text \<open>C25: the offsets validators accept exactly the non-decreasing sequences within
  \<open>[0, limit]\<close>, and otherwise name the first offset that breaks the rule.\<close>

theorem offsets_validated:
  "(n * 4 \<le> length offs \<longrightarrow>
      reports_first (hs_columnar_offsets_i32 offs n limit) n
        (offset_bad (\<lambda>k. sint (val32 offs k)) n (sint limit)) \<and>
      (hs_columnar_offsets_i32 offs n limit = Some (-1) \<longleftrightarrow>
        (\<forall>i j. i \<le> j \<and> j < n \<longrightarrow> 0 \<le> sint (val32 offs i) \<and> sint (val32 offs i) \<le> sint (val32 offs j) \<and>
          sint (val32 offs j) \<le> sint limit))) \<and>
   (n * 8 \<le> length offs \<longrightarrow>
      reports_first (hs_columnar_offsets_i64 offs n limit) n
        (offset_bad (\<lambda>k. sint (val64 offs k)) n (sint limit)) \<and>
      (hs_columnar_offsets_i64 offs n limit = Some (-1) \<longleftrightarrow>
        (\<forall>i j. i \<le> j \<and> j < n \<longrightarrow> 0 \<le> sint (val64 offs i) \<and> sint (val64 offs i) \<le> sint (val64 offs j) \<and>
          sint (val64 offs j) \<le> sint limit)))"
proof -
  have r: "reports_first (DEF_OFFSETS LD offs n limit) n (offset_bad (\<lambda>k. sint (v k)) n (sint limit)) \<and>
      (DEF_OFFSETS LD offs n limit = Some (-1) \<longleftrightarrow>
        (\<forall>i j. i \<le> j \<and> j < n \<longrightarrow> 0 \<le> sint (v i) \<and> sint (v i) \<le> sint (v j) \<and> sint (v j) \<le> sint limit))"
    if "reads LD offs v n" for LD :: "bytes \<Rightarrow> nat \<Rightarrow> 'b::len word option" and v
    using that reports_first_idx reports_accepts [OF reports_first_idx]
    by (simp only: DEF_OFFSETS_eq offsets_good_iff simp_thms)
  show ?thesis
    unfolding hs_columnar_offsets_i32_def hs_columnar_offsets_i64_def
    by (intro conjI impI r [OF reads_array(3), THEN conjunct1] r [OF reads_array(3), THEN conjunct2]
      r [OF reads_array(4), THEN conjunct1] r [OF reads_array(4), THEN conjunct2])
qed

theorem offsets_validated_witness:
  "reports_first (hs_columnar_offsets_i32 [0, 0, 0, 0, 3, 0, 0, 0, 2, 0, 0, 0] 3 9) 3
     (offset_bad (\<lambda>k. sint (val32 [0, 0, 0, 0, 3, 0, 0, 0, 2, 0, 0, 0] k)) 3 (sint (9 :: u64))) \<and>
   hs_columnar_offsets_i32 [0, 0, 0, 0, 3, 0, 0, 0, 2, 0, 0, 0] 3 9 = Some 2"
proof (rule conjI)
  show "hs_columnar_offsets_i32 [0, 0, 0, 0, 3, 0, 0, 0, 2, 0, 0, 0] 3 9 = Some 2" by code_simp
qed (use offsets_validated [of 3 "[0, 0, 0, 0, 3, 0, 0, 0, 2, 0, 0, 0]" 9] in simp)

text \<open>The run-end validators accept exactly the strictly increasing positive sequences whose
  last element reaches \<open>minEnd\<close>, and otherwise name the first run end that breaks the rule.\<close>

theorem run_ends_validated:
  assumes "0 < n"
  shows "(n * 2 \<le> length ends \<longrightarrow>
      reports_first (hs_columnar_run_ends_i16 ends n minEnd) n
        (run_bad (\<lambda>k. sint (val16 ends k)) n (sint minEnd))) \<and>
    (n * 4 \<le> length ends \<longrightarrow>
      reports_first (hs_columnar_run_ends_i32 ends n minEnd) n
        (run_bad (\<lambda>k. sint (val32 ends k)) n (sint minEnd)) \<and>
      (hs_columnar_run_ends_i32 ends n minEnd = Some (-1) \<longleftrightarrow>
        (\<forall>k<n. 0 < sint (val32 ends k)) \<and>
        (\<forall>i j. i < j \<and> j < n \<longrightarrow> sint (val32 ends i) < sint (val32 ends j)) \<and>
        sint minEnd \<le> sint (val32 ends (n - 1)))) \<and>
    (n * 8 \<le> length ends \<longrightarrow>
      reports_first (hs_columnar_run_ends_i64 ends n minEnd) n
        (run_bad (\<lambda>k. sint (val64 ends k)) n (sint minEnd)))"
  by (simp add: hs_columnar_run_ends_i16_def hs_columnar_run_ends_i32_def hs_columnar_run_ends_i64_def
    DEF_RUN_ENDS_eq [OF reads_array(2) assms] DEF_RUN_ENDS_eq [OF reads_array(3) assms]
    DEF_RUN_ENDS_eq [OF reads_array(4) assms] reports_first_idx report_iff runs_good_iff [OF assms])

theorem run_ends_validated_witness:
  "reports_first (hs_columnar_run_ends_i32 [3, 0, 0, 0, 7, 0, 0, 0] 2 7) 2
     (run_bad (\<lambda>k. sint (val32 [3, 0, 0, 0, 7, 0, 0, 0] k)) 2 (sint (7 :: u64))) \<and>
   hs_columnar_run_ends_i32 [3, 0, 0, 0, 7, 0, 0, 0] 2 8 = Some 1"
proof (rule conjI)
  show "hs_columnar_run_ends_i32 [3, 0, 0, 0, 7, 0, 0, 0] 2 8 = Some 1" by code_simp
qed (use run_ends_validated [of 2 "[3, 0, 0, 0, 7, 0, 0, 0]" 7] in simp)

text \<open>C26: a dictionary-key validator reports the first valid row whose key is outside \<open>[0, maxv)\<close>,
  for every key type: the sign bit, the clamped limit and the early return of the unsigned types
  all come to that.\<close>

theorem keys_validated:
  assumes "valid_fits valid off n"
  shows "(n \<le> length keys \<longrightarrow>
      reports_first (hs_columnar_keys_in_range_i8 keys n valid off maxv) n
        (\<lambda>k. row_valid valid off k \<and> \<not> signed_ok (val8 keys k) (sint maxv)) \<and>
      reports_first (hs_columnar_keys_in_range_u8 keys n valid off maxv) n
        (\<lambda>k. row_valid valid off k \<and> \<not> unsigned_ok (val8 keys k) (sint maxv))) \<and>
    (n * 2 \<le> length keys \<longrightarrow>
      reports_first (hs_columnar_keys_in_range_i16 keys n valid off maxv) n
        (\<lambda>k. row_valid valid off k \<and> \<not> signed_ok (val16 keys k) (sint maxv)) \<and>
      reports_first (hs_columnar_keys_in_range_u16 keys n valid off maxv) n
        (\<lambda>k. row_valid valid off k \<and> \<not> unsigned_ok (val16 keys k) (sint maxv))) \<and>
    (n * 4 \<le> length keys \<longrightarrow>
      reports_first (hs_columnar_keys_in_range_i32 keys n valid off maxv) n
        (\<lambda>k. row_valid valid off k \<and> \<not> signed_ok (val32 keys k) (sint maxv)) \<and>
      reports_first (hs_columnar_keys_in_range_u32 keys n valid off maxv) n
        (\<lambda>k. row_valid valid off k \<and> \<not> unsigned_ok (val32 keys k) (sint maxv))) \<and>
    (n * 8 \<le> length keys \<longrightarrow>
      reports_first (hs_columnar_keys_in_range_i64 keys n valid off maxv) n
        (\<lambda>k. row_valid valid off k \<and> \<not> signed_ok (val64 keys k) (sint maxv)) \<and>
      reports_first (hs_columnar_keys_in_range_u64 keys n valid off maxv) n
        (\<lambda>k. row_valid valid off k \<and> \<not> unsigned_ok (val64 keys k) (sint maxv)))"
  unfolding hs_columnar_keys_in_range_i8_def hs_columnar_keys_in_range_u8_def
    hs_columnar_keys_in_range_i16_def hs_columnar_keys_in_range_u16_def
    hs_columnar_keys_in_range_i32_def hs_columnar_keys_in_range_u32_def
    hs_columnar_keys_in_range_i64_def hs_columnar_keys_in_range_u64_def
  by (intro conjI impI keys_i8.keys_reports [OF assms] keys_u8.keys_reports [OF assms]
    keys_i16.keys_reports [OF assms] keys_u16.keys_reports [OF assms]
    keys_i32.keys_reports [OF assms] keys_u32.keys_reports [OF assms]
    keys_i64.keys_reports [OF assms] keys_u64.keys_reports [OF assms] reads_array)

theorem keys_validated_witness:
  "reports_first (hs_columnar_keys_in_range_i8 [1, 200, 255] 3 (Some [5]) 0 100) 3
     (\<lambda>k. row_valid (Some [5]) 0 k \<and> \<not> signed_ok (val8 [1, 200, 255] k) (sint (100 :: u64))) \<and>
   hs_columnar_keys_in_range_i8 [1, 200, 255] 3 (Some [5]) 0 100 = Some 2"
proof (rule conjI)
  show "hs_columnar_keys_in_range_i8 [1, 200, 255] 3 (Some [5]) 0 100 = Some 2" by code_simp
qed (use keys_validated [of "Some [5]" 0 3 "[1, 200, 255]" 100] in \<open>simp add: valid_fits_def\<close>)

text \<open>The list-view validators report the first valid row whose range does not lie in
  \<open>[0, childLen]\<close>; the sum of offset and size is never formed, so nothing overflows.\<close>

theorem list_views_validated:
  assumes "valid_fits valid off n"
  shows "(n * 4 \<le> length offs \<and> n * 4 \<le> length sizes \<longrightarrow>
      reports_first (hs_columnar_list_view_i32 offs sizes n valid off childLen) n
        (\<lambda>k. row_valid valid off k \<and>
          view_bad (sint (val32 offs k)) (sint (val32 sizes k)) (sint childLen))) \<and>
    (n * 8 \<le> length offs \<and> n * 8 \<le> length sizes \<longrightarrow>
      reports_first (hs_columnar_list_view_i64 offs sizes n valid off childLen) n
        (\<lambda>k. row_valid valid off k \<and>
          view_bad (sint (val64 offs k)) (sint (val64 sizes k)) (sint childLen)))"
  by (simp add: hs_columnar_list_view_i32_def hs_columnar_list_view_i64_def
    DEF_LIST_VIEW_eq [OF reads_array(3) reads_array(3) assms]
    DEF_LIST_VIEW_eq [OF reads_array(4) reads_array(4) assms] reports_first_idx)

theorem list_views_validated_witness:
  "reports_first (hs_columnar_list_view_i32 [2, 0, 0, 0] [4, 0, 0, 0] 1 None 0 5) 1
     (\<lambda>k. row_valid None 0 k \<and>
        view_bad (sint (val32 [2, 0, 0, 0] k)) (sint (val32 [4, 0, 0, 0] k)) (sint (5 :: u64))) \<and>
   hs_columnar_list_view_i32 [2, 0, 0, 0] [4, 0, 0, 0] 1 None 0 5 = Some 0"
proof (rule conjI)
  show "hs_columnar_list_view_i32 [2, 0, 0, 0] [4, 0, 0, 0] 1 None 0 5 = Some 0" by code_simp
qed (use list_views_validated [of None 0 1 "[2, 0, 0, 0]" "[4, 0, 0, 0]" 5] in \<open>simp add: valid_fits_def\<close>)

lemma dense_union_validated:
  assumes "n \<le> length types" and "n * 4 \<le> length offs" and "nchildren * 8 \<le> length childLens"
  shows "reports_first (hs_columnar_dense_union types offs n childLens nchildren) n
    (union_bad types offs childLens nchildren)"
  by (simp add: hs_columnar_dense_union_def union_loop_eq [OF assms] reports_first_idx)

lemma utf8_boundaries_validated:
  assumes "sint len \<le> int (length data)" and "n * 4 \<le> length offs"
    and "\<And>k. k < n \<Longrightarrow> 0 \<le> sint (val32 offs k)"
  shows "reports_first (hs_columnar_utf8_boundaries_i32 offs n data len) n
    (boundary_bad (\<lambda>k. sint (val32 offs k)) data (sint len))"
proof (cases "0 < sint len")
  case True
  then show ?thesis
    using DEF_UTF8_BOUNDARIES_eq [OF reads_array(3) [OF assms(2)] True assms(1,3)]
    by (simp add: hs_columnar_utf8_boundaries_i32_def reports_first_idx)
next
  case False
  then have "first_idx (boundary_bad (\<lambda>k. sint (val32 offs k)) data (sint len)) 0 n = None"
    using assms(3) by (fastforce simp: first_idx_None_iff boundary_bad_def)
  with False show ?thesis
    using reports_first_idx [of "boundary_bad (\<lambda>k. sint (val32 offs k)) data (sint len)" n]
    by (simp add: hs_columnar_utf8_boundaries_i32_def DEF_UTF8_BOUNDARIES_def report_def)
qed

text \<open>Rebasing adds the delta to every offset and touches nothing else, for separate arrays
  and for arrays that overlap with the destination first (in particular in place).\<close>

theorem rebase_offsets_correct:
  assumes "dst \<le> src \<or> src + n * 4 \<le> dst" and "src + n * 4 \<le> length mem" and "dst + n * 4 \<le> length mem"
  shows "\<exists>mem'. hs_columnar_rebase_offsets_i32 mem dst src n delta = Some mem' \<and>
    frame dst (dst + n * 4) mem mem' \<and>
    (\<forall>k<n. val32 (drop dst mem') k = val32 (drop src mem) k + ucast delta)"
proof -
  obtain mem' where r: "rebase_loop 4 mem dst src 0 n (ucast delta :: u32) = Some mem'"
      "frame (dst + 0 * 4) (dst + n * 4) mem mem'"
      "\<forall>k. 0 \<le> k \<and> k < n \<longrightarrow> take 4 (drop (dst + k * 4) mem') =
        le_bytes 4 (le_word (take 4 (drop (src + k * 4) mem)) + (ucast delta :: u32))"
    by (rule rebase_loop_eq [OF assms(1) le0 assms(2,3), of "ucast delta :: u32"])
  then show ?thesis
    by (auto simp: hs_columnar_rebase_offsets_i32_def Let_def val32_def le_word_le_bytes ac_simps)
qed

theorem rebase_offsets_correct_witness:
  "\<exists>mem'. hs_columnar_rebase_offsets_i32 [5, 0, 0, 0, 9, 0, 0, 0] 0 0 2 (- 5) = Some mem' \<and>
    frame 0 (0 + 2 * 4) [5, 0, 0, 0, 9, 0, 0, 0] mem' \<and>
    (\<forall>k<2. val32 (drop 0 mem') k = val32 (drop 0 [5, 0, 0, 0, 9, 0, 0, 0]) k + ucast (- 5 :: u64))"
  by (rule rebase_offsets_correct) simp_all

end
