(* ===== verification/Columnar_Views.thy ===== *)
theory Columnar_Views
  imports Columnar_Valid Proto_Text
begin

text \<open>
  The Utf8View / BinaryView validator of \<open>columnar_simd.c\<close> and its strict UTF-8 check.  The check is
  written over byte ranges, unlike the one of the protobuf kernels, and is proved equivalent to the
  same standard (\<open>utf8_enc\<close>).
\<close>

subsection \<open>Strict UTF-8\<close>

text \<open>The part of the loop body after the eight-byte test, at position \<open>q\<close> with \<open>r\<close> bytes left:
  \<open>None\<close> is \<open>return 0\<close>, \<open>Some k\<close> is \<open>i += k\<close>.\<close>

definition utf8_char :: "bytes \<Rightarrow> nat \<Rightarrow> nat \<Rightarrow> nat option option" where
  "utf8_char s q r = do {
     c \<leftarrow> load s q;
     (if c < 0x80 then Some (Some 1)
      else if c < 0xC2 then Some None
      else if c < 0xE0 then
        (if r \<le> 1 then Some None
         else do {
           c1 \<leftarrow> load s (q + 1);
           Some (if c1 AND 0xC0 \<noteq> 0x80 then None else Some 2)
         })
      else if c < 0xF0 then
        (if r \<le> 2 then Some None
         else do {
           c1 \<leftarrow> load s (q + 1);
           c2 \<leftarrow> load s (q + 2);
           Some (if c1 AND 0xC0 \<noteq> 0x80 \<or> c2 AND 0xC0 \<noteq> 0x80 then None
                 else if c = 0xE0 \<and> c1 < 0xA0 then None
                 else if c = 0xED \<and> 0xA0 \<le> c1 then None
                 else Some 3)
         })
      else if c < 0xF5 then
        (if r \<le> 3 then Some None
         else do {
           c1 \<leftarrow> load s (q + 1);
           c2 \<leftarrow> load s (q + 2);
           c3 \<leftarrow> load s (q + 3);
           Some (if c1 AND 0xC0 \<noteq> 0x80 \<or> c2 AND 0xC0 \<noteq> 0x80 \<or> c3 AND 0xC0 \<noteq> 0x80 then None
                 else if c = 0xF0 \<and> c1 < 0x90 then None
                 else if c = 0xF4 \<and> 0x90 \<le> c1 then None
                 else Some 4)
         })
      else Some None)
   }"

lemma utf8_char_pos: "utf8_char s q r = Some (Some k) \<Longrightarrow> 0 < k"
  by (auto simp: utf8_char_def split: if_splits bind_splits)

text \<open>The loop over \<open>[i, len)\<close> of the range that starts at \<open>p\<close>.\<close>

function utf8_loop :: "bytes \<Rightarrow> nat \<Rightarrow> nat \<Rightarrow> nat \<Rightarrow> bool option" where
  "utf8_loop s p i len =
     (if i < len then do {
        fast \<leftarrow> (if 8 \<le> len - i
          then map_option (\<lambda>w. (w :: u64) AND 0x8080808080808080 = 0) (load_le 8 s (p + i))
          else Some False);
        (if fast then utf8_loop s p (i + 8) len
         else
           (case utf8_char s (p + i) (len - i) of
              None \<Rightarrow> None
            | Some None \<Rightarrow> Some False
            | Some (Some k) \<Rightarrow> utf8_loop s p (i + k) len))
      }
      else Some True)"
  by pat_completeness auto
termination
  by (relation "measure (\<lambda>(s, p, i, len). len - i)") (auto dest: utf8_char_pos)

declare utf8_loop.simps [simp del]

definition utf8_valid :: "bytes \<Rightarrow> nat \<Rightarrow> nat \<Rightarrow> bool option" where
  "utf8_valid s p len = utf8_loop s p 0 len"

subsection \<open>Views\<close>

text \<open>One row; \<open>bufs\<close> are the data buffers the views refer to, each an object of its own.\<close>

definition view_ref_bad ::
    "bytes \<Rightarrow> bytes option \<Rightarrow> nat \<Rightarrow> bytes list \<Rightarrow> bytes \<Rightarrow> nat \<Rightarrow> bool \<Rightarrow> nat \<Rightarrow> bool option" where
  "view_ref_bad views valid validoff bufs buflens nbufs utf8 i = do {
     live \<leftarrow> (case valid of None \<Rightarrow> Some True
       | Some m \<Rightarrow> map_option (\<lambda>b. b \<noteq> 0) (get_bit m (validoff + i)));
     (if \<not> live then Some False
      else do {
        let v = 16 * i;
        lenw \<leftarrow> load_le 4 views v;
        let len = sint (lenw :: u32);
        (if len < 0 then Some True
         else if len \<le> 12 then
           (if utf8 then map_option Not (utf8_valid views (v + 4) (nat len)) else Some False)
         else do {
           biw \<leftarrow> load_le 4 views (v + 8);
           offw \<leftarrow> load_le 4 views (v + 12);
           let bi = sint (biw :: u32);
           let off = sint (offw :: u32);
           (if bi < 0 \<or> int nbufs \<le> bi \<or> off < 0 then Some True
            else do {
              buflen \<leftarrow> ld_i64 buflens (nat bi);
              (if sint buflen < off + len then Some True
               else do {
                 buf \<leftarrow> load bufs (nat bi);
                 prefix4 \<leftarrow> load_block views (v + 4) 4;
                 payload4 \<leftarrow> load_block buf (nat off) 4;
                 (if prefix4 \<noteq> payload4 then Some True
                  else if utf8 then map_option Not (utf8_valid buf (nat off) (nat len))
                  else Some False)
               })
            })
         })
      })
   }"

function view_refs_loop ::
    "bytes \<Rightarrow> bytes option \<Rightarrow> nat \<Rightarrow> bytes list \<Rightarrow> bytes \<Rightarrow> nat \<Rightarrow> bool \<Rightarrow> nat \<Rightarrow> nat \<Rightarrow> int option" where
  "view_refs_loop views valid validoff bufs buflens nbufs utf8 i n =
     (if i < n then do {
        b \<leftarrow> view_ref_bad views valid validoff bufs buflens nbufs utf8 i;
        (if b then Some (int i)
         else view_refs_loop views valid validoff bufs buflens nbufs utf8 (i + 1) n)
      }
      else Some (-1))"
  by pat_completeness auto
termination
  by (relation "measure (\<lambda>(views, valid, validoff, bufs, buflens, nbufs, utf8, i, n). n - i)") auto

declare view_refs_loop.simps [simp del]

definition hs_columnar_view_refs ::
    "bytes \<Rightarrow> nat \<Rightarrow> bytes option \<Rightarrow> nat \<Rightarrow> bytes list \<Rightarrow> bytes \<Rightarrow> nat \<Rightarrow> bool \<Rightarrow> int option" where
  "hs_columnar_view_refs views n valid validoff bufs buflens nbufs utf8 =
     view_refs_loop views valid validoff bufs buflens nbufs utf8 0 n"

subsection \<open>The UTF-8 check accepts exactly UTF-8\<close>

text \<open>The case analysis of the C code over numbers.\<close>

fun utf8_ranges :: "nat list \<Rightarrow> nat option" where
  "utf8_ranges [] = None"
| "utf8_ranges (c # cs) =
     (let cont = (\<lambda>k. k < length cs \<and> 128 \<le> cs ! k \<and> cs ! k < 192) in
      if c < 0x80 then Some 1
      else if c < 0xC2 then None
      else if c < 0xE0 then if cont 0 then Some 2 else None
      else if c < 0xF0 then
        if cont 0 \<and> cont 1 \<and> \<not> (c = 0xE0 \<and> cs ! 0 < 0xA0) \<and> \<not> (c = 0xED \<and> 0xA0 \<le> cs ! 0) then Some 3 else None
      else if c < 0xF5 then
        if cont 0 \<and> cont 1 \<and> cont 2 \<and> \<not> (c = 0xF0 \<and> cs ! 0 < 0x90) \<and> \<not> (c = 0xF4 \<and> 0x90 \<le> cs ! 0)
        then Some 4 else None
      else None)"

lemma utf8_three:
  assumes "x1 < 64" and "x2 < 64" and "y < 16"
  shows "0x800 \<le> 64 * (64 * y + x1) + x2 \<longleftrightarrow> y \<noteq> 0 \<or> 32 \<le> x1"
    and "unicode_scalar (64 * (64 * y + x1) + x2) \<longleftrightarrow> \<not> (y = 13 \<and> 32 \<le> x1)"
proof -
  have "y = 0 \<or> 1 \<le> y" by auto
  then show "0x800 \<le> 64 * (64 * y + x1) + x2 \<longleftrightarrow> y \<noteq> 0 \<or> 32 \<le> x1"
    using assms by (elim disjE) auto
  consider "y \<le> 12" | "y = 13" "x1 < 32" | "y = 13" "32 \<le> x1" | "14 \<le> y" by linarith
  then show "unicode_scalar (64 * (64 * y + x1) + x2) \<longleftrightarrow> \<not> (y = 13 \<and> 32 \<le> x1)"
    unfolding unicode_scalar_def using assms by cases auto
qed

lemma utf8_four:
  assumes "x1 < 64" and "x2 < 64" and "x3 < 64" and "y < 8"
  shows "0x10000 \<le> 64 * (64 * (64 * y + x1) + x2) + x3 \<and>
      unicode_scalar (64 * (64 * (64 * y + x1) + x2) + x3) \<longleftrightarrow>
    (y \<noteq> 0 \<or> 16 \<le> x1) \<and> (y < 4 \<or> y = 4 \<and> x1 < 16)"
proof -
  consider "y = 0" "x1 < 16" | "y = 0" "16 \<le> x1" | "1 \<le> y" "y \<le> 3" | "y = 4" "x1 < 16" | "y = 4" "16 \<le> x1" | "5 \<le> y"
    by linarith
  then show ?thesis
    unfolding unicode_scalar_def using assms by cases auto
qed

lemma cont_offset: "128 \<le> c \<Longrightarrow> c < 192 \<Longrightarrow> \<exists>x. c = 128 + x \<and> x < (64 :: nat)"
  by (rule exI [of _ "c - 128"]) simp

lemma offset_range: "a \<le> (c :: nat) \<Longrightarrow> c < a + d \<Longrightarrow> \<exists>y. c = a + y \<and> y < d"
  by (rule exI [of _ "c - a"]) simp

definition conts :: "nat \<Rightarrow> nat list \<Rightarrow> bool" where
  "conts k cs \<longleftrightarrow> (\<forall>j<k. j < length cs \<and> 128 \<le> cs ! j \<and> cs ! j < 192)"

lemma conts_simps [simp]:
  "conts 0 cs" "\<not> conts (Suc k) []"
  "conts (Suc k) (c # cs) \<longleftrightarrow> 128 \<le> c \<and> c < 192 \<and> conts k cs"
  by (auto simp: conts_def nth_Cons less_Suc_eq_0_disj split: nat.splits)

lemma utf8_tail_None_iff: "utf8_tail k v cs = None \<longleftrightarrow> \<not> conts k cs"
  by (induction k v cs rule: utf8_tail.induct) auto

lemma conts_Suc_obtain:
  assumes "conts (Suc k) cs"
  obtains x r where "cs = (128 + x) # r" and "x < 64" and "conts k r"
  using assms cont_offset by (cases cs) auto

lemma utf8_ranges_dec: "utf8_ranges bs = map_option fst (utf8_dec_nat bs)"
proof (cases bs)
  case (Cons c cs)
  have "c < 0xC2 \<or> 0xC2 \<le> c \<and> c < 0xE0 \<or> 0xE0 \<le> c \<and> c < 0xE0 + 16 \<or> 0xF0 \<le> c \<and> c < 0xF0 + 8 \<or> 0xF8 \<le> c"
    by linarith
  then consider "c < 0xC2" | "0xC2 \<le> c" "c < 0xE0" | y where "c = 0xE0 + y" "y < 16"
    | y where "c = 0xF0 + y" "y < 8" | "0xF8 \<le> c"
    using offset_range by blast
  then show ?thesis
  proof cases
    case 1
    then show ?thesis
      by (cases cs) (auto simp: Cons Let_def utf8_multi_def not_less)
  next
    case 2
    then show ?thesis
      by (cases cs) (auto simp: Cons Let_def utf8_multi_def unicode_scalar_def)
  next
    case (3 y)
    show ?thesis
    proof (cases "conts 2 cs")
      case True
      then obtain x1 r where 1: "cs = (128 + x1) # r" "x1 < 64" "conts 1 r"
        by (auto simp: numeral_2_eq_2 elim!: conts_Suc_obtain)
      then obtain x2 r' where "r = (128 + x2) # r'" "x2 < 64"
        by (auto elim!: conts_Suc_obtain)
      with 1 3 utf8_three [of x1 x2 y] show ?thesis
        by (simp add: Cons Let_def utf8_multi_def numeral_2_eq_2)
    next
      case False
      then have "\<not> (0 < length cs \<and> 128 \<le> cs ! 0 \<and> cs ! 0 < 192 \<and> 1 < length cs \<and> 128 \<le> cs ! 1 \<and> cs ! 1 < 192)"
        by (auto simp: conts_def less_2_cases_iff)
      then have "utf8_ranges (c # cs) = None" using 3 by (auto simp: Let_def)
      moreover have "utf8_tail 2 y cs = None" using False by (simp add: utf8_tail_None_iff)
      ultimately show ?thesis using 3 unfolding Cons by (simp add: utf8_multi_def)
    qed
  next
    case (4 y)
    show ?thesis
    proof (cases "conts 3 cs")
      case True
      then obtain x1 r where 1: "cs = (128 + x1) # r" "x1 < 64" "conts 2 r"
        by (auto simp: numeral_3_eq_3 numeral_2_eq_2 elim!: conts_Suc_obtain)
      then obtain x2 r' where 2: "r = (128 + x2) # r'" "x2 < 64" "conts 1 r'"
        by (auto simp: numeral_2_eq_2 elim!: conts_Suc_obtain)
      then obtain x3 r'' where "r' = (128 + x3) # r''" "x3 < 64"
        by (auto elim!: conts_Suc_obtain)
      with 1 2 4 utf8_four [of x1 x2 x3 y] show ?thesis
        by (simp add: Cons Let_def utf8_multi_def numeral_3_eq_3) auto
    next
      case False
      then have "\<not> (0 < length cs \<and> 128 \<le> cs ! 0 \<and> cs ! 0 < 192 \<and> 1 < length cs \<and> 128 \<le> cs ! 1 \<and> cs ! 1 < 192 \<and>
          2 < length cs \<and> 128 \<le> cs ! 2 \<and> cs ! 2 < 192)"
        by (auto simp: conts_def numeral_3_eq_3 less_Suc_eq numeral_2_eq_2)
      then have "utf8_ranges (c # cs) = None" using 4 by (auto simp: Let_def)
      moreover have "utf8_tail 3 y cs = None" using False by (simp add: utf8_tail_None_iff)
      ultimately show ?thesis using 4 unfolding Cons by (simp add: utf8_multi_def)
    qed
  next
    case 5
    then show ?thesis using Cons by simp
  qed
qed simp

text \<open>The C code on bytes in the buffer takes the same decisions.\<close>

lemma utf8_char_eq:
  assumes "q + r \<le> length s" and "0 < r"
  shows "utf8_char s q r = Some (map_option fst (utf8_dec (take r (drop q s))))"
proof -
  define bs where "bs = take r (drop q s)"
  have len: "length bs = r" using assms by (simp add: bs_def)
  have at: "load s (q + k) = Some (bs ! k)" if "k < r" for k
    using that assms(1) by (simp add: bs_def load_in)
  obtain b cs where bs: "bs = b # cs" using len assms(2) by (cases bs) auto
  have r: "r = Suc (length cs)" using len bs by simp
  have at': "load s q = Some b" "1 < r \<Longrightarrow> load s (Suc q) = Some (cs ! 0)"
    "2 < r \<Longrightarrow> load s (Suc (Suc q)) = Some (cs ! Suc 0)" "3 < r \<Longrightarrow> load s (q + 3) = Some (cs ! 2)"
    using at [of 0] at [of 1] at [of 2] at [of 3] assms(2) by (simp_all add: bs)
  have u: "c < 0x80 \<longleftrightarrow> unat c < 0x80" "c < 0xC2 \<longleftrightarrow> unat c < 0xC2" "c < 0xE0 \<longleftrightarrow> unat c < 0xE0"
    "c < 0xF0 \<longleftrightarrow> unat c < 0xF0" "c < 0xF5 \<longleftrightarrow> unat c < 0xF5" "c = 0xE0 \<longleftrightarrow> unat c = 0xE0"
    "c = 0xED \<longleftrightarrow> unat c = 0xED" "c = 0xF0 \<longleftrightarrow> unat c = 0xF0" "c = 0xF4 \<longleftrightarrow> unat c = 0xF4"
    "c < 0xA0 \<longleftrightarrow> unat c < 0xA0" "0xA0 \<le> c \<longleftrightarrow> 0xA0 \<le> unat c"
    "c < 0x90 \<longleftrightarrow> unat c < 0x90" "0x90 \<le> c \<longleftrightarrow> 0x90 \<le> unat c" for c :: u8
    by (simp_all add: word_less_nat_alt word_le_nat_alt word_unat_eq_iff)
  have "utf8_char s q r = Some (utf8_ranges (unat b # map unat cs))"
  proof -
    consider "unat b < 0xC2" | "0xC2 \<le> unat b" "unat b < 0xE0" | "0xE0 \<le> unat b" "unat b < 0xF0"
      | "0xF0 \<le> unat b" "unat b < 0xF5" | "0xF5 \<le> unat b"
      by linarith
    then show ?thesis
    proof cases
      case 1
      then show ?thesis by (simp add: utf8_char_def at' u Let_def)
    next
      case 2
      then show ?thesis
        using at' by (cases cs) (simp_all add: utf8_char_def u Let_def utf8_cont_nat(1) r)
    next
      case 3
      have "utf8_char s q r = Some None \<and> utf8_ranges (unat b # map unat cs) = None" if "r \<le> 2"
        using 3 that at'(1) by (auto simp: utf8_char_def u Let_def r)
      moreover have ?thesis if "2 < r"
      proof -
        have "cs \<noteq> []" using that r by auto
        then have "map unat cs ! 0 = unat (cs ! 0)" by simp
        with \<open>cs \<noteq> []\<close> 3 that at'(1-3) show ?thesis
          by (simp add: utf8_char_def u Let_def utf8_cont_nat(1)) (auto simp: r)
      qed
      ultimately show ?thesis by (metis not_le)
    next
      case 4
      have "utf8_char s q r = Some None \<and> utf8_ranges (unat b # map unat cs) = None" if "r \<le> 3"
        using 4 that at'(1) by (auto simp: utf8_char_def u Let_def r)
      moreover have ?thesis if "3 < r"
      proof -
        have "cs \<noteq> []" using that r by auto
        then have "map unat cs ! 0 = unat (cs ! 0)" by simp
        with \<open>cs \<noteq> []\<close> 4 that at' show ?thesis
          by (simp add: utf8_char_def u Let_def utf8_cont_nat(1)) (auto simp: r)
      qed
      ultimately show ?thesis by (metis not_le)
    next
      case 5
      then show ?thesis by (simp add: utf8_char_def at' u Let_def)
    qed
  qed
  then show ?thesis by (simp add: utf8_ranges_dec utf8_dec_def bs_def [symmetric] bs)
qed

lemma utf8_loop_eq:
  assumes "p + len \<le> length s"
  shows "utf8_loop s p i len = Some (dec_list utf8_dec (take (len - i) (drop (p + i) s)) \<noteq> None)"
proof (induction "len - i" arbitrary: i rule: less_induct)
  case less
  define bs where "bs = take (len - i) (drop (p + i) s)"
  show ?case
  proof (cases "i < len")
    case False
    then show ?thesis by (simp add: utf8_loop.simps)
  next
    case True
    have lbs: "length bs = len - i" using assms True by (simp add: bs_def)
    have drp: "take (len - (i + k)) (drop (p + (i + k)) s) = drop k bs" for k
      by (simp add: bs_def drop_take ac_simps)
    have IH: "utf8_loop s p (i + k) len = Some (dec_list utf8_dec (drop k bs) \<noteq> None)" if "0 < k" for k
      unfolding drp [symmetric] using True that by (intro less.hyps) simp
    have char: "utf8_char s (p + i) (len - i) = Some (map_option fst (utf8_dec bs))"
      using utf8_char_eq [of "p + i" "len - i" s] assms True by (simp add: bs_def)
    have slow: "(case utf8_char s (p + i) (len - i) of
          None \<Rightarrow> None | Some None \<Rightarrow> Some False | Some (Some k) \<Rightarrow> utf8_loop s p (i + k) len) =
        Some (dec_list utf8_dec bs \<noteq> None)"
    proof (cases "utf8_dec bs")
      case None
      moreover have "bs \<noteq> []" using lbs True by auto
      ultimately show ?thesis by (simp add: char dec_list_stuck)
    next
      case (Some kv)
      then obtain k v where kv: "utf8_dec bs = Some (k, v)" by (cases kv) auto
      then have "0 < k" using char utf8_char_pos [of s "p + i" "len - i" k] by simp
      then have "dec_list utf8_dec bs = map_option ((#) v) (dec_list utf8_dec (drop k bs))"
        using lbs True by (intro dec_list_step [of utf8_dec bs k v] kv) auto
      with IH [OF \<open>0 < k\<close>] show ?thesis by (simp add: char kv)
    qed
    show ?thesis
    proof (cases "8 \<le> len - i")
      case False
      with True slow show ?thesis unfolding bs_def [symmetric] by (subst utf8_loop.simps) simp
    next
      case long: True
      define ws where "ws = take 8 (drop (p + i) s)"
      have "take 8 bs = ws" using long by (simp add: ws_def bs_def min_def)
      then have ws: "length ws = 8" "load_le 8 s (p + i) = Some (le_word ws :: u64)" "bs = ws @ drop 8 bs"
        using long assms True append_take_drop_id [of 8 bs] by (auto simp: ws_def load_le_in)
      show ?thesis
      proof (cases "le_word ws AND swar_high = (0 :: u64)")
        case True
        then have "\<forall>b \<in> set ws. b < 0x80" using swar_high_zero [OF ws(1)] by simp
        then have "dec_list utf8_dec bs = None \<longleftrightarrow> dec_list utf8_dec (drop 8 bs) = None"
          by (subst ws(3)) (rule dec_list_ascii)
        with True ws(2) long IH [of 8] \<open>i < len\<close> show ?thesis
          unfolding bs_def [symmetric] by (subst utf8_loop.simps) (simp add: swar_high_def)
      next
        case False
        with slow ws(2) long \<open>i < len\<close> show ?thesis
          unfolding bs_def [symmetric] by (subst utf8_loop.simps) (simp add: swar_high_def)
      qed
    qed
  qed
qed

text \<open>\<open>is_utf8 bs\<close>: the encoding of some sequence of Unicode scalar values.\<close>

definition is_utf8 :: "bytes \<Rightarrow> bool" where
  "is_utf8 bs \<longleftrightarrow> (\<exists>cps. list_all unicode_scalar cps \<and> bs = concat (map utf8_enc cps))"

lemma is_utf8_dec: "is_utf8 bs \<longleftrightarrow> dec_list utf8_dec bs \<noteq> None"
  by (simp only: is_utf8_def not_None_eq utf8.dec_list_strict)

lemma utf8_valid_eq:
  "p + len \<le> length s \<Longrightarrow> utf8_valid s p len = Some (is_utf8 (take len (drop p s)))"
  using utf8_loop_eq [of p len s 0] by (simp add: utf8_valid_def is_utf8_dec)

subsection \<open>The view validator\<close>

text \<open>What a row's 16 bytes say, and when they are right.\<close>

definition view_ok :: "bytes \<Rightarrow> bytes list \<Rightarrow> bytes \<Rightarrow> nat \<Rightarrow> bool \<Rightarrow> nat \<Rightarrow> bool" where
  "view_ok views bufs buflens nbufs utf8 k =
     (let v = drop (16 * k) views; len = sint (val32 v 0) in
      0 \<le> len \<and>
      (if len \<le> 12 then utf8 \<longrightarrow> is_utf8 (take (nat len) (drop 4 v))
       else
         (let bi = sint (val32 v 2); off = sint (val32 v 3); payload = drop (nat off) (bufs ! nat bi) in
          0 \<le> bi \<and> bi < int nbufs \<and> 0 \<le> off \<and> off + len \<le> sint (val64 buflens (nat bi)) \<and>
          take 4 payload = take 4 (drop 4 v) \<and> (utf8 \<longrightarrow> is_utf8 (take (nat len) payload)))))"

lemma get_bit_at: "k < 8 * length buf \<Longrightarrow> map_option (\<lambda>b. b \<noteq> 0) (get_bit buf k) = Some (bit_at buf k)"
  by (simp add: get_bit_eq)

lemma view_ref_bad_eq:
  assumes "valid_fits valid off n" and "n * 16 \<le> length views" and "k < n"
    and "nbufs \<le> length bufs" and "nbufs * 8 \<le> length buflens"
    and "\<And>b. b < nbufs \<Longrightarrow> sint (val64 buflens b) \<le> int (length (bufs ! b))"
  shows "view_ref_bad views valid off bufs buflens nbufs utf8 k =
    Some (row_valid valid off k \<and> \<not> view_ok views bufs buflens nbufs utf8 k)"
proof -
  have live: "(case valid of None \<Rightarrow> Some True | Some m \<Rightarrow> map_option (\<lambda>b. b \<noteq> 0) (get_bit m (off + k))) =
      Some (row_valid valid off k)"
    using assms(1,3) by (cases valid) (simp_all add: row_valid_def valid_fits_def get_bit_at)
  define v where "v = drop (16 * k) views"
  have room: "16 * k + 16 \<le> length views" using assms(2,3) by linarith
  have ld: "load_le 4 views (16 * k) = Some (val32 v 0)" "load_le 4 views (16 * k + 8) = Some (val32 v 2)"
    "load_le 4 views (16 * k + 12) = Some (val32 v 3)" "load_block views (16 * k + 4) 4 = Some (take 4 (drop 4 v))"
    using room by (simp_all add: load_le_in load_block_in v_def val32_def ac_simps)
  have inl: "utf8_valid views (16 * k + 4) (nat len) = Some (is_utf8 (take (nat len) (drop 4 v)))" if "len \<le> 12" for len
    using room that by (subst utf8_valid_eq) (simp_all add: v_def ac_simps)
  show ?thesis
  proof (cases "row_valid valid off k")
    case False
    then show ?thesis by (simp add: view_ref_bad_def live)
  next
    case True
    define len where "len = sint (val32 v 0)"
    define bi where "bi = sint (val32 v 2)"
    define ofs where "ofs = sint (val32 v 3)"
    note defs = view_ref_bad_def live ld v_def [symmetric] len_def [symmetric] bi_def [symmetric]
      ofs_def [symmetric] view_ok_def Let_def True
    consider "len < 0" | "0 \<le> len" "len \<le> 12" | "12 < len" "bi < 0 \<or> int nbufs \<le> bi \<or> ofs < 0"
      | "12 < len" "0 \<le> bi" "bi < int nbufs" "0 \<le> ofs" by linarith
    then show ?thesis
    proof cases
      case 4
      then have b: "nat bi < nbufs" by linarith
      then have "nat bi * 8 + 8 \<le> length buflens" using assms(5) by linarith
      then have bl: "ld_i64 buflens (nat bi) = Some (val64 buflens (nat bi))" by (rule ld_eq)
      have buf: "load bufs (nat bi) = Some (bufs ! nat bi)" using b assms(4) by (simp add: load_in)
      show ?thesis
      proof (cases "sint (val64 buflens (nat bi)) < ofs + len")
        case True
        then show ?thesis using 4 by (simp add: defs bl)
      next
        case False
        then have fits: "nat ofs + nat len \<le> length (bufs ! nat bi)" using assms(6) [OF b] 4 by linarith
        moreover have "4 \<le> nat len" using 4 by linarith
        ultimately have "load_block (bufs ! nat bi) (nat ofs) 4 = Some (take 4 (drop (nat ofs) (bufs ! nat bi)))"
          by (intro load_block_in) linarith
        then show ?thesis using 4 False by (simp add: defs bl buf utf8_valid_eq [OF fits])
      qed
    qed (auto simp: defs inl)
  qed
qed

lemma view_refs_loop_eq:
  assumes "\<And>k. k < n \<Longrightarrow> view_ref_bad views valid off bufs buflens nbufs utf8 k = Some (P k)"
  shows "view_refs_loop views valid off bufs buflens nbufs utf8 i n = Some (report (first_idx P i n))"
proof (induction "n - i" arbitrary: i)
  case (Suc d)
  then have "i < n" "d = n - Suc i" by auto
  then show ?case
    using Suc.hyps(1) [of "Suc i"]
    by (subst view_refs_loop.simps) (simp add: assms first_idx_step report_def)
qed (simp add: view_refs_loop.simps report_def)

text \<open>C27: the view validator reports the first valid row that is not right: a negative length, a
  reference outside its buffer, a prefix that differs from the payload or, when asked, bytes that
  are not UTF-8.  It never reads outside the views or the buffers.\<close>

theorem view_refs_validated:
  assumes "valid_fits valid off n" and "n * 16 \<le> length views"
    and "nbufs \<le> length bufs" and "nbufs * 8 \<le> length buflens"
    and "\<And>b. b < nbufs \<Longrightarrow> sint (val64 buflens b) \<le> int (length (bufs ! b))"
  shows "reports_first (hs_columnar_view_refs views n valid off bufs buflens nbufs utf8) n
    (\<lambda>k. row_valid valid off k \<and> \<not> view_ok views bufs buflens nbufs utf8 k)"
proof -
  have "hs_columnar_view_refs views n valid off bufs buflens nbufs utf8 =
      Some (report (first_idx (\<lambda>k. row_valid valid off k \<and> \<not> view_ok views bufs buflens nbufs utf8 k) 0 n))"
    unfolding hs_columnar_view_refs_def
    by (rule view_refs_loop_eq) (rule view_ref_bad_eq [OF assms(1,2) _ assms(3-5)])
  then show ?thesis by (simp add: reports_first_idx)
qed

theorem view_refs_validated_witness:
  "reports_first (hs_columnar_view_refs [2, 0, 0, 0, 0xC3, 0xA9, 0, 0, 0, 0, 0, 0, 0, 0, 0, 0] 1 None 0 [] [] 0 True) 1
    (\<lambda>k. row_valid None 0 k \<and>
       \<not> view_ok [2, 0, 0, 0, 0xC3, 0xA9, 0, 0, 0, 0, 0, 0, 0, 0, 0, 0] [] [] 0 True k) \<and>
   hs_columnar_view_refs [2, 0, 0, 0, 0xC3, 0xA9, 0, 0, 0, 0, 0, 0, 0, 0, 0, 0] 1 None 0 [] [] 0 True = Some (- 1)"
proof (rule conjI)
  show "hs_columnar_view_refs [2, 0, 0, 0, 0xC3, 0xA9, 0, 0, 0, 0, 0, 0, 0, 0, 0, 0] 1 None 0 [] [] 0 True = Some (- 1)"
    by code_simp
qed (rule view_refs_validated, simp_all add: valid_fits_def)

end
