(* ===== verification/Columnar_Take.thy ===== *)
theory Columnar_Take
  imports Columnar_Valid Bitmap_Copy
begin

text \<open>
  Copies and takes of \<open>columnar_simd.c\<close>: the bulk copy, the fixed-width gathers, and the two passes of
  a variable-length take (new offsets, then the bytes).  The main result is about the two passes
  together: row \<open>k\<close> of the result is row \<open>idx[k]\<close> of the source.
\<close>

subsection \<open>Bulk copy\<close>

function memcpy_blocks :: "bytes \<Rightarrow> bytes \<Rightarrow> nat \<Rightarrow> nat \<Rightarrow> (nat \<times> bytes) option" where
  "memcpy_blocks src dst i len =
     (if 16 \<le> len - i then do {
        v \<leftarrow> simde_mm_loadu_si128 src i;
        dst \<leftarrow> simde_mm_storeu_si128 dst i v;
        memcpy_blocks src dst (i + 16) len
      }
      else Some (i, dst))"
  by pat_completeness auto
termination
  by (relation "measure (\<lambda>(src, dst, i, len). len - i)") auto

declare memcpy_blocks.simps [simp del]

definition hs_columnar_memcpy_fast :: "bytes \<Rightarrow> bytes \<Rightarrow> nat \<Rightarrow> bytes option" where
  "hs_columnar_memcpy_fast src dst len = do {
     (i, dst) \<leftarrow> memcpy_blocks src dst 0 len;
     (if i < len then do { xs \<leftarrow> load_block src i (len - i); store_block dst i xs } else Some dst)
   }"

subsection \<open>Gathers\<close>

text \<open>\<open>(size_t)ld_i64(idx, k) * W\<close> is a 64-bit product.\<close>

function gather_loop :: "nat \<Rightarrow> bytes \<Rightarrow> bytes \<Rightarrow> bytes \<Rightarrow> nat \<Rightarrow> nat \<Rightarrow> bytes option" where
  "gather_loop W dst src idx k n =
     (if k < n then do {
        j \<leftarrow> ld_i64 idx k;
        xs \<leftarrow> load_block src (unat (j * of_nat W)) W;
        dst \<leftarrow> store_block dst (k * W) xs;
        gather_loop W dst src idx (k + 1) n
      }
      else Some dst)"
  by pat_completeness auto
termination
  by (relation "measure (\<lambda>(W, dst, src, idx, k, n). n - k)") auto

declare gather_loop.simps [simp del]

definition DEF_GATHER :: "nat \<Rightarrow> bytes \<Rightarrow> bytes \<Rightarrow> bytes \<Rightarrow> nat \<Rightarrow> bytes option" where
  "DEF_GATHER W dst src idx n = gather_loop W dst src idx 0 n"

definition hs_columnar_gather_1 :: "bytes \<Rightarrow> bytes \<Rightarrow> bytes \<Rightarrow> nat \<Rightarrow> bytes option" where
  "hs_columnar_gather_1 = DEF_GATHER 1"

definition hs_columnar_gather_2 :: "bytes \<Rightarrow> bytes \<Rightarrow> bytes \<Rightarrow> nat \<Rightarrow> bytes option" where
  "hs_columnar_gather_2 = DEF_GATHER 2"

definition hs_columnar_gather_4 :: "bytes \<Rightarrow> bytes \<Rightarrow> bytes \<Rightarrow> nat \<Rightarrow> bytes option" where
  "hs_columnar_gather_4 = DEF_GATHER 4"

definition hs_columnar_gather_8 :: "bytes \<Rightarrow> bytes \<Rightarrow> bytes \<Rightarrow> nat \<Rightarrow> bytes option" where
  "hs_columnar_gather_8 = DEF_GATHER 8"

definition hs_columnar_gather_16 :: "bytes \<Rightarrow> bytes \<Rightarrow> bytes \<Rightarrow> nat \<Rightarrow> bytes option" where
  "hs_columnar_gather_16 = DEF_GATHER 16"

subsection \<open>Variable-length take, pass 1\<close>

text \<open>A 64-bit signed value; overflow is undefined in C.\<close>

definition int64 :: "int \<Rightarrow> int option" where
  "int64 x = (if - (2 ^ 63) \<le> x \<and> x < 2 ^ 63 then Some x else None)"

function take_offsets_i32_loop :: "bytes \<Rightarrow> bytes \<Rightarrow> bytes \<Rightarrow> nat \<Rightarrow> nat \<Rightarrow> int \<Rightarrow> (int \<times> bytes) option" where
  "take_offsets_i32_loop dstOffs srcOffs idx k n acc =
     (if k < n then do {
        jw \<leftarrow> ld_i64 idx k;
        let j = unat jw;
        b \<leftarrow> ld_i32 srcOffs (j + 1);
        a \<leftarrow> ld_i32 srcOffs j;
        acc \<leftarrow> int64 (acc + (sint b - sint a));
        (if 2 ^ 31 - 1 < acc then Some (-1, dstOffs)
         else do {
           dstOffs \<leftarrow> st_i32 dstOffs (k + 1) (word_of_int acc);
           take_offsets_i32_loop dstOffs srcOffs idx (k + 1) n acc
         })
      }
      else Some (acc, dstOffs))"
  by pat_completeness auto
termination
  by (relation "measure (\<lambda>(dstOffs, srcOffs, idx, k, n, acc). n - k)") auto

definition hs_columnar_take_offsets_i32 :: "bytes \<Rightarrow> bytes \<Rightarrow> bytes \<Rightarrow> nat \<Rightarrow> (int \<times> bytes) option" where
  "hs_columnar_take_offsets_i32 dstOffs srcOffs idx n = do {
     dstOffs \<leftarrow> st_i32 dstOffs 0 0;
     take_offsets_i32_loop dstOffs srcOffs idx 0 n 0
   }"

text \<open>Here \<open>int64\<close> is \<open>__builtin_sub_overflow\<close> and \<open>__builtin_add_overflow\<close>: \<open>None\<close> is the overflow
  flag, which is tested.\<close>

function take_offsets_i64_loop :: "bytes \<Rightarrow> bytes \<Rightarrow> bytes \<Rightarrow> nat \<Rightarrow> nat \<Rightarrow> int \<Rightarrow> (int \<times> bytes) option" where
  "take_offsets_i64_loop dstOffs srcOffs idx k n acc =
     (if k < n then do {
        jw \<leftarrow> ld_i64 idx k;
        let j = unat jw;
        b \<leftarrow> ld_i64 srcOffs (j + 1);
        a \<leftarrow> ld_i64 srcOffs j;
        (case Option.bind (int64 (sint b - sint a)) (\<lambda>len. int64 (acc + len)) of
           None \<Rightarrow> Some (-1, dstOffs)
         | Some acc \<Rightarrow> do {
             dstOffs \<leftarrow> st_i64 dstOffs (k + 1) (word_of_int acc);
             take_offsets_i64_loop dstOffs srcOffs idx (k + 1) n acc
           })
      }
      else Some (acc, dstOffs))"
  by pat_completeness auto
termination
  by (relation "measure (\<lambda>(dstOffs, srcOffs, idx, k, n, acc). n - k)") auto

declare take_offsets_i32_loop.simps [simp del] take_offsets_i64_loop.simps [simp del]

definition hs_columnar_take_offsets_i64 :: "bytes \<Rightarrow> bytes \<Rightarrow> bytes \<Rightarrow> nat \<Rightarrow> (int \<times> bytes) option" where
  "hs_columnar_take_offsets_i64 dstOffs srcOffs idx n = do {
     dstOffs \<leftarrow> st_i64 dstOffs 0 0;
     take_offsets_i64_loop dstOffs srcOffs idx 0 n 0
   }"

subsection \<open>Variable-length take, pass 2\<close>

text \<open>\<open>(size_t)LD(..)\<close> extends the sign; the length is a \<open>size_t\<close> difference.\<close>

function take_bytes_loop ::
    "(bytes \<Rightarrow> nat \<Rightarrow> 'a::len word option) \<Rightarrow> bytes \<Rightarrow> bytes \<Rightarrow> bytes \<Rightarrow> bytes \<Rightarrow> nat \<Rightarrow> nat \<Rightarrow> nat \<Rightarrow> bytes option" where
  "take_bytes_loop LD dst srcOffs src idx pos k n =
     (if k < n then do {
        jw \<leftarrow> ld_i64 idx k;
        let j = unat jw;
        va \<leftarrow> LD srcOffs j;
        vb \<leftarrow> LD srcOffs (j + 1);
        let a = (scast va :: u64);
        let len = unat ((scast vb :: u64) - a);
        (if len \<noteq> 0 then do {
           xs \<leftarrow> load_block src (unat a) len;
           dst \<leftarrow> store_block dst pos xs;
           take_bytes_loop LD dst srcOffs src idx (pos + len) (k + 1) n
         }
         else take_bytes_loop LD dst srcOffs src idx pos (k + 1) n)
      }
      else Some dst)"
  by pat_completeness auto
termination
  by (relation "measure (\<lambda>(LD, dst, srcOffs, src, idx, pos, k, n). n - k)") auto

declare take_bytes_loop.simps [simp del]

definition DEF_TAKE_BYTES ::
    "(bytes \<Rightarrow> nat \<Rightarrow> 'a::len word option) \<Rightarrow> bytes \<Rightarrow> bytes \<Rightarrow> bytes \<Rightarrow> bytes \<Rightarrow> nat \<Rightarrow> bytes option" where
  "DEF_TAKE_BYTES LD dst srcOffs src idx n = take_bytes_loop LD dst srcOffs src idx 0 0 n"

definition hs_columnar_take_bytes_i32 :: "bytes \<Rightarrow> bytes \<Rightarrow> bytes \<Rightarrow> bytes \<Rightarrow> nat \<Rightarrow> bytes option" where
  "hs_columnar_take_bytes_i32 = DEF_TAKE_BYTES ld_i32"

definition hs_columnar_take_bytes_i64 :: "bytes \<Rightarrow> bytes \<Rightarrow> bytes \<Rightarrow> bytes \<Rightarrow> nat \<Rightarrow> bytes option" where
  "hs_columnar_take_bytes_i64 = DEF_TAKE_BYTES ld_i64"

subsection \<open>The copies\<close>

lemma take_drop_split: "i + a \<le> j \<Longrightarrow> take (j - i) (drop i xs) = take a (drop i xs) @ take (j - (i + a)) (drop (i + a) xs)"
  using take_add [of a "j - (i + a)" "drop i xs"] by (simp add: ac_simps)

lemma memcpy_blocks_eq:
  assumes "len \<le> length src"
  shows "i \<le> len \<Longrightarrow> len \<le> length dst \<Longrightarrow> \<exists>j. memcpy_blocks src dst i len =
      Some (j, take i dst @ take (j - i) (drop i src) @ drop j dst) \<and> i \<le> j \<and> j \<le> len"
proof (induction "len - i" arbitrary: i dst rule: less_induct)
  case less
  show ?case
  proof (cases "16 \<le> len - i")
    case False
    then show ?thesis using less.prems by (subst memcpy_blocks.simps) simp
  next
    case True
    define xs where "xs = take 16 (drop i src)"
    define dst1 where "dst1 = take i dst @ xs @ drop (i + 16) dst"
    have xs: "length xs = 16" "simde_mm_loadu_si128 src i = Some xs"
      using True assms by (simp_all add: xs_def simde_mm_loadu_si128_def load_block_in)
    have st: "simde_mm_storeu_si128 dst i xs = Some dst1"
      using True less.prems xs(1) by (simp add: simde_mm_storeu_si128_def store_block_in dst1_def)
    obtain j where j: "memcpy_blocks src dst1 (i + 16) len =
        Some (j, take (i + 16) dst1 @ take (j - (i + 16)) (drop (i + 16) src) @ drop j dst1)" "i + 16 \<le> j" "j \<le> len"
    proof -
      have "len \<le> length dst1" using True less.prems xs(1) by (simp add: dst1_def)
      moreover have "i + 16 \<le> len" "len - (i + 16) < len - i" using True less.prems by linarith+
      ultimately show thesis using less.hyps [of "i + 16" dst1] that by blast
    qed
    have "take (i + 16) dst1 = take i dst @ xs" "drop j dst1 = drop j dst"
      using True less.prems xs(1) j(2) by (simp_all add: dst1_def min_def)
    then have "memcpy_blocks src dst i len = Some (j, take i dst @ take (j - i) (drop i src) @ drop j dst)"
      using True xs(2) st j by (subst memcpy_blocks.simps) (simp add: take_drop_split [OF j(2)] xs_def)
    then show ?thesis using j by auto
  qed
qed

lemma memcpy_fast_eq:
  assumes "len \<le> length src" and "len \<le> length dst"
  shows "hs_columnar_memcpy_fast src dst len = Some (take len src @ drop len dst)"
proof -
  obtain j where j: "memcpy_blocks src dst 0 len = Some (j, take j src @ drop j dst)" "j \<le> len"
    using memcpy_blocks_eq [OF assms(1), of 0 dst] assms(2) by auto
  have "take len src = take j src @ take (len - j) (drop j src)"
    using take_drop_split [of 0 j len src] j(2) by simp
  then have split: "take len src @ drop len dst = take j src @ take (len - j) (drop j src) @ drop len dst" by simp
  define d where "d = take j src @ drop j dst"
  have d: "length d = length dst" "take j d = take j src" "drop len d = drop len dst"
    using j(2) assms by (simp_all add: d_def)
  have run: "hs_columnar_memcpy_fast src dst len =
      (if j < len then do { xs \<leftarrow> load_block src j (len - j); store_block d j xs } else Some d)"
    by (simp add: hs_columnar_memcpy_fast_def j(1) d_def)
  show ?thesis
  proof (cases "j < len")
    case True
    have "load_block src j (len - j) = Some (take (len - j) (drop j src))"
      using j(2) assms by (intro load_block_in) simp
    moreover have "store_block d j (take (len - j) (drop j src)) =
        Some (take j d @ take (len - j) (drop j src) @ drop len d)"
      using j(2) assms d(1) store_block_in [of j "take (len - j) (drop j src)" d] by simp
    ultimately show ?thesis using True by (simp only: run split d if_True option.simps bind.bind_lunit)
  next
    case False
    with j(2) show ?thesis by (simp add: run d_def)
  qed
qed

text \<open>Element \<open>k\<close> of an array of \<open>W\<close>-byte elements.\<close>

definition elem :: "nat \<Rightarrow> bytes \<Rightarrow> nat \<Rightarrow> bytes" where
  "elem W buf k = take W (drop (k * W) buf)"

abbreviation idx_nat :: "bytes \<Rightarrow> nat \<Rightarrow> nat" where
  "idx_nat idx k \<equiv> unat (val64 idx k)"

lemma unat_scaled: "unat (w :: u64) * W + W \<le> m \<Longrightarrow> m < 2 ^ 64 \<Longrightarrow> unat (w * of_nat W) = unat w * W"
  by (simp add: unat_word_ariths unat_of_nat)

text \<open>One sequential write: bytes \<open>[p, p + length xs)\<close> of a buffer whose first \<open>p\<close> bytes are written.\<close>

lemma store_block_at:
  assumes "p + length xs \<le> length dst"
  shows "store_block dst p xs = Some (take p dst @ xs @ drop (p + length xs) dst)"
  by (rule store_block_in [OF assms])

lemma gather_loop_eq:
  assumes "n * 8 \<le> length idx" and "length src < 2 ^ 64"
    and "\<And>k. k < n \<Longrightarrow> idx_nat idx k * W + W \<le> length src"
  shows "k \<le> n \<Longrightarrow> n * W \<le> length dst \<Longrightarrow> gather_loop W dst src idx k n =
    Some (take (k * W) dst @ concat (map (\<lambda>i. elem W src (idx_nat idx i)) [k..<n]) @ drop (n * W) dst)"
proof (induction "n - k" arbitrary: k dst)
  case 0
  then show ?case by (simp add: gather_loop.simps)
next
  case (Suc r)
  have k: "k < n" "r = n - Suc k" using Suc(2) by simp_all
  define x where "x = elem W src (idx_nat idx k)"
  have room: "k * W + W \<le> n * W" using mult_le_mono1 [of "Suc k" n W] k(1) by simp
  have src: "load_block src (unat (val64 idx k * of_nat W)) W = Some x" and x: "length x = W"
    using assms(2) assms(3) [OF k(1)] by (simp_all add: unat_scaled load_block_in x_def elem_def)
  define dst1 where "dst1 = take (k * W) dst @ x @ drop (k * W + W) dst"
  have st: "store_block dst (k * W) x = Some dst1"
    using room Suc.prems by (simp add: store_block_in x dst1_def)
  have p: "min (length dst) (k * W) = k * W" "k * W + W \<le> length dst" using room Suc.prems by linarith+
  have d: "length dst1 = length dst" "take (Suc k * W) dst1 = take (k * W) dst @ x"
      "drop (n * W) dst1 = drop (n * W) dst"
    using room Suc.prems x p by (simp_all add: dst1_def)
  have "gather_loop W dst1 src idx (Suc k) n =
      Some (take (k * W) dst @ x @ concat (map (\<lambda>i. elem W src (idx_nat idx i)) [Suc k..<n]) @ drop (n * W) dst)"
    using Suc.hyps(1) [OF k(2), of dst1] k(1) Suc.prems d by simp
  moreover have "ld_i64 idx k = Some (val64 idx k)" using k(1) assms(1) by (intro ld_eq) linarith
  ultimately show ?case
    using k(1) src st by (subst gather_loop.simps) (simp add: x_def upt_conv_Cons)
qed

text \<open>Gathering \<open>n\<close> elements of any width writes exactly the selected elements, in order.\<close>

theorem gathers_correct:
  assumes "n * 8 \<le> length idx" and "length src < 2 ^ 64"
    and "\<And>k. k < n \<Longrightarrow> idx_nat idx k * W + W \<le> length src" and "n * W \<le> length dst"
  shows "DEF_GATHER W dst src idx n =
    Some (concat (map (\<lambda>k. elem W src (idx_nat idx k)) [0..<n]) @ drop (n * W) dst)"
  using gather_loop_eq [OF assms(1-3) le0 assms(4)] by (simp add: DEF_GATHER_def)

theorem gathers_correct_witness:
  "DEF_GATHER 2 [0, 0, 0, 0, 9] [1, 2, 3, 4] [1, 0, 0, 0, 0, 0, 0, 0, 0, 0, 0, 0, 0, 0, 0, 0] 2 =
    Some (concat (map (\<lambda>k. elem 2 [1, 2, 3, 4] (idx_nat [1, 0, 0, 0, 0, 0, 0, 0, 0, 0, 0, 0, 0, 0, 0, 0] k)) [0..<2]) @
      drop (2 * 2) [0, 0, 0, 0, 9]) \<and>
   DEF_GATHER 2 [0, 0, 0, 0, 9] [1, 2, 3, 4] [1, 0, 0, 0, 0, 0, 0, 0, 0, 0, 0, 0, 0, 0, 0, 0] 2 = Some [3, 4, 1, 2, 9]"
proof (rule conjI)
  show "DEF_GATHER 2 [0, 0, 0, 0, 9] [1, 2, 3, 4] [1, 0, 0, 0, 0, 0, 0, 0, 0, 0, 0, 0, 0, 0, 0, 0] 2 = Some [3, 4, 1, 2, 9]"
    by code_simp
  show "DEF_GATHER 2 [0, 0, 0, 0, 9] [1, 2, 3, 4] [1, 0, 0, 0, 0, 0, 0, 0, 0, 0, 0, 0, 0, 0, 0, 0] 2 =
    Some (concat (map (\<lambda>k. elem 2 [1, 2, 3, 4] (idx_nat [1, 0, 0, 0, 0, 0, 0, 0, 0, 0, 0, 0, 0, 0, 0, 0] k)) [0..<2]) @
      drop (2 * 2) [0, 0, 0, 0, 9])"
    by (rule gathers_correct) (auto simp: val64_def less_2_cases_iff)
qed

subsection \<open>Rows of a variable-length array\<close>

text \<open>Row \<open>k\<close> of an array with offsets \<open>x\<close>, and what the caller has validated.\<close>

definition row :: "(nat \<Rightarrow> int) \<Rightarrow> bytes \<Rightarrow> nat \<Rightarrow> bytes" where
  "row x data k = take (nat (x (k + 1) - x k)) (drop (nat (x k)) data)"

definition row_len :: "(nat \<Rightarrow> int) \<Rightarrow> nat \<Rightarrow> int" where
  "row_len x k = x (k + 1) - x k"

definition row_in :: "(nat \<Rightarrow> int) \<Rightarrow> bytes \<Rightarrow> nat \<Rightarrow> bool" where
  "row_in x data k \<longleftrightarrow> 0 \<le> x k \<and> x k \<le> x (k + 1) \<and> x (k + 1) \<le> int (length data)"

lemma row_length: "row_in x data k \<Longrightarrow> int (length (row x data k)) = row_len x k"
  by (auto simp: row_def row_in_def row_len_def)

text \<open>The sum of the lengths of the first \<open>k\<close> selected rows.\<close>

definition taken :: "(nat \<Rightarrow> int) \<Rightarrow> bytes \<Rightarrow> nat \<Rightarrow> int" where
  "taken x idx k = (\<Sum>i<k. row_len x (idx_nat idx i))"

lemma taken_Suc [simp]: "taken x idx (Suc k) = taken x idx k + row_len x (idx_nat idx k)"
  and taken_0 [simp]: "taken x idx 0 = 0"
  by (simp_all add: taken_def)

lemma taken_mono:
  assumes "\<And>i. i < n \<Longrightarrow> 0 \<le> row_len x (idx_nat idx i)"
  shows "j \<le> k \<Longrightarrow> k \<le> n \<Longrightarrow> taken x idx j \<le> taken x idx k"
proof (induction "k - j" arbitrary: k)
  case (Suc d)
  then obtain k' where k: "k = Suc k'" "d = k' - j" "j \<le> k'" by (cases k) auto
  then show ?case using Suc.hyps(1) [of k'] Suc.prems assms [of k'] by simp
qed simp

text \<open>The interface of pass 1: what one iteration does, and what its store does to the offsets.\<close>

locale take_pass =
  fixes ST :: "bytes \<Rightarrow> nat \<Rightarrow> 'a::len word \<Rightarrow> bytes option"
    and val :: "bytes \<Rightarrow> nat \<Rightarrow> 'a word"
    and W :: nat
    and loop :: "bytes \<Rightarrow> bytes \<Rightarrow> bytes \<Rightarrow> nat \<Rightarrow> nat \<Rightarrow> int \<Rightarrow> (int \<times> bytes) option"
  assumes stop: "n \<le> k \<Longrightarrow> loop d s idx k n acc = Some (acc, d)"
    and step: "k < n \<Longrightarrow> k * 8 + 8 \<le> length idx \<Longrightarrow> j = idx_nat idx k \<Longrightarrow> (j + 2) * W \<le> length s \<Longrightarrow>
      0 \<le> acc \<Longrightarrow> acc < 2 ^ (LENGTH('a) - 1) \<Longrightarrow> 0 \<le> sint (val s j) \<Longrightarrow> sint (val s j) \<le> sint (val s (j + 1)) \<Longrightarrow>
      acc' = acc + (sint (val s (j + 1)) - sint (val s j)) \<Longrightarrow>
      loop d s idx k n acc = (if 2 ^ (LENGTH('a) - 1) \<le> acc' then Some (- 1, d)
        else Option.bind (ST d (k + 1) (word_of_int acc')) (\<lambda>d. loop d s idx (k + 1) n acc'))"
    and store_val: "(k + 1) * W \<le> length d \<Longrightarrow> \<exists>d'. ST d k w = Some d' \<and> length d' = length d \<and>
      (\<forall>i. (i + 1) * W \<le> length d \<longrightarrow> val d' i = (if i = k then w else val d i))"
begin

definition valid_rows :: "bytes \<Rightarrow> bytes \<Rightarrow> nat \<Rightarrow> bool" where
  "valid_rows s idx n \<longleftrightarrow> n * 8 \<le> length idx \<and> (\<forall>k<n. let j = idx_nat idx k in
     (j + 2) * W \<le> length s \<and> 0 \<le> sint (val s j) \<and> sint (val s j) \<le> sint (val s (j + 1)))"

lemma pass_eq:
  assumes "valid_rows s idx n" and "\<And>i. x i = sint (val s i)"
  shows "k \<le> n \<Longrightarrow> (n + 1) * W \<le> length d \<Longrightarrow> taken x idx k < 2 ^ (LENGTH('a) - 1) \<Longrightarrow>
    (\<forall>i\<le>k. sint (val d i) = taken x idx i) \<Longrightarrow>
    \<exists>d'. length d' = length d \<and>
      (if taken x idx n < 2 ^ (LENGTH('a) - 1)
       then loop d s idx k n (taken x idx k) = Some (taken x idx n, d') \<and> (\<forall>i\<le>n. sint (val d' i) = taken x idx i)
       else loop d s idx k n (taken x idx k) = Some (- 1, d'))"
proof (induction "n - k" arbitrary: k d)
  case 0
  then show ?case using stop [of n k d s idx "taken x idx k"] by auto
next
  case (Suc r)
  have k: "k < n" "r = n - Suc k" using Suc(2) by simp_all
  have len: "0 \<le> row_len x (idx_nat idx i)" if "i < n" for i
    using that assms by (simp add: valid_rows_def row_len_def Let_def)
  have nonneg: "0 \<le> taken x idx k" using taken_mono [OF len, of n 0 k] k(1) by simp
  have bounds: "k * 8 + 8 \<le> length idx" "(idx_nat idx k + 2) * W \<le> length s" "0 \<le> sint (val s (idx_nat idx k))"
    "sint (val s (idx_nat idx k)) \<le> sint (val s (idx_nat idx k + 1))"
    using assms(1) k(1) by (auto simp: valid_rows_def Let_def)
  have eq: "taken x idx (Suc k) = taken x idx k + (sint (val s (idx_nat idx k + 1)) - sint (val s (idx_nat idx k)))"
    by (simp add: row_len_def assms(2))
  have run: "loop d s idx k n (taken x idx k) = (if 2 ^ (LENGTH('a) - 1) \<le> taken x idx (Suc k) then Some (- 1, d)
      else Option.bind (ST d (k + 1) (word_of_int (taken x idx (Suc k)))) (\<lambda>d. loop d s idx (k + 1) n (taken x idx (Suc k))))"
    by (rule step [OF k(1) bounds(1) refl bounds(2) nonneg Suc.prems(3) bounds(3,4) eq])
  have le: "taken x idx (Suc k) \<le> taken x idx n" using taken_mono [OF len, of n "Suc k" n] k(1) by simp
  show ?case
  proof (cases "2 ^ (LENGTH('a) - 1) \<le> taken x idx (Suc k)")
    case True
    then show ?thesis using le run by (intro exI [of _ d]) simp
  next
    case False
    define w where "w = (word_of_int (taken x idx (Suc k)) :: 'a word)"
    have "(k + 1 + 1) * W \<le> length d" using Suc.prems(2) mult_le_mono1 [of "k + 2" "n + 1" W] k(1) by simp
    then obtain d1 where d1: "ST d (k + 1) w = Some d1" "length d1 = length d"
        "\<forall>i. (i + 1) * W \<le> length d \<longrightarrow> val d1 i = (if i = k + 1 then w else val d i)"
      using store_val [of "k + 1" d w] by blast
    have w: "sint w = taken x idx (Suc k)"
      unfolding w_def using False taken_mono [OF len, of n 0 "Suc k"] k(1)
      by (subst signed_of_int) (simp add: signed_take_bit_int_eq_self not_le)
    have "\<forall>i\<le>Suc k. sint (val d1 i) = taken x idx i"
    proof (intro allI impI)
      fix i assume i: "i \<le> Suc k"
      then have "i \<le> n" using k(1) by linarith
      then have "(i + 1) * W \<le> length d"
        by (intro order_trans [OF mult_le_mono1 Suc.prems(2)]) simp
      then show "sint (val d1 i) = taken x idx i"
        using d1(3) i w Suc.prems(4) by (cases "i = Suc k") simp_all
    qed
    then obtain d2 where "length d2 = length d1"
       "if taken x idx n < 2 ^ (LENGTH('a) - 1)
         then loop d1 s idx (Suc k) n (taken x idx (Suc k)) = Some (taken x idx n, d2) \<and> (\<forall>i\<le>n. sint (val d2 i) = taken x idx i)
         else loop d1 s idx (Suc k) n (taken x idx (Suc k)) = Some (- 1, d2)"
      using Suc.hyps(1) [OF k(2), of d1] k(1) Suc.prems(2) False d1(2) by auto
    then show ?thesis using run False d1(1,2) by (intro exI [of _ d2]) (simp add: w_def split: if_splits)
  qed
qed

end

text \<open>Stores into an array of \<open>W\<close>-byte elements.\<close>

lemma store_elem:
  assumes "(k + 1) * W \<le> length d" and "length xs = W"
  shows "\<exists>d'. store_block d (k * W) xs = Some d' \<and> length d' = length d \<and>
    (\<forall>i. (i + 1) * W \<le> length d \<longrightarrow> elem W d' i = (if i = k then xs else elem W d i))"
proof -
  have "k * W + length xs \<le> length d" using assms by simp
  then obtain d' where st: "store_block d (k * W) xs = Some d'" using store_block_in by blast
  note f = store_block_frame [OF st] and len = store_block_length [OF st]
  have "elem W d' i = (if i = k then xs else elem W d i)" if "(i + 1) * W \<le> length d" for i
  proof (cases "i = k")
    case True
    then show ?thesis using store_block_written [OF st] assms(2) by (simp add: elem_def)
  next
    case False
    then have "i + 1 \<le> k \<or> k + 1 \<le> i" by linarith
    then have "(i + 1) * W \<le> k * W \<or> (k + 1) * W \<le> i * W" using mult_le_mono1 by blast
    then have "elem W d' i = elem W d i"
      unfolding elem_def using that assms(2) by (intro frame_block [OF f]) auto
    with False show ?thesis by simp
  qed
  with st len show ?thesis by blast
qed

lemma val_elem: "val32 d k = le_word (elem 4 d k)" "val64 d k = le_word (elem 8 d k)"
  by (simp_all add: val32_def val64_def elem_def)

lemma st_i32_val:
  assumes "(k + 1) * 4 \<le> length d"
  shows "\<exists>d'. st_i32 d k w = Some d' \<and> length d' = length d \<and>
    (\<forall>i. (i + 1) * 4 \<le> length d \<longrightarrow> val32 d' i = (if i = k then w else val32 d i))"
  using store_elem [OF assms, of "le_bytes 4 w"]
  by (auto simp: st_i32_def store_le_def val_elem le_word_le_bytes)

lemma st_i64_val:
  assumes "(k + 1) * 8 \<le> length d"
  shows "\<exists>d'. st_i64 d k w = Some d' \<and> length d' = length d \<and>
    (\<forall>i. (i + 1) * 8 \<le> length d \<longrightarrow> val64 d' i = (if i = k then w else val64 d i))"
  using store_elem [OF assms, of "le_bytes 8 w"]
  by (auto simp: st_i64_def store_le_def val_elem le_word_le_bytes)

interpretation take32: take_pass st_i32 val32 4 take_offsets_i32_loop
proof
  fix k n j :: nat and idx s d :: bytes and acc acc' :: int
  assume k: "k < n" "k * 8 + 8 \<le> length idx" and j: "j = idx_nat idx k" "(j + 2) * 4 \<le> length s"
    and acc: "0 \<le> acc" "acc < 2 ^ (LENGTH(32) - 1)" and x: "0 \<le> sint (val32 s j)" "sint (val32 s j) \<le> sint (val32 s (j + 1))"
    and acc': "acc' = acc + (sint (val32 s (j + 1)) - sint (val32 s j))"
  have "sint (val32 s (j + 1)) < 2 ^ 31" using sint_lt [of "val32 s (j + 1)"] by simp
  then have i: "int64 (acc + (sint (val32 s (Suc (idx_nat idx k))) - sint (val32 s (idx_nat idx k)))) = Some acc'"
    using acc x by (simp add: int64_def acc' j(1))
  then show "take_offsets_i32_loop d s idx k n acc = (if 2 ^ (LENGTH(32) - 1) \<le> acc' then Some (- 1, d)
      else Option.bind (st_i32 d (k + 1) (word_of_int acc')) (\<lambda>d. take_offsets_i32_loop d s idx (k + 1) n acc'))"
    using k j by (subst take_offsets_i32_loop.simps) (simp add: ld_eq i Let_def)
qed (simp add: take_offsets_i32_loop.simps, rule st_i32_val)

interpretation take64: take_pass st_i64 val64 8 take_offsets_i64_loop
proof
  fix k n j :: nat and idx s d :: bytes and acc acc' :: int
  assume k: "k < n" "k * 8 + 8 \<le> length idx" and j: "j = idx_nat idx k" "(j + 2) * 8 \<le> length s"
    and acc: "0 \<le> acc" "acc < 2 ^ (LENGTH(64) - 1)" and x: "0 \<le> sint (val64 s j)" "sint (val64 s j) \<le> sint (val64 s (j + 1))"
    and acc': "acc' = acc + (sint (val64 s (j + 1)) - sint (val64 s j))"
  have "sint (val64 s (j + 1)) < 2 ^ 63" using sint_lt [of "val64 s (j + 1)"] by simp
  then have i: "Option.bind (int64 (sint (val64 s (Suc (idx_nat idx k))) - sint (val64 s (idx_nat idx k))))
      (\<lambda>len. int64 (acc + len)) = (if 2 ^ 63 \<le> acc' then None else Some acc')"
    using acc x by (simp add: int64_def acc' j(1))
  then show "take_offsets_i64_loop d s idx k n acc = (if 2 ^ (LENGTH(64) - 1) \<le> acc' then Some (- 1, d)
      else Option.bind (st_i64 d (k + 1) (word_of_int acc')) (\<lambda>d. take_offsets_i64_loop d s idx (k + 1) n acc'))"
    using k j by (subst take_offsets_i64_loop.simps) (simp add: ld_eq i Let_def)
qed (simp add: take_offsets_i64_loop.simps, rule st_i64_val)

subsection \<open>Pass 2 and the two passes together\<close>

lemma unat_scast_diff:
  fixes v w :: "'a::len word"
  assumes "0 \<le> sint v" and "sint v \<le> sint w" and "LENGTH('a) \<le> 64"
  shows "unat (scast v :: u64) = nat (sint v)" and "unat ((scast w :: u64) - scast v) = nat (sint w - sint v)"
proof -
  have "sint w < 2 ^ (LENGTH('a) - 1)" by (rule sint_lt)
  also have "(2 :: int) ^ (LENGTH('a) - 1) \<le> 2 ^ 63" using assms(3) by (intro power_increasing) auto
  finally have lt: "sint w < 2 ^ 63" .
  have c: "(scast u :: u64) = word_of_int (sint u)" for u :: "'a word" by (rule scast_eq)
  have "(scast w :: u64) - scast v = word_of_int (sint w - sint v)" by (simp only: c of_int_diff)
  then have "uint ((scast w :: u64) - scast v) = sint w - sint v"
    using assms lt by (simp only: unsigned_of_int) (simp add: take_bit_int_eq_self)
  then show "unat ((scast w :: u64) - scast v) = nat (sint w - sint v)" by (simp add: unat_eq_nat_uint)
  have "uint (scast v :: u64) = sint v" unfolding c unsigned_of_int
    using assms lt by (simp add: take_bit_int_eq_self)
  then show "unat (scast v :: u64) = nat (sint v)" by (simp add: unat_eq_nat_uint)
qed

lemma take_bytes_loop_eq:
  fixes v :: "nat \<Rightarrow> 'a::len word"
  assumes "n * 8 \<le> length idx" and "LENGTH('a) \<le> 64"
    and "\<And>i. i < n \<Longrightarrow> LD s (idx_nat idx i) = Some (v (idx_nat idx i)) \<and>
      LD s (idx_nat idx i + 1) = Some (v (idx_nat idx i + 1)) \<and> row_in (\<lambda>j. sint (v j)) src (idx_nat idx i)"
  shows "k \<le> n \<Longrightarrow> int pos = taken (\<lambda>j. sint (v j)) idx k \<Longrightarrow>
    taken (\<lambda>j. sint (v j)) idx n \<le> int (length dst) \<Longrightarrow>
    take_bytes_loop LD dst s src idx pos k n = Some (take pos dst @
      concat (map (\<lambda>i. row (\<lambda>j. sint (v j)) src (idx_nat idx i)) [k..<n]) @
      drop (nat (taken (\<lambda>j. sint (v j)) idx n)) dst)"
proof (induction "n - k" arbitrary: k pos dst)
  case 0
  then have nk: "n = k" by simp
  have "nat (taken (\<lambda>j. sint (v j)) idx n) = pos" unfolding nk using "0.prems"(2) by (metis nat_int)
  then show ?case unfolding nk by (simp add: take_bytes_loop.simps)
next
  case (Suc r)
  define x where "x j = sint (v j)" for j
  define j where "j = idx_nat idx k"
  define ys where "ys = row x src j"
  have k: "k < n" "r = n - Suc k" using Suc(2) by simp_all
  have ri: "row_in x src (idx_nat idx i)" if "i < n" for i using assms(3) [OF that] by (simp add: x_def [abs_def])
  have rj: "0 \<le> x j" "x j \<le> x (j + 1)" "x (j + 1) \<le> int (length src)"
    using ri [OF k(1)] by (simp_all add: row_in_def j_def)
  have lens: "0 \<le> row_len x (idx_nat idx i)" if "i < n" for i
    using ri [OF that] by (simp add: row_in_def row_len_def)
  have ys: "int (length ys) = row_len x j" using row_length ri [OF k(1)] by (simp add: ys_def j_def)
  have pos1: "int (pos + length ys) = taken x idx (Suc k)"
    using Suc.prems(2) ys by (simp add: x_def [abs_def, symmetric] j_def)
  have le: "taken x idx (Suc k) \<le> taken x idx n" using taken_mono [OF lens, of n "Suc k" n] k(1) by simp
  have room: "pos + length ys \<le> length dst" "pos + length ys \<le> nat (taken x idx n)"
    using pos1 le Suc.prems(3) unfolding x_def [abs_def, symmetric] by linarith+
  define dst1 where "dst1 = take pos dst @ ys @ drop (pos + length ys) dst"
  have st: "store_block dst pos ys = Some dst1" using room by (simp add: store_block_in dst1_def)
  have d: "length dst1 = length dst" "take (pos + length ys) dst1 = take pos dst @ ys"
    "drop (nat (taken x idx n)) dst1 = drop (nat (taken x idx n)) dst"
    using room by (simp_all add: dst1_def)
  have IH: "take_bytes_loop LD dst1 s src idx (pos + length ys) (Suc k) n = Some (take (pos + length ys) dst1 @
      concat (map (\<lambda>i. row x src (idx_nat idx i)) [Suc k..<n]) @ drop (nat (taken x idx n)) dst1)"
    using Suc.hyps(1) [OF k(2), of "pos + length ys" dst1] k(1) pos1 Suc.prems(3) d(1)
    by (simp add: x_def [abs_def, symmetric])
  have ld: "ld_i64 idx k = Some (val64 idx k)" using k(1) assms(1) by (intro ld_eq) linarith
  have vs: "LD s j = Some (v j)" "LD s (Suc j) = Some (v (Suc j))" using assms(3) [OF k(1)] by (simp_all add: j_def)
  have a: "unat (scast (v j) :: u64) = nat (x j)"
    and len: "unat ((scast (v (Suc j)) :: u64) - scast (v j)) = length ys"
    using unat_scast_diff [of "v j" "v (Suc j)"] rj assms(2) ys by (simp_all add: x_def row_len_def)
  have src: "load_block src (nat (x j)) (length ys) = Some ys"
    using rj ys by (subst load_block_in) (auto simp: ys_def row_def row_len_def)
  have "take_bytes_loop LD dst s src idx pos k n = take_bytes_loop LD dst1 s src idx (pos + length ys) (Suc k) n"
  proof (cases "ys = []")
    case True
    then have "dst1 = dst" by (simp add: dst1_def)
    with True k(1) ld vs len show ?thesis
      by (subst take_bytes_loop.simps) (simp add: Let_def j_def [symmetric])
  next
    case False
    then show ?thesis
      using k(1) ld vs len a src st by (subst take_bytes_loop.simps) (simp add: Let_def j_def [symmetric])
  qed
  also note IH
  also have "take (pos + length ys) dst1 @ concat (map (\<lambda>i. row x src (idx_nat idx i)) [Suc k..<n]) @
      drop (nat (taken x idx n)) dst1 =
      take pos dst @ concat (map (\<lambda>i. row x src (idx_nat idx i)) [k..<n]) @ drop (nat (taken x idx n)) dst"
    unfolding d(2,3) using k(1) by (simp add: upt_conv_Cons ys_def j_def)
  finally show ?case by (simp only: x_def [abs_def])
qed

lemma concat_pick:
  assumes "k < n"
  shows "take (length (f k)) (drop (\<Sum>i<k. length (f i)) (concat (map f [0..<n]) @ rest)) = f k"
proof -
  have "[0..<n] = [0..<k] @ k # [Suc k..<n]" using assms upt_add_eq_append [of 0 k "n - k"] by (simp add: upt_conv_Cons)
  moreover have "length (concat (map f [0..<k])) = (\<Sum>i<k. length (f i))"
    by (induction k) simp_all
  ultimately show ?thesis by simp
qed

lemma take_rows:
  assumes "\<And>i. i < n \<Longrightarrow> row_in x src (idx_nat idx i)" and "k < n"
    and "\<And>i. i \<le> n \<Longrightarrow> y i = taken x idx i"
    and "dst' = concat (map (\<lambda>i. row x src (idx_nat idx i)) [0..<n]) @ rest"
  shows "row y dst' k = row x src (idx_nat idx k)"
proof -
  let ?f = "\<lambda>i. row x src (idx_nat idx i)"
  have "y j = int (\<Sum>i<j. length (?f i))" if "j \<le> n" for j
    using that assms(1,3) by (simp add: taken_def row_length)
  then have "y k = int (\<Sum>i<k. length (?f i))" "y (k + 1) = int ((\<Sum>i<k. length (?f i)) + length (?f k))"
    using assms(2) by (simp_all del: of_nat_sum)
  then have "nat (y k) = (\<Sum>i<k. length (?f i))" "nat (y (k + 1) - y k) = length (?f k)"
    by (simp_all only: nat_int of_nat_add add_diff_cancel_left')
  then show ?thesis
    unfolding row_def [of y] assms(4) using concat_pick [OF assms(2), of ?f rest] by (simp only:)
qed

text \<open>Pass 2 on any valid offsets: the selected rows in order, the rest of the destination untouched.\<close>

abbreviation offs32 :: "bytes \<Rightarrow> nat \<Rightarrow> int" where
  "offs32 s j \<equiv> sint (val32 s j)"

abbreviation offs64 :: "bytes \<Rightarrow> nat \<Rightarrow> int" where
  "offs64 s j \<equiv> sint (val64 s j)"

lemma rows_length:
  assumes "\<And>i. i < n \<Longrightarrow> row_in x src (idx_nat idx i)"
  shows "length (concat (map (\<lambda>i. row x src (idx_nat idx i)) [0..<n])) = nat (taken x idx n)"
proof -
  have "int (length (concat (map (\<lambda>i. row x src (idx_nat idx i)) [0..<m]))) = taken x idx m" if "m \<le> n" for m
    using that assms by (induction m) (simp_all add: row_length)
  from this [of n] show ?thesis by (metis nat_int order_refl)
qed

lemma take_bytes_rows:
  fixes v :: "nat \<Rightarrow> 'a::len word"
  assumes "n * 8 \<le> length idx" and "LENGTH('a) \<le> 64" and x: "x = (\<lambda>j. sint (v j))"
    and "\<And>i. i < n \<Longrightarrow> LD s (idx_nat idx i) = Some (v (idx_nat idx i)) \<and>
      LD s (idx_nat idx i + 1) = Some (v (idx_nat idx i + 1))"
    and rows: "\<And>i. i < n \<Longrightarrow> row_in x src (idx_nat idx i)"
    and room: "taken x idx n \<le> int (length dst)"
    and y: "\<forall>i\<le>n. y i = taken x idx i"
  shows "\<exists>dst'. DEF_TAKE_BYTES LD dst s src idx n = Some dst' \<and> length dst' = length dst \<and>
    drop (nat (taken x idx n)) dst' = drop (nat (taken x idx n)) dst \<and>
    (\<forall>k<n. row y dst' k = row x src (idx_nat idx k))"
proof -
  define dst' where "dst' = concat (map (\<lambda>i. row x src (idx_nat idx i)) [0..<n]) @ drop (nat (taken x idx n)) dst"
  have "DEF_TAKE_BYTES LD dst s src idx n = Some dst'"
    using take_bytes_loop_eq [where LD = LD and s = s and v = v and k = 0 and pos = 0, OF assms(1,2)] assms(4) rows room
    by (simp add: DEF_TAKE_BYTES_def dst'_def x)
  moreover have "length dst' = length dst" "drop (nat (taken x idx n)) dst' = drop (nat (taken x idx n)) dst"
    using room by (simp_all add: dst'_def rows_length [OF rows])
  moreover have "row y dst' k = row x src (idx_nat idx k)" if "k < n" for k
    using rows that y by (intro take_rows [OF _ _ _ dst'_def]) simp_all
  ultimately show ?thesis by blast
qed

lemma take_correct_i32:
  assumes "n * 8 \<le> length idx" and "(n + 1) * 4 \<le> length dstOffs"
    and rows: "\<forall>k<n. (idx_nat idx k + 2) * 4 \<le> length srcOffs \<and> row_in (offs32 srcOffs) src (idx_nat idx k)"
    and room: "taken (offs32 srcOffs) idx n \<le> int (length dst)"
  shows "\<exists>total offs'. hs_columnar_take_offsets_i32 dstOffs srcOffs idx n = Some (total, offs') \<and>
    length offs' = length dstOffs \<and>
    (if taken (offs32 srcOffs) idx n < 2 ^ 31
     then total = taken (offs32 srcOffs) idx n \<and> (\<forall>i\<le>n. offs32 offs' i = taken (offs32 srcOffs) idx i) \<and>
       (\<exists>dst'. hs_columnar_take_bytes_i32 dst srcOffs src idx n = Some dst' \<and> length dst' = length dst \<and>
         drop (nat total) dst' = drop (nat total) dst \<and>
         (\<forall>k<n. row (offs32 offs') dst' k = row (offs32 srcOffs) src (idx_nat idx k)))
     else total = - 1)"
proof -
  define x where "x = offs32 srcOffs"
  have valid: "take32.valid_rows srcOffs idx n"
    using assms(1) rows by (simp add: take32.valid_rows_def Let_def row_in_def)
  obtain d0 where d0: "st_i32 dstOffs 0 0 = Some d0" "length d0 = length dstOffs" "val32 d0 0 = 0"
    using st_i32_val [of 0 dstOffs 0] assms(2) by auto
  obtain offs' where offs': "length offs' = length d0"
      "if taken x idx n < 2 ^ (LENGTH(32) - 1)
       then take_offsets_i32_loop d0 srcOffs idx 0 n (taken x idx 0) = Some (taken x idx n, offs') \<and>
         (\<forall>i\<le>n. sint (val32 offs' i) = taken x idx i)
       else take_offsets_i32_loop d0 srcOffs idx 0 n (taken x idx 0) = Some (- 1, offs')"
    using take32.pass_eq [OF valid, of x 0 d0] assms(2) d0 by (auto simp: x_def)
  show ?thesis
  proof (cases "taken x idx n < 2 ^ 31")
    case False
    then show ?thesis
      using offs' d0 unfolding x_def [symmetric] by (simp add: hs_columnar_take_offsets_i32_def)
  next
    case True
    have reads: "ld_i32 srcOffs (idx_nat idx i) = Some (val32 srcOffs (idx_nat idx i)) \<and>
        ld_i32 srcOffs (idx_nat idx i + 1) = Some (val32 srcOffs (idx_nat idx i + 1))" if "i < n" for i
      using rows [rule_format, OF that] by (simp add: ld_eq)
    have "\<exists>dst'. DEF_TAKE_BYTES ld_i32 dst srcOffs src idx n = Some dst' \<and> length dst' = length dst \<and>
      drop (nat (taken x idx n)) dst' = drop (nat (taken x idx n)) dst \<and>
      (\<forall>k<n. row (offs32 offs') dst' k = row x src (idx_nat idx k))"
      using rows room offs'(2) True
      by (intro take_bytes_rows [where v = "val32 srcOffs" and LD = ld_i32 and s = srcOffs, OF assms(1) _ _ reads]) (simp_all add: x_def)
    then show ?thesis
      using offs' d0 True unfolding x_def [symmetric]
      by (simp add: hs_columnar_take_offsets_i32_def hs_columnar_take_bytes_i32_def)
  qed
qed

lemma take_correct_i64:
  assumes "n * 8 \<le> length idx" and "(n + 1) * 8 \<le> length dstOffs"
    and rows: "\<forall>k<n. (idx_nat idx k + 2) * 8 \<le> length srcOffs \<and> row_in (offs64 srcOffs) src (idx_nat idx k)"
    and room: "taken (offs64 srcOffs) idx n \<le> int (length dst)"
  shows "\<exists>total offs'. hs_columnar_take_offsets_i64 dstOffs srcOffs idx n = Some (total, offs') \<and>
    length offs' = length dstOffs \<and>
    (if taken (offs64 srcOffs) idx n < 2 ^ 63
     then total = taken (offs64 srcOffs) idx n \<and> (\<forall>i\<le>n. offs64 offs' i = taken (offs64 srcOffs) idx i) \<and>
       (\<exists>dst'. hs_columnar_take_bytes_i64 dst srcOffs src idx n = Some dst' \<and> length dst' = length dst \<and>
         drop (nat total) dst' = drop (nat total) dst \<and>
         (\<forall>k<n. row (offs64 offs') dst' k = row (offs64 srcOffs) src (idx_nat idx k)))
     else total = - 1)"
proof -
  define x where "x = offs64 srcOffs"
  have valid: "take64.valid_rows srcOffs idx n"
    using assms(1) rows by (simp add: take64.valid_rows_def Let_def row_in_def)
  obtain d0 where d0: "st_i64 dstOffs 0 0 = Some d0" "length d0 = length dstOffs" "val64 d0 0 = 0"
    using st_i64_val [of 0 dstOffs 0] assms(2) by auto
  obtain offs' where offs': "length offs' = length d0"
      "if taken x idx n < 2 ^ (LENGTH(64) - 1)
       then take_offsets_i64_loop d0 srcOffs idx 0 n (taken x idx 0) = Some (taken x idx n, offs') \<and>
         (\<forall>i\<le>n. sint (val64 offs' i) = taken x idx i)
       else take_offsets_i64_loop d0 srcOffs idx 0 n (taken x idx 0) = Some (- 1, offs')"
    using take64.pass_eq [OF valid, of x 0 d0] assms(2) d0 by (auto simp: x_def)
  show ?thesis
  proof (cases "taken x idx n < 2 ^ 63")
    case False
    then show ?thesis
      using offs' d0 unfolding x_def [symmetric] by (simp add: hs_columnar_take_offsets_i64_def)
  next
    case True
    have reads: "ld_i64 srcOffs (idx_nat idx i) = Some (val64 srcOffs (idx_nat idx i)) \<and>
        ld_i64 srcOffs (idx_nat idx i + 1) = Some (val64 srcOffs (idx_nat idx i + 1))" if "i < n" for i
      using rows [rule_format, OF that] by (simp add: ld_eq)
    have "\<exists>dst'. DEF_TAKE_BYTES ld_i64 dst srcOffs src idx n = Some dst' \<and> length dst' = length dst \<and>
      drop (nat (taken x idx n)) dst' = drop (nat (taken x idx n)) dst \<and>
      (\<forall>k<n. row (offs64 offs') dst' k = row x src (idx_nat idx k))"
      using rows room offs'(2) True
      by (intro take_bytes_rows [where v = "val64 srcOffs" and LD = ld_i64 and s = srcOffs, OF assms(1) _ _ reads]) (simp_all add: x_def)
    then show ?thesis
      using offs' d0 True unfolding x_def [symmetric]
      by (simp add: hs_columnar_take_offsets_i64_def hs_columnar_take_bytes_i64_def)
  qed
qed

text \<open>C28: a take of variable-length rows, both passes and both offset widths: when the new total fits the
  offset type, pass 1 returns it and writes the running totals, row \<open>k\<close> of what pass 2 writes is row
  \<open>idx[k]\<close> of the source, and the destination is unchanged from the total on; otherwise pass 1 reports -1.\<close>

theorem take_correct:
  "(n * 8 \<le> length idx \<and> (n + 1) * 4 \<le> length dstOffs \<and>
     (\<forall>k<n. (idx_nat idx k + 2) * 4 \<le> length srcOffs \<and> row_in (offs32 srcOffs) src (idx_nat idx k)) \<and>
     taken (offs32 srcOffs) idx n \<le> int (length dst) \<longrightarrow>
     (\<exists>total offs'. hs_columnar_take_offsets_i32 dstOffs srcOffs idx n = Some (total, offs') \<and>
       length offs' = length dstOffs \<and>
       (if taken (offs32 srcOffs) idx n < 2 ^ 31
        then total = taken (offs32 srcOffs) idx n \<and> (\<forall>i\<le>n. offs32 offs' i = taken (offs32 srcOffs) idx i) \<and>
          (\<exists>dst'. hs_columnar_take_bytes_i32 dst srcOffs src idx n = Some dst' \<and> length dst' = length dst \<and>
            drop (nat total) dst' = drop (nat total) dst \<and>
            (\<forall>k<n. row (offs32 offs') dst' k = row (offs32 srcOffs) src (idx_nat idx k)))
        else total = - 1))) \<and>
   (n * 8 \<le> length idx \<and> (n + 1) * 8 \<le> length dstOffs \<and>
     (\<forall>k<n. (idx_nat idx k + 2) * 8 \<le> length srcOffs \<and> row_in (offs64 srcOffs) src (idx_nat idx k)) \<and>
     taken (offs64 srcOffs) idx n \<le> int (length dst) \<longrightarrow>
     (\<exists>total offs'. hs_columnar_take_offsets_i64 dstOffs srcOffs idx n = Some (total, offs') \<and>
       length offs' = length dstOffs \<and>
       (if taken (offs64 srcOffs) idx n < 2 ^ 63
        then total = taken (offs64 srcOffs) idx n \<and> (\<forall>i\<le>n. offs64 offs' i = taken (offs64 srcOffs) idx i) \<and>
          (\<exists>dst'. hs_columnar_take_bytes_i64 dst srcOffs src idx n = Some dst' \<and> length dst' = length dst \<and>
            drop (nat total) dst' = drop (nat total) dst \<and>
            (\<forall>k<n. row (offs64 offs') dst' k = row (offs64 srcOffs) src (idx_nat idx k)))
        else total = - 1)))"
  using take_correct_i32 [of n idx dstOffs srcOffs src dst] take_correct_i64 [of n idx dstOffs srcOffs src dst]
  by blast

text \<open>Rows 1 and 0 of \<open>[10, 20]\<close>, \<open>[30]\<close> at both widths.\<close>

definition sample_idx :: bytes where
  "sample_idx = [1, 0, 0, 0, 0, 0, 0, 0, 0, 0, 0, 0, 0, 0, 0, 0]"

definition sample_offs32 :: bytes where
  "sample_offs32 = [0, 0, 0, 0, 2, 0, 0, 0, 3, 0, 0, 0]"

definition sample_offs64 :: bytes where
  "sample_offs64 = [0, 0, 0, 0, 0, 0, 0, 0, 2, 0, 0, 0, 0, 0, 0, 0, 3, 0, 0, 0, 0, 0, 0, 0]"

theorem take_correct_witness:
  "(\<exists>total offs'. hs_columnar_take_offsets_i32 (replicate 12 0) sample_offs32 sample_idx 2 = Some (total, offs') \<and>
      total = 3 \<and> offs32 offs' 1 = 1 \<and>
      (\<exists>dst'. hs_columnar_take_bytes_i32 [0, 0, 0] sample_offs32 [10, 20, 30] sample_idx 2 = Some dst' \<and>
        row (offs32 offs') dst' 0 = row (offs32 sample_offs32) [10, 20, 30] 1)) \<and>
   (\<exists>total offs'. hs_columnar_take_offsets_i64 (replicate 24 0) sample_offs64 sample_idx 2 = Some (total, offs') \<and>
      total = 3 \<and> offs64 offs' 1 = 1 \<and>
      (\<exists>dst'. hs_columnar_take_bytes_i64 [0, 0, 0] sample_offs64 [10, 20, 30] sample_idx 2 = Some dst' \<and>
        row (offs64 offs') dst' 0 = row (offs64 sample_offs64) [10, 20, 30] 1))"
proof -
  have i: "idx_nat sample_idx 0 = 1" "idx_nat sample_idx 1 = 0" "length sample_idx = 16"
    by code_simp+
  have s: "offs32 sample_offs32 0 = 0" "offs32 sample_offs32 1 = 2" "offs32 sample_offs32 2 = 3" "length sample_offs32 = 12"
    "offs64 sample_offs64 0 = 0" "offs64 sample_offs64 1 = 2" "offs64 sample_offs64 2 = 3" "length sample_offs64 = 24"
    by code_simp+
  have two: "\<And>P. (\<forall>k<2 :: nat. P k) \<longleftrightarrow> P 0 \<and> P 1" by (auto simp: less_2_cases_iff)
  have t: "taken (offs32 sample_offs32) sample_idx 2 = 3" "taken (offs32 sample_offs32) sample_idx 1 = 1"
    "taken (offs64 sample_offs64) sample_idx 2 = 3" "taken (offs64 sample_offs64) sample_idx 1 = 1"
    by code_simp+
  note facts = i [unfolded One_nat_def] t [unfolded One_nat_def] s [unfolded One_nat_def] s [unfolded One_nat_def numeral_2_eq_2]
  have "\<exists>total offs'. hs_columnar_take_offsets_i32 (replicate 12 0) sample_offs32 sample_idx 2 = Some (total, offs') \<and>
      total = 3 \<and> offs32 offs' 1 = 1 \<and>
      (\<exists>dst'. hs_columnar_take_bytes_i32 [0, 0, 0] sample_offs32 [10, 20, 30] sample_idx 2 = Some dst' \<and>
        row (offs32 offs') dst' 0 = row (offs32 sample_offs32) [10, 20, 30] 1)"
    using take_correct [where n = 2 and idx = sample_idx and dstOffs = "replicate 12 0"
        and srcOffs = sample_offs32 and src = "[10, 20, 30]" and dst = "[0, 0, 0]", THEN conjunct1]
    by (auto simp: two row_in_def facts simp del: taken_Suc)
  moreover have "\<exists>total offs'. hs_columnar_take_offsets_i64 (replicate 24 0) sample_offs64 sample_idx 2 = Some (total, offs') \<and>
      total = 3 \<and> offs64 offs' 1 = 1 \<and>
      (\<exists>dst'. hs_columnar_take_bytes_i64 [0, 0, 0] sample_offs64 [10, 20, 30] sample_idx 2 = Some dst' \<and>
        row (offs64 offs') dst' 0 = row (offs64 sample_offs64) [10, 20, 30] 1)"
    using take_correct [where n = 2 and idx = sample_idx and dstOffs = "replicate 24 0"
        and srcOffs = sample_offs64 and src = "[10, 20, 30]" and dst = "[0, 0, 0]", THEN conjunct2]
    by (auto simp: two row_in_def facts simp del: taken_Suc)
  ultimately show ?thesis ..
qed

end
