(* ===== verification/Loops.thy ===== *)
theory Loops
  imports Prelude
begin

text \<open>
  Counted loops over a state that may fault, and the two proof rules that carry an invariant through
  them.  \<open>for_loop i n f s\<close> is \<open>for (; i < n; i++) s = f(i, s)\<close>, and \<open>block_loop k i n f s\<close> is
  \<open>for (; n - i >= k; i += k) s = f(i, s)\<close>, which also returns the final index.
\<close>

function for_loop :: "nat \<Rightarrow> nat \<Rightarrow> (nat \<Rightarrow> 's \<Rightarrow> 's option) \<Rightarrow> 's \<Rightarrow> 's option" where
  "for_loop i n f s = (if i < n then do { s \<leftarrow> f i s; for_loop (i + 1) n f s } else Some s)"
  by pat_completeness auto
termination
  by (relation "measure (\<lambda>(i, n, f, s). n - i)") auto

function block_loop :: "nat \<Rightarrow> nat \<Rightarrow> nat \<Rightarrow> (nat \<Rightarrow> 's \<Rightarrow> 's option) \<Rightarrow> 's \<Rightarrow> (nat \<times> 's) option" where
  "block_loop k i n f s =
     (if 0 < k \<and> k \<le> n - i then do { s \<leftarrow> f i s; block_loop k (i + k) n f s } else Some (i, s))"
  by pat_completeness auto
termination
  by (relation "measure (\<lambda>(k, i, n, f, s). n - i)") auto

declare for_loop.simps [simp del] block_loop.simps [simp del]

lemma for_loop_done [simp]: "n \<le> i \<Longrightarrow> for_loop i n f s = Some s"
  by (simp add: for_loop.simps)

lemma for_loop_step: "i < n \<Longrightarrow> for_loop i n f s = Option.bind (f i s) (for_loop (i + 1) n f)"
  by (simp add: for_loop.simps [of i])

lemma for_loop_inv:
  assumes "i \<le> n" and "P i s" and "\<And>j s. i \<le> j \<Longrightarrow> j < n \<Longrightarrow> P j s \<Longrightarrow> \<exists>s'. f j s = Some s' \<and> P (Suc j) s'"
  shows "\<exists>s'. for_loop i n f s = Some s' \<and> P n s'"
  using assms
proof (induction "n - i" arbitrary: i s)
  case (Suc d)
  from Suc(2) have i: "i < n" "d = n - Suc i" by auto
  obtain s' where s': "f i s = Some s'" "P (Suc i) s'" using Suc.prems(2,3) i(1) by blast
  then have "\<exists>s''. for_loop (Suc i) n f s' = Some s'' \<and> P n s''"
    using i Suc.prems(3) by (intro Suc.hyps(1)) auto
  then show ?case using i(1) s'(1) by (simp add: for_loop_step)
qed simp

lemma block_loop_inv:
  assumes "0 < k" and "i \<le> n" and "P i s"
    and "\<And>j s. i \<le> j \<Longrightarrow> j + k \<le> n \<Longrightarrow> P j s \<Longrightarrow> \<exists>s'. f j s = Some s' \<and> P (j + k) s'"
  shows "\<exists>j s'. block_loop k i n f s = Some (j, s') \<and> i \<le> j \<and> j \<le> n \<and> P j s'"
  using assms(2-4)
proof (induction "n - i" arbitrary: i s rule: less_induct)
  case less
  show ?case
  proof (cases "k \<le> n - i")
    case False
    then show ?thesis using less.prems by (simp add: block_loop.simps)
  next
    case True
    then have k: "i + k \<le> n" "n - (i + k) < n - i" using assms(1) less.prems(1) by linarith+
    obtain s' where s': "f i s = Some s'" "P (i + k) s'" using less.prems(2,3) k(1) by blast
    have "\<exists>j s''. block_loop k (i + k) n f s' = Some (j, s'') \<and> i + k \<le> j \<and> j \<le> n \<and> P j s''"
      by (rule less.hyps [OF k(2,1) s'(2)]) (use less.prems(3) in simp)
    then show ?thesis
      using True assms(1) s'(1) by (subst block_loop.simps) auto
  qed
qed

end
