(* ===== verification/Byte_Split.thy ===== *)
theory Byte_Split
  imports Loops
begin

text \<open>
  The byte-lane transposes of \<open>wireform-columnar-core/cbits/byte_stream_split.c\<close>
  (BYTE_STREAM_SPLIT): split writes byte \<open>j\<close> of every value to stream \<open>j\<close>, join is the way back.
  Vectors are lists of sixteen bytes; a \<open>uint8x16x4_t\<close> is a list of four of them.
\<close>

subsection \<open>NEON operations (simde)\<close>

type_synonym u8x16 = "u8 list"

definition lane16 :: "(nat \<Rightarrow> u8) \<Rightarrow> u8x16" where
  "lane16 f = map f [0..<16]"

definition simde_vld1q_u8 :: "bytes \<Rightarrow> nat \<Rightarrow> u8x16 option" where
  "simde_vld1q_u8 ptr p = load_block ptr p 16"

definition simde_vst1q_u8 :: "bytes \<Rightarrow> nat \<Rightarrow> u8x16 \<Rightarrow> bytes option" where
  "simde_vst1q_u8 ptr p val = store_block ptr p val"

text \<open>\<open>a_[i % 4].values[i / 4] = ptr[i]\<close>\<close>

definition simde_vld4q_u8 :: "bytes \<Rightarrow> nat \<Rightarrow> u8x16 list option" where
  "simde_vld4q_u8 ptr p =
     map_option (\<lambda>xs. map (\<lambda>j. lane16 (\<lambda>i. xs ! (4 * i + j))) [0..<4]) (load_block ptr p 64)"

text \<open>\<open>buf[i] = a_[i % 4].values[i / 4]\<close>\<close>

definition simde_vst4q_u8 :: "bytes \<Rightarrow> nat \<Rightarrow> u8x16 list \<Rightarrow> bytes option" where
  "simde_vst4q_u8 ptr p val = store_block ptr p (map (\<lambda>i. val ! (i mod 4) ! (i div 4)) [0..<64])"

definition simde_vuzp1q_u8 :: "u8x16 \<Rightarrow> u8x16 \<Rightarrow> u8x16" where
  "simde_vuzp1q_u8 a b = lane16 (\<lambda>i. if i < 8 then a ! (2 * i) else b ! (2 * (i - 8)))"

definition simde_vuzp2q_u8 :: "u8x16 \<Rightarrow> u8x16 \<Rightarrow> u8x16" where
  "simde_vuzp2q_u8 a b = lane16 (\<lambda>i. if i < 8 then a ! (2 * i + 1) else b ! (2 * (i - 8) + 1))"

definition simde_vzip1q_u8 :: "u8x16 \<Rightarrow> u8x16 \<Rightarrow> u8x16" where
  "simde_vzip1q_u8 a b = lane16 (\<lambda>i. if even i then a ! (i div 2) else b ! (i div 2))"

definition simde_vzip2q_u8 :: "u8x16 \<Rightarrow> u8x16 \<Rightarrow> u8x16" where
  "simde_vzip2q_u8 a b = lane16 (\<lambda>i. if even i then a ! (8 + i div 2) else b ! (8 + i div 2))"

lemma lane16_nth [simp]: "i < 16 \<Longrightarrow> lane16 f ! i = f i" and lane16_length [simp]: "length (lane16 f) = 16"
  by (simp_all add: lane16_def)

subsection \<open>Split\<close>

text \<open>\<open>for (; i < n; i++) for (j = 0; j < w; j++) dst[j*n+i] = src[w*i+j];\<close>\<close>

definition split_tail :: "nat \<Rightarrow> bytes \<Rightarrow> nat \<Rightarrow> nat \<Rightarrow> bytes \<Rightarrow> bytes option" where
  "split_tail w src n i dst =
     for_loop i n (\<lambda>i. for_loop 0 w (\<lambda>j dst. do {
       b \<leftarrow> load src (w * i + j);
       store dst (j * n + i) b
     })) dst"

definition hs_columnar_split_bytes4 :: "bytes \<Rightarrow> bytes \<Rightarrow> nat \<Rightarrow> bytes option" where
  "hs_columnar_split_bytes4 src dst n = do {
     (i, dst) \<leftarrow> block_loop 16 0 n (\<lambda>i dst. do {
       lanes \<leftarrow> simde_vld4q_u8 src (4 * i);
       for_loop 0 4 (\<lambda>j dst. simde_vst1q_u8 dst (j * n + i) (lanes ! j)) dst
     }) dst;
     split_tail 4 src n i dst
   }"

definition hs_columnar_split_bytes8 :: "bytes \<Rightarrow> bytes \<Rightarrow> nat \<Rightarrow> bytes option" where
  "hs_columnar_split_bytes8 src dst n = do {
     (i, dst) \<leftarrow> block_loop 16 0 n (\<lambda>i dst. do {
       lo \<leftarrow> simde_vld4q_u8 src (8 * i);
       hi \<leftarrow> simde_vld4q_u8 src (8 * i + 64);
       for_loop 0 4 (\<lambda>j dst. do {
         dst \<leftarrow> simde_vst1q_u8 dst (j * n + i) (simde_vuzp1q_u8 (lo ! j) (hi ! j));
         simde_vst1q_u8 dst ((j + 4) * n + i) (simde_vuzp2q_u8 (lo ! j) (hi ! j))
       }) dst
     }) dst;
     split_tail 8 src n i dst
   }"

definition hs_columnar_split_bytes4_array :: "bytes \<Rightarrow> nat \<Rightarrow> bytes \<Rightarrow> nat \<Rightarrow> bytes option" where
  "hs_columnar_split_bytes4_array base off dst n =
     (if n \<noteq> 0 then hs_columnar_split_bytes4 (drop off base) dst n else Some dst)"

definition hs_columnar_split_bytes8_array :: "bytes \<Rightarrow> nat \<Rightarrow> bytes \<Rightarrow> nat \<Rightarrow> bytes option" where
  "hs_columnar_split_bytes8_array base off dst n =
     (if n \<noteq> 0 then hs_columnar_split_bytes8 (drop off base) dst n else Some dst)"

subsection \<open>Join\<close>

definition join_tail :: "nat \<Rightarrow> bytes \<Rightarrow> nat \<Rightarrow> nat \<Rightarrow> bytes \<Rightarrow> bytes option" where
  "join_tail w src n i dst =
     for_loop i n (\<lambda>i. for_loop 0 w (\<lambda>j dst. do {
       b \<leftarrow> load src (j * n + i);
       store dst (w * i + j) b
     })) dst"

text \<open>\<open>lanes.val[j] = ...\<close> for \<open>j = 0 .. 3\<close>.\<close>

definition fill_lanes :: "(nat \<Rightarrow> 'v option) \<Rightarrow> 'v list option" where
  "fill_lanes f = for_loop 0 4 (\<lambda>j vs. do { v \<leftarrow> f j; Some (vs @ [v]) }) []"

definition hs_columnar_join_bytes4 :: "bytes \<Rightarrow> bytes \<Rightarrow> nat \<Rightarrow> bytes option" where
  "hs_columnar_join_bytes4 src dst n = do {
     (i, dst) \<leftarrow> block_loop 16 0 n (\<lambda>i dst. do {
       lanes \<leftarrow> fill_lanes (\<lambda>j. simde_vld1q_u8 src (j * n + i));
       simde_vst4q_u8 dst (4 * i) lanes
     }) dst;
     join_tail 4 src n i dst
   }"

definition hs_columnar_join_bytes8 :: "bytes \<Rightarrow> bytes \<Rightarrow> nat \<Rightarrow> bytes option" where
  "hs_columnar_join_bytes8 src dst n = do {
     (i, dst) \<leftarrow> block_loop 16 0 n (\<lambda>i dst. do {
       lohi \<leftarrow> fill_lanes (\<lambda>j. do {
         a \<leftarrow> simde_vld1q_u8 src (j * n + i);
         b \<leftarrow> simde_vld1q_u8 src ((j + 4) * n + i);
         Some (simde_vzip1q_u8 a b, simde_vzip2q_u8 a b)
       });
       dst \<leftarrow> simde_vst4q_u8 dst (8 * i) (map fst lohi);
       simde_vst4q_u8 dst (8 * i + 64) (map snd lohi)
     }) dst;
     join_tail 8 src n i dst
   }"

subsection \<open>Writing columns\<close>

text \<open>The buffer as \<open>w\<close> columns of \<open>n\<close> bytes; \<open>split_done\<close>: the columns are right in the rows
  before \<open>i\<close> and, in the columns \<open>D\<close>, in the \<open>m\<close> rows after it.\<close>

definition split_done :: "nat \<Rightarrow> bytes \<Rightarrow> nat \<Rightarrow> nat \<Rightarrow> nat \<Rightarrow> (nat \<Rightarrow> bool) \<Rightarrow> bytes \<Rightarrow> bool" where
  "split_done w src n i m D dst \<longleftrightarrow> length dst = w * n \<and>
     (\<forall>j<w. \<forall>t<n. t < i \<or> t < i + m \<and> D j \<longrightarrow> dst ! (j * n + t) = src ! (w * t + j))"

lemma split_done_next:
  "split_done w src n i m D dst \<Longrightarrow> (\<And>j. j < w \<Longrightarrow> D j) \<Longrightarrow> split_done w src n (i + m) m' (\<lambda>_. False) dst"
  by (auto simp: split_done_def)

lemma split_done_start: "split_done w src n i m D dst \<Longrightarrow> split_done w src n i m' (\<lambda>_. False) dst"
  by (auto simp: split_done_def)

lemma split_done_D:
  "split_done w src n i m D dst \<Longrightarrow> (\<And>j. j < w \<Longrightarrow> D' j \<Longrightarrow> D j) \<Longrightarrow> split_done w src n i m D' dst"
  by (auto simp: split_done_def)

lemma column_fits: "j < w \<Longrightarrow> i + m \<le> n \<Longrightarrow> j * n + i + m \<le> w * (n :: nat)"
proof -
  assume "j < w" and "i + m \<le> n"
  then have "Suc j * n \<le> w * n" by (intro mult_le_mono1) simp
  with \<open>i + m \<le> n\<close> show ?thesis by simp
qed

lemma put_column:
  assumes "split_done w src n i m D dst" and "j < w" and "i + m \<le> n" and "length xs = m"
    and "\<And>k. k < m \<Longrightarrow> xs ! k = src ! (w * (i + k) + j)"
  shows "\<exists>dst'. store_block dst (j * n + i) xs = Some dst' \<and> split_done w src n i m (\<lambda>j'. D j' \<or> j' = j) dst'"
proof -
  have len: "length dst = w * n" using assms(1) by (simp add: split_done_def)
  have "j * n + n \<le> w * n" using mult_le_mono1 [of "Suc j" w n] assms(2) by simp
  then have fits: "j * n + i + length xs \<le> length dst" using len assms(3,4) by linarith
  then obtain dst' where st: "store_block dst (j * n + i) xs = Some dst'" using store_block_in by blast
  have nth: "dst' ! p = (if j * n + i \<le> p \<and> p < j * n + i + m then xs ! (p - (j * n + i)) else dst ! p)"
    if "p < length dst" for p
    using st fits that assms(4) by (auto simp: store_block_in nth_append)
  have "dst' ! (c * n + t) = src ! (w * t + c)"
    if "c < w" "t < n" "t < i \<or> t < i + m \<and> (D c \<or> c = j)" for c t
  proof -
    have "c * n + n \<le> w * n" using mult_le_mono1 [of "Suc c" w n] that(1) by simp
    then have p: "c * n + t < length dst" using len that(2) by linarith
    show ?thesis
    proof (cases "c = j \<and> i \<le> t")
      case True
      then show ?thesis using nth [OF p] that assms(5) [of "t - i"] by auto
    next
      case False
      then have "c * n + t < j * n + i \<or> j * n + i + m \<le> c * n + t"
      proof (cases "c = j")
        case ne: False
        then have "Suc c * n \<le> j * n \<or> Suc j * n \<le> c * n" by (metis Suc_leI linorder_neqE_nat mult_le_mono1)
        then show ?thesis using that(2) assms(3) by auto
      qed auto
      then have "dst' ! (c * n + t) = dst ! (c * n + t)" using nth [OF p] by auto
      moreover have "dst ! (c * n + t) = src ! (w * t + c)"
        using assms(1) that False unfolding split_done_def by auto
      ultimately show ?thesis by simp
    qed
  qed
  then have "split_done w src n i m (\<lambda>j'. D j' \<or> j' = j) dst'"
    using store_block_length [OF st] len by (auto simp: split_done_def)
  with st show ?thesis by blast
qed

lemma split_tail_eq:
  assumes "split_done w src n i 1 (\<lambda>_. False) dst" and "i \<le> n" and "length src = w * n"
  shows "\<exists>dst'. split_tail w src n i dst = Some dst' \<and> split_done w src n n 1 (\<lambda>_. False) dst'"
  unfolding split_tail_def
proof (rule for_loop_inv [where P = "\<lambda>i. split_done w src n i 1 (\<lambda>_. False)", OF assms(2,1)])
  fix i dst assume i: "i < n" and d: "split_done w src n i 1 (\<lambda>_. False) dst"
  have "\<exists>dst'. for_loop 0 w (\<lambda>j dst. do { b \<leftarrow> load src (w * i + j); store dst (j * n + i) b }) dst = Some dst' \<and>
      split_done w src n i 1 (\<lambda>j. j < w) dst'"
  proof (rule for_loop_inv [where P = "\<lambda>J. split_done w src n i 1 (\<lambda>j. j < J)"])
    fix j dst assume j: "j < w" and d: "split_done w src n i 1 (\<lambda>c. c < j) dst"
    have "w * i + w \<le> w * n" using mult_le_mono2 [of "Suc i" n w] i by simp
    then have "load src (w * i + j) = Some (src ! (w * i + j))" using assms(3) j by (intro load_in) linarith
    moreover obtain dst' where "store_block dst (j * n + i) [src ! (w * i + j)] = Some dst'"
        "split_done w src n i 1 (\<lambda>c. c < j \<or> c = j) dst'"
      using put_column [OF d j, of "[src ! (w * i + j)]"] i by auto
    ultimately show "\<exists>dst'. do { b \<leftarrow> load src (w * i + j); store dst (j * n + i) b } = Some dst' \<and>
        split_done w src n i 1 (\<lambda>c. c < Suc j) dst'"
      by (auto simp: store_as_block intro: split_done_D)
  qed (use d in \<open>simp_all add: split_done_D\<close>)
  then show "\<exists>dst'. for_loop 0 w (\<lambda>j dst. do { b \<leftarrow> load src (w * i + j); store dst (j * n + i) b }) dst = Some dst' \<and>
      split_done w src n (Suc i) 1 (\<lambda>_. False) dst'"
    using split_done_next [where i = i and m = 1] by fastforce
qed

text \<open>The transpose.\<close>

definition split_of :: "nat \<Rightarrow> bytes \<Rightarrow> nat \<Rightarrow> bytes" where
  "split_of w src n = map (\<lambda>p. src ! (w * (p mod n) + p div n)) [0..<w * n]"

lemma split_done_all:
  assumes "split_done w src n n m D dst"
  shows "dst = split_of w src n"
proof (rule nth_equalityI)
  show "length dst = length (split_of w src n)" using assms by (simp add: split_of_def split_done_def)
  fix p assume "p < length dst"
  then have p: "p < w * n" using assms by (simp add: split_done_def)
  then have "0 < n" by (cases n) auto
  then have q: "p div n < w" "p mod n < n" using p by (simp_all add: less_mult_imp_div_less)
  have "\<forall>j<w. \<forall>t<n. dst ! (j * n + t) = src ! (w * t + j)" using assms by (simp add: split_done_def)
  from this [rule_format, OF q] have "dst ! p = src ! (w * (p mod n) + p div n)" by simp
  then show "dst ! p = split_of w src n ! p" using p by (simp add: split_of_def)
qed

subsection \<open>The split kernels\<close>

lemma vld4q_eq:
  assumes "p + 64 \<le> length src"
  shows "\<exists>lanes. simde_vld4q_u8 src p = Some lanes \<and>
    (\<forall>j<4. length (lanes ! j) = 16 \<and> (\<forall>k<16. lanes ! j ! k = src ! (p + 4 * k + j)))"
proof -
  have "simde_vld4q_u8 src p = Some (map (\<lambda>j. lane16 (\<lambda>i. take 64 (drop p src) ! (4 * i + j))) [0..<4])"
    using assms by (simp add: simde_vld4q_u8_def load_block_in)
  moreover have "take 64 (drop p src) ! (4 * k + j) = src ! (p + 4 * k + j)" if "j < 4" "k < 16" for j k
    using that assms by (simp add: ac_simps)
  ultimately show ?thesis by simp
qed

lemma split4_block:
  assumes "split_done 4 src n i 16 (\<lambda>_. False) dst" and "i + 16 \<le> n" and "length src = 4 * n"
  shows "\<exists>dst'. do {
      lanes \<leftarrow> simde_vld4q_u8 src (4 * i);
      for_loop 0 4 (\<lambda>j dst. simde_vst1q_u8 dst (j * n + i) (lanes ! j)) dst
    } = Some dst' \<and> split_done 4 src n (i + 16) 16 (\<lambda>_. False) dst'"
proof -
  have "4 * i + 64 \<le> length src" using assms(2,3) by linarith
  then obtain lanes where l: "simde_vld4q_u8 src (4 * i) = Some lanes"
      "\<forall>j<4. length (lanes ! j) = 16 \<and> (\<forall>k<16. lanes ! j ! k = src ! (4 * i + 4 * k + j))"
    using vld4q_eq by blast
  have "\<exists>dst'. for_loop 0 4 (\<lambda>j dst. simde_vst1q_u8 dst (j * n + i) (lanes ! j)) dst = Some dst' \<and>
      split_done 4 src n i 16 (\<lambda>j. j < 4) dst'"
  proof (rule for_loop_inv [where P = "\<lambda>J. split_done 4 src n i 16 (\<lambda>j. j < J)"])
    fix j dst assume j: "j < 4" and d: "split_done 4 src n i 16 (\<lambda>c. c < j) dst"
    then obtain dst' where "store_block dst (j * n + i) (lanes ! j) = Some dst'"
        "split_done 4 src n i 16 (\<lambda>c. c < j \<or> c = j) dst'"
      using put_column [OF d j assms(2), of "lanes ! j"] l(2) by (auto simp: algebra_simps)
    then show "\<exists>dst'. simde_vst1q_u8 dst (j * n + i) (lanes ! j) = Some dst' \<and> split_done 4 src n i 16 (\<lambda>c. c < Suc j) dst'"
      by (auto simp: simde_vst1q_u8_def intro: split_done_D)
  qed (use assms(1) in \<open>simp_all add: split_done_D\<close>)
  then show ?thesis using l(1) split_done_next [where i = i and m = 16] by fastforce
qed

lemma split8_block:
  assumes "split_done 8 src n i 16 (\<lambda>_. False) dst" and "i + 16 \<le> n" and "length src = 8 * n"
  shows "\<exists>dst'. do {
      lo \<leftarrow> simde_vld4q_u8 src (8 * i);
      hi \<leftarrow> simde_vld4q_u8 src (8 * i + 64);
      for_loop 0 4 (\<lambda>j dst. do {
        dst \<leftarrow> simde_vst1q_u8 dst (j * n + i) (simde_vuzp1q_u8 (lo ! j) (hi ! j));
        simde_vst1q_u8 dst ((j + 4) * n + i) (simde_vuzp2q_u8 (lo ! j) (hi ! j))
      }) dst
    } = Some dst' \<and> split_done 8 src n (i + 16) 16 (\<lambda>_. False) dst'"
proof -
  have "8 * i + 64 + 64 \<le> length src" using assms(2,3) by linarith
  then obtain lo hi where l: "simde_vld4q_u8 src (8 * i) = Some lo" "simde_vld4q_u8 src (8 * i + 64) = Some hi"
      "\<forall>j<4. length (lo ! j) = 16 \<and> (\<forall>k<16. lo ! j ! k = src ! (8 * i + 4 * k + j))"
      "\<forall>j<4. length (hi ! j) = 16 \<and> (\<forall>k<16. hi ! j ! k = src ! (8 * i + 64 + 4 * k + j))"
    using vld4q_eq [of "8 * i" src] vld4q_eq [of "8 * i + 64" src] by auto
  have uzp: "simde_vuzp1q_u8 (lo ! j) (hi ! j) ! k = src ! (8 * (i + k) + j)"
    "simde_vuzp2q_u8 (lo ! j) (hi ! j) ! k = src ! (8 * (i + k) + (j + 4))" if "j < 4" "k < 16" for j k
    using that l(3,4) by (auto simp: simde_vuzp1q_u8_def simde_vuzp2q_u8_def algebra_simps)
  have "\<exists>dst'. for_loop 0 4 (\<lambda>j dst. do {
        dst \<leftarrow> simde_vst1q_u8 dst (j * n + i) (simde_vuzp1q_u8 (lo ! j) (hi ! j));
        simde_vst1q_u8 dst ((j + 4) * n + i) (simde_vuzp2q_u8 (lo ! j) (hi ! j))
      }) dst = Some dst' \<and> split_done 8 src n i 16 (\<lambda>j. j mod 4 < 4) dst'"
  proof (rule for_loop_inv [where P = "\<lambda>J. split_done 8 src n i 16 (\<lambda>j. j mod 4 < J)"])
    fix j dst assume j: "j < 4" and d: "split_done 8 src n i 16 (\<lambda>c. c mod 4 < j) dst"
    then obtain d1 where d1: "store_block dst (j * n + i) (simde_vuzp1q_u8 (lo ! j) (hi ! j)) = Some d1"
        "split_done 8 src n i 16 (\<lambda>c. c mod 4 < j \<or> c = j) d1"
      using put_column [OF d _ assms(2), of j "simde_vuzp1q_u8 (lo ! j) (hi ! j)"] uzp
      by (auto simp: simde_vuzp1q_u8_def)
    then obtain d2 where d2: "store_block d1 ((j + 4) * n + i) (simde_vuzp2q_u8 (lo ! j) (hi ! j)) = Some d2"
        "split_done 8 src n i 16 (\<lambda>c. (c mod 4 < j \<or> c = j) \<or> c = j + 4) d2"
      using put_column [OF d1(2) _ assms(2), of "j + 4" "simde_vuzp2q_u8 (lo ! j) (hi ! j)"] uzp j
      by (auto simp: simde_vuzp2q_u8_def)
    have "split_done 8 src n i 16 (\<lambda>c. c mod 4 < Suc j) d2"
    proof (rule split_done_D [OF d2(2)])
      fix c :: nat assume "c < 8" "c mod 4 < Suc j"
      then show "(c mod 4 < j \<or> c = j) \<or> c = j + 4" by presburger
    qed
    with d1(1) d2(1) show "\<exists>dst'. do {
          dst \<leftarrow> simde_vst1q_u8 dst (j * n + i) (simde_vuzp1q_u8 (lo ! j) (hi ! j));
          simde_vst1q_u8 dst ((j + 4) * n + i) (simde_vuzp2q_u8 (lo ! j) (hi ! j))
        } = Some dst' \<and> split_done 8 src n i 16 (\<lambda>c. c mod 4 < Suc j) dst'"
      by (simp add: simde_vst1q_u8_def)
  qed (use assms(1) in \<open>simp_all add: split_done_D\<close>)
  then show ?thesis using l(1,2) split_done_next [where i = i and m = 16] by fastforce
qed

lemma split_bytes4_eq:
  assumes "length src = 4 * n" and "length dst = 4 * n"
  shows "hs_columnar_split_bytes4 src dst n = Some (split_of 4 src n)"
proof -
  let ?f = "\<lambda>i dst. do {
       lanes \<leftarrow> simde_vld4q_u8 src (4 * i);
       for_loop 0 4 (\<lambda>j dst. simde_vst1q_u8 dst (j * n + i) (lanes ! j)) dst
     }"
  have "\<exists>i d. block_loop 16 0 n ?f dst = Some (i, d) \<and> 0 \<le> i \<and> i \<le> n \<and> split_done 4 src n i 16 (\<lambda>_. False) d"
  proof (rule block_loop_inv [where P = "\<lambda>i. split_done 4 src n i 16 (\<lambda>_. False)"])
    show "split_done 4 src n 0 16 (\<lambda>_. False) dst" using assms(2) by (simp add: split_done_def)
  qed (simp_all only: split4_block assms(1) zero_less_numeral le0)
  then obtain i d where d: "block_loop 16 0 n ?f dst = Some (i, d)" "i \<le> n" "split_done 4 src n i 16 (\<lambda>_. False) d"
    by blast
  obtain d' where "split_tail 4 src n i d = Some d'" "split_done 4 src n n 1 (\<lambda>_. False) d'"
    using split_tail_eq [OF split_done_start [OF d(3)] d(2) assms(1)] by blast
  then show ?thesis using d(1) split_done_all unfolding hs_columnar_split_bytes4_def by simp
qed

lemma split_bytes8_eq:
  assumes "length src = 8 * n" and "length dst = 8 * n"
  shows "hs_columnar_split_bytes8 src dst n = Some (split_of 8 src n)"
proof -
  let ?f = "\<lambda>i dst. do {
       lo \<leftarrow> simde_vld4q_u8 src (8 * i);
       hi \<leftarrow> simde_vld4q_u8 src (8 * i + 64);
       for_loop 0 4 (\<lambda>j dst. do {
         dst \<leftarrow> simde_vst1q_u8 dst (j * n + i) (simde_vuzp1q_u8 (lo ! j) (hi ! j));
         simde_vst1q_u8 dst ((j + 4) * n + i) (simde_vuzp2q_u8 (lo ! j) (hi ! j))
       }) dst
     }"
  have "\<exists>i d. block_loop 16 0 n ?f dst = Some (i, d) \<and> 0 \<le> i \<and> i \<le> n \<and> split_done 8 src n i 16 (\<lambda>_. False) d"
  proof (rule block_loop_inv [where P = "\<lambda>i. split_done 8 src n i 16 (\<lambda>_. False)"])
    show "split_done 8 src n 0 16 (\<lambda>_. False) dst" using assms(2) by (simp add: split_done_def)
  qed (simp_all only: split8_block assms(1) zero_less_numeral le0)
  then obtain i d where d: "block_loop 16 0 n ?f dst = Some (i, d)" "i \<le> n" "split_done 8 src n i 16 (\<lambda>_. False) d"
    by blast
  obtain d' where "split_tail 8 src n i d = Some d'" "split_done 8 src n n 1 (\<lambda>_. False) d'"
    using split_tail_eq [OF split_done_start [OF d(3)] d(2) assms(1)] by blast
  then show ?thesis using d(1) split_done_all unfolding hs_columnar_split_bytes8_def by simp
qed

subsection \<open>The join kernels\<close>

definition join_at :: "nat \<Rightarrow> bytes \<Rightarrow> nat \<Rightarrow> nat \<Rightarrow> u8" where
  "join_at w src n p = src ! (p mod w * n + p div w)"

definition join_of :: "nat \<Rightarrow> bytes \<Rightarrow> nat \<Rightarrow> bytes" where
  "join_of w src n = map (join_at w src n) [0..<w * n]"

text \<open>The first \<open>c\<close> bytes are written.\<close>

definition join_done :: "nat \<Rightarrow> bytes \<Rightarrow> nat \<Rightarrow> nat \<Rightarrow> bytes \<Rightarrow> bool" where
  "join_done w src n c dst \<longleftrightarrow> length dst = w * n \<and> (\<forall>p<c. dst ! p = join_at w src n p)"

lemma put_next:
  assumes "join_done w src n c dst" and "c + length xs \<le> w * n"
    and "\<And>k. k < length xs \<Longrightarrow> xs ! k = join_at w src n (c + k)"
  shows "\<exists>dst'. store_block dst c xs = Some dst' \<and> join_done w src n (c + length xs) dst'"
proof -
  have fits: "c + length xs \<le> length dst" using assms(1,2) by (simp add: join_done_def)
  then have st: "store_block dst c xs = Some (take c dst @ xs @ drop (c + length xs) dst)"
    by (rule store_block_in)
  have "join_done w src n (c + length xs) (take c dst @ xs @ drop (c + length xs) dst)"
    using assms fits by (auto simp: join_done_def nth_append not_less dest: le_Suc_ex)
  with st show ?thesis by blast
qed

lemma join_at_row: "j < w \<Longrightarrow> join_at w src n (w * i + j) = src ! (j * n + i)"
  by (simp add: join_at_def div_mult_self4 mod_mult_self4)

lemma join_done_all: "join_done w src n (w * n) dst \<Longrightarrow> dst = join_of w src n"
  by (auto simp: join_done_def join_of_def intro: nth_equalityI)

lemma join_tail_eq:
  assumes "join_done w src n (w * i) dst" and "i \<le> n" and "length src = w * n"
  shows "\<exists>dst'. join_tail w src n i dst = Some dst' \<and> join_done w src n (w * n) dst'"
  unfolding join_tail_def
proof (rule for_loop_inv [where P = "\<lambda>i. join_done w src n (w * i)", OF assms(2,1)])
  fix i dst assume i: "i < n" and d: "join_done w src n (w * i) dst"
  have room: "w * i + w \<le> w * n" using mult_le_mono2 [of "Suc i" n w] i by simp
  have "\<exists>dst'. for_loop 0 w (\<lambda>j dst. do { b \<leftarrow> load src (j * n + i); store dst (w * i + j) b }) dst = Some dst' \<and>
      join_done w src n (w * i + w) dst'"
  proof (rule for_loop_inv [where P = "\<lambda>J. join_done w src n (w * i + J)"])
    fix j dst assume j: "j < w" and d: "join_done w src n (w * i + j) dst"
    have "j * n + n \<le> w * n" using mult_le_mono1 [of "Suc j" w n] j by simp
    then have "load src (j * n + i) = Some (src ! (j * n + i))" using assms(3) i by (intro load_in) linarith
    moreover have "\<exists>dst'. store_block dst (w * i + j) [src ! (j * n + i)] = Some dst' \<and>
        join_done w src n (w * i + j + length [src ! (j * n + i)]) dst'"
      by (rule put_next [OF d]) (use j room in \<open>simp_all add: join_at_row\<close>)
    ultimately show "\<exists>dst'. do { b \<leftarrow> load src (j * n + i); store dst (w * i + j) b } = Some dst' \<and>
        join_done w src n (w * i + Suc j) dst'"
      by (simp add: store_as_block)
  qed (use d in simp_all)
  then show "\<exists>dst'. for_loop 0 w (\<lambda>j dst. do { b \<leftarrow> load src (j * n + i); store dst (w * i + j) b }) dst = Some dst' \<and>
      join_done w src n (w * Suc i) dst'"
    by (simp add: ac_simps)
qed

lemma fill_lanes_eq:
  assumes "\<And>j. j < 4 \<Longrightarrow> f j = Some (v j)"
  shows "fill_lanes f = Some (map v [0..<4])"
proof -
  have "\<exists>vs. for_loop 0 4 (\<lambda>j vs. do { x \<leftarrow> f j; Some (vs @ [x]) }) [] = Some vs \<and> vs = map v [0..<4]"
    by (rule for_loop_inv [where P = "\<lambda>j vs. vs = map v [0..<j]"]) (simp_all add: assms)
  then show ?thesis by (simp add: fill_lanes_def)
qed

lemma vst4q_put:
  assumes "join_done w src n c dst" and "c + 64 \<le> w * n"
    and "\<And>j k. j < 4 \<Longrightarrow> k < 16 \<Longrightarrow> lanes ! j ! k = join_at w src n (c + 4 * k + j)"
  shows "\<exists>dst'. simde_vst4q_u8 dst c lanes = Some dst' \<and> join_done w src n (c + 64) dst'"
proof -
  let ?xs = "map (\<lambda>i. lanes ! (i mod 4) ! (i div 4)) [0..<64]"
  have "\<exists>dst'. store_block dst c ?xs = Some dst' \<and> join_done w src n (c + length ?xs) dst'"
  proof (rule put_next [OF assms(1)])
    fix k assume "k < length ?xs"
    then have "k < 64" "k div 4 < 16" by auto
    moreover have "c + 4 * (k div 4) + k mod 4 = c + k" by simp
    ultimately show "?xs ! k = join_at w src n (c + k)"
      using assms(3) [of "k mod 4" "k div 4"] by (simp add: add.commute [of c])
  qed (use assms(2) in simp)
  then show ?thesis by (simp add: simde_vst4q_u8_def)
qed

lemma vld1q_eq: "p + 16 \<le> length src \<Longrightarrow> simde_vld1q_u8 src p = Some (take 16 (drop p src))"
  by (simp add: simde_vld1q_u8_def load_block_in)

lemma join4_block:
  assumes "join_done 4 src n (4 * i) dst" and "i + 16 \<le> n" and "length src = 4 * n"
  shows "\<exists>dst'. do {
      lanes \<leftarrow> fill_lanes (\<lambda>j. simde_vld1q_u8 src (j * n + i));
      simde_vst4q_u8 dst (4 * i) lanes
    } = Some dst' \<and> join_done 4 src n (4 * (i + 16)) dst'"
proof -
  have fits: "j * n + i + 16 \<le> length src" if "j < 4" for j
    unfolding assms(3) by (rule column_fits [OF that assms(2)])
  then have f: "fill_lanes (\<lambda>j. simde_vld1q_u8 src (j * n + i)) = Some (map (\<lambda>j. take 16 (drop (j * n + i) src)) [0..<4])"
    by (intro fill_lanes_eq vld1q_eq)
  have "\<exists>dst'. simde_vst4q_u8 dst (4 * i) (map (\<lambda>j. take 16 (drop (j * n + i) src)) [0..<4]) = Some dst' \<and>
      join_done 4 src n (4 * i + 64) dst'"
  proof (rule vst4q_put [OF assms(1)])
    fix j k :: nat assume "j < 4" "k < 16"
    then show "map (\<lambda>j. take 16 (drop (j * n + i) src)) [0..<4] ! j ! k = join_at 4 src n (4 * i + 4 * k + j)"
      using join_at_row [of j 4 src n "i + k"] fits [of j] by (simp add: algebra_simps)
  qed (use assms(2) in simp)
  then show ?thesis by (simp add: f)
qed

lemma join8_block:
  assumes "join_done 8 src n (8 * i) dst" and "i + 16 \<le> n" and "length src = 8 * n"
  shows "\<exists>dst'. do {
      lohi \<leftarrow> fill_lanes (\<lambda>j. do {
        a \<leftarrow> simde_vld1q_u8 src (j * n + i);
        b \<leftarrow> simde_vld1q_u8 src ((j + 4) * n + i);
        Some (simde_vzip1q_u8 a b, simde_vzip2q_u8 a b)
      });
      dst \<leftarrow> simde_vst4q_u8 dst (8 * i) (map fst lohi);
      simde_vst4q_u8 dst (8 * i + 64) (map snd lohi)
    } = Some dst' \<and> join_done 8 src n (8 * (i + 16)) dst'"
proof -
  define col where "col j = take 16 (drop (j * n + i) src)" for j
  have fits: "j * n + i + 16 \<le> length src" if "j < 8" for j
    unfolding assms(3) by (rule column_fits [OF that assms(2)])
  have col: "col j ! k = src ! (j * n + (i + k))" if "j < 8" "k < 16" for j k
    using fits [OF that(1)] that(2) by (simp add: col_def ac_simps)
  have f: "fill_lanes (\<lambda>j. do {
        a \<leftarrow> simde_vld1q_u8 src (j * n + i);
        b \<leftarrow> simde_vld1q_u8 src ((j + 4) * n + i);
        Some (simde_vzip1q_u8 a b, simde_vzip2q_u8 a b)
      }) = Some (map (\<lambda>j. (simde_vzip1q_u8 (col j) (col (j + 4)), simde_vzip2q_u8 (col j) (col (j + 4)))) [0..<4])"
    by (rule fill_lanes_eq) (simp add: vld1q_eq fits col_def)
  have at: "join_at 8 src n (8 * i + 8 * t + j) = src ! (j * n + (i + t))" if "j < 8" for t j
    using join_at_row [OF that, of src n "i + t"] by (simp add: distrib_left)
  have row: "join_at 8 src n (8 * i + 4 * k + j) = (if even k then col j ! (k div 2) else col (j + 4) ! (k div 2))"
    if "j < 4" "k div 2 < 16" for j k
  proof (cases "even k")
    case True
    then obtain t where "k = 2 * t" by (elim evenE)
    with that show ?thesis using at [of j t] by (simp add: col)
  next
    case False
    then obtain t where "k = 2 * t + 1" by (elim oddE)
    with that show ?thesis using at [of "j + 4" t] by (simp add: col ac_simps)
  qed
  obtain d1 where d1: "simde_vst4q_u8 dst (8 * i) (map (\<lambda>j. simde_vzip1q_u8 (col j) (col (j + 4))) [0..<4]) = Some d1"
      "join_done 8 src n (8 * i + 64) d1"
  proof -
    have "\<exists>d1. simde_vst4q_u8 dst (8 * i) (map (\<lambda>j. simde_vzip1q_u8 (col j) (col (j + 4))) [0..<4]) = Some d1 \<and>
        join_done 8 src n (8 * i + 64) d1"
      by (rule vst4q_put [OF assms(1)]) (use assms(2) row in \<open>simp_all add: simde_vzip1q_u8_def\<close>)
    then show thesis using that by blast
  qed
  have "\<exists>d2. simde_vst4q_u8 d1 (8 * i + 64) (map (\<lambda>j. simde_vzip2q_u8 (col j) (col (j + 4))) [0..<4]) = Some d2 \<and>
      join_done 8 src n (8 * i + 64 + 64) d2"
  proof (rule vst4q_put [OF d1(2)])
    fix j k :: nat assume jk: "j < 4" "k < 16"
    then have "join_at 8 src n (8 * i + 64 + 4 * k + j) =
        (if even k then col j ! (8 + k div 2) else col (j + 4) ! (8 + k div 2))"
    proof -
      have h: "(16 + k) div 2 = 8 + k div 2" by simp
      show ?thesis using jk row [of j "16 + k"] unfolding h by (simp add: ac_simps)
    qed
    then show "map (\<lambda>j. simde_vzip2q_u8 (col j) (col (j + 4))) [0..<4] ! j ! k = join_at 8 src n (8 * i + 64 + 4 * k + j)"
      using jk by (simp add: simde_vzip2q_u8_def)
  qed (use assms(2) in simp)
  moreover have e: "8 * (i + 16) = 8 * i + 64 + 64" by simp
  ultimately show ?thesis using d1(1) unfolding e by (simp add: f comp_def)
qed

lemma join_bytes4_eq:
  assumes "length src = 4 * n" and "length dst = 4 * n"
  shows "hs_columnar_join_bytes4 src dst n = Some (join_of 4 src n)"
proof -
  let ?f = "\<lambda>i dst. do {
       lanes \<leftarrow> fill_lanes (\<lambda>j. simde_vld1q_u8 src (j * n + i));
       simde_vst4q_u8 dst (4 * i) lanes
     }"
  have "\<exists>i d. block_loop 16 0 n ?f dst = Some (i, d) \<and> 0 \<le> i \<and> i \<le> n \<and> join_done 4 src n (4 * i) d"
  proof (rule block_loop_inv [where P = "\<lambda>i. join_done 4 src n (4 * i)"])
    show "join_done 4 src n (4 * 0) dst" using assms(2) by (simp add: join_done_def)
  qed (simp_all only: join4_block assms(1) zero_less_numeral le0)
  then obtain i d where d: "block_loop 16 0 n ?f dst = Some (i, d)" "i \<le> n" "join_done 4 src n (4 * i) d"
    by blast
  obtain d' where "join_tail 4 src n i d = Some d'" "join_done 4 src n (4 * n) d'"
    using join_tail_eq [OF d(3) d(2) assms(1)] by blast
  then show ?thesis using d(1) join_done_all unfolding hs_columnar_join_bytes4_def by simp
qed

lemma join_bytes8_eq:
  assumes "length src = 8 * n" and "length dst = 8 * n"
  shows "hs_columnar_join_bytes8 src dst n = Some (join_of 8 src n)"
proof -
  let ?f = "\<lambda>i dst. do {
       lohi \<leftarrow> fill_lanes (\<lambda>j. do {
         a \<leftarrow> simde_vld1q_u8 src (j * n + i);
         b \<leftarrow> simde_vld1q_u8 src ((j + 4) * n + i);
         Some (simde_vzip1q_u8 a b, simde_vzip2q_u8 a b)
       });
       dst \<leftarrow> simde_vst4q_u8 dst (8 * i) (map fst lohi);
       simde_vst4q_u8 dst (8 * i + 64) (map snd lohi)
     }"
  have "\<exists>i d. block_loop 16 0 n ?f dst = Some (i, d) \<and> 0 \<le> i \<and> i \<le> n \<and> join_done 8 src n (8 * i) d"
  proof (rule block_loop_inv [where P = "\<lambda>i. join_done 8 src n (8 * i)"])
    show "join_done 8 src n (8 * 0) dst" using assms(2) by (simp add: join_done_def)
  qed (simp_all only: join8_block assms(1) zero_less_numeral le0)
  then obtain i d where d: "block_loop 16 0 n ?f dst = Some (i, d)" "i \<le> n" "join_done 8 src n (8 * i) d"
    by blast
  obtain d' where "join_tail 8 src n i d = Some d'" "join_done 8 src n (8 * n) d'"
    using join_tail_eq [OF d(3) d(2) assms(1)] by blast
  then show ?thesis using d(1) join_done_all unfolding hs_columnar_join_bytes8_def by simp
qed

subsection \<open>Round trips\<close>

lemma join_split: "length xs = w * n \<Longrightarrow> join_of w (split_of w xs n) n = xs"
proof (rule nth_equalityI)
  assume len: "length xs = w * n"
  fix p assume "p < length (join_of w (split_of w xs n) n)"
  then have p: "p < w * n" by (simp add: join_of_def)
  then have w: "0 < w" "0 < n" by (auto intro: Nat.gr0I)
  then have q: "p div w < n" "p mod w < w"
    using p by (simp_all add: less_mult_imp_div_less mult.commute)
  then have "p mod w * n + p div w < w * n" using column_fits [of "p mod w" w "p div w" 1 n] by simp
  then show "join_of w (split_of w xs n) n ! p = xs ! p"
    using p q w by (simp add: join_of_def join_at_def split_of_def)
qed (simp add: join_of_def)

text \<open>C29: splitting 4- or 8-byte values into byte streams and joining the streams gives the values
  back, for every count; both directions stay inside their buffers.\<close>

theorem byte_split_roundtrip:
  assumes "length dst = length src" and "length back = length src"
  shows "(length src = 4 * n \<longrightarrow> (\<exists>mid. hs_columnar_split_bytes4 src dst n = Some mid \<and>
      hs_columnar_join_bytes4 mid back n = Some src)) \<and>
    (length src = 8 * n \<longrightarrow> (\<exists>mid. hs_columnar_split_bytes8 src dst n = Some mid \<and>
      hs_columnar_join_bytes8 mid back n = Some src))"
proof -
  have len: "length (split_of w src n) = w * n" for w by (simp add: split_of_def)
  show ?thesis
    using assms
    by (simp add: split_bytes4_eq split_bytes8_eq join_bytes4_eq join_bytes8_eq len join_split)
qed

theorem byte_split_roundtrip_witness:
  "\<exists>mid. hs_columnar_split_bytes4 [1, 2, 3, 4, 5, 6, 7, 8] (replicate 8 0) 2 = Some mid \<and>
    hs_columnar_join_bytes4 mid (replicate 8 0) 2 = Some [1, 2, 3, 4, 5, 6, 7, 8]"
  using byte_split_roundtrip [of "replicate 8 0" "[1, 2, 3, 4, 5, 6, 7, 8]" "replicate 8 0" 2] by simp

end
