(* ===== verification/Neon.thy ===== *)
theory Neon
  imports Endian
begin

text \<open>
  The NEON operations of the HTML scanners, from simde's portable branches
  (\<open>wireform-html/cbits/simde/simde/arm/neon\<close>), and the block loop of the scanners' NEON build: the
  hit lanes are read as two 64-bit words and the position of the first hit is the number of trailing
  zeros divided by 8.
\<close>

subsection \<open>Vector operations\<close>

definition vdupq_n_u8 :: "u8 \<Rightarrow> m128i" where
  "vdupq_n_u8 a = replicate 16 a"

definition vld1q_u8 :: "bytes \<Rightarrow> nat \<Rightarrow> m128i option" where
  "vld1q_u8 buf i = load_block buf i 16"

definition vceqq_u8 :: "m128i \<Rightarrow> m128i \<Rightarrow> m128i" where
  "vceqq_u8 = map2 (\<lambda>a b. if a = b then NOT 0 else 0)"

definition vorrq_u8 :: "m128i \<Rightarrow> m128i \<Rightarrow> m128i" where
  "vorrq_u8 = map2 (OR)"

definition vandq_u8 :: "m128i \<Rightarrow> m128i \<Rightarrow> m128i" where
  "vandq_u8 = map2 (AND)"

definition vmaxvq_u8 :: "m128i \<Rightarrow> u8" where
  "vmaxvq_u8 a = foldl (\<lambda>r x. if r < x then x else r) 0 a"

definition vreinterpretq_u64_u8 :: "m128i \<Rightarrow> u64 list" where
  "vreinterpretq_u64_u8 a = [le_word (take 8 a), le_word (take 8 (drop 8 a))]"

definition vgetq_lane_u64 :: "u64 list \<Rightarrow> nat \<Rightarrow> u64" where
  "vgetq_lane_u64 v lane = v ! lane"

named_theorems neon_simps \<open>lanes of NEON operations\<close>

lemma neon_length [neon_simps]:
  "length (vdupq_n_u8 a) = 16"
  "length u = 16 \<Longrightarrow> length v = 16 \<Longrightarrow> length (vceqq_u8 u v) = 16"
  "length u = 16 \<Longrightarrow> length v = 16 \<Longrightarrow> length (vorrq_u8 u v) = 16"
  "length u = 16 \<Longrightarrow> length v = 16 \<Longrightarrow> length (vandq_u8 u v) = 16"
  by (simp_all add: vdupq_n_u8_def vceqq_u8_def vorrq_u8_def vandq_u8_def)

lemma neon_nth [neon_simps]:
  "i < 16 \<Longrightarrow> vdupq_n_u8 a ! i = a"
  "i < 16 \<Longrightarrow> length u = 16 \<Longrightarrow> length v = 16 \<Longrightarrow> vceqq_u8 u v ! i = (if u ! i = v ! i then NOT 0 else 0)"
  "i < 16 \<Longrightarrow> length u = 16 \<Longrightarrow> length v = 16 \<Longrightarrow> vorrq_u8 u v ! i = u ! i OR v ! i"
  "i < 16 \<Longrightarrow> length u = 16 \<Longrightarrow> length v = 16 \<Longrightarrow> vandq_u8 u v ! i = u ! i AND v ! i"
  by (simp_all add: vdupq_n_u8_def vceqq_u8_def vorrq_u8_def vandq_u8_def)

lemma foldl_max_zero:
  "foldl (\<lambda>r x. if r < x then x else r) (r :: u8) v = 0 \<longleftrightarrow> r = 0 \<and> (\<forall>x \<in> set v. x = 0)"
proof (induction v arbitrary: r)
  case (Cons x v)
  have "(if r < x then x else r) = 0 \<longleftrightarrow> r = 0 \<and> x = 0"
    by (metis word_gt_0 word_not_simps(1))
  then show ?case using Cons [of "if r < x then x else r"] by (simp del: if_split)
qed simp

lemma vmaxvq_zero: "vmaxvq_u8 v = 0 \<longleftrightarrow> (\<forall>x \<in> set v. x = 0)"
  by (simp add: vmaxvq_u8_def foldl_max_zero)

subsection \<open>The block loop\<close>

function neon_blocks :: "(m128i \<Rightarrow> m128i) \<Rightarrow> bytes \<Rightarrow> nat \<Rightarrow> nat \<Rightarrow> (nat + nat) option" where
  "neon_blocks hit buf i len =
     (if 16 \<le> len - i
      then do {
        chunk \<leftarrow> vld1q_u8 buf i;
        let hit64 = vreinterpretq_u64_u8 (hit chunk);
        let lo = vgetq_lane_u64 hit64 0;
        let hi = vgetq_lane_u64 hit64 1;
        if lo \<noteq> 0 then Some (Inl (i + builtin_ctz lo div 8))
        else if hi \<noteq> 0 then Some (Inl (i + 8 + builtin_ctz hi div 8))
        else neon_blocks hit buf (i + 16) len
      }
      else Some (Inr i))"
  by pat_completeness auto
termination
  by (relation "measure (\<lambda>(hit, buf, i, len). len - i)") auto

declare neon_blocks.simps [simp del]

text \<open>The first set lane of a word of full lanes.\<close>

lemma le_word_lane:
  assumes "length bs = 8" and "\<And>j. j < 8 \<Longrightarrow> bs ! j = (if q j then NOT 0 else 0)"
  shows "bit (le_word bs :: u64) j \<longleftrightarrow> j < 64 \<and> q (j div 8)"
proof (cases "j < 64")
  case True
  then have "j div 8 < 8" by simp
  then show ?thesis using assms True by (simp add: bit_le_word bit_simps)
qed (simp add: bit_le_word)

lemma ctz_lane:
  assumes "length bs = 8" and "\<And>j. j < 8 \<Longrightarrow> bs ! j = (if q j then NOT 0 else 0)"
  shows "(le_word bs :: u64) = 0 \<longleftrightarrow> (\<forall>j<8. \<not> q j)"
    and "(le_word bs :: u64) \<noteq> 0 \<Longrightarrow> builtin_ctz (le_word bs :: u64) div 8 < 8"
    and "(le_word bs :: u64) \<noteq> 0 \<Longrightarrow> q (builtin_ctz (le_word bs :: u64) div 8)"
    and "(le_word bs :: u64) \<noteq> 0 \<Longrightarrow> j < builtin_ctz (le_word bs :: u64) div 8 \<Longrightarrow> \<not> q j"
proof -
  note lane = le_word_lane [OF assms]
  show "(le_word bs :: u64) = 0 \<longleftrightarrow> (\<forall>j<8. \<not> q j)"
  proof
    assume z: "(le_word bs :: u64) = 0"
    show "\<forall>j<8. \<not> q j"
    proof (intro allI impI)
      fix j :: nat assume "j < 8"
      then show "\<not> q j" using lane [of "8 * j"] z by simp
    qed
  qed (auto simp: bit_eq_iff lane)
  assume nz: "(le_word bs :: u64) \<noteq> 0"
  note c = builtin_ctz_bit [OF nz]
  show "builtin_ctz (le_word bs :: u64) div 8 < 8" and "q (builtin_ctz (le_word bs :: u64) div 8)"
    using c(1) by (simp_all add: lane less_mult_imp_div_less)
  assume j: "j < builtin_ctz (le_word bs :: u64) div 8"
  then have "8 * j < builtin_ctz (le_word bs :: u64)" by linarith
  from c(2) [OF this] \<open>8 * j < _\<close> show "\<not> q j" using c(1) by (auto simp: lane)
qed

text \<open>The interface: a hit vector whose lanes are all ones exactly where the scalar test accepts.\<close>

locale hit_test =
  fixes hit :: "m128i \<Rightarrow> m128i" and p :: "u8 \<Rightarrow> bool"
  assumes hit_length: "length v = 16 \<Longrightarrow> length (hit v) = 16"
    and hit_lane: "length v = 16 \<Longrightarrow> i < 16 \<Longrightarrow> hit v ! i = (if p (v ! i) then NOT 0 else 0)"
begin

lemma lo_hi:
  assumes "length v = 16"
  defines "lo \<equiv> vgetq_lane_u64 (vreinterpretq_u64_u8 (hit v)) 0"
    and "hi \<equiv> vgetq_lane_u64 (vreinterpretq_u64_u8 (hit v)) 1"
  shows "lo = 0 \<longleftrightarrow> (\<forall>j<8. \<not> p (v ! j))" and "hi = 0 \<longleftrightarrow> (\<forall>j<8. \<not> p (v ! (8 + j)))"
    and "lo \<noteq> 0 \<Longrightarrow> builtin_ctz lo div 8 < 8 \<and> p (v ! (builtin_ctz lo div 8)) \<and>
      (\<forall>j < builtin_ctz lo div 8. \<not> p (v ! j))"
    and "hi \<noteq> 0 \<Longrightarrow> builtin_ctz hi div 8 < 8 \<and> p (v ! (8 + builtin_ctz hi div 8)) \<and>
      (\<forall>j < builtin_ctz hi div 8. \<not> p (v ! (8 + j)))"
proof -
  have l: "length (take 8 (hit v)) = 8"
      "\<And>j. j < 8 \<Longrightarrow> take 8 (hit v) ! j = (if p (v ! j) then NOT 0 else 0)"
    and h: "length (take 8 (drop 8 (hit v))) = 8"
      "\<And>j. j < 8 \<Longrightarrow> take 8 (drop 8 (hit v)) ! j = (if p (v ! (8 + j)) then NOT 0 else 0)"
    using hit_length [OF assms(1)] hit_lane [OF assms(1)] by simp_all
  note defs = lo_def hi_def vgetq_lane_u64_def vreinterpretq_u64_u8_def
  show "lo = 0 \<longleftrightarrow> (\<forall>j<8. \<not> p (v ! j))"
    using ctz_lane(1) [OF l] by (simp add: defs)
  show "hi = 0 \<longleftrightarrow> (\<forall>j<8. \<not> p (v ! (8 + j)))"
    using ctz_lane(1) [OF h] by (simp add: defs)
  show "lo \<noteq> 0 \<Longrightarrow> builtin_ctz lo div 8 < 8 \<and> p (v ! (builtin_ctz lo div 8)) \<and>
      (\<forall>j < builtin_ctz lo div 8. \<not> p (v ! j))"
    using ctz_lane(2-4) [OF l] by (simp add: defs)
  show "hi \<noteq> 0 \<Longrightarrow> builtin_ctz hi div 8 < 8 \<and> p (v ! (8 + builtin_ctz hi div 8)) \<and>
      (\<forall>j < builtin_ctz hi div 8. \<not> p (v ! (8 + j)))"
    using ctz_lane(2-4) [OF h] by (simp add: defs)
qed

lemma neon_blocks_spec:
  assumes "len \<le> length buf"
  shows "(case neon_blocks hit buf i len of
      None \<Rightarrow> False
    | Some (Inl k) \<Rightarrow> first_pos p buf i len = Some k
    | Some (Inr j) \<Rightarrow> i \<le> j \<and> (i \<le> len \<longrightarrow> j \<le> len) \<and> first_pos p buf i len = first_pos p buf j len)"
proof (induction "len - i" arbitrary: i rule: less_induct)
  case less
  show ?case
  proof (cases "16 \<le> len - i")
    case True
    define v where "v = take 16 (drop i buf)"
    have v: "length v = 16" and at: "\<And>k. k < 16 \<Longrightarrow> v ! k = buf ! (i + k)"
      using True assms by (simp_all add: v_def)
    have load: "vld1q_u8 buf i = Some v"
      using True assms by (simp add: vld1q_u8_def load_block_in v_def)
    define lo where "lo = vgetq_lane_u64 (vreinterpretq_u64_u8 (hit v)) 0"
    define hi where "hi = vgetq_lane_u64 (vreinterpretq_u64_u8 (hit v)) 1"
    note L = lo_hi [OF v, folded lo_def hi_def]
    have unfold: "neon_blocks hit buf i len =
       (if lo \<noteq> 0 then Some (Inl (i + builtin_ctz lo div 8))
        else if hi \<noteq> 0 then Some (Inl (i + 8 + builtin_ctz hi div 8))
        else neon_blocks hit buf (i + 16) len)"
      by (subst neon_blocks.simps) (simp add: True load lo_def hi_def Let_def)
    have none: "\<not> p (buf ! k)" if "lo = 0" "i \<le> k" "k < i + 8" for k
      using that L(1) at [of "k - i"] by (auto dest: spec [of _ "k - i"])
    have none': "\<not> p (buf ! k)" if "hi = 0" "i + 8 \<le> k" "k < i + 16" for k
      using that L(2) at [of "k - i"] by (auto dest!: spec [of _ "k - (i + 8)"])
    consider "lo \<noteq> 0" | "lo = 0" "hi \<noteq> 0" | "lo = 0" "hi = 0" by blast
    then show ?thesis
    proof cases
      case 1
      define c where "c = builtin_ctz lo div 8"
      have c: "c < 8" "p (v ! c)" "\<And>j. j < c \<Longrightarrow> \<not> p (v ! j)"
        unfolding c_def using L(3) [OF 1] by blast+
      have "first_pos p buf i len = Some (i + c)"
      proof (rule first_pos_hit)
        fix k assume "i \<le> k" "k < i + c"
        then show "\<not> p (buf ! k)" using c(1) c(3) [of "k - i"] at [of "k - i"] by simp
      qed (use c at [of c] True in simp_all)
      with 1 True load show ?thesis by (simp add: unfold c_def)
    next
      case 2
      define c where "c = builtin_ctz hi div 8"
      have c: "c < 8" "p (v ! (8 + c))" "\<And>j. j < c \<Longrightarrow> \<not> p (v ! (8 + j))"
        unfolding c_def using L(4) [OF 2(2)] by blast+
      have "first_pos p buf i len = Some (i + (8 + c))"
      proof (rule first_pos_hit)
        fix k assume k: "i \<le> k" "k < i + (8 + c)"
        show "\<not> p (buf ! k)"
        proof (cases "k < i + 8")
          case False
          then obtain d where "k = i + (8 + d)" by (metis add.assoc le_Suc_ex not_less)
          then show ?thesis using c(1) c(3) [of d] at [of "8 + d"] k by simp
        qed (use none 2 k in simp)
      qed (use c at [of "8 + c"] True in simp_all)
      with 2 True load show ?thesis by (simp add: unfold c_def add.assoc)
    next
      case 3
      have "first_pos p buf i len = first_pos p buf (i + 16) len"
      proof (rule first_pos_skip)
        fix k assume "i \<le> k" "k < i + 16"
        then show "\<not> p (buf ! k)" using none [OF 3(1)] none' [OF 3(2)] by (cases "k < i + 8") simp_all
      qed (use True in simp_all)
      moreover have "len - (i + 16) < len - i" using True by arith
      ultimately show ?thesis
        using less [of "i + 16"] 3 True load
        by (simp add: unfold split: option.splits sum.splits)
    qed
  qed (simp add: neon_blocks.simps)
qed

end

end
