(* ===== verification/Html_Scan.thy ===== *)
theory Html_Scan
  imports Neon
begin

text \<open>
  \<open>wireform-html/cbits/html_scan.c\<close>: the scanners behind the HTML tokenizer and the escaper.  Each
  function is written three times in the source, for NEON, for SSE2 and as the scalar loop of
  \<open>WIREFORM_HTML_SCAN_NO_SIMD\<close>; the build is the first argument of its model.  \<open>p\<close> and \<open>pend\<close> are
  indices into the buffer, and the scalar loop is the tail of every build.
\<close>

datatype build = NEON | SSE2 | NO_SIMD

subsection \<open>The scanning loop\<close>

definition scan_build ::
  "build \<Rightarrow> (m128i \<Rightarrow> m128i) \<Rightarrow> (m128i \<Rightarrow> u32) \<Rightarrow> (u8 \<Rightarrow> bool) \<Rightarrow> bytes \<Rightarrow> nat \<Rightarrow> nat \<Rightarrow> nat option option" where
  "scan_build bld hit msk p buf i len = do {
     r \<leftarrow> (case bld of
            NEON \<Rightarrow> neon_blocks hit buf i len
          | SSE2 \<Rightarrow> scan_blocks (simde_mm_loadu_si128 buf) msk i len
          | NO_SIMD \<Rightarrow> Some (Inr i));
     (case r of Inl k \<Rightarrow> Some (Some k) | Inr i' \<Rightarrow> scan_bytes p buf i' len)
   }"

text \<open>A test that all three builds implement.\<close>

locale scan_test = hit_test hit p + lane_test msk p
  for hit :: "m128i \<Rightarrow> m128i" and msk :: "m128i \<Rightarrow> u32" and p :: "u8 \<Rightarrow> bool"
begin

lemma scan_blocks_loadu:
  assumes "len \<le> length buf"
  shows "(case scan_blocks (simde_mm_loadu_si128 buf) msk i len of
      None \<Rightarrow> False
    | Some (Inl k) \<Rightarrow> first_pos p buf i len = Some k
    | Some (Inr j) \<Rightarrow> i \<le> j \<and> (i \<le> len \<longrightarrow> j \<le> len) \<and> first_pos p buf i len = first_pos p buf j len)"
  by (rule scan_blocks_spec) (use assms in \<open>simp_all add: simde_mm_loadu_si128_def load_block_in\<close>)

lemma scan_build_spec:
  "len \<le> length buf \<Longrightarrow> scan_build bld hit msk p buf i len = Some (first_pos p buf i len)"
  using neon_blocks_spec [of len buf i] scan_blocks_loadu [of len buf i]
  by (cases bld) (auto simp: scan_build_def scan_bytes_spec split: option.splits sum.splits)

end

text \<open>Where a scan that returns has stopped, for the loops that restart from it.\<close>

lemma scan_bytes_range: "scan_bytes p buf i len = Some (Some k) \<Longrightarrow> i \<le> k"
proof (induction p buf i len rule: scan_bytes.induct)
  case (1 p buf i len)
  show ?case
  proof (cases "i < len")
    case True
    with 1 show ?thesis
      by (subst (asm) scan_bytes.simps) (auto split: if_splits simp: Option.bind_eq_Some_conv)
  next
    case False
    with 1(2) show ?thesis by (subst (asm) scan_bytes.simps) simp
  qed
qed

lemma scan_blocks_range:
  "scan_blocks ld f i len = Some r \<Longrightarrow> i \<le> (case r of Inl k \<Rightarrow> k | Inr k \<Rightarrow> k)"
proof (induction ld f i len rule: scan_blocks.induct)
  case (1 ld f i len)
  show ?case
  proof (cases "16 \<le> len - i")
    case True
    with 1 show ?thesis
      by (subst (asm) (2) scan_blocks.simps) (fastforce split: if_splits sum.splits simp: Option.bind_eq_Some_conv)
  next
    case False
    with 1(2) show ?thesis by (subst (asm) scan_blocks.simps) auto
  qed
qed

lemma neon_blocks_range:
  "neon_blocks hit buf i len = Some r \<Longrightarrow> i \<le> (case r of Inl k \<Rightarrow> k | Inr k \<Rightarrow> k)"
proof (induction hit buf i len rule: neon_blocks.induct)
  case (1 hit buf i len)
  show ?case
  proof (cases "16 \<le> len - i")
    case True
    with 1 show ?thesis
      by (subst (asm) (2) neon_blocks.simps) (fastforce split: if_splits sum.splits simp: Option.bind_eq_Some_conv Let_def)
  next
    case False
    with 1(2) show ?thesis by (subst (asm) neon_blocks.simps) auto
  qed
qed

lemma scan_build_range: "scan_build bld hit msk p buf i len = Some (Some k) \<Longrightarrow> i \<le> k"
proof -
  assume "scan_build bld hit msk p buf i len = Some (Some k)"
  then obtain r where r: "(case bld of NEON \<Rightarrow> neon_blocks hit buf i len
      | SSE2 \<Rightarrow> scan_blocks (simde_mm_loadu_si128 buf) msk i len | NO_SIMD \<Rightarrow> Some (Inr i)) = Some r"
    and k: "(case r of Inl k \<Rightarrow> Some (Some k) | Inr i' \<Rightarrow> scan_bytes p buf i' len) = Some (Some k)"
    by (auto simp: scan_build_def Option.bind_eq_Some_conv)
  have "i \<le> (case r of Inl k \<Rightarrow> k | Inr k \<Rightarrow> k)"
    using r by (cases bld) (auto dest: neon_blocks_range scan_blocks_range)
  with k show "i \<le> k" by (auto split: sum.splits dest: scan_bytes_range)
qed

subsection \<open>The tests\<close>

definition scan_text_neon :: "m128i \<Rightarrow> m128i" where
  "scan_text_neon chunk =
     vorrq_u8
       (vorrq_u8 (vceqq_u8 chunk (vdupq_n_u8 0x3C)) (vceqq_u8 chunk (vdupq_n_u8 0x26)))
       (vorrq_u8 (vceqq_u8 chunk (vdupq_n_u8 0x00)) (vceqq_u8 chunk (vdupq_n_u8 0x0D)))"

definition scan_text_sse2 :: "m128i \<Rightarrow> u32" where
  "scan_text_sse2 chunk = simde_mm_movemask_epi8
     (simde_mm_or_si128
       (simde_mm_or_si128 (simde_mm_cmpeq_epi8 chunk (simde_mm_set1_epi8 0x3C))
         (simde_mm_cmpeq_epi8 chunk (simde_mm_set1_epi8 0x26)))
       (simde_mm_or_si128 (simde_mm_cmpeq_epi8 chunk simde_mm_setzero_si128)
         (simde_mm_cmpeq_epi8 chunk (simde_mm_set1_epi8 0x0D))))"

definition scan_text_stop :: "u8 \<Rightarrow> bool" where
  "scan_text_stop b \<longleftrightarrow> b = 0x3C \<or> b = 0x26 \<or> b = 0x00 \<or> b = 0x0D"

text \<open>A quote and the ampersand: the double quote in \<open>scan_dquote\<close>, the single one in
  \<open>scan_squote\<close>.\<close>

definition scan_quote_neon :: "u8 \<Rightarrow> m128i \<Rightarrow> m128i" where
  "scan_quote_neon q chunk =
     vorrq_u8 (vceqq_u8 chunk (vdupq_n_u8 q)) (vceqq_u8 chunk (vdupq_n_u8 0x26))"

definition scan_quote_sse2 :: "u8 \<Rightarrow> m128i \<Rightarrow> u32" where
  "scan_quote_sse2 q chunk = simde_mm_movemask_epi8
     (simde_mm_or_si128 (simde_mm_cmpeq_epi8 chunk (simde_mm_set1_epi8 q))
       (simde_mm_cmpeq_epi8 chunk (simde_mm_set1_epi8 0x26)))"

definition scan_quote_stop :: "u8 \<Rightarrow> u8 \<Rightarrow> bool" where
  "scan_quote_stop q b \<longleftrightarrow> b = q \<or> b = 0x26"

text \<open>One byte only: \<open>skip_to_dquote\<close>, \<open>skip_to_squote\<close> and \<open>scan_gt\<close>.\<close>

definition skip_to_neon :: "u8 \<Rightarrow> m128i \<Rightarrow> m128i" where
  "skip_to_neon q chunk = vceqq_u8 chunk (vdupq_n_u8 q)"

definition skip_to_sse2 :: "u8 \<Rightarrow> m128i \<Rightarrow> u32" where
  "skip_to_sse2 q chunk =
     simde_mm_movemask_epi8 (simde_mm_cmpeq_epi8 chunk (simde_mm_set1_epi8 q))"

text \<open>The escaper's stops.\<close>

definition text_escape_neon :: "m128i \<Rightarrow> m128i" where
  "text_escape_neon chunk =
     vorrq_u8
       (vorrq_u8 (vceqq_u8 chunk (vdupq_n_u8 0x3C)) (vceqq_u8 chunk (vdupq_n_u8 0x3E)))
       (vceqq_u8 chunk (vdupq_n_u8 0x26))"

definition text_escape_sse2 :: "m128i \<Rightarrow> u32" where
  "text_escape_sse2 chunk =
     (let m1 = simde_mm_movemask_epi8 (simde_mm_cmpeq_epi8 chunk (simde_mm_set1_epi8 0x3C));
          m2 = simde_mm_movemask_epi8 (simde_mm_cmpeq_epi8 chunk (simde_mm_set1_epi8 0x3E));
          m3 = simde_mm_movemask_epi8 (simde_mm_cmpeq_epi8 chunk (simde_mm_set1_epi8 0x26))
      in m1 OR m2 OR m3)"

definition text_escape_stop :: "u8 \<Rightarrow> bool" where
  "text_escape_stop b \<longleftrightarrow> b = 0x3C \<or> b = 0x3E \<or> b = 0x26"

definition attr_escape_neon :: "m128i \<Rightarrow> m128i" where
  "attr_escape_neon chunk =
     vorrq_u8
       (vorrq_u8 (vceqq_u8 chunk (vdupq_n_u8 0x22)) (vceqq_u8 chunk (vdupq_n_u8 0x26)))
       (vorrq_u8 (vceqq_u8 chunk (vdupq_n_u8 0x3C)) (vceqq_u8 chunk (vdupq_n_u8 0x3E)))"

definition attr_escape_sse2 :: "m128i \<Rightarrow> u32" where
  "attr_escape_sse2 chunk =
     (let m1 = simde_mm_movemask_epi8 (simde_mm_cmpeq_epi8 chunk (simde_mm_set1_epi8 0x22));
          m2 = simde_mm_movemask_epi8 (simde_mm_cmpeq_epi8 chunk (simde_mm_set1_epi8 0x26));
          m3 = simde_mm_movemask_epi8 (simde_mm_cmpeq_epi8 chunk (simde_mm_set1_epi8 0x3C));
          m4 = simde_mm_movemask_epi8 (simde_mm_cmpeq_epi8 chunk (simde_mm_set1_epi8 0x3E))
      in m1 OR m2 OR m3 OR m4)"

definition attr_escape_stop :: "u8 \<Rightarrow> bool" where
  "attr_escape_stop b \<longleftrightarrow> b = 0x22 \<or> b = 0x26 \<or> b = 0x3C \<or> b = 0x3E"

interpretation scan_text: scan_test scan_text_neon scan_text_sse2 scan_text_stop
  by unfold_locales (auto simp: scan_text_neon_def scan_text_sse2_def scan_text_stop_def
      neon_simps simd_simps bit_or_iff split: if_splits)

interpretation scan_quote: scan_test "scan_quote_neon q" "scan_quote_sse2 q" "scan_quote_stop q" for q
  by unfold_locales (auto simp: scan_quote_neon_def scan_quote_sse2_def scan_quote_stop_def
      neon_simps simd_simps bit_or_iff split: if_splits)

interpretation skip_to: scan_test "skip_to_neon q" "skip_to_sse2 q" "\<lambda>b. b = q" for q
  by unfold_locales (auto simp: skip_to_neon_def skip_to_sse2_def neon_simps simd_simps split: if_splits)

interpretation text_escape: scan_test text_escape_neon text_escape_sse2 text_escape_stop
  by unfold_locales (auto simp: Let_def text_escape_neon_def text_escape_sse2_def text_escape_stop_def
      neon_simps simd_simps bit_or_iff split: if_splits)

interpretation attr_escape: scan_test attr_escape_neon attr_escape_sse2 attr_escape_stop
  by unfold_locales (auto simp: Let_def attr_escape_neon_def attr_escape_sse2_def attr_escape_stop_def
      neon_simps simd_simps bit_or_iff split: if_splits)

subsection \<open>The plain scanners\<close>

definition or_end :: "nat \<Rightarrow> nat option \<Rightarrow> nat" where
  "or_end e r = (case r of Some k \<Rightarrow> k | None \<Rightarrow> e)"

definition wireform_scan_text :: "build \<Rightarrow> bytes \<Rightarrow> nat \<Rightarrow> nat \<Rightarrow> nat option" where
  "wireform_scan_text bld buf off e =
     map_option (or_end e) (scan_build bld scan_text_neon scan_text_sse2 scan_text_stop buf off e)"

definition wireform_scan_dquote :: "build \<Rightarrow> bytes \<Rightarrow> nat \<Rightarrow> nat \<Rightarrow> nat option" where
  "wireform_scan_dquote bld buf off e =
     map_option (or_end e)
       (scan_build bld (scan_quote_neon 0x22) (scan_quote_sse2 0x22) (scan_quote_stop 0x22) buf off e)"

definition wireform_scan_squote :: "build \<Rightarrow> bytes \<Rightarrow> nat \<Rightarrow> nat \<Rightarrow> nat option" where
  "wireform_scan_squote bld buf off e =
     map_option (or_end e)
       (scan_build bld (scan_quote_neon 0x27) (scan_quote_sse2 0x27) (scan_quote_stop 0x27) buf off e)"

definition wireform_skip_to_dquote :: "build \<Rightarrow> bytes \<Rightarrow> nat \<Rightarrow> nat \<Rightarrow> nat option" where
  "wireform_skip_to_dquote bld buf off e =
     map_option (or_end e)
       (scan_build bld (skip_to_neon 0x22) (skip_to_sse2 0x22) (\<lambda>b. b = 0x22) buf off e)"

definition wireform_skip_to_squote :: "build \<Rightarrow> bytes \<Rightarrow> nat \<Rightarrow> nat \<Rightarrow> nat option" where
  "wireform_skip_to_squote bld buf off e =
     map_option (or_end e)
       (scan_build bld (skip_to_neon 0x27) (skip_to_sse2 0x27) (\<lambda>b. b = 0x27) buf off e)"

text \<open>\<open>scan_gt\<close> returns the index after the \<open>>\<close>.\<close>

definition wireform_scan_gt :: "build \<Rightarrow> bytes \<Rightarrow> nat \<Rightarrow> nat \<Rightarrow> nat option" where
  "wireform_scan_gt bld buf off e =
     map_option (\<lambda>r. case r of Some k \<Rightarrow> k + 1 | None \<Rightarrow> e)
       (scan_build bld (skip_to_neon 0x3E) (skip_to_sse2 0x3E) (\<lambda>b. b = 0x3E) buf off e)"

definition hs_html_find_text_escape :: "build \<Rightarrow> bytes \<Rightarrow> nat \<Rightarrow> nat \<Rightarrow> nat option" where
  "hs_html_find_text_escape bld buf offset len =
     map_option (or_end len)
       (scan_build bld text_escape_neon text_escape_sse2 text_escape_stop buf offset len)"

definition hs_html_find_attr_escape :: "build \<Rightarrow> bytes \<Rightarrow> nat \<Rightarrow> nat \<Rightarrow> nat option" where
  "hs_html_find_attr_escape bld buf offset len =
     map_option (or_end len)
       (scan_build bld attr_escape_neon attr_escape_sse2 attr_escape_stop buf offset len)"

text \<open>Two scanners have only the scalar loop.\<close>

definition tagname_byte :: "u8 \<Rightarrow> bool" where
  "tagname_byte b \<longleftrightarrow> (0x61 \<le> b \<and> b \<le> 0x7A) \<or> (0x41 \<le> b \<and> b \<le> 0x5A) \<or> (0x30 \<le> b \<and> b \<le> 0x39)
     \<or> b = 0x2D \<or> b = 0x5F \<or> b = 0x3A \<or> b = 0x2E \<or> b = 0x3C"

function wireform_scan_tagname :: "bytes \<Rightarrow> nat \<Rightarrow> nat \<Rightarrow> nat option" where
  "wireform_scan_tagname buf p pend =
     (if p < pend
      then do {
        b \<leftarrow> load buf p;
        if tagname_byte b then wireform_scan_tagname buf (p + 1) pend else Some p
      }
      else Some p)"
  by pat_completeness auto
termination
  by (relation "measure (\<lambda>(buf, p, pend). pend - p)") auto

definition unquoted_stop :: "u8 \<Rightarrow> bool" where
  "unquoted_stop b \<longleftrightarrow> b = 0x3E \<or> b = 0x26 \<or> b = 0x20 \<or> b = 0x09 \<or> b = 0x0A \<or> b = 0x0D \<or> b = 0x0C"

definition wireform_scan_unquoted :: "bytes \<Rightarrow> nat \<Rightarrow> nat \<Rightarrow> nat option" where
  "wireform_scan_unquoted buf off e = map_option (or_end e) (scan_bytes unquoted_stop buf off e)"

declare wireform_scan_tagname.simps [simp del]

text \<open>What each scanner returns: the first stop byte, and the end when there is none.\<close>

lemma scanners_eq:
  assumes "e \<le> length buf"
  shows "wireform_scan_text bld buf off e = Some (or_end e (first_pos scan_text_stop buf off e))"
    and "wireform_scan_dquote bld buf off e = Some (or_end e (first_pos (scan_quote_stop 0x22) buf off e))"
    and "wireform_scan_squote bld buf off e = Some (or_end e (first_pos (scan_quote_stop 0x27) buf off e))"
    and "wireform_skip_to_dquote bld buf off e = Some (or_end e (first_pos (\<lambda>b. b = 0x22) buf off e))"
    and "wireform_skip_to_squote bld buf off e = Some (or_end e (first_pos (\<lambda>b. b = 0x27) buf off e))"
    and "wireform_scan_gt bld buf off e =
      Some (case first_pos (\<lambda>b. b = 0x3E) buf off e of Some k \<Rightarrow> k + 1 | None \<Rightarrow> e)"
    and "hs_html_find_text_escape bld buf off e = Some (or_end e (first_pos text_escape_stop buf off e))"
    and "hs_html_find_attr_escape bld buf off e = Some (or_end e (first_pos attr_escape_stop buf off e))"
    and "wireform_scan_unquoted buf off e = Some (or_end e (first_pos unquoted_stop buf off e))"
  using assms
  by (simp_all add: wireform_scan_text_def wireform_scan_dquote_def wireform_scan_squote_def
    wireform_skip_to_dquote_def wireform_skip_to_squote_def wireform_scan_gt_def
    hs_html_find_text_escape_def hs_html_find_attr_escape_def wireform_scan_unquoted_def
    scan_text.scan_build_spec scan_quote.scan_build_spec skip_to.scan_build_spec
    text_escape.scan_build_spec attr_escape.scan_build_spec scan_bytes_spec)

lemma wireform_scan_tagname_eq:
  "e \<le> length buf \<Longrightarrow> off \<le> e \<Longrightarrow>
     wireform_scan_tagname buf off e = Some (or_end e (first_pos (\<lambda>b. \<not> tagname_byte b) buf off e))"
proof (induction buf off e rule: wireform_scan_tagname.induct)
  case (1 buf p pend)
  then show ?case
    by (cases "p < pend"; subst wireform_scan_tagname.simps) (simp_all add: load_in first_pos_step [of p] or_end_def)
qed

text \<open>\<open>or_end\<close> of a search, read without the option.\<close>

lemma or_end_first:
  assumes "off \<le> e"
  shows "or_end e (first_pos p buf off e) = r \<longleftrightarrow>
    off \<le> r \<and> r \<le> e \<and> (\<forall>k. off \<le> k \<and> k < r \<longrightarrow> \<not> p (buf ! k)) \<and> (r < e \<longrightarrow> p (buf ! r))"
proof (cases "first_pos p buf off e")
  case None
  then have "\<And>k. off \<le> k \<Longrightarrow> k < e \<Longrightarrow> \<not> p (buf ! k)" by (simp add: first_pos_None_iff)
  moreover have "or_end e (first_pos p buf off e) = e" using None by (simp add: or_end_def)
  ultimately show ?thesis using assms le_neq_implies_less [of r e] by auto
next
  case (Some j)
  then have j: "off \<le> j" "j < e" "p (buf ! j)" "\<And>k. off \<le> k \<Longrightarrow> k < j \<Longrightarrow> \<not> p (buf ! k)"
    by (auto simp: first_pos_Some_iff)
  have "r = j" if "off \<le> r" "r \<le> e" "\<forall>k. off \<le> k \<and> k < r \<longrightarrow> \<not> p (buf ! k)" "r < e \<longrightarrow> p (buf ! r)"
    using that j by (metis le_neq_implies_less linorder_neqE_nat)
  then show ?thesis using Some j by (auto simp: or_end_def)
qed

subsection \<open>The fused ASCII test\<close>

text \<open>
  \<open>scan_text_ascii\<close> and the quote scanners collect the high bits of the chunks they pass in
  \<open>hi_acc\<close>.  The builds differ in what they accumulate and in how they read it: \<open>upd\<close> is the update
  and \<open>high\<close> the final test.  The result is \<open>pos << 1 | all_ascii\<close>.
\<close>

definition hi_update :: "build \<Rightarrow> m128i \<Rightarrow> m128i \<Rightarrow> m128i" where
  "hi_update bld hi_acc chunk =
     (if bld = NEON then vorrq_u8 hi_acc (vandq_u8 chunk (vdupq_n_u8 0x80))
      else simde_mm_or_si128 hi_acc chunk)"

definition hi_init :: "build \<Rightarrow> m128i" where
  "hi_init bld = (if bld = NEON then vdupq_n_u8 0 else simde_mm_setzero_si128)"

definition hi_any :: "build \<Rightarrow> m128i \<Rightarrow> bool" where
  "hi_any bld hi_acc \<longleftrightarrow>
     (if bld = NEON then vmaxvq_u8 hi_acc \<noteq> 0 else simde_mm_movemask_epi8 hi_acc \<noteq> 0)"

text \<open>The hit of one chunk, in the form of each build.\<close>

definition chunk_hit :: "build \<Rightarrow> (m128i \<Rightarrow> m128i) \<Rightarrow> (m128i \<Rightarrow> u32) \<Rightarrow> m128i \<Rightarrow> nat option" where
  "chunk_hit bld hit msk chunk =
     (if bld = NEON
      then let hit64 = vreinterpretq_u64_u8 (hit chunk);
               lo = vgetq_lane_u64 hit64 0;
               hi = vgetq_lane_u64 hit64 1
           in if lo \<noteq> 0 then Some (builtin_ctz lo div 8)
              else if hi \<noteq> 0 then Some (8 + builtin_ctz hi div 8)
              else None
      else if msk chunk \<noteq> 0 then Some (builtin_ctz (msk chunk)) else None)"

function fused_blocks ::
  "build \<Rightarrow> (m128i \<Rightarrow> m128i) \<Rightarrow> (m128i \<Rightarrow> u32) \<Rightarrow> bytes \<Rightarrow> nat \<Rightarrow> nat \<Rightarrow> m128i \<Rightarrow>
     ((nat \<times> m128i) + (nat \<times> m128i)) option" where
  "fused_blocks bld hit msk buf p pend hi_acc =
     (if 16 \<le> pend - p
      then do {
        chunk \<leftarrow> load_block buf p 16;
        let hi_acc = hi_update bld hi_acc chunk;
        (case chunk_hit bld hit msk chunk of
           Some k \<Rightarrow> Some (Inl (p + k, hi_acc))
         | None \<Rightarrow> fused_blocks bld hit msk buf (p + 16) pend hi_acc)
      }
      else Some (Inr (p, hi_acc)))"
  by pat_completeness auto
termination
  by (relation "measure (\<lambda>(bld, hit, msk, buf, p, pend, hi_acc). pend - p)") auto

function fused_bytes :: "(u8 \<Rightarrow> bool) \<Rightarrow> bytes \<Rightarrow> nat \<Rightarrow> nat \<Rightarrow> bool \<Rightarrow> (nat \<times> bool) option" where
  "fused_bytes stop buf p pend all_ascii =
     (if p < pend
      then do {
        b \<leftarrow> load buf p;
        if stop b then Some (p, all_ascii)
        else fused_bytes stop buf (p + 1) pend (if 0x80 \<le> b then False else all_ascii)
      }
      else Some (pend, all_ascii))"
  by pat_completeness auto
termination
  by (relation "measure (\<lambda>(stop, buf, p, pend, a). pend - p)") auto

declare fused_blocks.simps [simp del] fused_bytes.simps [simp del]

definition scan_fused ::
  "build \<Rightarrow> (m128i \<Rightarrow> m128i) \<Rightarrow> (m128i \<Rightarrow> u32) \<Rightarrow> (u8 \<Rightarrow> bool) \<Rightarrow> bytes \<Rightarrow> nat \<Rightarrow> nat \<Rightarrow> nat option" where
  "scan_fused bld hit msk stop buf off e = do {
     r \<leftarrow> (if bld = NO_SIMD then Some (Inr (off, hi_init bld))
           else fused_blocks bld hit msk buf off e (hi_init bld));
     (pos, all_ascii) \<leftarrow>
       (case r of
          Inl (pos, hi_acc) \<Rightarrow> Some (pos, \<not> hi_any bld hi_acc)
        | Inr (p, hi_acc) \<Rightarrow>
            fused_bytes stop buf p e (bld = NO_SIMD \<or> \<not> hi_any bld hi_acc));
     Some (2 * pos + of_bool all_ascii)
   }"

definition wireform_scan_text_ascii :: "build \<Rightarrow> bytes \<Rightarrow> nat \<Rightarrow> nat \<Rightarrow> nat option" where
  "wireform_scan_text_ascii bld = scan_fused bld scan_text_neon scan_text_sse2 scan_text_stop"

definition wireform_scan_dquote_ascii :: "build \<Rightarrow> bytes \<Rightarrow> nat \<Rightarrow> nat \<Rightarrow> nat option" where
  "wireform_scan_dquote_ascii bld =
     scan_fused bld (scan_quote_neon 0x22) (scan_quote_sse2 0x22) (scan_quote_stop 0x22)"

definition wireform_scan_squote_ascii :: "build \<Rightarrow> bytes \<Rightarrow> nat \<Rightarrow> nat \<Rightarrow> nat option" where
  "wireform_scan_squote_ascii bld =
     scan_fused bld (scan_quote_neon 0x27) (scan_quote_sse2 0x27) (scan_quote_stop 0x27)"

subsubsection \<open>The flag\<close>

definition high_in :: "bytes \<Rightarrow> nat \<Rightarrow> nat \<Rightarrow> bool" where
  "high_in buf i j \<longleftrightarrow> (\<exists>k. i \<le> k \<and> k < j \<and> 0x80 \<le> buf ! k)"

lemma high_in_empty [simp]: "j \<le> i \<Longrightarrow> \<not> high_in buf i j"
  by (auto simp: high_in_def)

lemma high_in_join: "i \<le> j \<Longrightarrow> j \<le> l \<Longrightarrow> high_in buf i l \<longleftrightarrow> high_in buf i j \<or> high_in buf j l"
  by (auto simp: high_in_def not_le) (metis linorder_not_le order_less_le_trans order_trans)+

lemma high_in_step: "i < j \<Longrightarrow> high_in buf i j \<longleftrightarrow> 0x80 \<le> buf ! i \<or> high_in buf (Suc i) j"
  unfolding high_in_def by (metis Suc_le_eq le_eq_less_or_eq)

lemma hi_length:
  "length (hi_init bld) = 16"
  "length acc = 16 \<Longrightarrow> length v = 16 \<Longrightarrow> length (hi_update bld acc v) = 16"
  by (simp_all add: hi_init_def hi_update_def neon_simps simd_simps)

lemma byte_and_high: "b AND 0x80 = 0 \<longleftrightarrow> \<not> bit b 7" for b :: u8
proof -
  have "(2 ^ 7 :: u8) = 0x80" by simp
  then have h: "bit (0x80 :: u8) j \<longleftrightarrow> j = 7" for j
    using bit_exp_iff [where 'a = "8 word" and m = 7 and n = j] by auto
  show ?thesis
  proof
    assume "b AND 0x80 = 0"
    then have "\<not> bit (b AND 0x80) 7" by simp
    then show "\<not> bit b 7" by (simp add: bit_and_iff h)
  next
    assume "\<not> bit b 7"
    then have "\<not> (bit b j \<and> bit (0x80 :: u8) j)" for j using h [of j] by metis
    then show "b AND 0x80 = 0" by (intro bit_word_eqI) (simp add: bit_and_iff)
  qed
qed

lemma hi_any_iff:
  assumes "length acc = 16" and "bld = NEON \<Longrightarrow> \<forall>k<16. acc ! k AND 0x80 = acc ! k"
  shows "hi_any bld acc \<longleftrightarrow> (\<exists>k<16. bit (acc ! k) 7)"
proof (cases "bld = NEON")
  case True
  have "acc ! k = 0 \<longleftrightarrow> \<not> bit (acc ! k) 7" if "k < 16" for k
    using assms(2) [OF True] that byte_and_high [of "acc ! k"] by simp
  moreover have "vmaxvq_u8 acc = 0 \<longleftrightarrow> (\<forall>k<16. acc ! k = 0)"
    using assms(1) by (simp add: vmaxvq_zero all_set_conv_all_nth)
  ultimately show ?thesis using True by (auto simp: hi_any_def)
next
  case False
  have "simde_mm_movemask_epi8 acc = 0 \<longleftrightarrow> (\<forall>k<16. \<not> bit (acc ! k) 7)"
    by (auto simp: bit_eq_iff movemask_bit [OF assms(1)])
  then show ?thesis using False by (simp add: hi_any_def)
qed

definition hi_inv :: "build \<Rightarrow> m128i \<Rightarrow> bool \<Rightarrow> bool" where
  "hi_inv bld acc h \<longleftrightarrow> length acc = 16 \<and> (bld = NEON \<longrightarrow> (\<forall>k<16. acc ! k AND 0x80 = acc ! k)) \<and>
     ((\<exists>k<16. bit (acc ! k) 7) \<longleftrightarrow> h)"

lemma hi_inv_init: "hi_inv bld (hi_init bld) False"
  by (auto simp: hi_inv_def hi_init_def neon_simps simd_simps)

lemma hi_inv_any: "hi_inv bld acc h \<Longrightarrow> hi_any bld acc \<longleftrightarrow> h"
  by (auto simp: hi_inv_def hi_any_iff)

lemma hi_inv_update:
  assumes "hi_inv bld acc h" and "p + 16 \<le> length buf"
  shows "hi_inv bld (hi_update bld acc (take 16 (drop p buf))) (h \<or> high_in buf p (p + 16))"
proof -
  define v where "v = take 16 (drop p buf)"
  have v: "length v = 16" and at: "\<And>k. k < 16 \<Longrightarrow> v ! k = buf ! (p + k)"
    using assms(2) by (simp_all add: v_def)
  have high: "high_in buf p (p + 16) \<longleftrightarrow> (\<exists>k<16. bit (v ! k) 7)"
    unfolding high_in_def byte_high_bit [symmetric]
    by (metis at add_less_cancel_left le_add1 le_Suc_ex)
  have acc: "length acc = 16" and keep: "bld = NEON \<Longrightarrow> k < 16 \<Longrightarrow> acc ! k AND 0x80 = acc ! k"
    and h: "(\<exists>k<16. bit (acc ! k) 7) \<longleftrightarrow> h" for k
    using assms(1) by (auto simp: hi_inv_def)
  have b80: "bit (0x80 :: u8) 7" by simp
  have bits: "bit (hi_update bld acc v ! k) 7 \<longleftrightarrow> bit (acc ! k) 7 \<or> bit (v ! k) 7" if "k < 16" for k
    using that acc v b80 by (auto simp: hi_update_def neon_simps simd_simps bit_or_iff bit_and_iff)
  have "hi_update bld acc v ! k AND 0x80 = hi_update bld acc v ! k" if "bld = NEON" "k < 16" for k
    using that acc v keep [OF that]
    by (simp add: hi_update_def neon_simps bit.conj_disj_distrib2 and.assoc)
  then show ?thesis
    unfolding v_def [symmetric] hi_inv_def using bits acc v high h by (auto simp: hi_length)
qed

text \<open>A hit in a chunk is the first stop byte of the chunk.\<close>

context scan_test
begin

lemma chunk_hit_eq:
  assumes "length v = 16"
  shows "chunk_hit bld hit msk v = first_pos p v 0 16"
proof -
  have "scan_build bld hit msk p v 0 16 = Some (first_pos p v 0 16)" for bld
    using assms by (simp add: scan_build_spec)
  have "neon_blocks hit v 16 16 = Some (Inr 16)" "scan_blocks (simde_mm_loadu_si128 v) msk 16 16 = Some (Inr 16)"
    by (simp_all add: neon_blocks.simps scan_blocks.simps)
  moreover have "vld1q_u8 v 0 = Some v" "simde_mm_loadu_si128 v 0 = Some v"
    using assms by (simp_all add: vld1q_u8_def simde_mm_loadu_si128_def load_block_in)
  ultimately show ?thesis
    using neon_blocks_spec [of 16 v 0] scan_blocks_loadu [of 16 v 0] assms
    by (simp add: neon_blocks.simps [of hit v 0] scan_blocks.simps [of _ msk 0] chunk_hit_def Let_def
      split: if_splits)
qed

end

lemma fused_bytes_eq:
  "e \<le> length buf \<Longrightarrow>
     fused_bytes stop buf p e a =
       (let pos = or_end e (first_pos stop buf p e) in Some (pos, a \<and> \<not> high_in buf p pos))"
proof (induction stop buf p e a rule: fused_bytes.induct)
  case (1 stop buf p pend a)
  show ?case
  proof (cases "p < pend")
    case True
    then show ?thesis
    proof (cases "stop (buf ! p)")
      case False
      have pos: "Suc p \<le> or_end pend (first_pos stop buf (Suc p) pend)"
        using or_end_first [of "Suc p" pend stop buf] True by auto
      have "fused_bytes stop buf p pend a =
          fused_bytes stop buf (p + 1) pend (if 0x80 \<le> buf ! p then False else a)"
        using True False 1(2) by (subst fused_bytes.simps) (simp add: load_in)
      then show ?thesis
        using 1 True False pos high_in_step [of p "or_end pend (first_pos stop buf (Suc p) pend)" buf]
        by (auto simp: load_in first_pos_step [of p] Let_def)
    qed (use 1(2) in \<open>simp add: fused_bytes.simps load_in first_pos_step or_end_def\<close>)
  qed (simp add: fused_bytes.simps or_end_def)
qed

text \<open>What the fused scanners promise: the first stop byte, and a flag that is only ever wrong on
  the side of reporting a high byte that lies behind the stop, in the stop's 16-byte chunk.\<close>

definition fused_result :: "build \<Rightarrow> (u8 \<Rightarrow> bool) \<Rightarrow> bytes \<Rightarrow> nat \<Rightarrow> nat \<Rightarrow> nat \<Rightarrow> bool \<Rightarrow> bool" where
  "fused_result bld stop buf off e pos flag \<longleftrightarrow>
     pos = or_end e (first_pos stop buf off e) \<and>
     (flag \<longrightarrow> \<not> high_in buf off pos) \<and>
     (\<not> flag \<longrightarrow> high_in buf off (if bld = NO_SIMD then pos else min e (pos + 16)))"

context scan_test
begin

lemma fused_blocks_spec:
  assumes "e \<le> length buf" and "off \<le> i" and "i \<le> e" and "hi_inv bld acc (high_in buf off i)"
    and "first_pos p buf off e = first_pos p buf i e"
  shows "(case fused_blocks bld hit msk buf i e acc of
      None \<Rightarrow> False
    | Some (Inl (k, acc')) \<Rightarrow> first_pos p buf off e = Some k \<and>
        (\<exists>j. j \<le> k \<and> k < j + 16 \<and> j + 16 \<le> e \<and> hi_inv bld acc' (high_in buf off (j + 16)))
    | Some (Inr (j, acc')) \<Rightarrow> off \<le> j \<and> j \<le> e \<and> hi_inv bld acc' (high_in buf off j) \<and>
        first_pos p buf off e = first_pos p buf j e)"
  using assms(2-)
proof (induction "e - i" arbitrary: i acc rule: less_induct)
  case less
  show ?case
  proof (cases "16 \<le> e - i")
    case True
    define v where "v = take 16 (drop i buf)"
    have v: "length v = 16" and at: "\<And>k. k < 16 \<Longrightarrow> v ! k = buf ! (i + k)"
      using True assms(1) by (simp_all add: v_def)
    have load: "load_block buf i 16 = Some v" using True assms(1) by (simp add: load_block_in v_def)
    have "hi_inv bld (hi_update bld acc v) (high_in buf off i \<or> high_in buf i (i + 16))"
      unfolding v_def using less.prems(3) True assms(1) by (intro hi_inv_update) simp_all
    then have inv: "hi_inv bld (hi_update bld acc v) (high_in buf off (i + 16))"
      using high_in_join [of off i "i + 16" buf] less.prems(1) by simp
    show ?thesis
    proof (cases "first_pos p v 0 16")
      case None
      then have "\<not> p (v ! k)" if "k < 16" for k using that by (simp add: first_pos_None_iff)
      then have "\<not> p (buf ! k)" if "i \<le> k" "k < i + 16" for k 
        using \<open>\<And>k. k < 16 \<Longrightarrow> \<not> p (v ! k)\<close> [of "k - i"] that at [of "k - i"] by simp
      then have "first_pos p buf off e = first_pos p buf (i + 16) e"
        unfolding less.prems(4) using True by (intro first_pos_skip) simp_all
      moreover have "e - (i + 16) < e - i" using True by arith
      ultimately show ?thesis
        using less.hyps [of "i + 16" "hi_update bld acc v"] less.prems inv True load None
        by (subst fused_blocks.simps) (simp add: chunk_hit_eq [OF v])
    next
      case (Some k)
      then have k: "k < 16" "p (v ! k)" "\<And>j. j < k \<Longrightarrow> \<not> p (v ! j)"
        by (auto simp: first_pos_Some_iff)
      have "first_pos p buf i e = Some (i + k)"
      proof (rule first_pos_hit)
        fix j assume "i \<le> j" "j < i + k"
        then show "\<not> p (buf ! j)" using k(1) k(3) [of "j - i"] at [of "j - i"] by simp
      qed (use k at True in simp_all)
      then show ?thesis
        using less.prems inv True load Some k(1)
        by (subst fused_blocks.simps) (auto simp: chunk_hit_eq [OF v] intro!: exI [of _ i])
    qed
  qed (use less.prems in \<open>simp add: fused_blocks.simps\<close>)
qed

lemma scan_fused_spec:
  assumes "e \<le> length buf" and "off \<le> e"
  shows "\<exists>pos flag. scan_fused bld hit msk p buf off e = Some (2 * pos + of_bool flag) \<and>
    fused_result bld p buf off e pos flag"
proof (cases "bld = NO_SIMD")
  case True
  then show ?thesis
    using assms(1) by (auto simp: scan_fused_def fused_bytes_eq fused_result_def Let_def)
next
  case False
  define r where "r = fused_blocks bld hit msk buf off e (hi_init bld)"
  have R: "(case r of
      None \<Rightarrow> False
    | Some (Inl (k, acc')) \<Rightarrow> first_pos p buf off e = Some k \<and>
        (\<exists>j. j \<le> k \<and> k < j + 16 \<and> j + 16 \<le> e \<and> hi_inv bld acc' (high_in buf off (j + 16)))
    | Some (Inr (j, acc')) \<Rightarrow> off \<le> j \<and> j \<le> e \<and> hi_inv bld acc' (high_in buf off j) \<and>
        first_pos p buf off e = first_pos p buf j e)"
    unfolding r_def using assms hi_inv_init by (intro fused_blocks_spec) simp_all
  then consider k acc j where "r = Some (Inl (k, acc))" "first_pos p buf off e = Some k"
      "j \<le> k" "k < j + 16" "j + 16 \<le> e" "hi_inv bld acc (high_in buf off (j + 16))"
    | j acc where "r = Some (Inr (j, acc))" "off \<le> j" "j \<le> e" "hi_inv bld acc (high_in buf off j)"
      "first_pos p buf off e = first_pos p buf j e"
    by (auto split: option.splits sum.splits)
  then show ?thesis
  proof cases
    case 1
    have "off \<le> k" using 1(2) by (simp add: first_pos_Some_iff)
    have "high_in buf off l" if "high_in buf off m" "m \<le> l" for l m
      using that by (auto simp: high_in_def intro: less_le_trans)
    then have "high_in buf off k \<Longrightarrow> high_in buf off (j + 16)"
      "high_in buf off (j + 16) \<Longrightarrow> high_in buf off (min e (k + 16))"
      using 1 by (metis less_imp_le, metis add_le_mono1 min.boundedI)
    then show ?thesis
      using False 1 hi_inv_any [OF 1(6)]
      by (auto simp: scan_fused_def r_def [symmetric] fused_result_def or_end_def
        intro!: exI [of _ k] exI [of _ "\<not> high_in buf off (j + 16)"])
  next
    case 2
    define pos where "pos = or_end e (first_pos p buf j e)"
    have "j \<le> pos \<and> pos \<le> e"
      using or_end_first [of j e p buf pos] 2(3) by (simp add: pos_def)
    then have "high_in buf off pos \<longleftrightarrow> high_in buf off j \<or> high_in buf j pos" "pos \<le> min e (pos + 16)"
      using high_in_join [of off j pos buf] 2(2) by simp_all
    moreover have "high_in buf off l" if "high_in buf off m" "m \<le> l" for l m
      using that by (auto simp: high_in_def intro: less_le_trans)
    ultimately show ?thesis
      using False 2 hi_inv_any [OF 2(4)] assms(1)
      by (auto simp: scan_fused_def r_def [symmetric] fused_result_def fused_bytes_eq Let_def pos_def [symmetric]
        intro!: exI [of _ pos] exI [of _ "\<not> high_in buf off pos"])
  qed
qed

end

subsection \<open>Skipping the attributes\<close>

lemma skip_to_quote_range:
  "wireform_skip_to_dquote bld buf off e = Some q \<Longrightarrow> q < e \<Longrightarrow> off \<le> q"
  "wireform_skip_to_squote bld buf off e = Some q \<Longrightarrow> q < e \<Longrightarrow> off \<le> q"
  unfolding wireform_skip_to_dquote_def wireform_skip_to_squote_def
  by (auto simp: or_end_def split: option.splits dest: scan_build_range)

text \<open>The result is \<open>past << 1 | self_close\<close>.\<close>

function skip_attrs_loop :: "build \<Rightarrow> bytes \<Rightarrow> nat \<Rightarrow> nat \<Rightarrow> nat option" where
  "skip_attrs_loop bld buf p e =
     (if p < e
      then do {
        b \<leftarrow> load buf p;
        if b = 0x3E then Some (2 * (p + 1))
        else if b = 0x2F then
          (if p + 1 < e
           then do {
             c \<leftarrow> load buf (p + 1);
             if c = 0x3E then Some (2 * (p + 2) + 1) else skip_attrs_loop bld buf (p + 1) e
           }
           else skip_attrs_loop bld buf (p + 1) e)
        else if b = 0x22 then do {
          qend \<leftarrow> wireform_skip_to_dquote bld buf (p + 1) e;
          skip_attrs_loop bld buf (if qend < e then qend + 1 else qend) e
        }
        else if b = 0x27 then do {
          qend \<leftarrow> wireform_skip_to_squote bld buf (p + 1) e;
          skip_attrs_loop bld buf (if qend < e then qend + 1 else qend) e
        }
        else skip_attrs_loop bld buf (p + 1) e
      }
      else Some (2 * (e + 1)))"
  by pat_completeness auto
termination
  by (relation "measure (\<lambda>(bld, buf, p, e). e - p)") (auto dest: skip_to_quote_range split: if_splits)

declare skip_attrs_loop.simps [simp del]

definition wireform_skip_attrs :: "build \<Rightarrow> bytes \<Rightarrow> nat \<Rightarrow> nat \<Rightarrow> nat option" where
  "wireform_skip_attrs bld buf off e = skip_attrs_loop bld buf off e"

text \<open>The reference: one pass over the characters of the tag with the open quote as its state.\<close>

fun tag_end :: "u8 option \<Rightarrow> bytes \<Rightarrow> nat \<Rightarrow> (nat \<times> bool) option" where
  "tag_end _ [] pos = None"
| "tag_end (Some q) (b # bs) pos = tag_end (if b = q then None else Some q) bs (pos + 1)"
| "tag_end None (b # bs) pos =
     (if b = 0x3E then Some (pos + 1, False)
      else if b = 0x2F \<and> bs \<noteq> [] \<and> hd bs = 0x3E then Some (pos + 2, True)
      else tag_end (if b = 0x22 \<or> b = 0x27 then Some b else None) bs (pos + 1))"

definition slice :: "bytes \<Rightarrow> nat \<Rightarrow> nat \<Rightarrow> bytes" where
  "slice buf i j = take (j - i) (drop i buf)"

lemma slice_empty [simp]: "j \<le> i \<Longrightarrow> slice buf i j = []"
  by (simp add: slice_def)

lemma slice_Cons: "i < j \<Longrightarrow> j \<le> length buf \<Longrightarrow> slice buf i j = buf ! i # slice buf (Suc i) j"
  by (simp add: slice_def Cons_nth_drop_Suc [symmetric] take_Cons' Suc_diff_le [symmetric])

text \<open>Inside a quote the automaton runs to the closing quote, which is what the skips find.\<close>

lemma tag_end_quoted:
  "e \<le> length buf \<Longrightarrow> i \<le> e \<Longrightarrow>
     tag_end (Some q) (slice buf i e) i =
       (let k = or_end e (first_pos (\<lambda>b. b = q) buf i e)
        in if k < e then tag_end None (slice buf (k + 1) e) (k + 1) else None)"
proof (induction "e - i" arbitrary: i)
  case (Suc d)
  then have "i < e" by simp
  then show ?case
    using Suc(1) [of "Suc i"] Suc(2-4)
    by (cases "buf ! i = q") (simp_all add: slice_Cons first_pos_step [of i] or_end_def)
qed (simp add: or_end_def)

lemma skip_attrs_loop_eq:
  "e \<le> length buf \<Longrightarrow> p \<le> e \<Longrightarrow>
     skip_attrs_loop bld buf p e =
       Some (case tag_end None (slice buf p e) p of
               Some (past, self_close) \<Rightarrow> 2 * past + of_bool self_close
             | None \<Rightarrow> 2 * (e + 1))"
proof (induction "e - p" arbitrary: p rule: less_induct)
  case less
  show ?case
  proof (cases "p < e")
    case True
    have IH: "skip_attrs_loop bld buf j e =
       Some (case tag_end None (slice buf j e) j of
               Some (past, self_close) \<Rightarrow> 2 * past + of_bool self_close
             | None \<Rightarrow> 2 * (e + 1))" if "p < j" "j \<le> e" for j
      using less.hyps [of j] that True less.prems(1) by simp
    have quote: "skip_attrs_loop bld buf (if k < e then k + 1 else k) e =
       Some (case tag_end (Some q) (slice buf (Suc p) e) (Suc p) of
               Some (past, self_close) \<Rightarrow> 2 * past + of_bool self_close
             | None \<Rightarrow> 2 * (e + 1))"
      if "k = or_end e (first_pos (\<lambda>b. b = q) buf (Suc p) e)" for k q
    proof -
      have "p < k" "k \<le> e" using or_end_first [of "Suc p" e "\<lambda>b. b = q" buf k] True that by auto
      then show ?thesis
        using tag_end_quoted [of e buf "Suc p" q] less.prems True that [symmetric]
        by (auto simp: IH Let_def)
    qed
    note step = skip_attrs_loop.simps [of bld buf p e] slice_Cons [OF True less.prems(1)]
    consider "buf ! p = 0x22" | "buf ! p = 0x27" | "buf ! p = 0x2F"
      | "buf ! p \<noteq> 0x22" "buf ! p \<noteq> 0x27" "buf ! p \<noteq> 0x2F" by blast
    then show ?thesis
    proof cases
      case 3
      show ?thesis
      proof (cases "Suc p < e")
        case inner: True
        with 3 True less.prems(1) show ?thesis
          by (simp add: step IH load_in slice_Cons [OF inner less.prems(1)])
      qed (use 3 True less.prems(1) in \<open>simp add: step IH load_in\<close>)
    qed (use True less.prems(1) in \<open>simp_all add: step quote IH load_in scanners_eq\<close>)
  qed (simp add: skip_attrs_loop.simps)
qed

subsection \<open>The ASCII test\<close>

function ascii_blocks :: "build \<Rightarrow> bytes \<Rightarrow> nat \<Rightarrow> nat \<Rightarrow> (unit + nat) option" where
  "ascii_blocks bld buf p pend =
     (if 16 \<le> pend - p
      then do {
        chunk \<leftarrow> load_block buf p 16;
        if (if bld = NEON then vmaxvq_u8 (vandq_u8 chunk (vdupq_n_u8 0x80)) \<noteq> 0
            else simde_mm_movemask_epi8 chunk \<noteq> 0)
        then Some (Inl ())
        else ascii_blocks bld buf (p + 16) pend
      }
      else Some (Inr p))"
  by pat_completeness auto
termination
  by (relation "measure (\<lambda>(bld, buf, p, pend). pend - p)") auto

declare ascii_blocks.simps [simp del]

definition wireform_is_all_ascii :: "build \<Rightarrow> bytes \<Rightarrow> nat \<Rightarrow> nat \<Rightarrow> int option" where
  "wireform_is_all_ascii bld buf off e = do {
     r \<leftarrow> (if bld = NO_SIMD then Some (Inr off) else ascii_blocks bld buf off e);
     (case r of
        Inl _ \<Rightarrow> Some 0
      | Inr p \<Rightarrow> do {
          s \<leftarrow> scan_bytes (\<lambda>b. 0x80 \<le> b) buf p e;
          Some (case s of Some _ \<Rightarrow> 0 | None \<Rightarrow> 1)
        })
   }"

lemma chunk_high:
  assumes "length v = 16"
  shows "(if bld = NEON then vmaxvq_u8 (vandq_u8 v (vdupq_n_u8 0x80)) \<noteq> 0
      else simde_mm_movemask_epi8 v \<noteq> 0) \<longleftrightarrow> (\<exists>k<16. 0x80 \<le> v ! k)"
proof -
  have "vmaxvq_u8 (vandq_u8 v (vdupq_n_u8 0x80)) = 0 \<longleftrightarrow> (\<forall>k<16. \<not> bit (v ! k) 7)"
    using assms by (simp add: vmaxvq_zero all_set_conv_all_nth neon_simps byte_and_high)
  moreover have "simde_mm_movemask_epi8 v = 0 \<longleftrightarrow> (\<forall>k<16. \<not> bit (v ! k) 7)"
    by (subst bit_eq_iff) (auto simp: movemask_bit [OF assms])
  ultimately show ?thesis by (auto simp: byte_high_bit)
qed

lemma ascii_blocks_eq:
  assumes "e \<le> length buf"
  shows "p \<le> e \<Longrightarrow> (case ascii_blocks bld buf p e of
      None \<Rightarrow> False
    | Some (Inl _) \<Rightarrow> high_in buf p e
    | Some (Inr j) \<Rightarrow> j \<le> e \<and> (high_in buf p e \<longleftrightarrow> high_in buf j e))"
proof (induction "e - p" arbitrary: p rule: less_induct)
  case less
  show ?case
  proof (cases "16 \<le> e - p")
    case True
    define v where "v = take 16 (drop p buf)"
    have v: "length v = 16" and at: "\<And>k. k < 16 \<Longrightarrow> v ! k = buf ! (p + k)"
      using True assms by (simp_all add: v_def)
    have load: "load_block buf p 16 = Some v" using True assms by (simp add: load_block_in v_def)
    have high: "(\<exists>k<16. 0x80 \<le> v ! k) \<longleftrightarrow> high_in buf p (p + 16)"
      unfolding high_in_def by (metis at add_less_cancel_left le_add1 le_Suc_ex)
    have "high_in buf p e \<longleftrightarrow> high_in buf p (p + 16) \<or> high_in buf (p + 16) e"
      using True by (intro high_in_join) simp_all
    moreover have "e - (p + 16) < e - p" "p + 16 \<le> e" using True by arith+
    ultimately show ?thesis
      using less.hyps [of "p + 16"] True load high chunk_high [OF v, of bld]
      by (subst ascii_blocks.simps) (auto split: option.splits sum.splits)
  qed (use less.prems in \<open>simp add: ascii_blocks.simps\<close>)
qed

lemma wireform_is_all_ascii_eq:
  assumes "e \<le> length buf" and "off \<le> e"
  shows "wireform_is_all_ascii bld buf off e = Some (if high_in buf off e then 0 else 1)"
proof -
  have tail: "(case first_pos (\<lambda>b. 0x80 \<le> b) buf p e of Some _ \<Rightarrow> (0 :: int) | None \<Rightarrow> 1) =
      (if high_in buf p e then 0 else 1)" for p
  proof (cases "first_pos (\<lambda>b. 0x80 \<le> b) buf p e")
    case None
    moreover from this have "\<not> high_in buf p e" by (auto simp: first_pos_None_iff high_in_def)
    ultimately show ?thesis by simp
  next
    case (Some k)
    moreover from this have "high_in buf p e" by (auto simp: first_pos_Some_iff high_in_def)
    ultimately show ?thesis by simp
  qed
  show ?thesis
    using ascii_blocks_eq [OF assms, of bld] assms(1)
    by (auto simp: wireform_is_all_ascii_def scan_bytes_spec tail split: option.splits sum.splits)
qed

subsection \<open>Properties\<close>

definition stops_at :: "(u8 \<Rightarrow> bool) \<Rightarrow> bytes \<Rightarrow> nat \<Rightarrow> nat \<Rightarrow> nat option \<Rightarrow> bool" where
  "stops_at p buf off e r \<longleftrightarrow> (\<exists>k. r = Some k \<and> off \<le> k \<and> k \<le> e \<and>
     (\<forall>j. off \<le> j \<and> j < k \<longrightarrow> \<not> p (buf ! j)) \<and> (k < e \<longrightarrow> p (buf ! k)))"

lemma stops_at_first: "off \<le> e \<Longrightarrow> stops_at p buf off e (Some (or_end e (first_pos p buf off e)))"
  using or_end_first [of off e p buf] by (auto simp: stops_at_def)

text \<open>C30: every build of the HTML scanners (NEON, SSE2, scalar) returns the first stop byte of
  \<open>[off, end)\<close>, and \<open>end\<close> when there is none; \<open>is_all_ascii\<close> returns 1 exactly on ASCII.\<close>

theorem html_scanners_correct:
  assumes "off \<le> e" and "e \<le> length buf"
  shows "stops_at (\<lambda>b. b \<in> {0x3C, 0x26, 0x00, 0x0D}) buf off e (wireform_scan_text bld buf off e) \<and>
    stops_at (\<lambda>b. b \<in> {0x22, 0x26}) buf off e (wireform_scan_dquote bld buf off e) \<and>
    stops_at (\<lambda>b. b \<in> {0x27, 0x26}) buf off e (wireform_scan_squote bld buf off e) \<and>
    stops_at (\<lambda>b. b = 0x22) buf off e (wireform_skip_to_dquote bld buf off e) \<and>
    stops_at (\<lambda>b. b = 0x27) buf off e (wireform_skip_to_squote bld buf off e) \<and>
    stops_at (\<lambda>b. b \<in> {0x3C, 0x3E, 0x26}) buf off e (hs_html_find_text_escape bld buf off e) \<and>
    stops_at (\<lambda>b. b \<in> {0x22, 0x26, 0x3C, 0x3E}) buf off e (hs_html_find_attr_escape bld buf off e) \<and>
    stops_at (\<lambda>b. b \<in> {0x3E, 0x26, 0x20, 0x09, 0x0A, 0x0D, 0x0C}) buf off e (wireform_scan_unquoted buf off e) \<and>
    stops_at (\<lambda>b. \<not> tagname_byte b) buf off e (wireform_scan_tagname buf off e) \<and>
    wireform_is_all_ascii bld buf off e = Some (if \<exists>k. off \<le> k \<and> k < e \<and> 0x80 \<le> buf ! k then 0 else 1)"
proof -
  have "scan_text_stop = (\<lambda>b. b \<in> {0x3C, 0x26, 0x00, 0x0D})"
    "scan_quote_stop q = (\<lambda>b. b \<in> {q, 0x26})" "text_escape_stop = (\<lambda>b. b \<in> {0x3C, 0x3E, 0x26})"
    "attr_escape_stop = (\<lambda>b. b \<in> {0x22, 0x26, 0x3C, 0x3E})"
    "unquoted_stop = (\<lambda>b. b \<in> {0x3E, 0x26, 0x20, 0x09, 0x0A, 0x0D, 0x0C})" for q
    by (auto simp: fun_eq_iff scan_text_stop_def scan_quote_stop_def text_escape_stop_def
      attr_escape_stop_def unquoted_stop_def)
  note tests = this
  have at: "stops_at p buf off e (Some (or_end e (first_pos p buf off e)))" for p
    using assms(1) by (rule stops_at_first)
  show ?thesis
    unfolding scanners_eq [OF assms(2)] wireform_scan_tagname_eq [OF assms(2,1)]
      wireform_is_all_ascii_eq [OF assms(2,1)] tests high_in_def
    by (intro conjI at refl)
qed

theorem html_scanners_correct_witness:
  "stops_at (\<lambda>b. b \<in> {0x3C, 0x26, 0x00, 0x0D}) [0x61, 0x62, 0x3C] 0 3
     (wireform_scan_text NEON [0x61, 0x62, 0x3C] 0 3)"
  using html_scanners_correct [of 0 3 "[0x61, 0x62, 0x3C]" NEON] by simp

text \<open>C31: the fused scanners return the first stop byte with a flag in the low bit.  A set flag means
  that everything before the stop is ASCII; a clear one means that a high byte occurs before the
  stop or, in the vector builds, at most 15 bytes after it.\<close>

theorem html_fused_sound:
  assumes "off \<le> e" and "e \<le> length buf"
  shows "(\<exists>pos flag. wireform_scan_text_ascii bld buf off e = Some (2 * pos + of_bool flag) \<and>
      fused_result bld scan_text_stop buf off e pos flag) \<and>
    (\<exists>pos flag. wireform_scan_dquote_ascii bld buf off e = Some (2 * pos + of_bool flag) \<and>
      fused_result bld (scan_quote_stop 0x22) buf off e pos flag) \<and>
    (\<exists>pos flag. wireform_scan_squote_ascii bld buf off e = Some (2 * pos + of_bool flag) \<and>
      fused_result bld (scan_quote_stop 0x27) buf off e pos flag)"
  unfolding wireform_scan_text_ascii_def wireform_scan_dquote_ascii_def wireform_scan_squote_ascii_def
  by (intro conjI scan_text.scan_fused_spec scan_quote.scan_fused_spec assms)

theorem html_fused_sound_witness:
  "(\<exists>pos flag. wireform_scan_text_ascii SSE2 [0x61, 0x3C, 0xC3] 0 3 = Some (2 * pos + of_bool flag) \<and>
     fused_result SSE2 scan_text_stop [0x61, 0x3C, 0xC3] 0 3 pos flag) \<and>
   wireform_scan_text_ascii SSE2 ([0x61, 0x3C, 0xC3] @ replicate 13 0x61) 0 16 = Some 2 \<and>
   wireform_scan_text_ascii NO_SIMD ([0x61, 0x3C, 0xC3] @ replicate 13 0x61) 0 16 = Some 3"
proof (intro conjI)
  show "\<exists>pos flag. wireform_scan_text_ascii SSE2 [0x61, 0x3C, 0xC3] 0 3 = Some (2 * pos + of_bool flag) \<and>
     fused_result SSE2 scan_text_stop [0x61, 0x3C, 0xC3] 0 3 pos flag"
    using html_fused_sound [of 0 3 "[0x61, 0x3C, 0xC3]" SSE2] by simp
qed code_simp+

text \<open>C32: \<open>skip_attrs\<close> ends the tag where a character-by-character automaton does that keeps the
  open quote as its state; its jumps with the vector searches change nothing.\<close>

theorem html_skip_attrs_correct:
  assumes "off \<le> e" and "e \<le> length buf"
  shows "wireform_skip_attrs bld buf off e =
    Some (case tag_end None (take (e - off) (drop off buf)) off of
            Some (past, self_close) \<Rightarrow> 2 * past + of_bool self_close
          | None \<Rightarrow> 2 * (e + 1))"
  using skip_attrs_loop_eq [OF assms(2,1)] by (simp add: wireform_skip_attrs_def slice_def)

theorem html_skip_attrs_correct_witness:
  "wireform_skip_attrs NEON [0x20, 0x22, 0x3E, 0x22, 0x2F, 0x3E] 0 6 =
     Some (case tag_end None (take (6 - 0) (drop 0 [0x20, 0x22, 0x3E, 0x22, 0x2F, 0x3E])) 0 of
             Some (past, self_close) \<Rightarrow> 2 * past + of_bool self_close
           | None \<Rightarrow> 2 * (6 + 1)) \<and>
   tag_end None [0x20, 0x22, 0x3E, 0x22, 0x2F, 0x3E] 0 = Some (6, True)"
proof (rule conjI)
  show "tag_end None [0x20, 0x22, 0x3E, 0x22, 0x2F, 0x3E] 0 = Some (6, True)" by code_simp
qed (rule html_skip_attrs_correct, simp_all)

end
