(* ===== verification/Bit_Iter.thy ===== *)
theory Bit_Iter
  imports Simd
begin

text \<open>
  The idiom \<open>while (m) { bit = ctz(m); ...; m &= m - 1; }\<close>: \<open>m & (m - 1)\<close> clears the lowest set
  bit, so the loop visits the set bits in ascending order.
\<close>

lemma clear_lowest:
  fixes w :: "'a::len word"
  assumes "w \<noteq> 0"
  shows "bit (w AND (w - 1)) j \<longleftrightarrow> bit w j \<and> j \<noteq> builtin_ctz w"
proof -
  define k where "k = builtin_ctz w"
  have k: "bit w k" "\<And>i. i < k \<Longrightarrow> \<not> bit w i"
    using builtin_ctz_bit [OF assms] by (simp_all add: k_def)
  have kl: "k < LENGTH('a)" using k(1) by (simp add: bit_imp_le_length)
  define h where "h = w AND NOT (push_bit k 1)"
  have hbit: "bit h i \<longleftrightarrow> bit w i \<and> i \<noteq> k" for i
    using kl by (auto simp: h_def bit_simps dest: bit_imp_le_length)
  have "h AND push_bit k 1 = 0" by (rule bit_word_eqI) (auto simp: bit_simps hbit)
  moreover have "w = h OR push_bit k 1"
    by (rule bit_word_eqI) (use k(1) kl in \<open>auto simp: bit_simps hbit\<close>)
  ultimately have "w = h + push_bit k 1" by (simp add: disjunctive_add_eq_or)
  then have "w - 1 = h + mask k" by (simp add: mask_eq_exp_minus_1 push_bit_eq_mult)
  moreover have "h AND mask k = 0"
    by (rule bit_word_eqI) (use k(2) in \<open>auto simp: bit_simps hbit\<close>)
  ultimately have "w - 1 = h OR mask k" by (simp add: disjunctive_add_eq_or)
  then show ?thesis
    using k(2) by (auto simp: bit_simps hbit k_def [symmetric])
qed

lemma clear_lowest_less:
  fixes w :: "'a::len word"
  assumes "w \<noteq> 0"
  shows "unat (w AND (w - 1)) < unat w"
proof -
  have "unat (w AND (w - 1)) \<le> unat (w - 1)" by (metis word_and_le1 word_le_nat_alt)
  also have "\<dots> < unat w" using assms by (simp add: unat_minus_one)
      (metis One_nat_def diff_less unat_gt_0 zero_less_one)
  finally show ?thesis .
qed

text \<open>The set bits of a mask in the order the loop visits them.\<close>

definition set_bits :: "'a::len word \<Rightarrow> nat list" where
  "set_bits w = filter (bit w) [0..<LENGTH('a)]"

lemma set_bits_zero [simp]: "set_bits 0 = []"
  by (simp add: set_bits_def)

lemma set_bits_step:
  fixes w :: "'a::len word"
  assumes "w \<noteq> 0"
  shows "set_bits w = builtin_ctz w # set_bits (w AND (w - 1))"
proof -
  define k where "k = builtin_ctz w"
  have k: "bit w k" "\<And>i. i < k \<Longrightarrow> \<not> bit w i"
    using builtin_ctz_bit [OF assms] by (simp_all add: k_def)
  have "k < LENGTH('a)" using bit_imp_le_length [OF k(1)] by simp
  then have split: "[0..<LENGTH('a)] = [0..<k] @ k # [Suc k..<LENGTH('a)]"
    using upt_add_eq_append [of 0 k "LENGTH('a) - k"] by (simp add: upt_conv_Cons del: upt_Suc upt_rec_numeral)
  have none: "filter (bit w) [0..<k] = []" "filter (bit (w AND (w - 1))) [0..<k] = []"
    using k(2) by (auto simp: filter_empty_conv clear_lowest [OF assms])
  have "filter (bit (w AND (w - 1))) [Suc k..<LENGTH('a)] = filter (bit w) [Suc k..<LENGTH('a)]"
    by (rule filter_cong) (auto simp: clear_lowest [OF assms] k_def)
  then show ?thesis
    using k(1) none by (simp add: set_bits_def split clear_lowest [OF assms] k_def [symmetric] del: upt_Suc)
qed

lemma set_bits_set: "set (set_bits (w :: 'a::len word)) = {j. bit w j}"
  by (auto simp: set_bits_def dest: bit_imp_le_length)

lemma set_bits_filter:
  fixes msk :: u32
  assumes "\<And>j. bit msk j \<longleftrightarrow> j < 16 \<and> q (i + j)"
  shows "map ((+) i) (set_bits msk) = filter q [i..<i + 16]"
proof -
  have "[0..<32 :: nat] = [0..<16] @ [16..<32]"
    using upt_add_eq_append [of 0 16 16] by (simp del: upt_rec_numeral)
  moreover have "filter (bit msk) [0..<16] = filter (\<lambda>j. q (i + j)) [0..<16]"
    by (rule filter_cong) (simp_all add: assms)
  moreover have "filter (bit msk) [16..<32] = []"
    by (auto simp: filter_empty_conv assms)
  ultimately have "map ((+) i) (set_bits msk) = filter q (map ((+) i) [0..<16])"
    by (simp add: set_bits_def filter_map comp_def del: upt_rec_numeral)
  also have "map ((+) i) [0..<16] = [i..<i + 16]"
    by (rule nth_equalityI) simp_all
  finally show ?thesis .
qed

end
