(* ===== verification/Xml_Scan.thy ===== *)
theory Xml_Scan
  imports Bit_Iter
begin

text \<open>
  \<open>wireform-xml/cbits/fast_xml.c\<close>: the scanners behind the XML tokenizers.  The searches that start
  at an offset first step to a 16-byte boundary and then use aligned loads, so their models take
  the buffer's base address.  The searches for \<open>]]>\<close> and \<open>-->\<close> visit every candidate lane of a
  chunk by clearing the lowest set bit of the mask; \<open>hs_xml_scan_structural\<close> writes the positions it
  finds into a bounded array.
\<close>

subsection \<open>Searching by index\<close>

definition search :: "(nat \<Rightarrow> bool) \<Rightarrow> nat \<Rightarrow> nat \<Rightarrow> nat option" where
  "search P i len = find P [i..<len]"

lemma search_done [simp]: "len \<le> i \<Longrightarrow> search P i len = None"
  by (simp add: search_def)

lemma search_step: "i < len \<Longrightarrow> search P i len = (if P i then Some i else search P (Suc i) len)"
  by (simp add: search_def upt_conv_Cons)

lemma search_append:
  "i \<le> j \<Longrightarrow> j \<le> len \<Longrightarrow>
     search P i len = (case search P i j of Some k \<Rightarrow> Some k | None \<Rightarrow> search P j len)"
proof (induction "j - i" arbitrary: i)
  case (Suc d)
  then have "i < j" "i < len" by arith+
  then show ?case using Suc by (simp add: search_step [of i])
qed simp

lemma search_first_pos: "search (\<lambda>k. p (buf ! k)) = first_pos p buf"
  by (simp add: fun_eq_iff search_def first_pos_def)

lemma search_Some_iff:
  "search P i len = Some j \<longleftrightarrow> i \<le> j \<and> j < len \<and> P j \<and> (\<forall>k. i \<le> k \<and> k < j \<longrightarrow> \<not> P k)"
proof -
  have "first_pos (\<lambda>b. b = 1) (map (\<lambda>k. if P k then 1 else 0) [0..<len]) i len = search P i len"
    unfolding first_pos_def search_def by (rule find_cong) auto
  then show ?thesis by (subst (asm) eq_commute) (auto simp: first_pos_Some_iff split: if_splits)
qed

lemma search_None_iff: "search P i len = None \<longleftrightarrow> (\<forall>k. i \<le> k \<and> k < len \<longrightarrow> \<not> P k)"
  by (auto simp: search_def find_None_iff)

subsection \<open>The scalar loops\<close>

text \<open>A test at an index may read beyond it, so it can fault.\<close>

function xml_lead :: "nat \<Rightarrow> (nat \<Rightarrow> bool option) \<Rightarrow> nat \<Rightarrow> nat \<Rightarrow> (nat + nat) option" where
  "xml_lead base t i len =
     (if i < len \<and> (base + i) mod 16 \<noteq> 0
      then do { hit \<leftarrow> t i; if hit then Some (Inl i) else xml_lead base t (Suc i) len }
      else Some (Inr i))"
  by pat_completeness auto
termination
  by (relation "measure (\<lambda>(base, t, i, len). len - i)") auto

function xml_tail :: "(nat \<Rightarrow> bool option) \<Rightarrow> nat \<Rightarrow> nat \<Rightarrow> nat option option" where
  "xml_tail t i len =
     (if i < len
      then do { hit \<leftarrow> t i; if hit then Some (Some i) else xml_tail t (Suc i) len }
      else Some None)"
  by pat_completeness auto
termination
  by (relation "measure (\<lambda>(t, i, len). len - i)") auto

declare xml_lead.simps [simp del] xml_tail.simps [simp del]

definition byte_test :: "(u8 \<Rightarrow> bool) \<Rightarrow> bytes \<Rightarrow> nat \<Rightarrow> bool option" where
  "byte_test p buf i = map_option p (load buf i)"

lemma xml_lead_spec:
  "(\<And>k. i \<le> k \<Longrightarrow> k < len \<Longrightarrow> t k = Some (P k)) \<Longrightarrow>
     (case xml_lead base t i len of
        None \<Rightarrow> False
      | Some (Inl k) \<Rightarrow> search P i len = Some k
      | Some (Inr j) \<Rightarrow> i \<le> j \<and> (len \<le> j \<or> (base + j) mod 16 = 0) \<and> search P i len = search P j len)"
proof (induction base t i len rule: xml_lead.induct)
  case (1 base t i len)
  show ?case
  proof (cases "i < len \<and> (base + i) mod 16 \<noteq> 0")
    case True
    then have t: "t i = Some (P i)" using 1(2) by simp
    show ?thesis
    proof (cases "P i")
      case False
      from 1(1) [OF True t False] 1(2)
      have "(case xml_lead base t (Suc i) len of
          None \<Rightarrow> False
        | Some (Inl k) \<Rightarrow> search P (Suc i) len = Some k
        | Some (Inr j) \<Rightarrow> Suc i \<le> j \<and> (len \<le> j \<or> (base + j) mod 16 = 0) \<and> search P (Suc i) len = search P j len)"
        by simp
      with True False t show ?thesis
        by (subst xml_lead.simps) (auto simp: search_step [of i] split: option.splits sum.splits)
    qed (use True t in \<open>simp add: xml_lead.simps search_step\<close>)
  qed (auto simp: xml_lead.simps)
qed

lemma xml_tail_spec:
  "(\<And>k. i \<le> k \<Longrightarrow> k < len \<Longrightarrow> t k = Some (P k)) \<Longrightarrow> xml_tail t i len = Some (search P i len)"
proof (induction t i len rule: xml_tail.induct)
  case (1 t i len)
  then show ?case
    by (cases "i < len"; subst xml_tail.simps) (simp_all add: search_step [of i])
qed

lemma aligned_chunk:
  assumes "(base + i) mod 16 = 0" and "len \<le> length buf" and "k + 16 \<le> len" and "k mod 16 = i mod 16"
  shows "simde_mm_load_si128 base buf k = Some (take 16 (drop k buf))"
proof -
  have "(base + k) mod 16 = (base + i) mod 16"
    using assms(4) by (metis mod_add_right_eq)
  then show ?thesis
    using assms by (simp add: simde_mm_load_si128_def load_block_in)
qed

subsection \<open>Single-byte searches\<close>

definition xml_scan ::
  "nat \<Rightarrow> (m128i \<Rightarrow> u32) \<Rightarrow> (u8 \<Rightarrow> bool) \<Rightarrow> bytes \<Rightarrow> nat \<Rightarrow> nat \<Rightarrow> nat option option" where
  "xml_scan base msk p buf i len = do {
     r \<leftarrow> xml_lead base (byte_test p buf) i len;
     (case r of
        Inl k \<Rightarrow> Some (Some k)
      | Inr i \<Rightarrow> do {
          s \<leftarrow> scan_blocks (simde_mm_load_si128 base buf) msk i len;
          (case s of
             Inl k \<Rightarrow> Some (Some k)
           | Inr i \<Rightarrow> xml_tail (byte_test p buf) i len)
        })
   }"

context lane_test
begin

lemma xml_scan_spec:
  assumes "len \<le> length buf"
  shows "xml_scan base f p buf i len = Some (first_pos p buf i len)"
proof -
  have t: "byte_test p buf k = Some (p (buf ! k))" if "k < len" for k
    using that assms by (simp add: byte_test_def load_in)
  have lead: "(case xml_lead base (byte_test p buf) i len of
        None \<Rightarrow> False
      | Some (Inl k) \<Rightarrow> first_pos p buf i len = Some k
      | Some (Inr j) \<Rightarrow> i \<le> j \<and> (len \<le> j \<or> (base + j) mod 16 = 0) \<and> first_pos p buf i len = first_pos p buf j len)"
    unfolding search_first_pos [symmetric] using t by (intro xml_lead_spec) simp
  have tail: "xml_tail (byte_test p buf) j len = Some (first_pos p buf j len)" for j
    unfolding search_first_pos [symmetric] using t by (intro xml_tail_spec) simp
  have blocks: "(case scan_blocks (simde_mm_load_si128 base buf) f j len of
      None \<Rightarrow> False
    | Some (Inl k) \<Rightarrow> first_pos p buf j len = Some k
    | Some (Inr l) \<Rightarrow> j \<le> l \<and> (j \<le> len \<longrightarrow> l \<le> len) \<and> first_pos p buf j len = first_pos p buf l len)"
    if "len \<le> j \<or> (base + j) mod 16 = 0" for j
  proof (cases "len \<le> j")
    case False
    show ?thesis
      by (rule scan_blocks_spec) (use False that assms aligned_chunk [of base j len buf] in auto)
  qed (simp add: scan_blocks.simps)
  show ?thesis
  proof (cases "xml_lead base (byte_test p buf) i len")
    case (Some r)
    show ?thesis
    proof (cases r)
      case (Inr j)
      then show ?thesis
        using lead blocks [of j] Some by (auto simp: xml_scan_def tail split: option.splits sum.splits)
    qed (use lead Some in \<open>simp add: xml_scan_def\<close>)
  qed (use lead in simp)
qed

end

definition xml_byte_mask :: "u8 \<Rightarrow> m128i \<Rightarrow> u32" where
  "xml_byte_mask target chunk =
     simde_mm_movemask_epi8 (simde_mm_cmpeq_epi8 chunk (simde_mm_set1_epi8 target))"

definition text_end_mask :: "m128i \<Rightarrow> u32" where
  "text_end_mask chunk =
     (let m1 = simde_mm_movemask_epi8 (simde_mm_cmpeq_epi8 chunk (simde_mm_set1_epi8 0x3C));
          m2 = simde_mm_movemask_epi8 (simde_mm_cmpeq_epi8 chunk (simde_mm_set1_epi8 0x26))
      in m1 OR m2)"

definition html_text_end_mask :: "m128i \<Rightarrow> u32" where
  "html_text_end_mask chunk =
     (let m1 = simde_mm_movemask_epi8 (simde_mm_cmpeq_epi8 chunk (simde_mm_set1_epi8 0x3C));
          m2 = simde_mm_movemask_epi8 (simde_mm_cmpeq_epi8 chunk (simde_mm_set1_epi8 0x26));
          m3 = simde_mm_movemask_epi8 (simde_mm_cmpeq_epi8 chunk (simde_mm_set1_epi8 0x00));
          m4 = simde_mm_movemask_epi8 (simde_mm_cmpeq_epi8 chunk (simde_mm_set1_epi8 0x0D))
      in m1 OR m2 OR m3 OR m4)"

definition escape_mask :: "m128i \<Rightarrow> u32" where
  "escape_mask chunk =
     (let m1 = simde_mm_movemask_epi8 (simde_mm_cmpeq_epi8 chunk (simde_mm_set1_epi8 0x3C));
          m2 = simde_mm_movemask_epi8 (simde_mm_cmpeq_epi8 chunk (simde_mm_set1_epi8 0x3E));
          m3 = simde_mm_movemask_epi8 (simde_mm_cmpeq_epi8 chunk (simde_mm_set1_epi8 0x26));
          m4 = simde_mm_movemask_epi8 (simde_mm_cmpeq_epi8 chunk (simde_mm_set1_epi8 0x22));
          m5 = simde_mm_movemask_epi8 (simde_mm_cmpeq_epi8 chunk (simde_mm_set1_epi8 0x27))
      in m1 OR m2 OR m3 OR m4 OR m5)"

definition structural_mask :: "m128i \<Rightarrow> u32" where
  "structural_mask chunk =
     (let m1 = simde_mm_cmpeq_epi8 chunk (simde_mm_set1_epi8 0x3C);
          m2 = simde_mm_cmpeq_epi8 chunk (simde_mm_set1_epi8 0x3E);
          m3 = simde_mm_cmpeq_epi8 chunk (simde_mm_set1_epi8 0x2F);
          m4 = simde_mm_cmpeq_epi8 chunk (simde_mm_set1_epi8 0x3D);
          m5 = simde_mm_cmpeq_epi8 chunk (simde_mm_set1_epi8 0x22);
          m6 = simde_mm_cmpeq_epi8 chunk (simde_mm_set1_epi8 0x27);
          m7 = simde_mm_cmpeq_epi8 chunk (simde_mm_set1_epi8 0x26);
          combined = simde_mm_or_si128
            (simde_mm_or_si128 (simde_mm_or_si128 m1 m2) (simde_mm_or_si128 m3 m4))
            (simde_mm_or_si128 (simde_mm_or_si128 m5 m6) m7)
      in simde_mm_movemask_epi8 combined)"

definition text_end_byte :: "u8 \<Rightarrow> bool" where
  "text_end_byte b \<longleftrightarrow> b = 0x3C \<or> b = 0x26"

definition html_text_end_byte :: "u8 \<Rightarrow> bool" where
  "html_text_end_byte b \<longleftrightarrow> b = 0x3C \<or> b = 0x26 \<or> b = 0x00 \<or> b = 0x0D"

definition escape_byte :: "u8 \<Rightarrow> bool" where
  "escape_byte b \<longleftrightarrow> b = 0x3C \<or> b = 0x3E \<or> b = 0x26 \<or> b = 0x22 \<or> b = 0x27"

definition structural_byte :: "u8 \<Rightarrow> bool" where
  "structural_byte b \<longleftrightarrow> b = 0x3C \<or> b = 0x3E \<or> b = 0x2F \<or> b = 0x3D \<or> b = 0x22 \<or> b = 0x27 \<or> b = 0x26"

interpretation xml_byte: lane_test "xml_byte_mask c" "\<lambda>b. b = c" for c
  by unfold_locales (auto simp: xml_byte_mask_def simd_simps split: if_splits)

interpretation xml_text_end: lane_test text_end_mask text_end_byte
  by unfold_locales (auto simp: Let_def text_end_mask_def text_end_byte_def simd_simps bit_or_iff split: if_splits)

interpretation xml_html_end: lane_test html_text_end_mask html_text_end_byte
  by unfold_locales (auto simp: Let_def html_text_end_mask_def html_text_end_byte_def simd_simps bit_or_iff split: if_splits)

interpretation xml_escape: lane_test escape_mask escape_byte
  by unfold_locales (auto simp: Let_def escape_mask_def escape_byte_def simd_simps bit_or_iff split: if_splits)

interpretation xml_structural: lane_test structural_mask structural_byte
  by unfold_locales (auto simp: Let_def structural_mask_def structural_byte_def simd_simps bit_or_iff split: if_splits)

definition or_minus1 :: "nat option \<Rightarrow> int" where
  "or_minus1 r = (case r of Some k \<Rightarrow> int k | None \<Rightarrow> -1)"

definition hs_xml_find_lt :: "nat \<Rightarrow> bytes \<Rightarrow> nat \<Rightarrow> nat \<Rightarrow> int option" where
  "hs_xml_find_lt base buf offset len =
     map_option or_minus1 (xml_scan base (xml_byte_mask 0x3C) (\<lambda>b. b = 0x3C) buf offset len)"

definition hs_xml_find_byte :: "nat \<Rightarrow> bytes \<Rightarrow> nat \<Rightarrow> nat \<Rightarrow> u8 \<Rightarrow> int option" where
  "hs_xml_find_byte base buf offset len target_byte =
     map_option or_minus1
       (xml_scan base (xml_byte_mask target_byte) (\<lambda>b. b = target_byte) buf offset len)"

definition hs_xml_find_attr_end :: "nat \<Rightarrow> bytes \<Rightarrow> nat \<Rightarrow> nat \<Rightarrow> u8 \<Rightarrow> int option" where
  "hs_xml_find_attr_end base buf offset len quote_char = hs_xml_find_byte base buf offset len quote_char"

definition hs_xml_find_text_end :: "nat \<Rightarrow> bytes \<Rightarrow> nat \<Rightarrow> nat \<Rightarrow> nat option" where
  "hs_xml_find_text_end base buf offset len =
     map_option (\<lambda>r. case r of Some k \<Rightarrow> k | None \<Rightarrow> len)
       (xml_scan base text_end_mask text_end_byte buf offset len)"

definition hs_html_find_text_end :: "nat \<Rightarrow> bytes \<Rightarrow> nat \<Rightarrow> nat \<Rightarrow> nat option" where
  "hs_html_find_text_end base buf offset len =
     map_option (\<lambda>r. case r of Some k \<Rightarrow> k | None \<Rightarrow> len)
       (xml_scan base html_text_end_mask html_text_end_byte buf offset len)"

text \<open>\<open>hs_xml_find_escape\<close> counts from \<open>buf + offset\<close>, with unaligned loads and no lead-in.\<close>

definition hs_xml_find_escape :: "bytes \<Rightarrow> nat \<Rightarrow> nat \<Rightarrow> nat option" where
  "hs_xml_find_escape buf offset len = do {
     s \<leftarrow> scan_blocks (\<lambda>i. simde_mm_loadu_si128 buf (offset + i)) escape_mask 0 len;
     (case s of
        Inl i \<Rightarrow> Some (offset + i)
      | Inr i \<Rightarrow> do {
          r \<leftarrow> xml_tail (\<lambda>i. byte_test escape_byte buf (offset + i)) i len;
          Some (case r of Some i \<Rightarrow> offset + i | None \<Rightarrow> offset + len)
        })
   }"

subsection \<open>Three-byte terminators\<close>

text \<open>\<open>buf[i] == c && len - i > 2 && buf[i+1] == c && buf[i+2] == '>'\<close>, evaluated from left to
  right; the chunk loop tests only the part after the first byte.\<close>

definition term_rest :: "u8 \<Rightarrow> bytes \<Rightarrow> nat \<Rightarrow> nat \<Rightarrow> bool option" where
  "term_rest c buf len pos =
     (if len - pos > 2
      then do {
        b1 \<leftarrow> load buf (pos + 1);
        if b1 = c then do { b2 \<leftarrow> load buf (pos + 2); Some (b2 = 0x3E) } else Some False
      }
      else Some False)"

definition term_test :: "u8 \<Rightarrow> bytes \<Rightarrow> nat \<Rightarrow> nat \<Rightarrow> bool option" where
  "term_test c buf len i = do { b \<leftarrow> load buf i; if b = c then term_rest c buf len i else Some False }"

function term_mask_loop :: "(nat \<Rightarrow> bool option) \<Rightarrow> nat \<Rightarrow> u32 \<Rightarrow> nat option option" where
  "term_mask_loop t i msk =
     (if msk \<noteq> 0
      then do {
        let pos = i + builtin_ctz msk;
        hit \<leftarrow> t pos;
        if hit then Some (Some pos) else term_mask_loop t i (msk AND (msk - 1))
      }
      else Some None)"
  by pat_completeness auto
termination
  by (relation "measure (\<lambda>(t, i, msk). unat msk)") (auto simp: clear_lowest_less)

function term_blocks :: "nat \<Rightarrow> u8 \<Rightarrow> bytes \<Rightarrow> nat \<Rightarrow> nat \<Rightarrow> (nat + nat) option" where
  "term_blocks base c buf i len =
     (if 16 \<le> len - i
      then do {
        chunk \<leftarrow> simde_mm_load_si128 base buf i;
        r \<leftarrow> term_mask_loop (term_rest c buf len) i (xml_byte_mask c chunk);
        (case r of Some pos \<Rightarrow> Some (Inl pos) | None \<Rightarrow> term_blocks base c buf (i + 16) len)
      }
      else Some (Inr i))"
  by pat_completeness auto
termination
  by (relation "measure (\<lambda>(base, c, buf, i, len). len - i)") auto

declare term_mask_loop.simps [simp del] term_blocks.simps [simp del]

definition find_terminator :: "u8 \<Rightarrow> nat \<Rightarrow> bytes \<Rightarrow> nat \<Rightarrow> nat \<Rightarrow> int option" where
  "find_terminator c base buf offset len = do {
     r \<leftarrow> xml_lead base (term_test c buf len) offset len;
     (case r of
        Inl k \<Rightarrow> Some (int k)
      | Inr i \<Rightarrow> do {
          s \<leftarrow> term_blocks base c buf i len;
          (case s of
             Inl k \<Rightarrow> Some (int k)
           | Inr i \<Rightarrow> map_option or_minus1 (xml_tail (term_test c buf len) i len))
        })
   }"

definition hs_xml_find_cdata_end :: "nat \<Rightarrow> bytes \<Rightarrow> nat \<Rightarrow> nat \<Rightarrow> int option" where
  "hs_xml_find_cdata_end = find_terminator 0x5D"

definition hs_xml_find_comment_end :: "nat \<Rightarrow> bytes \<Rightarrow> nat \<Rightarrow> nat \<Rightarrow> int option" where
  "hs_xml_find_comment_end = find_terminator 0x2D"

text \<open>The specification: the terminator \<open>c c >\<close> stands at \<open>k\<close>, inside the first \<open>len\<close> bytes.\<close>

definition terminator_at :: "u8 \<Rightarrow> bytes \<Rightarrow> nat \<Rightarrow> nat \<Rightarrow> bool" where
  "terminator_at c buf len k \<longleftrightarrow> k + 3 \<le> len \<and> take 3 (drop k buf) = [c, c, 0x3E]"

lemma terminator_at_iff:
  assumes "len \<le> length buf"
  shows "terminator_at c buf len k \<longleftrightarrow> k + 3 \<le> len \<and> buf ! k = c \<and> buf ! (k + 1) = c \<and> buf ! (k + 2) = 0x3E"
proof (cases "k + 3 \<le> len")
  case True
  then have "take 3 (drop k buf) = [buf ! k, buf ! (k + 1), buf ! (k + 2)]"
    using assms by (simp add: numeral_3_eq_3 take_Suc_conv_app_nth)
  then show ?thesis by (simp add: terminator_at_def)
qed (simp add: terminator_at_def)

lemma term_rest_eq:
  assumes "len \<le> length buf"
  shows "buf ! k = c \<Longrightarrow> term_rest c buf len k = Some (terminator_at c buf len k)"
  using assms by (auto simp: term_rest_def terminator_at_iff load_in)

lemma term_test_eq:
  assumes "len \<le> length buf" and "k < len"
  shows "term_test c buf len k = Some (terminator_at c buf len k)"
  using assms by (auto simp: term_test_def term_rest_eq load_in terminator_at_iff)

lemma term_mask_loop_eq:
  "(\<And>j. bit msk j \<Longrightarrow> t (i + j) = Some (P (i + j))) \<Longrightarrow>
     term_mask_loop t i msk = Some (find P (map ((+) i) (set_bits msk)))"
proof (induction t i msk rule: term_mask_loop.induct)
  case (1 t i msk)
  show ?case
  proof (cases "msk = 0")
    case False
    have t: "t (i + builtin_ctz msk) = Some (P (i + builtin_ctz msk))"
      using 1(2) builtin_ctz_bit(1) [OF False] by blast
    have "term_mask_loop t i (msk AND (msk - 1)) = Some (find P (map ((+) i) (set_bits (msk AND (msk - 1)))))"
      if "\<not> P (i + builtin_ctz msk)"
      using 1(1) [OF False refl t that] 1(2) by (simp add: clear_lowest [OF False])
    then show ?thesis
      using False t by (subst term_mask_loop.simps) (simp add: set_bits_step [OF False] Let_def)
  qed (simp add: term_mask_loop.simps)
qed

text \<open>Searching among the candidate lanes of a chunk is searching the chunk.\<close>

lemma find_filter: "(\<And>x. x \<in> set xs \<Longrightarrow> P x \<Longrightarrow> q x) \<Longrightarrow> find P (filter q xs) = find P xs"
  by (induction xs) auto

lemma find_set_bits:
  fixes msk :: u32
  assumes "\<And>j. bit msk j \<longleftrightarrow> j < 16 \<and> q (i + j)" and "\<And>k. P k \<Longrightarrow> q k"
  shows "find P (map ((+) i) (set_bits msk)) = search P i (i + 16)"
  unfolding set_bits_filter [OF assms(1)] search_def by (rule find_filter) (rule assms(2))

lemma term_blocks_spec:
  assumes "len \<le> length buf"
  shows "(base + i) mod 16 = 0 \<Longrightarrow> (case term_blocks base c buf i len of
      None \<Rightarrow> False
    | Some (Inl k) \<Rightarrow> search (terminator_at c buf len) i len = Some k
    | Some (Inr j) \<Rightarrow> search (terminator_at c buf len) i len = search (terminator_at c buf len) j len)"
proof (induction "len - i" arbitrary: i rule: less_induct)
  case less
  show ?case
  proof (cases "16 \<le> len - i")
    case True
    define v where "v = take 16 (drop i buf)"
    have v: "length v = 16" and at: "\<And>k. k < 16 \<Longrightarrow> v ! k = buf ! (i + k)"
      using True assms by (simp_all add: v_def)
    have load: "simde_mm_load_si128 base buf i = Some v"
      using True assms less.prems by (simp add: simde_mm_load_si128_def load_block_in v_def)
    have bits: "bit (xml_byte_mask c v) j \<longleftrightarrow> j < 16 \<and> buf ! (i + j) = c" for j
      using xml_byte.lane [OF v] at by auto
    have loop: "term_mask_loop (term_rest c buf len) i (xml_byte_mask c v) =
        Some (search (terminator_at c buf len) i (i + 16))"
    proof -
      have "term_mask_loop (term_rest c buf len) i (xml_byte_mask c v) =
          Some (find (terminator_at c buf len) (map ((+) i) (set_bits (xml_byte_mask c v))))"
        by (rule term_mask_loop_eq) (simp add: bits term_rest_eq [OF assms])
      also have "find (terminator_at c buf len) (map ((+) i) (set_bits (xml_byte_mask c v))) =
          search (terminator_at c buf len) i (i + 16)"
        by (rule find_set_bits [where q = "\<lambda>k. buf ! k = c"])
          (simp_all add: bits terminator_at_iff [OF assms])
      finally show ?thesis .
    qed
    have app: "search (terminator_at c buf len) i len =
        (case search (terminator_at c buf len) i (i + 16) of
           Some k \<Rightarrow> Some k | None \<Rightarrow> search (terminator_at c buf len) (i + 16) len)"
      using True by (intro search_append) simp_all
    show ?thesis
    proof (cases "search (terminator_at c buf len) i (i + 16)")
      case None
      moreover have "(base + (i + 16)) mod 16 = 0" using less.prems by presburger
      moreover have "len - (i + 16) < len - i" using True by arith
      ultimately show ?thesis
        using less.hyps [of "i + 16"] True load loop app
        by (subst term_blocks.simps) (simp split: option.splits sum.splits)
    qed (use True load loop app in \<open>subst term_blocks.simps, simp\<close>)
  qed (simp add: term_blocks.simps)
qed

lemma find_terminator_eq:
  assumes "len \<le> length buf"
  shows "find_terminator c base buf offset len =
    Some (or_minus1 (search (terminator_at c buf len) offset len))"
proof -
  let ?P = "terminator_at c buf len"
  have lead: "(case xml_lead base (term_test c buf len) offset len of
        None \<Rightarrow> False
      | Some (Inl k) \<Rightarrow> search ?P offset len = Some k
      | Some (Inr j) \<Rightarrow> offset \<le> j \<and> (len \<le> j \<or> (base + j) mod 16 = 0) \<and> search ?P offset len = search ?P j len)"
    using term_test_eq [OF assms] by (intro xml_lead_spec) simp
  have tail: "xml_tail (term_test c buf len) j len = Some (search ?P j len)" for j
    using term_test_eq [OF assms] by (intro xml_tail_spec) simp
  have blocks: "(case term_blocks base c buf j len of
      None \<Rightarrow> False
    | Some (Inl k) \<Rightarrow> search ?P j len = Some k
    | Some (Inr l) \<Rightarrow> search ?P j len = search ?P l len)"
    if "len \<le> j \<or> (base + j) mod 16 = 0" for j
    using that term_blocks_spec [OF assms, of base j c] by (cases "len \<le> j") (simp_all add: term_blocks.simps)
  show ?thesis
  proof (cases "xml_lead base (term_test c buf len) offset len")
    case (Some r)
    show ?thesis
    proof (cases r)
      case (Inr j)
      then show ?thesis
        using lead blocks [of j] Some
        by (auto simp: find_terminator_def tail or_minus1_def split: option.splits sum.splits)
    qed (use lead Some in \<open>simp add: find_terminator_def or_minus1_def\<close>)
  qed (use lead in simp)
qed

subsection \<open>The structural index\<close>

text \<open>The caller's array with the number of entries written.  A write past its end faults.\<close>

definition put_index :: "nat \<Rightarrow> nat list \<times> nat \<Rightarrow> (nat list \<times> nat) option" where
  "put_index pos st = (case st of (indices, count) \<Rightarrow>
     if count < length indices then Some (indices[count := pos], count + 1) else None)"

function struct_mask_loop ::
  "nat \<Rightarrow> nat \<Rightarrow> u32 \<Rightarrow> nat list \<times> nat \<Rightarrow> (nat list \<times> nat) option" where
  "struct_mask_loop max_indices i msk st =
     (if msk \<noteq> 0 \<and> snd st < max_indices
      then do {
        st \<leftarrow> put_index (i + builtin_ctz msk) st;
        struct_mask_loop max_indices i (msk AND (msk - 1)) st
      }
      else Some st)"
  by pat_completeness auto
termination
  by (relation "measure (\<lambda>(m, i, msk, st). unat msk)") (auto simp: clear_lowest_less)

function struct_blocks ::
  "nat \<Rightarrow> bytes \<Rightarrow> nat \<Rightarrow> nat \<Rightarrow> nat list \<times> nat \<Rightarrow> (nat \<times> nat list \<times> nat) option" where
  "struct_blocks max_indices buf i len st =
     (if 16 \<le> len - i \<and> snd st < max_indices
      then do {
        chunk \<leftarrow> simde_mm_loadu_si128 buf i;
        st \<leftarrow> struct_mask_loop max_indices i (structural_mask chunk) st;
        struct_blocks max_indices buf (i + 16) len st
      }
      else Some (i, st))"
  by pat_completeness auto
termination
  by (relation "measure (\<lambda>(m, buf, i, len, st). len - i)") auto

function struct_tail ::
  "nat \<Rightarrow> bytes \<Rightarrow> nat \<Rightarrow> nat \<Rightarrow> nat list \<times> nat \<Rightarrow> (nat list \<times> nat) option" where
  "struct_tail max_indices buf i len st =
     (if i < len \<and> snd st < max_indices
      then do {
        b \<leftarrow> load buf i;
        st \<leftarrow> (if structural_byte b then put_index i st else Some st);
        struct_tail max_indices buf (Suc i) len st
      }
      else Some st)"
  by pat_completeness auto
termination
  by (relation "measure (\<lambda>(m, buf, i, len, st). len - i)") auto

declare struct_mask_loop.simps [simp del] struct_blocks.simps [simp del] struct_tail.simps [simp del]

definition hs_xml_scan_structural ::
  "bytes \<Rightarrow> nat \<Rightarrow> nat list \<Rightarrow> nat \<Rightarrow> (nat \<times> nat list) option" where
  "hs_xml_scan_structural buf len indices max_indices = do {
     (i, st) \<leftarrow> struct_blocks max_indices buf 0 len (indices, 0);
     (indices, count) \<leftarrow> struct_tail max_indices buf i len st;
     Some (count, indices)
   }"

text \<open>Writing as many of the positions \<open>ps\<close> as fit below \<open>max_indices\<close>.\<close>

fun emit :: "nat \<Rightarrow> nat list \<Rightarrow> nat list \<times> nat \<Rightarrow> nat list \<times> nat" where
  "emit mx [] st = st"
| "emit mx (p # ps) (ix, n) = (if n < mx then emit mx ps (ix[n := p], n + 1) else (ix, n))"

lemma emit_full: "mx \<le> snd st \<Longrightarrow> emit mx ps st = st"
  by (cases ps; cases st) auto

lemma emit_append: "emit mx (ps @ qs) st = emit mx qs (emit mx ps st)"
  by (induction mx ps st rule: emit.induct) (auto simp: emit_full)

lemma emit_length [simp]: "length (fst (emit mx ps st)) = length (fst st)"
  by (induction mx ps st rule: emit.induct) auto

lemma emit_eq:
  "n \<le> mx \<Longrightarrow> mx \<le> length ix \<Longrightarrow>
     emit mx ps (ix, n) =
       (take n ix @ take (mx - n) ps @ drop (n + length (take (mx - n) ps)) ix, n + length (take (mx - n) ps))"
proof (induction ps arbitrary: n ix)
  case (Cons p ps)
  show ?case
  proof (cases "n < mx")
    case True
    then have "mx - n = Suc (mx - Suc n)" by arith
    moreover have "take (Suc n) (ix[n := p]) = take n ix @ [p]"
      using True Cons.prems by (simp add: take_Suc_conv_app_nth)
    ultimately show ?thesis
      using True Cons.prems Cons.IH [of "Suc n" "ix[n := p]"] by simp
  qed (use Cons.prems in simp)
qed simp

lemma put_index_eq: "snd st < length (fst st) \<Longrightarrow> put_index p st = Some ((fst st)[snd st := p], snd st + 1)"
  by (cases st) (simp add: put_index_def)

lemma struct_mask_loop_eq:
  "mx \<le> length (fst st) \<Longrightarrow>
     struct_mask_loop mx i msk st = Some (emit mx (map ((+) i) (set_bits msk)) st)"
proof (induction mx i msk st rule: struct_mask_loop.induct)
  case (1 mx i msk st)
  show ?case
  proof (cases "msk \<noteq> 0 \<and> snd st < mx")
    case True
    then have put: "put_index (i + builtin_ctz msk) st =
        Some ((fst st)[snd st := i + builtin_ctz msk], snd st + 1)"
      using 1(2) by (simp add: put_index_eq)
    show ?thesis
      using 1(1) [OF True put] 1(2) True put
      by (cases st; subst struct_mask_loop.simps) (simp add: set_bits_step)
  next
    case False
    then show ?thesis by (subst struct_mask_loop.simps) (auto simp: emit_full)
  qed
qed

definition structurals :: "bytes \<Rightarrow> nat \<Rightarrow> nat \<Rightarrow> nat list" where
  "structurals buf i j = filter (\<lambda>k. structural_byte (buf ! k)) [i..<j]"

lemma structurals_append:
  assumes "i \<le> j" and "j \<le> l"
  shows "structurals buf i l = structurals buf i j @ structurals buf j l"
proof -
  have "[i..<l] = [i..<j] @ [j..<l]" using upt_add_eq_append [of i j "l - j"] assms by simp
  then show ?thesis by (simp add: structurals_def)
qed

lemma struct_tail_eq:
  "len \<le> length buf \<Longrightarrow> mx \<le> length (fst st) \<Longrightarrow>
     struct_tail mx buf i len st = Some (emit mx (structurals buf i len) st)"
proof (induction mx buf i len st rule: struct_tail.induct)
  case (1 mx buf i len st)
  show ?case
  proof (cases "i < len \<and> snd st < mx")
    case True
    then have b: "load buf i = Some (buf ! i)" using 1(2) by (simp add: load_in)
    define st' where "st' = (if structural_byte (buf ! i) then ((fst st)[snd st := i], snd st + 1) else st)"
    have put: "(if structural_byte (buf ! i) then put_index i st else Some st) = Some st'"
      using True 1(3) by (simp add: st'_def put_index_eq)
    have "structurals buf i len = (if structural_byte (buf ! i) then [i] else []) @ structurals buf (Suc i) len"
      using True by (simp add: structurals_def upt_conv_Cons)
    moreover have "struct_tail mx buf (Suc i) len st' = Some (emit mx (structurals buf (Suc i) len) st')"
      using 1(1) [OF True b put] 1(2,3) by (simp add: st'_def)
    ultimately show ?thesis
      using True b put by (cases st; subst struct_tail.simps) (simp add: st'_def)
  next
    case False
    then show ?thesis by (subst struct_tail.simps) (auto simp: emit_full structurals_def)
  qed
qed

lemma struct_blocks_eq:
  "len \<le> length buf \<Longrightarrow> mx \<le> length (fst st) \<Longrightarrow> i \<le> len \<Longrightarrow>
     \<exists>j. struct_blocks mx buf i len st = Some (j, emit mx (structurals buf i j) st) \<and> i \<le> j \<and> j \<le> len"
proof (induction mx buf i len st rule: struct_blocks.induct)
  case (1 mx buf i len st)
  show ?case
  proof (cases "16 \<le> len - i \<and> snd st < mx")
    case True
    define v where "v = take 16 (drop i buf)"
    have v: "length v = 16" and at: "\<And>k. k < 16 \<Longrightarrow> v ! k = buf ! (i + k)"
      using conjunct1 [OF True] 1(2) by (simp_all add: v_def)
    have load: "simde_mm_loadu_si128 buf i = Some v"
      using conjunct1 [OF True] 1(2) by (simp add: simde_mm_loadu_si128_def load_block_in v_def)
    have bits: "bit (structural_mask v) j \<longleftrightarrow> j < 16 \<and> structural_byte (buf ! (i + j))" for j
      using xml_structural.lane [OF v] at by auto
    have "map ((+) i) (set_bits (structural_mask v)) = structurals buf i (i + 16)"
      unfolding structurals_def by (rule set_bits_filter) (simp add: bits)
    then have loop: "struct_mask_loop mx i (structural_mask v) st =
        Some (emit mx (structurals buf i (i + 16)) st)"
      using struct_mask_loop_eq [OF 1(3)] by simp
    obtain j where "struct_blocks mx buf (i + 16) len (emit mx (structurals buf i (i + 16)) st) =
        Some (j, emit mx (structurals buf (i + 16) j) (emit mx (structurals buf i (i + 16)) st))"
      "i + 16 \<le> j" "j \<le> len"
    proof -
      have "i + 16 \<le> len" using conjunct1 [OF True] by arith
      then show ?thesis using that 1(1) [OF True load loop] 1(2,3) by auto
    qed
    then show ?thesis
      using True load loop structurals_append [of i "i + 16" j buf]
      by (intro exI [of _ j], subst struct_blocks.simps) (simp add: emit_append)
  next
    case False
    then show ?thesis
      using 1(4) by (intro exI [of _ i], subst struct_blocks.simps) (auto simp: structurals_def)
  qed
qed

lemma hs_xml_find_escape_eq:
  assumes "offset + len \<le> length buf"
  shows "hs_xml_find_escape buf offset len =
    Some (case first_pos escape_byte (drop offset buf) 0 len of Some i \<Rightarrow> offset + i | None \<Rightarrow> offset + len)"
proof -
  have len: "len \<le> length (drop offset buf)" using assms by simp
  have blocks: "(case scan_blocks (\<lambda>i. simde_mm_loadu_si128 buf (offset + i)) escape_mask 0 len of
      None \<Rightarrow> False
    | Some (Inl k) \<Rightarrow> first_pos escape_byte (drop offset buf) 0 len = Some k
    | Some (Inr j) \<Rightarrow> 0 \<le> j \<and> (0 \<le> len \<longrightarrow> j \<le> len) \<and>
        first_pos escape_byte (drop offset buf) 0 len = first_pos escape_byte (drop offset buf) j len)"
    using assms
    by (intro xml_escape.scan_blocks_spec len)
      (simp add: simde_mm_loadu_si128_def load_block_in add.commute)
  have tail: "xml_tail (\<lambda>i. byte_test escape_byte buf (offset + i)) j len =
      Some (first_pos escape_byte (drop offset buf) j len)" for j
    unfolding search_first_pos [symmetric]
    using assms by (intro xml_tail_spec) (simp add: byte_test_def load_in)
  show ?thesis
    using blocks by (auto simp: hs_xml_find_escape_def tail split: option.splits sum.splits)
qed

subsection \<open>Properties\<close>

text \<open>C33: the XML searches return the first position they are named for, whatever the alignment of
  the buffer: -1 on a miss for \<open><\<close>, a given byte, a closing quote, \<open>]]>\<close> and \<open>-->\<close>, the end of the
  scanned range for the text and escape scans.\<close>

theorem xml_searches_correct:
  assumes "len \<le> length buf"
  shows "hs_xml_find_lt base buf offset len = Some (or_minus1 (search (\<lambda>k. buf ! k = 0x3C) offset len)) \<and>
    hs_xml_find_byte base buf offset len c = Some (or_minus1 (search (\<lambda>k. buf ! k = c) offset len)) \<and>
    hs_xml_find_attr_end base buf offset len c = Some (or_minus1 (search (\<lambda>k. buf ! k = c) offset len)) \<and>
    hs_xml_find_cdata_end base buf offset len =
      Some (or_minus1 (search (\<lambda>k. k + 3 \<le> len \<and> take 3 (drop k buf) = [0x5D, 0x5D, 0x3E]) offset len)) \<and>
    hs_xml_find_comment_end base buf offset len =
      Some (or_minus1 (search (\<lambda>k. k + 3 \<le> len \<and> take 3 (drop k buf) = [0x2D, 0x2D, 0x3E]) offset len)) \<and>
    hs_xml_find_text_end base buf offset len =
      Some (case search (\<lambda>k. buf ! k \<in> {0x3C, 0x26}) offset len of Some k \<Rightarrow> k | None \<Rightarrow> len) \<and>
    hs_html_find_text_end base buf offset len =
      Some (case search (\<lambda>k. buf ! k \<in> {0x3C, 0x26, 0x00, 0x0D}) offset len of Some k \<Rightarrow> k | None \<Rightarrow> len) \<and>
    (offset + n \<le> length buf \<longrightarrow> hs_xml_find_escape buf offset n =
      Some (case search (\<lambda>k. buf ! (offset + k) \<in> {0x3C, 0x3E, 0x26, 0x22, 0x27}) 0 n of
              Some i \<Rightarrow> offset + i | None \<Rightarrow> offset + n))"
proof (intro conjI impI)
  show "hs_xml_find_lt base buf offset len = Some (or_minus1 (search (\<lambda>k. buf ! k = 0x3C) offset len))"
    by (simp add: hs_xml_find_lt_def xml_byte.xml_scan_spec [OF assms] search_def first_pos_def)
  show byte: "hs_xml_find_byte base buf offset len c = Some (or_minus1 (search (\<lambda>k. buf ! k = c) offset len))"
    by (simp add: hs_xml_find_byte_def xml_byte.xml_scan_spec [OF assms] search_def first_pos_def)
  then show "hs_xml_find_attr_end base buf offset len c =
      Some (or_minus1 (search (\<lambda>k. buf ! k = c) offset len))"
    by (simp add: hs_xml_find_attr_end_def)
  show "hs_xml_find_cdata_end base buf offset len =
      Some (or_minus1 (search (\<lambda>k. k + 3 \<le> len \<and> take 3 (drop k buf) = [0x5D, 0x5D, 0x3E]) offset len))"
    by (simp add: hs_xml_find_cdata_end_def find_terminator_eq [OF assms] terminator_at_def [abs_def])
  show "hs_xml_find_comment_end base buf offset len =
      Some (or_minus1 (search (\<lambda>k. k + 3 \<le> len \<and> take 3 (drop k buf) = [0x2D, 0x2D, 0x3E]) offset len))"
    by (simp add: hs_xml_find_comment_end_def find_terminator_eq [OF assms] terminator_at_def [abs_def])
  show "hs_xml_find_text_end base buf offset len =
      Some (case search (\<lambda>k. buf ! k \<in> {0x3C, 0x26}) offset len of Some k \<Rightarrow> k | None \<Rightarrow> len)"
    by (simp add: hs_xml_find_text_end_def xml_text_end.xml_scan_spec [OF assms] search_def first_pos_def
      text_end_byte_def)
  show "hs_html_find_text_end base buf offset len =
      Some (case search (\<lambda>k. buf ! k \<in> {0x3C, 0x26, 0x00, 0x0D}) offset len of Some k \<Rightarrow> k | None \<Rightarrow> len)"
    by (simp add: hs_html_find_text_end_def xml_html_end.xml_scan_spec [OF assms] search_def first_pos_def
      html_text_end_byte_def)
  assume n: "offset + n \<le> length buf"
  have "first_pos escape_byte (drop offset buf) 0 n =
      search (\<lambda>k. buf ! (offset + k) \<in> {0x3C, 0x3E, 0x26, 0x22, 0x27}) 0 n"
    unfolding search_def first_pos_def by (rule find_cong) (use n in \<open>auto simp: escape_byte_def\<close>)
  then show "hs_xml_find_escape buf offset n =
      Some (case search (\<lambda>k. buf ! (offset + k) \<in> {0x3C, 0x3E, 0x26, 0x22, 0x27}) 0 n of
              Some i \<Rightarrow> offset + i | None \<Rightarrow> offset + n)"
    by (simp only: hs_xml_find_escape_eq [OF n])
qed

theorem xml_searches_correct_witness:
  "hs_xml_find_cdata_end 3 [0x5D, 0x5D, 0x5D, 0x3E] 0 4 =
     Some (or_minus1 (search (\<lambda>k. k + 3 \<le> 4 \<and>
       take 3 (drop k [0x5D, 0x5D, 0x5D, 0x3E]) = [0x5D, 0x5D, 0x3E :: u8]) 0 4)) \<and>
   hs_xml_find_cdata_end 3 [0x5D, 0x5D, 0x5D, 0x3E] 0 4 = Some 1"
proof (rule conjI)
  show "hs_xml_find_cdata_end 3 [0x5D, 0x5D, 0x5D, 0x3E] 0 4 = Some 1" by code_simp
qed (use xml_searches_correct [of 4 "[0x5D, 0x5D, 0x5D, 0x3E]" 3 0 0 0] in simp)

text \<open>C34: the structural index holds the positions of the first \<open>max_indices\<close> structural characters
  in order, its length is returned, and the rest of the caller's array is untouched.\<close>

theorem xml_structural_correct:
  assumes "len \<le> length buf" and "max_indices \<le> length indices"
  shows "hs_xml_scan_structural buf len indices max_indices =
    (let found = take max_indices (filter (\<lambda>k. structural_byte (buf ! k)) [0..<len])
     in Some (length found, found @ drop (length found) indices))"
proof -
  obtain j where j: "struct_blocks max_indices buf 0 len (indices, 0) =
      Some (j, emit max_indices (structurals buf 0 j) (indices, 0))" "j \<le> len"
    using struct_blocks_eq [OF assms(1), of max_indices "(indices, 0)" 0] assms(2) by auto
  have "struct_tail max_indices buf j len (emit max_indices (structurals buf 0 j) (indices, 0)) =
      Some (emit max_indices (structurals buf 0 len) (indices, 0))"
    using struct_tail_eq [OF assms(1)] assms(2) structurals_append [of 0 j len buf] j(2)
    by (simp add: emit_append)
  then show ?thesis
    using j assms(2)
    by (simp add: hs_xml_scan_structural_def emit_eq structurals_def Let_def)
qed

theorem xml_structural_correct_witness:
  "hs_xml_scan_structural [0x3C, 0x61, 0x2F, 0x3E] 4 [7, 7, 7] 2 =
     (let found = take 2 (filter (\<lambda>k. structural_byte ([0x3C, 0x61, 0x2F, 0x3E] ! k)) [0..<4])
      in Some (length found, found @ drop (length found) [7, 7, 7])) \<and>
   hs_xml_scan_structural [0x3C, 0x61, 0x2F, 0x3E] 4 [7, 7, 7] 2 = Some (2, [0, 2, 7])"
proof (rule conjI)
  show "hs_xml_scan_structural [0x3C, 0x61, 0x2F, 0x3E] 4 [7, 7, 7] 2 = Some (2, [0, 2, 7])" by code_simp
qed (rule xml_structural_correct, simp_all)

end
