(* ===== verification/Hash.thy ===== *)
theory Hash
  imports Endian
begin

text \<open>
  \<open>wireform-core/cbits/wireform_hash_simd.c\<close>, first half: Murmur3 (32 bit, seed 0) with Iceberg's
  bucket transform, and XXH64.  The C functions work through the buffer by index with unrolled
  blocks.  Murmur3 is compared with a recursion over the list of bytes, block by block; XXH64 with its
  published description, written on plain integers with its own constants and its own steps.
\<close>

subsection \<open>Murmur3\<close>

definition hs_rotl32 :: "u32 \<Rightarrow> nat \<Rightarrow> u32" where
  "hs_rotl32 x r = push_bit r x OR drop_bit ((32 - r) mod 32) x"

definition MURMUR_C1 :: u32 where "MURMUR_C1 = 0xcc9e2d51"
definition MURMUR_C2 :: u32 where "MURMUR_C2 = 0x1b873593"

text \<open>\<open>k = rotl(k * c1, 15) * c2\<close> and \<open>h = rotl(h ^ k, 13) * 5 + 0xe6546b64\<close>.\<close>

definition murmur_scramble :: "u32 \<Rightarrow> u32" where
  "murmur_scramble k = hs_rotl32 (k * MURMUR_C1) 15 * MURMUR_C2"

definition murmur_mix :: "u32 \<Rightarrow> u32 \<Rightarrow> u32" where
  "murmur_mix h k = hs_rotl32 (h XOR k) 13 * 5 + 0xe6546b64"

function murmur_unrolled :: "bytes \<Rightarrow> nat \<Rightarrow> u32 \<Rightarrow> nat \<Rightarrow> (u32 \<times> nat) option" where
  "murmur_unrolled buf len h i =
     (if 16 \<le> len - i
      then do {
        k0 \<leftarrow> load_le 4 buf i;
        k1 \<leftarrow> load_le 4 buf (i + 4);
        k2 \<leftarrow> load_le 4 buf (i + 8);
        k3 \<leftarrow> load_le 4 buf (i + 12);
        let k0 = murmur_scramble k0;
        let h = murmur_mix h k0;
        let k1 = murmur_scramble k1;
        let h = murmur_mix h k1;
        let k2 = murmur_scramble k2;
        let h = murmur_mix h k2;
        let k3 = murmur_scramble k3;
        let h = murmur_mix h k3;
        murmur_unrolled buf len h (i + 16)
      }
      else Some (h, i))"
  by pat_completeness auto
termination
  by (relation "measure (\<lambda>(buf, len, h, i). len - i)") auto

function murmur_blocks :: "bytes \<Rightarrow> nat \<Rightarrow> u32 \<Rightarrow> nat \<Rightarrow> (u32 \<times> nat) option" where
  "murmur_blocks buf len h i =
     (if 4 \<le> len - i
      then do {
        k \<leftarrow> load_le 4 buf i;
        murmur_blocks buf len (murmur_mix h (murmur_scramble k)) (i + 4)
      }
      else Some (h, i))"
  by pat_completeness auto
termination
  by (relation "measure (\<lambda>(buf, len, h, i). len - i)") auto

declare murmur_unrolled.simps [simp del] murmur_blocks.simps [simp del]

definition murmur_tail :: "bytes \<Rightarrow> nat \<Rightarrow> nat \<Rightarrow> u32 option" where
  "murmur_tail buf i tail =
     (if tail = 3 then do {
        b0 \<leftarrow> load buf i;
        b1 \<leftarrow> load buf (i + 1);
        b2 \<leftarrow> load buf (i + 2);
        Some (ucast b0 OR push_bit 8 (ucast b1) OR push_bit 16 (ucast b2))
      }
      else if tail = 2 then do {
        b0 \<leftarrow> load buf i;
        b1 \<leftarrow> load buf (i + 1);
        Some (ucast b0 OR push_bit 8 (ucast b1))
      }
      else if tail = 1 then do {
        b0 \<leftarrow> load buf i;
        Some (ucast b0)
      }
      else Some 0)"

definition murmur_final :: "u32 \<Rightarrow> u32" where
  "murmur_final h =
     (let h = h XOR drop_bit 16 h;
          h = h * 0x85ebca6b;
          h = h XOR drop_bit 13 h;
          h = h * 0xc2b2ae35;
          h = h XOR drop_bit 16 h
      in h)"

definition hs_wf_murmur3_32 :: "bytes \<Rightarrow> nat \<Rightarrow> int option" where
  "hs_wf_murmur3_32 buf len = do {
     (h, i) \<leftarrow> murmur_unrolled buf len 0 0;
     (h, i) \<leftarrow> murmur_blocks buf len h i;
     let tail = len - i;
     k1 \<leftarrow> murmur_tail buf i tail;
     let h = (if tail \<noteq> 0 then h XOR murmur_scramble k1 else h);
     let h = h XOR of_nat len;
     Some (sint (murmur_final h))
   }"

text \<open>\<open>buckets\<close> is an \<open>int32_t\<close> in C; the model and its theorem do not need the bound.\<close>

definition hs_wf_bucket_long :: "u64 \<Rightarrow> int \<Rightarrow> int option" where
  "hs_wf_bucket_long v buckets =
     (if buckets \<le> 0 then Some 0
      else do {
        let buf = map (\<lambda>i. ucast (drop_bit (8 * i) v)) [0..<8];
        h \<leftarrow> hs_wf_murmur3_32 buf 8;
        let pos = (word_of_int h :: u32) AND 0x7fffffff;
        Some (sint (pos mod word_of_int buckets))
      })"

text \<open>The reference: one 4-byte block after the other, the rest scrambled in without mixing.\<close>

fun murmur_ref :: "u32 \<Rightarrow> bytes \<Rightarrow> u32" where
  "murmur_ref h (b0 # b1 # b2 # b3 # bs) = murmur_ref (murmur_mix h (murmur_scramble (le_word [b0, b1, b2, b3]))) bs"
| "murmur_ref h [] = h"
| "murmur_ref h bs = h XOR murmur_scramble (le_word bs)"

definition murmur3 :: "bytes \<Rightarrow> u32" where
  "murmur3 bs = murmur_final (murmur_ref 0 bs XOR of_nat (length bs))"

text \<open>What is left of the input at index \<open>i\<close>.\<close>

definition rest :: "bytes \<Rightarrow> nat \<Rightarrow> nat \<Rightarrow> bytes" where
  "rest buf len i = take (len - i) (drop i buf)"

lemma rest_take: "i + n \<le> len \<Longrightarrow> take n (rest buf len i) = take n (drop i buf)"
  by (simp add: rest_def min_def)

lemma rest_drop: "drop n (rest buf len i) = rest buf len (i + n)"
  by (simp add: rest_def drop_take add.commute)

lemma rest_length: "len \<le> length buf \<Longrightarrow> length (rest buf len i) = len - i"
  by (simp add: rest_def)

lemma split_4:
  assumes "4 \<le> length xs"
  obtains a b c d ys where "xs = a # b # c # d # ys" "take 4 xs = [a, b, c, d]" "drop 4 xs = ys"
proof -
  obtain a b c d ys where "xs = a # b # c # d # ys"
    using assms by (cases xs; cases "tl xs"; cases "tl (tl xs)"; cases "tl (tl (tl xs))") auto
  then show ?thesis by (intro that) simp_all
qed

lemma murmur_ref_step:
  assumes "4 \<le> length xs"
  shows "murmur_ref h xs = murmur_ref (murmur_mix h (murmur_scramble (le_word (take 4 xs)))) (drop 4 xs)"
  using split_4 [OF assms] by (metis murmur_ref.simps(1))

lemma murmur_ref_at:
  assumes "len \<le> length buf" and "i + 4 \<le> len"
  shows "murmur_ref h (rest buf len i) =
    murmur_ref (murmur_mix h (murmur_scramble (le_word (take 4 (drop i buf))))) (rest buf len (i + 4))"
  using murmur_ref_step [of "rest buf len i" h] assms by (simp add: rest_length rest_take rest_drop)

lemma murmur_unrolled_eq:
  assumes "len \<le> length buf"
  shows "i \<le> len \<Longrightarrow> \<exists>h' j. murmur_unrolled buf len h i = Some (h', j) \<and> j \<le> len \<and>
    murmur_ref h' (rest buf len j) = murmur_ref h (rest buf len i)"
proof (induction "len - i" arbitrary: h i rule: less_induct)
  case less
  show ?case
  proof (cases "16 \<le> len - i")
    case True
    define m where "m h i = murmur_mix h (murmur_scramble (le_word (take 4 (drop i buf))))" for h i
    have step: "murmur_unrolled buf len h i =
        murmur_unrolled buf len (m (m (m (m h i) (i + 4)) (i + 8)) (i + 12)) (i + 16)"
      using True assms by (subst murmur_unrolled.simps) (simp add: load_le_in Let_def m_def)
    have at: "murmur_ref h (rest buf len i) = murmur_ref (m h i) (rest buf len (i + 4))"
      if "i + 4 \<le> len" for h i
      unfolding m_def using assms that by (rule murmur_ref_at)
    have "murmur_ref h (rest buf len i) =
        murmur_ref (m (m (m (m h i) (i + 4)) (i + 8)) (i + 12)) (rest buf len (i + 16))"
      using True at [of i h] at [of "i + 4"] at [of "i + 8"] at [of "i + 12"] by (simp add: add.assoc)
    moreover have "len - (i + 16) < len - i" "i + 16 \<le> len" using True by arith+
    ultimately show ?thesis
      using less.hyps [of "i + 16"] unfolding step by metis
  qed (use less.prems in \<open>auto simp: murmur_unrolled.simps\<close>)
qed

lemma murmur_blocks_eq:
  assumes "len \<le> length buf"
  shows "i \<le> len \<Longrightarrow> \<exists>h' j. murmur_blocks buf len h i = Some (h', j) \<and> j \<le> len \<and> len - j < 4 \<and>
    murmur_ref h' (rest buf len j) = murmur_ref h (rest buf len i)"
proof (induction "len - i" arbitrary: h i rule: less_induct)
  case less
  show ?case
  proof (cases "4 \<le> len - i")
    case True
    define h' where "h' = murmur_mix h (murmur_scramble (le_word (take 4 (drop i buf))))"
    have "murmur_blocks buf len h i = murmur_blocks buf len h' (i + 4)"
      using True assms by (subst murmur_blocks.simps) (simp add: load_le_in h'_def)
    moreover have "murmur_ref h (rest buf len i) = murmur_ref h' (rest buf len (i + 4))"
      unfolding h'_def using True assms by (intro murmur_ref_at) simp_all
    moreover have "len - (i + 4) < len - i" "i + 4 \<le> len" using True by arith+
    ultimately show ?thesis using less.hyps [of "i + 4" h'] by metis
  qed (use less.prems in \<open>auto simp: murmur_blocks.simps\<close>)
qed

lemma rest_short:
  assumes "len \<le> length buf" and "i \<le> len" and "len - i < 4"
  shows "len - i = 0 \<Longrightarrow> rest buf len i = []"
    and "len - i = 1 \<Longrightarrow> rest buf len i = [buf ! i]"
    and "len - i = 2 \<Longrightarrow> rest buf len i = [buf ! i, buf ! (i + 1)]"
    and "len - i = 3 \<Longrightarrow> rest buf len i = [buf ! i, buf ! (i + 1), buf ! (i + 2)]"
  using assms
  by (auto simp: rest_def numeral_2_eq_2 numeral_3_eq_3 take_Suc_conv_app_nth intro!: nth_equalityI)

lemma murmur_tail_eq:
  assumes "len \<le> length buf" and "j \<le> len" and "len - j < 4"
  shows "murmur_tail buf j (len - j) = Some (le_word (rest buf len j))"
    and "murmur_ref h (rest buf len j) =
      (if len - j \<noteq> 0 then h XOR murmur_scramble (le_word (rest buf len j)) else h)"
proof -
  consider "len - j = 0" | "len - j = 1" | "len - j = 2" | "len - j = 3" using assms(3) by linarith
  then have "murmur_tail buf j (len - j) = Some (le_word (rest buf len j)) \<and>
    murmur_ref h (rest buf len j) =
      (if len - j \<noteq> 0 then h XOR murmur_scramble (le_word (rest buf len j)) else h)"
    using assms(1,2) rest_short [OF assms]
    by cases (simp_all add: murmur_tail_def load_in push_bit_or or.assoc)
  then show "murmur_tail buf j (len - j) = Some (le_word (rest buf len j))"
    and "murmur_ref h (rest buf len j) =
      (if len - j \<noteq> 0 then h XOR murmur_scramble (le_word (rest buf len j)) else h)" by simp_all
qed

lemma murmur3_eq:
  assumes "len \<le> length buf"
  shows "hs_wf_murmur3_32 buf len = Some (sint (murmur3 (take len buf)))"
proof -
  obtain h1 j1 where 1: "murmur_unrolled buf len 0 0 = Some (h1, j1)" "j1 \<le> len"
    "murmur_ref h1 (rest buf len j1) = murmur_ref 0 (rest buf len 0)"
    using murmur_unrolled_eq [OF assms, of 0 0] by auto
  obtain h2 j2 where 2: "murmur_blocks buf len h1 j1 = Some (h2, j2)" "j2 \<le> len" "len - j2 < 4"
    "murmur_ref h2 (rest buf len j2) = murmur_ref h1 (rest buf len j1)"
    using murmur_blocks_eq [OF assms 1(2), of h1] by auto
  have "murmur_ref 0 (take len buf) =
      (if len - j2 \<noteq> 0 then h2 XOR murmur_scramble (le_word (rest buf len j2)) else h2)"
    using 1(3) 2(4) murmur_tail_eq(2) [OF assms 2(2,3), of h2] by (simp add: rest_def)
  then show ?thesis
    using assms 1(1) 2(1) murmur_tail_eq(1) [OF assms 2(2,3)]
    by (simp add: hs_wf_murmur3_32_def murmur3_def Let_def min_def)
qed

subsection \<open>XXH64\<close>

definition XXH_PRIME64_1 :: u64 where "XXH_PRIME64_1 = 0x9E3779B185EBCA87"
definition XXH_PRIME64_2 :: u64 where "XXH_PRIME64_2 = 0xC2B2AE3D27D4EB4F"
definition XXH_PRIME64_3 :: u64 where "XXH_PRIME64_3 = 0x165667B19E3779F9"
definition XXH_PRIME64_4 :: u64 where "XXH_PRIME64_4 = 0x85EBCA77C2B2AE63"
definition XXH_PRIME64_5 :: u64 where "XXH_PRIME64_5 = 0x27D4EB2F165667C5"

definition xxh_rotl64 :: "u64 \<Rightarrow> nat \<Rightarrow> u64" where
  "xxh_rotl64 x r = push_bit r x OR drop_bit ((64 - r) mod 64) x"

definition xxh_round :: "u64 \<Rightarrow> u64 \<Rightarrow> u64" where
  "xxh_round acc input =
     (let acc = acc + input * XXH_PRIME64_2;
          acc = xxh_rotl64 acc 31
      in acc * XXH_PRIME64_1)"

definition xxh_merge :: "u64 \<Rightarrow> u64 \<Rightarrow> u64" where
  "xxh_merge acc val =
     (let val = xxh_round 0 val;
          acc = acc XOR val
      in acc * XXH_PRIME64_1 + XXH_PRIME64_4)"

record xxh_lanes =
  v1 :: u64
  v2 :: u64
  v3 :: u64
  v4 :: u64

text \<open>\<open>do { ... } while (n - i >= 32)\<close>: the body runs before the test.\<close>

function xxh_stripes :: "bytes \<Rightarrow> nat \<Rightarrow> nat \<Rightarrow> xxh_lanes \<Rightarrow> (nat
    \<times> xxh_lanes) option" where
  "xxh_stripes buf n i v = do {
     k1 \<leftarrow> load_le 8 buf i;
     k2 \<leftarrow> load_le 8 buf (i + 8);
     k3 \<leftarrow> load_le 8 buf (i + 16);
     k4 \<leftarrow> load_le 8 buf (i + 24);
     let v = \<lparr> v1 = xxh_round (v1 v) k1, v2 = xxh_round (v2 v) k2,
               v3 = xxh_round (v3 v) k3, v4 = xxh_round (v4 v) k4 \<rparr>;
     let i = i + 32;
     if 32 \<le> n - i then xxh_stripes buf n i v else Some (i, v)
   }"
  by pat_completeness auto
termination
  by (relation "measure (\<lambda>(buf, n, i, v). n - i)") auto

function xxh_words :: "bytes \<Rightarrow> nat \<Rightarrow> nat \<Rightarrow> u64 \<Rightarrow> (nat \<times> u64) option" where
  "xxh_words buf n i h64 =
     (if 8 \<le> n - i
      then do {
        w \<leftarrow> load_le 8 buf i;
        let k1 = xxh_round 0 w;
        let h64 = h64 XOR k1;
        let h64 = xxh_rotl64 h64 27 * XXH_PRIME64_1 + XXH_PRIME64_4;
        xxh_words buf n (i + 8) h64
      }
      else Some (i, h64))"
  by pat_completeness auto
termination
  by (relation "measure (\<lambda>(buf, n, i, h). n - i)") auto

function xxh_bytes :: "bytes \<Rightarrow> nat \<Rightarrow> nat \<Rightarrow> u64 \<Rightarrow> u64 option" where
  "xxh_bytes buf n i h64 =
     (if i < n
      then do {
        b \<leftarrow> load buf i;
        let h64 = h64 XOR ucast b * XXH_PRIME64_5;
        let h64 = xxh_rotl64 h64 11 * XXH_PRIME64_1;
        xxh_bytes buf n (i + 1) h64
      }
      else Some h64)"
  by pat_completeness auto
termination
  by (relation "measure (\<lambda>(buf, n, i, h). n - i)") auto

declare xxh_stripes.simps [simp del] xxh_words.simps [simp del] xxh_bytes.simps [simp del]

definition xxh_seeded :: "u64 \<Rightarrow> xxh_lanes" where
  "xxh_seeded seed = \<lparr> v1 = seed + XXH_PRIME64_1 + XXH_PRIME64_2, v2 = seed + XXH_PRIME64_2,
     v3 = seed + 0, v4 = seed - XXH_PRIME64_1 \<rparr>"

definition xxh_join :: "xxh_lanes \<Rightarrow> u64" where
  "xxh_join v =
     (let h64 = xxh_rotl64 (v1 v) 1 + xxh_rotl64 (v2 v) 7 + xxh_rotl64 (v3 v) 12 + xxh_rotl64 (v4 v) 18;
          h64 = xxh_merge h64 (v1 v);
          h64 = xxh_merge h64 (v2 v);
          h64 = xxh_merge h64 (v3 v);
          h64 = xxh_merge h64 (v4 v)
      in h64)"

text \<open>The optional 4-byte step.\<close>

definition xxh_half :: "bytes \<Rightarrow> nat \<Rightarrow> nat \<Rightarrow> u64 \<Rightarrow> (nat \<times> u64) option" where
  "xxh_half buf n i h64 =
     (if 4 \<le> n - i
      then do {
        w \<leftarrow> (load_le 4 buf i :: u32 option);
        let h64 = h64 XOR ucast w * XXH_PRIME64_1;
        let h64 = xxh_rotl64 h64 23 * XXH_PRIME64_2 + XXH_PRIME64_3;
        Some (i + 4, h64)
      }
      else Some (i, h64))"

definition xxh_final :: "u64 \<Rightarrow> u64" where
  "xxh_final h64 =
     (let h64 = h64 XOR drop_bit 33 h64;
          h64 = h64 * XXH_PRIME64_2;
          h64 = h64 XOR drop_bit 29 h64;
          h64 = h64 * XXH_PRIME64_3;
          h64 = h64 XOR drop_bit 32 h64
      in h64)"

definition hs_wf_xxh64 :: "bytes \<Rightarrow> nat \<Rightarrow> u64 \<Rightarrow> u64 option" where
  "hs_wf_xxh64 buf len seed = do {
     (i, h64) \<leftarrow>
       (if 32 \<le> len
        then do { (i, v) \<leftarrow> xxh_stripes buf len 0 (xxh_seeded seed); Some (i, xxh_join v) }
        else Some (0, seed + XXH_PRIME64_5));
     let h64 = h64 + of_nat len;
     (i, h64) \<leftarrow> xxh_words buf len i h64;
     (i, h64) \<leftarrow> xxh_half buf len i h64;
     h64 \<leftarrow> xxh_bytes buf len i h64;
     Some (xxh_final h64)
   }"

text \<open>The same computation on the list of the bytes that are left, an intermediate step of the proof.\<close>

function ref_stripes :: "xxh_lanes \<Rightarrow> bytes \<Rightarrow> xxh_lanes \<times> bytes" where
  "ref_stripes v bs =
     (if length bs < 32 then (v, bs)
      else ref_stripes
        \<lparr> v1 = xxh_round (v1 v) (le_word (take 8 bs)),
          v2 = xxh_round (v2 v) (le_word (take 8 (drop 8 bs))),
          v3 = xxh_round (v3 v) (le_word (take 8 (drop 16 bs))),
          v4 = xxh_round (v4 v) (le_word (take 8 (drop 24 bs))) \<rparr> (drop 32 bs))"
  by pat_completeness auto
termination
  by (relation "measure (\<lambda>(v, bs). length bs)") auto

function ref_rest :: "u64 \<Rightarrow> bytes \<Rightarrow> u64" where
  "ref_rest h bs =
     (if 8 \<le> length bs
      then ref_rest (xxh_rotl64 (h XOR xxh_round 0 (le_word (take 8 bs))) 27 * XXH_PRIME64_1 + XXH_PRIME64_4) (drop 8 bs)
      else if 4 \<le> length bs
      then ref_rest (xxh_rotl64 (h XOR ucast (le_word (take 4 bs) :: u32) * XXH_PRIME64_1) 23 * XXH_PRIME64_2 + XXH_PRIME64_3) (drop 4 bs)
      else if bs = [] then h
      else ref_rest (xxh_rotl64 (h XOR ucast (hd bs) * XXH_PRIME64_5) 11 * XXH_PRIME64_1) (tl bs))"
  by pat_completeness auto
termination
  by (relation "measure (\<lambda>(h, bs). length bs)") auto

declare ref_stripes.simps [simp del] ref_rest.simps [simp del]

definition xxh_list :: "u64 \<Rightarrow> bytes \<Rightarrow> u64" where
  "xxh_list seed bs =
     (let (v, bs') = ref_stripes (xxh_seeded seed) bs;
          h = (if 32 \<le> length bs then xxh_join v else seed + XXH_PRIME64_5)
      in xxh_final (ref_rest (h + of_nat (length bs)) bs'))"

lemma xxh_bytes_eq:
  assumes "n \<le> length buf" and "n - i < 4"
  shows "xxh_bytes buf n i h = Some (ref_rest h (rest buf n i))"
  using assms(2)
proof (induction "n - i" arbitrary: i h)
  case 0
  then show ?case by (simp add: xxh_bytes.simps ref_rest.simps rest_def)
next
  case (Suc d)
  then have i: "i < n" by simp
  have r: "rest buf n i = buf ! i # rest buf n (Suc i)"
    using i assms(1) by (simp add: rest_def Cons_nth_drop_Suc [symmetric] take_Cons' Suc_diff_le [symmetric])
  have "length (rest buf n (Suc i)) < 3" using Suc.prems i rest_length [OF assms(1)] by simp
  then show ?case
    using i assms(1) Suc(1) [of "Suc i"] Suc(2) Suc.prems
    by (subst xxh_bytes.simps, subst ref_rest.simps) (simp add: load_in r Let_def)
qed

lemma xxh_half_eq:
  assumes "n \<le> length buf" and "i \<le> n" and "n - i < 8"
  shows "\<exists>h' j. xxh_half buf n i h = Some (j, h') \<and> j \<le> n \<and> n - j < 4 \<and>
    ref_rest h' (rest buf n j) = ref_rest h (rest buf n i)"
proof (cases "4 \<le> n - i")
  case True
  then have "take 4 (rest buf n i) = take 4 (drop i buf)" "length (rest buf n i) = n - i"
    using assms by (simp_all add: rest_take rest_length)
  moreover have "i + 4 \<le> n" "n - (i + 4) < 4" using True assms by arith+
  ultimately show ?thesis
    using True assms by (simp add: xxh_half_def load_le_in Let_def ref_rest.simps [of _ "rest buf n i"] rest_drop)
qed (use assms in \<open>simp add: xxh_half_def\<close>)

lemma xxh_words_eq:
  assumes "n \<le> length buf"
  shows "i \<le> n \<Longrightarrow> \<exists>h' j. xxh_words buf n i h = Some (j, h') \<and> j \<le> n \<and> n - j < 8 \<and>
    ref_rest h' (rest buf n j) = ref_rest h (rest buf n i)"
proof (induction "n - i" arbitrary: h i rule: less_induct)
  case less
  show ?case
  proof (cases "8 \<le> n - i")
    case True
    define h' where "h' = xxh_rotl64 (h XOR xxh_round 0 (le_word (take 8 (drop i buf)))) 27 * XXH_PRIME64_1 + XXH_PRIME64_4"
    have "xxh_words buf n i h = xxh_words buf n (i + 8) h'"
      using True assms by (subst xxh_words.simps) (simp add: load_le_in h'_def Let_def)
    moreover have "ref_rest h (rest buf n i) = ref_rest h' (rest buf n (i + 8))"
      unfolding h'_def using True assms
      by (subst ref_rest.simps) (simp add: rest_length rest_take rest_drop)
    moreover have "n - (i + 8) < n - i" "i + 8 \<le> n" using True by arith+
    ultimately show ?thesis using less.hyps [of "i + 8" h'] by metis
  qed (use less.prems in \<open>auto simp: xxh_words.simps\<close>)
qed

lemma rest_take_drop: "i + k + m \<le> n \<Longrightarrow> take m (drop k (rest buf n i)) = take m (drop (i + k) buf)"
  by (simp add: rest_drop rest_take)

lemma xxh_stripes_eq:
  assumes "n \<le> length buf"
  shows "32 \<le> n - i \<Longrightarrow> \<exists>v' j. xxh_stripes buf n i v = Some (j, v') \<and> j \<le> n \<and>
    ref_stripes v (rest buf n i) = (v', rest buf n j)"
proof (induction "n - i" arbitrary: v i rule: less_induct)
  case less
  define w where "w = \<lparr> v1 = xxh_round (v1 v) (le_word (take 8 (drop i buf))),
    v2 = xxh_round (v2 v) (le_word (take 8 (drop (i + 8) buf))),
    v3 = xxh_round (v3 v) (le_word (take 8 (drop (i + 16) buf))),
    v4 = xxh_round (v4 v) (le_word (take 8 (drop (i + 24) buf))) \<rparr>"
  have step: "xxh_stripes buf n i v =
      (if 32 \<le> n - (i + 32) then xxh_stripes buf n (i + 32) w else Some (i + 32, w))"
    using less.prems assms by (subst xxh_stripes.simps) (simp add: load_le_in Let_def w_def)
  have ref: "ref_stripes v (rest buf n i) = ref_stripes w (rest buf n (i + 32))"
    using less.prems assms
    by (subst ref_stripes.simps) (simp add: rest_length rest_take rest_take_drop rest_drop w_def)
  show ?case
  proof (cases "32 \<le> n - (i + 32)")
    case True
    have "n - (i + 32) < n - i" using less.prems by arith
    from less.hyps [OF this True] True show ?thesis unfolding step ref by simp
  next
    case False
    then have "ref_stripes w (rest buf n (i + 32)) = (w, rest buf n (i + 32))"
      using assms by (subst ref_stripes.simps) (simp add: rest_length)
    then show ?thesis using False less.prems unfolding step ref by auto
  qed
qed

lemma xxh_list_eq:
  assumes "len \<le> length buf"
  shows "hs_wf_xxh64 buf len seed = Some (xxh_list seed (take len buf))"
proof -
  define start where "start = (if 32 \<le> len
    then do { (i, v) \<leftarrow> xxh_stripes buf len 0 (xxh_seeded seed); Some (i, xxh_join v) }
    else Some (0, seed + XXH_PRIME64_5))"
  have bs: "take len buf = rest buf len 0" "length (take len buf) = len"
    using assms by (simp_all add: rest_def)
  obtain j h where s: "start = Some (j, h)" "j \<le> len"
    and ref: "xxh_list seed (take len buf) = xxh_final (ref_rest (h + of_nat len) (rest buf len j))"
  proof (cases "32 \<le> len")
    case True
    then obtain v j where "xxh_stripes buf len 0 (xxh_seeded seed) = Some (j, v)" "j \<le> len"
      "ref_stripes (xxh_seeded seed) (rest buf len 0) = (v, rest buf len j)"
      using xxh_stripes_eq [OF assms, of 0 "xxh_seeded seed"] by auto
    then show ?thesis
      using that [of j "xxh_join v"] True bs by (simp add: start_def xxh_list_def)
  next
    case False
    then have "ref_stripes (xxh_seeded seed) (rest buf len 0) = (xxh_seeded seed, rest buf len 0)"
      using assms by (subst ref_stripes.simps) (simp add: rest_length)
    then show ?thesis
      using that [of 0 "seed + XXH_PRIME64_5"] False bs by (simp add: start_def xxh_list_def)
  qed
  obtain h1 j1 where 1: "xxh_words buf len j (h + of_nat len) = Some (j1, h1)" "j1 \<le> len" "len - j1 < 8"
    "ref_rest h1 (rest buf len j1) = ref_rest (h + of_nat len) (rest buf len j)"
    using xxh_words_eq [OF assms s(2), of "h + of_nat len"] by auto
  obtain h2 j2 where 2: "xxh_half buf len j1 h1 = Some (j2, h2)" "len - j2 < 4"
    "ref_rest h2 (rest buf len j2) = ref_rest h1 (rest buf len j1)"
    using xxh_half_eq [OF assms 1(2,3), of h1] by auto
  show ?thesis
    unfolding hs_wf_xxh64_def start_def [symmetric] ref
    using s 1 2 xxh_bytes_eq [OF assms 2(2), of h2] by (simp add: Let_def)
qed

subsection \<open>The published description of XXH64\<close>

text \<open>
  XXH64 as its description defines it, on plain integers below \<open>2 ^ 64\<close>: nothing here is shared with
  the code above.  The four accumulators are folded one after the other over their own words (word
  \<open>4 * s + i\<close> of the input for accumulator \<open>i\<close>), and what the stripes leave is cut by division into
  words, at most one half word, and bytes.
\<close>

definition wrap :: "int \<Rightarrow> int" where
  "wrap x = x mod 2 ^ 64"

fun le_int :: "bytes \<Rightarrow> int" where
  "le_int [] = 0"
| "le_int (b # bs) = uint b + 256 * le_int bs"

definition rol :: "nat \<Rightarrow> int \<Rightarrow> int" where
  "rol r x = wrap (x * 2 ^ r) + x div 2 ^ (64 - r)"

definition spec_round :: "int \<Rightarrow> int \<Rightarrow> int" where
  "spec_round acc w = wrap (rol 31 (wrap (acc + w * 14029467366897019727)) * 11400714785074694791)"

definition spec_merge :: "int \<Rightarrow> int \<Rightarrow> int" where
  "spec_merge h acc = wrap ((h XOR spec_round 0 acc) * 11400714785074694791 + 9650029242287828579)"

definition spec_word :: "bytes \<Rightarrow> nat \<Rightarrow> int" where
  "spec_word bs k = le_int (take 8 (drop (8 * k) bs))"

definition spec_lane :: "bytes \<Rightarrow> nat \<Rightarrow> int \<Rightarrow> int" where
  "spec_lane bs i acc = foldl spec_round acc (map (\<lambda>s. spec_word bs (4 * s + i)) [0..<length bs div 32])"

definition spec_converge :: "int list \<Rightarrow> int" where
  "spec_converge accs = foldl spec_merge (wrap (sum_list (map2 rol [1, 7, 12, 18] accs))) accs"

definition spec_tail :: "int \<Rightarrow> bytes \<Rightarrow> int" where
  "spec_tail h bs =
     (let n = length bs;
          h = foldl (\<lambda>h w. wrap (rol 27 (h XOR spec_round 0 w) * 11400714785074694791 + 9650029242287828579))
                h (map (spec_word bs) [0..<n div 8]);
          h = (if n mod 8 < 4 then h
               else wrap (rol 23 (h XOR wrap (le_int (take 4 (drop (8 * (n div 8)) bs)) * 11400714785074694791))
                 * 14029467366897019727 + 1609587929392839161))
      in foldl (\<lambda>h b. wrap (rol 11 (h XOR wrap (uint b * 2870177450012600261)) * 11400714785074694791))
           h (drop (4 * (n div 4)) bs))"

definition spec_avalanche :: "int \<Rightarrow> int" where
  "spec_avalanche h =
     (let h = wrap ((h XOR h div 2 ^ 33) * 14029467366897019727);
          h = wrap ((h XOR h div 2 ^ 29) * 1609587929392839161)
      in h XOR h div 2 ^ 32)"

definition xxh64 :: "int \<Rightarrow> bytes \<Rightarrow> int" where
  "xxh64 seed bs =
     (let n = length bs;
          h = (if n < 32 then seed + 2870177450012600261
               else spec_converge
                 [spec_lane bs 0 (wrap (seed + 11400714785074694791 + 14029467366897019727)),
                  spec_lane bs 1 (wrap (seed + 14029467366897019727)),
                  spec_lane bs 2 seed,
                  spec_lane bs 3 (wrap (seed - 11400714785074694791))])
      in spec_avalanche (spec_tail (wrap (h + int n)) (drop (32 * (n div 32)) bs)))"

text \<open>Each step of the code, read as an unsigned integer, is the step of the description.\<close>

lemma uint_plus: "uint (x + y :: u64) = wrap (uint x + uint y)"
  and uint_minus: "uint (x - y :: u64) = wrap (uint x - uint y)"
  and uint_times: "uint (x * y :: u64) = wrap (uint x * uint y)"
  and uint_xor: "uint (x XOR y :: u64) = uint x XOR uint y"
  and uint_shift: "uint (drop_bit r x :: u64) = uint x div 2 ^ r"
proof -
  show "uint (drop_bit r x :: u64) = uint x div 2 ^ r"
    using uint_lt2p [of x] by (simp only: unsigned_drop_bit_eq take_bit_int_eq_self unsigned_greater_eq
    len_num1 len_bit0) (simp add: drop_bit_eq_div take_bit_int_eq_self)
qed (simp_all add: wrap_def uint_word_ariths unsigned_xor_eq)

lemma wrap_wrap [simp]: "wrap (wrap x) = wrap x" "wrap (wrap x + y) = wrap (x + y)" "wrap (x + wrap y) = wrap (x + y)"
  "wrap (uint (w :: u64)) = uint w"
  using uint_lt2p [of w] by (simp_all add: wrap_def mod_simps)

lemma uint_primes:
  "uint XXH_PRIME64_1 = 11400714785074694791" "uint XXH_PRIME64_2 = 14029467366897019727"
  "uint XXH_PRIME64_3 = 1609587929392839161" "uint XXH_PRIME64_4 = 9650029242287828579"
  "uint XXH_PRIME64_5 = 2870177450012600261"
  by (simp_all add: XXH_PRIME64_1_def XXH_PRIME64_2_def XXH_PRIME64_3_def XXH_PRIME64_4_def XXH_PRIME64_5_def)

lemma div_bound: "0 < b \<Longrightarrow> x < a * b \<Longrightarrow> x div b < a" for a b x :: int
  using div_mult_mod_eq [of x b] pos_mod_sign [of b x] mult_right_less_imp_less [of "x div b" b a] by linarith

lemma uint_rotl:
  assumes "0 < r" and "r < 64"
  shows "uint (xxh_rotl64 x r) = rol r (uint x)"
proof -
  have "push_bit r x AND drop_bit (64 - r) x = 0"
    by (rule bit_word_eqI) (use assms in \<open>auto simp: bit_simps dest: bit_imp_le_length\<close>)
  then have "xxh_rotl64 x r = push_bit r x + drop_bit (64 - r) x"
    using assms by (simp add: xxh_rotl64_def disjunctive_add_eq_or)
  moreover have "uint (push_bit r x) = wrap (uint x * 2 ^ r)"
    unfolding unsigned_push_bit_eq by (simp add: wrap_def take_bit_eq_mod push_bit_eq_mult)
  moreover have "rol r (uint x) < 2 ^ 64"
  proof -
    have pow: "(2 :: int) ^ 64 = 2 ^ (64 - r) * 2 ^ r" using assms(2) by (simp flip: power_add)
    have "uint x * 2 ^ r mod 2 ^ 64 = (uint x mod 2 ^ (64 - r)) * 2 ^ r" unfolding pow by (rule mod_mult_mult2)
    moreover have "(uint x mod 2 ^ (64 - r)) * 2 ^ r \<le> (2 ^ (64 - r) - 1) * 2 ^ r" by (intro mult_right_mono) simp_all
    moreover have "uint x < 2 ^ r * 2 ^ (64 - r)" using uint_lt2p [of x] pow by (simp add: ac_simps)
    then have "uint x div 2 ^ (64 - r) < 2 ^ r" by (intro div_bound) simp_all
    ultimately show ?thesis using pow by (simp add: rol_def wrap_def left_diff_distrib)
  qed
  moreover have "0 \<le> rol r (uint x)" by (simp add: rol_def wrap_def pos_imp_zdiv_nonneg_iff)
  ultimately show ?thesis
    by (simp add: uint_plus uint_shift flip: rol_def) (simp add: wrap_def)
qed

lemmas uint_steps = uint_plus uint_minus uint_times uint_xor uint_shift uint_primes

lemma uint_round: "uint (xxh_round acc w) = spec_round (uint acc) (uint w)"
  by (simp add: xxh_round_def spec_round_def Let_def uint_rotl uint_steps)

lemma uint_merge: "uint (xxh_merge h acc) = spec_merge (uint h) (uint acc)"
  by (simp add: xxh_merge_def spec_merge_def Let_def uint_round uint_steps)

lemma uint_final: "uint (xxh_final h) = spec_avalanche (uint h)"
  by (simp add: xxh_final_def spec_avalanche_def Let_def uint_steps)

lemma uint_join: "uint (xxh_join v) = spec_converge [uint (v1 v), uint (v2 v), uint (v3 v), uint (v4 v)]"
  by (simp add: xxh_join_def spec_converge_def uint_merge uint_rotl uint_plus add.assoc)

lemma uint_seeded:
  "uint (v1 (xxh_seeded seed)) = wrap (uint seed + 11400714785074694791 + 14029467366897019727)"
  "uint (v2 (xxh_seeded seed)) = wrap (uint seed + 14029467366897019727)"
  "uint (v3 (xxh_seeded seed)) = uint seed"
  "uint (v4 (xxh_seeded seed)) = wrap (uint seed - 11400714785074694791)"
  by (simp_all add: xxh_seeded_def uint_plus uint_minus uint_primes)

lemma uint_le_word:
  assumes "8 * length bs \<le> LENGTH('a)"
  shows "uint (le_word bs :: 'a::len word) = le_int bs"
proof (cases "bs = []")
  case False
  have le: "le_int bs = int (le_nat bs)" by (induction bs) simp_all
  have "le_nat bs < 2 ^ (8 * length bs)"
  proof (induction bs)
    case (Cons b bs)
    have "unat b < 256" using unsigned_less [of b, where ?'a = nat] by simp
    moreover have "256 * le_nat bs + 256 \<le> 256 * 2 ^ (8 * length bs)" using Cons by simp
    ultimately have "unat b + 256 * le_nat bs < 256 * 2 ^ (8 * length bs)" by linarith
    then show ?case by (simp add: power_add)
  qed simp
  also have "(2 :: nat) ^ (8 * length bs) \<le> 2 ^ LENGTH('a)" using assms by (rule power_increasing) simp
  finally have "le_nat bs < 2 ^ LENGTH('a)" .
  moreover have "8 \<le> LENGTH('a)" using assms False by (cases bs) simp_all
  ultimately show ?thesis using le
    by (simp add: le_word_nat unsigned_of_nat take_bit_nat_eq_self)
qed simp

lemma spec_word_drop: "spec_word (drop (8 * m) bs) k = spec_word bs (k + m)"
  by (simp add: spec_word_def algebra_simps)

lemma upt_0_Suc: "[0..<Suc m] = 0 # map Suc [0..<m]"
  by (simp add: map_Suc_upt upt_conv_Cons del: upt_Suc)

lemma spec_lane_step:
  assumes "32 \<le> length bs"
  shows "spec_lane bs i acc = spec_lane (drop 32 bs) i (spec_round acc (spec_word bs i))"
proof -
  have "length bs div 32 = Suc (length (drop 32 bs) div 32)" using assms by (simp add: div_if)
  moreover have "spec_word bs (4 * Suc s + i) = spec_word (drop 32 bs) (4 * s + i)" for s
    using spec_word_drop [of 4 bs] by (simp add: ac_simps)
  ultimately show ?thesis by (simp only: spec_lane_def upt_0_Suc list.map map_map foldl_Cons o_def) simp
qed

lemma ref_stripes_spec:
  assumes "ref_stripes v bs = (v', bs')"
  shows "bs' = drop (32 * (length bs div 32)) bs \<and>
    uint (v1 v') = spec_lane bs 0 (uint (v1 v)) \<and> uint (v2 v') = spec_lane bs 1 (uint (v2 v)) \<and>
    uint (v3 v') = spec_lane bs 2 (uint (v3 v)) \<and> uint (v4 v') = spec_lane bs 3 (uint (v4 v))"
  using assms
proof (induction v bs rule: ref_stripes.induct)
  case (1 v bs)
  show ?case
  proof (cases "length bs < 32")
    case True
    then show ?thesis using 1(2) by (subst (asm) ref_stripes.simps) (simp add: spec_lane_def)
  next
    case False
    have "length bs div 32 = Suc ((length bs - 32) div 32)" using False by (simp add: div_if)
    moreover note 1(1) [OF False] 1(2) [unfolded ref_stripes.simps [of v bs]]
    ultimately show ?thesis
      using False by (simp add: spec_lane_step [of bs] uint_round uint_le_word spec_word_def add.commute)
  qed
qed

text \<open>One word, the half word and one byte of the tail.\<close>

lemma spec_tail_word:
  assumes "8 \<le> length bs"
  shows "spec_tail h bs = spec_tail
    (wrap (rol 27 (h XOR spec_round 0 (le_int (take 8 bs))) * 11400714785074694791 + 9650029242287828579)) (drop 8 bs)"
proof -
  obtain m where m: "length bs = m + 8" using assms by (metis add.commute le_Suc_ex)
  have "(m + 8) div 4 = m div 4 + 2" by presburger
  then have "length bs div 8 = Suc ((length bs - 8) div 8)" "length bs mod 8 = (length bs - 8) mod 8"
    "4 * (length bs div 4) = 4 * ((length bs - 8) div 4) + 8"
    by (simp_all add: m)
  moreover have "spec_word bs (Suc k) = spec_word (drop 8 bs) k" "spec_word bs 0 = le_int (take 8 bs)" for k
    using spec_word_drop [of 1 bs] by (simp_all add: spec_word_def)
  ultimately show ?thesis
    by (simp only: spec_tail_def Let_def upt_0_Suc list.map map_map foldl_Cons o_def length_drop drop_drop)
      (simp add: add.commute)
qed

lemma spec_tail_half:
  assumes "4 \<le> length bs" and "length bs < 8"
  shows "spec_tail h bs = spec_tail
    (wrap (rol 23 (h XOR wrap (le_int (take 4 bs) * 11400714785074694791)) * 14029467366897019727 + 1609587929392839161))
    (drop 4 bs)"
proof -
  have "length bs div 8 = 0" "length bs mod 8 = length bs" "length bs div 4 = 1" "(length bs - 4) div 8 = 0"
    "(length bs - 4) mod 8 = length bs - 4" "(length bs - 4) div 4 = 0" "length bs - 4 < 4"
    using assms by (simp_all add: div_if)
  with assms(1) show ?thesis by (simp add: spec_tail_def Let_def)
qed

lemma spec_tail_byte:
  assumes "length bs < 3"
  shows "spec_tail h (b # bs) = spec_tail
    (wrap (rol 11 (h XOR wrap (uint b * 2870177450012600261)) * 11400714785074694791)) bs"
  using assms by (simp add: spec_tail_def)

lemma ref_rest_spec: "uint (ref_rest h bs) = spec_tail (uint h) bs"
proof (induction h bs rule: ref_rest.induct)
  case (1 h bs)
  consider "8 \<le> length bs" | "4 \<le> length bs" "length bs < 8" | "bs = []" | b bs' where "bs = b # bs'" "length bs' < 3"
    by (cases bs) force+
  then show ?case
  proof cases
    case 1
    with "1.IH"(1) show ?thesis
      by (simp add: ref_rest.simps [of h bs] spec_tail_word uint_le_word uint_rotl uint_round uint_steps)
  next
    case 2
    have "uint (ucast (le_word (take 4 bs) :: u32) :: u64) = le_int (take 4 bs)"
      by (subst uint_up_ucast) (simp_all add: is_up uint_le_word)
    with 2 "1.IH"(2) show ?thesis
      by (simp add: ref_rest.simps [of h bs] spec_tail_half uint_rotl uint_steps)
  next
    case 3
    then show ?thesis by (simp add: ref_rest.simps spec_tail_def)
  next
    case 4
    have "uint (ucast b :: u64) = uint b" by (rule uint_up_ucast) (simp add: is_up)
    with 4 "1.IH"(3) show ?thesis
      by (simp add: ref_rest.simps [of h "b # bs'"] spec_tail_byte uint_rotl uint_steps)
  qed
qed

lemma wrap_of_nat: "wrap (x + uint (of_nat n :: u64)) = wrap (x + int n)"
  by (simp add: wrap_def unsigned_of_nat take_bit_eq_mod of_nat_mod mod_simps)

lemma xxh_list_spec: "uint (xxh_list seed bs) = xxh64 (uint seed) bs"
proof -
  obtain v bs' where r: "ref_stripes (xxh_seeded seed) bs = (v, bs')" by fastforce
  show ?thesis
    using ref_stripes_spec [OF r]
    by (simp add: xxh_list_def xxh64_def Let_def r uint_final ref_rest_spec uint_join uint_seeded uint_plus uint_primes wrap_of_nat)
qed

subsection \<open>Properties\<close>

text \<open>C37: Murmur3 reads only the \<open>len\<close> bytes and computes the block-wise reference (the 16-byte
  unrolling and the tail cases change nothing); Iceberg's bucket of a 64-bit value is the digest of
  its eight little-endian bytes, made non-negative, modulo the bucket count.\<close>

theorem murmur3_correct:
  assumes "len \<le> length buf"
  shows "hs_wf_murmur3_32 buf len = Some (sint (murmur3 (take len buf))) \<and>
    hs_wf_bucket_long v buckets =
      Some (if buckets \<le> 0 then 0
        else sint ((murmur3 (le_bytes 8 v) AND 0x7fffffff) mod word_of_int buckets))"
proof
  show "hs_wf_murmur3_32 buf len = Some (sint (murmur3 (take len buf)))"
    using assms by (rule murmur3_eq)
  show "hs_wf_bucket_long v buckets =
      Some (if buckets \<le> 0 then 0
        else sint ((murmur3 (le_bytes 8 v) AND 0x7fffffff) mod word_of_int buckets))"
    using murmur3_eq [of 8 "le_bytes 8 v"]
    by (simp add: hs_wf_bucket_long_def Let_def le_bytes_def [symmetric] del: upt_rec_numeral)
qed

theorem murmur3_correct_witness:
  "hs_wf_murmur3_32 [0x69, 0x63, 0x65, 0x62, 0x65, 0x72, 0x67] 7 =
     Some (sint (murmur3 (take 7 [0x69, 0x63, 0x65, 0x62, 0x65, 0x72, 0x67]))) \<and>
   hs_wf_murmur3_32 [0x69, 0x63, 0x65, 0x62, 0x65, 0x72, 0x67] 7 = Some 1210000089 \<and>
   hs_wf_murmur3_32 (le_bytes 8 (34 :: u64)) 8 = Some 2017239379"
proof (intro conjI)
  show "hs_wf_murmur3_32 [0x69, 0x63, 0x65, 0x62, 0x65, 0x72, 0x67] 7 = Some 1210000089" by code_simp
  show "hs_wf_murmur3_32 (le_bytes 8 (34 :: u64)) 8 = Some 2017239379" by code_simp
qed (use murmur3_correct [of 7 "[0x69, 0x63, 0x65, 0x62, 0x65, 0x72, 0x67]"] in simp)

text \<open>C38: XXH64 reads only the \<open>len\<close> bytes and returns, as an unsigned integer, the digest of the
  published description computed on plain integers: four accumulators over the 32-byte stripes, their
  convergence, then the rest by eight, four and one byte, and the avalanche.\<close>

theorem xxh64_correct:
  assumes "len \<le> length buf"
  shows "map_option uint (hs_wf_xxh64 buf len seed) = Some (xxh64 (uint seed) (take len buf))"
  using assms by (simp add: xxh_list_eq xxh_list_spec)

text \<open>The ASCII bytes of two published test strings, of 39 and 43 bytes: between them they reach the
  stripes, the words, the half word and the bytes.\<close>

definition nobody_inspects :: bytes where
  "nobody_inspects = [0x4E, 0x6F, 0x62, 0x6F, 0x64, 0x79, 0x20, 0x69, 0x6E, 0x73, 0x70, 0x65, 0x63, 0x74,
    0x73, 0x20, 0x74, 0x68, 0x65, 0x20, 0x73, 0x70, 0x61, 0x6D, 0x6D, 0x69, 0x73, 0x68, 0x20, 0x72, 0x65, 0x70,
    0x65, 0x74, 0x69, 0x74, 0x69, 0x6F, 0x6E]"

definition quick_fox :: bytes where
  "quick_fox = [0x54, 0x68, 0x65, 0x20, 0x71, 0x75, 0x69, 0x63, 0x6B, 0x20, 0x62, 0x72, 0x6F, 0x77, 0x6E,
    0x20, 0x66, 0x6F, 0x78, 0x20, 0x6A, 0x75, 0x6D, 0x70, 0x73, 0x20, 0x6F, 0x76, 0x65, 0x72, 0x20, 0x74, 0x68,
    0x65, 0x20, 0x6C, 0x61, 0x7A, 0x79, 0x20, 0x64, 0x6F, 0x67]"

theorem xxh64_correct_witness:
  "map_option uint (hs_wf_xxh64 nobody_inspects 39 0) = Some (xxh64 (uint (0 :: u64)) (take 39 nobody_inspects)) \<and>
   hs_wf_xxh64 nobody_inspects 39 0 = Some 0xFBCEA83C8A378BF1 \<and>
   hs_wf_xxh64 quick_fox 43 0 = Some 0x0B242D361FDA71BC \<and>
   hs_wf_xxh64 [0x61, 0x62, 0x63] 3 0 = Some 0x44BC2CF5AD770999"
proof (intro conjI)
  show "hs_wf_xxh64 nobody_inspects 39 0 = Some 0xFBCEA83C8A378BF1" by code_simp
  show "hs_wf_xxh64 quick_fox 43 0 = Some 0x0B242D361FDA71BC" by code_simp
  show "hs_wf_xxh64 [0x61, 0x62, 0x63] 3 0 = Some 0x44BC2CF5AD770999" by code_simp
qed (use xxh64_correct [of 39 nobody_inspects 0] in \<open>simp add: nobody_inspects_def\<close>)

end
