(* ===== verification/Roaring.thy ===== *)
theory Roaring
  imports Bit_Iter Endian
begin

text \<open>
  \<open>wireform-core/cbits/wireform_hash_simd.c\<close>, second half: the containers of the portable Roaring
  32-bit format that Iceberg deletion vectors use.  An array container is the sorted 16-bit values
  in little-endian order, a bitset container the 8192 bytes of a 65536-bit map.  \<open>int32_t *dst\<close> and
  \<open>uint16_t *src\<close> are lists of words with checked accesses; container payloads are bytes.
  A cardinality is an \<open>int32_t\<close>, here an \<open>int\<close>.
\<close>

subsection \<open>Decoding an array container\<close>

text \<open>The 16-bit lanes of two vectors, interleaved.\<close>

definition simde_mm_unpacklo_epi16 :: "m128i \<Rightarrow> m128i \<Rightarrow> m128i" where
  "simde_mm_unpacklo_epi16 a b =
     concat (map (\<lambda>i. [a ! (2 * i), a ! (2 * i + 1), b ! (2 * i), b ! (2 * i + 1)]) [0..<4])"

definition simde_mm_unpackhi_epi16 :: "m128i \<Rightarrow> m128i \<Rightarrow> m128i" where
  "simde_mm_unpackhi_epi16 a b =
     concat (map (\<lambda>i. [a ! (2 * i), a ! (2 * i + 1), b ! (2 * i), b ! (2 * i + 1)]) [4..<8])"

text \<open>A vector store into an \<open>int32_t\<close> array writes four elements.\<close>

definition lanes_epi32 :: "m128i \<Rightarrow> u32 list" where
  "lanes_epi32 v = map (\<lambda>i. le_word (take 4 (drop (4 * i) v))) [0..<4]"

function array_blocks :: "bytes \<Rightarrow> u32 \<Rightarrow> nat \<Rightarrow> nat \<Rightarrow> u32 list \<Rightarrow> (nat \<times> u32 list) option" where
  "array_blocks src base n i dst =
     (if 8 \<le> n - i
      then do {
        lows \<leftarrow> simde_mm_loadu_si128 src (i * 2);
        let hiv = simde_mm_set1_epi32_bytes base;
        let lo32 = simde_mm_unpacklo_epi16 lows simde_mm_setzero_si128;
        let hi32 = simde_mm_unpackhi_epi16 lows simde_mm_setzero_si128;
        let out0 = simde_mm_or_si128 lo32 hiv;
        let out1 = simde_mm_or_si128 hi32 hiv;
        dst \<leftarrow> store_block dst i (lanes_epi32 out0);
        dst \<leftarrow> store_block dst (i + 4) (lanes_epi32 out1);
        array_blocks src base n (i + 8) dst
      }
      else Some (i, dst))"
  by pat_completeness auto
termination
  by (relation "measure (\<lambda>(src, base, n, i, dst). n - i)") auto

function array_tail :: "bytes \<Rightarrow> u32 \<Rightarrow> nat \<Rightarrow> nat \<Rightarrow> u32 list \<Rightarrow> u32 list option" where
  "array_tail src base n i dst =
     (if i < n
      then do {
        lo \<leftarrow> (load_le 2 src (i * 2) :: u16 option);
        dst \<leftarrow> store dst i (ucast lo OR base);
        array_tail src base n (Suc i) dst
      }
      else Some dst)"
  by pat_completeness auto
termination
  by (relation "measure (\<lambda>(src, base, n, i, dst). n - i)") auto

declare array_blocks.simps [simp del] array_tail.simps [simp del]

text \<open>\<open>(int32_t)(2u * (uint32_t)cardinality)\<close>\<close>

definition bytes_consumed :: "int \<Rightarrow> int" where
  "bytes_consumed cardinality = sint (2 * word_of_int cardinality :: u32)"

definition hs_wf_roaring_decode_array ::
  "bytes \<Rightarrow> int \<Rightarrow> u32 \<Rightarrow> u32 list \<Rightarrow> (int \<times> u32 list) option" where
  "hs_wf_roaring_decode_array src cardinality hi dst = do {
     let n = (if 0 < cardinality then nat cardinality else 0);
     let base = push_bit 16 hi;
     (i, dst) \<leftarrow> array_blocks src base n 0 dst;
     dst \<leftarrow> array_tail src base n i dst;
     Some (bytes_consumed cardinality, dst)
   }"

subsection \<open>Decoding a bitset container\<close>

function bitset_word :: "u32 \<Rightarrow> nat \<Rightarrow> u64 \<Rightarrow> u32 list \<times> nat \<Rightarrow> (u32 list \<times> nat) option" where
  "bitset_word base wd w st =
     (if w \<noteq> 0
      then do {
        let bit = builtin_ctz w;
        dst \<leftarrow> store (fst st) (snd st) (base OR of_nat (wd * 64 + bit));
        bitset_word base wd (w AND (w - 1)) (dst, snd st + 1)
      }
      else Some st)"
  by pat_completeness auto
termination
  by (relation "measure (\<lambda>(base, wd, w, st). unat w)") (auto simp: clear_lowest_less)

function bitset_loop :: "bytes \<Rightarrow> u32 \<Rightarrow> nat \<Rightarrow> u32 list \<times> nat \<Rightarrow> (u32 list \<times> nat) option" where
  "bitset_loop src base wd st =
     (if wd < 1024
      then do {
        w \<leftarrow> load_le 8 src (wd * 8);
        st \<leftarrow> bitset_word base wd w st;
        bitset_loop src base (Suc wd) st
      }
      else Some st)"
  by pat_completeness auto
termination
  by (relation "measure (\<lambda>(src, base, wd, st). 1024 - wd)") auto

declare bitset_word.simps [simp del] bitset_loop.simps [simp del]

definition hs_wf_roaring_decode_bitset :: "bytes \<Rightarrow> u32 \<Rightarrow> u32 list \<Rightarrow> (nat \<times> u32 list) option" where
  "hs_wf_roaring_decode_bitset src hi dst = do {
     let base = push_bit 16 hi;
     (dst, out) \<leftarrow> bitset_loop src base 0 (dst, 0);
     Some (out, dst)
   }"

subsection \<open>Membership\<close>

definition simde_mm_set1_epi16 :: "u16 \<Rightarrow> m128i" where
  "simde_mm_set1_epi16 a = concat (replicate 8 (le_bytes 2 a))"

text \<open>The 16-bit lanes are compared as a whole.\<close>

definition simde_mm_cmpeq_epi16 :: "m128i \<Rightarrow> m128i \<Rightarrow> m128i" where
  "simde_mm_cmpeq_epi16 a b = concat (map (\<lambda>i.
     if (le_word (take 2 (drop (2 * i) a)) :: u16) = le_word (take 2 (drop (2 * i) b))
     then [0xFF, 0xFF] else [0, 0]) [0..<8])"

function contains_blocks :: "bytes \<Rightarrow> int \<Rightarrow> m128i \<Rightarrow> nat \<Rightarrow> (unit + nat) option" where
  "contains_blocks src cardinality needle i =
     (if int i + 8 \<le> cardinality
      then do {
        v \<leftarrow> simde_mm_loadu_si128 src (i * 2);
        if simde_mm_movemask_epi8 (simde_mm_cmpeq_epi16 v needle) \<noteq> 0 then Some (Inl ())
        else contains_blocks src cardinality needle (i + 8)
      }
      else Some (Inr i))"
  by pat_completeness auto
termination
  by (relation "measure (\<lambda>(src, cardinality, needle, i). nat (cardinality - int i))") auto

function contains_tail :: "bytes \<Rightarrow> int \<Rightarrow> u16 \<Rightarrow> nat \<Rightarrow> int option" where
  "contains_tail src cardinality value16 i =
     (if int i < cardinality
      then do {
        v \<leftarrow> (load_le 2 src (i * 2) :: u16 option);
        if v = value16 then Some 1
        else if value16 < v then Some 0
        else contains_tail src cardinality value16 (Suc i)
      }
      else Some 0)"
  by pat_completeness auto
termination
  by (relation "measure (\<lambda>(src, cardinality, x, i). nat (cardinality - int i))") auto

function contains_bsearch :: "bytes \<Rightarrow> u16 \<Rightarrow> int \<Rightarrow> int \<Rightarrow> int option" where
  "contains_bsearch src value16 lo hi =
     (if lo \<le> hi
      then do {
        let mid = lo + (hi - lo) div 2;
        v \<leftarrow> (load_le 2 src (nat mid * 2) :: u16 option);
        if v = value16 then Some 1
        else if v < value16 then contains_bsearch src value16 (mid + 1) hi
        else contains_bsearch src value16 lo (mid - 1)
      }
      else Some 0)"
  by pat_completeness auto
termination
  by (relation "measure (\<lambda>(src, x, lo, hi). nat (hi - lo + 1))") auto

declare contains_blocks.simps [simp del] contains_tail.simps [simp del] contains_bsearch.simps [simp del]

definition hs_wf_roaring_contains :: "int \<Rightarrow> bytes \<Rightarrow> int \<Rightarrow> u16 \<Rightarrow> int option" where
  "hs_wf_roaring_contains kind src cardinality value16 =
     (if kind = 1 then do {
        let bit = unat value16;
        let wd = bit div 64;
        w \<leftarrow> (load_le 8 src (wd * 8) :: u64 option);
        Some (uint (drop_bit (bit mod 64) w AND 1))
      }
      else if cardinality \<le> 64 then do {
        r \<leftarrow> contains_blocks src cardinality (simde_mm_set1_epi16 value16) 0;
        (case r of
           Inl _ \<Rightarrow> Some 1
         | Inr i \<Rightarrow> contains_tail src cardinality value16 i)
      }
      else contains_bsearch src value16 0 (cardinality - 1))"

subsection \<open>Encoding\<close>

definition hs_wf_roaring_encode_array :: "u16 list \<Rightarrow> int \<Rightarrow> bytes \<Rightarrow> (int \<times> bytes) option" where
  "hs_wf_roaring_encode_array src cardinality dst =
     (if cardinality \<le> 0 then Some (0, dst)
      else do {
        xs \<leftarrow> load_block src 0 (nat cardinality);
        dst \<leftarrow> store_block dst 0 (concat (map (le_bytes 2) xs));
        Some (bytes_consumed cardinality, dst)
      })"

function bitset_clear :: "nat \<Rightarrow> bytes \<Rightarrow> bytes option" where
  "bitset_clear i dst =
     (if i < 512
      then do {
        dst \<leftarrow> simde_mm_storeu_si128 dst (i * 16) simde_mm_setzero_si128;
        bitset_clear (Suc i) dst
      }
      else Some dst)"
  by pat_completeness auto
termination
  by (relation "measure (\<lambda>(i, dst). 512 - i)") auto

function bitset_set :: "u16 list \<Rightarrow> int \<Rightarrow> nat \<Rightarrow> bytes \<Rightarrow> bytes option" where
  "bitset_set src cardinality i dst =
     (if int i < cardinality
      then do {
        v \<leftarrow> load src i;
        let wd = unat (drop_bit 3 v);
        let bit = unat (v AND 7);
        b \<leftarrow> load dst wd;
        dst \<leftarrow> store dst wd (b OR push_bit bit 1);
        bitset_set src cardinality (Suc i) dst
      }
      else Some dst)"
  by pat_completeness auto
termination
  by (relation "measure (\<lambda>(src, cardinality, i, dst). nat (cardinality - int i))") auto

declare bitset_clear.simps [simp del] bitset_set.simps [simp del]

definition hs_wf_roaring_encode_bitset :: "u16 list \<Rightarrow> int \<Rightarrow> bytes \<Rightarrow> bytes option" where
  "hs_wf_roaring_encode_bitset src cardinality dst = do {
     dst \<leftarrow> bitset_clear 0 dst;
     bitset_set src cardinality 0 dst
   }"

subsection \<open>Array containers\<close>

text \<open>The \<open>k\<close>-th value of an array container.\<close>

definition low16 :: "bytes \<Rightarrow> nat \<Rightarrow> u16" where
  "low16 src k = le_word (take 2 (drop (2 * k) src))"

lemma take_2_drop: "k + 2 \<le> length xs \<Longrightarrow> take 2 (drop k xs) = [xs ! k, xs ! (k + 1)]"
  by (simp add: numeral_2_eq_2 take_Suc_conv_app_nth)

lemma low16_bytes: "2 * k + 2 \<le> length src \<Longrightarrow> low16 src k = le_word [src ! (2 * k), src ! (2 * k + 1)]"
  by (simp only: low16_def take_2_drop)

lemma load_low16: "2 * k + 2 \<le> length src \<Longrightarrow> load_le 2 src (k * 2) = Some (low16 src k)"
  by (simp add: load_le_in low16_def mult.commute)

lemma low16_encoded:
  assumes "k < length xs"
  shows "low16 (concat (map (le_bytes 2) xs) @ ys) k = xs ! k"
proof -
  have "drop (2 * k) (concat (map (le_bytes 2) xs) @ ys) =
      le_bytes 2 (xs ! k) @ concat (map (le_bytes 2) (drop (Suc k) xs)) @ ys"
    using assms
  proof (induction xs arbitrary: k)
    case (Cons x xs)
    then show ?case by (cases k) simp_all
  qed simp
  then show ?thesis by (simp add: low16_def le_word_le_bytes)
qed

definition array_elem :: "bytes \<Rightarrow> u32 \<Rightarrow> nat \<Rightarrow> u32" where
  "array_elem src base k = ucast (low16 src k) OR base"

text \<open>The array after its first \<open>i\<close> elements have been written.\<close>

definition filled :: "bytes \<Rightarrow> u32 \<Rightarrow> u32 list \<Rightarrow> nat \<Rightarrow> u32 list" where
  "filled src base dst i = map (array_elem src base) [0..<i] @ drop i dst"

lemma filled_0 [simp]: "filled src base dst 0 = dst"
  by (simp add: filled_def)

lemma filled_length [simp]: "i \<le> length dst \<Longrightarrow> length (filled src base dst i) = length dst"
  by (simp add: filled_def)

lemma filled_store:
  assumes "i + m \<le> length dst"
  shows "store_block (filled src base dst i) i (map (array_elem src base) [i..<i + m]) =
    Some (filled src base dst (i + m))"
  using assms by (simp add: store_block_in filled_def upt_add_eq_append [of 0 i m] add.commute)

lemma le_word_or4:
  "(le_word [a OR x0, b OR x1, x2, x3] :: u32) =
     ucast (le_word [a, b] :: u16) OR le_word [x0, x1, x2, x3]"
proof (rule bit_word_eqI)
  fix j assume "j < LENGTH(32)"
  then show "bit (le_word [a OR x0, b OR x1, x2, x3] :: u32) j =
      bit (ucast (le_word [a, b] :: u16) OR le_word [x0, x1, x2, x3] :: u32) j"
    by (auto simp: bit_simps simp del: le_word.simps simp: bit_le_word nth_Cons split: nat.splits
      dest: bit_imp_le_length)
qed

lemma array_lanes:
  assumes "16 \<le> length (drop (2 * i) src)"
  defines "lows \<equiv> take 16 (drop (2 * i) src)"
  shows "lanes_epi32 (simde_mm_or_si128 (simde_mm_unpacklo_epi16 lows simde_mm_setzero_si128)
      (simde_mm_set1_epi32_bytes base)) = map (array_elem src base) [i..<i + 4]"
    and "lanes_epi32 (simde_mm_or_si128 (simde_mm_unpackhi_epi16 lows simde_mm_setzero_si128)
      (simde_mm_set1_epi32_bytes base)) = map (array_elem src base) [i + 4..<i + 8]"
proof -
  obtain x0 x1 x2 x3 where x: "le_bytes 4 base = [x0, x1, x2, x3]"
    using le_bytes_length [of 4 base] by (auto simp: numeral_eq_Suc length_Suc_conv simp del: le_bytes_length)
  have hiv: "simde_mm_set1_epi32_bytes base = [x0, x1, x2, x3, x0, x1, x2, x3, x0, x1, x2, x3, x0, x1, x2, x3]"
    by (simp add: simde_mm_set1_epi32_bytes_def x) (simp add: numeral_eq_Suc)
  have base: "le_word [x0, x1, x2, x3] = base" using le_word_le_bytes [of 4 base] x by simp
  have at: "lows ! k = src ! (2 * i + k)" if "k < 16" for k
    using that assms(1) by (simp add: lows_def)
  have elem: "array_elem src base (i + k) =
      le_word [lows ! (2 * k) OR x0, lows ! (2 * k + 1) OR x1, x2, x3]" if "k < 8" for k
    using that assms(1) by (simp add: array_elem_def le_word_or4 base low16_bytes at add.assoc del: le_word.simps)
  have up: "[i..<i + 4] = [i, i + 1, i + 2, i + 3]" "[i + 4..<i + 8] = [i + 4, i + 5, i + 6, i + 7]"
    by (simp_all add: upt_rec)
  show "lanes_epi32 (simde_mm_or_si128 (simde_mm_unpacklo_epi16 lows simde_mm_setzero_si128)
      (simde_mm_set1_epi32_bytes base)) = map (array_elem src base) [i..<i + 4]"
    using elem [of 0] elem [of 1] elem [of 2] elem [of 3]
    by (simp add: up lanes_epi32_def simde_mm_or_si128_def simde_mm_unpacklo_epi16_def hiv
      simde_mm_setzero_si128_def numeral_eq_Suc del: le_word.simps)
  show "lanes_epi32 (simde_mm_or_si128 (simde_mm_unpackhi_epi16 lows simde_mm_setzero_si128)
      (simde_mm_set1_epi32_bytes base)) = map (array_elem src base) [i + 4..<i + 8]"
    using elem [of 4] elem [of 5] elem [of 6] elem [of 7]
    by (simp add: up lanes_epi32_def simde_mm_or_si128_def simde_mm_unpackhi_epi16_def hiv
      simde_mm_setzero_si128_def numeral_eq_Suc del: le_word.simps)
qed

lemma array_blocks_eq:
  assumes "2 * n \<le> length src" and "n \<le> length dst"
  shows "i \<le> n \<Longrightarrow> \<exists>j. array_blocks src base n i (filled src base dst i) = Some (j, filled src base dst j) \<and>
    i \<le> j \<and> j \<le> n"
proof (induction "n - i" arbitrary: i rule: less_induct)
  case less
  show ?case
  proof (cases "8 \<le> n - i")
    case True
    have len: "16 \<le> length (drop (2 * i) src)" using True assms(1) by simp
    have load: "simde_mm_loadu_si128 src (i * 2) = Some (take 16 (drop (2 * i) src))"
      using True assms(1) by (simp add: simde_mm_loadu_si128_def load_block_in mult.commute)
    have st: "store_block (filled src base dst i) i (map (array_elem src base) [i..<i + 4]) =
        Some (filled src base dst (i + 4))"
      "store_block (filled src base dst (i + 4)) (i + 4) (map (array_elem src base) [i + 4..<i + 8]) =
        Some (filled src base dst (i + 8))"
      using filled_store [of i 4 dst] filled_store [of "i + 4" 4 dst] True assms(2) by (simp_all add: add.assoc)
    have "n - (i + 8) < n - i" "i + 8 \<le> n" using True by arith+
    from less.hyps [OF this] obtain j where
      "array_blocks src base n (i + 8) (filled src base dst (i + 8)) = Some (j, filled src base dst j)"
      "i + 8 \<le> j" "j \<le> n" by auto
    then show ?thesis
      using True load st
      by (intro exI [of _ j], subst array_blocks.simps)
        (simp add: Let_def array_lanes [OF len] del: upt_Suc)
  qed (use less.prems in \<open>auto simp: array_blocks.simps\<close>)
qed

lemma array_tail_eq:
  assumes "2 * n \<le> length src" and "n \<le> length dst"
  shows "i \<le> n \<Longrightarrow> array_tail src base n i (filled src base dst i) = Some (filled src base dst n)"
proof (induction "n - i" arbitrary: i)
  case 0
  then show ?case by (simp add: array_tail.simps)
next
  case (Suc d)
  then have i: "i < n" by simp
  have "store_block (filled src base dst i) i (map (array_elem src base) [i..<i + 1]) =
      Some (filled src base dst (i + 1))"
    using i assms(2) by (intro filled_store) simp
  then have "store (filled src base dst i) i (array_elem src base i) = Some (filled src base dst (Suc i))"
    by (simp add: store_as_block)
  then show ?case
    using i assms(1) Suc(1) [of "Suc i"] Suc(2)
    by (subst array_tail.simps) (simp add: load_low16 array_elem_def)
qed

lemma decode_array_eq:
  assumes "0 \<le> cardinality" and "2 * nat cardinality \<le> length src" and "nat cardinality \<le> length dst"
  shows "hs_wf_roaring_decode_array src cardinality hi dst =
    Some (bytes_consumed cardinality,
      map (array_elem src (push_bit 16 hi)) [0..<nat cardinality] @ drop (nat cardinality) dst)"
proof -
  have n: "(if 0 < cardinality then nat cardinality else 0) = nat cardinality" by simp
  obtain j where j: "array_blocks src (push_bit 16 hi) (nat cardinality) 0 dst =
      Some (j, filled src (push_bit 16 hi) dst j)" "j \<le> nat cardinality"
    using array_blocks_eq [OF assms(2,3), of 0 "push_bit 16 hi"] by auto
  show ?thesis
    using j array_tail_eq [OF assms(2,3) j(2)]
    unfolding hs_wf_roaring_decode_array_def n by (simp add: filled_def Let_def)
qed

lemma bytes_consumed_eq: "0 \<le> c \<Longrightarrow> c < 2 ^ 30 \<Longrightarrow> bytes_consumed c = 2 * c"
proof -
  assume c: "0 \<le> c" "c < 2 ^ 30"
  have "bytes_consumed c = sint (word_of_int (2 * c) :: u32)" by (simp add: bytes_consumed_def)
  also have "\<dots> = signed_take_bit 31 (2 * c)" by (simp only: signed_of_int) simp
  also have "\<dots> = 2 * c" using c by (simp add: signed_take_bit_int_eq_self)
  finally show ?thesis .
qed

subsection \<open>Bitset containers\<close>

definition in_bitset :: "bytes \<Rightarrow> nat \<Rightarrow> bool" where
  "in_bitset src k \<longleftrightarrow> bit (src ! (k div 8)) (k mod 8)"

lemma load_bitset_word:
  assumes "8192 \<le> length src" and "wd < 1024"
  obtains w where "load_le 8 src (wd * 8) = Some (w :: u64)"
    and "\<And>j. bit w j \<longleftrightarrow> j < 64 \<and> in_bitset src (64 * wd + j)"
proof
  show "load_le 8 src (wd * 8) = Some (le_word (take 8 (drop (wd * 8) src)) :: u64)"
    using assms by (intro load_le_in) linarith
  fix j
  have pos: "(64 * wd + j) div 8 = wd * 8 + j div 8" "(64 * wd + j) mod 8 = j mod 8"
    using div_mult_self2 [of 8 j "wd * 8"] mod_mult_self2 [of j 8 "wd * 8"] by (simp_all add: ac_simps)
  show "bit (le_word (take 8 (drop (wd * 8) src)) :: u64) j \<longleftrightarrow> j < 64 \<and> in_bitset src (64 * wd + j)"
  proof (cases "j < 64")
    case True
    then have "j div 8 < 8" by simp
    with True show ?thesis using assms by (simp add: bit_le_word in_bitset_def pos)
  qed (simp add: bit_le_word)
qed

text \<open>The values written so far, followed by the rest of the array.\<close>

definition written :: "u32 list \<Rightarrow> u32 list \<Rightarrow> u32 list \<times> nat" where
  "written dst xs = (xs @ drop (length xs) dst, length xs)"

lemma written_store:
  "length xs < length dst \<Longrightarrow>
     store (fst (written dst xs)) (snd (written dst xs)) x = Some (fst (written dst (xs @ [x])))"
  by (simp add: written_def store_in list_update_append Cons_nth_drop_Suc [symmetric])

lemma bitset_word_eq:
  "length xs + length (set_bits w) \<le> length dst \<Longrightarrow>
     bitset_word base wd w (written dst xs) =
       Some (written dst (xs @ map (\<lambda>b. base OR of_nat (wd * 64 + b)) (set_bits w)))"
proof (induction "unat w" arbitrary: w xs rule: less_induct)
  case less
  show ?case
  proof (cases "w = 0")
    case False
    let ?x = "base OR of_nat (wd * 64 + builtin_ctz w)"
    have bits: "set_bits w = builtin_ctz w # set_bits (w AND (w - 1))" by (rule set_bits_step [OF False])
    have st: "store (fst (written dst xs)) (snd (written dst xs)) ?x = Some (fst (written dst (xs @ [?x])))"
      using less.prems bits by (intro written_store) simp
    have pair: "(fst (written dst (xs @ [?x])), snd (written dst xs) + 1) = written dst (xs @ [?x])"
      by (simp add: written_def)
    have "bitset_word base wd (w AND (w - 1)) (written dst (xs @ [?x])) =
        Some (written dst ((xs @ [?x]) @ map (\<lambda>b. base OR of_nat (wd * 64 + b)) (set_bits (w AND (w - 1)))))"
      using less.prems bits by (intro less.hyps clear_lowest_less False) simp
    then show ?thesis
      using False by (subst bitset_word.simps)
        (simp add: Let_def st pair bits del: of_nat_add of_nat_mult One_nat_def add_Suc_right)
  qed (simp add: bitset_word.simps)
qed

definition bitset_elems :: "bytes \<Rightarrow> nat \<Rightarrow> nat list" where
  "bitset_elems src n = filter (in_bitset src) [0..<n]"

lemma bitset_elems_word:
  assumes "\<And>j. bit (w :: u64) j \<longleftrightarrow> j < 64 \<and> in_bitset src (64 * wd + j)"
  shows "bitset_elems src (64 * Suc wd) = bitset_elems src (64 * wd) @ map ((+) (64 * wd)) (set_bits w)"
proof -
  have "[64 * wd..<64 * wd + 64] = map ((+) (64 * wd)) [0..<64]"
    by (rule nth_equalityI) simp_all
  moreover have "filter (bit w) [0..<64] = filter (\<lambda>j. in_bitset src (64 * wd + j)) [0..<64]"
    by (rule filter_cong) (auto simp: assms)
  ultimately have "filter (in_bitset src) [64 * wd..<64 * wd + 64] = map ((+) (64 * wd)) (set_bits w)"
    by (simp add: set_bits_def filter_map comp_def del: upt_rec_numeral)
  then show ?thesis
    using upt_add_eq_append [of 0 "64 * wd" 64]
    by (simp add: bitset_elems_def add.commute del: upt_rec_numeral)
qed

lemma bitset_elems_mono: "n \<le> m \<Longrightarrow> length (bitset_elems src n) \<le> length (bitset_elems src m)"
  using upt_add_eq_append [of 0 n "m - n"] by (simp add: bitset_elems_def)

lemma bitset_loop_eq:
  assumes "8192 \<le> length src" and "length (bitset_elems src 65536) \<le> length dst"
  shows "wd \<le> 1024 \<Longrightarrow>
    bitset_loop src base wd (written dst (map (\<lambda>k. base OR of_nat k) (bitset_elems src (64 * wd)))) =
      Some (written dst (map (\<lambda>k. base OR of_nat k) (bitset_elems src 65536)))"
proof (induction "1024 - wd" arbitrary: wd)
  case 0
  then show ?case by (simp add: bitset_loop.simps)
next
  case (Suc d)
  then have wd: "wd < 1024" by simp
  obtain w where w: "load_le 8 src (wd * 8) = Some (w :: u64)"
    "\<And>j. bit w j \<longleftrightarrow> j < 64 \<and> in_bitset src (64 * wd + j)"
    using load_bitset_word [OF assms(1) wd] by blast
  note elems = bitset_elems_word [OF w(2)]
  have "length (bitset_elems src (64 * Suc wd)) \<le> length dst"
    using bitset_elems_mono [of "64 * Suc wd" 65536 src] wd assms(2) by simp
  then have "bitset_word base wd w (written dst (map (\<lambda>k. base OR of_nat k) (bitset_elems src (64 * wd)))) =
      Some (written dst (map (\<lambda>k. base OR of_nat k) (bitset_elems src (64 * wd)) @
        map (\<lambda>b. base OR of_nat (wd * 64 + b)) (set_bits w)))"
    unfolding elems by (intro bitset_word_eq) simp
  also have "map (\<lambda>b. base OR of_nat (wd * 64 + b)) (set_bits w) =
      map (\<lambda>k. base OR of_nat k) (map ((+) (64 * wd)) (set_bits w))"
    by (simp add: comp_def mult.commute)
  finally have "bitset_word base wd w (written dst (map (\<lambda>k. base OR of_nat k) (bitset_elems src (64 * wd)))) =
      Some (written dst (map (\<lambda>k. base OR of_nat k) (bitset_elems src (64 * Suc wd))))"
    unfolding elems by simp
  then show ?case
    using Suc(1) [of "Suc wd"] Suc(2) wd w(1) by (subst bitset_loop.simps) simp
qed

lemma decode_bitset_eq:
  assumes "8192 \<le> length src" and "length (bitset_elems src 65536) \<le> length dst"
  shows "hs_wf_roaring_decode_bitset src hi dst =
    (let xs = map (\<lambda>k. push_bit 16 hi OR of_nat k) (bitset_elems src 65536)
     in Some (length xs, xs @ drop (length xs) dst))"
  using bitset_loop_eq [OF assms, of 0 "push_bit 16 hi"]
  by (simp add: hs_wf_roaring_decode_bitset_def bitset_elems_def written_def Let_def del: upt_rec_numeral)

subsection \<open>Membership tests\<close>

text \<open>A membership test answers 0 or 1, never 1 for an absent value, and 1 for a present one when
  the payload is \<open>ok\<close>.\<close>

definition tests_member :: "int option \<Rightarrow> bool \<Rightarrow> bool \<Rightarrow> bool" where
  "tests_member r ok present \<longleftrightarrow>
     (\<exists>v. r = Some v \<and> v \<in> {0, 1} \<and> (v = 1 \<longrightarrow> present) \<and> (ok \<longrightarrow> present \<longrightarrow> v = 1))"

lemma tests_member_intros:
  "present \<Longrightarrow> tests_member (Some 1) ok present"
  "(ok \<Longrightarrow> \<not> present) \<Longrightarrow> tests_member (Some 0) ok present"
  by (auto simp: tests_member_def)

lemma tests_member_cong:
  "tests_member r ok' present' \<Longrightarrow> (present' \<Longrightarrow> present) \<Longrightarrow> (ok \<Longrightarrow> ok') \<Longrightarrow>
     (ok \<Longrightarrow> present \<Longrightarrow> present') \<Longrightarrow> tests_member r ok present"
  by (auto simp: tests_member_def)

definition ascending :: "bytes \<Rightarrow> nat \<Rightarrow> bool" where
  "ascending src n \<longleftrightarrow> (\<forall>j k. j \<le> k \<and> k < n \<longrightarrow> low16 src j \<le> low16 src k)"

definition present_in :: "bytes \<Rightarrow> nat \<Rightarrow> nat \<Rightarrow> u16 \<Rightarrow> bool" where
  "present_in src i n x \<longleftrightarrow> (\<exists>k. i \<le> k \<and> k < n \<and> low16 src k = x)"

lemma present_in_step: "i < n \<Longrightarrow> present_in src i n x \<longleftrightarrow> low16 src i = x \<or> present_in src (Suc i) n x"
  unfolding present_in_def by (metis Suc_le_eq le_eq_less_or_eq)

lemma contains_tail_correct:
  assumes "2 * nat cardinality \<le> length src"
  shows "tests_member (contains_tail src cardinality x i) (ascending src (nat cardinality))
    (present_in src i (nat cardinality) x)"
proof (induction "nat cardinality - i" arbitrary: i)
  case 0
  then show ?case
    by (subst contains_tail.simps) (auto simp: present_in_def intro!: tests_member_intros)
next
  case (Suc d)
  then have i: "i < nat cardinality" by simp
  have load: "load_le 2 src (i * 2) = Some (low16 src i)" using i assms by (intro load_low16) simp
  have small: "\<not> present_in src i (nat cardinality) x" if "ascending src (nat cardinality)" "x < low16 src i"
    using that by (force simp: present_in_def ascending_def not_less [symmetric])
  show ?case
    using i load small Suc(1) [of "Suc i"] Suc(2) present_in_step [OF i]
    by (subst contains_tail.simps) (auto intro: tests_member_intros)
qed

lemma cmpeq16_any:
  assumes "length v = 16"
  shows "simde_mm_movemask_epi8 (simde_mm_cmpeq_epi16 v (simde_mm_set1_epi16 x)) = 0 \<longleftrightarrow>
    (\<forall>j<8. low16 v j \<noteq> x)"
proof -
  have mask: "simde_mm_movemask_epi8 w = 0 \<longleftrightarrow> (\<forall>b \<in> set w. \<not> bit b 7)" if "length w = 16" for w
    by (subst bit_eq_iff) (auto simp: movemask_bit [OF that] all_set_conv_all_nth that)
  have lane: "low16 (simde_mm_set1_epi16 x) j = x" if "j < 8" for j
    using low16_encoded [of j "replicate 8 x" "[]"] that by (simp add: simde_mm_set1_epi16_def)
  have len: "length (simde_mm_cmpeq_epi16 v (simde_mm_set1_epi16 x)) = 16"
    by (simp add: simde_mm_cmpeq_epi16_def length_concat comp_def if_distrib [of length] sum_list_triv
      cong: if_cong)
  have "simde_mm_movemask_epi8 (simde_mm_cmpeq_epi16 v (simde_mm_set1_epi16 x)) = 0 \<longleftrightarrow>
      (\<forall>j<8. \<not> low16 v j = low16 (simde_mm_set1_epi16 x) j)"
    unfolding mask [OF len]
    by (auto simp: simde_mm_cmpeq_epi16_def low16_def [symmetric] split: if_splits)
  then show ?thesis using lane by simp
qed

lemma contains_blocks_correct:
  assumes "2 * nat cardinality \<le> length src"
  shows "(case contains_blocks src cardinality (simde_mm_set1_epi16 x) i of
      None \<Rightarrow> False
    | Some (Inl _) \<Rightarrow> present_in src i (nat cardinality) x
    | Some (Inr j) \<Rightarrow> present_in src i (nat cardinality) x \<longleftrightarrow> present_in src j (nat cardinality) x)"
proof (induction "nat cardinality - i" arbitrary: i rule: less_induct)
  case less
  show ?case
  proof (cases "int i + 8 \<le> cardinality")
    case True
    define v where "v = take 16 (drop (i * 2) src)"
    have room: "i + 8 \<le> nat cardinality" using True by linarith
    then have len: "length v = 16" using assms by (simp add: v_def)
    have load: "simde_mm_loadu_si128 src (i * 2) = Some v"
      using room assms by (simp add: simde_mm_loadu_si128_def load_block_in v_def)
    have low: "low16 v j = low16 src (i + j)" if "j < 8" for j
    proof -
      have "v ! k = src ! (2 * i + k)" if "k < 16" for k
        using that room assms by (simp add: v_def mult.commute)
      then show ?thesis
        using that room assms len by (simp add: low16_bytes del: le_word.simps)
    qed
    show ?thesis
    proof (cases "\<forall>j<8. low16 src (i + j) \<noteq> x")
      case none: True
      then have "simde_mm_movemask_epi8 (simde_mm_cmpeq_epi16 v (simde_mm_set1_epi16 x)) = 0"
        using low by (simp add: cmpeq16_any [OF len])
      moreover have "present_in src i (nat cardinality) x \<longleftrightarrow> present_in src (i + 8) (nat cardinality) x"
      proof -
        have "low16 src k \<noteq> x" if "i \<le> k" "k < i + 8" for k
          using none [rule_format, of "k - i"] that by simp
        then have "i + 8 \<le> k" if "i \<le> k" "low16 src k = x" for k using that not_le by blast
        moreover have "i \<le> k" if "i + 8 \<le> k" for k using that by simp
        ultimately show ?thesis unfolding present_in_def by blast
      qed
      moreover have "nat cardinality - (i + 8) < nat cardinality - i" using room by arith
      ultimately show ?thesis
        using less [of "i + 8"] True load
        by (subst contains_blocks.simps) (simp split: option.splits sum.splits)
    next
      case False
      then obtain j where j: "j < 8" "low16 src (i + j) = x" by auto
      then have "present_in src i (nat cardinality) x"
        using room by (auto simp: present_in_def intro!: exI [of _ "i + j"])
      moreover have "simde_mm_movemask_epi8 (simde_mm_cmpeq_epi16 v (simde_mm_set1_epi16 x)) \<noteq> 0"
        using j low by (auto simp: cmpeq16_any [OF len])
      ultimately show ?thesis using True load by (subst contains_blocks.simps) simp
    qed
  qed (simp add: contains_blocks.simps)
qed

lemma contains_bsearch_correct:
  assumes "2 * nat cardinality \<le> length src"
  shows "0 \<le> lo \<Longrightarrow> hi < cardinality \<Longrightarrow>
    tests_member (contains_bsearch src x lo hi) (ascending src (nat cardinality))
      (present_in src (nat lo) (nat (hi + 1)) x)"
proof (induction "nat (hi - lo + 1)" arbitrary: lo hi rule: less_induct)
  case less
  show ?case
  proof (cases "lo \<le> hi")
    case True
    define mid where "mid = lo + (hi - lo) div 2"
    have mid: "lo \<le> mid" "mid \<le> hi" using True by (simp_all add: mid_def)
    define m where "m = nat mid"
    have m: "nat lo \<le> m" "m < nat (hi + 1)" "m < nat cardinality"
      using mid less.prems by (simp_all add: m_def)
    have load: "load_le 2 src (m * 2) = Some (low16 src m)" using m(3) assms by (intro load_low16) simp
    have asc: "low16 src j \<le> low16 src k"
      if "ascending src (nat cardinality)" "j \<le> k" "k < nat (hi + 1)" for j k
      using that less.prems(2) by (auto simp: ascending_def)
    consider "low16 src m = x" | "low16 src m < x" | "x < low16 src m" by (metis linorder_neqE)
    then show ?thesis
    proof cases
      case 1
      then have "present_in src (nat lo) (nat (hi + 1)) x" using m by (auto simp: present_in_def)
      with 1 True load show ?thesis
        by (subst contains_bsearch.simps)
          (simp add: Let_def mid_def [symmetric] m_def [symmetric] tests_member_intros)
    next
      case 2
      have "tests_member (contains_bsearch src x (mid + 1) hi) (ascending src (nat cardinality))
          (present_in src (nat (mid + 1)) (nat (hi + 1)) x)"
        using mid less.prems by (intro less.hyps) simp_all
      then have "tests_member (contains_bsearch src x (mid + 1) hi) (ascending src (nat cardinality))
          (present_in src (nat lo) (nat (hi + 1)) x)"
      proof (rule tests_member_cong)
        assume "present_in src (nat (mid + 1)) (nat (hi + 1)) x"
        then obtain k where "nat (mid + 1) \<le> k" "k < nat (hi + 1)" "low16 src k = x"
          by (auto simp: present_in_def)
        moreover from this have "nat lo \<le> k" using mid by linarith
        ultimately show "present_in src (nat lo) (nat (hi + 1)) x" by (auto simp: present_in_def)
      next
        assume sorted: "ascending src (nat cardinality)" and "present_in src (nat lo) (nat (hi + 1)) x"
        then obtain k where k: "k < nat (hi + 1)" "low16 src k = x" by (auto simp: present_in_def)
        have "m < k"
        proof (rule ccontr)
          assume "\<not> m < k"
          then have "low16 src k \<le> low16 src m" using m(2) by (intro asc [OF sorted]) simp_all
          with 2 k(2) show False by simp
        qed
        then have "nat (mid + 1) \<le> k" using mid less.prems by (simp add: m_def)
        then show "present_in src (nat (mid + 1)) (nat (hi + 1)) x" using k by (auto simp: present_in_def)
      qed
      moreover have "low16 src m \<noteq> x" using 2 by simp
      ultimately show ?thesis
        using 2 True load
        by (subst contains_bsearch.simps) (simp add: Let_def mid_def [symmetric] m_def [symmetric])
    next
      case 3
      have "tests_member (contains_bsearch src x lo (mid - 1)) (ascending src (nat cardinality))
          (present_in src (nat lo) (nat (mid - 1 + 1)) x)"
        using mid less.prems by (intro less.hyps) simp_all
      then have "tests_member (contains_bsearch src x lo (mid - 1)) (ascending src (nat cardinality))
          (present_in src (nat lo) (nat (hi + 1)) x)"
      proof (rule tests_member_cong)
        assume "present_in src (nat lo) (nat (mid - 1 + 1)) x"
        then obtain k where "nat lo \<le> k" "k < nat (mid - 1 + 1)" "low16 src k = x"
          by (auto simp: present_in_def)
        moreover from this have "k < nat (hi + 1)" using mid by linarith
        ultimately show "present_in src (nat lo) (nat (hi + 1)) x" by (auto simp: present_in_def)
      next
        assume sorted: "ascending src (nat cardinality)" and "present_in src (nat lo) (nat (hi + 1)) x"
        then obtain k where k: "nat lo \<le> k" "k < nat (hi + 1)" "low16 src k = x"
          by (auto simp: present_in_def)
        have "k < m"
        proof (rule ccontr)
          assume "\<not> k < m"
          then have "low16 src m \<le> low16 src k" using k(2) by (intro asc [OF sorted]) simp_all
          with 3 k(3) show False by simp
        qed
        then show "present_in src (nat lo) (nat (mid - 1 + 1)) x"
          using k by (auto simp: present_in_def m_def)
      qed
      moreover have "low16 src m \<noteq> x" "\<not> low16 src m < x" using 3 by auto
      ultimately show ?thesis
        using True load
        by (subst contains_bsearch.simps) (simp add: Let_def mid_def [symmetric] m_def [symmetric])
    qed
  next
    case False
    then show ?thesis
      by (subst contains_bsearch.simps) (auto simp: present_in_def intro!: tests_member_intros)
  qed
qed

lemma bit_of_word: "drop_bit j (w :: u64) AND 1 = (if bit w j then 1 else 0)"
proof (rule bit_word_eqI)
  fix n
  show "bit (drop_bit j w AND 1) n = bit (if bit w j then 1 else 0 :: u64) n"
    by (cases n) (auto simp: bit_simps)
qed

lemma contains_bitset_eq:
  assumes "8192 \<le> length src"
  shows "hs_wf_roaring_contains 1 src cardinality x = Some (if in_bitset src (unat x) then 1 else 0)"
proof -
  have "unat x < 65536" using unsigned_less [of x] by simp
  then have "unat x div 64 < 1024" by simp
  then obtain w where w: "load_le 8 src (unat x div 64 * 8) = Some (w :: u64)"
    "\<And>j. bit w j \<longleftrightarrow> j < 64 \<and> in_bitset src (64 * (unat x div 64) + j)"
    using load_bitset_word [OF assms] by blast
  have "bit w (unat x mod 64) \<longleftrightarrow> in_bitset src (unat x)" by (simp add: w(2))
  then show ?thesis by (simp add: hs_wf_roaring_contains_def w(1) bit_of_word)
qed

lemma contains_array_correct:
  assumes "kind \<noteq> 1" and "2 * nat cardinality \<le> length src"
  shows "tests_member (hs_wf_roaring_contains kind src cardinality x) (ascending src (nat cardinality))
    (present_in src 0 (nat cardinality) x)"
proof (cases "cardinality \<le> 64")
  case True
  show ?thesis
    using contains_blocks_correct [OF assms(2), where x = x and i = 0] contains_tail_correct [OF assms(2), where x = x] assms(1) True
    by (auto simp: hs_wf_roaring_contains_def tests_member_intros split: option.splits sum.splits)
next
  case False
  then show ?thesis
    using contains_bsearch_correct [OF assms(2), of 0 "cardinality - 1" x] assms(1)
    by (simp add: hs_wf_roaring_contains_def)
qed

subsection \<open>Encoding\<close>

lemma encode_array_eq:
  assumes "0 \<le> cardinality" and "nat cardinality \<le> length src" and "2 * nat cardinality \<le> length dst"
  shows "hs_wf_roaring_encode_array src cardinality dst =
    Some (bytes_consumed cardinality,
      concat (map (le_bytes 2) (take (nat cardinality) src)) @ drop (2 * nat cardinality) dst)"
proof (cases "cardinality = 0")
  case True
  then show ?thesis by (simp add: hs_wf_roaring_encode_array_def bytes_consumed_def)
next
  case False
  have "length (concat (map (le_bytes 2) (take (nat cardinality) src))) = 2 * nat cardinality"
    using assms(2) by (simp add: length_concat comp_def sum_list_triv min_def)
  then show ?thesis
    using False assms by (simp add: hs_wf_roaring_encode_array_def load_block_in store_block_in)
qed

lemma bitset_clear_eq:
  "8192 \<le> length dst \<Longrightarrow> i \<le> 512 \<Longrightarrow>
     bitset_clear i (replicate (16 * i) 0 @ drop (16 * i) dst) = Some (replicate 8192 0 @ drop 8192 dst)"
proof (induction "512 - i" arbitrary: i)
  case 0
  then show ?case by (simp add: bitset_clear.simps)
next
  case (Suc d)
  then have i: "i < 512" by simp
  have "replicate (16 * Suc i) (0 :: u8) = replicate (16 * i) 0 @ replicate 16 0"
    by (simp add: replicate_add [symmetric] add.commute)
  then have "simde_mm_storeu_si128 (replicate (16 * i) 0 @ drop (16 * i) dst) (i * 16) simde_mm_setzero_si128 =
      Some (replicate (16 * Suc i) 0 @ drop (16 * Suc i) dst)"
    using i Suc.prems by (simp add: simde_mm_storeu_si128_def simde_mm_setzero_si128_def store_block_in
      mult.commute add.commute)
  moreover have "bitset_clear (Suc i) (replicate (16 * Suc i) 0 @ drop (16 * Suc i) dst) =
      Some (replicate 8192 0 @ drop 8192 dst)"
    using i Suc.hyps(2) Suc.prems by (intro Suc.hyps(1)) simp_all
  ultimately show ?case
    using i by (subst bitset_clear.simps) (simp del: mult_Suc_right)
qed

lemma in_bitset_clear [simp]: "k < 65536 \<Longrightarrow> \<not> in_bitset (replicate 8192 0 @ ys) k"
  by (simp add: in_bitset_def nth_append less_mult_imp_div_less)

lemma in_bitset_update:
  assumes "8192 \<le> length dst" and "k < 65536" and "m < 65536"
  shows "in_bitset (dst[m div 8 := dst ! (m div 8) OR push_bit (m mod 8) 1]) k \<longleftrightarrow> in_bitset dst k \<or> k = m"
proof (cases "k div 8 = m div 8")
  case True
  then have "k = m \<longleftrightarrow> k mod 8 = m mod 8" by (metis div_mult_mod_eq)
  moreover have "m div 8 < length dst" using assms by linarith
  ultimately show ?thesis using True by (auto simp: in_bitset_def bit_simps)
next
  case False
  then show ?thesis by (auto simp: in_bitset_def)
qed

lemma bitset_set_eq:
  assumes "nat cardinality \<le> length src"
  shows "8192 \<le> length dst \<Longrightarrow> \<exists>dst'. bitset_set src cardinality i dst = Some dst' \<and> length dst' = length dst \<and>
    drop 8192 dst' = drop 8192 dst \<and>
    (\<forall>k<65536. in_bitset dst' k \<longleftrightarrow> in_bitset dst k \<or> (\<exists>j. i \<le> j \<and> j < nat cardinality \<and> k = unat (src ! j)))"
proof (induction "nat cardinality - i" arbitrary: i dst)
  case 0
  then show ?case by (subst bitset_set.simps) auto
next
  case (Suc d)
  then have i: "i < nat cardinality" by simp
  define m where "m = unat (src ! i)"
  have m: "m < 65536" using unsigned_less [of "src ! i"] by (simp add: m_def)
  then have "m div 8 < 8192" by simp
  then have room: "m div 8 < length dst" using Suc.prems by simp
  have wd: "unat (drop_bit 3 (src ! i)) = m div 8"
    by (simp add: m_def drop_bit_eq_div unat_div_distrib)
  have "src ! i AND 7 = take_bit 3 (src ! i)" by (simp add: take_bit_eq_mask mask_eq_exp_minus_1)
  then have bt: "unat (src ! i AND 7) = m mod 8"
    by (simp add: m_def take_bit_eq_mod unat_mod_distrib)
  define dst1 where "dst1 = dst[m div 8 := dst ! (m div 8) OR push_bit (m mod 8) 1]"
  have step: "bitset_set src cardinality i dst = bitset_set src cardinality (Suc i) dst1"
  proof -
    have "int i < cardinality" "i < length src" using i assms by linarith+
    then show ?thesis
      using room by (subst bitset_set.simps) (simp add: load_in store_in wd bt dst1_def Let_def)
  qed
  have "d = nat cardinality - Suc i" using Suc(2) by linarith
  moreover have "8192 \<le> length dst1" using Suc.prems by (simp add: dst1_def)
  ultimately obtain dst' where d: "bitset_set src cardinality (Suc i) dst1 = Some dst'" "length dst' = length dst1"
    "drop 8192 dst' = drop 8192 dst1"
    "\<And>k. k < 65536 \<Longrightarrow> in_bitset dst' k \<longleftrightarrow>
      in_bitset dst1 k \<or> (\<exists>j. Suc i \<le> j \<and> j < nat cardinality \<and> k = unat (src ! j))"
    using Suc(1) [of "Suc i" dst1] by auto
  have "drop 8192 dst1 = drop 8192 dst" using \<open>m div 8 < 8192\<close> by (simp add: dst1_def)
  moreover have "in_bitset dst' k \<longleftrightarrow>
      in_bitset dst k \<or> (\<exists>j. i \<le> j \<and> j < nat cardinality \<and> k = unat (src ! j))" if "k < 65536" for k
  proof -
    have "(\<exists>j. i \<le> j \<and> j < nat cardinality \<and> k = unat (src ! j)) \<longleftrightarrow>
        k = m \<or> (\<exists>j. Suc i \<le> j \<and> j < nat cardinality \<and> k = unat (src ! j))"
      unfolding m_def using i by (metis Suc_le_eq le_eq_less_or_eq)
    then show ?thesis
      unfolding d(4) [OF that] dst1_def in_bitset_update [OF Suc.prems that m] by blast
  qed
  ultimately show ?case using d step by (auto simp: dst1_def)
qed

lemma encode_bitset_eq:
  assumes "nat cardinality \<le> length src" and "8192 \<le> length dst"
  obtains dst' where "hs_wf_roaring_encode_bitset src cardinality dst = Some dst'"
    and "length dst' = length dst" and "drop 8192 dst' = drop 8192 dst"
    and "\<And>k. k < 65536 \<Longrightarrow> in_bitset dst' k \<longleftrightarrow> k \<in> unat ` set (take (nat cardinality) src)"
proof -
  have "bitset_clear 0 dst = Some (replicate 8192 0 @ drop 8192 dst)"
    using bitset_clear_eq [OF assms(2), of 0] by simp
  moreover obtain dst' where "bitset_set src cardinality 0 (replicate 8192 0 @ drop 8192 dst) = Some dst'"
    "length dst' = length (replicate 8192 (0 :: u8) @ drop 8192 dst)"
    "drop 8192 dst' = drop 8192 (replicate 8192 0 @ drop 8192 dst)"
    "\<And>k. k < 65536 \<Longrightarrow> in_bitset dst' k \<longleftrightarrow> in_bitset (replicate 8192 0 @ drop 8192 dst) k \<or>
      (\<exists>j. 0 \<le> j \<and> j < nat cardinality \<and> k = unat (src ! j))"
    using bitset_set_eq [OF assms(1), of "replicate 8192 0 @ drop 8192 dst" 0] by auto
  moreover have "(\<exists>j. 0 \<le> j \<and> j < nat cardinality \<and> k = unat (src ! j)) \<longleftrightarrow>
      k \<in> unat ` set (take (nat cardinality) src)" for k
    by (auto simp: nth_image [OF assms(1), symmetric])
  ultimately show ?thesis
    using that assms(2) by (auto simp: hs_wf_roaring_encode_bitset_def)
qed

subsection \<open>Properties\<close>

text \<open>An array container gives back the values it was packed from, each with the high half
  \<open>hi\<close>, and the rest of the destination is untouched.\<close>

theorem roaring_array_roundtrip:
  assumes "length xs < 2 ^ 30" and "2 * length xs \<le> length payload" and "length xs \<le> length dst"
  shows "\<exists>payload'. hs_wf_roaring_encode_array xs (int (length xs)) payload = Some (2 * int (length xs), payload') \<and>
    hs_wf_roaring_decode_array payload' (int (length xs)) hi dst =
      Some (2 * int (length xs), map (\<lambda>x. ucast x OR push_bit 16 hi) xs @ drop (length xs) dst)"
proof -
  define p where "p = concat (map (le_bytes 2) xs) @ drop (2 * length xs) payload"
  have "length (concat (map (le_bytes 2) xs)) = 2 * length xs"
    by (simp add: length_concat comp_def sum_list_triv)
  then have len: "2 * length xs \<le> length p" by (simp add: p_def)
  have "map (array_elem p (push_bit 16 hi)) [0..<length xs] = map (\<lambda>x. ucast x OR push_bit 16 hi) xs"
    by (rule nth_equalityI) (simp_all add: array_elem_def p_def low16_encoded)
  then show ?thesis
    using encode_array_eq [of "int (length xs)" xs payload] assms len
      decode_array_eq [of "int (length xs)" p dst hi]
    by (intro exI [of _ p]) (simp add: p_def [symmetric] bytes_consumed_eq)
qed

theorem roaring_array_roundtrip_witness:
  "\<exists>payload'. hs_wf_roaring_encode_array [3, 500] (int (length [3, 500 :: u16])) [0, 0, 0, 0] =
      Some (2 * int (length [3, 500 :: u16]), payload') \<and>
    hs_wf_roaring_decode_array payload' (int (length [3, 500 :: u16])) 7 [9, 9, 9] =
      Some (2 * int (length [3, 500 :: u16]),
        map (\<lambda>x. ucast x OR push_bit 16 7) [3, 500 :: u16] @ drop (length [3, 500 :: u16]) [9, 9, 9])"
  by (rule roaring_array_roundtrip) simp_all

text \<open>C35: a bitset container gives back exactly the set of values it was packed from, in ascending
  order; for a strictly ascending input that is the input.\<close>

theorem roaring_bitset_roundtrip:
  assumes "sorted_wrt (<) (map unat xs)" and "8192 \<le> length payload" and "length xs \<le> length dst"
  shows "\<exists>payload'. hs_wf_roaring_encode_bitset xs (int (length xs)) payload = Some payload' \<and>
    hs_wf_roaring_decode_bitset payload' hi dst =
      Some (length xs, map (\<lambda>x. push_bit 16 hi OR ucast x) xs @ drop (length xs) dst)"
proof -
  obtain p where p: "hs_wf_roaring_encode_bitset xs (int (length xs)) payload = Some p"
    "length p = length payload" "\<And>k. k < 65536 \<Longrightarrow> in_bitset p k \<longleftrightarrow> k \<in> unat ` set xs"
    using assms(2) by (rule encode_bitset_eq [of "int (length xs)" xs payload, rotated]) simp_all
  have small: "unat x < 65536" for x :: u16 using unsigned_less [of x] by simp
  have "bitset_elems p 65536 = map unat xs"
  proof (rule sorted_distinct_set_unique)
    show "sorted (bitset_elems p 65536)"
      unfolding bitset_elems_def by (intro sorted_wrt_filter sorted_upt)
    show "distinct (bitset_elems p 65536)" by (simp add: bitset_elems_def del: upt_rec_numeral)
    show "sorted (map unat xs)" and "distinct (map unat xs)"
      using assms(1) by (simp_all add: strict_sorted_iff)
    show "set (bitset_elems p 65536) = set (map unat xs)"
      using small by (auto simp: bitset_elems_def p(3) simp del: upt_rec_numeral)
  qed
  moreover have "map (\<lambda>k. push_bit 16 hi OR of_nat k) (map unat xs) = map (\<lambda>x. push_bit 16 hi OR ucast x) xs"
    by simp
  ultimately show ?thesis
    using p(1,2) assms decode_bitset_eq [of p dst hi] by (simp add: Let_def)
qed

theorem roaring_bitset_roundtrip_witness:
  "\<exists>payload'. hs_wf_roaring_encode_bitset [3, 500] (int (length [3, 500 :: u16])) (replicate 8192 0xFF) = Some payload' \<and>
    hs_wf_roaring_decode_bitset payload' 7 [9, 9, 9] =
      Some (length [3, 500 :: u16],
        map (\<lambda>x. push_bit 16 7 OR ucast x) [3, 500 :: u16] @ drop (length [3, 500 :: u16]) [9, 9, 9])"
  by (rule roaring_bitset_roundtrip) simp_all

text \<open>C36: the membership test never reads outside the payload and never reports an absent value.  On
  a bitset it is exact, and on an array (SIMD search up to 64 values, binary search above) it is
  exact when the values ascend.\<close>

theorem roaring_contains_correct:
  assumes "kind = 1 \<Longrightarrow> 8192 \<le> length src" and "kind \<noteq> 1 \<Longrightarrow> 2 * nat cardinality \<le> length src"
  shows "if kind = 1
    then hs_wf_roaring_contains kind src cardinality x =
      Some (if bit (src ! (unat x div 8)) (unat x mod 8) then 1 else 0)
    else \<exists>v \<in> {0, 1}. hs_wf_roaring_contains kind src cardinality x = Some v \<and>
      (v = 1 \<longrightarrow> (\<exists>k < nat cardinality. low16 src k = x)) \<and>
      ((\<forall>j k. j \<le> k \<and> k < nat cardinality \<longrightarrow> low16 src j \<le> low16 src k) \<longrightarrow>
        (v = 1 \<longleftrightarrow> (\<exists>k < nat cardinality. low16 src k = x)))"
proof (cases "kind = 1")
  case True
  then show ?thesis using contains_bitset_eq [OF assms(1)] by (simp add: in_bitset_def)
next
  case False
  then show ?thesis
    using contains_array_correct [OF False assms(2), of x]
    by (auto simp: tests_member_def ascending_def present_in_def)
qed

theorem roaring_contains_correct_witness:
  "\<exists>v \<in> {0, 1}. hs_wf_roaring_contains 0 [3, 0, 0xF4, 1] 2 500 = Some v \<and>
      (v = 1 \<longrightarrow> (\<exists>k < nat 2. low16 [3, 0, 0xF4, 1] k = 500)) \<and>
      ((\<forall>j k. j \<le> k \<and> k < nat 2 \<longrightarrow> low16 [3, 0, 0xF4, 1] j \<le> low16 [3, 0, 0xF4, 1] k) \<longrightarrow>
        (v = 1 \<longleftrightarrow> (\<exists>k < nat 2. low16 [3, 0, 0xF4, 1] k = 500)))"
  using roaring_contains_correct [of 0 "[3, 0, 0xF4, 1]" 2 500] by simp

end
