(* ===== verification/Rng.thy ===== *)
theory Rng
  imports Endian
begin

text \<open>
  \<open>wireform-core/cbits/fast_rng.c\<close>: the per-thread xoshiro256++ generator.  The state is the
  thread's four words and its \<open>xoshiro_seeded\<close> flag.  What the seeding asks of the platform is a
  parameter: the kernel's random bytes (\<open>None\<close> when the call fails), the address of the thread-local
  state, the monotonic clock and the process id.
\<close>

record rng =
  s0 :: u64
  s1 :: u64
  s2 :: u64
  s3 :: u64
  xoshiro_seeded :: bool

record platform =
  kernel_random :: "(u64 \<times> u64 \<times> u64 \<times> u64) option"
  tls_address :: u64
  clock :: "(u64 \<times> u64) option"
  pid :: u32
  windows :: bool

definition rotl64 :: "u64 \<Rightarrow> nat \<Rightarrow> u64" where
  "rotl64 x k = push_bit k x OR drop_bit (64 - k) x"

text \<open>\<open>splitmix64_step\<close> advances the counter and returns its mix.\<close>

definition splitmix64_mix :: "u64 \<Rightarrow> u64" where
  "splitmix64_mix x =
     (let z = x;
          z = (z XOR drop_bit 30 z) * 0xBF58476D1CE4E5B9;
          z = (z XOR drop_bit 27 z) * 0x94D049BB133111EB
      in z XOR drop_bit 31 z)"

definition splitmix64_step :: "u64 \<Rightarrow> u64 \<times> u64" where
  "splitmix64_step x = (let x = x + 0x9E3779B97F4A7C15 in (splitmix64_mix x, x))"

text \<open>The fallback: the address and the clock, mixed once with the process id.\<close>

definition fallback_seed :: "platform \<Rightarrow> u64" where
  "fallback_seed os =
     (let fallback = tls_address os
      in if windows os then fallback
         else let fallback = (case clock os of
                    Some (tv_sec, tv_nsec) \<Rightarrow> fallback XOR (tv_sec * 1000000000 + tv_nsec)
                  | None \<Rightarrow> fallback)
              in fst (splitmix64_step fallback) XOR push_bit 32 (ucast (pid os)))"

definition seed_fallback :: "platform \<Rightarrow> rng \<Rightarrow> rng" where
  "seed_fallback os st =
     (let (a, x) = splitmix64_step (fallback_seed os);
          (b, x) = splitmix64_step x;
          (c, x) = splitmix64_step x;
          (d, x) = splitmix64_step x
      in st\<lparr> s0 := a, s1 := b, s2 := c, s3 := d \<rparr>)"

definition xoshiro_seed :: "platform \<Rightarrow> rng \<Rightarrow> rng" where
  "xoshiro_seed os st =
     (let st = (case kernel_random os of
          Some (a, b, c, d) \<Rightarrow>
            (let st = st\<lparr> s0 := a, s1 := b, s2 := c, s3 := d \<rparr>
             in if a OR b OR c OR d = 0 then seed_fallback os st else st)
        | None \<Rightarrow> seed_fallback os st)
      in st\<lparr> xoshiro_seeded := True \<rparr>)"

text \<open>The state update of the generator, in the order of the source.\<close>

definition xoshiro_advance :: "rng \<Rightarrow> rng" where
  "xoshiro_advance st =
     (let t = push_bit 17 (s1 st);
          st = st\<lparr> s2 := s2 st XOR s0 st \<rparr>;
          st = st\<lparr> s3 := s3 st XOR s1 st \<rparr>;
          st = st\<lparr> s1 := s1 st XOR s2 st \<rparr>;
          st = st\<lparr> s0 := s0 st XOR s3 st \<rparr>;
          st = st\<lparr> s2 := s2 st XOR t \<rparr>;
          st = st\<lparr> s3 := rotl64 (s3 st) 45 \<rparr>
      in st)"

definition hs_xoshiro256pp_next :: "platform \<Rightarrow> rng \<Rightarrow> u64 \<times> rng" where
  "hs_xoshiro256pp_next os st =
     (let st = (if \<not> xoshiro_seeded st then xoshiro_seed os st else st);
          result = rotl64 (s0 st + s3 st) 23 + s0 st
      in (result, xoshiro_advance st))"

definition hs_xoshiro256pp_reseed :: "rng \<Rightarrow> rng" where
  "hs_xoshiro256pp_reseed st = st\<lparr> xoshiro_seeded := False \<rparr>"

text \<open>The handler that \<open>pthread_atfork\<close> runs in the child.\<close>

definition xoshiro_atfork_child :: "rng \<Rightarrow> rng" where
  "xoshiro_atfork_child st = st\<lparr> xoshiro_seeded := False \<rparr>"

text \<open>What can happen to a thread's state, each draw against the platform it finds.\<close>

inductive rng_step :: "rng \<Rightarrow> rng \<Rightarrow> bool" where
  draw: "hs_xoshiro256pp_next os st = (v, st') \<Longrightarrow> rng_step st st'"
| reseed: "rng_step st (hs_xoshiro256pp_reseed st)"
| fork: "rng_step st (xoshiro_atfork_child st)"

definition rng_init :: rng where
  "rng_init = \<lparr> s0 = 0, s1 = 0, s2 = 0, s3 = 0, xoshiro_seeded = False \<rparr>"

inductive rng_reachable :: "rng \<Rightarrow> bool" where
  init: "rng_reachable rng_init"
| step: "rng_reachable st \<Longrightarrow> rng_step st st' \<Longrightarrow> rng_reachable st'"

definition all_zero :: "rng \<Rightarrow> bool" where
  "all_zero st \<longleftrightarrow> s0 st = 0 \<and> s1 st = 0 \<and> s2 st = 0 \<and> s3 st = 0"

subsection \<open>The mix is a bijection\<close>

text \<open>\<open>z ^ (z >> k)\<close> keeps the top bits, so the input can be rebuilt from the top down.\<close>

lemma xor_shift_inj:
  fixes x y :: "'a::len word"
  assumes "0 < k" and "x XOR drop_bit k x = y XOR drop_bit k y"
  shows "x = y"
proof -
  have "bit x j = bit y j" if "j < LENGTH('a)" for j
    using that
  proof (induction "LENGTH('a) - j" arbitrary: j rule: less_induct)
    case less
    have "bit (x XOR drop_bit k x) j = bit (y XOR drop_bit k y) j" using assms(2) by simp
    then have "(bit x j \<noteq> bit x (k + j)) = (bit y j \<noteq> bit y (k + j))"
      using less.prems by (simp add: bit_simps)
    moreover have "bit x (k + j) = bit y (k + j)"
    proof (cases "k + j < LENGTH('a)")
      case True
      then show ?thesis using less.hyps [of "k + j"] assms(1) by simp
    qed (auto dest: bit_imp_le_length)
    ultimately show ?case by auto
  qed
  then show ?thesis by (rule bit_word_eqI)
qed

lemma mult_odd_inj:
  fixes x y :: u64
  assumes "ic * c = 1" and "x * c = y * c"
  shows "x = y"
proof -
  have "x * (ic * c) = ic * (x * c)" "y * (ic * c) = ic * (y * c)" by (simp_all only: ac_simps)
  then have "x * (ic * c) = y * (ic * c)" using assms(2) by (simp only:)
  then show ?thesis using assms(1) by simp
qed

lemma splitmix64_mix_inj: "splitmix64_mix x = splitmix64_mix y \<Longrightarrow> x = y"
proof -
  let ?f = "\<lambda>z :: u64. (z XOR drop_bit 30 z) * 0xBF58476D1CE4E5B9"
  let ?g = "\<lambda>z :: u64. (z XOR drop_bit 27 z) * 0x94D049BB133111EB"
  have c: "0x96DE1B173F119089 * 0xBF58476D1CE4E5B9 = (1 :: u64)"
    "0x319642B2D24D8EC3 * 0x94D049BB133111EB = (1 :: u64)" by simp_all
  assume "splitmix64_mix x = splitmix64_mix y"
  then have "?g (?f x) XOR drop_bit 31 (?g (?f x)) = ?g (?f y) XOR drop_bit 31 (?g (?f y))"
    by (simp only: splitmix64_mix_def Let_def)
  then have "?g (?f x) = ?g (?f y)" by (rule xor_shift_inj [rotated]) simp
  then have "?f x XOR drop_bit 27 (?f x) = ?f y XOR drop_bit 27 (?f y)" by (rule mult_odd_inj [OF c(2)])
  then have "?f x = ?f y" by (rule xor_shift_inj [rotated]) simp
  then have "x XOR drop_bit 30 x = y XOR drop_bit 30 y" by (rule mult_odd_inj [OF c(1)])
  then show "x = y" by (rule xor_shift_inj [rotated]) simp
qed

lemma xor_shift_left_inj:
  fixes x y :: "'a::len word"
  assumes "0 < k" and "x XOR push_bit k x = y XOR push_bit k y"
  shows "x = y"
proof -
  have "bit x j = bit y j" if "j < LENGTH('a)" for j
    using that
  proof (induction j rule: less_induct)
    case (less j)
    have "bit (x XOR push_bit k x) j = bit (y XOR push_bit k y) j" using assms(2) by simp
    moreover have "k \<le> j \<Longrightarrow> bit x (j - k) = bit y (j - k)"
      using less assms(1) by simp
    ultimately show ?case using less.prems by (auto simp: bit_simps)
  qed
  then show ?thesis by (rule bit_word_eqI)
qed

lemma rotl64_inj: "rotl64 x 45 = rotl64 y 45 \<Longrightarrow> x = y"
proof (rule bit_word_eqI)
  fix j assume eq: "rotl64 x 45 = rotl64 y 45" and "j < LENGTH(64)"
  then have j: "j < 64" by simp
  have rot: "bit (rotl64 z 45) ((j + 45) mod 64) = bit z j" for z
  proof (cases "j < 19")
    case True
    then have "(j + 45) mod 64 = j + 45" by simp
    then show ?thesis using True by (auto simp: rotl64_def bit_simps dest: bit_imp_le_length)
  next
    case False
    then have "(j + 45) mod 64 = j - 19" using j by (simp add: mod_if)
    then show ?thesis using False j by (auto simp: rotl64_def bit_simps)
  qed
  show "bit x j = bit y j" using rot [of x] rot [of y] eq by simp
qed

subsection \<open>The invariant\<close>

lemma seed_fallback_nonzero: "\<not> all_zero (xoshiro_seed os st)" if
  "\<And>st. \<not> all_zero (seed_fallback os st)"
  using that by (auto simp: xoshiro_seed_def all_zero_def Let_def or_eq_0_iff split: option.splits)

text \<open>At most one of two consecutive outputs is zero, because the mix is injective and the counters
  differ.\<close>

lemma seed_fallback_state: "\<not> all_zero (seed_fallback os st)"
proof
  assume "all_zero (seed_fallback os st)"
  then have "splitmix64_mix (fallback_seed os + 0x9E3779B97F4A7C15) =
      splitmix64_mix (fallback_seed os + 0x9E3779B97F4A7C15 + 0x9E3779B97F4A7C15)"
    by (simp add: all_zero_def seed_fallback_def splitmix64_step_def Let_def)
  then show False using splitmix64_mix_inj by (simp add: add.assoc) fastforce
qed

lemma xoshiro_seed_state: "\<not> all_zero (xoshiro_seed os st)" "xoshiro_seeded (xoshiro_seed os st)"
  using seed_fallback_nonzero seed_fallback_state by (auto simp: xoshiro_seed_def Let_def)

lemma advance_flag [simp]: "xoshiro_seeded (xoshiro_advance st) = xoshiro_seeded st"
  by (simp add: xoshiro_advance_def Let_def)

lemma advance_inj:
  assumes "xoshiro_advance a = xoshiro_advance b" and "xoshiro_seeded a = xoshiro_seeded b"
  shows "a = b"
proof -
  define u where "u st = s3 st XOR s1 st" for st :: rng
  define w where "w st = s2 st XOR s0 st" for st :: rng
  have adv: "s0 (xoshiro_advance st) = s0 st XOR u st" "s3 (xoshiro_advance st) = rotl64 (u st) 45"
    "s1 (xoshiro_advance st) = s1 st XOR w st" "s2 (xoshiro_advance st) = w st XOR push_bit 17 (s1 st)" for st
    by (simp_all add: xoshiro_advance_def Let_def u_def w_def)
  have u: "u a = u b" using adv(2) [of a] adv(2) [of b] assms(1) by (metis rotl64_inj)
  have undo: "s0 st = s0 (xoshiro_advance st) XOR u st" "s1 st = s1 (xoshiro_advance st) XOR w st"
    "s2 st = w st XOR s0 st" "s3 st = u st XOR s1 st" for st
    by (simp_all add: adv u_def w_def xor.assoc)
  have s0: "s0 a = s0 b" using undo(1) [of a] undo(1) [of b] u assms(1) by (simp only:)
  have "w st XOR push_bit 17 (w st) = s2 (xoshiro_advance st) XOR push_bit 17 (s1 (xoshiro_advance st))" for st
    unfolding adv by (simp add: push_bit_xor ac_simps)
  then have "w a XOR push_bit 17 (w a) = w b XOR push_bit 17 (w b)" by (simp only: assms(1))
  then have w: "w a = w b" by (rule xor_shift_left_inj [rotated]) simp
  have s1: "s1 a = s1 b" using undo(2) [of a] undo(2) [of b] w assms(1) by (simp only:)
  have "s2 a = s2 b" using undo(3) [of a] undo(3) [of b] w s0 by (simp only:)
  moreover have "s3 a = s3 b" using undo(4) [of a] undo(4) [of b] u s1 by (simp only:)
  ultimately show ?thesis using s0 s1 assms(2) by (simp add: rng.equality)
qed

lemma advance_nonzero: "\<not> all_zero st \<Longrightarrow> \<not> all_zero (xoshiro_advance st)"
proof
  assume "\<not> all_zero st" and z: "all_zero (xoshiro_advance st)"
  define st0 where "st0 = \<lparr> s0 = 0, s1 = 0, s2 = 0, s3 = 0, xoshiro_seeded = xoshiro_seeded st \<rparr>"
  have "xoshiro_advance st0 = st0" by (simp add: st0_def xoshiro_advance_def rotl64_def Let_def)
  moreover have "xoshiro_advance st = st0"
    using z by (intro rng.equality) (simp_all add: st0_def all_zero_def)
  ultimately have "xoshiro_advance st = xoshiro_advance st0" by simp
  then have "st = st0" by (rule advance_inj) (simp add: st0_def)
  moreover have "all_zero st0" by (simp add: all_zero_def st0_def)
  ultimately show False using \<open>\<not> all_zero st\<close> by metis
qed

definition rng_inv :: "rng \<Rightarrow> bool" where
  "rng_inv st \<longleftrightarrow> (xoshiro_seeded st \<longrightarrow> \<not> all_zero st)"

inductive_cases rng_stepE: "rng_step st st'"

lemma rng_step_inv: "rng_step st st' \<Longrightarrow> rng_inv st \<Longrightarrow> rng_inv st'"
proof (erule rng_stepE)
  fix os v assume "rng_inv st" and nxt: "hs_xoshiro256pp_next os st = (v, st')"
  then have "st' = xoshiro_advance (if \<not> xoshiro_seeded st then xoshiro_seed os st else st)"
    by (simp add: hs_xoshiro256pp_next_def Let_def)
  then show "rng_inv st'"
    using \<open>rng_inv st\<close> advance_nonzero xoshiro_seed_state by (auto simp: rng_inv_def)
qed (auto simp: rng_inv_def hs_xoshiro256pp_reseed_def xoshiro_atfork_child_def)

subsection \<open>Properties\<close>

text \<open>C39: in every state a thread can reach by drawing, reseeding and forking, whatever the kernel,
  the clock and the process id return, a seeded state is not the all-zero fixed point of the
  generator.\<close>

theorem rng_never_stuck:
  assumes "rng_reachable st" and "xoshiro_seeded st"
  shows "\<not> (s0 st = 0 \<and> s1 st = 0 \<and> s2 st = 0 \<and> s3 st = 0)"
proof -
  from assms(1) have "rng_inv st"
  proof induction
    case init
    show ?case by (simp add: rng_inv_def rng_init_def)
  next
    case step
    then show ?case by (auto intro: rng_step_inv)
  qed
  with assms(2) show ?thesis by (simp add: rng_inv_def all_zero_def)
qed

theorem rng_never_stuck_witness:
  "\<exists>st. xoshiro_seeded st \<and> rng_reachable st \<and> \<not> (s0 st = 0 \<and> s1 st = 0 \<and> s2 st = 0 \<and> s3 st = 0)"
proof -
  define os where "os = \<lparr> kernel_random = None, tls_address = 0, clock = None, pid = 1, windows = False \<rparr>"
  define st where "st = snd (hs_xoshiro256pp_next os rng_init)"
  have "rng_reachable st"
    by (rule rng_reachable.step [OF rng_reachable.init], rule rng_step.draw [of os _ "fst (hs_xoshiro256pp_next os rng_init)"])
      (simp add: st_def)
  moreover have "xoshiro_seeded st"
    using xoshiro_seed_state(2) by (simp add: st_def hs_xoshiro256pp_next_def rng_init_def Let_def)
  ultimately show ?thesis using rng_never_stuck [of st] by blast
qed

text \<open>The state update loses nothing: two states that differ still differ after a draw.\<close>

theorem rng_advance_injective: "inj_on xoshiro_advance {st. xoshiro_seeded st}"
  by (rule inj_onI) (auto intro: advance_inj)

end
