(* ===== verification/Magic_Ring.thy ===== *)
theory Magic_Ring
  imports Endian
begin

text \<open>
  \<open>wireform-core/cbits/magic_ring_linux.c\<close> and \<open>magic_ring_posix.c\<close>: a ring buffer whose pages are
  mapped twice, back to back.  The operating system is a state (open descriptors, files, the address
  space and \<open>errno\<close>) with the effect of each successful system call as an operation on it; whether a
  call succeeds, and the descriptor, file or address it returns, is a parameter (\<open>answers\<close>).  The
  two files differ only in how they obtain an anonymous file.
\<close>

subsection \<open>The operating system\<close>

text \<open>What a virtual address holds: nothing, a reservation without access, or a byte of a file.\<close>

datatype page = Unmapped | Reserved | FileByte nat nat

record os =
  descs :: "nat \<Rightarrow> nat option"
  fsize :: "nat \<Rightarrow> nat"
  content :: "nat \<Rightarrow> nat \<Rightarrow> u8"
  vm :: "nat \<Rightarrow> page"
  errno :: int
  cached_page_size :: u64
  shm_counter :: u64
  shm_names :: "u8 list set"

record answers =
  sc_pagesize :: u64
  ftruncate_fails :: "int option"
  reserve :: "int + nat"
  map1_fails :: "int option"
  map2_fails :: "int option"
  close_fails :: "int option"
  munmap_fails :: "int option"

definition set_errno :: "int option \<Rightarrow> os \<Rightarrow> os" where
  "set_errno e s = (case e of Some n \<Rightarrow> s\<lparr> errno := n \<rparr> | None \<Rightarrow> s)"

text \<open>\<open>close\<close> releases the descriptor even when it reports an error; \<open>munmap\<close> removes the pages unless
  it fails.\<close>

definition os_close :: "answers \<Rightarrow> nat \<Rightarrow> os \<Rightarrow> os" where
  "os_close ans fd s = set_errno (close_fails ans) (s\<lparr> descs := (descs s)(fd := None) \<rparr>)"

definition fill_vm :: "nat \<Rightarrow> nat \<Rightarrow> (nat \<Rightarrow> page) \<Rightarrow> os \<Rightarrow> os" where
  "fill_vm base n f s = s\<lparr> vm := (\<lambda>a. if base \<le> a \<and> a < base + n then f (a - base) else vm s a) \<rparr>"

definition os_munmap :: "answers \<Rightarrow> nat \<Rightarrow> nat \<Rightarrow> os \<Rightarrow> os" where
  "os_munmap ans base n s =
     (case munmap_fails ans of
        Some e \<Rightarrow> s\<lparr> errno := e \<rparr>
      | None \<Rightarrow> fill_vm base n (\<lambda>_. Unmapped) s)"

definition os_memset0 :: "nat \<Rightarrow> nat \<Rightarrow> os \<Rightarrow> os option" where
  "os_memset0 base n s =
     (if \<forall>k<n. (case vm s (base + k) of FileByte f off \<Rightarrow> off < fsize s f | _ \<Rightarrow> False)
      then Some (s\<lparr> content := (\<lambda>f off.
        if \<exists>k<n. vm s (base + k) = FileByte f off then 0 else content s f off) \<rparr>)
      else None)"

text \<open>The byte at an address, \<open>None\<close> for an access that faults.\<close>

definition mem_at :: "os \<Rightarrow> nat \<Rightarrow> u8 option" where
  "mem_at s a = (case vm s a of
     FileByte f off \<Rightarrow> if off < fsize s f then Some (content s f off) else None
   | _ \<Rightarrow> None)"

subsection \<open>Sizes\<close>

definition hs_page_size :: "answers \<Rightarrow> os \<Rightarrow> u64 \<times> os" where
  "hs_page_size ans s =
     (let ps = cached_page_size s
      in if ps = 0 then (let ps = sc_pagesize ans in (ps, s\<lparr> cached_page_size := ps \<rparr>)) else (ps, s))"

definition next_pow2 :: "u64 \<Rightarrow> u64" where
  "next_pow2 val =
     (let val = val - 1;
          val = val OR drop_bit 1 val;
          val = val OR drop_bit 2 val;
          val = val OR drop_bit 4 val;
          val = val OR drop_bit 8 val;
          val = val OR drop_bit 16 val;
          val = val OR drop_bit 32 val
      in val + 1)"

definition RING_MAX_SIZE :: u64 where
  "RING_MAX_SIZE = push_bit 32 1"

definition ENOMEM :: int where "ENOMEM = 12"

definition EEXIST :: int where "EEXIST = 17"

definition ring_size :: "u64 \<Rightarrow> u64 \<Rightarrow> u64" where
  "ring_size ps requested =
     (let requested = (if requested < ps then ps else requested);
          size = (requested + ps - 1) AND NOT (ps - 1)
      in next_pow2 size)"

subsection \<open>Creating and destroying a ring\<close>

record hs_ring =
  rbase :: nat
  rsize :: nat

text \<open>\<open>fail_close\<close> keeps the \<open>errno\<close> that is being reported.\<close>

definition fail_close :: "answers \<Rightarrow> nat \<Rightarrow> os \<Rightarrow> int \<times> os" where
  "fail_close ans fd s =
     (let saved_errno = errno s;
          s = os_close ans fd s
      in (-1, s\<lparr> errno := saved_errno \<rparr>))"

text \<open>The part after the descriptor has been obtained, the same in both files.  The third component is
  what is written to \<open>*out\<close>; \<open>None\<close> in the outer option is a fault in \<open>memset\<close>.\<close>

definition ring_map ::
  "answers \<Rightarrow> nat \<Rightarrow> nat \<Rightarrow> nat \<Rightarrow> os \<Rightarrow> (int \<times> hs_ring option \<times> os) option" where
  "ring_map ans fd file n s =
     (case ftruncate_fails ans of
        Some e \<Rightarrow> (let (r, s) = fail_close ans fd (s\<lparr> errno := e \<rparr>) in Some (r, None, s))
      | None \<Rightarrow>
         (let s = s\<lparr> fsize := (fsize s)(file := n) \<rparr>
          in case reserve ans of
               Inl e \<Rightarrow> (let (r, s) = fail_close ans fd (s\<lparr> errno := e \<rparr>) in Some (r, None, s))
             | Inr b \<Rightarrow>
                (let s = fill_vm b (n * 2) (\<lambda>_. Reserved) s
                 in case map1_fails ans of
                      Some e \<Rightarrow>
                        (let s = s\<lparr> errno := e \<rparr>;
                             saved_errno = errno s;
                             s = os_munmap ans b (n * 2) s;
                             (r, s) = fail_close ans fd (s\<lparr> errno := saved_errno \<rparr>)
                         in Some (r, None, s))
                    | None \<Rightarrow>
                       (let s = fill_vm b n (\<lambda>k. FileByte file k) s
                        in case map2_fails ans of
                             Some e \<Rightarrow>
                               (let s = s\<lparr> errno := e \<rparr>;
                                    saved_errno = errno s;
                                    s = os_munmap ans b (n * 2) s;
                                    (r, s) = fail_close ans fd (s\<lparr> errno := saved_errno \<rparr>)
                                in Some (r, None, s))
                           | None \<Rightarrow>
                               do {
                                 let s = fill_vm (b + n) n (\<lambda>k. FileByte file k) s;
                                 let s = os_close ans fd s;
                                 s \<leftarrow> os_memset0 b n s;
                                 Some (0, Some \<lparr> rbase = b, rsize = n \<rparr>, s)
                               }))))"

text \<open>Linux: the anonymous file comes from \<open>memfd_create\<close>, which returns an error or a descriptor and
  its file.\<close>

definition hs_ring_create ::
  "answers \<Rightarrow> int + (nat \<times> nat) \<Rightarrow> u64 \<Rightarrow> os \<Rightarrow> (int \<times> hs_ring option \<times> os) option" where
  "hs_ring_create ans memfd requested s =
     (let (ps, s) = hs_page_size ans s
      in if RING_MAX_SIZE < requested then Some (-1, None, s\<lparr> errno := ENOMEM \<rparr>)
         else let n = unat (ring_size ps requested)
              in case memfd of
                   Inl e \<Rightarrow> Some (-1, None, s\<lparr> errno := e \<rparr>)
                 | Inr (fd, file) \<Rightarrow>
                     ring_map ans fd file n (s\<lparr> descs := (descs s)(fd \<mapsto> file) \<rparr>))"

text \<open>The POSIX file makes a name no other process uses, \<open>/wfring.<pid>.<counter>\<close>, opens it exclusively
  and unlinks it at once.  The digits go backwards into a buffer of 20 bytes; a twenty-first would be
  outside it.\<close>

function dec_loop :: "u8 list \<Rightarrow> u64 \<Rightarrow> u8 list option" where
  "dec_loop tmp v =
     (if length tmp < 20
      then let tmp = tmp @ [48 + ucast (v mod 10)];
               v = v div 10
           in if v \<noteq> 0 then dec_loop tmp v else Some tmp
      else None)"
  by auto

termination
  by (relation "measure (\<lambda>(tmp, v). 20 - length tmp)") auto

declare dec_loop.simps [simp del]

definition wf_dec_u64 :: "u64 \<Rightarrow> u8 list option" where
  "wf_dec_u64 v = map_option rev (dec_loop [] v)"

definition shm_name :: "u64 \<Rightarrow> u64 \<Rightarrow> u8 list option" where
  "shm_name pid counter =
     do {
       p \<leftarrow> wf_dec_u64 pid;
       c \<leftarrow> wf_dec_u64 counter;
       let name = [47, 119, 102, 114, 105, 110, 103, 46] @ p @ [46] @ c @ [0];
       if length name \<le> 64 then Some name else None
     }"

definition SHM_OPEN_ATTEMPTS :: nat where "SHM_OPEN_ATTEMPTS = 16"

text \<open>\<open>shm\<close> answers \<open>shm_open\<close> for each attempt and name.  Unlinking a name just created succeeds.  FreeBSD's
  anonymous \<open>shm_open\<close>, a single call instead of this loop, is not modelled.\<close>

function shm_attempt ::
  "(nat \<Rightarrow> u8 list \<Rightarrow> int + nat \<times> nat) \<Rightarrow> u64 \<Rightarrow> nat \<Rightarrow> os \<Rightarrow> ((int + nat \<times> nat) \<times> os) option" where
  "shm_attempt shm pid attempt s =
     (case shm_name pid (shm_counter s) of
        None \<Rightarrow> None
      | Some name \<Rightarrow>
          let s = s\<lparr> shm_counter := shm_counter s + 1 \<rparr>
          in case shm attempt name of
               Inr (fd, file) \<Rightarrow>
                 let s = s\<lparr> descs := (descs s)(fd \<mapsto> file), shm_names := insert name (shm_names s) \<rparr>
                 in Some (Inr (fd, file), s\<lparr> shm_names := shm_names s - {name} \<rparr>)
             | Inl e \<Rightarrow>
                 let s = s\<lparr> errno := e \<rparr>
                 in if e \<noteq> EEXIST \<or> attempt + 1 \<ge> SHM_OPEN_ATTEMPTS then Some (Inl e, s)
                    else shm_attempt shm pid (attempt + 1) s)"
  by auto

termination
  by (relation "measure (\<lambda>(shm, pid, attempt, s). SHM_OPEN_ATTEMPTS - attempt)") auto

declare shm_attempt.simps [simp del]

definition hs_ring_create_posix ::
  "answers \<Rightarrow> (nat \<Rightarrow> u8 list \<Rightarrow> int + nat \<times> nat) \<Rightarrow> u64 \<Rightarrow> u64 \<Rightarrow> os \<Rightarrow>
    (int \<times> hs_ring option \<times> os) option" where
  "hs_ring_create_posix ans shm pid requested s =
     (let (ps, s) = hs_page_size ans s
      in if RING_MAX_SIZE < requested then Some (-1, None, s\<lparr> errno := ENOMEM \<rparr>)
         else let n = unat (ring_size ps requested)
              in case shm_attempt shm pid 0 s of
                   None \<Rightarrow> None
                 | Some (Inl e, s) \<Rightarrow> Some (-1, None, s)
                 | Some (Inr (fd, file), s) \<Rightarrow> ring_map ans fd file n s)"

text \<open>\<open>base == NULL\<close> is 0.\<close>

definition hs_ring_destroy :: "answers \<Rightarrow> hs_ring option \<Rightarrow> os \<Rightarrow> hs_ring option \<times> os" where
  "hs_ring_destroy ans ring s =
     (case ring of
        None \<Rightarrow> (None, s)
      | Some r \<Rightarrow>
          if rbase r \<noteq> 0
          then (Some (r\<lparr> rbase := 0, rsize := 0 \<rparr>), os_munmap ans (rbase r) (rsize r * 2) s)
          else (Some r, s))"

subsection \<open>The size is the next power of two\<close>

lemma smear_step:
  fixes v w :: "'a::len word"
  assumes "\<And>j. bit w j \<longleftrightarrow> (\<exists>k. j \<le> k \<and> k < j + n \<and> bit v k)"
    and "w' = w OR drop_bit n w" and "m = n + n"
  shows "bit w' j \<longleftrightarrow> (\<exists>k. j \<le> k \<and> k < j + m \<and> bit v k)"
proof -
  have "j \<le> k \<and> k < j + m \<and> bit v k \<longleftrightarrow>
      (j \<le> k \<and> k < j + n \<and> bit v k) \<or> (j + n \<le> k \<and> k < j + n + n \<and> bit v k)" for k
    using assms(3) by auto
  then have "(\<exists>k. j \<le> k \<and> k < j + m \<and> bit v k) \<longleftrightarrow> bit w j \<or> bit w (j + n)"
    unfolding assms(1) by blast
  then show ?thesis by (simp add: assms(2) bit_or_iff bit_drop_bit_eq add.commute)
qed

lemma next_pow2_bits:
  "bit (next_pow2 val - 1) j \<longleftrightarrow> (\<exists>k\<ge>j. bit (val - 1) k)"
proof -
  define v where "v = val - 1"
  define w1 where "w1 = v OR drop_bit 1 v"
  define w2 where "w2 = w1 OR drop_bit 2 w1"
  define w4 where "w4 = w2 OR drop_bit 4 w2"
  define w8 where "w8 = w4 OR drop_bit 8 w4"
  define w16 where "w16 = w8 OR drop_bit 16 w8"
  define w32 where "w32 = w16 OR drop_bit 32 w16"
  have "next_pow2 val = w32 + 1"
    unfolding next_pow2_def Let_def w32_def w16_def w8_def w4_def w2_def w1_def v_def ..
  then have nxt: "next_pow2 val - 1 = w32" by simp
  have b0: "bit v j \<longleftrightarrow> (\<exists>k. j \<le> k \<and> k < j + 1 \<and> bit v k)" for j by (auto simp: le_less_Suc_eq)
  have b1: "bit w1 j \<longleftrightarrow> (\<exists>k. j \<le> k \<and> k < j + 2 \<and> bit v k)" for j by (rule smear_step [OF b0 w1_def]) simp
  have b2: "bit w2 j \<longleftrightarrow> (\<exists>k. j \<le> k \<and> k < j + 4 \<and> bit v k)" for j by (rule smear_step [OF b1 w2_def]) simp
  have b4: "bit w4 j \<longleftrightarrow> (\<exists>k. j \<le> k \<and> k < j + 8 \<and> bit v k)" for j by (rule smear_step [OF b2 w4_def]) simp
  have b8: "bit w8 j \<longleftrightarrow> (\<exists>k. j \<le> k \<and> k < j + 16 \<and> bit v k)" for j by (rule smear_step [OF b4 w8_def]) simp
  have b16: "bit w16 j \<longleftrightarrow> (\<exists>k. j \<le> k \<and> k < j + 32 \<and> bit v k)" for j by (rule smear_step [OF b8 w16_def]) simp
  have b32: "bit w32 j \<longleftrightarrow> (\<exists>k. j \<le> k \<and> k < j + 64 \<and> bit v k)" for j by (rule smear_step [OF b16 w32_def]) simp
  have "k < j + 64" if "bit v k" for k using bit_imp_le_length [OF that] by simp
  then show ?thesis unfolding nxt b32 v_def [symmetric] by blast
qed

text \<open>For \<open>2 ^ h \<le> val - 1 < 2 ^ (h + 1)\<close> the smeared word is \<open>2 ^ (h + 1) - 1\<close>.\<close>

lemma next_pow2_correct:
  assumes "0 < unat val" and "unat val \<le> 2 ^ 63"
  shows "\<exists>h. unat (next_pow2 val) = 2 ^ h \<and> unat val \<le> 2 ^ h \<and> (\<forall>g. unat val \<le> 2 ^ g \<longrightarrow> h \<le> g)"
proof (cases "unat val = 1")
  case True
  then have "val = 1" by (metis unat_1 word_unat_eq_iff)
  then have "next_pow2 val = 1" by (simp add: next_pow2_def Let_def)
  then show ?thesis using True by (intro exI [of _ 0]) simp
next
  case False
  define v where "v = val - 1"
  have "val \<noteq> 0" using assms(1) by auto
  then have v: "unat v = unat val - 1" by (simp add: v_def unat_minus_one)
  then have "v \<noteq> 0" using assms(1) False by (auto simp: unat_eq_zero)
  define h where "h = Max {k. bit v k}"
  have fin: "finite {k. bit v k}" by (rule finite_subset [of _ "{..<64}"]) (auto dest: bit_imp_le_length)
  have ne: "{k. bit v k} \<noteq> {}" using \<open>v \<noteq> 0\<close> by (auto simp: bit_eq_iff)
  have top: "bit v h" and above: "\<And>k. bit v k \<Longrightarrow> k \<le> h"
    using Max_in [OF fin ne] Max_ge [OF fin] by (simp_all add: h_def)
  have h64: "h < 64" using bit_imp_le_length [OF top] by simp
  have low: "2 ^ h \<le> unat v"
  proof -
    have "bit (unat v) h" using top h64 by (simp add: bit_unsigned_iff)
    then show ?thesis by (metis bit_nat_def div_less even_zero linorder_not_le bit_iff_odd)
  qed
  have "v = take_bit (Suc h) v" by (rule bit_word_eqI) (auto simp: bit_simps dest: above)
  then have "unat v = take_bit (Suc h) (unat v)" by (metis unsigned_take_bit_eq)
  then have high: "unat v < 2 ^ Suc h" by (metis take_bit_nat_less_exp)
  have "h < 63"
  proof (rule ccontr)
    assume "\<not> h < 63"
    then have "(2 :: nat) ^ 63 \<le> 2 ^ h" by (intro power_increasing) simp_all
    then show False using low v assms by linarith
  qed
  have "next_pow2 val - 1 = mask (Suc h)"
  proof (rule bit_word_eqI)
    fix j assume "j < LENGTH(64)"
    show "bit (next_pow2 val - 1) j = bit (mask (Suc h) :: u64) j"
      unfolding next_pow2_bits v_def [symmetric]
      using top above \<open>j < LENGTH(64)\<close> by (auto simp: bit_mask_iff less_Suc_eq_le) (metis le_trans)
  qed
  then have "next_pow2 val = 2 ^ Suc h" by (simp add: mask_eq_exp_minus_1 diff_eq_eq)
  then have size: "unat (next_pow2 val) = 2 ^ Suc h"
    using \<open>h < 63\<close> by (simp add: unat_exp del: power_Suc)
  have "Suc h \<le> g" if "unat val \<le> 2 ^ g" for g
  proof (rule ccontr)
    assume "\<not> Suc h \<le> g"
    then have "(2 :: nat) ^ g \<le> 2 ^ h" by (intro power_increasing) simp_all
    then show False using that low v assms(1) by linarith
  qed
  moreover have "unat val \<le> 2 ^ Suc h" using high v by linarith
  ultimately show ?thesis using size by blast
qed

text \<open>Rounding up to a multiple of the page size before that changes nothing: the page size is a power
  of two.\<close>

lemma and_not_mask: "(x :: u64) AND NOT (mask p) = push_bit p (drop_bit p x)"
  by (rule bit_word_eqI) (auto simp: bit_simps)

lemma ring_size_correct:
  assumes "unat ps = 2 ^ p" and "p \<le> 32" and "unat requested \<le> 2 ^ 32"
  shows "\<exists>h. unat (ring_size ps requested) = 2 ^ h \<and> p \<le> h \<and> h \<le> 32 \<and> unat requested \<le> 2 ^ h \<and>
    (\<forall>g. p \<le> g \<and> unat requested \<le> 2 ^ g \<longrightarrow> h \<le> g)"
proof -
  define r where "r = (if requested < ps then ps else requested)"
  have r: "unat r = max (2 ^ p) (unat requested)"
    using assms(1) by (auto simp: r_def word_less_nat_alt max_def)
  have ple: "(2 :: nat) ^ p \<le> 2 ^ 32" using assms(2) by (intro power_increasing) simp_all
  have rle: "unat r \<le> 2 ^ 32" using r ple assms(3) by simp
  have ps: "ps = 2 ^ p"
    using assms(1,2) by (intro word_unat_eq_iff [THEN iffD2]) (simp add: unat_exp)
  have mask: "ps - 1 = mask p" by (simp add: ps mask_eq_exp_minus_1)
  have sum: "unat (r + ps - 1) = unat r + (2 ^ p - 1)"
  proof -
    have eq: "r + ps - 1 = r + mask p" using mask by (metis add_diff_eq)
    have m: "unat (mask p :: u64) = 2 ^ p - 1"
    proof -
      have e: "unat (2 ^ p :: u64) = 2 ^ p" using assms(2) by (intro unat_exp) simp
      then have "(2 :: u64) ^ p \<noteq> 0" by (metis power_not_zero unat_0 zero_neq_numeral)
      then show ?thesis by (simp add: mask_eq_exp_minus_1 unat_minus_one e)
    qed
    have "unat r + (2 ^ p - 1) < 2 ^ 64" using rle ple by simp
    then have "unat (r + mask p) = unat r + unat (mask p :: u64)"
      by (intro unat_add_lem [THEN iffD1]) (simp add: m)
    then show ?thesis by (simp only: eq m)
  qed
  define x where "x = r + ps - 1"
  define v where "v = x AND NOT (ps - 1)"
  have "unat v = unat x div 2 ^ p * 2 ^ p"
  proof -
    have "v = drop_bit p x * 2 ^ p" by (simp add: v_def mask and_not_mask push_bit_eq_mult)
    moreover have "unat (drop_bit p x) = unat x div 2 ^ p" 
      using assms(2) by (simp add: drop_bit_eq_div unat_div_distrib unat_exp)
    moreover have "unat x div 2 ^ p * 2 ^ p < 2 ^ 64"
    proof (rule le_less_trans)
      show "unat x div 2 ^ p * 2 ^ p \<le> unat x" by (rule div_times_less_eq_dividend)
      show "unat x < 2 ^ 64" using unsigned_less [of x] by simp
    qed
    ultimately show ?thesis using assms(2) by (simp add: unat_mult_lem [THEN iffD1] unat_exp)
  qed
  then have vr: "unat v = (unat r + (2 ^ p - 1)) div 2 ^ p * 2 ^ p" using sum by (simp add: x_def)
  have up: "unat v \<le> 2 ^ g" if "p \<le> g" "unat r \<le> 2 ^ g" for g
  proof -
    define P D where "P = (2 :: nat) ^ p" and "D = (2 :: nat) ^ (g - p)"
    have d: "(2 :: nat) ^ g = D * P" using that(1) by (simp add: P_def D_def flip: power_add)
    have P: "0 < P" by (simp add: P_def)
    have "(unat r + (P - 1)) div P < Suc D"
    proof (rule less_mult_imp_div_less)
      have "unat r + (P - 1) < P + D * P" using that(2) P unfolding d by linarith
      then show "unat r + (P - 1) < Suc D * P" by (simp only: mult_Suc)
    qed
    then have "(unat r + (P - 1)) div P * P \<le> D * P" by (intro mult_le_mono1) simp
    then show ?thesis unfolding vr d P_def .
  qed
  have low: "unat r \<le> unat v"
  proof -
    have "unat r + (2 ^ p - 1) < unat v + 2 ^ p"
      unfolding vr using dividend_less_div_times [of "2 ^ p" "unat r + (2 ^ p - 1)"] by simp
    then show ?thesis by simp
  qed
  have "unat v \<le> 2 ^ 32" using up [of 32] assms(2) rle by simp
  moreover have "0 < unat v" using low r by (metis max.bounded_iff nat_zero_less_power_iff not_gr_zero le_zero_eq zero_less_numeral)
  ultimately obtain h where h: "unat (next_pow2 v) = 2 ^ h" "unat v \<le> 2 ^ h" "\<And>g. unat v \<le> 2 ^ g \<Longrightarrow> h \<le> g"
    using next_pow2_correct [of v] by auto
  have "ring_size ps requested = next_pow2 v"
    by (simp add: ring_size_def r_def v_def x_def Let_def)
  moreover have "p \<le> h"
  proof -
    have "(2 :: nat) ^ p \<le> 2 ^ h" using r low h(2) by linarith
    then show ?thesis by (metis one_less_numeral_iff power_le_imp_le_exp semiring_norm(76))
  qed
  moreover have "h \<le> 32" using h(3) [of 32] \<open>unat v \<le> 2 ^ 32\<close> by simp
  moreover have "unat requested \<le> 2 ^ h" using r low h(2) by linarith
  moreover have "h \<le> g" if "p \<le> g" "unat requested \<le> 2 ^ g" for g
  proof (rule h(3), rule up [OF that(1)])
    have "(2 :: nat) ^ p \<le> 2 ^ g" using that(1) by (intro power_increasing) simp_all
    then show "unat r \<le> 2 ^ g" using r that(2) by simp
  qed
  ultimately show ?thesis using h(1) by metis
qed

subsection \<open>Names of shared memory objects\<close>

fun decimal :: "u8 list \<Rightarrow> nat" where
  "decimal [] = 0"
| "decimal (d # ds) = unat (d - 48) + 10 * decimal ds"

definition is_digit :: "u8 \<Rightarrow> bool" where
  "is_digit d = (48 \<le> d \<and> d \<le> 57)"

lemma decimal_snoc: "decimal (ds @ [d]) = decimal ds + 10 ^ length ds * unat (d - 48)"
  by (induction ds) (simp_all add: algebra_simps)

lemma digit_of:
  "is_digit (48 + ucast (v mod 10 :: u64))" "unat (ucast (v mod 10) :: u8) = unat v mod 10"
  "unat ((48 + ucast (v mod 10 :: u64) :: u8) - 48) = unat v mod 10"
proof -
  have v: "unat (v mod 10) = unat v mod 10" by (simp add: unat_mod_distrib)
  show u: "unat (ucast (v mod 10) :: u8) = unat v mod 10"
    using unat_mod_distrib [of v 10] by (simp add: unsigned_ucast_eq v take_bit_nat_eq_self)
  then show "unat ((48 + ucast (v mod 10 :: u64) :: u8) - 48) = unat v mod 10"
    by (simp only: add_diff_cancel_left')
  have "unat (48 + ucast (v mod 10 :: u64) :: u8) = 48 + unat v mod 10"
    using u by (subst unat_add_lem [THEN iffD1]) auto
  then show "is_digit (48 + ucast (v mod 10 :: u64))" by (simp add: is_digit_def word_le_nat_alt)
qed

text \<open>Twenty digits are enough for every 64-bit value.\<close>

lemma dec_loop_correct:
  assumes "unat v < 10 ^ Suc k" and "length tmp + Suc k \<le> 20" and "\<forall>d\<in>set tmp. is_digit d"
  shows "\<exists>out. dec_loop tmp v = Some out \<and> decimal out = decimal tmp + 10 ^ length tmp * unat v \<and>
    length tmp < length out \<and> length out \<le> length tmp + Suc k \<and> (\<forall>d\<in>set out. is_digit d)"
  using assms
proof (induction k arbitrary: tmp v)
  case 0
  have "v div 10 = 0" using 0(1) by (simp add: word_unat_eq_iff unat_div_distrib)
  then show ?case using 0 digit_of [of v] by (subst dec_loop.simps) (simp add: Let_def decimal_snoc)
next
  case (Suc k)
  define tmp' where "tmp' = tmp @ [48 + ucast (v mod 10)]"
  have len: "length tmp' = Suc (length tmp)" by (simp add: tmp'_def)
  have val: "decimal tmp' = decimal tmp + 10 ^ length tmp * (unat v mod 10)"
    by (simp add: tmp'_def decimal_snoc digit_of)
  have ok: "\<forall>d\<in>set tmp'. is_digit d" using Suc.prems(3) digit_of(1) [of v] by (auto simp: tmp'_def)
  have eq: "dec_loop tmp v = (if v div 10 \<noteq> 0 then dec_loop tmp' (v div 10) else Some tmp')"
    using Suc.prems(2) by (subst dec_loop.simps) (simp add: Let_def tmp'_def)
  have dv: "unat (v div 10) = unat v div 10" by (simp add: unat_div_distrib)
  show ?case
  proof (cases "v div 10 = 0")
    case True
    then have "unat v div 10 = 0" using dv by simp
    then have "unat v mod 10 = unat v" by (simp add: div_eq_0_iff)
    then show ?thesis using True eq val ok len by simp
  next
    case False
    have "unat (v div 10) < 10 ^ Suc k" using Suc.prems(1) dv by (simp add: less_mult_imp_div_less)
    then obtain out where out: "dec_loop tmp' (v div 10) = Some out"
      "decimal out = decimal tmp' + 10 ^ length tmp' * unat (v div 10)"
      "length tmp' < length out" "length out \<le> length tmp' + Suc k" "\<forall>d\<in>set out. is_digit d"
      using Suc.IH [of "v div 10" tmp'] Suc.prems(2) ok len by auto
    have "decimal out = decimal tmp + 10 ^ length tmp * (unat v mod 10 + 10 * (unat v div 10))"
      unfolding out(2) val len dv power_Suc distrib_left by (simp only: ac_simps)
    then show ?thesis using False eq out len by (simp only: mod_mult_div_eq mult.assoc) auto
  qed
qed

text \<open>So a name is always made, with the terminator, in the 64 bytes of the buffer.\<close>

lemma wf_dec_u64_correct:
  "\<exists>ds. wf_dec_u64 v = Some ds \<and> decimal (rev ds) = unat v \<and> 0 < length ds \<and> length ds \<le> 20 \<and>
    (\<forall>d\<in>set ds. is_digit d)"
proof -
  have "unat v < 2 ^ 64" using unsigned_less [of v] by simp
  then have "unat v < 10 ^ Suc 19" by (rule less_trans) simp
  then show ?thesis using dec_loop_correct [of v 19 "[]"] by (auto simp: wf_dec_u64_def)
qed

lemma shm_name_fits: "\<exists>name. shm_name pid counter = Some name \<and> length name \<le> 50 \<and> last name = 0"
  using wf_dec_u64_correct [of pid] wf_dec_u64_correct [of counter]
  by (auto simp: shm_name_def Let_def)

text \<open>Opening leaves no name behind, whatever the answers, provided names it is given are unused.\<close>

lemma shm_attempt_correct:
  "\<exists>r s'. shm_attempt shm pid attempt s = Some (r, s') \<and>
    (case r of Inl e \<Rightarrow> errno s' = e \<and> descs s' = descs s
             | Inr (fd, file) \<Rightarrow> (\<exists>k name. shm k name = Inr (fd, file)) \<and>
                 descs s' = (descs s)(fd \<mapsto> file)) \<and>
    shm_names s' \<subseteq> shm_names s \<and> vm s' = vm s \<and> fsize s' = fsize s \<and> content s' = content s"
proof (induction shm pid attempt s rule: shm_attempt.induct)
  case (1 shm pid attempt s)
  obtain name where name: "shm_name pid (shm_counter s) = Some name" using shm_name_fits by blast
  show ?case
  proof (cases "shm attempt name")
    case (Inr x)
    then show ?thesis using name
      by (subst shm_attempt.simps) (cases x, auto simp: Let_def)
  next
    case (Inl e)
    show ?thesis
    proof (cases "e \<noteq> EEXIST \<or> attempt + 1 \<ge> SHM_OPEN_ATTEMPTS")
      case True
      then show ?thesis using name Inl by (subst shm_attempt.simps) (auto simp: Let_def)
    next
      case False
      define t where "t = s\<lparr> shm_counter := shm_counter s + 1, errno := e \<rparr>"
      have keep: "descs t = descs s" "shm_names t = shm_names s" "vm t = vm s" "fsize t = fsize s" "content t = content s"
        by (simp_all add: t_def)
      have "shm_attempt shm pid attempt s = shm_attempt shm pid (attempt + 1) t"
        using name Inl False by (subst shm_attempt.simps) (simp add: Let_def t_def)
      then show ?thesis using 1 [OF name refl Inl refl False] unfolding t_def [symmetric] keep by simp
    qed
  qed
qed

subsection \<open>The rings\<close>

text \<open>A ring of \<open>n\<close> bytes: \<open>2 * n\<close> addresses in which position \<open>k\<close> is byte \<open>k mod n\<close> of the file.\<close>

definition mirrored :: "os \<Rightarrow> nat \<Rightarrow> nat \<Rightarrow> bool" where
  "mirrored s b n \<longleftrightarrow> 0 < n \<and>
     (\<exists>file. n \<le> fsize s file \<and> (\<forall>k < 2 * n. vm s (b + k) = FileByte file (k mod n)))"

definition mem_put :: "nat \<Rightarrow> u8 \<Rightarrow> os \<Rightarrow> os option" where
  "mem_put a v s = (case vm s a of
     FileByte f off \<Rightarrow>
       if off < fsize s f then Some (s\<lparr> content := (content s)(f := (content s f)(off := v)) \<rparr>) else None
   | _ \<Rightarrow> None)"

text \<open>What the double mapping is for: a write at either copy is seen at both, so \<open>n\<close> bytes from any
  position of the first copy on are the ring's bytes in order, without a test for the wrap.\<close>

lemma mirror_write:
  assumes "mirrored s b n" and "i < 2 * n"
  shows "\<exists>s'. mem_put (b + i) v s = Some s' \<and> mirrored s' b n \<and>
    (\<forall>j < 2 * n. mem_at s' (b + j) = (if j mod n = i mod n then Some v else mem_at s (b + j)))"
proof -
  obtain g where n: "0 < n" and fl: "n \<le> fsize s g" "\<And>k. k < 2 * n \<Longrightarrow> vm s (b + k) = FileByte g (k mod n)"
    using assms(1) by (auto simp: mirrored_def)
  have "k mod n < fsize s g" for k using n fl(1) by (meson less_le_trans mod_less_divisor)
  then show ?thesis using n fl assms(2) by (auto simp: mem_put_def mem_at_def mirrored_def)
qed

lemma mirror_wrap:
  assumes "mirrored s b n" and "i < n" and "k < n"
  shows "mem_at s (b + (i + k)) = mem_at s (b + (i + k) mod n)"
proof -
  obtain g where fl: "\<And>k. k < 2 * n \<Longrightarrow> vm s (b + k) = FileByte g (k mod n)"
    using assms(1) by (auto simp: mirrored_def)
  have "(i + k) mod n < n" using assms(2) by simp
  then have "(i + k) mod n < 2 * n" by linarith
  then show ?thesis using fl [of "i + k"] fl [of "(i + k) mod n"] assms(2,3) by (simp add: mem_at_def)
qed

text \<open>The first failing call decides.\<close>

definition mapping_error :: "answers \<Rightarrow> int option" where
  "mapping_error ans =
     (case ftruncate_fails ans of
        Some e \<Rightarrow> Some e
      | None \<Rightarrow> (case reserve ans of
          Inl e \<Rightarrow> Some e
        | Inr _ \<Rightarrow> (case map1_fails ans of Some e \<Rightarrow> Some e | None \<Rightarrow> map2_fails ans)))"

text \<open>The kernel reserves addresses that are free, not at 0, and removing a mapping works.\<close>

definition honest :: "answers \<Rightarrow> nat \<Rightarrow> os \<Rightarrow> bool" where
  "honest ans n s \<longleftrightarrow> munmap_fails ans = None \<and>
     (\<forall>b. reserve ans = Inr b \<longrightarrow> 0 < b \<and> (\<forall>a. b \<le> a \<and> a < b + 2 * n \<longrightarrow> vm s a = Unmapped))"

definition ring_ready :: "answers \<Rightarrow> nat \<Rightarrow> os \<Rightarrow> hs_ring \<Rightarrow> os \<Rightarrow> bool" where
  "ring_ready ans n s ring s' \<longleftrightarrow> rsize ring = n \<and> reserve ans = Inr (rbase ring) \<and>
     mirrored s' (rbase ring) n \<and>
     (\<forall>k < 2 * n. mem_at s' (rbase ring + k) = Some 0) \<and>
     (\<forall>a. a < rbase ring \<or> rbase ring + 2 * n \<le> a \<longrightarrow> vm s' a = vm s a)"

lemma fill_vm_twice:
  "fill_vm b (n * 2) (\<lambda>_. Unmapped) (s\<lparr> vm := vm (fill_vm b m f t) \<rparr>) =
   fill_vm b (n * 2) (\<lambda>_. Unmapped) (s\<lparr> vm := vm t \<rparr>)" if "m \<le> n * 2"
  using that by (auto simp: fill_vm_def fun_eq_iff)

lemma clear_vm:
  assumes "\<And>a. b \<le> a \<and> a < b + 2 * n \<Longrightarrow> v a = Unmapped"
    and "\<And>a. \<not> (b \<le> a \<and> a < b + 2 * n) \<Longrightarrow> vm s a = v a"
  shows "vm (fill_vm b (n * 2) (\<lambda>_. Unmapped) s) = v"
  using assms by (auto simp: fill_vm_def fun_eq_iff mult.commute [of n 2])

lemma map_two:
  assumes "0 < n" and "n \<le> fsize s file"
    and "vm s = vm (fill_vm (b + n) n (\<lambda>k. FileByte file k) (fill_vm b n (\<lambda>k. FileByte file k) t))"
  shows "mirrored s b n"
    and "\<exists>s'. os_memset0 b n s = Some s' \<and> vm s' = vm s \<and> fsize s' = fsize s \<and> descs s' = descs s \<and>
      (\<forall>k < 2 * n. mem_at s' (b + k) = Some 0)"
proof -
  have vm: "vm s (b + k) = FileByte file (k mod n)" if "k < 2 * n" for k
    using that assms(1) unfolding assms(3) by (auto simp: fill_vm_def mod_if le_mod_geq)
  then show "mirrored s b n" using assms(1,2) by (auto simp: mirrored_def)
  have m: "k mod n < fsize s file" for k using assms(1,2) by (meson less_le_trans mod_less_divisor)
  have first: "vm s (b + k) = FileByte file k" if "k < n" for k using that vm [of k] by simp
  then have "os_memset0 b n s = Some (s\<lparr> content := (\<lambda>f off.
        if \<exists>k<n. vm s (b + k) = FileByte f off then 0 else content s f off) \<rparr>)"
    using assms(2) by (auto simp: os_memset0_def)
  moreover have "\<exists>j<n. vm s (b + j) = FileByte file (k mod n)" for k
    using first [of "k mod n"] assms(1) by (intro exI [of _ "k mod n"]) simp
  ultimately show "\<exists>s'. os_memset0 b n s = Some s' \<and> vm s' = vm s \<and> fsize s' = fsize s \<and> descs s' = descs s \<and>
      (\<forall>k < 2 * n. mem_at s' (b + k) = Some 0)"
    using vm m by (simp add: mem_at_def)
qed

lemma fail_close_simps:
  "fst (fail_close ans fd s) = -1"
  "descs (snd (fail_close ans fd s)) = (descs s)(fd := None)"
  "shm_names (snd (fail_close ans fd s)) = shm_names s"
  "vm (snd (fail_close ans fd s)) = vm s"
  "errno (snd (fail_close ans fd s)) = errno s"
  by (simp_all add: fail_close_def os_close_def set_errno_def Let_def split: option.splits)

lemma fill_vm_simps:
  "descs (fill_vm b n f s) = descs s" "fsize (fill_vm b n f s) = fsize s" "shm_names (fill_vm b n f s) = shm_names s"
  by (simp_all add: fill_vm_def)

lemma vm_map_twice:
  assumes "0 < n" and "a < b \<or> b + 2 * n \<le> a"
  shows "vm (fill_vm (b + n) n f (fill_vm b n g (fill_vm b (n * 2) h s))) a = vm s a"
  using assms by (auto simp: fill_vm_def)

lemma ring_map_correct:
  assumes "0 < n" and "honest ans n s"
  shows "\<exists>r out s'. ring_map ans fd file n s = Some (r, out, s') \<and> descs s' = (descs s)(fd := None) \<and>
    shm_names s' = shm_names s \<and>
    (case mapping_error ans of
       Some e \<Rightarrow> r = -1 \<and> out = None \<and> errno s' = e \<and> vm s' = vm s
     | None \<Rightarrow> r = 0 \<and> (\<exists>ring. out = Some ring \<and> ring_ready ans n s ring s'))"
proof (cases "ftruncate_fails ans")
  case (Some e)
  then show ?thesis by (simp add: ring_map_def mapping_error_def Let_def split_beta fail_close_simps)
next
  case trunc: None
  define s1 where "s1 = s\<lparr> fsize := (fsize s)(file := n) \<rparr>"
  have s1: "descs s1 = descs s" "vm s1 = vm s" "shm_names s1 = shm_names s" "fsize s1 file = n"
    by (simp_all add: s1_def)
  show ?thesis
  proof (cases "reserve ans")
    case (Inl e)
    then show ?thesis using trunc
      by (simp add: ring_map_def mapping_error_def Let_def split_beta fail_close_simps)
  next
    case (Inr b)
    have un: "munmap_fails ans = None" and free: "\<And>a. b \<le> a \<and> a < b + 2 * n \<Longrightarrow> vm s a = Unmapped"
      using assms(2) Inr by (auto simp: honest_def)
    define s2 where "s2 = fill_vm b (n * 2) (\<lambda>_. Reserved) s1"
    define s3 where "s3 = fill_vm b n (\<lambda>k. FileByte file k) s2"
    define s4 where "s4 = fill_vm (b + n) n (\<lambda>k. FileByte file k) s3"
    have undo2: "vm (fill_vm b (n * 2) (\<lambda>_. Unmapped) (s2\<lparr> errno := e \<rparr>)) = vm s" for e
      by (rule clear_vm [OF free]) (auto simp: s2_def fill_vm_def s1)
    have undo3: "vm (fill_vm b (n * 2) (\<lambda>_. Unmapped) (s3\<lparr> errno := e \<rparr>)) = vm s" for e
      by (rule clear_vm [OF free]) (auto simp: s3_def s2_def fill_vm_def s1)
    note keep = s2_def s3_def s4_def fill_vm_simps s1
    note run = ring_map_def mapping_error_def trunc Inr Let_def split_beta fail_close_simps os_munmap_def un
      s1_def [symmetric] s2_def [symmetric] s3_def [symmetric] s4_def [symmetric]
    show ?thesis
    proof (cases "map1_fails ans")
      case (Some e)
      have "descs s2 = descs s" "shm_names s2 = shm_names s" by (simp_all add: keep)
      then show ?thesis using Some undo2 [of e] by (simp add: run fill_vm_simps)
    next
      case m1: None
      show ?thesis
      proof (cases "map2_fails ans")
        case (Some e)
        have "descs s3 = descs s" "shm_names s3 = shm_names s" by (simp_all add: keep)
        then show ?thesis using Some m1 undo3 [of e] by (simp add: run fill_vm_simps)
      next
        case m2: None
        define s5 where "s5 = os_close ans fd s4"
        have s5: "descs s5 = (descs s)(fd := None)" "vm s5 = vm s4" "fsize s5 = fsize s4" "shm_names s5 = shm_names s"
          by (simp_all add: s5_def os_close_def set_errno_def keep split: option.splits)
        have f: "n \<le> fsize s5 file" by (simp add: s5(3) keep)
        have v: "vm s5 = vm (fill_vm (b + n) n (\<lambda>k. FileByte file k) (fill_vm b n (\<lambda>k. FileByte file k) s2))"
          by (simp add: s5(2) s4_def s3_def)
        obtain s6 where s6: "os_memset0 b n s5 = Some s6" "vm s6 = vm s5" "fsize s6 = fsize s5"
          "descs s6 = descs s5" "\<And>k. k < 2 * n \<Longrightarrow> mem_at s6 (b + k) = Some 0"
          using map_two(2) [OF assms(1) f v] by blast
        have names: "shm_names s6 = shm_names s5" using s6(1) by (auto simp: os_memset0_def split: if_splits)
        have "mirrored s6 b n" using map_two(1) [OF assms(1) f v] by (simp add: mirrored_def s6)
        moreover have "vm s6 a = vm s a" if "a < b \<or> b + 2 * n \<le> a" for a
          using vm_map_twice [OF assms(1) that] by (simp add: s6(2) v s2_def s1)
        ultimately have "ring_ready ans n s \<lparr> rbase = b, rsize = n \<rparr> s6"
          using Inr s6(5) by (simp add: ring_ready_def)
        then show ?thesis using m1 m2 s6(1,4) s5(1,4) names by (simp add: run s5_def [symmetric])
      qed
    qed
  qed
qed

text \<open>What both files promise: the failing call's \<open>errno\<close> and no trace on failure, and on success the
  smallest power of two that covers the request and a page, mapped twice and zeroed.\<close>

definition ring_promise ::
  "answers \<Rightarrow> nat \<Rightarrow> u64 \<Rightarrow> int option \<Rightarrow> os \<Rightarrow> int \<times> hs_ring option \<times> os \<Rightarrow> bool" where
  "ring_promise ans p requested failure s res \<longleftrightarrow>
     (let (r, out, s') = res
      in descs s' = descs s \<and> shm_names s' \<subseteq> shm_names s \<and>
         (case failure of
            Some e \<Rightarrow> r = -1 \<and> out = None \<and> errno s' = e \<and> vm s' = vm s
          | None \<Rightarrow> r = 0 \<and> (\<exists>ring h. out = Some ring \<and> p \<le> h \<and> h \<le> 32 \<and> unat requested \<le> 2 ^ h \<and>
              (\<forall>g. p \<le> g \<and> unat requested \<le> 2 ^ g \<longrightarrow> h \<le> g) \<and>
              ring_ready ans (2 ^ h) s ring s' \<and>
              vm (snd (hs_ring_destroy ans (Some ring) s')) = vm s)))"

lemma destroy_undoes:
  assumes "honest ans n s" and "ring_ready ans n s ring s'"
  shows "vm (snd (hs_ring_destroy ans (Some ring) s')) = vm s"
proof -
  have b: "0 < rbase ring" and free: "\<And>a. rbase ring \<le> a \<and> a < rbase ring + 2 * n \<Longrightarrow> vm s a = Unmapped"
    and un: "munmap_fails ans = None" and n: "rsize ring = n"
    and out: "\<And>a. \<not> (rbase ring \<le> a \<and> a < rbase ring + 2 * n) \<Longrightarrow> vm s' a = vm s a"
    using assms by (auto simp: honest_def ring_ready_def not_le not_less)
  have "vm (fill_vm (rbase ring) (n * 2) (\<lambda>_. Unmapped) s') = vm s"
    by (rule clear_vm [OF free out]) auto
  then show ?thesis using b by (simp add: hs_ring_destroy_def os_munmap_def un n)
qed

lemma ring_map_promise:
  assumes "unat ps = 2 ^ p" and "p \<le> 32" and "requested \<le> RING_MAX_SIZE"
    and "honest ans (unat (ring_size ps requested)) s" and "vm s1 = vm s" and "descs s1 = (descs s)(fd := Some file)"
    and "shm_names s1 \<subseteq> shm_names s" and "descs s fd = None"
  shows "\<exists>res. ring_map ans fd file (unat (ring_size ps requested)) s1 = Some res \<and>
    ring_promise ans p requested (mapping_error ans) s res"
proof -
  have "unat requested \<le> 2 ^ 32"
    using assms(3) by (simp add: RING_MAX_SIZE_def word_le_nat_alt)
  then obtain h where h: "unat (ring_size ps requested) = 2 ^ h" "p \<le> h" "h \<le> 32" "unat requested \<le> 2 ^ h"
    "\<And>g. p \<le> g \<Longrightarrow> unat requested \<le> 2 ^ g \<Longrightarrow> h \<le> g"
    using ring_size_correct [OF assms(1,2)] by meson
  have hs: "honest ans (2 ^ h) s" using assms(4) h(1) by simp
  then have hs1: "honest ans (2 ^ h) s1" by (simp add: honest_def assms(5))
  have close: "(descs s1)(fd := None) = descs s" using assms(6,8) by (auto simp: fun_eq_iff)
  have ready: "ring_ready ans (2 ^ h) s ring t" if "ring_ready ans (2 ^ h) s1 ring t" for ring t
    using that by (simp add: ring_ready_def assms(5))
  obtain r out s' where res: "ring_map ans fd file (2 ^ h) s1 = Some (r, out, s')"
      "descs s' = descs s" "shm_names s' \<subseteq> shm_names s"
      "case mapping_error ans of Some e \<Rightarrow> r = -1 \<and> out = None \<and> errno s' = e \<and> vm s' = vm s
       | None \<Rightarrow> r = 0 \<and> (\<exists>ring. out = Some ring \<and> ring_ready ans (2 ^ h) s ring s')"
    using ring_map_correct [OF _ hs1, of fd "file"] ready assms(5,7) unfolding close
    by (auto split: option.splits)
  have "ring_promise ans p requested (mapping_error ans) s (r, out, s')"
  proof (cases "mapping_error ans")
    case None
    then obtain ring where "r = 0" "out = Some ring" "ring_ready ans (2 ^ h) s ring s'" using res(4) by auto
    then show ?thesis using None h(2-5) res(2,3) destroy_undoes [OF hs] by (auto simp: ring_promise_def)
  qed (use res in \<open>simp add: ring_promise_def\<close>)
  then show ?thesis using res(1) h(1) by simp
qed

text \<open>The descriptor: from \<open>memfd_create\<close>, or from the loop over names.\<close>

definition ring_error :: "answers \<Rightarrow> int + nat \<times> nat \<Rightarrow> u64 \<Rightarrow> int option" where
  "ring_error ans opened requested =
     (if RING_MAX_SIZE < requested then Some ENOMEM
      else case opened of Inl e \<Rightarrow> Some e | Inr _ \<Rightarrow> mapping_error ans)"

lemma page_size_cases:
  assumes "cached_page_size s = 0 \<or> cached_page_size s = sc_pagesize ans"
  obtains t where "hs_page_size ans s = (sc_pagesize ans, t)" "descs t = descs s" "vm t = vm s"
    "shm_names t = shm_names s"
  by (rule that [of "snd (hs_page_size ans s)"]) (use assms in \<open>auto simp: hs_page_size_def Let_def\<close>)

text \<open>C40: Creating a ring never faults and, whatever call fails, reports the first failure (\<open>ENOMEM\<close> for a
  request above the limit, otherwise the \<open>errno\<close> of the failing call, not the one of a cleanup), leaves
  \<open>*out\<close>, the open descriptors, the shared memory names and the address space as they were; on
  success it returns the smallest power of two of bytes that covers the request and a page, whose two
  copies alias each other byte for byte and read zero, with the descriptor closed and no other address
  changed, and destroying the ring restores the address space.  For the Linux and the POSIX file; the
  kernel's own promise (free addresses, unused descriptors, a working \<open>munmap\<close>) is the hypothesis.\<close>

theorem ring_create_correct:
  assumes page: "unat (sc_pagesize ans) = 2 ^ p" "p \<le> 32"
    and cache: "cached_page_size s = 0 \<or> cached_page_size s = sc_pagesize ans"
    and kernel: "honest ans (unat (ring_size (sc_pagesize ans) requested)) s"
    and fresh: "\<And>fd f. memfd = Inr (fd, f) \<Longrightarrow> descs s fd = None"
      "\<And>k name fd f. shm k name = Inr (fd, f) \<Longrightarrow> descs s fd = None"
  shows "(\<exists>res. hs_ring_create ans memfd requested s = Some res \<and>
       ring_promise ans p requested (ring_error ans memfd requested) s res) \<and>
    (\<exists>res opened t. hs_ring_create_posix ans shm pid requested s = Some res \<and>
       shm_attempt shm pid 0 (snd (hs_page_size ans s)) = Some (opened, t) \<and>
       ring_promise ans p requested (ring_error ans opened requested) s res)"
proof -
  obtain u where u: "hs_page_size ans s = (sc_pagesize ans, u)" "descs u = descs s" "vm u = vm s"
    "shm_names u = shm_names s" using page_size_cases [OF cache] .
  obtain opened t where t: "shm_attempt shm pid 0 u = Some (opened, t)" "shm_names t \<subseteq> shm_names s" "vm t = vm s"
      "case opened of Inl e \<Rightarrow> errno t = e \<and> descs t = descs s
        | Inr (fd, f) \<Rightarrow> (\<exists>k name. shm k name = Inr (fd, f)) \<and> descs t = (descs s)(fd \<mapsto> f)"
    using shm_attempt_correct [of shm pid 0 u] unfolding u(2-4) by blast
  have map: "\<exists>res. ring_map ans fd f (unat (ring_size (sc_pagesize ans) requested)) s1 = Some res \<and>
      ring_promise ans p requested (mapping_error ans) s res"
    if "\<not> RING_MAX_SIZE < requested" "vm s1 = vm s" "descs s1 = (descs s)(fd := Some f)"
      "shm_names s1 \<subseteq> shm_names s" "descs s fd = None" for fd f s1
    using ring_map_promise [OF page _ kernel that(2-5)] that(1) by (simp add: not_less)
  have fail: "ring_promise ans p requested (Some e) s (-1, None, s')"
    if "descs s' = descs s" "shm_names s' \<subseteq> shm_names s" "vm s' = vm s" "errno s' = e" for e s'
    using that by (simp add: ring_promise_def)
  have linux: "\<exists>res. hs_ring_create ans memfd requested s = Some res \<and>
       ring_promise ans p requested (ring_error ans memfd requested) s res"
  proof (cases memfd)
    case (Inl e)
    then show ?thesis using u fail by (auto simp: hs_ring_create_def ring_error_def Let_def)
  next
    case (Inr x)
    obtain fd f where x: "x = (fd, f)" by (cases x)
    show ?thesis
    proof (cases "RING_MAX_SIZE < requested")
      case True
      then show ?thesis using u fail by (auto simp: hs_ring_create_def ring_error_def Let_def)
    next
      case False
      then show ?thesis using map [of "u\<lparr> descs := (descs u)(fd \<mapsto> f) \<rparr>" fd f] u fresh(1) Inr x
        by (simp add: hs_ring_create_def ring_error_def Let_def)
    qed
  qed
  have "\<exists>res. hs_ring_create_posix ans shm pid requested s = Some res \<and>
      ring_promise ans p requested (ring_error ans opened requested) s res"
  proof (cases "RING_MAX_SIZE < requested")
    case True
    then show ?thesis using u fail by (auto simp: hs_ring_create_posix_def ring_error_def Let_def)
  next
    case False
    show ?thesis
    proof (cases opened)
      case (Inl e)
      then show ?thesis using False t u fail [of t e] by (simp add: hs_ring_create_posix_def ring_error_def Let_def)
    next
      case (Inr x)
      obtain fd f where x: "x = (fd, f)" by (cases x)
      then have "descs s fd = None" "descs t = (descs s)(fd \<mapsto> f)" using t(4) Inr fresh(2) by auto
      then show ?thesis using False map [of t fd f] t u Inr x
        by (simp add: hs_ring_create_posix_def ring_error_def Let_def)
    qed
  qed
  then show ?thesis using linux t(1) u(1) by auto
qed

text \<open>A request of 5000 bytes on pages of 4096: both files map 8192 bytes twice at \<open>0x10000\<close>; the POSIX
  file meets one name that is taken.\<close>

definition sample_os :: os where
  "sample_os = \<lparr> descs = (\<lambda>_. None), fsize = (\<lambda>_. 0), content = (\<lambda>_ _. 7), vm = (\<lambda>_. Unmapped),
     errno = 0, cached_page_size = 0, shm_counter = 0, shm_names = {} \<rparr>"

definition sample_answers :: answers where
  "sample_answers = \<lparr> sc_pagesize = 4096, ftruncate_fails = None, reserve = Inr 65536, map1_fails = None,
     map2_fails = None, close_fails = None, munmap_fails = None \<rparr>"

definition sample_shm :: "nat \<Rightarrow> u8 list \<Rightarrow> int + nat \<times> nat" where
  "sample_shm k name = (if k = 0 then Inl EEXIST else Inr (3, 9))"

theorem ring_create_correct_witness:
  "(\<exists>res. hs_ring_create sample_answers (Inr (3, 9)) 5000 sample_os = Some res \<and>
       ring_promise sample_answers 12 5000 (ring_error sample_answers (Inr (3, 9)) 5000) sample_os res) \<and>
    (\<exists>res opened t. hs_ring_create_posix sample_answers sample_shm 77 5000 sample_os = Some res \<and>
       shm_attempt sample_shm 77 0 (snd (hs_page_size sample_answers sample_os)) = Some (opened, t) \<and>
       ring_promise sample_answers 12 5000 (ring_error sample_answers opened 5000) sample_os res)"
  by (rule ring_create_correct)
    (auto simp: sample_answers_def sample_os_def sample_shm_def honest_def split: if_splits)

end
