(* ===== verification/Http1_Send.thy ===== *)
theory Http1_Send
  imports Prelude
begin

text \<open>
  \<open>wireform-http1/cbits/http1_send.c\<close>: sending a buffer, and sending a range of a file, on a socket.
  The kernel is a state: the bytes that went out, and the answers it will give, in order; each says
  how many bytes it moves at most and whether the call fails.  An empty list of answers is a call that
  has not returned yet, so \<open>None\<close> means blocked (or, for a buffer access, a fault).  Modelled are the
  POSIX paths: \<open>send\<close>, and \<open>sendfile\<close> as Linux has it, as the BSDs and Darwin have it (a failing call
  may have sent something) and as \<open>pread\<close> and \<open>send\<close>.
\<close>

type_synonym answer = "int option \<times> nat"

record sock =
  wire :: bytes
  answers :: "answer list"

definition EINTR :: int where "EINTR = 4"
definition EINVAL :: int where "EINVAL = 22"

definition ready :: "answer \<Rightarrow> bool" where
  "ready a \<longleftrightarrow> fst a \<noteq> Some EINTR"

text \<open>\<open>send\<close> takes a beginning of the data, or fails having taken nothing.\<close>

definition sock_send :: "bytes \<Rightarrow> sock \<Rightarrow> ((int + nat) \<times> sock) option" where
  "sock_send data s =
     (case answers s of
        [] \<Rightarrow> None
      | (Some e, n) # r \<Rightarrow> Some (Inl e, s\<lparr> answers := r \<rparr>)
      | (None, n) # r \<Rightarrow>
          let n = min n (length data)
          in Some (Inr n, s\<lparr> wire := wire s @ take n data, answers := r \<rparr>))"

text \<open>\<open>do { n = send(...); } while (n < 0 && errno == EINTR);\<close>\<close>

function send_retry :: "bytes \<Rightarrow> sock \<Rightarrow> ((int + nat) \<times> sock) option" where
  "send_retry data s =
     (case sock_send data s of
        None \<Rightarrow> None
      | Some (Inl e, s) \<Rightarrow> if e = EINTR then send_retry data s else Some (Inl e, s)
      | Some (Inr n, s) \<Rightarrow> Some (Inr n, s))"
  by auto

termination
  by (relation "measure (\<lambda>(data, s). length (answers s))")
    (auto simp: sock_send_def Let_def split: list.splits option.splits)

declare send_retry.simps [simp del]

definition hs_http1_send_more :: "bytes \<Rightarrow> nat \<Rightarrow> sock \<Rightarrow> (int \<times> sock) option" where
  "hs_http1_send_more buf len s = do {
     data \<leftarrow> load_block buf 0 len;
     (r, s) \<leftarrow> send_retry data s;
     Some (case r of Inl e \<Rightarrow> -e | Inr n \<Rightarrow> int n, s)
   }"

function send_all_loop :: "bytes \<Rightarrow> nat \<Rightarrow> nat \<Rightarrow> sock \<Rightarrow> (int \<times> sock) option" where
  "send_all_loop buf len remaining s =
     (if 0 < remaining then
        case load_block buf (len - remaining) remaining of
          None \<Rightarrow> None
        | Some data \<Rightarrow>
            (case send_retry data s of
               None \<Rightarrow> None
             | Some (Inl e, s) \<Rightarrow>
                 if remaining < len then Some (int (len - remaining), s) else Some (-e, s)
             | Some (Inr n, s) \<Rightarrow>
                 if n = 0 then Some (int (len - remaining), s)
                 else send_all_loop buf len (remaining - n) s)
      else Some (int (len - remaining), s))"
  by auto

termination
  by (relation "measure (\<lambda>(buf, len, remaining, s). remaining)") auto

declare send_all_loop.simps [simp del]

definition hs_http1_send_all :: "bytes \<Rightarrow> nat \<Rightarrow> sock \<Rightarrow> (int \<times> sock) option" where
  "hs_http1_send_all buf len s = send_all_loop buf len len s"

subsection \<open>Sending a file\<close>

datatype variant = Linux | Darwin | FreeBSD | PREAD

text \<open>What is left of the file, and one call of the kernel's primitives.\<close>

definition file_range :: "bytes \<Rightarrow> int \<Rightarrow> nat \<Rightarrow> bytes" where
  "file_range contents offset count = take count (drop (nat offset) contents)"

definition os_sendfile :: "bytes \<Rightarrow> int \<Rightarrow> nat \<Rightarrow> sock \<Rightarrow> ((int option \<times> nat) \<times> sock) option" where
  "os_sendfile contents offset count s =
     (case answers s of
        [] \<Rightarrow> None
      | (err, n) # r \<Rightarrow>
          if offset < 0 then Some ((Some EINVAL, 0), s\<lparr> answers := r \<rparr>)
          else let data = take n (file_range contents offset count)
               in Some ((err, length data), s\<lparr> wire := wire s @ data, answers := r \<rparr>))"

text \<open>On Linux a call that fails has moved nothing.\<close>

definition linux_sendfile :: "bytes \<Rightarrow> int \<Rightarrow> nat \<Rightarrow> sock \<Rightarrow> ((int + nat) \<times> sock) option" where
  "linux_sendfile contents offset count s =
     (case answers s of
        [] \<Rightarrow> None
      | (Some e, n) # r \<Rightarrow> Some (Inl (if offset < 0 then EINVAL else e), s\<lparr> answers := r \<rparr>)
      | (None, n) # r \<Rightarrow>
          if offset < 0 then Some (Inl EINVAL, s\<lparr> answers := r \<rparr>)
          else let data = take n (file_range contents offset count)
               in Some (Inr (length data), s\<lparr> wire := wire s @ data, answers := r \<rparr>))"

definition os_pread :: "bytes \<Rightarrow> int \<Rightarrow> nat \<Rightarrow> sock \<Rightarrow> ((int + bytes) \<times> sock) option" where
  "os_pread contents offset want s =
     (case answers s of
        [] \<Rightarrow> None
      | (Some e, n) # r \<Rightarrow> Some (Inl (if offset < 0 then EINVAL else e), s\<lparr> answers := r \<rparr>)
      | (None, n) # r \<Rightarrow>
          if offset < 0 then Some (Inl EINVAL, s\<lparr> answers := r \<rparr>)
          else Some (Inr (take n (file_range contents offset want)), s\<lparr> answers := r \<rparr>))"

function linux_retry :: "bytes \<Rightarrow> int \<Rightarrow> nat \<Rightarrow> sock \<Rightarrow> ((int + nat) \<times> sock) option" where
  "linux_retry contents offset count s =
     (case linux_sendfile contents offset count s of
        None \<Rightarrow> None
      | Some (Inl e, s) \<Rightarrow> if e = EINTR then linux_retry contents offset count s else Some (Inl e, s)
      | Some (Inr n, s) \<Rightarrow> Some (Inr n, s))"
  by auto

termination
  by (relation "measure (\<lambda>(contents, offset, count, s). length (answers s))")
    (auto simp: linux_sendfile_def Let_def split: list.splits option.splits if_splits)

function bsd_loop :: "bytes \<Rightarrow> int \<Rightarrow> nat \<Rightarrow> sock \<Rightarrow> (int \<times> sock) option" where
  "bsd_loop contents offset count s =
     (case os_sendfile contents offset count s of
        None \<Rightarrow> None
      | Some ((err, sbytes), s) \<Rightarrow>
          (case err of
             None \<Rightarrow> Some (int sbytes, s)
           | Some e \<Rightarrow>
               if 0 < sbytes then Some (int sbytes, s)
               else if e \<noteq> EINTR then Some (-e, s)
               else bsd_loop contents offset count s))"
  by auto

termination
  by (relation "measure (\<lambda>(contents, offset, count, s). length (answers s))")
    (auto simp: os_sendfile_def Let_def split: list.splits option.splits if_splits)

function pread_retry :: "bytes \<Rightarrow> int \<Rightarrow> nat \<Rightarrow> sock \<Rightarrow> ((int + bytes) \<times> sock) option" where
  "pread_retry contents offset want s =
     (case os_pread contents offset want s of
        None \<Rightarrow> None
      | Some (Inl e, s) \<Rightarrow> if e = EINTR then pread_retry contents offset want s else Some (Inl e, s)
      | Some (Inr bs, s) \<Rightarrow> Some (Inr bs, s))"
  by auto

termination
  by (relation "measure (\<lambda>(contents, offset, want, s). length (answers s))")
    (auto simp: os_pread_def Let_def split: list.splits option.splits if_splits)

declare linux_retry.simps [simp del] bsd_loop.simps [simp del] pread_retry.simps [simp del]

function pread_send_loop :: "bytes \<Rightarrow> nat \<Rightarrow> nat \<Rightarrow> sock \<Rightarrow> (int \<times> sock) option" where
  "pread_send_loop buf r sent s =
     (if sent < r then
        case load_block buf sent (r - sent) of
          None \<Rightarrow> None
        | Some data \<Rightarrow>
            (case send_retry data s of
               None \<Rightarrow> None
             | Some (Inl e, s) \<Rightarrow> Some (if 0 < sent then int sent else -e, s)
             | Some (Inr n, s) \<Rightarrow>
                 if n = 0 then Some (int sent, s) else pread_send_loop buf r (sent + n) s)
      else Some (int sent, s))"
  by auto

termination
  by (relation "measure (\<lambda>(buf, r, sent, s). r - sent)") auto

declare pread_send_loop.simps [simp del]

definition PREAD_BUF :: nat where
  "PREAD_BUF = 65536"

definition INT64_MAX :: nat where
  "INT64_MAX = 2 ^ 63 - 1"

definition hs_http1_sendfile ::
  "variant \<Rightarrow> bytes \<Rightarrow> int \<Rightarrow> nat \<Rightarrow> sock \<Rightarrow> (int \<times> sock) option" where
  "hs_http1_sendfile v contents offset count s =
     (if count = 0 then Some (0, s)
      else case v of
        Linux \<Rightarrow>
          (let count = (if count > 0x7ffff000 then 0x7ffff000 else count)
           in map_option (\<lambda>(r, s). (case r of Inl e \<Rightarrow> -e | Inr n \<Rightarrow> int n, s))
                (linux_retry contents offset count s))
      | Darwin \<Rightarrow> bsd_loop contents offset (if count > INT64_MAX then INT64_MAX else count) s
      | FreeBSD \<Rightarrow> bsd_loop contents offset count s
      | PREAD \<Rightarrow>
          (let buf = replicate PREAD_BUF 0;
               want = (if count < length buf then count else length buf)
           in do {
             (r, s) \<leftarrow> pread_retry contents offset want s;
             (case r of
                Inl e \<Rightarrow> Some (-e, s)
              | Inr bs \<Rightarrow>
                  if bs = [] then Some (0, s)
                  else do {
                    buf \<leftarrow> store_block buf 0 bs;
                    pread_send_loop buf (length bs) 0 s
                  })
           }))"

subsection \<open>One call\<close>

lemma send_retry_spec:
  "case send_retry data s of
     None \<Rightarrow> filter ready (answers s) = []
   | Some (r, s') \<Rightarrow> \<exists>skip a. answers s = skip @ a # answers s' \<and> filter ready skip = [] \<and> ready a \<and>
       (case r of
          Inl e \<Rightarrow> fst a = Some e \<and> wire s' = wire s
        | Inr n \<Rightarrow> fst a = None \<and> n = min (snd a) (length data) \<and> wire s' = wire s @ take n data)"
proof (induction data s rule: send_retry.induct)
  case (1 data s)
  show ?case
  proof (cases "answers s")
    case Nil
    then show ?thesis by (subst send_retry.simps) (simp add: sock_send_def)
  next
    case (Cons a rest)
    obtain err n where a: "a = (err, n)" by (cases a)
    show ?thesis
    proof (cases err)
      case None
      then have "send_retry data s = Some (Inr (min n (length data)),
          s\<lparr> wire := wire s @ take (min n (length data)) data, answers := rest \<rparr>)"
        using Cons a by (subst send_retry.simps) (simp add: sock_send_def Let_def)
      then show ?thesis using Cons a None
        by (auto simp: ready_def intro!: exI [of _ "[]"])
    next
      case (Some e)
      then have call: "sock_send data s = Some (Inl e, s\<lparr> answers := rest \<rparr>)"
        using Cons a by (simp add: sock_send_def)
      show ?thesis
      proof (cases "e = EINTR")
        case True
        then have eq: "send_retry data s = send_retry data (s\<lparr> answers := rest \<rparr>)"
          using call by (subst send_retry.simps) simp
        have skip: "\<not> ready a" using a Some True by (simp add: ready_def)
        show ?thesis using 1 [OF call refl refl True] skip Cons unfolding eq
          by (auto split: option.splits sum.splits) (metis append_Cons filter.simps(2))+
      next
        case False
        then have "send_retry data s = Some (Inl e, s\<lparr> answers := rest \<rparr>)"
          using call by (subst send_retry.simps) simp
        then show ?thesis using Cons a Some False by (auto simp: ready_def intro!: exI [of _ "[]"])
      qed
    qed
  qed
qed

text \<open>The loop ended at an answer that was not progress.\<close>

definition stopped :: "answer list \<Rightarrow> bool" where
  "stopped used \<longleftrightarrow> (\<exists>u a. used = u @ [a] \<and> ready a \<and> (fst a \<noteq> None \<or> snd a = 0))"

definition sent_some :: "bytes \<Rightarrow> nat \<Rightarrow> nat \<Rightarrow> sock \<Rightarrow> int \<Rightarrow> sock \<Rightarrow> bool" where
  "sent_some buf len remaining s r s' \<longleftrightarrow>
     (\<exists>used n. answers s = used @ answers s' \<and> n \<le> remaining \<and> r = int (len - remaining + n) \<and>
        wire s' = wire s @ take n (drop (len - remaining) buf) \<and>
        (n = remaining \<or> stopped used \<and> (0 < len - remaining + n \<or> (None, 0) \<in> set used)))"

definition sent_none :: "sock \<Rightarrow> int \<Rightarrow> sock \<Rightarrow> bool" where
  "sent_none s r s' \<longleftrightarrow>
     (\<exists>used e n. answers s = used @ (Some e, n) # answers s' \<and> e \<noteq> EINTR \<and> r = -e \<and> wire s' = wire s)"

lemma stopped_append: "stopped used \<Longrightarrow> stopped (pre @ used)"
  unfolding stopped_def by (metis append.assoc)

lemma take_split: "take m (drop i b) @ take n (drop (i + m) b) = take (m + n) (drop i b)"
  by (simp add: take_add add.commute)

lemma send_all_loop_spec:
  "remaining \<le> len \<Longrightarrow> len \<le> length buf \<Longrightarrow>
   (case send_all_loop buf len remaining s of
      None \<Rightarrow> length (filter ready (answers s)) < remaining
    | Some (r, s') \<Rightarrow> sent_some buf len remaining s r s' \<or> remaining = len \<and> sent_none s r s')"
proof (induction buf len remaining s rule: send_all_loop.induct)
  case (1 buf len remaining s)
  show ?case
  proof (cases "remaining = 0")
    case True
    then have "send_all_loop buf len remaining s = Some (int len, s)"
      by (subst send_all_loop.simps) simp
    then show ?thesis using True by (auto simp: sent_some_def)
  next
    case False
    define data where "data = take remaining (drop (len - remaining) buf)"
    have ld: "load_block buf (len - remaining) remaining = Some data"
      using "1.prems" by (simp add: load_block_in data_def)
    have dlen: "length data = remaining" using "1.prems" by (simp add: data_def)
    have unfold: "send_all_loop buf len remaining s =
        (case send_retry data s of
           None \<Rightarrow> None
         | Some (Inl e, s) \<Rightarrow> if remaining < len then Some (int (len - remaining), s) else Some (-e, s)
         | Some (Inr n, s) \<Rightarrow>
             if n = 0 then Some (int (len - remaining), s) else send_all_loop buf len (remaining - n) s)"
      using False ld by (subst send_all_loop.simps) simp
    show ?thesis
    proof (cases "send_retry data s")
      case None
      then show ?thesis using send_retry_spec [of s data] False unfold by simp
    next
      case (Some p)
      obtain x t where p: "p = (x, t)" by (cases p)
      obtain skip a where use: "answers s = skip @ a # answers t" "filter ready skip = []" "ready a"
        and x: "case x of Inl e \<Rightarrow> fst a = Some e \<and> wire t = wire s
          | Inr n \<Rightarrow> fst a = None \<and> n = min (snd a) (length data) \<and> wire t = wire s @ take n data"
        using send_retry_spec [of s data] Some p by auto
      have stop: "sent_some buf len remaining s (int (len - remaining)) t"
        if "wire t = wire s" "fst a \<noteq> None \<and> remaining < len \<or> a = (None, 0)"
        unfolding sent_some_def stopped_def using use that
        by (intro exI [of _ "skip @ [a]"] exI [of _ 0]) auto
      show ?thesis
      proof (cases x)
        case (Inl e)
        then have a: "fst a = Some e" "wire t = wire s" using x by simp_all
        have "e \<noteq> EINTR" using use(3) a(1) by (simp add: ready_def)
        then have "sent_none s (-e) t"
          unfolding sent_none_def using use(1) a by (metis prod.collapse)
        then show ?thesis using unfold Some p Inl stop a "1.prems" by simp
      next
        case (Inr n)
        then have a: "fst a = None" "n = min (snd a) remaining" "wire t = wire s @ take n data"
          using x dlen by simp_all
        show ?thesis
        proof (cases "n = 0")
          case True
          then have "a = (None, 0)" using a False by (cases a) (simp add: min_def split: if_splits)
          then show ?thesis using unfold Some p Inr stop a True by simp
        next
          case n: False
          have le: "n \<le> remaining" using a(2) by simp
          have eq: "send_all_loop buf len remaining s = send_all_loop buf len (remaining - n) t"
            using unfold Some p Inr n by simp
          have IH: "case send_all_loop buf len (remaining - n) t of
              None \<Rightarrow> length (filter ready (answers t)) < remaining - n
            | Some (r, s') \<Rightarrow> sent_some buf len (remaining - n) t r s' \<or> remaining - n = len \<and> sent_none t r s'"
            using "1.IH" [OF _ ld] Some p Inr n False "1.prems" by auto
          have pos: "len - (remaining - n) = len - remaining + n" using le "1.prems"(1) by simp
          have more: "sent_some buf len remaining s r s'" if sub: "sent_some buf len (remaining - n) t r s'" for r s'
          proof -
            obtain used m where m: "answers t = used @ answers s'" "m \<le> remaining - n"
              "r = int (len - remaining + n + m)" "wire s' = wire t @ take m (drop (len - remaining + n) buf)"
              "m = remaining - n \<or> stopped used"
              using sub unfolding sent_some_def pos by blast
            have "take n data = take n (drop (len - remaining) buf)" using le by (simp add: data_def)
            then have "wire s' = wire s @ take (n + m) (drop (len - remaining) buf)"
              using m(4) a(3) by (simp add: take_split)
            moreover have "answers s = (skip @ [a] @ used) @ answers s'" using use(1) m(1) by simp
            moreover have "n + m = remaining \<or> stopped (skip @ [a] @ used) \<and> 0 < len - remaining + (n + m)"
              using m(5) le n stopped_append [of used "skip @ [a]"] by auto
            moreover have "n + m \<le> remaining" "r = int (len - remaining + (n + m))" using m(2,3) le by simp_all
            ultimately show ?thesis unfolding sent_some_def by blast
          qed
          have cnt: "length (filter ready (answers s)) = Suc (length (filter ready (answers t)))"
            using use by simp
          show ?thesis using IH more cnt n le "1.prems"(1) unfolding eq by (auto split: option.splits)
        qed
      qed
    qed
  qed
qed

lemma pread_send_is_send_all:
  "sent \<le> r \<Longrightarrow> pread_send_loop buf r sent s = send_all_loop buf r (r - sent) s"
proof (induction buf r sent s rule: pread_send_loop.induct)
  case (1 buf r sent s)
  show ?case
  proof (cases "sent < r")
    case False
    then show ?thesis using "1.prems" by (subst pread_send_loop.simps, subst send_all_loop.simps) simp
  next
    case True
    then have pos: "r - (r - sent) = sent" by simp
    show ?thesis
    proof (cases "load_block buf sent (r - sent)")
      case None
      then show ?thesis using True by (subst pread_send_loop.simps, subst send_all_loop.simps) (simp add: pos)
    next
      case (Some data)
      have rec: "pread_send_loop buf r (sent + n) t = send_all_loop buf r (r - sent - n) t"
        if "send_retry data s = Some (Inr n, t)" "n \<noteq> 0" for n t
      proof -
        have "n \<le> length data" using send_retry_spec [of s data] that(1) by auto
        then have "sent + n \<le> r" using load_block_length [OF Some] True by simp
        then show ?thesis using "1.IH" [OF True Some that(1) refl refl that(2)] by simp
      qed
      show ?thesis using True Some rec
        by (subst pread_send_loop.simps, subst send_all_loop.simps) (auto simp: pos split: option.splits sum.splits)
    qed
  qed
qed

subsection \<open>Files\<close>

text \<open>What a transfer call may report: a beginning of the range, already on the wire, or an error with
  nothing sent.\<close>

definition moved :: "bytes \<Rightarrow> int \<Rightarrow> nat \<Rightarrow> sock \<Rightarrow> int \<Rightarrow> sock \<Rightarrow> bool" where
  "moved contents offset count s r s' \<longleftrightarrow>
     (\<exists>used n. answers s = used @ answers s' \<and> used \<noteq> [] \<and> 0 \<le> offset \<and>
        n \<le> length (file_range contents offset count) \<and> r = int n \<and>
        wire s' = wire s @ take n (file_range contents offset count) \<and>
        (n = 0 \<longrightarrow> file_range contents offset count = [] \<or> (None, 0) \<in> set used))"

definition refused :: "int \<Rightarrow> sock \<Rightarrow> int \<Rightarrow> sock \<Rightarrow> bool" where
  "refused offset s r s' \<longleftrightarrow>
     (\<exists>used e. answers s = used @ answers s' \<and> r = -e \<and> wire s' = wire s \<and>
        (e \<in> {e. \<exists>n. (Some e, n) \<in> set used} \<or> e = EINVAL \<and> offset < 0))"

lemma moved_skip:
  "answers s = a # answers t \<Longrightarrow> wire t = wire s \<Longrightarrow> moved contents offset count t r s' \<Longrightarrow> moved contents offset count s r s'"
proof -
  assume a: "answers s = a # answers t" "wire t = wire s" and "moved contents offset count t r s'"
  then obtain used n where "answers t = used @ answers s'" "0 \<le> offset" "r = int n"
    "n \<le> length (file_range contents offset count)" "wire s' = wire t @ take n (file_range contents offset count)"
    "n = 0 \<longrightarrow> file_range contents offset count = [] \<or> (None, 0) \<in> set used" unfolding moved_def by blast
  then show ?thesis unfolding moved_def using a by (intro exI [of _ "a # used"] exI [of _ n]) auto
qed

lemma refused_skip:
  "answers s = a # answers t \<Longrightarrow> wire t = wire s \<Longrightarrow> refused offset t r s' \<Longrightarrow> refused offset s r s'"
proof -
  assume a: "answers s = a # answers t" "wire t = wire s" and "refused offset t r s'"
  then obtain used e where "answers t = used @ answers s'" "r = -e" "wire s' = wire t"
    "e \<in> {e. \<exists>n. (Some e, n) \<in> set used} \<or> e = EINVAL \<and> offset < 0" unfolding refused_def by blast
  then show ?thesis unfolding refused_def using a by (intro exI [of _ "a # used"] exI [of _ e]) auto
qed

lemma linux_retry_spec:
  "case linux_retry contents offset count s of
     None \<Rightarrow> filter ready (answers s) = []
   | Some (Inl e, s') \<Rightarrow> refused offset s (-e) s'
   | Some (Inr n, s') \<Rightarrow> moved contents offset count s (int n) s'"
proof (induction contents offset count s rule: linux_retry.induct)
  case (1 contents offset count s)
  show ?case
  proof (cases "answers s")
    case Nil
    then show ?thesis by (subst linux_retry.simps) (simp add: linux_sendfile_def)
  next
    case (Cons a rest)
    obtain err n where a: "a = (err, n)" by (cases a)
    define t where "t = s\<lparr> answers := rest \<rparr>"
    have t: "answers s = a # answers t" "wire t = wire s" using Cons by (simp_all add: t_def)
    consider (bad) e where "linux_sendfile contents offset count s = Some (Inl e, t)" "err = Some e \<or> e = EINVAL \<and> offset < 0"
      | (good) "0 \<le> offset" "err = None" using Cons a by (cases err; cases "offset < 0") (simp_all add: linux_sendfile_def t_def)
    then show ?thesis
    proof cases
      case bad
      show ?thesis
      proof (cases "e = EINTR")
        case True
        then have eq: "linux_retry contents offset count s = linux_retry contents offset count t"
          using bad by (subst linux_retry.simps) simp
        have "\<not> ready a" using bad(2) True a by (auto simp: ready_def EINTR_def EINVAL_def)
        then show ?thesis using 1 [OF bad(1) refl refl True] t moved_skip [OF t] refused_skip [OF t]
          unfolding eq by (auto split: option.splits sum.splits)
      next
        case False
        then have "linux_retry contents offset count s = Some (Inl e, t)"
          using bad by (subst linux_retry.simps) simp
        moreover have "refused offset s (-e) t"
          unfolding refused_def using t bad(2) a by (intro exI [of _ "[a]"] exI [of _ e]) auto
        ultimately show ?thesis by simp
      qed
    next
      case good
      define data where "data = take n (file_range contents offset count)"
      define u where "u = t\<lparr> wire := wire s @ data \<rparr>"
      have "linux_retry contents offset count s = Some (Inr (length data), u)"
        using Cons a good by (subst linux_retry.simps)
          (simp add: linux_sendfile_def Let_def t_def u_def data_def)
      moreover have "moved contents offset count s (int (length data)) u"
        unfolding moved_def using t good a
        by (intro exI [of _ "[a]"] exI [of _ "length data"]) (auto simp: u_def data_def min_def)
      ultimately show ?thesis by simp
    qed
  qed
qed

lemma pread_retry_spec:
  "case pread_retry contents offset want s of
     None \<Rightarrow> filter ready (answers s) = []
   | Some (Inl e, s') \<Rightarrow> refused offset s (-e) s'
   | Some (Inr bs, s') \<Rightarrow> \<exists>used n. answers s = used @ answers s' \<and> used \<noteq> [] \<and> 0 \<le> offset \<and> wire s' = wire s \<and>
       bs = take n (file_range contents offset want) \<and> (n = 0 \<longrightarrow> (None, 0) \<in> set used) \<and>
       length (filter ready used) = 1"
proof (induction contents offset want s rule: pread_retry.induct)
  case (1 contents offset want s)
  show ?case
  proof (cases "answers s")
    case Nil
    then show ?thesis by (subst pread_retry.simps) (simp add: os_pread_def)
  next
    case (Cons a rest)
    obtain err n where a: "a = (err, n)" by (cases a)
    define t where "t = s\<lparr> answers := rest \<rparr>"
    have t: "answers s = a # answers t" "wire t = wire s" using Cons by (simp_all add: t_def)
    consider (bad) e where "os_pread contents offset want s = Some (Inl e, t)" "err = Some e \<or> e = EINVAL \<and> offset < 0"
      | (good) "0 \<le> offset" "err = None" using Cons a by (cases err; cases "offset < 0") (simp_all add: os_pread_def t_def)
    then show ?thesis
    proof cases
      case bad
      show ?thesis
      proof (cases "e = EINTR")
        case True
        then have eq: "pread_retry contents offset want s = pread_retry contents offset want t"
          using bad by (subst pread_retry.simps) simp
        have skip: "\<not> ready a" using bad(2) True a by (auto simp: ready_def EINTR_def EINVAL_def)
        have IH: "case pread_retry contents offset want t of
           None \<Rightarrow> filter ready (answers t) = []
         | Some (Inl e, s') \<Rightarrow> refused offset t (-e) s'
         | Some (Inr bs, s') \<Rightarrow> \<exists>used n. answers t = used @ answers s' \<and> used \<noteq> [] \<and> 0 \<le> offset \<and> wire s' = wire t \<and>
             bs = take n (file_range contents offset want) \<and> (n = 0 \<longrightarrow> (None, 0) \<in> set used) \<and>
             length (filter ready used) = 1"
          using 1 [OF bad(1) refl refl True] .
        show ?thesis
        proof (cases "pread_retry contents offset want t")
          case None
          then show ?thesis using IH t skip unfolding eq by simp
        next
          case (Some p)
          obtain x s' where p: "p = (x, s')" by (cases p)
          show ?thesis
          proof (cases x)
            case (Inl e)
            then show ?thesis using IH Some p refused_skip [OF t] unfolding eq by simp
          next
            case (Inr bs)
            then obtain used n where "answers t = used @ answers s'" "0 \<le> offset" "wire s' = wire t"
              "bs = take n (file_range contents offset want)" "n = 0 \<longrightarrow> (None, 0) \<in> set used"
              "length (filter ready used) = 1" using IH Some p by auto
            then show ?thesis using Some p Inr t skip unfolding eq
              by (auto intro!: exI [of _ "a # used"])
          qed
        qed
      next
        case False
        then have "pread_retry contents offset want s = Some (Inl e, t)"
          using bad by (subst pread_retry.simps) simp
        moreover have "refused offset s (-e) t"
          unfolding refused_def using t bad(2) a by (intro exI [of _ "[a]"] exI [of _ e]) auto
        ultimately show ?thesis by simp
      qed
    next
      case good
      have "pread_retry contents offset want s = Some (Inr (take n (file_range contents offset want)), t)"
        using Cons a good by (subst pread_retry.simps) (simp add: os_pread_def t_def)
      moreover have "ready a" using a good by (simp add: ready_def)
      ultimately show ?thesis using t good a
        by (auto intro!: exI [of _ "[a]"] exI [of _ n])
    qed
  qed
qed

lemma bsd_loop_spec:
  "0 < count \<Longrightarrow> case bsd_loop contents offset count s of
     None \<Rightarrow> filter ready (answers s) = []
   | Some (r, s') \<Rightarrow> refused offset s r s' \<or> moved contents offset count s r s'"
proof (induction contents offset count s rule: bsd_loop.induct)
  case (1 contents offset count s)
  show ?case
  proof (cases "answers s")
    case Nil
    then show ?thesis by (subst bsd_loop.simps) (simp add: os_sendfile_def)
  next
    case (Cons a rest)
    obtain err n where a: "a = (err, n)" by (cases a)
    define t where "t = s\<lparr> answers := rest \<rparr>"
    have t: "answers s = a # answers t" "wire t = wire s" using Cons by (simp_all add: t_def)
    show ?thesis
    proof (cases "offset < 0")
      case True
      then have "bsd_loop contents offset count s = Some (- EINVAL, t)"
        using Cons a by (subst bsd_loop.simps) (simp add: os_sendfile_def t_def EINTR_def EINVAL_def)
      moreover have "refused offset s (- EINVAL) t"
        unfolding refused_def using t True by (intro exI [of _ "[a]"] exI [of _ EINVAL]) auto
      ultimately show ?thesis by simp
    next
      case off: False
      define data where "data = take n (file_range contents offset count)"
      define u where "u = t\<lparr> wire := wire s @ data \<rparr>"
      have call: "os_sendfile contents offset count s = Some ((err, length data), u)"
        using Cons a off by (simp add: os_sendfile_def Let_def t_def u_def data_def)
      have run: "bsd_loop contents offset count s = (case err of
             None \<Rightarrow> Some (int (length data), u)
           | Some e \<Rightarrow> if 0 < length data then Some (int (length data), u)
               else if e \<noteq> EINTR then Some (-e, u) else bsd_loop contents offset count u)"
        using call by (subst bsd_loop.simps) simp
      have mv: "moved contents offset count s (int (length data)) u" if "err = None \<or> 0 < length data"
        unfolding moved_def using t off a that
        by (intro exI [of _ "[a]"] exI [of _ "length data"]) (auto simp: u_def data_def min_def)
      show ?thesis
      proof (cases "err = None \<or> 0 < length data")
        case True
        then show ?thesis using run mv by (auto split: option.splits)
      next
        case False
        then obtain e where e: "err = Some e" "data = []" by auto
        then have same: "u = t" by (simp add: u_def t_def)
        show ?thesis
        proof (cases "e = EINTR")
          case True
          then have eq: "bsd_loop contents offset count s = bsd_loop contents offset count t"
            using run e same by simp
          have "\<not> ready a" using a e True by (simp add: ready_def)
          then show ?thesis using "1.IH" [OF call refl refl e(1)] e same True "1.prems" t moved_skip [OF t] refused_skip [OF t]
            unfolding eq by (auto split: option.splits)
        next
          case False
          then have "bsd_loop contents offset count s = Some (-e, t)" using run e same by simp
          moreover have "refused offset s (-e) t"
            unfolding refused_def using t a e by (intro exI [of _ "[a]"] exI [of _ e]) auto
          ultimately show ?thesis by simp
        qed
      qed
    qed
  qed
qed

lemma file_range_clamp: "file_range contents offset (min c count) = take c (file_range contents offset count)"
  by (simp add: file_range_def)

lemma moved_clamp:
  "0 < c \<Longrightarrow> moved contents offset (min c count) s r s' \<Longrightarrow> moved contents offset count s r s'"
proof -
  assume c: "0 < c" and "moved contents offset (min c count) s r s'"
  then obtain used n where m: "answers s = used @ answers s'" "used \<noteq> []" "0 \<le> offset" "r = int n"
    "n \<le> length (take c (file_range contents offset count))"
    "wire s' = wire s @ take n (take c (file_range contents offset count))"
    "n = 0 \<longrightarrow> take c (file_range contents offset count) = [] \<or> (None, 0) \<in> set used"
    unfolding moved_def file_range_clamp by blast
  have "take n (take c (file_range contents offset count)) = take n (file_range contents offset count)"
    using m(5) by (simp add: take_take min_absorb1)
  then show ?thesis unfolding moved_def using m c by (intro exI [of _ used] exI [of _ n]) auto
qed

lemma pread_send_spec:
  assumes "pread_retry contents offset (min count PREAD_BUF) s = Some (Inr bs, t)" and "bs \<noteq> []" and "0 < count"
  shows "\<exists>buf. store_block (replicate PREAD_BUF 0) 0 bs = Some buf \<and>
    (case pread_send_loop buf (length bs) 0 t of
       None \<Rightarrow> length (filter ready (answers s)) \<le> min count PREAD_BUF
     | Some (r, s') \<Rightarrow> refused offset s r s' \<or> moved contents offset count s r s')"
proof -
  obtain used n where u: "answers s = used @ answers t" "used \<noteq> []" "0 \<le> offset" "wire t = wire s"
      "bs = take n (file_range contents offset (min count PREAD_BUF))" "length (filter ready used) = 1"
    using pread_retry_spec [where contents = contents and offset = offset and want = "min count PREAD_BUF" and s = s] assms(1) by auto
  define buf :: bytes where "buf = bs @ drop (length bs) (replicate PREAD_BUF 0)"
  have len: "length bs \<le> min count PREAD_BUF" unfolding u(5) file_range_def length_take by (auto simp: min_le_iff_disj)
  then have st: "store_block (replicate PREAD_BUF 0) 0 bs = Some buf"
    using assms(2) by (simp add: store_block_def buf_def)
  have lb: "length bs \<le> length buf" by (simp add: buf_def)
  have pre: "take m bs = take m (file_range contents offset count)" if "m \<le> length bs" for m
    using that by (simp add: u(5) file_range_def take_take min_def split: if_splits)
  have small: "length bs \<le> length (file_range contents offset count)"
    by (simp add: u(5) file_range_def)
  have eq: "pread_send_loop buf (length bs) 0 t = send_all_loop buf (length bs) (length bs) t"
    using pread_send_is_send_all [of 0 "length bs" buf t] by simp
  have "case send_all_loop buf (length bs) (length bs) t of
       None \<Rightarrow> length (filter ready (answers s)) \<le> min count PREAD_BUF
     | Some (r, s') \<Rightarrow> refused offset s r s' \<or> moved contents offset count s r s'"
  proof (cases "send_all_loop buf (length bs) (length bs) t")
    case None
    then show ?thesis using send_all_loop_spec [OF order_refl lb, of t] u(1,6) len by simp
  next
    case (Some p)
    obtain r s' where p: "p = (r, s')" by (cases p)
    consider "sent_none t r s'" | "sent_some buf (length bs) (length bs) t r s'"
      using send_all_loop_spec [OF order_refl lb, of t] Some p by auto
    then show ?thesis
    proof cases
      case 1
      then obtain us e k where "answers t = us @ (Some e, k) # answers s'" "r = -e" "wire s' = wire t"
        unfolding sent_none_def by blast
      then have "refused offset s r s'"
        unfolding refused_def using u(1,4) by (intro exI [of _ "used @ us @ [(Some e, k)]"] exI [of _ e]) auto
      then show ?thesis using Some p by simp
    next
      case 2
      then obtain us m where m: "answers t = us @ answers s'" "m \<le> length bs" "r = int m"
          "wire s' = wire t @ take m buf" "m = length bs \<or> 0 < m \<or> (None, 0) \<in> set us"
        unfolding sent_some_def by auto
      have w: "wire s' = wire s @ take m (file_range contents offset count)"
        using m(2,4) u(4) pre [OF m(2)] by (simp add: buf_def)
      show ?thesis
      proof -
        have "moved contents offset count s r s'"
          unfolding moved_def using u(1-3) m w small assms(2)
          by (intro exI [of _ "used @ us"] exI [of _ m]) auto
        then show ?thesis using Some p by simp
      qed
    qed
  qed
  then show ?thesis using st eq by auto
qed

lemma hs_http1_sendfile_spec:
  assumes "0 < count"
  shows "case hs_http1_sendfile v contents offset count s of
     None \<Rightarrow> length (filter ready (answers s)) \<le> min count PREAD_BUF
   | Some (r, s') \<Rightarrow> refused offset s r s' \<or> moved contents offset count s r s'"
proof (cases v)
  case Linux
  have eq: "(if count > 0x7ffff000 then 0x7ffff000 else count) = min 0x7ffff000 count" by simp
  show ?thesis
    using Linux assms linux_retry_spec [where contents = contents and offset = offset and count = "min 0x7ffff000 count" and s = s]
      moved_clamp [of "0x7ffff000" contents offset count s]
    by (auto simp: hs_http1_sendfile_def eq Let_def split: option.splits sum.splits)
next
  case Darwin
  have pos: "0 < INT64_MAX" by (simp add: INT64_MAX_def)
  have eq: "(if count > INT64_MAX then INT64_MAX else count) = min INT64_MAX count" by simp
  have "0 < min INT64_MAX count" using pos assms by simp
  then show ?thesis
    using Darwin assms bsd_loop_spec [where contents = contents and offset = offset and count = "min INT64_MAX count" and s = s]
      moved_clamp [OF pos, of contents offset count s]
    by (auto simp: hs_http1_sendfile_def eq split: option.splits)
next
  case FreeBSD
  then show ?thesis
    using assms bsd_loop_spec [where contents = contents and offset = offset and count = count and s = s]
    by (auto simp: hs_http1_sendfile_def split: option.splits)
next
  case PREAD
  define want where "want = min count PREAD_BUF"
  have eq: "(if count < length (replicate PREAD_BUF (0 :: u8)) then count else length (replicate PREAD_BUF (0 :: u8))) = want"
    by (simp add: want_def)
  have run: "hs_http1_sendfile v contents offset count s =
    (case pread_retry contents offset want s of
       None \<Rightarrow> None
     | Some (Inl e, t) \<Rightarrow> Some (-e, t)
     | Some (Inr bs, t) \<Rightarrow> if bs = [] then Some (0, t)
         else do { buf \<leftarrow> store_block (replicate PREAD_BUF 0) 0 bs; pread_send_loop buf (length bs) 0 t })"
    using assms PREAD unfolding hs_http1_sendfile_def Let_def eq
    by (cases "pread_retry contents offset want s") (auto split: sum.splits)
  note call = pread_retry_spec [where contents = contents and offset = offset and want = want and s = s]
  show ?thesis
  proof (cases "pread_retry contents offset want s")
    case None
    then show ?thesis using call run by simp
  next
    case (Some p)
    obtain x t where p: "p = (x, t)" by (cases p)
    show ?thesis
    proof (cases x)
      case (Inl e)
      then show ?thesis using call Some p run by simp
    next
      case (Inr bs)
      show ?thesis
      proof (cases "bs = []")
        case True
        obtain used n where u: "answers s = used @ answers t" "used \<noteq> []" "0 \<le> offset" "wire t = wire s"
            "[] = take n (file_range contents offset want)" "n = 0 \<longrightarrow> (None, 0) \<in> set used"
          using call Some p Inr True by auto
        have pos: "0 < PREAD_BUF" by (simp add: PREAD_BUF_def)
        then have "file_range contents offset want = [] \<longrightarrow> file_range contents offset count = []"
          using assms by (simp add: want_def file_range_def)
        then have "moved contents offset count s 0 t"
          unfolding moved_def using u by (intro exI [of _ used] exI [of _ 0]) auto
        then show ?thesis using run Some p Inr True by simp
      next
        case False
        then show ?thesis using pread_send_spec [OF _ False assms, of contents offset s t] run Some p Inr
          by (auto simp: want_def)
      qed
    qed
  qed
qed

subsection \<open>Properties\<close>

text \<open>Error numbers are positive, and a call that succeeds makes progress.\<close>

definition errors_positive :: "sock \<Rightarrow> bool" where
  "errors_positive s \<longleftrightarrow> (\<forall>e n. (Some e, n) \<in> set (answers s) \<longrightarrow> 0 < e)"

text \<open>\<open>hs_http1_send_all\<close> returns as soon as the kernel has answered \<open>len\<close> calls with something other
  than \<open>EINTR\<close>.  What it reports is what went out: a count \<open>n\<close> means the first \<open>n\<close> bytes of the
  buffer, in order, each once; the count is short only when a later call failed or sent nothing; a
  negative result is the error of the first call, and then nothing was sent.\<close>

theorem send_all_correct:
  assumes "len \<le> length buf" and "errors_positive s"
  shows "case hs_http1_send_all buf len s of
     None \<Rightarrow> length (filter ready (answers s)) < len
   | Some (r, s') \<Rightarrow> \<exists>used. answers s = used @ answers s' \<and>
       (if r < 0 then wire s' = wire s \<and> (\<exists>n. (Some (-r), n) \<in> set used) \<and> - r \<noteq> EINTR
        else r \<le> int len \<and> wire s' = wire s @ take (nat r) buf \<and> (nat r < len \<longrightarrow> stopped used))"
proof (cases "hs_http1_send_all buf len s")
  case None
  then show ?thesis using send_all_loop_spec [OF order_refl assms(1), of s] by (simp add: hs_http1_send_all_def)
next
  case (Some p)
  obtain r s' where p: "p = (r, s')" by (cases p)
  consider "sent_some buf len len s r s'" | "sent_none s r s'"
    using send_all_loop_spec [OF order_refl assms(1), of s] Some p by (auto simp: hs_http1_send_all_def)
  then show ?thesis
  proof cases
    case 1
    then show ?thesis using Some p unfolding sent_some_def by auto
  next
    case 2
    then obtain used e n where u: "answers s = used @ (Some e, n) # answers s'" "e \<noteq> EINTR" "r = -e" "wire s' = wire s"
      unfolding sent_none_def by blast
    have "(Some e, n) \<in> set (answers s)" using u(1) by simp
    then have "0 < e" using assms(2) unfolding errors_positive_def by blast
    then show ?thesis using Some p u by (auto intro!: exI [of _ "used @ [(Some e, n)]"])
  qed
qed

text \<open>A signal, three bytes, a signal, one byte, then the buffer is full (\<open>EAGAIN\<close>): 4 of 6 bytes.\<close>

definition sample_sock :: sock where
  "sample_sock = \<lparr> wire = [9], answers = [(Some EINTR, 0), (None, 3), (Some EINTR, 0), (None, 1), (Some 11, 0)] \<rparr>"

theorem send_all_correct_witness:
  "case hs_http1_send_all [1, 2, 3, 4, 5, 6] 6 sample_sock of
     None \<Rightarrow> length (filter ready (answers sample_sock)) < 6
   | Some (r, s') \<Rightarrow> \<exists>used. answers sample_sock = used @ answers s' \<and>
       (if r < 0 then wire s' = wire sample_sock \<and> (\<exists>n. (Some (-r), n) \<in> set used) \<and> - r \<noteq> EINTR
        else r \<le> int 6 \<and> wire s' = wire sample_sock @ take (nat r) [1, 2, 3, 4, 5, 6] \<and> (nat r < 6 \<longrightarrow> stopped used))"
  by (rule send_all_correct) (auto simp: sample_sock_def errors_positive_def EINTR_def)

text \<open>\<open>hs_http1_sendfile\<close>, on every POSIX variant: a count is exactly a prefix of the requested range
  that is now on the wire, also when the call that moved it failed half way, so nothing is sent twice;
  a negative result means nothing was sent; 0 means the end of the file (or an empty request), never a
  full buffer; a negative offset is refused.\<close>

theorem sendfile_correct:
  assumes "errors_positive s" and "(None, 0) \<notin> set (answers s)"
  shows "case hs_http1_sendfile v contents offset count s of
     None \<Rightarrow> length (filter ready (answers s)) \<le> min count PREAD_BUF
   | Some (r, s') \<Rightarrow>
       (if r < 0 then wire s' = wire s
        else r \<le> int (length (file_range contents offset count)) \<and>
          wire s' = wire s @ take (nat r) (file_range contents offset count)) \<and>
       (r = 0 \<longrightarrow> file_range contents offset count = []) \<and>
       (offset < 0 \<and> 0 < count \<longrightarrow> r < 0)"
proof (cases "count = 0")
  case True
  then show ?thesis by (simp add: hs_http1_sendfile_def file_range_def)
next
  case False
  show ?thesis
  proof (cases "hs_http1_sendfile v contents offset count s")
    case None
    then show ?thesis using hs_http1_sendfile_spec [where count = count and v = v and contents = contents and offset = offset and s = s] False by simp
  next
    case (Some p)
    obtain r s' where p: "p = (r, s')" by (cases p)
    consider "refused offset s r s'" | "moved contents offset count s r s'"
      using hs_http1_sendfile_spec [where count = count and v = v and contents = contents and offset = offset and s = s] False Some p by auto
    then show ?thesis
    proof cases
      case 1
      then obtain used e where u: "answers s = used @ answers s'" "r = -e" "wire s' = wire s"
        "(\<exists>n. (Some e, n) \<in> set used) \<or> e = EINVAL" unfolding refused_def by blast
      have "0 < e" using u(1,4) assms(1) unfolding errors_positive_def EINVAL_def by auto
      then show ?thesis using Some p u by simp
    next
      case 2
      then obtain used n where u: "answers s = used @ answers s'" "0 \<le> offset"
        "n \<le> length (file_range contents offset count)" "r = int n"
        "wire s' = wire s @ take n (file_range contents offset count)"
        "n = 0 \<longrightarrow> file_range contents offset count = [] \<or> (None, 0) \<in> set used" unfolding moved_def by blast
      then show ?thesis using Some p assms(2) by auto
    qed
  qed
qed

text \<open>On Darwin, a signal after two bytes of a five-byte range: 2 is reported.\<close>

definition sample_file_sock :: sock where
  "sample_file_sock = \<lparr> wire = [], answers = [(Some EINTR, 0), (Some EINTR, 2), (None, 9)] \<rparr>"

theorem sendfile_correct_witness:
  "case hs_http1_sendfile Darwin [1, 2, 3, 4, 5, 6] 1 5 sample_file_sock of
     None \<Rightarrow> length (filter ready (answers sample_file_sock)) \<le> min 5 PREAD_BUF
   | Some (r, s') \<Rightarrow>
       (if r < 0 then wire s' = wire sample_file_sock
        else r \<le> int (length (file_range [1, 2, 3, 4, 5, 6] 1 5)) \<and>
          wire s' = wire sample_file_sock @ take (nat r) (file_range [1, 2, 3, 4, 5, 6] 1 5)) \<and>
       (r = 0 \<longrightarrow> file_range [1, 2, 3, 4, 5, 6] 1 5 = []) \<and>
       ((1 :: int) < 0 \<and> 0 < (5 :: nat) \<longrightarrow> r < 0)"
  by (rule sendfile_correct) (auto simp: sample_file_sock_def errors_positive_def EINTR_def)

end
