(* ===== verification/Tls_Shim.thy ===== *)
theory Tls_Shim
  imports Prelude
begin

text \<open>
  \<open>wireform-network/cbits/wireform_openssl.c\<close>: how the TLS transport reads OpenSSL's answers, and the
  server's choice of an application protocol.  A thread's OpenSSL error queue and \<open>errno\<close> are the
  state, shared by every connection the thread serves.  OpenSSL itself is a parameter: what an I/O call
  returns, what \<open>SSL_get_error\<close> says of it and the error state it leaves, as a function of the error
  state it finds.
\<close>

subsection \<open>The error state\<close>

datatype ssl_reason = UNEXPECTED_EOF_WHILE_READING | SHUTDOWN_WHILE_IN_INIT | Reason int

text \<open>An entry of the queue: its library (\<open>ERR_LIB_SYS\<close>, \<open>ERR_LIB_SSL\<close> or another) and reason.\<close>

datatype err_entry = SysErr int | SslErr ssl_reason | LibErr nat int

datatype ssl_error =
  SSL_ERROR_NONE | SSL_ERROR_SSL | SSL_ERROR_WANT_READ | SSL_ERROR_WANT_WRITE | SSL_ERROR_SYSCALL |
  SSL_ERROR_ZERO_RETURN | SSL_ERROR_OTHER

record thread =
  err_queue :: "err_entry list"
  errno :: int

definition ERR_peek_last_error :: "thread \<Rightarrow> err_entry option" where
  "ERR_peek_last_error th = (if err_queue th = [] then None else Some (last (err_queue th)))"

definition ERR_clear_error :: "thread \<Rightarrow> thread" where
  "ERR_clear_error th = th\<lparr> err_queue := [] \<rparr>"

text \<open>What an I/O call did: its return value, what \<open>SSL_get_error\<close> makes of it, the bytes it moved and
  the error state after.\<close>

record outcome =
  rc :: int
  get_error :: ssl_error
  moved_bytes :: bytes
  after :: thread

definition EAGAIN :: int where "EAGAIN = 11"
definition EINTR :: int where "EINTR = 4"

datatype wf_status = WF_SSL_OK | WF_SSL_EOF | WF_SSL_WANT_RETRY | WF_SSL_FATAL | WF_SSL_WANT_WRITE

definition clear_error_state :: "thread \<Rightarrow> thread" where
  "clear_error_state th = (ERR_clear_error th)\<lparr> errno := 0 \<rparr>"

definition sys_cause :: "thread \<Rightarrow> int" where
  "sys_cause th = (case ERR_peek_last_error th of Some (SysErr r) \<Rightarrow> r | _ \<Rightarrow> errno th)"

definition is_transient :: "int \<Rightarrow> bool" where
  "is_transient e \<longleftrightarrow> e = EAGAIN \<or> e = EINTR"

definition is_transient_failure :: "ssl_error \<Rightarrow> thread \<Rightarrow> bool" where
  "is_transient_failure err th =
     (if err = SSL_ERROR_SYSCALL then is_transient (sys_cause th)
      else if err = SSL_ERROR_SSL then
        (case ERR_peek_last_error th of Some (SysErr r) \<Rightarrow> is_transient r | _ \<Rightarrow> False)
      else False)"

definition map_handshake :: "outcome \<Rightarrow> wf_status \<times> thread" where
  "map_handshake res =
     (let err = get_error res; th = after res
      in if err = SSL_ERROR_WANT_WRITE then (WF_SSL_WANT_WRITE, th)
         else if err = SSL_ERROR_WANT_READ then (WF_SSL_WANT_RETRY, th)
         else if is_transient_failure err th then (WF_SSL_WANT_RETRY, ERR_clear_error th)
         else (WF_SSL_FATAL, th))"

subsection \<open>Handshake, reading and writing\<close>

definition wf_ssl_connect :: "(thread \<Rightarrow> outcome) \<Rightarrow> thread \<Rightarrow> wf_status \<times> thread" where
  "wf_ssl_connect SSL_connect th =
     (let res = SSL_connect (clear_error_state th)
      in if rc res = 1 then (WF_SSL_OK, after res) else map_handshake res)"

definition wf_ssl_accept :: "(thread \<Rightarrow> outcome) \<Rightarrow> thread \<Rightarrow> wf_status \<times> thread" where
  "wf_ssl_accept SSL_accept th =
     (let res = SSL_accept (clear_error_state th)
      in if rc res = 1 then (WF_SSL_OK, after res) else map_handshake res)"

text \<open>The plaintext goes to the front of the caller's buffer; the outer \<open>None\<close> is a write outside it.\<close>

definition wf_ssl_read_into ::
  "(nat \<Rightarrow> thread \<Rightarrow> outcome) \<Rightarrow> bytes \<Rightarrow> nat \<Rightarrow> thread \<Rightarrow> (wf_status \<times> nat \<times> bytes \<times> thread) option" where
  "wf_ssl_read_into SSL_read_ex buf buf_len th =
     (if buf_len = 0 then Some (WF_SSL_OK, 0, buf, th)
      else do {
        let res = SSL_read_ex buf_len (clear_error_state th);
        buf \<leftarrow> store_block buf 0 (moved_bytes res);
        let err = get_error res;
        let th = after res;
        Some
          (if rc res = 1 then (WF_SSL_OK, length (moved_bytes res), buf, th)
           else if err = SSL_ERROR_ZERO_RETURN then (WF_SSL_EOF, 0, buf, th)
           else if err = SSL_ERROR_WANT_WRITE then (WF_SSL_WANT_WRITE, 0, buf, th)
           else if err = SSL_ERROR_WANT_READ then (WF_SSL_WANT_RETRY, 0, buf, th)
           else let last_err = ERR_peek_last_error th
                in if err = SSL_ERROR_SYSCALL \<or>
                      err = SSL_ERROR_SSL \<and> (case last_err of Some (SysErr _) \<Rightarrow> True | _ \<Rightarrow> False)
                   then (let transient = is_transient (sys_cause th); th = ERR_clear_error th
                         in (if transient then WF_SSL_WANT_RETRY else WF_SSL_EOF, 0, buf, th))
                   else if err = SSL_ERROR_SSL \<and> last_err \<in> {Some (SslErr UNEXPECTED_EOF_WHILE_READING),
                                                              Some (SslErr SHUTDOWN_WHILE_IN_INIT)}
                   then (WF_SSL_EOF, 0, buf, ERR_clear_error th)
                   else (WF_SSL_FATAL, 0, buf, th))
      })"

definition wf_ssl_write_from ::
  "(bytes \<Rightarrow> thread \<Rightarrow> outcome) \<Rightarrow> bytes \<Rightarrow> nat \<Rightarrow> thread \<Rightarrow> (wf_status \<times> nat \<times> thread) option" where
  "wf_ssl_write_from SSL_write_ex buf buf_len th =
     (if buf_len = 0 then Some (WF_SSL_OK, 0, th)
      else do {
        data \<leftarrow> load_block buf 0 buf_len;
        let res = SSL_write_ex data (clear_error_state th);
        let err = get_error res;
        let th = after res;
        Some
          (if rc res = 1 then (WF_SSL_OK, length (moved_bytes res), th)
           else if err = SSL_ERROR_WANT_WRITE then (WF_SSL_WANT_WRITE, 0, th)
           else if err = SSL_ERROR_WANT_READ then (WF_SSL_WANT_RETRY, 0, th)
           else if is_transient_failure err th then (WF_SSL_WANT_WRITE, 0, ERR_clear_error th)
           else (WF_SSL_FATAL, 0, th))
      })"

definition wf_ssl_shutdown :: "(thread \<Rightarrow> outcome) \<Rightarrow> thread \<Rightarrow> thread" where
  "wf_ssl_shutdown SSL_shutdown th = ERR_clear_error (after (SSL_shutdown (clear_error_state th)))"

subsection \<open>Application protocols\<close>

text \<open>One entry of the server's list against the client's; the result is the offset of the match.\<close>

function alpn_inner :: "bytes \<Rightarrow> nat \<Rightarrow> bytes \<Rightarrow> nat \<Rightarrow> nat option option" where
  "alpn_inner inp inlen proto i =
     (if i < inlen then
        case load inp i of
          None \<Rightarrow> None
        | Some b \<Rightarrow>
            let client_len = unat b
            in if client_len > inlen - i - 1 then Some None
               else case load_block inp (i + 1) client_len of
                      None \<Rightarrow> None
                    | Some name \<Rightarrow>
                        if client_len = length proto \<and> name = proto then Some (Some (i + 1))
                        else alpn_inner inp inlen proto (i + 1 + client_len)
      else Some None)"
  by auto

termination
  by (relation "measure (\<lambda>(inp, inlen, proto, i). inlen - i)") auto

declare alpn_inner.simps [simp del]

text \<open>The server's list is ended by a zero length byte.  \<open>None\<close> is a read outside a list; \<open>Some None\<close> is
  \<open>SSL_TLSEXT_ERR_NOACK\<close>, otherwise the offset and length written to \<open>*out\<close> and \<open>*outlen\<close>.\<close>

function alpn_outer :: "bytes \<Rightarrow> bytes \<Rightarrow> nat \<Rightarrow> nat \<Rightarrow> (nat \<times> nat) option option" where
  "alpn_outer protos inp inlen p =
     (case load protos p of
        None \<Rightarrow> None
      | Some b \<Rightarrow>
          if b = 0 then Some None
          else let proto_len = unat b
               in case load_block protos (p + 1) proto_len of
                    None \<Rightarrow> None
                  | Some proto \<Rightarrow>
                      (case alpn_inner inp inlen proto 0 of
                         None \<Rightarrow> None
                       | Some (Some off) \<Rightarrow> Some (Some (off, proto_len))
                       | Some None \<Rightarrow> alpn_outer protos inp inlen (p + 1 + proto_len)))"
  by auto

termination
  by (relation "measure (\<lambda>(protos, inp, inlen, p). length protos - p)")
    (auto simp: load_def split: if_splits)

declare alpn_outer.simps [simp del]

definition wf_alpn_select_cb :: "bytes option \<Rightarrow> bytes \<Rightarrow> nat \<Rightarrow> (nat \<times> nat) option option" where
  "wf_alpn_select_cb arg inp inlen =
     (case arg of None \<Rightarrow> Some None | Some cb_protos \<Rightarrow> alpn_outer cb_protos inp inlen 0)"

text \<open>\<open>while (protos[len] != 0) len += 1 + protos[len];\<close>\<close>

function alpn_length :: "bytes \<Rightarrow> nat \<Rightarrow> nat option" where
  "alpn_length protos len =
     (case load protos len of
        None \<Rightarrow> None
      | Some b \<Rightarrow> if b \<noteq> 0 then alpn_length protos (len + (1 + unat b)) else Some len)"
  by auto

termination
  by (relation "measure (\<lambda>(protos, len). length protos - len)") (auto simp: load_def split: if_splits)

declare alpn_length.simps [simp del]

text \<open>The server's list belongs to the context: \<open>ex_data\<close> and the callback's argument are addresses of
  copies in the heap.\<close>

record ssl_ctx =
  ex_data :: "nat option"
  cb_arg :: "nat option"
  heap :: "nat \<Rightarrow> bytes option"

definition OPENSSL_free :: "nat option \<Rightarrow> ssl_ctx \<Rightarrow> ssl_ctx" where
  "OPENSSL_free a ctx = (case a of None \<Rightarrow> ctx | Some a \<Rightarrow> ctx\<lparr> heap := (heap ctx)(a := None) \<rparr>)"

text \<open>\<open>dup\<close> is the address \<open>OPENSSL_memdup\<close> returns; \<open>set_ok\<close> and \<open>index_ok\<close> whether the two other calls
  succeed.\<close>

definition wf_ssl_ctx_set_alpn_select_server ::
  "bool \<Rightarrow> nat option \<Rightarrow> bool \<Rightarrow> bytes option \<Rightarrow> ssl_ctx \<Rightarrow> ssl_ctx option" where
  "wf_ssl_ctx_set_alpn_select_server index_ok dup set_ok protos ctx =
     (if \<not> index_ok then Some ctx
      else let store_copy = (\<lambda>copy ctx.
             let old = ex_data ctx
             in if \<not> set_ok then OPENSSL_free copy ctx
                else let ctx = ctx\<lparr> ex_data := copy, cb_arg := copy \<rparr> in OPENSSL_free old ctx)
      in case protos of
           None \<Rightarrow> Some (store_copy None ctx)
         | Some protos \<Rightarrow> do {
             len \<leftarrow> alpn_length protos 0;
             copy \<leftarrow> load_block protos 0 (len + 1);
             Some (case dup of
                None \<Rightarrow> ctx
              | Some a \<Rightarrow> store_copy (Some a) (ctx\<lparr> heap := (heap ctx)(a \<mapsto> copy) \<rparr>))
           })"

definition wf_ssl_ctx_free :: "ssl_ctx \<Rightarrow> ssl_ctx" where
  "wf_ssl_ctx_free ctx = (OPENSSL_free (ex_data ctx) ctx)\<lparr> ex_data := None, cb_arg := None \<rparr>"

text \<open>What the handshake calls: the callback on the argument it was registered with.\<close>

definition alpn_callback :: "ssl_ctx \<Rightarrow> bytes \<Rightarrow> (nat \<times> nat) option option" where
  "alpn_callback ctx inp =
     (case cb_arg ctx of
        None \<Rightarrow> wf_alpn_select_cb None inp (length inp)
      | Some a \<Rightarrow> Option.bind (heap ctx a) (\<lambda>l. wf_alpn_select_cb (Some l) inp (length inp)))"

subsection \<open>The choice of a protocol\<close>

text \<open>A list of protocols as the server passes it, and the names in what the client sends; a name cut
  off by the end is not one.\<close>

definition alpn_encode :: "bytes list \<Rightarrow> bytes" where
  "alpn_encode ps = concat (map (\<lambda>p. of_nat (length p) # p) ps) @ [0]"

definition alpn_names_ok :: "bytes list \<Rightarrow> bool" where
  "alpn_names_ok ps \<longleftrightarrow> (\<forall>p\<in>set ps. 0 < length p \<and> length p \<le> 255)"

function alpn_offers :: "bytes \<Rightarrow> bytes list" where
  "alpn_offers [] = []"
| "alpn_offers (n # bs) =
     (if length bs < unat n then [] else take (unat n) bs # alpn_offers (drop (unat n) bs))"
  by pat_completeness auto

termination
  by (relation "measure length") auto

lemma alpn_inner_correct:
  "case alpn_inner inp (length inp) proto i of
     None \<Rightarrow> False
   | Some None \<Rightarrow> proto \<notin> set (alpn_offers (drop i inp))
   | Some (Some off) \<Rightarrow> proto \<in> set (alpn_offers (drop i inp)) \<and> off + length proto \<le> length inp \<and>
       take (length proto) (drop off inp) = proto"
proof (induction inp "length inp" proto i rule: alpn_inner.induct)
  case (1 inp proto i)
  show ?case
  proof (cases "i < length inp")
    case False
    then show ?thesis by (subst alpn_inner.simps) simp
  next
    case True
    define n where "n = unat (inp ! i)"
    have d: "drop i inp = inp ! i # drop (i + 1) inp" using True by (simp add: Cons_nth_drop_Suc)
    have ld: "load inp i = Some (inp ! i)" using True by (simp add: load_in)
    show ?thesis
    proof (cases "n > length inp - i - 1")
      case True
      then have "alpn_inner inp (length inp) proto i = Some None"
        using \<open>i < length inp\<close> ld by (subst alpn_inner.simps) (simp add: n_def)
      then show ?thesis using True by (simp add: d n_def)
    next
      case False
      define name where "name = take n (drop (i + 1) inp)"
      have lb: "load_block inp (i + 1) n = Some name"
        using False True by (simp add: load_block_in name_def)
      have len: "length name = n" using False True by (simp add: name_def)
      have names: "alpn_offers (drop i inp) = name # alpn_offers (drop (i + 1 + n) inp)"
        using False by (simp add: d name_def n_def add.commute)
      have step: "alpn_inner inp (length inp) proto i =
          (if n = length proto \<and> name = proto then Some (Some (i + 1))
           else alpn_inner inp (length inp) proto (i + 1 + n))"
        using True ld False lb by (subst alpn_inner.simps) (simp add: n_def Let_def)
      show ?thesis
      proof (cases "name = proto")
        case eq: True
        then have "alpn_inner inp (length inp) proto i = Some (Some (i + 1))" using step len by simp
        then show ?thesis using False True eq len by (simp add: names) (simp add: name_def)
      next
        case neq: False
        then have eq: "alpn_inner inp (length inp) proto i = alpn_inner inp (length inp) proto (i + 1 + n)"
          using step by simp
        have IH: "case alpn_inner inp (length inp) proto (i + 1 + n) of
            None \<Rightarrow> False
          | Some None \<Rightarrow> proto \<notin> set (alpn_offers (drop (i + 1 + n) inp))
          | Some (Some off) \<Rightarrow> proto \<in> set (alpn_offers (drop (i + 1 + n) inp)) \<and> off + length proto \<le> length inp \<and>
              take (length proto) (drop off inp) = proto"
          using 1 [OF True ld refl _ lb [unfolded n_def]] False neq unfolding n_def by auto
        then show ?thesis using neq unfolding eq names by (auto split: option.splits)
      qed
    qed
  qed
qed

lemma alpn_outer_correct:
  assumes "alpn_names_ok ps"
  shows "case alpn_outer (pre @ alpn_encode ps @ rest) inp (length inp) (length pre) of
     None \<Rightarrow> False
   | Some None \<Rightarrow> \<forall>p\<in>set ps. p \<notin> set (alpn_offers inp)
   | Some (Some (off, n)) \<Rightarrow> find (\<lambda>p. p \<in> set (alpn_offers inp)) ps = Some (take n (drop off inp)) \<and> off + n \<le> length inp"
  using assms
proof (induction ps arbitrary: pre)
  case Nil
  then show ?case by (subst alpn_outer.simps) (simp add: alpn_encode_def load_in nth_append)
next
  case (Cons q qs)
  define b :: u8 where "b = of_nat (length q)"
  have q: "0 < length q" "length q \<le> 255" and qs: "alpn_names_ok qs"
    using Cons.prems by (auto simp: alpn_names_ok_def)
  have b: "unat b = length q" using q by (simp add: b_def unat_of_nat)
  then have nz: "b \<noteq> 0" using q by auto
  define l where "l = pre @ alpn_encode (q # qs) @ rest"
  have l: "l = pre @ b # q @ alpn_encode qs @ rest" by (simp add: l_def alpn_encode_def b_def)
  have ld: "load l (length pre) = Some b" by (simp add: l load_in nth_append)
  have lb: "load_block l (length pre + 1) (length q) = Some q" by (simp add: l load_block_in)
  have step: "alpn_outer l inp (length inp) (length pre) =
      (case alpn_inner inp (length inp) q 0 of
         None \<Rightarrow> None
       | Some (Some off) \<Rightarrow> Some (Some (off, length q))
       | Some None \<Rightarrow> alpn_outer l inp (length inp) (length pre + 1 + length q))"
    using ld nz lb by (subst alpn_outer.simps) (simp add: b Let_def)
  have next_l: "alpn_outer l inp (length inp) (length pre + 1 + length q) =
      alpn_outer ((pre @ b # q) @ alpn_encode qs @ rest) inp (length inp) (length (pre @ b # q))"
    by (simp add: l)
  note inner = alpn_inner_correct [where inp = inp and proto = q and i = 0]
  note IH = Cons.IH [OF qs, of "pre @ b # q"]
  show ?case
    unfolding l_def [symmetric] step next_l using inner IH by (auto split: option.splits if_splits)
qed

lemma alpn_length_encode:
  assumes "alpn_names_ok ps"
  shows "alpn_length (pre @ alpn_encode ps @ rest) (length pre) = Some (length pre + (length (alpn_encode ps) - 1))"
  using assms
proof (induction ps arbitrary: pre)
  case Nil
  then show ?case by (subst alpn_length.simps) (simp add: alpn_encode_def load_in nth_append)
next
  case (Cons q qs)
  define b :: u8 where "b = of_nat (length q)"
  have q: "0 < length q" "length q \<le> 255" and qs: "alpn_names_ok qs"
    using Cons.prems by (auto simp: alpn_names_ok_def)
  have b: "unat b = length q" using q by (simp add: b_def unat_of_nat)
  then have nz: "b \<noteq> 0" using q by auto
  define l where "l = pre @ alpn_encode (q # qs) @ rest"
  have l: "l = (pre @ b # q) @ alpn_encode qs @ rest" by (simp add: l_def alpn_encode_def b_def)
  have ld: "load l (length pre) = Some b" by (simp add: l load_in nth_append)
  have "alpn_length l (length pre) = alpn_length l (length (pre @ b # q))"
    using ld nz by (subst alpn_length.simps) (simp add: b)
  then have "alpn_length l (length pre) = Some (length (pre @ b # q) + (length (alpn_encode qs) - 1))"
    using Cons.IH [OF qs, of "pre @ b # q"] unfolding l by simp
  then show ?case unfolding l_def [symmetric] by (simp add: alpn_encode_def)
qed

text \<open>Between calls the heap holds the registered list, if any, and nothing else.\<close>

definition alpn_inv :: "ssl_ctx \<Rightarrow> bool" where
  "alpn_inv ctx \<longleftrightarrow> cb_arg ctx = ex_data ctx \<and> dom (heap ctx) = set_option (ex_data ctx)"

definition alpn_list :: "ssl_ctx \<Rightarrow> bytes option" where
  "alpn_list ctx = Option.bind (cb_arg ctx) (heap ctx)"

lemma set_alpn_spec:
  assumes "alpn_inv ctx" and "alpn_names_ok ps" and "\<And>a. dup = Some a \<Longrightarrow> heap ctx a = None"
  shows "\<exists>ctx'. wf_ssl_ctx_set_alpn_select_server index_ok dup set_ok (Some (alpn_encode ps @ rest)) ctx = Some ctx' \<and>
    alpn_inv ctx' \<and>
    alpn_list ctx' = (if index_ok \<and> dup \<noteq> None \<and> set_ok then Some (alpn_encode ps) else alpn_list ctx)"
proof -
  have len: "alpn_length (alpn_encode ps @ rest) 0 = Some (length (alpn_encode ps) - 1)"
    using alpn_length_encode [OF assms(2), of "[]"] by simp
  have pos: "length (alpn_encode ps) - 1 + 1 = length (alpn_encode ps)" by (simp add: alpn_encode_def)
  have copy: "load_block (alpn_encode ps @ rest) 0 (length (alpn_encode ps) - 1 + 1) = Some (alpn_encode ps)"
    unfolding pos by (simp add: load_block_in)
  show ?thesis
  proof (cases "index_ok \<and> dup \<noteq> None")
    case False
    then show ?thesis using assms(1) len copy
      by (cases index_ok) (auto simp: wf_ssl_ctx_set_alpn_select_server_def Let_def)
  next
    case True
    then obtain a where a: "dup = Some a" "index_ok" by auto
    have free: "heap ctx a = None" using assms(3) a by simp
    then have neq: "ex_data ctx \<noteq> Some a" using assms(1) by (auto simp: alpn_inv_def)
    have dm: "dom (heap ctx) = set_option (ex_data ctx)" "cb_arg ctx = ex_data ctx"
      using assms(1) by (simp_all add: alpn_inv_def)
    show ?thesis
      using a len copy neq free dm
      by (cases set_ok; cases "ex_data ctx")
        (auto simp: wf_ssl_ctx_set_alpn_select_server_def Let_def OPENSSL_free_def alpn_inv_def alpn_list_def dom_def)
  qed
qed

lemma alpn_callback_spec:
  assumes "alpn_inv ctx" and "alpn_list ctx = Some (alpn_encode ps)" and "alpn_names_ok ps"
  shows "\<exists>r. alpn_callback ctx inp = Some r \<and>
    find (\<lambda>p. p \<in> set (alpn_offers inp)) ps = map_option (\<lambda>(off, n). take n (drop off inp)) r \<and>
    (\<forall>off n. r = Some (off, n) \<longrightarrow> off + n \<le> length inp)"
proof -
  obtain a where a: "cb_arg ctx = Some a" "heap ctx a = Some (alpn_encode ps)"
    using assms(2) by (cases "cb_arg ctx") (auto simp: alpn_list_def)
  then have "alpn_callback ctx inp = alpn_outer (alpn_encode ps) inp (length inp) 0"
    by (simp add: alpn_callback_def wf_alpn_select_cb_def)
  then show ?thesis using alpn_outer_correct [OF assms(3), where pre = "[]" and rest = "[]" and inp = inp]
    by (auto simp: find_None_iff split: option.splits)
qed

text \<open>The server's protocol list lives exactly as long as its context: however the registration
  ends, the context keeps one readable list (the new one, or the old one when a call failed) and the
  heap holds nothing else; freeing the context empties it.  On whatever bytes a client sends, the
  handshake's callback then reads nothing outside the two lists and picks the first protocol in the
  server's order that the client offers, as a pointer into the client's list.\<close>

theorem alpn_correct:
  assumes "alpn_inv ctx" and "alpn_names_ok ps" and "alpn_names_ok qs"
    and "alpn_list ctx = Some (alpn_encode qs)" and "\<And>a. dup = Some a \<Longrightarrow> heap ctx a = None"
  shows "\<exists>ctx' r. wf_ssl_ctx_set_alpn_select_server index_ok dup set_ok (Some (alpn_encode ps @ rest)) ctx = Some ctx' \<and>
    alpn_inv ctx' \<and> heap (wf_ssl_ctx_free ctx') = Map.empty \<and> alpn_callback ctx' inp = Some r \<and>
    find (\<lambda>p. p \<in> set (alpn_offers inp)) (if index_ok \<and> dup \<noteq> None \<and> set_ok then ps else qs) =
      map_option (\<lambda>(off, n). take n (drop off inp)) r \<and>
    (\<forall>off n. r = Some (off, n) \<longrightarrow> off + n \<le> length inp)"
proof -
  obtain ctx' where ctx': "wf_ssl_ctx_set_alpn_select_server index_ok dup set_ok (Some (alpn_encode ps @ rest)) ctx = Some ctx'"
      "alpn_inv ctx'" "alpn_list ctx' = (if index_ok \<and> dup \<noteq> None \<and> set_ok then Some (alpn_encode ps) else alpn_list ctx)"
    using set_alpn_spec [OF assms(1,2,5)] by blast
  let ?l = "if index_ok \<and> dup \<noteq> None \<and> set_ok then ps else qs"
  have l: "alpn_list ctx' = Some (alpn_encode ?l)" "alpn_names_ok ?l" using ctx'(3) assms(2-4) by (cases dup; simp)+
  have "heap (wf_ssl_ctx_free ctx') = Map.empty"
    using ctx'(2) by (cases "ex_data ctx'") (auto simp: wf_ssl_ctx_free_def OPENSSL_free_def alpn_inv_def dom_def fun_eq_iff)
  then show ?thesis using ctx'(1,2) alpn_callback_spec [OF ctx'(2) l, of inp] by blast
qed

text \<open>\<open>http/1.1\<close> was registered; \<open>h2, http/1.1\<close> replaces it; the client offers \<open>x, h2\<close>.\<close>

definition sample_ctx :: ssl_ctx where
  "sample_ctx = \<lparr> ex_data = Some 1, cb_arg = Some 1, heap = [1 \<mapsto> alpn_encode [[104, 49]]] \<rparr>"

theorem alpn_correct_witness:
  "\<exists>ctx' r. wf_ssl_ctx_set_alpn_select_server True (Some 2) True
       (Some (alpn_encode [[104, 50], [104, 49]] @ [77])) sample_ctx = Some ctx' \<and>
    alpn_inv ctx' \<and> heap (wf_ssl_ctx_free ctx') = Map.empty \<and> alpn_callback ctx' [1, 120, 2, 104, 50] = Some r \<and>
    find (\<lambda>p. p \<in> set (alpn_offers [1, 120, 2, 104, 50]))
      (if True \<and> Some (2 :: nat) \<noteq> None \<and> True then [[104, 50], [104, 49]] else [[104, 49]]) =
      map_option (\<lambda>(off, n). take n (drop off [1, 120, 2, 104, 50])) r \<and>
    (\<forall>off n. r = Some (off, n) \<longrightarrow> off + n \<le> length [1, 120, 2, 104, 50 :: u8])"
  by (rule alpn_correct [of sample_ctx])
    (auto simp: sample_ctx_def alpn_inv_def alpn_names_ok_def alpn_list_def split: if_splits)

subsection \<open>What a failure means\<close>

text \<open>The causes a caller has to tell apart.\<close>

datatype cause = Done | Closed | Need_Read | Need_Write | Would_Block | Peer_Gone | Broken

definition cause_of :: "outcome \<Rightarrow> cause" where
  "cause_of res =
     (if rc res = 1 then Done
      else let sys = (\<lambda>e. if e = EAGAIN \<or> e = EINTR then Would_Block else Peer_Gone);
               newest = (if err_queue (after res) = [] then None else Some (last (err_queue (after res))))
      in case get_error res of
           SSL_ERROR_ZERO_RETURN \<Rightarrow> Closed
         | SSL_ERROR_WANT_READ \<Rightarrow> Need_Read
         | SSL_ERROR_WANT_WRITE \<Rightarrow> Need_Write
         | SSL_ERROR_SYSCALL \<Rightarrow> sys (case newest of Some (SysErr r) \<Rightarrow> r | _ \<Rightarrow> errno (after res))
         | SSL_ERROR_SSL \<Rightarrow>
             (case newest of
                Some (SysErr r) \<Rightarrow> sys r
              | Some (SslErr UNEXPECTED_EOF_WHILE_READING) \<Rightarrow> Peer_Gone
              | Some (SslErr SHUTDOWN_WHILE_IN_INIT) \<Rightarrow> Peer_Gone
              | _ \<Rightarrow> Broken)
         | _ \<Rightarrow> Broken)"

fun read_status :: "cause \<Rightarrow> wf_status" where
  "read_status Done = WF_SSL_OK"
| "read_status Closed = WF_SSL_EOF"
| "read_status Need_Read = WF_SSL_WANT_RETRY"
| "read_status Need_Write = WF_SSL_WANT_WRITE"
| "read_status Would_Block = WF_SSL_WANT_RETRY"
| "read_status Peer_Gone = WF_SSL_EOF"
| "read_status Broken = WF_SSL_FATAL"

fun write_status :: "cause \<Rightarrow> wf_status" where
  "write_status Done = WF_SSL_OK"
| "write_status Need_Read = WF_SSL_WANT_RETRY"
| "write_status Need_Write = WF_SSL_WANT_WRITE"
| "write_status Would_Block = WF_SSL_WANT_WRITE"
| "write_status _ = WF_SSL_FATAL"

fun handshake_status :: "cause \<Rightarrow> wf_status" where
  "handshake_status Done = WF_SSL_OK"
| "handshake_status Need_Read = WF_SSL_WANT_RETRY"
| "handshake_status Need_Write = WF_SSL_WANT_WRITE"
| "handshake_status Would_Block = WF_SSL_WANT_RETRY"
| "handshake_status _ = WF_SSL_FATAL"

definition fresh_thread :: thread where
  "fresh_thread = \<lparr> err_queue = [], errno = 0 \<rparr>"

lemma clear_is_fresh: "clear_error_state th = fresh_thread"
  by (simp add: clear_error_state_def ERR_clear_error_def fresh_thread_def)

lemma handshake_correct: "rc res \<noteq> 1 \<Longrightarrow> fst (map_handshake res) = handshake_status (cause_of res)"
  by (auto simp: map_handshake_def cause_of_def is_transient_failure_def is_transient_def sys_cause_def
      ERR_peek_last_error_def Let_def split: ssl_error.splits err_entry.splits ssl_reason.splits)

text \<open>What an earlier call left in the thread's error queue or \<open>errno\<close>, on whatever connection, never
  decides the fate of this one: every I/O call gives the same result from every error state, and its
  status is a function of the cause alone.  A send or receive that would block is always a retry,
  never end of file and never fatal, and is retried with an empty queue; a read ends with end of file
  exactly on a close notification or when the peer is gone; a read puts its plaintext at the front of
  the buffer and reports its length.\<close>

theorem tls_status_correct:
  assumes "0 < buf_len" and "buf_len \<le> length buf"
    and "\<And>th. length (moved_bytes (SSL_read_ex buf_len th)) \<le> buf_len"
    and rd: "rd = SSL_read_ex buf_len fresh_thread" and wr: "wr = SSL_write_ex (take buf_len buf) fresh_thread"
    and hs: "hs = SSL_handshake fresh_thread"
  shows "fst (wf_ssl_connect SSL_handshake th) = handshake_status (cause_of hs) \<and>
    wf_ssl_accept SSL_handshake th = wf_ssl_connect SSL_handshake th \<and>
    (\<exists>t. wf_ssl_read_into SSL_read_ex buf buf_len th =
       Some (read_status (cause_of rd), if cause_of rd = Done then length (moved_bytes rd) else 0,
         moved_bytes rd @ drop (length (moved_bytes rd)) buf, t) \<and>
       (cause_of rd \<in> {Would_Block, Peer_Gone} \<longrightarrow> err_queue t = [])) \<and>
    (\<exists>t. wf_ssl_write_from SSL_write_ex buf buf_len th =
       Some (write_status (cause_of wr), if cause_of wr = Done then length (moved_bytes wr) else 0, t) \<and>
       (cause_of wr = Would_Block \<longrightarrow> err_queue t = []))"
proof -
  have st: "store_block buf 0 (moved_bytes rd) = Some (moved_bytes rd @ drop (length (moved_bytes rd)) buf)"
    using order_trans [OF assms(3) assms(2), of fresh_thread] unfolding rd by (auto simp: store_block_def)
  have ld: "load_block buf 0 buf_len = Some (take buf_len buf)" using assms(2) by (simp add: load_block_def)
  note defs = cause_of_def is_transient_failure_def is_transient_def sys_cause_def ERR_peek_last_error_def
    ERR_clear_error_def Let_def
  have c: "fst (wf_ssl_connect SSL_handshake th) = handshake_status (cause_of hs)"
    using handshake_correct [of hs] by (auto simp: wf_ssl_connect_def clear_is_fresh hs Let_def cause_of_def)
  moreover have "wf_ssl_accept SSL_handshake th = wf_ssl_connect SSL_handshake th"
    by (simp add: wf_ssl_accept_def wf_ssl_connect_def)
  moreover have "\<exists>t. wf_ssl_read_into SSL_read_ex buf buf_len th =
       Some (read_status (cause_of rd), if cause_of rd = Done then length (moved_bytes rd) else 0,
         moved_bytes rd @ drop (length (moved_bytes rd)) buf, t) \<and>
       (cause_of rd \<in> {Would_Block, Peer_Gone} \<longrightarrow> err_queue t = [])"
  proof (cases "rc rd = 1")
    case True
    then show ?thesis using assms(1) st
      by (simp add: wf_ssl_read_into_def clear_is_fresh rd [symmetric] Let_def cause_of_def)
  next
    case False
    then show ?thesis using assms(1) st
      by (cases "get_error rd"; cases "err_queue (after rd) = []"; cases "last (err_queue (after rd))")
        (auto simp: wf_ssl_read_into_def clear_is_fresh rd [symmetric] defs split: ssl_reason.splits)
  qed
  moreover have "\<exists>t. wf_ssl_write_from SSL_write_ex buf buf_len th =
       Some (write_status (cause_of wr), if cause_of wr = Done then length (moved_bytes wr) else 0, t) \<and>
       (cause_of wr = Would_Block \<longrightarrow> err_queue t = [])"
  proof (cases "rc wr = 1")
    case True
    then show ?thesis using assms(1) ld
      by (simp add: wf_ssl_write_from_def clear_is_fresh wr [symmetric] Let_def cause_of_def)
  next
    case False
    then show ?thesis using assms(1) ld
      by (cases "get_error wr"; cases "err_queue (after wr) = []"; cases "last (err_queue (after wr))")
        (auto simp: wf_ssl_write_from_def clear_is_fresh wr [symmetric] defs split: ssl_reason.splits)
  qed
  ultimately show ?thesis by blast
qed

text \<open>A receive that would block, found by a thread whose queue holds another connection's failure.\<close>

definition sample_io :: "thread \<Rightarrow> outcome" where
  "sample_io th = \<lparr> rc = -1, get_error = (if err_queue th = [] then SSL_ERROR_SYSCALL else SSL_ERROR_SSL),
     moved_bytes = [], after = th\<lparr> errno := EAGAIN \<rparr> \<rparr>"

theorem tls_status_correct_witness:
  "let stale = \<lparr> err_queue = [SslErr (Reason 7)], errno = 104 \<rparr>; rd = sample_io fresh_thread
   in fst (wf_ssl_connect sample_io stale) = handshake_status (cause_of rd) \<and>
    wf_ssl_accept sample_io stale = wf_ssl_connect sample_io stale \<and>
    (\<exists>t. wf_ssl_read_into (\<lambda>_. sample_io) [1, 2] 2 stale =
       Some (read_status (cause_of rd), if cause_of rd = Done then length (moved_bytes rd) else 0,
         moved_bytes rd @ drop (length (moved_bytes rd)) [1, 2], t) \<and>
       (cause_of rd \<in> {Would_Block, Peer_Gone} \<longrightarrow> err_queue t = [])) \<and>
    (\<exists>t. wf_ssl_write_from (\<lambda>_. sample_io) [1, 2] 2 stale =
       Some (write_status (cause_of rd), if cause_of rd = Done then length (moved_bytes rd) else 0, t) \<and>
       (cause_of rd = Would_Block \<longrightarrow> err_queue t = []))"
  unfolding Let_def by (rule tls_status_correct) (simp_all add: sample_io_def)

end
