(* ===== verification/Iouring.thy ===== *)
theory Iouring
  imports Bit_Iter
begin

text \<open>
  \<open>wireform-network/cbits/iouring_glue.c\<close>: receiving into a ring buffer through io_uring.  The state
  holds the caller's struct, the ring's memory, and of the kernel the submission queue, the requests in
  flight, the completions not yet seen, the event counter and the resources that are open.  What the
  kernel answers is a parameter of each call.
\<close>

record uring =
  event_fd :: int
  socket_fd :: int
  ring_buf_size :: u64
  ring_buf_mask :: u64
  head :: u64
  closed :: bool

record sqe =
  dest :: nat
  sqe_len :: nat
  user_data :: u64

record io =
  uring :: uring
  ring_mem :: bytes
  sq :: "sqe list"
  inflight :: "sqe list"
  cqes :: "int list"
  counter :: nat
  ring_live :: bool
  open_fds :: "int set"

definition EINVAL :: int where "EINVAL = 22"
definition EBUSY :: int where "EBUSY = 16"
definition EAGAIN :: int where "EAGAIN = 11"

definition IOURING_MAX_RECV :: u64 where
  "IOURING_MAX_RECV = push_bit 30 1"

subsection \<open>Creating and destroying\<close>

definition io_uring_queue_exit :: "io \<Rightarrow> io" where
  "io_uring_queue_exit s = s\<lparr> ring_live := False, sq := [], inflight := [], cqes := [] \<rparr>"

definition os_close :: "int \<Rightarrow> io \<Rightarrow> io" where
  "os_close fd s = s\<lparr> open_fds := open_fds s - {fd} \<rparr>"

text \<open>\<open>ring_buf\<close> is \<open>None\<close> for NULL; \<open>init_ret\<close>, \<open>efd\<close> and \<open>reg_ret\<close> are what the three system calls return.
  Apart from the flags passed to the kernel, \<open>sqpoll_idle_ms\<close> changes nothing.\<close>

definition hs_iouring_create ::
  "int \<Rightarrow> int + int \<Rightarrow> int \<Rightarrow> int \<Rightarrow> int \<Rightarrow> int \<Rightarrow> bytes option \<Rightarrow> u64 \<Rightarrow> io \<Rightarrow> int \<times> io" where
  "hs_iouring_create init_ret efd reg_ret sock queue_depth sqpoll_idle_ms ring_buf size_arg s =
     (let s = s\<lparr> uring := (uring s)\<lparr> event_fd := -1 \<rparr> \<rparr>
      in if ring_buf = None \<or> size_arg = 0 \<or> (size_arg AND (size_arg - 1)) \<noteq> 0 \<or> queue_depth \<le> 0
         then (- EINVAL, s)
         else if init_ret < 0 then (init_ret, s)
         else let s = s\<lparr> ring_live := True, sq := [], inflight := [], cqes := [] \<rparr>
              in case efd of
                   Inl e \<Rightarrow> (- e, io_uring_queue_exit s)
                 | Inr fd \<Rightarrow>
                     let s = s\<lparr> open_fds := insert fd (open_fds s), counter := 0 \<rparr>
                     in if reg_ret < 0 then (reg_ret, io_uring_queue_exit (os_close fd s))
                        else (0, s\<lparr> uring := \<lparr> event_fd = fd, socket_fd = sock, ring_buf_size = size_arg,
                               ring_buf_mask = size_arg - 1, head = 0, closed = False \<rparr>,
                               ring_mem := the ring_buf \<rparr>))"

definition hs_iouring_destroy :: "io \<Rightarrow> io" where
  "hs_iouring_destroy s =
     (if event_fd (uring s) < 0 then s
      else let s = os_close (event_fd (uring s)) s;
               s = s\<lparr> uring := (uring s)\<lparr> event_fd := -1 \<rparr> \<rparr>
           in io_uring_queue_exit s)"

subsection \<open>Submitting and completing\<close>

text \<open>\<open>sqe_free\<close>: the submission queue has a slot; \<open>submit_ret\<close>: what \<open>io_uring_submit\<close> returns.  A
  failed submission leaves the request in the queue.\<close>

definition hs_iouring_submit_recv :: "bool \<Rightarrow> int \<Rightarrow> u64 \<Rightarrow> io \<Rightarrow> int \<times> io" where
  "hs_iouring_submit_recv sqe_free submit_ret max_bytes s =
     (if max_bytes = 0 then (- EINVAL, s)
      else if \<not> sqe_free then (- EBUSY, s)
      else let u = uring s;
               write_off = head u AND ring_buf_mask u;
               available = max_bytes;
               available = (if available > ring_buf_size u - write_off then ring_buf_size u - write_off else available);
               available = (if available > IOURING_MAX_RECV then IOURING_MAX_RECV else available);
               e = \<lparr> dest = unat write_off, sqe_len = unat available, user_data = head u \<rparr>;
               s = s\<lparr> sq := sq s @ [e] \<rparr>
           in (submit_ret, if submit_ret < 0 then s else s\<lparr> inflight := inflight s @ sq s, sq := [] \<rparr>))"

text \<open>Reading an eventfd returns its counter and clears it, or fails when it is 0.\<close>

function drain_eventfd :: "io \<Rightarrow> io" where
  "drain_eventfd s = (if 0 < counter s then drain_eventfd (s\<lparr> counter := 0 \<rparr>) else s)"
  by auto

termination
  by (relation "measure counter") auto

declare drain_eventfd.simps [simp del]

text \<open>The third component is what is written to \<open>*new_head\<close>.\<close>

definition consume_cqe :: "int \<Rightarrow> io \<Rightarrow> int \<times> io \<times> u64 option" where
  "consume_cqe res s =
     (let s = s\<lparr> cqes := tl (cqes s) \<rparr>;
          s = drain_eventfd s;
          u = uring s
      in if res > 0 then
           let u = u\<lparr> head := head u + word_of_int res \<rparr>
           in (res, s\<lparr> uring := u \<rparr>, Some (head u))
         else if res = 0 then (0, s\<lparr> uring := u\<lparr> closed := True \<rparr> \<rparr>, Some (head u))
         else (res, s, None))"

definition hs_iouring_peek_cqe :: "io \<Rightarrow> int \<times> io \<times> u64 option" where
  "hs_iouring_peek_cqe s = (case cqes s of [] \<Rightarrow> (- EAGAIN, s, None) | res # _ \<Rightarrow> consume_cqe res s)"

text \<open>Waiting returns an error, or blocks (\<open>None\<close>) until there is a completion.\<close>

definition hs_iouring_wait_cqe :: "int \<Rightarrow> io \<Rightarrow> (int \<times> io \<times> u64 option) option" where
  "hs_iouring_wait_cqe wait_ret s =
     (if wait_ret < 0 then Some (wait_ret, s, None)
      else case cqes s of [] \<Rightarrow> None | res # _ \<Rightarrow> Some (consume_cqe res s))"

definition hs_iouring_get_eventfd :: "io \<Rightarrow> int" where
  "hs_iouring_get_eventfd s = event_fd (uring s)"

definition hs_iouring_get_head :: "io \<Rightarrow> u64" where
  "hs_iouring_get_head s = head (uring s)"

subsection \<open>The whole system\<close>

text \<open>The transport, the kernel and the peer: \<open>stream\<close> is what the peer has still to send, \<open>received\<close> what
  the kernel took from it, and \<open>delivered\<close> the bytes the reader took out of the ring's memory.  The
  caller submits only when nothing is outstanding, for at most the free space.\<close>

record sys =
  io :: io
  stream :: bytes
  received :: bytes
  delivered :: bytes

definition ring_len :: "sys \<Rightarrow> nat" where
  "ring_len s = unat (ring_buf_size (uring (io s)))"

definition pending :: "sys \<Rightarrow> nat" where
  "pending s = (case cqes (io s) of [] \<Rightarrow> 0 | r # _ \<Rightarrow> nat r)"

text \<open>The bytes the transport knows of.\<close>

definition seen :: "sys \<Rightarrow> nat" where
  "seen s = length (received s) - pending s"

inductive uring_step :: "sys \<Rightarrow> sys \<Rightarrow> bool" where
  submit: "sq (io s) = [] \<Longrightarrow> inflight (io s) = [] \<Longrightarrow> cqes (io s) = [] \<Longrightarrow>
     unat max_bytes \<le> ring_len s - (seen s - length (delivered s)) \<Longrightarrow>
     hs_iouring_submit_recv sqe_free submit_ret max_bytes (io s) = (r, t) \<Longrightarrow>
     uring_step s (s\<lparr> io := t \<rparr>)"
| complete: "inflight (io s) = e # es \<Longrightarrow> 0 < n \<Longrightarrow> n \<le> sqe_len e \<Longrightarrow> n \<le> length (stream s) \<Longrightarrow>
     store_block (ring_mem (io s)) (dest e) (take n (stream s)) = Some m \<Longrightarrow>
     uring_step s (s\<lparr> io := (io s)\<lparr> ring_mem := m, inflight := es, cqes := cqes (io s) @ [int n],
       counter := counter (io s) + 1 \<rparr>, stream := drop n (stream s), received := received s @ take n (stream s) \<rparr>)"
| complete_none: "inflight (io s) = e # es \<Longrightarrow> r \<le> 0 \<Longrightarrow>
     uring_step s (s\<lparr> io := (io s)\<lparr> inflight := es, cqes := cqes (io s) @ [r], counter := counter (io s) + 1 \<rparr> \<rparr>)"
| peek: "hs_iouring_peek_cqe (io s) = (r, t, out) \<Longrightarrow> uring_step s (s\<lparr> io := t \<rparr>)"
| wait: "hs_iouring_wait_cqe w (io s) = Some (r, t, out) \<Longrightarrow> uring_step s (s\<lparr> io := t \<rparr>)"
| deliver: "k \<le> seen s - length (delivered s) \<Longrightarrow>
     uring_step s (s\<lparr> delivered := delivered s @
       map (\<lambda>i. ring_mem (io s) ! ((length (delivered s) + i) mod ring_len s)) [0..<k] \<rparr>)"

inductive uring_reachable :: "sys \<Rightarrow> sys \<Rightarrow> bool" for s0 where
  start: "uring_reachable s0 s0"
| step: "uring_reachable s0 s \<Longrightarrow> uring_step s t \<Longrightarrow> uring_reachable s0 t"

inductive_cases uring_stepE: "uring_step s t"

subsection \<open>The ring is a queue\<close>

definition request_ok :: "nat \<Rightarrow> sys \<Rightarrow> sqe \<Rightarrow> bool" where
  "request_ok p s e \<longleftrightarrow> dest e = seen s mod 2 ^ p \<and> 0 < sqe_len e \<and> dest e + sqe_len e \<le> 2 ^ p \<and>
     seen s + sqe_len e \<le> length (delivered s) + 2 ^ p"

definition uring_inv :: "nat \<Rightarrow> bytes \<Rightarrow> sys \<Rightarrow> bool" where
  "uring_inv p bs s \<longleftrightarrow>
     p < 64 \<and> ring_len s = 2 ^ p \<and> ring_buf_mask (uring (io s)) = ring_buf_size (uring (io s)) - 1 \<and>
     length (ring_mem (io s)) = 2 ^ p \<and>
     length (sq (io s)) + length (inflight (io s)) + length (cqes (io s)) \<le> 1 \<and>
     pending s \<le> length (received s) \<and>
     head (uring (io s)) = of_nat (seen s) \<and>
     length (delivered s) \<le> seen s \<and> delivered s = take (length (delivered s)) (received s) \<and>
     length (received s) \<le> length (delivered s) + 2 ^ p \<and>
     (\<forall>i. length (delivered s) \<le> i \<and> i < length (received s) \<longrightarrow> ring_mem (io s) ! (i mod 2 ^ p) = received s ! i) \<and>
     (\<forall>e \<in> set (sq (io s)) \<union> set (inflight (io s)). request_ok p s e) \<and>
     received s @ stream s = bs"

lemma drain_eventfd_eq: "drain_eventfd s = s\<lparr> counter := 0 \<rparr>"
  by (subst drain_eventfd.simps) (simp add: drain_eventfd.simps)

lemma and_size_minus_1:
  assumes "unat (n :: u64) = 2 ^ p" and "p < 64"
  shows "unat (x AND (n - 1)) = unat x mod 2 ^ p"
proof -
  have "n = 2 ^ p"
    using assms by (intro word_unat_eq_iff [THEN iffD2]) (simp add: unat_exp)
  then have "n - 1 = mask p" by (simp add: mask_eq_exp_minus_1)
  then have "x AND (n - 1) = take_bit p x" by (simp only: take_bit_eq_mask)
  then have "unat (x AND (n - 1)) = take_bit p (unat x)" by (simp only: unsigned_take_bit_eq)
  then show ?thesis by (simp only: take_bit_eq_mod)
qed

text \<open>What one submission queues.\<close>

lemma submit_cases:
  assumes "hs_iouring_submit_recv sqe_free submit_ret max_bytes t = (r, t')"
    and "unat (ring_buf_size (uring t)) = 2 ^ p" "p < 64"
    and "ring_buf_mask (uring t) = ring_buf_size (uring t) - 1"
  shows "t' = t \<or> (\<exists>e. dest e = unat (head (uring t)) mod 2 ^ p \<and> 0 < sqe_len e \<and>
      sqe_len e \<le> unat max_bytes \<and> dest e + sqe_len e \<le> 2 ^ p \<and> (t' = t\<lparr> sq := sq t @ [e] \<rparr> \<or>
      t' = t\<lparr> inflight := inflight t @ sq t @ [e], sq := [] \<rparr>))"
proof (cases "max_bytes = 0 \<or> \<not> sqe_free")
  case True
  then show ?thesis using assms(1) by (auto simp: hs_iouring_submit_recv_def split: if_splits)
next
  case False
  define w where "w = head (uring t) AND ring_buf_mask (uring t)"
  define room where "room = ring_buf_size (uring t) - w"
  define a1 where "a1 = (if max_bytes > room then room else max_bytes)"
  define a where "a = (if a1 > IOURING_MAX_RECV then IOURING_MAX_RECV else a1)"
  define e where "e = \<lparr> dest = unat w, sqe_len = unat a, user_data = head (uring t) \<rparr>"
  have w: "unat w = unat (head (uring t)) mod 2 ^ p"
    unfolding w_def assms(4) by (rule and_size_minus_1 [OF assms(2,3)])
  then have lt: "unat w < 2 ^ p" by simp
  then have "w \<le> ring_buf_size (uring t)" by (simp add: word_le_nat_alt assms(2))
  then have room: "unat room = 2 ^ p - unat w" by (simp add: room_def unat_sub assms(2))
  have recv: "unat IOURING_MAX_RECV = 2 ^ 30" by (simp add: IOURING_MAX_RECV_def)
  have "unat max_bytes > 0" using False by (simp add: unat_gt_0)
  then have a1: "0 < unat a1" "unat a1 \<le> unat max_bytes" "unat a1 \<le> 2 ^ p - unat w"
    using room lt by (auto simp: a1_def word_less_nat_alt)
  then have "0 < unat a" "unat a \<le> unat a1"
    using recv by (auto simp: a_def word_less_nat_alt)
  then have e: "dest e = unat (head (uring t)) mod 2 ^ p" "0 < sqe_len e" "sqe_len e \<le> unat max_bytes"
      "dest e + sqe_len e \<le> 2 ^ p"
    using a1 lt w by (simp_all add: e_def)
  have "hs_iouring_submit_recv sqe_free submit_ret max_bytes t =
      (submit_ret, if submit_ret < 0 then t\<lparr> sq := sq t @ [e] \<rparr>
        else t\<lparr> inflight := inflight t @ sq t @ [e], sq := [] \<rparr>)"
    using False by (simp only: hs_iouring_submit_recv_def Let_def e_def a_def a1_def room_def w_def) simp
  then have "(r, t') = (submit_ret, if submit_ret < 0 then t\<lparr> sq := sq t @ [e] \<rparr>
        else t\<lparr> inflight := inflight t @ sq t @ [e], sq := [] \<rparr>)" using assms(1) by simp
  then have "t' = t\<lparr> sq := sq t @ [e] \<rparr> \<or> t' = t\<lparr> inflight := inflight t @ sq t @ [e], sq := [] \<rparr>"
    by (auto split: if_splits)
  then show ?thesis using e by blast
qed

lemma uring_inv_submit:
  assumes inv: "uring_inv p bs s" and idle: "sq (io s) = []" "inflight (io s) = []" "cqes (io s) = []"
    and free: "unat max_bytes \<le> ring_len s - (seen s - length (delivered s))"
    and run: "hs_iouring_submit_recv sqe_free submit_ret max_bytes (io s) = (r, t)"
  shows "uring_inv p bs (s\<lparr> io := t \<rparr>)"
proof -
  have len: "unat (ring_buf_size (uring (io s))) = 2 ^ p" "p < 64"
      "ring_buf_mask (uring (io s)) = ring_buf_size (uring (io s)) - 1"
      and hd: "head (uring (io s)) = of_nat (seen s)" and del: "length (delivered s) \<le> seen s"
    using inv by (simp_all add: uring_inv_def ring_len_def)
  have wrap: "unat (of_nat n :: u64) mod 2 ^ p = n mod 2 ^ p" for n
  proof -
    have "(2 :: nat) ^ p dvd 2 ^ 64" using len(2) by (intro le_imp_power_dvd) simp
    then show ?thesis by (simp add: unat_of_nat mod_mod_cancel)
  qed
  from submit_cases [OF run len] show ?thesis
  proof
    assume "t = io s"
    then show ?thesis using inv by simp
  next
    assume "\<exists>e. dest e = unat (head (uring (io s))) mod 2 ^ p \<and> 0 < sqe_len e \<and>
      sqe_len e \<le> unat max_bytes \<and> dest e + sqe_len e \<le> 2 ^ p \<and> (t = io s\<lparr> sq := sq (io s) @ [e] \<rparr> \<or>
      t = io s\<lparr> inflight := inflight (io s) @ sq (io s) @ [e], sq := [] \<rparr>)"
    then obtain e where e: "dest e = seen s mod 2 ^ p" "0 < sqe_len e" "sqe_len e \<le> unat max_bytes"
      "dest e + sqe_len e \<le> 2 ^ p" "t = io s\<lparr> sq := [e] \<rparr> \<or> t = io s\<lparr> inflight := [e], sq := [] \<rparr>"
      using idle by (auto simp: hd wrap)
    have "ring_len s = 2 ^ p" using inv by (simp add: uring_inv_def)
    then have "seen s + sqe_len e \<le> length (delivered s) + 2 ^ p" using free e(3,2) del by linarith
    then have ok: "request_ok p s e" using e by (simp add: request_ok_def)
    have t: "uring t = uring (io s)" "ring_mem t = ring_mem (io s)" "cqes t = []"
        "sq t = [e] \<and> inflight t = [] \<or> sq t = [] \<and> inflight t = [e]"
      using e(5) idle by auto
    have pend: "pending (s\<lparr> io := t \<rparr>) = pending s" by (simp add: pending_def t idle)
    then have sn: "seen (s\<lparr> io := t \<rparr>) = seen s" by (simp add: seen_def)
    have "request_ok p (s\<lparr> io := t \<rparr>) e" using ok by (simp add: request_ok_def sn)
    moreover have "ring_len (s\<lparr> io := t \<rparr>) = ring_len s" by (simp add: ring_len_def t)
    ultimately show ?thesis using inv idle t pend sn by (auto simp: uring_inv_def)
  qed
qed

lemma uring_inv_consume:
  assumes inv: "uring_inv p bs s" and c: "cqes (io s) = res # rest" and run: "consume_cqe res (io s) = (r, t, out)"
  shows "uring_inv p bs (s\<lparr> io := t \<rparr>)"
proof -
  have one: "rest = []" "sq (io s) = []" "inflight (io s) = []" using inv c by (simp_all add: uring_inv_def)
  have pend: "pending s = nat res" using c by (simp add: pending_def)
  have le: "nat res \<le> length (received s)" using inv pend by (simp add: uring_inv_def)
  have t: "cqes t = []" "sq t = []" "inflight t = []" "ring_mem t = ring_mem (io s)"
      "ring_buf_size (uring t) = ring_buf_size (uring (io s))" "ring_buf_mask (uring t) = ring_buf_mask (uring (io s))"
      "head (uring t) = head (uring (io s)) + (if res > 0 then word_of_int res else 0)"
    using run c one by (auto simp: consume_cqe_def drain_eventfd_eq Let_def split: if_splits)
  have p0: "pending (s\<lparr> io := t \<rparr>) = 0" by (simp add: pending_def t)
  have sn: "seen (s\<lparr> io := t \<rparr>) = seen s + nat res"
    using le by (simp add: seen_def p0 pend)
  have hd: "head (uring t) = of_nat (seen s + nat res)"
  proof (cases "res > 0")
    case True
    then obtain n where "res = int n" by (metis nonneg_int_cases less_imp_le)
    then have "(word_of_int res :: u64) = of_nat (nat res)" by simp
    then show ?thesis using True inv t(7) by (simp add: uring_inv_def)
  next
    case False
    then show ?thesis using inv t(7) by (simp add: uring_inv_def)
  qed
  have "ring_len (s\<lparr> io := t \<rparr>) = ring_len s" by (simp add: ring_len_def t)
  then show ?thesis using inv t(1-6) hd p0 sn by (simp add: uring_inv_def)
qed

lemma mod_window:
  fixes i j :: nat
  assumes "i < j" and "j < i + n"
  shows "i mod n \<noteq> j mod n"
proof
  assume "i mod n = j mod n"
  then have "n dvd j - i" using assms(1) by (metis less_imp_le mod_eq_dvd_iff_nat)
  then show False using assms by (auto dest: dvd_imp_le)
qed

text \<open>A completion writes only free positions of the ring.\<close>

lemma uring_inv_complete:
  assumes inv: "uring_inv p bs s" and e: "inflight (io s) = e # es" and n: "0 < n" "n \<le> sqe_len e" "n \<le> length (stream s)"
    and st: "store_block (ring_mem (io s)) (dest e) (take n (stream s)) = Some m"
  shows "uring_inv p bs (s\<lparr> io := (io s)\<lparr> ring_mem := m, inflight := es, cqes := cqes (io s) @ [int n],
       counter := counter (io s) + 1 \<rparr>, stream := drop n (stream s), received := received s @ take n (stream s) \<rparr>)"
proof -
  define u where "u = s\<lparr> io := (io s)\<lparr> ring_mem := m, inflight := es, cqes := cqes (io s) @ [int n],
       counter := counter (io s) + 1 \<rparr>, stream := drop n (stream s), received := received s @ take n (stream s) \<rparr>"
  have one: "es = []" "sq (io s) = []" "cqes (io s) = []" using inv e by (simp_all add: uring_inv_def)
  have sn: "seen s = length (received s)" by (simp add: seen_def pending_def one)
  have su: "seen u = seen s" "pending u = n"
    using n(3) by (simp_all add: seen_def pending_def u_def one sn)
  have ok: "dest e = length (received s) mod 2 ^ p" "dest e + n \<le> 2 ^ p"
      "length (received s) + n \<le> length (delivered s) + 2 ^ p"
    using inv e n by (auto simp: uring_inv_def request_ok_def sn)
  have lm: "length (ring_mem (io s)) = 2 ^ p" using inv by (simp add: uring_inv_def)
  have m: "m = take (dest e) (ring_mem (io s)) @ take n (stream s) @ drop (dest e + n) (ring_mem (io s))"
    using st n by (auto simp: store_block_def split: if_splits)
  have len: "length m = 2 ^ p" using m ok lm n by simp
  have del: "length (delivered s) \<le> length (received s)" using inv sn by (simp add: uring_inv_def)
  have pos: "(length (received s) + j) mod 2 ^ p = dest e + j" if "j < n" for j
  proof -
    have "(length (received s) + j) mod 2 ^ p = (dest e + j) mod 2 ^ p" by (simp add: ok(1) mod_add_left_eq)
    then show ?thesis using that ok(2) by simp
  qed
  have mem: "m ! (i mod 2 ^ p) = (received s @ take n (stream s)) ! i"
    if i: "length (delivered s) \<le> i" "i < length (received s) + n" for i
  proof (cases "i < length (received s)")
    case True
    have neq: "i mod 2 ^ p \<noteq> dest e + j" if "j < n" for j
      using mod_window [of i "length (received s) + j" "2 ^ p"] True i ok(3) that pos [OF that] by simp
    have "i mod 2 ^ p < dest e \<or> dest e + n \<le> i mod 2 ^ p"
    proof (rule ccontr)
      assume "\<not> (i mod 2 ^ p < dest e \<or> dest e + n \<le> i mod 2 ^ p)"
      then have "i mod 2 ^ p = dest e + (i mod 2 ^ p - dest e)" "i mod 2 ^ p - dest e < n" by linarith+
      then show False using neq by blast
    qed
    then have "m ! (i mod 2 ^ p) = ring_mem (io s) ! (i mod 2 ^ p)"
      using lm ok(2) n(3) by (auto simp: m nth_append min_def)
    also have "\<dots> = received s ! i" using inv True i(1) by (simp add: uring_inv_def)
    finally show ?thesis using True by (simp add: nth_append)
  next
    case False
    define j where "j = i - length (received s)"
    have j: "i = length (received s) + j" "j < n" using False i by (simp_all add: j_def)
    have "m ! (dest e + j) = stream s ! j" using j(2) lm ok(2) n(3) by (simp add: m nth_append)
    then show ?thesis using pos [OF j(2)] j n(3) by (simp add: nth_append)
  qed
  have "delivered u = take (length (delivered u)) (received u)"
    using inv del by (simp add: u_def uring_inv_def)
  moreover have "ring_len u = ring_len s" by (simp add: ring_len_def u_def)
  moreover have "received u @ stream u = bs" using inv by (simp add: u_def uring_inv_def)
  moreover have "length (received u) = length (received s) + n" using n(3) by (simp add: u_def)
  ultimately have "uring_inv p bs u"
    using inv su len mem ok(3) del one sn unfolding uring_inv_def by (simp add: u_def)
  then show ?thesis by (simp add: u_def)
qed

lemma uring_inv_step:
  assumes inv: "uring_inv p bs s" and "uring_step s t"
  shows "uring_inv p bs t"
  using assms(2)
proof cases
  case (submit max_bytes sqe_free submit_ret r t)
  then show ?thesis using uring_inv_submit [OF inv] by blast
next
  case (complete e es n m)
  then show ?thesis using uring_inv_complete [OF inv] by blast
next
  case (complete_none e es r)
  have one: "es = []" "sq (io s) = []" "cqes (io s) = []" using inv complete_none by (simp_all add: uring_inv_def)
  have "pending t = 0" "pending s = 0" using complete_none one by (simp_all add: pending_def)
  moreover have "seen t = seen s" "ring_len t = ring_len s"
    using complete_none one calculation by (simp_all add: seen_def ring_len_def)
  ultimately show ?thesis using inv complete_none one by (simp add: uring_inv_def)
next
  case (peek r t out)
  show ?thesis
  proof (cases "cqes (io s)")
    case Nil
    then show ?thesis using inv peek by (auto simp: hs_iouring_peek_cqe_def)
  next
    case (Cons res rest)
    then show ?thesis using uring_inv_consume [OF inv Cons] peek by (simp add: hs_iouring_peek_cqe_def)
  qed
next
  case (wait w r t out)
  show ?thesis
  proof (cases "w < 0")
    case True
    then show ?thesis using inv wait by (auto simp: hs_iouring_wait_cqe_def)
  next
    case False
    then obtain res rest where "cqes (io s) = res # rest"
      using wait by (auto simp: hs_iouring_wait_cqe_def split: list.splits)
    then show ?thesis using False uring_inv_consume [OF inv] wait by (simp add: hs_iouring_wait_cqe_def)
  qed
next
  case (deliver k)
  let ?d = "length (delivered s)"
  have len: "ring_len s = 2 ^ p" and sn: "seen s \<le> length (received s)"
      and mem: "\<And>i. ?d \<le> i \<Longrightarrow> i < length (received s) \<Longrightarrow> ring_mem (io s) ! (i mod 2 ^ p) = received s ! i"
      and d: "delivered s = take ?d (received s)" "?d \<le> seen s"
    using inv by (simp_all add: uring_inv_def seen_def)
  have "map (\<lambda>i. ring_mem (io s) ! ((?d + i) mod ring_len s)) [0..<k] = take k (drop ?d (received s))"
    using deliver(2) sn d(2) by (intro nth_equalityI) (simp_all add: len mem)
  then have t: "t = s\<lparr> delivered := delivered s @ take k (drop ?d (received s)) \<rparr>" using deliver(1) by simp
  have "delivered t = take (?d + k) (received s)" using t d(1) by (metis sys.select_convs(4) sys.surjective sys.update_convs(4) take_add)
  moreover have "length (delivered t) = ?d + k" using calculation deliver(2) sn d(2) by simp
  moreover have "seen t = seen s" "pending t = pending s" "ring_len t = ring_len s" "io t = io s" "received t = received s" "stream t = stream s"
    by (simp_all add: t seen_def pending_def ring_len_def)
  moreover have "request_ok p t e" if "request_ok p s e" for e
    using that calculation(2,3) by (simp add: request_ok_def)
  ultimately show ?thesis using inv deliver(2) d(2) by (auto simp: uring_inv_def)
qed

subsection \<open>Properties\<close>

text \<open>A transport at work: what the caller has after a successful create.\<close>

definition uring_start :: "nat \<Rightarrow> bytes \<Rightarrow> sys \<Rightarrow> bool" where
  "uring_start p bs s \<longleftrightarrow>
     (\<exists>init_ret fd reg_ret sock depth idle mem sz s0.
        hs_iouring_create init_ret (Inr fd) reg_ret sock depth idle (Some mem) sz s0 = (0, io s) \<and>
        unat sz = 2 ^ p \<and> p < 64 \<and> length mem = 2 ^ p) \<and>
     stream s = bs \<and> received s = [] \<and> delivered s = []"

lemma create_ok:
  assumes "hs_iouring_create init_ret (Inr fd) reg_ret sock depth idle (Some mem) sz s0 = (0, t)"
  shows "uring t = \<lparr> event_fd = fd, socket_fd = sock, ring_buf_size = sz, ring_buf_mask = sz - 1,
      head = 0, closed = False \<rparr> \<and> ring_mem t = mem \<and> sq t = [] \<and> inflight t = [] \<and> cqes t = []"
  using assms
  by (auto simp: hs_iouring_create_def Let_def EINVAL_def io_uring_queue_exit_def split: if_splits sum.splits)

lemma uring_inv_start: "uring_start p bs s \<Longrightarrow> uring_inv p bs s"
  by (auto simp: uring_start_def uring_inv_def ring_len_def seen_def pending_def dest!: create_ok)

text \<open>The transport is a queue.  In every state it can reach, with the caller keeping one receive
  outstanding and asking for at most the free space, what the reader took out of the ring's memory is
  a prefix of what the peer sent, nothing lost, doubled or reordered; the bytes still in the ring are
  the next ones, at their positions modulo the size; the code's 64-bit head counts the bytes it has
  seen, also past its wrap-around; and every request in flight targets free bytes inside the buffer,
  so no completion can fault or overwrite unread data.\<close>

theorem uring_is_queue:
  assumes "uring_start p bs s0" and "uring_reachable s0 s"
  shows "(\<exists>rest. bs = delivered s @ rest @ stream s \<and> length rest \<le> 2 ^ p \<and>
      (\<forall>k < length rest. ring_mem (io s) ! ((length (delivered s) + k) mod 2 ^ p) = rest ! k)) \<and>
    hs_iouring_get_head (io s) = of_nat (seen s) \<and> seen s \<le> length (received s) \<and>
    (\<forall>e \<in> set (inflight (io s)). dest e + sqe_len e \<le> length (ring_mem (io s)) \<and>
       (\<forall>i. length (delivered s) \<le> i \<and> i < length (received s) \<longrightarrow>
          \<not> (dest e \<le> i mod 2 ^ p \<and> i mod 2 ^ p < dest e + sqe_len e)))"
proof -
  have inv: "uring_inv p bs s"
    using assms(2) by (induction rule: uring_reachable.induct) (auto intro: uring_inv_step uring_inv_start [OF assms(1)])
  let ?d = "length (delivered s)"
  have d: "delivered s = take ?d (received s)" "?d \<le> seen s" "seen s \<le> length (received s)"
    using inv by (simp_all add: uring_inv_def seen_def)
  have "delivered s @ drop ?d (received s) = received s" using d(1) append_take_drop_id by metis
  moreover have "received s @ stream s = bs" using inv by (simp add: uring_inv_def)
  ultimately have "bs = delivered s @ drop ?d (received s) @ stream s" by (metis append.assoc)
  moreover have "length (drop ?d (received s)) \<le> 2 ^ p"
    using inv unfolding uring_inv_def length_drop by linarith
  moreover have "ring_mem (io s) ! ((?d + k) mod 2 ^ p) = drop ?d (received s) ! k" if "k < length (drop ?d (received s))" for k
    using inv that by (simp add: uring_inv_def)
  moreover have "\<not> (dest e \<le> i mod 2 ^ p \<and> i mod 2 ^ p < dest e + sqe_len e)"
    if e: "e \<in> set (inflight (io s))" and i: "?d \<le> i" "i < length (received s)" for e i
  proof
    assume b: "dest e \<le> i mod 2 ^ p \<and> i mod 2 ^ p < dest e + sqe_len e"
    have "cqes (io s) = []" using inv e by (cases "inflight (io s)") (auto simp: uring_inv_def)
    then have sn: "seen s = length (received s)" by (simp add: seen_def pending_def)
    have r: "dest e = seen s mod 2 ^ p" "dest e + sqe_len e \<le> 2 ^ p" "seen s + sqe_len e \<le> ?d + 2 ^ p"
    proof -
      have "request_ok p s e" using inv e by (simp add: uring_inv_def)
      then show "dest e = seen s mod 2 ^ p" "dest e + sqe_len e \<le> 2 ^ p" "seen s + sqe_len e \<le> ?d + 2 ^ p"
        by (simp_all add: request_ok_def)
    qed
    define j where "j = i mod 2 ^ p - dest e"
    have j: "i mod 2 ^ p = dest e + j" "j < sqe_len e" using b by (auto simp: j_def)
    have "(seen s + j) mod 2 ^ p = (dest e + j) mod 2 ^ p" by (simp add: r(1) mod_add_left_eq)
    then have "i mod 2 ^ p = (seen s + j) mod 2 ^ p" using j r(2) by simp
    then show False using mod_window [of i "seen s + j" "2 ^ p"] i r(3) j(2) sn by simp
  qed
  moreover have "dest e + sqe_len e \<le> length (ring_mem (io s))" if "e \<in> set (inflight (io s))" for e
  proof -
    have "request_ok p s e" using inv that by (simp add: uring_inv_def)
    then have "dest e + sqe_len e \<le> 2 ^ p" by (simp add: request_ok_def)
    then show ?thesis using inv by (simp add: uring_inv_def)
  qed
  moreover have "hs_iouring_get_head (io s) = of_nat (seen s)" using inv by (simp add: hs_iouring_get_head_def uring_inv_def)
  ultimately show ?thesis using d(3) by blast
qed

text \<open>A ring of 4 bytes: submit, three bytes arrive, they are consumed and two delivered.\<close>

definition sample_io :: "nat \<Rightarrow> io" where
  "sample_io k = \<lparr> uring = \<lparr> event_fd = 5, socket_fd = 3, ring_buf_size = 4, ring_buf_mask = 3,
       head = (if k < 3 then 0 else 3), closed = False \<rparr>,
     ring_mem = (if k < 2 then [0, 0, 0, 0] else [1, 2, 3, 0]), sq = [],
     inflight = (if k = 1 then [\<lparr> dest = 0, sqe_len = 4, user_data = 0 \<rparr>] else []),
     cqes = (if k = 2 then [3] else []), counter = (if k = 2 then 1 else 0), ring_live = True, open_fds = {5} \<rparr>"

definition sample_sys :: "nat \<Rightarrow> sys" where
  "sample_sys k = \<lparr> io = sample_io k, stream = (if k < 2 then [1, 2, 3, 4, 5] else [4, 5]),
     received = (if k < 2 then [] else [1, 2, 3]), delivered = (if k < 4 then [] else [1, 2]) \<rparr>"

lemma sample_create:
  "hs_iouring_create 0 (Inr 5) 0 3 8 0 (Some [0, 0, 0, 0]) 4
     (sample_io 0 \<lparr> ring_live := False, open_fds := {} \<rparr>) = (0, sample_io 0)"
  by (simp add: hs_iouring_create_def sample_io_def)

lemma sample_submit: "hs_iouring_submit_recv True 1 4 (sample_io 0) = (1, sample_io 1)"
  by (simp add: hs_iouring_submit_recv_def sample_io_def Let_def IOURING_MAX_RECV_def)

lemma sample_reach: "uring_reachable (sample_sys 0) (sample_sys 4)"
proof -
  have io: "io (sample_sys k) = sample_io k" for k by (simp add: sample_sys_def)
  have len: "ring_len (sample_sys k) = 4" for k by (simp add: ring_len_def sample_sys_def sample_io_def)
  have "uring_step (sample_sys 0) ((sample_sys 0)\<lparr> io := sample_io 1 \<rparr>)"
    by (rule uring_step.submit [where max_bytes = 4 and sqe_free = True and submit_ret = 1 and r = 1])
      (simp_all add: sample_submit len io, simp_all add: sample_sys_def sample_io_def seen_def pending_def sample_submit)
  moreover have "(sample_sys 0)\<lparr> io := sample_io 1 \<rparr> = sample_sys 1" by (simp add: sample_sys_def)
  moreover have "uring_step (sample_sys 1) (sample_sys 2)"
    using uring_step.complete [of "sample_sys 1" "\<lparr> dest = 0, sqe_len = 4, user_data = 0 \<rparr>" "[]" 3 "[1, 2, 3, 0]"]
    by (simp add: sample_sys_def sample_io_def store_block_def eval_nat_numeral)
  moreover have "uring_step (sample_sys 2) (sample_sys 3)"
    using uring_step.peek [of "sample_sys 2" 3 "sample_io 3" "Some 3"]
    by (simp add: sample_sys_def sample_io_def hs_iouring_peek_cqe_def consume_cqe_def drain_eventfd_eq)
  moreover have "uring_step (sample_sys 3) (sample_sys 4)"
    using uring_step.deliver [of 2 "sample_sys 3"] len [of 3]
    by (simp add: sample_sys_def sample_io_def seen_def pending_def eval_nat_numeral)
  ultimately show ?thesis by (metis uring_reachable.intros)
qed

theorem uring_is_queue_witness:
  "(\<exists>rest. [1, 2, 3, 4, 5] = delivered (sample_sys 4) @ rest @ stream (sample_sys 4) \<and> length rest \<le> 2 ^ 2 \<and>
      (\<forall>k < length rest. ring_mem (io (sample_sys 4)) ! ((length (delivered (sample_sys 4)) + k) mod 2 ^ 2) = rest ! k)) \<and>
    hs_iouring_get_head (io (sample_sys 4)) = of_nat (seen (sample_sys 4)) \<and>
    seen (sample_sys 4) \<le> length (received (sample_sys 4)) \<and>
    (\<forall>e \<in> set (inflight (io (sample_sys 4))). dest e + sqe_len e \<le> length (ring_mem (io (sample_sys 4))) \<and>
       (\<forall>i. length (delivered (sample_sys 4)) \<le> i \<and> i < length (received (sample_sys 4)) \<longrightarrow>
          \<not> (dest e \<le> i mod 2 ^ 2 \<and> i mod 2 ^ 2 < dest e + sqe_len e)))"
proof (rule uring_is_queue [OF _ sample_reach])
  have io: "io (sample_sys 0) = sample_io 0" by (simp add: sample_sys_def)
  have "unat (4 :: u64) = 2 ^ 2" "(2 :: nat) < 64" "length [0, 0, 0, 0 :: u8] = 2 ^ 2" by simp_all
  then have "\<exists>init_ret fd reg_ret sock depth idle mem sz s0.
        hs_iouring_create init_ret (Inr fd) reg_ret sock depth idle (Some mem) sz s0 = (0, io (sample_sys 0)) \<and>
        unat sz = 2 ^ 2 \<and> (2 :: nat) < 64 \<and> length mem = 2 ^ 2"
    unfolding io using sample_create by blast
  then show "uring_start 2 [1, 2, 3, 4, 5] (sample_sys 0)"
    unfolding uring_start_def by (simp add: sample_sys_def)
qed

lemma one_bit:
  assumes "(n :: u64) \<noteq> 0" and "n AND (n - 1) = 0"
  shows "\<exists>p. unat n = 2 ^ p"
proof -
  have same: "j = builtin_ctz n" if "bit n j" for j
    using clear_lowest [OF assms(1), of j] assms(2) that by simp
  obtain j where j: "bit n j" using assms(1) by (auto simp: bit_eq_iff)
  then have "j < 64" using bit_imp_le_length [OF j] by simp
  moreover have "n = 2 ^ j"
    by (rule bit_word_eqI) (use same j in \<open>auto simp: bit_exp_iff\<close>)
  ultimately show ?thesis using unat_exp by blast
qed

text \<open>Creation either fails with a negative code and leaves nothing open, and then destroying is a
  no-op, or succeeds with exactly one more descriptor and a live ring, both released by destroying
  once; destroying again changes nothing.\<close>

theorem iouring_create_destroy:
  assumes "hs_iouring_create init_ret efd reg_ret sock depth idle ring_buf sz s = (r, t)"
    and "\<not> ring_live s" and "\<And>fd. efd = Inr fd \<Longrightarrow> 0 \<le> fd \<and> fd \<notin> open_fds s" and "\<And>e. efd = Inl e \<Longrightarrow> 0 < e"
  shows "(if r < 0 then open_fds t = open_fds s \<and> \<not> ring_live t \<and> hs_iouring_destroy t = t
     else r = 0 \<and> (\<exists>fd. efd = Inr fd \<and> open_fds t = insert fd (open_fds s)) \<and> ring_live t \<and>
       (\<exists>p. unat sz = 2 ^ p)) \<and>
    open_fds (hs_iouring_destroy t) = open_fds s \<and> \<not> ring_live (hs_iouring_destroy t) \<and>
    hs_iouring_destroy (hs_iouring_destroy t) = hs_iouring_destroy t"
proof (cases "r < 0")
  case True
  then show ?thesis using assms
    by (auto simp: hs_iouring_create_def hs_iouring_destroy_def io_uring_queue_exit_def os_close_def Let_def
        split: if_splits sum.splits)
next
  case False
  obtain fd where fd: "efd = Inr fd" "0 \<le> fd" "fd \<notin> open_fds s"
      and t: "open_fds t = insert fd (open_fds s)" "ring_live t" "event_fd (uring t) = fd" "r = 0"
      and sz: "sz \<noteq> 0" "sz AND (sz - 1) = 0"
    using assms False
    by (auto simp: hs_iouring_create_def io_uring_queue_exit_def EINVAL_def Let_def split: if_splits sum.splits)
  have d: "open_fds (hs_iouring_destroy t) = open_fds s" "\<not> ring_live (hs_iouring_destroy t)"
      "event_fd (uring (hs_iouring_destroy t)) = -1"
    using fd t by (auto simp: hs_iouring_destroy_def io_uring_queue_exit_def os_close_def Let_def)
  then have "hs_iouring_destroy (hs_iouring_destroy t) = hs_iouring_destroy t"
    by (simp add: hs_iouring_destroy_def [of "hs_iouring_destroy t"])
  then show ?thesis using False fd(1) t d one_bit [OF sz] by auto
qed

text \<open>The registration of the eventfd fails: it is closed again and the ring released.\<close>

theorem iouring_create_destroy_witness:
  "let s = (sample_io 0)\<lparr> ring_live := False, open_fds := {3} \<rparr>;
       t = snd (hs_iouring_create 0 (Inr 5) (-12) 3 8 0 (Some [0, 0, 0, 0]) 4 s)
   in (if (-12 :: int) < 0 then open_fds t = open_fds s \<and> \<not> ring_live t \<and> hs_iouring_destroy t = t
     else (-12 :: int) = 0 \<and> (\<exists>fd. (Inr 5 :: int + int) = Inr fd \<and> open_fds t = insert fd (open_fds s)) \<and> ring_live t \<and>
       (\<exists>p. unat (4 :: u64) = 2 ^ p)) \<and>
    open_fds (hs_iouring_destroy t) = open_fds s \<and> \<not> ring_live (hs_iouring_destroy t) \<and>
    hs_iouring_destroy (hs_iouring_destroy t) = hs_iouring_destroy t"
proof -
  have "fst (hs_iouring_create 0 (Inr 5) (-12) 3 8 0 (Some [0, 0, 0, 0]) 4
      ((sample_io 0)\<lparr> ring_live := False, open_fds := {3} \<rparr>)) = -12"
    by (simp add: hs_iouring_create_def sample_io_def Let_def)
  then show ?thesis unfolding Let_def
    by (intro iouring_create_destroy [OF prod_eqI]) (simp_all add: sample_io_def)
qed

end
