(* ===== verification/Decompress.thy ===== *)
theory Decompress
  imports Pmd
begin

text \<open>
  The decompression wrappers of the Kafka client: \<open>wireform-kafka/cbits/wireform_decompress.c\<close> (gzip and
  LZ4 frames into a caller's buffer) and \<open>lz4_ffi.c\<close> (an LZ4 frame into a buffer that grows).  zlib and
  liblz4 are parameters: a decoder state and what one call does with the input it is given and the room
  it has.  What is modelled is everything around the calls: the chunking, the offsets, the loops, the
  return codes and the allocations.
\<close>

datatype wf_rc = WF_OK | WF_NEEDS_MORE_OUT | WF_BAD_INPUT | WF_INIT_FAIL

subsection \<open>Gzip\<close>

datatype gz_flush = GZ_NO_FLUSH | GZ_FINISH

record 'z gz =
  gz_state :: 'z
  in_off :: nat
  gz_avail_in :: nat
  gz_in_left :: nat
  out_off :: nat
  gz_avail_out :: nat
  gz_out_left :: nat
  gz_dst :: bytes

text \<open>The head of the loop body: a new chunk for whichever side is used up.\<close>

definition gz_refill :: "nat \<Rightarrow> 'z gz \<Rightarrow> 'z gz" where
  "gz_refill chunk g =
     (let g = (if gz_avail_in g = 0 then
                 let n = (if gz_in_left g < chunk then gz_in_left g else chunk)
                 in g\<lparr> gz_avail_in := uInt n, gz_in_left := gz_in_left g - n \<rparr>
               else g)
      in if gz_avail_out g = 0 then
           let n = (if gz_out_left g < chunk then gz_out_left g else chunk)
           in g\<lparr> gz_avail_out := uInt n, gz_out_left := gz_out_left g - n \<rparr>
         else g)"

text \<open>The call, with its effect on the stream's counters.\<close>

definition gz_call ::
  "(gz_flush \<Rightarrow> 'z \<Rightarrow> bytes \<Rightarrow> nat \<Rightarrow> 'z z_done) \<Rightarrow> bytes \<Rightarrow> 'z gz \<Rightarrow> (z_rc \<times> 'z gz) option" where
  "gz_call inflate src g = do {
     inp \<leftarrow> load_block src (in_off g) (gz_avail_in g);
     let r = inflate (if gz_in_left g = 0 \<and> gz_out_left g = 0 then GZ_FINISH else GZ_NO_FLUSH)
               (gz_state g) inp (gz_avail_out g);
     dst \<leftarrow> store_block (gz_dst g) (out_off g) (z_out r);
     Some (z_code r, g\<lparr> gz_state := z_next r, in_off := in_off g + z_used r,
       gz_avail_in := gz_avail_in g - z_used r, out_off := out_off g + length (z_out r),
       gz_avail_out := gz_avail_out g - length (z_out r), gz_dst := dst \<rparr>)
   }"

definition gz_again :: "'z gz \<Rightarrow> bool" where
  "gz_again g \<longleftrightarrow> gz_avail_in g = 0 \<and> gz_in_left g \<noteq> 0 \<or> gz_avail_out g = 0 \<and> gz_out_left g \<noteq> 0"

partial_function (option) gz_loop ::
  "(gz_flush \<Rightarrow> 'z \<Rightarrow> bytes \<Rightarrow> nat \<Rightarrow> 'z z_done) \<Rightarrow> nat \<Rightarrow> bytes \<Rightarrow> 'z gz \<Rightarrow> (z_rc \<times> 'z gz) option" where
  "gz_loop inflate chunk src g =
     (case gz_call inflate src (gz_refill chunk g) of
        None \<Rightarrow> None
      | Some (rc, g) \<Rightarrow>
          if rc \<noteq> Z_OK \<and> rc \<noteq> Z_BUF_ERROR then Some (rc, g)
          else if \<not> gz_again g then Some (rc, g)
          else gz_loop inflate chunk src g)"

text \<open>\<open>init\<close> is what \<open>inflateInit2\<close> gives; the result is the code, \<open>*out_produced\<close> and the buffer.\<close>

definition wf_gzip_inflate_into ::
  "(gz_flush \<Rightarrow> 'z \<Rightarrow> bytes \<Rightarrow> nat \<Rightarrow> 'z z_done) \<Rightarrow> z_rc \<times> 'z \<Rightarrow> nat \<Rightarrow> bytes \<Rightarrow> nat \<Rightarrow> bytes \<Rightarrow> nat \<Rightarrow>
    (wf_rc \<times> nat \<times> bytes) option" where
  "wf_gzip_inflate_into inflate init chunk src src_len dst dst_cap =
     (let (rc, z) = init
      in if rc \<noteq> Z_OK then Some (WF_INIT_FAIL, 0, dst)
         else do {
           (rc, g) \<leftarrow> gz_loop inflate chunk src
             \<lparr> gz_state = z, in_off = 0, gz_avail_in = 0, gz_in_left = src_len,
               out_off = 0, gz_avail_out = 0, gz_out_left = dst_cap, gz_dst = dst \<rparr>;
           let produced = dst_cap - gz_out_left g - gz_avail_out g;
           Some (if rc = Z_STREAM_END then WF_OK
                 else if rc = Z_BUF_ERROR \<or> rc = Z_OK then
                   (if gz_avail_out g = 0 then WF_NEEDS_MORE_OUT else WF_BAD_INPUT)
                 else WF_BAD_INPUT, produced, gz_dst g)
         })"

subsection \<open>LZ4 frames\<close>

datatype hint = Hint_Error | Hint_Done | Hint_More

record 'd lz4_done =
  hint :: hint
  src_size :: nat
  dst_bytes :: bytes
  dctx :: 'd

text \<open>The loop ends when the frame does, at an error, when one of the buffers is used up, or when a call
  made no progress.\<close>

partial_function (option) lz4_loop ::
  "('d \<Rightarrow> bytes \<Rightarrow> nat \<Rightarrow> 'd lz4_done) \<Rightarrow> 'd \<Rightarrow> bytes \<Rightarrow> nat \<Rightarrow> bytes \<Rightarrow> nat \<Rightarrow> nat \<Rightarrow> nat \<Rightarrow>
    (hint \<times> nat \<times> nat \<times> bytes \<times> 'd) option" where
  "lz4_loop LZ4F_decompress d src src_len dst dst_cap ioff ooff =
     (case load_block src ioff (src_len - ioff) of
        None \<Rightarrow> None
      | Some inp \<Rightarrow>
          let r = LZ4F_decompress d inp (dst_cap - ooff)
          in case store_block dst ooff (dst_bytes r) of
               None \<Rightarrow> None
             | Some dst \<Rightarrow>
                 if hint r = Hint_Error then Some (Hint_Error, ioff, ooff, dst, dctx r)
                 else let ioff = ioff + src_size r; ooff = ooff + length (dst_bytes r)
                      in if hint r = Hint_Done \<or> ioff = src_len \<or> ooff = dst_cap \<or>
                            src_size r = 0 \<and> length (dst_bytes r) = 0
                         then Some (hint r, ioff, ooff, dst, dctx r)
                         else lz4_loop LZ4F_decompress (dctx r) src src_len dst dst_cap ioff ooff)"

text \<open>\<open>create\<close> is the context, \<open>None\<close> when it cannot be made; the results are the code, \<open>*out_produced\<close>,
  \<open>*out_consumed\<close> and the buffer.\<close>

definition wf_lz4f_decompress_into ::
  "('d \<Rightarrow> bytes \<Rightarrow> nat \<Rightarrow> 'd lz4_done) \<Rightarrow> 'd option \<Rightarrow> bytes \<Rightarrow> nat \<Rightarrow> bytes \<Rightarrow> nat \<Rightarrow>
    (wf_rc \<times> nat \<times> nat \<times> bytes) option" where
  "wf_lz4f_decompress_into LZ4F_decompress create src src_len dst dst_cap =
     (case create of
        None \<Rightarrow> Some (WF_INIT_FAIL, 0, 0, dst)
      | Some d \<Rightarrow> do {
          (h, ioff, ooff, dst, _) \<leftarrow> lz4_loop LZ4F_decompress d src src_len dst dst_cap 0 0;
          Some (if h = Hint_Error then WF_BAD_INPUT
                else if h = Hint_Done then WF_OK
                else if ooff = dst_cap then WF_NEEDS_MORE_OUT else WF_BAD_INPUT, ooff, ioff, dst)
        })"

text \<open>\<open>lz4f_run\<close> of \<open>lz4_ffi.c\<close> is the same loop with the tests in another order; the results are its
  code, \<open>*produced\<close>, the buffer and the context.\<close>

partial_function (option) lz4f_run ::
  "('d \<Rightarrow> bytes \<Rightarrow> nat \<Rightarrow> 'd lz4_done) \<Rightarrow> 'd \<Rightarrow> bytes \<Rightarrow> nat \<Rightarrow> bytes \<Rightarrow> nat \<Rightarrow> nat \<Rightarrow> nat \<Rightarrow> nat \<Rightarrow>
    (int \<times> nat \<times> bytes \<times> 'd) option" where
  "lz4f_run LZ4F_decompress d dst cap src len ioff ooff produced =
     (case load_block src ioff (len - ioff) of
        None \<Rightarrow> None
      | Some inp \<Rightarrow>
          let r = LZ4F_decompress d inp (cap - ooff)
          in case store_block dst ooff (dst_bytes r) of
               None \<Rightarrow> None
             | Some dst \<Rightarrow>
                 if hint r = Hint_Error then Some (-1, produced, dst, dctx r)
                 else let ioff = ioff + src_size r; ooff = ooff + length (dst_bytes r); produced = ooff
                      in if hint r = Hint_Done then Some (0, produced, dst, dctx r)
                         else if ooff = cap then Some (1, produced, dst, dctx r)
                         else if ioff = len \<or> src_size r = 0 \<and> length (dst_bytes r) = 0
                         then Some (-1, produced, dst, dctx r)
                         else lz4f_run LZ4F_decompress (dctx r) dst cap src len ioff ooff produced)"

definition SIZE_MAX :: nat where
  "SIZE_MAX = 2 ^ 64 - 1"

text \<open>The attempts with doubling capacity.  \<open>malloc\<close> gives a buffer of the size or \<open>None\<close>; \<open>live\<close> counts the
  buffers held.  The results are the code, \<open>produced\<close>, the buffer (\<open>None\<close> for NULL) and \<open>live\<close>.  (A
  capacity of 0, which would not grow, does not occur: the first is at least 64 KiB.)\<close>

function lz4_attempts ::
  "('d \<Rightarrow> bytes \<Rightarrow> nat \<Rightarrow> 'd lz4_done) \<Rightarrow> ('d \<Rightarrow> 'd) \<Rightarrow> (nat \<Rightarrow> bytes option) \<Rightarrow> 'd \<Rightarrow> bytes \<Rightarrow> nat \<Rightarrow> nat \<Rightarrow> nat \<Rightarrow> nat \<Rightarrow>
    (int \<times> nat \<times> bytes option \<times> nat) option" where
  "lz4_attempts LZ4F_decompress reset malloc d inp n cap produced live =
     (case malloc cap of
        None \<Rightarrow> Some (-1, produced, None, live)
      | Some buf \<Rightarrow>
          let live = live + 1
          in case lz4f_run LZ4F_decompress d buf cap inp n 0 0 produced of
               None \<Rightarrow> None
             | Some (rc, produced, buf, d) \<Rightarrow>
                 if rc \<noteq> 1 then Some (rc, produced, Some buf, live)
                 else let live = live - 1
                      in if cap > SIZE_MAX div 2 \<or> cap = 0 then Some (-1, produced, None, live)
                         else lz4_attempts LZ4F_decompress reset malloc (reset d) inp n (cap * 2) produced live)"
  by auto

termination
  by (relation "measure (\<lambda>(_, _, _, _, _, _, cap, _, _). SIZE_MAX - cap)") (auto simp: SIZE_MAX_def)

declare lz4_attempts.simps [simp del]

definition first_capacity :: "nat \<Rightarrow> nat" where
  "first_capacity input_length =
     (let cap = (if input_length \<le> SIZE_MAX div 4 then input_length * 4 else SIZE_MAX)
      in if cap < 64 * 1024 then 64 * 1024 else cap)"

text \<open>The result, \<open>*output\<close> and the buffers held at the end.\<close>

definition lz4_decompress_wrapper ::
  "('d \<Rightarrow> bytes \<Rightarrow> nat \<Rightarrow> 'd lz4_done) \<Rightarrow> ('d \<Rightarrow> 'd) \<Rightarrow> (nat \<Rightarrow> bytes option) \<Rightarrow> 'd option \<Rightarrow> bytes option \<Rightarrow> nat \<Rightarrow>
    (nat \<times> bytes option \<times> nat) option" where
  "lz4_decompress_wrapper LZ4F_decompress reset malloc create inp input_length =
     (case inp of
        None \<Rightarrow> Some (0, None, 0)
      | Some inp \<Rightarrow>
          (case create of
             None \<Rightarrow> Some (0, None, 0)
           | Some d \<Rightarrow>
               let cap = first_capacity input_length
               in do {
                 (rc, produced, buf, live) \<leftarrow> lz4_attempts LZ4F_decompress reset malloc d inp input_length cap 0 0;
                 Some (if rc \<noteq> 0 \<or> produced = 0
                       then (0, None, case buf of None \<Rightarrow> live | Some _ \<Rightarrow> live - 1)
                       else (produced, buf, live))
               }))"

subsection \<open>What the libraries document\<close>

text \<open>\<open>frm f\<close> is the content of a complete frame \<open>f\<close>.  A context in use (\<open>good\<close>) has taken some input and
  made some output (\<open>obs\<close>).  A call stays inside what it is given; it reports the end exactly after a
  frame, makes progress if it can, never fails on the way through a valid frame, and after the last
  byte of one asks for more only when the room is used up.\<close>

definition self_delimiting :: "(bytes \<Rightarrow> bytes option) \<Rightarrow> bool" where
  "self_delimiting frm \<longleftrightarrow> (\<forall>f g. frm f \<noteq> None \<and> frm g \<noteq> None \<and> prefix f g \<longrightarrow> f = g)"

definition frame_call ::
  "('d \<Rightarrow> bool) \<Rightarrow> ('d \<Rightarrow> bytes \<times> bytes) \<Rightarrow> (bytes \<Rightarrow> bytes option) \<Rightarrow> 'd \<Rightarrow> bytes \<Rightarrow> nat \<Rightarrow> 'd lz4_done \<Rightarrow> bool" where
  "frame_call good obs frm d src room r \<longleftrightarrow>
     (let i = fst (obs d); out = snd (obs d);
          i' = i @ take (src_size r) src; out' = out @ dst_bytes r
      in src_size r \<le> length src \<and> length (dst_bytes r) \<le> room \<and>
         (hint r \<noteq> Hint_Error \<longrightarrow> good (dctx r) \<and> obs (dctx r) = (i', out')) \<and>
         (hint r = Hint_Done \<longrightarrow> frm i' = Some out') \<and>
         (hint r = Hint_More \<and> src_size r = 0 \<and> dst_bytes r = [] \<longrightarrow> src = [] \<or> room = 0) \<and>
         (\<forall>f content. frm f = Some content \<and> prefix i f \<and> prefix out content \<and> (prefix (i @ src) f \<or> prefix f (i @ src)) \<longrightarrow>
            hint r \<noteq> Hint_Error \<and> prefix i' f \<and> prefix out' content \<and>
            (hint r = Hint_More \<and> i' = f \<longrightarrow> length (dst_bytes r) = room)))"

definition lz4_documented ::
  "('d \<Rightarrow> bool) \<Rightarrow> ('d \<Rightarrow> bytes \<times> bytes) \<Rightarrow> (bytes \<Rightarrow> bytes option) \<Rightarrow> ('d \<Rightarrow> bytes \<Rightarrow> nat \<Rightarrow> 'd lz4_done) \<Rightarrow> bool" where
  "lz4_documented good obs frm step \<longleftrightarrow>
     self_delimiting frm \<and> (\<forall>d src room. good d \<longrightarrow> frame_call good obs frm d src room (step d src room))"

lemma frame_callD:
  assumes "frame_call good obs frm d src room r"
  shows "src_size r \<le> length src" "length (dst_bytes r) \<le> room"
    "hint r \<noteq> Hint_Error \<Longrightarrow> good (dctx r)"
    "hint r \<noteq> Hint_Error \<Longrightarrow> obs (dctx r) = (fst (obs d) @ take (src_size r) src, snd (obs d) @ dst_bytes r)"
    "hint r = Hint_Done \<Longrightarrow> frm (fst (obs d) @ take (src_size r) src) = Some (snd (obs d) @ dst_bytes r)"
    "hint r = Hint_More \<Longrightarrow> src_size r = 0 \<Longrightarrow> dst_bytes r = [] \<Longrightarrow> src = [] \<or> room = 0"
    "frm f = Some content \<Longrightarrow> prefix (fst (obs d)) f \<Longrightarrow> prefix (snd (obs d)) content \<Longrightarrow>
      prefix (fst (obs d) @ src) f \<or> prefix f (fst (obs d) @ src) \<Longrightarrow>
      hint r \<noteq> Hint_Error \<and> prefix (fst (obs d) @ take (src_size r) src) f \<and> prefix (snd (obs d) @ dst_bytes r) content \<and>
      (hint r = Hint_More \<and> fst (obs d) @ take (src_size r) src = f \<longrightarrow> length (dst_bytes r) = room)"
  using assms unfolding frame_call_def Let_def by blast+

text \<open>How a run over a frame ended: what was consumed and written, and on a source that starts with a
  frame, that it was read to its end unless the buffer is full.\<close>

definition run_ok ::
  "(bytes \<Rightarrow> bytes option) \<Rightarrow> bytes \<Rightarrow> nat \<Rightarrow> bytes \<Rightarrow> nat \<Rightarrow> hint \<Rightarrow> nat \<Rightarrow> nat \<Rightarrow> bytes \<Rightarrow> bool" where
  "run_ok frm src src_len dst dst_cap h k m dst' \<longleftrightarrow>
     k \<le> src_len \<and> m \<le> dst_cap \<and> length dst' = length dst \<and> drop dst_cap dst' = drop dst_cap dst \<and>
     (h = Hint_Done \<longrightarrow> frm (take k src) = Some (take m dst')) \<and>
     (\<forall>f content. frm f = Some content \<and> prefix f (take src_len src) \<longrightarrow>
        h \<noteq> Hint_Error \<and> prefix (take k src) f \<and> prefix (take m dst') content \<and> (h = Hint_More \<longrightarrow> m = dst_cap))"

text \<open>The state between two calls.\<close>

definition run_at ::
  "('d \<Rightarrow> bool) \<Rightarrow> ('d \<Rightarrow> bytes \<times> bytes) \<Rightarrow> (bytes \<Rightarrow> bytes option) \<Rightarrow> bytes \<Rightarrow> nat \<Rightarrow> bytes \<Rightarrow> nat \<Rightarrow> 'd \<Rightarrow> nat \<Rightarrow> nat \<Rightarrow> bytes \<Rightarrow> bool" where
  "run_at good obs frm src src_len dst0 dst_cap d k m dst \<longleftrightarrow>
     good d \<and> obs d = (take k src, take m dst) \<and> k \<le> src_len \<and> src_len \<le> length src \<and> m \<le> dst_cap \<and>
     dst_cap \<le> length dst \<and> length dst = length dst0 \<and> drop dst_cap dst = drop dst_cap dst0 \<and>
     (\<forall>f content. frm f = Some content \<and> prefix f (take src_len src) \<longrightarrow>
        prefix (take k src) f \<and> prefix (take m dst) content)"

text \<open>One call in the middle of a run: \<open>n\<close> bytes of input and \<open>room\<close> bytes of room are offered.\<close>

lemma run_call:
  assumes at: "run_at good obs frm src src_len dst0 dst_cap d k m dst"
    and call: "frame_call good obs frm d (take n (drop k src)) room r"
    and n: "k + n \<le> src_len" and room: "m + room \<le> dst_cap"
  defines "k' \<equiv> k + src_size r" and "m' \<equiv> m + length (dst_bytes r)"
  shows "\<exists>dst'. store_block dst m (dst_bytes r) = Some dst' \<and> k' \<le> k + n \<and> m' \<le> m + room \<and>
    length dst' = length dst \<and> drop dst_cap dst' = drop dst_cap dst0 \<and>
    (hint r = Hint_Done \<longrightarrow> frm (take k' src) = Some (take m' dst')) \<and>
    (hint r \<noteq> Hint_Error \<longrightarrow> run_at good obs frm src src_len dst0 dst_cap (dctx r) k' m' dst') \<and>
    (\<forall>f content. frm f = Some content \<and> prefix f (take src_len src) \<longrightarrow>
       hint r \<noteq> Hint_Error \<and> (hint r = Hint_More \<and> take k' src = f \<longrightarrow> length (dst_bytes r) = room))"
proof -
  note c = frame_callD [OF call]
  have a: "good d" "obs d = (take k src, take m dst)" "k \<le> src_len" "src_len \<le> length src" "m \<le> dst_cap"
      "dst_cap \<le> length dst" "length dst = length dst0" "drop dst_cap dst = drop dst_cap dst0"
    and fr: "\<And>f content. frm f = Some content \<Longrightarrow> prefix f (take src_len src) \<Longrightarrow>
        prefix (take k src) f \<and> prefix (take m dst) content"
    using at by (simp_all add: run_at_def)
  have used: "src_size r \<le> n" "length (dst_bytes r) \<le> room" using c(1,2) by auto
  define dst' where "dst' = take m dst @ dst_bytes r @ drop m' dst"
  have st: "store_block dst m (dst_bytes r) = Some dst'"
    using used room a(6) by (auto simp: store_block_def dst'_def m'_def)
  have len: "length dst' = length dst" using used room a(6) by (auto simp: dst'_def m'_def)
  have drp: "drop dst_cap dst' = drop dst_cap dst0"
    using used room a(6,8) by (simp add: dst'_def m'_def)
  have i': "fst (obs d) @ take (src_size r) (take n (drop k src)) = take k' src"
    using used(1) by (simp add: a(2) k'_def take_add)
  have o': "snd (obs d) @ dst_bytes r = take m' dst'"
    using a(5,6) by (simp add: a(2) dst'_def m'_def)
  have i_all: "fst (obs d) @ take n (drop k src) = take (k + n) src" by (simp add: a(2) take_add)
  have comp: "hint r \<noteq> Hint_Error \<and> prefix (take k' src) f \<and> prefix (take m' dst') content \<and>
      (hint r = Hint_More \<and> take k' src = f \<longrightarrow> length (dst_bytes r) = room)"
    if "frm f = Some content" "prefix f (take src_len src)" for f content
  proof -
    have "prefix (take (k + n) src) (take src_len src)" using n by (metis take_is_prefix take_take min.absorb1)
    then have "prefix (take (k + n) src) f \<or> prefix f (take (k + n) src)"
      using that(2) by (rule prefix_same_cases)
    then show ?thesis using c(7) [of f content] that(1) fr [OF that] unfolding i' o' i_all by (simp add: a(2))
  qed
  have way: "\<forall>f content. frm f = Some content \<and> prefix f (take src_len src) \<longrightarrow>
        prefix (take k' src) f \<and> prefix (take m' dst') content" using comp by blast
  have "run_at good obs frm src src_len dst0 dst_cap (dctx r) k' m' dst'" if "hint r \<noteq> Hint_Error"
    using c(3,4) [OF that] way used n room a len drp unfolding run_at_def i' o'
    by (simp add: k'_def m'_def)
  moreover have "\<forall>f content. frm f = Some content \<and> prefix f (take src_len src) \<longrightarrow>
       hint r \<noteq> Hint_Error \<and> (hint r = Hint_More \<and> take k' src = f \<longrightarrow> length (dst_bytes r) = room)"
    using comp by blast
  moreover have "hint r = Hint_Done \<longrightarrow> frm (take k' src) = Some (take m' dst')" using c(5) unfolding i' o' by simp
  ultimately show ?thesis using st used len drp by (simp add: k'_def m'_def)
qed

lemma prefix_both_eq: "prefix f (take n xs) \<Longrightarrow> prefix (take n xs) f \<Longrightarrow> take n xs = f"
  by (rule prefix_order.antisym)

lemma lz4_loop_spec:
  assumes doc: "lz4_documented good obs frm dec"
    and at: "run_at good obs frm src src_len dst0 dst_cap d k m dst"
  shows "\<exists>h k' m' dst' d'. lz4_loop dec d src src_len dst dst_cap k m = Some (h, k', m', dst', d') \<and>
    run_ok frm src src_len dst0 dst_cap h k' m' dst' \<and> (h = Hint_More \<longrightarrow> good d')"
  using at
proof (induction "(src_len - k) + (dst_cap - m)" arbitrary: d k m dst rule: less_induct)
  case less
  note at = less.prems
  have a: "k \<le> src_len" "src_len \<le> length src" "m \<le> dst_cap" "good d" using at by (simp_all add: run_at_def)
  define inp where "inp = take (src_len - k) (drop k src)"
  define r where "r = dec d inp (dst_cap - m)"
  have ld: "load_block src k (src_len - k) = Some inp" using a by (simp add: load_block_in inp_def)
  have call: "frame_call good obs frm d (take (src_len - k) (drop k src)) (dst_cap - m) r"
    using doc a(4) by (simp add: lz4_documented_def r_def inp_def)
  define k' where "k' = k + src_size r"
  define m' where "m' = m + length (dst_bytes r)"
  obtain dst' where c: "store_block dst m (dst_bytes r) = Some dst'" "k' \<le> src_len" "m' \<le> dst_cap"
      "length dst' = length dst" "drop dst_cap dst' = drop dst_cap dst0"
      "hint r = Hint_Done \<longrightarrow> frm (take k' src) = Some (take m' dst')"
      "hint r \<noteq> Hint_Error \<longrightarrow> run_at good obs frm src src_len dst0 dst_cap (dctx r) k' m' dst'"
      "\<And>f content. frm f = Some content \<Longrightarrow> prefix f (take src_len src) \<Longrightarrow>
        hint r \<noteq> Hint_Error \<and> (hint r = Hint_More \<and> take k' src = f \<longrightarrow> length (dst_bytes r) = dst_cap - m)"
    using run_call [OF at call] a(1,3) unfolding k'_def [symmetric] m'_def [symmetric] by auto
  have len: "length dst = length dst0" using at by (simp add: run_at_def)
  have unfold: "lz4_loop dec d src src_len dst dst_cap k m =
      (if hint r = Hint_Error then Some (Hint_Error, k, m, dst', dctx r)
       else if hint r = Hint_Done \<or> k' = src_len \<or> m' = dst_cap \<or> src_size r = 0 \<and> length (dst_bytes r) = 0
       then Some (hint r, k', m', dst', dctx r)
       else lz4_loop dec (dctx r) src src_len dst' dst_cap k' m')"
    by (subst lz4_loop.simps) (simp add: ld r_def [symmetric] Let_def c(1) k'_def [symmetric] m'_def [symmetric])
  show ?case
  proof (cases "hint r = Hint_Error")
    case True
    then have none: False if "frm f = Some content" "prefix f (take src_len src)" for f content
      using c(8) [OF that] by blast
    have "run_ok frm src src_len dst0 dst_cap Hint_Error k m dst'"
      using a c(4,5) len by (auto simp: run_ok_def dest: none)
    then show ?thesis using unfold True by simp
  next
    case ne: False
    then have at': "run_at good obs frm src src_len dst0 dst_cap (dctx r) k' m' dst'" using c(7) by blast
    show ?thesis
    proof (cases "hint r = Hint_Done \<or> k' = src_len \<or> m' = dst_cap \<or> src_size r = 0 \<and> length (dst_bytes r) = 0")
      case True
      have full: "m' = dst_cap" if f: "frm f = Some content" "prefix f (take src_len src)" and more: "hint r = Hint_More" for f content
      proof (rule ccontr)
        assume nf: "m' \<noteq> dst_cap"
        have "k' = src_len"
        proof (rule ccontr)
          assume "k' \<noteq> src_len"
          then have "src_size r = 0" "dst_bytes r = []" using True nf more by auto
          then have "inp = [] \<or> dst_cap - m = 0" using frame_callD(6) [OF call more] by (simp add: inp_def)
          then have "src_len - k = 0 \<or> dst_cap = m" using a by (auto simp: inp_def)
          then show False using \<open>k' \<noteq> src_len\<close> nf a(1,3) \<open>src_size r = 0\<close> \<open>dst_bytes r = []\<close> by (auto simp: k'_def m'_def)
        qed
        then have "take k' src = f" using at' f by (auto simp: run_at_def intro: prefix_both_eq)
        then have "length (dst_bytes r) = dst_cap - m" using c(8) [OF f] more by blast
        then show False using nf a(3) by (simp add: m'_def)
      qed
      have "run_ok frm src src_len dst0 dst_cap (hint r) k' m' dst'"
        using at' c(2-6) len full ne unfolding run_ok_def run_at_def by auto
      moreover have "good (dctx r)" using at' by (simp add: run_at_def)
      ultimately show ?thesis using unfold ne True by simp
    next
      case False
      then have "src_len - k' + (dst_cap - m') < src_len - k + (dst_cap - m)"
      proof -
        have "0 < src_size r + length (dst_bytes r)" using False by auto
        then show ?thesis using c(2,3) unfolding k'_def m'_def by linarith
      qed
      from less.hyps [OF this at'] show ?thesis using unfold ne False by auto
    qed
  qed
qed

text \<open>The two loops agree.\<close>

definition run_code :: "nat \<Rightarrow> hint \<Rightarrow> nat \<Rightarrow> int" where
  "run_code cap h m = (case h of Hint_Error \<Rightarrow> -1 | Hint_Done \<Rightarrow> 0 | Hint_More \<Rightarrow> if m = cap then 1 else -1)"

lemma lz4f_run_eq:
  assumes doc: "lz4_documented good obs frm dec"
    and at: "run_at good obs frm src src_len dst0 dst_cap d k m dst"
    and "lz4_loop dec d src src_len dst dst_cap k m = Some (h, k', m', dst', d')"
  shows "\<exists>p'. lz4f_run dec d dst dst_cap src src_len k m p = Some (run_code dst_cap h m', p', dst', d') \<and>
    (h \<noteq> Hint_Error \<longrightarrow> p' = m')"
  using at assms(3)
proof (induction "(src_len - k) + (dst_cap - m)" arbitrary: d k m dst p rule: less_induct)
  case less
  note at = less.prems(1)
  have a: "k \<le> src_len" "src_len \<le> length src" "m \<le> dst_cap" "good d" using at by (simp_all add: run_at_def)
  define inp where "inp = take (src_len - k) (drop k src)"
  define r where "r = dec d inp (dst_cap - m)"
  have ld: "load_block src k (src_len - k) = Some inp" using a by (simp add: load_block_in inp_def)
  have call: "frame_call good obs frm d (take (src_len - k) (drop k src)) (dst_cap - m) r"
    using doc a(4) by (simp add: lz4_documented_def r_def inp_def)
  define k1 where "k1 = k + src_size r"
  define m1 where "m1 = m + length (dst_bytes r)"
  obtain dst1 where c: "store_block dst m (dst_bytes r) = Some dst1" "k1 \<le> src_len" "m1 \<le> dst_cap"
      "hint r \<noteq> Hint_Error \<longrightarrow> run_at good obs frm src src_len dst0 dst_cap (dctx r) k1 m1 dst1"
    using run_call [OF at call] a(1,3) unfolding k1_def [symmetric] m1_def [symmetric] by auto
  have one: "lz4_loop dec d src src_len dst dst_cap k m =
      (if hint r = Hint_Error then Some (Hint_Error, k, m, dst1, dctx r)
       else if hint r = Hint_Done \<or> k1 = src_len \<or> m1 = dst_cap \<or> src_size r = 0 \<and> length (dst_bytes r) = 0
       then Some (hint r, k1, m1, dst1, dctx r)
       else lz4_loop dec (dctx r) src src_len dst1 dst_cap k1 m1)"
    by (subst lz4_loop.simps) (simp add: ld r_def [symmetric] Let_def c(1) k1_def [symmetric] m1_def [symmetric])
  have two: "lz4f_run dec d dst dst_cap src src_len k m p =
      (if hint r = Hint_Error then Some (-1, p, dst1, dctx r)
       else if hint r = Hint_Done then Some (0, m1, dst1, dctx r)
       else if m1 = dst_cap then Some (1, m1, dst1, dctx r)
       else if k1 = src_len \<or> src_size r = 0 \<and> length (dst_bytes r) = 0 then Some (-1, m1, dst1, dctx r)
       else lz4f_run dec (dctx r) dst1 dst_cap src src_len k1 m1 m1)"
    by (subst lz4f_run.simps) (simp add: ld r_def [symmetric] Let_def c(1) k1_def [symmetric] m1_def [symmetric])
  show ?case
  proof (cases "hint r = Hint_Error \<or> hint r = Hint_Done \<or> k1 = src_len \<or> m1 = dst_cap \<or> src_size r = 0 \<and> length (dst_bytes r) = 0")
    case True
    then show ?thesis using less.prems(2) unfolding one two
      by (cases "hint r") (auto simp: run_code_def split: if_splits)
  next
    case False
    then have dec: "src_len - k1 + (dst_cap - m1) < src_len - k + (dst_cap - m)"
    proof -
      have "0 < src_size r + length (dst_bytes r)" using False by auto
      then show ?thesis using c(2,3) unfolding k1_def m1_def by linarith
    qed
    have at1: "run_at good obs frm src src_len dst0 dst_cap (dctx r) k1 m1 dst1" using c(4) False by blast
    have "lz4_loop dec (dctx r) src src_len dst1 dst_cap k1 m1 = Some (h, k', m', dst', d')"
      using less.prems(2) False unfolding one by (auto split: if_splits)
    from less.hyps [OF dec at1 this, of m1] show ?thesis using False unfolding two by auto
  qed
qed

lemma run_at_start:
  assumes "good d" and "obs d = ([], [])" and "src_len \<le> length src" and "dst_cap \<le> length dst"
  shows "run_at good obs frm src src_len dst dst_cap d 0 0 dst"
  using assms by (simp add: run_at_def)

text \<open>Doubling from any capacity either finds room for the frame or gives up without a buffer.\<close>

lemma lz4_attempts_spec:
  assumes doc: "lz4_documented good obs frm dec"
    and reset: "\<And>d. good d \<Longrightarrow> good (reset d) \<and> obs (reset d) = ([], [])"
    and malloc: "\<And>n b. malloc n = Some b \<Longrightarrow> length b = n"
    and "good d" and "obs d = ([], [])" and "n \<le> length inp" and "0 < cap" and "cap \<le> SIZE_MAX"
  shows "\<exists>rc p buf live'. lz4_attempts dec reset malloc d inp n cap p0 live = Some (rc, p, buf, live') \<and>
    live' = live + (case buf of None \<Rightarrow> 0 | Some _ \<Rightarrow> 1) \<and>
    (rc = 0 \<longrightarrow> (\<exists>b k. buf = Some b \<and> k \<le> n \<and> p \<le> length b \<and> frm (take k inp) = Some (take p b))) \<and>
    (\<forall>f content. frm f = Some content \<and> prefix f (take n inp) \<and> (\<forall>c. malloc c \<noteq> None) \<and>
       length content \<le> SIZE_MAX div 2 \<longrightarrow> rc = 0)"
  using assms(4,5,7,8)
proof (induction "SIZE_MAX - cap" arbitrary: d cap p0 rule: less_induct)
  case less
  show ?case
  proof (cases "malloc cap")
    case None
    then have "lz4_attempts dec reset malloc d inp n cap p0 live = Some (-1, p0, None, live)"
      by (subst lz4_attempts.simps) simp
    then show ?thesis using None by auto
  next
    case (Some buf)
    have at: "run_at good obs frm inp n buf cap d 0 0 buf"
      by (rule run_at_start) (use less.prems assms(6) malloc [OF Some] in simp_all)
    obtain h k m buf' d' where lp: "lz4_loop dec d inp n buf cap 0 0 = Some (h, k, m, buf', d')"
      and ok: "run_ok frm inp n buf cap h k m buf'" and gd: "h = Hint_More \<longrightarrow> good d'"
      using lz4_loop_spec [OF doc at] by blast
    obtain p where run: "lz4f_run dec d buf cap inp n 0 0 p0 = Some (run_code cap h m, p, buf', d')"
        "h \<noteq> Hint_Error \<longrightarrow> p = m"
      using lz4f_run_eq [OF doc at lp] by blast
    have eq: "lz4_attempts dec reset malloc d inp n cap p0 live =
        (if run_code cap h m \<noteq> 1 then Some (run_code cap h m, p, Some buf', live + 1)
         else if cap > SIZE_MAX div 2 \<or> cap = 0 then Some (-1, p, None, live)
         else lz4_attempts dec reset malloc (reset d') inp n (cap * 2) p live)"
      using Some run(1) by (subst lz4_attempts.simps) (simp add: Let_def)
    show ?thesis
    proof (cases "run_code cap h m = 1")
      case False
      have fin: "frm (take k inp) = Some (take p buf')" "p \<le> length buf'" "k \<le> n" if "run_code cap h m = 0"
        using that ok run(2) malloc [OF Some] by (cases h; simp add: run_code_def run_ok_def split: if_splits)+
      have "run_code cap h m = 0" if "frm f = Some content" "prefix f (take n inp)" for f content
      proof -
        have "h \<noteq> Hint_Error" "h = Hint_More \<longrightarrow> m = cap" using ok that by (auto simp: run_ok_def)
        then show ?thesis using False by (cases h) (simp_all add: run_code_def)
      qed
      then show ?thesis using eq False fin by auto
    next
      case True
      then have h: "h = Hint_More" "m = cap" by (cases h; simp add: run_code_def split: if_splits)+
      have big: "cap \<le> length content" if "frm f = Some content" "prefix f (take n inp)" for f content
      proof -
        have "prefix (take m buf') content" "length buf' = cap" using ok that malloc [OF Some] by (auto simp: run_ok_def)
        then show ?thesis using prefix_length_le [of "take m buf'" content] by (simp add: h)
      qed
      show ?thesis
      proof (cases "cap > SIZE_MAX div 2")
        case stop: True
        then have "lz4_attempts dec reset malloc d inp n cap p0 live = Some (-1, p, None, live)"
          using eq True by simp
        moreover have "\<not> (frm f = Some content \<and> prefix f (take n inp) \<and> length content \<le> SIZE_MAX div 2)" for f content
          using big [of f content] stop by auto
        ultimately show ?thesis by auto
      next
        case go: False
        have "SIZE_MAX - cap * 2 < SIZE_MAX - cap" "0 < cap * 2" "cap * 2 \<le> SIZE_MAX"
          using go less.prems(3) by (auto simp: SIZE_MAX_def)
        moreover have "good (reset d')" "obs (reset d') = ([], [])" using reset gd h(1) by auto
        ultimately have "\<exists>rc p' buf live'. lz4_attempts dec reset malloc (reset d') inp n (cap * 2) p live = Some (rc, p', buf, live') \<and>
          live' = live + (case buf of None \<Rightarrow> 0 | Some _ \<Rightarrow> 1) \<and>
          (rc = 0 \<longrightarrow> (\<exists>b k. buf = Some b \<and> k \<le> n \<and> p' \<le> length b \<and> frm (take k inp) = Some (take p' b))) \<and>
          (\<forall>f content. frm f = Some content \<and> prefix f (take n inp) \<and> (\<forall>c. malloc c \<noteq> None) \<and>
             length content \<le> SIZE_MAX div 2 \<longrightarrow> rc = 0)"
          using less.hyps [of "cap * 2" "reset d'" p] by blast
        moreover have "lz4_attempts dec reset malloc d inp n cap p0 live = lz4_attempts dec reset malloc (reset d') inp n (cap * 2) p live"
          using eq True go less.prems(3) by simp
        ultimately show ?thesis by simp
      qed
    qed
  qed
qed

subsection \<open>Gzip in chunks\<close>

text \<open>\<open>inflate\<close>'s answers read as those of a frame decoder; beyond the common contract it stops only
  when the stream ends, the input is used up or the output is full.\<close>

definition gz_view :: "'z z_done \<Rightarrow> 'z lz4_done" where
  "gz_view r = \<lparr> hint = (if z_code r = Z_STREAM_END then Hint_Done
       else if z_code r = Z_OK \<or> z_code r = Z_BUF_ERROR then Hint_More else Hint_Error),
     src_size = z_used r, dst_bytes = z_out r, dctx = z_next r \<rparr>"

definition gz_documented ::
  "('z \<Rightarrow> bool) \<Rightarrow> ('z \<Rightarrow> bytes \<times> bytes) \<Rightarrow> (bytes \<Rightarrow> bytes option) \<Rightarrow>
    (gz_flush \<Rightarrow> 'z \<Rightarrow> bytes \<Rightarrow> nat \<Rightarrow> 'z z_done) \<Rightarrow> bool" where
  "gz_documented good obs frm inflate \<longleftrightarrow>
     (\<forall>fl. lz4_documented good obs frm (\<lambda>z src room. gz_view (inflate fl z src room))) \<and>
     (\<forall>fl z src room. good z \<and> hint (gz_view (inflate fl z src room)) = Hint_More \<longrightarrow>
        z_used (inflate fl z src room) = length src \<or> length (z_out (inflate fl z src room)) = room)"

definition gz_at ::
  "('z \<Rightarrow> bool) \<Rightarrow> ('z \<Rightarrow> bytes \<times> bytes) \<Rightarrow> (bytes \<Rightarrow> bytes option) \<Rightarrow> bytes \<Rightarrow> nat \<Rightarrow> bytes \<Rightarrow> nat \<Rightarrow> 'z gz \<Rightarrow> bool" where
  "gz_at good obs frm src src_len dst0 dst_cap g \<longleftrightarrow>
     run_at good obs frm src src_len dst0 dst_cap (gz_state g) (in_off g) (out_off g) (gz_dst g) \<and>
     in_off g + gz_avail_in g + gz_in_left g = src_len \<and> out_off g + gz_avail_out g + gz_out_left g = dst_cap"

lemma gz_refill_spec:
  assumes "0 < chunk" and "chunk < 2 ^ 32" and "gz_refill chunk g = g'"
  shows "gz_state g' = gz_state g" "in_off g' = in_off g" "out_off g' = out_off g" "gz_dst g' = gz_dst g"
    "gz_avail_in g' + gz_in_left g' = gz_avail_in g + gz_in_left g"
    "gz_avail_out g' + gz_out_left g' = gz_avail_out g + gz_out_left g"
    "gz_avail_in g' = 0 \<longrightarrow> gz_in_left g' = 0" "gz_avail_out g' = 0 \<longrightarrow> gz_out_left g' = 0"
    "gz_in_left g' \<le> gz_in_left g" "gz_out_left g' \<le> gz_out_left g"
    "gz_again g \<Longrightarrow> gz_in_left g' + gz_out_left g' < gz_in_left g + gz_out_left g"
proof -
  have u: "uInt (if n < chunk then n else chunk) = (if n < chunk then n else chunk)" for n
    using assms(2) by (simp add: uInt_def)
  show "gz_state g' = gz_state g" "in_off g' = in_off g" "out_off g' = out_off g" "gz_dst g' = gz_dst g"
    using assms(3) by (auto simp: gz_refill_def Let_def)
  show "gz_avail_in g' + gz_in_left g' = gz_avail_in g + gz_in_left g"
    "gz_avail_out g' + gz_out_left g' = gz_avail_out g + gz_out_left g"
    "gz_avail_in g' = 0 \<longrightarrow> gz_in_left g' = 0" "gz_avail_out g' = 0 \<longrightarrow> gz_out_left g' = 0"
    "gz_in_left g' \<le> gz_in_left g" "gz_out_left g' \<le> gz_out_left g"
    using assms(1) assms(3) [symmetric] by (auto simp: gz_refill_def Let_def u)
  show "gz_in_left g' + gz_out_left g' < gz_in_left g + gz_out_left g" if "gz_again g"
    using assms(1) assms(3) [symmetric] that by (auto simp: gz_refill_def gz_again_def Let_def u)
qed

lemma gz_loop_spec:
  assumes doc: "gz_documented good obs frm inflate" and chunk: "0 < chunk" "chunk < 2 ^ 32"
    and at: "gz_at good obs frm src src_len dst0 dst_cap g"
  shows "\<exists>rc g'. gz_loop inflate chunk src g = Some (rc, g') \<and>
    out_off g' + gz_avail_out g' + gz_out_left g' = dst_cap \<and>
    (rc = Z_OK \<or> rc = Z_BUF_ERROR \<longrightarrow> (gz_avail_out g' = 0 \<longrightarrow> gz_out_left g' = 0)) \<and>
    length (gz_dst g') = length dst0 \<and> drop dst_cap (gz_dst g') = drop dst_cap dst0 \<and>
    (rc = Z_STREAM_END \<longrightarrow> (\<exists>k \<le> src_len. frm (take k src) = Some (take (out_off g') (gz_dst g')))) \<and>
    (\<forall>f content. frm f = Some content \<and> prefix f (take src_len src) \<longrightarrow>
       rc = Z_STREAM_END \<or> (rc = Z_OK \<or> rc = Z_BUF_ERROR) \<and> out_off g' = dst_cap \<and> dst_cap \<le> length content)"
  using at
proof (induction "gz_in_left (gz_refill chunk g) + gz_out_left (gz_refill chunk g)" arbitrary: g rule: less_induct)
  case less
  note at = less.prems
  define h where "h = gz_refill chunk g"
  note rf = gz_refill_spec [OF chunk h_def [symmetric]]
  define k where "k = in_off g"
  define m where "m = out_off g"
  define n where "n = gz_avail_in h"
  define room where "room = gz_avail_out h"
  have run: "run_at good obs frm src src_len dst0 dst_cap (gz_state g) k m (gz_dst g)"
    and ks: "k + n + gz_in_left h = src_len" and ms: "m + room + gz_out_left h = dst_cap"
    using at rf(5,6) by (simp_all add: gz_at_def k_def m_def n_def room_def)
  have a: "src_len \<le> length src" "good (gz_state g)" "dst_cap \<le> length dst0" "length (gz_dst g) = length dst0"
    using run by (simp_all add: run_at_def)
  define fl where "fl = (if gz_in_left h = 0 \<and> gz_out_left h = 0 then GZ_FINISH else GZ_NO_FLUSH)"
  define inp where "inp = take n (drop k src)"
  define z where "z = inflate fl (gz_state g) inp room"
  have inp: "length inp = n" using ks a(1) by (simp add: inp_def)
  have call: "frame_call good obs frm (gz_state g) (take n (drop k src)) room (gz_view z)"
    using doc a(2) by (simp add: gz_documented_def lz4_documented_def z_def inp_def)
  have v: "src_size (gz_view z) = z_used z" "dst_bytes (gz_view z) = z_out z" "dctx (gz_view z) = z_next z"
    by (simp_all add: gz_view_def)
  obtain dst' where c: "store_block (gz_dst g) m (z_out z) = Some dst'" "z_used z \<le> n" "length (z_out z) \<le> room"
      "length dst' = length dst0" "drop dst_cap dst' = drop dst_cap dst0"
      "hint (gz_view z) = Hint_Done \<longrightarrow> frm (take (k + z_used z) src) = Some (take (m + length (z_out z)) dst')"
      "hint (gz_view z) \<noteq> Hint_Error \<longrightarrow> run_at good obs frm src src_len dst0 dst_cap (z_next z) (k + z_used z) (m + length (z_out z)) dst'"
      "\<And>f content. frm f = Some content \<Longrightarrow> prefix f (take src_len src) \<Longrightarrow>
        hint (gz_view z) \<noteq> Hint_Error \<and> (hint (gz_view z) = Hint_More \<and> take (k + z_used z) src = f \<longrightarrow> length (z_out z) = room)"
    using run_call [OF run call] ks ms a(4) unfolding v by auto
  define g1 where "g1 = h\<lparr> gz_state := z_next z, in_off := k + z_used z, gz_avail_in := n - z_used z,
       out_off := m + length (z_out z), gz_avail_out := room - length (z_out z), gz_dst := dst' \<rparr>"
  have "load_block src k n = Some inp" using ks a(1) by (simp add: load_block_in inp_def)
  then have one: "gz_call inflate src h = Some (z_code z, g1)"
    using c(1) by (simp add: gz_call_def rf k_def [symmetric] m_def [symmetric] n_def [symmetric] room_def [symmetric]
        fl_def [symmetric] z_def [symmetric] Let_def g1_def)
  have eq: "gz_loop inflate chunk src g =
      (if z_code z \<noteq> Z_OK \<and> z_code z \<noteq> Z_BUF_ERROR then Some (z_code z, g1)
       else if \<not> gz_again g1 then Some (z_code z, g1) else gz_loop inflate chunk src g1)"
    using one by (subst gz_loop.simps) (simp add: h_def)
  have g1: "out_off g1 + gz_avail_out g1 + gz_out_left g1 = dst_cap" "in_off g1 + gz_avail_in g1 + gz_in_left g1 = src_len"
      "gz_dst g1 = dst'" "gz_state g1 = z_next z" "in_off g1 = k + z_used z" "out_off g1 = m + length (z_out z)"
      "gz_in_left g1 = gz_in_left h" "gz_out_left g1 = gz_out_left h" "gz_avail_in g1 = n - z_used z"
      "gz_avail_out g1 = room - length (z_out z)"
    using c(2,3) ks ms by (simp_all add: g1_def)
  have more: "hint (gz_view z) = Hint_More \<longleftrightarrow> z_code z = Z_OK \<or> z_code z = Z_BUF_ERROR"
    and done_iff: "hint (gz_view z) = Hint_Done \<longleftrightarrow> z_code z = Z_STREAM_END" by (auto simp: gz_view_def)
  have kle: "k + z_used z \<le> src_len" using c(2) ks by linarith
  show ?case
  proof (cases "hint (gz_view z) = Hint_More")
    case False
    then have run1: "gz_loop inflate chunk src g = Some (z_code z, g1)" using eq more by simp
    have "z_code z = Z_STREAM_END" if "frm f = Some content" "prefix f (take src_len src)" for f content
      using c(8) [OF that] False done_iff by (cases "hint (gz_view z)") auto
    then show ?thesis using run1 False more done_iff g1(1,3,6) c(4-6) kle by auto
  next
    case True
    then have at1: "gz_at good obs frm src src_len dst0 dst_cap g1"
      using c(7) g1 by (simp add: gz_at_def)
    show ?thesis
    proof (cases "gz_again g1")
      case go: True
      have "gz_in_left (gz_refill chunk g1) + gz_out_left (gz_refill chunk g1) < gz_in_left h + gz_out_left h"
        using gz_refill_spec(11) [OF chunk refl go] g1(7,8) by simp
      then show ?thesis using less.hyps [OF _ at1] eq True more go by (auto simp: h_def)
    next
      case stop: False
      then have run1: "gz_loop inflate chunk src g = Some (z_code z, g1)" using eq by simp
      have full: "out_off g1 = dst_cap \<and> dst_cap \<le> length content"
        if f: "frm f = Some content" "prefix f (take src_len src)" for f content
      proof -
        have pre: "prefix (take (m + length (z_out z)) dst') content" "prefix (take (k + z_used z) src) f"
          using at1 f g1 by (auto simp: gz_at_def run_at_def)
        have "length (z_out z) = room"
        proof (rule ccontr)
          assume nr: "length (z_out z) \<noteq> room"
          then have "z_used z = length inp"
            using doc a(2) True nr unfolding gz_documented_def z_def by blast
          then have "gz_avail_in g1 = 0" by (simp add: g1(9) inp)
          then have "gz_in_left g1 = 0" using stop by (simp add: gz_again_def)
          then have "k + z_used z = src_len" using \<open>z_used z = length inp\<close> inp ks g1(7) by simp
          then have "take (k + z_used z) src = f" using pre(2) f(2) by (auto intro: prefix_both_eq)
          then show False using c(8) [OF f] True nr by blast
        qed
        then have "gz_avail_out g1 = 0" by (simp add: g1(10))
        then have "out_off g1 = dst_cap" using stop g1(1) by (simp add: gz_again_def)
        moreover have "out_off g1 \<le> length content"
          using prefix_length_le [OF pre(1)] g1(1,6) a(3) c(4) by simp
        ultimately show ?thesis by simp
      qed
      have "gz_avail_out g1 = 0 \<longrightarrow> gz_out_left g1 = 0" using stop by (auto simp: gz_again_def)
      then show ?thesis using run1 True more g1(1,3) c(4,5) full by auto
    qed
  qed
qed

subsection \<open>Properties\<close>

lemma same_frame:
  assumes "self_delimiting frm" and "frm f = Some a" and "frm (take k xs) = Some b"
    and "prefix f (take n xs)" and "k \<le> n"
  shows "a = b" "f = take k xs"
proof -
  have "prefix (take k xs) (take n xs)" using assms(5) by (metis take_is_prefix take_take min.absorb1)
  then have "prefix f (take k xs) \<or> prefix (take k xs) f" using assms(4) prefix_same_cases by blast
  then show "f = take k xs" using assms(1-3) unfolding self_delimiting_def by auto
  then show "a = b" using assms(2,3) by simp
qed

text \<open>A decoder that keeps the contract: a frame is a length byte and that many bytes, copied through.\<close>

definition toy_frame :: "bytes \<Rightarrow> bytes option" where
  "toy_frame f = (case f of [] \<Rightarrow> None | h # t \<Rightarrow> if length t = unat h then Some t else None)"

definition toy_good :: "bytes \<times> bytes \<Rightarrow> bool" where
  "toy_good d \<longleftrightarrow> (case d of (i, out) \<Rightarrow> out = tl i \<and> (i \<noteq> [] \<longrightarrow> length (tl i) \<le> unat (hd i)))"

definition toy_step :: "bytes \<times> bytes \<Rightarrow> bytes \<Rightarrow> nat \<Rightarrow> (bytes \<times> bytes) lz4_done" where
  "toy_step d src room =
     (case d of (i, out) \<Rightarrow>
        if i = [] \<and> src = [] then \<lparr> hint = Hint_More, src_size = 0, dst_bytes = [], dctx = d \<rparr>
        else let hdr = (if i = [] then 1 else 0);
                 n = unat (hd (i @ src));
                 k = min (min (length src - hdr) room) (n - length out);
                 xs = take k (drop hdr src)
             in \<lparr> hint = (if length out + k = n then Hint_Done else Hint_More), src_size = hdr + k, dst_bytes = xs,
                  dctx = (i @ take (hdr + k) src, out @ xs) \<rparr>)"

definition toy_inflate :: "gz_flush \<Rightarrow> bytes \<times> bytes \<Rightarrow> bytes \<Rightarrow> nat \<Rightarrow> (bytes \<times> bytes) z_done" where
  "toy_inflate fl d src room =
     (let r = toy_step d src room
      in \<lparr> z_code = (if hint r = Hint_Done then Z_STREAM_END else Z_OK), z_used = src_size r, z_out = dst_bytes r,
           z_type = 0, z_next = dctx r \<rparr>)"

lemma toy_self_delimiting: "self_delimiting toy_frame"
  by (auto simp: self_delimiting_def toy_frame_def prefix_def split: list.splits if_splits)

lemma toy_frame_prefix:
  assumes "toy_frame f = Some content" and "prefix (h # xs) f"
  shows "f = h # content" "length content = unat h" "prefix xs content"
  using assms by (auto simp: toy_frame_def prefix_def split: list.splits if_splits)

lemma toy_frame_cases:
  assumes "toy_frame f = Some content" and "prefix (h # ys) f \<or> prefix f (h # ys)"
  shows "f = h # content" "length content = unat h" "prefix ys content \<or> prefix content ys"
  using assms by (auto simp: toy_frame_def prefix_def split: list.splits if_splits)

lemma toy_call:
  assumes "toy_good d"
  shows "frame_call toy_good id toy_frame d src room (toy_step d src room)"
proof -
  obtain i out where d: "d = (i, out)" by (cases d)
  have out: "out = tl i" and bound: "i \<noteq> [] \<Longrightarrow> length (tl i) \<le> unat (hd i)"
    using assms by (auto simp: toy_good_def d)
  show ?thesis
  proof (cases "i @ src = []")
    case True
    then show ?thesis using assms out by (auto simp: frame_call_def toy_step_def d Let_def toy_frame_def)
  next
    case False
    define h where "h = hd (i @ src)"
    define rest where "rest = (if i = [] then tl src else src)"
    define hdr :: nat where "hdr = (if i = [] then 1 else 0)"
    define k where "k = min (min (length rest) room) (unat h - length out)"
    have all: "i @ src = h # out @ rest"
      using False out by (cases i) (auto simp: h_def rest_def)
    have le: "length out \<le> unat h" using bound out all by (cases i) auto
    have k: "k \<le> length rest" "k \<le> room" "length out + k \<le> unat h" using le by (auto simp: k_def)
    have drop: "drop hdr src = rest" by (simp add: hdr_def rest_def drop_Suc)
    have hdr: "length src - hdr = length rest" "hdr \<le> length src" using False by (auto simp: hdr_def rest_def Suc_le_eq)
    have step: "toy_step d src room = \<lparr> hint = (if length out + k = unat h then Hint_Done else Hint_More),
        src_size = hdr + k, dst_bytes = take k rest, dctx = (i @ take (hdr + k) src, out @ take k rest) \<rparr>"
      using False by (simp add: toy_step_def d h_def [symmetric] hdr_def [symmetric] hdr drop k_def Let_def) (auto simp: hdr_def)
    have i': "i @ take (hdr + k) src = h # out @ take k rest"
    proof -
      have "take (hdr + k) src = take hdr src @ take k rest" by (simp add: take_add drop)
      then have "i @ take (hdr + k) src = (i @ take hdr src) @ take k rest" by simp
      moreover have "i @ take hdr src = h # out" using all False by (cases i; cases src) (auto simp: hdr_def rest_def)
      ultimately show ?thesis by simp
    qed
    have comp: "prefix (h # out @ take k rest) f \<and> prefix (out @ take k rest) content \<and>
        (length out + k \<noteq> unat h \<and> h # out @ take k rest = f \<longrightarrow> k = room)"
      if f: "toy_frame f = Some content" "prefix (h # out @ rest) f \<or> prefix f (h # out @ rest)" for f content
    proof -
      note c = toy_frame_cases [OF f]
      have "prefix (out @ take k rest) content"
        using c(3)
      proof
        assume "prefix (out @ rest) content"
        then show ?thesis by (metis append_take_drop_id append.assoc prefixI prefix_order.trans)
      next
        assume "prefix content (out @ rest)"
        moreover have "prefix (out @ take k rest) (out @ rest)" by (simp add: take_is_prefix)
        moreover have "length (out @ take k rest) \<le> length content" using k c(2) by simp
        ultimately show ?thesis using prefix_length_prefix by blast
      qed
      then show ?thesis using c(1,2) k by auto
    qed
    have stall: "src = [] \<or> room = 0" if "length out + k \<noteq> unat h" "hdr + k = 0" "take k rest = []"
      using that k_def le by (auto simp: hdr_def rest_def min_def split: if_splits)
    have ended: "toy_frame (h # out @ take k rest) = Some (out @ take k rest)" if "length out + k = unat h"
      using that k by (simp add: toy_frame_def)
    have "hdr + k \<le> length src" using hdr k by linarith
    moreover have "\<forall>f content. toy_frame f = Some content \<and> prefix i f \<and> prefix out content \<and>
        (prefix (h # out @ rest) f \<or> prefix f (h # out @ rest)) \<longrightarrow>
        prefix (h # out @ take k rest) f \<and> prefix (out @ take k rest) content \<and>
        (length out + k \<noteq> unat h \<and> h # out @ take k rest = f \<longrightarrow> k = room)"
      using comp by blast
    ultimately show ?thesis unfolding frame_call_def step Let_def
      using k i' all stall ended by (simp add: d toy_good_def) blast
  qed
qed

lemma toy_lz4: "lz4_documented toy_good id toy_frame toy_step"
  by (simp add: lz4_documented_def toy_self_delimiting toy_call)

lemma toy_gz: "gz_documented toy_good id toy_frame toy_inflate"
proof -
  have view: "gz_view (toy_inflate fl z src room) = toy_step z src room" for fl z src room
    by (cases z) (simp add: gz_view_def toy_inflate_def toy_step_def Let_def)
  have "src_size (toy_step z src room) = length src \<or> length (dst_bytes (toy_step z src room)) = room"
    if "hint (toy_step z src room) = Hint_More" "toy_good z" for z src room
    using that by (cases z; cases src) (auto simp: toy_step_def toy_good_def Let_def min_def split: if_splits)
  then show ?thesis unfolding gz_documented_def view using toy_lz4
    by (simp add: toy_inflate_def Let_def)
qed

text \<open>\<open>wf_gzip_inflate_into\<close> returns for every input and chunk size and writes only into its destination.
  \<open>WF_DECOMPRESS_OK\<close> comes with the content of a complete stream at the front of the source;
  \<open>NEEDS_MORE_OUT\<close> only when the destination is full, so growing it makes progress.  On a source that
  starts with a valid stream the answer is the stream's content, or \<open>NEEDS_MORE_OUT\<close> if the capacity
  does not exceed it; the chunks never show.\<close>

theorem gzip_into_correct:
  assumes doc: "gz_documented good obs frm inflate" and "good z" and "obs z = ([], [])"
    and chunk: "0 < chunk" "chunk < 2 ^ 32" and len: "src_len \<le> length src" "dst_cap \<le> length dst"
  shows "\<exists>rc n dst'. wf_gzip_inflate_into inflate (Z_OK, z) chunk src src_len dst dst_cap = Some (rc, n, dst') \<and>
    length dst' = length dst \<and> drop dst_cap dst' = drop dst_cap dst \<and> n \<le> dst_cap \<and>
    (rc = WF_OK \<longrightarrow> (\<exists>k \<le> src_len. frm (take k src) = Some (take n dst'))) \<and>
    (rc = WF_NEEDS_MORE_OUT \<longrightarrow> n = dst_cap) \<and>
    (\<forall>f content. frm f = Some content \<and> prefix f (take src_len src) \<longrightarrow>
       rc = WF_OK \<and> take n dst' = content \<or> rc = WF_NEEDS_MORE_OUT \<and> dst_cap \<le> length content)"
proof -
  define g where "g = \<lparr> gz_state = z, in_off = 0, gz_avail_in = 0, gz_in_left = src_len,
      out_off = 0, gz_avail_out = 0, gz_out_left = dst_cap, gz_dst = dst \<rparr>"
  have "gz_at good obs frm src src_len dst dst_cap g"
    using run_at_start [where good = good and obs = obs, OF assms(2,3) len] by (simp add: gz_at_def g_def)
  from gz_loop_spec [OF doc chunk this] obtain rc g' where r: "gz_loop inflate chunk src g = Some (rc, g')"
      "out_off g' + gz_avail_out g' + gz_out_left g' = dst_cap"
      "rc = Z_OK \<or> rc = Z_BUF_ERROR \<longrightarrow> (gz_avail_out g' = 0 \<longrightarrow> gz_out_left g' = 0)"
      "length (gz_dst g') = length dst" "drop dst_cap (gz_dst g') = drop dst_cap dst"
      "rc = Z_STREAM_END \<longrightarrow> (\<exists>k \<le> src_len. frm (take k src) = Some (take (out_off g') (gz_dst g')))"
      "\<forall>f content. frm f = Some content \<and> prefix f (take src_len src) \<longrightarrow>
         rc = Z_STREAM_END \<or> (rc = Z_OK \<or> rc = Z_BUF_ERROR) \<and> out_off g' = dst_cap \<and> dst_cap \<le> length content"
    by (elim exE conjE) (rule that)
  define code where "code = (if rc = Z_STREAM_END then WF_OK
       else if rc = Z_BUF_ERROR \<or> rc = Z_OK then (if gz_avail_out g' = 0 then WF_NEEDS_MORE_OUT else WF_BAD_INPUT)
       else WF_BAD_INPUT)"
  have p: "dst_cap - (gz_out_left g' + gz_avail_out g') = out_off g'" using r(2) by linarith
  have run: "wf_gzip_inflate_into inflate (Z_OK, z) chunk src src_len dst dst_cap = Some (code, out_off g', gz_dst g')"
    using r(1) by (simp add: wf_gzip_inflate_into_def g_def [symmetric] Let_def p code_def)
  have sd: "self_delimiting frm" using doc by (simp add: gz_documented_def lz4_documented_def)
  have "code = WF_OK \<and> take (out_off g') (gz_dst g') = content \<or> code = WF_NEEDS_MORE_OUT \<and> dst_cap \<le> length content"
    if f: "frm f = Some content" "prefix f (take src_len src)" for f content
  proof (cases "rc = Z_STREAM_END")
    case True
    then obtain k where "k \<le> src_len" "frm (take k src) = Some (take (out_off g') (gz_dst g'))" using r(6) by blast
    then show ?thesis using same_frame(1) [OF sd f(1) _ f(2)] True by (simp add: code_def)
  next
    case False
    then have "rc = Z_OK \<or> rc = Z_BUF_ERROR" "out_off g' = dst_cap" "dst_cap \<le> length content" using r(7) f by blast+
    then show ?thesis using r(2) False by (auto simp: code_def)
  qed
  moreover have "code = WF_OK \<longrightarrow> rc = Z_STREAM_END" "code = WF_NEEDS_MORE_OUT \<longrightarrow> out_off g' = dst_cap"
    using r(2,3) by (auto simp: code_def)
  ultimately show ?thesis using run r(2,4-6) by auto
qed

text \<open>\<open>wf_lz4f_decompress_into\<close> returns on every input and writes only into its destination; \<open>OK\<close> means
  the consumed bytes are one complete frame and the produced bytes its content; \<open>NEEDS_MORE_OUT\<close> means
  the destination is full; and on a source that starts with a valid frame there is no third outcome.\<close>

theorem lz4_into_correct:
  assumes doc: "lz4_documented good obs frm dec" and "good d" and "obs d = ([], [])"
    and len: "src_len \<le> length src" "dst_cap \<le> length dst"
  shows "\<exists>rc m k dst'. wf_lz4f_decompress_into dec (Some d) src src_len dst dst_cap = Some (rc, m, k, dst') \<and>
    length dst' = length dst \<and> drop dst_cap dst' = drop dst_cap dst \<and> m \<le> dst_cap \<and> k \<le> src_len \<and>
    (rc = WF_OK \<longrightarrow> frm (take k src) = Some (take m dst')) \<and>
    (rc = WF_NEEDS_MORE_OUT \<longrightarrow> m = dst_cap) \<and>
    (\<forall>f content. frm f = Some content \<and> prefix f (take src_len src) \<longrightarrow>
       rc = WF_OK \<and> take k src = f \<and> take m dst' = content \<or> rc = WF_NEEDS_MORE_OUT \<and> dst_cap \<le> length content)"
proof -
  obtain h k m dst' d' where lp: "lz4_loop dec d src src_len dst dst_cap 0 0 = Some (h, k, m, dst', d')"
    and ok: "run_ok frm src src_len dst dst_cap h k m dst'"
    using lz4_loop_spec [OF doc run_at_start [where good = good and obs = obs, OF assms(2,3) len]] by blast
  have sd: "self_delimiting frm" using doc by (simp add: lz4_documented_def)
  define rc where "rc = (if h = Hint_Error then WF_BAD_INPUT else if h = Hint_Done then WF_OK
      else if m = dst_cap then WF_NEEDS_MORE_OUT else WF_BAD_INPUT)"
  have run: "wf_lz4f_decompress_into dec (Some d) src src_len dst dst_cap = Some (rc, m, k, dst')"
    using lp by (simp add: wf_lz4f_decompress_into_def rc_def)
  have b: "k \<le> src_len" "m \<le> dst_cap" "length dst' = length dst" "drop dst_cap dst' = drop dst_cap dst"
      "h = Hint_Done \<longrightarrow> frm (take k src) = Some (take m dst')"
    using ok by (simp_all add: run_ok_def)
  have "rc = WF_OK \<and> take k src = f \<and> take m dst' = content \<or> rc = WF_NEEDS_MORE_OUT \<and> dst_cap \<le> length content"
    if f: "frm f = Some content" "prefix f (take src_len src)" for f content
  proof -
    have c: "h \<noteq> Hint_Error" "prefix (take m dst') content" "h = Hint_More \<longrightarrow> m = dst_cap"
      using ok f by (auto simp: run_ok_def)
    show ?thesis
    proof (cases "h = Hint_Done")
      case True
      then show ?thesis using same_frame [OF sd f(1) _ f(2) b(1)] b(5) by (simp add: rc_def)
    next
      case False
      then have "m = dst_cap" using c by (cases h) auto
      then show ?thesis using False c(1) prefix_length_le [OF c(2)] b(3) len(2) by (simp add: rc_def)
    qed
  qed
  then show ?thesis using run b by (auto simp: rc_def split: if_splits)
qed

text \<open>\<open>lz4_decompress_wrapper\<close> returns after at most 48 doublings.  A result above 0 is the length of the
  content of a complete frame at the front of the input, in the one buffer that is still allocated;
  with 0 nothing is left allocated.  For an input that starts with a valid non-empty frame (below
  2^63 bytes) and with memory at hand, the result is the frame's content.\<close>

theorem lz4_wrapper_correct:
  assumes doc: "lz4_documented good obs frm dec"
    and reset: "\<And>d. good d \<Longrightarrow> good (reset d) \<and> obs (reset d) = ([], [])"
    and malloc: "\<And>n b. malloc n = Some b \<Longrightarrow> length b = n"
    and "good d" and "obs d = ([], [])" and "n \<le> length inp"
  shows "\<exists>r buf live. lz4_decompress_wrapper dec reset malloc (Some d) (Some inp) n = Some (r, buf, live) \<and>
    (r = 0 \<longrightarrow> buf = None \<and> live = 0) \<and>
    (0 < r \<longrightarrow> live = 1 \<and> (\<exists>b k. buf = Some b \<and> k \<le> n \<and> r \<le> length b \<and> frm (take k inp) = Some (take r b))) \<and>
    (\<forall>f content. frm f = Some content \<and> prefix f (take n inp) \<and> (\<forall>c. malloc c \<noteq> None) \<and>
       length content \<le> SIZE_MAX div 2 \<longrightarrow> r = length content)"
proof -
  define cap where "cap = first_capacity n"
  have cap: "0 < cap" "cap \<le> SIZE_MAX" by (auto simp: cap_def first_capacity_def Let_def SIZE_MAX_def)
  obtain rc p buf live where at: "lz4_attempts dec reset malloc d inp n cap 0 0 = Some (rc, p, buf, live)"
      "live = 0 + (case buf of None \<Rightarrow> 0 | Some _ \<Rightarrow> 1)"
      "rc = 0 \<longrightarrow> (\<exists>b k. buf = Some b \<and> k \<le> n \<and> p \<le> length b \<and> frm (take k inp) = Some (take p b))"
      "\<forall>f content. frm f = Some content \<and> prefix f (take n inp) \<and> (\<forall>c. malloc c \<noteq> None) \<and>
         length content \<le> SIZE_MAX div 2 \<longrightarrow> rc = 0"
    using lz4_attempts_spec [where reset = reset and malloc = malloc and good = good and obs = obs and ?p0.0 = 0 and live = 0,
        OF doc reset malloc assms(4-6) cap] by blast
  have sd: "self_delimiting frm" using doc by (simp add: lz4_documented_def)
  have run: "lz4_decompress_wrapper dec reset malloc (Some d) (Some inp) n =
      Some (if rc \<noteq> 0 \<or> p = 0 then (0, None, case buf of None \<Rightarrow> live | Some _ \<Rightarrow> live - 1) else (p, buf, live))"
    using at(1) by (simp add: lz4_decompress_wrapper_def cap_def [symmetric] Let_def)
  have "(if rc \<noteq> 0 \<or> p = 0 then 0 else p) = length content"
    if f: "frm f = Some content" "prefix f (take n inp)" "\<forall>c. malloc c \<noteq> None" "length content \<le> SIZE_MAX div 2" for f content
  proof -
    have "rc = 0" using at(4) f by blast
    then obtain b k where "buf = Some b" "k \<le> n" "p \<le> length b" "frm (take k inp) = Some (take p b)" using at(3) by blast
    then have "content = take p b" "p \<le> length b" using same_frame(1) [OF sd f(1) _ f(2)] by auto
    then show ?thesis using \<open>rc = 0\<close> by simp
  qed
  then show ?thesis using run at(2,3) by (auto split: option.splits)
qed

text \<open>A stream of three bytes in chunks of two, then a frame through the growing buffer.\<close>

theorem gzip_into_correct_witness:
  "\<exists>rc n dst'. wf_gzip_inflate_into toy_inflate (Z_OK, ([], [])) 2 [3, 7, 8, 9, 1] 5 [0, 0, 0, 0, 5] 4 = Some (rc, n, dst') \<and>
    length dst' = length [0, 0, 0, 0, 5 :: u8] \<and> drop 4 dst' = drop 4 [0, 0, 0, 0, 5] \<and> n \<le> 4 \<and>
    (rc = WF_OK \<longrightarrow> (\<exists>k \<le> 5. toy_frame (take k [3, 7, 8, 9, 1]) = Some (take n dst'))) \<and>
    (rc = WF_NEEDS_MORE_OUT \<longrightarrow> n = 4) \<and>
    (\<forall>f content. toy_frame f = Some content \<and> prefix f (take 5 [3, 7, 8, 9, 1]) \<longrightarrow>
       rc = WF_OK \<and> take n dst' = content \<or> rc = WF_NEEDS_MORE_OUT \<and> 4 \<le> length content)"
  by (rule gzip_into_correct [OF toy_gz]) (simp_all add: toy_good_def)

theorem lz4_into_correct_witness:
  "\<exists>rc m k dst'. wf_lz4f_decompress_into toy_step (Some ([], [])) [3, 7, 8, 9, 1] 5 [0, 0, 0, 0, 5] 4 = Some (rc, m, k, dst') \<and>
    length dst' = length [0, 0, 0, 0, 5 :: u8] \<and> drop 4 dst' = drop 4 [0, 0, 0, 0, 5] \<and> m \<le> 4 \<and> k \<le> 5 \<and>
    (rc = WF_OK \<longrightarrow> toy_frame (take k [3, 7, 8, 9, 1]) = Some (take m dst')) \<and>
    (rc = WF_NEEDS_MORE_OUT \<longrightarrow> m = 4) \<and>
    (\<forall>f content. toy_frame f = Some content \<and> prefix f (take 5 [3, 7, 8, 9, 1]) \<longrightarrow>
       rc = WF_OK \<and> take k [3, 7, 8, 9, 1] = f \<and> take m dst' = content \<or>
       rc = WF_NEEDS_MORE_OUT \<and> 4 \<le> length content)"
  by (rule lz4_into_correct [OF toy_lz4]) (simp_all add: toy_good_def)

theorem lz4_wrapper_correct_witness:
  "\<exists>r buf live. lz4_decompress_wrapper toy_step (\<lambda>_. ([], [])) (\<lambda>n. Some (replicate n 0)) (Some ([], []))
      (Some [3, 7, 8, 9, 1]) 5 = Some (r, buf, live) \<and>
    (r = 0 \<longrightarrow> buf = None \<and> live = 0) \<and>
    (0 < r \<longrightarrow> live = 1 \<and> (\<exists>b k. buf = Some b \<and> k \<le> 5 \<and> r \<le> length b \<and>
       toy_frame (take k [3, 7, 8, 9, 1]) = Some (take r b))) \<and>
    (\<forall>f content. toy_frame f = Some content \<and> prefix f (take 5 [3, 7, 8, 9, 1]) \<and>
       (\<forall>c. Some (replicate c (0 :: u8)) \<noteq> None) \<and> length content \<le> SIZE_MAX div 2 \<longrightarrow> r = length content)"
  by (rule lz4_wrapper_correct [OF toy_lz4]) (auto simp: toy_good_def)

end
