(* ===== verification/Codec_Sizes.thy ===== *)
theory Codec_Sizes
  imports Endian
begin

text \<open>
  The single-shot codecs of the Kafka client: zstd in \<open>wireform-kafka/cbits/wireform_decompress.c\<close>, all of
  \<open>snappy_ffi.c\<close>, and the compressor of \<open>lz4_ffi.c\<close>.  The libraries are parameters.  What the code adds is
  the distrust of sizes that a message claims for itself, and the buffers.
\<close>

subsection \<open>Zstd\<close>

definition ZSTD_CONTENTSIZE_UNKNOWN :: u64 where "ZSTD_CONTENTSIZE_UNKNOWN = - 1"
definition ZSTD_CONTENTSIZE_ERROR :: u64 where "ZSTD_CONTENTSIZE_ERROR = - 2"
definition WF_ZSTD_BLOCK_MAX :: u64 where "WF_ZSTD_BLOCK_MAX = 131072"
definition WF_ZSTD_MIN_BLOCK :: u64 where "WF_ZSTD_MIN_BLOCK = 4"
definition ZSTD_MAGIC_SKIPPABLE_START :: u32 where "ZSTD_MAGIC_SKIPPABLE_START = 0x184D2A50"
definition ZSTD_MAGIC_SKIPPABLE_MASK :: u32 where "ZSTD_MAGIC_SKIPPABLE_MASK = 0xFFFFFFF0"

definition wf_zstd_get_frame_content_size :: "(bytes \<Rightarrow> u64) \<Rightarrow> bytes \<Rightarrow> u64 option" where
  "wf_zstd_get_frame_content_size ZSTD_getFrameContentSize src =
     (let fcs = ZSTD_getFrameContentSize src
      in if fcs = ZSTD_CONTENTSIZE_UNKNOWN \<or> fcs = ZSTD_CONTENTSIZE_ERROR then Some fcs
         else do {
           b0 \<leftarrow> load src 0;
           b1 \<leftarrow> load src 1;
           b2 \<leftarrow> load src 2;
           b3 \<leftarrow> load src 3;
           let magic = (ucast b0 OR push_bit 8 (ucast b1) OR push_bit 16 (ucast b2) OR push_bit 24 (ucast b3) :: u32);
           Some (if magic AND ZSTD_MAGIC_SKIPPABLE_MASK = ZSTD_MAGIC_SKIPPABLE_START then ZSTD_CONTENTSIZE_UNKNOWN
                 else if fcs div WF_ZSTD_BLOCK_MAX > of_nat (length src) div WF_ZSTD_MIN_BLOCK + 1
                 then ZSTD_CONTENTSIZE_ERROR
                 else fcs)
         })"

datatype zstd_rc = ZSTD_OK | ZSTD_NEEDS_MORE_OUT | ZSTD_BAD_INPUT

text \<open>\<open>ZSTD_decompress\<close> gives the bytes it wrote, or an error: whether it is the one for a small destination.\<close>

definition wf_zstd_decompress_into ::
  "(bytes \<Rightarrow> nat \<Rightarrow> bool + bytes) \<Rightarrow> bytes \<Rightarrow> bytes \<Rightarrow> nat \<Rightarrow> (zstd_rc \<times> nat \<times> bytes) option" where
  "wf_zstd_decompress_into ZSTD_decompress src dst dst_cap =
     (case ZSTD_decompress src dst_cap of
        Inl too_small \<Rightarrow> Some (if too_small then ZSTD_NEEDS_MORE_OUT else ZSTD_BAD_INPUT, 0, dst)
      | Inr out \<Rightarrow> do { dst \<leftarrow> store_block dst 0 out; Some (ZSTD_OK, length out, dst) })"

subsection \<open>Snappy\<close>

record snappy =
  max_compressed_length :: "nat \<Rightarrow> nat"
  compress :: "bytes \<Rightarrow> nat \<Rightarrow> bytes option"
  uncompressed_length :: "bytes \<Rightarrow> nat option"
  uncompress :: "bytes \<Rightarrow> nat \<Rightarrow> bytes option"

definition snappy_length_plausible :: "nat \<Rightarrow> nat \<Rightarrow> bool" where
  "snappy_length_plausible uncompressed input_length \<longleftrightarrow> uncompressed div 64 \<le> input_length div 3 + 1"

text \<open>The wrappers return the size, \<open>*output\<close> (\<open>None\<close> for NULL), \<open>*output_length\<close> when it was written, and the
  number of buffers still allocated; \<open>malloc\<close> is the buffer it gives for a size.\<close>

definition snappy_compress_wrapper ::
  "snappy \<Rightarrow> (nat \<Rightarrow> bytes option) \<Rightarrow> bytes option \<Rightarrow> (nat \<times> bytes option \<times> nat option \<times> nat) option" where
  "snappy_compress_wrapper S malloc inp =
     (case inp of
        None \<Rightarrow> Some (0, None, None, 0)
      | Some inp \<Rightarrow>
          let max_len = max_compressed_length S (length inp)
          in case malloc max_len of
               None \<Rightarrow> Some (0, None, None, 0)
             | Some buf \<Rightarrow>
                 (case compress S inp max_len of
                    None \<Rightarrow> Some (0, None, Some max_len, 0)
                  | Some out \<Rightarrow> do {
                      buf \<leftarrow> store_block buf 0 out;
                      Some (length out, Some buf, Some (length out), 1)
                    }))"

definition snappy_decompress_wrapper ::
  "snappy \<Rightarrow> (nat \<Rightarrow> bytes option) \<Rightarrow> bytes option \<Rightarrow> (nat \<times> bytes option \<times> nat option \<times> nat) option" where
  "snappy_decompress_wrapper S malloc inp =
     (case inp of
        None \<Rightarrow> Some (0, None, None, 0)
      | Some inp \<Rightarrow>
          (case uncompressed_length S inp of
             None \<Rightarrow> Some (0, None, None, 0)
           | Some n \<Rightarrow>
               if n = 0 \<or> \<not> snappy_length_plausible n (length inp) then Some (0, None, Some n, 0)
               else case malloc n of
                      None \<Rightarrow> Some (0, None, Some n, 0)
                    | Some buf \<Rightarrow>
                        (case uncompress S inp n of
                           None \<Rightarrow> Some (0, None, Some n, 0)
                         | Some out \<Rightarrow> do {
                             buf \<leftarrow> store_block buf 0 out;
                             Some (length out, Some buf, Some (length out), 1)
                           })))"

definition snappy_decompress_into :: "snappy \<Rightarrow> bytes option \<Rightarrow> bytes option \<Rightarrow> nat \<Rightarrow> (int \<times> bytes option) option" where
  "snappy_decompress_into S inp dst dst_capacity =
     (case (inp, dst) of
        (Some inp, Some buf) \<Rightarrow>
          (case uncompress S inp dst_capacity of
             None \<Rightarrow> Some (0, dst)
           | Some out \<Rightarrow> do { buf \<leftarrow> store_block buf 0 out; Some (1, Some buf) })
      | _ \<Rightarrow> Some (0, dst))"

text \<open>\<open>None\<close> is \<open>(size_t)-1\<close>.\<close>

definition snappy_get_uncompressed_length_wrapper :: "snappy \<Rightarrow> bytes option \<Rightarrow> nat option" where
  "snappy_get_uncompressed_length_wrapper S inp =
     (case inp of
        None \<Rightarrow> None
      | Some inp \<Rightarrow>
          (case uncompressed_length S inp of
             None \<Rightarrow> None
           | Some out \<Rightarrow> if \<not> snappy_length_plausible out (length inp) then None else Some out))"

subsection \<open>Compressing an LZ4 frame\<close>

definition lz4_preferences_level :: "int \<Rightarrow> int" where
  "lz4_preferences_level compression_level =
     (if compression_level = 0 then 0
      else if compression_level \<ge> 1 \<and> compression_level \<le> 16 then compression_level
      else 0)"

definition lz4_compress_wrapper_level ::
  "(nat \<Rightarrow> int \<Rightarrow> nat) \<Rightarrow> (bytes \<Rightarrow> nat \<Rightarrow> int \<Rightarrow> bytes option) \<Rightarrow> (nat \<Rightarrow> bytes option) \<Rightarrow> bytes option \<Rightarrow> int \<Rightarrow>
    (nat \<times> bytes option \<times> nat) option" where
  "lz4_compress_wrapper_level LZ4F_compressFrameBound LZ4F_compressFrame malloc inp compression_level =
     (case inp of
        None \<Rightarrow> Some (0, None, 0)
      | Some inp \<Rightarrow>
          let level = lz4_preferences_level compression_level;
              max_len = LZ4F_compressFrameBound (length inp) level
          in case malloc max_len of
               None \<Rightarrow> Some (0, None, 0)
             | Some buf \<Rightarrow>
                 (case LZ4F_compressFrame inp max_len level of
                    None \<Rightarrow> Some (0, None, 0)
                  | Some out \<Rightarrow> do { buf \<leftarrow> store_block buf 0 out; Some (length out, Some buf, 1) }))"

definition lz4_compress_wrapper ::
  "(nat \<Rightarrow> int \<Rightarrow> nat) \<Rightarrow> (bytes \<Rightarrow> nat \<Rightarrow> int \<Rightarrow> bytes option) \<Rightarrow> (nat \<Rightarrow> bytes option) \<Rightarrow> bytes option \<Rightarrow>
    (nat \<times> bytes option \<times> nat) option" where
  "lz4_compress_wrapper bound compressFrame malloc inp = lz4_compress_wrapper_level bound compressFrame malloc inp 0"

subsection \<open>Claimed sizes\<close>

lemma zstd_guard:
  assumes "length src < 2 ^ 62"
  shows "fcs div WF_ZSTD_BLOCK_MAX > of_nat (length src) div WF_ZSTD_MIN_BLOCK + 1 \<longleftrightarrow>
    unat fcs div 131072 > length src div 4 + 1"
proof -
  have n: "unat (of_nat (length src) :: u64) = length src"
    using assms by (simp add: unat_of_nat)
  have d: "unat (of_nat (length src) div 4 :: u64) = length src div 4"
    using unat_div_distrib [of "of_nat (length src) :: u64" 4] n by simp
  have "unat ((of_nat (length src) :: u64) div 4) + unat (1 :: u64) < 2 ^ LENGTH(64)"
    using assms unfolding d by simp
  then have s: "unat ((of_nat (length src) :: u64) div 4 + 1) = length src div 4 + 1"
    using unat_add_lem [of "(of_nat (length src) :: u64) div 4" 1] d by simp
  have f: "unat (fcs div 131072) = unat fcs div 131072"
    using unat_div_distrib [of fcs 131072] by simp
  show ?thesis unfolding WF_ZSTD_BLOCK_MAX_def WF_ZSTD_MIN_BLOCK_def word_less_nat_alt s f by simp
qed

text \<open>A size that a zstd frame or a snappy block claims is passed on only when the input could produce it:
  below 32768 bytes, respectively 22 bytes, per byte of input (plus two blocks), so no message makes
  the caller allocate beyond a fixed multiple of what it sent; a claim within the formats' own limits
  is passed on unchanged, and nothing outside the input is read.\<close>

theorem claimed_sizes_bounded:
  assumes "length src < 2 ^ 62"
    and "fcs src = ZSTD_CONTENTSIZE_UNKNOWN \<or> fcs src = ZSTD_CONTENTSIZE_ERROR \<or> 4 \<le> length src"
  shows "(\<exists>r. wf_zstd_get_frame_content_size fcs src = Some r \<and>
      (r \<noteq> ZSTD_CONTENTSIZE_UNKNOWN \<and> r \<noteq> ZSTD_CONTENTSIZE_ERROR \<longrightarrow>
         r = fcs src \<and> unat r < 131072 * (length src div 4 + 2)) \<and>
      (r = ZSTD_CONTENTSIZE_ERROR \<and> fcs src \<noteq> ZSTD_CONTENTSIZE_ERROR \<longrightarrow>
         131072 * (length src div 4 + 2) \<le> unat (fcs src))) \<and>
    (\<forall>n. snappy_get_uncompressed_length_wrapper S (Some src) = Some n \<longrightarrow>
      uncompressed_length S src = Some n \<and> n < 64 * (length src div 3 + 2)) \<and>
    (\<forall>n. uncompressed_length S src = Some n \<and> n < 64 * (length src div 3 + 2) \<longrightarrow>
      snappy_get_uncompressed_length_wrapper S (Some src) = Some n)"
proof -
  have div: "a div b \<le> c + 1 \<longleftrightarrow> a < b * (c + 2)" if "0 < b" for a b c :: nat
    using less_mult_imp_div_less [of a "c + 2" b] div_less_iff_less_mult [OF that, of a "c + 2"]
    by (simp add: mult.commute less_Suc_eq_le [symmetric])
  have neq: "ZSTD_CONTENTSIZE_UNKNOWN \<noteq> ZSTD_CONTENTSIZE_ERROR"
    by (simp add: ZSTD_CONTENTSIZE_UNKNOWN_def ZSTD_CONTENTSIZE_ERROR_def)
  have z: "\<exists>r. wf_zstd_get_frame_content_size fcs src = Some r \<and>
      (r \<noteq> ZSTD_CONTENTSIZE_UNKNOWN \<and> r \<noteq> ZSTD_CONTENTSIZE_ERROR \<longrightarrow>
         r = fcs src \<and> unat r < 131072 * (length src div 4 + 2)) \<and>
      (r = ZSTD_CONTENTSIZE_ERROR \<and> fcs src \<noteq> ZSTD_CONTENTSIZE_ERROR \<longrightarrow>
         131072 * (length src div 4 + 2) \<le> unat (fcs src))"
  proof (cases "fcs src = ZSTD_CONTENTSIZE_UNKNOWN \<or> fcs src = ZSTD_CONTENTSIZE_ERROR")
    case True
    then show ?thesis using neq by (auto simp: wf_zstd_get_frame_content_size_def Let_def)
  next
    case False
    then have "4 \<le> length src" using assms(2) by blast
    then have ld: "load src 0 = Some (src ! 0)" "load src 1 = Some (src ! 1)" "load src 2 = Some (src ! 2)"
        "load src 3 = Some (src ! 3)" by (auto intro!: load_in)
    define big where "big = (fcs src div WF_ZSTD_BLOCK_MAX > of_nat (length src) div WF_ZSTD_MIN_BLOCK + 1)"
    have big: "big \<longleftrightarrow> 131072 * (length src div 4 + 2) \<le> unat (fcs src)"
      unfolding big_def zstd_guard [OF assms(1)]
      using div [of 131072 "unat (fcs src)" "length src div 4"] by linarith
    show ?thesis
      unfolding wf_zstd_get_frame_content_size_def Let_def ld big_def [symmetric]
      using False neq big by simp
  qed
  have s: "snappy_length_plausible n (length src) \<longleftrightarrow> n < 64 * (length src div 3 + 2)" for n
    using div [of 64 n "length src div 3"] by (simp add: snappy_length_plausible_def)
  show ?thesis using z
    by (auto simp: snappy_get_uncompressed_length_wrapper_def s split: option.splits if_splits)
qed

text \<open>A copying zstd header and a snappy block that claims too much.\<close>

definition sample_snappy :: snappy where
  "sample_snappy = \<lparr> max_compressed_length = (\<lambda>n. n + 1), compress = (\<lambda>bs cap. if cap < length bs + 1 then None else Some (0 # bs)),
     uncompressed_length = (\<lambda>bs. if bs = [] then None else Some (length bs - 1)),
     uncompress = (\<lambda>bs cap. if bs = [] \<or> cap < length bs - 1 then None else Some (tl bs)) \<rparr>"

theorem claimed_sizes_bounded_witness:
  "(\<exists>r. wf_zstd_get_frame_content_size (\<lambda>_. 5000000) [0x28, 0xB5, 0x2F, 0xFD, 1] = Some r \<and>
      (r \<noteq> ZSTD_CONTENTSIZE_UNKNOWN \<and> r \<noteq> ZSTD_CONTENTSIZE_ERROR \<longrightarrow>
         r = 5000000 \<and> unat r < 131072 * (length [0x28, 0xB5, 0x2F, 0xFD, 1 :: u8] div 4 + 2)) \<and>
      (r = ZSTD_CONTENTSIZE_ERROR \<and> 5000000 \<noteq> ZSTD_CONTENTSIZE_ERROR \<longrightarrow>
         131072 * (length [0x28, 0xB5, 0x2F, 0xFD, 1 :: u8] div 4 + 2) \<le> unat (5000000 :: u64))) \<and>
    (\<forall>n. snappy_get_uncompressed_length_wrapper sample_snappy (Some [0x28, 0xB5, 0x2F, 0xFD, 1]) = Some n \<longrightarrow>
      uncompressed_length sample_snappy [0x28, 0xB5, 0x2F, 0xFD, 1] = Some n \<and>
      n < 64 * (length [0x28, 0xB5, 0x2F, 0xFD, 1 :: u8] div 3 + 2)) \<and>
    (\<forall>n. uncompressed_length sample_snappy [0x28, 0xB5, 0x2F, 0xFD, 1] = Some n \<and>
      n < 64 * (length [0x28, 0xB5, 0x2F, 0xFD, 1 :: u8] div 3 + 2) \<longrightarrow>
      snappy_get_uncompressed_length_wrapper sample_snappy (Some [0x28, 0xB5, 0x2F, 0xFD, 1]) = Some n)"
  by (rule claimed_sizes_bounded [where fcs = "\<lambda>_. 5000000"]) simp_all

subsection \<open>Snappy there and back\<close>

text \<open>What libsnappy documents: a compressed block fits the advertised maximum, carries its length, and
  decompresses to what was compressed whenever the room suffices; no block expands beyond the format's
  limit.\<close>

definition snappy_documented :: "snappy \<Rightarrow> bool" where
  "snappy_documented S \<longleftrightarrow>
     (\<forall>bs cap out. compress S bs cap = Some out \<longrightarrow> length out \<le> cap) \<and>
     (\<forall>bs. compress S bs (max_compressed_length S (length bs)) \<noteq> None) \<and>
     (\<forall>bs cap out. compress S bs cap = Some out \<longrightarrow>
        uncompressed_length S out = Some (length bs) \<and> (\<forall>room. length bs \<le> room \<longrightarrow> uncompress S out room = Some bs)) \<and>
     (\<forall>bs room out. uncompress S bs room = Some out \<longrightarrow>
        uncompressed_length S bs = Some (length out) \<and> length out \<le> room \<and> length out < 64 * (length bs div 3 + 2))"

text \<open>What \<open>snappy_compress_wrapper\<close> returns, \<open>snappy_decompress_wrapper\<close> turns back into the data (the
  plausibility test never rejects it), each in its one buffer of the stated length; the empty input
  comes back as 0 with nothing to free.\<close>

theorem snappy_roundtrip:
  assumes doc: "snappy_documented S" and malloc: "\<And>n. \<exists>b. malloc n = Some b \<and> length b = n"
  shows "\<exists>n buf. snappy_compress_wrapper S malloc (Some data) = Some (n, Some buf, Some n, 1) \<and> n \<le> length buf \<and>
    snappy_decompress_wrapper S malloc (Some (take n buf)) =
      (if data = [] then Some (0, None, Some 0, 0)
       else Some (length data, Some data, Some (length data), 1))"
proof -
  obtain out where out: "compress S data (max_compressed_length S (length data)) = Some out"
      "length out \<le> max_compressed_length S (length data)"
    using doc unfolding snappy_documented_def by blast
  have inv: "uncompressed_length S out = Some (length data)" "uncompress S out (length data) = Some data"
    using doc out(1) unfolding snappy_documented_def by blast+
  have lim: "length data < 64 * (length out div 3 + 2)"
    using doc inv(2) unfolding snappy_documented_def by blast
  have ok: "snappy_length_plausible (length data) (length out)"
  proof -
    have "length data div 64 < length out div 3 + 2" by (rule less_mult_imp_div_less) (use lim in simp)
    then show ?thesis by (simp add: snappy_length_plausible_def)
  qed
  obtain b where b: "malloc (max_compressed_length S (length data)) = Some b" "length b = max_compressed_length S (length data)"
    using malloc by blast
  obtain c where c: "malloc (length data) = Some c" "length c = length data" using malloc by blast
  define buf where "buf = out @ drop (length out) b"
  have "store_block b 0 out = Some buf" using out(2) b(2) by (auto simp: store_block_def buf_def)
  then have "snappy_compress_wrapper S malloc (Some data) = Some (length out, Some buf, Some (length out), 1)"
    using b(1) out(1) by (simp add: snappy_compress_wrapper_def)
  moreover have "take (length out) buf = out" "length out \<le> length buf" by (simp_all add: buf_def)
  moreover have "snappy_decompress_wrapper S malloc (Some out) =
      (if data = [] then Some (0, None, Some 0, 0)
       else Some (length data, Some data, Some (length data), 1))"
    using inv ok c by (simp add: snappy_decompress_wrapper_def store_block_def)
  ultimately show ?thesis by auto
qed

theorem snappy_roundtrip_witness:
  "\<exists>n buf. snappy_compress_wrapper sample_snappy (\<lambda>n. Some (replicate n 0)) (Some [1, 2, 3]) = Some (n, Some buf, Some n, 1) \<and>
    n \<le> length buf \<and>
    snappy_decompress_wrapper sample_snappy (\<lambda>n. Some (replicate n 0)) (Some (take n buf)) =
      (if [1, 2, 3 :: u8] = [] then Some (0, None, Some 0, 0)
       else Some (length [1, 2, 3 :: u8], Some [1, 2, 3], Some (length [1, 2, 3 :: u8]), 1))"
  by (rule snappy_roundtrip) (auto simp: snappy_documented_def sample_snappy_def split: if_splits)

end
