(* ===== verification/Host.thy ===== *)
theory Host
  imports Prelude
begin

text \<open>
  Two small host services: \<open>wireform-kafka/cbits/wireform_time.c\<close>, the wall clock in milliseconds and
  microseconds, and \<open>wireform-network/cbits/wireform_affinity.c\<close>, pinning the calling thread to a core.
  The clock reading, \<open>sched_setaffinity\<close> and \<open>CPU_ALLOC\<close> are parameters.
\<close>

subsection \<open>The clock\<close>

text \<open>\<open>int64_t\<close> arithmetic; the result is \<open>None\<close> where it would overflow, which is undefined in C.\<close>

definition int64 :: "int \<Rightarrow> int option" where
  "int64 x = (if - (2 ^ 63) \<le> x \<and> x < 2 ^ 63 then Some x else None)"

definition c_div :: "int \<Rightarrow> int \<Rightarrow> int" where
  "c_div a b = sgn a * sgn b * (\<bar>a\<bar> div \<bar>b\<bar>)"

definition wireform_current_time_millis :: "int \<times> int \<Rightarrow> int option" where
  "wireform_current_time_millis ts = (case ts of (tv_sec, tv_nsec) \<Rightarrow> do {
     s \<leftarrow> int64 (tv_sec * 1000);
     int64 (s + c_div tv_nsec 1000000)
   })"

definition wireform_current_time_micros :: "int \<times> int \<Rightarrow> int option" where
  "wireform_current_time_micros ts = (case ts of (tv_sec, tv_nsec) \<Rightarrow> do {
     s \<leftarrow> int64 (tv_sec * 1000000);
     int64 (s + c_div tv_nsec 1000)
   })"

lemma scaled_time:
  fixes k n d :: int
  assumes "0 \<le> n" and "n < 10 ^ 9" and "k * d = 10 ^ 9" and "0 < d"
  shows "s * k + c_div n d = (s * 10 ^ 9 + n) div d" "0 \<le> c_div n d"
proof -
  have n: "c_div n d = n div d" using assms by (cases "n = 0") (simp_all add: c_div_def)
  have "s * 10 ^ 9 + n = n + (s * k) * d" by (simp only: mult.assoc assms(3) add.commute)
  also have "\<dots> div d = s * k + n div d" using assms(4) by (intro div_mult_self1) simp
  finally show "s * k + c_div n d = (s * 10 ^ 9 + n) div d" using n by simp
  show "0 \<le> c_div n d" using assms n by (simp add: pos_imp_zdiv_nonneg_iff)
qed

text \<open>For the next 290000 years, before and after the epoch, the two readings are the nanoseconds since the
  epoch, rounded down; hence a later reading is never smaller, and the milliseconds are the
  microseconds divided by 1000.\<close>

theorem clock_correct:
  assumes "0 \<le> nsec" and "nsec < 10 ^ 9" and "\<bar>sec\<bar> \<le> 9 * 10 ^ 12"
  shows "wireform_current_time_millis (sec, nsec) = Some ((sec * 10 ^ 9 + nsec) div 10 ^ 6) \<and>
    wireform_current_time_micros (sec, nsec) = Some ((sec * 10 ^ 9 + nsec) div 10 ^ 3) \<and>
    (sec * 10 ^ 9 + nsec) div 10 ^ 6 = (sec * 10 ^ 9 + nsec) div 10 ^ 3 div 1000"
proof -
  have sec: "- (9 * 10 ^ 12) \<le> sec" "sec \<le> 9 * 10 ^ 12" using assms(3) by linarith+
  have m: "sec * 1000 + c_div nsec 1000000 = (sec * 10 ^ 9 + nsec) div 1000000" "0 \<le> c_div nsec 1000000"
    and u: "sec * 1000000 + c_div nsec 1000 = (sec * 10 ^ 9 + nsec) div 1000" "0 \<le> c_div nsec 1000"
    using scaled_time(1) [OF assms(1,2), of 1000 1000000 sec] scaled_time(1) [OF assms(1,2), of 1000000 1000 sec]
      scaled_time(2) [OF assms(1,2), of 1000 1000000] scaled_time(2) [OF assms(1,2), of 1000000 1000] by simp_all
  have top: "c_div nsec d \<le> nsec" if "0 < d" for d
  proof -
    have "c_div nsec d = nsec div d" using assms(1) that by (cases "nsec = 0") (simp_all add: c_div_def)
    then show ?thesis using zdiv_mono2 [where a = nsec and b' = 1 and b = d] assms(1) that by simp
  qed
  have r: "int64 (sec * 1000) = Some (sec * 1000)" "int64 (sec * 1000000) = Some (sec * 1000000)"
      "int64 (sec * 1000 + c_div nsec 1000000) = Some (sec * 1000 + c_div nsec 1000000)"
      "int64 (sec * 1000000 + c_div nsec 1000) = Some (sec * 1000000 + c_div nsec 1000)"
    using sec assms(2) m(2) u(2) top [of 1000000] top [of 1000] by (simp_all add: int64_def)
  have "(sec * 10 ^ 9 + nsec) div 10 ^ 6 = (sec * 10 ^ 9 + nsec) div 10 ^ 3 div 1000"
    by (simp add: zdiv_zmult2_eq [symmetric])
  then show ?thesis using r m(1) u(1)
    by (simp add: wireform_current_time_millis_def wireform_current_time_micros_def)
qed

subsection \<open>Pinning a thread\<close>

definition AFFINITY_MAX_CORE :: int where "AFFINITY_MAX_CORE = 2 ^ 20"
definition CPU_SETSIZE :: int where "CPU_SETSIZE = 1024"
definition EINVAL :: int where "EINVAL = 22"
definition ENOMEM :: int where "ENOMEM = 12"

text \<open>\<open>sched\<close> answers the system call for a set of cores (0, or the error number), \<open>clobber\<close> is what
  \<open>CPU_FREE\<close> may leave in \<open>errno\<close>, and \<open>live\<close> counts the sets allocated and not freed.\<close>

record affinity_state =
  aff_errno :: int
  live_sets :: nat

definition affinity_call :: "(int set \<Rightarrow> int option) \<Rightarrow> int set \<Rightarrow> affinity_state \<Rightarrow> int \<times> affinity_state" where
  "affinity_call sched cpus s =
     (case sched cpus of None \<Rightarrow> (0, s) | Some e \<Rightarrow> (-1, s\<lparr>aff_errno := e\<rparr>))"

definition CPU_FREE :: "(int \<Rightarrow> int) \<Rightarrow> affinity_state \<Rightarrow> affinity_state" where
  "CPU_FREE clobber s = s\<lparr>aff_errno := clobber (aff_errno s), live_sets := live_sets s - 1\<rparr>"

definition sched_setaffinity_single ::
    "(int set \<Rightarrow> int option) \<Rightarrow> bool \<Rightarrow> (int \<Rightarrow> int) \<Rightarrow> int \<Rightarrow> affinity_state \<Rightarrow> int \<times> affinity_state" where
  "sched_setaffinity_single sched alloc_ok clobber core s =
     (if core < 0 \<or> core \<ge> AFFINITY_MAX_CORE then (-1, s\<lparr>aff_errno := EINVAL\<rparr>)
      else if core < CPU_SETSIZE then affinity_call sched {core} s
      else if \<not> alloc_ok then (-1, s\<lparr>aff_errno := ENOMEM\<rparr>)
      else
        let s = s\<lparr>live_sets := live_sets s + 1\<rparr>;
            (rc, s) = affinity_call sched {core} s;
            saved_errno = aff_errno s;
            s = CPU_FREE clobber s;
            s = s\<lparr>aff_errno := saved_errno\<rparr>
        in (rc, s))"

text \<open>A call pins to exactly the core that was asked for, or fails with the reason in \<open>errno\<close> whatever
  freeing the set does to it; no index is truncated and no set is leaked.\<close>

theorem affinity_exact:
  "sched_setaffinity_single sched alloc_ok clobber core s =
     (if core < 0 \<or> 2 ^ 20 \<le> core then (-1, s\<lparr>aff_errno := EINVAL\<rparr>)
      else if 1024 \<le> core \<and> \<not> alloc_ok then (-1, s\<lparr>aff_errno := ENOMEM\<rparr>)
      else case sched {core} of None \<Rightarrow> (0, s) | Some e \<Rightarrow> (-1, s\<lparr>aff_errno := e\<rparr>))"
  by (simp add: sched_setaffinity_single_def affinity_call_def CPU_FREE_def AFFINITY_MAX_CORE_def CPU_SETSIZE_def Let_def
      split: option.split)

end
