(* ===== verification/Packed_Float.thy ===== *)
theory Packed_Float
  imports Bitmap
begin

text \<open>
  \<open>wireform-columnar-core/cbits/packed_float.c\<close>: frame-of-reference decoding of bit-packed integers to
  floating point, and the scatter of exceptions.  The integer side is modelled in full: the bit
  windows, the vector gather for widths up to 16, the word blocks for larger ones, and the order of the
  stores.  The machine's IEEE arithmetic is a parameter, on bit patterns: the conversion of a signed
  integer and the product.  \<open>offset\<close>, \<open>first\<close> and \<open>n\<close> are \<open>size_t\<close> values within the extents.
\<close>

record 'w fpu =
  cvt :: "'w \<Rightarrow> 'w"
  fmul :: "'w \<Rightarrow> 'w \<Rightarrow> 'w"

subsection \<open>Unpacking\<close>

definition little64 :: "bytes \<Rightarrow> nat \<Rightarrow> nat \<Rightarrow> u64 option" where
  "little64 src p available = (if 8 \<le> available then load_le 8 src p else load_le available src p)"

definition width_mask :: "nat \<Rightarrow> u64" where
  "width_mask width = (if width = 64 then NOT 0 else push_bit width 1 - 1)"

definition unpack :: "bytes \<Rightarrow> nat \<Rightarrow> nat \<Rightarrow> nat \<Rightarrow> u64 option" where
  "unpack src len bitpos width = do {
     let byte = bitpos div 8;
     let shift = bitpos mod 8;
     value \<leftarrow> little64 src byte (len - byte);
     let value = drop_bit shift value;
     value \<leftarrow> (if shift \<noteq> 0 \<and> width > 64 - shift
       then do { b \<leftarrow> load src (byte + 8); Some (value OR push_bit (64 - shift) (ucast b)) }
       else Some value);
     Some (value AND width_mask width)
   }"

text \<open>\<open>value32\<close> and \<open>value64\<close>: conversion and two products, in this order.\<close>

definition value_of :: "'w fpu \<Rightarrow> 'w \<Rightarrow> 'w \<Rightarrow> 'w \<Rightarrow> 'w" where
  "value_of F factor scale raw =
     (let decoded = cvt F raw;
          decoded = fmul F decoded factor
      in fmul F decoded scale)"

text \<open>\<open>LOAD_BLOCK\<close> and \<open>block_delta\<close>: eight rows are \<open>W\<close> bytes, held in eight words.\<close>

definition WORD_AT :: "bytes \<Rightarrow> nat \<Rightarrow> nat \<Rightarrow> nat \<Rightarrow> u64 option" where
  "WORD_AT src byte W J =
     (if W > J * 8 then little64 src (byte + J * 8) (if W - J * 8 \<ge> 8 then 8 else W - J * 8) else Some 0)"

definition LOAD_BLOCK :: "bytes \<Rightarrow> nat \<Rightarrow> nat \<Rightarrow> u64 list option" where
  "LOAD_BLOCK src first W = (let byte = first * W div 8 in those (map (WORD_AT src byte W) [0..<8]))"

definition block_delta :: "u64 list \<Rightarrow> nat \<Rightarrow> nat \<Rightarrow> u64 option" where
  "block_delta words bitpos width = do {
     let word = bitpos div 64;
     let shift = bitpos mod 64;
     value \<leftarrow> load words word;
     let value = drop_bit shift value;
     value \<leftarrow> (if shift \<noteq> 0 \<and> width > 64 - shift
       then do { w \<leftarrow> load words (word + 1); Some (value OR push_bit (64 - shift) w) }
       else Some value);
     Some (value AND width_mask width)
   }"

definition DELTAS :: "u64 list \<Rightarrow> nat \<Rightarrow> u64 list option" where
  "DELTAS words W = those (map (\<lambda>i. block_delta words (i * W) W) [0..<8])"

subsection \<open>The vector gather\<close>

text \<open>NEON operations on lanes, from simde's portable branches; indices and shift counts are constants
  of the code, here numbers.\<close>

definition simde_vqtbl1q_u8 :: "bytes \<Rightarrow> nat list \<Rightarrow> bytes" where
  "simde_vqtbl1q_u8 t idx = map (\<lambda>i. if i < 16 then t ! i else 0) idx"

definition simde_vreinterpretq_u32_u8 :: "bytes \<Rightarrow> u32 list" where
  "simde_vreinterpretq_u32_u8 v = map (\<lambda>k. le_word (take 4 (drop (4 * k) v))) [0..<4]"

definition simde_vshlq_u32 :: "u32 list \<Rightarrow> int list \<Rightarrow> u32 list" where
  "simde_vshlq_u32 a b =
     map2 (\<lambda>x s. if \<bar>s\<bar> \<ge> 32 then 0 else if s \<ge> 0 then push_bit (nat s) x else drop_bit (nat (- s)) x) a b"

definition simde_vandq_u32 :: "u32 list \<Rightarrow> u32 list \<Rightarrow> u32 list" where
  "simde_vandq_u32 a b = map2 (AND) a b"

definition simde_vaddq :: "'a::len word list \<Rightarrow> 'a word list \<Rightarrow> 'a word list" where
  "simde_vaddq a b = map2 (+) a b"

definition simde_vcvtq :: "'w fpu \<Rightarrow> 'w list \<Rightarrow> 'w list" where
  "simde_vcvtq F a = map (cvt F) a"

definition simde_vmulq_n :: "'w fpu \<Rightarrow> 'w list \<Rightarrow> 'w \<Rightarrow> 'w list" where
  "simde_vmulq_n F a b = map (\<lambda>x. fmul F x b) a"

text \<open>The four indices of a window.\<close>

definition WINDOW :: "nat \<Rightarrow> nat \<Rightarrow> nat list" where
  "WINDOW w i = [i * w div 8 + 0, i * w div 8 + 1, i * w div 8 + 2, i * w div 8 + 3]"

definition decode32_small8 ::
  "u32 fpu \<Rightarrow> bytes \<Rightarrow> nat \<Rightarrow> nat \<Rightarrow> bytes \<Rightarrow> nat \<Rightarrow> nat \<Rightarrow> u32 \<Rightarrow> u32 \<Rightarrow> u32 \<Rightarrow> bytes option" where
  "decode32_small8 F src p available dst pos w frm factor scale = do {
     inp \<leftarrow> (if available \<ge> 16 then load_block src p 16
             else do { t \<leftarrow> load_block src p available; Some (t @ replicate (16 - available) 0) });
     let indices0 = WINDOW w 0 @ WINDOW w 1 @ WINDOW w 2 @ WINDOW w 3;
     let indices1 = WINDOW w 4 @ WINDOW w 5 @ WINDOW w 6 @ WINDOW w 7;
     let shifts0 = map (\<lambda>i. - int (i * w mod 8)) [0, 1, 2, 3];
     let shifts1 = map (\<lambda>i. - int (i * w mod 8)) [4, 5, 6, 7];
     let low = simde_vreinterpretq_u32_u8 (simde_vqtbl1q_u8 inp indices0);
     let high = simde_vreinterpretq_u32_u8 (simde_vqtbl1q_u8 inp indices1);
     let msk = replicate 4 (push_bit w 1 - 1);
     let base = replicate 4 frm;
     let low = simde_vandq_u32 (simde_vshlq_u32 low shifts0) msk;
     let high = simde_vandq_u32 (simde_vshlq_u32 high shifts1) msk;
     let a = simde_vcvtq F (simde_vaddq low base);
     let b = simde_vcvtq F (simde_vaddq high base);
     let a = simde_vmulq_n F (simde_vmulq_n F a factor) scale;
     let b = simde_vmulq_n F (simde_vmulq_n F b factor) scale;
     dst \<leftarrow> store_block dst pos (concat (map (le_bytes 4) a));
     store_block dst (pos + 16) (concat (map (le_bytes 4) b))
   }"

subsection \<open>Decoding a run\<close>

text \<open>Four 32-bit or two 64-bit lanes at a time from eight deltas.\<close>

fun store_lanes :: "'w::len word fpu \<Rightarrow> nat \<Rightarrow> nat \<Rightarrow> bytes \<Rightarrow> nat \<Rightarrow> 'w word \<Rightarrow> 'w word \<Rightarrow> 'w word \<Rightarrow> 'w word list list \<Rightarrow> bytes option" where
  "store_lanes F E lanes dst pos frm factor scale [] = Some dst"
| "store_lanes F E lanes dst pos frm factor scale (ds # rest) = do {
     let v = simde_vcvtq F (simde_vaddq ds (replicate lanes frm));
     let v = simde_vmulq_n F (simde_vmulq_n F v factor) scale;
     dst \<leftarrow> store_block dst pos (concat (map (le_bytes E) v));
     store_lanes F E lanes dst (pos + 16) frm factor scale rest
   }"

text \<open>The body of the vector loop of \<open>DEFINE32\<close> and of \<open>DEFINE64\<close>.\<close>

definition block32 :: "u32 fpu \<Rightarrow> bytes \<Rightarrow> nat \<Rightarrow> nat \<Rightarrow> u32 \<Rightarrow> u32 \<Rightarrow> u32 \<Rightarrow> bytes \<Rightarrow> nat \<Rightarrow> nat \<Rightarrow> bytes option" where
  "block32 F src len W frm factor scale dst pos first =
     (if W \<le> 16 then
        let byte = first * W div 8 in decode32_small8 F src byte (len - byte) dst pos W frm factor scale
      else do {
        words \<leftarrow> LOAD_BLOCK src first W;
        ds \<leftarrow> DELTAS words W;
        let deltas = map ucast ds;
        store_lanes F 4 4 dst pos frm factor scale [take 4 deltas, drop 4 deltas]
      })"

definition block64 :: "u64 fpu \<Rightarrow> bytes \<Rightarrow> nat \<Rightarrow> nat \<Rightarrow> u64 \<Rightarrow> u64 \<Rightarrow> u64 \<Rightarrow> bytes \<Rightarrow> nat \<Rightarrow> nat \<Rightarrow> bytes option" where
  "block64 F src len W frm factor scale dst pos first = do {
     words \<leftarrow> LOAD_BLOCK src first W;
     deltas \<leftarrow> DELTAS words W;
     store_lanes F 8 2 dst pos frm factor scale
       [take 2 deltas, take 2 (drop 2 deltas), take 2 (drop 4 deltas), drop 6 deltas]
   }"

text \<open>One row: \<open>value32(frame + (uint32_t)unpack(...))\<close> or \<open>value64(frame + unpack(...))\<close>, stored.\<close>

definition row_step ::
  "'w::len word fpu \<Rightarrow> nat \<Rightarrow> bytes \<Rightarrow> nat \<Rightarrow> nat \<Rightarrow> 'w word \<Rightarrow> 'w word \<Rightarrow> 'w word \<Rightarrow> bytes \<Rightarrow> nat \<Rightarrow> nat \<Rightarrow> bytes option" where
  "row_step F E src len W frm factor scale dst pos first = do {
     d \<leftarrow> unpack src len (first * W) W;
     store_block dst pos (le_bytes E (value_of F factor scale (frm + ucast d)))
   }"

function head_rows ::
  "(bytes \<Rightarrow> nat \<Rightarrow> nat \<Rightarrow> bytes option) \<Rightarrow> nat \<Rightarrow> bytes \<Rightarrow> nat \<Rightarrow> nat \<Rightarrow> nat \<Rightarrow> (bytes \<times> nat \<times> nat \<times> nat) option" where
  "head_rows row E dst pos first n =
     (if n \<noteq> 0 \<and> first mod 8 \<noteq> 0 then do {
        dst \<leftarrow> row dst pos first;
        head_rows row E dst (pos + E) (first + 1) (n - 1)
      }
      else Some (dst, pos, first, n))"
  by pat_completeness auto
termination
  by (relation "measure (\<lambda>(row, E, dst, pos, first, n). n)") auto

function block_rows ::
  "(bytes \<Rightarrow> nat \<Rightarrow> nat \<Rightarrow> bytes option) \<Rightarrow> nat \<Rightarrow> bytes \<Rightarrow> nat \<Rightarrow> nat \<Rightarrow> nat \<Rightarrow> (bytes \<times> nat \<times> nat \<times> nat) option" where
  "block_rows block E dst pos first n =
     (if 8 \<le> n then do {
        dst \<leftarrow> block dst pos first;
        block_rows block E dst (pos + 8 * E) (first + 8) (n - 8)
      }
      else Some (dst, pos, first, n))"
  by pat_completeness auto
termination
  by (relation "measure (\<lambda>(block, E, dst, pos, first, n). n)") auto

function tail_rows ::
  "(bytes \<Rightarrow> nat \<Rightarrow> nat \<Rightarrow> bytes option) \<Rightarrow> nat \<Rightarrow> bytes \<Rightarrow> nat \<Rightarrow> nat \<Rightarrow> nat \<Rightarrow> bytes option" where
  "tail_rows row E dst pos first n =
     (if n \<noteq> 0 then do {
        dst \<leftarrow> row dst pos first;
        tail_rows row E dst (pos + E) (first + 1) (n - 1)
      }
      else Some dst)"
  by pat_completeness auto
termination
  by (relation "measure (\<lambda>(row, E, dst, pos, first, n). n)") auto

declare head_rows.simps [simp del] block_rows.simps [simp del] tail_rows.simps [simp del]

definition DEFINE32 ::
  "nat \<Rightarrow> u32 fpu \<Rightarrow> bytes \<Rightarrow> nat \<Rightarrow> bytes \<Rightarrow> nat \<Rightarrow> nat \<Rightarrow> nat \<Rightarrow> u32 \<Rightarrow> u32 \<Rightarrow> u32 \<Rightarrow> bytes option" where
  "DEFINE32 W F src len dst pos first n frm factor scale = do {
     (dst, pos, first, n) \<leftarrow> head_rows (row_step F 4 src len W frm factor scale) 4 dst pos first n;
     (dst, pos, first, n) \<leftarrow> block_rows (block32 F src len W frm factor scale) 4 dst pos first n;
     tail_rows (row_step F 4 src len W frm factor scale) 4 dst pos first n
   }"

definition DEFINE64 ::
  "nat \<Rightarrow> u64 fpu \<Rightarrow> bytes \<Rightarrow> nat \<Rightarrow> bytes \<Rightarrow> nat \<Rightarrow> nat \<Rightarrow> nat \<Rightarrow> u64 \<Rightarrow> u64 \<Rightarrow> u64 \<Rightarrow> bytes option" where
  "DEFINE64 W F src len dst pos first n frm factor scale = do {
     (dst, pos, first, n) \<leftarrow> head_rows (row_step F 8 src len W frm factor scale) 8 dst pos first n;
     (dst, pos, first, n) \<leftarrow> block_rows (block64 F src len W frm factor scale) 8 dst pos first n;
     tail_rows (row_step F 8 src len W frm factor scale) 8 dst pos first n
   }"

text \<open>Width 0: the same value in every row, 16 bytes at a time and then one by one.\<close>

function fill_blocks :: "bytes \<Rightarrow> nat \<Rightarrow> bytes \<Rightarrow> nat \<Rightarrow> nat \<Rightarrow> nat \<Rightarrow> (nat \<times> bytes) option" where
  "fill_blocks v lanes dst pos i n =
     (if 0 < lanes \<and> lanes \<le> n - i then do {
        dst \<leftarrow> store_block dst (pos + i * length v) (concat (replicate lanes v));
        fill_blocks v lanes dst pos (i + lanes) n
      }
      else Some (i, dst))"
  by pat_completeness auto
termination
  by (relation "measure (\<lambda>(v, lanes, dst, pos, i, n). n - i)") auto

function fill_rows :: "bytes \<Rightarrow> bytes \<Rightarrow> nat \<Rightarrow> nat \<Rightarrow> nat \<Rightarrow> bytes option" where
  "fill_rows v dst pos i n =
     (if i < n then do {
        dst \<leftarrow> store_block dst (pos + i * length v) v;
        fill_rows v dst pos (i + 1) n
      }
      else Some dst)"
  by pat_completeness auto
termination
  by (relation "measure (\<lambda>(v, dst, pos, i, n). n - i)") auto

declare fill_blocks.simps [simp del] fill_rows.simps [simp del]

definition hs_columnar_unpack_for_f32 ::
  "u32 fpu \<Rightarrow> bytes \<Rightarrow> nat \<Rightarrow> bytes \<Rightarrow> nat \<Rightarrow> nat \<Rightarrow> nat \<Rightarrow> nat \<Rightarrow> u32 \<Rightarrow> u32 \<Rightarrow> u32 \<Rightarrow> bytes option" where
  "hs_columnar_unpack_for_f32 F src len out offset first n width frm factor scale =
     (if n = 0 then Some out
      else if width = 0 then do {
        let v = le_bytes 4 (value_of F factor scale frm);
        (i, out) \<leftarrow> fill_blocks v 4 out offset 0 n;
        fill_rows v out offset i n
      }
      else if width \<le> 32 then DEFINE32 width F src len out offset first n frm factor scale
      else Some out)"

definition hs_columnar_unpack_for_f64 ::
  "u64 fpu \<Rightarrow> bytes \<Rightarrow> nat \<Rightarrow> bytes \<Rightarrow> nat \<Rightarrow> nat \<Rightarrow> nat \<Rightarrow> nat \<Rightarrow> u64 \<Rightarrow> u64 \<Rightarrow> u64 \<Rightarrow> bytes option" where
  "hs_columnar_unpack_for_f64 F src len out offset first n width frm factor scale =
     (if n = 0 then Some out
      else if width = 0 then do {
        let v = le_bytes 8 (value_of F factor scale frm);
        (i, out) \<leftarrow> fill_blocks v 2 out offset 0 n;
        fill_rows v out offset i n
      }
      else if width \<le> 64 then DEFINE64 width F src len out offset first n frm factor scale
      else Some out)"

subsection \<open>Scattering exceptions\<close>

function scatter_loop :: "nat \<Rightarrow> bytes \<Rightarrow> bytes \<Rightarrow> bytes \<Rightarrow> nat \<Rightarrow> nat \<Rightarrow> nat \<Rightarrow> bytes option" where
  "scatter_loop E positions values out offset i n =
     (if i < n then do {
        p0 \<leftarrow> load positions (i * 2);
        p1 \<leftarrow> load positions (i * 2 + 1);
        let pos = unat (ucast p0 OR push_bit 8 (ucast p1) :: u64);
        bits \<leftarrow> little64 values (i * E) E;
        out \<leftarrow> store_block out (offset + pos * E) (le_bytes E bits);
        scatter_loop E positions values out offset (i + 1) n
      }
      else Some out)"
  by pat_completeness auto
termination
  by (relation "measure (\<lambda>(E, positions, values, out, offset, i, n). n - i)") auto

declare scatter_loop.simps [simp del]

definition hs_columnar_scatter_le_f32 :: "bytes \<Rightarrow> bytes \<Rightarrow> bytes \<Rightarrow> nat \<Rightarrow> nat \<Rightarrow> bytes option" where
  "hs_columnar_scatter_le_f32 positions values out offset n =
     (if n = 0 then Some out else scatter_loop 4 positions values out offset 0 n)"

definition hs_columnar_scatter_le_f64 :: "bytes \<Rightarrow> bytes \<Rightarrow> bytes \<Rightarrow> nat \<Rightarrow> nat \<Rightarrow> bytes option" where
  "hs_columnar_scatter_le_f64 positions values out offset n =
     (if n = 0 then Some out else scatter_loop 8 positions values out offset 0 n)"

subsection \<open>Bit fields\<close>

text \<open>The field of \<open>w\<close> bits at bit position \<open>t\<close>, and the row of a packed section.\<close>

definition field :: "bytes \<Rightarrow> nat \<Rightarrow> nat \<Rightarrow> u64" where
  "field src t w = bits_word w (\<lambda>i. bit_at src (t + i))"

lemma bit_field: "w \<le> 64 \<Longrightarrow> bit (field src t w) i \<longleftrightarrow> i < w \<and> bit_at src (t + i)"
  by (simp add: field_def bit_bits_word)

lemma field_eqI:
  assumes "w \<le> 64" and "\<And>i. i < 64 \<Longrightarrow> bit v i \<longleftrightarrow> i < w \<and> bit_at src (t + i)"
  shows "v = field src t w"
  by (rule bit_word_eqI) (simp add: assms bit_field)

lemma bit_width_mask: "w \<le> 64 \<Longrightarrow> bit (width_mask w) i \<longleftrightarrow> i < w"
  using bit_low_mask [of w i] by (auto simp: width_mask_def low_mask_def bit_simps dest: bit_imp_le_length)

lemma little64_bits:
  assumes "p + min 8 a \<le> length src"
  shows "\<exists>v. little64 src p a = Some v \<and> (\<forall>j. bit v j \<longleftrightarrow> j < 64 \<and> j < 8 * a \<and> bit_at src (8 * p + j))"
proof -
  define m where "m = min 8 a"
  have "little64 src p a = Some (le_word (take m (drop p src)))"
    using assms by (simp add: little64_def load_le_in m_def)
  moreover have "bit (le_word (take m (drop p src)) :: u64) j \<longleftrightarrow> j < 64 \<and> j < 8 * m \<and> bit_at src (8 * p + j)" for j
    using assms unfolding m_def by (rule bit_le_word_at)
  moreover have "j < 64 \<and> j < 8 * m \<longleftrightarrow> j < 64 \<and> j < 8 * a" for j by (auto simp: m_def)
  ultimately show ?thesis by blast
qed

text \<open>What both readers do with a window: shift it down and take the missing bits from above.\<close>

lemma joined_bits:
  fixes v w :: u64
  assumes "s < 64" and "\<And>j. bit v j \<longleftrightarrow> j < 64 \<and> P j" and "\<And>j. j < 64 \<Longrightarrow> bit w j \<longleftrightarrow> P (64 + j)" and "k \<le> 64"
    and "j < 64"
  shows "bit ((if s \<noteq> 0 \<and> k > 64 - s then drop_bit s v OR push_bit (64 - s) w else drop_bit s v) AND width_mask k) j \<longleftrightarrow>
    j < k \<and> P (s + j)"
proof (cases "s + j < 64")
  case True
  then have "\<not> bit (push_bit (64 - s) w) j" by (auto simp: bit_push_bit_iff)
  with True assms show ?thesis by (auto simp: bit_simps bit_width_mask)
next
  case False
  then have eq: "64 + (j - (64 - s)) = s + j" "64 - s \<le> j" "j - (64 - s) < 64" using assms(1,5) by linarith+
  then have "bit (push_bit (64 - s) w) j \<longleftrightarrow> P (s + j)"
    using assms(5) assms(3) [of "j - (64 - s)"] by (simp add: bit_push_bit_iff add.commute)
  with False assms show ?thesis by (auto simp: bit_simps bit_width_mask)
qed

lemma unpack_eq:
  assumes "0 < w" and "w \<le> 64" and "t + w \<le> 8 * len" and "len \<le> length src"
  shows "unpack src len t w = Some (field src t w)"
proof -
  define p where "p = t div 8"
  define s where "s = t mod 8"
  have t: "t = 8 * p + s" and s: "s < 8" by (simp_all add: p_def s_def)
  have p: "p < len" using assms(1,3) t by linarith
  obtain v where v: "little64 src p (len - p) = Some v"
      "\<And>j. bit v j \<longleftrightarrow> j < 64 \<and> j < 8 * (len - p) \<and> bit_at src (8 * p + j)"
  proof -
    have "p + min 8 (len - p) \<le> length src" using p assms(4) by linarith
    from little64_bits [OF this] show thesis using that by blast
  qed
  define b where "b = (ucast (src ! (p + 8)) :: u64)"
  define P where "P j \<longleftrightarrow> (if j < 64 then j < 8 * (len - p) \<and> bit_at src (8 * p + j) else bit b (j - 64))" for j
  have nine: "p + 8 < length src" if "s \<noteq> 0 \<and> w > 64 - s" using assms(3,4) t s that by linarith
  have run: "unpack src len t w =
      Some ((if s \<noteq> 0 \<and> w > 64 - s then drop_bit s v OR push_bit (64 - s) b else drop_bit s v) AND width_mask w)"
    using v(1) nine unfolding unpack_def Let_def p_def [symmetric] s_def [symmetric]
    by (cases "s \<noteq> 0 \<and> w > 64 - s") (simp_all only: b_def load_in if_True if_False bind.bind_lunit simp_thms)
  have "bit ((if s \<noteq> 0 \<and> w > 64 - s then drop_bit s v OR push_bit (64 - s) b else drop_bit s v) AND width_mask w) j \<longleftrightarrow>
      j < w \<and> P (s + j)" if "j < 64" for j
    by (rule joined_bits) (use s assms(2) that v(2) in \<open>simp_all add: P_def\<close>)
  moreover have "j < w \<and> P (s + j) \<longleftrightarrow> j < w \<and> bit_at src (t + j)" if "j < 64" for j
  proof (cases "j < w \<and> 64 \<le> s + j")
    case True
    then obtain i where i: "s + j = 64 + i" by (metis le_Suc_ex)
    then have "i < 8" using s that by linarith
    have "t + j = 8 * p + (s + j)" using t by simp
    also have "\<dots> = 8 * (p + 8) + i" using i by simp
    finally have "t + j = 8 * (p + 8) + i" .
    then have "bit_at src (t + j) \<longleftrightarrow> bit (src ! (p + 8)) i" using bit_at_byte [OF \<open>i < 8\<close>] by (simp only:)
    with True i \<open>i < 8\<close> show ?thesis by (simp add: P_def b_def bit_ucast_iff)
  next
    case False
    then show ?thesis using assms(3) t p by (auto simp: P_def add.assoc)
  qed
  ultimately show ?thesis unfolding run by (intro arg_cong [where f = Some] field_eqI) (use assms(2) in simp_all)
qed

lemma those_map: "(\<And>x. x \<in> set xs \<Longrightarrow> f x = Some (g x)) \<Longrightarrow> those (map f xs) = Some (map g xs)"
  by (induction xs) auto

text \<open>The eight words of a block, and a delta out of them.\<close>

lemma LOAD_BLOCK_eq:
  assumes "first mod 8 = 0" and "W \<le> 64" and "(first + 8) * W \<le> 8 * length src"
  shows "\<exists>words. LOAD_BLOCK src first W = Some words \<and> length words = 8 \<and>
    (\<forall>J<8. \<forall>j. bit (words ! J) j \<longleftrightarrow> j < 64 \<and> 64 * J + j < 8 * W \<and> bit_at src (first * W + (64 * J + j)))"
proof -
  define p where "p = first * W div 8"
  have p: "8 * p = first * W" using assms(1) by (auto simp: p_def elim!: dvdE simp flip: dvd_eq_mod_eq_0)
  have fit: "p + W \<le> length src" using assms(3) p by (simp add: algebra_simps)
  have "\<exists>v. WORD_AT src p W J = Some v \<and>
      (\<forall>j. bit v j \<longleftrightarrow> j < 64 \<and> 64 * J + j < 8 * W \<and> bit_at src (first * W + (64 * J + j)))" for J
  proof (cases "W > J * 8")
    case True
    let ?a = "if W - J * 8 \<ge> 8 then 8 else W - J * 8"
    obtain v where v: "little64 src (p + J * 8) ?a = Some v"
        "\<And>j. bit v j \<longleftrightarrow> j < 64 \<and> j < 8 * ?a \<and> bit_at src (8 * (p + J * 8) + j)"
    proof -
      have "p + J * 8 + min 8 ?a \<le> length src" using fit True by auto
      from little64_bits [OF this] show thesis using that by blast
    qed
    have "8 * (p + J * 8) + j = first * W + (64 * J + j)" for j using p by simp
    moreover have "j < 64 \<and> j < 8 * ?a \<longleftrightarrow> j < 64 \<and> 64 * J + j < 8 * W" for j using True by auto
    moreover have "WORD_AT src p W J = Some v" using True v(1) by (simp only: WORD_AT_def if_True)
    ultimately show ?thesis using v(2) by metis
  qed (auto simp: WORD_AT_def)
  then obtain f where f: "\<And>J. WORD_AT src p W J = Some (f J)"
      "\<And>J j. bit (f J) j \<longleftrightarrow> j < 64 \<and> 64 * J + j < 8 * W \<and> bit_at src (first * W + (64 * J + j))"
    by metis
  show ?thesis
    by (rule exI [of _ "map f [0..<8]"])
      (simp add: LOAD_BLOCK_def Let_def p_def [symmetric] those_map [where g = f] f del: upt_rec_numeral)
qed

lemma block_delta_eq:
  assumes "length words = 8" and "i < 8" and "0 < W" and "W \<le> 64"
    and words: "\<And>J j. J < 8 \<Longrightarrow> bit (words ! J) j \<longleftrightarrow> j < 64 \<and> 64 * J + j < 8 * W \<and> bit_at src (t + (64 * J + j))"
  shows "block_delta words (i * W) W = Some (field src (t + i * W) W)"
proof -
  define q where "q = i * W div 64"
  define s where "s = i * W mod 64"
  have iW: "i * W = 64 * q + s" and s: "s < 64" by (simp_all add: q_def s_def)
  have "i * W + W \<le> 8 * W" using assms(2) mult_le_mono1 [of "Suc i" 8 W] by simp
  with iW assms(4) have e: "64 * q + s + W \<le> 8 * W" "64 * q + s + W \<le> 512" by linarith+
  then have q: "q < 8" and q1: "q + 1 < 8" if "s \<noteq> 0 \<and> W > 64 - s" using assms(3) that by linarith+
  have q8: "q < 8" using e(2) assms(3) by linarith
  define w where "w = (if q + 1 < 8 then words ! (q + 1) else 0)"
  define P where "P j \<longleftrightarrow> (if j < 128 then 64 * q + j < 8 * W \<and> bit_at src (t + (64 * q + j)) else False)" for j
  have run: "block_delta words (i * W) W = Some ((if s \<noteq> 0 \<and> W > 64 - s
      then drop_bit s (words ! q) OR push_bit (64 - s) w else drop_bit s (words ! q)) AND width_mask W)"
    using q1 q8 assms(1) unfolding block_delta_def Let_def q_def [symmetric] s_def [symmetric]
    by (simp add: load_in w_def)
  have wP: "bit w j \<longleftrightarrow> P (64 + j)" if "j < 64" for j
  proof (cases "q + 1 < 8")
    case True
    then show ?thesis using that words [of "q + 1" j] by (simp add: w_def P_def algebra_simps)
  next
    case False
    then show ?thesis using that q8 assms(4) by (simp add: w_def P_def)
  qed
  have "bit ((if s \<noteq> 0 \<and> W > 64 - s then drop_bit s (words ! q) OR push_bit (64 - s) w else drop_bit s (words ! q))
      AND width_mask W) j \<longleftrightarrow> j < W \<and> P (s + j)" if "j < 64" for j
    by (rule joined_bits) (use s assms(4) that words [OF q8] wP in \<open>auto simp: P_def\<close>)
  moreover have "j < W \<and> P (s + j) \<longleftrightarrow> j < W \<and> bit_at src (t + i * W + j)" if "j < 64" for j
    using that s e iW by (auto simp: P_def add.assoc)
  ultimately show ?thesis unfolding run by (intro arg_cong [where f = Some] field_eqI) (use assms(4) in simp_all)
qed

lemma deltas_eq:
  assumes "first mod 8 = 0" and "0 < W" and "W \<le> 64" and "(first + 8) * W \<le> 8 * length src"
  shows "Option.bind (LOAD_BLOCK src first W) (\<lambda>words. DELTAS words W) =
    Some (map (\<lambda>i. field src ((first + i) * W) W) [0..<8])"
proof -
  obtain words where w: "LOAD_BLOCK src first W = Some words" "length words = 8"
      "\<And>J j. J < 8 \<Longrightarrow> bit (words ! J) j \<longleftrightarrow> j < 64 \<and> 64 * J + j < 8 * W \<and> bit_at src (first * W + (64 * J + j))"
    using LOAD_BLOCK_eq [OF assms(1,3,4)] by auto
  have "block_delta words (i * W) W = Some (field src ((first + i) * W) W)" if "i < 8" for i
    using block_delta_eq [OF w(2) that assms(2,3) w(3)] by (simp add: algebra_simps)
  then have "DELTAS words W = Some (map (\<lambda>i. field src ((first + i) * W) W) [0..<8])"
    unfolding DELTAS_def by (intro those_map) simp
  then show ?thesis using w(1) by simp
qed

subsection \<open>One block\<close>

text \<open>A row of the result: the field, the frame added at the integer's width, the two products.\<close>

definition row_bytes ::
  "'w::len word fpu \<Rightarrow> nat \<Rightarrow> bytes \<Rightarrow> nat \<Rightarrow> 'w word \<Rightarrow> 'w word \<Rightarrow> 'w word \<Rightarrow> nat \<Rightarrow> bytes" where
  "row_bytes F E src W frm factor scale k =
     le_bytes E (value_of F factor scale (frm + ucast (field src (k * W) W)))"

lemma row_bytes_length [simp]: "length (row_bytes F E src W frm factor scale k) = E"
  by (simp add: row_bytes_def)

definition rows_bytes ::
  "'w::len word fpu \<Rightarrow> nat \<Rightarrow> bytes \<Rightarrow> nat \<Rightarrow> 'w word \<Rightarrow> 'w word \<Rightarrow> 'w word \<Rightarrow> nat \<Rightarrow> nat \<Rightarrow> bytes" where
  "rows_bytes F E src W frm factor scale a b = concat (map (row_bytes F E src W frm factor scale) [a..<b])"

lemma rows_bytes_length [simp]: "length (rows_bytes F E src W frm factor scale a b) = (b - a) * E"
  by (simp add: rows_bytes_def length_concat o_def sum_list_triv)

lemma rows_bytes_append:
  "a \<le> b \<Longrightarrow> b \<le> c \<Longrightarrow> rows_bytes F E src W frm factor scale a c =
    rows_bytes F E src W frm factor scale a b @ rows_bytes F E src W frm factor scale b c"
  using upt_add_eq_append [of a b "c - b"] by (simp add: rows_bytes_def)

lemma eight: "[0..<8] = [0, 1, 2, 3, 4, 5, 6, 7 :: nat]" "[a..<a + 8] = map (\<lambda>i. a + i) [0, 1, 2, 3, 4, 5, 6, 7]"
  by (simp_all add: upt_rec)

text \<open>A lane of the gather: four bytes from the window's first byte, shifted and masked.\<close>

lemma window_lane:
  assumes "length inp = 16" and "i < 8" and "w \<le> 16" and src: "\<And>k. k < w \<Longrightarrow> inp ! k = src ! (p + k)"
  shows "drop_bit (i * w mod 8) (le_word (map (\<lambda>k. if k < 16 then inp ! k else 0) (WINDOW w i))) AND (push_bit w 1 - 1) =
    (ucast (field src (8 * p + i * w) w) :: u32)"
proof (rule bit_word_eqI)
  fix j assume j: "j < LENGTH(32)"
  define q where "q = i * w div 8"
  define s where "s = i * w mod 8"
  have iw: "i * w = 8 * q + s" "s < 8" by (simp_all add: q_def s_def)
  have top: "i * w + w \<le> 8 * w" using assms(2) mult_le_mono1 [of "Suc i" 8 w] by simp
  have msk: "bit (push_bit w 1 - 1 :: u32) j \<longleftrightarrow> j < w" using j assms(3) bit_mask_iff [of w j, where ?'a = "32 word"]
    by (auto simp: mask_eq_exp_minus_1 push_bit_eq_mult)
  have win: "map (\<lambda>k. if k < 16 then inp ! k else 0) (WINDOW w i) ! m = (if q + m < 16 then inp ! (q + m) else 0)" if m4: "m < 4" for m
  proof -
    consider "m = 0" | "m = 1" | "m = 2" | "m = 3" using m4 by linarith
    then show ?thesis by cases (simp_all add: WINDOW_def q_def)
  qed
  have len: "length (map (\<lambda>k. if k < 16 then inp ! k else 0) (WINDOW w i)) = 4" by (simp add: WINDOW_def)
  show "bit (drop_bit (i * w mod 8) (le_word (map (\<lambda>k. if k < 16 then inp ! k else 0) (WINDOW w i))) AND (push_bit w 1 - 1) :: u32) j \<longleftrightarrow>
      bit (ucast (field src (8 * p + i * w) w) :: u32) j"
  proof (cases "j < w")
    case False
    then show ?thesis using msk assms(3) by (simp add: bit_and_iff bit_ucast_iff bit_field)
  next
    case True
    define m where "m = (s + j) div 8"
    have m: "m < 4" "s + j < 32" using True assms(3) iw(2) by (auto simp: m_def)
    have "8 * (q + m) \<le> i * w + j" by (simp add: iw m_def)
    also have "i * w + j < i * w + w" using True by simp
    also note top
    finally have "q + m < w" by simp
    have "(8 * p + i * w + j) div 8 = p + (q + m)" "(8 * p + i * w + j) mod 8 = (s + j) mod 8"
      by (simp_all add: iw m_def add.assoc)
    then have "bit_at src (8 * p + i * w + j) \<longleftrightarrow> bit (inp ! (q + m)) ((s + j) mod 8)"
      using src [OF \<open>q + m < w\<close>] by (simp add: bit_at_def add.assoc)
    then show ?thesis
      using True msk m assms(3) len win [OF m(1)] \<open>q + m < w\<close> unfolding s_def [symmetric]
      by (simp add: bit_and_iff bit_ucast_iff bit_field bit_drop_bit_eq bit_le_word m_def [symmetric])
  qed
qed

lemma replicate_four: "replicate 4 x = [x, x, x, x]"
  by (simp add: numeral_eq_Suc)

lemma reinterpret_windows:
  "simde_vreinterpretq_u32_u8 (map g (WINDOW W a @ WINDOW W b @ WINDOW W c @ WINDOW W d)) =
    [le_word (map g (WINDOW W a)), le_word (map g (WINDOW W b)), le_word (map g (WINDOW W c)), le_word (map g (WINDOW W d))]"
  by (simp add: simde_vreinterpretq_u32_u8_def WINDOW_def upt_rec)

lemma right_shift:
  "x < 8 \<Longrightarrow> (if \<bar>- int x\<bar> \<ge> 32 then 0 else if - int x \<ge> 0 then push_bit (nat (- int x)) v
     else drop_bit (nat (- (- int x))) v) = drop_bit x (v :: u32)"
  by (cases "x = 0") auto

lemma small8_eq:
  assumes "0 < W" and "W \<le> 16" and "first mod 8 = 0" and "(first + 8) * W \<le> 8 * len" and "len \<le> length src"
  shows "decode32_small8 F src (first * W div 8) (len - first * W div 8) dst pos W frm factor scale =
    store_block dst pos (rows_bytes F 4 src W frm factor scale first (first + 8))"
proof -
  define p where "p = first * W div 8"
  have p: "8 * p = first * W" using assms(3) by (auto simp: p_def elim!: dvdE simp flip: dvd_eq_mod_eq_0)
  have fit: "p + W \<le> len" using assms(4) p by (simp add: algebra_simps)
  define inp where "inp = (if len - p \<ge> 16 then take 16 (drop p src)
      else take (len - p) (drop p src) @ replicate (16 - (len - p)) 0)"
  have inp: "length inp = 16" "inp ! k = src ! (p + k)" if "k < W" for k
    using that fit assms(2,5) by (auto simp: inp_def nth_append)
  have ld: "(if len - p \<ge> 16 then load_block src p 16
      else do { t \<leftarrow> load_block src p (len - p); Some (t @ replicate (16 - (len - p)) 0) }) = Some inp"
    using fit assms(5) by (simp add: inp_def load_block_in)
  define ln where "ln i = (ucast (field src ((first + i) * W) W) :: u32)" for i
  have lane: "drop_bit (i * W mod 8) (le_word (map (\<lambda>k. if k < 16 then inp ! k else 0) (WINDOW W i))) AND (push_bit W 1 - 1) = ln i"
    if "i < 8" for i
    using window_lane [where p = p and src = src, OF inp(1) that assms(2) inp(2)] assms(1) p by (simp add: ln_def algebra_simps)
  have vec: "simde_vandq_u32 (simde_vshlq_u32 (simde_vreinterpretq_u32_u8 (simde_vqtbl1q_u8 inp
      (WINDOW W a @ WINDOW W b @ WINDOW W c @ WINDOW W d))) (map (\<lambda>i. - int (i * W mod 8)) [a, b, c, d]))
      (replicate 4 (push_bit W 1 - 1)) = [ln a, ln b, ln c, ln d]"
    if "a < 8" "b < 8" "c < 8" "d < 8" for a b c d
  proof -
    have bound: "i * W mod 8 < 8" for i by simp
    show ?thesis
      by (simp only: simde_vqtbl1q_u8_def reinterpret_windows simde_vshlq_u32_def simde_vandq_u32_def replicate_four
          list.map zip_Cons_Cons zip_Nil prod.case right_shift [OF bound] lane that)
  qed
  define v where "v i = value_of F factor scale (frm + ln i)" for i
  have out: "simde_vmulq_n F (simde_vmulq_n F (simde_vcvtq F (simde_vaddq [ln a, ln b, ln c, ln d] (replicate 4 frm))) factor) scale =
      [v a, v b, v c, v d]" for a b c d
    by (simp add: simde_vmulq_n_def simde_vcvtq_def simde_vaddq_def v_def value_of_def Let_def
        replicate_four add.commute)
  have rows: "rows_bytes F 4 src W frm factor scale first (first + 8) =
      concat (map (le_bytes 4) [v 0, v 1, v 2, v 3]) @ concat (map (le_bytes 4) [v 4, v 5, v 6, v 7])"
    by (simp add: rows_bytes_def row_bytes_def eight v_def ln_def)
  have len: "length (concat (map (le_bytes 4) [v 0, v 1, v 2, v 3])) = 16" by simp
  have "decode32_small8 F src p (len - p) dst pos W frm factor scale =
      Option.bind (store_block dst pos (concat (map (le_bytes 4) [v 0, v 1, v 2, v 3])))
        (\<lambda>dst. store_block dst (pos + 16) (concat (map (le_bytes 4) [v 4, v 5, v 6, v 7])))"
    unfolding decode32_small8_def ld Let_def
    by (simp only: bind.bind_lunit vec out)
  then show ?thesis unfolding p_def rows store_block_append len .
qed

lemma store_lanes_eq:
  assumes "lanes * E = 16" and "\<And>g. g \<in> set gs \<Longrightarrow> length g = lanes"
  shows "store_lanes F E lanes dst pos frm factor scale gs =
    store_block dst pos (concat (map (\<lambda>d. le_bytes E (value_of F factor scale (frm + d))) (concat gs)))"
  using assms(2)
proof (induction gs arbitrary: dst pos)
  case (Cons g gs)
  define xs where "xs = concat (map (\<lambda>d. le_bytes E (value_of F factor scale (frm + d))) g)"
  have g: "length g = lanes" using Cons.prems by simp
  have add: "map2 (+) h (replicate (length h) frm) = map (\<lambda>d. frm + d) h" for h
    by (induction h) (simp_all add: add.commute)
  have "length xs = 16"
    using assms(1) g by (simp add: xs_def length_concat o_def sum_list_triv)
  moreover have "concat (map (le_bytes E) (simde_vmulq_n F (simde_vmulq_n F (simde_vcvtq F (simde_vaddq g
      (replicate lanes frm))) factor) scale)) = xs"
    using add [of g] g by (simp add: simde_vmulq_n_def simde_vcvtq_def simde_vaddq_def xs_def value_of_def o_def)
  ultimately show ?case
    using Cons.IH Cons.prems by (simp add: store_block_append xs_def [symmetric])
qed simp

lemma block32_eq:
  assumes "0 < W" and "W \<le> 32" and "first mod 8 = 0" and "(first + 8) * W \<le> 8 * len" and "len \<le> length src"
  shows "block32 F src len W frm factor scale dst pos first =
    store_block dst pos (rows_bytes F 4 src W frm factor scale first (first + 8))"
proof (cases "W \<le> 16")
  case True
  then show ?thesis using small8_eq [OF assms(1) True assms(3-5)] by (simp add: block32_def Let_def)
next
  case False
  define ds where "ds = map (\<lambda>i. field src ((first + i) * W) W) [0..<8]"
  have "Option.bind (LOAD_BLOCK src first W) (\<lambda>words. DELTAS words W) = Some ds"
    unfolding ds_def using assms by (intro deltas_eq) simp_all
  then have "block32 F src len W frm factor scale dst pos first =
      store_lanes F 4 4 dst pos frm factor scale [take 4 (map ucast ds), drop 4 (map ucast ds)]"
    using False by (auto simp only: block32_def if_False Let_def bind_eq_Some_conv bind.bind_lunit)
  also have "\<dots> = store_block dst pos (rows_bytes F 4 src W frm factor scale first (first + 8))"
    by (subst store_lanes_eq) (auto simp: ds_def rows_bytes_def row_bytes_def eight)
  finally show ?thesis .
qed

lemma block64_eq:
  assumes "0 < W" and "W \<le> 64" and "first mod 8 = 0" and "(first + 8) * W \<le> 8 * len" and "len \<le> length src"
  shows "block64 F src len W frm factor scale dst pos first =
    store_block dst pos (rows_bytes F 8 src W frm factor scale first (first + 8))"
proof -
  define ds where "ds = map (\<lambda>i. field src ((first + i) * W) W) [0..<8]"
  have "Option.bind (LOAD_BLOCK src first W) (\<lambda>words. DELTAS words W) = Some ds"
    unfolding ds_def using assms by (intro deltas_eq) simp_all
  then have "block64 F src len W frm factor scale dst pos first =
      store_lanes F 8 2 dst pos frm factor scale [take 2 ds, take 2 (drop 2 ds), take 2 (drop 4 ds), drop 6 ds]"
    by (auto simp only: block64_def bind_eq_Some_conv bind.bind_lunit)
  also have "\<dots> = store_block dst pos (rows_bytes F 8 src W frm factor scale first (first + 8))"
    by (subst store_lanes_eq) (auto simp: ds_def rows_bytes_def row_bytes_def eight)
  finally show ?thesis .
qed

lemma row_step_eq:
  assumes "0 < W" and "W \<le> 64" and "(first + 1) * W \<le> 8 * len" and "len \<le> length src"
  shows "row_step F E src len W frm factor scale dst pos first =
    store_block dst pos (row_bytes F E src W frm factor scale first)"
  using assms by (simp add: row_step_def unpack_eq row_bytes_def)

subsection \<open>The loops\<close>

lemma head_rows_eq:
  fixes f :: "nat \<Rightarrow> bytes"
  assumes "\<And>k. length (f k) = E"
  shows "(\<And>k dst pos. first \<le> k \<Longrightarrow> k < first + n \<Longrightarrow> row dst pos k = store_block dst pos (f k)) \<Longrightarrow>
    pos + n * E \<le> length dst \<Longrightarrow>
    \<exists>m dst'. head_rows row E dst pos first n = Some (dst', pos + m * E, first + m, n - m) \<and> m \<le> n \<and>
      (m = n \<or> (first + m) mod 8 = 0) \<and> store_block dst pos (concat (map f [first..<first + m])) = Some dst'"
proof (induction n arbitrary: dst pos first)
  case (Suc n)
  show ?case
  proof (cases "first mod 8 = 0")
    case True
    then show ?thesis by (intro exI [of _ 0] exI [of _ dst]) (simp add: head_rows.simps)
  next
    case False
    obtain d where d: "store_block dst pos (f first) = Some d" "length d = length dst"
      using Suc.prems(2) assms [of first] store_block_in [of pos "f first" dst] store_block_length by fastforce
    obtain m dst' where m: "head_rows row E d (pos + E) (first + 1) n = Some (dst', pos + E + m * E, first + 1 + m, n - m)"
        "m \<le> n" "m = n \<or> (first + 1 + m) mod 8 = 0"
        "store_block d (pos + E) (concat (map f [first + 1..<first + 1 + m])) = Some dst'"
      using Suc.IH [of "first + 1" "pos + E" d] Suc.prems d(2) by (auto simp: algebra_simps)
    have "row dst pos first = Some d" using Suc.prems(1) [of first] d(1) by simp
    then have "head_rows row E dst pos first (Suc n) = Some (dst', pos + Suc m * E, first + Suc m, Suc n - Suc m)"
      using False m(1) by (subst head_rows.simps) (simp add: algebra_simps)
    moreover have "concat (map f [first..<first + Suc m]) = f first @ concat (map f [first + 1..<first + 1 + m])"
      by (simp add: upt_conv_Cons del: upt_Suc)
    then have "store_block dst pos (concat (map f [first..<first + Suc m])) = Some dst'"
      using d(1) m(4) assms by (simp add: store_block_append)
    ultimately show ?thesis using m(2,3) by (intro exI [of _ "Suc m"] exI [of _ dst']) simp
  qed
qed (auto simp: head_rows.simps)

lemma tail_rows_eq:
  fixes f :: "nat \<Rightarrow> bytes"
  assumes "\<And>k. length (f k) = E"
  shows "(\<And>k dst pos. first \<le> k \<Longrightarrow> k < first + n \<Longrightarrow> row dst pos k = store_block dst pos (f k)) \<Longrightarrow>
    tail_rows row E dst pos first n = store_block dst pos (concat (map f [first..<first + n]))"
proof (induction n arbitrary: dst pos first)
  case (Suc n)
  have "concat (map f [first..<first + Suc n]) = f first @ concat (map f [first + 1..<first + 1 + n])"
    by (simp add: upt_conv_Cons del: upt_Suc)
  moreover have "tail_rows row E d (pos + E) (first + 1) n = store_block d (pos + E) (concat (map f [first + 1..<first + 1 + n]))" for d
    using Suc.prems by (intro Suc.IH) simp
  ultimately show ?case
    using Suc.prems [of first] assms by (subst tail_rows.simps) (simp add: store_block_append)
qed (simp add: tail_rows.simps)

lemma block_rows_eq:
  fixes f :: "nat \<Rightarrow> bytes"
  assumes "\<And>k. length (f k) = E"
  shows "(\<And>k dst pos. first \<le> k \<Longrightarrow> k + 8 \<le> first + n \<Longrightarrow> k mod 8 = 0 \<Longrightarrow>
      block dst pos k = store_block dst pos (concat (map f [k..<k + 8]))) \<Longrightarrow>
    n = 0 \<or> first mod 8 = 0 \<Longrightarrow> pos + n * E \<le> length dst \<Longrightarrow>
    \<exists>m dst'. block_rows block E dst pos first n = Some (dst', pos + m * E, first + m, n - m) \<and> m \<le> n \<and>
      store_block dst pos (concat (map f [first..<first + m])) = Some dst'"
proof (induction n arbitrary: dst pos first rule: less_induct)
  case (less n)
  show ?case
  proof (cases "8 \<le> n")
    case False
    then show ?thesis by (intro exI [of _ 0] exI [of _ dst]) (simp add: block_rows.simps)
  next
    case True
    define xs where "xs = concat (map f [first..<first + 8])"
    have xs: "length xs = 8 * E" by (simp add: xs_def assms length_concat o_def sum_list_triv)
    have room: "pos + length xs + (n - 8) * E \<le> length dst" using less.prems(3) True xs by (simp add: diff_mult_distrib)
    obtain d where d: "store_block dst pos xs = Some d" "length d = length dst"
      using room store_block_in [of pos xs dst] store_block_length by fastforce
    have "\<exists>m dst'. block_rows block E d (pos + 8 * E) (first + 8) (n - 8) =
        Some (dst', pos + 8 * E + m * E, first + 8 + m, n - 8 - m) \<and> m \<le> n - 8 \<and>
        store_block d (pos + 8 * E) (concat (map f [first + 8..<first + 8 + m])) = Some dst'"
      using less.prems True room xs d(2) by (intro less.IH) auto
    then obtain m dst' where m: "block_rows block E d (pos + 8 * E) (first + 8) (n - 8) =
        Some (dst', pos + 8 * E + m * E, first + 8 + m, n - 8 - m)" "m \<le> n - 8"
        "store_block d (pos + 8 * E) (concat (map f [first + 8..<first + 8 + m])) = Some dst'" by blast
    have "block dst pos first = Some d" using less.prems(1) [of first dst pos] less.prems(2) True d(1) by (simp add: xs_def)
    then have "block_rows block E dst pos first n = Some (dst', pos + (8 + m) * E, first + (8 + m), n - (8 + m))"
      using True m(1) by (subst block_rows.simps) (simp add: algebra_simps)
    moreover have "concat (map f [first..<first + (8 + m)]) = xs @ concat (map f [first + 8..<first + 8 + m])"
      using upt_add_eq_append [of first "first + 8" m] by (simp add: xs_def add.assoc)
    then have "store_block dst pos (concat (map f [first..<first + (8 + m)])) = Some dst'"
      using d(1) m(3) xs by (simp add: store_block_append)
    ultimately show ?thesis using m(2) True by (intro exI [of _ "8 + m"] exI [of _ dst']) simp
  qed
qed

text \<open>The three loops together write every row once, in order.\<close>

lemma three_loops:
  fixes f :: "nat \<Rightarrow> bytes"
  assumes "\<And>k. length (f k) = E"
    and row: "\<And>k dst pos. first \<le> k \<Longrightarrow> k < first + n \<Longrightarrow> row dst pos k = store_block dst pos (f k)"
    and block: "\<And>k dst pos. first \<le> k \<Longrightarrow> k + 8 \<le> first + n \<Longrightarrow> k mod 8 = 0 \<Longrightarrow>
      block dst pos k = store_block dst pos (concat (map f [k..<k + 8]))"
    and room: "pos + n * E \<le> length dst"
  shows "do {
      (dst, pos, first, n) \<leftarrow> head_rows row E dst pos first n;
      (dst, pos, first, n) \<leftarrow> block_rows block E dst pos first n;
      tail_rows row E dst pos first n
    } = store_block dst pos (concat (map f [first..<first + n]))"
proof -
  have len: "length (concat (map f [a..<b])) = (b - a) * E" for a b by (simp add: assms(1) length_concat o_def sum_list_triv)
  have "\<exists>m d. head_rows row E dst pos first n = Some (d, pos + m * E, first + m, n - m) \<and> m \<le> n \<and>
      (m = n \<or> (first + m) mod 8 = 0) \<and> store_block dst pos (concat (map f [first..<first + m])) = Some d"
    by (rule head_rows_eq [OF assms(1)]) (use row room in auto)
  then obtain m d where m: "head_rows row E dst pos first n = Some (d, pos + m * E, first + m, n - m)" "m \<le> n"
      "m = n \<or> (first + m) mod 8 = 0" "store_block dst pos (concat (map f [first..<first + m])) = Some d"
    by (elim exE conjE) (rule that)
  have "pos + m * E + (n - m) * E \<le> length d"
    using room m(2) store_block_length [OF m(4)] by (simp add: add_mult_distrib [symmetric] add.assoc)
  then have "\<exists>j d'. block_rows block E d (pos + m * E) (first + m) (n - m) =
      Some (d', pos + m * E + j * E, first + m + j, n - m - j) \<and> j \<le> n - m \<and>
      store_block d (pos + m * E) (concat (map f [first + m..<first + m + j])) = Some d'"
    using m(2,3) by (intro block_rows_eq [OF assms(1) block]) auto
  then obtain j d' where j: "block_rows block E d (pos + m * E) (first + m) (n - m) =
      Some (d', pos + m * E + j * E, first + m + j, n - m - j)" "j \<le> n - m"
      "store_block d (pos + m * E) (concat (map f [first + m..<first + m + j])) = Some d'" by blast
  have t: "tail_rows row E d' (pos + m * E + j * E) (first + m + j) (n - m - j) =
      store_block d' (pos + m * E + j * E) (concat (map f [first + m + j..<first + m + j + (n - m - j)]))"
    using m(2) j(2) by (intro tail_rows_eq [OF assms(1) row]) simp_all
  have "[first..<first + n] = [first..<first + m] @ [first + m..<first + m + j] @ [first + m + j..<first + m + j + (n - m - j)]"
    using m(2) j(2) upt_add_eq_append [of first "first + m" "n - m"] upt_add_eq_append [of "first + m" "first + m + j" "n - m - j"] by simp
  then show ?thesis
    using m(1,4) j(1,3) t by (simp add: store_block_append len)
qed

lemma fill_blocks_eq:
  assumes "0 < lanes"
  shows "i \<le> n \<Longrightarrow> pos + n * length v \<le> length dst \<Longrightarrow>
    \<exists>j d. fill_blocks v lanes dst pos i n = Some (j, d) \<and> i \<le> j \<and> j \<le> n \<and>
      store_block dst (pos + i * length v) (concat (replicate (j - i) v)) = Some d"
proof (induction "n - i" arbitrary: i dst rule: less_induct)
  case less
  have len: "length (concat (replicate m v)) = m * length v" for m by (simp add: length_concat sum_list_replicate)
  show ?case
  proof (cases "lanes \<le> n - i")
    case False
    then show ?thesis using less.prems(1) by (intro exI [of _ i] exI [of _ dst]) (simp add: fill_blocks.simps)
  next
    case True
    have "(i + lanes) * length v \<le> n * length v" using True assms less.prems(1) by (intro mult_le_mono1) linarith
    then obtain d where d: "store_block dst (pos + i * length v) (concat (replicate lanes v)) = Some d" "length d = length dst"
      using less.prems(2) store_block_in [of "pos + i * length v" "concat (replicate lanes v)" dst] store_block_length
      by (fastforce simp: len algebra_simps)
    obtain j d' where j: "fill_blocks v lanes d pos (i + lanes) n = Some (j, d')" "i + lanes \<le> j" "j \<le> n"
        "store_block d (pos + (i + lanes) * length v) (concat (replicate (j - (i + lanes)) v)) = Some d'"
    proof -
      have "n - (i + lanes) < n - i" "i + lanes \<le> n" "pos + n * length v \<le> length d"
        using True assms less.prems d(2) by linarith+
      from less.hyps [OF this] show thesis using that by blast
    qed
    have "concat (replicate (j - i) v) = concat (replicate lanes v) @ concat (replicate (j - (i + lanes)) v)"
      using j(2) by (simp flip: concat_append replicate_add)
    then have "store_block dst (pos + i * length v) (concat (replicate (j - i) v)) = Some d'"
      using d(1) j(4) by (simp add: store_block_append len algebra_simps)
    moreover have "fill_blocks v lanes dst pos i n = Some (j, d')"
      using True assms d(1) j(1) by (subst fill_blocks.simps) simp
    ultimately show ?thesis using j(2,3) by (intro exI [of _ j] exI [of _ d']) simp
  qed
qed

lemma fill_rows_eq:
  "i \<le> n \<Longrightarrow> fill_rows v dst pos i n = store_block dst (pos + i * length v) (concat (replicate (n - i) v))"
proof (induction "n - i" arbitrary: i dst)
  case (Suc m)
  then have "n - i = Suc (n - (i + 1))" "m = n - (i + 1)" "i < n" by simp_all
  then show ?case
    using Suc.hyps(1) [of "i + 1"] by (subst fill_rows.simps) (simp add: store_block_append algebra_simps)
qed (simp add: fill_rows.simps)

lemma fill_eq:
  assumes "0 < lanes" and "pos + n * length v \<le> length dst"
  shows "Option.bind (fill_blocks v lanes dst pos 0 n) (\<lambda>(i, dst). fill_rows v dst pos i n) =
    store_block dst pos (concat (replicate n v))"
proof -
  obtain j d where j: "fill_blocks v lanes dst pos 0 n = Some (j, d)" "j \<le> n"
      "store_block dst pos (concat (replicate j v)) = Some d"
    using fill_blocks_eq [OF assms(1) le0 assms(2)] by auto
  have "concat (replicate n v) = concat (replicate j v) @ concat (replicate (n - j) v)"
    using j(2) by (simp flip: concat_append replicate_add)
  then show ?thesis
    using j fill_rows_eq [OF j(2)] by (simp add: store_block_append length_concat sum_list_replicate)
qed

subsection \<open>The kernels\<close>

lemma rows_bytes_zero:
  "rows_bytes F E src 0 frm factor scale first (first + n) = concat (replicate n (le_bytes E (value_of F factor scale frm)))"
proof -
  have "field src 0 0 = 0" by (rule bit_word_eqI) (simp add: bit_field)
  then have "row_bytes F E src 0 frm factor scale = (\<lambda>_. le_bytes E (value_of F factor scale frm))"
    by (simp add: row_bytes_def fun_eq_iff)
  then show ?thesis by (simp add: rows_bytes_def map_replicate_const)
qed

text \<open>Row \<open>first + k\<close> of the packed section, plus the frame, converted and scaled, is stored at row \<open>k\<close>, for
  every width and alignment; nothing outside the packed section is read and nothing else written.\<close>

theorem unpack_for_correct:
  assumes "(first + n) * width \<le> 8 * len" and "len \<le> length src"
  shows "width \<le> 32 \<Longrightarrow> offset + n * 4 \<le> length out \<Longrightarrow>
      hs_columnar_unpack_for_f32 F src len out offset first n width frm factor scale =
        Some (take offset out @ rows_bytes F 4 src width frm factor scale first (first + n) @ drop (offset + n * 4) out)"
    and "width \<le> 64 \<Longrightarrow> offset + n * 8 \<le> length out \<Longrightarrow>
      hs_columnar_unpack_for_f64 G src len out offset first n width frm' factor' scale' =
        Some (take offset out @ rows_bytes G 8 src width frm' factor' scale' first (first + n) @ drop (offset + n * 8) out)"
proof -
  have fit: "(k + m) * width \<le> 8 * len" if "k + m \<le> first + n" for k m
    using order_trans [OF mult_le_mono1 [OF that] assms(1)] .
  {
    assume w: "width \<le> 32" and room: "offset + n * 4 \<le> length out"
    have "hs_columnar_unpack_for_f32 F src len out offset first n width frm factor scale =
        store_block out offset (rows_bytes F 4 src width frm factor scale first (first + n))"
    proof (cases "n = 0 \<or> width = 0")
      case True
      then show ?thesis using room fill_eq [of 4 offset n "le_bytes 4 (value_of F factor scale frm)" out]
        by (auto simp: hs_columnar_unpack_for_f32_def rows_bytes_def [where b = first] rows_bytes_zero)
    next
      case False
      then have "hs_columnar_unpack_for_f32 F src len out offset first n width frm factor scale =
          DEFINE32 width F src len out offset first n frm factor scale"
        using w by (simp add: hs_columnar_unpack_for_f32_def)
      also have "\<dots> = store_block out offset (rows_bytes F 4 src width frm factor scale first (first + n))"
        unfolding DEFINE32_def rows_bytes_def
      proof (rule three_loops)
        fix k dst pos assume "k < first + n"
        then show "row_step F 4 src len width frm factor scale dst pos k = store_block dst pos (row_bytes F 4 src width frm factor scale k)"
          using False w fit [of k 1] assms(2) by (intro row_step_eq) simp_all
      next
        fix k dst pos assume "k + 8 \<le> first + n" "k mod 8 = 0"
        then show "block32 F src len width frm factor scale dst pos k =
            store_block dst pos (concat (map (row_bytes F 4 src width frm factor scale) [k..<k + 8]))"
          using False w fit [of k 8] assms(2) unfolding rows_bytes_def [symmetric] by (intro block32_eq) simp_all
      qed (use room in simp_all)
      finally show ?thesis .
    qed
    then show "hs_columnar_unpack_for_f32 F src len out offset first n width frm factor scale =
        Some (take offset out @ rows_bytes F 4 src width frm factor scale first (first + n) @ drop (offset + n * 4) out)"
      using room by (simp add: store_block_in)
  }
  {
    assume w: "width \<le> 64" and room: "offset + n * 8 \<le> length out"
    have "hs_columnar_unpack_for_f64 G src len out offset first n width frm' factor' scale' =
        store_block out offset (rows_bytes G 8 src width frm' factor' scale' first (first + n))"
    proof (cases "n = 0 \<or> width = 0")
      case True
      then show ?thesis using room fill_eq [of 2 offset n "le_bytes 8 (value_of G factor' scale' frm')" out]
        by (auto simp: hs_columnar_unpack_for_f64_def rows_bytes_def [where b = first] rows_bytes_zero)
    next
      case False
      then have "hs_columnar_unpack_for_f64 G src len out offset first n width frm' factor' scale' =
          DEFINE64 width G src len out offset first n frm' factor' scale'"
        using w by (simp add: hs_columnar_unpack_for_f64_def)
      also have "\<dots> = store_block out offset (rows_bytes G 8 src width frm' factor' scale' first (first + n))"
        unfolding DEFINE64_def rows_bytes_def
      proof (rule three_loops)
        fix k dst pos assume "k < first + n"
        then show "row_step G 8 src len width frm' factor' scale' dst pos k = store_block dst pos (row_bytes G 8 src width frm' factor' scale' k)"
          using False w fit [of k 1] assms(2) by (intro row_step_eq) simp_all
      next
        fix k dst pos assume "k + 8 \<le> first + n" "k mod 8 = 0"
        then show "block64 G src len width frm' factor' scale' dst pos k =
            store_block dst pos (concat (map (row_bytes G 8 src width frm' factor' scale') [k..<k + 8]))"
          using False w fit [of k 8] assms(2) unfolding rows_bytes_def [symmetric] by (intro block64_eq) simp_all
      qed (use room in simp_all)
      finally show ?thesis .
    qed
    then show "hs_columnar_unpack_for_f64 G src len out offset first n width frm' factor' scale' =
        Some (take offset out @ rows_bytes G 8 src width frm' factor' scale' first (first + n) @ drop (offset + n * 8) out)"
      using room by (simp add: store_block_in)
  }
qed

subsection \<open>The scatter\<close>

definition slot :: "bytes \<Rightarrow> nat \<Rightarrow> nat" where
  "slot positions i = unat (positions ! (2 * i)) + 256 * unat (positions ! (2 * i + 1))"

lemma slot_word: "unat (ucast (positions ! (2 * i)) OR push_bit 8 (ucast (positions ! (2 * i + 1))) :: u64) = slot positions i"
proof -
  have lt: "unat (b :: u8) < 256" for b using unsigned_less [of b, where ?'a = nat] by simp
  have w: "(ucast b :: u64) = of_nat (unat b)" for b :: u8 by simp
  have "(ucast (positions ! (2 * i)) OR push_bit 8 (ucast (positions ! (2 * i + 1))) :: u64) = of_nat (slot positions i)"
    unfolding w using or_disjoint_add [of "unat (positions ! (2 * i))" 8, where ?'a = 64] lt
    by (simp add: slot_def push_bit_eq_mult)
  moreover have "slot positions i < 2 ^ 64"
  proof -
    have "slot positions i < 256 + 256 * 256"
      using lt [of "positions ! (2 * i)"] lt [of "positions ! (2 * i + 1)"] unfolding slot_def by linarith
    then show ?thesis by simp
  qed
  ultimately show ?thesis by (simp add: unat_of_nat)
qed

text \<open>One exception: value \<open>i\<close> at its slot.\<close>

definition put_at :: "nat \<Rightarrow> bytes \<Rightarrow> bytes \<Rightarrow> nat \<Rightarrow> bytes \<Rightarrow> nat \<Rightarrow> bytes" where
  "put_at E positions values offset out i =
     (let a = offset + slot positions i * E in take a out @ take E (drop (i * E) values) @ drop (a + E) out)"

lemma scatter_loop_eq:
  assumes "n * 2 \<le> length positions" and "n * E \<le> length values" and "0 < E" and "E \<le> 8"
  shows "i \<le> n \<Longrightarrow> (\<And>k. k < n \<Longrightarrow> offset + slot positions k * E + E \<le> length out) \<Longrightarrow>
    scatter_loop E positions values out offset i n = Some (foldl (put_at E positions values offset) out [i..<n])"
proof (induction "n - i" arbitrary: i out)
  case (Suc m)
  then have i: "i < n" "m = n - Suc i" by simp_all
  have "Suc i * E \<le> n * E" using i(1) by (intro mult_le_mono1) simp
  then have v: "little64 values (i * E) E = Some (le_word (take E (drop (i * E) values)))"
      and x: "length (take E (drop (i * E) values)) = E"
    using assms(2,4) by (auto simp: little64_def load_le_in)
  have xs: "le_bytes E (le_word (take E (drop (i * E) values)) :: u64) = take E (drop (i * E) values)"
    by (rule le_bytes_le_word) (use x assms(4) in simp_all)
  have st: "store_block out (offset + slot positions i * E) (take E (drop (i * E) values)) =
      Some (put_at E positions values offset out i)"
    using Suc.prems(2) [OF i(1)] x by (simp add: store_block_in put_at_def Let_def)
  have "scatter_loop E positions values (put_at E positions values offset out i) offset (Suc i) n =
      Some (foldl (put_at E positions values offset) (put_at E positions values offset out i) [Suc i..<n])"
    using Suc.prems(2) i store_block_length [OF st] by (intro Suc.hyps(1)) simp_all
  moreover have "load positions (i * 2) = Some (positions ! (2 * i))" "load positions (i * 2 + 1) = Some (positions ! (2 * i + 1))"
    using i(1) assms(1) by (simp_all add: load_in mult.commute)
  ultimately show ?case
    using i(1) v st slot_word [of positions i] by (subst scatter_loop.simps) (simp add: xs upt_conv_Cons)
qed (simp add: scatter_loop.simps)

text \<open>Every slot in the output holds the last exception written to it, or what it held before.\<close>

lemma scatter_slots:
  assumes "n * E \<le> length values" and "\<And>k. k < n \<Longrightarrow> offset + slot positions k * E + E \<le> length out"
  shows "length (foldl (put_at E positions values offset) out [0..<n]) = length out \<and>
    take offset (foldl (put_at E positions values offset) out [0..<n]) = take offset out \<and>
    (\<forall>k. offset + k * E + E \<le> length out \<longrightarrow>
      take E (drop (offset + k * E) (foldl (put_at E positions values offset) out [0..<n])) =
      (case filter (\<lambda>i. slot positions i = k) [0..<n] of
         [] \<Rightarrow> take E (drop (offset + k * E) out)
       | is \<Rightarrow> take E (drop (last is * E) values)))"
  using assms
proof (induction n)
  case (Suc n)
  define o' where "o' = foldl (put_at E positions values offset) out [0..<n]"
  define a where "a = offset + slot positions n * E"
  define x where "x = take E (drop (n * E) values)"
  have IH: "length o' = length out" "take offset o' = take offset out"
    "\<And>k. offset + k * E + E \<le> length out \<Longrightarrow> take E (drop (offset + k * E) o') =
      (case filter (\<lambda>i. slot positions i = k) [0..<n] of
         [] \<Rightarrow> take E (drop (offset + k * E) out)
       | is \<Rightarrow> take E (drop (last is * E) values))"
    using Suc.IH Suc.prems unfolding o'_def by auto
  have x: "length x = E" using Suc.prems(1) by (simp add: x_def)
  have a: "a + E \<le> length o'" using Suc.prems(2) [of n] IH(1) by (simp add: a_def)
  define r where "r = take a o' @ x @ drop (a + E) o'"
  have r: "foldl (put_at E positions values offset) out [0..<Suc n] = r"
    by (simp add: r_def put_at_def Let_def a_def x_def o'_def)
  have st: "store_block o' a x = Some r" using a x by (simp add: store_block_in r_def)
  have "take E (drop (offset + k * E) r) =
      (case filter (\<lambda>i. slot positions i = k) [0..<Suc n] of
         [] \<Rightarrow> take E (drop (offset + k * E) out)
       | is \<Rightarrow> take E (drop (last is * E) values))" if k: "offset + k * E + E \<le> length out" for k
  proof (cases "slot positions n = k")
    case True
    then have "take E (drop (offset + k * E) r) = x" using store_block_written [OF st] x by (simp add: a_def)
    then show ?thesis using True by (cases "filter (\<lambda>i. slot positions i = k) [0..<n]") (simp_all add: x_def)
  next
    case False
    then have "slot positions n + 1 \<le> k \<or> k + 1 \<le> slot positions n" by linarith
    then have "(slot positions n + 1) * E \<le> k * E \<or> (k + 1) * E \<le> slot positions n * E" using mult_le_mono1 by blast
    then have "take E (drop (offset + k * E) r) = take E (drop (offset + k * E) o')"
      using k IH(1) x by (intro frame_block [OF store_block_frame [OF st]]) (auto simp: a_def)
    then show ?thesis using IH(3) [OF k] False by simp
  qed
  moreover have "length r = length out" "take offset r = take offset out"
    using store_block_length [OF st] IH(1,2) store_block_take [OF st, of offset] by (simp_all add: a_def)
  ultimately show ?case unfolding r by blast
qed simp

theorem scatter_correct:
  assumes "n * 2 \<le> length positions" and "n * E \<le> length values" and "E = 4 \<or> E = 8"
    and "\<And>k. k < n \<Longrightarrow> offset + slot positions k * E + E \<le> length out"
  shows "\<exists>out'. (if E = 4 then hs_columnar_scatter_le_f32 positions values out offset n
       else hs_columnar_scatter_le_f64 positions values out offset n) = Some out' \<and>
    length out' = length out \<and> take offset out' = take offset out \<and>
    (\<forall>k. offset + k * E + E \<le> length out \<longrightarrow> take E (drop (offset + k * E) out') =
      (case filter (\<lambda>i. slot positions i = k) [0..<n] of
         [] \<Rightarrow> take E (drop (offset + k * E) out)
       | is \<Rightarrow> take E (drop (last is * E) values)))"
proof -
  have "(if E = 4 then hs_columnar_scatter_le_f32 positions values out offset n
      else hs_columnar_scatter_le_f64 positions values out offset n) =
      Some (foldl (put_at E positions values offset) out [0..<n])"
    using scatter_loop_eq [OF assms(1,2) _ _ le0 assms(4)] assms(3)
    by (auto simp: hs_columnar_scatter_le_f32_def hs_columnar_scatter_le_f64_def)
  then show ?thesis using scatter_slots [OF assms(2,4)] by auto
qed

text \<open>Three 5-bit rows from row 1 on, with the identity for the arithmetic, and two exceptions on one slot.\<close>

definition plain_fpu :: "u32 fpu" where
  "plain_fpu = \<lparr> cvt = (\<lambda>x. x), fmul = (\<lambda>x y. x * y) \<rparr>"

theorem unpack_for_example:
  "hs_columnar_unpack_for_f32 plain_fpu [0x41, 0x0C, 0x52] 3 (replicate 13 9) 1 1 3 5 100 1 1 =
     Some [9, 102, 0, 0, 0, 103, 0, 0, 0, 104, 0, 0, 0]"
  "hs_columnar_scatter_le_f32 [1, 0, 1, 0] [7, 0, 0, 0, 8, 0, 0, 0] (replicate 9 9) 1 2 = Some [9, 9, 9, 9, 9, 8, 0, 0, 0]"
  by code_simp+

end
