(* ===== verification/Spec2Isabelle.thy ===== *)
theory Spec2Isabelle
  imports Hpack_Huffman Fast_Scan Url_Decode Proto_Packed Proto_Text Proto_Words Proto_Tables Base64_Decode Lzo_Compress Http1_Text
    Pmd_Stream Crc_Division Bitmap_Count Bitmap_Copy Columnar_Views Columnar_Take
    Byte_Split Html_Scan Xml_Scan Hash Roaring Rng Magic_Ring
    Http1_Send Tls_Shim Iouring Decompress Codec_Sizes Host Packed_Float
begin

text \<open>
  \<^bold>\<open>The C kernels of wireform\<close>

  wireform is a set of Haskell libraries for wire formats and transports.  The work on bytes is done
  by C files (\<open>src/*/cbits\<close>) that the Haskell code calls on raw buffers.  This development models those
  files function by function and proves what each of them promises its callers.

  \<^bold>\<open>Parts, theories and sources\<close>

  Shared: \<open>Prelude\<close> (machine integers, checked buffer accesses, bit strings), \<open>Loops\<close> (counted loops with
  invariants), \<open>Simd\<close> (the SSE2 operations of \<open>simde/x86/sse2.h\<close> and the 16-byte scan loop), \<open>Neon\<close> (the
  NEON operations), \<open>Endian\<close> (words in memory, SWAR masks), \<open>Bit_Iter\<close> (the loop over the set bits of a
  mask), \<open>Ascii_Scan\<close> (the three-width search for a high bit).

  \<^item> Header compression, \<open>wireform-http2/cbits/hpack_huffman.c\<close>: \<open>Hpack_Table\<close> (both tables),
    \<open>Hpack_Automaton\<close> and \<open>Hpack_Code\<close> (the decoding automaton against the code words), \<open>Hpack_Huffman\<close>
    (encoder, length, decoder).
  \<^item> Scanning, \<open>wireform-core/cbits/fast_scan.c\<close>: \<open>Fast_Scan\<close>;  \<open>hermes/cbits/url_decode.c\<close>: \<open>Url_Decode\<close>;
    \<open>wireform-http1/cbits/http1_scan.c\<close>: \<open>Http1_Scan\<close>, \<open>Http1_Text\<close>;  \<open>wireform-html/cbits/html_scan.c\<close>:
    \<open>Html_Scan\<close>;  \<open>wireform-xml/cbits/fast_xml.c\<close>: \<open>Xml_Scan\<close>.
  \<^item> Protobuf, JSON, EDN, Parquet and Arrow kernels, \<open>wireform-core/cbits/fast_decode.c\<close>: \<open>Varint\<close>,
    \<open>Proto_Packed\<close>, \<open>Proto_Text\<close>, \<open>Proto_Words\<close>, \<open>Proto_Tables\<close>.
  \<^item> Codecs: \<open>wireform-core/cbits/base64.c\<close> in \<open>Base64\<close> (code), \<open>Base64_Digits\<close>, \<open>Base64_Codec\<close>, \<open>Base64_Decode\<close>;
    \<open>wireform-columnar-core/cbits/lzo.c\<close> in \<open>Lzo\<close> (code), \<open>Lzo_Copy\<close>, \<open>Lzo_Decode\<close>, \<open>Lzo_Match\<close>, \<open>Lzo_Compress\<close>;
    \<open>byte_stream_split.c\<close> in \<open>Byte_Split\<close>; \<open>packed_float.c\<close> in \<open>Packed_Float\<close>.
  \<^item> Columnar arrays, \<open>wireform-columnar-core/cbits/columnar_simd.c\<close>: \<open>Bitmap\<close>, \<open>Bitmap_Count\<close>, \<open>Bitmap_Copy\<close>,
    \<open>Columnar_Check\<close> (validators) with \<open>Columnar_Valid\<close> and \<open>Columnar_Views\<close>, \<open>Columnar_Take\<close>.
  \<^item> Checksums and hashes: \<open>wireform-kafka/cbits/crc32c.c\<close> in \<open>Crc32c\<close>, \<open>Crc_Division\<close>;
    \<open>wireform-core/cbits/wireform_hash_simd.c\<close> in \<open>Hash\<close> (Murmur3, XXH64) and \<open>Roaring\<close> (bitmap containers).
  \<^item> Compression shims over libraries: \<open>wireform-websocket/cbits/wf_pmd.c\<close> in \<open>Pmd\<close>, \<open>Pmd_Stream\<close>;
    \<open>wireform-kafka/cbits/wireform_decompress.c\<close>, \<open>lz4_ffi.c\<close>, \<open>snappy_ffi.c\<close> in \<open>Decompress\<close>, \<open>Codec_Sizes\<close>.
  \<^item> Host and transport: \<open>wireform-core/cbits/fast_rng.c\<close> in \<open>Rng\<close>; \<open>magic_ring_linux.c\<close> and
    \<open>magic_ring_posix.c\<close> in \<open>Magic_Ring\<close>; \<open>wireform-network/cbits/iouring_glue.c\<close> in \<open>Iouring\<close>,
    \<open>wireform_openssl.c\<close> in \<open>Tls_Shim\<close>, \<open>wireform_affinity.c\<close> and \<open>wireform-kafka/cbits/wireform_time.c\<close> in
    \<open>Host\<close>; \<open>wireform-http1/cbits/http1_send.c\<close> in \<open>Http1_Send\<close>.

  The kernels do not call each other across files; they meet in the data.  A transport (\<open>Iouring\<close>,
  \<open>Tls_Shim\<close>) fills a double-mapped ring (\<open>Magic_Ring\<close>); the parsers scan it (\<open>Http1_Scan\<close>, \<open>Hpack_Huffman\<close>,
  \<open>Varint\<close>, \<open>Xml_Scan\<close>); unmasking, inflating and checksums run over the same bytes (\<open>Fast_Scan\<close>,
  \<open>Pmd\<close>, \<open>Decompress\<close>, \<open>Crc32c\<close>); columnar pages are validated before they are gathered (\<open>Columnar_Check\<close>, then
  \<open>Columnar_Take\<close>), and what the validators prove is what the takes assume.

  \<^bold>\<open>How the code is read\<close>

  A C buffer is the list of its bytes.  Every access is a checked one (\<open>load\<close>, \<open>store\<close>, \<open>load_block\<close>,
  \<open>store_block\<close>) that returns \<open>None\<close> outside the buffer, which is undefined behaviour in C; a theorem that a
  kernel returns \<open>Some\<close> therefore states its memory safety, and frames (\<open>drop n dst' = drop n dst\<close> and the
  like) state what it leaves alone.  Fixed-width integers are words of that width where they can wrap;
  a \<open>size_t\<close> or \<open>int\<close> that the code keeps inside a buffer is a \<open>nat\<close> or \<open>int\<close>, and the theorems bound it where
  the width matters.  Memory is little-endian.  Where a function may work in place (\<open>Url_Decode\<close>, \<open>Http1_Text\<close>),
  both pointers are addresses in one memory.  Where the code asks for the alignment of a pointer
  (\<open>Fast_Scan\<close>, \<open>Xml_Scan\<close>), the base address is an argument.  Where a source has several builds (\<open>Html_Scan\<close>:
  NEON, SSE2, scalar; \<open>Http1_Send\<close>: the platforms), the build is an argument.

  \<^bold>\<open>What the lemmas show\<close>

  Scanners return the first position of a byte set given by a predicate, for every alignment and in
  every build.  Decoders accept exactly the encodings of an independently stated format and return its
  value (HPACK, varints, UTF-8, base64, LZO1X, percent-escapes); encoders invert them.  Validators return
  the first row that breaks its rule and never read outside their tables.  Bit-level copies, transposes,
  takes and set containers are compared with one-line specifications over positions.  CRC-32C is the
  remainder of a polynomial division, with what it detects; Murmur3 is compared with a block-wise
  recursion and published digests, XXH64 with its published description written on plain integers.
  State machines (the deflate shim, the generator, the io_uring transport) have reachable-state invariants by rule
  induction.  Creation routines (\<open>Magic_Ring\<close>, \<open>Iouring\<close>, the codec wrappers, the ALPN list) release what they
  took on every failure path and keep the error that is reported.

  Interfaces are locales, each interpreted on the model's own definitions: \<open>prefix_code\<close> (on the HPACK code
  words), \<open>lane_test\<close> (a vector mask decides a byte predicate; on the tests of \<open>Fast_Scan\<close>, \<open>Url_Decode\<close>,
  \<open>Proto_Text\<close>, \<open>Http1_Scan\<close>, \<open>Xml_Scan\<close>), \<open>hit_test\<close> and its union \<open>scan_test\<close> (the same for NEON, on the five tests
  of \<open>Html_Scan\<close>), \<open>stream_codec\<close> and its extension \<open>strict_codec\<close> (self-delimiting elements; on varints and on
  UTF-8), \<open>key_limit\<close> (the clamp of a dictionary bound; on the eight key types), \<open>take_pass\<close> (one iteration of
  the offsets pass of a take; on both widths).

  \<^bold>\<open>Loops and bounds\<close>

  No fuel is used.  A loop is a \<open>function\<close> whose measure is what is left of its input, or a
  \<open>partial_function (option)\<close> where returning depends on the data or on a library (\<open>Pmd\<close>, \<open>Decompress\<close>, two loops
  of \<open>Lzo\<close>); for those a theorem states that they return.  Buffer lengths are unbounded unless the
  statement bounds them; the bounds are those of the C types (lengths below \<open>2 ^ 64\<close>, \<open>int\<close> results, the
  \<open>UINT32_MAX\<close> limit of the LZO compressor, \<open>2 ^ 62\<close> bytes for the size guard of zstd).

  \<^bold>\<open>Parameters\<close>

  Code outside the repository is an argument, with its documented behaviour as a named hypothesis and a
  concrete instance in a witness: zlib (\<open>Pmd_Stream\<close>, \<open>Decompress\<close>), liblz4 (\<open>Decompress\<close>), libzstd and snappy
  (\<open>Codec_Sizes\<close>), OpenSSL (\<open>Tls_Shim\<close>), and the answers of the operating system (\<open>Magic_Ring\<close>, \<open>Iouring\<close>,
  \<open>Http1_Send\<close>, \<open>Rng\<close>, \<open>Host\<close>), and the machine's floating-point conversion and product (\<open>Packed_Float\<close>).  The compile-time constants \<open>WF_PMD_CHUNK\<close> and \<open>WF_DECOMPRESS_ZCHUNK\<close> and the result
  of each \<open>malloc\<close> are arguments too.

  \<^bold>\<open>Not modelled\<close>

  \<open>magic_ring_windows.c\<close> and the \<open>_WIN32\<close> branches of
  \<open>http1_send.c\<close>; the calls of \<open>wireform_openssl.c\<close> that only configure OpenSSL; the FreeBSD anonymous
  \<open>shm_open\<close> of \<open>magic_ring_posix.c\<close>, and 32-bit \<open>size_t\<close>; how \<open>fast_rng.c\<close> obtains kernel entropy on each
  platform; the vendored simde headers beyond the operations used; the C test harness and benchmarks;
  and the Haskell packages.  Data races and the compiler are outside the model: each call runs alone.
\<close>

end
